(* ===== verification/Prelude.thy ===== *)
theory Prelude
  imports Main "HOL-Library.Word" "HOL-Library.Multiset"
begin

text \<open>
  Shared vocabulary of the development: bytes and little-endian integers as the C++ code
  lays them out in memory (\<open>memcpy\<close> and \<open>reinterpret_cast\<close> of a 32 or 64 bit integer), the
  outcome of a C++ call that may terminate the process, read outside its memory or spin for
  ever, the slices \<open>memcpy\<close> moves, and the generic lemmas on lists the components use.
\<close>

named_theorems bytes_simps \<open>lengths and round trips of byte encodings\<close>
named_theorems outcome_simps \<open>computation rules of outcomes\<close>

type_synonym byte = "8 word"
type_synonym bytes = "8 word list"

section \<open>Outcomes\<close>

text \<open>
  \<open>Ret\<close>: the call returned. \<open>ExitProcess n\<close>: it called \<open>exit(n)\<close>. \<open>Fault\<close>: it touched memory
  it does not own (undefined behaviour in C++) or threw an exception nobody catches. \<open>Hang\<close>: it spins on a queue nobody fills.
\<close>

datatype 'a outcome = Ret 'a | ExitProcess int | Fault | Hang

fun andThen :: "'a outcome \<Rightarrow> ('a \<Rightarrow> 'b outcome) \<Rightarrow> 'b outcome" where
  "andThen (Ret x) f = f x"
| "andThen (ExitProcess n) f = ExitProcess n"
| "andThen Fault f = Fault"
| "andThen Hang f = Hang"

declare andThen.simps [outcome_simps]

lemma andThen_Ret_iff: "andThen m f = Ret y \<longleftrightarrow> (\<exists>x. m = Ret x \<and> f x = Ret y)"
  by (cases m) auto

lemma andThen_assoc: "andThen (andThen m f) g = andThen m (\<lambda>x. andThen (f x) g)"
  by (cases m) auto

text \<open>A checked read: a missing value is a memory fault.\<close>

definition deref :: "'a option \<Rightarrow> 'a outcome" where
  "deref x = (case x of None \<Rightarrow> Fault | Some v \<Rightarrow> Ret v)"

lemma deref_simps [simp, outcome_simps]: "deref None = Fault" "deref (Some v) = Ret v"
  by (simp_all add: deref_def)

lemma deref_Ret_iff: "deref x = Ret v \<longleftrightarrow> x = Some v"
  by (cases x) auto

section \<open>Little-endian integers\<close>

fun enc_int :: "nat \<Rightarrow> int \<Rightarrow> bytes" where
  "enc_int 0 x = []"
| "enc_int (Suc n) x = word_of_int x # enc_int n (x div 256)"

fun dec_uint :: "bytes \<Rightarrow> int" where
  "dec_uint [] = 0"
| "dec_uint (b # bs) = uint b + 256 * dec_uint bs"

definition dec_sint :: "bytes \<Rightarrow> int" where
  "dec_sint bs =
     (let u = dec_uint bs; m = 256 ^ length bs
      in if 2 * u < m then u else u - m)"

lemma length_enc_int [simp, bytes_simps]: "length (enc_int n x) = n"
  by (induction n arbitrary: x) auto

lemma dec_uint_enc_int: "dec_uint (enc_int n x) = x mod 256 ^ n"
proof (induction n arbitrary: x)
  case 0
  then show ?case by simp
next
  case (Suc n)
  have "uint (word_of_int x :: byte) = x mod 256"
    by (simp add: uint_word_of_int)
  with Suc.IH [of "x div 256"] show ?case
    by (simp add: zmod_zmult2_eq)
qed

lemma dec_uint_range: "0 \<le> dec_uint bs \<and> dec_uint bs < 256 ^ length bs"
proof (induction bs)
  case Nil
  then show ?case by simp
next
  case (Cons b bs)
  have "uint b < 256" using uint_lt2p [of b] by simp
  moreover have "0 \<le> uint b" by simp
  ultimately show ?case using Cons by auto
qed

lemma dec_uint_enc_id [bytes_simps]: "0 \<le> x \<Longrightarrow> x < 256 ^ n \<Longrightarrow> dec_uint (enc_int n x) = x"
  by (simp add: dec_uint_enc_int)

lemma dec_sint_enc_int:
  assumes "- (256 ^ n) \<le> 2 * x" and "2 * x < 256 ^ n"
  shows "dec_sint (enc_int n x) = x"
proof (cases "0 \<le> x")
  case True
  with assms have "x mod 256 ^ n = x" by simp
  with assms True show ?thesis
    by (simp add: dec_sint_def Let_def dec_uint_enc_int)
next
  case False
  with assms have "x < 0" "- (256 ^ n) \<le> x" by auto
  then have "(x + 256 ^ n) mod 256 ^ n = x + 256 ^ n"
    by (intro mod_pos_pos_trivial) auto
  then have "x mod 256 ^ n = x + 256 ^ n"
    by simp
  with assms False show ?thesis
    by (simp add: dec_sint_def Let_def dec_uint_enc_int)
qed

lemma enc_int_dec_uint: "enc_int (length bs) (dec_uint bs) = bs"
proof (induction bs)
  case Nil
  then show ?case by simp
next
  case (Cons b bs)
  have lt: "uint b < 256" using uint_lt2p [of b] by simp
  then have "(uint b + 256 * dec_uint bs) div 256 = dec_uint bs"
    by simp
  moreover have "word_of_int (uint b + 256 * dec_uint bs) = b"
  proof -
    have z: "(256 :: byte) = 0" by simp
    show ?thesis by (simp add: z)
  qed
  ultimately show ?case using Cons by simp
qed

text \<open>\<open>SizeType\<close> is \<open>std::int32_t\<close>: 4 bytes; \<open>AddressType\<close> and \<open>uintptr_t\<close> are 8 bytes.\<close>

definition int32_ok :: "int \<Rightarrow> bool" where
  "int32_ok x \<longleftrightarrow> - (2 ^ 31) \<le> x \<and> x < 2 ^ 31"

lemma dec_enc_int32 [bytes_simps]: "int32_ok x \<Longrightarrow> dec_sint (enc_int 4 x) = x"
  by (rule dec_sint_enc_int) (auto simp: int32_ok_def)

section \<open>Slices of buffers\<close>

text \<open>
  \<open>slice\<close> is a read of \<open>n\<close> bytes at offset \<open>off\<close>, \<open>blit\<close> a \<open>memcpy\<close> into a buffer; both
  fail when the range is not inside the buffer.
\<close>

definition slice :: "'a list \<Rightarrow> int \<Rightarrow> nat \<Rightarrow> 'a list option" where
  "slice buf off n =
     (if 0 \<le> off \<and> off + int n \<le> int (length buf)
      then Some (take n (drop (nat off) buf)) else None)"

definition blit :: "'a list \<Rightarrow> int \<Rightarrow> 'a list \<Rightarrow> 'a list option" where
  "blit buf off xs =
     (if 0 \<le> off \<and> off + int (length xs) \<le> int (length buf)
      then Some (take (nat off) buf @ xs @ drop (nat off + length xs) buf) else None)"

lemma length_blit: "blit buf off xs = Some buf' \<Longrightarrow> length buf' = length buf"
  by (auto simp: blit_def split: if_splits)

lemma length_slice: "slice buf off n = Some xs \<Longrightarrow> length xs = n"
  by (auto simp: slice_def split: if_splits)

lemma slice_blit_same:
  "blit buf off xs = Some buf' \<Longrightarrow> slice buf' off (length xs) = Some xs"
  by (auto simp: blit_def slice_def split: if_splits)

lemma nth_blit:
  assumes "blit buf off xs = Some buf'" and "i < length buf"
  shows "buf' ! i = (if nat off \<le> i \<and> i < nat off + length xs then xs ! (i - nat off) else buf ! i)"
  using assms by (auto simp: blit_def nth_append min_def split: if_splits)

lemma slice_nth:
  assumes "slice buf off n = Some xs" and "i < n"
  shows "xs ! i = buf ! (nat off + i)"
  using assms by (auto simp: slice_def split: if_splits)

lemma slice_blit_disjoint:
  assumes b: "blit buf off xs = Some buf'"
    and d: "off' + int n \<le> off \<or> off + int (length xs) \<le> off'"
  shows "slice buf' off' n = slice buf off' n"
proof (cases "0 \<le> off' \<and> off' + int n \<le> int (length buf)")
  case False
  then show ?thesis using length_blit [OF b] by (auto simp: slice_def)
next
  case True
  have l: "length buf' = length buf" using b by (rule length_blit)
  have o: "0 \<le> off" using b by (auto simp: blit_def split: if_splits)
  have "take n (drop (nat off') buf') = take n (drop (nat off') buf)"
  proof (rule nth_equalityI)
    show "length (take n (drop (nat off') buf')) = length (take n (drop (nat off') buf))"
      using l by simp
  next
    fix i assume "i < length (take n (drop (nat off') buf'))"
    then have i: "i < n" "nat off' + i < length buf" using l True by auto
    have "\<not> (nat off \<le> nat off' + i \<and> nat off' + i < nat off + length xs)"
      using d i True o by (auto simp: nat_le_iff)
    then have "buf' ! (nat off' + i) = buf ! (nat off' + i)"
      using nth_blit [OF b i(2)] by metis
    then show "take n (drop (nat off') buf') ! i = take n (drop (nat off') buf) ! i"
      using i l by simp
  qed
  then show ?thesis using True l by (simp add: slice_def)
qed

lemma slice_Some:
  "0 \<le> off \<Longrightarrow> off + int n \<le> int (length buf) \<Longrightarrow> \<exists>xs. slice buf off n = Some xs \<and> length xs = n"
  by (auto simp: slice_def)

lemma div_less_int:
  fixes k m n :: int
  assumes "0 < m" and "k < m * n"
  shows "k div m < n"
proof (rule ccontr)
  assume "\<not> k div m < n"
  then have "m * n \<le> m * (k div m)" using assms(1) by simp
  also have "\<dots> \<le> k" using assms(1) by (simp add: minus_mod_eq_mult_div [symmetric])
  finally show False using assms(2) by simp
qed

lemma slice_append_left: "off + int n \<le> int (length xs) \<Longrightarrow> slice (xs @ ys) off n = slice xs off n"
  by (auto simp: slice_def)

section \<open>Checked arrays\<close>

text \<open>An element read and an element written by index; both fault outside the array.\<close>

definition vecAt :: "'a list \<Rightarrow> int \<Rightarrow> 'a outcome" where
  "vecAt xs i = (if 0 \<le> i \<and> i < int (length xs) then Ret (xs ! nat i) else Fault)"

definition vecSet :: "'a list \<Rightarrow> int \<Rightarrow> 'a \<Rightarrow> 'a list outcome" where
  "vecSet xs i v = (if 0 \<le> i \<and> i < int (length xs) then Ret (xs[nat i := v]) else Fault)"

text \<open>\<open>std::swap(xs[i], xs[j])\<close>.\<close>

definition vecSwap :: "'a list \<Rightarrow> int \<Rightarrow> int \<Rightarrow> 'a list outcome" where
  "vecSwap xs i j = andThen (vecAt xs i) (\<lambda>a. andThen (vecAt xs j) (\<lambda>b. Ret (xs[nat i := b, nat j := a])))"

text \<open>A loop whose body may fault, over the values of its counter.\<close>

fun loopOver :: "('a \<Rightarrow> 's \<Rightarrow> 's outcome) \<Rightarrow> 'a list \<Rightarrow> 's \<Rightarrow> 's outcome" where
  "loopOver body [] s = Ret s"
| "loopOver body (x # xs) s = andThen (body x s) (loopOver body xs)"

lemma vecAt_ok [outcome_simps]: "0 \<le> i \<Longrightarrow> i < int (length xs) \<Longrightarrow> vecAt xs i = Ret (xs ! nat i)"
  by (simp add: vecAt_def)

lemma vecSet_ok [outcome_simps]: "0 \<le> i \<Longrightarrow> i < int (length xs) \<Longrightarrow> vecSet xs i v = Ret (xs[nat i := v])"
  by (simp add: vecSet_def)

lemma vecSwap_ok [outcome_simps]:
  "0 \<le> i \<Longrightarrow> i < int (length xs) \<Longrightarrow> 0 \<le> j \<Longrightarrow> j < int (length xs)
    \<Longrightarrow> vecSwap xs i j = Ret (xs[nat i := xs ! nat j, nat j := xs ! nat i])"
  by (simp add: vecSwap_def outcome_simps)

lemma vecAt_nat [outcome_simps]: "k < length xs \<Longrightarrow> vecAt xs (int k) = Ret (xs ! k)"
  by (simp add: vecAt_def)

lemma vecSet_nat [outcome_simps]: "k < length xs \<Longrightarrow> vecSet xs (int k) v = Ret (xs[k := v])"
  by (simp add: vecSet_def)

lemma loopOver_append: "loopOver body (xs @ ys) s = andThen (loopOver body xs s) (loopOver body ys)"
proof (induction xs arbitrary: s)
  case Nil
  then show ?case by simp
next
  case (Cons x xs)
  then have "loopOver body (xs @ ys) = (\<lambda>s. andThen (loopOver body xs s) (loopOver body ys))" by blast
  then show ?case by (simp add: andThen_assoc)
qed

text \<open>A loop keeps an invariant and does not fault when its body does so at every step.\<close>

lemma loopOver_inv:
  assumes "I [] s" and "\<And>done x rest s. xs = done @ x # rest \<Longrightarrow> I done s \<Longrightarrow> \<exists>s'. body x s = Ret s' \<and> I (done @ [x]) s'"
  shows "\<exists>s'. loopOver body xs s = Ret s' \<and> I xs s'"
  using assms
proof (induction xs arbitrary: s rule: rev_induct)
  case Nil
  then show ?case by simp
next
  case (snoc x xs)
  have "\<exists>s'. loopOver body xs s = Ret s' \<and> I xs s'"
    by (rule snoc.IH [OF snoc.prems(1)]) (use snoc.prems(2) in auto)
  then obtain s' where s': "loopOver body xs s = Ret s'" "I xs s'" by blast
  obtain s'' where "body x s' = Ret s''" "I (xs @ [x]) s''" using snoc.prems(2) [of xs x "[]", OF _ s'(2)] by auto
  then show ?case by (auto simp: loopOver_append s')
qed

lemma mod_range: "low < high \<Longrightarrow> low \<le> low + x mod (high - low) \<and> low + x mod (high - low) < (high :: int)"
  using pos_mod_bound [of "high - low" x] pos_mod_sign [of "high - low" x] by linarith

end
