(* ===== verification/CommonDefs.thy ===== *)
theory CommonDefs
  imports Prelude
begin

text \<open>
  The definitions every component shares: the error codes of
  AnnService/inc/Core/DefinitionList.h with their values, the constants of
  AnnService/inc/Core/Common.h, and the byte streams behind
  \<open>Helper::DiskIO\<close> (AnnService/inc/Helper/DiskIO.h) with the macro \<open>IOBINARY\<close>.
\<close>

section \<open>Error codes\<close>

datatype ErrorCode =
  Success | Fail | FailedOpenFile | FailedCreateFile
| ParamNotFound | FailedParseValue | MemoryOverFlow | LackOfInputs | VectorNotFound
| EmptyIndex | EmptyData | DimensionSizeMismatch | ExternalAbort | EmptyDiskIO | DiskIOFail
| ReadIni_FailedParseSection | ReadIni_FailedParseParam | ReadIni_DuplicatedSection
| ReadIni_DuplicatedParam
| Socket_FailedResolveEndPoint | Socket_FailedConnectToEndPoint
| Undefined

fun errorCodeValue :: "ErrorCode \<Rightarrow> 16 word" where
  "errorCodeValue Success = 0x0000"
| "errorCodeValue Fail = 0x0001"
| "errorCodeValue FailedOpenFile = 0x0002"
| "errorCodeValue FailedCreateFile = 0x0003"
| "errorCodeValue ParamNotFound = 0x0010"
| "errorCodeValue FailedParseValue = 0x0011"
| "errorCodeValue MemoryOverFlow = 0x0012"
| "errorCodeValue LackOfInputs = 0x0013"
| "errorCodeValue VectorNotFound = 0x0014"
| "errorCodeValue EmptyIndex = 0x0015"
| "errorCodeValue EmptyData = 0x0016"
| "errorCodeValue DimensionSizeMismatch = 0x0017"
| "errorCodeValue ExternalAbort = 0x0018"
| "errorCodeValue EmptyDiskIO = 0x0019"
| "errorCodeValue DiskIOFail = 0x0020"
| "errorCodeValue ReadIni_FailedParseSection = 0x3000"
| "errorCodeValue ReadIni_FailedParseParam = 0x3001"
| "errorCodeValue ReadIni_DuplicatedSection = 0x3002"
| "errorCodeValue ReadIni_DuplicatedParam = 0x3003"
| "errorCodeValue Socket_FailedResolveEndPoint = 0x4000"
| "errorCodeValue Socket_FailedConnectToEndPoint = 0x4001"
| "errorCodeValue Undefined = 0x4002"

text \<open>
  The enumerators are pairwise different on the wire, and \<open>Undefined\<close> is not 0, as the
  \<open>static_assert\<close> of Common.h demands.
\<close>

lemma errorCodeValue_inj: "errorCodeValue a = errorCodeValue b \<longleftrightarrow> a = b"
  by (cases a; cases b) simp_all

section \<open>Constants\<close>

definition MaxSize :: int where "MaxSize = 2 ^ 31 - 1"
definition PageSize :: nat where "PageSize = 4096"
definition PageSizeEx :: nat where "PageSizeEx = 12"

lemma PageSize_power: "PageSize = 2 ^ PageSizeEx"
  by (simp add: PageSize_def PageSizeEx_def)

lemma PageSize_pos [simp]: "0 < PageSize"
  by (simp add: PageSize_def)

text \<open>\<open>(n + PageSize - 1) >> PageSizeEx\<close>: the pages that hold \<open>n\<close> bytes.\<close>

definition pagesOf :: "nat \<Rightarrow> nat" where
  "pagesOf n = drop_bit PageSizeEx (n + PageSize - 1)"

lemma pagesOf_div: "pagesOf n = (n + PageSize - 1) div PageSize"
  by (simp add: pagesOf_def PageSize_power drop_bit_eq_div)

lemma pagesOf_bounds: "n \<le> pagesOf n * PageSize \<and> pagesOf n * PageSize < n + PageSize"
proof -
  have "pagesOf n = (n + 4095) div 4096" by (simp add: pagesOf_div PageSize_def)
  moreover have "(n + 4095) div 4096 * 4096 + (n + 4095) mod 4096 = n + 4095"
    by simp
  moreover have "(n + 4095) mod 4096 < (4096 :: nat)" by simp
  ultimately show ?thesis unfolding PageSize_def by linarith
qed

lemma pagesOf_0 [simp]: "pagesOf 0 = 0"
  by (simp add: pagesOf_div PageSize_def)

lemma pagesOf_mono: "m \<le> n \<Longrightarrow> pagesOf m \<le> pagesOf n"
  by (simp add: pagesOf_div div_le_mono)

lemma pagesOf_less: "i < pagesOf n \<longleftrightarrow> i * PageSize < n"
proof -
  have "pagesOf n = (n + 4095) div 4096" by (simp add: pagesOf_div PageSize_def)
  then show ?thesis by (auto simp: PageSize_def)
qed

section \<open>Byte streams: DiskIO\<close>

text \<open>
  An output stream holds what was written and the room left (\<open>None\<close>: unlimited); a write that
  does not fit returns 0, as \<open>SimpleFileIO\<close> and \<open>SimpleBufferIO\<close> do. An input stream is the
  bytes not read yet; a short read returns the number of bytes it got.
\<close>

record ostream =
  os_data :: bytes
  os_room :: "nat option"

type_synonym istream = bytes

definition WriteBinary :: "ostream \<Rightarrow> bytes \<Rightarrow> nat \<times> ostream" where
  "WriteBinary os bs =
     (case os_room os of
        None \<Rightarrow> (length bs, os\<lparr>os_data := os_data os @ bs\<rparr>)
      | Some r \<Rightarrow>
          if length bs \<le> r
          then (length bs, os\<lparr>os_data := os_data os @ bs, os_room := Some (r - length bs)\<rparr>)
          else (0, os\<lparr>os_data := os_data os @ take r bs, os_room := Some 0\<rparr>))"

definition ReadBinary :: "istream \<Rightarrow> nat \<Rightarrow> nat \<times> bytes \<times> istream" where
  "ReadBinary inp n = (let got = take n inp in (length got, got, drop n inp))"

text \<open>\<open>IOBINARY(ptr, func, bytes, ...)\<close>: return \<open>DiskIOFail\<close> unless all bytes were moved.\<close>

definition ioWrite :: "ostream \<Rightarrow> bytes \<Rightarrow> ErrorCode + ostream" where
  "ioWrite os bs =
     (case WriteBinary os bs of (n, os') \<Rightarrow> if n \<noteq> length bs then Inl DiskIOFail else Inr os')"

definition ioRead :: "istream \<Rightarrow> nat \<Rightarrow> ErrorCode + bytes \<times> istream" where
  "ioRead inp n =
     (case ReadBinary inp n of (m, got, inp') \<Rightarrow> if m \<noteq> n then Inl DiskIOFail else Inr (got, inp'))"

fun ioWriteAll :: "ostream \<Rightarrow> bytes list \<Rightarrow> ErrorCode + ostream" where
  "ioWriteAll os [] = Inr os"
| "ioWriteAll os (bs # rest) =
     (case ioWrite os bs of Inl e \<Rightarrow> Inl e | Inr os' \<Rightarrow> ioWriteAll os' rest)"

fun ioReadAll :: "istream \<Rightarrow> nat \<Rightarrow> nat \<Rightarrow> ErrorCode + bytes list \<times> istream" where
  "ioReadAll inp n 0 = Inr ([], inp)"
| "ioReadAll inp n (Suc k) =
     (case ioRead inp n of
        Inl e \<Rightarrow> Inl e
      | Inr (bs, inp') \<Rightarrow>
          (case ioReadAll inp' n k of
             Inl e \<Rightarrow> Inl e
           | Inr (rest, inp'') \<Rightarrow> Inr (bs # rest, inp'')))"

lemma ioRead_append [simp]: "length bs = n \<Longrightarrow> ioRead (bs @ rest) n = Inr (bs, rest)"
  by (simp add: ioRead_def ReadBinary_def Let_def)

lemma ioRead_short: "length inp < n \<Longrightarrow> ioRead inp n = Inl DiskIOFail"
  by (simp add: ioRead_def ReadBinary_def Let_def)

lemma ioWrite_Inr:
  "ioWrite os bs = Inr os' \<Longrightarrow> os_data os' = os_data os @ bs"
  by (cases bs) (auto simp: ioWrite_def WriteBinary_def split: option.splits if_splits)

lemma ioWrite_unlimited:
  "os_room os = None \<Longrightarrow> ioWrite os bs = Inr (os\<lparr>os_data := os_data os @ bs\<rparr>)"
  by (simp add: ioWrite_def WriteBinary_def)

lemma ioWriteAll_Inr:
  "ioWriteAll os bss = Inr os' \<Longrightarrow> os_data os' = os_data os @ concat bss"
  by (induction os bss rule: ioWriteAll.induct) (auto dest: ioWrite_Inr split: sum.splits)

lemma ioWriteAll_unlimited:
  "os_room os = None \<Longrightarrow> ioWriteAll os bss = Inr (os\<lparr>os_data := os_data os @ concat bss\<rparr>)"
  by (induction os bss rule: ioWriteAll.induct) (auto simp: ioWrite_unlimited)

lemma ioReadAll_concat:
  "\<forall>bs \<in> set bss. length bs = n \<Longrightarrow>
   ioReadAll (concat bss @ rest) n (length bss) = Inr (bss, rest)"
  by (induction bss) auto

lemma ioRead_Inr: "ioRead inp n = Inr (bs, r) \<Longrightarrow> length bs = n \<and> inp = bs @ r"
  by (auto simp: ioRead_def ReadBinary_def Let_def split: if_splits)

lemma ioReadAll_Inr:
  "ioReadAll inp n k = Inr (bss, rest) \<Longrightarrow>
   length bss = k \<and> (\<forall>bs \<in> set bss. length bs = n) \<and> inp = concat bss @ rest"
proof (induction k arbitrary: inp bss rest)
  case 0
  then show ?case by simp
next
  case (Suc k)
  from Suc.prems obtain bs inp' bss' where
    r: "ioRead inp n = Inr (bs, inp')" "ioReadAll inp' n k = Inr (bss', rest)" "bss = bs # bss'"
    by (auto split: sum.splits)
  from Suc.IH [OF r(2)] ioRead_Inr [OF r(1)] r(3) show ?case by auto
qed

end
