(* ===== verification/DatasetStore.thy ===== *)
theory DatasetStore
  imports CommonDefs
begin

unbundle bit_operations_syntax

text \<open>
  \<open>COMMON::Dataset<T>\<close> of AnnService/inc/Core/Common/Dataset.h, at the level of the bytes it
  moves: a first buffer of \<open>rows\<close> rows and a growing list of blocks of \<open>rowsInBlock + 1\<close> rows
  (a power of two), rows \<open>cols\<close> bytes apart, of which \<open>mycols * sizeof(T)\<close> bytes from
  \<open>colStart\<close> belong to this dataset. A read or write outside the allocated bytes is \<open>None\<close>.
  The field \<open>ds_elem\<close> is \<open>sizeof(T)\<close>. Buffers are values here: the aliasing of
  \<open>LoadOptDatasets\<close>, where two datasets share their memory, is not modelled, and an allocation
  never returns a null pointer (\<open>operator new\<close> throws).
\<close>

section \<open>State\<close>

record dataset =
  ds_rows :: int
  ds_cols :: nat
  ds_data :: "bytes option"
  ds_incRows :: int
  ds_maxRows :: int
  ds_rowsInBlock :: int
  ds_rowsInBlockEx :: nat
  ds_incBlocks :: "bytes list"
  ds_colStart :: nat
  ds_mycols :: nat
  ds_elem :: nat

definition ds_new :: "nat \<Rightarrow> dataset" where
  "ds_new elem = \<lparr>ds_rows = 0, ds_cols = 1, ds_data = None, ds_incRows = 0, ds_maxRows = 0,
     ds_rowsInBlock = 0, ds_rowsInBlockEx = 0, ds_incBlocks = [], ds_colStart = 0,
     ds_mycols = 0, ds_elem = elem\<rparr>"

text \<open>\<open>ceil(log2(n))\<close>: the least exponent whose power of two reaches \<open>n\<close>.\<close>

fun ceil_log2 :: "nat \<Rightarrow> nat" where
  "ceil_log2 n = (if n \<le> 1 then 0 else Suc (ceil_log2 ((n + 1) div 2)))"

declare ceil_log2.simps [simp del]

lemma ceil_log2_ge: "n \<le> 2 ^ ceil_log2 n"
proof (induction n rule: ceil_log2.induct)
  case (1 n)
  show ?case
  proof (cases "n \<le> 1")
    case True
    then show ?thesis by (simp add: ceil_log2.simps)
  next
    case False
    then have "(n + 1) div 2 \<le> 2 ^ ceil_log2 ((n + 1) div 2)" by (rule 1)
    with False show ?thesis by (subst ceil_log2.simps) simp
  qed
qed

section \<open>Operations\<close>

definition ds_R :: "dataset \<Rightarrow> int" where
  "ds_R ds = ds_rows ds + ds_incRows ds"

definition ds_C :: "dataset \<Rightarrow> nat" where
  "ds_C ds = ds_mycols ds"

definition ds_rowBytes :: "dataset \<Rightarrow> nat" where
  "ds_rowBytes ds = ds_mycols ds * ds_elem ds"

definition ds_BufferSize :: "dataset \<Rightarrow> int" where
  "ds_BufferSize ds = 4 + 4 + int (ds_elem ds) * ds_R ds * int (ds_C ds)"

definition ds_Initialize ::
  "dataset \<Rightarrow> int \<Rightarrow> nat \<Rightarrow> nat \<Rightarrow> int \<Rightarrow> bytes option \<Rightarrow> bool \<Rightarrow> nat \<Rightarrow> int \<Rightarrow> dataset outcome" where
  "ds_Initialize ds rows cols rowsInBlock capacity data shareOwnership colStart rowEnd =
     (let stride = (if rowEnd \<ge> int colStart then nat rowEnd else cols * ds_elem ds);
          n = nat rows * stride;
          ex = ceil_log2 rowsInBlock
      in andThen
           (case data of
              None \<Rightarrow> Ret (replicate n 255)
            | Some d \<Rightarrow> if shareOwnership then Ret d else deref (slice d 0 n))
           (\<lambda>buf. Ret (ds\<lparr>ds_rows := rows, ds_cols := stride, ds_data := Some buf,
              ds_maxRows := capacity, ds_rowsInBlock := 2 ^ ex - 1, ds_rowsInBlockEx := ex,
              ds_incBlocks := [], ds_colStart := colStart, ds_mycols := cols\<rparr>)))"

definition ds_SetR :: "dataset \<Rightarrow> int \<Rightarrow> dataset" where
  "ds_SetR ds r =
     (if r \<ge> ds_rows ds then ds\<lparr>ds_incRows := r - ds_rows ds\<rparr>
      else ds\<lparr>ds_rows := r, ds_incRows := 0\<rparr>)"

text \<open>\<open>At\<close>: the address of a row, as the buffer it lies in and the offset there.\<close>

datatype ds_addr = InData int | InBlock int int

definition ds_At :: "dataset \<Rightarrow> int \<Rightarrow> ds_addr" where
  "ds_At ds index =
     (if index \<ge> ds_rows ds
      then let incIndex = index - ds_rows ds
           in InBlock (drop_bit (ds_rowsInBlockEx ds) incIndex)
                ((incIndex AND ds_rowsInBlock ds) * int (ds_cols ds) + int (ds_colStart ds))
      else InData (index * int (ds_cols ds) + int (ds_colStart ds)))"

definition blockAt :: "bytes list \<Rightarrow> int \<Rightarrow> bytes option" where
  "blockAt blocks i = (if 0 \<le> i \<and> i < int (length blocks) then Some (blocks ! nat i) else None)"

definition ds_read :: "dataset \<Rightarrow> int \<Rightarrow> bytes option" where
  "ds_read ds index =
     (case ds_At ds index of
        InData off \<Rightarrow> Option.bind (ds_data ds) (\<lambda>d. slice d off (ds_rowBytes ds))
      | InBlock b off \<Rightarrow>
          Option.bind (blockAt (ds_incBlocks ds) b) (\<lambda>d. slice d off (ds_rowBytes ds)))"

definition ds_write :: "dataset \<Rightarrow> int \<Rightarrow> bytes \<Rightarrow> dataset option" where
  "ds_write ds index row =
     (case ds_At ds index of
        InData off \<Rightarrow>
          Option.bind (ds_data ds) (\<lambda>d.
          Option.bind (blit d off row) (\<lambda>d'. Some (ds\<lparr>ds_data := Some d'\<rparr>)))
      | InBlock b off \<Rightarrow>
          Option.bind (blockAt (ds_incBlocks ds) b) (\<lambda>d.
          Option.bind (blit d off row) (\<lambda>d'.
            Some (ds\<lparr>ds_incBlocks := (ds_incBlocks ds)[nat b := d']\<rparr>))))"

text \<open>
  \<open>AddBatch\<close>. The inner loop copies \<open>toWrite\<close> rows of \<open>pData\<close> into one block; the outer loop
  allocates a block of 0xff bytes whenever it reaches the end of the last one.
\<close>

fun ds_copyRows ::
  "dataset \<Rightarrow> bytes \<Rightarrow> int \<Rightarrow> int \<Rightarrow> nat \<Rightarrow> nat \<Rightarrow> bytes \<Rightarrow> bytes option" where
  "ds_copyRows ds pData curBlockPos written 0 i block = Some block"
| "ds_copyRows ds pData curBlockPos written (Suc n) i block =
     Option.bind (slice pData ((written + int i) * int (ds_rowBytes ds)) (ds_rowBytes ds)) (\<lambda>row.
     Option.bind (blit block ((curBlockPos + int i) * int (ds_cols ds) + int (ds_colStart ds)) row)
       (ds_copyRows ds pData curBlockPos written n (Suc i)))"

function ds_addLoop ::
  "dataset \<Rightarrow> int \<Rightarrow> bytes option \<Rightarrow> int \<Rightarrow> bytes list \<Rightarrow> (int \<times> bytes list) outcome" where
  "ds_addLoop ds num pData written blocks =
     (if written < num
      then let curBlockIdx = drop_bit (ds_rowsInBlockEx ds) (ds_incRows ds + written);
               blocks1 = (if curBlockIdx \<ge> int (length blocks)
                 then blocks @ [replicate (nat (ds_rowsInBlock ds + 1) * ds_cols ds) 255]
                 else blocks);
               curBlockPos = (ds_incRows ds + written) AND ds_rowsInBlock ds;
               toWrite = min (ds_rowsInBlock ds + 1 - curBlockPos) (num - written)
           in if toWrite \<le> 0 then Hang
              else case pData of
                  None \<Rightarrow> ds_addLoop ds num pData (written + toWrite) blocks1
                | Some p \<Rightarrow>
                    (case Option.bind (blockAt blocks1 curBlockIdx)
                            (ds_copyRows ds p curBlockPos written (nat toWrite) 0) of
                       None \<Rightarrow> Fault
                     | Some block \<Rightarrow>
                         ds_addLoop ds num pData (written + toWrite)
                           (blocks1[nat curBlockIdx := block]))
      else Ret (written, blocks))"
  by pat_completeness auto
termination
  by (relation "measure (\<lambda>(ds, num, pData, written, blocks). nat (num - written))")
    (auto simp: Let_def)

declare ds_addLoop.simps [simp del]

definition ds_AddBatch :: "dataset \<Rightarrow> int \<Rightarrow> bytes option \<Rightarrow> (ErrorCode \<times> dataset) outcome" where
  "ds_AddBatch ds num pData =
     (if ds_colStart ds \<noteq> 0 then Ret (Success, ds)
      else if ds_R ds > ds_maxRows ds - num then Ret (MemoryOverFlow, ds)
      else andThen (ds_addLoop ds num pData 0 (ds_incBlocks ds))
             (\<lambda>(written, blocks).
                Ret (Success, ds\<lparr>ds_incRows := ds_incRows ds + written, ds_incBlocks := blocks\<rparr>)))"

text \<open>\<open>Save\<close>, \<open>Load\<close> and \<open>Refine\<close> to a file or another dataset.\<close>

fun readRows :: "dataset \<Rightarrow> int list \<Rightarrow> bytes list option" where
  "readRows ds [] = Some []"
| "readRows ds (i # is) =
     Option.bind (ds_read ds i) (\<lambda>row. Option.bind (readRows ds is) (\<lambda>rows. Some (row # rows)))"

definition ds_Save :: "dataset \<Rightarrow> ostream \<Rightarrow> (ErrorCode + ostream) outcome" where
  "ds_Save ds os =
     andThen (deref (readRows ds [0 .. ds_R ds - 1]))
       (\<lambda>rows. Ret (ioWriteAll os
          (enc_int 4 (ds_R ds) # enc_int 4 (int (ds_mycols ds)) # rows)))"

fun writeRows :: "dataset \<Rightarrow> int \<Rightarrow> bytes list \<Rightarrow> dataset option" where
  "writeRows ds i [] = Some ds"
| "writeRows ds i (row # rows) =
     Option.bind (ds_write ds i row) (\<lambda>ds'. writeRows ds' (i + 1) rows)"

definition ds_Load ::
  "dataset \<Rightarrow> istream \<Rightarrow> nat \<Rightarrow> int \<Rightarrow> (ErrorCode + dataset \<times> istream) outcome" where
  "ds_Load ds inp blockSize capacity =
     (case ioRead inp 4 of Inl e \<Rightarrow> Ret (Inl e)
      | Inr (r, inp1) \<Rightarrow>
     (case ioRead inp1 4 of Inl e \<Rightarrow> Ret (Inl e)
      | Inr (c, inp2) \<Rightarrow>
        let rows = dec_sint r; cols = nat (dec_sint c);
            ds1 = ds\<lparr>ds_rows := rows, ds_mycols := cols\<rparr>
        in andThen (if ds_data ds = None then ds_Initialize ds1 rows cols blockSize capacity None True 0 (-1)
                    else Ret ds1)
           (\<lambda>ds2. case ioReadAll inp2 (ds_elem ds * cols) (nat rows) of
                Inl e \<Rightarrow> Ret (Inl e)
              | Inr (bss, inp3) \<Rightarrow>
                  andThen (deref (writeRows ds2 0 bss)) (\<lambda>ds3. Ret (Inr (ds3, inp3))))))"

text \<open>\<open>Load\<close> from a memory image: the rows stay where they are, after the two counters.\<close>

definition ds_LoadMem :: "dataset \<Rightarrow> bytes \<Rightarrow> nat \<Rightarrow> int \<Rightarrow> dataset outcome" where
  "ds_LoadMem ds img blockSize capacity =
     andThen (deref (slice img 0 4)) (\<lambda>r.
     andThen (deref (slice img 4 4)) (\<lambda>c.
       ds_Initialize ds (dec_sint r) (nat (dec_sint c)) blockSize capacity
         (Some (drop 8 img)) True 0 (-1)))"

definition ds_RefineTo :: "dataset \<Rightarrow> int list \<Rightarrow> dataset \<Rightarrow> nat \<Rightarrow> dataset outcome" where
  "ds_RefineTo ds indices target capBlocks =
     andThen (if ds_data target = None
              then ds_Initialize target (int (length indices)) (ds_mycols ds)
                     (nat (ds_rowsInBlock ds + 1)) (int capBlocks * (ds_rowsInBlock ds + 1)) None True 0 (-1)
              else Ret target)
       (\<lambda>t. andThen (deref (readRows ds indices)) (\<lambda>rows. deref (writeRows t 0 rows)))"

definition ds_RefineSave :: "dataset \<Rightarrow> int list \<Rightarrow> ostream \<Rightarrow> (ErrorCode + ostream) outcome" where
  "ds_RefineSave ds indices os =
     andThen (deref (readRows ds indices))
       (\<lambda>rows. Ret (ioWriteAll os
          (enc_int 4 (int (length indices)) # enc_int 4 (int (ds_mycols ds)) # rows)))"

end
