(* ===== verification/DatasetProps.thy ===== *)
theory DatasetProps
  imports DatasetStore
begin

text \<open>
  What \<open>Dataset\<close> promises: it behaves as a list of rows. The invariant \<open>ds_ok\<close>, the abstraction
  \<open>ds_list\<close>, and for each operation the list operation it implements. The interface the label
  tables use is the locale \<open>row_array\<close>, interpreted here on the dataset's own operations.
\<close>

section \<open>Invariant\<close>

definition blocks_ok :: "dataset \<Rightarrow> bytes list \<Rightarrow> bool" where
  "blocks_ok ds blocks \<longleftrightarrow>
     (\<forall>b \<in> set blocks. length b = 2 ^ ds_rowsInBlockEx ds * ds_cols ds)"

definition ds_shape :: "dataset \<Rightarrow> bool" where
  "ds_shape ds \<longleftrightarrow> 0 \<le> ds_rows ds \<and> 0 \<le> ds_incRows ds
     \<and> ds_rowsInBlock ds = 2 ^ ds_rowsInBlockEx ds - 1
     \<and> ds_colStart ds + ds_rowBytes ds \<le> ds_cols ds"

definition ds_ok :: "dataset \<Rightarrow> bool" where
  "ds_ok ds \<longleftrightarrow> ds_shape ds
     \<and> (\<exists>d. ds_data ds = Some d \<and> ds_rows ds * int (ds_cols ds) \<le> int (length d))
     \<and> blocks_ok ds (ds_incBlocks ds)
     \<and> ds_incRows ds \<le> 2 ^ ds_rowsInBlockEx ds * int (length (ds_incBlocks ds))"

text \<open>Rows with memory behind them, counted or not.\<close>

definition ds_cap :: "dataset \<Rightarrow> int" where
  "ds_cap ds = ds_rows ds + 2 ^ ds_rowsInBlockEx ds * int (length (ds_incBlocks ds))"

definition ds_list :: "dataset \<Rightarrow> bytes list" where
  "ds_list ds = map (\<lambda>i. the (ds_read ds i)) [0 .. ds_R ds - 1]"

lemma ds_ok_cap: "ds_ok ds \<Longrightarrow> 0 \<le> ds_R ds \<and> ds_R ds \<le> ds_cap ds"
  by (auto simp: ds_ok_def ds_shape_def ds_R_def ds_cap_def)

section \<open>Rows of a block list\<close>

text \<open>Two different rows of a buffer do not overlap.\<close>

lemma row_sep:
  fixes a b c s :: int
  assumes "a \<noteq> b" and "int m \<le> c"
  shows "a * c + s + int m \<le> b * c + s \<or> b * c + s + int m \<le> a * c + s"
proof -
  have *: "x * c + int m \<le> y * c" if "x < y" for x y :: int
  proof -
    from that have "x + 1 \<le> y" by simp
    moreover have "0 \<le> c" using assms(2) by simp
    ultimately have "(x + 1) * c \<le> y * c" by (rule mult_right_mono)
    with assms(2) show ?thesis by (simp add: distrib_right)
  qed
  from assms(1) * [of a b] * [of b a] show ?thesis by linarith
qed

definition brow :: "dataset \<Rightarrow> bytes \<Rightarrow> int \<Rightarrow> bytes option" where
  "brow ds b k = slice b (k * int (ds_cols ds) + int (ds_colStart ds)) (ds_rowBytes ds)"

definition blocksRow :: "dataset \<Rightarrow> bytes list \<Rightarrow> int \<Rightarrow> bytes option" where
  "blocksRow ds blocks k =
     Option.bind (blockAt blocks (k div 2 ^ ds_rowsInBlockEx ds))
       (\<lambda>b. brow ds b (k mod 2 ^ ds_rowsInBlockEx ds))"

lemma row_fits:
  fixes k n c s m :: int
  assumes "k < n" and "s + m \<le> c" and "0 \<le> c"
  shows "k * c + s + m \<le> n * c"
proof -
  have "(k + 1) * c \<le> n * c" using assms by (intro mult_right_mono) auto
  with assms(2) show ?thesis by (simp add: distrib_right)
qed

lemma brow_Some:
  assumes "ds_shape ds" "length b = 2 ^ ds_rowsInBlockEx ds * ds_cols ds" "0 \<le> k"
    "k < 2 ^ ds_rowsInBlockEx ds"
  shows "\<exists>row. brow ds b k = Some row \<and> length row = ds_rowBytes ds"
proof -
  have "k * int (ds_cols ds) + int (ds_colStart ds) + int (ds_rowBytes ds)
      \<le> 2 ^ ds_rowsInBlockEx ds * int (ds_cols ds)"
    using assms by (intro row_fits) (auto simp: ds_shape_def)
  with assms(2,3) show ?thesis
    unfolding brow_def by (intro slice_Some) auto
qed

lemma brow_blit:
  assumes "blit b (k * int (ds_cols ds) + int (ds_colStart ds)) row = Some b'"
    and "length row = ds_rowBytes ds" "ds_shape ds"
  shows "brow ds b' j = (if j = k then Some row else brow ds b j)"
proof (cases "j = k")
  case True
  with slice_blit_same [OF assms(1)] assms(2) show ?thesis by (simp add: brow_def)
next
  case False
  have "int (ds_rowBytes ds) \<le> int (ds_cols ds)" using assms(3) by (simp add: ds_shape_def)
  with False have "j * int (ds_cols ds) + int (ds_colStart ds) + int (ds_rowBytes ds)
        \<le> k * int (ds_cols ds) + int (ds_colStart ds) \<or>
      k * int (ds_cols ds) + int (ds_colStart ds) + int (ds_rowBytes ds)
        \<le> j * int (ds_cols ds) + int (ds_colStart ds)"
    by (rule row_sep)
  then have "slice b' (j * int (ds_cols ds) + int (ds_colStart ds)) (ds_rowBytes ds) =
      slice b (j * int (ds_cols ds) + int (ds_colStart ds)) (ds_rowBytes ds)"
    using assms(2) by (intro slice_blit_disjoint [OF assms(1)]) auto
  with False show ?thesis by (simp add: brow_def)
qed

lemma blit_Some:
  assumes "ds_shape ds" "length b = n * ds_cols ds" "0 \<le> k" "k < int n"
    "length row = ds_rowBytes ds"
  shows "\<exists>b'. blit b (k * int (ds_cols ds) + int (ds_colStart ds)) row = Some b'"
proof -
  have "k * int (ds_cols ds) + int (ds_colStart ds) + int (ds_rowBytes ds)
      \<le> int n * int (ds_cols ds)"
    using assms by (intro row_fits) (auto simp: ds_shape_def)
  with assms show ?thesis by (simp add: blit_def)
qed

lemma and_rowsInBlock:
  "ds_shape ds \<Longrightarrow> i AND ds_rowsInBlock ds = i mod 2 ^ ds_rowsInBlockEx ds"
  by (simp add: ds_shape_def take_bit_eq_mod [symmetric] take_bit_eq_mask mask_eq_exp_minus_1)

lemma ds_At_block:
  "ds_shape ds \<Longrightarrow> ds_rows ds \<le> i \<Longrightarrow>
   ds_At ds i = InBlock ((i - ds_rows ds) div 2 ^ ds_rowsInBlockEx ds)
     (((i - ds_rows ds) mod 2 ^ ds_rowsInBlockEx ds) * int (ds_cols ds) + int (ds_colStart ds))"
  by (simp add: ds_At_def Let_def and_rowsInBlock drop_bit_eq_div)

lemma ds_read_data:
  "i < ds_rows ds \<Longrightarrow> ds_read ds i = Option.bind (ds_data ds) (\<lambda>d. brow ds d i)"
  by (simp add: ds_read_def ds_At_def brow_def)

lemma ds_read_block:
  "ds_shape ds \<Longrightarrow> ds_rows ds \<le> i \<Longrightarrow>
   ds_read ds i = blocksRow ds (ds_incBlocks ds) (i - ds_rows ds)"
  by (simp add: ds_read_def ds_At_block blocksRow_def brow_def)

lemma blockAt_div:
  assumes "0 \<le> k" "k < 2 ^ ex * int (length blocks)"
  shows "blockAt blocks (k div 2 ^ ex) = Some (blocks ! nat (k div 2 ^ ex))
    \<and> nat (k div 2 ^ ex) < length blocks"
proof -
  have "0 \<le> k div 2 ^ ex" using assms by (simp add: pos_imp_zdiv_nonneg_iff)
  moreover have "k div 2 ^ ex < int (length blocks)"
    using assms by (intro div_less_int) auto
  ultimately show ?thesis by (simp add: blockAt_def nat_less_iff)
qed

lemma blocksRow_Some:
  assumes "ds_shape ds" "blocks_ok ds blocks" "0 \<le> k"
    "k < 2 ^ ds_rowsInBlockEx ds * int (length blocks)"
  shows "\<exists>row. blocksRow ds blocks k = Some row \<and> length row = ds_rowBytes ds"
proof -
  let ?b = "blocks ! nat (k div 2 ^ ds_rowsInBlockEx ds)"
  from blockAt_div [OF assms(3,4)] have b: "blockAt blocks (k div 2 ^ ds_rowsInBlockEx ds) = Some ?b"
    and "?b \<in> set blocks" by auto
  with assms(2) have "length ?b = 2 ^ ds_rowsInBlockEx ds * ds_cols ds"
    by (simp add: blocks_ok_def)
  with assms(1) show ?thesis
    by (simp add: blocksRow_def b brow_Some)
qed

section \<open>Reads and writes\<close>

lemma ds_read_Some:
  assumes "ds_ok ds" "0 \<le> i" "i < ds_cap ds"
  shows "\<exists>row. ds_read ds i = Some row \<and> length row = ds_rowBytes ds"
proof (cases "i < ds_rows ds")
  case True
  from assms(1) obtain d where d: "ds_data ds = Some d" "ds_rows ds * int (ds_cols ds) \<le> int (length d)"
    and sh: "ds_shape ds" by (auto simp: ds_ok_def)
  have "i * int (ds_cols ds) + int (ds_colStart ds) + int (ds_rowBytes ds)
      \<le> ds_rows ds * int (ds_cols ds)"
    using True sh by (intro row_fits) (auto simp: ds_shape_def)
  with d(2) assms(2) have "\<exists>row. brow ds d i = Some row \<and> length row = ds_rowBytes ds"
    unfolding brow_def by (intro slice_Some) auto
  with True d(1) show ?thesis by (simp add: ds_read_data)
next
  case False
  with assms show ?thesis
    by (simp add: ds_read_block ds_ok_def ds_cap_def blocksRow_Some)
qed

lemma ds_read_length: "ds_ok ds \<Longrightarrow> 0 \<le> i \<Longrightarrow> i < ds_cap ds \<Longrightarrow> ds_read ds i = Some row \<Longrightarrow>
   length row = ds_rowBytes ds"
  using ds_read_Some by fastforce

text \<open>Fields a write leaves alone.\<close>

definition ds_same :: "dataset \<Rightarrow> dataset \<Rightarrow> bool" where
  "ds_same ds ds' \<longleftrightarrow> ds_rows ds' = ds_rows ds \<and> ds_cols ds' = ds_cols ds
     \<and> ds_maxRows ds' = ds_maxRows ds \<and> ds_rowsInBlock ds' = ds_rowsInBlock ds
     \<and> ds_rowsInBlockEx ds' = ds_rowsInBlockEx ds \<and> ds_colStart ds' = ds_colStart ds
     \<and> ds_mycols ds' = ds_mycols ds \<and> ds_elem ds' = ds_elem ds"

lemma ds_same_refl [simp]: "ds_same ds ds"
  by (simp add: ds_same_def)

lemma ds_same_trans: "ds_same a b \<Longrightarrow> ds_same b c \<Longrightarrow> ds_same a c"
  by (simp add: ds_same_def)

lemma ds_same_rowBytes: "ds_same ds ds' \<Longrightarrow> ds_rowBytes ds' = ds_rowBytes ds"
  by (simp add: ds_same_def ds_rowBytes_def)

lemma ds_same_brow: "ds_same ds ds' \<Longrightarrow> brow ds' = brow ds"
  by (simp add: ds_same_def brow_def ds_rowBytes_def fun_eq_iff)

lemma ds_same_blocksRow: "ds_same ds ds' \<Longrightarrow> blocksRow ds' = blocksRow ds"
proof (rule ext)+
  fix blocks k
  assume s: "ds_same ds ds'"
  then have "ds_rowsInBlockEx ds' = ds_rowsInBlockEx ds" by (simp add: ds_same_def)
  then show "blocksRow ds' blocks k = blocksRow ds blocks k"
    unfolding blocksRow_def ds_same_brow [OF s] by simp
qed

text \<open>A write of a full row inside the allocated memory changes that row and nothing else.\<close>

lemma ds_write_data:
  assumes ok: "ds_ok ds" and i: "0 \<le> i" "i < ds_rows ds" and len: "length row = ds_rowBytes ds"
  shows "\<exists>ds'. ds_write ds i row = Some ds' \<and> ds_ok ds' \<and> ds_same ds ds'
    \<and> ds_incRows ds' = ds_incRows ds \<and> ds_incBlocks ds' = ds_incBlocks ds
    \<and> (\<forall>j. ds_read ds' j = (if j = i then Some row else ds_read ds j))"
proof -
  from ok obtain d where d: "ds_data ds = Some d" "ds_rows ds * int (ds_cols ds) \<le> int (length d)"
    and sh: "ds_shape ds" by (auto simp: ds_ok_def)
  have "i * int (ds_cols ds) + int (ds_colStart ds) + int (ds_rowBytes ds)
      \<le> ds_rows ds * int (ds_cols ds)"
    using i sh by (intro row_fits) (auto simp: ds_shape_def)
  with d(2) i len obtain d' where
    d': "blit d (i * int (ds_cols ds) + int (ds_colStart ds)) row = Some d'"
    by (auto simp: blit_def)
  let ?ds' = "ds\<lparr>ds_data := Some d'\<rparr>"
  have same: "ds_same ds ?ds'" by (simp add: ds_same_def)
  have "ds_write ds i row = Some ?ds'"
    using i d(1) d' by (simp add: ds_write_def ds_At_def)
  moreover have "ds_ok ?ds'"
  proof -
    have "ds_shape ?ds'" using sh by (simp add: ds_shape_def ds_rowBytes_def)
    moreover have "blocks_ok ?ds' (ds_incBlocks ds)" using ok by (simp add: ds_ok_def blocks_ok_def)
    ultimately show ?thesis using ok d(2) length_blit [OF d'] by (simp add: ds_ok_def)
  qed
  moreover have "ds_read ?ds' j = (if j = i then Some row else ds_read ds j)" for j
  proof (cases "j < ds_rows ds")
    case True
    have "brow ds d' j = (if j = i then Some row else brow ds d j)"
      using brow_blit [OF d' len sh] .
    then show ?thesis
      using True d(1) ds_same_brow [OF same] by (simp add: ds_read_data)
  next
    case False
    have "ds_shape ?ds'" using sh by (simp add: ds_shape_def ds_rowBytes_def)
    with False i sh ds_same_blocksRow [OF same] show ?thesis
      by (auto simp: ds_read_block)
  qed
  ultimately show ?thesis using same by (intro exI [of _ ?ds']) simp
qed

lemma blockAt_update:
  "nat i < length blocks \<Longrightarrow> 0 \<le> i \<Longrightarrow>
   blockAt (blocks[nat i := b]) j = (if j = i then Some b else blockAt blocks j)"
  by (cases "j = i") (simp_all add: blockAt_def nth_list_update eq_nat_nat_iff nat_less_iff)

lemma blocksRow_update:
  assumes "ds_shape ds" "0 \<le> k" "k < 2 ^ ds_rowsInBlockEx ds * int (length blocks)"
    and "0 \<le> j"
  shows "blocksRow ds (blocks[nat (k div 2 ^ ds_rowsInBlockEx ds) := b]) j =
    (if j div 2 ^ ds_rowsInBlockEx ds = k div 2 ^ ds_rowsInBlockEx ds
     then brow ds b (j mod 2 ^ ds_rowsInBlockEx ds) else blocksRow ds blocks j)"
proof -
  have "0 \<le> k div 2 ^ ds_rowsInBlockEx ds" using assms(2) by (simp add: pos_imp_zdiv_nonneg_iff)
  with blockAt_div [OF assms(2,3)] show ?thesis
    by (simp add: blocksRow_def blockAt_update)
qed

lemma div_mod_eq_iff: "(j :: int) = k \<longleftrightarrow> j div m = k div m \<and> j mod m = k mod m"
  by (metis div_mult_mod_eq)

lemma ds_write_block:
  assumes ok: "ds_ok ds" and i: "ds_rows ds \<le> i" "i < ds_cap ds" and len: "length row = ds_rowBytes ds"
  shows "\<exists>ds'. ds_write ds i row = Some ds' \<and> ds_ok ds' \<and> ds_same ds ds'
    \<and> ds_incRows ds' = ds_incRows ds \<and> length (ds_incBlocks ds') = length (ds_incBlocks ds)
    \<and> (\<forall>j. ds_read ds' j = (if j = i then Some row else ds_read ds j))"
proof -
  let ?m = "2 ^ ds_rowsInBlockEx ds :: int" and ?k = "i - ds_rows ds" and ?bs = "ds_incBlocks ds"
  from ok have sh: "ds_shape ds" and bok: "blocks_ok ds ?bs" by (auto simp: ds_ok_def)
  have k: "0 \<le> ?k" "?k < ?m * int (length ?bs)" using i by (auto simp: ds_cap_def)
  let ?b = "?bs ! nat (?k div ?m)"
  from blockAt_div [OF k] have b: "blockAt ?bs (?k div ?m) = Some ?b" "nat (?k div ?m) < length ?bs"
    by auto
  then have lb: "length ?b = 2 ^ ds_rowsInBlockEx ds * ds_cols ds"
    using bok by (simp add: blocks_ok_def)
  obtain b' where b': "blit ?b (?k mod ?m * int (ds_cols ds) + int (ds_colStart ds)) row = Some b'"
    using blit_Some [OF sh lb, of "?k mod ?m" row] len by auto
  let ?ds' = "ds\<lparr>ds_incBlocks := ?bs[nat (?k div ?m) := b']\<rparr>"
  have same: "ds_same ds ?ds'" by (simp add: ds_same_def)
  have sh': "ds_shape ?ds'" using sh by (simp add: ds_shape_def ds_rowBytes_def)
  have "ds_write ds i row = Some ?ds'"
    using i(1) sh b(1) b' by (simp add: ds_write_def ds_At_block)
  moreover have "ds_ok ?ds'"
  proof -
    have "set (?bs[nat (?k div ?m) := b']) \<subseteq> insert b' (set ?bs)"
      by (rule set_update_subset_insert)
    then have "blocks_ok ?ds' (?bs[nat (?k div ?m) := b'])"
      using bok lb length_blit [OF b'] unfolding blocks_ok_def by auto
    then show ?thesis using ok sh' by (simp add: ds_ok_def)
  qed
  moreover have "ds_read ?ds' j = (if j = i then Some row else ds_read ds j)" for j
  proof (cases "j < ds_rows ds")
    case True
    then show ?thesis using i(1) ds_same_brow [OF same] by (simp add: ds_read_data)
  next
    case False
    then have j: "0 \<le> j - ds_rows ds" by simp
    have br: "brow ds b' r = (if r = ?k mod ?m then Some row else brow ds ?b r)" for r
      using brow_blit [OF b' len sh] .
    have ji: "j = i \<longleftrightarrow> (j - ds_rows ds) div ?m = ?k div ?m \<and> (j - ds_rows ds) mod ?m = ?k mod ?m"
      using div_mod_eq_iff [of "j - ds_rows ds" ?k ?m] by simp
    have "ds_read ?ds' j = blocksRow ds (?bs[nat (?k div ?m) := b']) (j - ds_rows ds)"
      using False ds_same_blocksRow [OF same] by (simp add: ds_read_block [OF sh'])
    also have "\<dots> = (if j = i then Some row else blocksRow ds ?bs (j - ds_rows ds))"
      unfolding blocksRow_update [OF sh k j] br ji by (simp add: blocksRow_def b(1))
    also have "\<dots> = (if j = i then Some row else ds_read ds j)"
      using False by (simp add: ds_read_block [OF sh])
    finally show ?thesis .
  qed
  ultimately show ?thesis using same by (intro exI [of _ ?ds']) simp
qed

lemma ds_write_Some:
  assumes "ds_ok ds" "0 \<le> i" "i < ds_cap ds" "length row = ds_rowBytes ds"
  shows "\<exists>ds'. ds_write ds i row = Some ds' \<and> ds_ok ds' \<and> ds_same ds ds'
    \<and> ds_incRows ds' = ds_incRows ds \<and> length (ds_incBlocks ds') = length (ds_incBlocks ds)
    \<and> (\<forall>j. ds_read ds' j = (if j = i then Some row else ds_read ds j))"
proof (cases "i < ds_rows ds")
  case True
  from ds_write_data [OF assms(1,2) True assms(4)] show ?thesis by auto
next
  case False
  with ds_write_block [OF assms(1) _ assms(3,4)] show ?thesis by simp
qed

section \<open>AddBatch\<close>

definition prow :: "dataset \<Rightarrow> bytes \<Rightarrow> int \<Rightarrow> bytes option" where
  "prow ds p k = slice p (k * int (ds_rowBytes ds)) (ds_rowBytes ds)"

lemma prow_Some:
  assumes "0 \<le> k" "k < n" "n * int (ds_rowBytes ds) \<le> int (length p)"
  shows "\<exists>row. prow ds p k = Some row \<and> length row = ds_rowBytes ds"
proof -
  have "k * int (ds_rowBytes ds) + 0 + int (ds_rowBytes ds) \<le> n * int (ds_rowBytes ds)"
    using assms(2) by (intro row_fits) auto
  with assms show ?thesis unfolding prow_def by (intro slice_Some) auto
qed

lemma ds_copyRows_Some:
  assumes sh: "ds_shape ds" and pos: "0 \<le> pos" "0 \<le> written"
  shows "length block = 2 ^ ds_rowsInBlockEx ds * ds_cols ds \<Longrightarrow>
    pos + int i + int n \<le> 2 ^ ds_rowsInBlockEx ds \<Longrightarrow>
    (written + int i + int n) * int (ds_rowBytes ds) \<le> int (length p) \<Longrightarrow>
    \<exists>b'. ds_copyRows ds p pos written n i block = Some b' \<and> length b' = length block
      \<and> (\<forall>k. brow ds b' k =
          (if pos + int i \<le> k \<and> k < pos + int i + int n then prow ds p (written + (k - pos))
           else brow ds block k))"
proof (induction n arbitrary: i block)
  case 0
  then show ?case by auto
next
  case (Suc n)
  obtain row where row: "prow ds p (written + int i) = Some row" "length row = ds_rowBytes ds"
    using prow_Some [of "written + int i" "written + int i + int (Suc n)" ds p] Suc.prems(3) pos by auto
  have lb: "length block = (2 ^ ds_rowsInBlockEx ds) * ds_cols ds" using Suc.prems(1) by simp
  obtain b1 where b1: "blit block ((pos + int i) * int (ds_cols ds) + int (ds_colStart ds)) row = Some b1"
    using blit_Some [OF sh lb, of "pos + int i" row] row(2) Suc.prems(2) pos by auto
  have l1: "length b1 = length block" using b1 by (rule length_blit)
  obtain b' where b': "ds_copyRows ds p pos written n (Suc i) b1 = Some b'" "length b' = length b1"
    "\<And>k. brow ds b' k =
      (if pos + int (Suc i) \<le> k \<and> k < pos + int (Suc i) + int n then prow ds p (written + (k - pos))
       else brow ds b1 k)"
    using Suc.IH [of b1 "Suc i"] Suc.prems l1 by (auto simp: algebra_simps)
  have "ds_copyRows ds p pos written (Suc n) i block = Some b'"
    using row(1) b1 b'(1) by (simp add: prow_def)
  moreover have "brow ds b' k =
      (if pos + int i \<le> k \<and> k < pos + int i + int (Suc n) then prow ds p (written + (k - pos))
       else brow ds block k)" for k
    unfolding b'(3) brow_blit [OF b1 row(2) sh] using row(1) by auto
  ultimately show ?case using b'(2) l1 by auto
qed

definition oldRow :: "dataset \<Rightarrow> bytes list \<Rightarrow> int \<Rightarrow> bytes option" where
  "oldRow ds blocks k =
     (if k < 2 ^ ds_rowsInBlockEx ds * int (length blocks) then blocksRow ds blocks k
      else Some (replicate (ds_rowBytes ds) 255))"

definition newRow :: "dataset \<Rightarrow> int \<Rightarrow> bytes option \<Rightarrow> int \<Rightarrow> bytes list \<Rightarrow> int \<Rightarrow> bytes option" where
  "newRow ds num pData written blocks k =
     (case pData of
        Some p \<Rightarrow> if ds_incRows ds + written \<le> k \<and> k < ds_incRows ds + num
                  then prow ds p (k - ds_incRows ds) else oldRow ds blocks k
      | None \<Rightarrow> oldRow ds blocks k)"

lemma slice_replicate:
  "0 \<le> off \<Longrightarrow> off + int n \<le> int m \<Longrightarrow> slice (replicate m x) off n = Some (replicate n x)"
proof -
  assume "0 \<le> off" "off + int n \<le> int m"
  moreover from this have "n \<le> m - nat off" by linarith
  ultimately show ?thesis by (simp add: slice_def min_absorb1)
qed

lemma brow_blank:
  assumes "ds_shape ds" "0 \<le> k" "k < 2 ^ ds_rowsInBlockEx ds"
  shows "brow ds (replicate (2 ^ ds_rowsInBlockEx ds * ds_cols ds) x) k =
    Some (replicate (ds_rowBytes ds) x)"
proof -
  have "k * int (ds_cols ds) + int (ds_colStart ds) + int (ds_rowBytes ds)
      \<le> 2 ^ ds_rowsInBlockEx ds * int (ds_cols ds)"
    using assms by (intro row_fits) (auto simp: ds_shape_def)
  with assms(2) show ?thesis unfolding brow_def by (intro slice_replicate) auto
qed

lemma blockAt_append:
  "blockAt (blocks @ [b]) i =
     (if i = int (length blocks) then Some b else blockAt blocks i)"
  by (auto simp: blockAt_def nth_append)

text \<open>The block the loop works on, after the allocation if one was needed.\<close>

definition grow :: "dataset \<Rightarrow> int \<Rightarrow> bytes list \<Rightarrow> bytes list" where
  "grow ds idx blocks =
     (if idx \<ge> int (length blocks)
      then blocks @ [replicate (2 ^ ds_rowsInBlockEx ds * ds_cols ds) 255] else blocks)"

lemma grow_props:
  assumes sh: "ds_shape ds" and bok: "blocks_ok ds blocks" and idx: "0 \<le> idx" "idx \<le> int (length blocks)"
  shows "blocks_ok ds (grow ds idx blocks)" "idx < int (length (grow ds idx blocks))"
    "length blocks \<le> length (grow ds idx blocks)"
    "\<And>k. 0 \<le> k \<Longrightarrow> oldRow ds (grow ds idx blocks) k = oldRow ds blocks k"
proof -
  show "blocks_ok ds (grow ds idx blocks)" using bok by (simp add: blocks_ok_def grow_def)
  show "idx < int (length (grow ds idx blocks))" using idx by (simp add: grow_def)
  show "length blocks \<le> length (grow ds idx blocks)" by (simp add: grow_def)
  fix k :: int assume k: "0 \<le> k"
  show "oldRow ds (grow ds idx blocks) k = oldRow ds blocks k"
  proof (cases "idx \<ge> int (length blocks)")
    case False
    then show ?thesis by (simp add: grow_def)
  next
    case True
    let ?m = "2 ^ ds_rowsInBlockEx ds :: int"
    let ?new = "replicate (2 ^ ds_rowsInBlockEx ds * ds_cols ds) (255 :: byte)"
    have g: "grow ds idx blocks = blocks @ [?new]" using True by (simp add: grow_def)
    consider "k < ?m * int (length blocks)" | "?m * int (length blocks) \<le> k" "k < ?m * (int (length blocks) + 1)"
      | "?m * (int (length blocks) + 1) \<le> k" by linarith
    then show ?thesis
    proof cases
      case 1
      then have "k div ?m < int (length blocks)" by (intro div_less_int) auto
      then have "blocksRow ds (blocks @ [?new]) k = blocksRow ds blocks k"
        by (simp add: blocksRow_def blockAt_append)
      moreover have "k < ?m * (int (length blocks) + 1)"
      proof -
        have "?m * int (length blocks) \<le> ?m * (int (length blocks) + 1)" by simp
        with 1 show ?thesis by linarith
      qed
      ultimately show ?thesis using 1 by (simp add: oldRow_def g add.commute)
    next
      case 2
      have "k div ?m = int (length blocks)"
      proof -
        have "k div ?m < int (length blocks) + 1" using 2(2) by (intro div_less_int) auto
        moreover have "int (length blocks) \<le> k div ?m"
          using zdiv_mono1 [OF 2(1), of ?m] by simp
        ultimately show ?thesis by linarith
      qed
      then have "blocksRow ds (blocks @ [?new]) k = Some (replicate (ds_rowBytes ds) 255)"
        by (simp add: blocksRow_def blockAt_append brow_blank [OF sh])
      with 2 show ?thesis by (simp add: oldRow_def g)
    next
      case 3
      moreover have "?m * int (length blocks) \<le> ?m * (int (length blocks) + 1)" by simp
      ultimately have "\<not> k < ?m * int (length blocks)" by linarith
      with 3 show ?thesis by (simp add: oldRow_def g add.commute)
    qed
  qed
qed

lemma addLoop_step:
  assumes sh: "ds_shape ds" and w: "0 \<le> written" "written < num" and bok: "blocks_ok ds blocks"
    and cap: "ds_incRows ds + written \<le> 2 ^ ds_rowsInBlockEx ds * int (length blocks)"
    and data: "\<And>p. pData = Some p \<Longrightarrow> num * int (ds_rowBytes ds) \<le> int (length p)"
  shows "\<exists>t blocks2. 0 < t \<and> written + t \<le> num
    \<and> ds_addLoop ds num pData written blocks = ds_addLoop ds num pData (written + t) blocks2
    \<and> blocks_ok ds blocks2 \<and> length blocks \<le> length blocks2
    \<and> ds_incRows ds + written + t \<le> 2 ^ ds_rowsInBlockEx ds * int (length blocks2)
    \<and> (\<forall>k \<ge> 0. oldRow ds blocks2 k = newRow ds (written + t) pData written blocks k)"
proof -
  let ?m = "2 ^ ds_rowsInBlockEx ds :: int" and ?at = "ds_incRows ds + written"
  define idx where "idx = ?at div ?m"
  define pos where "pos = ?at mod ?m"
  define t where "t = min (?m - pos) (num - written)"
  define blocks1 where "blocks1 = grow ds idx blocks"
  have at: "0 \<le> ?at" using sh w(1) by (simp add: ds_shape_def)
  have idx0: "0 \<le> idx" using at by (simp add: idx_def pos_imp_zdiv_nonneg_iff)
  have idxle: "idx \<le> int (length blocks)"
    using zdiv_mono1 [OF cap, of ?m] by (simp add: idx_def)
  have pos: "0 \<le> pos" "pos < ?m" by (simp_all add: pos_def)
  have t: "0 < t" "written + t \<le> num" "pos + t \<le> ?m" using pos w(2) by (auto simp: t_def)
  have split: "?at = ?m * idx + pos" by (simp add: idx_def pos_def)
  note g = grow_props [OF sh bok idx0 idxle, folded blocks1_def]
  have below: "?at + t \<le> ?m * int (length blocks1)"
  proof -
    have "?m * (idx + 1) \<le> ?m * int (length blocks1)" using g(2) by (intro mult_left_mono) auto
    with split t(3) show ?thesis by (simp add: distrib_left)
  qed
  have shp: "ds_rowsInBlock ds = ?m - 1" using sh by (simp add: ds_shape_def)
  have unf: "ds_addLoop ds num pData written blocks =
      (case pData of
         None \<Rightarrow> ds_addLoop ds num pData (written + t) blocks1
       | Some p \<Rightarrow>
           (case Option.bind (blockAt blocks1 idx) (ds_copyRows ds p pos written (nat t) 0) of
              None \<Rightarrow> Fault
            | Some block \<Rightarrow> ds_addLoop ds num pData (written + t) (blocks1[nat idx := block])))"
  proof -
    have n: "nat (ds_rowsInBlock ds + 1) * ds_cols ds = 2 ^ ds_rowsInBlockEx ds * ds_cols ds"
      by (simp add: shp nat_power_eq)
    have tt: "min (ds_rowsInBlock ds + 1 - pos) (num - written) = t" by (simp add: t_def shp)
    have gr: "(if int (length blocks) \<le> idx
        then blocks @ [replicate (2 ^ ds_rowsInBlockEx ds * ds_cols ds) 255] else blocks) = blocks1"
      by (simp add: blocks1_def grow_def)
    have nt: "\<not> t \<le> 0" using t(1) by simp
    show ?thesis
      by (subst ds_addLoop.simps)
        (simp only: if_P [OF w(2)] Let_def drop_bit_eq_div and_rowsInBlock [OF sh]
          idx_def [symmetric] pos_def [symmetric] n tt gr if_not_P [OF nt])
  qed
  show ?thesis
  proof (cases pData)
    case None
    then have "\<forall>k \<ge> 0. oldRow ds blocks1 k = newRow ds (written + t) pData written blocks k"
      using g(4) by (simp add: newRow_def)
    with None unf g t below show ?thesis by (intro exI [of _ t] exI [of _ blocks1]) simp
  next
    case (Some p)
    have bi: "blockAt blocks1 idx = Some (blocks1 ! nat idx)" and ni: "nat idx < length blocks1"
      using idx0 g(2) by (auto simp: blockAt_def nat_less_iff)
    have lb: "length (blocks1 ! nat idx) = 2 ^ ds_rowsInBlockEx ds * ds_cols ds"
      using g(1) ni by (simp add: blocks_ok_def)
    have "(written + t) * int (ds_rowBytes ds) \<le> num * int (ds_rowBytes ds)"
      using t(2) by (intro mult_right_mono) auto
    with data [OF Some] have "(written + int 0 + int (nat t)) * int (ds_rowBytes ds) \<le> int (length p)"
      using t(1) by simp
    then obtain b' where b': "ds_copyRows ds p pos written (nat t) 0 (blocks1 ! nat idx) = Some b'"
      "length b' = length (blocks1 ! nat idx)"
      "\<And>k. brow ds b' k =
        (if pos \<le> k \<and> k < pos + t then prow ds p (written + (k - pos))
         else brow ds (blocks1 ! nat idx) k)"
      using ds_copyRows_Some [OF sh pos(1) w(1) lb, of 0 "nat t" p] t by auto
    let ?b2 = "blocks1[nat idx := b']"
    have ok2: "blocks_ok ds ?b2"
    proof -
      have "set ?b2 \<subseteq> insert b' (set blocks1)" by (rule set_update_subset_insert)
      with g(1) b'(2) lb show ?thesis unfolding blocks_ok_def by auto
    qed
    have "oldRow ds ?b2 k = newRow ds (written + t) pData written blocks k" if k: "0 \<le> k" for k
    proof (cases "k < ?m * int (length blocks1)")
      case False
      then have "\<not> k < ?at + t" using below by simp
      with False g(4) [OF k] show ?thesis by (simp add: oldRow_def newRow_def Some add.assoc)
    next
      case True
      have atk: "?at div ?m = idx" "nat idx = nat (?at div ?m)" by (simp_all add: idx_def)
      have "?at < ?m * int (length blocks1)" using below t(1) by simp
      then have upd: "blocksRow ds ?b2 k =
          (if k div ?m = idx then brow ds b' (k mod ?m) else blocksRow ds blocks1 k)"
        using blocksRow_update [OF sh at _ k, of blocks1 b'] by (simp flip: idx_def)
      have in_iff: "?at \<le> k \<and> k < ?at + t \<longleftrightarrow> k div ?m = idx \<and> pos \<le> k mod ?m \<and> k mod ?m < pos + t"
      proof
        assume r: "?at \<le> k \<and> k < ?at + t"
        then have "k = (k - ?m * idx) + ?m * idx" "0 \<le> k - ?m * idx" "k - ?m * idx < ?m"
          using split pos t(3) by auto
        then have "k div ?m = idx" "k mod ?m = k - ?m * idx"
          using int_div_pos_eq int_mod_pos_eq by (metis add.commute)+
        with r split show "k div ?m = idx \<and> pos \<le> k mod ?m \<and> k mod ?m < pos + t" by auto
      next
        assume "k div ?m = idx \<and> pos \<le> k mod ?m \<and> k mod ?m < pos + t"
        moreover have "k = ?m * (k div ?m) + k mod ?m" by simp
        ultimately show "?at \<le> k \<and> k < ?at + t" using split by auto
      qed
      have old: "oldRow ds blocks1 k = blocksRow ds blocks1 k" using True by (simp add: oldRow_def)
      have kk: "k div ?m = idx \<Longrightarrow> written + (k mod ?m - pos) = k - ds_incRows ds"
        using split mult_div_mod_eq [of ?m k] by auto
      have same: "k div ?m = idx \<Longrightarrow> brow ds (blocks1 ! nat idx) (k mod ?m) = blocksRow ds blocks1 k"
        using bi by (simp add: blocksRow_def)
      have "oldRow ds ?b2 k = blocksRow ds ?b2 k" using True by (simp add: oldRow_def)
      also have "\<dots> = (if ?at \<le> k \<and> k < ?at + t then prow ds p (k - ds_incRows ds) else oldRow ds blocks1 k)"
        unfolding upd b'(3) in_iff old using kk same by auto
      also have "\<dots> = newRow ds (written + t) pData written blocks k"
        using g(4) [OF k] by (simp add: newRow_def Some add.assoc)
      finally show ?thesis .
    qed
    with Some unf bi b'(1) g t below ok2 show ?thesis
      by (intro exI [of _ t] exI [of _ ?b2]) simp
  qed
qed

lemma addLoop_correct:
  assumes sh: "ds_shape ds"
    and data: "\<And>p. pData = Some p \<Longrightarrow> num * int (ds_rowBytes ds) \<le> int (length p)"
  shows "0 \<le> written \<Longrightarrow> written \<le> num \<Longrightarrow> blocks_ok ds blocks \<Longrightarrow>
    ds_incRows ds + written \<le> 2 ^ ds_rowsInBlockEx ds * int (length blocks) \<Longrightarrow>
    \<exists>blocks'. ds_addLoop ds num pData written blocks = Ret (num, blocks')
      \<and> blocks_ok ds blocks' \<and> length blocks \<le> length blocks'
      \<and> ds_incRows ds + num \<le> 2 ^ ds_rowsInBlockEx ds * int (length blocks')
      \<and> (\<forall>k \<ge> 0. oldRow ds blocks' k = newRow ds num pData written blocks k)"
proof (induction "nat (num - written)" arbitrary: written blocks rule: less_induct)
  case less
  show ?case
  proof (cases "written < num")
    case False
    with less.prems have [simp]: "written = num" by simp
    have "ds_addLoop ds num pData written blocks = Ret (num, blocks)"
      by (subst ds_addLoop.simps) simp
    with less.prems show ?thesis by (auto simp: newRow_def split: option.split)
  next
    case True
    obtain t blocks2 where t: "0 < t" "written + t \<le> num"
      and eq: "ds_addLoop ds num pData written blocks = ds_addLoop ds num pData (written + t) blocks2"
      and ok2: "blocks_ok ds blocks2" and len2: "length blocks \<le> length blocks2"
      and cap2: "ds_incRows ds + written + t \<le> 2 ^ ds_rowsInBlockEx ds * int (length blocks2)"
      and rows2: "\<forall>k \<ge> 0. oldRow ds blocks2 k = newRow ds (written + t) pData written blocks k"
      using addLoop_step [OF sh less.prems(1) True less.prems(3,4) data] by blast
    obtain blocks' where b': "ds_addLoop ds num pData (written + t) blocks2 = Ret (num, blocks')"
      "blocks_ok ds blocks'" "length blocks2 \<le> length blocks'"
      "ds_incRows ds + num \<le> 2 ^ ds_rowsInBlockEx ds * int (length blocks')"
      "\<forall>k \<ge> 0. oldRow ds blocks' k = newRow ds num pData (written + t) blocks2 k"
      using less.hyps [of "written + t" blocks2] t less.prems(1) ok2 cap2 by (auto simp: add.assoc)
    have "newRow ds num pData (written + t) blocks2 k = newRow ds num pData written blocks k"
      if "0 \<le> k" for k
      using rows2 that t by (auto simp: newRow_def split: option.split)
    with b' eq len2 show ?thesis by auto
  qed
qed

definition blankRow :: "dataset \<Rightarrow> bytes" where
  "blankRow ds = replicate (ds_rowBytes ds) 255"

text \<open>The rows allocated but not counted yet are still blank.\<close>

definition ds_clean :: "dataset \<Rightarrow> bool" where
  "ds_clean ds \<longleftrightarrow> (\<forall>i. ds_R ds \<le> i \<and> i < ds_cap ds \<longrightarrow> ds_read ds i = Some (blankRow ds))"

lemma ds_clean_cap: "ds_cap ds \<le> ds_R ds \<Longrightarrow> ds_clean ds"
  by (auto simp: ds_clean_def)

lemma ds_AddBatch_Success:
  assumes ok: "ds_ok ds" and c0: "ds_colStart ds = 0" and num: "0 \<le> num" "ds_R ds + num \<le> ds_maxRows ds"
    and data: "\<And>p. pData = Some p \<Longrightarrow> num * int (ds_rowBytes ds) \<le> int (length p)"
  shows "\<exists>ds'. ds_AddBatch ds num pData = Ret (Success, ds') \<and> ds_ok ds' \<and> ds_same ds ds'
    \<and> ds_R ds' = ds_R ds + num
    \<and> (\<forall>i. 0 \<le> i \<and> i < ds_cap ds' \<longrightarrow> ds_read ds' i =
        (case pData of
           Some p \<Rightarrow> if ds_R ds \<le> i \<and> i < ds_R ds + num then prow ds p (i - ds_R ds)
                     else if i < ds_cap ds then ds_read ds i else Some (blankRow ds)
         | None \<Rightarrow> if i < ds_cap ds then ds_read ds i else Some (blankRow ds)))"
proof -
  from ok have sh: "ds_shape ds" and bok: "blocks_ok ds (ds_incBlocks ds)"
    and cap: "ds_incRows ds + 0 \<le> 2 ^ ds_rowsInBlockEx ds * int (length (ds_incBlocks ds))"
    by (auto simp: ds_ok_def)
  obtain blocks' where b': "ds_addLoop ds num pData 0 (ds_incBlocks ds) = Ret (num, blocks')"
    "blocks_ok ds blocks'" "length (ds_incBlocks ds) \<le> length blocks'"
    "ds_incRows ds + num \<le> 2 ^ ds_rowsInBlockEx ds * int (length blocks')"
    "\<forall>k \<ge> 0. oldRow ds blocks' k = newRow ds num pData 0 (ds_incBlocks ds) k"
    using addLoop_correct [OF sh data _ num(1) bok cap] by auto
  let ?ds' = "ds\<lparr>ds_incRows := ds_incRows ds + num, ds_incBlocks := blocks'\<rparr>"
  have same: "ds_same ds ?ds'" by (simp add: ds_same_def)
  have sh': "ds_shape ?ds'" using sh num(1) by (simp add: ds_shape_def ds_rowBytes_def)
  have "ds_AddBatch ds num pData = Ret (Success, ?ds')"
    using c0 num b'(1) by (simp add: ds_AddBatch_def)
  moreover have "ds_ok ?ds'"
    using ok sh' b'(2,4) by (simp add: ds_ok_def blocks_ok_def)
  moreover have "ds_R ?ds' = ds_R ds + num" by (simp add: ds_R_def)
  moreover have "ds_read ?ds' i =
        (case pData of
           Some p \<Rightarrow> if ds_R ds \<le> i \<and> i < ds_R ds + num then prow ds p (i - ds_R ds)
                     else if i < ds_cap ds then ds_read ds i else Some (blankRow ds)
         | None \<Rightarrow> if i < ds_cap ds then ds_read ds i else Some (blankRow ds))"
    if i: "0 \<le> i" "i < ds_cap ?ds'" for i
  proof (cases "i < ds_rows ds")
    case True
    have "0 \<le> ds_incRows ds" using sh by (simp add: ds_shape_def)
    moreover have "0 \<le> 2 ^ ds_rowsInBlockEx ds * int (length (ds_incBlocks ds))" by simp
    ultimately have "\<not> ds_R ds \<le> i" "i < ds_cap ds"
      using True unfolding ds_R_def ds_cap_def by linarith+
    moreover have "ds_read ?ds' i = ds_read ds i"
      using True ds_same_brow [OF same] by (simp add: ds_read_data)
    ultimately show ?thesis by (simp split: option.split)
  next
    case False
    then have k: "0 \<le> i - ds_rows ds" by simp
    have "ds_read ?ds' i = blocksRow ds blocks' (i - ds_rows ds)"
      using False ds_same_blocksRow [OF same] by (simp add: ds_read_block [OF sh'])
    also have "\<dots> = oldRow ds blocks' (i - ds_rows ds)"
      using i(2) by (simp add: oldRow_def ds_cap_def)
    also have "\<dots> = newRow ds num pData 0 (ds_incBlocks ds) (i - ds_rows ds)"
      using b'(5) k by blast
    also have "oldRow ds (ds_incBlocks ds) (i - ds_rows ds) =
        (if i < ds_cap ds then ds_read ds i else Some (blankRow ds))"
      using False by (simp add: oldRow_def ds_cap_def ds_read_block [OF sh] blankRow_def less_diff_eq add.commute)
    then have "newRow ds num pData 0 (ds_incBlocks ds) (i - ds_rows ds) =
        (case pData of
           Some p \<Rightarrow> if ds_R ds \<le> i \<and> i < ds_R ds + num then prow ds p (i - ds_R ds)
                     else if i < ds_cap ds then ds_read ds i else Some (blankRow ds)
         | None \<Rightarrow> if i < ds_cap ds then ds_read ds i else Some (blankRow ds))"
      by (auto simp: newRow_def ds_R_def algebra_simps split: option.split)
    finally show ?thesis .
  qed
  ultimately show ?thesis using same by (intro exI [of _ ?ds']) simp
qed

lemma ds_AddBatch_full:
  "ds_colStart ds = 0 \<Longrightarrow> ds_maxRows ds < ds_R ds + num \<Longrightarrow>
   ds_AddBatch ds num pData = Ret (MemoryOverFlow, ds)"
  by (simp add: ds_AddBatch_def)

section \<open>The row array interface\<close>

text \<open>
  What the label tables and the size table rely on: fixed-width rows, read and written by
  index, and growth at the end by blank rows up to a capacity.
\<close>

locale row_array =
  fixes rd :: "'s \<Rightarrow> int \<Rightarrow> bytes option"
    and wr :: "'s \<Rightarrow> int \<Rightarrow> bytes \<Rightarrow> 's option"
    and add :: "'s \<Rightarrow> int \<Rightarrow> (ErrorCode \<times> 's) outcome"
    and size :: "'s \<Rightarrow> int"
    and room :: "'s \<Rightarrow> int"
    and width :: "'s \<Rightarrow> nat"
    and inv :: "'s \<Rightarrow> bool"
  assumes size_nonneg: "inv s \<Longrightarrow> 0 \<le> size s"
    and rd_in: "inv s \<Longrightarrow> 0 \<le> i \<Longrightarrow> i < size s \<Longrightarrow> \<exists>row. rd s i = Some row \<and> length row = width s"
    and wr_in: "inv s \<Longrightarrow> 0 \<le> i \<Longrightarrow> i < size s \<Longrightarrow> length row = width s \<Longrightarrow>
      \<exists>s'. wr s i row = Some s' \<and> inv s' \<and> size s' = size s \<and> room s' = room s \<and> width s' = width s
        \<and> (\<forall>j. 0 \<le> j \<and> j < size s \<longrightarrow> rd s' j = (if j = i then Some row else rd s j))"
    and add_in: "inv s \<Longrightarrow> 0 \<le> n \<Longrightarrow> size s + n \<le> room s \<Longrightarrow>
      \<exists>s'. add s n = Ret (Success, s') \<and> inv s' \<and> size s' = size s + n \<and> room s' = room s
        \<and> width s' = width s
        \<and> (\<forall>j. 0 \<le> j \<and> j < size s + n \<longrightarrow>
             rd s' j = (if j < size s then rd s j else Some (replicate (width s) 255)))"
    and add_full: "inv s \<Longrightarrow> room s < size s + n \<Longrightarrow> add s n = Ret (MemoryOverFlow, s)"
begin

definition tbl :: "'s \<Rightarrow> bytes list" where
  "tbl s = map (\<lambda>i. the (rd s i)) [0 .. size s - 1]"

lemma length_tbl [simp]: "length (tbl s) = nat (size s)"
  by (simp add: tbl_def)

lemma tbl_nth: "0 \<le> i \<Longrightarrow> i < size s \<Longrightarrow> tbl s ! nat i = the (rd s i)"
  by (simp add: tbl_def)

lemma rd_tbl: "inv s \<Longrightarrow> 0 \<le> i \<Longrightarrow> i < size s \<Longrightarrow> rd s i = Some (tbl s ! nat i)"
  using rd_in [of s i] by (auto simp: tbl_nth)

lemma tbl_width: "inv s \<Longrightarrow> row \<in> set (tbl s) \<Longrightarrow> length row = width s"
  using rd_in [of s] by (fastforce simp: tbl_def)

lemma tbl_wr:
  assumes "inv s" "0 \<le> i" "i < size s" "length row = width s"
  shows "\<exists>s'. wr s i row = Some s' \<and> inv s' \<and> size s' = size s \<and> room s' = room s
    \<and> width s' = width s \<and> tbl s' = (tbl s)[nat i := row]"
proof -
  obtain s' where s': "wr s i row = Some s'" "inv s'" "size s' = size s" "room s' = room s"
    "width s' = width s" "\<And>j. 0 \<le> j \<and> j < size s \<longrightarrow> rd s' j = (if j = i then Some row else rd s j)"
    using wr_in [OF assms] by auto
  have "tbl s' = (tbl s)[nat i := row]"
  proof (rule nth_equalityI)
    show "length (tbl s') = length ((tbl s)[nat i := row])" using s'(3) by simp
  next
    fix n assume "n < length (tbl s')"
    then have n: "int n < size s" using s'(3) by simp
    have "tbl s' ! n = the (rd s' (int n))" using tbl_nth [of "int n" s'] n s'(3) by simp
    also have "\<dots> = (tbl s)[nat i := row] ! n"
      using s'(6) [of "int n"] n assms(2,3) tbl_nth [of "int n" s] by (auto simp: nth_list_update)
    finally show "tbl s' ! n = (tbl s)[nat i := row] ! n" .
  qed
  with s' show ?thesis by blast
qed

lemma tbl_add:
  assumes "inv s" "0 \<le> n" "size s + n \<le> room s"
  shows "\<exists>s'. add s n = Ret (Success, s') \<and> inv s' \<and> size s' = size s + n \<and> room s' = room s
    \<and> width s' = width s \<and> tbl s' = tbl s @ replicate (nat n) (replicate (width s) 255)"
proof -
  obtain s' where s': "add s n = Ret (Success, s')" "inv s'" "size s' = size s + n"
    "room s' = room s" "width s' = width s"
    "\<And>j. 0 \<le> j \<and> j < size s + n \<longrightarrow>
       rd s' j = (if j < size s then rd s j else Some (replicate (width s) 255))"
    using add_in [OF assms] by auto
  have z: "0 \<le> size s" using assms(1) by (rule size_nonneg)
  have "tbl s' = tbl s @ replicate (nat n) (replicate (width s) 255)"
  proof (rule nth_equalityI)
    show "length (tbl s') = length (tbl s @ replicate (nat n) (replicate (width s) 255))"
      using s'(3) assms(2) z by (simp add: nat_add_distrib)
  next
    fix k assume "k < length (tbl s')"
    then have k: "int k < size s + n" using s'(3) by simp
    have "tbl s' ! k = the (rd s' (int k))" using tbl_nth [of "int k" s'] k s'(3) by simp
    also have "\<dots> = (tbl s @ replicate (nat n) (replicate (width s) 255)) ! k"
      using s'(6) [of "int k"] k assms(2) z tbl_nth [of "int k" s] by (auto simp: nth_append)
    finally show "tbl s' ! k = (tbl s @ replicate (nat n) (replicate (width s) 255)) ! k" .
  qed
  with s' show ?thesis by blast
qed

end

definition ds_inv :: "nat \<Rightarrow> nat \<Rightarrow> dataset \<Rightarrow> bool" where
  "ds_inv c e ds \<longleftrightarrow> ds_ok ds \<and> ds_clean ds \<and> ds_colStart ds = 0
     \<and> ds_mycols ds = c \<and> ds_elem ds = e"

lemma ds_inv_rowBytes: "ds_inv c e ds \<Longrightarrow> ds_rowBytes ds = c * e"
  by (simp add: ds_inv_def ds_rowBytes_def)

lemma ds_inv_write:
  assumes "ds_inv c e s" "0 \<le> i" "i < ds_R s" "length row = ds_rowBytes s"
  shows "\<exists>s'. ds_write s i row = Some s' \<and> ds_inv c e s' \<and> ds_R s' = ds_R s
    \<and> ds_maxRows s' = ds_maxRows s \<and> ds_rowBytes s' = ds_rowBytes s
    \<and> (\<forall>j. ds_read s' j = (if j = i then Some row else ds_read s j))"
proof -
  have ok: "ds_ok s" and cl: "ds_clean s" using assms(1) by (auto simp: ds_inv_def)
  have "i < ds_cap s" using ds_ok_cap [OF ok] assms(3) by simp
  then obtain s' where s': "ds_write s i row = Some s'" "ds_ok s'" "ds_same s s'"
    "ds_incRows s' = ds_incRows s" "length (ds_incBlocks s') = length (ds_incBlocks s)"
    "\<forall>j. ds_read s' j = (if j = i then Some row else ds_read s j)"
    using ds_write_Some [OF ok assms(2) _ assms(4)] by auto
  have eqs: "ds_R s' = ds_R s" "ds_cap s' = ds_cap s" "ds_rowBytes s' = ds_rowBytes s"
    "ds_maxRows s' = ds_maxRows s" "ds_colStart s' = ds_colStart s"
    "ds_mycols s' = ds_mycols s" "ds_elem s' = ds_elem s"
    using s'(3-5) by (auto simp: ds_same_def ds_R_def ds_cap_def ds_rowBytes_def)
  have "ds_clean s'"
    unfolding ds_clean_def eqs blankRow_def
    using cl s'(6) assms(3) unfolding ds_clean_def blankRow_def by auto
  with s' eqs assms(1) show ?thesis by (simp add: ds_inv_def)
qed

lemma ds_inv_add:
  assumes "ds_inv c e s" "0 \<le> n" "ds_R s + n \<le> ds_maxRows s"
  shows "\<exists>s'. ds_AddBatch s n None = Ret (Success, s') \<and> ds_inv c e s' \<and> ds_R s' = ds_R s + n
    \<and> ds_maxRows s' = ds_maxRows s \<and> ds_rowBytes s' = ds_rowBytes s
    \<and> (\<forall>j. 0 \<le> j \<and> j < ds_R s + n \<longrightarrow>
          ds_read s' j = (if j < ds_R s then ds_read s j else Some (blankRow s)))"
proof -
  have ok: "ds_ok s" and cl: "ds_clean s" and c0: "ds_colStart s = 0"
    using assms(1) by (auto simp: ds_inv_def)
  obtain s' where s': "ds_AddBatch s n None = Ret (Success, s')" "ds_ok s'" "ds_same s s'"
    "ds_R s' = ds_R s + n"
    "\<forall>i. 0 \<le> i \<and> i < ds_cap s' \<longrightarrow>
       ds_read s' i = (if i < ds_cap s then ds_read s i else Some (blankRow s))"
    using ds_AddBatch_Success [OF ok c0 assms(2,3), of None] by auto
  have eqs: "ds_rowBytes s' = ds_rowBytes s" "ds_maxRows s' = ds_maxRows s"
    "ds_colStart s' = ds_colStart s" "blankRow s' = blankRow s"
    "ds_mycols s' = ds_mycols s" "ds_elem s' = ds_elem s"
    using s'(3) by (auto simp: ds_same_def ds_rowBytes_def blankRow_def)
  have R0: "0 \<le> ds_R s" using ds_ok_cap [OF ok] by simp
  have capR: "ds_R s' \<le> ds_cap s'" using ds_ok_cap [OF s'(2)] by simp
  have rdb: "ds_read s' i = (if i < ds_R s then ds_read s i else Some (blankRow s))"
    if "0 \<le> i" "i < ds_cap s'" for i
    using s'(5) that cl ds_ok_cap [OF ok] by (auto simp: ds_clean_def)
  have "ds_clean s'"
    unfolding ds_clean_def eqs(4) using rdb s'(4) assms(2) R0 by auto
  with s' eqs assms(1) rdb capR show ?thesis by (auto simp: ds_inv_def)
qed

interpretation dsrows: row_array ds_read ds_write "\<lambda>s n. ds_AddBatch s n None" ds_R ds_maxRows
  "\<lambda>s. c * e" "ds_inv c e" for c e
proof
  fix s i n row
  assume inv: "ds_inv c e s"
  then have ok: "ds_ok s" and c0: "ds_colStart s = 0" and w: "ds_rowBytes s = c * e"
    by (auto simp: ds_inv_def ds_rowBytes_def)
  show "0 \<le> ds_R s" using ds_ok_cap [OF ok] by simp
  show "\<exists>row. ds_read s i = Some row \<and> length row = c * e" if "0 \<le> i" "i < ds_R s"
    using ds_read_Some [OF ok that(1)] that(2) ds_ok_cap [OF ok] w by simp
  show "\<exists>s'. ds_write s i row = Some s' \<and> ds_inv c e s' \<and> ds_R s' = ds_R s
      \<and> ds_maxRows s' = ds_maxRows s \<and> c * e = c * e
      \<and> (\<forall>j. 0 \<le> j \<and> j < ds_R s \<longrightarrow> ds_read s' j = (if j = i then Some row else ds_read s j))"
    if "0 \<le> i" "i < ds_R s" "length row = c * e"
    using ds_inv_write [OF inv that(1,2), of row] that(3) w by fastforce
  show "\<exists>s'. ds_AddBatch s n None = Ret (Success, s') \<and> ds_inv c e s' \<and> ds_R s' = ds_R s + n
      \<and> ds_maxRows s' = ds_maxRows s \<and> c * e = c * e
      \<and> (\<forall>j. 0 \<le> j \<and> j < ds_R s + n \<longrightarrow>
           ds_read s' j = (if j < ds_R s then ds_read s j else Some (replicate (c * e) 255)))"
    if "0 \<le> n" "ds_R s + n \<le> ds_maxRows s"
    using ds_inv_add [OF inv that] w by (auto simp: blankRow_def)
  show "ds_AddBatch s n None = Ret (MemoryOverFlow, s)" if "ds_maxRows s < ds_R s + n"
    using that c0 by (rule ds_AddBatch_full [rotated])
qed

section \<open>Save and Load\<close>

lemma readRows_Some:
  "(\<And>i. i \<in> set is \<Longrightarrow> ds_read ds i \<noteq> None) \<Longrightarrow>
   readRows ds is = Some (map (\<lambda>i. the (ds_read ds i)) is)"
proof (induction "is")
  case Nil
  then show ?case by simp
next
  case (Cons i "is")
  then obtain row where "ds_read ds i = Some row" by fastforce
  with Cons show ?case by simp
qed

lemma readRows_all: "ds_ok ds \<Longrightarrow> readRows ds [0 .. ds_R ds - 1] = Some (ds_list ds)"
  unfolding ds_list_def using ds_ok_cap [of ds] ds_read_Some [of ds]
  by (intro readRows_Some) fastforce

lemma length_ds_list [simp]: "length (ds_list ds) = nat (ds_R ds)"
  by (simp add: ds_list_def)

lemma ds_list_nth: "0 \<le> i \<Longrightarrow> i < ds_R ds \<Longrightarrow> ds_list ds ! nat i = the (ds_read ds i)"
  by (simp add: ds_list_def)

lemma ds_list_width: "ds_ok ds \<Longrightarrow> row \<in> set (ds_list ds) \<Longrightarrow> length row = ds_rowBytes ds"
  using ds_ok_cap [of ds] ds_read_Some [of ds] by (fastforce simp: ds_list_def)

lemma dsrows_tbl_eq: "dsrows.tbl = ds_list"
  by (simp add: fun_eq_iff dsrows.tbl_def ds_list_def)

lemma writeRows_Some:
  "ds_ok ds \<Longrightarrow> 0 \<le> i \<Longrightarrow> i + int (length rows) \<le> ds_cap ds \<Longrightarrow>
   \<forall>row \<in> set rows. length row = ds_rowBytes ds \<Longrightarrow>
   \<exists>ds'. writeRows ds i rows = Some ds' \<and> ds_ok ds' \<and> ds_same ds ds'
     \<and> ds_incRows ds' = ds_incRows ds \<and> length (ds_incBlocks ds') = length (ds_incBlocks ds)
     \<and> (\<forall>j. ds_read ds' j =
          (if i \<le> j \<and> j < i + int (length rows) then Some (rows ! nat (j - i)) else ds_read ds j))"
proof (induction rows arbitrary: ds i)
  case Nil
  then show ?case by auto
next
  case (Cons row rows)
  from Cons.prems obtain d1 where d1: "ds_write ds i row = Some d1" "ds_ok d1" "ds_same ds d1"
    "ds_incRows d1 = ds_incRows ds" "length (ds_incBlocks d1) = length (ds_incBlocks ds)"
    "\<forall>j. ds_read d1 j = (if j = i then Some row else ds_read ds j)"
    using ds_write_Some [of ds i row] by auto
  have cap: "ds_cap d1 = ds_cap ds" using d1(3,5) by (simp add: ds_cap_def ds_same_def)
  have rb: "ds_rowBytes d1 = ds_rowBytes ds" using d1(3) by (rule ds_same_rowBytes)
  obtain d2 where d2: "writeRows d1 (i + 1) rows = Some d2" "ds_ok d2" "ds_same d1 d2"
    "ds_incRows d2 = ds_incRows d1" "length (ds_incBlocks d2) = length (ds_incBlocks d1)"
    "\<forall>j. ds_read d2 j =
      (if i + 1 \<le> j \<and> j < i + 1 + int (length rows) then Some (rows ! nat (j - (i + 1))) else ds_read d1 j)"
    using Cons.IH [OF d1(2), of "i + 1"] Cons.prems cap rb by auto
  have "ds_read d2 j = (if i \<le> j \<and> j < i + int (length (row # rows))
      then Some ((row # rows) ! nat (j - i)) else ds_read ds j)" for j
  proof -
    consider "j < i" | "j = i" | "i < j" by linarith
    then show ?thesis
    proof cases
      case 3
      then have "nat (j - i) = Suc (nat (j - (i + 1)))" by linarith
      with 3 show ?thesis using d2(6) d1(6) by auto
    qed (use d2(6) d1(6) in auto)
  qed
  with d1 d2 show ?case using ds_same_trans [OF d1(3) d2(3)] by auto
qed

lemma ds_Initialize_blank:
  assumes "0 \<le> rows" "ds_incRows ds = 0"
  shows "\<exists>ds'. ds_Initialize ds rows cols bs cap None share 0 (-1) = Ret ds'
    \<and> ds_inv cols (ds_elem ds) ds' \<and> ds_R ds' = rows \<and> ds_maxRows ds' = cap
    \<and> ds_mycols ds' = cols \<and> ds_elem ds' = ds_elem ds \<and> ds_cap ds' = rows \<and> ds_incRows ds' = 0
    \<and> ds_list ds' = replicate (nat rows) (replicate (cols * ds_elem ds) 255)"
proof -
  let ?w = "cols * ds_elem ds"
  let ?ds' = "ds\<lparr>ds_rows := rows, ds_cols := ?w, ds_data := Some (replicate (nat rows * ?w) 255),
      ds_maxRows := cap, ds_rowsInBlock := 2 ^ ceil_log2 bs - 1, ds_rowsInBlockEx := ceil_log2 bs,
      ds_incBlocks := [], ds_colStart := 0, ds_mycols := cols\<rparr>"
  have init: "ds_Initialize ds rows cols bs cap None share 0 (-1) = Ret ?ds'"
    by (simp add: ds_Initialize_def Let_def)
  have sh: "ds_shape ?ds'" using assms by (simp add: ds_shape_def ds_rowBytes_def)
  have ok: "ds_ok ?ds'" using assms sh by (simp add: ds_ok_def blocks_ok_def)
  have R: "ds_R ?ds' = rows" "ds_cap ?ds' = rows" using assms by (simp_all add: ds_R_def ds_cap_def)
  have rb: "ds_rowBytes ?ds' = ?w" by (simp add: ds_rowBytes_def)
  have "ds_read ?ds' i = Some (replicate ?w 255)" if "0 \<le> i" "i < rows" for i
  proof -
    have "i * int ?w + 0 + int ?w \<le> rows * int ?w" using that by (intro row_fits) auto
    then have "slice (replicate (nat rows * ?w) (255 :: byte)) (i * int ?w + 0) ?w = Some (replicate ?w 255)"
      using that by (intro slice_replicate) auto
    with that show ?thesis by (simp add: ds_read_data brow_def rb)
  qed
  then have "ds_list ?ds' = replicate (nat rows) (replicate ?w 255)"
    using R by (intro nth_equalityI) (auto simp: ds_list_def)
  with init ok R rb assms show ?thesis
    using ds_clean_cap [of ?ds'] by (intro exI [of _ ?ds']) (simp add: ds_inv_def)
qed

definition ds_image :: "dataset \<Rightarrow> bytes" where
  "ds_image ds = enc_int 4 (ds_R ds) @ enc_int 4 (int (ds_mycols ds)) @ concat (ds_list ds)"

lemma ds_Save_image:
  assumes "ds_ok ds" "os_room os = None"
  shows "ds_Save ds os = Ret (Inr (os\<lparr>os_data := os_data os @ ds_image ds\<rparr>))"
  using assms by (simp add: ds_Save_def readRows_all ioWriteAll_unlimited ioWrite_unlimited ds_image_def)

lemma ds_list_eqI:
  assumes "ds_R ds' = int (length rows)"
    and "\<And>i. i < length rows \<Longrightarrow> ds_read ds' (int i) = Some (rows ! i)"
  shows "ds_list ds' = rows"
  using assms by (intro nth_equalityI) (auto simp: ds_list_def)

lemma ds_Load_rows:
  assumes R: "int32_ok (int (length rows))" and C: "int32_ok (int c)"
    and len: "\<forall>row \<in> set rows. length row = c * e"
  shows "\<exists>ds'. ds_Load (ds_new e) (enc_int 4 (int (length rows)) @ enc_int 4 (int c) @ concat rows @ rest) bs cap
      = Ret (Inr (ds', rest)) \<and> ds_list ds' = rows \<and> ds_inv c e ds'
      \<and> ds_R ds' = int (length rows) \<and> ds_maxRows ds' = cap"
proof -
  let ?ds1 = "(ds_new e)\<lparr>ds_rows := int (length rows), ds_mycols := c\<rparr>"
  obtain d2 where d2: "ds_Initialize ?ds1 (int (length rows)) c bs cap None True 0 (-1) = Ret d2"
    "ds_inv c e d2" "ds_R d2 = int (length rows)" "ds_maxRows d2 = cap" "ds_elem d2 = e"
    "ds_cap d2 = int (length rows)" "ds_incRows d2 = 0"
    using ds_Initialize_blank [of "int (length rows)" ?ds1 c bs cap True] by (auto simp: ds_new_def)
  have ok2: "ds_ok d2" and rb2: "ds_rowBytes d2 = c * e"
    using d2(2) by (auto simp: ds_inv_def ds_rowBytes_def)
  obtain d3 where d3: "writeRows d2 0 rows = Some d3" "ds_ok d3" "ds_same d2 d3"
    "ds_incRows d3 = ds_incRows d2" "length (ds_incBlocks d3) = length (ds_incBlocks d2)"
    "\<forall>j. ds_read d3 j =
       (if 0 \<le> j \<and> j < 0 + int (length rows) then Some (rows ! nat (j - 0)) else ds_read d2 j)"
    using writeRows_Some [OF ok2, of 0 rows] d2(6) len rb2 by auto
  have eqs: "ds_R d3 = int (length rows)" "ds_cap d3 = int (length rows)" "ds_rowBytes d3 = c * e"
    "ds_maxRows d3 = cap" "ds_colStart d3 = 0" "ds_mycols d3 = c" "ds_elem d3 = e"
    using d2 d3(3-5) rb2 by (auto simp: ds_same_def ds_R_def ds_cap_def ds_rowBytes_def ds_inv_def)
  have l: "ds_list d3 = rows" using eqs(1) d3(6) by (intro ds_list_eqI) auto
  have "ds_Load (ds_new e) (enc_int 4 (int (length rows)) @ enc_int 4 (int c) @ concat rows @ rest) bs cap
      = Ret (Inr (d3, rest))"
  proof -
    have "ioReadAll (concat rows @ rest) (e * c) (length rows) = Inr (rows, rest)"
      using len by (intro ioReadAll_concat) (simp add: mult.commute)
    then show ?thesis
      using d2(1) d3(1) R C
      by (simp add: ds_Load_def Let_def dec_enc_int32) (simp add: ds_new_def)
  qed
  moreover have "ds_inv c e d3"
    using d3(2) eqs ds_clean_cap [of d3] by (simp add: ds_inv_def)
  ultimately show ?thesis using l eqs by auto
qed

lemma ds_Save_Load:
  assumes ok: "ds_ok ds" and R: "int32_ok (ds_R ds)" and C: "int32_ok (int (ds_mycols ds))"
  shows "\<exists>ds'. ds_Load (ds_new (ds_elem ds)) (ds_image ds @ rest) bs cap = Ret (Inr (ds', rest))
    \<and> ds_list ds' = ds_list ds \<and> ds_inv (ds_mycols ds) (ds_elem ds) ds' \<and> ds_R ds' = ds_R ds \<and> ds_maxRows ds' = cap"
proof -
  have "int (length (ds_list ds)) = ds_R ds" using ds_ok_cap [OF ok] by simp
  moreover have "\<forall>row \<in> set (ds_list ds). length row = ds_mycols ds * ds_elem ds"
    using ds_list_width [OF ok] by (simp add: ds_rowBytes_def)
  ultimately show ?thesis
    using ds_Load_rows [of "ds_list ds" "ds_mycols ds" "ds_elem ds" rest bs cap] R C
    by (simp add: ds_image_def ds_rowBytes_def)
qed

end
