(* ===== verification/Labels.thy ===== *)
theory Labels
  imports DatasetProps
begin

text \<open>
  The three per-vector tables kept in datasets of one column: \<open>VersionLabel\<close> (version byte or the
  deletion mark 0xfe of every vector, AnnService/inc/Core/Common/VersionLabel.h), \<open>Labelset\<close> (the
  deleted heads of the head index, Labelset.h) and \<open>PostingSizeRecord\<close> (the number of vectors of
  every posting, PostingSizeRecord.h). The atomic read-modify-write loops are written here as the
  single iteration they take when no other thread interferes; AtomicLoops has them step by step.
\<close>

section \<open>Cells of a one-column dataset\<close>

definition getByte :: "dataset \<Rightarrow> int \<Rightarrow> byte outcome" where
  "getByte ds key = andThen (deref (ds_read ds key)) (\<lambda>row. case row of [] \<Rightarrow> Fault | b # _ \<Rightarrow> Ret b)"

definition setByte :: "dataset \<Rightarrow> int \<Rightarrow> byte \<Rightarrow> dataset outcome" where
  "setByte ds key b = deref (ds_write ds key [b])"

definition getInt :: "dataset \<Rightarrow> int \<Rightarrow> int outcome" where
  "getInt ds key = andThen (deref (ds_read ds key)) (\<lambda>row. Ret (dec_sint row))"

definition setInt :: "dataset \<Rightarrow> int \<Rightarrow> int \<Rightarrow> dataset outcome" where
  "setInt ds key x = deref (ds_write ds key (enc_int 4 x))"

section \<open>VersionLabel\<close>

record versionLabel =
  vl_deleted :: int
  vl_data :: dataset

definition vl_new :: versionLabel where
  "vl_new = \<lparr>vl_deleted = 0, vl_data = ds_new 1\<rparr>"

definition vl_Initialize :: "versionLabel \<Rightarrow> int \<Rightarrow> nat \<Rightarrow> int \<Rightarrow> versionLabel outcome" where
  "vl_Initialize vl sz blockSize capacity =
     andThen (ds_Initialize (vl_data vl) sz 1 blockSize capacity None True 0 (-1))
       (\<lambda>d. Ret (vl\<lparr>vl_data := d\<rparr>))"

definition vl_Count :: "versionLabel \<Rightarrow> int" where
  "vl_Count vl = ds_R (vl_data vl) - vl_deleted vl"

definition vl_GetDeleteCount :: "versionLabel \<Rightarrow> int" where
  "vl_GetDeleteCount vl = vl_deleted vl"

definition vl_Deleted :: "versionLabel \<Rightarrow> int \<Rightarrow> bool outcome" where
  "vl_Deleted vl key = andThen (getByte (vl_data vl) key) (\<lambda>b. Ret (b = 0xfe))"

definition vl_Delete :: "versionLabel \<Rightarrow> int \<Rightarrow> (bool \<times> versionLabel) outcome" where
  "vl_Delete vl key =
     andThen (getByte (vl_data vl) key) (\<lambda>oldvalue.
     andThen (setByte (vl_data vl) key 0xfe) (\<lambda>d.
       if oldvalue = 0xfe then Ret (False, vl\<lparr>vl_data := d\<rparr>)
       else Ret (True, vl\<lparr>vl_data := d, vl_deleted := vl_deleted vl + 1\<rparr>)))"

definition vl_GetVersion :: "versionLabel \<Rightarrow> int \<Rightarrow> byte outcome" where
  "vl_GetVersion vl key = getByte (vl_data vl) key"

text \<open>The version after \<open>v\<close>: \<open>(oldVersion+1) & 0x7f\<close>.\<close>

definition nextVersion :: "byte \<Rightarrow> byte" where
  "nextVersion v = (v + 1) AND 0x7f"

text \<open>The result carries \<open>*newVersion\<close>; a deleted vector leaves it as it was.\<close>

definition vl_IncVersion ::
  "versionLabel \<Rightarrow> int \<Rightarrow> byte \<Rightarrow> (bool \<times> byte \<times> versionLabel) outcome" where
  "vl_IncVersion vl key newVersion =
     andThen (vl_Deleted vl key) (\<lambda>del.
       if del then Ret (False, newVersion, vl)
       else andThen (vl_GetVersion vl key) (\<lambda>oldVersion.
            let v = nextVersion oldVersion
            in andThen (setByte (vl_data vl) key v) (\<lambda>d. Ret (True, v, vl\<lparr>vl_data := d\<rparr>))))"

definition vl_GetVectorNum :: "versionLabel \<Rightarrow> int" where
  "vl_GetVectorNum vl = ds_R (vl_data vl)"

definition vl_Save :: "versionLabel \<Rightarrow> ostream \<Rightarrow> (ErrorCode + ostream) outcome" where
  "vl_Save vl os =
     (case ioWrite os (enc_int 4 (vl_deleted vl)) of
        Inl e \<Rightarrow> Ret (Inl e)
      | Inr os' \<Rightarrow> ds_Save (vl_data vl) os')"

definition vl_Load ::
  "versionLabel \<Rightarrow> istream \<Rightarrow> nat \<Rightarrow> int \<Rightarrow> (ErrorCode + versionLabel \<times> istream) outcome" where
  "vl_Load vl inp blockSize capacity =
     (case ioRead inp 4 of
        Inl e \<Rightarrow> Ret (Inl e)
      | Inr (deleted, inp') \<Rightarrow>
          andThen (ds_Load (vl_data vl) inp' blockSize capacity) (\<lambda>r.
            case r of Inl e \<Rightarrow> Ret (Inl e)
            | Inr (d, inp'') \<Rightarrow>
                Ret (Inr (vl\<lparr>vl_deleted := dec_sint deleted, vl_data := d\<rparr>, inp''))))"

definition vl_LoadMem :: "versionLabel \<Rightarrow> bytes \<Rightarrow> nat \<Rightarrow> int \<Rightarrow> versionLabel outcome" where
  "vl_LoadMem vl img blockSize capacity =
     andThen (deref (slice img 0 4)) (\<lambda>deleted.
     andThen (ds_LoadMem (vl_data vl) (drop 4 img) blockSize capacity) (\<lambda>d.
       Ret (vl\<lparr>vl_deleted := dec_sint deleted, vl_data := d\<rparr>)))"

definition vl_AddBatch :: "versionLabel \<Rightarrow> int \<Rightarrow> (ErrorCode \<times> versionLabel) outcome" where
  "vl_AddBatch vl num =
     andThen (ds_AddBatch (vl_data vl) num None) (\<lambda>(ec, d). Ret (ec, vl\<lparr>vl_data := d\<rparr>))"

definition vl_BufferSize :: "versionLabel \<Rightarrow> int" where
  "vl_BufferSize vl = ds_BufferSize (vl_data vl) + 4"

definition vl_SetR :: "versionLabel \<Rightarrow> int \<Rightarrow> versionLabel" where
  "vl_SetR vl num = vl\<lparr>vl_data := ds_SetR (vl_data vl) num\<rparr>"

section \<open>Labelset\<close>

record labelset =
  ls_inserted :: int
  ls_data :: dataset

definition ls_new :: labelset where
  "ls_new = \<lparr>ls_inserted = 0, ls_data = ds_new 1\<rparr>"

definition ls_Initialize :: "labelset \<Rightarrow> int \<Rightarrow> nat \<Rightarrow> int \<Rightarrow> labelset outcome" where
  "ls_Initialize ls sz blockSize capacity =
     andThen (ds_Initialize (ls_data ls) sz 1 blockSize capacity None True 0 (-1))
       (\<lambda>d. Ret (ls\<lparr>ls_data := d\<rparr>))"

definition ls_Count :: "labelset \<Rightarrow> int" where
  "ls_Count ls = ls_inserted ls"

definition ls_Contains :: "labelset \<Rightarrow> int \<Rightarrow> bool outcome" where
  "ls_Contains ls key = andThen (getByte (ls_data ls) key) (\<lambda>b. Ret (b = 1))"

definition ls_Insert :: "labelset \<Rightarrow> int \<Rightarrow> (bool \<times> labelset) outcome" where
  "ls_Insert ls key =
     andThen (getByte (ls_data ls) key) (\<lambda>oldvalue.
     andThen (setByte (ls_data ls) key 1) (\<lambda>d.
       if oldvalue = 1 then Ret (False, ls\<lparr>ls_data := d\<rparr>)
       else Ret (True, ls\<lparr>ls_data := d, ls_inserted := ls_inserted ls + 1\<rparr>)))"

definition ls_Save :: "labelset \<Rightarrow> ostream \<Rightarrow> (ErrorCode + ostream) outcome" where
  "ls_Save ls os =
     (case ioWrite os (enc_int 4 (ls_inserted ls)) of
        Inl e \<Rightarrow> Ret (Inl e)
      | Inr os' \<Rightarrow> ds_Save (ls_data ls) os')"

definition ls_Load ::
  "labelset \<Rightarrow> istream \<Rightarrow> nat \<Rightarrow> int \<Rightarrow> (ErrorCode + labelset \<times> istream) outcome" where
  "ls_Load ls inp blockSize capacity =
     (case ioRead inp 4 of
        Inl e \<Rightarrow> Ret (Inl e)
      | Inr (deleted, inp') \<Rightarrow>
          andThen (ds_Load (ls_data ls) inp' blockSize capacity) (\<lambda>r.
            case r of Inl e \<Rightarrow> Ret (Inl e)
            | Inr (d, inp'') \<Rightarrow>
                Ret (Inr (ls\<lparr>ls_inserted := dec_sint deleted, ls_data := d\<rparr>, inp''))))"

definition ls_LoadMem :: "labelset \<Rightarrow> bytes \<Rightarrow> nat \<Rightarrow> int \<Rightarrow> labelset outcome" where
  "ls_LoadMem ls img blockSize capacity =
     andThen (deref (slice img 0 4)) (\<lambda>deleted.
     andThen (ds_LoadMem (ls_data ls) (drop 4 img) blockSize capacity) (\<lambda>d.
       Ret (ls\<lparr>ls_inserted := dec_sint deleted, ls_data := d\<rparr>)))"

definition ls_AddBatch :: "labelset \<Rightarrow> int \<Rightarrow> (ErrorCode \<times> labelset) outcome" where
  "ls_AddBatch ls num =
     andThen (ds_AddBatch (ls_data ls) num None) (\<lambda>(ec, d). Ret (ec, ls\<lparr>ls_data := d\<rparr>))"

definition ls_BufferSize :: "labelset \<Rightarrow> int" where
  "ls_BufferSize ls = ds_BufferSize (ls_data ls) + 4"

definition ls_SetR :: "labelset \<Rightarrow> int \<Rightarrow> labelset" where
  "ls_SetR ls num = ls\<lparr>ls_data := ds_SetR (ls_data ls) num\<rparr>"

definition ls_R :: "labelset \<Rightarrow> int" where
  "ls_R ls = ds_R (ls_data ls)"

section \<open>PostingSizeRecord\<close>

type_synonym postingSizes = dataset

definition ps_new :: postingSizes where
  "ps_new = ds_new 4"

definition ps_Initialize :: "postingSizes \<Rightarrow> int \<Rightarrow> nat \<Rightarrow> int \<Rightarrow> postingSizes outcome" where
  "ps_Initialize ps sz blockSize capacity =
     ds_Initialize ps sz 1 blockSize capacity None True 0 (-1)"

definition ps_GetSize :: "postingSizes \<Rightarrow> int \<Rightarrow> int outcome" where
  "ps_GetSize ps headID = getInt ps headID"

definition ps_UpdateSize :: "postingSizes \<Rightarrow> int \<Rightarrow> int \<Rightarrow> postingSizes outcome" where
  "ps_UpdateSize ps headID newSize =
     andThen (ps_GetSize ps headID) (\<lambda>oldSize. setInt ps headID newSize)"

definition ps_IncSize :: "postingSizes \<Rightarrow> int \<Rightarrow> int \<Rightarrow> postingSizes outcome" where
  "ps_IncSize ps headID appendNum =
     andThen (ps_GetSize ps headID) (\<lambda>oldSize. setInt ps headID (oldSize + appendNum))"

definition ps_GetPostingNum :: "postingSizes \<Rightarrow> int" where
  "ps_GetPostingNum ps = ds_R ps"

definition ps_Save :: "postingSizes \<Rightarrow> ostream \<Rightarrow> (ErrorCode + ostream) outcome" where
  "ps_Save ps os = ds_Save ps os"

definition ps_Load ::
  "postingSizes \<Rightarrow> istream \<Rightarrow> nat \<Rightarrow> int \<Rightarrow> (ErrorCode + postingSizes \<times> istream) outcome" where
  "ps_Load ps inp blockSize capacity = ds_Load ps inp blockSize capacity"

text \<open>The memory image is read from its fifth byte on, although \<open>Save\<close> writes no counter before the rows.\<close>

definition ps_LoadMem :: "postingSizes \<Rightarrow> bytes \<Rightarrow> nat \<Rightarrow> int \<Rightarrow> postingSizes outcome" where
  "ps_LoadMem ps img blockSize capacity = ds_LoadMem ps (drop 4 img) blockSize capacity"

definition ps_AddBatch :: "postingSizes \<Rightarrow> int \<Rightarrow> (ErrorCode \<times> postingSizes) outcome" where
  "ps_AddBatch ps num = ds_AddBatch ps num None"

definition ps_BufferSize :: "postingSizes \<Rightarrow> int" where
  "ps_BufferSize ps = ds_BufferSize ps + 4"

definition ps_SetR :: "postingSizes \<Rightarrow> int \<Rightarrow> postingSizes" where
  "ps_SetR ps num = ds_SetR ps num"

end
