(* ===== verification/LabelProps.thy ===== *)
theory LabelProps
  imports Labels
begin

text \<open>
  Correctness of the label tables: each operation as a list operation on the versions, deletion
  marks or sizes, the deletion counter, the version arithmetic, persistence.
\<close>

section \<open>Byte and integer columns\<close>

definition bytesOf :: "dataset \<Rightarrow> bytes" where
  "bytesOf d = map hd (ds_list d)"

definition intsOf :: "dataset \<Rightarrow> int list" where
  "intsOf d = map dec_sint (ds_list d)"

lemma length_bytesOf [simp]: "length (bytesOf d) = nat (ds_R d)"
  by (simp add: bytesOf_def)

lemma length_intsOf [simp]: "length (intsOf d) = nat (ds_R d)"
  by (simp add: intsOf_def)

lemma getByte_in:
  assumes "ds_inv 1 1 d" "0 \<le> k" "k < ds_R d"
  shows "getByte d k = Ret (bytesOf d ! nat k)"
proof -
  obtain row where r: "ds_read d k = Some row" "length row = 1"
    using dsrows.rd_in [OF assms] by auto
  then obtain b where "row = [b]" by (auto simp: length_Suc_conv)
  moreover have "bytesOf d ! nat k = hd row"
    using r(1) assms(2,3) by (simp add: bytesOf_def ds_list_nth nat_less_iff)
  ultimately show ?thesis using r(1) by (simp add: getByte_def)
qed

lemma setByte_in:
  assumes "ds_inv 1 1 d" "0 \<le> k" "k < ds_R d"
  shows "\<exists>d'. setByte d k b = Ret d' \<and> ds_inv 1 1 d' \<and> ds_R d' = ds_R d
    \<and> ds_maxRows d' = ds_maxRows d \<and> bytesOf d' = (bytesOf d)[nat k := b]"
  using dsrows.tbl_wr [OF assms, of "[b]"]
  by (auto simp: setByte_def bytesOf_def dsrows_tbl_eq map_update)

lemma addBytes_in:
  assumes "ds_inv 1 1 d" "0 \<le> n" "ds_R d + n \<le> ds_maxRows d"
  shows "\<exists>d'. ds_AddBatch d n None = Ret (Success, d') \<and> ds_inv 1 1 d' \<and> ds_R d' = ds_R d + n
    \<and> ds_maxRows d' = ds_maxRows d \<and> bytesOf d' = bytesOf d @ replicate (nat n) 255"
  using dsrows.tbl_add [OF assms] by (auto simp: bytesOf_def dsrows_tbl_eq)

lemma getInt_in:
  assumes "ds_inv 1 4 d" "0 \<le> k" "k < ds_R d"
  shows "getInt d k = Ret (intsOf d ! nat k)"
  using dsrows.rd_tbl [OF assms] assms
  by (simp add: getInt_def intsOf_def dsrows_tbl_eq nat_less_iff)

lemma setInt_in:
  assumes "ds_inv 1 4 d" "0 \<le> k" "k < ds_R d" "int32_ok x"
  shows "\<exists>d'. setInt d k x = Ret d' \<and> ds_inv 1 4 d' \<and> ds_R d' = ds_R d
    \<and> ds_maxRows d' = ds_maxRows d \<and> intsOf d' = (intsOf d)[nat k := x]"
  using dsrows.tbl_wr [OF assms(1-3), of "enc_int 4 x"] dec_enc_int32 [OF assms(4)]
  by (auto simp: setInt_def intsOf_def dsrows_tbl_eq map_update)

lemma dec_sint_blank: "dec_sint (replicate 4 255) = - 1"
proof -
  have "replicate 4 (255 :: byte) = [255, 255, 255, 255]" by code_simp
  then show ?thesis by (simp add: dec_sint_def Let_def)
qed

lemma addInts_in:
  assumes "ds_inv 1 4 d" "0 \<le> n" "ds_R d + n \<le> ds_maxRows d"
  shows "\<exists>d'. ds_AddBatch d n None = Ret (Success, d') \<and> ds_inv 1 4 d' \<and> ds_R d' = ds_R d + n
    \<and> ds_maxRows d' = ds_maxRows d \<and> intsOf d' = intsOf d @ replicate (nat n) (- 1)"
  using dsrows.tbl_add [OF assms] by (auto simp: intsOf_def dsrows_tbl_eq dec_sint_blank)

lemma count_list_update:
  assumes "k < length xs"
  shows "int (count_list (xs[k := y]) z) =
    int (count_list xs z) - (if xs ! k = z then 1 else 0) + (if y = z then 1 else 0)"
proof -
  have "xs = take k xs @ xs ! k # drop (Suc k) xs" using assms by (rule id_take_nth_drop)
  then have "count_list xs z = count_list (take k xs @ xs ! k # drop (Suc k) xs) z" by simp
  moreover have "xs[k := y] = take k xs @ y # drop (Suc k) xs"
    using assms by (rule upd_conv_take_nth_drop)
  ultimately show ?thesis by simp
qed

lemma count_list_replicate: "count_list (replicate n x) y = (if x = y then n else 0)"
  by (induction n) auto

section \<open>VersionLabel\<close>

definition versions :: "versionLabel \<Rightarrow> bytes" where
  "versions vl = bytesOf (vl_data vl)"

definition vl_inv :: "versionLabel \<Rightarrow> bool" where
  "vl_inv vl \<longleftrightarrow> ds_inv 1 1 (vl_data vl) \<and> vl_deleted vl = int (count_list (versions vl) 0xfe)"

definition vl_has :: "versionLabel \<Rightarrow> int \<Rightarrow> bool" where
  "vl_has vl key \<longleftrightarrow> 0 \<le> key \<and> key < vl_GetVectorNum vl"

lemma vl_GetVersion_in: "vl_inv vl \<Longrightarrow> vl_has vl k \<Longrightarrow> vl_GetVersion vl k = Ret (versions vl ! nat k)"
  by (simp add: vl_GetVersion_def versions_def getByte_in vl_inv_def vl_has_def vl_GetVectorNum_def)

lemma vl_Deleted_in:
  "vl_inv vl \<Longrightarrow> vl_has vl k \<Longrightarrow> vl_Deleted vl k = Ret (versions vl ! nat k = 0xfe)"
  by (simp add: vl_Deleted_def versions_def getByte_in vl_inv_def vl_has_def vl_GetVectorNum_def)

lemma vl_set_inv:
  assumes inv: "vl_inv vl" and has: "vl_has vl k"
  shows "\<exists>d. setByte (vl_data vl) k b = Ret d \<and> ds_R d = ds_R (vl_data vl)
    \<and> ds_inv 1 1 d \<and> bytesOf d = (versions vl)[nat k := b]
    \<and> int (count_list (bytesOf d) 0xfe) = vl_deleted vl
        - (if versions vl ! nat k = 0xfe then 1 else 0) + (if b = 0xfe then 1 else 0)"
proof -
  have d: "ds_inv 1 1 (vl_data vl)" "0 \<le> k" "k < ds_R (vl_data vl)"
    using inv has by (auto simp: vl_inv_def vl_has_def vl_GetVectorNum_def)
  obtain d' where d': "setByte (vl_data vl) k b = Ret d'" "ds_inv 1 1 d'" "ds_R d' = ds_R (vl_data vl)"
    "bytesOf d' = (versions vl)[nat k := b]"
    using setByte_in [OF d] by (auto simp: versions_def)
  have "nat k < length (versions vl)" using d(2,3) by (simp add: versions_def nat_less_iff)
  from count_list_update [OF this] d' inv show ?thesis by (simp add: vl_inv_def)
qed

text \<open>
  C29 Deleting a vector marks exactly that vector, answers whether it was the call that deleted
  it, and keeps the deletion counter equal to the number of marks, so \<open>Count\<close> drops by one for
  a first deletion and by nothing for a repeated one.
\<close>

theorem vl_Delete_correct:
  assumes inv: "vl_inv vl" and has: "vl_has vl k"
  shows "\<exists>vl'. vl_Delete vl k = Ret (versions vl ! nat k \<noteq> 0xfe, vl') \<and> vl_inv vl'
    \<and> versions vl' = (versions vl)[nat k := 0xfe]
    \<and> vl_Count vl' = vl_Count vl - (if versions vl ! nat k = 0xfe then 0 else 1)"
proof -
  have g: "getByte (vl_data vl) k = Ret (versions vl ! nat k)"
    using vl_GetVersion_in [OF inv has] by (simp add: vl_GetVersion_def)
  obtain d where d: "setByte (vl_data vl) k 0xfe = Ret d" "ds_R d = ds_R (vl_data vl)" "ds_inv 1 1 d"
    "bytesOf d = (versions vl)[nat k := 0xfe]"
    "int (count_list (bytesOf d) 0xfe) = vl_deleted vl - (if versions vl ! nat k = 0xfe then 1 else 0) + 1"
    using vl_set_inv [OF inv has, of "0xfe"] by auto
  show ?thesis
    using g d by (cases "versions vl ! nat k = 0xfe")
      (simp_all add: vl_Delete_def vl_inv_def versions_def vl_Count_def)
qed

text \<open>Version arithmetic: versions stay in 0 to 127, so they are never the deletion mark.\<close>

lemma nextVersion_mod: "unat (nextVersion v) = (unat v + 1) mod 128"
proof -
  have "nextVersion v = take_bit 7 (v + 1)"
    by (simp add: nextVersion_def take_bit_eq_mask mask_eq_exp_minus_1)
  then have "unat (nextVersion v) = take_bit 7 (unat (v + 1))"
    by (simp only: unsigned_take_bit_eq)
  also have "\<dots> = unat (v + 1) mod 128" by (simp add: take_bit_eq_mod)
  also have "\<dots> = (unat v + 1) mod 128"
    by (simp add: unat_word_ariths mod_mod_cancel)
  finally show ?thesis .
qed

lemma nextVersion_not_deleted: "nextVersion v \<noteq> 0xfe"
proof
  assume "nextVersion v = 0xfe"
  then have "unat (nextVersion v) = 254" by simp
  moreover have "unat (nextVersion v) < 128" by (simp add: nextVersion_mod)
  ultimately show False by simp
qed

lemma IncVersion_live:
  assumes inv: "vl_inv vl" and has: "vl_has vl k" and live: "versions vl ! nat k \<noteq> 0xfe"
  shows "\<exists>vl'. vl_IncVersion vl k nv = Ret (True, nextVersion (versions vl ! nat k), vl') \<and> vl_inv vl'
    \<and> versions vl' = (versions vl)[nat k := nextVersion (versions vl ! nat k)]
    \<and> vl_GetVectorNum vl' = vl_GetVectorNum vl \<and> vl_deleted vl' = vl_deleted vl"
proof -
  let ?v = "nextVersion (versions vl ! nat k)"
  obtain d where d: "setByte (vl_data vl) k ?v = Ret d" "ds_inv 1 1 d" "ds_R d = ds_R (vl_data vl)"
    "bytesOf d = (versions vl)[nat k := ?v]" "int (count_list (bytesOf d) 0xfe) = vl_deleted vl"
    using vl_set_inv [OF inv has, of ?v] live nextVersion_not_deleted by auto
  have "vl_IncVersion vl k nv = Ret (True, ?v, vl\<lparr>vl_data := d\<rparr>)"
    using live vl_Deleted_in [OF inv has] vl_GetVersion_in [OF inv has] d(1)
    by (simp add: vl_IncVersion_def Let_def)
  with d show ?thesis by (auto simp: vl_inv_def versions_def vl_GetVectorNum_def)
qed

text \<open>
  Bumping the version of a live vector stores the successor modulo 128 and nothing else,
  and the vector stays live; on a deleted vector the call answers \<open>false\<close> and changes nothing,
  so a version bump never revives a deleted vector.
\<close>

theorem vl_IncVersion_correct:
  assumes inv: "vl_inv vl" and has: "vl_has vl k"
  shows "\<exists>ok v' vl'. vl_IncVersion vl k nv = Ret (ok, v', vl') \<and> vl_inv vl'
    \<and> (if versions vl ! nat k = 0xfe then \<not> ok \<and> v' = nv \<and> vl' = vl
       else ok \<and> v' = nextVersion (versions vl ! nat k) \<and> v' \<noteq> 0xfe
         \<and> unat v' = (unat (versions vl ! nat k) + 1) mod 128
         \<and> versions vl' = (versions vl)[nat k := v'] \<and> vl_deleted vl' = vl_deleted vl)"
proof (cases "versions vl ! nat k = 0xfe")
  case True
  then have "vl_IncVersion vl k nv = Ret (False, nv, vl)"
    using vl_Deleted_in [OF inv has] by (simp add: vl_IncVersion_def)
  with True inv show ?thesis by auto
next
  case False
  then show ?thesis using IncVersion_live [OF inv has False, of nv] nextVersion_not_deleted nextVersion_mod
    by auto
qed

text \<open>
  A version comes back after 128 bumps: an entry written with a version that old is taken for
  current again.
\<close>

lemma unat_nextVersion_funpow: "unat ((nextVersion ^^ Suc n) v) = (unat v + Suc n) mod 128"
proof (induction n)
  case 0
  then show ?case by (simp add: nextVersion_mod)
next
  case (Suc n)
  have "unat ((nextVersion ^^ Suc (Suc n)) v) = (unat ((nextVersion ^^ Suc n) v) + 1) mod 128"
    by (simp add: nextVersion_mod)
  also have "\<dots> = ((unat v + Suc n) mod 128 + 1) mod 128" by (simp only: Suc.IH)
  also have "\<dots> = (unat v + Suc (Suc n)) mod 128" by (simp add: mod_Suc_eq)
  finally show ?case .
qed

lemma nextVersion_cycle: "unat v < 128 \<Longrightarrow> (nextVersion ^^ 128) v = v"
  using unat_nextVersion_funpow [of 127 v] by (simp add: word_unat_eq_iff)

lemma vl_Initialize_correct:
  assumes "0 \<le> sz" "ds_incRows (vl_data vl) = 0" "ds_elem (vl_data vl) = 1" "vl_deleted vl = 0"
  shows "\<exists>vl'. vl_Initialize vl sz bs cap = Ret vl' \<and> vl_inv vl' \<and> vl_GetVectorNum vl' = sz
    \<and> versions vl' = replicate (nat sz) 255"
  using ds_Initialize_blank [OF assms(1,2), of 1 bs cap True] assms(3,4)
  by (auto simp: vl_Initialize_def vl_inv_def versions_def bytesOf_def vl_GetVectorNum_def
      count_list_replicate)

text \<open>A table of three fresh vectors, for the concrete instances.\<close>

definition vlSample :: versionLabel where
  "vlSample = (case vl_Initialize vl_new 3 4 10 of Ret vl \<Rightarrow> vl | _ \<Rightarrow> vl_new)"

lemma vlSample: "vl_inv vlSample" "vl_has vlSample 1" "versions vlSample = [255, 255, 255]"
  "vl_Count vlSample = 3" "vl_GetVectorNum vlSample = 3" "vl_deleted vlSample = 0"
proof -
  obtain vl' where v: "vl_Initialize vl_new 3 4 10 = Ret vl'" "vl_inv vl'" "vl_GetVectorNum vl' = 3"
    "versions vl' = replicate (nat 3) 255"
    using vl_Initialize_correct [of 3 vl_new 4 10] by (auto simp: vl_new_def ds_new_def)
  then have s: "vlSample = vl'" by (simp add: vlSample_def)
  show vs: "versions vlSample = [255, 255, 255]" using v(4) s by (simp add: numeral_3_eq_3)
  show i: "vl_inv vlSample" using v(2) s by simp
  show d: "vl_deleted vlSample = 0" using i vs by (simp add: vl_inv_def)
  show n: "vl_GetVectorNum vlSample = 3" using v(3) s by simp
  show "vl_has vlSample 1" using n by (simp add: vl_has_def)
  show "vl_Count vlSample = 3" using n d by (simp add: vl_Count_def vl_GetVectorNum_def)
qed

theorem vl_Delete_correct_witness:
  "\<exists>vl'. vl_Delete vlSample 1 = Ret (True, vl') \<and> versions vl' = [255, 0xfe, 255] \<and> vl_Count vl' = 2"
  using vl_Delete_correct [OF vlSample(1,2)] by (auto simp: vlSample)

theorem vl_IncVersion_correct_witness:
  "\<exists>vl'. vl_IncVersion vlSample 1 9 = Ret (True, 0, vl') \<and> versions vl' = [255, 0, 255]"
proof -
  have "nextVersion 255 = 0" by (simp add: nextVersion_def)
  then show ?thesis using vl_IncVersion_correct [OF vlSample(1,2), of 9] by (auto simp: vlSample)
qed

lemma vl_AddBatch_correct:
  assumes inv: "vl_inv vl" and n: "0 \<le> n" "vl_GetVectorNum vl + n \<le> ds_maxRows (vl_data vl)"
  shows "\<exists>vl'. vl_AddBatch vl n = Ret (Success, vl') \<and> vl_inv vl'
    \<and> vl_GetVectorNum vl' = vl_GetVectorNum vl + n
    \<and> versions vl' = versions vl @ replicate (nat n) 255 \<and> vl_Count vl' = vl_Count vl + n"
proof -
  obtain d where d: "ds_AddBatch (vl_data vl) n None = Ret (Success, d)" "ds_inv 1 1 d"
    "ds_R d = ds_R (vl_data vl) + n" "bytesOf d = bytesOf (vl_data vl) @ replicate (nat n) 255"
    using addBytes_in [of "vl_data vl" n] inv n by (auto simp: vl_inv_def vl_GetVectorNum_def)
  then show ?thesis using inv
    by (simp add: vl_AddBatch_def vl_inv_def versions_def vl_GetVectorNum_def vl_Count_def
        count_list_replicate)
qed

lemma ds_inv_one_col: "ds_inv 1 e d \<Longrightarrow> ds_ok d \<and> ds_mycols d = 1 \<and> ds_elem d = e"
  by (simp add: ds_inv_def)

text \<open>
  C30 What \<open>Save\<close> writes, \<open>Load\<close> reads back: the same versions and deletion marks, the same
  counter, and the rest of the stream untouched.
\<close>

theorem vl_Save_Load:
  assumes inv: "vl_inv vl" and R: "int32_ok (vl_GetVectorNum vl)" and os: "os_room os = None"
  shows "\<exists>img vl'. vl_Save vl os = Ret (Inr (os\<lparr>os_data := os_data os @ img\<rparr>))
    \<and> vl_Load vl_new (img @ rest) bs cap = Ret (Inr (vl', rest))
    \<and> vl_inv vl' \<and> versions vl' = versions vl \<and> vl_deleted vl' = vl_deleted vl"
proof -
  have d: "ds_ok (vl_data vl)" "ds_mycols (vl_data vl) = 1" "ds_elem (vl_data vl) = 1"
    using inv ds_inv_one_col by (auto simp: vl_inv_def)
  have del: "int32_ok (vl_deleted vl)"
  proof -
    have "count_list (versions vl) 0xfe \<le> length (versions vl)" by (rule count_le_length)
    then show ?thesis using inv R ds_ok_cap [OF d(1)]
      by (simp add: vl_inv_def int32_ok_def versions_def vl_GetVectorNum_def)
  qed
  let ?img = "enc_int 4 (vl_deleted vl) @ ds_image (vl_data vl)"
  have "vl_Save vl os = Ret (Inr (os\<lparr>os_data := os_data os @ ?img\<rparr>))"
    using os ds_Save_image [OF d(1)] by (simp add: vl_Save_def ioWrite_unlimited)
  moreover obtain d' where d': "ds_Load (ds_new 1) (ds_image (vl_data vl) @ rest) bs cap = Ret (Inr (d', rest))"
    "ds_list d' = ds_list (vl_data vl)" "ds_inv 1 1 d'" "ds_R d' = ds_R (vl_data vl)"
    using ds_Save_Load [OF d(1), of rest bs cap] R d by (auto simp: vl_GetVectorNum_def int32_ok_def)
  have "vl_Load vl_new (?img @ rest) bs cap =
      Ret (Inr (vl_new\<lparr>vl_deleted := vl_deleted vl, vl_data := d'\<rparr>, rest))"
    using d'(1) del by (simp add: vl_Load_def vl_new_def dec_enc_int32)
  ultimately show ?thesis
    using d'(2,3) inv
    by (intro exI [of _ ?img] exI [of _ "vl_new\<lparr>vl_deleted := vl_deleted vl, vl_data := d'\<rparr>"])
      (simp add: vl_inv_def versions_def bytesOf_def)
qed

theorem vl_Save_Load_witness:
  "\<exists>img vl'. vl_Save vlSample \<lparr>os_data = [], os_room = None\<rparr> = Ret (Inr \<lparr>os_data = img, os_room = None\<rparr>)
    \<and> vl_Load vl_new (img @ [7]) 4 10 = Ret (Inr (vl', [7])) \<and> versions vl' = [255, 255, 255]"
proof -
  have "int32_ok (vl_GetVectorNum vlSample)" by (simp add: vlSample int32_ok_def)
  from vl_Save_Load [OF vlSample(1) this, of "\<lparr>os_data = [], os_room = None\<rparr>" "[7]" 4 10]
  show ?thesis by (auto simp: vlSample)
qed

section \<open>Labelset\<close>

definition marks :: "labelset \<Rightarrow> bytes" where
  "marks ls = bytesOf (ls_data ls)"

definition ls_inv :: "labelset \<Rightarrow> bool" where
  "ls_inv ls \<longleftrightarrow> ds_inv 1 1 (ls_data ls) \<and> ls_inserted ls = int (count_list (marks ls) 1)"

lemma ls_Contains_in:
  "ls_inv ls \<Longrightarrow> 0 \<le> k \<Longrightarrow> k < ls_R ls \<Longrightarrow> ls_Contains ls k = Ret (marks ls ! nat k = 1)"
  by (simp add: ls_Contains_def marks_def getByte_in ls_inv_def ls_R_def)

lemma ls_Insert_correct:
  assumes inv: "ls_inv ls" and k: "0 \<le> k" "k < ls_R ls"
  shows "\<exists>ls'. ls_Insert ls k = Ret (marks ls ! nat k \<noteq> 1, ls') \<and> ls_inv ls' \<and> ls_R ls' = ls_R ls
    \<and> ds_maxRows (ls_data ls') = ds_maxRows (ls_data ls) \<and> marks ls' = (marks ls)[nat k := 1]"
proof -
  have d: "ds_inv 1 1 (ls_data ls)" "0 \<le> k" "k < ds_R (ls_data ls)"
    using inv k by (auto simp: ls_inv_def ls_R_def)
  obtain d' where d': "setByte (ls_data ls) k 1 = Ret d'" "ds_inv 1 1 d'" "ds_R d' = ds_R (ls_data ls)"
    "ds_maxRows d' = ds_maxRows (ls_data ls)"
    "bytesOf d' = (marks ls)[nat k := 1]"
    using setByte_in [OF d, of 1] by (auto simp: marks_def)
  have "nat k < length (marks ls)" using d(2,3) by (simp add: marks_def nat_less_iff)
  note c = count_list_update [OF this, of 1 1]
  show ?thesis
    using getByte_in [OF d] d' c inv
    by (cases "marks ls ! nat k = 1") (simp_all add: ls_Insert_def ls_inv_def marks_def ls_R_def)
qed

lemma ls_AddBatch_correct:
  assumes inv: "ls_inv ls" and n: "0 \<le> n" "ls_R ls + n \<le> ds_maxRows (ls_data ls)"
  shows "\<exists>ls'. ls_AddBatch ls n = Ret (Success, ls') \<and> ls_inv ls' \<and> ls_R ls' = ls_R ls + n
    \<and> ds_maxRows (ls_data ls') = ds_maxRows (ls_data ls)
    \<and> marks ls' = marks ls @ replicate (nat n) 255"
proof -
  obtain d where d: "ds_AddBatch (ls_data ls) n None = Ret (Success, d)" "ds_inv 1 1 d"
    "ds_R d = ds_R (ls_data ls) + n" "bytesOf d = bytesOf (ls_data ls) @ replicate (nat n) 255"
    "ds_maxRows d = ds_maxRows (ls_data ls)"
    using addBytes_in [of "ls_data ls" n] inv n by (auto simp: ls_inv_def ls_R_def)
  then show ?thesis using inv
    by (simp add: ls_AddBatch_def ls_inv_def marks_def ls_R_def count_list_replicate)
qed

section \<open>PostingSizeRecord\<close>

definition ps_inv :: "postingSizes \<Rightarrow> bool" where
  "ps_inv ps \<longleftrightarrow> ds_inv 1 4 ps"

definition ps_has :: "postingSizes \<Rightarrow> int \<Rightarrow> bool" where
  "ps_has ps k \<longleftrightarrow> 0 \<le> k \<and> k < ps_GetPostingNum ps"

lemma ps_GetSize_in: "ps_inv ps \<Longrightarrow> ps_has ps k \<Longrightarrow> ps_GetSize ps k = Ret (intsOf ps ! nat k)"
  by (simp add: ps_inv_def ps_has_def ps_GetPostingNum_def ps_GetSize_def getInt_in)

lemma ps_UpdateSize_in:
  assumes "ps_inv ps" "ps_has ps k" "int32_ok x"
  shows "\<exists>ps'. ps_UpdateSize ps k x = Ret ps' \<and> ps_inv ps' \<and> ps_GetPostingNum ps' = ps_GetPostingNum ps
    \<and> ds_maxRows ps' = ds_maxRows ps \<and> intsOf ps' = (intsOf ps)[nat k := x]"
  using setInt_in [of ps k x] assms ps_GetSize_in [OF assms(1,2)]
  by (auto simp: ps_inv_def ps_has_def ps_GetPostingNum_def ps_UpdateSize_def)

lemma ps_IncSize_in:
  assumes "ps_inv ps" "ps_has ps k" "int32_ok (intsOf ps ! nat k + n)"
  shows "\<exists>ps'. ps_IncSize ps k n = Ret ps' \<and> ps_inv ps' \<and> ps_GetPostingNum ps' = ps_GetPostingNum ps
    \<and> ds_maxRows ps' = ds_maxRows ps \<and> intsOf ps' = (intsOf ps)[nat k := intsOf ps ! nat k + n]"
  using setInt_in [of ps k "intsOf ps ! nat k + n"] assms ps_GetSize_in [OF assms(1,2)]
  by (auto simp: ps_inv_def ps_has_def ps_GetPostingNum_def ps_IncSize_def)

lemma ps_AddBatch_in:
  assumes "ps_inv ps" "0 \<le> n" "ps_GetPostingNum ps + n \<le> ds_maxRows ps"
  shows "\<exists>ps'. ps_AddBatch ps n = Ret (Success, ps') \<and> ps_inv ps'
    \<and> ps_GetPostingNum ps' = ps_GetPostingNum ps + n \<and> ds_maxRows ps' = ds_maxRows ps
    \<and> intsOf ps' = intsOf ps @ replicate (nat n) (- 1)"
  using addInts_in [of ps n] assms by (auto simp: ps_inv_def ps_GetPostingNum_def ps_AddBatch_def)

end
