(* ===== verification/AtomicLoops.thy ===== *)
theory AtomicLoops
  imports LabelProps
begin

text \<open>
  The atomic loops of \<open>VersionLabel\<close> and \<open>PostingSizeRecord\<close> step by step, for any number of
  threads working on one key: every read, exchange and compare-exchange of the source is one
  step, and the steps of different threads interleave freely. A transition carries the event
  that takes effect in it, so a run is a list of events.
\<close>

section \<open>Sizes: UpdateSize and IncSize\<close>

text \<open>
  A thread is idle, about to read the old size, or about to compare-exchange. The cell and the arguments are 32-bit
  \<open>int\<close>s. When \<open>oldSize + appendNum\<close> overflows, the behaviour is undefined: no step of the thread is modelled after it.
\<close>

datatype szThread =
  SzIdle
| UpdRead "32 word" | UpdCas "32 word" "32 word"
| IncRead "32 word" | IncCas "32 word" "32 word"
| SzUndefined

record szState =
  szCell :: "32 word"
  szThread :: "nat \<Rightarrow> szThread"

datatype szEvent = SzTau | Updated nat "32 word" | Increased nat "32 word" | Overflowed nat

definition szFits :: "32 word \<Rightarrow> 32 word \<Rightarrow> bool" where
  "szFits oldSize appendNum \<longleftrightarrow> int32_ok (sint oldSize + sint appendNum)"

inductive szStep :: "szState \<Rightarrow> szEvent \<Rightarrow> szState \<Rightarrow> bool" where
  upd_call: "szThread s t = SzIdle \<Longrightarrow>
    szStep s SzTau (s\<lparr>szThread := (szThread s)(t := UpdRead newSize)\<rparr>)"
| upd_read: "szThread s t = UpdRead newSize \<Longrightarrow>
    szStep s SzTau (s\<lparr>szThread := (szThread s)(t := UpdCas newSize (szCell s))\<rparr>)"
| upd_ok: "szThread s t = UpdCas newSize oldSize \<Longrightarrow> szCell s = oldSize \<Longrightarrow>
    szStep s (Updated t newSize) (s\<lparr>szCell := newSize, szThread := (szThread s)(t := SzIdle)\<rparr>)"
| upd_retry: "szThread s t = UpdCas newSize oldSize \<Longrightarrow> szCell s \<noteq> oldSize \<Longrightarrow>
    szStep s SzTau (s\<lparr>szThread := (szThread s)(t := UpdRead newSize)\<rparr>)"
| inc_call: "szThread s t = SzIdle \<Longrightarrow>
    szStep s SzTau (s\<lparr>szThread := (szThread s)(t := IncRead appendNum)\<rparr>)"
| inc_read: "szThread s t = IncRead appendNum \<Longrightarrow> szFits (szCell s) appendNum \<Longrightarrow>
    szStep s SzTau (s\<lparr>szThread := (szThread s)(t := IncCas appendNum (szCell s))\<rparr>)"
| inc_overflow: "szThread s t = IncRead appendNum \<Longrightarrow> \<not> szFits (szCell s) appendNum \<Longrightarrow>
    szStep s (Overflowed t) (s\<lparr>szThread := (szThread s)(t := SzUndefined)\<rparr>)"
| inc_ok: "szThread s t = IncCas appendNum oldSize \<Longrightarrow> szCell s = oldSize \<Longrightarrow>
    szStep s (Increased t appendNum)
      (s\<lparr>szCell := oldSize + appendNum, szThread := (szThread s)(t := SzIdle)\<rparr>)"
| inc_retry: "szThread s t = IncCas appendNum oldSize \<Longrightarrow> szCell s \<noteq> oldSize \<Longrightarrow>
    szStep s SzTau (s\<lparr>szThread := (szThread s)(t := IncRead appendNum)\<rparr>)"

inductive szRun :: "szState \<Rightarrow> szEvent list \<Rightarrow> szState \<Rightarrow> bool" where
  sz_nil: "szRun s [] s"
| sz_snoc: "szRun s es s' \<Longrightarrow> szStep s' e s'' \<Longrightarrow> szRun s (es @ [e]) s''"

inductive_cases szStepE: "szStep s e s'"

definition szInit :: "32 word \<Rightarrow> szState" where
  "szInit n = \<lparr>szCell = n, szThread = (\<lambda>_. SzIdle)\<rparr>"

text \<open>The meaning of an event on the size as an integer: the call done at one instant on the size it finds.\<close>

fun szApply :: "int \<Rightarrow> szEvent \<Rightarrow> int" where
  "szApply n (Updated t m) = sint m"
| "szApply n (Increased t a) = n + sint a"
| "szApply n e = n"

fun szAmount :: "szEvent \<Rightarrow> int" where
  "szAmount (Increased t a) = sint a"
| "szAmount e = 0"

fun isUpdated :: "szEvent \<Rightarrow> bool" where
  "isUpdated (Updated t m) = True"
| "isUpdated e = False"

fun isOverflow :: "szEvent \<Rightarrow> bool" where
  "isOverflow (Overflowed t) = True"
| "isOverflow e = False"

lemma szFits_add: "szFits n a \<Longrightarrow> sint (n + a) = sint n + sint a"
  by (simp add: szFits_def int32_ok_def sint_word_ariths signed_take_bit_int_eq_self)

text \<open>A thread about to exchange has computed a sum that fits.\<close>

definition szSane :: "szState \<Rightarrow> bool" where
  "szSane s \<longleftrightarrow> (\<forall>t a old. szThread s t = IncCas a old \<longrightarrow> szFits old a)"

lemma szStep_sane: "szStep s e s' \<Longrightarrow> szSane s \<Longrightarrow> szSane s'"
  by (auto simp: szSane_def elim!: szStepE split: if_splits)

lemma szStep_apply: "szStep s e s' \<Longrightarrow> szSane s \<Longrightarrow> sint (szCell s') = szApply (sint (szCell s)) e"
  by (auto simp: szSane_def szFits_add elim!: szStepE)

lemma szRun_apply: "szRun s es s' \<Longrightarrow> szSane s \<Longrightarrow> szSane s' \<and> sint (szCell s') = foldl szApply (sint (szCell s)) es"
  by (induction rule: szRun.induct) (auto simp: szStep_apply szStep_sane)

lemma foldl_amounts:
  "\<not> list_ex isUpdated es \<Longrightarrow> foldl szApply n es = n + sum_list (map szAmount es)"
proof (induction es arbitrary: n)
  case Nil
  then show ?case by simp
next
  case (Cons e es)
  then show ?case by (cases e) auto
qed

text \<open>
  C21 The size table loses no update: after any interleaving of \<open>IncSize\<close> and \<open>UpdateSize\<close> calls in which no sum
  overflows an \<open>int\<close>, the size is, as an integer, the one the completed calls give one after another, in the order of
  their successful exchanges; in a run with no \<open>UpdateSize\<close> it is the first size plus every amount added by a
  completed call.
\<close>

theorem szRun_no_lost_update:
  assumes "szRun (szInit n) es s" "\<not> list_ex isOverflow es"
  shows "sint (szCell s) = foldl szApply (sint n) es
    \<and> (\<not> list_ex isUpdated es \<longrightarrow> sint (szCell s) = sint n + sum_list (map szAmount es))"
proof -
  have "szSane (szInit n)" by (simp add: szSane_def szInit_def)
  from szRun_apply [OF assms(1) this] show ?thesis by (simp add: szInit_def foldl_amounts)
qed

lemma szRun_step: "szStep s e s' \<Longrightarrow> szRun s [e] s'"
  using sz_snoc [OF sz_nil, of s e s'] by simp

lemma szRun_append: "szRun s' es' s'' \<Longrightarrow> szRun s es s' \<Longrightarrow> szRun s (es @ es') s''"
proof (induction rule: szRun.induct)
  case (sz_snoc s0 es' s1 e s2)
  from sz_snoc.IH [OF sz_snoc.prems] sz_snoc.hyps(2) show ?case
    by (metis szRun.sz_snoc append_assoc)
qed simp

text \<open>Two threads read the same size 10; the slower one fails its exchange and tries again.\<close>

lemma szRun_Cons: "szStep s e s' \<Longrightarrow> szRun s' es s'' \<Longrightarrow> szRun s (e # es) s''"
  using szRun_append [of s' es s'' s "[e]"] szRun_step by simp

definition szTwo :: "32 word \<Rightarrow> szThread \<Rightarrow> szThread \<Rightarrow> szState" where
  "szTwo c a b = \<lparr>szCell = c, szThread = (\<lambda>_. SzIdle)(0 := a, 1 := b)\<rparr>"

lemma szTwo_steps:
  "szStep (szTwo c SzIdle b) SzTau (szTwo c (IncRead n) b)"
  "szStep (szTwo c a SzIdle) SzTau (szTwo c a (IncRead n))"
  "szFits c n \<Longrightarrow> szStep (szTwo c (IncRead n) b) SzTau (szTwo c (IncCas n c) b)"
  "szFits c n \<Longrightarrow> szStep (szTwo c a (IncRead n)) SzTau (szTwo c a (IncCas n c))"
  "szStep (szTwo c (IncCas n c) b) (Increased 0 n) (szTwo (c + n) SzIdle b)"
  "szStep (szTwo c a (IncCas n c)) (Increased 1 n) (szTwo (c + n) a SzIdle)"
  "c \<noteq> old \<Longrightarrow> szStep (szTwo c (IncCas n old) b) SzTau (szTwo c (IncRead n) b)"
  using inc_call [of "szTwo c SzIdle b" 0 n] inc_call [of "szTwo c a SzIdle" 1 n]
    inc_read [of "szTwo c (IncRead n) b" 0 n] inc_read [of "szTwo c a (IncRead n)" 1 n]
    inc_ok [of "szTwo c (IncCas n c) b" 0 n c] inc_ok [of "szTwo c a (IncCas n c)" 1 n c]
    inc_retry [of "szTwo c (IncCas n old) b" 0 n old]
  by (simp_all add: szTwo_def fun_upd_twist)

lemma szRun_example:
  "szRun (szInit 10) [SzTau, SzTau, SzTau, SzTau, Increased 1 3, SzTau, SzTau, Increased 0 5] (szTwo 18 SzIdle SzIdle)"
proof -
  have f: "szFits 10 5" "szFits 10 3" "szFits 13 5" by (simp_all add: szFits_def int32_ok_def)
  have e: "13 + 5 = (18 :: 32 word)" "10 + 3 = (13 :: 32 word)" by simp_all
  have i: "szInit 10 = szTwo 10 SzIdle SzIdle" by (simp add: szInit_def szTwo_def fun_upd_idem)
  have "szRun (szTwo 13 (IncCas 5 10) SzIdle) [SzTau, SzTau, Increased 0 5] (szTwo (13 + 5) SzIdle SzIdle)"
    by (rule szRun_Cons [OF szTwo_steps(7)], simp)
      (rule szRun_Cons [OF szTwo_steps(3) [OF f(3)]], rule szRun_step [OF szTwo_steps(5)])
  from szRun_Cons [OF szTwo_steps(6) [of 10 "IncCas 5 10" 3, unfolded e] this]
  have "szRun (szTwo 10 (IncCas 5 10) (IncCas 3 10)) [Increased 1 3, SzTau, SzTau, Increased 0 5] (szTwo 18 SzIdle SzIdle)"
    unfolding e .
  from szRun_Cons [OF szTwo_steps(1) szRun_Cons [OF szTwo_steps(2)
      szRun_Cons [OF szTwo_steps(3) [OF f(1)] szRun_Cons [OF szTwo_steps(4) [OF f(2)] this]]]]
  show ?thesis unfolding i .
qed

theorem szRun_no_lost_update_witness:
  "szRun (szInit 10) [SzTau, SzTau, SzTau, SzTau, Increased 1 3, SzTau, SzTau, Increased 0 5] (szTwo 18 SzIdle SzIdle)
   \<and> sint (szCell (szTwo 18 SzIdle SzIdle)) = 10 + (3 + 5)"
  using szRun_example szRun_no_lost_update [OF szRun_example] by simp

text \<open>
  The loops retry only when another call won. A run of one thread alone, from inside its \<open>IncSize\<close> until the call
  returns: every step of it changes that thread, and no step is taken after the return.
\<close>

fun szPending :: "szThread \<Rightarrow> (32 word) option" where
  "szPending (IncRead a) = Some a"
| "szPending (IncCas a old) = Some a"
| "szPending t = None"

inductive szSolo :: "nat \<Rightarrow> szState \<Rightarrow> szEvent list \<Rightarrow> szState \<Rightarrow> bool" for t s where
  solo_nil: "szSolo t s [] s"
| solo_snoc: "szSolo t s es s' \<Longrightarrow> szPending (szThread s' t) \<noteq> None \<Longrightarrow> szStep s' e s'' \<Longrightarrow>
    szThread s'' t \<noteq> szThread s' t \<Longrightarrow> szSolo t s (es @ [e]) s''"

text \<open>The steps a thread inside the loop has before it when no other thread interferes.\<close>

definition szLeft :: "szState \<Rightarrow> nat \<Rightarrow> nat" where
  "szLeft s t = (case szThread s t of IncRead a \<Rightarrow> 2 | IncCas a old \<Rightarrow> (if szCell s = old then 1 else 3) | _ \<Rightarrow> 0)"

lemma solo_step:
  assumes "szStep s e s'" "szPending (szThread s t) = Some a" "szThread s' t \<noteq> szThread s t" "szFits (szCell s) a"
  shows "if szPending (szThread s' t) = None
    then e = Increased t a \<and> szThread s' t = SzIdle \<and> szCell s' = szCell s + a \<and> szLeft s t = 1
    else szPending (szThread s' t) = Some a \<and> szCell s' = szCell s \<and> szLeft s' t + 1 = szLeft s t"
  using assms by cases (auto simp: szLeft_def split: if_splits)

lemma solo_can:
  assumes "szPending (szThread s t) = Some a" "szFits (szCell s) a"
  shows "\<exists>e s'. szStep s e s' \<and> szThread s' t \<noteq> szThread s t"
proof (cases "szThread s t")
  case (IncRead b)
  with assms have f: "szFits (szCell s) b" by simp
  show ?thesis by (intro exI, rule conjI [OF inc_read [OF IncRead f]]) (simp add: IncRead)
next
  case (IncCas b old)
  show ?thesis
  proof (cases "szCell s = old")
    case True
    show ?thesis by (intro exI, rule conjI [OF inc_ok [OF IncCas True]]) (simp add: IncCas)
  next
    case False
    show ?thesis by (intro exI, rule conjI [OF inc_retry [OF IncCas False]]) (simp add: IncCas)
  qed
qed (use assms in auto)

lemma szLeft_pending: "szPending (szThread s t) = Some a \<Longrightarrow> 0 < szLeft s t \<and> szLeft s t \<le> 3"
  by (cases "szThread s t") (auto simp: szLeft_def)

lemma solo_run:
  "szSolo t s es s' \<Longrightarrow> szPending (szThread s t) = Some a \<Longrightarrow> szFits (szCell s) a \<Longrightarrow>
   if szPending (szThread s' t) = None
   then length es = szLeft s t \<and> szThread s' t = SzIdle \<and> szCell s' = szCell s + a \<and> last es = Increased t a
   else szPending (szThread s' t) = Some a \<and> szCell s' = szCell s \<and> length es + szLeft s' t = szLeft s t"
proof (induction rule: szSolo.induct)
  case (solo_snoc es s' e s'')
  then have p: "szPending (szThread s' t) = Some a" "szCell s' = szCell s" "length es + szLeft s' t = szLeft s t" by auto
  from solo_step [OF solo_snoc.hyps(3) p(1) solo_snoc.hyps(4)] p solo_snoc.prems(2) show ?case by (auto split: if_splits)
qed simp

text \<open>
  C31 The retry loop of \<open>IncSize\<close> is obstruction free: in every run of one thread alone from any point inside the
  loop, as long as the sum fits an \<open>int\<close>, the call has returned after at most three steps with its amount added exactly
  once; until then nothing has changed and the thread has a next step.
\<close>

theorem IncSize_obstruction_free:
  assumes "szSolo t s es s'" "szPending (szThread s t) = Some a" "szFits (szCell s) a"
  shows "if szPending (szThread s' t) = None
    then length es \<le> 3 \<and> szThread s' t = SzIdle \<and> sint (szCell s') = sint (szCell s) + sint a \<and> last es = Increased t a
    else length es < 3 \<and> szPending (szThread s' t) = Some a \<and> szCell s' = szCell s
      \<and> (\<exists>e s''. szStep s' e s'' \<and> szThread s'' t \<noteq> szThread s' t)"
proof (cases "szPending (szThread s' t) = None")
  case True
  then show ?thesis using solo_run [OF assms] szLeft_pending [OF assms(2)] szFits_add [OF assms(3)] by simp
next
  case False
  then have p: "szPending (szThread s' t) = Some a" "szCell s' = szCell s" "length es + szLeft s' t = szLeft s t"
    using solo_run [OF assms] by auto
  then show ?thesis using szLeft_pending [OF assms(2)] szLeft_pending [OF p(1)] solo_can [OF p(1)] assms(3) by auto
qed

theorem IncSize_obstruction_free_witness:
  "\<exists>s'. szSolo 0 (szTwo 7 (IncCas 4 6) SzIdle) [SzTau, SzTau, Increased 0 4] s' \<and> sint (szCell s') = 11"
proof -
  have f: "szFits 7 4" by (simp add: szFits_def int32_ok_def)
  have th: "szThread (szTwo c a b) 0 = a" for c a b by (simp add: szTwo_def)
  let ?s = "szTwo 7 (IncCas 4 6) SzIdle"
  have "szSolo 0 ?s ([] @ [SzTau]) (szTwo 7 (IncRead 4) SzIdle)"
    by (rule solo_snoc [OF solo_nil _ szTwo_steps(7)]) (simp_all add: th)
  then have "szSolo 0 ?s (([] @ [SzTau]) @ [SzTau]) (szTwo 7 (IncCas 4 7) SzIdle)"
    by (rule solo_snoc [OF _ _ szTwo_steps(3) [OF f]]) (simp_all add: th)
  then have r: "szSolo 0 ?s ((([] @ [SzTau]) @ [SzTau]) @ [Increased 0 4]) (szTwo (7 + 4) SzIdle SzIdle)"
    by (rule solo_snoc [OF _ _ szTwo_steps(5)]) (simp_all add: th)
  have "szPending (szThread ?s 0) = Some 4" "szFits (szCell ?s) 4" using f by (simp_all add: szTwo_def)
  from IncSize_obstruction_free [OF r this] r show ?thesis
    by (intro exI [of _ "szTwo (7 + 4) SzIdle SzIdle"]) (simp add: th szTwo_def)
qed

section \<open>Versions: Delete and IncVersion\<close>

text \<open>
  A thread is idle; past \<open>IncVersion\<close>'s test of the mark; about to compare-exchange the version it
  read; about to exchange in the mark; or about to count its deletion.
\<close>

datatype vlThread = VlIdle | VlCheck | VlRead | VlCas byte | VlXchg | VlCount

record vlState =
  vlCell :: byte
  vlDeleted :: int
  vlThread :: "nat \<Rightarrow> vlThread"

datatype vlEvent = VlTau | Marked nat byte | Counted nat | Bumped nat byte | Refused nat

inductive vlStep :: "vlState \<Rightarrow> vlEvent \<Rightarrow> vlState \<Rightarrow> bool" where
  del_call: "vlThread s t = VlIdle \<Longrightarrow>
    vlStep s VlTau (s\<lparr>vlThread := (vlThread s)(t := VlXchg)\<rparr>)"
| del_xchg: "vlThread s t = VlXchg \<Longrightarrow> vlCell s = oldvalue \<Longrightarrow>
    vlStep s (Marked t oldvalue) (s\<lparr>vlCell := 0xfe,
      vlThread := (vlThread s)(t := if oldvalue = 0xfe then VlIdle else VlCount)\<rparr>)"
| del_count: "vlThread s t = VlCount \<Longrightarrow>
    vlStep s (Counted t) (s\<lparr>vlDeleted := vlDeleted s + 1, vlThread := (vlThread s)(t := VlIdle)\<rparr>)"
| bump_call: "vlThread s t = VlIdle \<Longrightarrow>
    vlStep s VlTau (s\<lparr>vlThread := (vlThread s)(t := VlCheck)\<rparr>)"
| bump_deleted: "vlThread s t = VlCheck \<Longrightarrow> vlCell s = 0xfe \<Longrightarrow>
    vlStep s (Refused t) (s\<lparr>vlThread := (vlThread s)(t := VlIdle)\<rparr>)"
| bump_live: "vlThread s t = VlCheck \<Longrightarrow> vlCell s \<noteq> 0xfe \<Longrightarrow>
    vlStep s VlTau (s\<lparr>vlThread := (vlThread s)(t := VlRead)\<rparr>)"
| bump_read: "vlThread s t = VlRead \<Longrightarrow>
    vlStep s VlTau (s\<lparr>vlThread := (vlThread s)(t := VlCas (vlCell s))\<rparr>)"
| bump_ok: "vlThread s t = VlCas oldVersion \<Longrightarrow> vlCell s = oldVersion \<Longrightarrow>
    vlStep s (Bumped t oldVersion) (s\<lparr>vlCell := nextVersion oldVersion,
      vlThread := (vlThread s)(t := VlIdle)\<rparr>)"
| bump_retry: "vlThread s t = VlCas oldVersion \<Longrightarrow> vlCell s \<noteq> oldVersion \<Longrightarrow>
    vlStep s VlTau (s\<lparr>vlThread := (vlThread s)(t := VlCheck)\<rparr>)"

inductive vlRun :: "vlState \<Rightarrow> vlEvent list \<Rightarrow> vlState \<Rightarrow> bool" where
  vl_nil: "vlRun s [] s"
| vl_snoc: "vlRun s es s' \<Longrightarrow> vlStep s' e s'' \<Longrightarrow> vlRun s (es @ [e]) s''"

inductive_cases vlStepE: "vlStep s e s'"

fun vlApply :: "byte \<Rightarrow> vlEvent \<Rightarrow> byte" where
  "vlApply v (Marked t old) = 0xfe"
| "vlApply v (Bumped t old) = nextVersion v"
| "vlApply v e = v"

fun vlMarks :: "vlEvent \<Rightarrow> int" where
  "vlMarks (Marked t old) = (if old = 0xfe then 0 else 1)"
| "vlMarks e = 0"

text \<open>A bump whose exchange expected the deletion mark: the race of test and read.\<close>

fun vlRevives :: "vlEvent \<Rightarrow> bool" where
  "vlRevives (Bumped t old) = (old = 0xfe)"
| "vlRevives e = False"

definition vlCounting :: "vlState \<Rightarrow> nat set" where
  "vlCounting s = {t. vlThread s t = VlCount}"

definition vlInit :: "byte \<Rightarrow> vlState" where
  "vlInit v = \<lparr>vlCell = v, vlDeleted = 0, vlThread = (\<lambda>_. VlIdle)\<rparr>"

lemma vlRun_Cons: "vlRun s' es s'' \<Longrightarrow> vlStep s e s' \<Longrightarrow> vlRun s (e # es) s''"
proof (induction rule: vlRun.induct)
  case (vl_nil s')
  then show ?case using vl_snoc [OF vlRun.vl_nil, of s e s'] by simp
next
  case (vl_snoc s' es s1 e' s2)
  then show ?case using vlRun.vl_snoc [of s "e # es" s1 e' s2] by simp
qed

lemma vlStep_apply: "vlStep s e s' \<Longrightarrow> vlCell s' = vlApply (vlCell s) e"
  by (auto elim: vlStepE)

lemma vlRun_apply: "vlRun s es s' \<Longrightarrow> vlCell s' = foldl vlApply (vlCell s) es"
  by (induction rule: vlRun.induct) (auto simp: vlStep_apply)

lemma vlCounting_upd:
  "vlCounting (s\<lparr>vlThread := (vlThread s)(t := x)\<rparr>) =
     (if x = VlCount then insert t (vlCounting s) else vlCounting s - {t})"
  by (auto simp: vlCounting_def)

lemma vlCounting_cell [simp]:
  "vlCounting (s\<lparr>vlCell := c\<rparr>) = vlCounting s" "vlCounting (s\<lparr>vlDeleted := d\<rparr>) = vlCounting s"
  by (simp_all add: vlCounting_def)

lemma vlCounting_upds [simp]:
  "vlCounting (s\<lparr>vlCell := c, vlThread := f\<rparr>) = vlCounting (s\<lparr>vlThread := f\<rparr>)"
  "vlCounting (s\<lparr>vlDeleted := d, vlThread := f\<rparr>) = vlCounting (s\<lparr>vlThread := f\<rparr>)"
  by (simp_all add: vlCounting_def)

lemma vlStep_count:
  assumes "vlStep s e s'" and fin: "finite (vlCounting s)"
  shows "finite (vlCounting s')
    \<and> vlDeleted s' + int (card (vlCounting s')) = vlDeleted s + int (card (vlCounting s)) + vlMarks e"
  using assms
proof cases
  case (del_xchg t oldvalue)
  then show ?thesis using fin
    by (auto simp: vlCounting_upd card_insert_if) (auto simp: vlCounting_def)
next
  case (del_count t)
  then have "t \<in> vlCounting s" by (simp add: vlCounting_def)
  then have "0 < card (vlCounting s)" using fin card_gt_0_iff by blast
  with del_count fin \<open>t \<in> vlCounting s\<close> show ?thesis
    by (simp add: vlCounting_upd)
qed (use fin in \<open>auto simp: vlCounting_upd intro: arg_cong [where f = card]\<close>,
    (auto simp: vlCounting_def intro!: arg_cong [where f = card])?)

lemma vlRun_count:
  "vlRun s es s' \<Longrightarrow> finite (vlCounting s) \<Longrightarrow> finite (vlCounting s')
    \<and> vlDeleted s' + int (card (vlCounting s')) =
      vlDeleted s + int (card (vlCounting s)) + sum_list (map vlMarks es)"
proof (induction rule: vlRun.induct)
  case (vl_snoc s es s' e s'')
  then show ?case using vlStep_count [of s' e s''] by auto
qed simp

text \<open>While no bump replaces the mark, the mark stays once set, and one marking finds none.\<close>

lemma vl_marked_stays:
  "vlRun s es s' \<Longrightarrow> \<not> list_ex vlRevives es \<Longrightarrow>
    sum_list (map vlMarks es) = (if vlCell s' = 0xfe \<and> vlCell s \<noteq> 0xfe then 1 else 0)
    \<and> (vlCell s = 0xfe \<longrightarrow> vlCell s' = 0xfe)"
proof (induction rule: vlRun.induct)
  case (vl_snoc s es s' e s'')
  from vl_snoc.hyps(2) vl_snoc.IH vl_snoc.prems show ?case
    by (cases rule: vlStep.cases) (auto simp: nextVersion_not_deleted split: if_splits)
qed simp

text \<open>
  C25 Concurrent calls of \<open>Delete\<close> and \<open>IncVersion\<close> on one vector, in a run in which no version
  bump exchanges the deletion mark itself: the version is the one the completed calls give one
  after another, a deletion is never undone, and the deletions counted, plus those of
  threads still between their exchange and their increment, are exactly one if the vector was
  deleted in the run and none otherwise.
\<close>

theorem vlRun_delete_once:
  assumes "vlRun (vlInit v) es s" "\<not> list_ex vlRevives es" "v \<noteq> 0xfe"
  shows "vlCell s = foldl vlApply v es
    \<and> vlDeleted s + int (card (vlCounting s)) = (if vlCell s = 0xfe then 1 else 0)"
proof -
  have "vlCounting (vlInit v) = {}" by (simp add: vlCounting_def vlInit_def)
  then show ?thesis
    using vlRun_apply [OF assms(1)] vlRun_count [OF assms(1)] vl_marked_stays [OF assms(1,2)] assms(3)
    by (simp add: vlInit_def)
qed

definition vlTwo :: "byte \<Rightarrow> int \<Rightarrow> vlThread \<Rightarrow> vlThread \<Rightarrow> vlState" where
  "vlTwo c d a b = \<lparr>vlCell = c, vlDeleted = d, vlThread = (\<lambda>_. VlIdle)(0 := a, 1 := b)\<rparr>"

lemma vlTwo_steps:
  "vlStep (vlTwo c d VlIdle b) VlTau (vlTwo c d VlCheck b)"
  "c \<noteq> 0xfe \<Longrightarrow> vlStep (vlTwo c d VlCheck b) VlTau (vlTwo c d VlRead b)"
  "vlStep (vlTwo c d VlRead b) VlTau (vlTwo c d (VlCas c) b)"
  "vlStep (vlTwo c d (VlCas c) b) (Bumped 0 c) (vlTwo (nextVersion c) d VlIdle b)"
  "vlStep (vlTwo c d a VlIdle) VlTau (vlTwo c d a VlXchg)"
  "c \<noteq> 0xfe \<Longrightarrow> vlStep (vlTwo c d a VlXchg) (Marked 1 c) (vlTwo 0xfe d a VlCount)"
  "vlStep (vlTwo c d a VlCount) (Counted 1) (vlTwo c (d + 1) a VlIdle)"
  using bump_call [of "vlTwo c d VlIdle b" 0] bump_live [of "vlTwo c d VlCheck b" 0]
    bump_read [of "vlTwo c d VlRead b" 0] bump_ok [of "vlTwo c d (VlCas c) b" 0 c]
    del_call [of "vlTwo c d a VlIdle" 1] del_xchg [of "vlTwo c d a VlXchg" 1 c]
    del_count [of "vlTwo c d a VlCount" 1]
  by (simp_all add: vlTwo_def fun_upd_twist)

lemma vlInit_Two: "vlInit v = vlTwo v 0 VlIdle VlIdle"
  by (simp add: vlInit_def vlTwo_def fun_upd_idem)

lemma vlRun_single: "vlStep s e s' \<Longrightarrow> vlRun s [e] s'"
  by (rule vlRun_Cons [OF vl_nil])

lemma vlRun_delete_example:
  "vlRun (vlInit 5) [VlTau, Marked 1 5, Counted 1] (vlTwo 0xfe 1 VlIdle VlIdle)"
proof -
  have "vlRun (vlTwo 0xfe 0 VlIdle VlCount) [Counted 1] (vlTwo 0xfe 1 VlIdle VlIdle)"
    using vlRun_single [OF vlTwo_steps(7), of "0xfe" 0 VlIdle] by simp
  from vlRun_Cons [OF vlRun_Cons [OF this vlTwo_steps(6)] vlTwo_steps(5)]
  show ?thesis by (simp add: vlInit_Two)
qed

theorem vlRun_delete_once_witness:
  "vlDeleted (vlTwo 0xfe 1 VlIdle VlIdle) + int (card (vlCounting (vlTwo 0xfe 1 VlIdle VlIdle))) = 1"
  using vlRun_delete_once [OF vlRun_delete_example]
  by (simp add: vlTwo_def)

text \<open>
  The race: one thread tests the mark of a live vector, another deletes the vector, and the
  first reads the mark as a version and exchanges its successor 0x7f for it.
\<close>

lemma vlRun_revives:
  assumes "vlThread s t = VlIdle" "vlThread s u = VlIdle" "t \<noteq> u" "vlCell s \<noteq> 0xfe"
  shows "vlRun s [VlTau, VlTau, VlTau, Marked u (vlCell s), Counted u, VlTau, Bumped t 0xfe]
    (s\<lparr>vlCell := 0x7f, vlDeleted := vlDeleted s + 1\<rparr>)"
proof -
  let ?th = "vlThread s"
  let ?s1 = "s\<lparr>vlThread := ?th(t := VlCheck)\<rparr>"
  let ?s2 = "s\<lparr>vlThread := ?th(t := VlRead)\<rparr>"
  let ?s3 = "s\<lparr>vlThread := ?th(t := VlRead, u := VlXchg)\<rparr>"
  let ?s4 = "s\<lparr>vlCell := 0xfe, vlThread := ?th(t := VlRead, u := VlCount)\<rparr>"
  let ?s5 = "s\<lparr>vlCell := 0xfe, vlDeleted := vlDeleted s + 1, vlThread := ?th(t := VlRead)\<rparr>"
  let ?s6 = "s\<lparr>vlCell := 0xfe, vlDeleted := vlDeleted s + 1, vlThread := ?th(t := VlCas 0xfe)\<rparr>"
  let ?s7 = "s\<lparr>vlCell := 0x7f, vlDeleted := vlDeleted s + 1\<rparr>"
  have upd: "s\<lparr>vlDeleted := d, vlCell := c\<rparr> = s\<lparr>vlCell := c, vlDeleted := d\<rparr>" for c d by simp
  have n: "nextVersion 0xfe = 0x7f" by (simp add: nextVersion_def)
  have idle: "?th(t := VlRead, u := VlIdle) = ?th(t := VlRead)" "?th(t := VlIdle) = ?th"
    using assms(1-3) by (auto simp: fun_eq_iff)
  have 1: "vlStep s VlTau ?s1" using bump_call [OF assms(1)] by simp
  have 2: "vlStep ?s1 VlTau ?s2" using bump_live [of ?s1 t] assms(4) by simp
  have 3: "vlStep ?s2 VlTau ?s3" using del_call [of ?s2 u] assms(2,3) by simp
  have 4: "vlStep ?s3 (Marked u (vlCell s)) ?s4" using del_xchg [of ?s3 u "vlCell s"] assms(4) by simp
  have 5: "vlStep ?s4 (Counted u) ?s5" using del_count [of ?s4 u] idle(1) by simp
  have 6: "vlStep ?s5 VlTau ?s6" using bump_read [of ?s5 t] by simp
  have 7: "vlStep ?s6 (Bumped t 0xfe) ?s7" using bump_ok [of ?s6 t "0xfe"] n idle(2) by (simp add: upd)
  show ?thesis
    by (rule vlRun_Cons [OF vlRun_Cons [OF vlRun_Cons [OF vlRun_Cons [OF vlRun_Cons [OF vlRun_Cons [OF vlRun_single [OF 7] 6] 5] 4] 3] 2] 1])
qed

lemma vl_revived:
  "vlRun s es s' \<Longrightarrow> (\<exists>u old. Marked u old \<in> set es) \<or> vlCell s = 0xfe \<Longrightarrow> \<not> list_ex vlRevives es \<Longrightarrow> vlCell s' = 0xfe"
proof (induction rule: vlRun.induct)
  case (vl_snoc s es s' e s'')
  then have m: "vlCell s' = 0xfe \<or> (\<exists>u old. e = Marked u old)" "\<not> vlRevives e" by auto
  from vl_snoc.hyps(2) m show ?case by (cases rule: vlStep.cases) auto
qed auto

text \<open>
  C32 \<open>IncVersion\<close> tests the mark and reads the version in two separate loads, so a deletion between them is undone.
  In every state where the vector is live and two threads are idle, there is a run of one \<open>Delete\<close> and one
  \<open>IncVersion\<close> after which both calls have returned, the deletion was answered with true and counted, and the vector
  carries the live version 0x7f. And this is the only way: whenever a vector is live at the end of a run that marked it,
  some bump of the run exchanged the mark.
\<close>

theorem IncVersion_can_revive:
  assumes "vlThread s t = VlIdle" "vlThread s u = VlIdle" "t \<noteq> u" "vlCell s \<noteq> 0xfe"
    "int32_ok (vlDeleted s + 1)"
  shows "(\<exists>es. vlRun s es (s\<lparr>vlCell := 0x7f, vlDeleted := vlDeleted s + 1\<rparr>) \<and> Marked u (vlCell s) \<in> set es \<and> Counted u \<in> set es)
    \<and> (\<forall>es s' v old. vlRun s es s' \<and> Marked v old \<in> set es \<and> vlCell s' \<noteq> 0xfe \<longrightarrow> (\<exists>w. Bumped w 0xfe \<in> set es))"
proof -
  have "vlRevives e \<Longrightarrow> \<exists>w. e = Bumped w 0xfe" for e by (cases e) auto
  then have "\<exists>w. Bumped w 0xfe \<in> set es" if "list_ex vlRevives es" for es
    using that unfolding list_ex_iff Bex_def by metis
  then have "\<exists>w. Bumped w 0xfe \<in> set es" if "vlRun s es s'" "Marked v old \<in> set es" "vlCell s' \<noteq> 0xfe" for es s' v old
    using vl_revived [OF that(1)] that(2,3) by blast
  then show ?thesis using vlRun_revives [OF assms(1-4)] by (intro conjI exI [of _ "[VlTau, VlTau, VlTau, Marked u (vlCell s), Counted u, VlTau, Bumped t 0xfe]"]) auto
qed

theorem IncVersion_can_revive_witness:
  "\<exists>es. vlRun (vlInit 5) es ((vlInit 5)\<lparr>vlCell := 0x7f, vlDeleted := 1\<rparr>) \<and> Marked 1 5 \<in> set es"
  using IncVersion_can_revive [of "vlInit 5" 0 1] by (auto simp: vlInit_def int32_ok_def)

end
