(* ===== verification/BlockStore.thy ===== *)
theory BlockStore
  imports Labels
begin

text \<open>
  The block store under the postings: \<open>SPDKIO::BlockController\<close> (a queue of free page addresses
  and a device of pages) and \<open>SPDKIO\<close> (a mapping from posting ids to address arrays) of
  AnnService/inc/Core/SPANN/ExtraSPDKController.h and
  AnnService/src/Core/SPANN/ExtraSPDKController.cpp.

  The device is a function from page addresses to 4096 bytes. In the memory implementation it is
  \<open>m_memBuffer\<close>; in the SSD implementation a page is what the last completed write of it wrote
  (the contract of \<open>spdk_bdev_write\<close> and \<open>spdk_bdev_read\<close>), and SpdkRequests models the request
  pool in between. Address arrays live on an explicit heap, because the code moves pointers
  between the mapping and the buffer of spare arrays; \<open>sp_next\<close> is the allocator and
  \<open>sp_junk\<close> what uninitialised words hold. One thread is modelled: the exchange loops of \<open>Put\<close>
  and \<open>Merge\<close> succeed at once, and popping an empty queue spins for ever.
\<close>

section \<open>BlockController\<close>

definition kMemImplMaxNumBlocks :: int where
  "kMemImplMaxNumBlocks = drop_bit PageSizeEx (2 ^ 30)"

definition kSsdImplMaxNumBlocks :: int where
  "kSsdImplMaxNumBlocks = 1700 * 1024 * 256"

record blockCtl =
  bc_useMemImpl :: bool
  bc_useSsdImpl :: bool
  bc_blockAddresses :: "int list"
  bc_pages :: "int \<Rightarrow> bytes"
  bc_numBlocks :: int
  bc_numInitCalled :: int
  bc_batchSize :: int
  bc_over :: "nat \<Rightarrow> byte"

text \<open>
  \<open>memEnv\<close> and \<open>ssdEnv\<close>: the two environment variables are "1". \<open>spdkStarts\<close>: the SPDK
  application reports ready.
\<close>

definition bc_Initialize :: "blockCtl \<Rightarrow> bool \<Rightarrow> bool \<Rightarrow> bool \<Rightarrow> int \<Rightarrow> bool \<times> blockCtl" where
  "bc_Initialize bc memEnv ssdEnv spdkStarts batchSize =
     (let bc1 = bc\<lparr>bc_numInitCalled := bc_numInitCalled bc + 1,
                   bc_useMemImpl := memEnv, bc_useSsdImpl := ssdEnv\<rparr>;
          first = (bc_numInitCalled bc1 = 1)
      in if memEnv then
           (True, if first
              then bc1\<lparr>bc_numBlocks := kMemImplMaxNumBlocks,
                       bc_blockAddresses := bc_blockAddresses bc1 @ [0 .. kMemImplMaxNumBlocks - 1]\<rparr>
              else bc1)
         else if ssdEnv then
           (if first
            then let bc2 = bc1\<lparr>bc_batchSize := batchSize, bc_numBlocks := kSsdImplMaxNumBlocks,
                       bc_blockAddresses := bc_blockAddresses bc1 @ [0 .. kSsdImplMaxNumBlocks - 1]\<rparr>
                 in (spdkStarts, bc2)
            else (True, bc1))
         else (False, bc1))"

definition bc_ShutDown :: "blockCtl \<Rightarrow> bool \<times> blockCtl" where
  "bc_ShutDown bc =
     (let bc1 = bc\<lparr>bc_numInitCalled := bc_numInitCalled bc - 1\<rparr>
      in if bc_useMemImpl bc \<or> bc_useSsdImpl bc
         then (True, if bc_numInitCalled bc1 = 0 then bc1\<lparr>bc_blockAddresses := []\<rparr> else bc1)
         else (False, bc1))"

definition bc_RemainBlocks :: "blockCtl \<Rightarrow> nat" where
  "bc_RemainBlocks bc = length (bc_blockAddresses bc)"

text \<open>\<open>GetBlocks\<close> answers the addresses it stores from \<open>p_data\<close> on.\<close>

fun bc_popLoop :: "blockCtl \<Rightarrow> nat \<Rightarrow> (int list \<times> blockCtl) outcome" where
  "bc_popLoop bc 0 = Ret ([], bc)"
| "bc_popLoop bc (Suc n) =
     (case bc_blockAddresses bc of
        [] \<Rightarrow> Hang
      | a # rest \<Rightarrow>
          andThen (bc_popLoop (bc\<lparr>bc_blockAddresses := rest\<rparr>) n) (\<lambda>(as, bc'). Ret (a # as, bc')))"

definition bc_GetBlocks :: "blockCtl \<Rightarrow> int \<Rightarrow> (bool \<times> int list \<times> blockCtl) outcome" where
  "bc_GetBlocks bc p_size =
     (if bc_useMemImpl bc \<or> bc_useSsdImpl bc
      then andThen (bc_popLoop bc (nat p_size)) (\<lambda>(as, bc'). Ret (True, as, bc'))
      else Ret (False, [], bc))"

definition bc_ReleaseBlocks :: "blockCtl \<Rightarrow> int list \<Rightarrow> bool \<times> blockCtl" where
  "bc_ReleaseBlocks bc p_data =
     (if bc_useMemImpl bc \<or> bc_useSsdImpl bc
      then (True, bc\<lparr>bc_blockAddresses := bc_blockAddresses bc @ p_data\<rparr>)
      else (False, bc))"

definition bc_page :: "blockCtl \<Rightarrow> int \<Rightarrow> bytes option" where
  "bc_page bc a = (if 0 \<le> a \<and> a < bc_numBlocks bc then Some (bc_pages bc a) else None)"

text \<open>
  The read loop: \<open>p_data[0]\<close> is the size, \<open>p_data[dataIdx]\<close> the page holding the bytes from
  \<open>currOffset\<close> on; the last page is read in part. A negative size makes \<open>resize\<close> throw.
\<close>

function bc_readLoop :: "blockCtl \<Rightarrow> int list \<Rightarrow> int \<Rightarrow> int \<Rightarrow> nat \<Rightarrow> bytes outcome" where
  "bc_readLoop bc p_data sz currOffset dataIdx =
     (if currOffset < sz
      then andThen (deref (if dataIdx < length p_data then Some (p_data ! dataIdx) else None)) (\<lambda>a.
           andThen (deref (bc_page bc a)) (\<lambda>page.
             let readSize = (if sz - currOffset < int PageSize then sz - currOffset else int PageSize)
             in andThen (bc_readLoop bc p_data sz (currOffset + int PageSize) (Suc dataIdx))
                  (\<lambda>rest. Ret (take (nat readSize) page @ rest))))
      else Ret [])"
  by pat_completeness auto
termination
  by (relation "measure (\<lambda>(bc, p_data, sz, currOffset, dataIdx). nat (sz - currOffset))")
    (auto simp: PageSize_def)

declare bc_readLoop.simps [simp del]

definition bc_ReadBlocks :: "blockCtl \<Rightarrow> int list \<Rightarrow> (bool \<times> bytes) outcome" where
  "bc_ReadBlocks bc p_data =
     (if bc_useMemImpl bc \<or> bc_useSsdImpl bc
      then case p_data of
             [] \<Rightarrow> Fault
           | sz # _ \<Rightarrow>
               if sz < 0 then Fault
               else andThen (bc_readLoop bc p_data sz 0 1) (\<lambda>v. Ret (True, v))
      else Ret (False, []))"

text \<open>
  The parallel read. \<open>late i\<close>: in the SSD implementation, some page of posting \<open>i\<close> was still
  in flight when the timeout passed; its value is then cleared, and the call still succeeds. The
  memory implementation has no timeout.
\<close>

fun bc_readAll :: "blockCtl \<Rightarrow> (nat \<Rightarrow> bool) \<Rightarrow> nat \<Rightarrow> int list list \<Rightarrow> bytes list outcome" where
  "bc_readAll bc late i [] = Ret []"
| "bc_readAll bc late i (p # ps) =
     andThen (bc_ReadBlocks bc p) (\<lambda>(ok, v).
     andThen (bc_readAll bc late (Suc i) ps) (\<lambda>vs.
       Ret ((if late i \<and> \<not> bc_useMemImpl bc then [] else v) # vs)))"

definition bc_ReadBlocksBatch ::
  "blockCtl \<Rightarrow> (nat \<Rightarrow> bool) \<Rightarrow> int list list \<Rightarrow> (bool \<times> bytes list) outcome" where
  "bc_ReadBlocksBatch bc late p_data =
     (if bc_useMemImpl bc \<or> bc_useSsdImpl bc
      then andThen (bc_readAll bc late 0 p_data) (\<lambda>vs. Ret (True, vs))
      else Ret (False, []))"

text \<open>
  A page is always written whole: the bytes after the end of \<open>p_value\<close> are whatever lies behind
  the string (memory implementation) or in the DMA buffer (SSD), \<open>bc_over\<close> here.
\<close>

definition bc_fillPage :: "blockCtl \<Rightarrow> bytes \<Rightarrow> bytes" where
  "bc_fillPage bc bs = bs @ map (bc_over bc) [0 ..< PageSize - length bs]"

fun bc_writeLoop :: "blockCtl \<Rightarrow> int list \<Rightarrow> bytes \<Rightarrow> blockCtl outcome" where
  "bc_writeLoop bc [] p_value = Ret bc"
| "bc_writeLoop bc (a # as) p_value =
     andThen (deref (bc_page bc a)) (\<lambda>_.
       bc_writeLoop
         (bc\<lparr>bc_pages := (bc_pages bc)(a := bc_fillPage bc (take PageSize p_value))\<rparr>)
         as (drop PageSize p_value))"

definition bc_WriteBlocks :: "blockCtl \<Rightarrow> int list \<Rightarrow> bytes \<Rightarrow> (bool \<times> blockCtl) outcome" where
  "bc_WriteBlocks bc p_data p_value =
     (if bc_useMemImpl bc \<or> bc_useSsdImpl bc
      then andThen (bc_writeLoop bc p_data p_value) (\<lambda>bc'. Ret (True, bc'))
      else Ret (False, bc))"

section \<open>SPDKIO: state and address arrays\<close>

record spdkio =
  sp_blockLimit :: int
  sp_mapping :: dataset
  sp_bufferLimit :: int
  sp_buffer :: "int list"
  sp_ctl :: blockCtl
  sp_heap :: "int \<Rightarrow> int list option"
  sp_next :: int
  sp_junk :: int
  sp_shutdownCalled :: bool

text \<open>\<open>0xffffffffffffffff\<close>, the pointer of a key with no array.\<close>

definition noArray :: int where "noArray = 2 ^ 64 - 1"

definition sp_At :: "spdkio \<Rightarrow> int \<Rightarrow> int outcome" where
  "sp_At sp key = andThen (deref (ds_read (sp_mapping sp) key)) (\<lambda>row. Ret (dec_uint row))"

definition sp_setAt :: "spdkio \<Rightarrow> int \<Rightarrow> int \<Rightarrow> spdkio outcome" where
  "sp_setAt sp key p =
     andThen (deref (ds_write (sp_mapping sp) key (enc_int 8 p))) (\<lambda>d. Ret (sp\<lparr>sp_mapping := d\<rparr>))"

text \<open>\<open>new AddressType[m_blockLimit]\<close>.\<close>

definition sp_newArray :: "spdkio \<Rightarrow> int \<times> spdkio" where
  "sp_newArray sp = (sp_next sp,
     sp\<lparr>sp_heap := (sp_heap sp)(sp_next sp \<mapsto> replicate (nat (sp_blockLimit sp)) (sp_junk sp)),
        sp_next := sp_next sp + 1\<rparr>)"

definition sp_array :: "spdkio \<Rightarrow> int \<Rightarrow> int list outcome" where
  "sp_array sp p = deref (sp_heap sp p)"

definition sp_store :: "spdkio \<Rightarrow> int \<Rightarrow> int \<Rightarrow> int list \<Rightarrow> spdkio outcome" where
  "sp_store sp p off xs =
     andThen (sp_array sp p) (\<lambda>arr.
     andThen (deref (blit arr off xs)) (\<lambda>arr'. Ret (sp\<lparr>sp_heap := (sp_heap sp)(p \<mapsto> arr')\<rparr>)))"

text \<open>\<open>while (!m_buffer.try_pop(tmpblocks));\<close>\<close>

definition sp_popBuffer :: "spdkio \<Rightarrow> (int \<times> spdkio) outcome" where
  "sp_popBuffer sp =
     (case sp_buffer sp of [] \<Rightarrow> Hang | p # rest \<Rightarrow> Ret (p, sp\<lparr>sp_buffer := rest\<rparr>))"

text \<open>
  \<open>GetBlocks(p + off, n)\<close> followed by \<open>WriteBlocks(p + off, n, value)\<close>, as \<open>Put\<close> and \<open>Merge\<close> call
  them; their answers are ignored.
\<close>

definition sp_fill :: "spdkio \<Rightarrow> int \<Rightarrow> int \<Rightarrow> int \<Rightarrow> bytes \<Rightarrow> spdkio outcome" where
  "sp_fill sp p off n value =
     andThen (bc_GetBlocks (sp_ctl sp) n) (\<lambda>(ok, as, bc).
     andThen (sp_store (sp\<lparr>sp_ctl := bc\<rparr>) p off as) (\<lambda>sp1.
     andThen (sp_array sp1 p) (\<lambda>arr.
     andThen (deref (slice arr off (nat n))) (\<lambda>addrs.
     andThen (bc_WriteBlocks (sp_ctl sp1) addrs value) (\<lambda>(ok', bc').
       Ret (sp1\<lparr>sp_ctl := bc'\<rparr>))))))"

definition sp_release :: "spdkio \<Rightarrow> int \<Rightarrow> int \<Rightarrow> int \<Rightarrow> spdkio outcome" where
  "sp_release sp p off n =
     andThen (sp_array sp p) (\<lambda>arr.
     andThen (deref (slice arr off (nat n))) (\<lambda>addrs.
       Ret (sp\<lparr>sp_ctl := snd (bc_ReleaseBlocks (sp_ctl sp) addrs)\<rparr>)))"

section \<open>SPDKIO: operations\<close>

definition sp_Get :: "spdkio \<Rightarrow> int \<Rightarrow> (ErrorCode \<times> bytes) outcome" where
  "sp_Get sp key =
     (if key \<ge> ds_R (sp_mapping sp) then Ret (Fail, [])
      else andThen (sp_At sp key) (\<lambda>p.
           andThen (sp_array sp p) (\<lambda>arr.
           andThen (bc_ReadBlocks (sp_ctl sp) arr) (\<lambda>(ok, value).
             Ret (if ok then Success else Fail, value)))))"

text \<open>A key beyond the mapping is dropped from the request, so the later values move up.\<close>

fun sp_multiArrays :: "spdkio \<Rightarrow> int list \<Rightarrow> int list list outcome" where
  "sp_multiArrays sp [] = Ret []"
| "sp_multiArrays sp (key # keys) =
     (if key < ds_R (sp_mapping sp)
      then andThen (sp_At sp key) (\<lambda>p.
           andThen (sp_array sp p) (\<lambda>arr.
           andThen (sp_multiArrays sp keys) (\<lambda>arrs. Ret (arr # arrs))))
      else sp_multiArrays sp keys)"

definition sp_MultiGet :: "spdkio \<Rightarrow> (nat \<Rightarrow> bool) \<Rightarrow> int list \<Rightarrow> (ErrorCode \<times> bytes list) outcome" where
  "sp_MultiGet sp late keys =
     andThen (sp_multiArrays sp keys) (\<lambda>arrs.
     andThen (bc_ReadBlocksBatch (sp_ctl sp) late arrs) (\<lambda>(ok, values).
       Ret (if ok then Success else Fail, values)))"

text \<open>
  The first half of \<open>Put\<close>: grow the mapping up to the key (the answer of \<open>AddBatch\<close> is ignored), take
  a spare array if there are more than \<open>m_bufferLimit\<close> of them or make a new one, and give it to a
  key that has none.
\<close>

definition sp_grow :: "spdkio \<Rightarrow> int \<Rightarrow> spdkio outcome" where
  "sp_grow sp key =
     (let delta = key + 1 - ds_R (sp_mapping sp)
      in if delta > 0
         then andThen (ds_AddBatch (sp_mapping sp) delta None) (\<lambda>(ec, d). Ret (sp\<lparr>sp_mapping := d\<rparr>))
         else Ret sp)"

definition sp_spareArray :: "spdkio \<Rightarrow> (int \<times> spdkio) outcome" where
  "sp_spareArray sp =
     (if int (length (sp_buffer sp)) > sp_bufferLimit sp then sp_popBuffer sp else Ret (sp_newArray sp))"

definition sp_reserve :: "spdkio \<Rightarrow> int \<Rightarrow> spdkio outcome" where
  "sp_reserve sp key =
     andThen (sp_grow sp key) (\<lambda>sp1.
     andThen (sp_At sp1 key) (\<lambda>p.
       if p = noArray
       then andThen (sp_spareArray sp1) (\<lambda>(q, sp2).
            andThen (sp_setAt sp2 key q) (\<lambda>sp3.
              sp_store sp3 q 0 (replicate (nat (sp_blockLimit sp3)) (- 1))))
       else Ret sp1))"

definition sp_Put :: "spdkio \<Rightarrow> int \<Rightarrow> bytes \<Rightarrow> (ErrorCode \<times> spdkio) outcome" where
  "sp_Put sp key value =
     (let blocks = int (pagesOf (length value))
      in if blocks \<ge> sp_blockLimit sp then Ret (Fail, sp)
         else andThen (sp_reserve sp key) (\<lambda>sp1.
              andThen (sp_At sp1 key) (\<lambda>postingSize.
              andThen (sp_array sp1 postingSize) (\<lambda>arr.
              andThen (deref (slice arr 0 1)) (\<lambda>sz.
                if hd sz < 0
                then andThen (sp_fill sp1 postingSize 1 blocks value) (\<lambda>sp2.
                     andThen (sp_store sp2 postingSize 0 [int (length value)]) (\<lambda>sp3.
                       Ret (Success, sp3)))
                else andThen (sp_popBuffer sp1) (\<lambda>(tmpblocks, sp2).
                     andThen (sp_fill sp2 tmpblocks 1 blocks value) (\<lambda>sp3.
                     andThen (sp_store sp3 tmpblocks 0 [int (length value)]) (\<lambda>sp4.
                     andThen (sp_release sp4 postingSize 1 (int (pagesOf (nat (hd sz))))) (\<lambda>sp5.
                     andThen (sp_setAt sp5 key tmpblocks) (\<lambda>sp6.
                       Ret (Success, sp6\<lparr>sp_buffer := sp_buffer sp6 @ [postingSize]\<rparr>)))))))))))"

definition sp_Merge :: "spdkio \<Rightarrow> int \<Rightarrow> bytes \<Rightarrow> (ErrorCode \<times> spdkio) outcome" where
  "sp_Merge sp key value =
     (if key \<ge> ds_R (sp_mapping sp) then Ret (Fail, sp)
      else andThen (sp_At sp key) (\<lambda>postingSize.
           andThen (sp_array sp postingSize) (\<lambda>arr.
           andThen (deref (slice arr 0 1)) (\<lambda>sz.
             if hd sz < 0 then Fault
             else let newSize = hd sz + int (length value);
                      newblocks = int (pagesOf (nat newSize));
                      sizeInPage = hd sz mod int PageSize;
                      oldblocks = drop_bit PageSizeEx (hd sz);
                      allocblocks = newblocks - oldblocks
                  in if newblocks \<ge> sp_blockLimit sp then Ret (Fail, sp)
                     else if sizeInPage \<noteq> 0
                     then andThen (deref (slice arr (1 + oldblocks) 1)) (\<lambda>last.
                          andThen (bc_ReadBlocks (sp_ctl sp) (sizeInPage # last)) (\<lambda>(ok, newValue).
                          andThen (sp_popBuffer sp) (\<lambda>(tmpblocks, sp1).
                          andThen (deref (slice arr 0 (nat (oldblocks + 1)))) (\<lambda>pre.
                          andThen (sp_store sp1 tmpblocks 0 pre) (\<lambda>sp2.
                          andThen (sp_fill sp2 tmpblocks (1 + oldblocks) allocblocks (newValue @ value)) (\<lambda>sp3.
                          andThen (sp_store sp3 tmpblocks 0 [newSize]) (\<lambda>sp4.
                          andThen (sp_release sp4 postingSize (1 + oldblocks) 1) (\<lambda>sp5.
                          andThen (sp_setAt sp5 key tmpblocks) (\<lambda>sp6.
                            Ret (Success, sp6\<lparr>sp_buffer := sp_buffer sp6 @ [postingSize]\<rparr>))))))))))
                     else andThen (sp_fill sp postingSize (1 + oldblocks) allocblocks value) (\<lambda>sp1.
                          andThen (sp_store sp1 postingSize 0 [newSize]) (\<lambda>sp2.
                            Ret (Success, sp2)))))))"

definition sp_Delete :: "spdkio \<Rightarrow> int \<Rightarrow> (ErrorCode \<times> spdkio) outcome" where
  "sp_Delete sp key =
     (if key \<ge> ds_R (sp_mapping sp) then Ret (Fail, sp)
      else andThen (sp_At sp key) (\<lambda>postingSize.
           andThen (sp_array sp postingSize) (\<lambda>arr.
           andThen (deref (slice arr 0 1)) (\<lambda>sz.
             if hd sz < 0 then Ret (Fail, sp)
             else andThen (sp_release sp postingSize 1 (int (pagesOf (nat (hd sz))))) (\<lambda>sp1.
                  andThen (sp_setAt (sp1\<lparr>sp_buffer := sp_buffer sp1 @ [postingSize]\<rparr>) key noArray) (\<lambda>sp2.
                    Ret (Success, sp2)))))))"

text \<open>\<open>Save\<close> writes one row of \<open>m_blockLimit\<close> addresses per key; a key with no array writes -1s.\<close>

fun sp_rows :: "spdkio \<Rightarrow> int list \<Rightarrow> int list list outcome" where
  "sp_rows sp [] = Ret []"
| "sp_rows sp (i # is) =
     andThen (sp_At sp i) (\<lambda>p.
     andThen (if p = noArray then Ret (replicate (nat (sp_blockLimit sp)) (- 1)) else sp_array sp p) (\<lambda>arr.
     andThen (deref (slice arr 0 (nat (sp_blockLimit sp)))) (\<lambda>row.
     andThen (sp_rows sp is) (\<lambda>rows. Ret (row # rows)))))"

definition encAddrs :: "int list \<Rightarrow> bytes" where
  "encAddrs xs = concat (map (enc_int 8) xs)"

fun decAddrs :: "nat \<Rightarrow> bytes \<Rightarrow> int list" where
  "decAddrs 0 bs = []"
| "decAddrs (Suc n) bs = dec_sint (take 8 bs) # decAddrs n (drop 8 bs)"

definition sp_Save :: "spdkio \<Rightarrow> ostream \<Rightarrow> (ErrorCode + ostream) outcome" where
  "sp_Save sp os =
     andThen (sp_rows sp [0 .. ds_R (sp_mapping sp) - 1]) (\<lambda>rows.
       Ret (ioWriteAll os (enc_int 4 (ds_R (sp_mapping sp)) # enc_int 4 (sp_blockLimit sp)
              # map encAddrs rows)))"

text \<open>\<open>Load\<close> allocates an array of \<open>m_blockLimit\<close> words per key and reads its first \<open>mycols\<close> words.\<close>

fun sp_loadRows ::
  "spdkio \<Rightarrow> int \<Rightarrow> nat \<Rightarrow> nat \<Rightarrow> istream \<Rightarrow> (ErrorCode \<times> spdkio \<times> istream) outcome" where
  "sp_loadRows sp i mycols 0 inp = Ret (Success, sp, inp)"
| "sp_loadRows sp i mycols (Suc n) inp =
     (let (p, sp1) = sp_newArray sp
      in andThen (sp_setAt sp1 i p) (\<lambda>sp2.
         case ioRead inp (8 * mycols) of
           Inl e \<Rightarrow> Ret (e, sp2, inp)
         | Inr (bs, inp') \<Rightarrow>
             andThen (sp_store sp2 p 0 (decAddrs mycols bs)) (\<lambda>sp3. sp_loadRows sp3 (i + 1) mycols n inp')))"

definition sp_Load ::
  "spdkio \<Rightarrow> istream \<Rightarrow> nat \<Rightarrow> int \<Rightarrow> (ErrorCode \<times> spdkio \<times> istream) outcome" where
  "sp_Load sp inp blockSize capacity =
     (case ioRead inp 4 of Inl e \<Rightarrow> Ret (e, sp, inp) | Inr (cr, inp1) \<Rightarrow>
     (case ioRead inp1 4 of Inl e \<Rightarrow> Ret (e, sp, inp1) | Inr (mc, inp2) \<Rightarrow>
        let CR = dec_sint cr; mycols = dec_sint mc;
            sp1 = (if mycols > sp_blockLimit sp then sp\<lparr>sp_blockLimit := mycols\<rparr> else sp)
        in andThen (ds_Initialize (sp_mapping sp1) CR 1 blockSize capacity None True 0 (- 1)) (\<lambda>d.
             sp_loadRows (sp1\<lparr>sp_mapping := d\<rparr>) 0 (nat mycols) (nat CR) inp2)))"

fun sp_pushArrays :: "nat \<Rightarrow> spdkio \<Rightarrow> spdkio" where
  "sp_pushArrays 0 sp = sp"
| "sp_pushArrays (Suc n) sp =
     (let (p, sp1) = sp_newArray sp in sp_pushArrays n (sp1\<lparr>sp_buffer := sp_buffer sp1 @ [p]\<rparr>))"

text \<open>
  The constructor. \<open>file\<close> is the content of the mapping file, if it exists; \<open>bc\<close> the controller
  before its \<open>Initialize\<close>. A failed \<open>Load\<close> is not looked at.
\<close>

definition sp_create ::
  "istream option \<Rightarrow> blockCtl \<Rightarrow> bool \<Rightarrow> bool \<Rightarrow> bool \<Rightarrow> nat \<Rightarrow> int \<Rightarrow> int \<Rightarrow> int \<Rightarrow> int \<Rightarrow> int
     \<Rightarrow> spdkio outcome" where
  "sp_create file bc memEnv ssdEnv spdkStarts blockSize capacity postingBlocks bufferSize batchSize junk =
     (let sp0 = \<lparr>sp_blockLimit = postingBlocks + 1, sp_mapping = ds_new 8, sp_bufferLimit = bufferSize,
            sp_buffer = [], sp_ctl = bc, sp_heap = (\<lambda>_. None), sp_next = 0, sp_junk = junk,
            sp_shutdownCalled = True\<rparr>
      in andThen
           (case file of
              Some inp \<Rightarrow>
                andThen (sp_Load sp0 inp blockSize capacity) (\<lambda>(ec, sp1, _). Ret sp1)
            | None \<Rightarrow>
                andThen (ds_Initialize (sp_mapping sp0) 0 1 blockSize capacity None True 0 (- 1))
                  (\<lambda>d. Ret (sp0\<lparr>sp_mapping := d\<rparr>))) (\<lambda>sp1.
         let sp2 = sp_pushArrays (nat bufferSize) sp1
         in Ret (sp2\<lparr>sp_ctl := snd (bc_Initialize (sp_ctl sp2) memEnv ssdEnv spdkStarts batchSize),
                     sp_shutdownCalled := False\<rparr>)))"

fun sp_deleteArrays :: "spdkio \<Rightarrow> int list \<Rightarrow> spdkio outcome" where
  "sp_deleteArrays sp [] = Ret sp"
| "sp_deleteArrays sp (i # is) =
     andThen (sp_At sp i) (\<lambda>p.
       sp_deleteArrays (if p \<noteq> noArray then sp\<lparr>sp_heap := (sp_heap sp)(p := None)\<rparr> else sp) is)"

definition sp_ShutDown :: "spdkio \<Rightarrow> ostream \<Rightarrow> (spdkio \<times> ostream) outcome" where
  "sp_ShutDown sp os =
     (if sp_shutdownCalled sp then Ret (sp, os)
      else andThen (sp_Save sp os) (\<lambda>r.
           let os' = (case r of Inl e \<Rightarrow> os | Inr o' \<Rightarrow> o')
           in andThen (sp_deleteArrays sp [0 .. ds_R (sp_mapping sp) - 1]) (\<lambda>sp1.
                Ret (sp1\<lparr>sp_heap := (\<lambda>p. if p \<in> set (sp_buffer sp1) then None else sp_heap sp1 p),
                         sp_buffer := [],
                         sp_ctl := snd (bc_ShutDown (sp_ctl sp1)),
                         sp_shutdownCalled := True\<rparr>, os'))))"

end
