(* ===== verification/BlockProps.thy ===== *)
theory BlockProps
  imports BlockStore LabelProps
begin

text \<open>
  Correctness of the block store in two layers. The block layer looks at the address arrays as a
  function from keys to arrays, and shows that exchanging one key's blocks against free ones
  keeps the pages of all other keys and the books of free pages. The pointer layer shows that the
  mapping, the heap and the buffer of spare arrays move arrays around without sharing them.
  Together they refine \<open>SPDKIO\<close> to a map from keys to byte strings.
\<close>

section \<open>Pages read and written\<close>

definition bc_impl :: "blockCtl \<Rightarrow> bool" where
  "bc_impl bc \<longleftrightarrow> bc_useMemImpl bc \<or> bc_useSsdImpl bc"

definition inDev :: "blockCtl \<Rightarrow> int list \<Rightarrow> bool" where
  "inDev bc as \<longleftrightarrow> (\<forall>a \<in> set as. 0 \<le> a \<and> a < bc_numBlocks bc)"

definition pages_ok :: "blockCtl \<Rightarrow> bool" where
  "pages_ok bc \<longleftrightarrow> (\<forall>a. 0 \<le> a \<and> a < bc_numBlocks bc \<longrightarrow> length (bc_pages bc a) = PageSize)"

definition pagesAt :: "blockCtl \<Rightarrow> int list \<Rightarrow> bytes" where
  "pagesAt bc as = concat (map (bc_pages bc) as)"

lemma length_pagesAt: "pages_ok bc \<Longrightarrow> inDev bc as \<Longrightarrow> length (pagesAt bc as) = length as * PageSize"
  by (induction as) (auto simp: pagesAt_def inDev_def pages_ok_def)

lemma pagesOf_step: "0 < n \<Longrightarrow> pagesOf n = Suc (pagesOf (n - PageSize))"
proof -
  assume n: "0 < n"
  show ?thesis
  proof (cases "n \<le> PageSize")
    case True
    then have "pagesOf n = 1" using n by (simp add: pagesOf_div PageSize_def div_nat_eqI)
    with True show ?thesis by simp
  next
    case False
    then obtain m where "n = m + PageSize" by (metis add.commute le_add_diff_inverse nat_le_linear)
    then show ?thesis by (simp add: pagesOf_div PageSize_def)
  qed
qed

lemma readLoop_pages:
  "pages_ok bc \<Longrightarrow> n = pagesOf (nat (sz - off)) \<Longrightarrow> idx + n \<le> length arr
    \<Longrightarrow> inDev bc (take n (drop idx arr))
    \<Longrightarrow> bc_readLoop bc arr sz off idx = Ret (take (nat (sz - off)) (pagesAt bc (take n (drop idx arr))))"
proof (induction n arbitrary: off idx)
  case 0
  have "\<not> 0 < nat (sz - off)" using pagesOf_step [of "nat (sz - off)"] 0(2) by linarith
  then have "\<not> off < sz" by simp
  then show ?case by (subst bc_readLoop.simps) simp
next
  case (Suc n)
  have lt: "off < sz" using Suc.prems(2) by (cases "off < sz") auto
  have idx: "idx < length arr" using Suc.prems(3) by simp
  have split: "take (Suc n) (drop idx arr) = arr ! idx # take n (drop (Suc idx) arr)"
    using idx by (simp add: Cons_nth_drop_Suc [symmetric])
  have dev: "0 \<le> arr ! idx" "arr ! idx < bc_numBlocks bc" "inDev bc (take n (drop (Suc idx) arr))"
    using Suc.prems(4) split by (auto simp: inDev_def)
  have len: "length (bc_pages bc (arr ! idx)) = PageSize" using Suc.prems(1) dev by (simp add: pages_ok_def)
  have n: "n = pagesOf (nat (sz - (off + int PageSize)))"
  proof -
    have "nat (sz - (off + int PageSize)) = nat (sz - off) - PageSize" by simp
    then show ?thesis using Suc.prems(2) pagesOf_step [of "nat (sz - off)"] lt by simp
  qed
  have rec: "bc_readLoop bc arr sz (off + int PageSize) (Suc idx) =
      Ret (take (nat (sz - (off + int PageSize))) (pagesAt bc (take n (drop (Suc idx) arr))))"
    using Suc.IH [OF Suc.prems(1) n _ dev(3)] Suc.prems(3) by simp
  have "bc_readLoop bc arr sz off idx =
      Ret (take (nat (min (sz - off) (int PageSize))) (bc_pages bc (arr ! idx))
        @ take (nat (sz - (off + int PageSize))) (pagesAt bc (take n (drop (Suc idx) arr))))"
    using lt idx dev rec by (subst bc_readLoop.simps) (simp add: bc_page_def min_def)
  moreover have "take (nat (sz - off)) (bc_pages bc (arr ! idx) @ ys) =
      take (nat (min (sz - off) (int PageSize))) (bc_pages bc (arr ! idx))
        @ take (nat (sz - (off + int PageSize))) ys" for ys
  proof -
    have "nat (min (sz - off) (int PageSize)) = min (nat (sz - off)) PageSize" by (simp add: min_def nat_le_iff)
    moreover have "nat (sz - (off + int PageSize)) = nat (sz - off) - PageSize" by simp
    ultimately show ?thesis by (simp add: len [symmetric] min_def)
  qed
  ultimately show ?case by (simp add: split pagesAt_def)
qed

lemma popLoop_take:
  "n \<le> length (bc_blockAddresses bc) \<Longrightarrow>
    bc_popLoop bc n = Ret (take n (bc_blockAddresses bc),
      bc\<lparr>bc_blockAddresses := drop n (bc_blockAddresses bc)\<rparr>)"
proof (induction n arbitrary: bc)
  case (Suc n)
  then obtain a rest where r: "bc_blockAddresses bc = a # rest" by (cases "bc_blockAddresses bc") auto
  with Suc show ?case by simp
qed simp

lemma popLoop_hang: "length (bc_blockAddresses bc) < n \<Longrightarrow> bc_popLoop bc n = Hang"
proof (induction n arbitrary: bc)
  case (Suc n)
  then show ?case by (cases "bc_blockAddresses bc") simp_all
qed simp

text \<open>What a write leaves: the written value in the written pages, every other page as it was.\<close>

definition wrote :: "blockCtl \<Rightarrow> blockCtl \<Rightarrow> int list \<Rightarrow> bytes \<Rightarrow> bool" where
  "wrote bc bc' as v \<longleftrightarrow>
     (\<exists>pg. bc' = bc\<lparr>bc_pages := pg\<rparr>) \<and> pages_ok bc' \<and> (\<forall>a. a \<notin> set as \<longrightarrow> bc_pages bc' a = bc_pages bc a)
     \<and> take (length v) (pagesAt bc' as) = v"

lemma length_fillPage: "length bs \<le> PageSize \<Longrightarrow> length (bc_fillPage bc bs) = PageSize"
  by (simp add: bc_fillPage_def)

lemma writeLoop_wrote:
  "pages_ok bc \<Longrightarrow> inDev bc as \<Longrightarrow> distinct as \<Longrightarrow> length v \<le> length as * PageSize
    \<Longrightarrow> \<exists>bc'. bc_writeLoop bc as v = Ret bc' \<and> wrote bc bc' as v"
proof (induction as arbitrary: bc v)
  case Nil
  then have "bc = bc\<lparr>bc_pages := bc_pages bc\<rparr>" by simp
  with Nil show ?case by (auto simp: wrote_def pagesAt_def intro: exI [of _ "bc_pages bc"])
next
  case (Cons a as)
  let ?p = "bc_fillPage bc (take PageSize v)"
  let ?bc1 = "bc\<lparr>bc_pages := (bc_pages bc)(a := ?p)\<rparr>"
  have lp: "length ?p = PageSize" by (rule length_fillPage) simp
  have ok1: "pages_ok ?bc1" using Cons.prems(1) lp by (simp add: pages_ok_def)
  have dev1: "inDev ?bc1 as" using Cons.prems(2) by (simp add: inDev_def)
  have "length (drop PageSize v) \<le> length as * PageSize" using Cons.prems(4) by simp
  from Cons.IH [OF ok1 dev1 _ this] Cons.prems(3) obtain bc' where
    bc': "bc_writeLoop ?bc1 as (drop PageSize v) = Ret bc'" "wrote ?bc1 bc' as (drop PageSize v)" by auto
  from bc'(2) obtain pg where pg: "bc' = ?bc1\<lparr>bc_pages := pg\<rparr>" "pages_ok bc'"
    "\<And>b. b \<notin> set as \<Longrightarrow> bc_pages bc' b = bc_pages ?bc1 b"
    "take (length v - PageSize) (pagesAt bc' as) = drop PageSize v"
    by (auto simp: wrote_def)
  have pa: "bc_pages bc' a = ?p" using pg(3) [of a] Cons.prems(3) by simp
  have "take (length v) (pagesAt bc' (a # as)) = take (length v) (?p @ pagesAt bc' as)"
    by (simp add: pagesAt_def pa)
  also have "\<dots> = take (length v) ?p @ take (length v - PageSize) (pagesAt bc' as)" by (simp add: lp)
  also have "\<dots> = take (length v) ?p @ drop PageSize v" using pg(4) by simp
  also have "take (length v) ?p = take PageSize v"
    by (cases "length v \<le> PageSize") (simp_all add: bc_fillPage_def)
  finally have "take (length v) (pagesAt bc' (a # as)) = v" by simp
  moreover have "bc_writeLoop bc (a # as) v = Ret bc'"
    using Cons.prems(2) bc'(1) by (simp add: bc_page_def inDev_def)
  moreover have "bc_pages bc' b = bc_pages bc b" if "b \<notin> set (a # as)" for b
    using pg(3) [of b] that by simp
  moreover have "\<exists>q. bc' = bc\<lparr>bc_pages := q\<rparr>" using pg(1) by auto
  ultimately show ?case using pg(2) by (auto simp: wrote_def)
qed

section \<open>The block layer\<close>

text \<open>The pages an array owns, and what they hold.\<close>

definition used :: "int list \<Rightarrow> int list" where
  "used arr = (if hd arr < 0 then [] else take (pagesOf (nat (hd arr))) (drop 1 arr))"

definition usedO :: "int list option \<Rightarrow> int list" where
  "usedO x = (case x of None \<Rightarrow> [] | Some arr \<Rightarrow> used arr)"

definition content :: "blockCtl \<Rightarrow> int list \<Rightarrow> bytes" where
  "content bc arr = take (nat (hd arr)) (pagesAt bc (used arr))"

definition arr_ok :: "int \<Rightarrow> int list \<Rightarrow> bool" where
  "arr_ok L arr \<longleftrightarrow> int (length arr) = L \<and> 1 \<le> L \<and> (0 \<le> hd arr \<longrightarrow> int (pagesOf (nat (hd arr))) < L)"

definition blk_ok :: "blockCtl \<Rightarrow> (int \<Rightarrow> int list option) \<Rightarrow> bool" where
  "blk_ok bc K \<longleftrightarrow>
     bc_impl bc \<and> pages_ok bc \<and> distinct (bc_blockAddresses bc) \<and> inDev bc (bc_blockAddresses bc)
     \<and> (\<forall>k. distinct (usedO (K k)) \<and> inDev bc (usedO (K k))
          \<and> set (usedO (K k)) \<inter> set (bc_blockAddresses bc) = {})
     \<and> (\<forall>k j. k \<noteq> j \<longrightarrow> set (usedO (K k)) \<inter> set (usedO (K j)) = {})
     \<and> (\<forall>a. 0 \<le> a \<and> a < bc_numBlocks bc \<longrightarrow> a \<in> set (bc_blockAddresses bc) \<or> (\<exists>k. a \<in> set (usedO (K k))))"

lemma length_used: "arr_ok L arr \<Longrightarrow> 0 \<le> hd arr \<Longrightarrow> length (used arr) = pagesOf (nat (hd arr))"
  by (auto simp: used_def arr_ok_def)

lemma ReadBlocks_content:
  assumes "bc_impl bc" "pages_ok bc" "arr_ok L arr" "0 \<le> hd arr" "inDev bc (used arr)"
  shows "bc_ReadBlocks bc arr = Ret (True, content bc arr)"
proof -
  obtain s rest where arr: "arr = s # rest" using assms(3) by (cases arr) (auto simp: arr_ok_def)
  have u: "used arr = take (pagesOf (nat s)) (drop 1 arr)" using assms(4) arr by (simp add: used_def)
  have l: "1 + pagesOf (nat s) \<le> length arr" using assms(3,4) arr by (auto simp: arr_ok_def)
  have "bc_readLoop bc arr s 0 1 = Ret (take (nat (s - 0)) (pagesAt bc (take (pagesOf (nat s)) (drop 1 arr))))"
    using assms(2) _ l assms(5) u by (intro readLoop_pages) auto
  then show ?thesis using assms(1,4) arr u by (simp add: bc_ReadBlocks_def bc_impl_def content_def)
qed

text \<open>
  One exchange: key \<open>k\<close> gives back the blocks \<open>rel\<close>, keeps \<open>keep\<close> and gets the first blocks of the
  free queue.
\<close>

lemma blk_exchange:
  assumes ok: "blk_ok bc K"
    and old: "usedO (K k) = keep @ rel"
    and free: "bc_blockAddresses bc = new @ rest"
    and bc': "bc' = bc\<lparr>bc_blockAddresses := rest @ rel, bc_pages := pg\<rparr>" "pages_ok bc'"
    and new: "usedO A = keep @ new"
  shows "blk_ok bc' (K(k := A))"
proof -
  let ?K = "K(k := A)"
  have nb: "bc_numBlocks bc' = bc_numBlocks bc" using bc'(1) by simp
  have dev: "inDev bc' xs = inDev bc xs" for xs by (simp add: inDev_def nb)
  have f: "distinct (new @ rest)" "inDev bc (new @ rest)" using ok free by (auto simp: blk_ok_def)
  have kk: "distinct (usedO (K k)) \<and> inDev bc (usedO (K k))
      \<and> set (usedO (K k)) \<inter> set (bc_blockAddresses bc) = {}"
    using ok unfolding blk_ok_def by blast
  have o: "distinct (keep @ rel)" "inDev bc (keep @ rel)" "set (keep @ rel) \<inter> set (new @ rest) = {}"
    using kk old free by simp_all
  have other: "distinct (usedO (K j))" "inDev bc (usedO (K j))" "set (usedO (K j)) \<inter> set (new @ rest) = {}"
    "j \<noteq> k \<Longrightarrow> set (usedO (K j)) \<inter> set (keep @ rel) = {}" for j
    using ok old free unfolding blk_ok_def by metis+
  have pair: "j \<noteq> i \<Longrightarrow> set (usedO (K j)) \<inter> set (usedO (K i)) = {}" for i j
    using ok unfolding blk_ok_def by blast
  have "bc_impl bc'" using ok bc'(1) by (simp add: blk_ok_def bc_impl_def)
  moreover have "distinct (rest @ rel)" using f o by auto
  moreover have "inDev bc' (rest @ rel)" using f(2) o(2) by (auto simp: inDev_def nb)
  moreover have "distinct (usedO (?K j)) \<and> inDev bc' (usedO (?K j)) \<and> set (usedO (?K j)) \<inter> set (rest @ rel) = {}" for j
  proof (cases "j = k")
    case True
    then show ?thesis using f o new by (auto simp: inDev_def nb)
  next
    case False
    then show ?thesis using other [of j] dev by auto
  qed
  moreover have "set (usedO (?K i)) \<inter> set (usedO (?K j)) = {}" if "i \<noteq> j" for i j
    using that other(3) [of i] other(3) [of j] other(4) [of i] other(4) [of j] pair [of i j] new
    by (auto simp: fun_upd_def split: if_splits)
  moreover have "a \<in> set (rest @ rel) \<or> (\<exists>j. a \<in> set (usedO (?K j)))"
    if "0 \<le> a" "a < bc_numBlocks bc'" for a
  proof -
    have "a \<in> set (new @ rest) \<or> (\<exists>j. a \<in> set (usedO (K j)))"
      using ok that bc'(1) free by (auto simp: blk_ok_def)
    then consider "a \<in> set new" | "a \<in> set rest" | j where "a \<in> set (usedO (K j))" by auto
    then show ?thesis
    proof cases
      case 1
      then have "a \<in> set (usedO (?K k))" using new by simp
      then show ?thesis by blast
    next
      case (3 j)
      show ?thesis
      proof (cases "j = k")
        case True
        then have "a \<in> set keep \<or> a \<in> set rel" using 3 old by simp
        then show ?thesis using new by (metis UnCI fun_upd_same set_append)
      next
        case False
        then have "a \<in> set (usedO (?K j))" using 3 by simp
        then show ?thesis by blast
      qed
    qed simp
  qed
  ultimately show ?thesis using bc' by (simp add: blk_ok_def)
qed

lemma content_same:
  assumes "\<And>a. a \<in> set (used arr) \<Longrightarrow> bc_pages bc' a = bc_pages bc a"
  shows "content bc' arr = content bc arr"
  using assms by (simp add: content_def pagesAt_def cong: map_cong)

end
