(* ===== verification/BlockRefine.thy ===== *)
theory BlockRefine
  imports BlockProps
begin

text \<open>
  The pointer layer of \<open>SPDKIO\<close>, its invariant, and the refinement of every operation to a map from
  posting ids to byte strings.
\<close>

section \<open>The pointer layer\<close>

definition ptrsOf :: "dataset \<Rightarrow> int list" where
  "ptrsOf d = map dec_uint (ds_list d)"

definition ptr :: "spdkio \<Rightarrow> int \<Rightarrow> int" where
  "ptr sp k = ptrsOf (sp_mapping sp) ! nat k"

definition hasKey :: "spdkio \<Rightarrow> int \<Rightarrow> bool" where
  "hasKey sp k \<longleftrightarrow> 0 \<le> k \<and> k < ds_R (sp_mapping sp)"

definition karr :: "spdkio \<Rightarrow> int \<Rightarrow> int list option" where
  "karr sp k = (if hasKey sp k \<and> ptr sp k \<noteq> noArray then sp_heap sp (ptr sp k) else None)"

definition spare :: "spdkio \<Rightarrow> int \<Rightarrow> bool" where
  "spare sp p \<longleftrightarrow> sp_heap sp p \<noteq> None \<and> (\<forall>k. hasKey sp k \<longrightarrow> ptr sp k \<noteq> p)"

definition heap_ok :: "spdkio \<Rightarrow> bool" where
  "heap_ok sp \<longleftrightarrow> 1 \<le> sp_blockLimit sp \<and> 0 \<le> sp_next sp \<and> sp_next sp \<le> noArray
     \<and> (\<forall>p arr. sp_heap sp p = Some arr \<longrightarrow> 0 \<le> p \<and> p < sp_next sp \<and> int (length arr) = sp_blockLimit sp)"

definition ptr_ok :: "spdkio \<Rightarrow> bool" where
  "ptr_ok sp \<longleftrightarrow> ds_inv 1 8 (sp_mapping sp) \<and> heap_ok sp
     \<and> (\<forall>k. hasKey sp k \<and> ptr sp k \<noteq> noArray \<longrightarrow> sp_heap sp (ptr sp k) \<noteq> None)
     \<and> (\<forall>k j. hasKey sp k \<and> hasKey sp j \<and> k \<noteq> j \<and> ptr sp k \<noteq> noArray \<longrightarrow> ptr sp k \<noteq> ptr sp j)
     \<and> distinct (sp_buffer sp) \<and> (\<forall>p \<in> set (sp_buffer sp). spare sp p)"

lemma length_ptrsOf [simp]: "length (ptrsOf d) = nat (ds_R d)"
  by (simp add: ptrsOf_def)

lemma dec_enc_ptr: "0 \<le> p \<Longrightarrow> p \<le> noArray \<Longrightarrow> dec_uint (enc_int 8 p) = p"
  by (rule dec_uint_enc_id) (simp_all add: noArray_def)

lemma dec_blank_ptr: "dec_uint (replicate 8 255) = noArray"
proof -
  have "replicate 8 (255 :: byte) = [255, 255, 255, 255, 255, 255, 255, 255]" by code_simp
  then show ?thesis by (simp add: noArray_def)
qed

lemma sp_At_in: "ptr_ok sp \<Longrightarrow> hasKey sp k \<Longrightarrow> sp_At sp k = Ret (ptr sp k)"
  using dsrows.rd_tbl [of 1 8 "sp_mapping sp" k]
  by (simp add: ptr_ok_def hasKey_def sp_At_def ptr_def ptrsOf_def dsrows_tbl_eq nat_less_iff)

lemma sp_setAt_in:
  assumes "ds_inv 1 8 (sp_mapping sp)" "hasKey sp k" "0 \<le> p" "p \<le> noArray"
  shows "\<exists>d. sp_setAt sp k p = Ret (sp\<lparr>sp_mapping := d\<rparr>) \<and> ds_inv 1 8 d
    \<and> ds_R d = ds_R (sp_mapping sp) \<and> ds_maxRows d = ds_maxRows (sp_mapping sp)
    \<and> ptrsOf d = (ptrsOf (sp_mapping sp))[nat k := p]"
  using dsrows.tbl_wr [OF assms(1), of k "enc_int 8 p"] assms(2) dec_enc_ptr [OF assms(3,4)]
  by (auto simp: hasKey_def sp_setAt_def ptrsOf_def dsrows_tbl_eq map_update)

lemma sp_setAt_frame:
  assumes "sp_setAt sp k q = Ret (sp\<lparr>sp_mapping := d\<rparr>)" "sp_mapping s = sp_mapping sp"
  shows "sp_setAt s k q = Ret (s\<lparr>sp_mapping := d\<rparr>)"
proof (cases "ds_write (sp_mapping sp) k (enc_int 8 q)")
  case (Some a)
  with assms(1) have "sp_mapping (sp\<lparr>sp_mapping := a\<rparr>) = sp_mapping (sp\<lparr>sp_mapping := d\<rparr>)"
    by (simp add: sp_setAt_def)
  with Some assms(2) show ?thesis by (simp add: sp_setAt_def)
qed (use assms in \<open>simp add: sp_setAt_def\<close>)

lemma sp_grow_in:
  assumes "ds_inv 1 8 d" "0 \<le> n" "ds_R d + n \<le> ds_maxRows d"
  shows "\<exists>d'. ds_AddBatch d n None = Ret (Success, d') \<and> ds_inv 1 8 d' \<and> ds_R d' = ds_R d + n
    \<and> ds_maxRows d' = ds_maxRows d \<and> ptrsOf d' = ptrsOf d @ replicate (nat n) noArray"
  using dsrows.tbl_add [OF assms] by (auto simp: ptrsOf_def dsrows_tbl_eq dec_blank_ptr)

lemma sp_store_in:
  "sp_heap sp p = Some arr \<Longrightarrow> blit arr off xs = Some arr' \<Longrightarrow>
    sp_store sp p off xs = Ret (sp\<lparr>sp_heap := (sp_heap sp)(p \<mapsto> arr')\<rparr>)"
  by (simp add: sp_store_def sp_array_def)

text \<open>Updates that leave the mapping alone keep the pointers of the keys.\<close>

lemma ptr_simps [simp]:
  "ptr (sp\<lparr>sp_heap := h\<rparr>) k = ptr sp k" "hasKey (sp\<lparr>sp_heap := h\<rparr>) k = hasKey sp k"
  "ptr (sp\<lparr>sp_ctl := c\<rparr>) k = ptr sp k" "hasKey (sp\<lparr>sp_ctl := c\<rparr>) k = hasKey sp k"
  "ptr (sp\<lparr>sp_buffer := b\<rparr>) k = ptr sp k" "hasKey (sp\<lparr>sp_buffer := b\<rparr>) k = hasKey sp k"
  "ptr (sp\<lparr>sp_next := n\<rparr>) k = ptr sp k" "hasKey (sp\<lparr>sp_next := n\<rparr>) k = hasKey sp k"
  "karr (sp\<lparr>sp_ctl := c\<rparr>) = karr sp" "karr (sp\<lparr>sp_buffer := b\<rparr>) = karr sp"
  "karr (sp\<lparr>sp_next := n\<rparr>) = karr sp" "karr (sp\<lparr>sp_shutdownCalled := f\<rparr>) = karr sp"
  "ptr (sp\<lparr>sp_shutdownCalled := f\<rparr>) k = ptr sp k" "hasKey (sp\<lparr>sp_shutdownCalled := f\<rparr>) k = hasKey sp k"
  by (auto simp: ptr_def hasKey_def karr_def fun_eq_iff)

lemma ptr_ok_simps [simp]:
  "ptr_ok (sp\<lparr>sp_ctl := c\<rparr>) = ptr_ok sp" "ptr_ok (sp\<lparr>sp_shutdownCalled := f\<rparr>) = ptr_ok sp" "spare (sp\<lparr>sp_ctl := c\<rparr>) = spare sp"
  "spare (sp\<lparr>sp_buffer := b\<rparr>) = spare sp"
  by (auto simp: ptr_ok_def heap_ok_def spare_def fun_eq_iff)

lemma ptr_ok_store:
  assumes "ptr_ok sp" "sp_heap sp p = Some arr" "length arr' = length arr"
  shows "ptr_ok (sp\<lparr>sp_heap := (sp_heap sp)(p \<mapsto> arr')\<rparr>)"
  using assms by (auto simp: ptr_ok_def heap_ok_def spare_def)

lemma karr_store_spare:
  assumes "\<And>k. hasKey sp k \<Longrightarrow> ptr sp k \<noteq> p"
  shows "karr (sp\<lparr>sp_heap := (sp_heap sp)(p \<mapsto> arr')\<rparr>) = karr sp"
  using assms by (auto simp: karr_def fun_eq_iff)

lemma karr_store_key:
  assumes "ptr_ok sp" "hasKey sp k" "ptr sp k \<noteq> noArray"
  shows "karr (sp\<lparr>sp_heap := (sp_heap sp)(ptr sp k \<mapsto> arr')\<rparr>) = (karr sp)(k \<mapsto> arr')"
  using assms unfolding karr_def fun_eq_iff ptr_ok_def by (auto simp: fun_upd_def)

text \<open>Popping a spare array, and making a new one.\<close>

lemma sp_popBuffer_in:
  assumes "ptr_ok sp" "sp_buffer sp = p # rest"
  shows "sp_popBuffer sp = Ret (p, sp\<lparr>sp_buffer := rest\<rparr>)" "ptr_ok (sp\<lparr>sp_buffer := rest\<rparr>)"
    "spare sp p" "p \<notin> set rest"
proof -
  show "sp_popBuffer sp = Ret (p, sp\<lparr>sp_buffer := rest\<rparr>)" using assms by (simp add: sp_popBuffer_def)
  show "ptr_ok (sp\<lparr>sp_buffer := rest\<rparr>)" using assms by (simp add: ptr_ok_def heap_ok_def)
  show "spare sp p" "p \<notin> set rest" using assms by (simp_all add: ptr_ok_def)
qed

lemma heap_ok_bound: "heap_ok sp \<Longrightarrow> sp_heap sp p \<noteq> None \<Longrightarrow> 0 \<le> p \<and> p < noArray"
  unfolding heap_ok_def by fastforce

lemma sp_newArray_in:
  assumes ok: "ptr_ok sp" and n: "sp_next sp < noArray" and q: "sp_newArray sp = (q, sp')"
  shows "ptr_ok sp'" "spare sp' q" "q \<notin> set (sp_buffer sp')" "karr sp' = karr sp"
    "sp_mapping sp' = sp_mapping sp" "sp_ctl sp' = sp_ctl sp" "sp_buffer sp' = sp_buffer sp"
    "sp_blockLimit sp' = sp_blockLimit sp" "sp_bufferLimit sp' = sp_bufferLimit sp"
proof -
  have q': "q = sp_next sp" and sp': "sp' = sp\<lparr>sp_heap := (sp_heap sp)(q \<mapsto>
      replicate (nat (sp_blockLimit sp)) (sp_junk sp)), sp_next := q + 1\<rparr>"
    using q by (auto simp: sp_newArray_def)
  have hp: "heap_ok sp" using ok by (simp add: ptr_ok_def)
  have fresh: "sp_heap sp q = None" using hp q' unfolding heap_ok_def by (cases "sp_heap sp q") fastforce+
  have pq: "hasKey sp k \<Longrightarrow> ptr sp k \<noteq> q" for k
    using ok fresh n q' unfolding ptr_ok_def by (metis less_irrefl)
  have bq: "p \<in> set (sp_buffer sp) \<Longrightarrow> p \<noteq> q" for p
    using ok fresh unfolding ptr_ok_def spare_def by metis
  have hp': "heap_ok sp'" using hp n sp' q' unfolding heap_ok_def by (auto, fastforce+)
  show sq: "spare sp' q" using pq sp' by (simp add: spare_def)
  show "q \<notin> set (sp_buffer sp')" using bq sp' by auto
  show "karr sp' = karr sp" using pq sp' by (auto simp: karr_def fun_eq_iff)
  show "sp_mapping sp' = sp_mapping sp" "sp_ctl sp' = sp_ctl sp" "sp_buffer sp' = sp_buffer sp"
    "sp_blockLimit sp' = sp_blockLimit sp" "sp_bufferLimit sp' = sp_bufferLimit sp"
    using sp' by simp_all
  show "ptr_ok sp'"
    using ok hp' sp' pq bq unfolding ptr_ok_def spare_def by auto
qed

text \<open>A key gets another array (or none) and its old array becomes spare.\<close>

lemma set_ptr:
  assumes ok: "ptr_ok sp" and k: "hasKey sp k"
    and q: "q = noArray \<or> spare sp q \<and> q \<notin> set (sp_buffer sp)"
    and b: "b = sp_buffer sp @ (if ptr sp k = noArray then [] else [ptr sp k])"
  shows "\<exists>d. sp_setAt sp k q = Ret (sp\<lparr>sp_mapping := d\<rparr>)
    \<and> (let sp' = sp\<lparr>sp_mapping := d, sp_buffer := b\<rparr> in ptr_ok sp'
      \<and> karr sp' = (karr sp)(k := if q = noArray then None else sp_heap sp q) \<and> ptr sp' k = q
      \<and> (\<forall>j. hasKey sp' j = hasKey sp j)) \<and> ds_R d = ds_R (sp_mapping sp)
      \<and> ds_maxRows d = ds_maxRows (sp_mapping sp)"
proof -
  have hp: "heap_ok sp" and di: "ds_inv 1 8 (sp_mapping sp)" using ok by (simp_all add: ptr_ok_def)
  have qb: "0 \<le> q" "q \<le> noArray"
    using q heap_ok_bound [OF hp, of q] by (auto simp: spare_def noArray_def)
  obtain d where d: "sp_setAt sp k q = Ret (sp\<lparr>sp_mapping := d\<rparr>)" "ds_inv 1 8 d"
    "ds_R d = ds_R (sp_mapping sp)" "ds_maxRows d = ds_maxRows (sp_mapping sp)"
    "ptrsOf d = (ptrsOf (sp_mapping sp))[nat k := q]"
    using sp_setAt_in [OF di k qb] by auto
  let ?sp = "sp\<lparr>sp_mapping := d, sp_buffer := b\<rparr>"
  have hk: "hasKey ?sp j = hasKey sp j" for j using d(3) by (simp add: hasKey_def)
  have pt: "hasKey sp j \<Longrightarrow> ptr ?sp j = (if j = k then q else ptr sp j)" for j
    using d(5) k by (auto simp: ptr_def hasKey_def nth_list_update nat_less_iff eq_nat_nat_iff)
  have live: "hasKey sp j \<Longrightarrow> ptr sp j \<noteq> noArray \<Longrightarrow> sp_heap sp (ptr sp j) \<noteq> None" for j
    using ok by (simp add: ptr_ok_def)
  have inj: "hasKey sp i \<Longrightarrow> hasKey sp j \<Longrightarrow> i \<noteq> j \<Longrightarrow> ptr sp i \<noteq> noArray \<Longrightarrow> ptr sp i \<noteq> ptr sp j" for i j
    using ok by (simp add: ptr_ok_def)
  have buf: "distinct (sp_buffer sp)" "p \<in> set (sp_buffer sp) \<Longrightarrow> spare sp p" for p
    using ok by (simp_all add: ptr_ok_def)
  have q_key: "hasKey sp j \<Longrightarrow> q \<noteq> noArray \<Longrightarrow> ptr sp j \<noteq> q" for j using q by (auto simp: spare_def)
  have qk: "q \<noteq> noArray \<Longrightarrow> sp_heap sp q \<noteq> None" using q by (auto simp: spare_def)
  have no_none: "sp_heap sp noArray = None" using heap_ok_bound [OF hp, of noArray] by (cases "sp_heap sp noArray") auto
  have kb: "ptr sp k \<noteq> noArray \<Longrightarrow> ptr sp k \<notin> set (sp_buffer sp)" using buf(2) k by (auto simp: spare_def)
  have sp1: "spare ?sp p" if "p \<in> set b" for p
  proof -
    from that b consider "p \<in> set (sp_buffer sp)" | "p = ptr sp k" "ptr sp k \<noteq> noArray"
      by (auto split: if_splits)
    then show ?thesis
    proof cases
      case 1
      then have s: "spare sp p" by (rule buf)
      moreover have "p \<noteq> q" using 1 q s no_none by (auto simp: spare_def)
      ultimately show ?thesis using hk pt by (auto simp: spare_def)
    next
      case 2
      have "ptr ?sp j \<noteq> p" if "hasKey sp j" for j
        using inj [OF k that] q_key [OF k] pt [OF that] 2 by (metis heap_ok_bound hp k less_irrefl live qk)
      then show ?thesis using live [OF k] hk 2 by (simp add: spare_def)
    qed
  qed
  have di': "distinct b" using buf(1) kb b by auto
  have ok': "ptr_ok ?sp"
    unfolding ptr_ok_def hk
  proof (intro conjI allI impI ballI)
    show "ds_inv 1 8 (sp_mapping ?sp)" using d(2) by simp
    show "heap_ok ?sp" using hp by (simp add: heap_ok_def)
    show "distinct (sp_buffer ?sp)" using di' by simp
    show "spare ?sp p" if "p \<in> set (sp_buffer ?sp)" for p using that sp1 by simp
    show "sp_heap ?sp (ptr ?sp j) \<noteq> None" if "hasKey sp j \<and> ptr ?sp j \<noteq> noArray" for j
      using that pt [of j] live [of j] qk by (auto split: if_splits)
    show "ptr ?sp i \<noteq> ptr ?sp j" if "hasKey sp i \<and> hasKey sp j \<and> i \<noteq> j \<and> ptr ?sp i \<noteq> noArray" for i j
      using that pt [of i] pt [of j] inj [of i j] q_key [of i] q_key [of j] by (auto split: if_splits)
  qed
  have kf: "karr ?sp = (karr sp)(k := if q = noArray then None else sp_heap sp q)"
    using hk pt k by (auto simp: karr_def fun_eq_iff)
  show ?thesis using d(1,3,4) ok' kf pt [OF k] hk by (auto simp: Let_def)
qed

section \<open>The invariant and the map a store stands for\<close>

definition sp_inv :: "spdkio \<Rightarrow> bool" where
  "sp_inv sp \<longleftrightarrow> ptr_ok sp \<and> blk_ok (sp_ctl sp) (karr sp)
     \<and> (\<forall>k arr. karr sp k = Some arr \<longrightarrow> arr_ok (sp_blockLimit sp) arr)
     \<and> 1 \<le> sp_bufferLimit sp \<and> sp_bufferLimit sp \<le> int (length (sp_buffer sp))"

definition sp_view :: "spdkio \<Rightarrow> int \<Rightarrow> bytes option" where
  "sp_view sp k = (case karr sp k of
     None \<Rightarrow> None
   | Some arr \<Rightarrow> if hd arr < 0 then None else Some (content (sp_ctl sp) arr))"

text \<open>The pages of a key, and the pages left.\<close>

definition sp_pagesOf :: "spdkio \<Rightarrow> int \<Rightarrow> nat" where
  "sp_pagesOf sp k = (case sp_view sp k of None \<Rightarrow> 0 | Some v \<Rightarrow> pagesOf (length v))"

definition sp_freePages :: "spdkio \<Rightarrow> nat" where
  "sp_freePages sp = bc_RemainBlocks (sp_ctl sp)"

lemma sp_inv_parts:
  assumes "sp_inv sp"
  shows "ptr_ok sp" "blk_ok (sp_ctl sp) (karr sp)" "bc_impl (sp_ctl sp)" "pages_ok (sp_ctl sp)"
    "distinct (bc_blockAddresses (sp_ctl sp))" "inDev (sp_ctl sp) (bc_blockAddresses (sp_ctl sp))"
    "karr sp k = Some arr \<Longrightarrow> arr_ok (sp_blockLimit sp) arr"
    "karr sp k = Some arr \<Longrightarrow> inDev (sp_ctl sp) (used arr)"
    "sp_buffer sp \<noteq> []"
proof -
  have "blk_ok (sp_ctl sp) (karr sp)" using assms by (simp add: sp_inv_def)
  then have "\<forall>k. inDev (sp_ctl sp) (usedO (karr sp k))" unfolding blk_ok_def by blast
  then show "karr sp k = Some arr \<Longrightarrow> inDev (sp_ctl sp) (used arr)" by (metis usedO_def option.simps(5))
qed (use assms in \<open>auto simp: sp_inv_def blk_ok_def\<close>)

lemma karr_Some: "karr sp k = Some arr \<Longrightarrow> hasKey sp k \<and> ptr sp k \<noteq> noArray \<and> sp_heap sp (ptr sp k) = Some arr"
  by (auto simp: karr_def split: if_splits)

lemma length_content:
  assumes "pages_ok bc" "arr_ok L arr" "0 \<le> hd arr" "inDev bc (used arr)"
  shows "length (content bc arr) = nat (hd arr)"
  using length_pagesAt [OF assms(1,4)] length_used [OF assms(2,3)] pagesOf_bounds [of "nat (hd arr)"]
  by (simp add: content_def)

lemma sp_view_Some:
  assumes inv: "sp_inv sp" and k: "karr sp k = Some arr" "0 \<le> hd arr"
  shows "sp_view sp k = Some (content (sp_ctl sp) arr)" "length (content (sp_ctl sp) arr) = nat (hd arr)"
    "sp_pagesOf sp k = length (used arr)"
proof -
  note p = sp_inv_parts [OF inv]
  show v: "sp_view sp k = Some (content (sp_ctl sp) arr)" using k by (simp add: sp_view_def)
  show l: "length (content (sp_ctl sp) arr) = nat (hd arr)"
    by (rule length_content [OF p(4) p(7) [OF k(1)] k(2) p(8) [OF k(1)]])
  show "sp_pagesOf sp k = length (used arr)"
    using v l length_used [OF p(7) [OF k(1)] k(2)] by (simp add: sp_pagesOf_def)
qed

lemma sp_view_SomeE:
  assumes "sp_view sp k = Some v"
  obtains arr where "karr sp k = Some arr" "0 \<le> hd arr" "v = content (sp_ctl sp) arr"
  using assms by (auto simp: sp_view_def split: option.splits if_splits)

text \<open>Filling an array with fresh blocks that hold a value.\<close>

lemma sp_fill_in:
  assumes bc: "bc_impl (sp_ctl sp)" "pages_ok (sp_ctl sp)" "inDev (sp_ctl sp) new" "distinct new"
    and free: "bc_blockAddresses (sp_ctl sp) = new @ rest" "length new = nat n" "0 \<le> n"
    and arr: "sp_heap sp p = Some arr" "blit arr off new = Some arr'"
    and v: "length v \<le> length new * PageSize"
  shows "\<exists>pg. sp_fill sp p off n v =
      Ret (sp\<lparr>sp_ctl := (sp_ctl sp)\<lparr>bc_blockAddresses := rest, bc_pages := pg\<rparr>,
              sp_heap := (sp_heap sp)(p \<mapsto> arr')\<rparr>)
    \<and> wrote ((sp_ctl sp)\<lparr>bc_blockAddresses := rest\<rparr>)
        ((sp_ctl sp)\<lparr>bc_blockAddresses := rest, bc_pages := pg\<rparr>) new v"
proof -
  let ?bc = "(sp_ctl sp)\<lparr>bc_blockAddresses := rest\<rparr>"
  have g: "bc_GetBlocks (sp_ctl sp) n = Ret (True, new, ?bc)"
    using bc(1) popLoop_take [of "nat n" "sp_ctl sp"] free by (simp add: bc_GetBlocks_def bc_impl_def)
  have "pages_ok ?bc" "inDev ?bc new" using bc by (simp_all add: pages_ok_def inDev_def)
  from writeLoop_wrote [OF this bc(4) v] obtain bc' where
    w: "bc_writeLoop ?bc new v = Ret bc'" "wrote ?bc bc' new v" by auto
  from w(2) obtain pg where pg: "bc' = ?bc\<lparr>bc_pages := pg\<rparr>" by (auto simp: wrote_def)
  have s: "slice arr' off (nat n) = Some new" using slice_blit_same [OF arr(2)] free(2) by simp
  have wr: "bc_WriteBlocks ?bc new v = Ret (True, bc')"
    using bc(1) w(1) by (simp add: bc_WriteBlocks_def bc_impl_def)
  have "sp_fill sp p off n v = Ret (sp\<lparr>sp_ctl := bc', sp_heap := (sp_heap sp)(p \<mapsto> arr')\<rparr>)"
    using g wr s arr by (simp add: sp_fill_def sp_store_def sp_array_def)
  then show ?thesis using w(2) pg by auto
qed

text \<open>
  The step every update ends in: key \<open>k\<close> has the array \<open>arr'\<close>, which keeps \<open>keep\<close> and owns the
  written blocks \<open>new\<close>; the other keys keep their values.
\<close>

lemma sp_exchange:
  assumes inv: "sp_inv sp" and k: "usedO (karr sp k) = keep @ rel"
    and free: "bc_blockAddresses (sp_ctl sp) = new @ rest"
    and w: "wrote bc0 bc' new v" "bc0 = (sp_ctl sp)\<lparr>bc_blockAddresses := rest\<rparr>"
    and sp': "ptr_ok sp'" "karr sp' = (karr sp)(k := A)" "sp_ctl sp' = bc'\<lparr>bc_blockAddresses := rest @ rel\<rparr>"
      "sp_blockLimit sp' = sp_blockLimit sp" "sp_bufferLimit sp' = sp_bufferLimit sp"
      "sp_bufferLimit sp \<le> int (length (sp_buffer sp'))"
    and A: "usedO A = keep @ new" "\<forall>arr. A = Some arr \<longrightarrow> arr_ok (sp_blockLimit sp) arr"
  shows "sp_inv sp'" "\<And>j. j \<noteq> k \<Longrightarrow> sp_view sp' j = sp_view sp j"
    "sp_freePages sp' + length new = sp_freePages sp + length rel"
    "pagesAt (sp_ctl sp') keep = pagesAt (sp_ctl sp) keep"
    "take (length v) (pagesAt (sp_ctl sp') new) = v"
proof -
  from w obtain pg where pg: "bc' = bc0\<lparr>bc_pages := pg\<rparr>" "pages_ok bc'"
    "\<And>a. a \<notin> set new \<Longrightarrow> pg a = bc_pages (sp_ctl sp) a" "take (length v) (pagesAt bc' new) = v"
    by (auto simp: wrote_def)
  have ctl: "sp_ctl sp' = (sp_ctl sp)\<lparr>bc_blockAddresses := rest @ rel, bc_pages := pg\<rparr>"
    using sp'(3) pg(1) w(2) by simp
  have "pages_ok (sp_ctl sp')" using pg(1,2) ctl w(2) by (simp add: pages_ok_def)
  from blk_exchange [OF sp_inv_parts(2) [OF inv] k free ctl this A(1)]
  have blk: "blk_ok (sp_ctl sp') (karr sp')" using sp'(2) by simp
  show i: "sp_inv sp'"
    using inv sp' blk A(2) by (auto simp: sp_inv_def split: if_splits)
  have kk: "set (usedO (karr sp k)) \<inter> set (new @ rest) = {}"
    "set (usedO (karr sp j)) \<inter> set (new @ rest) = {}" for j
    using sp_inv_parts(2) [OF inv] free unfolding blk_ok_def by metis+
  show "sp_view sp' j = sp_view sp j" if "j \<noteq> k" for j
  proof (cases "karr sp j")
    case None
    then show ?thesis using sp'(2) that by (simp add: sp_view_def)
  next
    case (Some arr)
    have "set (used arr) \<inter> set new = {}" using kk(2) [of j] Some by (auto simp: usedO_def)
    then have "content (sp_ctl sp') arr = content (sp_ctl sp) arr"
      using ctl pg(3) by (intro content_same) auto
    then show ?thesis using Some sp'(2) that by (simp add: sp_view_def)
  qed
  show "sp_freePages sp' + length new = sp_freePages sp + length rel"
    using ctl free by (simp add: sp_freePages_def bc_RemainBlocks_def)
  have "set keep \<inter> set new = {}" using kk(1) k by auto
  then show "pagesAt (sp_ctl sp') keep = pagesAt (sp_ctl sp) keep"
    using ctl pg(3) by (auto simp: pagesAt_def disjoint_iff intro!: arg_cong [where f = concat])
  show "take (length v) (pagesAt (sp_ctl sp') new) = v" using ctl pg(1,4) w(2) by (simp add: pagesAt_def)
qed

section \<open>Get, MultiGet and Delete\<close>

lemma Get_view:
  assumes "sp_inv sp" "sp_view sp k = Some v"
  shows "sp_Get sp k = Ret (Success, v)"
proof -
  note p = sp_inv_parts [OF assms(1)]
  obtain arr where arr: "karr sp k = Some arr" "0 \<le> hd arr" "v = content (sp_ctl sp) arr"
    using assms(2) by (rule sp_view_SomeE)
  note s = karr_Some [OF arr(1)]
  have "bc_ReadBlocks (sp_ctl sp) arr = Ret (True, v)"
    using ReadBlocks_content [OF p(3,4) p(7) [OF arr(1)] arr(2) p(8) [OF arr(1)]] arr(3) by simp
  then show ?thesis using s sp_At_in [OF p(1), of k] by (simp add: sp_Get_def sp_array_def hasKey_def)
qed

lemma ReadBlocks_view:
  assumes "sp_inv sp" "sp_view sp k = Some v"
  shows "\<exists>arr. sp_At sp k = Ret (ptr sp k) \<and> sp_array sp (ptr sp k) = Ret arr
    \<and> bc_ReadBlocks (sp_ctl sp) arr = Ret (True, v)"
proof -
  note p = sp_inv_parts [OF assms(1)]
  obtain arr where arr: "karr sp k = Some arr" "0 \<le> hd arr" "v = content (sp_ctl sp) arr"
    using assms(2) by (rule sp_view_SomeE)
  then show ?thesis
    using karr_Some [OF arr(1)] sp_At_in [OF p(1), of k]
      ReadBlocks_content [OF p(3,4) p(7) [OF arr(1)] arr(2) p(8) [OF arr(1)]]
    by (auto simp: sp_array_def)
qed

text \<open>The value list of \<open>MultiGet\<close>: the stored values, a late one empty.\<close>

definition lateVals :: "bool \<Rightarrow> (nat \<Rightarrow> bool) \<Rightarrow> nat \<Rightarrow> bytes list \<Rightarrow> bytes list" where
  "lateVals mem late i vs = map (\<lambda>(j, v). if late (i + j) \<and> \<not> mem then [] else v) (zip [0 ..< length vs] vs)"

lemma lateVals_Cons:
  "lateVals mem late i (v # vs) = (if late i \<and> \<not> mem then [] else v) # lateVals mem late (Suc i) vs"
proof -
  have "zip [0 ..< Suc (length vs)] (v # vs) = (0, v) # map (\<lambda>(j, x). (Suc j, x)) (zip [0 ..< length vs] vs)"
    by (simp add: upt_conv_Cons zip_map1 del: upt_Suc flip: map_Suc_upt)
  then show ?thesis by (simp add: lateVals_def del: upt_Suc zip_Cons_Cons) (auto simp: case_prod_unfold)
qed

lemma multi_view:
  assumes inv: "sp_inv sp"
  shows "list_all2 (\<lambda>k v. sp_view sp k = Some v) ks vs \<Longrightarrow>
    \<exists>arrs. sp_multiArrays sp ks = Ret arrs
      \<and> bc_readAll (sp_ctl sp) late i arrs = Ret (lateVals (bc_useMemImpl (sp_ctl sp)) late i vs)"
proof (induction ks arbitrary: vs i)
  case Nil
  then show ?case by (simp add: lateVals_def)
next
  case (Cons k ks)
  from Cons.prems obtain v vs' where vs: "vs = v # vs'" "sp_view sp k = Some v"
    "list_all2 (\<lambda>k v. sp_view sp k = Some v) ks vs'" by (auto simp: list_all2_Cons1)
  from Cons.IH [OF vs(3), of "Suc i"] obtain arrs where a: "sp_multiArrays sp ks = Ret arrs"
    "bc_readAll (sp_ctl sp) late (Suc i) arrs = Ret (lateVals (bc_useMemImpl (sp_ctl sp)) late (Suc i) vs')"
    by auto
  have "hasKey sp k" using vs(2) by (auto simp: sp_view_def karr_def split: option.splits if_splits)
  with ReadBlocks_view [OF inv vs(2)] a vs(1) show ?case
    by (auto simp: hasKey_def lateVals_Cons)
qed

lemma MultiGet_view:
  assumes inv: "sp_inv sp" and v: "list_all2 (\<lambda>k v. sp_view sp k = Some v) ks vs"
  shows "sp_MultiGet sp late ks = Ret (Success, lateVals (bc_useMemImpl (sp_ctl sp)) late 0 vs)"
  using multi_view [OF inv v, of late 0] sp_inv_parts(3) [OF inv]
  by (auto simp: sp_MultiGet_def bc_ReadBlocksBatch_def bc_impl_def)

lemma slice_used:
  assumes "arr_ok L arr" "0 \<le> hd arr"
  shows "slice arr 1 (pagesOf (nat (hd arr))) = Some (used arr)" "slice arr 0 1 = Some [hd arr]"
proof -
  obtain s rest where "arr = s # rest" using assms by (cases arr) (auto simp: arr_ok_def)
  then show "slice arr 1 (pagesOf (nat (hd arr))) = Some (used arr)" "slice arr 0 1 = Some [hd arr]"
    using assms by (auto simp: slice_def used_def arr_ok_def)
qed

lemma sp_release_in:
  assumes "sp_heap sp p = Some arr" "slice arr off (nat n) = Some as" "bc_impl (sp_ctl sp)"
  shows "sp_release sp p off n =
    Ret (sp\<lparr>sp_ctl := (sp_ctl sp)\<lparr>bc_blockAddresses := bc_blockAddresses (sp_ctl sp) @ as\<rparr>\<rparr>)"
  using assms by (simp add: sp_release_def sp_array_def bc_ReleaseBlocks_def bc_impl_def)

lemma wrote_nothing: "pages_ok bc \<Longrightarrow> wrote bc bc [] []"
  by (auto simp: wrote_def intro: exI [of _ "bc_pages bc"])

lemma Delete_view:
  assumes inv: "sp_inv sp" and v: "sp_view sp k = Some v"
  shows "\<exists>sp'. sp_Delete sp k = Ret (Success, sp') \<and> sp_inv sp' \<and> sp_view sp' = (sp_view sp)(k := None)
    \<and> sp_freePages sp' = sp_freePages sp + pagesOf (length v)
    \<and> ds_R (sp_mapping sp') = ds_R (sp_mapping sp) \<and> ds_maxRows (sp_mapping sp') = ds_maxRows (sp_mapping sp)
    \<and> sp_next sp' = sp_next sp \<and> sp_blockLimit sp' = sp_blockLimit sp \<and> ptr sp' k = noArray"
proof -
  note p = sp_inv_parts [OF inv]
  obtain arr where arr: "karr sp k = Some arr" "0 \<le> hd arr" "v = content (sp_ctl sp) arr"
    using v by (rule sp_view_SomeE)
  note s = karr_Some [OF arr(1)]
  note ok = p(7) [OF arr(1)]
  let ?as = "used arr"
  let ?bc = "(sp_ctl sp)\<lparr>bc_blockAddresses := bc_blockAddresses (sp_ctl sp) @ ?as\<rparr>"
  let ?b = "sp_buffer sp @ [ptr sp k]"
  let ?sp1 = "sp\<lparr>sp_ctl := ?bc, sp_buffer := ?b\<rparr>"
  have rel: "sp_release sp (ptr sp k) 1 (int (pagesOf (nat (hd arr)))) = Ret (sp\<lparr>sp_ctl := ?bc\<rparr>)"
    using sp_release_in [of sp "ptr sp k" arr 1 "int (pagesOf (nat (hd arr)))" ?as] s slice_used(1) [OF ok arr(2)] p(3)
    by simp
  have b: "?b = sp_buffer sp @ (if ptr sp k = noArray then [] else [ptr sp k])" using s by simp
  obtain d where d: "sp_setAt sp k noArray = Ret (sp\<lparr>sp_mapping := d\<rparr>)"
    "ptr_ok (sp\<lparr>sp_mapping := d, sp_buffer := ?b\<rparr>)"
    "karr (sp\<lparr>sp_mapping := d, sp_buffer := ?b\<rparr>) = (karr sp)(k := None)"
    "ds_R d = ds_R (sp_mapping sp)" "ds_maxRows d = ds_maxRows (sp_mapping sp)"
    "ptr (sp\<lparr>sp_mapping := d, sp_buffer := ?b\<rparr>) k = noArray"
    using set_ptr [OF p(1) conjunct1 [OF s] _ b, of noArray] by (auto simp: Let_def)
  let ?sp' = "?sp1\<lparr>sp_mapping := d\<rparr>"
  have set1: "sp_setAt ?sp1 k noArray = Ret ?sp'"
    by (rule sp_setAt_frame [OF d(1)]) simp
  have del: "sp_Delete sp k = Ret (Success, ?sp')"
    using s arr(2) sp_At_in [OF p(1) conjunct1 [OF s]] slice_used(2) [OF ok arr(2)] rel set1
    by (simp add: sp_Delete_def sp_array_def hasKey_def)
  have eq: "?sp' = (sp\<lparr>sp_mapping := d, sp_buffer := ?b\<rparr>)\<lparr>sp_ctl := ?bc\<rparr>" by simp
  have ka: "karr ?sp' = (karr sp)(k := None)" unfolding eq using d(3) by (simp only: ptr_simps)
  have po: "ptr_ok ?sp'" unfolding eq using d(2) by (simp only: ptr_ok_simps)
  have u: "usedO (karr sp k) = [] @ ?as" using arr(1) by (simp add: usedO_def)
  let ?bc0 = "(sp_ctl sp)\<lparr>bc_blockAddresses := bc_blockAddresses (sp_ctl sp)\<rparr>"
  have pg: "wrote ?bc0 ?bc0 [] []" using p(4) by (intro wrote_nothing) simp
  have fr: "bc_blockAddresses (sp_ctl sp) = [] @ bc_blockAddresses (sp_ctl sp)" by simp
  have buf: "sp_bufferLimit sp \<le> int (length (sp_buffer ?sp'))" using inv by (simp add: sp_inv_def)
  have ctl: "sp_ctl ?sp' = ?bc0\<lparr>bc_blockAddresses := bc_blockAddresses (sp_ctl sp) @ ?as\<rparr>" by simp
  have none: "usedO None = [] @ []" by (simp add: usedO_def)
  have nok: "\<forall>a. None = Some a \<longrightarrow> arr_ok (sp_blockLimit sp) a" by simp
  have lim: "sp_blockLimit ?sp' = sp_blockLimit sp" "sp_bufferLimit ?sp' = sp_bufferLimit sp" by simp_all
  note ex = sp_exchange [OF inv u fr pg refl po ka ctl lim buf none nok]
  have i: "sp_inv ?sp'" by (rule ex(1))
  have o: "j \<noteq> k \<Longrightarrow> sp_view ?sp' j = sp_view sp j" for j by (rule ex(2))
  have vk: "sp_view ?sp' = (sp_view sp)(k := None)"
    using o ka by (auto simp: fun_eq_iff sp_view_def)
  have f: "sp_freePages ?sp' = sp_freePages sp + pagesOf (length v)"
    using sp_view_Some(2) [OF inv arr(1,2)] length_used [OF ok arr(2)] arr(3)
    by (simp add: sp_freePages_def bc_RemainBlocks_def)
  show ?thesis
  proof (intro exI conjI)
    show "sp_Delete sp k = Ret (Success, ?sp')" by (rule del)
    show "ptr ?sp' k = noArray" unfolding eq using d(6) by (simp only: ptr_simps)
  qed (use i vk f d(4,5) in simp_all)
qed

section \<open>Put\<close>

definition sp_frame :: "spdkio \<Rightarrow> spdkio \<Rightarrow> bool" where
  "sp_frame sp sp' \<longleftrightarrow> sp_ctl sp' = sp_ctl sp \<and> sp_blockLimit sp' = sp_blockLimit sp
     \<and> sp_bufferLimit sp' = sp_bufferLimit sp"

lemma sp_inv_frame:
  assumes "sp_inv sp" "ptr_ok sp'" "sp_frame sp sp'" "karr sp' = karr sp"
    "sp_bufferLimit sp \<le> int (length (sp_buffer sp'))"
  shows "sp_inv sp' \<and> sp_view sp' = sp_view sp"
proof
  show "sp_inv sp'" using assms by (simp add: sp_inv_def sp_frame_def)
  have c: "sp_ctl sp' = sp_ctl sp" using assms by (simp add: sp_frame_def)
  show "sp_view sp' = sp_view sp" unfolding sp_view_def fun_eq_iff c assms(4) by simp
qed

text \<open>A fresh array is full of -1, so it owns nothing.\<close>

lemma blank_arr: "1 \<le> L \<Longrightarrow> arr_ok L (replicate (nat L) (- 1)) \<and> hd (replicate (nat L) (- 1)) = (- 1 :: int)"
  by (cases "nat L") (auto simp: arr_ok_def)

lemma grow_mapping:
  assumes inv: "sp_inv sp" and k: "0 \<le> k" "k < ds_R (sp_mapping sp) \<or> k + 1 \<le> ds_maxRows (sp_mapping sp)"
  shows "\<exists>d. sp_grow sp k = Ret (sp\<lparr>sp_mapping := d\<rparr>)
    \<and> sp_inv (sp\<lparr>sp_mapping := d\<rparr>) \<and> sp_view (sp\<lparr>sp_mapping := d\<rparr>) = sp_view sp
    \<and> karr (sp\<lparr>sp_mapping := d\<rparr>) = karr sp
    \<and> hasKey (sp\<lparr>sp_mapping := d\<rparr>) k \<and> ds_R d = max (ds_R (sp_mapping sp)) (k + 1)
    \<and> ds_maxRows d = ds_maxRows (sp_mapping sp)"
proof (cases "k + 1 - ds_R (sp_mapping sp) > 0")
  case False
  then have "hasKey sp k" using k(1) by (simp add: hasKey_def)
  then show ?thesis using False inv
    by (intro exI [of _ "sp_mapping sp"]) (auto simp: hasKey_def sp_grow_def)
next
  case True
  define delta where delta: "delta = k + 1 - ds_R (sp_mapping sp)"
  note p = sp_inv_parts(1) [OF inv]
  have di: "ds_inv 1 8 (sp_mapping sp)" using p by (simp add: ptr_ok_def)
  have R0: "0 \<le> ds_R (sp_mapping sp)" using dsrows.size_nonneg [OF di] by simp
  obtain d where d: "ds_AddBatch (sp_mapping sp) delta None = Ret (Success, d)" "ds_inv 1 8 d"
    "ds_R d = ds_R (sp_mapping sp) + delta" "ds_maxRows d = ds_maxRows (sp_mapping sp)"
    "ptrsOf d = ptrsOf (sp_mapping sp) @ replicate (nat delta) noArray"
    using sp_grow_in [OF di, of delta] True k delta by auto
  have True: "delta > 0" using True delta by simp
  let ?sp = "sp\<lparr>sp_mapping := d\<rparr>"
  have old: "hasKey sp j \<Longrightarrow> hasKey ?sp j \<and> ptr ?sp j = ptr sp j" for j
    using d(3,5) True by (auto simp: hasKey_def ptr_def nth_append nat_less_iff)
  have fresh: "hasKey ?sp j \<Longrightarrow> \<not> hasKey sp j \<Longrightarrow> ptr ?sp j = noArray" for j
  proof -
    assume "hasKey ?sp j" "\<not> hasKey sp j"
    then have "nat (ds_R (sp_mapping sp)) \<le> nat j" "nat j - nat (ds_R (sp_mapping sp)) < nat delta"
      using d(3) R0 by (auto simp: hasKey_def)
    then have "(ptrsOf (sp_mapping sp) @ replicate (nat delta) noArray) ! nat j = noArray"
      using nth_append_length_plus [of "ptrsOf (sp_mapping sp)" "replicate (nat delta) noArray"
        "nat j - nat (ds_R (sp_mapping sp))"] by (simp only: length_ptrsOf) simp
    then show ?thesis using d(5) by (simp add: ptr_def)
  qed
  have nn: "sp_heap sp noArray = None"
    using heap_ok_bound [of sp noArray] p by (cases "sp_heap sp noArray") (auto simp: ptr_ok_def)
  have kf: "karr ?sp j = karr sp j" for j
    using old [of j] fresh [of j] nn by (cases "hasKey sp j") (auto simp: karr_def)
  have sp1: "spare sp q \<Longrightarrow> spare ?sp q" for q
    using old fresh nn unfolding spare_def by (metis select_convs(6) surjective update_convs(2))
  have po: "ptr_ok ?sp"
    unfolding ptr_ok_def
  proof (intro conjI allI impI ballI)
    show "ds_inv 1 8 (sp_mapping ?sp)" using d(2) by simp
    show "heap_ok ?sp" using p by (simp add: ptr_ok_def heap_ok_def)
    show "distinct (sp_buffer ?sp)" using p by (simp add: ptr_ok_def)
    show "spare ?sp q" if "q \<in> set (sp_buffer ?sp)" for q using that p sp1 by (simp add: ptr_ok_def)
    show "sp_heap ?sp (ptr ?sp j) \<noteq> None" if "hasKey ?sp j \<and> ptr ?sp j \<noteq> noArray" for j
    proof -
      have j: "hasKey sp j" using that fresh [of j] by blast
      have "ptr sp j \<noteq> noArray" using that old [OF j] by simp
      then have "sp_heap sp (ptr sp j) \<noteq> None" using p j unfolding ptr_ok_def by blast
      then show ?thesis using old [OF j] by simp
    qed
    show "ptr ?sp i \<noteq> ptr ?sp j" if "hasKey ?sp i \<and> hasKey ?sp j \<and> i \<noteq> j \<and> ptr ?sp i \<noteq> noArray" for i j
    proof -
      have i: "hasKey sp i" using that fresh [of i] by blast
      then show ?thesis
      proof (cases "hasKey sp j")
        case True
        then show ?thesis using that i old [of i] old [of j] p unfolding ptr_ok_def by metis
      next
        case False
        then show ?thesis using that fresh [of j] by simp
      qed
    qed
  qed
  have "sp_inv ?sp \<and> sp_view ?sp = sp_view sp"
  proof (rule sp_inv_frame [OF inv po])
    show "sp_frame sp ?sp" by (simp add: sp_frame_def)
    show "karr ?sp = karr sp" by (rule ext) (rule kf)
    show "sp_bufferLimit sp \<le> int (length (sp_buffer ?sp))" using inv by (simp add: sp_inv_def)
  qed
  then show ?thesis using True d kf k(1) unfolding delta
    by (intro exI [of _ d]) (auto simp: hasKey_def max_def sp_grow_def)
qed

lemma reserve_in:
  assumes inv: "sp_inv sp" and k: "0 \<le> k" "k < ds_R (sp_mapping sp) \<or> k + 1 \<le> ds_maxRows (sp_mapping sp)"
    and nx: "sp_next sp < noArray"
  shows "\<exists>sp1 arr. sp_reserve sp k = Ret sp1 \<and> sp_inv sp1 \<and> sp_view sp1 = sp_view sp \<and> sp_frame sp sp1
    \<and> karr sp1 k = Some arr \<and> ds_R (sp_mapping sp1) = max (ds_R (sp_mapping sp)) (k + 1)
    \<and> ds_maxRows (sp_mapping sp1) = ds_maxRows (sp_mapping sp) \<and> sp_next sp1 \<le> sp_next sp + 1"
proof -
  obtain d where g: "sp_grow sp k = Ret (sp\<lparr>sp_mapping := d\<rparr>)"
    and i: "sp_inv (sp\<lparr>sp_mapping := d\<rparr>)" and vw: "sp_view (sp\<lparr>sp_mapping := d\<rparr>) = sp_view sp"
    and hk: "hasKey (sp\<lparr>sp_mapping := d\<rparr>) k" and dR: "ds_R d = max (ds_R (sp_mapping sp)) (k + 1)"
    "ds_maxRows d = ds_maxRows (sp_mapping sp)"
    using grow_mapping [OF inv k] by auto
  let ?s = "sp\<lparr>sp_mapping := d\<rparr>"
  note p = sp_inv_parts [OF i]
  have at: "sp_At ?s k = Ret (ptr ?s k)" by (rule sp_At_in [OF p(1) hk])
  show ?thesis
  proof (cases "ptr ?s k = noArray")
    case False
    then have "sp_reserve sp k = Ret ?s" using g at by (simp add: sp_reserve_def)
    moreover have "sp_heap ?s (ptr ?s k) \<noteq> None" using p(1) False hk unfolding ptr_ok_def by metis
    then obtain arr where "karr ?s k = Some arr" using hk False by (auto simp: karr_def)
    ultimately show ?thesis using i vw dR by (intro exI [of _ ?s] exI [of _ arr]) (simp add: sp_frame_def)
  next
    case True
    let ?got = "sp_spareArray ?s"
    have bl: "sp_bufferLimit ?s \<le> int (length (sp_buffer ?s))" "1 \<le> sp_bufferLimit ?s"
      using i by (simp_all add: sp_inv_def)
    obtain q s2 where q: "?got = Ret (q, s2)" "ptr_ok s2" "spare s2 q" "q \<notin> set (sp_buffer s2)" "karr s2 = karr ?s"
      "sp_mapping s2 = d" "sp_frame ?s s2" "sp_bufferLimit ?s \<le> int (length (sp_buffer s2))" "sp_next s2 \<le> sp_next sp + 1"
    proof (cases "int (length (sp_buffer ?s)) > sp_bufferLimit ?s")
      case True
      then obtain q rest where b: "sp_buffer ?s = q # rest" using bl by (cases "sp_buffer ?s") auto
      have gq: "?got = Ret (q, ?s\<lparr>sp_buffer := rest\<rparr>)" using sp_popBuffer_in(1) [OF p(1) b] True by (simp add: sp_spareArray_def)
      show thesis
      proof (rule that [OF gq])
        show "spare (?s\<lparr>sp_buffer := rest\<rparr>) q" using sp_popBuffer_in(3) [OF p(1) b] by (simp only: ptr_ok_simps)
      qed (use sp_popBuffer_in [OF p(1) b] True b in \<open>simp_all add: sp_frame_def karr_def hasKey_def ptr_def fun_eq_iff\<close>)
    next
      case False
      obtain q s2 where n: "sp_newArray ?s = (q, s2)" by (cases "sp_newArray ?s")
      have nx': "sp_next ?s < noArray" using nx by simp
      note nw = sp_newArray_in [OF p(1) nx' n]
      have "sp_next s2 = sp_next sp + 1" using n by (auto simp: sp_newArray_def)
      with nw n False bl show thesis by (intro that [of q s2]) (auto simp: sp_spareArray_def sp_frame_def)
    qed
    have hk2: "hasKey s2 k" "ptr s2 k = noArray" using hk True q(6) by (simp_all add: hasKey_def ptr_def)
    have b: "sp_buffer s2 = sp_buffer s2 @ (if ptr s2 k = noArray then [] else [ptr s2 k])" using hk2 by simp
    obtain d3 where d3: "sp_setAt s2 k q = Ret (s2\<lparr>sp_mapping := d3\<rparr>)"
      "ptr_ok (s2\<lparr>sp_mapping := d3, sp_buffer := sp_buffer s2\<rparr>)"
      "karr (s2\<lparr>sp_mapping := d3, sp_buffer := sp_buffer s2\<rparr>) = (karr s2)(k := if q = noArray then None else sp_heap s2 q)"
      "ptr (s2\<lparr>sp_mapping := d3, sp_buffer := sp_buffer s2\<rparr>) k = q"
      "ds_R d3 = ds_R (sp_mapping s2)" "ds_maxRows d3 = ds_maxRows (sp_mapping s2)"
      using set_ptr [OF q(2) hk2(1) disjI2 [OF conjI [OF q(3,4)]] b] by (auto simp: Let_def)
    let ?s3 = "s2\<lparr>sp_mapping := d3\<rparr>"
    have e3: "s2\<lparr>sp_mapping := d3, sp_buffer := sp_buffer s2\<rparr> = ?s3" by simp
    have hq: "heap_ok s2" using q(2) by (simp add: ptr_ok_def)
    have qn: "q \<noteq> noArray" using heap_ok_bound [OF hq, of q] q(3) by (auto simp: spare_def)
    obtain arr0 where arr0: "sp_heap s2 q = Some arr0" using q(3) by (auto simp: spare_def)
    have L: "int (length arr0) = sp_blockLimit s2" "1 \<le> sp_blockLimit s2" using hq arr0 by (auto simp: heap_ok_def)
    let ?blank = "replicate (nat (sp_blockLimit ?s3)) (- 1) :: int list"
    let ?s4 = "?s3\<lparr>sp_heap := (sp_heap ?s3)(q \<mapsto> ?blank)\<rparr>"
    have "blit arr0 0 ?blank = Some ?blank" using L by (simp add: blit_def)
    then have st: "sp_store ?s3 q 0 ?blank = Ret ?s4" using arr0 by (intro sp_store_in) simp_all
    have hk3: "hasKey ?s3 k" using hk2 d3(5) by (simp add: hasKey_def)
    have pk: "ptr ?s3 k = q" using d3(4) e3 by simp
    have po3: "ptr_ok ?s3" using d3(2) e3 by simp
    have po: "ptr_ok ?s4" using L arr0 by (intro ptr_ok_store [OF po3, of q arr0]) simp_all
    have ka: "karr ?s4 = (karr ?s)(k \<mapsto> ?blank)"
      using karr_store_key [OF po3 hk3, of ?blank] pk qn d3(3) e3 q(5) by simp
    have kn: "karr ?s k = None" using True by (simp add: karr_def)
    have res: "sp_reserve sp k = Ret ?s4"
      using g at True q(1) d3(1) st by (simp add: sp_reserve_def)
    have bo: "arr_ok (sp_blockLimit ?s) ?blank \<and> hd ?blank = - 1"
      using blank_arr [of "sp_blockLimit s2"] L(2) q(7) by (simp add: sp_frame_def)
    have u: "usedO (karr ?s k) = [] @ []" using kn by (simp add: usedO_def)
    let ?bc0 = "(sp_ctl ?s)\<lparr>bc_blockAddresses := bc_blockAddresses (sp_ctl ?s)\<rparr>"
    have pg: "wrote ?bc0 ?bc0 [] []" using p(4) by (intro wrote_nothing) simp
    have fr: "bc_blockAddresses (sp_ctl ?s) = [] @ bc_blockAddresses (sp_ctl ?s)" by simp
    have ctl: "sp_ctl ?s4 = ?bc0\<lparr>bc_blockAddresses := bc_blockAddresses (sp_ctl ?s) @ []\<rparr>"
      using q(7) by (simp add: sp_frame_def)
    have lim: "sp_blockLimit ?s4 = sp_blockLimit ?s" "sp_bufferLimit ?s4 = sp_bufferLimit ?s"
      using q(7) by (simp_all add: sp_frame_def)
    have buf: "sp_bufferLimit ?s \<le> int (length (sp_buffer ?s4))" using q(8) by simp
    have ub: "usedO (Some ?blank) = [] @ []" using bo by (simp add: usedO_def used_def)
    have ab: "\<forall>a. Some ?blank = Some a \<longrightarrow> arr_ok (sp_blockLimit ?s) a" using bo by simp
    note ex = sp_exchange [OF i u fr pg refl po ka ctl lim buf ub ab]
    have i4: "sp_inv ?s4" by (rule ex(1))
    have "sp_view ?s4 j = sp_view ?s j" for j
    proof (cases "j = k")
      case True
      then show ?thesis using ka kn bo by (simp add: sp_view_def)
    next
      case False
      show ?thesis by (rule ex(2) [OF False])
    qed
    then have vw4: "sp_view ?s4 = sp_view sp" using vw by (simp add: fun_eq_iff)
    show ?thesis
    proof (intro exI conjI)
      show "sp_reserve sp k = Ret ?s4" by (rule res)
      show "karr ?s4 k = Some ?blank" using ka by simp
    qed (use i4 vw4 q(6,7,9) d3(5,6) dR in \<open>simp_all add: sp_frame_def\<close>)
  qed
qed

text \<open>
  What every completed update establishes: the invariant, the other keys' values, the page
  accounts, the kept and the written pages.
\<close>

definition updated :: "spdkio \<Rightarrow> spdkio \<Rightarrow> int \<Rightarrow> int list \<Rightarrow> int list \<Rightarrow> int list \<Rightarrow> bytes \<Rightarrow> int list \<Rightarrow> bool" where
  "updated sp sp' k keep rel new v arr2 \<longleftrightarrow> sp_inv sp' \<and> karr sp' k = Some arr2
     \<and> (\<forall>j. j \<noteq> k \<longrightarrow> sp_view sp' j = sp_view sp j)
     \<and> sp_freePages sp' + length new = sp_freePages sp + length rel
     \<and> pagesAt (sp_ctl sp') keep = pagesAt (sp_ctl sp) keep
     \<and> take (length v) (pagesAt (sp_ctl sp') new) = v
     \<and> ds_R (sp_mapping sp') = ds_R (sp_mapping sp) \<and> ds_maxRows (sp_mapping sp') = ds_maxRows (sp_mapping sp)
     \<and> sp_next sp' = sp_next sp \<and> sp_blockLimit sp' = sp_blockLimit sp"

lemma inv_free: "sp_inv sp \<Longrightarrow> bc_blockAddresses (sp_ctl sp) = new @ rest \<Longrightarrow> distinct new \<and> inDev (sp_ctl sp) new"
  using sp_inv_parts(5,6) [of sp] by (auto simp: inDev_def)

text \<open>Blocks written into the key's own array.\<close>

lemma in_place:
  assumes inv: "sp_inv sp" and k: "karr sp k = Some arr" "usedO (karr sp k) = keep"
    and free: "bc_blockAddresses (sp_ctl sp) = new @ rest" "length new = nat n" "0 \<le> n"
    and v: "length v \<le> length new * PageSize"
    and b: "blit arr off new = Some arr1" "blit arr1 0 [newSize] = Some arr2"
    and new: "used arr2 = keep @ new" "arr_ok (sp_blockLimit sp) arr2"
  shows "\<exists>sp1 sp2. sp_fill sp (ptr sp k) off n v = Ret sp1 \<and> sp_store sp1 (ptr sp k) 0 [newSize] = Ret sp2
    \<and> updated sp sp2 k keep [] new v arr2"
proof -
  note p = sp_inv_parts [OF inv]
  note s = karr_Some [OF k(1)]
  note fr = inv_free [OF inv free(1)]
  obtain pg where f: "sp_fill sp (ptr sp k) off n v =
      Ret (sp\<lparr>sp_ctl := (sp_ctl sp)\<lparr>bc_blockAddresses := rest, bc_pages := pg\<rparr>,
              sp_heap := (sp_heap sp)(ptr sp k \<mapsto> arr1)\<rparr>)"
    and w: "wrote ((sp_ctl sp)\<lparr>bc_blockAddresses := rest\<rparr>)
        ((sp_ctl sp)\<lparr>bc_blockAddresses := rest, bc_pages := pg\<rparr>) new v"
    using sp_fill_in [OF p(3,4) conjunct2 [OF fr] conjunct1 [OF fr] free conjunct2 [OF conjunct2 [OF s]] b(1) v] by auto
  let ?c = "(sp_ctl sp)\<lparr>bc_blockAddresses := rest, bc_pages := pg\<rparr>"
  let ?sp1 = "sp\<lparr>sp_ctl := ?c, sp_heap := (sp_heap sp)(ptr sp k \<mapsto> arr1)\<rparr>"
  let ?sp2 = "(sp\<lparr>sp_heap := (sp_heap sp)(ptr sp k \<mapsto> arr2)\<rparr>)\<lparr>sp_ctl := ?c\<rparr>"
  have st: "sp_store ?sp1 (ptr sp k) 0 [newSize] = Ret ?sp2"
    using sp_store_in [of ?sp1 "ptr sp k" arr1 0 "[newSize]" arr2] b(2) by simp
  have len: "length arr2 = length arr" using length_blit [OF b(1)] length_blit [OF b(2)] by simp
  have po: "ptr_ok ?sp2" unfolding ptr_ok_simps by (rule ptr_ok_store [OF p(1) _ len]) (use s in simp)
  have ka: "karr ?sp2 = (karr sp)(k := Some arr2)"
    unfolding ptr_simps by (rule karr_store_key [OF p(1)]) (use s in auto)
  have u: "usedO (karr sp k) = keep @ []" using k(2) by simp
  have ctl: "sp_ctl ?sp2 = ?c\<lparr>bc_blockAddresses := rest @ []\<rparr>" by simp
  have buf: "sp_bufferLimit sp \<le> int (length (sp_buffer ?sp2))" using inv by (simp add: sp_inv_def)
  have lim: "sp_blockLimit ?sp2 = sp_blockLimit sp" "sp_bufferLimit ?sp2 = sp_bufferLimit sp" by simp_all
  have uA: "usedO (Some arr2) = keep @ new" using new(1) by (simp add: usedO_def)
  have okA: "\<forall>a. Some arr2 = Some a \<longrightarrow> arr_ok (sp_blockLimit sp) a" using new(2) by simp
  note ex = sp_exchange [OF inv u free(1) w refl po ka ctl lim buf uA okA]
  have "updated sp ?sp2 k keep [] new v arr2"
    unfolding updated_def
  proof (intro conjI allI impI)
    show "sp_view ?sp2 j = sp_view sp j" if "j \<noteq> k" for j by (rule ex(2) [OF that])
    show "karr ?sp2 k = Some arr2" using ka by simp
  qed (rule ex(1) ex(3) ex(4) ex(5) | simp)+
  then show ?thesis using f st by blast
qed

text \<open>Blocks written into a spare array, which then takes the place of the key's array.\<close>

lemma swapped:
  assumes inv: "sp_inv sp" and k: "karr sp k = Some arr" "usedO (karr sp k) = keep @ rel"
    and q: "sp_buffer sp = q # bs" "length arrq = length arr"
    and free: "bc_blockAddresses (sp_ctl sp) = new @ rest" "length new = nat n" "0 \<le> n"
    and v: "length v \<le> length new * PageSize"
    and b: "blit arrq off new = Some arr1" "blit arr1 0 [newSize] = Some arr2"
    and rel: "slice arr roff (nat rn) = Some rel"
    and new: "used arr2 = keep @ new" "arr_ok (sp_blockLimit sp) arr2"
  shows "\<exists>sp3 sp4 sp5 sp6. sp_fill (sp\<lparr>sp_buffer := bs, sp_heap := (sp_heap sp)(q \<mapsto> arrq)\<rparr>) q off n v = Ret sp3
    \<and> sp_store sp3 q 0 [newSize] = Ret sp4 \<and> sp_release sp4 (ptr sp k) roff rn = Ret sp5
    \<and> sp_setAt sp5 k q = Ret sp6
    \<and> updated sp (sp6\<lparr>sp_buffer := sp_buffer sp6 @ [ptr sp k]\<rparr>) k keep rel new v arr2"
proof -
  note p = sp_inv_parts [OF inv]
  note s = karr_Some [OF k(1)]
  note fr = inv_free [OF inv free(1)]
  note qb = sp_popBuffer_in [OF p(1) q(1)]
  have qp: "q \<noteq> ptr sp k" using qb(3) s by (auto simp: spare_def)
  let ?s2 = "sp\<lparr>sp_buffer := bs, sp_heap := (sp_heap sp)(q \<mapsto> arrq)\<rparr>"
  have d2: "inDev (sp_ctl ?s2) new" using fr by simp
  obtain pg where f: "sp_fill ?s2 q off n v =
      Ret (?s2\<lparr>sp_ctl := (sp_ctl ?s2)\<lparr>bc_blockAddresses := rest, bc_pages := pg\<rparr>,
              sp_heap := (sp_heap ?s2)(q \<mapsto> arr1)\<rparr>)"
    and w: "wrote ((sp_ctl sp)\<lparr>bc_blockAddresses := rest\<rparr>)
        ((sp_ctl sp)\<lparr>bc_blockAddresses := rest, bc_pages := pg\<rparr>) new v"
    using sp_fill_in [of ?s2 new rest n q arrq off arr1 v] p(3,4) fr free b(1) v by auto
  let ?c = "(sp_ctl sp)\<lparr>bc_blockAddresses := rest, bc_pages := pg\<rparr>"
  let ?s3 = "?s2\<lparr>sp_ctl := (sp_ctl ?s2)\<lparr>bc_blockAddresses := rest, bc_pages := pg\<rparr>,
              sp_heap := (sp_heap ?s2)(q \<mapsto> arr1)\<rparr>"
  let ?s4 = "(sp\<lparr>sp_buffer := bs, sp_heap := (sp_heap sp)(q \<mapsto> arr2)\<rparr>)\<lparr>sp_ctl := ?c\<rparr>"
  have st: "sp_store ?s3 q 0 [newSize] = Ret ?s4"
    using sp_store_in [of ?s3 q arr1 0 "[newSize]" arr2] b(2) by simp
  let ?c5 = "?c\<lparr>bc_blockAddresses := rest @ rel\<rparr>"
  let ?s5 = "(sp\<lparr>sp_buffer := bs, sp_heap := (sp_heap sp)(q \<mapsto> arr2)\<rparr>)\<lparr>sp_ctl := ?c5\<rparr>"
  have "bc_impl ?c" using p(3) by (simp add: bc_impl_def)
  then have re: "sp_release ?s4 (ptr sp k) roff rn = Ret ?s5"
    using sp_release_in [of ?s4 "ptr sp k" arr roff rn rel] s rel qp by simp
  obtain arr0 where a0: "sp_heap sp q = Some arr0" using qb(3) by (auto simp: spare_def)
  have len: "length arr2 = length arr0"
  proof -
    have "int (length arr0) = sp_blockLimit sp" "int (length arr) = sp_blockLimit sp"
      using p(1) a0 s by (auto simp: ptr_ok_def heap_ok_def)
    then show ?thesis using length_blit [OF b(1)] length_blit [OF b(2)] q(2) by simp
  qed
  let ?h = "sp\<lparr>sp_buffer := bs\<rparr>"
  have e5: "?s5 = (?h\<lparr>sp_heap := (sp_heap ?h)(q \<mapsto> arr2)\<rparr>)\<lparr>sp_ctl := ?c5\<rparr>" by simp
  have po5: "ptr_ok ?s5" unfolding e5 ptr_ok_simps
    by (rule ptr_ok_store [OF qb(2) _ len]) (use a0 in simp)
  have ks: "karr (?h\<lparr>sp_heap := (sp_heap ?h)(q \<mapsto> arr2)\<rparr>) = karr ?h"
    by (rule karr_store_spare) (use qb(3) in \<open>auto simp: spare_def\<close>)
  have ka5: "karr ?s5 = karr sp" using ks unfolding e5 by (simp only: ptr_simps)
  have hk: "hasKey ?s5 k" "ptr ?s5 k = ptr sp k" using s by (simp_all add: hasKey_def ptr_def)
  have sq: "spare ?s5 q" using qb(3) by (simp add: spare_def hasKey_def ptr_def)
  have qbs: "q \<notin> set (sp_buffer ?s5)" using qb(4) by simp
  have bb: "bs @ [ptr sp k] = sp_buffer ?s5 @ (if ptr ?s5 k = noArray then [] else [ptr ?s5 k])" using s hk by simp
  have qn: "q \<noteq> noArray" using heap_ok_bound [of sp q] p(1) qb(3) by (auto simp: ptr_ok_def spare_def)
  obtain d where d: "sp_setAt ?s5 k q = Ret (?s5\<lparr>sp_mapping := d\<rparr>)"
    "ptr_ok (?s5\<lparr>sp_mapping := d, sp_buffer := bs @ [ptr sp k]\<rparr>)"
    "karr (?s5\<lparr>sp_mapping := d, sp_buffer := bs @ [ptr sp k]\<rparr>) = (karr ?s5)(k := if q = noArray then None else sp_heap ?s5 q)"
    "ds_R d = ds_R (sp_mapping ?s5)" "ds_maxRows d = ds_maxRows (sp_mapping ?s5)"
    using set_ptr [OF po5 hk(1) disjI2 [OF conjI [OF sq qbs]] bb] by (auto simp: Let_def)
  let ?s6 = "?s5\<lparr>sp_mapping := d\<rparr>"
  let ?s' = "?s6\<lparr>sp_buffer := sp_buffer ?s6 @ [ptr sp k]\<rparr>"
  have e: "?s' = ?s5\<lparr>sp_mapping := d, sp_buffer := bs @ [ptr sp k]\<rparr>" by simp
  have po: "ptr_ok ?s'" unfolding e by (rule d(2))
  have ka: "karr ?s' = (karr sp)(k := Some arr2)" unfolding e using d(3) ka5 qn by simp
  have ctl: "sp_ctl ?s' = ?c\<lparr>bc_blockAddresses := rest @ rel\<rparr>" by simp
  have buf: "sp_bufferLimit sp \<le> int (length (sp_buffer ?s'))" using inv q(1) by (simp add: sp_inv_def)
  have lim: "sp_blockLimit ?s' = sp_blockLimit sp" "sp_bufferLimit ?s' = sp_bufferLimit sp" by simp_all
  have uA: "usedO (Some arr2) = keep @ new" using new(1) by (simp add: usedO_def)
  have okA: "\<forall>a. Some arr2 = Some a \<longrightarrow> arr_ok (sp_blockLimit sp) a" using new(2) by simp
  note ex = sp_exchange [OF inv k(2) free(1) w refl po ka ctl lim buf uA okA]
  have "updated sp ?s' k keep rel new v arr2"
    unfolding updated_def
  proof (intro conjI allI impI)
    show "sp_view ?s' j = sp_view sp j" if "j \<noteq> k" for j by (rule ex(2) [OF that])
    show "karr ?s' k = Some arr2" using ka by simp
    show "ds_R (sp_mapping ?s') = ds_R (sp_mapping sp)" using d(4) by simp
    show "ds_maxRows (sp_mapping ?s') = ds_maxRows (sp_mapping sp)" using d(5) by simp
  qed (rule ex(1) ex(3) ex(4) ex(5) | simp)+
  then show ?thesis using f st re d(1) by blast
qed

text \<open>The array \<open>Put\<close> leaves: the size, the new addresses, and what was behind them.\<close>

lemma put_array:
  assumes L: "int (length arr) = L" "int (length new) < L" and n: "length new = pagesOf m"
  shows "\<exists>arr1 arr2. blit arr 1 new = Some arr1 \<and> blit arr1 0 [int m] = Some arr2
    \<and> used arr2 = new \<and> arr_ok L arr2 \<and> hd arr2 = int m"
proof -
  obtain a t where arr: "arr = a # t" using L by (cases arr) auto
  have le: "length new \<le> length t" using L arr by simp
  have "blit arr 1 new = Some (a # new @ drop (length new) t)" using le arr by (simp add: blit_def)
  moreover have "blit (a # new @ drop (length new) t) 0 [int m] = Some (int m # new @ drop (length new) t)"
    by (simp add: blit_def)
  moreover have "arr_ok L (int m # new @ drop (length new) t)" using L le arr n by (simp add: arr_ok_def)
  moreover have "used (int m # new @ drop (length new) t) = new" using n by (simp add: used_def)
  ultimately show ?thesis by auto
qed

lemma updated_view:
  assumes u: "updated sp sp' k keep rel new v arr2" and a: "used arr2 = keep @ new" "0 \<le> hd arr2"
    and whole: "nat (hd arr2) = length keep * PageSize + length v" and keep: "inDev (sp_ctl sp) keep" "pages_ok (sp_ctl sp)"
  shows "sp_view sp' = (sp_view sp)(k \<mapsto> pagesAt (sp_ctl sp) keep @ v)"
proof
  fix j
  have "take (length keep * PageSize + length v) (pagesAt (sp_ctl sp') keep @ pagesAt (sp_ctl sp') new)
      = pagesAt (sp_ctl sp) keep @ v"
    using u length_pagesAt [OF keep(2,1)] by (simp add: updated_def)
  then have "content (sp_ctl sp') arr2 = pagesAt (sp_ctl sp) keep @ v"
    using a whole by (simp add: content_def) (simp add: pagesAt_def)
  then show "sp_view sp' j = ((sp_view sp)(k \<mapsto> pagesAt (sp_ctl sp) keep @ v)) j"
    using u a by (cases "j = k") (auto simp: updated_def sp_view_def)
qed

lemma take_free:
  assumes "n \<le> sp_freePages sp"
  shows "bc_blockAddresses (sp_ctl sp) = take n (bc_blockAddresses (sp_ctl sp)) @ drop n (bc_blockAddresses (sp_ctl sp))"
    "length (take n (bc_blockAddresses (sp_ctl sp))) = n"
  using assms by (simp_all add: sp_freePages_def bc_RemainBlocks_def)

lemma Put_view:
  assumes inv: "sp_inv sp" and k: "0 \<le> k" "k < ds_R (sp_mapping sp) \<or> k + 1 \<le> ds_maxRows (sp_mapping sp)"
    and nx: "sp_next sp < noArray" and fits: "int (pagesOf (length v)) < sp_blockLimit sp"
    and room: "pagesOf (length v) \<le> sp_freePages sp"
  shows "\<exists>sp'. sp_Put sp k v = Ret (Success, sp') \<and> sp_inv sp' \<and> sp_view sp' = (sp_view sp)(k \<mapsto> v)
    \<and> sp_freePages sp' + pagesOf (length v) = sp_freePages sp + sp_pagesOf sp k
    \<and> ds_R (sp_mapping sp') = max (ds_R (sp_mapping sp)) (k + 1)
    \<and> ds_maxRows (sp_mapping sp') = ds_maxRows (sp_mapping sp)
    \<and> sp_next sp' \<le> sp_next sp + 1 \<and> sp_blockLimit sp' = sp_blockLimit sp"
proof -
  obtain sp1 arr where r: "sp_reserve sp k = Ret sp1" "sp_inv sp1" "sp_view sp1 = sp_view sp" "sp_frame sp sp1"
    "karr sp1 k = Some arr" "ds_R (sp_mapping sp1) = max (ds_R (sp_mapping sp)) (k + 1)"
    "ds_maxRows (sp_mapping sp1) = ds_maxRows (sp_mapping sp)" "sp_next sp1 \<le> sp_next sp + 1"
    using reserve_in [OF inv k nx] by auto
  note p = sp_inv_parts [OF r(2)]
  note s = karr_Some [OF r(5)]
  have at: "sp_At sp1 k = Ret (ptr sp1 k)" by (rule sp_At_in [OF p(1)]) (use s in simp)
  let ?n = "pagesOf (length v)"
  let ?free = "bc_blockAddresses (sp_ctl sp1)"
  have fp: "sp_freePages sp1 = sp_freePages sp" using r(4) by (simp add: sp_frame_def sp_freePages_def)
  have L: "sp_blockLimit sp1 = sp_blockLimit sp" using r(4) by (simp add: sp_frame_def)
  have tf: "?free = take ?n ?free @ drop ?n ?free" "length (take ?n ?free) = nat (int ?n)"
    using take_free [of ?n sp1] room fp by simp_all
  have vl: "length v \<le> length (take ?n ?free) * PageSize" using tf(2) pagesOf_bounds [of "length v"] by simp
  have ok: "arr_ok (sp_blockLimit sp1) arr" by (rule p(7) [OF r(5)])
  have sl: "slice arr 0 1 = Some [hd arr]" using ok by (cases arr) (auto simp: slice_def arr_ok_def)
  have n0: "0 \<le> int ?n" by simp
  have pages: "sp_pagesOf sp k = sp_pagesOf sp1 k" using r(3) by (simp add: sp_pagesOf_def)
  have finish: "sp_view sp' = (sp_view sp)(k \<mapsto> v)"
    "sp_freePages sp' + ?n = sp_freePages sp + length rel"
    if u: "updated sp1 sp' k [] rel (take ?n ?free) v arr2" "used arr2 = take ?n ?free" "hd arr2 = int (length v)"
    for sp' arr2 rel
  proof -
    have "sp_view sp' = (sp_view sp1)(k \<mapsto> pagesAt (sp_ctl sp1) [] @ v)"
      using u(2,3) p(4) by (intro updated_view [OF u(1)]) (auto simp: inDev_def)
    then show "sp_view sp' = (sp_view sp)(k \<mapsto> v)" using r(3) by (simp add: pagesAt_def)
    show "sp_freePages sp' + ?n = sp_freePages sp + length rel"
      using u(1) tf(2) fp by (simp add: updated_def)
  qed
  show ?thesis
  proof (cases "hd arr < 0")
    case True
    have ua: "usedO (karr sp1 k) = []" using r(5) True by (simp add: usedO_def used_def)
    obtain arr1 arr2 where a: "blit arr 1 (take ?n ?free) = Some arr1" "blit arr1 0 [int (length v)] = Some arr2"
      "used arr2 = take ?n ?free" "arr_ok (sp_blockLimit sp1) arr2" "hd arr2 = int (length v)"
      using put_array [of arr "sp_blockLimit sp1" "take ?n ?free" "length v"] ok tf(2) fits L
      by (auto simp: arr_ok_def)
    have a3: "used arr2 = [] @ take ?n ?free" using a(3) by simp
    obtain sp2 sp3 where st: "sp_fill sp1 (ptr sp1 k) 1 (int ?n) v = Ret sp2"
      "sp_store sp2 (ptr sp1 k) 0 [int (length v)] = Ret sp3" "updated sp1 sp3 k [] [] (take ?n ?free) v arr2"
      using in_place [OF r(2,5) ua tf n0 vl a(1,2) a3 a(4)] by auto
    have "sp_Put sp k v = Ret (Success, sp3)"
      using fits r(1) at s sl True st(1,2) by (simp add: sp_Put_def Let_def sp_array_def)
    moreover have "sp_pagesOf sp k = 0"
      using pages r(5) True by (simp add: sp_pagesOf_def sp_view_def)
    ultimately show ?thesis
      using finish [OF st(3) a(3,5)] st(3) r(6,7,8) L by (intro exI [of _ sp3]) (simp add: updated_def)
  next
    case False
    obtain q bs where qb: "sp_buffer sp1 = q # bs" using p(9) by (cases "sp_buffer sp1") auto
    note qq = sp_popBuffer_in [OF p(1) qb]
    obtain arrq where aq: "sp_heap sp1 q = Some arrq" using qq(3) by (auto simp: spare_def)
    have lq: "int (length arrq) = sp_blockLimit sp1" "length arrq = length arr"
      using p(1) aq s by (auto simp: ptr_ok_def heap_ok_def) (metis of_nat_eq_iff)
    obtain arr1 arr2 where a: "blit arrq 1 (take ?n ?free) = Some arr1" "blit arr1 0 [int (length v)] = Some arr2"
      "used arr2 = take ?n ?free" "arr_ok (sp_blockLimit sp1) arr2" "hd arr2 = int (length v)"
      using put_array [of arrq "sp_blockLimit sp1" "take ?n ?free" "length v"] lq tf(2) fits L by auto
    have a3: "used arr2 = [] @ take ?n ?free" using a(3) by simp
    have ua: "usedO (karr sp1 k) = [] @ used arr" using r(5) by (simp add: usedO_def)
    have rl: "slice arr 1 (nat (int (pagesOf (nat (hd arr))))) = Some (used arr)"
      using slice_used(1) [OF ok] False by simp
    have e2: "sp1\<lparr>sp_buffer := bs, sp_heap := (sp_heap sp1)(q \<mapsto> arrq)\<rparr> = sp1\<lparr>sp_buffer := bs\<rparr>"
      using aq by (simp add: fun_upd_idem)
    obtain sp3 sp4 sp5 sp6 where st: "sp_fill (sp1\<lparr>sp_buffer := bs\<rparr>) q 1 (int ?n) v = Ret sp3"
      "sp_store sp3 q 0 [int (length v)] = Ret sp4"
      "sp_release sp4 (ptr sp1 k) 1 (int (pagesOf (nat (hd arr)))) = Ret sp5"
      "sp_setAt sp5 k q = Ret sp6"
      "updated sp1 (sp6\<lparr>sp_buffer := sp_buffer sp6 @ [ptr sp1 k]\<rparr>) k [] (used arr) (take ?n ?free) v arr2"
      using swapped [OF r(2,5) ua qb lq(2) tf n0 vl a(1,2) rl a3 a(4), unfolded e2] by auto
    have "sp_Put sp k v = Ret (Success, sp6\<lparr>sp_buffer := sp_buffer sp6 @ [ptr sp1 k]\<rparr>)"
      using fits r(1) at s sl False qq(1) st(1-4) by (simp add: sp_Put_def Let_def sp_array_def)
    moreover have "sp_pagesOf sp k = length (used arr)"
      using pages sp_view_Some(3) [OF r(2,5)] False by simp
    ultimately show ?thesis
      using finish [OF st(5) a(3,5)] st(5) r(6,7,8) L
      by (intro exI [of _ "sp6\<lparr>sp_buffer := sp_buffer sp6 @ [ptr sp1 k]\<rparr>"]) (simp add: updated_def)
  qed
qed

section \<open>Merge\<close>

lemma merge_array:
  assumes L: "int (length arr) = L" "int (pagesOf m) < L" and n: "old + length new = pagesOf m"
  shows "\<exists>arr1 arr2. blit arr (1 + int old) new = Some arr1 \<and> blit arr1 0 [int m] = Some arr2
    \<and> used arr2 = take old (drop 1 arr) @ new \<and> arr_ok L arr2 \<and> hd arr2 = int m"
proof -
  obtain a t where arr: "arr = a # t" using L by (cases arr) auto
  have le: "old + length new \<le> length t" using L arr n by simp
  let ?t = "take old t @ new @ drop (old + length new) t"
  have "nat (1 + int old) = Suc old" by simp
  then have "blit arr (1 + int old) new = Some (a # ?t)" using le arr by (simp add: blit_def)
  moreover have "blit (a # ?t) 0 [int m] = Some (int m # ?t)" by (simp add: blit_def)
  moreover have "arr_ok L (int m # ?t)" using L le arr by (simp add: arr_ok_def)
  moreover have "used (int m # ?t) = take old t @ new"
    unfolding used_def n [symmetric] using le by (simp add: n [symmetric])
  ultimately show ?thesis using arr by auto
qed

lemma pages_split:
  fixes s :: int
  assumes "0 \<le> s"
  shows "drop_bit PageSizeEx s = s div int PageSize" "s div int PageSize = int (nat s div PageSize)"
    "s mod int PageSize = int (nat s mod PageSize)"
proof -
  have "s = int (nat s)" using assms by simp
  then show "s div int PageSize = int (nat s div PageSize)" "s mod int PageSize = int (nat s mod PageSize)"
    by (metis zdiv_int, metis zmod_int)
  show "drop_bit PageSizeEx s = s div int PageSize" by (simp add: PageSize_power drop_bit_eq_div)
qed

lemma pagesOf_plus: "pagesOf (b * PageSize + r) = b + pagesOf r"
  by (simp add: pagesOf_div PageSize_def)

lemma pagesOf_small: "0 < r \<Longrightarrow> r < PageSize \<Longrightarrow> pagesOf r = 1"
  by (simp add: pagesOf_div PageSize_def)

text \<open>The page a merge rewrites is read back with a two-word request.\<close>

lemma read_last:
  assumes "bc_impl bc" "pages_ok bc" "inDev bc [a]" "0 < r" "r < PageSize"
  shows "bc_ReadBlocks bc (int r # [a]) = Ret (True, take r (bc_pages bc a))"
proof -
  have "arr_ok 3 [int r, a, 0]" using assms(4,5) pagesOf_small [of r] by (simp add: arr_ok_def)
  have u: "used [int r, a] = [a]" using assms(4,5) pagesOf_small by (simp add: used_def)
  have "arr_ok 2 [int r, a]" using assms(4,5) pagesOf_small [of r] by (simp add: arr_ok_def)
  from ReadBlocks_content [OF assms(1,2) this] show ?thesis
    using u assms(3) by (simp add: content_def pagesAt_def)
qed

lemma Merge_view:
  assumes inv: "sp_inv sp" and k: "sp_view sp k = Some v0"
    and fits: "int (pagesOf (length v0 + length v)) < sp_blockLimit sp"
    and room: "pagesOf (length v0 + length v) \<le> sp_freePages sp + length v0 div PageSize"
  shows "\<exists>sp'. sp_Merge sp k v = Ret (Success, sp') \<and> sp_inv sp' \<and> sp_view sp' = (sp_view sp)(k \<mapsto> v0 @ v)
    \<and> sp_freePages sp' + pagesOf (length v0 + length v) = sp_freePages sp + pagesOf (length v0)
    \<and> ds_R (sp_mapping sp') = ds_R (sp_mapping sp) \<and> ds_maxRows (sp_mapping sp') = ds_maxRows (sp_mapping sp)
    \<and> sp_next sp' = sp_next sp \<and> sp_blockLimit sp' = sp_blockLimit sp"
proof -
  note p = sp_inv_parts [OF inv]
  obtain arr where arr: "karr sp k = Some arr" "0 \<le> hd arr" "v0 = content (sp_ctl sp) arr"
    using k by (rule sp_view_SomeE)
  note s = karr_Some [OF arr(1)]
  note ok = p(7) [OF arr(1)]
  have sz: "hd arr = int (length v0)" using sp_view_Some(2) [OF inv arr(1,2)] arr(2,3) by simp
  have at: "sp_At sp k = Ret (ptr sp k)" by (rule sp_At_in [OF p(1)]) (use s in simp)
  have sl: "slice arr 0 1 = Some [hd arr]" by (rule slice_used(2) [OF ok arr(2)])
  define b where "b = length v0 div PageSize"
  define r where "r = length v0 mod PageSize"
  have br: "length v0 = b * PageSize + r" "r < PageSize" unfolding b_def r_def by simp_all
  have ints: "drop_bit PageSizeEx (hd arr) = int b" "hd arr mod int PageSize = int r"
    using pages_split [of "int (length v0)"] sz by (simp_all add: b_def r_def)
  define n where "n = pagesOf (r + length v)"
  have nb: "pagesOf (length v0 + length v) = b + n"
    using pagesOf_plus [of b "r + length v"] br(1) by (simp add: n_def add.assoc)
  have ns: "nat (hd arr + int (length v)) = length v0 + length v" using sz by simp
  let ?free = "bc_blockAddresses (sp_ctl sp)"
  have tf: "?free = take n ?free @ drop n ?free" "length (take n ?free) = nat (int n)"
    using take_free [of n sp] room nb by (simp_all add: b_def)
  have n0: "0 \<le> int n" by simp
  have ul: "length (used arr) = pagesOf (length v0)" using length_used [OF ok arr(2)] sz by simp
  have lenL: "int (length arr) = sp_blockLimit sp" using ok by (simp add: arr_ok_def)
  have pn: "b + length (take n ?free) = pagesOf (length v0 + length v)" using tf(2) nb by simp
  have usedn: "used arr = take (pagesOf (length v0)) (drop 1 arr)" using sz arr(2) by (simp add: used_def)
  have devu: "inDev (sp_ctl sp) (used arr)" by (rule p(8) [OF arr(1)])
  show ?thesis
  proof (cases "r = 0")
    case True
    have pg: "pagesOf (length v0) = b" using br True pagesOf_plus [of b 0] by simp
    have keep: "usedO (karr sp k) = used arr" using arr(1) by (simp add: usedO_def)
    have vl: "length v \<le> length (take n ?free) * PageSize"
      using tf(2) pagesOf_bounds [of "length v"] True by (simp add: n_def)
    obtain arr1 arr2 where a: "blit arr (1 + int b) (take n ?free) = Some arr1"
      "blit arr1 0 [int (length v0 + length v)] = Some arr2"
      "used arr2 = take b (drop 1 arr) @ take n ?free" "arr_ok (sp_blockLimit sp) arr2"
      "hd arr2 = int (length v0 + length v)"
      using merge_array [OF lenL fits pn] by auto
    have a3: "used arr2 = used arr @ take n ?free" using a(3) usedn pg by simp
    obtain sp1 sp2 where st: "sp_fill sp (ptr sp k) (1 + int b) (int n) v = Ret sp1"
      "sp_store sp1 (ptr sp k) 0 [int (length v0 + length v)] = Ret sp2"
      "updated sp sp2 k (used arr) [] (take n ?free) v arr2"
      using in_place [OF inv arr(1) keep tf n0 vl a(1,2) a3 a(4)] by auto
    have "sp_Merge sp k v = Ret (Success, sp2)"
      using s at sl arr(2) ints True ns nb fits st(1,2) sz
      by (simp add: sp_Merge_def sp_array_def hasKey_def Let_def)
    moreover have "sp_view sp2 = (sp_view sp)(k \<mapsto> pagesAt (sp_ctl sp) (used arr) @ v)"
    proof (rule updated_view [OF st(3) a3 _ _ devu p(4)])
      show "0 \<le> hd arr2" using a(5) by simp
      have "nat (hd arr2) = length v0 + length v" using a(5) by simp
      then show "nat (hd arr2) = length (used arr) * PageSize + length v" using ul pg br(1) True by simp
    qed
    moreover have "pagesAt (sp_ctl sp) (used arr) = v0"
    proof -
      have "v0 = take (nat (hd arr)) (pagesAt (sp_ctl sp) (used arr))"
        using arr(3) unfolding content_def .
      moreover have "length (pagesAt (sp_ctl sp) (used arr)) = nat (hd arr)"
        unfolding length_pagesAt [OF p(4) devu] ul pg sz nat_int using br(1) True by simp
      ultimately show ?thesis by simp
    qed
    ultimately show ?thesis
      using st(3) tf(2) nb pg by (intro exI [of _ sp2]) (simp add: updated_def)
  next
    case False
    have pg: "pagesOf (length v0) = Suc b" using br False pagesOf_plus [of b r] pagesOf_small [of r] by simp
    have "int (pagesOf (nat (hd arr))) < sp_blockLimit sp" using ok arr(2) by (simp add: arr_ok_def)
    then have bl: "Suc b < length arr" using sz pg lenL by simp
    define last where "last = arr ! Suc b"
    have usplit: "used arr = take b (drop 1 arr) @ [last]"
      using bl usedn pg by (simp add: last_def take_Suc_conv_app_nth)
    have keep: "usedO (karr sp k) = take b (drop 1 arr) @ [last]" using arr(1) usplit by (simp add: usedO_def)
    have dk: "inDev (sp_ctl sp) (take b (drop 1 arr))" "inDev (sp_ctl sp) [last]"
      using devu usplit by (auto simp: inDev_def)
    have sll: "slice arr (1 + int b) 1 = Some [last]" "slice arr (1 + int b) (nat 1) = Some [last]"
      using bl by (simp_all add: slice_def last_def nat_add_distrib take_Suc_conv_app_nth hd_drop_conv_nth take_Suc)
    have rd: "bc_ReadBlocks (sp_ctl sp) (int r # [last]) = Ret (True, take r (bc_pages (sp_ctl sp) last))"
      using read_last [OF p(3,4) dk(2), of r] False br(2) by simp
    let ?lv = "take r (bc_pages (sp_ctl sp) last)"
    have lvl: "length ?lv = r" using dk(2) p(4) br(2) by (simp add: inDev_def pages_ok_def)
    obtain q bs where qb: "sp_buffer sp = q # bs" using p(9) by (cases "sp_buffer sp") auto
    note qq = sp_popBuffer_in [OF p(1) qb]
    obtain arrq where aq: "sp_heap sp q = Some arrq" using qq(3) by (auto simp: spare_def)
    have lq: "length arrq = length arr"
      using p(1) aq s by (auto simp: ptr_ok_def heap_ok_def) (metis of_nat_eq_iff)
    let ?pre = "take (Suc b) arr"
    have spre: "slice arr 0 (nat (int b + 1)) = Some ?pre" using bl by (simp add: slice_def nat_add_distrib)
    define arr0 where "arr0 = ?pre @ drop (Suc b) arrq"
    have bq: "blit arrq 0 ?pre = Some arr0" using bl lq by (simp add: blit_def arr0_def min_def)
    have l0: "length arr0 = length arr" using length_blit [OF bq] lq by simp
    have l0L: "int (length arr0) = sp_blockLimit sp" using l0 lenL by simp
    have t0: "take b (drop 1 arr0) = take b (drop 1 arr)" using bl by (cases arr) (simp_all add: arr0_def)
    have vl: "length (?lv @ v) \<le> length (take n ?free) * PageSize"
      using tf(2) pagesOf_bounds [of "r + length v"] lvl by (simp add: n_def)
    obtain arr1 arr2 where a: "blit arr0 (1 + int b) (take n ?free) = Some arr1"
      "blit arr1 0 [int (length v0 + length v)] = Some arr2"
      "used arr2 = take b (drop 1 arr0) @ take n ?free" "arr_ok (sp_blockLimit sp) arr2"
      "hd arr2 = int (length v0 + length v)"
      using merge_array [OF l0L fits pn] by auto
    have a3: "used arr2 = take b (drop 1 arr) @ take n ?free" using a(3) t0 by simp
    have st0: "sp_store (sp\<lparr>sp_buffer := bs\<rparr>) q 0 ?pre = Ret (sp\<lparr>sp_buffer := bs, sp_heap := (sp_heap sp)(q \<mapsto> arr0)\<rparr>)"
      using sp_store_in [of "sp\<lparr>sp_buffer := bs\<rparr>" q arrq 0 ?pre arr0] aq bq by simp
    obtain sp3 sp4 sp5 sp6 where st: "sp_fill (sp\<lparr>sp_buffer := bs, sp_heap := (sp_heap sp)(q \<mapsto> arr0)\<rparr>) q (1 + int b) (int n) (?lv @ v) = Ret sp3"
      "sp_store sp3 q 0 [int (length v0 + length v)] = Ret sp4"
      "sp_release sp4 (ptr sp k) (1 + int b) 1 = Ret sp5"
      "sp_setAt sp5 k q = Ret sp6"
      "updated sp (sp6\<lparr>sp_buffer := sp_buffer sp6 @ [ptr sp k]\<rparr>) k (take b (drop 1 arr)) [last] (take n ?free) (?lv @ v) arr2"
      using swapped [OF inv arr(1) keep qb l0 tf n0 vl a(1,2) sll(2) a3 a(4)] by auto
    let ?sp' = "sp6\<lparr>sp_buffer := sp_buffer sp6 @ [ptr sp k]\<rparr>"
    have mg: "sp_Merge sp k v = Ret (Success, ?sp')"
      using s at sl arr(2) ints False ns nb fits st(1-4) sz sll(1) rd qq(1) spre st0
      by (simp add: sp_Merge_def sp_array_def hasKey_def Let_def add.commute)
    have lk: "length (take b (drop 1 arr)) = b" using bl by simp
    have vw: "sp_view ?sp' = (sp_view sp)(k \<mapsto> pagesAt (sp_ctl sp) (take b (drop 1 arr)) @ (?lv @ v))"
    proof (rule updated_view [OF st(5) a3 _ _ dk(1) p(4)])
      show "0 \<le> hd arr2" using a(5) by simp
      have "nat (hd arr2) = length v0 + length v" using a(5) by simp
      then show "nat (hd arr2) = length (take b (drop 1 arr)) * PageSize + length (?lv @ v)"
        using lk br(1) lvl by simp
    qed
    have v0: "pagesAt (sp_ctl sp) (take b (drop 1 arr)) @ ?lv = v0"
    proof -
      have "v0 = take (b * PageSize + r) (pagesAt (sp_ctl sp) (take b (drop 1 arr)) @ bc_pages (sp_ctl sp) last)"
      proof -
        have "v0 = take (nat (hd arr)) (pagesAt (sp_ctl sp) (used arr))"
          using arr(3) unfolding content_def .
        moreover have "nat (hd arr) = b * PageSize + r" unfolding sz nat_int by (rule br(1))
        ultimately show ?thesis unfolding usplit by (simp add: pagesAt_def)
      qed
      also have "\<dots> = pagesAt (sp_ctl sp) (take b (drop 1 arr)) @ ?lv"
        using length_pagesAt [OF p(4) dk(1)] lk by simp
      finally show ?thesis by simp
    qed
    have "pagesAt (sp_ctl sp) (take b (drop 1 arr)) @ (?lv @ v) = v0 @ v"
      unfolding append_assoc [symmetric] v0 ..
    then have "sp_view ?sp' = (sp_view sp)(k \<mapsto> v0 @ v)" using vw by (simp only:)
    then show ?thesis
      using mg st(5) tf(2) nb pg by (intro exI [of _ ?sp']) (simp add: updated_def)
  qed
qed

end
