(* ===== verification/KeyValueStore.thy ===== *)
theory KeyValueStore
  imports BlockRefine
begin

text \<open>
  The contract of \<open>Helper::KeyValueIO\<close> (AnnService/inc/Helper/KeyValueIO.h), the interface the
  posting searcher and \<open>PersistentBuffer\<close> work against, as a locale; its clients; and \<open>SPDKIO\<close> as a
  provider of it.
\<close>

section \<open>Clients\<close>

datatype kvOp = KvPut int bytes | KvMerge int bytes | KvDelete int

fun kvDo ::
  "('s \<Rightarrow> int \<Rightarrow> bytes \<Rightarrow> (ErrorCode \<times> 's) outcome) \<Rightarrow> ('s \<Rightarrow> int \<Rightarrow> bytes \<Rightarrow> (ErrorCode \<times> 's) outcome)
     \<Rightarrow> ('s \<Rightarrow> int \<Rightarrow> (ErrorCode \<times> 's) outcome) \<Rightarrow> kvOp \<Rightarrow> 's \<Rightarrow> (ErrorCode \<times> 's) outcome" where
  "kvDo put merge del (KvPut k v) s = put s k v"
| "kvDo put merge del (KvMerge k v) s = merge s k v"
| "kvDo put merge del (KvDelete k) s = del s k"

text \<open>A list of operations, stopped by the first error.\<close>

fun kvRun ::
  "('s \<Rightarrow> int \<Rightarrow> bytes \<Rightarrow> (ErrorCode \<times> 's) outcome) \<Rightarrow> ('s \<Rightarrow> int \<Rightarrow> bytes \<Rightarrow> (ErrorCode \<times> 's) outcome)
     \<Rightarrow> ('s \<Rightarrow> int \<Rightarrow> (ErrorCode \<times> 's) outcome) \<Rightarrow> kvOp list \<Rightarrow> 's \<Rightarrow> (ErrorCode \<times> 's) outcome" where
  "kvRun put merge del [] s = Ret (Success, s)"
| "kvRun put merge del (op # ops) s =
     andThen (kvDo put merge del op s) (\<lambda>(ec, s').
       if ec = Success then kvRun put merge del ops s' else Ret (ec, s'))"

text \<open>The same operations on a plain map.\<close>

fun kvSem :: "kvOp \<Rightarrow> (int \<Rightarrow> bytes option) \<Rightarrow> int \<Rightarrow> bytes option" where
  "kvSem (KvPut k v) m = m(k \<mapsto> v)"
| "kvSem (KvMerge k v) m = (case m k of None \<Rightarrow> m | Some v0 \<Rightarrow> m(k \<mapsto> v0 @ v))"
| "kvSem (KvDelete k) m = m(k := None)"

text \<open>The states in which an operation is admissible, and the runs whose every step is.\<close>

fun kvCan ::
  "('s \<Rightarrow> int \<Rightarrow> bytes option) \<Rightarrow> ('s \<Rightarrow> int \<Rightarrow> bytes \<Rightarrow> bool) \<Rightarrow> ('s \<Rightarrow> int \<Rightarrow> bytes \<Rightarrow> bool) \<Rightarrow> kvOp \<Rightarrow> 's \<Rightarrow> bool" where
  "kvCan view canPut canMerge (KvPut k v) s = canPut s k v"
| "kvCan view canPut canMerge (KvMerge k v) s = (view s k \<noteq> None \<and> canMerge s k v)"
| "kvCan view canPut canMerge (KvDelete k) s = (view s k \<noteq> None)"

fun kvCanRun :: "(kvOp \<Rightarrow> 's \<Rightarrow> bool) \<Rightarrow> (kvOp \<Rightarrow> 's \<Rightarrow> (ErrorCode \<times> 's) outcome) \<Rightarrow> kvOp list \<Rightarrow> 's \<Rightarrow> bool" where
  "kvCanRun can doOp [] s = True"
| "kvCanRun can doOp (op # ops) s =
     (can op s \<and> (case doOp op s of Ret (ec, s') \<Rightarrow> ec = Success \<longrightarrow> kvCanRun can doOp ops s' | _ \<Rightarrow> True))"

text \<open>\<open>PersistentBuffer\<close> (AnnService/inc/Core/SPANN/PersistentBuffer.h): assignments under increasing ids.\<close>

record 's persistentBuffer =
  pb_db :: 's
  pb_size :: int

definition pb_GetNewAssignmentID :: "'s persistentBuffer \<Rightarrow> int \<times> 's persistentBuffer" where
  "pb_GetNewAssignmentID pb = (pb_size pb, pb\<lparr>pb_size := pb_size pb + 1\<rparr>)"

definition pb_PutAssignment ::
  "('s \<Rightarrow> int \<Rightarrow> bytes \<Rightarrow> (ErrorCode \<times> 's) outcome) \<Rightarrow> 's persistentBuffer \<Rightarrow> bytes
     \<Rightarrow> (int \<times> 's persistentBuffer) outcome" where
  "pb_PutAssignment put pb assignment =
     (let (assignmentID, pb1) = pb_GetNewAssignmentID pb
      in andThen (put (pb_db pb1) assignmentID assignment) (\<lambda>(ec, db).
           Ret (assignmentID, pb1\<lparr>pb_db := db\<rparr>)))"

definition pb_GetAssignment ::
  "('s \<Rightarrow> int \<Rightarrow> (ErrorCode \<times> bytes) outcome) \<Rightarrow> 's persistentBuffer \<Rightarrow> int \<Rightarrow> bytes outcome" where
  "pb_GetAssignment get pb assignmentID = andThen (get (pb_db pb) assignmentID) (\<lambda>(ec, v). Ret v)"

definition pb_GetCurrentAssignmentID :: "'s persistentBuffer \<Rightarrow> int" where
  "pb_GetCurrentAssignmentID pb = pb_size pb"

section \<open>The contract\<close>

locale kv_store =
  fixes get :: "'s \<Rightarrow> int \<Rightarrow> (ErrorCode \<times> bytes) outcome"
    and put :: "'s \<Rightarrow> int \<Rightarrow> bytes \<Rightarrow> (ErrorCode \<times> 's) outcome"
    and merge :: "'s \<Rightarrow> int \<Rightarrow> bytes \<Rightarrow> (ErrorCode \<times> 's) outcome"
    and del :: "'s \<Rightarrow> int \<Rightarrow> (ErrorCode \<times> 's) outcome"
    and inv :: "'s \<Rightarrow> bool"
    and view :: "'s \<Rightarrow> int \<Rightarrow> bytes option"
    and canPut :: "'s \<Rightarrow> int \<Rightarrow> bytes \<Rightarrow> bool"
    and canMerge :: "'s \<Rightarrow> int \<Rightarrow> bytes \<Rightarrow> bool"
  assumes get_law: "inv s \<Longrightarrow> view s k = Some v \<Longrightarrow> get s k = Ret (Success, v)"
    and put_law: "inv s \<Longrightarrow> canPut s k v \<Longrightarrow>
      \<exists>s'. put s k v = Ret (Success, s') \<and> inv s' \<and> view s' = (view s)(k \<mapsto> v)"
    and merge_law: "inv s \<Longrightarrow> view s k = Some v0 \<Longrightarrow> canMerge s k v \<Longrightarrow>
      \<exists>s'. merge s k v = Ret (Success, s') \<and> inv s' \<and> view s' = (view s)(k \<mapsto> v0 @ v)"
    and del_law: "inv s \<Longrightarrow> view s k = Some v \<Longrightarrow>
      \<exists>s'. del s k = Ret (Success, s') \<and> inv s' \<and> view s' = (view s)(k := None)"
begin

lemma do_refines:
  "inv s \<Longrightarrow> kvCan view canPut canMerge op s \<Longrightarrow>
    \<exists>s'. kvDo put merge del op s = Ret (Success, s') \<and> inv s' \<and> view s' = kvSem op (view s)"
proof (cases op)
  case (KvPut k v)
  then show "inv s \<Longrightarrow> kvCan view canPut canMerge op s \<Longrightarrow> ?thesis" using put_law by simp
next
  case (KvMerge k v)
  assume i: "inv s" and c: "kvCan view canPut canMerge op s"
  from c KvMerge obtain v0 where "view s k = Some v0" "canMerge s k v" by auto
  with merge_law [OF i] KvMerge show ?thesis by simp
next
  case (KvDelete k)
  assume i: "inv s" and c: "kvCan view canPut canMerge op s"
  from c KvDelete obtain v where "view s k = Some v" by auto
  with del_law [OF i] KvDelete show ?thesis by simp
qed

lemma run_refines:
  "inv s \<Longrightarrow> kvCanRun (kvCan view canPut canMerge) (kvDo put merge del) ops s \<Longrightarrow>
    \<exists>s'. kvRun put merge del ops s = Ret (Success, s') \<and> inv s' \<and> view s' = fold kvSem ops (view s)"
proof (induction ops arbitrary: s)
  case (Cons op ops)
  then have c: "kvCan view canPut canMerge op s" by simp
  obtain s1 where s1: "kvDo put merge del op s = Ret (Success, s1)" "inv s1" "view s1 = kvSem op (view s)"
    using do_refines [OF Cons.prems(1) c] by blast
  then have "kvCanRun (kvCan view canPut canMerge) (kvDo put merge del) ops s1" using Cons.prems(2) by simp
  from Cons.IH [OF s1(2) this] s1 show ?case by simp
qed simp

lemma pb_put:
  assumes "inv (pb_db pb)" "canPut (pb_db pb) (pb_size pb) a"
  shows "\<exists>pb'. pb_PutAssignment put pb a = Ret (pb_size pb, pb') \<and> inv (pb_db pb')
    \<and> pb_size pb' = pb_size pb + 1 \<and> pb_GetAssignment get pb' (pb_size pb) = Ret a
    \<and> (\<forall>i v. i \<noteq> pb_size pb \<longrightarrow> view (pb_db pb) i = Some v \<longrightarrow> pb_GetAssignment get pb' i = Ret v)"
proof -
  obtain s' where s': "put (pb_db pb) (pb_size pb) a = Ret (Success, s')" "inv s'"
    "view s' = (view (pb_db pb))(pb_size pb \<mapsto> a)"
    using put_law [OF assms] by auto
  have "get s' (pb_size pb) = Ret (Success, a)" using get_law [OF s'(2), of "pb_size pb" a] s'(3) by simp
  moreover have "get s' i = Ret (Success, v)" if "i \<noteq> pb_size pb" "view (pb_db pb) i = Some v" for i v
    using get_law [OF s'(2), of i v] s'(3) that by simp
  ultimately show ?thesis using s'
    by (auto simp: pb_PutAssignment_def pb_GetNewAssignmentID_def pb_GetAssignment_def)
qed

end

text \<open>
  A store with measurable room: \<open>roomy s b ns\<close> promises that postings of these lengths can be put one after
  the other under any keys below \<open>b\<close>. \<open>multi\<close> is the parallel read.
\<close>

locale kv_room = kv_store get put merge del inv view canPut canMerge
  for get :: "'s \<Rightarrow> int \<Rightarrow> (ErrorCode \<times> bytes) outcome"
    and put merge :: "'s \<Rightarrow> int \<Rightarrow> bytes \<Rightarrow> (ErrorCode \<times> 's) outcome"
    and del :: "'s \<Rightarrow> int \<Rightarrow> (ErrorCode \<times> 's) outcome"
    and inv :: "'s \<Rightarrow> bool"
    and view :: "'s \<Rightarrow> int \<Rightarrow> bytes option"
    and canPut canMerge :: "'s \<Rightarrow> int \<Rightarrow> bytes \<Rightarrow> bool" +
  fixes multi :: "'s \<Rightarrow> int list \<Rightarrow> (ErrorCode \<times> bytes list) outcome"
    and roomy :: "'s \<Rightarrow> int \<Rightarrow> nat list \<Rightarrow> bool"
  assumes multi_law: "inv s \<Longrightarrow> list_all2 (\<lambda>k v. view s k = Some v) ks vs \<Longrightarrow> multi s ks = Ret (Success, vs)"
    and roomy_can: "inv s \<Longrightarrow> roomy s b (length v # ns) \<Longrightarrow> 0 \<le> k \<Longrightarrow> k < b \<Longrightarrow> canPut s k v"
    and roomy_put: "inv s \<Longrightarrow> roomy s b (length v # ns) \<Longrightarrow> 0 \<le> k \<Longrightarrow> k < b \<Longrightarrow>
      put s k v = Ret (Success, s') \<Longrightarrow> roomy s' b ns"
begin

lemma put_roomy:
  assumes "inv s" "roomy s b (length v # ns)" "0 \<le> k" "k < b"
  shows "\<exists>s'. put s k v = Ret (Success, s') \<and> inv s' \<and> view s' = (view s)(k \<mapsto> v) \<and> roomy s' b ns"
proof -
  obtain s' where "put s k v = Ret (Success, s')" "inv s'" "view s' = (view s)(k \<mapsto> v)"
    using put_law [OF assms(1) roomy_can [OF assms]] by auto
  then show ?thesis using roomy_put [OF assms] by blast
qed

end

section \<open>SPDKIO provides it\<close>

definition sp_canPut :: "spdkio \<Rightarrow> int \<Rightarrow> bytes \<Rightarrow> bool" where
  "sp_canPut sp k v \<longleftrightarrow> 0 \<le> k \<and> (k < ds_R (sp_mapping sp) \<or> k + 1 \<le> ds_maxRows (sp_mapping sp))
     \<and> sp_next sp < noArray \<and> int (pagesOf (length v)) < sp_blockLimit sp
     \<and> pagesOf (length v) \<le> sp_freePages sp"

definition sp_canMerge :: "spdkio \<Rightarrow> int \<Rightarrow> bytes \<Rightarrow> bool" where
  "sp_canMerge sp k v \<longleftrightarrow> (case sp_view sp k of None \<Rightarrow> False | Some v0 \<Rightarrow>
     int (pagesOf (length v0 + length v)) < sp_blockLimit sp
     \<and> pagesOf (length v0 + length v) \<le> sp_freePages sp + length v0 div PageSize)"

interpretation spkv: kv_store sp_Get sp_Put sp_Merge sp_Delete sp_inv sp_view sp_canPut sp_canMerge
proof unfold_locales
  show "sp_inv s \<Longrightarrow> sp_view s k = Some v \<Longrightarrow> sp_Get s k = Ret (Success, v)" for s k v by (rule Get_view)
  show "sp_inv s \<Longrightarrow> sp_canPut s k v \<Longrightarrow>
      \<exists>s'. sp_Put s k v = Ret (Success, s') \<and> sp_inv s' \<and> sp_view s' = (sp_view s)(k \<mapsto> v)" for s k v
    using Put_view [of s k v] by (auto simp: sp_canPut_def)
  show "sp_inv s \<Longrightarrow> sp_view s k = Some v0 \<Longrightarrow> sp_canMerge s k v \<Longrightarrow>
      \<exists>s'. sp_Merge s k v = Ret (Success, s') \<and> sp_inv s' \<and> sp_view s' = (sp_view s)(k \<mapsto> v0 @ v)" for s k v0 v
    using Merge_view [of s k v0 v] by (auto simp: sp_canMerge_def)
  show "sp_inv s \<Longrightarrow> sp_view s k = Some v \<Longrightarrow>
      \<exists>s'. sp_Delete s k = Ret (Success, s') \<and> sp_inv s' \<and> sp_view s' = (sp_view s)(k := None)" for s k v
    using Delete_view [of s k v] by auto
qed

text \<open>The device whose reads all arrive in time.\<close>

definition sp_MultiGetInTime :: "spdkio \<Rightarrow> int list \<Rightarrow> (ErrorCode \<times> bytes list) outcome" where
  "sp_MultiGetInTime sp keys = sp_MultiGet sp (\<lambda>_. False) keys"

definition sp_roomy :: "spdkio \<Rightarrow> int \<Rightarrow> nat list \<Rightarrow> bool" where
  "sp_roomy sp b ns \<longleftrightarrow> b \<le> ds_maxRows (sp_mapping sp) \<and> sp_next sp + int (length ns) \<le> noArray
     \<and> (\<forall>n \<in> set ns. int (pagesOf n) < sp_blockLimit sp) \<and> sum_list (map pagesOf ns) \<le> sp_freePages sp"

interpretation sproom: kv_room sp_Get sp_Put sp_Merge sp_Delete sp_inv sp_view sp_canPut sp_canMerge
  sp_MultiGetInTime sp_roomy
proof unfold_locales
  fix s ks vs b v ns k s'
  assume inv: "sp_inv s"
  show "sp_MultiGetInTime s ks = Ret (Success, vs)" if "list_all2 (\<lambda>k v. sp_view s k = Some v) ks vs"
    using MultiGet_view [OF inv that, of "\<lambda>_. False"] that list_all2_lengthD [OF that]
    by (auto simp: sp_MultiGetInTime_def lateVals_def intro!: nth_equalityI)
  show c: "sp_canPut s k v" if "sp_roomy s b (length v # ns)" "0 \<le> k" "k < b"
    using that by (simp add: sp_roomy_def sp_canPut_def)
  show "sp_roomy s' b ns"
    if "sp_roomy s b (length v # ns)" "0 \<le> k" "k < b" "sp_Put s k v = Ret (Success, s')"
    using Put_view [OF inv, of k v] that c [OF that(1-3)] by (auto simp: sp_roomy_def sp_canPut_def)
qed

section \<open>A small store\<close>

text \<open>An empty store of ten pages, three pages per posting and four spare arrays.\<close>

definition spCtlSample :: blockCtl where
  "spCtlSample = \<lparr>bc_useMemImpl = True, bc_useSsdImpl = False, bc_blockAddresses = [0 .. 9],
     bc_pages = (\<lambda>_. replicate PageSize 0), bc_numBlocks = 10, bc_numInitCalled = 1, bc_batchSize = 64,
     bc_over = (\<lambda>_. 7)\<rparr>"

definition spMapSample :: dataset where
  "spMapSample = (case ds_Initialize (ds_new 8) 0 1 4 100 None True 0 (- 1) of Ret d \<Rightarrow> d | _ \<Rightarrow> ds_new 8)"

definition spSample :: spdkio where
  "spSample = \<lparr>sp_blockLimit = 4, sp_mapping = spMapSample, sp_bufferLimit = 4, sp_buffer = [0, 1, 2, 3],
     sp_ctl = spCtlSample, sp_heap = (\<lambda>p. if 0 \<le> p \<and> p < 4 then Some [9, 9, 9, 9] else None),
     sp_next = 4, sp_junk = 9, sp_shutdownCalled = False\<rparr>"

lemma spMapSample: "ds_inv 1 8 spMapSample" "ds_R spMapSample = 0" "ds_maxRows spMapSample = 100"
  using ds_Initialize_blank [of 0 "ds_new 8" 1 4 100 True]
  by (auto simp: spMapSample_def ds_new_def ds_Initialize_def Let_def)

lemma spSample_view: "sp_view spSample k = None" "karr spSample k = None"
  by (simp_all add: sp_view_def karr_def hasKey_def spSample_def spMapSample)

lemma spSample_inv: "sp_inv spSample"
proof -
  have k: "\<not> hasKey spSample k" for k by (simp add: hasKey_def spSample_def spMapSample)
  have h: "heap_ok spSample"
    by (auto simp: heap_ok_def spSample_def noArray_def split: if_splits)
  have "ptr_ok spSample"
    unfolding ptr_ok_def
  proof (intro conjI)
    show "ds_inv 1 8 (sp_mapping spSample)" using spMapSample(1) by (simp add: spSample_def)
    show "\<forall>p \<in> set (sp_buffer spSample). spare spSample p"
      using k by (auto simp: spare_def) (auto simp: spSample_def)
    show "distinct (sp_buffer spSample)" by (simp add: spSample_def)
  qed (use k h in simp_all)
  moreover have "blk_ok spCtlSample (karr spSample)"
    by (auto simp: blk_ok_def spSample_view usedO_def bc_impl_def pages_ok_def inDev_def spCtlSample_def)
  moreover have "sp_ctl spSample = spCtlSample" by (simp add: spSample_def)
  ultimately show ?thesis by (simp add: sp_inv_def spSample_view) (simp add: spSample_def)
qed

lemma pagesOf_1: "0 < n \<Longrightarrow> n \<le> 4096 \<Longrightarrow> pagesOf n = 1"
  by (simp add: pagesOf_div PageSize_def)

lemma spSample_canPut: "v \<noteq> [] \<Longrightarrow> length v \<le> 4096 \<Longrightarrow> 0 \<le> k \<Longrightarrow> k < 100 \<Longrightarrow> sp_canPut spSample k v"
  using pagesOf_1 [of "length v"]
  by (simp add: sp_canPut_def sp_freePages_def bc_RemainBlocks_def spSample_def spMapSample spCtlSample_def noArray_def)

text \<open>The sample with the four bytes 1 to 4 under key 2.\<close>

lemma spSample_one:
  "\<exists>sp. sp_Put spSample 2 [1, 2, 3, 4] = Ret (Success, sp) \<and> sp_inv sp \<and> sp_view sp = [2 \<mapsto> [1, 2, 3, 4]]
    \<and> sp_freePages sp = 9 \<and> sp_blockLimit sp = 4 \<and> sp_next sp \<le> 5"
proof -
  have c: "sp_canPut spSample 2 [1, 2, 3, 4]" by (rule spSample_canPut) simp_all
  have "sp_pagesOf spSample 2 = 0" by (simp add: sp_pagesOf_def spSample_view)
  moreover have "sp_freePages spSample = 10"
    by (simp add: sp_freePages_def bc_RemainBlocks_def spSample_def spCtlSample_def)
  moreover have "sp_view spSample = Map.empty" by (rule ext) (rule spSample_view)
  moreover have "sp_blockLimit spSample = 4" "sp_next spSample = 4" by (simp_all add: spSample_def)
  ultimately show ?thesis
    using Put_view [OF spSample_inv, of 2 "[1, 2, 3, 4]"] c pagesOf_1 [of "length [1 :: byte, 2, 3, 4]"]
    by (auto simp: sp_canPut_def)
qed

end
