(* ===== verification/BlockClaims.thy ===== *)
theory BlockClaims
  imports KeyValueStore
begin

text \<open>
  The properties of the block store: refinement of its operations, alone and in sequence, the
  account of pages, the answers of a parallel read, and what happens at the limits.
\<close>

text \<open>
  C20 \<open>Put\<close> stores exactly the given bytes under the key and leaves every other posting as it was,
  whether the key is new, was deleted or is overwritten, and whatever the pages held before; the
  store stays well-formed (no page is owned twice or both owned and free, and none is lost), and
  the pages of the old value come back to the free queue.
\<close>

theorem sp_Put_refines:
  assumes inv: "sp_inv sp" and k: "0 \<le> k" "k < ds_R (sp_mapping sp) \<or> k + 1 \<le> ds_maxRows (sp_mapping sp)"
    and nx: "sp_next sp < noArray" and fits: "int (pagesOf (length v)) < sp_blockLimit sp"
    and room: "pagesOf (length v) \<le> sp_freePages sp"
  shows "\<exists>sp'. sp_Put sp k v = Ret (Success, sp') \<and> sp_inv sp' \<and> sp_view sp' = (sp_view sp)(k \<mapsto> v)
    \<and> sp_freePages sp' + pagesOf (length v) = sp_freePages sp + sp_pagesOf sp k"
  using Put_view [OF assms] by blast

theorem sp_Put_refines_witness:
  "\<exists>sp'. sp_Put spSample 2 [1, 2, 3, 4] = Ret (Success, sp') \<and> sp_view sp' = [2 \<mapsto> [1, 2, 3, 4]]"
proof -
  have c: "sp_canPut spSample 2 [1, 2, 3, 4]" by (rule spSample_canPut) simp_all
  have "sp_view spSample = Map.empty" by (rule ext) (rule spSample_view)
  then show ?thesis
    using sp_Put_refines [OF spSample_inv, of 2 "[1, 2, 3, 4]"] c by (auto simp: sp_canPut_def)
qed

text \<open>
  C19 \<open>Merge\<close> appends the given bytes to a stored value and changes nothing else, both when the
  last page is rewritten in a copied address array and when the value ended on a page boundary
  and the new pages are added in place; the store stays well-formed and the pages balance.
\<close>

theorem sp_Merge_refines:
  assumes inv: "sp_inv sp" and k: "sp_view sp k = Some v0"
    and fits: "int (pagesOf (length v0 + length v)) < sp_blockLimit sp"
    and room: "pagesOf (length v0 + length v) \<le> sp_freePages sp + length v0 div PageSize"
  shows "\<exists>sp'. sp_Merge sp k v = Ret (Success, sp') \<and> sp_inv sp' \<and> sp_view sp' = (sp_view sp)(k \<mapsto> v0 @ v)
    \<and> sp_freePages sp' + pagesOf (length v0 + length v) = sp_freePages sp + pagesOf (length v0)"
  using Merge_view [OF assms] by blast

theorem sp_Merge_refines_witness:
  "\<exists>sp sp'. sp_Put spSample 2 [1, 2, 3, 4] = Ret (Success, sp) \<and> sp_Merge sp 2 [5, 6] = Ret (Success, sp')
     \<and> sp_view sp' 2 = Some [1, 2, 3, 4, 5, 6]"
proof -
  obtain sp where sp: "sp_Put spSample 2 [1, 2, 3, 4] = Ret (Success, sp)" "sp_inv sp"
    "sp_view sp = [2 \<mapsto> [1, 2, 3, 4]]" "sp_freePages sp = 9" "sp_blockLimit sp = 4"
    using spSample_one by auto
  have "pagesOf (length [1 :: byte, 2, 3, 4] + length [5 :: byte, 6]) = 1" by (rule pagesOf_1) simp_all
  then show ?thesis
    using sp_Merge_refines [OF sp(2), of 2 "[1, 2, 3, 4]" "[5, 6]"] sp by auto
qed

text \<open>
  C1 Any sequence of \<open>Put\<close>, \<open>Merge\<close> and \<open>Delete\<close> calls, each admissible where it is made, behaves
  as the same sequence on a plain map from posting ids to byte strings, and afterwards \<open>Get\<close>
  answers what the map holds.
\<close>

theorem sp_run_refines:
  assumes "sp_inv sp"
    and "kvCanRun (kvCan sp_view sp_canPut sp_canMerge) (kvDo sp_Put sp_Merge sp_Delete) ops sp"
  shows "\<exists>sp'. kvRun sp_Put sp_Merge sp_Delete ops sp = Ret (Success, sp') \<and> sp_inv sp'
    \<and> sp_view sp' = fold kvSem ops (sp_view sp)
    \<and> (\<forall>k. case fold kvSem ops (sp_view sp) k of None \<Rightarrow> True | Some v \<Rightarrow> sp_Get sp' k = Ret (Success, v))"
proof -
  obtain sp' where r: "kvRun sp_Put sp_Merge sp_Delete ops sp = Ret (Success, sp')" "sp_inv sp'"
    "sp_view sp' = fold kvSem ops (sp_view sp)"
    using spkv.run_refines [OF assms] by blast
  have "case sp_view sp' k of None \<Rightarrow> True | Some v \<Rightarrow> sp_Get sp' k = Ret (Success, v)" for k
    using spkv.get_law [OF r(2)] by (simp split: option.split)
  with r show ?thesis by auto
qed

theorem sp_run_refines_witness:
  "\<exists>sp'. kvRun sp_Put sp_Merge sp_Delete [KvPut 2 [1, 2, 3, 4], KvMerge 2 [5, 6], KvDelete 2] spSample
     = Ret (Success, sp') \<and> sp_view sp' = Map.empty"
proof -
  let ?ops = "[KvPut 2 [1, 2, 3, 4], KvMerge 2 [5, 6], KvDelete 2]"
  have e: "sp_view spSample = Map.empty" by (rule ext) (rule spSample_view)
  have c: "sp_canPut spSample 2 [1, 2, 3, 4]" by (rule spSample_canPut) simp_all
  obtain sp where sp: "sp_Put spSample 2 [1, 2, 3, 4] = Ret (Success, sp)" "sp_inv sp"
    "sp_view sp = [2 \<mapsto> [1, 2, 3, 4]]" "sp_freePages sp = 9" "sp_blockLimit sp = 4"
    using spSample_one by auto
  have "pagesOf (length [1 :: byte, 2, 3, 4] + length [5 :: byte, 6]) = 1" by (rule pagesOf_1) simp_all
  then have m: "sp_canMerge sp 2 [5, 6]" using sp by (simp add: sp_canMerge_def)
  obtain sp1 where sp1: "sp_Merge sp 2 [5, 6] = Ret (Success, sp1)" "sp_view sp1 = [2 \<mapsto> [1, 2, 3, 4, 5, 6]]"
    using spkv.merge_law [OF sp(2) _ m, of "[1, 2, 3, 4]"] sp(3) by auto
  have "kvCanRun (kvCan sp_view sp_canPut sp_canMerge) (kvDo sp_Put sp_Merge sp_Delete) ?ops spSample"
    using c sp(1,3) m sp1 by (simp split: outcome.split)
  from sp_run_refines [OF spSample_inv this] e show ?thesis by auto
qed

text \<open>
  C33 A parallel read answers, in the order of the keys, each key's stored bytes; with the SSD
  implementation a posting that missed the timeout is answered by the empty string, and with
  the memory implementation none is.
\<close>

theorem sp_MultiGet_values:
  assumes "sp_inv sp" "list_all2 (\<lambda>k v. sp_view sp k = Some v) ks vs"
  shows "\<exists>out. sp_MultiGet sp late ks = Ret (Success, out) \<and> length out = length ks
    \<and> (\<forall>i < length ks. out ! i = (if late i \<and> \<not> bc_useMemImpl (sp_ctl sp) then [] else vs ! i))"
proof -
  have "length vs = length ks" using assms(2) by (simp add: list_all2_lengthD)
  then show ?thesis using MultiGet_view [OF assms, of late] by (simp add: lateVals_def)
qed

theorem sp_MultiGet_values_witness:
  "\<exists>sp. sp_Put spSample 2 [1, 2, 3, 4] = Ret (Success, sp)
     \<and> (\<exists>out. sp_MultiGet sp (\<lambda>_. False) [2, 2] = Ret (Success, out) \<and> out ! 1 = [1, 2, 3, 4])"
proof -
  obtain sp where sp: "sp_Put spSample 2 [1, 2, 3, 4] = Ret (Success, sp)" "sp_inv sp"
    "sp_view sp = [2 \<mapsto> [1, 2, 3, 4]]"
    using spSample_one by auto
  show ?thesis
    using sp sp_MultiGet_values [OF sp(2), of "[2, 2]" "[[1, 2, 3, 4], [1, 2, 3, 4]]" "\<lambda>_. False"] by auto
qed

lemma Merge_too_long:
  assumes inv: "sp_inv sp" and k: "sp_view sp k = Some v0"
    and big: "int (pagesOf (length v0 + length v)) \<ge> sp_blockLimit sp"
  shows "sp_Merge sp k v = Ret (Fail, sp)"
proof -
  note p = sp_inv_parts [OF inv]
  obtain arr where arr: "karr sp k = Some arr" "0 \<le> hd arr" "v0 = content (sp_ctl sp) arr"
    using k by (rule sp_view_SomeE)
  note s = karr_Some [OF arr(1)]
  have sz: "hd arr = int (length v0)" using sp_view_Some(2) [OF inv arr(1,2)] arr(2,3) by simp
  have at: "sp_At sp k = Ret (ptr sp k)" by (rule sp_At_in [OF p(1)]) (use s in simp)
  have sl: "slice arr 0 1 = Some [hd arr]" by (rule slice_used(2) [OF p(7) [OF arr(1)] arr(2)])
  have "nat (hd arr + int (length v)) = length v0 + length v" unfolding sz by simp
  then show ?thesis
    using s at sl arr(2) big by (simp add: sp_Merge_def sp_array_def hasKey_def Let_def)
qed

text \<open>
  C34 A value of more pages than an address array has room for is refused with \<open>Fail\<close>, by \<open>Put\<close> and by
  \<open>Merge\<close>, and the store is left as it was.
\<close>

theorem sp_too_long_refused:
  "(int (pagesOf (length w)) \<ge> sp_blockLimit sp \<longrightarrow> sp_Put sp k w = Ret (Fail, sp))
   \<and> (sp_inv sp \<and> sp_view sp k = Some v0 \<and> int (pagesOf (length v0 + length v)) \<ge> sp_blockLimit sp
      \<longrightarrow> sp_Merge sp k v = Ret (Fail, sp))"
  using Merge_too_long [of sp k v0 v] by (simp add: sp_Put_def Let_def)

theorem sp_too_long_refused_witness:
  "sp_Put spSample 2 (replicate 16384 0) = Ret (Fail, spSample)
   \<and> (\<exists>sp. sp_Put spSample 2 [1, 2, 3, 4] = Ret (Success, sp)
        \<and> sp_Merge sp 2 (replicate 16384 0) = Ret (Fail, sp))"
proof -
  obtain sp where sp: "sp_Put spSample 2 [1, 2, 3, 4] = Ret (Success, sp)" "sp_inv sp"
    "sp_view sp = [2 \<mapsto> [1, 2, 3, 4]]" "sp_freePages sp = 9" "sp_blockLimit sp = 4"
    using spSample_one by auto
  have "pagesOf (length [1 :: byte, 2, 3, 4] + length (replicate 16384 (0 :: byte))) = 5"
    by (simp add: pagesOf_div PageSize_def)
  then have "sp_Merge sp 2 (replicate 16384 0) = Ret (Fail, sp)"
    using sp_too_long_refused [of sp "[]" 2 "[1, 2, 3, 4]" "replicate 16384 0"] sp by simp
  moreover have "pagesOf (length (replicate 16384 (0 :: byte))) = 4"
    by (simp add: pagesOf_div PageSize_def)
  then have "sp_Put spSample 2 (replicate 16384 0) = Ret (Fail, spSample)"
    using sp_too_long_refused [of spSample "replicate 16384 0" 2 "[]" "[]"] by (simp add: spSample_def)
  ultimately show ?thesis using sp(1) by blast
qed

lemma Put_hangs:
  assumes inv: "sp_inv sp" and k: "0 \<le> k" "k < ds_R (sp_mapping sp) \<or> k + 1 \<le> ds_maxRows (sp_mapping sp)"
    and nx: "sp_next sp < noArray" and fits: "int (pagesOf (length v)) < sp_blockLimit sp"
    and full: "sp_freePages sp < pagesOf (length v)"
  shows "sp_Put sp k v = Hang"
proof -
  obtain sp1 arr where r: "sp_reserve sp k = Ret sp1" "sp_inv sp1" "sp_frame sp sp1" "karr sp1 k = Some arr"
    using reserve_in [OF inv k nx] by blast
  note p = sp_inv_parts [OF r(2)]
  note s = karr_Some [OF r(4)]
  have at: "sp_At sp1 k = Ret (ptr sp1 k)" by (rule sp_At_in [OF p(1)]) (use s in simp)
  have ok: "arr_ok (sp_blockLimit sp1) arr" by (rule p(7) [OF r(4)])
  have sl: "slice arr 0 1 = Some [hd arr]" using ok by (cases arr) (auto simp: slice_def arr_ok_def)
  have "length (bc_blockAddresses (sp_ctl sp1)) < pagesOf (length v)"
    using full r(3) by (simp add: sp_frame_def sp_freePages_def bc_RemainBlocks_def)
  then have g: "bc_GetBlocks (sp_ctl sp1) (int (pagesOf (length v))) = Hang"
    using popLoop_hang [of "sp_ctl sp1"] p(3) by (simp add: bc_GetBlocks_def bc_impl_def)
  obtain q bs where qb: "sp_buffer sp1 = q # bs" using p(9) by (cases "sp_buffer sp1") auto
  show ?thesis
    using fits r(1) at s sl g qb by (simp add: sp_Put_def Let_def sp_array_def sp_fill_def sp_popBuffer_def)
qed

text \<open>
  C35 A full device is not reported: when fewer pages are free than the value needs, \<open>Put\<close> spins on the
  free queue, also when overwriting, where the pages of the old value would be enough.
\<close>

theorem sp_Put_full_hangs:
  assumes "sp_inv sp" "0 \<le> k" "k < ds_R (sp_mapping sp) \<or> k + 1 \<le> ds_maxRows (sp_mapping sp)"
    and "sp_next sp < noArray" "int (pagesOf (length v)) < sp_blockLimit sp"
    and "sp_freePages sp < pagesOf (length v)"
  shows "sp_Put sp k v = Hang"
  using Put_hangs [OF assms] .

text \<open>The sample on a device whose ten pages are owned by nobody but two: three puts of three pages.\<close>

definition spTiny :: spdkio where
  "spTiny = spSample\<lparr>sp_ctl := spCtlSample\<lparr>bc_blockAddresses := [0, 1], bc_numBlocks := 2\<rparr>\<rparr>"

lemma spTiny: "sp_inv spTiny" "sp_freePages spTiny = 2"
proof -
  have k: "karr spTiny = karr spSample" "sp_ctl spTiny = spCtlSample\<lparr>bc_blockAddresses := [0, 1], bc_numBlocks := 2\<rparr>"
    unfolding spTiny_def by (simp_all only: ptr_simps) simp
  have "blk_ok (sp_ctl spTiny) (karr spTiny)" unfolding k
    by (auto simp: blk_ok_def spSample_view usedO_def bc_impl_def pages_ok_def inDev_def spCtlSample_def)
  moreover have "ptr_ok spTiny" unfolding spTiny_def ptr_ok_simps by (rule sp_inv_parts(1) [OF spSample_inv])
  moreover have "\<forall>j arr. karr spTiny j = Some arr \<longrightarrow> arr_ok (sp_blockLimit spTiny) arr"
    by (simp add: k spSample_view)
  ultimately show "sp_inv spTiny"
    using spSample_inv by (simp add: sp_inv_def) (simp add: spTiny_def)
  show "sp_freePages spTiny = 2" unfolding sp_freePages_def bc_RemainBlocks_def k by simp
qed

theorem sp_Put_full_hangs_witness: "sp_Put spTiny 0 (replicate 12288 1) = Hang"
proof -
  have p: "pagesOf (length (replicate 12288 (1 :: byte))) = 3" by (simp add: pagesOf_div PageSize_def)
  have f: "sp_blockLimit spTiny = 4" "sp_next spTiny = 4" "sp_mapping spTiny = spMapSample"
    by (simp_all add: spTiny_def spSample_def)
  show ?thesis
  proof (rule sp_Put_full_hangs [OF spTiny(1)])
    show "0 < ds_R (sp_mapping spTiny) \<or> 0 + 1 \<le> ds_maxRows (sp_mapping spTiny)"
      unfolding f(3) spMapSample by simp
    show "sp_next spTiny < noArray" unfolding f(2) by (simp add: noArray_def)
  qed (unfold p f(1) spTiny(2), simp_all)
qed

lemma Get_no_array:
  assumes "sp_inv sp" "hasKey sp k" "ptr sp k = noArray"
  shows "sp_Get sp k = Fault" "sp_Merge sp k v = Fault" "sp_Delete sp k = Fault"
proof -
  note p = sp_inv_parts [OF assms(1)]
  have at: "sp_At sp k = Ret noArray" using sp_At_in [OF p(1) assms(2)] assms(3) by simp
  have "sp_heap sp noArray = None"
    using heap_ok_bound [of sp noArray] p(1) by (cases "sp_heap sp noArray") (auto simp: ptr_ok_def)
  then show "sp_Get sp k = Fault" "sp_Merge sp k v = Fault" "sp_Delete sp k = Fault"
    using at assms(2) by (simp_all add: sp_Get_def sp_Merge_def sp_Delete_def sp_array_def hasKey_def)
qed

text \<open>
  C36 A posting id that was deleted is not answered with an error: every later \<open>Get\<close>, \<open>Merge\<close> or
  \<open>Delete\<close> of it reads through the pointer \<open>0xffffffffffffffff\<close>.
\<close>

theorem sp_deleted_key_faults:
  assumes "sp_inv sp" "sp_view sp k = Some v0"
  shows "\<exists>sp'. sp_Delete sp k = Ret (Success, sp') \<and> sp_Get sp' k = Fault \<and> sp_Merge sp' k v = Fault
    \<and> sp_Delete sp' k = Fault"
proof -
  obtain sp' where sp': "sp_Delete sp k = Ret (Success, sp')" "sp_inv sp'" "sp_view sp' = (sp_view sp)(k := None)"
    "ds_R (sp_mapping sp') = ds_R (sp_mapping sp)" "ptr sp' k = noArray"
    using Delete_view [OF assms] by blast
  have "hasKey sp k" using assms(2) by (auto simp: sp_view_def karr_def split: option.splits if_splits)
  then have hk: "hasKey sp' k" using sp'(4) by (simp add: hasKey_def)
  show ?thesis using Get_no_array [OF sp'(2) hk sp'(5)] sp'(1) by blast
qed

theorem sp_deleted_key_faults_witness:
  "\<exists>sp sp'. sp_Put spSample 2 [1, 2, 3, 4] = Ret (Success, sp) \<and> sp_Delete sp 2 = Ret (Success, sp')
     \<and> sp_Get sp' 2 = Fault"
proof -
  obtain sp where sp: "sp_Put spSample 2 [1, 2, 3, 4] = Ret (Success, sp)" "sp_inv sp"
    "sp_view sp = [2 \<mapsto> [1, 2, 3, 4]]"
    using spSample_one by auto
  then show ?thesis using sp_deleted_key_faults [OF sp(2), of 2 "[1, 2, 3, 4]"] by auto
qed

end
