(* ===== verification/BlockPersist.thy ===== *)
theory BlockPersist
  imports BlockClaims
begin

text \<open>
  The mapping file of \<open>SPDKIO\<close>: what \<open>Save\<close> writes and a later constructor reads back, and what the
  constructor does with the free pages.
\<close>

definition words_ok :: "int list \<Rightarrow> bool" where
  "words_ok xs \<longleftrightarrow> (\<forall>x \<in> set xs. - (2 ^ 63) \<le> x \<and> x < 2 ^ 63)"

definition blankArr :: "spdkio \<Rightarrow> int list" where
  "blankArr sp = replicate (nat (sp_blockLimit sp)) (- 1)"

text \<open>The row of a key in the file.\<close>

definition saved :: "spdkio \<Rightarrow> int \<Rightarrow> int list" where
  "saved sp k = (case karr sp k of None \<Rightarrow> blankArr sp | Some arr \<Rightarrow> arr)"

lemma decAddrs_encAddrs: "words_ok xs \<Longrightarrow> decAddrs (length xs) (encAddrs xs @ rest) = xs"
proof (induction xs)
  case (Cons x xs)
  then have "dec_sint (enc_int 8 x) = x" by (intro dec_sint_enc_int) (auto simp: words_ok_def)
  with Cons show ?case by (simp add: encAddrs_def words_ok_def)
qed (simp add: encAddrs_def)

lemma length_encAddrs [simp]: "length (encAddrs xs) = 8 * length xs"
  by (induction xs) (simp_all add: encAddrs_def)

lemma length_saved: "sp_inv sp \<Longrightarrow> hasKey sp k \<Longrightarrow> int (length (saved sp k)) = sp_blockLimit sp"
  using sp_inv_parts(7) [of sp k] sp_inv_parts(1) [of sp]
  by (cases "karr sp k") (auto simp: saved_def blankArr_def arr_ok_def ptr_ok_def heap_ok_def)

lemma sp_rows_saved:
  assumes inv: "sp_inv sp"
  shows "\<forall>k \<in> set ks. hasKey sp k \<Longrightarrow> sp_rows sp ks = Ret (map (saved sp) ks)"
proof (induction ks)
  case (Cons k ks)
  note p = sp_inv_parts [OF inv]
  have hk: "hasKey sp k" using Cons.prems by simp
  have at: "sp_At sp k = Ret (ptr sp k)" by (rule sp_At_in [OF p(1) hk])
  have live: "ptr sp k \<noteq> noArray \<Longrightarrow> sp_heap sp (ptr sp k) \<noteq> None"
    using p(1) hk unfolding ptr_ok_def by blast
  have "(if ptr sp k = noArray then Ret (replicate (nat (sp_blockLimit sp)) (- 1)) else sp_array sp (ptr sp k))
      = Ret (saved sp k)"
    using live hk by (auto simp: saved_def karr_def blankArr_def sp_array_def)
  moreover have "slice (saved sp k) 0 (nat (sp_blockLimit sp)) = Some (saved sp k)"
    using length_saved [OF inv hk] by (simp add: slice_def)
  ultimately show ?case using at Cons by simp
qed simp

definition sp_image :: "spdkio \<Rightarrow> bytes" where
  "sp_image sp = enc_int 4 (ds_R (sp_mapping sp)) @ enc_int 4 (sp_blockLimit sp)
     @ concat (map (encAddrs \<circ> saved sp) [0 .. ds_R (sp_mapping sp) - 1])"

lemma sp_Save_image:
  assumes "sp_inv sp" "os_room os = None"
  shows "sp_Save sp os = Ret (Inr (os\<lparr>os_data := os_data os @ sp_image sp\<rparr>))"
  using sp_rows_saved [OF assms(1), of "[0 .. ds_R (sp_mapping sp) - 1]"] ioWriteAll_unlimited [OF assms(2)]
  by (simp add: sp_Save_def hasKey_def sp_image_def comp_def del: ioWriteAll.simps)

text \<open>A key with no array gets the given one.\<close>

lemma attach_in:
  assumes ok: "ptr_ok s" and k: "hasKey s k" "ptr s k = noArray"
    and q: "spare s q" "q \<notin> set (sp_buffer s)" and xs: "int (length xs) = sp_blockLimit s"
  shows "\<exists>d. sp_setAt s k q = Ret (s\<lparr>sp_mapping := d\<rparr>)
    \<and> sp_store (s\<lparr>sp_mapping := d\<rparr>) q 0 xs = Ret (s\<lparr>sp_mapping := d, sp_heap := (sp_heap s)(q \<mapsto> xs)\<rparr>)
    \<and> ptr_ok (s\<lparr>sp_mapping := d, sp_heap := (sp_heap s)(q \<mapsto> xs)\<rparr>)
    \<and> karr (s\<lparr>sp_mapping := d, sp_heap := (sp_heap s)(q \<mapsto> xs)\<rparr>) = (karr s)(k \<mapsto> xs)
    \<and> ds_R d = ds_R (sp_mapping s) \<and> ds_maxRows d = ds_maxRows (sp_mapping s)
    \<and> (\<forall>j. j \<noteq> k \<longrightarrow> hasKey s j \<longrightarrow> ptr (s\<lparr>sp_mapping := d\<rparr>) j = ptr s j)"
proof -
  have b: "sp_buffer s = sp_buffer s @ (if ptr s k = noArray then [] else [ptr s k])" using k by simp
  obtain d where d: "sp_setAt s k q = Ret (s\<lparr>sp_mapping := d\<rparr>)"
    "ptr_ok (s\<lparr>sp_mapping := d, sp_buffer := sp_buffer s\<rparr>)"
    "karr (s\<lparr>sp_mapping := d, sp_buffer := sp_buffer s\<rparr>) = (karr s)(k := if q = noArray then None else sp_heap s q)"
    "ptr (s\<lparr>sp_mapping := d, sp_buffer := sp_buffer s\<rparr>) k = q"
    "ds_R d = ds_R (sp_mapping s)" "ds_maxRows d = ds_maxRows (sp_mapping s)"
    using set_ptr [OF ok k(1) disjI2 [OF conjI [OF q]] b] by (auto simp: Let_def)
  let ?s3 = "s\<lparr>sp_mapping := d\<rparr>"
  have e3: "s\<lparr>sp_mapping := d, sp_buffer := sp_buffer s\<rparr> = ?s3" by simp
  have hq: "heap_ok s" using ok by (simp add: ptr_ok_def)
  have qn: "q \<noteq> noArray" using heap_ok_bound [OF hq, of q] q(1) by (auto simp: spare_def)
  obtain arr0 where arr0: "sp_heap s q = Some arr0" using q(1) by (auto simp: spare_def)
  have l0: "int (length arr0) = sp_blockLimit s" using hq arr0 by (auto simp: heap_ok_def)
  have l: "length xs = length arr0" using l0 xs by simp
  have "blit arr0 0 xs = Some xs" using l by (simp add: blit_def)
  then have st: "sp_store ?s3 q 0 xs = Ret (?s3\<lparr>sp_heap := (sp_heap s)(q \<mapsto> xs)\<rparr>)"
    using sp_store_in [of ?s3 q arr0 0 xs xs] arr0 by simp
  have hk3: "hasKey ?s3 k" "ptr ?s3 k = q" using k d(4,5) e3 by (simp_all add: hasKey_def)
  have po3: "ptr_ok ?s3" using d(2) e3 by simp
  have a3: "sp_heap ?s3 q = Some arr0" using arr0 by simp
  have po: "ptr_ok (?s3\<lparr>sp_heap := (sp_heap ?s3)(q \<mapsto> xs)\<rparr>)" by (rule ptr_ok_store [OF po3 a3 l])
  have ka: "karr (?s3\<lparr>sp_heap := (sp_heap ?s3)(q \<mapsto> xs)\<rparr>) = (karr s)(k \<mapsto> xs)"
    using karr_store_key [OF po3 hk3(1), of xs] hk3(2) qn d(3) e3 by simp
  have di: "ds_inv 1 8 (sp_mapping s)" using ok by (simp add: ptr_ok_def)
  have qb: "0 \<le> q" "q \<le> noArray" using heap_ok_bound [OF hq, of q] q(1) by (auto simp: spare_def)
  obtain d' where d': "sp_setAt s k q = Ret (s\<lparr>sp_mapping := d'\<rparr>)" "ptrsOf d' = (ptrsOf (sp_mapping s))[nat k := q]"
    using sp_setAt_in [OF di k(1) qb] by auto
  have "sp_mapping (s\<lparr>sp_mapping := d'\<rparr>) = sp_mapping (s\<lparr>sp_mapping := d\<rparr>)" using d'(1) d(1) by simp
  then have dd: "d' = d" by simp
  have "ptr ?s3 j = ptr s j" if "j \<noteq> k" "hasKey s j" for j
    using d'(2) dd that k(1) by (simp add: ptr_def hasKey_def nth_list_update eq_nat_nat_iff)
  with d(1,5,6) st po ka show ?thesis by auto
qed

text \<open>The read loop of \<open>Load\<close>.\<close>

lemma loadRows_in:
  "ptr_ok s \<Longrightarrow> sp_next s + int n \<le> noArray \<Longrightarrow> 0 \<le> i \<Longrightarrow> i + int n \<le> ds_R (sp_mapping s)
    \<Longrightarrow> (\<forall>j. i \<le> j \<and> j < i + int n \<longrightarrow> ptr s j = noArray)
    \<Longrightarrow> n = length rows \<Longrightarrow> (\<forall>row \<in> set rows. int (length row) = sp_blockLimit s \<and> words_ok row)
    \<Longrightarrow> mycols = nat (sp_blockLimit s)
    \<Longrightarrow> \<exists>s'. sp_loadRows s i mycols n (concat (map encAddrs rows) @ rest) = Ret (Success, s', rest)
      \<and> ptr_ok s' \<and> ds_R (sp_mapping s') = ds_R (sp_mapping s) \<and> sp_blockLimit s' = sp_blockLimit s
      \<and> sp_ctl s' = sp_ctl s \<and> sp_buffer s' = sp_buffer s \<and> sp_bufferLimit s' = sp_bufferLimit s
      \<and> sp_next s' = sp_next s + int n
      \<and> karr s' = (\<lambda>j. if i \<le> j \<and> j < i + int n then Some (rows ! nat (j - i)) else karr s j)"
proof (induction n arbitrary: s i rows)
  case 0
  then show ?case by (auto simp: fun_eq_iff)
next
  case (Suc n)
  obtain row rows' where rows: "rows = row # rows'" using Suc.prems(6) by (cases rows) auto
  obtain q s1 where nw: "sp_newArray s = (q, s1)" by (cases "sp_newArray s")
  have nx: "sp_next s < noArray" using Suc.prems(2) by simp
  note n = sp_newArray_in [OF Suc.prems(1) nx nw]
  have n1: "sp_next s1 = sp_next s + 1" using nw by (auto simp: sp_newArray_def)
  have hk: "hasKey s1 i" "ptr s1 i = noArray"
    using Suc.prems(3,4,5) n(5) by (auto simp: hasKey_def ptr_def)
  have L: "int (length row) = sp_blockLimit s1" "words_ok row" using Suc.prems(7) rows n(8) by simp_all
  obtain d where d: "sp_setAt s1 i q = Ret (s1\<lparr>sp_mapping := d\<rparr>)"
    "sp_store (s1\<lparr>sp_mapping := d\<rparr>) q 0 row = Ret (s1\<lparr>sp_mapping := d, sp_heap := (sp_heap s1)(q \<mapsto> row)\<rparr>)"
    "ptr_ok (s1\<lparr>sp_mapping := d, sp_heap := (sp_heap s1)(q \<mapsto> row)\<rparr>)"
    "karr (s1\<lparr>sp_mapping := d, sp_heap := (sp_heap s1)(q \<mapsto> row)\<rparr>) = (karr s1)(i \<mapsto> row)"
    "ds_R d = ds_R (sp_mapping s1)"
    "\<forall>j. j \<noteq> i \<longrightarrow> hasKey s1 j \<longrightarrow> ptr (s1\<lparr>sp_mapping := d\<rparr>) j = ptr s1 j"
    using attach_in [OF n(1) hk n(2,3) L(1)] by blast
  let ?s3 = "s1\<lparr>sp_mapping := d, sp_heap := (sp_heap s1)(q \<mapsto> row)\<rparr>"
  have my: "mycols = length row" using Suc.prems(8) L(1) n(8) by simp
  have rd: "ioRead (concat (map encAddrs rows) @ rest) (8 * mycols)
      = Inr (encAddrs row, concat (map encAddrs rows') @ rest)"
    using rows my by simp
  have dec: "decAddrs mycols (encAddrs row) = row" using decAddrs_encAddrs [OF L(2), of "[]"] my by simp
  have p3: "ptr ?s3 j = noArray" if "i + 1 \<le> j \<and> j < i + 1 + int n" for j
  proof -
    have "hasKey s1 j" "j \<noteq> i" using that Suc.prems(3,4) n(5) by (auto simp: hasKey_def)
    then have "ptr (s1\<lparr>sp_mapping := d\<rparr>) j = ptr s1 j" using d(6) by blast
    moreover have "ptr s1 j = noArray" using Suc.prems(5) that n(5) by (simp add: ptr_def)
    ultimately show ?thesis by (simp only: ptr_simps)
  qed
  have "\<exists>s'. sp_loadRows ?s3 (i + 1) mycols n (concat (map encAddrs rows') @ rest) = Ret (Success, s', rest)
      \<and> ptr_ok s' \<and> ds_R (sp_mapping s') = ds_R (sp_mapping ?s3) \<and> sp_blockLimit s' = sp_blockLimit ?s3
      \<and> sp_ctl s' = sp_ctl ?s3 \<and> sp_buffer s' = sp_buffer ?s3 \<and> sp_bufferLimit s' = sp_bufferLimit ?s3
      \<and> sp_next s' = sp_next ?s3 + int n
      \<and> karr s' = (\<lambda>j. if i + 1 \<le> j \<and> j < i + 1 + int n then Some (rows' ! nat (j - (i + 1))) else karr ?s3 j)"
  proof (rule Suc.IH [OF d(3)])
    show "\<forall>j. i + 1 \<le> j \<and> j < i + 1 + int n \<longrightarrow> ptr ?s3 j = noArray" using p3 by blast
    show "\<forall>row \<in> set rows'. int (length row) = sp_blockLimit ?s3 \<and> words_ok row"
      using Suc.prems(7) rows n(8) by simp
  qed (use Suc.prems n1 d(5) n(5,8) rows in simp_all)
  then obtain s' where s': "sp_loadRows ?s3 (i + 1) mycols n (concat (map encAddrs rows') @ rest) = Ret (Success, s', rest)"
    "ptr_ok s'" "ds_R (sp_mapping s') = ds_R (sp_mapping ?s3)" "sp_blockLimit s' = sp_blockLimit ?s3"
    "sp_ctl s' = sp_ctl ?s3" "sp_buffer s' = sp_buffer ?s3" "sp_bufferLimit s' = sp_bufferLimit ?s3"
    "sp_next s' = sp_next ?s3 + int n"
    "karr s' = (\<lambda>j. if i + 1 \<le> j \<and> j < i + 1 + int n then Some (rows' ! nat (j - (i + 1))) else karr ?s3 j)"
    by blast
  have "sp_loadRows s i mycols (Suc n) (concat (map encAddrs rows) @ rest) = Ret (Success, s', rest)"
    using nw d(1,2) rd dec s'(1) by simp
  moreover have "karr s' = (\<lambda>j. if i \<le> j \<and> j < i + int (Suc n) then Some (rows ! nat (j - i)) else karr s j)"
  proof
    fix j
    show "karr s' j = (if i \<le> j \<and> j < i + int (Suc n) then Some (rows ! nat (j - i)) else karr s j)"
    proof (cases "j = i")
      case True
      then show ?thesis using s'(9) d(4) rows by simp
    next
      case False
      have "i + 1 \<le> j \<Longrightarrow> nat (j - i) = Suc (nat (j - (i + 1)))" by simp
      then show ?thesis using False s'(9) d(4) n(4) rows by auto
    qed
  qed
  ultimately show ?case using s' n n1 d(5) by auto
qed

text \<open>The spare arrays of the constructor.\<close>

lemma pushArrays_in:
  "ptr_ok s \<Longrightarrow> sp_next s + int n \<le> noArray \<Longrightarrow>
    ptr_ok (sp_pushArrays n s) \<and> karr (sp_pushArrays n s) = karr s \<and> sp_ctl (sp_pushArrays n s) = sp_ctl s
    \<and> sp_mapping (sp_pushArrays n s) = sp_mapping s \<and> sp_blockLimit (sp_pushArrays n s) = sp_blockLimit s"
proof (induction n arbitrary: s)
  case (Suc n)
  obtain q s1 where nw: "sp_newArray s = (q, s1)" by (cases "sp_newArray s")
  have nx: "sp_next s < noArray" using Suc.prems(2) by simp
  note n = sp_newArray_in [OF Suc.prems(1) nx nw]
  have n1: "sp_next s1 = sp_next s + 1" using nw by (auto simp: sp_newArray_def)
  let ?s2 = "s1\<lparr>sp_buffer := sp_buffer s1 @ [q]\<rparr>"
  have "ptr_ok ?s2" using n(1,2,3) by (auto simp: ptr_ok_def heap_ok_def)
  from Suc.IH [OF this] Suc.prems(2) n1 n nw show ?case by simp
qed simp

definition freshCtl :: "blockCtl \<Rightarrow> bool" where
  "freshCtl bc \<longleftrightarrow> bc_numInitCalled bc = 0 \<and> bc_blockAddresses bc = []"

text \<open>A store reopened on the file that was saved, with the pages as they were left.\<close>

lemma reopen_in:
  assumes inv: "sp_inv sp" and os: "os_room os = None"
    and words: "\<forall>k arr. karr sp k = Some arr \<longrightarrow> words_ok arr"
    and R: "int32_ok (ds_R (sp_mapping sp))" and L: "int32_ok (sp_blockLimit sp)"
    and bc: "freshCtl bc" "bc_pages bc = bc_pages (sp_ctl sp)" and env: "memEnv \<or> ssdEnv"
    and bs: "0 \<le> bufferSize" "bufferSize \<le> 2 ^ 32"
  shows "\<exists>sp'. sp_Save sp os = Ret (Inr (os\<lparr>os_data := os_data os @ sp_image sp\<rparr>))
    \<and> sp_create (Some (sp_image sp)) bc memEnv ssdEnv started blockSize capacity
        (sp_blockLimit sp - 1) bufferSize batch junk = Ret sp'
    \<and> sp_view sp' = sp_view sp \<and> ptr_ok sp'
    \<and> (\<forall>k arr. karr sp k = Some arr \<longrightarrow> karr sp' k = Some arr)
    \<and> bc_blockAddresses (sp_ctl sp') = [0 .. (if memEnv then kMemImplMaxNumBlocks else kSsdImplMaxNumBlocks) - 1]"
proof -
  note p = sp_inv_parts [OF inv]
  let ?R = "ds_R (sp_mapping sp)"
  let ?L = "sp_blockLimit sp"
  have R0: "0 \<le> ?R" using dsrows.size_nonneg [of 1 8 "sp_mapping sp"] p(1) by (simp add: ptr_ok_def)
  have L1: "1 \<le> ?L" using p(1) by (simp add: ptr_ok_def heap_ok_def)
  let ?sp0 = "\<lparr>sp_blockLimit = ?L, sp_mapping = ds_new 8, sp_bufferLimit = bufferSize,
            sp_buffer = [], sp_ctl = bc, sp_heap = (\<lambda>_. None), sp_next = 0, sp_junk = junk,
            sp_shutdownCalled = True\<rparr>"
  obtain d where d: "ds_Initialize (ds_new 8) ?R 1 blockSize capacity None True 0 (- 1) = Ret d"
    "ds_inv 1 8 d" "ds_R d = ?R" "ds_list d = replicate (nat ?R) (replicate 8 255)"
    using ds_Initialize_blank [OF R0, of "ds_new 8" 1 blockSize capacity True] by (auto simp: ds_new_def)
  have pd: "ptrsOf d = replicate (nat ?R) noArray" using d(4) dec_blank_ptr by (simp add: ptrsOf_def)
  let ?s = "?sp0\<lparr>sp_mapping := d\<rparr>"
  have hs: "hasKey ?s j = hasKey sp j" for j using d(3) by (simp add: hasKey_def)
  have ps: "hasKey ?s j \<Longrightarrow> ptr ?s j = noArray" for j
    using pd d(3) by (simp add: ptr_def hasKey_def nat_less_iff)
  have ok: "ptr_ok ?s" using d(2) ps L1 by (auto simp: ptr_ok_def heap_ok_def noArray_def)
  let ?rows = "map (saved sp) [0 .. ?R - 1]"
  have lr: "length ?rows = nat ?R" by simp
  have rows: "\<forall>row \<in> set ?rows. int (length row) = sp_blockLimit ?s \<and> words_ok row"
  proof
    fix row assume "row \<in> set ?rows"
    then obtain k where k: "row = saved sp k" "hasKey sp k" by (auto simp: hasKey_def)
    have "words_ok row" using k words by (cases "karr sp k") (auto simp: saved_def blankArr_def words_ok_def)
    then show "int (length row) = sp_blockLimit ?s \<and> words_ok row" using length_saved [OF inv k(2)] k(1) by simp
  qed
  have nxt: "sp_next ?s + int (nat ?R) \<le> noArray" using R by (simp add: int32_ok_def noArray_def)
  have Rle: "0 + int (nat ?R) \<le> ds_R (sp_mapping ?s)" using d(3) R0 by simp
  have blankp: "\<forall>j. 0 \<le> j \<and> j < 0 + int (nat ?R) \<longrightarrow> ptr ?s j = noArray" using ps d(3) by (simp add: hasKey_def)
  have myc: "nat ?L = nat (sp_blockLimit ?s)" by simp
  obtain s1 where s1: "sp_loadRows ?s 0 (nat ?L) (nat ?R) (concat (map encAddrs ?rows) @ []) = Ret (Success, s1, [])"
    "ptr_ok s1" "ds_R (sp_mapping s1) = ds_R (sp_mapping ?s)" "sp_ctl s1 = bc" "sp_next s1 = int (nat ?R)"
    "karr s1 = (\<lambda>j. if 0 \<le> j \<and> j < 0 + int (nat ?R) then Some (?rows ! nat (j - 0)) else karr ?s j)"
    using loadRows_in [OF ok nxt order_refl Rle blankp lr [symmetric] rows myc, of "[]"] by auto
  have load: "sp_Load ?sp0 (sp_image sp) blockSize capacity = Ret (Success, s1, [])"
    using d(1) s1(1) R L by (simp add: sp_Load_def sp_image_def dec_enc_int32 Let_def comp_def)
  have nx2: "sp_next s1 + int (nat bufferSize) \<le> noArray"
    using s1(5) R bs by (simp add: int32_ok_def noArray_def)
  note pu = pushArrays_in [OF s1(2) nx2]
  let ?s2 = "sp_pushArrays (nat bufferSize) s1"
  let ?c = "snd (bc_Initialize bc memEnv ssdEnv started batch)"
  let ?sp' = "?s2\<lparr>sp_ctl := ?c, sp_shutdownCalled := False\<rparr>"
  have cr: "sp_create (Some (sp_image sp)) bc memEnv ssdEnv started blockSize capacity
        (?L - 1) bufferSize batch junk = Ret ?sp'"
    using load pu s1(4) by (simp add: sp_create_def Let_def)
  have pages: "bc_pages ?c = bc_pages (sp_ctl sp)" using bc by (simp add: bc_Initialize_def Let_def)
  have free: "bc_blockAddresses ?c = [0 .. (if memEnv then kMemImplMaxNumBlocks else kSsdImplMaxNumBlocks) - 1]"
    using bc(1) env by (cases memEnv) (simp_all add: bc_Initialize_def Let_def freshCtl_def)
  have pk: "ptr_ok ?sp'" unfolding ptr_ok_simps using pu by blast
  have ka2: "karr ?sp' = karr ?s2" unfolding ptr_simps ..
  have ka: "karr ?sp' = karr s1" using ka2 pu by simp
  have row: "hasKey sp k \<Longrightarrow> karr ?sp' k = Some (saved sp k)" for k
    using ka s1(6) by (simp add: hasKey_def)
  have none: "\<not> hasKey sp k \<Longrightarrow> karr ?sp' k = None" for k
    using ka s1(6) R0 by (auto simp: hasKey_def karr_def)
  have cont: "content ?c arr = content (sp_ctl sp) arr" for arr using pages by (intro content_same) simp
  have "sp_view ?sp' k = sp_view sp k" for k
  proof (cases "hasKey sp k")
    case False
    then show ?thesis using none [OF False] by (simp add: sp_view_def karr_def)
  next
    case True
    have "0 < nat ?L" using L1 by simp
    then have "hd (blankArr sp) = - 1" unfolding blankArr_def by (cases "nat ?L") auto
    then show ?thesis using row [OF True] cont
      by (cases "karr sp k") (auto simp: sp_view_def saved_def)
  qed
  moreover have "karr ?sp' k = Some arr" if "karr sp k = Some arr" for k arr
    using row [of k] that karr_Some [OF that] by (simp add: saved_def)
moreover note pk
  ultimately show ?thesis using sp_Save_image [OF inv os] cr free by (auto simp: fun_eq_iff)
qed

text \<open>
  C27 The mapping survives a restart: the constructor, given the file \<open>Save\<close> wrote and a device with
  the same pages, answers a store in which every posting has the bytes it had, and no other key
  has any.
\<close>

theorem sp_reopen_values:
  assumes "sp_inv sp" "os_room os = None"
    and "\<forall>k arr. karr sp k = Some arr \<longrightarrow> words_ok arr"
    and "int32_ok (ds_R (sp_mapping sp))" "int32_ok (sp_blockLimit sp)"
    and "freshCtl bc" "bc_pages bc = bc_pages (sp_ctl sp)" "memEnv \<or> ssdEnv"
    and "0 \<le> bufferSize" "bufferSize \<le> 2 ^ 32"
  shows "\<exists>img sp'. sp_Save sp os = Ret (Inr (os\<lparr>os_data := os_data os @ img\<rparr>))
    \<and> sp_create (Some img) bc memEnv ssdEnv started blockSize capacity
        (sp_blockLimit sp - 1) bufferSize batch junk = Ret sp'
    \<and> sp_view sp' = sp_view sp"
  using reopen_in [OF assms] by blast

text \<open>
  C37 The constructor takes no account of the pages the loaded mapping owns: after a restart every
  page of the device is in the free queue, the pages of every non-empty posting among them, so
  the store is not well-formed and the next \<open>Put\<close> is handed pages that hold postings.
\<close>

theorem sp_reopen_frees_owned_pages:
  assumes "sp_inv sp"
    and "\<forall>k arr. karr sp k = Some arr \<longrightarrow> words_ok arr"
    and "int32_ok (ds_R (sp_mapping sp))" "int32_ok (sp_blockLimit sp)"
    and "freshCtl bc" "bc_pages bc = bc_pages (sp_ctl sp)" "ssdEnv" "\<not> memEnv"
    and "0 \<le> bufferSize" "bufferSize \<le> 2 ^ 32"
    and dev: "bc_numBlocks (sp_ctl sp) \<le> kSsdImplMaxNumBlocks"
    and v: "sp_view sp k = Some v" "v \<noteq> []"
  shows "\<exists>sp' arr. sp_create (Some (sp_image sp)) bc memEnv ssdEnv started blockSize capacity
        (sp_blockLimit sp - 1) bufferSize batch junk = Ret sp'
    \<and> karr sp' k = Some arr \<and> used arr \<noteq> [] \<and> set (used arr) \<subseteq> set (bc_blockAddresses (sp_ctl sp'))
    \<and> \<not> sp_inv sp'"
proof -
  have os: "os_room \<lparr>os_data = [], os_room = None\<rparr> = None" by simp
  obtain sp' where sp': "sp_create (Some (sp_image sp)) bc memEnv ssdEnv started blockSize capacity
        (sp_blockLimit sp - 1) bufferSize batch junk = Ret sp'"
    "\<forall>k arr. karr sp k = Some arr \<longrightarrow> karr sp' k = Some arr"
    "bc_blockAddresses (sp_ctl sp') = [0 .. kSsdImplMaxNumBlocks - 1]"
    using reopen_in [OF assms(1) os assms(2-6) disjI2 [OF assms(7)] assms(9,10), where memEnv = memEnv
      and started = started and blockSize = blockSize and capacity = capacity and batch = batch and junk = junk]
      assms(8) by auto
  obtain arr where arr: "karr sp k = Some arr" "0 \<le> hd arr" "v = content (sp_ctl sp) arr"
    using v(1) by (rule sp_view_SomeE)
  have ne: "used arr \<noteq> []"
  proof
    assume "used arr = []"
    then have "v = []" using arr(3) by (simp add: content_def pagesAt_def)
    with v(2) show False by simp
  qed
  have sub: "set (used arr) \<subseteq> set (bc_blockAddresses (sp_ctl sp'))"
    using sp_inv_parts(8) [OF assms(1) arr(1)] dev sp'(3) by (auto simp: inDev_def)
  have "\<not> sp_inv sp'"
  proof
    assume "sp_inv sp'"
    then have "blk_ok (sp_ctl sp') (karr sp')" by (simp add: sp_inv_def)
    then have "set (usedO (karr sp' k)) \<inter> set (bc_blockAddresses (sp_ctl sp')) = {}"
      unfolding blk_ok_def by blast
    then have "set (used arr) \<inter> set (bc_blockAddresses (sp_ctl sp')) = {}"
      using sp'(2) arr(1) by (simp add: usedO_def)
    then have "set (used arr) = {}" by (simp only: Int_absorb2 [OF sub])
    then show False using ne by simp
  qed
  moreover have "karr sp' k = Some arr" using sp'(2) arr(1) by blast
  ultimately show ?thesis using sp'(1) ne sub by (intro exI conjI)
qed

text \<open>A store with one posting of four bytes in page 0.\<close>

lemma spOne:
  "\<exists>sp. sp_inv sp \<and> karr sp = [0 \<mapsto> [4, 0, - 1, - 1]] \<and> sp_view sp 0 = Some [0, 0, 0, 0]
    \<and> sp_blockLimit sp = 4 \<and> ds_R (sp_mapping sp) = 1 \<and> bc_pages (sp_ctl sp) = (\<lambda>_. replicate PageSize 0)
    \<and> bc_numBlocks (sp_ctl sp) = 10"
proof -
  obtain d0 where d0: "ds_inv 1 8 d0" "ds_R d0 = 1" "ds_list d0 = [replicate 8 255]"
    using ds_Initialize_blank [of 1 "ds_new 8" 1 4 100 True] by (auto simp: ds_new_def)
  let ?c = "spCtlSample\<lparr>bc_blockAddresses := [1 .. 9]\<rparr>"
  let ?s = "\<lparr>sp_blockLimit = 4, sp_mapping = d0, sp_bufferLimit = 3, sp_buffer = [1, 2, 3],
     sp_ctl = ?c, sp_heap = (\<lambda>p. if 0 \<le> p \<and> p < 4 then Some [9, 9, 9, 9] else None),
     sp_next = 4, sp_junk = 9, sp_shutdownCalled = False\<rparr>"
  have pt: "ptr ?s 0 = noArray" using d0(3) dec_blank_ptr by (simp add: ptr_def ptrsOf_def)
  have hk: "hasKey ?s j \<longleftrightarrow> j = 0" for j using d0(2) by (auto simp: hasKey_def)
  have h: "heap_ok ?s" by (auto simp: heap_ok_def noArray_def split: if_splits)
  have nn: "noArray > 100" by (simp add: noArray_def)
  have sp: "spare ?s p" if "0 \<le> p" "p < 4" for p
    using that pt nn hk by (simp add: spare_def)
  have ok: "ptr_ok ?s"
    unfolding ptr_ok_def hk
  proof (intro conjI)
    show "ds_inv 1 8 (sp_mapping ?s)" using d0(1) by simp
    show "\<forall>p \<in> set (sp_buffer ?s). spare ?s p" using sp by simp
    show "distinct (sp_buffer ?s)" by simp
  qed (use h pt in simp_all)
  have len: "int (length [4, 0, - 1, - 1 :: int]) = sp_blockLimit ?s" by simp
  have sp0: "spare ?s 0" "0 \<notin> set (sp_buffer ?s)" using sp [of 0] by simp_all
  have hk0: "hasKey ?s 0" using hk by simp
  obtain d where d: "ptr_ok (?s\<lparr>sp_mapping := d, sp_heap := (sp_heap ?s)(0 \<mapsto> [4, 0, - 1, - 1])\<rparr>)"
    "karr (?s\<lparr>sp_mapping := d, sp_heap := (sp_heap ?s)(0 \<mapsto> [4, 0, - 1, - 1])\<rparr>) = (karr ?s)(0 \<mapsto> [4, 0, - 1, - 1])"
    "ds_R d = ds_R (sp_mapping ?s)"
    using attach_in [OF ok hk0 pt sp0 len] by blast
  define sp where "sp = ?s\<lparr>sp_mapping := d, sp_heap := (sp_heap ?s)(0 \<mapsto> [4, 0, - 1, - 1])\<rparr>"
  have "karr ?s = Map.empty" using hk pt by (auto simp: karr_def fun_eq_iff)
  then have ka: "karr sp = [0 \<mapsto> [4, 0, - 1, - 1]]" using d(2) unfolding sp_def by simp
  have f: "sp_ctl sp = ?c" "sp_blockLimit sp = 4" "sp_bufferLimit sp = 3" "sp_buffer sp = [1, 2, 3]" "ds_R (sp_mapping sp) = 1"
    using d(3) d0(2) unfolding sp_def by simp_all
  have p4: "pagesOf 4 = 1" by (rule pagesOf_1) simp_all
  have u: "used [4, 0, - 1, - 1] = [0]" using p4 by (simp add: used_def)
  have blk: "blk_ok ?c (karr sp)"
  proof -
    have uk: "usedO (karr sp k) = (if k = 0 then [0] else [])" for k using ka u by (simp add: usedO_def)
    show ?thesis unfolding blk_ok_def uk by (auto simp: bc_impl_def pages_ok_def inDev_def spCtlSample_def)
  qed
  have "sp_inv sp" using blk d(1) f ka p4 unfolding sp_inv_def by (auto simp: arr_ok_def sp_def)
  moreover have "sp_view sp 0 = Some [0, 0, 0, 0]"
    using ka f(1) u by (simp add: sp_view_def content_def pagesAt_def spCtlSample_def PageSize_def)
      (simp add: numeral_eq_Suc)
  ultimately show ?thesis using ka f by (intro exI [of _ sp]) (simp add: spCtlSample_def)
qed

definition bcFresh :: blockCtl where
  "bcFresh = \<lparr>bc_useMemImpl = False, bc_useSsdImpl = False, bc_blockAddresses = [],
     bc_pages = (\<lambda>_. replicate PageSize 0), bc_numBlocks = 0, bc_numInitCalled = 0, bc_batchSize = 64,
     bc_over = (\<lambda>_. 7)\<rparr>"

theorem sp_reopen_values_witness:
  "\<exists>sp img sp'. sp_view sp 0 = Some [0, 0, 0, 0]
    \<and> sp_Save sp \<lparr>os_data = [], os_room = None\<rparr> = Ret (Inr \<lparr>os_data = img, os_room = None\<rparr>)
    \<and> sp_create (Some img) bcFresh False True True 4 100 3 5 64 9 = Ret sp' \<and> sp_view sp' 0 = Some [0, 0, 0, 0]"
proof -
  obtain sp where sp: "sp_inv sp" "karr sp = [0 \<mapsto> [4, 0, - 1, - 1]]" "sp_view sp 0 = Some [0, 0, 0, 0]"
    "sp_blockLimit sp = 4" "ds_R (sp_mapping sp) = 1" "bc_pages (sp_ctl sp) = (\<lambda>_. replicate PageSize 0)"
    using spOne by blast
  have w: "\<forall>k arr. karr sp k = Some arr \<longrightarrow> words_ok arr" using sp(2) by (simp add: words_ok_def)
  have f: "freshCtl bcFresh" "bc_pages bcFresh = bc_pages (sp_ctl sp)" using sp(6) by (simp_all add: freshCtl_def bcFresh_def)
  have r: "int32_ok (ds_R (sp_mapping sp))" "int32_ok (sp_blockLimit sp)" using sp by (simp_all add: int32_ok_def)
  have os: "os_room \<lparr>os_data = [], os_room = None\<rparr> = None" by simp
  show ?thesis
    using sp_reopen_values [OF sp(1) os w r f, of False True 5 True 4 100 64 9] sp(3,4) by auto
qed

theorem sp_reopen_frees_owned_pages_witness:
  "\<exists>sp sp'. sp_inv sp \<and> sp_create (Some (sp_image sp)) bcFresh False True True 4 100 3 5 64 9 = Ret sp'
    \<and> \<not> sp_inv sp'"
proof -
  obtain sp where sp: "sp_inv sp" "karr sp = [0 \<mapsto> [4, 0, - 1, - 1]]" "sp_view sp 0 = Some [0, 0, 0, 0]"
    "sp_blockLimit sp = 4" "ds_R (sp_mapping sp) = 1" "bc_pages (sp_ctl sp) = (\<lambda>_. replicate PageSize 0)"
    "bc_numBlocks (sp_ctl sp) = 10"
    using spOne by blast
  have w: "\<forall>k arr. karr sp k = Some arr \<longrightarrow> words_ok arr" using sp(2) by (simp add: words_ok_def)
  have f: "freshCtl bcFresh" "bc_pages bcFresh = bc_pages (sp_ctl sp)" using sp(6) by (simp_all add: freshCtl_def bcFresh_def)
  have r: "int32_ok (ds_R (sp_mapping sp))" "int32_ok (sp_blockLimit sp)" using sp by (simp_all add: int32_ok_def)
  have dv: "bc_numBlocks (sp_ctl sp) \<le> kSsdImplMaxNumBlocks" using sp(7) by (simp add: kSsdImplMaxNumBlocks_def)
  show ?thesis
    using sp_reopen_frees_owned_pages [OF sp(1) w r f, of True False 5 0 "[0, 0, 0, 0]" True 4 100 64 9] sp dv
    by auto
qed

end
