(* ===== verification/BinaryHeap.thy ===== *)
theory BinaryHeap
  imports Prelude
begin

text \<open>
  The array heaps of the search code share two loops: sift a new root down, and sift a new leaf up.
  Both are stated here once over a strict order \<open>below\<close> ("lies below in the heap") on a list whose
  position 0 is the root; the 1-based arrays of Heap.h and WorkSpace.h are lists from their slot 1
  on, so that the children of position \<open>i\<close> are \<open>2 * i + 1\<close> and \<open>2 * i + 2\<close> in all of them.
\<close>

section \<open>The loops\<close>

definition swapAt :: "nat \<Rightarrow> nat \<Rightarrow> 'a list \<Rightarrow> 'a list" where
  "swapAt i j xs = xs[i := xs ! j, j := xs ! i]"

text \<open>\<open>while (next < maxidx)\<close>: the loop answers the array, \<open>parent\<close> and \<open>next\<close> it ends with.\<close>

function siftLoop :: "('a \<Rightarrow> 'a \<Rightarrow> bool) \<Rightarrow> nat \<Rightarrow> nat \<Rightarrow> nat \<Rightarrow> 'a list \<Rightarrow> 'a list \<times> nat \<times> nat" where
  "siftLoop below maxidx parent next xs =
     (if next < maxidx
      then let nx = (if below (xs ! next) (xs ! (next + 1)) then next + 1 else next)
           in if below (xs ! parent) (xs ! nx)
              then siftLoop below maxidx nx (2 * nx + 1) (swapAt nx parent xs)
              else (xs, parent, nx)
      else (xs, parent, next))"
  by pat_completeness auto
termination
  by (relation "measure (\<lambda>(below, maxidx, parent, next, xs). maxidx - next)") auto

declare siftLoop.simps [simp del]

definition siftDown :: "('a \<Rightarrow> 'a \<Rightarrow> bool) \<Rightarrow> nat \<Rightarrow> 'a list \<Rightarrow> 'a list" where
  "siftDown below cnt xs =
     (if cnt = 0 then xs
      else let maxidx = cnt - 1; (ys, parent, next) = siftLoop below maxidx 0 1 xs
           in if next = maxidx \<and> below (ys ! parent) (ys ! next) then swapAt parent next ys else ys)"

text \<open>\<open>while (par > 0 && below)\<close>: parents move down until \<open>value\<close> finds its place.\<close>

fun siftUp :: "('a \<Rightarrow> 'a \<Rightarrow> bool) \<Rightarrow> 'a \<Rightarrow> nat \<Rightarrow> 'a list \<Rightarrow> 'a list" where
  "siftUp below value loc xs =
     (if loc = 0 then xs[0 := value]
      else let par = (loc - 1) div 2
           in if below (xs ! par) value then siftUp below value par (xs[loc := xs ! par])
              else xs[loc := value])"

declare siftUp.simps [simp del]

section \<open>Heaps\<close>

definition up :: "nat \<Rightarrow> nat" where
  "up i = (i - 1) div 2"

definition heapOf :: "('a \<Rightarrow> 'a \<Rightarrow> bool) \<Rightarrow> nat \<Rightarrow> 'a list \<Rightarrow> bool" where
  "heapOf below n xs \<longleftrightarrow> n \<le> length xs \<and> (\<forall>i. 0 < i \<and> i < n \<longrightarrow> \<not> below (xs ! up i) (xs ! i))"

text \<open>A heap up to position \<open>p\<close>, whose value may be too small for its children.\<close>

definition heapBut :: "('a \<Rightarrow> 'a \<Rightarrow> bool) \<Rightarrow> nat \<Rightarrow> nat \<Rightarrow> 'a list \<Rightarrow> bool" where
  "heapBut below n p xs \<longleftrightarrow> n \<le> length xs
     \<and> (\<forall>i. 0 < i \<and> i < n \<and> up i \<noteq> p \<longrightarrow> \<not> below (xs ! up i) (xs ! i))
     \<and> (\<forall>i. 0 < i \<and> i < n \<and> up i = p \<and> 0 < p \<longrightarrow> \<not> below (xs ! up p) (xs ! i))"

lemma up_child: "0 < i \<Longrightarrow> up i = p \<longleftrightarrow> i = 2 * p + 1 \<or> i = 2 * p + 2"
  by (auto simp: up_def)

lemma up_less: "0 < i \<Longrightarrow> up i < i"
  by (auto simp: up_def)

lemma length_swapAt [simp]: "length (swapAt i j xs) = length xs"
  by (simp add: swapAt_def)

lemma nth_swapAt:
  "i < length xs \<Longrightarrow> j < length xs \<Longrightarrow> swapAt i j xs ! k = (if k = i then xs ! j else if k = j then xs ! i else xs ! k)"
  by (auto simp: swapAt_def nth_list_update)

lemma mset_swapAt: "i < length xs \<Longrightarrow> j < length xs \<Longrightarrow> mset (swapAt i j xs) = mset xs"
  by (simp add: swapAt_def mset_swap)

locale heap_order =
  fixes below :: "'a \<Rightarrow> 'a \<Rightarrow> bool"
  assumes asym: "below a b \<Longrightarrow> \<not> below b a"
    and negtrans: "\<not> below a b \<Longrightarrow> \<not> below b c \<Longrightarrow> \<not> below a c"
begin

lemma irrefl: "\<not> below a a"
  using asym by blast

lemma root_max:
  assumes "heapOf below n xs" "i < n"
  shows "\<not> below (xs ! 0) (xs ! i)"
  using assms(2)
proof (induction i rule: less_induct)
  case (less i)
  show ?case
  proof (cases "i = 0")
    case True
    then show ?thesis by (simp add: irrefl)
  next
    case False
    then have "\<not> below (xs ! up i) (xs ! i)" using assms(1) less.prems by (simp add: heapOf_def)
    moreover have "\<not> below (xs ! 0) (xs ! up i)"
      using less.IH [of "up i"] up_less [of i] False less.prems by simp
    ultimately show ?thesis using negtrans by blast
  qed
qed

lemma heapBut_step:
  assumes hb: "heapBut below n p xs" and c: "c = 2 * p + 1 \<or> c = 2 * p + 2" "c < n"
    and big: "\<And>i. 0 < i \<Longrightarrow> i < n \<Longrightarrow> up i = p \<Longrightarrow> \<not> below (xs ! c) (xs ! i)"
    and lt: "below (xs ! p) (xs ! c)"
  shows "heapBut below n c (swapAt c p xs)"
proof -
  have n: "n \<le> length xs" using hb by (simp add: heapBut_def)
  have pc: "p < c" "up c = p" using c(1) by (auto simp: up_def)
  have cl: "c < length xs" "p < length xs" using c(2) pc(1) n by auto
  note sw = nth_swapAt [OF cl]
  show ?thesis
    unfolding heapBut_def
  proof (intro conjI allI impI)
    show "n \<le> length (swapAt c p xs)" using n by simp
  next
    fix i assume i: "0 < i \<and> i < n \<and> up i \<noteq> c"
    show "\<not> below (swapAt c p xs ! up i) (swapAt c p xs ! i)"
    proof (cases "up i = p")
      case True
      then have "swapAt c p xs ! up i = xs ! c" using sw [of p] pc by simp
      moreover have "i \<noteq> p" using True i up_less [of i] by auto
      then have "swapAt c p xs ! i = (if i = c then xs ! p else xs ! i)" using sw [of i] by simp
      moreover have "\<not> below (xs ! c) (xs ! p)" using lt asym by blast
      ultimately show ?thesis using big [of i] True i by auto
    next
      case False
      then have ui: "swapAt c p xs ! up i = xs ! up i" using sw [of "up i"] i by simp
      show ?thesis
      proof (cases "i = p")
        case True
        then have "swapAt c p xs ! i = xs ! c" using sw [of i] pc by simp
        moreover have "\<not> below (xs ! up p) (xs ! c)"
          using hb True i c pc by (simp add: heapBut_def)
        ultimately show ?thesis using ui True by simp
      next
        case False
        have "i \<noteq> c" using pc(2) \<open>up i \<noteq> p\<close> by auto
        then have "swapAt c p xs ! i = xs ! i" using sw [of i] False by simp
        then show ?thesis using ui hb i \<open>up i \<noteq> p\<close> by (simp add: heapBut_def)
      qed
    qed
  next
    fix i assume i: "0 < i \<and> i < n \<and> up i = c \<and> 0 < c"
    have ci: "c < i" using i up_less [of i] by auto
    have "swapAt c p xs ! up c = xs ! c" using sw [of p] pc by simp
    moreover have "swapAt c p xs ! i = xs ! i" using sw [of i] ci pc by simp
    moreover have "up i \<noteq> p" using i pc by simp
    then have "\<not> below (xs ! up i) (xs ! i)" using hb i unfolding heapBut_def by blast
    ultimately show "\<not> below (swapAt c p xs ! up c) (swapAt c p xs ! i)" using i by simp
  qed
qed

lemma heapBut_done:
  assumes "heapBut below n p xs" "\<And>i. 0 < i \<Longrightarrow> i < n \<Longrightarrow> up i = p \<Longrightarrow> \<not> below (xs ! p) (xs ! i)"
  shows "heapOf below n xs"
  using assms by (auto simp: heapOf_def heapBut_def)

lemma siftLoop_heap:
  assumes "heapBut below (Suc maxidx) p xs" "siftLoop below maxidx p (2 * p + 1) xs = (ys, q, nx)"
  shows "let zs = (if nx = maxidx \<and> below (ys ! q) (ys ! nx) then swapAt q nx ys else ys)
    in heapOf below (Suc maxidx) zs \<and> mset zs = mset xs \<and> length zs = length xs
      \<and> (\<forall>i \<ge> Suc maxidx. i < length xs \<longrightarrow> zs ! i = xs ! i)"
  using assms
proof (induction "maxidx - p" arbitrary: p xs rule: less_induct)
  case less
  let ?n = "Suc maxidx"
  let ?l = "2 * p + 1"
  have len: "?n \<le> length xs" using less.prems(1) by (simp add: heapBut_def)
  show ?case
  proof (cases "?l < maxidx")
    case False
    then have r: "ys = xs" "q = p" "nx = ?l" using less.prems(2) by (subst (asm) siftLoop.simps; auto)+
    show ?thesis
    proof (cases "?l = maxidx \<and> below (xs ! p) (xs ! ?l)")
      case True
      have "heapBut below ?n ?l (swapAt ?l p xs)"
      proof (rule heapBut_step [OF less.prems(1)])
        fix i assume "0 < i" "i < ?n" "up i = p"
        then have "i = ?l" using up_child [of i p] True by auto
        then show "\<not> below (xs ! ?l) (xs ! i)" by (simp add: irrefl)
      qed (use True in auto)
      then have "heapOf below ?n (swapAt ?l p xs)"
        by (rule heapBut_done) (use True up_child [of _ ?l] in auto)
      moreover have "swapAt ?l p xs = swapAt p ?l xs"
        by (simp add: swapAt_def list_update_swap)
      moreover have "nx = maxidx \<and> below (ys ! q) (ys ! nx)" unfolding r using True by blast
      moreover have "p < length xs" "?l < length xs" "?l = maxidx" using True len by auto
      ultimately show ?thesis using r
        by (simp add: Let_def mset_swapAt nth_swapAt)
    next
      case no: False
      have "heapOf below ?n xs"
      proof (rule heapBut_done [OF less.prems(1)])
        fix i assume "0 < i" "i < ?n" "up i = p"
        then show "\<not> below (xs ! p) (xs ! i)" using up_child [of i p] False no by auto
      qed
      then show ?thesis using r no by (auto simp: Let_def)
    qed
  next
    case True
    define c where "c = (if below (xs ! ?l) (xs ! (?l + 1)) then ?l + 1 else ?l)"
    have unf: "siftLoop below maxidx p ?l xs =
        (if below (xs ! p) (xs ! c) then siftLoop below maxidx c (2 * c + 1) (swapAt c p xs) else (xs, p, c))"
      unfolding c_def by (subst siftLoop.simps) (simp only: True Let_def if_True)
    have c: "c = 2 * p + 1 \<or> c = 2 * p + 2" "c < ?n" using True by (auto simp: c_def)
    have big: "\<not> below (xs ! c) (xs ! i)" if "0 < i" "i < ?n" "up i = p" for i
      using that up_child [of i p] asym [of "xs ! ?l" "xs ! (?l + 1)"] by (auto simp: c_def irrefl)
    show ?thesis
    proof (cases "below (xs ! p) (xs ! c)")
      case yes: True
      have cl: "c < length xs" "p < length xs" using c len by auto
      have rec: "siftLoop below maxidx c (2 * c + 1) (swapAt c p xs) = (ys, q, nx)"
        using less.prems(2) yes unfolding unf by simp
      have "maxidx - c < maxidx - p" using True c by auto
      from less.hyps [OF this heapBut_step [OF less.prems(1) c big yes] rec]
      have h: "let zs = (if nx = maxidx \<and> below (ys ! q) (ys ! nx) then swapAt q nx ys else ys)
        in heapOf below ?n zs \<and> mset zs = mset (swapAt c p xs) \<and> length zs = length (swapAt c p xs)
         \<and> (\<forall>i \<ge> ?n. i < length (swapAt c p xs) \<longrightarrow> zs ! i = swapAt c p xs ! i)" .
      have tail: "i \<ge> ?n \<Longrightarrow> swapAt c p xs ! i = xs ! i" for i
        using nth_swapAt [OF cl, of i] c by auto
      show ?thesis using h mset_swapAt [OF cl] tail by (auto simp: Let_def split: if_splits)
    next
      case no: False
      then have r: "ys = xs" "q = p" "nx = c"
        using less.prems(2) unfolding unf by simp_all
      have "heapOf below ?n xs"
      proof (rule heapBut_done [OF less.prems(1)])
        fix i assume "0 < i" "i < ?n" "up i = p"
        then show "\<not> below (xs ! p) (xs ! i)" using big [of i] no negtrans by blast
      qed
      then show ?thesis using r no by (simp add: Let_def)
    qed
  qed
qed

text \<open>A heap whose root was replaced is a heap again after one sift.\<close>

lemma siftDown_heap:
  assumes "heapBut below n 0 xs"
  shows "heapOf below n (siftDown below n xs)" "mset (siftDown below n xs) = mset xs"
    "length (siftDown below n xs) = length xs"
    "\<And>i. n \<le> i \<Longrightarrow> i < length xs \<Longrightarrow> siftDown below n xs ! i = xs ! i"
proof -
  have "heapOf below n (siftDown below n xs) \<and> mset (siftDown below n xs) = mset xs
    \<and> length (siftDown below n xs) = length xs \<and> (\<forall>i \<ge> n. i < length xs \<longrightarrow> siftDown below n xs ! i = xs ! i)"
  proof (cases n)
    case 0
    then show ?thesis by (simp add: siftDown_def heapOf_def)
  next
    case (Suc m)
    obtain ys q nx where l: "siftLoop below m 0 (2 * 0 + 1) xs = (ys, q, nx)" by (metis prod_cases3)
    have "heapBut below (Suc m) 0 xs" using assms Suc by simp
    from siftLoop_heap [OF this l] l Suc show ?thesis by (simp add: siftDown_def Let_def)
  qed
  then show "heapOf below n (siftDown below n xs)" "mset (siftDown below n xs) = mset xs"
    "length (siftDown below n xs) = length xs"
    "\<And>i. n \<le> i \<Longrightarrow> i < length xs \<Longrightarrow> siftDown below n xs ! i = xs ! i" by auto
qed

lemma heapBut_root: "heapOf below n xs \<Longrightarrow> heapBut below n 0 (xs[0 := x])"
  unfolding heapBut_def heapOf_def
proof (intro conjI allI impI)
  fix i assume h: "n \<le> length xs \<and> (\<forall>i. 0 < i \<and> i < n \<longrightarrow> \<not> below (xs ! up i) (xs ! i))"
    and i: "0 < i \<and> i < n \<and> up i \<noteq> 0"
  have "xs[0 := x] ! up i = xs ! up i" "xs[0 := x] ! i = xs ! i" using i by simp_all
  then show "\<not> below (xs[0 := x] ! up i) (xs[0 := x] ! i)" using h i by simp
qed simp_all

text \<open>Sifting up: all is a heap except that \<open>value\<close>, once stored at \<open>loc\<close>, may be above its parents.\<close>

lemma siftUp_heap:
  assumes "n \<le> length xs" "loc < n"
    and "\<And>i. 0 < i \<Longrightarrow> i < n \<Longrightarrow> i \<noteq> loc \<Longrightarrow> up i \<noteq> loc \<Longrightarrow> \<not> below (xs ! up i) (xs ! i)"
    and "\<And>i. 0 < i \<Longrightarrow> i < n \<Longrightarrow> up i = loc \<Longrightarrow> \<not> below value (xs ! i)"
    and "\<And>i. 0 < i \<Longrightarrow> i < n \<Longrightarrow> up i = loc \<Longrightarrow> 0 < loc \<Longrightarrow> \<not> below (xs ! up loc) (xs ! i)"
  shows "heapOf below n (siftUp below value loc xs)
    \<and> mset (siftUp below value loc xs) = mset (xs[loc := value])
    \<and> length (siftUp below value loc xs) = length xs
    \<and> (\<forall>i \<ge> n. i < length xs \<longrightarrow> siftUp below value loc xs ! i = xs ! i)"
  using assms
proof (induction loc arbitrary: xs rule: less_induct)
  case (less loc)
  have ll: "loc < length xs" using less.prems(1,2) by simp
  have fin: "heapOf below n (xs[loc := value])"
    if "loc = 0 \<or> \<not> below (xs ! up loc) value"
    unfolding heapOf_def
  proof (intro conjI allI impI)
    show "n \<le> length (xs[loc := value])" using less.prems(1) by simp
    fix i assume i: "0 < i \<and> i < n"
    consider "i = loc" | "up i = loc" "i \<noteq> loc" | "i \<noteq> loc" "up i \<noteq> loc" by blast
    then show "\<not> below (xs[loc := value] ! up i) (xs[loc := value] ! i)"
    proof cases
      case 1
      then have "up loc < loc" using i up_less by simp
      then show ?thesis using 1 that i ll by auto
    next
      case 2
      then show ?thesis using less.prems(4) [of i] i ll by auto
    next
      case 3
      then show ?thesis using less.prems(3) [of i] i by simp
    qed
  qed
  show ?case
  proof (cases "loc = 0 \<or> \<not> below (xs ! up loc) value")
    case True
    then have "siftUp below value loc xs = xs[loc := value]"
      by (subst siftUp.simps) (auto simp: up_def Let_def)
    then show ?thesis using fin [OF True] less.prems(2) by auto
  next
    case False
    let ?p = "up loc"
    let ?xs = "xs[loc := xs ! ?p]"
    have lt: "below (xs ! ?p) value" and pl: "?p < loc" using False up_less [of loc] by auto
    have step: "siftUp below value loc xs = siftUp below value ?p ?xs"
      using False by (subst siftUp.simps) (auto simp: up_def Let_def)
    have "heapOf below n (siftUp below value ?p ?xs) \<and> mset (siftUp below value ?p ?xs) = mset (?xs[?p := value])
      \<and> length (siftUp below value ?p ?xs) = length ?xs
      \<and> (\<forall>i \<ge> n. i < length ?xs \<longrightarrow> siftUp below value ?p ?xs ! i = ?xs ! i)"
    proof (rule less.IH [OF pl])
      show "n \<le> length ?xs" "?p < n" using less.prems(1,2) pl by auto
    next
      fix i assume i: "0 < i" "i < n" "i \<noteq> ?p" "up i \<noteq> ?p"
      then have il: "i \<noteq> loc" by auto
      show "\<not> below (?xs ! up i) (?xs ! i)"
      proof (cases "up i = loc")
        case True
        then show ?thesis using less.prems(5) [of i] i il ll False by auto
      next
        case no: False
        then show ?thesis using less.prems(3) [of i] i il by simp
      qed
    next
      fix i assume i: "0 < i" "i < n" "up i = ?p"
      show "\<not> below value (?xs ! i)"
      proof (cases "i = loc")
        case True
        then show ?thesis using asym [OF lt] ll by simp
      next
        case no: False
        have "up i \<noteq> loc" using i(3) pl by simp
        then have "\<not> below (xs ! ?p) (xs ! i)" using less.prems(3) [of i] i no by simp
        then show ?thesis using asym [OF lt] negtrans no by (metis nth_list_update_neq)
      qed
    next
      fix i assume i: "0 < i" "i < n" "up i = ?p" "0 < ?p"
      have pp: "up ?p < ?p" using up_less i(4) by simp
      have ppl: "\<not> below (xs ! up ?p) (xs ! ?p)"
        using less.prems(3) [of ?p] i(4) pl pp less.prems(2) by simp
      show "\<not> below (?xs ! up ?p) (?xs ! i)"
      proof (cases "i = loc")
        case True
        then show ?thesis using ppl ll pl pp by simp
      next
        case no: False
        have "up i \<noteq> loc" using i(3) pl by simp
        then have "\<not> below (xs ! ?p) (xs ! i)" using less.prems(3) [of i] i no by simp
        then show ?thesis using ppl negtrans no pp pl by (metis nth_list_update_neq less_trans less_irrefl)
      qed
    qed
    moreover have "mset (?xs[?p := value]) = mset (xs[loc := value])"
    proof -
      have "?xs[?p := value] = swapAt ?p loc (xs[loc := value])"
        using pl ll by (simp add: swapAt_def list_update_swap [of loc ?p])
      then show ?thesis using pl ll by (simp add: mset_swapAt)
    qed
    moreover have "?xs ! i = xs ! i" if "n \<le> i" for i using that less.prems(2) by simp
    ultimately show ?thesis using step by simp
  qed
qed

end

end
