(* ===== verification/QueryResults.thy ===== *)
theory QueryResults
  imports BinaryHeap
begin

text \<open>
  Search results and queues: \<open>BasicResult\<close> (AnnService/inc/Core/SearchResult.h), \<open>QueryResult\<close>
  (SearchQuery.h), \<open>COMMON::QueryResultSet\<close> (Common/QueryResultSet.h), \<open>DistPriorityQueue\<close>
  (Common/WorkSpace.h) and \<open>COMMON::Heap\<close> (Common/Heap.h). Distances range over a linear order,
  floats without NaN; \<open>MaxDist\<close> is a parameter. The meta data of a result is left out.
\<close>

section \<open>Results\<close>

datatype 'f basicResult = BasicResult (VID: int) (Dist: 'f)

text \<open>\<open>operator<\<close>, and \<open>Compare\<close>.\<close>

definition result_less :: "('f :: linorder) basicResult \<Rightarrow> 'f basicResult \<Rightarrow> bool" where
  "result_less lhs rhs \<longleftrightarrow> Dist lhs < Dist rhs \<or> Dist lhs = Dist rhs \<and> VID lhs < VID rhs"

instantiation basicResult :: (linorder) linorder
begin

definition less_basicResult :: "'a basicResult \<Rightarrow> 'a basicResult \<Rightarrow> bool" where
  "less_basicResult = result_less"

definition less_eq_basicResult :: "'a basicResult \<Rightarrow> 'a basicResult \<Rightarrow> bool" where
  "less_eq_basicResult lhs rhs \<longleftrightarrow> Dist lhs < Dist rhs \<or> Dist lhs = Dist rhs \<and> VID lhs \<le> VID rhs"

instance
proof
  fix x y z :: "'a basicResult"
  show "(x < y) = (x \<le> y \<and> \<not> y \<le> x)" by (auto simp: less_basicResult_def result_less_def less_eq_basicResult_def)
  show "x \<le> x" by (simp add: less_eq_basicResult_def)
  show "x \<le> y \<Longrightarrow> y \<le> z \<Longrightarrow> x \<le> z" by (auto simp: less_eq_basicResult_def)
  show "x \<le> y \<Longrightarrow> y \<le> x \<Longrightarrow> x = y" by (cases x; cases y) (auto simp: less_eq_basicResult_def)
  show "x \<le> y \<or> y \<le> x" by (auto simp: less_eq_basicResult_def)
qed

end

interpretation resultOrder: heap_order "(<) :: ('f :: linorder) basicResult \<Rightarrow> 'f basicResult \<Rightarrow> bool"
  by unfold_locales auto

record 'f queryResult =
  qr_target :: bytes
  qr_results :: "'f basicResult list"

definition qr_Init :: "bytes \<Rightarrow> nat \<Rightarrow> 'f \<Rightarrow> 'f queryResult" where
  "qr_Init target resultNum maxDist =
     \<lparr>qr_target = target, qr_results = replicate resultNum (BasicResult (- 1) maxDist)\<rparr>"

definition qr_GetResultNum :: "'f queryResult \<Rightarrow> nat" where
  "qr_GetResultNum qr = length (qr_results qr)"

text \<open>\<open>GetResult\<close>: a null pointer beyond the end.\<close>

definition qr_GetResult :: "'f queryResult \<Rightarrow> nat \<Rightarrow> 'f basicResult option" where
  "qr_GetResult qr i = (if i < length (qr_results qr) then Some (qr_results qr ! i) else None)"

definition qr_SetResult :: "'f queryResult \<Rightarrow> nat \<Rightarrow> int \<Rightarrow> 'f \<Rightarrow> 'f queryResult" where
  "qr_SetResult qr i vid d =
     (if i < length (qr_results qr) then qr\<lparr>qr_results := (qr_results qr)[i := BasicResult vid d]\<rparr> else qr)"

definition qr_Reset :: "'f queryResult \<Rightarrow> 'f \<Rightarrow> 'f queryResult" where
  "qr_Reset qr maxDist =
     qr\<lparr>qr_results := replicate (length (qr_results qr)) (BasicResult (- 1) maxDist)\<rparr>"

section \<open>QueryResultSet\<close>

definition qr_Heapify :: "nat \<Rightarrow> ('f :: linorder) basicResult list \<Rightarrow> 'f basicResult list" where
  "qr_Heapify cnt results = siftDown (<) cnt results"

definition qr_worstDist :: "'f queryResult \<Rightarrow> 'f outcome" where
  "qr_worstDist qr = (case qr_results qr of [] \<Rightarrow> Fault | r # _ \<Rightarrow> Ret (Dist r))"

definition qr_AddPoint :: "('f :: linorder) queryResult \<Rightarrow> int \<Rightarrow> 'f \<Rightarrow> (bool \<times> 'f queryResult) outcome" where
  "qr_AddPoint qr index dist =
     (case qr_results qr of
        [] \<Rightarrow> Fault
      | r # _ \<Rightarrow>
          if dist < Dist r \<or> dist = Dist r \<and> index < VID r
          then Ret (True, qr\<lparr>qr_results := qr_Heapify (length (qr_results qr))
                                  ((qr_results qr)[0 := BasicResult index dist])\<rparr>)
          else Ret (False, qr))"

fun qr_sortLoop :: "nat \<Rightarrow> ('f :: linorder) basicResult list \<Rightarrow> 'f basicResult list" where
  "qr_sortLoop 0 results = results"
| "qr_sortLoop (Suc i) results = qr_sortLoop i (qr_Heapify i (swapAt 0 i results))"

definition qr_SortResult :: "('f :: linorder) queryResult \<Rightarrow> 'f queryResult" where
  "qr_SortResult qr = qr\<lparr>qr_results := qr_sortLoop (length (qr_results qr)) (qr_results qr)\<rparr>"

definition qr_Reverse :: "'f queryResult \<Rightarrow> 'f queryResult" where
  "qr_Reverse qr = qr\<lparr>qr_results := rev (qr_results qr)\<rparr>"

fun qr_AddPoints :: "('f :: linorder) queryResult \<Rightarrow> (int \<times> 'f) list \<Rightarrow> 'f queryResult outcome" where
  "qr_AddPoints qr [] = Ret qr"
| "qr_AddPoints qr ((v, d) # ps) = andThen (qr_AddPoint qr v d) (\<lambda>(b, qr'). qr_AddPoints qr' ps)"

section \<open>The K smallest\<close>

definition smallest :: "nat \<Rightarrow> ('a :: linorder) list \<Rightarrow> 'a list" where
  "smallest k xs = take k (sort xs)"

lemma take_insort_ge:
  "sorted xs \<Longrightarrow> k \<le> length xs \<Longrightarrow> (\<forall>y \<in> set (take k xs). y \<le> x) \<Longrightarrow> take k (insort x xs) = take k xs"
proof (induction xs arbitrary: k)
  case (Cons y ys)
  show ?case
  proof (cases k)
    case (Suc j)
    have yx: "y \<le> x" using Cons.prems(3) Suc by simp
    show ?thesis
    proof (cases "x \<le> y")
      case True
      then have "x = y" using yx by simp
      moreover have "take j (y # ys) = take j ys" if "\<forall>z \<in> set (take j ys). z \<le> y" "sorted (y # ys)" "j \<le> length ys"
      proof (rule nth_equalityI)
        fix i assume "i < length (take j (y # ys))"
        then have i: "i < j" "i < length ys" using that(3) by auto
        have all: "z = y" if "z \<in> set (take j ys)" for z
          using that \<open>\<forall>z \<in> set (take j ys). z \<le> y\<close> \<open>sorted (y # ys)\<close> by (auto dest: in_set_takeD intro: antisym)
        have "take j ys ! i = y" using i by (intro all) (simp add: in_set_conv_nth exI [of _ i])
        moreover have "take j (y # ys) ! i = y"
        proof (cases i)
          case (Suc m)
          then have "ys ! m \<in> set (take j ys)" using i by (auto simp: in_set_conv_nth intro!: exI [of _ m])
          then show ?thesis using all Suc i by simp
        qed (use i in simp)
        ultimately show "take j (y # ys) ! i = take j ys ! i" by simp
      qed (use that in simp)
      ultimately show ?thesis using Cons.prems Suc by simp
    next
      case False
      then show ?thesis using Cons Suc by simp
    qed
  qed simp
qed simp

lemma take_insort_le:
  "sorted xs \<Longrightarrow> k < length xs \<Longrightarrow> x \<le> xs ! k \<Longrightarrow> take (Suc k) (insort x xs) = insort x (take k xs)"
proof (induction xs arbitrary: k)
  case (Cons y ys)
  then show ?case by (cases k) (auto simp: insort_is_Cons)
qed simp

text \<open>Exchanging the largest of the K smallest against a smaller element.\<close>

lemma smallest_insert:
  assumes "k \<le> length xs" "0 < k" and m: "mset rs = mset (smallest k xs)" and r: "r \<in> set rs" "\<forall>y \<in> set rs. y \<le> r"
  shows "x < r \<Longrightarrow> mset (smallest k (x # xs)) = mset rs - {#r#} + {#x#}"
    and "\<not> x < r \<Longrightarrow> smallest k (x # xs) = smallest k xs"
proof -
  obtain j where j: "k = Suc j" using assms(2) by (cases k) auto
  have sx: "sort (x # xs) = insort x (sort xs)" by simp
  have lj: "j < length (sort xs)" using assms(1) j by simp
  have split: "smallest k xs = take j (sort xs) @ [sort xs ! j]"
    using lj j by (simp add: smallest_def take_Suc_conv_app_nth)
  have srt: "sorted (take j (sort xs) @ [sort xs ! j])"
    using split sorted_wrt_take [of "(\<le>)" "sort xs" k] by (simp add: smallest_def)
  have set_eq: "set rs = set (smallest k xs)" using m by (metis set_mset_mset)
  have "sort xs ! j \<le> r" using r(2) set_eq split by auto
  moreover have "r \<le> sort xs ! j" using r(1) set_eq split srt by (auto simp: sorted_append)
  ultimately have rj: "r = sort xs ! j" by simp
  show "mset (smallest k (x # xs)) = mset rs - {#r#} + {#x#}" if "x < r"
  proof -
    have "smallest k (x # xs) = insort x (take j (sort xs))"
      unfolding smallest_def sx j using lj that rj by (intro take_insort_le) auto
    then show ?thesis using m split rj by simp
  qed
  show "smallest k (x # xs) = smallest k xs" if "\<not> x < r"
    unfolding smallest_def sx
  proof (rule take_insort_ge)
    show "\<forall>y \<in> set (take k (sort xs)). y \<le> x"
      using r(2) set_eq that by (auto simp: smallest_def)
  qed (use assms(1) in simp_all)
qed

definition qr_inv :: "('f :: linorder) queryResult \<Rightarrow> 'f basicResult list \<Rightarrow> bool" where
  "qr_inv qr pts \<longleftrightarrow> qr_results qr \<noteq> [] \<and> heapOf (<) (length (qr_results qr)) (qr_results qr)
     \<and> length (qr_results qr) \<le> length pts
     \<and> mset (qr_results qr) = mset (smallest (length (qr_results qr)) pts)"

lemma heap_root_max: "heapOf (<) (length xs) xs \<Longrightarrow> y \<in> set xs \<Longrightarrow> y \<le> (hd xs :: 'a :: linorder basicResult)"
proof -
  assume h: "heapOf (<) (length xs) xs" and "y \<in> set xs"
  then obtain i where i: "i < length xs" "y = xs ! i" by (auto simp: in_set_conv_nth)
  then have "xs ! i \<le> xs ! 0" using resultOrder.root_max [OF h] by (simp add: not_less)
  moreover have "xs ! 0 = hd xs" using i by (cases xs) simp_all
  ultimately show "y \<le> hd xs" using i by simp
qed

lemma AddPoint_inv:
  assumes "qr_inv qr pts"
  shows "\<exists>b qr'. qr_AddPoint qr v d = Ret (b, qr') \<and> qr_inv qr' (BasicResult v d # pts)
    \<and> length (qr_results qr') = length (qr_results qr) \<and> qr_target qr' = qr_target qr"
proof -
  let ?rs = "qr_results qr"
  let ?x = "BasicResult v d"
  let ?k = "length ?rs"
  obtain r rest where rs: "?rs = r # rest" using assms by (cases ?rs) (auto simp: qr_inv_def)
  have h: "heapOf (<) ?k ?rs" and kl: "?k \<le> length pts" and m: "mset ?rs = mset (smallest ?k pts)"
    using assms by (simp_all add: qr_inv_def)
  have k0: "0 < ?k" using rs by simp
  have rmax: "\<forall>y \<in> set ?rs. y \<le> r" using heap_root_max [OF h] rs by simp
  have rin: "r \<in> set ?rs" using rs by simp
  note sm = smallest_insert [OF kl k0 m rin rmax, of ?x]
  have cond: "d < Dist r \<or> d = Dist r \<and> v < VID r \<longleftrightarrow> ?x < r" by (simp add: less_basicResult_def result_less_def)
  show ?thesis
  proof (cases "?x < r")
    case True
    let ?qr' = "qr\<lparr>qr_results := qr_Heapify ?k (?rs[0 := ?x])\<rparr>"
    note hb = resultOrder.heapBut_root [OF h, of ?x]
    note sd = resultOrder.siftDown_heap [OF hb]
    have "mset (?rs[0 := ?x]) = mset ?rs - {#r#} + {#?x#}" using rs by simp
    then have "qr_inv ?qr' (?x # pts)"
      using sd(1-3) sm(1) [OF True] kl rs unfolding qr_inv_def qr_Heapify_def
      by (auto simp del: siftDown_def)
    moreover have "qr_AddPoint qr v d = Ret (True, ?qr')" using True cond rs by (simp add: qr_AddPoint_def)
    ultimately show ?thesis using sd(3) by (intro exI [of _ True] exI [of _ ?qr']) (simp add: qr_Heapify_def)
  next
    case False
    then have "qr_AddPoint qr v d = Ret (False, qr)" using cond rs by (simp add: qr_AddPoint_def)
    moreover have "qr_inv qr (?x # pts)" using assms sm(2) [OF False] by (simp add: qr_inv_def)
    ultimately show ?thesis by auto
  qed
qed

lemma AddPoints_inv:
  "qr_inv qr pts \<Longrightarrow> \<exists>qr'. qr_AddPoints qr ps = Ret qr'
    \<and> qr_inv qr' (rev (map (\<lambda>(v, d). BasicResult v d) ps) @ pts)
    \<and> length (qr_results qr') = length (qr_results qr) \<and> qr_target qr' = qr_target qr"
proof (induction ps arbitrary: qr pts)
  case (Cons p ps)
  obtain v d where p: "p = (v, d)" by (cases p)
  obtain b qr1 where q: "qr_AddPoint qr v d = Ret (b, qr1)" "qr_inv qr1 (BasicResult v d # pts)"
    "length (qr_results qr1) = length (qr_results qr)" "qr_target qr1 = qr_target qr"
    using AddPoint_inv [OF Cons.prems, of v d] by auto
  from Cons.IH [OF q(2)] q p show ?case by auto
qed simp

lemma AddPoints_append: "qr_AddPoints qr (xs @ ys) = andThen (qr_AddPoints qr xs) (\<lambda>qr'. qr_AddPoints qr' ys)"
proof (induction xs arbitrary: qr)
  case (Cons x xs)
  obtain v d where x: "x = (v, d)" by (cases x)
  show ?case unfolding x using Cons by (cases "qr_AddPoint qr v d") auto
qed simp

lemma qr_inv_Init: "0 < k \<Longrightarrow> qr_inv (qr_Init t k md) (replicate k (BasicResult (- 1) md))"
proof -
  assume k: "0 < k"
  have "sort (replicate k x) = replicate k x" for x :: "'a basicResult" by (simp add: sorted_sort_id sorted_replicate)
  have "heapOf (<) k (replicate k (BasicResult (- 1) md))"
    unfolding heapOf_def
  proof (intro conjI allI impI)
    fix i assume i: "0 < i \<and> i < k"
    then have "up i < k" using up_less [of i] by simp
    then show "\<not> replicate k (BasicResult (- 1) md) ! up i < replicate k (BasicResult (- 1) md) ! i"
      using i by simp
  qed simp
  moreover note \<open>\<And>x. sort (replicate k x) = replicate k x\<close>
  ultimately show ?thesis using k by (simp add: qr_inv_def qr_Init_def smallest_def)
qed

text \<open>The sorting loop: a heap in front of a sorted rest that is not smaller.\<close>

lemma sortLoop_sorted:
  "heapOf (<) n xs \<Longrightarrow> sorted (drop n xs) \<Longrightarrow> (\<forall>i < n. \<forall>j. n \<le> j \<and> j < length xs \<longrightarrow> xs ! i \<le> xs ! j)
    \<Longrightarrow> sorted (qr_sortLoop n xs) \<and> mset (qr_sortLoop n xs) = mset xs"
proof (induction n arbitrary: xs)
  case (Suc i)
  let ?ys = "swapAt 0 i xs"
  let ?zs = "qr_Heapify i ?ys"
  have il: "i < length xs" "0 < length xs" using Suc.prems(1) by (auto simp: heapOf_def)
  note sw = nth_swapAt [OF il(2,1)]
  have my: "mset ?ys = mset xs" by (rule mset_swapAt [OF il(2,1)])
  have hb: "heapBut (<) i 0 ?ys"
    unfolding heapBut_def
  proof (intro conjI allI impI)
    show "i \<le> length ?ys" using il by simp
    fix k assume k: "0 < k \<and> k < i \<and> up k \<noteq> 0"
    have "up k < i" using k up_less [of k] by simp
    then have "?ys ! up k = xs ! up k" "?ys ! k = xs ! k" using sw k by auto
    then show "\<not> ?ys ! up k < ?ys ! k" using Suc.prems(1) k by (simp add: heapOf_def)
  qed auto
  note sd = resultOrder.siftDown_heap [OF hb, folded qr_Heapify_def]
  have lz: "length ?zs = length xs" using sd(3) by simp
  have zi: "?zs ! j = ?ys ! j" if "i \<le> j" "j < length xs" for j using sd(4) [of j] that by simp
  have pre: "mset (take i ?zs) = mset (take i ?ys)"
  proof -
    have "drop i ?zs = drop i ?ys" using zi lz by (intro nth_equalityI) auto
    moreover have "mset (take i ?zs) + mset (drop i ?zs) = mset (take i ?ys) + mset (drop i ?ys)"
      using sd(2) by (metis append_take_drop_id mset_append)
    ultimately show ?thesis by simp
  qed
  have root: "xs ! k \<le> xs ! 0" if "k < Suc i" for k
    using resultOrder.root_max [OF Suc.prems(1), of k] that by (simp add: not_less)
  have yi: "?ys ! i = xs ! 0" using sw [of i] by (cases "i = 0") auto
  have le: "?zs ! k \<le> ?zs ! j" if "k < i" "i \<le> j" "j < length ?zs" for k j
  proof -
    have "?zs ! k \<in> set (take i ?zs)" using that lz il by (auto simp: in_set_conv_nth intro!: exI [of _ k])
    then have "?zs ! k \<in> set (take i ?ys)" using pre by (metis set_mset_mset)
    then obtain l where l: "l < i" "?zs ! k = ?ys ! l" by (auto simp: in_set_conv_nth)
    have "\<exists>l' < Suc i. ?ys ! l = xs ! l'"
      using sw [of l] l(1) by (intro exI [of _ "if l = 0 then i else l"]) simp
    then obtain l' where l': "l' < Suc i" "?zs ! k = xs ! l'" using l by auto
    show ?thesis
    proof (cases "j = i")
      case True
      then show ?thesis using l' root [OF l'(1)] zi [of i] yi il by simp
    next
      case False
      then have "?zs ! j = xs ! j" using zi [of j] sw [of j] that lz by auto
      then show ?thesis using l' Suc.prems(3) False that lz by auto
    qed
  qed
  have srt: "sorted (drop i ?zs)"
  proof -
    have "drop i ?zs = xs ! 0 # drop (Suc i) xs"
    proof (rule nth_equalityI)
      show "length (drop i ?zs) = length (xs ! 0 # drop (Suc i) xs)" using lz il by simp
      fix k assume "k < length (drop i ?zs)"
      then have k: "i + k < length xs" using lz by simp
      show "drop i ?zs ! k = (xs ! 0 # drop (Suc i) xs) ! k"
      proof (cases k)
        case 0
        then show ?thesis using zi [of i] yi il lz by simp
      next
        case (Suc m)
        then have "?zs ! (i + k) = xs ! (i + k)" using zi [of "i + k"] sw [of "i + k"] k by simp
        then show ?thesis using Suc k lz il by simp
      qed
    qed
    moreover have "\<forall>y \<in> set (drop (Suc i) xs). xs ! 0 \<le> y"
      using Suc.prems(3) by (auto simp: in_set_conv_nth)
    ultimately show ?thesis using Suc.prems(2) by simp
  qed
  have "sorted (qr_sortLoop i ?zs) \<and> mset (qr_sortLoop i ?zs) = mset ?zs"
    using Suc.IH [OF sd(1) srt] le by auto
  then show ?case using sd(2) my by simp
qed simp

lemma SortResult_sort:
  assumes "heapOf (<) (length (qr_results qr)) (qr_results qr)"
  shows "qr_results (qr_SortResult qr) = sort (qr_results qr)"
proof -
  have "sorted (qr_sortLoop (length (qr_results qr)) (qr_results qr))
    \<and> mset (qr_sortLoop (length (qr_results qr)) (qr_results qr)) = mset (qr_results qr)"
    by (rule sortLoop_sorted [OF assms]) auto
  then show ?thesis by (auto simp: qr_SortResult_def intro!: properties_for_sort [symmetric])
qed

lemma AddPoints_top_k:
  assumes "0 < k"
  shows "\<exists>qr. qr_AddPoints (qr_Init t k maxDist) ps = Ret qr
    \<and> qr_results (qr_SortResult qr) =
        take k (sort (map (\<lambda>(v, d). BasicResult v d) ps @ replicate k (BasicResult (- 1) maxDist)))"
proof -
  let ?pts = "map (\<lambda>(v, d). BasicResult v d) ps"
  let ?pad = "replicate k (BasicResult (- 1) maxDist)"
  obtain qr where qr: "qr_AddPoints (qr_Init t k maxDist) ps = Ret qr" "qr_inv qr (rev ?pts @ ?pad)"
    "length (qr_results qr) = k"
    using AddPoints_inv [OF qr_inv_Init [OF assms], of t maxDist ps] by (auto simp: qr_Init_def)
  have "sort (rev ?pts @ ?pad) = sort (?pts @ ?pad)"
    by (intro properties_for_sort) simp_all
  then have "mset (qr_results qr) = mset (take k (sort (?pts @ ?pad)))"
    using qr(2,3) by (simp add: qr_inv_def smallest_def)
  then have "sort (qr_results qr) = take k (sort (?pts @ ?pad))"
    by (intro properties_for_sort) (simp_all add: sorted_wrt_take)
  then show ?thesis using qr SortResult_sort [of qr] by (auto simp: qr_inv_def)
qed

text \<open>
  C24 A result set of \<open>K\<close> places, offered any sequence of points and then sorted, holds exactly the
  \<open>K\<close> smallest of them by distance and then id, in ascending order, padded with the empty result
  when fewer were offered.
\<close>

theorem QueryResultSet_top_k:
  assumes "0 < k"
  shows "\<exists>qr. qr_AddPoints (qr_Init t k maxDist) ps = Ret qr
    \<and> qr_results (qr_SortResult qr) =
        take k (sort (map (\<lambda>(v, d). BasicResult v d) ps @ replicate k (BasicResult (- 1) maxDist)))"
  using assms by (rule AddPoints_top_k)

theorem QueryResultSet_top_k_witness:
  "\<exists>qr. qr_AddPoints (qr_Init [] 2 (100 :: int)) [(7, 30), (3, 10), (9, 20), (4, 10)] = Ret qr
    \<and> qr_results (qr_SortResult qr) = [BasicResult 3 10, BasicResult 4 10]"
proof -
  have "take 2 (sort (map (\<lambda>(v, d). BasicResult v d) [(7, 30), (3, 10), (9, 20), (4, 10)]
      @ replicate 2 (BasicResult (- 1) 100))) = [BasicResult 3 (10 :: int), BasicResult 4 10]"
    by (simp add: less_eq_basicResult_def numeral_2_eq_2)
  then show ?thesis
    using QueryResultSet_top_k [of 2 "[]" "100 :: int" "[(7, 30), (3, 10), (9, 20), (4, 10)]"] by simp
qed

section \<open>Edges\<close>

text \<open>
  A selected head (\<open>node\<close>) of a vector (\<open>tonode\<close>), the order of \<open>EdgeCompare\<close>, and the sort by it that
  \<open>VectorIndex::SortSelections\<close> asks \<open>std::sort\<close> for.
\<close>

datatype 'f edge = Edge (egNode: int) (egTonode: int) (egDistance: 'f)

definition edge_less :: "'f :: linorder edge \<Rightarrow> 'f edge \<Rightarrow> bool" where
  "edge_less a b =
     (if egNode a = egNode b
      then if egDistance a = egDistance b then egTonode a < egTonode b else egDistance a < egDistance b
      else egNode a < egNode b)"

fun edge_insert :: "'f :: linorder edge \<Rightarrow> 'f edge list \<Rightarrow> 'f edge list" where
  "edge_insert x [] = [x]"
| "edge_insert x (y # ys) = (if edge_less y x then y # edge_insert x ys else x # y # ys)"

definition SortSelections :: "'f :: linorder edge list \<Rightarrow> 'f edge list" where
  "SortSelections es = foldr edge_insert es []"

lemma edge_insert_mset: "mset (edge_insert x ys) = add_mset x (mset ys)"
  by (induction ys) auto

lemma SortSelections_mset: "mset (SortSelections es) = mset es"
  by (induction es) (auto simp: SortSelections_def edge_insert_mset)

lemma edge_less_total: "\<not> edge_less a b \<Longrightarrow> \<not> edge_less b a \<Longrightarrow> a = b"
  by (cases a; cases b) (auto simp: edge_less_def split: if_splits)

lemma edge_less_trans: "edge_less a b \<Longrightarrow> edge_less b c \<Longrightarrow> edge_less a c"
  by (auto simp: edge_less_def split: if_splits)

lemma edge_less_irrefl [simp]: "\<not> edge_less a a"
  by (simp add: edge_less_def)

lemma edge_insert_sorted: "sorted_wrt (\<lambda>a b. \<not> edge_less b a) ys \<Longrightarrow> sorted_wrt (\<lambda>a b. \<not> edge_less b a) (edge_insert x ys)"
proof (induction ys)
  case Nil
  then show ?case by simp
next
  case (Cons y ys)
  have s: "set (edge_insert x ys) = insert x (set ys)" by (metis edge_insert_mset set_mset_add_mset_insert set_mset_mset)
  show ?case
  proof (cases "edge_less y x")
    case True
    have "\<not> edge_less x y" using True edge_less_trans [of y x y] by auto
    then show ?thesis using Cons True s by auto
  next
    case False
    have "\<not> edge_less z x" if "z \<in> set ys" for z
      using that Cons.prems False edge_less_total edge_less_trans by (metis sorted_wrt.simps(2))
    then show ?thesis using Cons False by auto
  qed
qed

lemma SortSelections_sorted: "sorted_wrt (\<lambda>a b. \<not> edge_less b a) (SortSelections es)"
  unfolding SortSelections_def by (induction es) (auto intro: edge_insert_sorted)

end
