(* ===== verification/SearchQueues.thy ===== *)
theory SearchQueues
  imports QueryResults
begin

text \<open>
  The queues of a graph search: \<open>COMMON::Heap<NodeDistPair>\<close> (Common/Heap.h), a bounded queue of
  nodes by ascending distance, and \<open>DistPriorityQueue\<close> (Common/WorkSpace.h), which keeps the
  bound the \<open>k\<close> best distances seen so far give. Slot 0 of the 1-based arrays is apart:
  \<open>hp_zero\<close> is what \<open>Top\<close> and \<open>pop\<close> answer on an empty queue.
\<close>

section \<open>Heap\<close>

datatype 'f nodeDistPair = NodeDistPair (ndNode: int) (ndDist: 'f)

text \<open>In the min-heap a node lies below another when its distance is greater.\<close>

definition nd_below :: "('f :: linorder) nodeDistPair \<Rightarrow> 'f nodeDistPair \<Rightarrow> bool" where
  "nd_below a b \<longleftrightarrow> ndDist a > ndDist b"

interpretation nodeOrder: heap_order "nd_below :: ('f :: linorder) nodeDistPair \<Rightarrow> 'f nodeDistPair \<Rightarrow> bool"
  by unfold_locales (auto simp: nd_below_def)

record 'f nodeHeap =
  hp_zero :: "'f nodeDistPair"
  hp_slots :: "'f nodeDistPair list"
  hp_count :: nat
  hp_lastlevel :: nat

text \<open>\<open>int(pow(2.0, floor(log2((float)size))))\<close>.\<close>

fun pow2_floor :: "nat \<Rightarrow> nat" where
  "pow2_floor n = (if n = 0 then 0 else if n = 1 then 1 else 2 * pow2_floor (n div 2))"

declare pow2_floor.simps [simp del]

lemma pow2_floor_small [simp]: "pow2_floor 0 = 0" "pow2_floor (Suc 0) = Suc 0"
  by (simp_all add: pow2_floor.simps)

lemma pow2_floor_le: "pow2_floor n \<le> n"
proof (induction n rule: pow2_floor.induct)
  case (1 n)
  show ?case by (cases "n = 0 \<or> n = 1") (use 1 in \<open>auto simp: pow2_floor.simps [of n]\<close>)
qed

lemma pow2_floor_pos: "0 < n \<Longrightarrow> 0 < pow2_floor n"
proof (induction n rule: pow2_floor.induct)
  case (1 n)
  show ?case
  proof (cases "n = 1")
    case True
    then show ?thesis by simp
  next
    case False
    then show ?thesis using 1 by (auto simp: pow2_floor.simps [of n])
  qed
qed

definition hp_Resize :: "nat \<Rightarrow> 'f nodeDistPair \<Rightarrow> 'f nodeHeap" where
  "hp_Resize sz dflt = \<lparr>hp_zero = dflt, hp_slots = replicate sz dflt, hp_count = 0, hp_lastlevel = pow2_floor sz\<rparr>"

definition hp_empty :: "'f nodeHeap \<Rightarrow> bool" where
  "hp_empty h \<longleftrightarrow> hp_count h = 0"

definition hp_clear :: "'f nodeHeap \<Rightarrow> 'f nodeHeap" where
  "hp_clear h = h\<lparr>hp_count := 0\<rparr>"

definition hp_Top :: "'f nodeHeap \<Rightarrow> 'f nodeDistPair" where
  "hp_Top h = (if hp_count h = 0 then hp_zero h else hp_slots h ! 0)"

text \<open>The scan for the greatest slot among \<open>heap[lastlevel .. length]\<close> (positions from 0 here).\<close>

fun hp_maxFrom :: "('f :: linorder) nodeDistPair list \<Rightarrow> nat \<Rightarrow> nat list \<Rightarrow> nat" where
  "hp_maxFrom slots maxi [] = maxi"
| "hp_maxFrom slots maxi (i # is) =
     hp_maxFrom slots (if ndDist (slots ! maxi) < ndDist (slots ! i) then i else maxi) is"

definition hp_insert :: "('f :: linorder) nodeHeap \<Rightarrow> 'f nodeDistPair \<Rightarrow> 'f nodeHeap" where
  "hp_insert h v =
     (let len = length (hp_slots h)
      in if hp_count h = len
         then if len = 0
              then if ndDist v > ndDist (hp_zero h) then h else h\<lparr>hp_zero := v\<rparr>
              else let maxi = hp_maxFrom (hp_slots h) (hp_lastlevel h - 1) [hp_lastlevel h ..< len]
                   in if ndDist v > ndDist (hp_slots h ! maxi) then h
                      else h\<lparr>hp_slots := siftUp nd_below v maxi (hp_slots h)\<rparr>
         else h\<lparr>hp_count := hp_count h + 1, hp_slots := siftUp nd_below v (hp_count h) (hp_slots h)\<rparr>)"

text \<open>\<open>bool pop(T& value)\<close>.\<close>

definition hp_pop :: "('f :: linorder) nodeHeap \<Rightarrow> ('f nodeDistPair \<times> 'f nodeHeap) option" where
  "hp_pop h =
     (if hp_count h = 0 then None
      else Some (hp_slots h ! 0,
        h\<lparr>hp_count := hp_count h - 1,
          hp_slots := siftDown nd_below (hp_count h - 1) (swapAt 0 (hp_count h - 1) (hp_slots h))\<rparr>))"

text \<open>\<open>T& pop()\<close>: the same node, or slot 0.\<close>

definition hp_popRef :: "('f :: linorder) nodeHeap \<Rightarrow> 'f nodeDistPair \<times> 'f nodeHeap" where
  "hp_popRef h = (case hp_pop h of None \<Rightarrow> (hp_zero h, h) | Some r \<Rightarrow> r)"

definition hp_inv :: "('f :: linorder) nodeHeap \<Rightarrow> bool" where
  "hp_inv h \<longleftrightarrow> heapOf nd_below (hp_count h) (hp_slots h)
     \<and> hp_lastlevel h = pow2_floor (length (hp_slots h))"

definition hp_nodes :: "'f nodeHeap \<Rightarrow> 'f nodeDistPair multiset" where
  "hp_nodes h = mset (take (hp_count h) (hp_slots h))"

lemma hp_inv_Resize: "hp_inv (hp_Resize n d)" "hp_nodes (hp_Resize n d) = {#}"
  by (simp_all add: hp_inv_def hp_Resize_def heapOf_def hp_nodes_def)

lemma mset_take_split: "n \<le> length xs \<Longrightarrow> mset xs = mset (take n xs) + mset (drop n xs)"
  by (metis append_take_drop_id mset_append)

lemma hp_insert_room:
  assumes inv: "hp_inv h" and room: "hp_count h < length (hp_slots h)"
  shows "hp_inv (hp_insert h v) \<and> hp_nodes (hp_insert h v) = hp_nodes h + {#v#}
    \<and> hp_count (hp_insert h v) = hp_count h + 1
    \<and> length (hp_slots (hp_insert h v)) = length (hp_slots h)"
proof -
  let ?n = "hp_count h"
  let ?s = "hp_slots h"
  let ?r = "siftUp nd_below v ?n ?s"
  have no_child: "False" if "0 < i" "i < Suc ?n" "up i = ?n" for i
    using that up_less [of i] by simp
  have su: "heapOf nd_below (Suc ?n) ?r \<and> mset ?r = mset (?s[?n := v]) \<and> length ?r = length ?s
    \<and> (\<forall>i \<ge> Suc ?n. i < length ?s \<longrightarrow> ?r ! i = ?s ! i)"
  proof (rule nodeOrder.siftUp_heap)
    show "Suc ?n \<le> length ?s" "?n < Suc ?n" using room by simp_all
    show "\<not> nd_below (?s ! up i) (?s ! i)" if "0 < i" "i < Suc ?n" "i \<noteq> ?n" for i
      using inv that by (simp add: hp_inv_def heapOf_def)
  qed (use no_child in blast)+
  have e: "hp_insert h v = h\<lparr>hp_count := ?n + 1, hp_slots := ?r\<rparr>"
    using room by (simp add: hp_insert_def Let_def)
  have "drop (Suc ?n) ?r = drop (Suc ?n) ?s" using su by (intro nth_equalityI) auto
  moreover have "drop (Suc ?n) (?s[?n := v]) = drop (Suc ?n) ?s" by simp
  ultimately have "mset (take (Suc ?n) ?r) = mset (take (Suc ?n) (?s[?n := v]))"
    using mset_take_split [of "Suc ?n" ?r] mset_take_split [of "Suc ?n" "?s[?n := v]"] su room by simp
  also have "take (Suc ?n) (?s[?n := v]) = take ?n ?s @ [v]"
    using room by (simp add: take_Suc_conv_app_nth)
  finally have "mset (take (Suc ?n) ?r) = mset (take ?n ?s) + {#v#}" by simp
  then show ?thesis using e su inv by (simp add: hp_inv_def hp_nodes_def)
qed

lemma hp_pop_some:
  assumes inv: "hp_inv h" and ne: "hp_count h \<noteq> 0"
  shows "\<exists>v h'. hp_pop h = Some (v, h') \<and> hp_inv h' \<and> hp_nodes h = hp_nodes h' + {#v#}
    \<and> hp_count h' = hp_count h - 1 \<and> length (hp_slots h') = length (hp_slots h)
    \<and> (\<forall>w \<in># hp_nodes h. ndDist v \<le> ndDist w)"
proof -
  obtain m where m: "hp_count h = Suc m" using ne by (cases "hp_count h") auto
  let ?s = "hp_slots h"
  let ?y = "swapAt 0 m ?s"
  let ?r = "siftDown nd_below m ?y"
  have hs: "heapOf nd_below (Suc m) ?s" using inv m by (simp add: hp_inv_def)
  then have l: "m < length ?s" "0 < length ?s" by (auto simp: heapOf_def)
  note sw = nth_swapAt [OF l(2,1)]
  have hb: "heapBut nd_below m 0 ?y"
    unfolding heapBut_def
  proof (intro conjI allI impI)
    show "m \<le> length ?y" using l by simp
    fix k assume k: "0 < k \<and> k < m \<and> up k \<noteq> 0"
    have "up k < m" using k up_less [of k] by simp
    then have "?y ! up k = ?s ! up k" "?y ! k = ?s ! k" using sw k by auto
    then show "\<not> nd_below (?y ! up k) (?y ! k)" using hs k by (simp add: heapOf_def)
  qed auto
  note sd = nodeOrder.siftDown_heap [OF hb]
  have dr: "drop m ?r = drop m ?y" using sd(3,4) by (intro nth_equalityI) auto
  have "mset (take m ?r) + mset (drop m ?r) = mset (take m ?y) + mset (drop m ?y)"
    using sd(2,3) mset_take_split [of m ?r] mset_take_split [of m ?y] l by simp
  then have tk: "mset (take m ?r) = mset (take m ?y)" using dr by simp
  have "drop (Suc m) ?y = drop (Suc m) ?s" using sw by (intro nth_equalityI) auto
  moreover have "mset ?y = mset ?s" by (rule mset_swapAt [OF l(2,1)])
  ultimately have "mset (take (Suc m) ?y) = mset (take (Suc m) ?s)"
    using mset_take_split [of "Suc m" ?y] mset_take_split [of "Suc m" ?s] l by simp
  moreover have "?y ! m = ?s ! 0" using sw [of m] by (cases "m = 0") auto
  then have "take (Suc m) ?y = take m ?y @ [?s ! 0]" using l by (simp add: take_Suc_conv_app_nth)
  ultimately have nodes: "mset (take (Suc m) ?s) = mset (take m ?r) + {#?s ! 0#}" using tk by simp
  have min: "ndDist (?s ! 0) \<le> ndDist w" if "w \<in># mset (take (Suc m) ?s)" for w
  proof -
    have "w \<in> set (take (Suc m) ?s)" using that by simp
    then obtain i where "i < length (take (Suc m) ?s)" "w = take (Suc m) ?s ! i" by (metis in_set_conv_nth)
    then have "i < Suc m" "w = ?s ! i" by simp_all
    then show ?thesis using nodeOrder.root_max [OF hs, of i] by (simp add: nd_below_def not_less)
  qed
  show ?thesis
    using m nodes min sd inv by (simp add: hp_pop_def hp_inv_def hp_nodes_def)
qed

text \<open>Full: the greatest leaf of the last level makes room, or the new node is dropped.\<close>

lemma hp_maxFrom_in: "hp_maxFrom slots i is = i \<or> hp_maxFrom slots i is \<in> set is"
  by (induction "is" arbitrary: i) (auto split: if_splits)

lemma pow2_floor_half: "0 < n \<Longrightarrow> n < 2 * pow2_floor n"
proof (induction n rule: pow2_floor.induct)
  case (1 n)
  show ?case
  proof (cases "n = 1")
    case True
    then show ?thesis by simp
  next
    case False
    then show ?thesis using 1 by (auto simp: pow2_floor.simps [of n])
  qed
qed

lemma hp_insert_full:
  assumes inv: "hp_inv h" and full: "hp_count h = length (hp_slots h)" "hp_slots h \<noteq> []"
  shows "hp_inv (hp_insert h v) \<and> hp_count (hp_insert h v) = hp_count h
    \<and> length (hp_slots (hp_insert h v)) = length (hp_slots h)
    \<and> (hp_nodes (hp_insert h v) = hp_nodes h
      \<or> (\<exists>w. w \<in># hp_nodes h \<and> ndDist v \<le> ndDist w \<and> hp_nodes (hp_insert h v) = hp_nodes h - {#w#} + {#v#}))"
proof -
  let ?s = "hp_slots h"
  let ?n = "length ?s"
  let ?l = "hp_lastlevel h"
  let ?m = "hp_maxFrom ?s (?l - 1) [?l ..< ?n]"
  have n0: "0 < ?n" using full by simp
  have l: "0 < ?l" "?l \<le> ?n" "?n < 2 * ?l"
    using inv n0 pow2_floor_le pow2_floor_pos pow2_floor_half by (simp_all add: hp_inv_def)
  have ml: "?m < ?n" "?l - 1 \<le> ?m" using hp_maxFrom_in [of ?s "?l - 1" "[?l ..< ?n]"] l by auto
  show ?thesis
  proof (cases "ndDist v > ndDist (?s ! ?m)")
    case True
    then have "hp_insert h v = h" using full by (simp add: hp_insert_def Let_def)
    then show ?thesis using inv by simp
  next
    case False
    let ?r = "siftUp nd_below v ?m ?s"
    have e: "hp_insert h v = h\<lparr>hp_slots := ?r\<rparr>"
      using False full by (simp add: hp_insert_def Let_def)
    have no_child: "False" if "0 < i" "i < ?n" "up i = ?m" for i
      using that ml l by (auto simp: up_child)
    have su: "heapOf nd_below ?n ?r \<and> mset ?r = mset (?s[?m := v]) \<and> length ?r = length ?s
      \<and> (\<forall>i \<ge> ?n. i < length ?s \<longrightarrow> ?r ! i = ?s ! i)"
    proof (rule nodeOrder.siftUp_heap)
      show "?n \<le> length ?s" "?m < ?n" using ml by simp_all
      show "\<not> nd_below (?s ! up i) (?s ! i)" if "0 < i" "i < ?n" "i \<noteq> ?m" for i
        using inv that full by (simp add: hp_inv_def heapOf_def)
    qed (use no_child in blast)+
    have "mset ?r = mset ?s - {#?s ! ?m#} + {#v#}"
      using su ml by (simp add: mset_update)
    then have "hp_nodes (hp_insert h v) = hp_nodes h - {#?s ! ?m#} + {#v#}"
      using e su full by (simp add: hp_nodes_def)
    moreover have "?s ! ?m \<in># hp_nodes h" using full ml by (simp add: hp_nodes_def)
    moreover have "hp_inv (hp_insert h v)" using e su inv full by (simp add: hp_inv_def)
    ultimately show ?thesis using e su False full by (auto simp: not_less)
  qed
qed

text \<open>Storing nodes one after the other, and taking \<open>n\<close> of them out.\<close>

definition hp_inserts :: "('f :: linorder) nodeHeap \<Rightarrow> 'f nodeDistPair list \<Rightarrow> 'f nodeHeap" where
  "hp_inserts h vs = fold (\<lambda>v h. hp_insert h v) vs h"

fun hp_pops :: "nat \<Rightarrow> ('f :: linorder) nodeHeap \<Rightarrow> 'f nodeDistPair list" where
  "hp_pops 0 h = []"
| "hp_pops (Suc n) h = (case hp_pop h of None \<Rightarrow> [] | Some (v, h') \<Rightarrow> v # hp_pops n h')"

lemma hp_inserts_room:
  "hp_inv h \<Longrightarrow> hp_count h + length vs \<le> length (hp_slots h) \<Longrightarrow>
    hp_inv (hp_inserts h vs) \<and> hp_nodes (hp_inserts h vs) = hp_nodes h + mset vs
    \<and> hp_count (hp_inserts h vs) = hp_count h + length vs"
proof (induction vs arbitrary: h)
  case (Cons v vs)
  have "hp_count h < length (hp_slots h)" using Cons.prems by simp
  note st = hp_insert_room [OF Cons.prems(1) this, of v]
  have "hp_inserts h (v # vs) = hp_inserts (hp_insert h v) vs" by (simp add: hp_inserts_def)
  then show ?case using Cons.IH [of "hp_insert h v"] Cons.prems st by simp
qed (simp add: hp_inserts_def)

lemma hp_pops_sorted:
  "hp_inv h \<Longrightarrow> hp_count h = n \<Longrightarrow> mset (hp_pops n h) = hp_nodes h \<and> sorted (map ndDist (hp_pops n h))"
proof (induction n arbitrary: h)
  case 0
  then show ?case by (simp add: hp_nodes_def)
next
  case (Suc n)
  obtain v h' where p: "hp_pop h = Some (v, h')" "hp_inv h'" "hp_nodes h = hp_nodes h' + {#v#}"
      "hp_count h' = hp_count h - 1" "\<forall>w \<in># hp_nodes h. ndDist v \<le> ndDist w"
    using hp_pop_some [of h] Suc.prems by auto
  have ih: "mset (hp_pops n h') = hp_nodes h'" "sorted (map ndDist (hp_pops n h'))"
    using Suc.IH [of h'] p Suc.prems by auto
  have "ndDist v \<le> d" if "d \<in> set (map ndDist (hp_pops n h'))" for d
  proof -
    obtain w where w: "w \<in> set (hp_pops n h')" "d = ndDist w" using \<open>d \<in> _\<close> by auto
    then have "w \<in># hp_nodes h'" using ih(1) by (metis set_mset_mset)
    then show ?thesis using p(3,5) w by auto
  qed
  then show ?case using p ih by simp
qed

section \<open>DistPriorityQueue\<close>

text \<open>\<open>dq_data\<close> is \<open>m_data\<close> from its slot 1 on; \<open>fill\<close> stands for what fresh memory holds.\<close>

record 'f distQueue =
  dq_size :: nat
  dq_data :: "'f list"
  dq_length :: nat
  dq_count :: nat

text \<open>A queue of no places has no slot 1 to store \<open>MaxDist\<close> in.\<close>

definition dq_Resize :: "'f \<Rightarrow> 'f \<Rightarrow> nat \<Rightarrow> 'f distQueue outcome" where
  "dq_Resize maxDist fill sz =
     (if sz = 0 then Fault
      else Ret \<lparr>dq_size = sz, dq_data = (replicate sz fill)[0 := maxDist], dq_length = 1, dq_count = sz\<rparr>)"

definition dq_clear :: "'f \<Rightarrow> 'f \<Rightarrow> nat \<Rightarrow> 'f distQueue \<Rightarrow> 'f distQueue outcome" where
  "dq_clear maxDist fill cnt q =
     (let q1 = (if cnt > dq_size q then q\<lparr>dq_size := cnt, dq_data := replicate cnt fill\<rparr> else q)
      in if dq_data q1 = [] then Fault
         else Ret (q1\<lparr>dq_data := (dq_data q1)[0 := maxDist], dq_length := 1, dq_count := cnt\<rparr>))"

definition dq_worst :: "'f distQueue \<Rightarrow> 'f" where
  "dq_worst q = dq_data q ! 0"

text \<open>The branch on \<open>m_length < m_count\<close> is the code's \<open>else\<close>; past the array it writes out of bounds.\<close>

definition dq_insert :: "('f :: linorder) distQueue \<Rightarrow> 'f \<Rightarrow> (bool \<times> 'f distQueue) outcome" where
  "dq_insert q dist =
     (if dist > dq_data q ! 0 then Ret (False, q)
      else if dq_length q = dq_count q
      then Ret (True, q\<lparr>dq_data := siftDown (<) (dq_length q) ((dq_data q)[0 := dist])\<rparr>)
      else if dq_length q \<ge> length (dq_data q) then Fault
      else Ret (True, q\<lparr>dq_length := dq_length q + 1, dq_data := siftUp (<) dist (dq_length q) (dq_data q)\<rparr>))"

fun dq_inserts :: "('f :: linorder) distQueue \<Rightarrow> 'f list \<Rightarrow> 'f distQueue outcome" where
  "dq_inserts q [] = Ret q"
| "dq_inserts q (d # ds) = andThen (dq_insert q d) (\<lambda>(b, q'). dq_inserts q' ds)"

interpretation distOrder: heap_order "(<) :: ('f :: linorder) \<Rightarrow> 'f \<Rightarrow> bool"
  by unfold_locales auto

text \<open>The bound stands for \<open>m_count\<close> distances, those not offered yet counted as \<open>MaxDist\<close>.\<close>

definition dq_inv :: "('f :: linorder) \<Rightarrow> 'f distQueue \<Rightarrow> 'f list \<Rightarrow> bool" where
  "dq_inv m q ds \<longleftrightarrow> 0 < dq_length q \<and> dq_length q \<le> dq_count q \<and> dq_count q \<le> length (dq_data q)
     \<and> dq_count q \<le> length ds
     \<and> heapOf (<) (dq_length q) (dq_data q) \<and> (\<forall>d \<in> set ds. d \<le> m)
     \<and> (dq_length q < dq_count q \<longrightarrow> m \<in> set (take (dq_length q) (dq_data q)))
     \<and> mset (take (dq_length q) (dq_data q)) + replicate_mset (dq_count q - dq_length q) m
       = mset (smallest (dq_count q) ds)"

lemma dq_root_max:
  assumes "dq_inv m q ds" "d \<in> set (take (dq_length q) (dq_data q))"
  shows "d \<le> dq_worst q"
proof -
  obtain i where "i < length (take (dq_length q) (dq_data q))" "d = take (dq_length q) (dq_data q) ! i"
    using assms(2) by (metis in_set_conv_nth)
  then have "i < dq_length q" "d = dq_data q ! i" by simp_all
  then show ?thesis
    using distOrder.root_max [of "dq_length q" "dq_data q" i] assms(1) by (simp add: dq_inv_def dq_worst_def not_less)
qed

lemma dq_insert_inv:
  assumes inv: "dq_inv m q ds" and d: "d \<le> m"
  shows "\<exists>b q'. dq_insert q d = Ret (b, q') \<and> dq_inv m q' (d # ds) \<and> dq_count q' = dq_count q"
proof -
  let ?n = "dq_length q" and ?c = "dq_count q" and ?s = "dq_data q"
  let ?rs = "take ?n ?s @ replicate (?c - ?n) m"
  let ?r = "?s ! 0"
  have n: "0 < ?n" "?n \<le> ?c" "?c \<le> length ?s" "?c \<le> length ds" and hs: "heapOf (<) ?n ?s"
    and all: "\<forall>d \<in> set ds. d \<le> m" and mr: "mset ?rs = mset (smallest ?c ds)"
    and top: "?n < ?c \<Longrightarrow> m \<in> set (take ?n ?s)"
    using inv by (simp_all add: dq_inv_def)
  have r0: "?r \<in> set (take ?n ?s)" using n by (auto simp: in_set_conv_nth intro!: exI [of _ 0])
  then have rin: "?r \<in> set ?rs" by simp
  have sub: "set ?rs \<subseteq> set ds"
    using mr by (metis set_mset_mset set_sort set_take_subset smallest_def)
  have rmax: "\<forall>y \<in> set ?rs. y \<le> ?r"
    using dq_root_max [OF inv] top by (auto simp: dq_worst_def)
  have c0: "0 < ?c" using n by simp
  note sm = smallest_insert [OF n(4) c0 mr rin rmax, of d]
  have smeq: "mset (smallest ?c (d # ds)) = mset ?rs - {#?r#} + {#d#}" if "\<not> d > ?r"
  proof (cases "d = ?r")
    case True
    have "?r \<in># mset ?rs" using rin by (metis set_mset_mset)
    then have "mset ?rs - {#?r#} + {#?r#} = mset ?rs" by (metis insert_DiffM2)
    then show ?thesis using True sm(2) mr by (metis that)
  next
    case False
    then show ?thesis using sm(1) that by simp
  qed
  have hd_split: "mset (take ?n ?s) = {#?r#} + mset (drop 1 (take ?n ?s))"
    using n by (cases ?s; cases ?n) auto
  consider "d > ?r" | "\<not> d > ?r" "?n = ?c" | "\<not> d > ?r" "?n < ?c" using n by linarith
  then show ?thesis
  proof cases
    case 1
    then have "dq_insert q d = Ret (False, q)" by (simp add: dq_insert_def)
    moreover have "dq_inv m q (d # ds)" using inv sm(2) 1 d by (simp add: dq_inv_def)
    ultimately show ?thesis by (intro exI [of _ False] exI [of _ q]) simp
  next
    case 2
    let ?q = "q\<lparr>dq_data := siftDown (<) ?n (?s[0 := d])\<rparr>"
    have "dq_insert q d = Ret (True, ?q)" using 2 by (simp add: dq_insert_def)
    moreover have "dq_inv m ?q (d # ds)"
    proof -
      note sd = distOrder.siftDown_heap [OF distOrder.heapBut_root [OF hs, of d]]
      let ?t = "siftDown (<) ?n (?s[0 := d])"
      have "drop ?n ?t = drop ?n (?s[0 := d])" using sd(3,4) by (intro nth_equalityI) auto
      then have "mset (take ?n ?t) = mset (take ?n (?s[0 := d]))"
        using sd(2,3) mset_take_split [of ?n ?t] mset_take_split [of ?n "?s[0 := d]"] n by simp
      also have "\<dots> = {#d#} + mset (drop 1 (take ?n ?s))" using n by (cases ?s; cases ?n) auto
      finally have "mset (take ?n ?t) = mset (smallest ?c (d # ds))"
        using smeq 2 hd_split by simp
      then show ?thesis using sd(1,3) n all d 2 by (simp add: dq_inv_def)
    qed
    ultimately show ?thesis by (intro exI [of _ True] exI [of _ ?q]) simp
  next
    case 3
    let ?t = "siftUp (<) d ?n ?s"
    let ?q = "q\<lparr>dq_length := ?n + 1, dq_data := ?t\<rparr>"
    have "dq_insert q d = Ret (True, ?q)" using 3 n by (simp add: dq_insert_def)
    moreover have "dq_inv m ?q (d # ds)"
    proof -
      have no_child: "False" if "0 < i" "i < Suc ?n" "up i = ?n" for i
        using that up_less [of i] by simp
      have su: "heapOf (<) (Suc ?n) ?t \<and> mset ?t = mset (?s[?n := d]) \<and> length ?t = length ?s
        \<and> (\<forall>i \<ge> Suc ?n. i < length ?s \<longrightarrow> ?t ! i = ?s ! i)"
      proof (rule distOrder.siftUp_heap)
        show "Suc ?n \<le> length ?s" "?n < Suc ?n" using 3 n by simp_all
        show "\<not> ?s ! up i < ?s ! i" if "0 < i" "i < Suc ?n" "i \<noteq> ?n" for i
          using hs that by (simp add: heapOf_def)
      qed (use no_child in blast)+
      have "drop (Suc ?n) ?t = drop (Suc ?n) (?s[?n := d])" using su by (intro nth_equalityI) auto
      then have "mset (take (Suc ?n) ?t) = mset (take (Suc ?n) (?s[?n := d]))"
        using mset_take_split [of "Suc ?n" ?t] mset_take_split [of "Suc ?n" "?s[?n := d]"] su 3 n by simp
      also have "take (Suc ?n) (?s[?n := d]) = take ?n ?s @ [d]"
        using 3 n by (simp add: take_Suc_conv_app_nth)
      finally have tk: "mset (take (Suc ?n) ?t) = mset (take ?n ?s) + {#d#}" by simp
      have rm: "?r = m" using rmax top [OF 3(2)] sub rin all by (auto intro: antisym)
      have "?c - ?n = Suc (?c - Suc ?n)" using 3 by simp
      then have "mset ?rs - {#?r#} + {#d#} = mset (take ?n ?s) + replicate_mset (?c - Suc ?n) m + {#d#}"
        using rm by simp
      then have "mset (take (Suc ?n) ?t) + replicate_mset (?c - Suc ?n) m = mset (smallest ?c (d # ds))"
        using smeq 3 tk by simp
      moreover have "m \<in> set (take (Suc ?n) ?t)" using tk top [OF 3(2)]
        by (metis set_mset_mset union_iff)
      ultimately show ?thesis using su n all d 3 by (simp add: dq_inv_def)
    qed
    ultimately show ?thesis by (intro exI [of _ True] exI [of _ ?q]) simp
  qed
qed

lemma dq_inserts_inv:
  "dq_inv m q ds \<Longrightarrow> \<forall>d \<in> set xs. d \<le> m \<Longrightarrow>
    \<exists>q'. dq_inserts q xs = Ret q' \<and> dq_inv m q' (rev xs @ ds) \<and> dq_count q' = dq_count q"
proof (induction xs arbitrary: q ds)
  case (Cons x xs)
  obtain b q1 where "dq_insert q x = Ret (b, q1)" "dq_inv m q1 (x # ds)" "dq_count q1 = dq_count q"
    using dq_insert_inv [OF Cons.prems(1), of x] Cons.prems(2) by auto
  then show ?case using Cons.IH [of q1 "x # ds"] Cons.prems(2) by auto
qed simp

lemma dq_inv_start:
  assumes "0 < c" "c \<le> length xs"
  shows "dq_inv m \<lparr>dq_size = sz, dq_data = xs[0 := m], dq_length = 1, dq_count = c\<rparr> (replicate c m)"
proof -
  have "sort (replicate c m) = replicate c m" by (simp add: sorted_sort_id)
  moreover have "replicate_mset c m = {#m#} + replicate_mset (c - 1) m" using assms(1) by (cases c) auto
  ultimately show ?thesis using assms by (cases xs) (auto simp: dq_inv_def heapOf_def smallest_def)
qed

lemma dq_worst_inv:
  assumes "dq_inv m q ds"
  shows "dq_worst q = sort ds ! (dq_count q - 1)"
proof -
  let ?n = "dq_length q" and ?c = "dq_count q" and ?s = "dq_data q"
  have n: "0 < ?n" "?n \<le> ?c" "?c \<le> length ?s" "?c \<le> length ds" and all: "\<forall>d \<in> set ds. d \<le> m"
    and mr: "mset (take ?n ?s @ replicate (?c - ?n) m) = mset (smallest ?c ds)"
    and top: "?n < ?c \<Longrightarrow> m \<in> set (take ?n ?s)"
    using assms by (simp_all add: dq_inv_def)
  let ?w = "dq_worst q"
  have set_eq: "set (take ?n ?s @ replicate (?c - ?n) m) = set (smallest ?c ds)"
    using mr by (metis set_mset_mset)
  have "?w \<in> set (take ?n ?s)"
    using n by (auto simp: dq_worst_def in_set_conv_nth intro!: exI [of _ 0])
  then have win: "?w \<in> set (smallest ?c ds)" using set_eq by auto
  have "y \<le> ?w" if "y \<in> set (smallest ?c ds)" for y
  proof -
    have "y \<in> set (take ?n ?s) \<or> ?n < ?c \<and> y = m" using that unfolding set_eq [symmetric] by auto
    then show ?thesis using dq_root_max [OF assms] top by auto
  qed
  moreover have "smallest ?c ds ! (?c - 1) \<in> set (smallest ?c ds)"
    using n by (intro nth_mem) (simp add: smallest_def)
  ultimately have a: "smallest ?c ds ! (?c - 1) \<le> ?w" by blast
  obtain i where i: "i < length (smallest ?c ds)" "?w = smallest ?c ds ! i"
    using win by (metis in_set_conv_nth)
  have "sorted (smallest ?c ds)" by (simp add: smallest_def sorted_wrt_take)
  then have "?w \<le> smallest ?c ds ! (?c - 1)"
    using i n by (simp add: smallest_def sorted_nth_mono)
  then have "?w = smallest ?c ds ! (?c - 1)" using a by simp
  then show ?thesis using n by (simp add: smallest_def)
qed

text \<open>
  A \<open>Heap<NodeDistPair>\<close> of room for all the nodes stored in it hands them out by ascending
  distance, each exactly as often as it was stored.
\<close>

theorem Heap_pops_ascending:
  assumes "length vs \<le> n"
  shows "mset (hp_pops (length vs) (hp_inserts (hp_Resize n d) vs)) = mset vs
    \<and> sorted (map ndDist (hp_pops (length vs) (hp_inserts (hp_Resize n d) vs)))"
proof -
  have "hp_count (hp_Resize n d) = 0" "length (hp_slots (hp_Resize n d)) = n" by (simp_all add: hp_Resize_def)
  then show ?thesis
    using hp_inserts_room [of "hp_Resize n d" vs] hp_inv_Resize [of n d] hp_pops_sorted assms by force
qed

theorem Heap_pops_ascending_witness:
  "mset (hp_pops 3 (hp_inserts (hp_Resize 4 (NodeDistPair (- 1) (0 :: int)))
      [NodeDistPair 5 30, NodeDistPair 6 10, NodeDistPair 7 20]))
    = {#NodeDistPair 5 30, NodeDistPair 6 10, NodeDistPair 7 20#}"
  using Heap_pops_ascending [of "[NodeDistPair 5 30, NodeDistPair 6 10, NodeDistPair 7 (20 :: int)]" 4]
  by (simp add: numeral_3_eq_3)

text \<open>
  A full \<open>Heap<NodeDistPair>\<close> offered one more node never grows: it either keeps its nodes, or
  gives up one node of the last level that is not nearer than the new one, which is stored instead.
\<close>

theorem Heap_full_insert:
  assumes "hp_inv h" "hp_count h = length (hp_slots h)" "hp_slots h \<noteq> []"
  shows "hp_inv (hp_insert h v) \<and> hp_count (hp_insert h v) = hp_count h
    \<and> (hp_nodes (hp_insert h v) = hp_nodes h
      \<or> (\<exists>w. w \<in># hp_nodes h \<and> ndDist v \<le> ndDist w \<and> hp_nodes (hp_insert h v) = hp_nodes h - {#w#} + {#v#}))"
  using hp_insert_full [OF assms] by blast

text \<open>
  After any distances were offered, \<open>worst()\<close> of a \<open>DistPriorityQueue\<close> is the \<open>m_count\<close>-th
  smallest of them, those missing counted as \<open>MaxDist\<close>; none of the calls writes out of bounds.
\<close>

theorem DistPriorityQueue_worst:
  assumes "0 < n" "\<forall>d \<in> set ds. d \<le> maxDist"
  shows "\<exists>q. andThen (dq_Resize maxDist fill n) (\<lambda>q0. dq_inserts q0 ds) = Ret q
    \<and> dq_worst q = sort (ds @ replicate n maxDist) ! (n - 1)"
proof -
  let ?q0 = "\<lparr>dq_size = n, dq_data = (replicate n fill)[0 := maxDist], dq_length = 1, dq_count = n\<rparr>"
  have "dq_inv maxDist ?q0 (replicate n maxDist)" by (rule dq_inv_start) (use assms in simp_all)
  from dq_inserts_inv [OF this assms(2)] obtain q where q: "dq_inserts ?q0 ds = Ret q"
    "dq_inv maxDist q (rev ds @ replicate n maxDist)" "dq_count q = n" by auto
  have "sort (rev ds @ replicate n maxDist) = sort (ds @ replicate n maxDist)"
    by (intro properties_for_sort) simp_all
  then show ?thesis using q assms(1) dq_worst_inv [OF q(2)] by (simp add: dq_Resize_def)
qed

theorem Heap_full_insert_witness:
  "\<exists>h. hp_inv h \<and> hp_count h = 2 \<and> hp_count (hp_insert h (NodeDistPair 7 (20 :: int))) = 2"
proof -
  let ?h = "hp_inserts (hp_Resize 2 (NodeDistPair (- 1) (0 :: int))) [NodeDistPair 5 30, NodeDistPair 6 10]"
  have e: "?h = \<lparr>hp_zero = NodeDistPair (- 1) 0, hp_slots = [NodeDistPair 6 10, NodeDistPair 5 30],
      hp_count = 2, hp_lastlevel = 2\<rparr>"
    by (simp add: hp_inserts_def hp_Resize_def hp_insert_def Let_def siftUp.simps nd_below_def
        pow2_floor.simps numeral_2_eq_2)
  have "hp_inv ?h" unfolding e
    by (auto simp: hp_inv_def heapOf_def up_def nd_below_def pow2_floor.simps less_Suc_eq numeral_2_eq_2)
  then have "hp_count (hp_insert ?h (NodeDistPair 7 20)) = hp_count ?h"
    using Heap_full_insert [of ?h "NodeDistPair 7 20"] e by simp
  then show ?thesis using \<open>hp_inv ?h\<close> e by (intro exI [of _ ?h]) simp
qed

theorem DistPriorityQueue_worst_witness:
  "\<exists>q. andThen (dq_Resize 1000 0 2) (\<lambda>q0. dq_inserts q0 [30, 10, 50, 20 :: int]) = Ret q \<and> dq_worst q = 20"
proof -
  have "sort ([30, 10, 50, 20] @ replicate 2 1000) ! (2 - 1) = (20 :: int)"
    by (simp add: numeral_2_eq_2)
  then show ?thesis
    using DistPriorityQueue_worst [of 2 "[30, 10, 50, 20 :: int]" 1000 0] by simp
qed

end
