(* ===== verification/Postings.thy ===== *)
theory Postings
  imports LabelProps
begin

text \<open>
  The byte layout of a posting list, as ExtraDynamicSearcher.h reads and writes it: entries of
  \<open>m_vectorInfoSize\<close> bytes, each a 4-byte vector id, a version byte and the vector. The loops of
  \<open>Split\<close> and \<open>MergePostings\<close> over one posting (scan for live entries, compaction in place, gathering of
  chosen entries) are here with what they compute on the list of entries.
\<close>

section \<open>Loops over outcomes\<close>

fun foldO :: "('x \<Rightarrow> 's \<Rightarrow> 's outcome) \<Rightarrow> 'x list \<Rightarrow> 's \<Rightarrow> 's outcome" where
  "foldO f [] s = Ret s"
| "foldO f (x # xs) s = andThen (f x s) (foldO f xs)"

fun filterO :: "('x \<Rightarrow> bool outcome) \<Rightarrow> 'x list \<Rightarrow> 'x list outcome" where
  "filterO f [] = Ret []"
| "filterO f (x # xs) = andThen (f x) (\<lambda>b. andThen (filterO f xs) (\<lambda>ys. Ret (if b then x # ys else ys)))"

fun mapO :: "('x \<Rightarrow> 'y outcome) \<Rightarrow> 'x list \<Rightarrow> 'y list outcome" where
  "mapO f [] = Ret []"
| "mapO f (x # xs) = andThen (f x) (\<lambda>y. andThen (mapO f xs) (\<lambda>ys. Ret (y # ys)))"

lemma filterO_Ret: "(\<And>x. x \<in> set xs \<Longrightarrow> f x = Ret (P x)) \<Longrightarrow> filterO f xs = Ret (filter P xs)"
  by (induction xs) auto

lemma mapO_Ret: "(\<And>x. x \<in> set xs \<Longrightarrow> f x = Ret (g x)) \<Longrightarrow> mapO f xs = Ret (map g xs)"
  by (induction xs) auto

lemma foldO_append: "foldO f (xs @ ys) s = andThen (foldO f xs s) (foldO f ys)"
proof (induction xs arbitrary: s)
  case (Cons x xs)
  then have "(\<lambda>s. foldO f (xs @ ys) s) = (\<lambda>s. andThen (foldO f xs s) (foldO f ys))" by auto
  then show ?case by (simp add: andThen_assoc)
qed simp

lemma foldO_Ret: "(\<And>x s. x \<in> set xs \<Longrightarrow> f x s = Ret (g x s)) \<Longrightarrow> foldO f xs s = Ret (fold g xs s)"
  by (induction xs arbitrary: s) auto

section \<open>Reading entries\<close>

definition metaDataSize :: nat where
  "metaDataSize = 4 + 1"

definition pst_VID :: "bytes \<Rightarrow> nat \<Rightarrow> int outcome" where
  "pst_VID p off = andThen (deref (slice p (int off) 4)) (\<lambda>b. Ret (dec_sint b))"

definition pst_version :: "bytes \<Rightarrow> nat \<Rightarrow> byte outcome" where
  "pst_version p off = andThen (deref (slice p (int (off + 4)) 1)) (\<lambda>b. Ret (hd b))"

definition pst_entry :: "nat \<Rightarrow> bytes \<Rightarrow> nat \<Rightarrow> bytes outcome" where
  "pst_entry vis p j = deref (slice p (int (j * vis)) vis)"

definition pst_vector :: "nat \<Rightarrow> bytes \<Rightarrow> nat \<Rightarrow> bytes outcome" where
  "pst_vector vis p off = deref (slice p (int (off + metaDataSize)) (vis - metaDataSize))"

text \<open>\<open>m_versionMap->Deleted(VID) || m_versionMap->GetVersion(VID) != version\<close>.\<close>

definition isStale :: "versionLabel \<Rightarrow> int \<Rightarrow> byte \<Rightarrow> bool outcome" where
  "isStale vl vid version =
     andThen (vl_Deleted vl vid) (\<lambda>del.
       if del then Ret True
       else andThen (vl_GetVersion vl vid) (\<lambda>v. Ret (v \<noteq> version)))"

definition pst_isLive :: "versionLabel \<Rightarrow> nat \<Rightarrow> bytes \<Rightarrow> nat \<Rightarrow> bool outcome" where
  "pst_isLive vl vis p j =
     andThen (pst_VID p (j * vis)) (\<lambda>vid.
     andThen (pst_version p (j * vis)) (\<lambda>version.
     andThen (isStale vl vid version) (\<lambda>stale. Ret (\<not> stale))))"

text \<open>\<open>localIndices[0 .. index)\<close>: the positions of the live entries.\<close>

definition pst_live :: "versionLabel \<Rightarrow> nat \<Rightarrow> bytes \<Rightarrow> nat list outcome" where
  "pst_live vl vis p = filterO (pst_isLive vl vis p) [0 ..< length p div vis]"

section \<open>Moving entries\<close>

text \<open>The loop of the garbage collection: entry \<open>localIndices[j]\<close> moves to position \<open>j\<close>.\<close>

fun pst_compact :: "nat \<Rightarrow> nat \<Rightarrow> nat list \<Rightarrow> bytes \<Rightarrow> bytes outcome" where
  "pst_compact vis j [] p = Ret p"
| "pst_compact vis j (l # ls) p =
     (if j = l then pst_compact vis (Suc j) ls p
      else andThen (pst_entry vis p l) (\<lambda>e.
           andThen (deref (blit p (int (j * vis)) e)) (pst_compact vis (Suc j) ls)))"

text \<open>A new posting from the entries at the given positions.\<close>

definition pst_gather :: "nat \<Rightarrow> bytes \<Rightarrow> nat list \<Rightarrow> bytes outcome" where
  "pst_gather vis p ls = andThen (mapO (pst_entry vis p) ls) (\<lambda>es. Ret (concat es))"

text \<open>\<open>Serialize\<close> into a buffer of \<open>m_vectorInfoSize\<close> bytes.\<close>

definition pst_Serialize :: "nat \<Rightarrow> int \<Rightarrow> byte \<Rightarrow> bytes \<Rightarrow> bytes outcome" where
  "pst_Serialize vis vid version vector =
     andThen (deref (slice vector 0 (vis - metaDataSize))) (\<lambda>v. Ret (enc_int 4 vid @ version # v))"

section \<open>Postings as lists of entries\<close>

definition entriesOf :: "nat \<Rightarrow> bytes \<Rightarrow> bytes list" where
  "entriesOf vis p = map (\<lambda>j. take vis (drop (j * vis) p)) [0 ..< length p div vis]"

definition entryVID :: "bytes \<Rightarrow> int" where
  "entryVID e = dec_sint (take 4 e)"

definition entryVersion :: "bytes \<Rightarrow> byte" where
  "entryVersion e = e ! 4"

definition entryVector :: "bytes \<Rightarrow> bytes" where
  "entryVector e = drop metaDataSize e"

definition knownEntry :: "versionLabel \<Rightarrow> bytes \<Rightarrow> bool" where
  "knownEntry vl e \<longleftrightarrow> vl_has vl (entryVID e)"

definition liveEntry :: "versionLabel \<Rightarrow> bytes \<Rightarrow> bool" where
  "liveEntry vl e \<longleftrightarrow> versions vl ! nat (entryVID e) \<noteq> 0xfe
     \<and> versions vl ! nat (entryVID e) = entryVersion e"

definition liveEntries :: "versionLabel \<Rightarrow> nat \<Rightarrow> bytes \<Rightarrow> bytes list" where
  "liveEntries vl vis p = filter (liveEntry vl) (entriesOf vis p)"

lemma length_entriesOf [simp]: "length (entriesOf vis p) = length p div vis"
  by (simp add: entriesOf_def)

lemma entry_bound: "j < n div vis \<Longrightarrow> j * vis + vis \<le> (n :: nat)"
proof -
  assume "j < n div vis"
  then have "Suc j \<le> n div vis" by simp
  then have "Suc j * vis \<le> n div vis * vis" by (rule mult_le_mono1)
  also have "\<dots> \<le> n" by simp
  finally show ?thesis by simp
qed

lemma entriesOf_nth: "j < length p div vis \<Longrightarrow> entriesOf vis p ! j = take vis (drop (j * vis) p)"
  by (simp add: entriesOf_def)

lemma entriesOf_width: "e \<in> set (entriesOf vis p) \<Longrightarrow> length e = vis"
proof -
  assume "e \<in> set (entriesOf vis p)"
  then obtain j where "j < length p div vis" "e = take vis (drop (j * vis) p)"
    by (auto simp: entriesOf_def)
  then show ?thesis using entry_bound [of j "length p" vis] by simp
qed

lemma slice_inside: "off + n \<le> length p \<Longrightarrow> slice p (int off) n = Some (take n (drop off p))"
  by (simp add: slice_def)

lemma pst_entry_in: "j < length p div vis \<Longrightarrow> pst_entry vis p j = Ret (entriesOf vis p ! j)"
  using slice_inside [of "j * vis" vis p] entry_bound [of j "length p" vis]
  by (simp add: pst_entry_def entriesOf_nth)

lemma pst_VID_in:
  assumes "j < length p div vis" "5 \<le> vis"
  shows "pst_VID p (j * vis) = Ret (entryVID (entriesOf vis p ! j))"
  using slice_inside [of "j * vis" 4 p] entry_bound [OF assms(1)] assms
  by (simp add: pst_VID_def entryVID_def entriesOf_nth min_def)

lemma pst_version_in:
  assumes "j < length p div vis" "5 \<le> vis"
  shows "pst_version p (j * vis) = Ret (entryVersion (entriesOf vis p ! j))"
proof -
  have l: "j * vis + 4 + 1 \<le> length p" using entry_bound [OF assms(1)] assms(2) by simp
  have "hd (take 1 (drop (j * vis + 4) p)) = p ! (j * vis + 4)"
    using l by (simp add: hd_drop_conv_nth)
  moreover have "entriesOf vis p ! j ! 4 = p ! (j * vis + 4)"
    using l assms by (simp add: entriesOf_nth)
  ultimately show ?thesis using slice_inside [OF l]
    by (simp add: pst_version_def entryVersion_def)
qed

lemma pst_vector_in:
  assumes "j < length p div vis" "5 \<le> vis"
  shows "pst_vector vis p (j * vis) = Ret (entryVector (entriesOf vis p ! j))"
proof -
  have l: "j * vis + 5 + (vis - 5) \<le> length p" using entry_bound [OF assms(1)] assms(2) by simp
  have "drop 5 (take vis (drop (j * vis) p)) = take (vis - 5) (drop (j * vis + 5) p)"
    by (simp add: drop_take add.commute)
  then show ?thesis using slice_inside [OF l] assms
    by (simp add: pst_vector_def entryVector_def entriesOf_nth metaDataSize_def)
qed

lemma isStale_in:
  "vl_inv vl \<Longrightarrow> vl_has vl vid \<Longrightarrow>
   isStale vl vid version = Ret (versions vl ! nat vid = 0xfe \<or> versions vl ! nat vid \<noteq> version)"
  by (simp add: isStale_def vl_Deleted_in vl_GetVersion_in)

lemma pst_isLive_in:
  assumes "vl_inv vl" "5 \<le> vis" "j < length p div vis" "knownEntry vl (entriesOf vis p ! j)"
  shows "pst_isLive vl vis p j = Ret (liveEntry vl (entriesOf vis p ! j))"
  using assms pst_VID_in [OF assms(3,2)] pst_version_in [OF assms(3,2)]
  by (simp add: pst_isLive_def isStale_in knownEntry_def liveEntry_def)

lemma pst_live_in:
  assumes "vl_inv vl" "5 \<le> vis" "\<forall>e \<in> set (entriesOf vis p). knownEntry vl e"
  shows "pst_live vl vis p = Ret (filter (\<lambda>j. liveEntry vl (entriesOf vis p ! j)) [0 ..< length p div vis])"
  unfolding pst_live_def
  by (rule filterO_Ret) (use assms in \<open>auto intro!: pst_isLive_in\<close>)

text \<open>The entries at the live positions are the live entries.\<close>

lemma map_nth_filter: "map (\<lambda>j. xs ! j) (filter (\<lambda>j. P (xs ! j)) [0 ..< length xs]) = filter P xs"
proof (induction xs rule: rev_induct)
  case (snoc x xs)
  have "filter (\<lambda>j. P ((xs @ [x]) ! j)) [0 ..< length xs] = filter (\<lambda>j. P (xs ! j)) [0 ..< length xs]"
    by (rule filter_cong) (auto simp: nth_append)
  moreover have "map (\<lambda>j. (xs @ [x]) ! j) (filter (\<lambda>j. P (xs ! j)) [0 ..< length xs])
      = map (\<lambda>j. xs ! j) (filter (\<lambda>j. P (xs ! j)) [0 ..< length xs])"
    by (rule map_cong) (auto simp: nth_append)
  ultimately show ?case using snoc by simp
qed simp

lemma map_live_positions:
  "map (\<lambda>j. entriesOf vis p ! j) (filter (\<lambda>j. liveEntry vl (entriesOf vis p ! j)) [0 ..< length p div vis])
    = liveEntries vl vis p"
  using map_nth_filter [of "entriesOf vis p" "liveEntry vl"] by (simp add: liveEntries_def)

lemma pst_gather_in:
  "\<forall>l \<in> set ls. l < length p div vis \<Longrightarrow> pst_gather vis p ls = Ret (concat (map (\<lambda>l. entriesOf vis p ! l) ls))"
  using mapO_Ret [of ls "pst_entry vis p" "\<lambda>l. entriesOf vis p ! l"]
  by (auto simp: pst_gather_def pst_entry_in)

text \<open>A posting glued from entries has exactly those entries.\<close>

lemma length_concat_width: "\<forall>e \<in> set es. length e = n \<Longrightarrow> length (concat es) = length es * n"
  by (induction es) auto

lemma concat_slot:
  "\<forall>e \<in> set es. length e = n \<Longrightarrow> j < length es \<Longrightarrow> take n (drop (j * n) (concat es)) = es ! j"
proof (induction es arbitrary: j)
  case (Cons e es)
  then show ?case by (cases j) auto
qed simp

lemma entriesOf_concat:
  assumes "\<forall>e \<in> set es. length e = vis" "0 < vis"
  shows "entriesOf vis (concat es) = es"
proof (rule nth_equalityI)
  show "length (entriesOf vis (concat es)) = length es"
    using assms length_concat_width [OF assms(1)] by (simp del: length_concat)
  fix j assume "j < length (entriesOf vis (concat es))"
  then show "entriesOf vis (concat es) ! j = es ! j"
    using assms concat_slot [OF assms(1), of j] length_concat_width [OF assms(1)] by (simp add: entriesOf_nth del: length_concat)
qed

lemma entriesOf_append:
  assumes "vis dvd length p" "0 < vis"
  shows "entriesOf vis (p @ q) = entriesOf vis p @ entriesOf vis q"
proof -
  obtain n where n: "length p = n * vis" using assms(1) by (auto simp: dvd_def mult.commute)
  have l: "length (p @ q) div vis = n + length q div vis" using n assms(2) by simp
  show ?thesis
  proof (rule nth_equalityI)
    show "length (entriesOf vis (p @ q)) = length (entriesOf vis p @ entriesOf vis q)"
      using l n assms(2) by simp
    fix j assume "j < length (entriesOf vis (p @ q))"
    then have j: "j < n + length q div vis" using l by simp
    show "entriesOf vis (p @ q) ! j = (entriesOf vis p @ entriesOf vis q) ! j"
    proof (cases "j < n")
      case True
      then have "j * vis + vis \<le> n * vis" using entry_bound [of j "n * vis" vis] assms(2) by simp
      then show ?thesis using True j n l assms(2) by (simp add: entriesOf_nth nth_append)
    next
      case False
      then have "j * vis = n * vis + (j - n) * vis" by (simp add: diff_mult_distrib)
      then show ?thesis using False j n l assms(2) by (simp add: entriesOf_nth nth_append)
    qed
  qed
qed

text \<open>The compaction only reads positions it has not written yet.\<close>

lemma slot_blit:
  assumes "blit p (int (j * n)) e = Some p'" "length e = n" "j < l"
  shows "take n (drop (l * n) p') = take n (drop (l * n) p)"
proof -
  obtain d where d: "l = Suc j + d" using assms(3) less_iff_Suc_add by auto
  have p': "p' = take (j * n) p @ e @ drop (j * n + n) p"
    and le: "j * n + n \<le> length p"
    using assms(1,2) by (auto simp: blit_def nat_add_distrib simp flip: of_nat_mult of_nat_add split: if_splits)
  have "drop (l * n) p' = drop (d * n) (drop (j * n + n) p)"
    using le assms(2) unfolding p' d by (simp add: add_mult_distrib)
  also have "\<dots> = drop (l * n) p" unfolding d by (simp add: algebra_simps)
  finally show ?thesis by simp
qed

lemma pst_compact_in:
  "sorted_wrt (<) ls \<Longrightarrow> \<forall>l \<in> set ls. j \<le> l \<and> l < m \<Longrightarrow> m * vis \<le> length p \<Longrightarrow>
    \<exists>p'. pst_compact vis j ls p = Ret p' \<and> length p' = length p
      \<and> take ((j + length ls) * vis) p' = take (j * vis) p @ concat (map (\<lambda>l. take vis (drop (l * vis) p)) ls)"
proof (induction ls arbitrary: j p)
  case (Cons l ls)
  have rest: "sorted_wrt (<) ls" "\<forall>l' \<in> set ls. Suc j \<le> l' \<and> l' < m" using Cons.prems by auto
  have jl: "j \<le> l" "l < m" using Cons.prems by auto
  have "Suc l * vis \<le> m * vis" using jl by (intro mult_le_mono1) simp
  then have lp: "l * vis + vis \<le> length p" using Cons.prems(3) by simp
  have jv: "j * vis \<le> l * vis" using jl by simp
  have jp: "j * vis + vis \<le> length p" using lp jv by linarith
  show ?case
  proof (cases "j = l")
    case True
    have "take (Suc l * vis) p = take (l * vis) p @ take vis (drop (l * vis) p)"
      using take_add [of "l * vis" vis p] by (simp add: add.commute)
    then show ?thesis using Cons.IH [OF rest Cons.prems(3)] True by auto
  next
    case False
    let ?e = "take vis (drop (l * vis) p)"
    have e: "pst_entry vis p l = Ret ?e" "length ?e = vis"
      using slice_inside [OF lp] lp by (simp_all add: pst_entry_def)
    let ?q = "take (j * vis) p @ ?e @ drop (j * vis + vis) p"
    have q: "blit p (int (j * vis)) ?e = Some ?q"
      using jp e(2) by (simp add: blit_def nat_add_distrib flip: of_nat_mult of_nat_add)
    have lq: "length ?q = length p" using length_blit [OF q] .
    have tq: "take (Suc j * vis) ?q = take (j * vis) p @ ?e" using jp e(2) by simp
    have slots: "map (\<lambda>l. take vis (drop (l * vis) ?q)) ls = map (\<lambda>l. take vis (drop (l * vis) p)) ls"
      using rest(2) slot_blit [OF q e(2)] by auto
    have "m * vis \<le> length ?q" using lq Cons.prems(3) by simp
    from Cons.IH [OF rest this] obtain p' where "pst_compact vis (Suc j) ls ?q = Ret p'" "length p' = length p"
      "take ((Suc j + length ls) * vis) p' = take (j * vis) p @ ?e @ concat (map (\<lambda>l. take vis (drop (l * vis) p)) ls)"
      unfolding tq slots lq by auto
    then show ?thesis using False e(1) q by simp
  qed
qed simp

lemma pst_compact_live:
  assumes "ls = filter P [0 ..< length p div vis]"
  shows "\<exists>p'. pst_compact vis 0 ls p = Ret p'
    \<and> take (length ls * vis) p' = concat (map (\<lambda>l. entriesOf vis p ! l) ls)"
proof -
  have "sorted_wrt (<) ls" unfolding assms by (rule sorted_wrt_filter) simp
  moreover have "\<forall>l \<in> set ls. 0 \<le> l \<and> l < length p div vis" unfolding assms by auto
  moreover have "length p div vis * vis \<le> length p" by simp
  ultimately have "\<exists>p'. pst_compact vis 0 ls p = Ret p'
    \<and> take (length ls * vis) p' = concat (map (\<lambda>l. take vis (drop (l * vis) p)) ls)"
    using pst_compact_in [of ls 0 "length p div vis" vis p] by auto
  moreover have "map (\<lambda>l. take vis (drop (l * vis) p)) ls = map (\<lambda>l. entriesOf vis p ! l) ls"
    unfolding assms by (simp add: entriesOf_nth)
  ultimately show ?thesis by simp
qed

end
