(* ===== verification/DedupHash.thy ===== *)
theory DedupHash
  imports Prelude Postings
begin

text \<open>
  \<open>OptHashPosVector\<close> (AnnService/inc/Core/Common/WorkSpace.h), the set of vectors a search has seen: two hash
  blocks of \<open>m_poolSize + 1\<close> cells in one array, eight probes in the first and eight in the second, and a table
  of double size when both are used up. A cell holds the vector id plus one, 0 is free. \<open>unsigned\<close> arithmetic
  is on 32-bit words; an unallocated table is the empty list.
\<close>

unbundle bit_operations_syntax

section \<open>State and operations\<close>

type_synonym cell = "32 word"

record optHash =
  oh_secondHash :: bool
  oh_exp :: nat
  oh_poolSize :: nat
  oh_table :: "cell list"

definition oh_maxLoop :: nat where
  "oh_maxLoop = 8"

definition oh_new :: optHash where
  "oh_new = \<lparr>oh_secondHash = False, oh_exp = 2, oh_poolSize = 8191, oh_table = []\<rparr>"

definition hash_func2 :: "nat \<Rightarrow> nat \<Rightarrow> nat \<Rightarrow> nat" where
  "hash_func2 index poolSize loop = unat ((word_of_nat index + word_of_nat loop :: cell) AND word_of_nat poolSize)"

definition hash_func :: "cell \<Rightarrow> nat \<Rightarrow> nat" where
  "hash_func idx poolSize = unat ((idx * 99991 + word_rotl 2 idx + 101) AND word_of_nat poolSize)"

text \<open>\<open>memset\<close> of the first block, or of both when the second was used.\<close>

definition oh_clear :: "optHash \<Rightarrow> optHash outcome" where
  "oh_clear h =
     (let n = oh_poolSize h + 1
      in if length (oh_table h) < 2 * n then Fault
         else if \<not> oh_secondHash h then Ret (h\<lparr>oh_table := replicate n 0 @ drop n (oh_table h)\<rparr>)
         else Ret (h\<lparr>oh_secondHash := False, oh_table := replicate (2 * n) 0\<rparr>))"

text \<open>The number of significant bits of \<open>size\<close>.\<close>

fun oh_bits :: "nat \<Rightarrow> nat" where
  "oh_bits 0 = 0"
| "oh_bits (Suc n) = Suc (oh_bits (Suc n div 2))"

text \<open>\<open>fresh\<close> is what \<open>new\<close> left in the array.\<close>

definition oh_Init :: "(nat \<Rightarrow> cell list) \<Rightarrow> nat \<Rightarrow> nat \<Rightarrow> optHash \<Rightarrow> optHash outcome" where
  "oh_Init fresh sz ex h =
     (let ps = 2 ^ (oh_bits sz + ex) - 1
      in oh_clear (h\<lparr>oh_secondHash := True, oh_exp := ex, oh_poolSize := ps, oh_table := fresh ((ps + 1) * 2)\<rparr>))"

text \<open>The probes of one block, starting at cell \<open>base\<close>.\<close>

datatype probe = Placed "cell list" | Hit | Full

fun oh_probe :: "cell list \<Rightarrow> nat \<Rightarrow> nat \<Rightarrow> nat \<Rightarrow> nat list \<Rightarrow> cell \<Rightarrow> probe" where
  "oh_probe t base ps index [] idx = Full"
| "oh_probe t base ps index (loop # loops) idx =
     (if t ! (base + index) = 0 then Placed (t[base + index := idx])
      else if t ! (base + index) = idx then Hit
      else oh_probe t base ps (hash_func2 index ps loop) loops idx)"

definition oh_block :: "cell list \<Rightarrow> nat \<Rightarrow> nat \<Rightarrow> cell \<Rightarrow> probe" where
  "oh_block t base ps idx = oh_probe t base ps (hash_func idx ps) [0 ..< oh_maxLoop] idx"

text \<open>
  \<open>_CheckAndSet\<close> works on the array of the object, \<open>None\<close>, or on the new array of a \<open>DoubleSize\<close> under way,
  \<open>Some t\<close>. A full table is doubled, which calls \<open>_CheckAndSet\<close> again: \<open>check\<close> stands for these calls, and the
  fuel bounds their nesting.
\<close>

type_synonym ohCheck = "optHash \<Rightarrow> cell list option \<Rightarrow> nat \<Rightarrow> cell \<Rightarrow> (bool \<times> optHash \<times> cell list option) outcome"

definition oh_rehash :: "ohCheck \<Rightarrow> nat \<Rightarrow> nat \<Rightarrow> optHash \<times> cell list option \<Rightarrow> (optHash \<times> cell list option) outcome" where
  "oh_rehash check nps i acc =
     (let (h, loc) = acc
      in andThen (deref (if i < length (oh_table h) then Some (oh_table h ! i) else None)) (\<lambda>x.
           if x = 0 then Ret acc else andThen (check h loc nps x) (\<lambda>(b, h', loc'). Ret (h', loc'))))"

definition oh_DoubleSize :: "ohCheck \<Rightarrow> optHash \<Rightarrow> optHash outcome" where
  "oh_DoubleSize check h =
     (let nps = 2 * (oh_poolSize h + 1) - 1
      in andThen (foldO (oh_rehash check nps) [0 ..< nps + 1]
             (h\<lparr>oh_secondHash := False\<rparr>, Some (replicate ((nps + 1) * 2) 0))) (\<lambda>(h', loc).
           Ret (h'\<lparr>oh_exp := oh_exp h' + 1, oh_poolSize := nps, oh_table := (case loc of Some t \<Rightarrow> t | None \<Rightarrow> [])\<rparr>)))"

definition oh_put :: "cell list \<Rightarrow> optHash \<Rightarrow> cell list option \<Rightarrow> optHash \<times> cell list option" where
  "oh_put t h loc = (case loc of None \<Rightarrow> (h\<lparr>oh_table := t\<rparr>, None) | Some _ \<Rightarrow> (h, Some t))"

primrec oh_check :: "nat \<Rightarrow> ohCheck" where
  "oh_check 0 h loc ps idx = Hang"
| "oh_check (Suc n) h loc ps idx =
     (let t = (case loc of None \<Rightarrow> oh_table h | Some t \<Rightarrow> t)
      in if length t < 2 * (ps + 1) then Fault
         else (case oh_block t 0 ps idx of
             Placed t' \<Rightarrow> Ret (True, oh_put t' h loc)
           | Hit \<Rightarrow> Ret (False, h, loc)
           | Full \<Rightarrow> let h1 = h\<lparr>oh_secondHash := True\<rparr>
               in (case oh_block t (ps + 1) ps idx of
                     Placed t' \<Rightarrow> Ret (True, oh_put t' h1 loc)
                   | Hit \<Rightarrow> Ret (False, h1, loc)
                   | Full \<Rightarrow> andThen (oh_DoubleSize (oh_check n) h1) (\<lambda>h2.
                       andThen (oh_check n h2 None (oh_poolSize h2) idx) (\<lambda>(b, h3, _). Ret (b, h3, loc))))))"

declare oh_check.simps [simp del]

definition oh_CheckAndSet :: "nat \<Rightarrow> cell \<Rightarrow> optHash \<Rightarrow> (bool \<times> optHash) outcome" where
  "oh_CheckAndSet fuel idx h =
     andThen (oh_check fuel h None (oh_poolSize h) (idx + 1)) (\<lambda>(b, h', _). Ret (\<not> b, h'))"

section \<open>Probing\<close>

definition mask_ok :: "nat \<Rightarrow> bool" where
  "mask_ok ps \<longleftrightarrow> (\<exists>k. ps + 1 = 2 ^ k)"

lemma hash_bound: "mask_ok ps \<Longrightarrow> hash_func x ps \<le> ps" "mask_ok ps \<Longrightarrow> hash_func2 i ps l \<le> ps"
proof -
  have b: "unat (a AND word_of_nat ps :: cell) \<le> ps" if "mask_ok ps" for a
  proof -
    have "(a AND word_of_nat ps) \<le> (word_of_nat ps :: cell)" by (rule word_and_le1)
    then have "unat (a AND word_of_nat ps :: cell) \<le> unat (word_of_nat ps :: cell)" by (simp add: word_le_nat_alt)
    also have "\<dots> \<le> ps" by (simp add: unsigned_of_nat take_bit_nat_eq_self_iff take_bit_eq_mod)
    finally show ?thesis .
  qed
  show "mask_ok ps \<Longrightarrow> hash_func x ps \<le> ps" "mask_ok ps \<Longrightarrow> hash_func2 i ps l \<le> ps"
    by (simp_all add: hash_func_def hash_func2_def b)
qed

text \<open>A cell that fills up disturbs no other search.\<close>

lemma probe_stable:
  "t ! c = 0 \<Longrightarrow> y \<noteq> 0 \<Longrightarrow> y \<noteq> x \<Longrightarrow> x \<noteq> 0 \<Longrightarrow> c < length t \<Longrightarrow>
   oh_probe t base ps i ls x \<in> {Hit, Full} \<Longrightarrow> oh_probe (t[c := y]) base ps i ls x = oh_probe t base ps i ls x"
proof (induction ls arbitrary: i)
  case (Cons l ls)
  have ne: "base + i \<noteq> c" using Cons.prems by (auto split: if_splits)
  then have "t[c := y] ! (base + i) = t ! (base + i)" by simp
  then show ?case using Cons by (auto split: if_splits)
qed simp

lemma probe_hit: "oh_probe t base ps i ls x = Hit \<Longrightarrow> i \<le> ps \<Longrightarrow> mask_ok ps \<Longrightarrow> base + ps < length t \<Longrightarrow> x \<in> set t"
proof (induction ls arbitrary: i)
  case (Cons l ls)
  have "t ! (base + i) \<in> set t" using Cons.prems by simp
  then show ?case using Cons hash_bound(2) by (auto split: if_splits)
qed simp

lemma probe_placed:
  "oh_probe t base ps i ls x = Placed t' \<Longrightarrow> i \<le> ps \<Longrightarrow> mask_ok ps \<Longrightarrow> base + ps < length t \<Longrightarrow> x \<noteq> 0 \<Longrightarrow>
   \<exists>c. base \<le> c \<and> c \<le> base + ps \<and> t ! c = 0 \<and> t' = t[c := x] \<and> oh_probe t' base ps i ls x = Hit"
proof (induction ls arbitrary: i)
  case (Cons l ls)
  show ?case
  proof (cases "t ! (base + i) = 0")
    case True
    then have "t' = t[base + i := x]" using Cons.prems(1) by simp
    then show ?thesis using True Cons.prems by (intro exI [of _ "base + i"]) simp
  next
    case False
    then have r: "oh_probe t base ps (hash_func2 i ps l) ls x = Placed t'" "t ! (base + i) \<noteq> x"
      using Cons.prems(1) by (auto split: if_splits)
    from Cons.IH [OF r(1) hash_bound(2) [OF Cons.prems(3)] Cons.prems(3-5)]
    obtain c where c: "base \<le> c" "c \<le> base + ps" "t ! c = 0" "t' = t[c := x]"
      "oh_probe t' base ps (hash_func2 i ps l) ls x = Hit" by auto
    have "base + i \<noteq> c" using False c(3) by auto
    then have "t' ! (base + i) = t ! (base + i)" using c(4) by simp
    then show ?thesis using c False r(2) by (intro exI [of _ c]) simp
  qed
qed simp

definition oh_seen :: "cell list \<Rightarrow> nat \<Rightarrow> cell \<Rightarrow> bool" where
  "oh_seen t ps x \<longleftrightarrow> oh_block t 0 ps x = Hit \<or> oh_block t 0 ps x = Full \<and> oh_block t (ps + 1) ps x = Hit"

text \<open>Every vector in the array is found by the search.\<close>

definition tbl_ok :: "cell list \<Rightarrow> nat \<Rightarrow> bool" where
  "tbl_ok t ps \<longleftrightarrow> mask_ok ps \<and> length t = 2 * (ps + 1) \<and> (\<forall>x \<in> set t. x \<noteq> 0 \<longrightarrow> oh_seen t ps x)"

definition tbl_set :: "cell list \<Rightarrow> cell set" where
  "tbl_set t = set t - {0}"

lemma block_hit: "tbl_ok t ps \<Longrightarrow> oh_block t 0 ps x = Hit \<or> oh_block t (ps + 1) ps x = Hit \<Longrightarrow> x \<in> set t"
  using probe_hit [of t 0 ps "hash_func x ps"] probe_hit [of t "ps + 1" ps "hash_func x ps"] hash_bound(1)
  by (auto simp: tbl_ok_def oh_block_def)

lemma seen_iff: "tbl_ok t ps \<Longrightarrow> x \<noteq> 0 \<Longrightarrow> oh_seen t ps x \<longleftrightarrow> x \<in> tbl_set t"
  using block_hit by (auto simp: tbl_ok_def tbl_set_def oh_seen_def)

lemma block_placed:
  assumes ok: "tbl_ok t ps" and x: "x \<noteq> 0" and b: "oh_block t base ps x = Placed t'" "base = 0 \<or> base = ps + 1 \<and> oh_block t 0 ps x = Full"
  shows "x \<notin> tbl_set t" "tbl_ok t' ps" "tbl_set t' = insert x (tbl_set t)"
    "base = 0 \<Longrightarrow> drop (ps + 1) t' = drop (ps + 1) t"
proof -
  have m: "mask_ok ps" and len: "length t = 2 * (ps + 1)" using ok by (simp_all add: tbl_ok_def)
  have bl: "base + ps < length t" using b(2) len by auto
  obtain c where c: "base \<le> c" "c \<le> base + ps" "t ! c = 0" "t' = t[c := x]" "oh_block t' base ps x = Hit"
    using probe_placed [OF b(1) [unfolded oh_block_def] hash_bound(1) [OF m] m bl x] by (auto simp: oh_block_def)
  have cl: "c < length t" using c(2) bl by simp
  show nx: "x \<notin> tbl_set t" using seen_iff [OF ok x] b by (auto simp: oh_seen_def)
  have st: "oh_block t' bs ps y = oh_block t bs ps y" if "y \<noteq> 0" "y \<noteq> x" "oh_block t bs ps y \<in> {Hit, Full}" for bs y
    unfolding oh_block_def c(4) by (rule probe_stable [OF c(3) x _ that(1) cl]) (use that in \<open>auto simp: oh_block_def\<close>)
  have "set t' \<subseteq> insert x (set t)" unfolding c(4) by (rule set_update_subset_insert)
  moreover have "x \<in> set t'" using cl set_update_memI [OF cl, of x] by (simp add: c(4))
  moreover have "y \<in> set t'" if "y \<in> set t" "y \<noteq> 0" for y
    using that c(3,4) cl by (metis in_set_conv_nth length_list_update nth_list_update_neq)
  ultimately show s: "tbl_set t' = insert x (tbl_set t)" using x by (auto simp: tbl_set_def)
  have fx: "oh_seen t' ps x"
  proof (cases "base = 0")
    case True
    then show ?thesis using c(5) by (simp add: oh_seen_def)
  next
    case False
    then have base: "base = ps + 1" "oh_block t 0 ps x = Full" using b(2) by auto
    have n0: "oh_probe t 0 ps i ls x = Full \<Longrightarrow> i \<le> ps \<Longrightarrow> oh_probe t' 0 ps i ls x = Full" for i ls
    proof (induction ls arbitrary: i)
      case (Cons l ls)
      have "i \<noteq> c" using Cons.prems(2) c(1) base(1) by simp
      then show ?case using Cons hash_bound(2) [OF m] c(4) by (auto split: if_splits)
    qed simp
    have "oh_block t' 0 ps x = Full" using n0 base(2) hash_bound(1) [OF m] by (simp add: oh_block_def)
    then show ?thesis using c(5) base(1) by (simp add: oh_seen_def)
  qed
  have "oh_seen t' ps y" if y: "y \<in> set t'" "y \<noteq> 0" for y
  proof (cases "y = x")
    case False
    then have "oh_seen t ps y" using y s seen_iff [OF ok y(2)] by (auto simp: tbl_set_def)
    then show ?thesis using st [OF y(2) False] by (auto simp: oh_seen_def)
  qed (use fx in simp)
  then show "tbl_ok t' ps" using m len c(4) by (simp add: tbl_ok_def)
  show "drop (ps + 1) t' = drop (ps + 1) t" if "base = 0" using that c(2,4) by simp
qed

section \<open>The set\<close>

definition oh_abs :: "optHash \<Rightarrow> cell set" where
  "oh_abs h = tbl_set (oh_table h)"

text \<open>While the second block is unused it is empty, so \<open>clear\<close> may skip it.\<close>

definition oh_inv :: "optHash \<Rightarrow> bool" where
  "oh_inv h \<longleftrightarrow> tbl_ok (oh_table h) (oh_poolSize h)
     \<and> (\<not> oh_secondHash h \<longrightarrow> drop (oh_poolSize h + 1) (oh_table h) = replicate (oh_poolSize h + 1) 0)"

abbreviation ohArray :: "optHash \<Rightarrow> cell list option \<Rightarrow> cell list" where
  "ohArray h loc \<equiv> (case loc of None \<Rightarrow> oh_table h | Some t \<Rightarrow> t)"

definition oh_step :: "nat \<Rightarrow> cell \<Rightarrow> optHash \<Rightarrow> cell list option \<Rightarrow> optHash \<Rightarrow> cell list option \<Rightarrow> bool" where
  "oh_step ps x h loc h' loc' \<longleftrightarrow> tbl_ok (ohArray h' loc') ps \<and> tbl_set (ohArray h' loc') = insert x (tbl_set (ohArray h loc))
     \<and> (loc' = None \<longleftrightarrow> loc = None) \<and> (loc \<noteq> None \<longrightarrow> oh_table h' = oh_table h)
     \<and> oh_poolSize h' = oh_poolSize h \<and> oh_exp h' = oh_exp h
     \<and> (\<not> oh_secondHash h' \<longrightarrow> \<not> oh_secondHash h \<and> drop (ps + 1) (ohArray h' loc') = drop (ps + 1) (ohArray h loc))"

text \<open>A cell is left for the vector, or it is there already: the call returns whatever the fuel.\<close>

definition oh_room :: "cell list \<Rightarrow> nat \<Rightarrow> cell \<Rightarrow> bool" where
  "oh_room t ps x \<longleftrightarrow> oh_block t 0 ps x \<noteq> Full \<or> oh_block t (ps + 1) ps x \<noteq> Full"

lemma check_room:
  assumes ok: "tbl_ok (ohArray h loc) ps" and x: "x \<noteq> 0" and room: "oh_room (ohArray h loc) ps x"
  shows "\<exists>h' loc'. oh_check (Suc n) h loc ps x = Ret (x \<notin> tbl_set (ohArray h loc), h', loc') \<and> oh_step ps x h loc h' loc'"
proof -
  let ?t = "ohArray h loc"
  have len: "\<not> length ?t < 2 * (ps + 1)" using ok by (simp add: tbl_ok_def)
  note sn = seen_iff [OF ok x]
  have hit: ?thesis if "h' = h \<or> h' = h\<lparr>oh_secondHash := True\<rparr>" "oh_seen ?t ps x" "oh_check (Suc n) h loc ps x = Ret (False, h', loc)" for h'
  proof (intro exI conjI)
    show "oh_check (Suc n) h loc ps x = Ret (x \<notin> tbl_set ?t, h', loc)" using that sn by simp
    show "oh_step ps x h loc h' loc" using that sn ok by (auto simp: oh_step_def insert_absorb split: option.splits)
  qed
  have put: ?thesis if p: "oh_block ?t base ps x = Placed t'" "base = 0 \<and> h1 = h \<or> base = ps + 1 \<and> oh_block ?t 0 ps x = Full \<and> h1 = h\<lparr>oh_secondHash := True\<rparr>"
      "oh_check (Suc n) h loc ps x = Ret (True, oh_put t' h1 loc)" for base t' h1
  proof -
    have "base = 0 \<or> base = ps + 1 \<and> oh_block ?t 0 ps x = Full" using p(2) by auto
    note b = block_placed [OF ok x p(1) this]
    show ?thesis
    proof (intro exI conjI)
      show "oh_check (Suc n) h loc ps x = Ret (x \<notin> tbl_set ?t, fst (oh_put t' h1 loc), snd (oh_put t' h1 loc))"
        using p(3) b(1) by simp
      show "oh_step ps x h loc (fst (oh_put t' h1 loc)) (snd (oh_put t' h1 loc))"
        using b(2-4) p(2) by (cases loc) (auto simp: oh_step_def oh_put_def)
    qed
  qed
  show ?thesis
  proof (cases "oh_block ?t 0 ps x")
    case (Placed t')
    then show ?thesis using len by (intro put [of 0 t' h]) (simp_all add: oh_check.simps Let_def)
  next
    case Hit
    then show ?thesis using len by (intro hit [of h]) (simp_all add: oh_check.simps Let_def oh_seen_def)
  next
    case Full
    note full = this
    show ?thesis
    proof (cases "oh_block ?t (ps + 1) ps x")
      case (Placed t')
      then show ?thesis using len full by (intro put [of "ps + 1" t' "h\<lparr>oh_secondHash := True\<rparr>"]) (simp_all add: oh_check.simps Let_def)
    next
      case Hit
      then show ?thesis using len full by (intro hit [of "h\<lparr>oh_secondHash := True\<rparr>"]) (simp_all add: oh_check.simps Let_def oh_seen_def)
    qed (use full room in \<open>auto simp: oh_room_def\<close>)
  qed
qed

lemma check_one:
  assumes "oh_check 1 h loc ps x = Ret r" "tbl_ok (ohArray h loc) ps"
  shows "oh_room (ohArray h loc) ps x"
proof (rule ccontr)
  assume "\<not> ?thesis"
  then have f: "oh_block (ohArray h loc) 0 ps x = Full" "oh_block (ohArray h loc) (ps + 1) ps x = Full" by (simp_all add: oh_room_def)
  have "\<not> length (ohArray h loc) < 2 * (ps + 1)" using assms(2) by (simp add: tbl_ok_def)
  then have "oh_check (Suc 0) h loc ps x = andThen (oh_DoubleSize (oh_check 0) (h\<lparr>oh_secondHash := True\<rparr>)) (\<lambda>h2. Hang)"
    using f by (simp add: oh_check.simps Let_def)
  then show False using assms(1) by (auto simp: andThen_Ret_iff)
qed

section \<open>Growing\<close>

lemma rehash_in:
  "j < length (oh_table h) \<Longrightarrow> oh_rehash check nps j (h, loc) = (if oh_table h ! j = 0 then Ret (h, loc)
     else andThen (check h loc nps (oh_table h ! j)) (\<lambda>(b, h', loc'). Ret (h', loc')))"
  by (simp add: oh_rehash_def)

lemma rehash_loop:
  "foldO (oh_rehash (oh_check 1) nps) js (h, Some t) = Ret (h', loc') \<Longrightarrow> tbl_ok t nps \<Longrightarrow>
   \<exists>t'. loc' = Some t' \<and> tbl_ok t' nps \<and> tbl_set t' = tbl_set t \<union> ((\<lambda>i. oh_table h ! i) ` set js - {0})
     \<and> oh_table h' = oh_table h \<and> oh_poolSize h' = oh_poolSize h
     \<and> (\<not> oh_secondHash h' \<longrightarrow> \<not> oh_secondHash h \<and> drop (nps + 1) t' = drop (nps + 1) t)"
proof (induction js arbitrary: h t)
  case (Cons j js)
  let ?x = "oh_table h ! j"
  have j: "j < length (oh_table h)" using Cons.prems(1) by (auto simp: oh_rehash_def split: if_splits)
  show ?case
  proof (cases "?x = 0")
    case True
    then have "foldO (oh_rehash (oh_check 1) nps) js (h, Some t) = Ret (h', loc')"
      using Cons.prems(1) rehash_in [OF j] by simp
    from Cons.IH [OF this Cons.prems(2)] True show ?thesis by auto
  next
    case False
    obtain b h1 loc1 where c: "oh_check 1 h (Some t) nps ?x = Ret (b, h1, loc1)"
      "foldO (oh_rehash (oh_check 1) nps) js (h1, loc1) = Ret (h', loc')"
      using Cons.prems(1) rehash_in [OF j] False by (auto simp: andThen_Ret_iff)
    have tok: "tbl_ok (ohArray h (Some t)) nps" using Cons.prems(2) by simp
    have "oh_room (ohArray h (Some t)) nps ?x" by (rule check_one [OF c(1) tok])
    from check_room [OF tok False this, of 0] c(1) have s: "oh_step nps ?x h (Some t) h1 loc1" by auto
    then obtain t1 where t1: "loc1 = Some t1" by (cases loc1) (auto simp: oh_step_def)
    have s1: "tbl_ok t1 nps" "tbl_set t1 = insert ?x (tbl_set t)" "oh_table h1 = oh_table h" "oh_poolSize h1 = oh_poolSize h"
      "\<not> oh_secondHash h1 \<longrightarrow> \<not> oh_secondHash h \<and> drop (nps + 1) t1 = drop (nps + 1) t"
      using s t1 by (simp_all add: oh_step_def)
    from Cons.IH [OF c(2) [unfolded t1] s1(1)] s1 False show ?thesis by auto
  qed
qed auto

lemma tbl_ok_empty: "mask_ok ps \<Longrightarrow> tbl_ok (replicate (2 * (ps + 1)) 0) ps"
  by (simp add: tbl_ok_def)

lemma mask_double: "mask_ok ps \<Longrightarrow> mask_ok (2 * (ps + 1) - 1)"
proof -
  assume "mask_ok ps"
  then obtain k where "ps + 1 = 2 ^ k" by (auto simp: mask_ok_def)
  then show ?thesis unfolding mask_ok_def by (intro exI [of _ "k + 1"]) simp
qed

lemma drop_half: "drop n (replicate (n * 2) x) = replicate n x"
proof -
  have "n * 2 - n = n" by simp
  then show ?thesis by (simp only: drop_replicate)
qed

lemma DoubleSize_ok:
  assumes inv: "tbl_ok (oh_table h) (oh_poolSize h)"
    and run: "oh_DoubleSize (oh_check 1) h = Ret h2"
  shows "oh_inv h2" "oh_abs h2 = oh_abs h" "oh_poolSize h2 = 2 * (oh_poolSize h + 1) - 1"
proof -
  let ?nps = "2 * (oh_poolSize h + 1) - 1"
  let ?h = "h\<lparr>oh_secondHash := False\<rparr>" and ?t0 = "replicate ((?nps + 1) * 2) 0"
  have m: "mask_ok ?nps" using inv by (intro mask_double) (simp_all add: tbl_ok_def)
  have t0: "tbl_ok ?t0 ?nps" using tbl_ok_empty [OF m] by (simp add: mult.commute)
  obtain h' loc where r: "foldO (oh_rehash (oh_check 1) ?nps) [0 ..< ?nps + 1] (?h, Some ?t0) = Ret (h', loc)"
    "h2 = h'\<lparr>oh_exp := oh_exp h' + 1, oh_poolSize := ?nps, oh_table := (case loc of Some t \<Rightarrow> t | None \<Rightarrow> [])\<rparr>"
    using run by (auto simp: oh_DoubleSize_def Let_def andThen_Ret_iff simp del: One_nat_def)
  obtain t' where t': "loc = Some t'" "tbl_ok t' ?nps" "tbl_set t' = tbl_set ?t0 \<union> ((\<lambda>i. oh_table ?h ! i) ` set [0 ..< ?nps + 1] - {0})"
    "\<not> oh_secondHash h' \<longrightarrow> drop (?nps + 1) t' = drop (?nps + 1) ?t0"
    using rehash_loop [OF r(1) t0] by auto
  have l: "length (oh_table h) = ?nps + 1" using inv by (simp add: tbl_ok_def)
  have th: "oh_table ?h = oh_table h" by simp
  have im: "(\<lambda>i. oh_table ?h ! i) ` set [0 ..< ?nps + 1] = set (oh_table h)"
    unfolding th l [symmetric] by (metis list.set_map map_nth)
  have e: "tbl_set ?t0 = {}" by (auto simp: tbl_set_def)
  have "tbl_set t' = tbl_set (oh_table h)" using t'(3) unfolding e im by (simp add: tbl_set_def [of "oh_table h"])
  note same = this
  have dr: "drop (?nps + 1) ?t0 = replicate (?nps + 1) 0" by (rule drop_half)
  have f: "oh_table h2 = t'" "oh_secondHash h2 = oh_secondHash h'" using r(2) t'(1) by simp_all
  show p: "oh_poolSize h2 = ?nps" using r(2) by simp
  show "oh_inv h2" unfolding oh_inv_def f p using t'(2,4) unfolding dr by blast
  show "oh_abs h2 = oh_abs h" unfolding oh_abs_def f by (rule same)
qed

section \<open>CheckAndSet\<close>

lemma CheckAndSet_room:
  assumes inv: "oh_inv h" and x: "idx + 1 \<noteq> 0" and room: "oh_room (oh_table h) (oh_poolSize h) (idx + 1)"
  shows "\<exists>h'. oh_CheckAndSet (Suc n) idx h = Ret (idx + 1 \<in> oh_abs h, h') \<and> oh_inv h'
    \<and> oh_abs h' = insert (idx + 1) (oh_abs h) \<and> oh_poolSize h' = oh_poolSize h"
proof -
  have ok: "tbl_ok (ohArray h None) (oh_poolSize h)" using inv by (simp add: oh_inv_def)
  obtain h' loc' where c: "oh_check (Suc n) h None (oh_poolSize h) (idx + 1) = Ret (idx + 1 \<notin> oh_abs h, h', loc')"
    "oh_step (oh_poolSize h) (idx + 1) h None h' loc'"
    using check_room [OF ok x, of n] room by (auto simp: oh_abs_def)
  have l: "loc' = None" using c(2) by (simp add: oh_step_def)
  show ?thesis using c inv unfolding l
    by (intro exI [of _ h']) (auto simp: oh_CheckAndSet_def oh_step_def oh_inv_def oh_abs_def)
qed

text \<open>With one doubling allowed.\<close>

lemma CheckAndSet_two:
  assumes inv: "oh_inv h" and x: "idx + 1 \<noteq> 0"
    and run: "oh_CheckAndSet 2 idx h = Ret (seen, h')"
  shows "seen \<longleftrightarrow> idx + 1 \<in> oh_abs h" "oh_abs h' = insert (idx + 1) (oh_abs h)" "oh_inv h'" "oh_poolSize h \<le> oh_poolSize h'"
proof -
  have "(seen \<longleftrightarrow> idx + 1 \<in> oh_abs h) \<and> oh_abs h' = insert (idx + 1) (oh_abs h) \<and> oh_inv h' \<and> oh_poolSize h \<le> oh_poolSize h'"
  proof (cases "oh_room (oh_table h) (oh_poolSize h) (idx + 1)")
    case True
    from CheckAndSet_room [OF inv x True, of 1] run show ?thesis by (auto simp: numeral_2_eq_2)
  next
    case False
    let ?ps = "oh_poolSize h" and ?h1 = "h\<lparr>oh_secondHash := True\<rparr>"
    have ok: "tbl_ok (oh_table h) ?ps" using inv by (simp add: oh_inv_def)
    have f: "oh_block (oh_table h) 0 ?ps (idx + 1) = Full" "oh_block (oh_table h) (?ps + 1) ?ps (idx + 1) = Full"
      using False by (simp_all add: oh_room_def)
    have ln: "\<not> length (oh_table h) < 2 * (?ps + 1)" using ok by (simp add: tbl_ok_def)
    have "oh_check (Suc 1) h None ?ps (idx + 1) = andThen (oh_DoubleSize (oh_check 1) ?h1) (\<lambda>h2.
        andThen (oh_check 1 h2 None (oh_poolSize h2) (idx + 1)) (\<lambda>(b, h3, _). Ret (b, h3, None)))"
      using f ln by (simp only: oh_check.simps option.case Let_def if_False probe.case)
    then obtain h2 b loc where d: "oh_DoubleSize (oh_check 1) ?h1 = Ret h2"
      "oh_check 1 h2 None (oh_poolSize h2) (idx + 1) = Ret (b, h', loc)" "seen = (\<not> b)"
      using run by (auto simp: oh_CheckAndSet_def andThen_Ret_iff numeral_2_eq_2)
    have o1: "tbl_ok (oh_table ?h1) (oh_poolSize ?h1)" using ok by simp
    note D = DoubleSize_ok [OF o1 d(1)]
    have a: "oh_abs h2 = oh_abs h" using D(2) by (simp add: oh_abs_def)
    have ok2: "tbl_ok (ohArray h2 None) (oh_poolSize h2)" using D(1) by (simp add: oh_inv_def)
    have run2: "oh_CheckAndSet (Suc 0) idx h2 = Ret (seen, h')" using d(2,3) by (simp add: oh_CheckAndSet_def)
    have "oh_room (oh_table h2) (oh_poolSize h2) (idx + 1)" using check_one [OF d(2) ok2] by simp
    from CheckAndSet_room [OF D(1) x this, of 0] run2 a D(3) show ?thesis by auto
  qed
  then show "seen \<longleftrightarrow> idx + 1 \<in> oh_abs h" "oh_abs h' = insert (idx + 1) (oh_abs h)" "oh_inv h'" "oh_poolSize h \<le> oh_poolSize h'" by simp_all
qed

lemma clear_ok:
  assumes "oh_inv h"
  shows "\<exists>h'. oh_clear h = Ret h' \<and> oh_inv h' \<and> oh_abs h' = {} \<and> oh_poolSize h' = oh_poolSize h"
proof -
  let ?n = "oh_poolSize h + 1"
  have t: "mask_ok (oh_poolSize h)" "length (oh_table h) = 2 * ?n" using assms by (simp_all add: oh_inv_def tbl_ok_def)
  have two: "replicate ?n 0 @ replicate ?n (0 :: cell) = replicate (2 * ?n) 0" by (simp only: replicate_add [symmetric] mult_2)
  let ?e = "replicate (2 * ?n) (0 :: cell)"
  have e: "tbl_ok ?e (oh_poolSize h)" "tbl_set ?e = {}" using tbl_ok_empty [OF t(1)] by (auto simp: tbl_set_def)
  have half: "drop ?n ?e = replicate ?n 0" using drop_half [of ?n] by (simp only: mult.commute)
  have c: "oh_clear h = Ret (h\<lparr>oh_secondHash := False, oh_table := ?e\<rparr>)"
  proof (cases "oh_secondHash h")
    case True
    then show ?thesis using t(2) by (simp only: oh_clear_def Let_def) simp
  next
    case False
    then have d: "replicate ?n 0 @ drop ?n (oh_table h) = ?e" using assms two by (simp only: oh_inv_def) simp
    have "h\<lparr>oh_secondHash := False, oh_table := ?e\<rparr> = h\<lparr>oh_table := ?e\<rparr>" using False by (cases h) simp
    then show ?thesis using t(2) False unfolding oh_clear_def Let_def d by simp
  qed
  show ?thesis
  proof (intro exI conjI)
    show "oh_clear h = Ret (h\<lparr>oh_secondHash := False, oh_table := ?e\<rparr>)" by (rule c)
    show "oh_inv (h\<lparr>oh_secondHash := False, oh_table := ?e\<rparr>)" using e(1) half by (simp only: oh_inv_def) simp
    show "oh_abs (h\<lparr>oh_secondHash := False, oh_table := ?e\<rparr>) = {}" using e(2) by (simp only: oh_abs_def) simp
  qed simp
qed

section \<open>The properties\<close>

text \<open>A search's calls in order, and the answers of a set.\<close>

fun oh_run :: "nat \<Rightarrow> cell list \<Rightarrow> optHash \<Rightarrow> (bool list \<times> optHash) outcome" where
  "oh_run fuel [] h = Ret ([], h)"
| "oh_run fuel (idx # ids) h = andThen (oh_CheckAndSet fuel idx h) (\<lambda>(seen, h1).
     andThen (oh_run fuel ids h1) (\<lambda>(answers, h2). Ret (seen # answers, h2)))"

fun set_run :: "cell list \<Rightarrow> cell set \<Rightarrow> bool list" where
  "set_run [] S = []"
| "set_run (idx # ids) S = (idx \<in> S) # set_run ids (insert idx S)"

lemma run_is_set_run:
  "oh_inv h \<Longrightarrow> \<forall>idx \<in> set ids. idx + 1 \<noteq> 0 \<Longrightarrow> oh_run 2 ids h = Ret (answers, h') \<Longrightarrow>
   answers = set_run ids ((\<lambda>x. x - 1) ` oh_abs h) \<and> oh_abs h' = oh_abs h \<union> (\<lambda>x. x + 1) ` set ids \<and> oh_inv h'"
proof (induction ids arbitrary: h answers)
  case (Cons idx ids)
  obtain seen h1 rest where r: "oh_CheckAndSet 2 idx h = Ret (seen, h1)" "oh_run 2 ids h1 = Ret (rest, h')" "answers = seen # rest"
    using Cons.prems(3) by (auto simp: andThen_Ret_iff)
  have x: "idx + 1 \<noteq> 0" using Cons.prems(2) by simp
  note c = CheckAndSet_two [OF Cons.prems(1) x r(1)]
  have "\<forall>idx \<in> set ids. idx + 1 \<noteq> 0" using Cons.prems(2) by simp
  note IH = Cons.IH [OF c(3) this r(2)]
  have m: "idx + 1 \<in> oh_abs h \<longleftrightarrow> idx \<in> (\<lambda>x. x - 1) ` oh_abs h" by force
  have i: "(\<lambda>x. x - 1) ` oh_abs h1 = insert idx ((\<lambda>x. x - 1) ` oh_abs h)" unfolding c(2) by simp
  show ?case using IH c(1,2) m unfolding r(3) i by auto
qed simp

text \<open>The hash that a search starts from.\<close>

lemma Init_ok:
  assumes "length (fresh ((2 ^ (oh_bits sz + ex)) * 2)) = 2 ^ (oh_bits sz + ex) * 2"
  shows "\<exists>h. oh_Init fresh sz ex h0 = Ret h \<and> oh_inv h \<and> oh_abs h = {} \<and> oh_poolSize h + 1 = 2 ^ (oh_bits sz + ex)"
proof -
  define n :: nat where "n = 2 ^ (oh_bits sz + ex)"
  have n1: "n - 1 + 1 = n" by (simp add: n_def)
  have m: "mask_ok (n - 1)" unfolding mask_ok_def n1 by (auto simp: n_def)
  have e: "tbl_ok (replicate (2 * n) 0) (n - 1)" using tbl_ok_empty [OF m] unfolding n1 .
  have z: "tbl_set (replicate (2 * n) 0) = {}" by (auto simp: tbl_set_def)
  have half: "drop n (replicate (2 * n) (0 :: cell)) = replicate n 0" using drop_half [of n] by (simp only: mult.commute)
  let ?h = "h0\<lparr>oh_secondHash := False, oh_exp := ex, oh_poolSize := n - 1, oh_table := replicate (2 * n) 0\<rparr>"
  have "\<not> length (fresh (n * 2)) < 2 * n" using assms(1) by (simp add: n_def)
  moreover obtain k where k: "n = Suc k" using n1 by (metis Suc_eq_plus1)
  ultimately have "oh_Init fresh sz ex h0 = Ret ?h"
    unfolding oh_Init_def oh_clear_def Let_def n_def [symmetric] k by (cases h0) (simp add: mult.commute)
  moreover have "oh_inv ?h" using e half n1 by (simp add: oh_inv_def)
  ultimately show ?thesis using z n1 by (intro exI [of _ ?h]) (simp add: oh_abs_def n_def)
qed

section \<open>A doubling that overflows\<close>

lemma check_room_same: "oh_room (ohArray h loc) ps x \<Longrightarrow> oh_check (Suc n) h loc ps x = oh_check 1 h loc ps x"
  unfolding oh_room_def One_nat_def oh_check.simps Let_def by (auto split: probe.splits)

lemma check_no_room:
  "tbl_ok (ohArray h loc) ps \<Longrightarrow> \<not> oh_room (ohArray h loc) ps x \<Longrightarrow>
   oh_check (Suc n) h loc ps x = andThen (oh_DoubleSize (oh_check n) (h\<lparr>oh_secondHash := True\<rparr>))
     (\<lambda>h2. andThen (oh_check n h2 None (oh_poolSize h2) x) (\<lambda>(b, h3, _). Ret (b, h3, loc)))"
  unfolding oh_room_def oh_check.simps Let_def by (simp add: tbl_ok_def)

lemma DoubleSize_flag: "oh_DoubleSize check (h\<lparr>oh_secondHash := b\<rparr>) = oh_DoubleSize check h"
  by (simp add: oh_DoubleSize_def)

lemma rehash_hang_0:
  "foldO (oh_rehash (oh_check 1) nps) js (h, Some t) = Hang \<Longrightarrow> \<forall>j \<in> set js. j < length (oh_table h) \<Longrightarrow>
   foldO (oh_rehash (oh_check 0) nps) js (h, Some t) = Hang"
proof (induction js)
  case (Cons j js)
  have j: "j < length (oh_table h)" using Cons.prems(2) by simp
  then show ?case using Cons rehash_in [OF j] by (cases "oh_table h ! j = 0") (auto simp: oh_check.simps)
qed simp

lemma rehash_hang:
  "foldO (oh_rehash (oh_check 1) nps) js (h', Some t) = Hang \<Longrightarrow> \<forall>j \<in> set js. j < length (oh_table h') \<Longrightarrow> tbl_ok t nps \<Longrightarrow>
   oh_DoubleSize (oh_check n) h = Hang \<Longrightarrow> h'\<lparr>oh_secondHash := False\<rparr> = h\<lparr>oh_secondHash := False\<rparr> \<Longrightarrow>
   foldO (oh_rehash (oh_check (Suc n)) nps) js (h', Some t) = Hang"
proof (induction js arbitrary: h' t)
  case (Cons j js)
  let ?x = "oh_table h' ! j"
  have j: "j < length (oh_table h')" and js: "\<forall>j \<in> set js. j < length (oh_table h')" using Cons.prems(2) by simp_all
  have tok: "tbl_ok (ohArray h' (Some t)) nps" using Cons.prems(3) by simp
  consider "?x = 0" | "?x \<noteq> 0" "oh_room t nps ?x" | "?x \<noteq> 0" "\<not> oh_room t nps ?x" by blast
  then show ?case
  proof cases
    case 1
    then show ?thesis using Cons.prems Cons.IH [of h' t] js rehash_in [OF j] by simp
  next
    case 2
    then have rm: "oh_room (ohArray h' (Some t)) nps ?x" by simp
    obtain h1 loc1 where c: "oh_check 1 h' (Some t) nps ?x = Ret (?x \<notin> tbl_set t, h1, loc1)" "oh_step nps ?x h' (Some t) h1 loc1"
      using check_room [OF tok 2(1) rm, of 0] by auto
    then obtain t1 where t1: "loc1 = Some t1" by (cases loc1) (auto simp: oh_step_def)
    have s: "tbl_ok t1 nps" "oh_table h1 = oh_table h'" "oh_poolSize h1 = oh_poolSize h'" "oh_exp h1 = oh_exp h'"
      using c(2) t1 by (simp_all add: oh_step_def)
    have same: "h1\<lparr>oh_secondHash := False\<rparr> = h\<lparr>oh_secondHash := False\<rparr>"
      unfolding Cons.prems(5) [symmetric] using s by (cases h1; cases h') simp
    have "foldO (oh_rehash (oh_check 1) nps) js (h1, Some t1) = Hang"
      using Cons.prems(1) rehash_in [OF j] 2(1) c(1) t1 by simp
    from Cons.IH [OF this _ s(1) Cons.prems(4) same] js s(2)
    have "foldO (oh_rehash (oh_check (Suc n)) nps) js (h1, Some t1) = Hang" by simp
    then show ?thesis using rehash_in [OF j] 2(1) c(1) t1 check_room_same [OF rm, of n] by simp
  next
    case 3
    then have "\<not> oh_room (ohArray h' (Some t)) nps ?x" by simp
    moreover have "oh_DoubleSize (oh_check n) (h'\<lparr>oh_secondHash := True\<rparr>) = Hang"
      using Cons.prems(4,5) by (metis DoubleSize_flag)
    ultimately show ?thesis using check_no_room [OF tok, of ?x n] rehash_in [OF j] 3(1) by simp
  qed
qed simp

lemma DoubleSize_hang:
  assumes ok: "tbl_ok (oh_table h) (oh_poolSize h)"
    and h: "oh_DoubleSize (oh_check 1) h = Hang"
  shows "oh_DoubleSize (oh_check n) h = Hang"
proof (induction n)
  let ?nps = "2 * (oh_poolSize h + 1) - 1"
  let ?h = "h\<lparr>oh_secondHash := False\<rparr>" and ?t0 = "replicate ((?nps + 1) * 2) 0"
  have m: "mask_ok ?nps" using ok by (intro mask_double) (simp_all add: tbl_ok_def)
  have t0: "tbl_ok ?t0 ?nps" using tbl_ok_empty [OF m] by (simp only: mult.commute)
  have js: "\<forall>j \<in> set [0 ..< ?nps + 1]. j < length (oh_table ?h)" using ok by (simp add: tbl_ok_def)
  have D: "oh_DoubleSize check h = Hang" if "foldO (oh_rehash check ?nps) [0 ..< ?nps + 1] (?h, Some ?t0) = Hang" for check
    unfolding oh_DoubleSize_def Let_def that by simp
  have one: "foldO (oh_rehash (oh_check 1) ?nps) [0 ..< ?nps + 1] (?h, Some ?t0) = Hang"
    using h unfolding oh_DoubleSize_def Let_def by (cases "foldO (oh_rehash (oh_check 1) ?nps) [0 ..< ?nps + 1] (?h, Some ?t0)") auto
  case 0
  show ?case by (rule D) (rule rehash_hang_0 [OF one js])
  case (Suc n)
  show ?case by (rule D) (rule rehash_hang [OF one js t0 Suc], simp)
qed


definition ohStart :: optHash where
  "ohStart = (case oh_Init (\<lambda>n. replicate n 7) 1 2 oh_new of Ret h \<Rightarrow> h | _ \<Rightarrow> oh_new)"

lemma ohStart: "oh_Init (\<lambda>n. replicate n 7) 1 2 oh_new = Ret ohStart" "oh_inv ohStart"
proof -
  obtain h where "oh_Init (\<lambda>n. replicate n 7) 1 2 oh_new = Ret h" "oh_inv h"
    using Init_ok [of "\<lambda>n. replicate n 7" 1 2 oh_new] by auto
  then show "oh_Init (\<lambda>n. replicate n 7) 1 2 oh_new = Ret ohStart" "oh_inv ohStart" by (simp_all add: ohStart_def)
qed


text \<open>
  C38 A doubling in which one of the old ids finds all its cells taken in the new table never returns: it doubles
  the same old table again, and again. Whatever depth of calls is granted, \<open>CheckAndSet\<close> does not come back.
\<close>

theorem CheckAndSet_overflow_never_returns:
  assumes "oh_inv h" "\<not> oh_room (oh_table h) (oh_poolSize h) (idx + 1)"
    and "oh_DoubleSize (oh_check 1) h = Hang"
  shows "oh_CheckAndSet n idx h = Hang"
proof (cases n)
  case 0
  then show ?thesis by (simp add: oh_CheckAndSet_def oh_check.simps)
next
  case (Suc m)
  have ok: "tbl_ok (ohArray h None) (oh_poolSize h)" using assms(1) by (simp add: oh_inv_def)
  have "\<not> oh_room (ohArray h None) (oh_poolSize h) (idx + 1)" using assms(2) by simp
  note nr = check_no_room [OF ok this, of m]
  have "oh_DoubleSize (oh_check m) h = Hang" using DoubleSize_hang [OF _ assms(3)] ok by simp
  then show ?thesis unfolding oh_CheckAndSet_def Suc nr DoubleSize_flag by simp
qed

text \<open>
  Fifteen ids in a table of two blocks of eight cells: fourteen that share their cells, and one that fits
  between them now but takes one of their cells in the table of double size.
\<close>

definition ohBusy :: optHash where
  "ohBusy = (case oh_run 1 [0, 16, 32, 48, 64, 80, 96, 14, 112, 128, 144, 160, 176, 192, 208] ohStart of
     Ret r \<Rightarrow> snd r | _ \<Rightarrow> oh_new)"

lemma ohBusy_inv: "oh_inv ohBusy"
proof -
  let ?ids = "[0, 16, 32, 48, 64, 80, 96, 14, 112, 128, 144, 160, 176, 192, 208] :: cell list"
  have "(case oh_run 2 ?ids ohStart of Ret r \<Rightarrow> snd r = ohBusy | _ \<Rightarrow> False)" by code_simp
  then obtain answers where r: "oh_run 2 ?ids ohStart = Ret (answers, ohBusy)" by (cases "oh_run 2 ?ids ohStart") auto
  have "\<forall>idx \<in> set ?ids. idx + 1 \<noteq> 0" by simp
  from run_is_set_run [OF ohStart(2) this r] show ?thesis by simp
qed

theorem CheckAndSet_overflow_never_returns_witness: "\<forall>n. oh_CheckAndSet n 224 ohBusy = Hang"
proof
  fix n
  have "\<not> oh_room (oh_table ohBusy) (oh_poolSize ohBusy) (224 + 1)" by code_simp
  moreover have "oh_DoubleSize (oh_check 1) ohBusy = Hang" by code_simp
  ultimately show "oh_CheckAndSet n 224 ohBusy = Hang" by (rule CheckAndSet_overflow_never_returns [OF ohBusy_inv])
qed

end
