(* ===== verification/ThreadPools.thy ===== *)
theory ThreadPools
  imports Prelude
begin

text \<open>
  \<open>Helper::ThreadPool\<close> (AnnService/inc/Helper/ThreadPool.h): a queue of jobs under a mutex, workers that take
  and run them, the flag \<open>m_abort\<close> that the destructor sets without the mutex, and the counter of running jobs that
  \<open>allClear\<close> reads without the mutex. A step is one atomic action of one thread: an acquisition or release of the mutex,
  the evaluation of one condition, one change of the queue or of the counter. A run is any interleaving of the steps. A
  thread blocked on the condition variable may wake in any step in which the mutex is free, so a run covers every
  notification, missed or not, and every spurious wake-up. \<open>tp_added\<close>, \<open>tp_taken\<close>, \<open>tp_done\<close>, \<open>tp_lost\<close> and
  \<open>tp_thrown\<close> record the history and are not in the code.
\<close>

section \<open>State and operations\<close>

text \<open>
  Where a worker is. In \<open>get\<close>: before the lock; at the loop's test; about to wait; waiting; at the second test of the
  flag; at the third, with the job it has popped, if any; about to unlock and return. Then: with a job not counted yet,
  running it, past its execution, about to delete it. At last: past its loop, or undefined.
\<close>

datatype 'j worker =
  Calling | Testing | ToWait | Blocked | Deciding | Returning "'j option" | Unlocking "'j option"
| Taken 'j | Running 'j | Finishing 'j | Deleting 'j
| Left | Crashed

record 'j pool =
  tp_jobs :: "'j list"
  tp_currentJobs :: "32 word"
  tp_stopped :: bool
  tp_lock :: "nat option"
  tp_workers :: "'j worker list"
  tp_ended :: bool
  tp_added :: "'j list"
  tp_taken :: "'j list"
  tp_done :: "'j list"
  tp_lost :: "'j list"
  tp_thrown :: nat

definition tp_new :: "'j pool" where
  "tp_new = \<lparr>tp_jobs = [], tp_currentJobs = 0, tp_stopped = True, tp_lock = None, tp_workers = [], tp_ended = False,
     tp_added = [], tp_taken = [], tp_done = [], tp_lost = [], tp_thrown = 0\<rparr>"

definition tp_init :: "nat \<Rightarrow> 'j pool \<Rightarrow> 'j pool" where
  "tp_init n p = p\<lparr>tp_stopped := False, tp_workers := tp_workers p @ replicate n Calling\<rparr>"

text \<open>\<open>add\<close>, in a state where the mutex is free.\<close>

definition tp_add :: "'j \<Rightarrow> 'j pool \<Rightarrow> 'j pool" where
  "tp_add j p = p\<lparr>tp_jobs := tp_jobs p @ [j], tp_added := tp_added p @ [j]\<rparr>"

definition tp_jobsize :: "'j pool \<Rightarrow> nat" where
  "tp_jobsize p = length (tp_jobs p)"

definition tp_runningJobs :: "'j pool \<Rightarrow> 32 word" where
  "tp_runningJobs p = tp_currentJobs p"

definition tp_allClear :: "'j pool \<Rightarrow> bool" where
  "tp_allClear p \<longleftrightarrow> tp_currentJobs p = 0 \<and> tp_jobsize p = 0"

text \<open>The destructor's first act. No other member is called once the destructor runs.\<close>

definition tp_stop :: "'j pool \<Rightarrow> 'j pool" where
  "tp_stop p = p\<lparr>tp_stopped := True, tp_ended := True\<rparr>"

definition tp_at :: "nat \<Rightarrow> 'j worker \<Rightarrow> 'j pool \<Rightarrow> 'j pool" where
  "tp_at w x p = p\<lparr>tp_workers := (tp_workers p)[w := x]\<rparr>"

text \<open>
  One action of worker \<open>w\<close> inside \<open>get\<close>, which reads the flag three times. \<open>front\<close> of an empty queue, and a return of
  true without a job, are undefined.
\<close>

definition tp_get :: "nat \<Rightarrow> 'j pool \<Rightarrow> 'j pool option" where
  "tp_get w p = (case tp_workers p ! w of
     Calling \<Rightarrow> (if tp_lock p = None then Some (tp_at w Testing (p\<lparr>tp_lock := Some w\<rparr>)) else None)
   | Testing \<Rightarrow> Some (tp_at w (if tp_jobs p = [] \<and> \<not> tp_stopped p then ToWait else Deciding) p)
   | ToWait \<Rightarrow> Some (tp_at w Blocked (p\<lparr>tp_lock := None\<rparr>))
   | Blocked \<Rightarrow> (if tp_lock p = None then Some (tp_at w Testing (p\<lparr>tp_lock := Some w\<rparr>)) else None)
   | Deciding \<Rightarrow> Some (if tp_stopped p then tp_at w (Returning None) p
       else case tp_jobs p of [] \<Rightarrow> tp_at w Crashed p
         | j # js \<Rightarrow> tp_at w (Returning (Some j)) (p\<lparr>tp_jobs := js, tp_taken := tp_taken p @ [j]\<rparr>))
   | Returning oj \<Rightarrow> Some (if tp_stopped p then tp_at w (Unlocking None) (p\<lparr>tp_lost := tp_lost p @ (case oj of None \<Rightarrow> [] | Some j \<Rightarrow> [j])\<rparr>)
       else case oj of None \<Rightarrow> tp_at w Crashed p | Some j \<Rightarrow> tp_at w (Unlocking (Some j)) p)
   | Unlocking oj \<Rightarrow> Some (tp_at w (case oj of None \<Rightarrow> Left | Some j \<Rightarrow> Taken j) (p\<lparr>tp_lock := None\<rparr>))
   | _ \<Rightarrow> None)"

text \<open>
  One action of worker \<open>w\<close> in the body of its loop; \<open>throws\<close> says whether the execution of its job ends in an
  exception.
\<close>

definition tp_exec :: "nat \<Rightarrow> bool \<Rightarrow> 'j pool \<Rightarrow> 'j pool option" where
  "tp_exec w throws p = (case tp_workers p ! w of
     Taken j \<Rightarrow> Some (tp_at w (Running j) (p\<lparr>tp_currentJobs := tp_currentJobs p + 1\<rparr>))
   | Running j \<Rightarrow> Some (if throws then tp_at w (Deleting j) (p\<lparr>tp_thrown := tp_thrown p + 1\<rparr>) else tp_at w (Finishing j) p)
   | Finishing j \<Rightarrow> Some (tp_at w (Deleting j) (p\<lparr>tp_currentJobs := tp_currentJobs p - 1\<rparr>))
   | Deleting j \<Rightarrow> Some (tp_at w Calling (p\<lparr>tp_done := tp_done p @ [j]\<rparr>))
   | _ \<Rightarrow> None)"

inductive tp_step :: "'j pool \<Rightarrow> 'j pool \<Rightarrow> bool" where
  init: "\<not> tp_ended p \<Longrightarrow> tp_step p (tp_init n p)"
| add: "\<not> tp_ended p \<Longrightarrow> tp_lock p = None \<Longrightarrow> tp_step p (tp_add j p)"
| stop: "tp_step p (tp_stop p)"
| get: "w < length (tp_workers p) \<Longrightarrow> tp_get w p = Some p' \<Longrightarrow> tp_step p p'"
| exec: "w < length (tp_workers p) \<Longrightarrow> tp_exec w throws p = Some p' \<Longrightarrow> tp_step p p'"

inductive_cases tp_stepE: "tp_step p p'"

inductive tp_reach :: "'j pool \<Rightarrow> bool" where
  start: "tp_reach tp_new"
| step: "tp_reach p \<Longrightarrow> tp_step p p' \<Longrightarrow> tp_reach p'"

section \<open>Invariant\<close>

text \<open>The job a worker holds, whether the counter includes it, whether the worker holds the mutex, whether it will not work again.\<close>

fun held :: "'j worker \<Rightarrow> 'j list" where
  "held (Returning oj) = (case oj of None \<Rightarrow> [] | Some j \<Rightarrow> [j])"
| "held (Unlocking oj) = (case oj of None \<Rightarrow> [] | Some j \<Rightarrow> [j])"
| "held (Taken j) = [j]"
| "held (Running j) = [j]"
| "held (Finishing j) = [j]"
| "held (Deleting j) = [j]"
| "held _ = []"

fun counted :: "'j worker \<Rightarrow> nat" where
  "counted (Running j) = 1"
| "counted (Finishing j) = 1"
| "counted _ = 0"

fun locking :: "'j worker \<Rightarrow> bool" where
  "locking Testing = True"
| "locking ToWait = True"
| "locking Deciding = True"
| "locking (Returning oj) = True"
| "locking (Unlocking oj) = True"
| "locking _ = False"

fun gone :: "'j worker \<Rightarrow> nat" where
  "gone (Unlocking None) = 1"
| "gone Left = 1"
| "gone _ = 0"

definition tp_held :: "'j pool \<Rightarrow> 'j list" where
  "tp_held p = concat (map held (tp_workers p))"

definition tp_counted :: "'j pool \<Rightarrow> nat" where
  "tp_counted p = sum_list (map counted (tp_workers p))"

definition tp_gone :: "'j pool \<Rightarrow> nat" where
  "tp_gone p = sum_list (map gone (tp_workers p))"

lemma sum_list_upd:
  "w < length xs \<Longrightarrow> sum_list (map f (xs[w := y])) + f (xs ! w) = sum_list (map f xs) + (f y :: nat)"
proof (induction xs arbitrary: w)
  case (Cons x xs)
  then show ?case by (cases w) auto
qed simp

lemma mset_concat_upd:
  "w < length xs \<Longrightarrow> mset (concat (map f (xs[w := y]))) + mset (f (xs ! w)) = mset (concat (map f xs)) + mset (f y)"
proof (induction xs arbitrary: w)
  case (Cons x xs)
  then show ?case by (cases w) (auto simp: ac_simps)
qed simp

text \<open>What is held, counted and gone after a worker has moved.\<close>

lemma at_simps [simp]:
  "tp_jobs (tp_at w x p) = tp_jobs p" "tp_currentJobs (tp_at w x p) = tp_currentJobs p" "tp_stopped (tp_at w x p) = tp_stopped p"
  "tp_lock (tp_at w x p) = tp_lock p" "tp_ended (tp_at w x p) = tp_ended p" "tp_added (tp_at w x p) = tp_added p"
  "tp_taken (tp_at w x p) = tp_taken p" "tp_done (tp_at w x p) = tp_done p" "tp_lost (tp_at w x p) = tp_lost p"
  "tp_thrown (tp_at w x p) = tp_thrown p" "tp_workers (tp_at w x p) = (tp_workers p)[w := x]"
  by (simp_all add: tp_at_def)

lemma at_held: "w < length (tp_workers p) \<Longrightarrow> mset (tp_held (tp_at w x p)) + mset (held (tp_workers p ! w)) = mset (tp_held p) + mset (held x)"
  unfolding tp_held_def at_simps by (rule mset_concat_upd)

lemma at_counted: "w < length (tp_workers p) \<Longrightarrow> tp_counted (tp_at w x p) + counted (tp_workers p ! w) = tp_counted p + counted x"
  unfolding tp_counted_def at_simps by (rule sum_list_upd)

lemma at_gone: "w < length (tp_workers p) \<Longrightarrow> tp_gone (tp_at w x p) + gone (tp_workers p ! w) = tp_gone p + gone x"
  unfolding tp_gone_def at_simps by (rule sum_list_upd)

text \<open>The history: jobs in order, and every job taken held, done or lost.\<close>

definition tp_hist :: "'j pool \<Rightarrow> bool" where
  "tp_hist p \<longleftrightarrow> tp_taken p @ tp_jobs p = tp_added p \<and> mset (tp_taken p) = mset (tp_held p) + mset (tp_done p) + mset (tp_lost p)
     \<and> tp_currentJobs p = word_of_nat (tp_counted p + tp_thrown p)
     \<and> length (tp_lost p) \<le> tp_gone p \<and> (tp_lost p \<noteq> [] \<longrightarrow> tp_ended p)"

text \<open>The mutex has one owner, the flag is set only by the destructor, and no worker comes to an undefined step.\<close>

definition tp_safe :: "'j pool \<Rightarrow> bool" where
  "tp_safe p \<longleftrightarrow> (\<forall>w < length (tp_workers p). (locking (tp_workers p ! w) \<longleftrightarrow> tp_lock p = Some w)
       \<and> tp_workers p ! w \<noteq> Crashed
       \<and> (tp_workers p ! w = Deciding \<longrightarrow> tp_jobs p \<noteq> [] \<or> tp_stopped p)
       \<and> (tp_workers p ! w = Returning None \<longrightarrow> tp_stopped p))
     \<and> (\<forall>w. tp_lock p = Some w \<longrightarrow> w < length (tp_workers p))
     \<and> (tp_ended p \<longrightarrow> tp_stopped p) \<and> (tp_workers p \<noteq> [] \<longrightarrow> tp_stopped p \<longrightarrow> tp_ended p)"

text \<open>To move worker \<open>w\<close> to \<open>x\<close> keeps the history when what the worker had is accounted for.\<close>

lemma hist_at:
  assumes "w < length (tp_workers q)" "tp_taken q @ tp_jobs q = tp_added q"
    "mset (tp_taken q) + mset (held (tp_workers q ! w)) = mset (tp_held q) + mset (held x) + mset (tp_done q) + mset (tp_lost q)"
    "tp_currentJobs q + word_of_nat (counted (tp_workers q ! w)) = word_of_nat (tp_counted q + counted x + tp_thrown q)"
    "length (tp_lost q) + gone (tp_workers q ! w) \<le> tp_gone q + gone x" "tp_lost q \<noteq> [] \<longrightarrow> tp_ended q"
  shows "tp_hist (tp_at w x q)"
proof -
  have "mset (tp_taken q) + mset (held (tp_workers q ! w)) = mset (tp_held (tp_at w x q)) + mset (tp_done q) + mset (tp_lost q) + mset (held (tp_workers q ! w))"
    using assms(3) at_held [OF assms(1), of x] by (simp add: ac_simps)
  moreover have "tp_currentJobs q + word_of_nat (counted (tp_workers q ! w)) =
      word_of_nat (tp_counted (tp_at w x q) + tp_thrown q) + word_of_nat (counted (tp_workers q ! w))"
    using assms(4) at_counted [OF assms(1), of x] by (metis add.commute add.left_commute of_nat_add)
  moreover have "length (tp_lost q) \<le> tp_gone (tp_at w x q)"
    using assms(5) at_gone [OF assms(1), of x] by simp
  ultimately show ?thesis using assms(2,6) by (simp add: tp_hist_def)
qed

lemma same_workers:
  "tp_held (p\<lparr>tp_jobs := js\<rparr>) = tp_held p" "tp_counted (p\<lparr>tp_jobs := js\<rparr>) = tp_counted p" "tp_gone (p\<lparr>tp_jobs := js\<rparr>) = tp_gone p"
  "tp_held (p\<lparr>tp_taken := js\<rparr>) = tp_held p" "tp_counted (p\<lparr>tp_taken := js\<rparr>) = tp_counted p" "tp_gone (p\<lparr>tp_taken := js\<rparr>) = tp_gone p"
  "tp_held (p\<lparr>tp_done := js\<rparr>) = tp_held p" "tp_counted (p\<lparr>tp_done := js\<rparr>) = tp_counted p" "tp_gone (p\<lparr>tp_done := js\<rparr>) = tp_gone p"
  "tp_held (p\<lparr>tp_lost := js\<rparr>) = tp_held p" "tp_counted (p\<lparr>tp_lost := js\<rparr>) = tp_counted p" "tp_gone (p\<lparr>tp_lost := js\<rparr>) = tp_gone p"
  "tp_held (p\<lparr>tp_lock := l\<rparr>) = tp_held p" "tp_counted (p\<lparr>tp_lock := l\<rparr>) = tp_counted p" "tp_gone (p\<lparr>tp_lock := l\<rparr>) = tp_gone p"
  "tp_held (p\<lparr>tp_currentJobs := c\<rparr>) = tp_held p" "tp_counted (p\<lparr>tp_currentJobs := c\<rparr>) = tp_counted p" "tp_gone (p\<lparr>tp_currentJobs := c\<rparr>) = tp_gone p"
  "tp_held (p\<lparr>tp_thrown := t\<rparr>) = tp_held p" "tp_counted (p\<lparr>tp_thrown := t\<rparr>) = tp_counted p" "tp_gone (p\<lparr>tp_thrown := t\<rparr>) = tp_gone p"
  by (simp_all add: tp_held_def tp_counted_def tp_gone_def)

lemma hist_get:
  assumes "tp_hist p" "tp_safe p" "w < length (tp_workers p)" "tp_get w p = Some p'"
  shows "tp_hist p'"
proof -
  note h = assms(1) [unfolded tp_hist_def]
  show ?thesis
  proof (cases "tp_workers p ! w")
    case Deciding
    then have ne: "tp_jobs p \<noteq> [] \<or> tp_stopped p" using assms(2,3) by (auto simp: tp_safe_def)
    show ?thesis
    proof (cases "tp_stopped p")
      case True
      then have "p' = tp_at w (Returning None) p" using assms(4) Deciding by (simp add: tp_get_def)
      then show ?thesis using h Deciding by (simp, intro hist_at) (use assms(3) in auto)
    next
      case False
      then obtain j js where j: "tp_jobs p = j # js" using ne by (cases "tp_jobs p") auto
      then have "p' = tp_at w (Returning (Some j)) (p\<lparr>tp_jobs := js, tp_taken := tp_taken p @ [j]\<rparr>)"
        using assms(4) Deciding False by (simp add: tp_get_def)
      then show ?thesis using h Deciding j by (simp, intro hist_at) (use assms(3) in \<open>auto simp: same_workers\<close>)
    qed
  next
    case (Returning oj)
    have e: "tp_stopped p \<longrightarrow> tp_ended p" using assms(2,3) by (cases "tp_workers p") (auto simp: tp_safe_def)
    have none: "oj = None \<longrightarrow> tp_stopped p" using assms(2,3) Returning by (auto simp: tp_safe_def)
    show ?thesis
    proof (cases "tp_stopped p")
      case True
      then have "p' = tp_at w (Unlocking None) (p\<lparr>tp_lost := tp_lost p @ (case oj of None \<Rightarrow> [] | Some j \<Rightarrow> [j])\<rparr>)"
        using assms(4) Returning by (simp add: tp_get_def)
      then show ?thesis using h Returning e True by (simp, intro hist_at) (use assms(3) in \<open>auto simp: same_workers split: option.splits\<close>)
    next
      case False
      then obtain j where j: "oj = Some j" using none by auto
      then have "p' = tp_at w (Unlocking (Some j)) p" using assms(4) Returning False by (simp add: tp_get_def)
      then show ?thesis using h Returning j by (simp, intro hist_at) (use assms(3) in auto)
    qed
  next
    case (Unlocking oj)
    then have "p' = tp_at w (case oj of None \<Rightarrow> Left | Some j \<Rightarrow> Taken j) (p\<lparr>tp_lock := None\<rparr>)" using assms(4) by (simp add: tp_get_def)
    then show ?thesis using h Unlocking by (cases oj; simp, intro hist_at) (use assms(3) in \<open>auto simp: same_workers\<close>)
  next
    case Testing
    then have "p' = tp_at w ToWait p \<or> p' = tp_at w Deciding p" using assms(4) by (auto simp: tp_get_def)
    then show ?thesis using h Testing by (elim disjE; simp, intro hist_at) (use assms(3) in auto)
  next
    case ToWait
    then have "p' = tp_at w Blocked (p\<lparr>tp_lock := None\<rparr>)" using assms(4) by (simp add: tp_get_def)
    then show ?thesis using h ToWait by (simp, intro hist_at) (use assms(3) in \<open>auto simp: same_workers\<close>)
  next
    case Calling
    then have "p' = tp_at w Testing (p\<lparr>tp_lock := Some w\<rparr>)" using assms(4) by (simp add: tp_get_def split: if_splits)
    then show ?thesis using h Calling by (simp, intro hist_at) (use assms(3) in \<open>auto simp: same_workers\<close>)
  next
    case Blocked
    then have "p' = tp_at w Testing (p\<lparr>tp_lock := Some w\<rparr>)" using assms(4) by (simp add: tp_get_def split: if_splits)
    then show ?thesis using h Blocked by (simp, intro hist_at) (use assms(3) in \<open>auto simp: same_workers\<close>)
  qed (use assms(4) in \<open>auto simp: tp_get_def\<close>)
qed

lemma hist_exec:
  assumes "tp_hist p" "w < length (tp_workers p)" "tp_exec w throws p = Some p'"
  shows "tp_hist p'"
proof -
  note h = assms(1) [unfolded tp_hist_def]
  show ?thesis
  proof (cases "tp_workers p ! w")
    case (Taken j)
    then have "p' = tp_at w (Running j) (p\<lparr>tp_currentJobs := tp_currentJobs p + 1\<rparr>)" using assms(3) by (simp add: tp_exec_def)
    then show ?thesis using h Taken by (simp, intro hist_at) (use assms(2) in \<open>auto simp: same_workers\<close>)
  next
    case (Running j)
    then have "p' = (if throws then tp_at w (Deleting j) (p\<lparr>tp_thrown := tp_thrown p + 1\<rparr>) else tp_at w (Finishing j) p)"
      using assms(3) by (simp add: tp_exec_def)
    then show ?thesis using h Running by (cases throws; simp, intro hist_at) (use assms(2) in \<open>auto simp: same_workers\<close>)
  next
    case (Finishing j)
    then have "p' = tp_at w (Deleting j) (p\<lparr>tp_currentJobs := tp_currentJobs p - 1\<rparr>)" using assms(3) by (simp add: tp_exec_def)
    then show ?thesis using h Finishing by (simp, intro hist_at) (use assms(2) in \<open>auto simp: same_workers\<close>)
  next
    case (Deleting j)
    then have "p' = tp_at w Calling (p\<lparr>tp_done := tp_done p @ [j]\<rparr>)" using assms(3) by (simp add: tp_exec_def)
    then show ?thesis using h Deleting by (simp, intro hist_at) (use assms(2) in \<open>auto simp: same_workers\<close>)
  qed (use assms(3) in \<open>auto simp: tp_exec_def\<close>)
qed

text \<open>
  To move worker \<open>w\<close>: a step keeps the safety when the worker's new place agrees with the owner of the mutex, and the
  other workers' with theirs.
\<close>

lemma safe_at:
  assumes "tp_safe p" "w < length (tp_workers p)" "tp_workers q = tp_workers p" "tp_stopped q = tp_stopped p" "tp_ended q = tp_ended p"
    "tp_lock q = (if locking x then Some w else if locking (tp_workers p ! w) then None else tp_lock p)"
    "locking x \<longrightarrow> tp_lock p = None \<or> tp_lock p = Some w"
    "tp_jobs q = tp_jobs p \<or> tp_lock p = Some w"
    "x \<noteq> Crashed" "x = Deciding \<longrightarrow> tp_jobs q \<noteq> [] \<or> tp_stopped p" "x = Returning None \<longrightarrow> tp_stopped p"
  shows "tp_safe (tp_at w x q)"
proof -
  have old: "locking (tp_workers p ! v) \<longleftrightarrow> tp_lock p = Some v" "tp_workers p ! v \<noteq> Crashed"
    "tp_workers p ! v = Deciding \<longrightarrow> tp_jobs p \<noteq> [] \<or> tp_stopped p" "tp_workers p ! v = Returning None \<longrightarrow> tp_stopped p"
    if "v < length (tp_workers p)" for v using assms(1) that by (simp_all add: tp_safe_def)
  have gl: "\<forall>w. tp_lock p = Some w \<longrightarrow> w < length (tp_workers p)" "tp_ended p \<longrightarrow> tp_stopped p"
    "tp_workers p \<noteq> [] \<longrightarrow> tp_stopped p \<longrightarrow> tp_ended p" using assms(1) by (simp_all add: tp_safe_def)
  have "(locking ((tp_workers p)[w := x] ! v) \<longleftrightarrow> tp_lock q = Some v) \<and> (tp_workers p)[w := x] ! v \<noteq> Crashed
      \<and> ((tp_workers p)[w := x] ! v = Deciding \<longrightarrow> tp_jobs q \<noteq> [] \<or> tp_stopped p)
      \<and> ((tp_workers p)[w := x] ! v = Returning None \<longrightarrow> tp_stopped p)" if v: "v < length (tp_workers p)" for v
  proof (cases "v = w")
    case True
    then show ?thesis using assms(2,6,9-11) old(1) [OF assms(2)] by simp
  next
    case False
    have d: "tp_jobs q \<noteq> [] \<or> tp_stopped p" if "tp_workers p ! v = Deciding"
      using assms(8) old(1,3) [OF v] that False by auto
    show ?thesis using False v assms(6,7) old [OF v] old(1) [OF assms(2)] d by auto
  qed
  then show ?thesis using gl assms(2-6) by (auto simp: tp_safe_def)
qed

lemma safe_get:
  assumes "tp_safe p" "w < length (tp_workers p)" "tp_get w p = Some p'"
  shows "tp_safe p'"
proof -
  have own: "locking (tp_workers p ! w) \<longleftrightarrow> tp_lock p = Some w" using assms(1,2) by (simp add: tp_safe_def)
  have d: "tp_workers p ! w = Deciding \<longrightarrow> tp_jobs p \<noteq> [] \<or> tp_stopped p" "tp_workers p ! w = Returning None \<longrightarrow> tp_stopped p"
    using assms(1,2) by (simp_all add: tp_safe_def)
  show ?thesis
    by (cases "tp_workers p ! w")
      (use assms(3) own d in \<open>auto simp: tp_get_def intro!: safe_at [OF assms(1,2)] split: if_splits list.splits option.splits\<close>)
qed

lemma safe_exec:
  assumes "tp_safe p" "w < length (tp_workers p)" "tp_exec w throws p = Some p'"
  shows "tp_safe p'"
  by (cases "tp_workers p ! w")
    (use assms(3) in \<open>auto simp: tp_exec_def intro!: safe_at [OF assms(1,2)] split: if_splits\<close>)

lemma inv_step: "tp_step p p' \<Longrightarrow> tp_hist p \<and> tp_safe p \<Longrightarrow> tp_hist p' \<and> tp_safe p'"
proof (induction rule: tp_step.induct)
  case (init p n)
  then show ?case
    by (auto simp: tp_hist_def tp_safe_def tp_init_def tp_held_def tp_counted_def tp_gone_def nth_append sum_list_replicate)
next
  case (add p j)
  then show ?case by (auto simp: tp_hist_def tp_safe_def tp_add_def tp_held_def tp_counted_def tp_gone_def)
next
  case (stop p)
  then show ?case by (simp add: tp_hist_def tp_safe_def tp_stop_def tp_held_def tp_counted_def tp_gone_def)
next
  case (get w p p')
  then show ?case using hist_get safe_get by blast
next
  case (exec w p throws p')
  then show ?case using hist_exec safe_exec by blast
qed

lemma reach_inv: "tp_reach p \<Longrightarrow> tp_hist p \<and> tp_safe p"
proof (induction rule: tp_reach.induct)
  case start
  then show ?case by (simp add: tp_hist_def tp_safe_def tp_new_def tp_held_def tp_counted_def tp_gone_def)
next
  case (step p p')
  then show ?case using inv_step by blast
qed

lemma gone_bound: "tp_gone p \<le> length (filter (\<lambda>x. x = Left \<or> x = Unlocking None) (tp_workers p))"
proof -
  have g: "gone x = (if x = Left \<or> x = Unlocking None then 1 else 0)" for x :: "'a worker" by (cases x rule: gone.cases) auto
  have "sum_list (map gone xs) \<le> length (filter (\<lambda>x. x = Left \<or> x = Unlocking None) xs)" for xs :: "'a worker list"
    by (induction xs) (simp_all add: g)
  then show ?thesis by (simp add: tp_gone_def)
qed

section \<open>The properties\<close>

text \<open>
  C26 In every interleaving the jobs are taken in the order they were added, each once: the jobs taken so far
  followed by the queue are the jobs added. Every job taken is at each moment in exactly one place: held by one worker,
  done and deleted, or lost; jobs are lost only once the destructor runs, by a worker that had popped one when the flag
  was set, at most one by each worker that returns from \<open>get\<close> for the last time. At most one worker is in the part of
  \<open>get\<close> that holds the mutex, and no worker reads the front of an empty queue or goes on without a job.
\<close>

theorem ThreadPool_fifo:
  assumes "tp_reach p"
  shows "tp_taken p @ tp_jobs p = tp_added p
    \<and> mset (tp_taken p) = mset (tp_held p) + mset (tp_done p) + mset (tp_lost p)
    \<and> (tp_lost p \<noteq> [] \<longrightarrow> tp_ended p)
    \<and> length (tp_lost p) \<le> length (filter (\<lambda>x. x = Left \<or> x = Unlocking None) (tp_workers p))
    \<and> (\<forall>v w. v < length (tp_workers p) \<longrightarrow> w < length (tp_workers p) \<longrightarrow>
        locking (tp_workers p ! v) \<longrightarrow> locking (tp_workers p ! w) \<longrightarrow> v = w)
    \<and> Crashed \<notin> set (tp_workers p)"
proof -
  have h: "tp_hist p" and s: "tp_safe p" using reach_inv [OF assms] by auto
  have "length (tp_lost p) \<le> length (filter (\<lambda>x. x = Left \<or> x = Unlocking None) (tp_workers p))"
    using h gone_bound [of p] by (simp add: tp_hist_def)
  moreover have "Crashed \<notin> set (tp_workers p)" using s by (auto simp: tp_safe_def in_set_conv_nth)
  ultimately show ?thesis using h s by (simp add: tp_hist_def tp_safe_def)
qed

text \<open>
  What \<open>allClear\<close> means: nothing is queued, no worker is between the two updates of the counter, and no job
  has ever thrown. So it also answers \<open>true\<close> while a job has been taken from the queue and not yet counted, and
  after one exception it never answers \<open>true\<close> again.
\<close>

theorem ThreadPool_allClear:
  assumes "tp_reach p" "tp_counted p + tp_thrown p < 2 ^ 32"
  shows "tp_allClear p \<longleftrightarrow> tp_jobs p = [] \<and> tp_counted p = 0 \<and> tp_thrown p = 0"
proof -
  have "tp_currentJobs p = word_of_nat (tp_counted p + tp_thrown p)" using reach_inv [OF assms(1)] by (simp add: tp_hist_def)
  then have "unat (tp_currentJobs p) = tp_counted p + tp_thrown p"
    using assms(2) by (simp add: unsigned_of_nat take_bit_nat_eq_self_iff del: of_nat_add)
  then have "tp_currentJobs p = 0 \<longleftrightarrow> tp_counted p + tp_thrown p = 0" by (metis unat_eq_zero)
  then show ?thesis by (auto simp: tp_allClear_def tp_jobsize_def)
qed

text \<open>A run: \<open>k\<close> actions of worker 0 in \<open>get\<close> on a pool of one worker and one job.\<close>

fun tp_gets :: "nat \<Rightarrow> 'j pool \<Rightarrow> 'j pool" where
  "tp_gets 0 p = p"
| "tp_gets (Suc k) p = (case tp_get 0 p of Some p' \<Rightarrow> tp_gets k p' | None \<Rightarrow> p)"

lemma tp_gets_reach: "tp_reach p \<Longrightarrow> tp_workers p \<noteq> [] \<Longrightarrow> tp_reach (tp_gets k p)"
proof (induction k arbitrary: p)
  case (Suc k)
  show ?case
  proof (cases "tp_get 0 p")
    case (Some p')
    have "tp_workers p' \<noteq> []"
      using Some Suc.prems(2) by (auto simp: tp_get_def split: worker.splits if_splits option.splits list.splits)
    then show ?thesis using Some Suc tp_reach.step [OF Suc.prems(1) tp_step.get [of 0 p p']] by simp
  qed (use Suc.prems in simp)
qed simp

definition tpOne :: "int pool" where
  "tpOne = tp_add 7 (tp_init 1 tp_new)"

lemma tpOne_reach: "tp_reach tpOne" "tp_workers tpOne \<noteq> []"
proof -
  have "tp_reach (tp_init 1 tp_new :: int pool)"
    by (rule tp_reach.step [OF tp_reach.start tp_step.init]) (simp add: tp_new_def)
  then show "tp_reach tpOne" unfolding tpOne_def
    by (rule tp_reach.step [OF _ tp_step.add]) (simp_all add: tp_new_def tp_init_def)
qed (simp add: tpOne_def tp_add_def tp_init_def)

text \<open>
  A job lost: worker 0 pops job 7 and comes to the third test of the flag, the destructor sets the flag, and \<open>get\<close>
  answers false.
\<close>

definition tpLost :: "int pool" where
  "tpLost = tp_gets 2 (tp_stop (tp_gets 3 tpOne))"

lemmas tp_eval = tp_gets.simps tpOne_def tp_get_def tp_at_def tp_stop_def tp_add_def tp_init_def tp_new_def
  eval_nat_numeral

lemma tpLost_state:
  "tpLost = \<lparr>tp_jobs = [], tp_currentJobs = 0, tp_stopped = True, tp_lock = None, tp_workers = [Left], tp_ended = True,
     tp_added = [7], tp_taken = [7], tp_done = [], tp_lost = [7], tp_thrown = 0\<rparr>"
  by (simp add: tpLost_def tp_eval)

theorem ThreadPool_fifo_witness: "\<exists>p :: int pool. tp_reach p \<and> tp_lost p = [7] \<and> tp_taken p @ tp_jobs p = [7] \<and> tp_held p = []"
proof -
  have "tp_workers (tp_stop (tp_gets 3 tpOne)) \<noteq> []" by (simp add: tp_eval)
  then have r: "tp_reach tpLost" unfolding tpLost_def
    by (intro tp_gets_reach tp_reach.step [OF tp_gets_reach [OF tpOne_reach] tp_step.stop])
  show ?thesis
    by (rule exI [of _ tpLost]) (use ThreadPool_fifo [OF r] r in \<open>simp add: tpLost_state tp_held_def\<close>)
qed

text \<open>The job 7 is neither queued nor done, yet all is clear.\<close>

lemma tpRace_state:
  "tp_gets 5 tpOne = \<lparr>tp_jobs = [], tp_currentJobs = 0, tp_stopped = False, tp_lock = None, tp_workers = [Taken 7], tp_ended = False,
     tp_added = [7], tp_taken = [7], tp_done = [], tp_lost = [], tp_thrown = 0\<rparr>"
  by (simp add: tp_eval)

theorem ThreadPool_allClear_witness:
  "tp_allClear (tp_gets 5 tpOne) \<and> tp_held (tp_gets 5 tpOne) = [7]"
proof -
  have "tp_counted (tp_gets 5 tpOne) + tp_thrown (tp_gets 5 tpOne) < 2 ^ 32" by (simp add: tpRace_state tp_counted_def)
  from ThreadPool_allClear [OF tp_gets_reach [OF tpOne_reach] this]
  show ?thesis by (simp add: tpRace_state tp_counted_def tp_held_def)
qed

end
