(* ===== verification/StaticLayout.thy ===== *)
theory StaticLayout
  imports CommonDefs
begin

text \<open>
  Where \<open>ExtraStaticSearcher\<close> (AnnService/inc/Core/SPANN/ExtraStaticSearcher.h) puts its posting lists in the
  index file: \<open>SelectPostingOffset\<close> fills the pages greedily with the list whose last, partial page fits best,
  so that no list touches one page more than its bytes need. Page numbers and list ids are \<open>int\<close>s of 32 bits: a
  conversion or sum out of their range stops the model with \<open>Invalid\<close>. The two \<open>std::uint16_t\<close> values wrap at 65536,
  and the arrays \<open>new\<close> leaves uninitialised hold \<open>None\<close>.
\<close>

section \<open>Errors of the static searcher\<close>

text \<open>A thrown \<open>std::runtime_error\<close>, undefined behaviour, \<open>exit\<close>, or a loop that was not given enough rounds.\<close>

datatype exc = Throw string | Invalid | Exit int | NoReturn

fun thenE :: "exc + 'a \<Rightarrow> ('a \<Rightarrow> exc + 'b) \<Rightarrow> exc + 'b" where
  "thenE (Inl e) f = Inl e"
| "thenE (Inr x) f = f x"

declare thenE.simps [outcome_simps]

lemma thenE_Inr_iff: "thenE m f = Inr y \<longleftrightarrow> (\<exists>x. m = Inr x \<and> f x = Inr y)"
  by (cases m) auto

fun foldE :: "('a \<Rightarrow> 's \<Rightarrow> exc + 's) \<Rightarrow> 'a list \<Rightarrow> 's \<Rightarrow> exc + 's" where
  "foldE f [] s = Inr s"
| "foldE f (x # xs) s = thenE (f x s) (foldE f xs)"

lemma thenE_assoc: "thenE (thenE m f) g = thenE m (\<lambda>x. thenE (f x) g)"
  by (cases m) auto

lemma foldE_append: "foldE f (xs @ ys) s = thenE (foldE f xs s) (foldE f ys)"
proof -
  have "foldE f (xs @ ys) = (\<lambda>s. thenE (foldE f xs s) (foldE f ys))" for xs
  proof (induction xs)
    case Nil
    then show ?case by simp
  next
    case (Cons a xs)
    show ?case by (rule ext) (simp add: Cons thenE_assoc)
  qed
  then show ?thesis by (rule fun_cong)
qed

text \<open>An array element: outside the array, or not initialised, the read is invalid.\<close>

definition readE :: "'a option list \<Rightarrow> nat \<Rightarrow> exc + 'a" where
  "readE xs i = (if i < length xs then (case xs ! i of None \<Rightarrow> Inl Invalid | Some x \<Rightarrow> Inr x) else Inl Invalid)"

definition idxE :: "'a list \<Rightarrow> int \<Rightarrow> exc + 'a" where
  "idxE xs i = (if 0 \<le> i \<and> i < int (length xs) then Inr (xs ! nat i) else Inl Invalid)"

section \<open>SelectPostingOffset\<close>

record pageMod =
  pm_id :: int
  pm_rest :: nat

text \<open>\<open>PageModeWithIDCmp\<close>, and \<open>insert\<close> and \<open>lower_bound\<close> of the \<open>std::set\<close> it orders.\<close>

definition pm_cmp :: "pageMod \<Rightarrow> pageMod \<Rightarrow> bool" where
  "pm_cmp a b = (if pm_rest a = pm_rest b then pm_id a < pm_id b else pm_rest b < pm_rest a)"

fun pm_insert :: "pageMod \<Rightarrow> pageMod list \<Rightarrow> pageMod list" where
  "pm_insert x [] = [x]"
| "pm_insert x (y # ys) = (if pm_cmp x y then x # y # ys else if pm_cmp y x then y # pm_insert x ys else y # ys)"

definition pm_lower_bound :: "pageMod \<Rightarrow> pageMod list \<Rightarrow> pageMod list" where
  "pm_lower_bound x ys = dropWhile (\<lambda>y. pm_cmp y x) ys"

record layout =
  so_set :: "pageMod list"
  so_page :: nat
  so_off :: nat
  so_pageNum :: "nat option list"
  so_pageOffset :: "nat option list"
  so_order :: "nat list"

definition so_start :: "nat list \<Rightarrow> layout" where
  "so_start bytes =
     \<lparr>so_set = fold (\<lambda>i s. if bytes ! i = 0 then s else pm_insert \<lparr>pm_id = int i, pm_rest = (bytes ! i mod PageSize) mod 65536\<rparr> s) [0 ..< length bytes] [],
      so_page = 0, so_off = 0, so_pageNum = replicate (length bytes) None, so_pageOffset = replicate (length bytes) None, so_order = []\<rparr>"

text \<open>
  List \<open>x\<close> goes to the current position. The new page number is the largest of the values computed on the way: the
  increment, the number of pages converted to \<open>int\<close>, and their sum.
\<close>

definition so_place :: "nat list \<Rightarrow> pageMod \<Rightarrow> layout \<Rightarrow> exc + layout" where
  "so_place bytes x s =
     (let i = nat (pm_id x); off = (so_off s + pm_rest x) mod 65536;
          page = (if off = PageSize then so_page s + 1 else so_page s) + bytes ! i div PageSize
      in if off > PageSize then Inl (Throw ''Read too many pages'')
         else if \<not> int32_ok (int page) then Inl Invalid
         else Inr (s\<lparr>so_set := remove1 x (so_set s),
                     so_page := page,
                     so_off := (if off = PageSize then 0 else off),
                     so_pageNum := (so_pageNum s)[i := Some (so_page s)],
                     so_pageOffset := (so_pageOffset s)[i := Some (so_off s)],
                     so_order := so_order s @ [i]\<rparr>))"

text \<open>On to the next page.\<close>

definition so_skip :: "layout \<Rightarrow> exc + layout" where
  "so_skip s = (if \<not> int32_ok (int (so_page s) + 1) then Inl Invalid else Inr (s\<lparr>so_page := so_page s + 1, so_off := 0\<rparr>))"

definition so_round :: "nat list \<Rightarrow> layout \<Rightarrow> exc + layout" where
  "so_round bytes s =
     (let room = (PageSize - so_off s) mod 65536
      in case pm_lower_bound \<lparr>pm_id = - 1, pm_rest = room\<rparr> (so_set s) of
           [] \<Rightarrow> so_skip s
         | x # _ \<Rightarrow> if room \<noteq> PageSize \<and> pm_rest x = 0 then so_skip s else so_place bytes x s)"

primrec so_loop :: "nat \<Rightarrow> nat list \<Rightarrow> layout \<Rightarrow> exc + layout" where
  "so_loop 0 bytes s = (if so_set s = [] then Inr s else Inl NoReturn)"
| "so_loop (Suc n) bytes s = (if so_set s = [] then Inr s else thenE (so_round bytes s) (so_loop n bytes))"

text \<open>
  The id of a list that is not empty is its index, converted to \<open>int\<close>. Every second round places a list, so twice as
  many rounds as lists are enough.
\<close>

definition SelectPostingOffset :: "nat list \<Rightarrow> exc + layout" where
  "SelectPostingOffset bytes =
     (if list_ex (\<lambda>i. bytes ! i \<noteq> 0 \<and> \<not> int32_ok (int i)) [0 ..< length bytes] then Inl Invalid
      else so_loop (2 * length bytes) bytes (so_start bytes))"

section \<open>The layout\<close>

text \<open>First byte of a placed list; \<open>laidOut\<close>: the lists follow one another from \<open>pos\<close> on, less than a page apart.\<close>

definition so_at :: "layout \<Rightarrow> nat \<Rightarrow> nat" where
  "so_at s i = the (so_pageNum s ! i) * PageSize + the (so_pageOffset s ! i)"

fun laidOut :: "(nat \<Rightarrow> nat) \<Rightarrow> (nat \<Rightarrow> nat) \<Rightarrow> nat \<Rightarrow> nat list \<Rightarrow> bool" where
  "laidOut at len pos [] = True"
| "laidOut at len pos (i # is') \<longleftrightarrow> pos \<le> at i \<and> at i < pos + PageSize \<and> laidOut at len (at i + len i) is'"

text \<open>The byte behind the last list.\<close>

definition layoutEnd :: "(nat \<Rightarrow> nat) \<Rightarrow> (nat \<Rightarrow> nat) \<Rightarrow> nat list \<Rightarrow> nat" where
  "layoutEnd at len is' = (if is' = [] then 0 else at (last is') + len (last is'))"

definition placed :: "layout \<Rightarrow> nat \<Rightarrow> bool" where
  "placed s i \<longleftrightarrow> i < length (so_pageNum s) \<and> i < length (so_pageOffset s) \<and> so_pageNum s ! i \<noteq> None \<and> so_pageOffset s ! i \<noteq> None"

text \<open>No page too many: the partial page of list \<open>i\<close> ends on the page where it starts.\<close>

definition noCrossing :: "nat list \<Rightarrow> layout \<Rightarrow> nat \<Rightarrow> bool" where
  "noCrossing bytes s i \<longleftrightarrow>
     the (so_pageOffset s ! i) < PageSize \<and> the (so_pageOffset s ! i) + bytes ! i mod PageSize \<le> PageSize \<and>
     (bytes ! i mod PageSize = 0 \<longrightarrow> the (so_pageOffset s ! i) = 0)"

lemma laidOut_snoc: "laidOut at len pos (is' @ [i]) \<longleftrightarrow>
    laidOut at len pos is' \<and> (let p = (if is' = [] then pos else at (last is') + len (last is')) in p \<le> at i \<and> at i < p + PageSize)"
  by (induction is' arbitrary: pos) (auto simp: Let_def)

lemma laidOut_cong: "(\<And>i. i \<in> set is' \<Longrightarrow> at i = at' i) \<Longrightarrow> laidOut at len pos is' = laidOut at' len pos is'"
  by (induction is' arbitrary: pos) auto

definition so_inv :: "nat list \<Rightarrow> layout \<Rightarrow> bool" where
  "so_inv bytes s \<longleftrightarrow>
     so_off s < PageSize \<and>
     length (so_pageNum s) = length bytes \<and> length (so_pageOffset s) = length bytes \<and>
     (\<forall>x \<in> set (so_set s). 0 \<le> pm_id x \<and> nat (pm_id x) < length bytes \<and> bytes ! nat (pm_id x) \<noteq> 0 \<and> pm_rest x = bytes ! nat (pm_id x) mod PageSize) \<and>
     mset (map (nat \<circ> pm_id) (so_set s)) + mset (so_order s) = mset (filter (\<lambda>i. bytes ! i \<noteq> 0) [0 ..< length bytes]) \<and>
     (\<forall>i \<in> set (so_order s). placed s i \<and> noCrossing bytes s i) \<and>
     laidOut (so_at s) (\<lambda>i. bytes ! i) 0 (so_order s) \<and>
     layoutEnd (so_at s) (\<lambda>i. bytes ! i) (so_order s) \<le> so_page s * PageSize + so_off s \<and>
     so_page s * PageSize + so_off s < layoutEnd (so_at s) (\<lambda>i. bytes ! i) (so_order s) + PageSize \<and>
     (so_off s \<noteq> 0 \<longrightarrow> so_page s * PageSize + so_off s = layoutEnd (so_at s) (\<lambda>i. bytes ! i) (so_order s)) \<and>
     so_page s + (if so_off s = 0 then 0 else 1) \<le> sum_list (map (\<lambda>i. pagesOf (bytes ! i)) (so_order s))"

text \<open>The pages all lists fill are an \<open>int\<close>; so is the index of each list.\<close>

definition pagesFit :: "nat list \<Rightarrow> bool" where
  "pagesFit bytes \<longleftrightarrow> sum_list (map pagesOf bytes) < 2 ^ 31 \<and> length bytes \<le> 2 ^ 31"


section \<open>Proof\<close>

lemma insert_set: "0 \<le> pm_id x \<Longrightarrow> \<forall>y \<in> set ys. pm_id y \<noteq> pm_id x \<Longrightarrow> mset (pm_insert x ys) = add_mset x (mset ys)"
proof (induction ys)
  case Nil
  then show ?case by simp
next
  case (Cons y ys)
  then have "pm_id y \<noteq> pm_id x" by simp
  then have "pm_cmp x y \<or> pm_cmp y x" by (auto simp: pm_cmp_def)
  with Cons show ?case by auto
qed

definition so_items :: "nat list \<Rightarrow> nat list \<Rightarrow> pageMod list" where
  "so_items bytes is' = map (\<lambda>i. \<lparr>pm_id = int i, pm_rest = bytes ! i mod PageSize\<rparr>) (filter (\<lambda>i. bytes ! i \<noteq> 0) is')"

lemma rest_cast: "(b mod PageSize) mod 65536 = b mod PageSize"
proof -
  have "b mod PageSize < PageSize" by (simp add: PageSize_def)
  then show ?thesis by (simp add: PageSize_def)
qed

lemma start_set_aux:
  "k \<le> length bytes \<Longrightarrow>
   mset (fold (\<lambda>i s. if bytes ! i = 0 then s else pm_insert \<lparr>pm_id = int i, pm_rest = (bytes ! i mod PageSize) mod 65536\<rparr> s) [0 ..< k] [])
     = mset (so_items bytes [0 ..< k])"
proof (induction k)
  case 0
  then show ?case by (simp add: so_items_def)
next
  case (Suc k)
  let ?f = "\<lambda>i s. if bytes ! i = 0 then s else pm_insert \<lparr>pm_id = int i, pm_rest = (bytes ! i mod PageSize) mod 65536\<rparr> s"
  let ?s = "fold ?f [0 ..< k] []"
  have IH: "mset ?s = mset (so_items bytes [0 ..< k])" using Suc by simp
  have e: "fold ?f [0 ..< Suc k] [] = ?f k ?s" by simp
  show ?case
  proof (cases "bytes ! k = 0")
    case True
    have "fold ?f [0 ..< Suc k] [] = ?s" using True by simp
    then show ?thesis using IH True by (simp add: so_items_def)
  next
    case False
    have "\<forall>y \<in> set ?s. pm_id y \<noteq> int k" unfolding mset_eq_setD [OF IH] by (auto simp: so_items_def)
    then have "mset (pm_insert \<lparr>pm_id = int k, pm_rest = bytes ! k mod PageSize\<rparr> ?s) = add_mset \<lparr>pm_id = int k, pm_rest = bytes ! k mod PageSize\<rparr> (mset ?s)"
      by (intro insert_set) simp_all
    then show ?thesis unfolding e using False IH by (simp add: so_items_def rest_cast)
  qed
qed

lemma start_set: "mset (so_set (so_start bytes)) = mset (so_items bytes [0 ..< length bytes])"
  using start_set_aux [of "length bytes" bytes] by (simp add: so_start_def)

lemma start_inv: "so_inv bytes (so_start bytes)"
proof -
  let ?s = "so_start bytes"
  have "mset (map (nat \<circ> pm_id) (so_set ?s)) = image_mset (nat \<circ> pm_id) (mset (so_items bytes [0 ..< length bytes]))"
    using start_set by (simp flip: start_set)
  also have "\<dots> = mset (map (nat \<circ> pm_id) (so_items bytes [0 ..< length bytes]))" by (rule mset_map [symmetric])
  also have "map (nat \<circ> pm_id) (so_items bytes [0 ..< length bytes]) = filter (\<lambda>i. bytes ! i \<noteq> 0) [0 ..< length bytes]"
    by (simp add: so_items_def comp_def)
  finally have m: "mset (map (nat \<circ> pm_id) (so_set ?s)) = mset (filter (\<lambda>i. bytes ! i \<noteq> 0) [0 ..< length bytes])" .
  have "\<forall>x \<in> set (so_set ?s). 0 \<le> pm_id x \<and> nat (pm_id x) < length bytes \<and> bytes ! nat (pm_id x) \<noteq> 0 \<and> pm_rest x = bytes ! nat (pm_id x) mod PageSize"
    unfolding mset_eq_setD [OF start_set] by (auto simp: so_items_def)
  then show ?thesis using m by (simp add: so_inv_def so_start_def layoutEnd_def)
qed

lemma lower_bound_in: "pm_lower_bound k ys = x # r \<Longrightarrow> x \<in> set ys \<and> \<not> pm_cmp x k"
  unfolding pm_lower_bound_def by (metis dropWhile_eq_Cons_conv set_dropWhileD list.set_intros(1))

lemma lower_bound_Nil: "pm_lower_bound k ys = [] \<longleftrightarrow> (\<forall>y \<in> set ys. pm_cmp y k)"
  unfolding pm_lower_bound_def by (rule dropWhile_eq_Nil_conv)

lemma cmp_key: "0 \<le> pm_id y \<Longrightarrow> pm_cmp y \<lparr>pm_id = - 1, pm_rest = r\<rparr> \<longleftrightarrow> r < pm_rest y"
  by (auto simp: pm_cmp_def)

lemma order_fresh: "so_inv bytes s \<Longrightarrow> x \<in> set (so_set s) \<Longrightarrow> nat (pm_id x) \<notin> set (so_order s)"
proof
  assume i: "so_inv bytes s" and x: "x \<in> set (so_set s)" and o: "nat (pm_id x) \<in> set (so_order s)"
  let ?m = "mset (map (nat \<circ> pm_id) (so_set s))" and ?o = "mset (so_order s)"
  have m: "?m + ?o = mset (filter (\<lambda>i. bytes ! i \<noteq> 0) [0 ..< length bytes])" using i by (simp add: so_inv_def)
  have "nat (pm_id x) \<in># ?m" using x by force
  then have c1: "0 < Multiset.count ?m (nat (pm_id x))" by (simp only: count_greater_zero_iff)
  have "nat (pm_id x) \<in># ?o" using o by simp
  then have c2: "0 < Multiset.count ?o (nat (pm_id x))" by (simp only: count_greater_zero_iff)
  have "2 \<le> Multiset.count (?m + ?o) (nat (pm_id x))" using c1 c2 by (simp only: count_union)
  moreover have "Multiset.count (mset (filter (\<lambda>i. bytes ! i \<noteq> 0) [0 ..< length bytes])) (nat (pm_id x)) \<le> 1"
    by (subst distinct_count_atmost_1 [THEN iffD1, rule_format]) auto
  ultimately show False unfolding m by simp
qed

lemma sum_list_filter_le: "sum_list (map f (filter P xs)) \<le> sum_list (map f (xs :: 'a list) :: nat list)"
  by (induction xs) auto

lemma pagesOf_mod: "pagesOf b = b div PageSize + (if b mod PageSize = 0 then 0 else 1)"
proof -
  define p q r where "p = pagesOf b" and "q = b div PageSize" and "r = b mod PageSize"
  have b: "b = q * 4096 + r" "r < 4096" by (simp_all add: q_def r_def PageSize_def)
  have "b \<le> p * 4096" "p * 4096 < b + 4096" using pagesOf_bounds [of b] by (simp_all add: p_def PageSize_def)
  with b have "p = q + (if r = 0 then 0 else 1)" by (cases "r = 0") simp_all
  then show ?thesis by (simp add: p_def q_def r_def)
qed

lemma page_bound:
  assumes "so_inv bytes s"
  shows "so_page s + (if so_off s = 0 then 0 else 1) \<le> sum_list (map pagesOf bytes)"
proof -
  let ?f = "\<lambda>i. pagesOf (bytes ! i)"
  have m: "mset (so_order s) \<subseteq># mset (filter (\<lambda>i. bytes ! i \<noteq> 0) [0 ..< length bytes])"
    using assms(1) unfolding so_inv_def by (metis mset_subset_eq_add_right)
  have "sum_list (map ?f (so_order s)) = sum_mset (image_mset ?f (mset (so_order s)))" by (simp add: sum_mset_sum_list flip: mset_map)
  also have "\<dots> \<le> sum_mset (image_mset ?f (mset (filter (\<lambda>i. bytes ! i \<noteq> 0) [0 ..< length bytes])))"
  proof -
    obtain d where "mset (filter (\<lambda>i. bytes ! i \<noteq> 0) [0 ..< length bytes]) = mset (so_order s) + d"
      using m by (auto simp: subset_mset.le_iff_add)
    then show ?thesis by simp
  qed
  also have "\<dots> = sum_list (map ?f (filter (\<lambda>i. bytes ! i \<noteq> 0) [0 ..< length bytes]))" by (simp only: sum_mset_sum_list mset_map [symmetric])
  also have "\<dots> \<le> sum_list (map ?f [0 ..< length bytes])" by (rule sum_list_filter_le)
  also have "map ?f [0 ..< length bytes] = map pagesOf (map ((!) bytes) [0 ..< length bytes])" by (simp add: comp_def)
  also have "map ((!) bytes) [0 ..< length bytes] = bytes" by (rule map_nth)
  finally show ?thesis using assms unfolding so_inv_def by linarith
qed

lemma page_int:
  assumes "so_inv bytes s" "pagesFit bytes"
  shows "int32_ok (int (so_page s))" "so_off s \<noteq> 0 \<Longrightarrow> int32_ok (int (so_page s) + 1)"
proof -
  have "so_page s + (if so_off s = 0 then 0 else 1) < 2 ^ 31"
    using page_bound [OF assms(1)] assms(2) unfolding pagesFit_def by linarith
  then show "int32_ok (int (so_page s))" "so_off s \<noteq> 0 \<Longrightarrow> int32_ok (int (so_page s) + 1)"
    by (auto simp: int32_ok_def split: if_splits)
qed

lemma place_ok:
  assumes i: "so_inv bytes s" and x: "x \<in> set (so_set s)" and pf: "pagesFit bytes"
    and fits: "so_off s + pm_rest x \<le> PageSize" and aligned: "pm_rest x = 0 \<Longrightarrow> so_off s = 0"
  shows "\<exists>s'. so_place bytes x s = Inr s' \<and> so_inv bytes s' \<and> length (so_set s') = length (so_set s) - 1"
proof -
  let ?i = "nat (pm_id x)" and ?len = "\<lambda>i. bytes ! i"
  let ?off = "so_off s + pm_rest x"
  define s' where "s' = s\<lparr>so_set := remove1 x (so_set s),
       so_page := (if ?off = PageSize then so_page s + 1 else so_page s) + bytes ! ?i div PageSize,
       so_off := (if ?off = PageSize then 0 else ?off),
       so_pageNum := (so_pageNum s)[?i := Some (so_page s)],
       so_pageOffset := (so_pageOffset s)[?i := Some (so_off s)],
       so_order := so_order s @ [?i]\<rparr>"
  have c: "?off mod 65536 = ?off" using fits by (simp add: PageSize_def)
  note iv = i [unfolded so_inv_def]
  have ix: "?i < length bytes" "bytes ! ?i \<noteq> 0" "pm_rest x = bytes ! ?i mod PageSize" "0 \<le> pm_id x" using iv x by auto
  have fresh: "?i \<notin> set (so_order s)" by (rule order_fresh [OF i x])
  have at: "so_at s' j = so_at s j" if "j \<noteq> ?i" for j using that by (simp add: so_at_def s'_def)
  have ati: "so_at s' ?i = so_page s * PageSize + so_off s" using ix iv by (simp add: so_at_def s'_def)
  have lo: "laidOut (so_at s') ?len 0 (so_order s) = laidOut (so_at s) ?len 0 (so_order s)"
    by (rule laidOut_cong) (use at fresh in metis)
  have le: "layoutEnd (so_at s') ?len (so_order s) = layoutEnd (so_at s) ?len (so_order s)"
    using at fresh by (metis last_in_set layoutEnd_def)
  have lo': "laidOut (so_at s') ?len 0 (so_order s')"
  proof -
    have o: "so_order s' = so_order s @ [?i]" by (simp add: s'_def)
    have b: "layoutEnd (so_at s) ?len (so_order s) \<le> so_at s' ?i" "so_at s' ?i < layoutEnd (so_at s) ?len (so_order s) + PageSize"
      unfolding ati using iv by simp_all
    have "laidOut (so_at s') ?len 0 (so_order s)" using lo iv by simp
    then show ?thesis unfolding o laidOut_snoc Let_def using b unfolding le [symmetric] by (auto simp: layoutEnd_def)
  qed
  have pos: "so_page s' * PageSize + so_off s' = so_page s * PageSize + so_off s + bytes ! ?i"
  proof -
    have "bytes ! ?i = bytes ! ?i div PageSize * PageSize + pm_rest x" unfolding ix(3) by simp
    then show ?thesis by (simp add: s'_def algebra_simps)
  qed
  have en: "layoutEnd (so_at s') ?len (so_order s') = so_page s' * PageSize + so_off s'"
    unfolding pos using ati by (simp add: layoutEnd_def s'_def)
  have off: "so_off s' < PageSize" using fits by (simp add: s'_def)
  have m: "mset (map (nat \<circ> pm_id) (so_set s')) + mset (so_order s') = mset (filter (\<lambda>i. bytes ! i \<noteq> 0) [0 ..< length bytes])"
  proof -
    have "mset (map (nat \<circ> pm_id) (so_set s')) = mset (map (nat \<circ> pm_id) (so_set s)) - {#?i#}"
      using x by (simp add: s'_def image_mset_Diff)
    moreover have "?i \<in># mset (map (nat \<circ> pm_id) (so_set s))" using x by force
    ultimately have "mset (map (nat \<circ> pm_id) (so_set s')) + mset (so_order s') = mset (map (nat \<circ> pm_id) (so_set s)) + mset (so_order s)"
      by (simp add: s'_def)
    then show ?thesis using iv by simp
  qed
  have pl: "\<forall>j \<in> set (so_order s'). placed s' j \<and> noCrossing bytes s' j"
  proof
    fix j assume j: "j \<in> set (so_order s')"
    show "placed s' j \<and> noCrossing bytes s' j"
    proof (cases "j = ?i")
      case True
      have "placed s' ?i" using ix iv by (simp add: placed_def s'_def)
      moreover have "noCrossing bytes s' ?i" using ix iv fits aligned by (simp add: noCrossing_def s'_def)
      ultimately show ?thesis using True by simp
    next
      case False
      then have "j \<in> set (so_order s)" using j by (simp add: s'_def)
      then have "placed s j \<and> noCrossing bytes s j" using iv by blast
      then show ?thesis using False by (simp add: placed_def noCrossing_def s'_def)
    qed
  qed
  have st: "\<forall>x \<in> set (so_set s'). 0 \<le> pm_id x \<and> nat (pm_id x) < length bytes \<and> bytes ! nat (pm_id x) \<noteq> 0 \<and> pm_rest x = bytes ! nat (pm_id x) mod PageSize"
    using iv set_remove1_subset [of x "so_set s"] by (auto simp: s'_def)
  have ln: "length (so_pageNum s') = length bytes" "length (so_pageOffset s') = length bytes" using iv by (simp_all add: s'_def)
  have pb: "so_page s' + (if so_off s' = 0 then 0 else 1) \<le> sum_list (map (\<lambda>i. pagesOf (bytes ! i)) (so_order s'))"
  proof -
    have p0: "so_page s + (if so_off s = 0 then 0 else 1) \<le> sum_list (map (\<lambda>i. pagesOf (bytes ! i)) (so_order s))" using iv by simp
    have pg: "pagesOf (bytes ! ?i) = bytes ! ?i div PageSize + (if pm_rest x = 0 then 0 else 1)"
      unfolding ix(3) by (rule pagesOf_mod)
    have r: "pm_rest x < PageSize" unfolding ix(3) by (simp add: PageSize_def)
    have "so_page s' + (if so_off s' = 0 then 0 else 1) \<le> so_page s + (if so_off s = 0 then 0 else 1) + pagesOf (bytes ! ?i)"
      using pg r by (auto simp: s'_def)
    then show ?thesis using p0 by (simp add: s'_def)
  qed
  have iv': "so_inv bytes s'" unfolding so_inv_def using off ln st m pl lo' en pb by simp
  have "int32_ok (int (so_page s'))" by (rule page_int(1) [OF iv' pf])
  then have p: "so_place bytes x s = Inr s'" using fits unfolding so_place_def Let_def c by (simp add: s'_def)
  note iv'
  moreover have "length (so_set s') = length (so_set s) - 1" using x by (simp add: s'_def length_remove1)
  ultimately show ?thesis using p by blast
qed

definition so_rounds :: "layout \<Rightarrow> nat" where
  "so_rounds s = 2 * length (so_set s) - (if so_off s = 0 then 1 else 0)"

lemma round_ok:
  assumes i: "so_inv bytes s" and ne: "so_set s \<noteq> []" and pf: "pagesFit bytes"
  shows "\<exists>s'. so_round bytes s = Inr s' \<and> so_inv bytes s' \<and> so_rounds s' < so_rounds s"
proof -
  note iv = i [unfolded so_inv_def]
  define room where "room = (PageSize - so_off s) mod 65536"
  have room: "room = PageSize - so_off s" "so_off s < PageSize" using iv by (simp_all add: room_def PageSize_def)
  have r: "so_round bytes s = (case pm_lower_bound \<lparr>pm_id = - 1, pm_rest = room\<rparr> (so_set s) of
           [] \<Rightarrow> so_skip s
         | x # _ \<Rightarrow> if room \<noteq> PageSize \<and> pm_rest x = 0 then so_skip s else so_place bytes x s)"
    by (simp only: so_round_def Let_def room_def)
  have l: "0 < length (so_set s)" using ne by simp
  let ?t = "s\<lparr>so_page := so_page s + 1, so_off := 0\<rparr>"
  have skip: "so_skip s = Inr ?t \<and> so_inv bytes ?t \<and> so_rounds ?t < so_rounds s" if "so_off s \<noteq> 0"
  proof (intro conjI)
    show "so_skip s = Inr ?t" using page_int(2) [OF i pf that] by (simp add: so_skip_def)
    have at: "so_at ?t = so_at s" by (simp add: so_at_def fun_eq_iff)
    have "so_page s * PageSize + so_off s = layoutEnd (so_at s) (\<lambda>i. bytes ! i) (so_order s)" using iv that by simp
    then have "layoutEnd (so_at s) (\<lambda>i. bytes ! i) (so_order s) \<le> so_page ?t * PageSize"
      "so_page ?t * PageSize < layoutEnd (so_at s) (\<lambda>i. bytes ! i) (so_order s) + PageSize" using that room(2) by simp_all
    moreover have "placed ?t = placed s" "noCrossing bytes ?t = noCrossing bytes s" by (simp_all add: placed_def noCrossing_def fun_eq_iff)
    ultimately show "so_inv bytes ?t" using iv that unfolding so_inv_def at by simp
    show "so_rounds ?t < so_rounds s" using that l by (simp add: so_rounds_def)
  qed
  show ?thesis
  proof (cases "pm_lower_bound \<lparr>pm_id = - 1, pm_rest = room\<rparr> (so_set s)")
    case Nil
    obtain y where y: "y \<in> set (so_set s)" using ne by (cases "so_set s") auto
    then have k: "0 \<le> pm_id y" "pm_rest y < PageSize" using iv by (simp_all add: PageSize_def)
    have "room < pm_rest y" using Nil y cmp_key [OF k(1)] unfolding lower_bound_Nil by blast
    then have "so_off s \<noteq> 0" using room k(2) by auto
    from skip [OF this] show ?thesis unfolding r Nil by simp
  next
    case (Cons x xs)
    from lower_bound_in [OF Cons] have x: "x \<in> set (so_set s)" "\<not> pm_cmp x \<lparr>pm_id = - 1, pm_rest = room\<rparr>" by simp_all
    then have k: "0 \<le> pm_id x" using iv by simp
    have fit: "so_off s + pm_rest x \<le> PageSize" using x(2) room by (simp add: cmp_key [OF k])
    show ?thesis
    proof (cases "room \<noteq> PageSize \<and> pm_rest x = 0")
      case True
      then have "so_off s \<noteq> 0" using room by auto
      from skip [OF this] show ?thesis unfolding r Cons using True by simp
    next
      case False
      then have a: "pm_rest x = 0 \<Longrightarrow> so_off s = 0" using room by auto
      obtain s' where "so_place bytes x s = Inr s'" "so_inv bytes s'" "length (so_set s') = length (so_set s) - 1"
        using place_ok [OF i x(1) pf fit a] by blast
      moreover from this(3) have "so_rounds s' < so_rounds s" using l unfolding so_rounds_def by presburger
      ultimately show ?thesis unfolding r Cons using False by auto
    qed
  qed
qed

lemma loop_ok:
  "pagesFit bytes \<Longrightarrow> so_inv bytes s \<Longrightarrow> so_rounds s \<le> n \<Longrightarrow> \<exists>s'. so_loop n bytes s = Inr s' \<and> so_inv bytes s' \<and> so_set s' = []"
proof (induction n arbitrary: s)
  case 0
  have "so_set s = []" using 0(3) by (cases "so_set s") (auto simp: so_rounds_def split: if_splits)
  then show ?case using 0(2) by simp
next
  case (Suc n)
  show ?case
  proof (cases "so_set s = []")
    case True
    then show ?thesis using Suc.prems(2) by simp
  next
    case False
    from round_ok [OF Suc.prems(2) this Suc.prems(1)] obtain s' where s': "so_round bytes s = Inr s'" "so_inv bytes s'" "so_rounds s' < so_rounds s"
      by blast
    have "so_rounds s' \<le> n" using s'(3) Suc.prems(3) by simp
    from Suc.IH [OF Suc.prems(1) s'(2) this] show ?thesis using False s'(1) by simp
  qed
qed

lemma layout_ok:
  assumes pf: "pagesFit bytes"
  obtains s where "SelectPostingOffset bytes = Inr s" "so_inv bytes s" "so_set s = []"
proof -
  have "length (so_set (so_start bytes)) = length (so_items bytes [0 ..< length bytes])"
    using start_set by (metis size_mset)
  also have "\<dots> \<le> length bytes" unfolding so_items_def length_map using length_filter_le [of _ "[0 ..< length bytes]"] by simp
  finally have "so_rounds (so_start bytes) \<le> 2 * length bytes" by (simp add: so_rounds_def)
  from loop_ok [OF pf start_inv this]
  obtain s where "so_loop (2 * length bytes) bytes (so_start bytes) = Inr s" "so_inv bytes s" "so_set s = []" by blast
  moreover have "\<not> list_ex (\<lambda>i. bytes ! i \<noteq> 0 \<and> \<not> int32_ok (int i)) [0 ..< length bytes]"
    using pf by (auto simp: list_ex_iff int32_ok_def pagesFit_def)
  ultimately show ?thesis using that unfolding SelectPostingOffset_def by simp
qed

section \<open>The property\<close>

lemma noCrossing_pages:
  assumes "noCrossing bytes s i" "bytes ! i \<noteq> 0"
  shows "(so_at s i + bytes ! i - 1) div PageSize + 1 = the (so_pageNum s ! i) + pagesOf (bytes ! i)"
proof -
  define p o' q r where "p = the (so_pageNum s ! i)" and "o' = the (so_pageOffset s ! i)"
    and "q = bytes ! i div PageSize" and "r = bytes ! i mod PageSize"
  have b: "bytes ! i = q * PageSize + r" "r < PageSize" by (simp_all add: q_def r_def PageSize_def)
  have h: "o' < PageSize" "o' + r \<le> PageSize" "r = 0 \<longrightarrow> o' = 0"
    using assms(1) by (simp_all add: noCrossing_def o'_def r_def)
  have at: "so_at s i = p * PageSize + o'" by (simp add: so_at_def p_def o'_def)
  have pg: "pagesOf (bytes ! i) = (if r = 0 then q else q + 1)"
    using b unfolding pagesOf_div by (auto simp: PageSize_def)
  show ?thesis
  proof (cases "r = 0")
    case True
    then have "0 < q" using assms(2) b by simp
    then obtain q' where q': "q = Suc q'" by (cases q) auto
    have "so_at s i + bytes ! i - 1 = (p + q') * PageSize + (PageSize - 1)" using True h at b q' by (simp add: algebra_simps PageSize_def)
    also have "\<dots> div PageSize = p + q'" by (simp add: PageSize_def)
    finally show ?thesis using pg True q' by (simp add: p_def)
  next
    case False
    then have "so_at s i + bytes ! i - 1 = (p + q) * PageSize + (o' + r - 1)" using at b by (simp add: algebra_simps)
    moreover have "o' + r - 1 < PageSize" using h False by linarith
    ultimately have "(so_at s i + bytes ! i - 1) div PageSize = p + q" by (simp add: PageSize_def)
    then show ?thesis using pg False by (simp add: p_def)
  qed
qed

text \<open>
  C18 When the pages the lists fill are together an \<open>int\<close>, \<open>SelectPostingOffset\<close> returns, and no page number
  overflows. It gives a place to exactly the lists that are not empty, each once;
  in the order it reports the lists follow one another without overlap and less than a page apart; and a list
  touches exactly as many pages as its bytes fill, however it is aligned.
\<close>

theorem SelectPostingOffset_tight:
  assumes "sum_list (map pagesOf bytes) < 2 ^ 31" "length bytes \<le> 2 ^ 31"
  shows "\<exists>s. SelectPostingOffset bytes = Inr s \<and>
     distinct (so_order s) \<and> set (so_order s) = {i. i < length bytes \<and> bytes ! i \<noteq> 0} \<and>
     laidOut (so_at s) (\<lambda>i. bytes ! i) 0 (so_order s) \<and> so_page s \<le> sum_list (map pagesOf bytes) \<and>
     (\<forall>i < length bytes. bytes ! i \<noteq> 0 \<longrightarrow> placed s i \<and>
        (so_at s i + bytes ! i - 1) div PageSize + 1 = so_at s i div PageSize + pagesOf (bytes ! i))"
proof -
  have pf: "pagesFit bytes" using assms by (simp add: pagesFit_def)
  obtain s where s: "SelectPostingOffset bytes = Inr s" "so_inv bytes s" "so_set s = []" by (rule layout_ok [OF pf])
  note iv = s(2) [unfolded so_inv_def]
  have pb: "so_page s \<le> sum_list (map pagesOf bytes)" using page_bound [OF s(2)] by linarith
  have m: "mset (so_order s) = mset (filter (\<lambda>i. bytes ! i \<noteq> 0) [0 ..< length bytes])" using iv s(3) by simp
  have d: "distinct (so_order s)" using mset_eq_imp_distinct_iff [OF m] by simp
  have o: "set (so_order s) = {i. i < length bytes \<and> bytes ! i \<noteq> 0}" using mset_eq_setD [OF m] by auto
  have p: "placed s i \<and> (so_at s i + bytes ! i - 1) div PageSize + 1 = so_at s i div PageSize + pagesOf (bytes ! i)"
    if "i < length bytes" "bytes ! i \<noteq> 0" for i
  proof -
    have "i \<in> set (so_order s)" using that o by simp
    then have pl: "placed s i" "noCrossing bytes s i" using iv by blast+
    have "so_at s i div PageSize = the (so_pageNum s ! i)" using pl(2) by (simp add: so_at_def noCrossing_def PageSize_def)
    then show ?thesis using noCrossing_pages [OF pl(2) that(2)] pl(1) by simp
  qed
  show ?thesis using s(1) d o iv p pb by blast
qed

lemma so_loop_numeral:
  "so_loop (numeral k) bytes s = (if so_set s = [] then Inr s else thenE (so_round bytes s) (so_loop (pred_numeral k) bytes))"
  by (simp add: numeral_eq_Suc)

text \<open>Lists of 4096, 100, 0, 5000 and 3200 bytes: the last partial pages of 904 and 3192 bytes fill one page.\<close>

theorem SelectPostingOffset_tight_witness:
  "\<exists>s. SelectPostingOffset [4096, 100, 0, 5000, 3192] = Inr s \<and> so_order s = [4, 3, 1, 0] \<and>
     (so_at s 3 + 5000 - 1) div PageSize + 1 = so_at s 3 div PageSize + 2"
proof -
  let ?b = "[4096, 100, 0, 5000, 3192] :: nat list"
  have pg: "map pagesOf ?b = [1, 1, 0, 2, 1]" by (simp add: pagesOf_div PageSize_def)
  have "sum_list (map pagesOf ?b) < 2 ^ 31" "length ?b \<le> 2 ^ 31" unfolding pg by simp_all
  from SelectPostingOffset_tight [OF this] obtain s where s: "SelectPostingOffset ?b = Inr s"
    and a: "\<forall>i < length ?b. ?b ! i \<noteq> 0 \<longrightarrow> placed s i \<and> (so_at s i + ?b ! i - 1) div PageSize + 1 = so_at s i div PageSize + pagesOf (?b ! i)"
    by (elim exE conjE)
  have t: "(so_at s 3 + 5000 - 1) div PageSize + 1 = so_at s 3 div PageSize + pagesOf (?b ! 3)"
    using a [rule_format, of 3] by simp
  have "(case SelectPostingOffset ?b of Inr s \<Rightarrow> so_order s = [4, 3, 1, 0] | Inl _ \<Rightarrow> False)"
    by (simp add: SelectPostingOffset_def so_start_def so_round_def so_place_def so_skip_def int32_ok_def pm_lower_bound_def pm_cmp_def PageSize_def Let_def upt_rec so_loop_numeral)
  moreover have "pagesOf (?b ! 3) = 2" by (simp add: pagesOf_div PageSize_def)
  ultimately show ?thesis using s t by simp
qed

end
