(* ===== verification/Compressors.thy ===== *)
theory Compressors
  imports StaticLayout
begin

text \<open>
  \<open>SPANN::Compressor\<close> (AnnService/inc/Core/SPANN/Compressor.h), the wrapper around zstd that the static
  searcher compresses postings with. The zstd calls are parameters: each answers the bytes it produced, or
  \<open>None\<close> for an error code. A failed \<open>createCCtx\<close> is not modelled (allocation does not fail).
\<close>

record zstd =
  z_compress :: "int \<Rightarrow> bytes \<Rightarrow> bytes option"
  z_compressDict :: "bytes \<times> int \<Rightarrow> bytes \<Rightarrow> bytes option"
  z_decompress :: "nat \<Rightarrow> bytes \<Rightarrow> bytes option"
  z_decompressDict :: "bytes \<Rightarrow> nat \<Rightarrow> bytes \<Rightarrow> bytes option"
  z_train :: "nat \<Rightarrow> bytes \<Rightarrow> nat list \<Rightarrow> bytes option"
  z_cdictOk :: "bytes \<Rightarrow> int \<Rightarrow> bool"
  z_ddictOk :: "bytes \<Rightarrow> bool"

record compressor =
  co_level :: int
  co_dictBuffer :: bytes
  co_dictCapacity :: nat
  co_cdict :: "(bytes \<times> int) option"
  co_ddict :: "bytes option"

definition co_new :: "int \<Rightarrow> nat \<Rightarrow> compressor" where
  "co_new level capacity =
     \<lparr>co_level = level, co_dictBuffer = [], co_dictCapacity = capacity, co_cdict = None, co_ddict = None\<rparr>"

definition co_CreateCDict :: "zstd \<Rightarrow> compressor \<Rightarrow> exc + compressor" where
  "co_CreateCDict z c =
     (if z_cdictOk z (co_dictBuffer c) (co_level c) then Inr (c\<lparr>co_cdict := Some (co_dictBuffer c, co_level c)\<rparr>)
      else Inl (Throw ''ZSTD_createCDict() failed!''))"

definition co_CreateDDict :: "zstd \<Rightarrow> compressor \<Rightarrow> exc + compressor" where
  "co_CreateDDict z c =
     (if z_ddictOk z (co_dictBuffer c) then Inr (c\<lparr>co_ddict := Some (co_dictBuffer c)\<rparr>)
      else Inl (Throw ''ZSTD_createDDict() failed!''))"

text \<open>Without a dictionary the null pointer is passed on to zstd.\<close>

definition co_CompressWithDict :: "zstd \<Rightarrow> compressor \<Rightarrow> bytes \<Rightarrow> exc + bytes" where
  "co_CompressWithDict z c src =
     (case co_cdict c of None \<Rightarrow> Inl Invalid
      | Some d \<Rightarrow> (case z_compressDict z d src of None \<Rightarrow> Inl (Throw ''ZSTD compress error'') | Some out \<Rightarrow> Inr out))"

definition co_CompressWithoutDict :: "zstd \<Rightarrow> compressor \<Rightarrow> bytes \<Rightarrow> exc + bytes" where
  "co_CompressWithoutDict z c src =
     (case z_compress z (co_level c) src of None \<Rightarrow> Inl (Throw ''ZSTD compress error'') | Some out \<Rightarrow> Inr out)"

definition co_DecompressWithDict :: "zstd \<Rightarrow> compressor \<Rightarrow> bytes \<Rightarrow> nat \<Rightarrow> exc + bytes" where
  "co_DecompressWithDict z c src capacity =
     (case co_ddict c of None \<Rightarrow> Inl Invalid
      | Some d \<Rightarrow> (case z_decompressDict z d capacity src of None \<Rightarrow> Inl (Throw ''ZSTD decompress failed.'') | Some out \<Rightarrow> Inr out))"

definition co_DecompressWithoutDict :: "zstd \<Rightarrow> bytes \<Rightarrow> nat \<Rightarrow> exc + bytes" where
  "co_DecompressWithoutDict z src capacity =
     (case z_decompress z capacity src of None \<Rightarrow> Inl (Throw ''ZSTD decompress failed.'') | Some out \<Rightarrow> Inr out)"

definition co_TrainDict :: "zstd \<Rightarrow> bytes \<Rightarrow> nat list \<Rightarrow> compressor \<Rightarrow> exc + nat \<times> compressor" where
  "co_TrainDict z samples sizes c =
     (case z_train z (co_dictCapacity c) samples sizes of
        None \<Rightarrow> Inl (Throw ''ZDICT_trainFromBuffer() failed'')
      | Some dict \<Rightarrow> thenE (co_CreateCDict z (c\<lparr>co_dictBuffer := dict\<rparr>)) (\<lambda>c'. Inr (length dict, c')))"

definition co_GetDictBuffer :: "compressor \<Rightarrow> bytes" where
  "co_GetDictBuffer c = co_dictBuffer c"

definition co_SetDictBuffer :: "zstd \<Rightarrow> bytes \<Rightarrow> compressor \<Rightarrow> exc + compressor" where
  "co_SetDictBuffer z buffer c = co_CreateDDict z (c\<lparr>co_dictBuffer := buffer\<rparr>)"

definition co_Compress :: "zstd \<Rightarrow> bytes \<Rightarrow> bool \<Rightarrow> compressor \<Rightarrow> exc + bytes" where
  "co_Compress z src useDict c = (if useDict then co_CompressWithDict z c src else co_CompressWithoutDict z c src)"

definition co_Decompress :: "zstd \<Rightarrow> bytes \<Rightarrow> nat \<Rightarrow> bool \<Rightarrow> compressor \<Rightarrow> exc + bytes" where
  "co_Decompress z src capacity useDict c =
     (if useDict then co_DecompressWithDict z c src capacity else co_DecompressWithoutDict z src capacity)"

definition co_GetCompressedSize :: "zstd \<Rightarrow> bytes \<Rightarrow> bool \<Rightarrow> compressor \<Rightarrow> exc + nat" where
  "co_GetCompressedSize z src useDict c = thenE (co_Compress z src useDict c) (\<lambda>dst. Inr (length dst))"

end
