(* ===== verification/StaticFile.thy ===== *)
theory StaticFile
  imports Compressors QueryResults
begin

text \<open>
  The index file of \<open>ExtraStaticSearcher\<close> (AnnService/inc/Core/SPANN/ExtraStaticSearcher.h): the batches of
  \<open>Selection\<close>, the bytes of a posting list, \<open>OutputSSDIndexFile\<close>, and the way back by \<open>LoadingHeadInfo\<close> and
  \<open>GetWritePosting\<close>. Integers are unbounded where the code has \<open>int\<close> and \<open>size_t\<close>; what is written to the
  file has its width. The element-wise difference and sum of vectors are parameters.
\<close>

section \<open>Selections\<close>

text \<open>The temporary file counted in edges; \<open>None\<close> when it does not exist.\<close>

record 'f selection =
  se_tmpfile :: "'f edge list option"
  se_start :: nat
  se_end :: nat
  se_selections :: "'f edge list"

definition edge_default :: "'f \<Rightarrow> 'f edge" where
  "edge_default maxDist = Edge MaxSize MaxSize maxDist"

definition se_new :: "'f \<Rightarrow> nat \<Rightarrow> 'f selection" where
  "se_new maxDist totalsize =
     \<lparr>se_tmpfile = None, se_start = 0, se_end = totalsize, se_selections = replicate totalsize (edge_default maxDist)\<rparr>"

text \<open>Seeking behind the end of the file would leave a hole of zero bytes, which is not an edge.\<close>

definition se_SaveBatch :: "'f selection \<Rightarrow> exc + 'f selection" where
  "se_SaveBatch s =
     (let old = (case se_tmpfile s of None \<Rightarrow> [] | Some es \<Rightarrow> es); n = se_end s - se_start s
      in if length (se_selections s) < n \<or> length old < se_start s then Inl Invalid
         else Inr (s\<lparr>se_tmpfile := Some (take (se_start s) old @ take n (se_selections s) @ drop (se_start s + n) old),
                     se_start := 0, se_end := 0, se_selections := []\<rparr>))"

text \<open>\<open>Inl\<close> the error code, with the selections resized but not filled.\<close>

definition se_LoadBatch :: "nat \<Rightarrow> nat \<Rightarrow> 'f selection \<Rightarrow> ErrorCode + 'f selection" where
  "se_LoadBatch start end' s =
     (case se_tmpfile s of None \<Rightarrow> Inl FailedOpenFile
      | Some es \<Rightarrow>
          if length (take (end' - start) (drop start es)) \<noteq> end' - start then Inl DiskIOFail
          else Inr (s\<lparr>se_start := start, se_end := end', se_selections := take (end' - start) (drop start es)\<rparr>))"

definition edges_lower_bound :: "'f edge list \<Rightarrow> int \<Rightarrow> nat" where
  "edges_lower_bound es node = length (takeWhile (\<lambda>e. egNode e < node) es)"

definition se_lower_bound :: "'f selection \<Rightarrow> int \<Rightarrow> nat" where
  "se_lower_bound s node = se_start s + edges_lower_bound (se_selections s) node"

definition se_at :: "'f selection \<Rightarrow> nat \<Rightarrow> exc + 'f edge" where
  "se_at s offset = idxE (se_selections s) (int offset - int (se_start s))"

section \<open>The bytes of a posting list\<close>

record ssFlags =
  fl_delta :: bool
  fl_rearrange :: bool
  fl_compress :: bool
  fl_dict :: bool

record valueOps =
  vo_size :: nat
  vo_sub :: "bytes \<Rightarrow> bytes \<Rightarrow> bytes"
  vo_add :: "bytes \<Rightarrow> bytes \<Rightarrow> bytes"

record vectorSet =
  vs_vectors :: "bytes list"
  vs_dim :: int
  vs_dataSize :: nat

text \<open>\<open>GetVector\<close> of an id outside the set is a null pointer, from which nothing can be read.\<close>

primrec fullDataLoop :: "ssFlags \<Rightarrow> valueOps \<Rightarrow> vectorSet \<Rightarrow> bytes option \<Rightarrow> 'f selection \<Rightarrow> int \<Rightarrow> nat \<Rightarrow> nat
     \<Rightarrow> bytes \<times> bytes \<times> bytes \<Rightarrow> exc + bytes \<times> bytes \<times> bytes" where
  "fullDataLoop fl vo vs hv se pid 0 selectIdx acc = Inr acc"
| "fullDataLoop fl vo vs hv se pid (Suc n) selectIdx acc =
     thenE (se_at se selectIdx) (\<lambda>e.
       if egNode e \<noteq> pid then Inl (Throw ''Selection ID mismatch'')
       else let vid = egTonode e; vectorID = enc_int 4 vid in
         thenE (idxE (vs_vectors vs) vid) (\<lambda>v.
         thenE (if fl_delta fl then (case hv of None \<Rightarrow> Inl Invalid | Some h \<Rightarrow> Inr (vo_sub vo v h)) else Inr v) (\<lambda>vector.
           let (full, vectors, vectorIDs) = acc in
           fullDataLoop fl vo vs hv se pid n (Suc selectIdx)
             (if fl_rearrange fl then (full, vectors @ vector, vectorIDs @ vectorID)
              else (full @ vectorID @ vector, vectors, vectorIDs)))))"

definition GetPostingListFullData ::
  "ssFlags \<Rightarrow> valueOps \<Rightarrow> vectorSet \<Rightarrow> bytes option \<Rightarrow> 'f selection \<Rightarrow> int \<Rightarrow> nat \<Rightarrow> exc + bytes" where
  "GetPostingListFullData fl vo vs hv se pid sz =
     thenE (fullDataLoop fl vo vs hv se pid sz (se_lower_bound se pid) ([], [], [])) (\<lambda>(full, vectors, vectorIDs).
       Inr (if fl_rearrange fl then vectors @ vectorIDs else full))"

section \<open>OutputSSDIndexFile\<close>

definition ss_write :: "bytes \<Rightarrow> ostream \<Rightarrow> exc + ostream" where
  "ss_write bs os = (case ioWrite os bs of Inl _ \<Rightarrow> Inl (Throw ''Failed to write SSDIndex File'') | Inr os' \<Rightarrow> Inr os')"

text \<open>\<open>io k\<close> is the result of the \<open>k\<close>-th \<open>Initialize\<close>: up to three tries, then the one that counts.\<close>

primrec ss_retry :: "(nat \<Rightarrow> bool) \<Rightarrow> nat \<Rightarrow> nat \<Rightarrow> nat" where
  "ss_retry io 0 k = k"
| "ss_retry io (Suc retry) k = (if io k then Suc k else ss_retry io retry (Suc k))"

definition ss_open :: "(nat \<Rightarrow> bool) \<Rightarrow> nat option \<Rightarrow> exc + ostream" where
  "ss_open io room =
     (if io (ss_retry io 3 0) then Inr \<lparr>os_data = [], os_room = room\<rparr>
      else Inl (Throw ''Failed to open file for SSD index save''))"

definition ss_padding :: "nat \<Rightarrow> nat" where
  "ss_padding listOffset = (let p = PageSize - listOffset mod PageSize in if p = PageSize then 0 else p)"

definition ss_headerSize :: "ssFlags \<Rightarrow> compressor \<Rightarrow> nat \<Rightarrow> nat" where
  "ss_headerSize fl co n =
     4 * 4 + (4 + 2 + 4 + 2) * n + (if fl_compress fl then 8 * n else 0)
       + (if fl_compress fl \<and> fl_dict fl then 8 + length (co_GetDictBuffer co) else 0)"

text \<open>The meta data of list \<open>i\<close>.\<close>

definition ss_meta :: "ssFlags \<Rightarrow> int list \<Rightarrow> nat list \<Rightarrow> layout \<Rightarrow> nat \<Rightarrow> ostream \<Rightarrow> exc + ostream" where
  "ss_meta fl sizes bytes lay i os =
     thenE (if sizes ! i > 0
            then thenE (readE (so_pageNum lay) i) (\<lambda>pn. thenE (readE (so_pageOffset lay) i) (\<lambda>po.
                   let listPageCount = (bytes ! i div PageSize) mod 65536
                   in Inr (bytes ! i, pn, po, sizes ! i, if bytes ! i mod PageSize \<noteq> 0 then (listPageCount + 1) mod 65536 else listPageCount)))
            else Inr (0, 0, 0, 0, 0)) (\<lambda>(postingListByte, pageNum, pageOffset, listEleCount, listPageCount).
       foldE ss_write ((if fl_compress fl then [enc_int 8 (int postingListByte)] else []) @
         [enc_int 4 (int pageNum), enc_int 2 (int pageOffset), enc_int 4 listEleCount, enc_int 2 (int listPageCount)]) os)"

text \<open>Everything up to the first page of list content.\<close>

definition ss_header :: "ssFlags \<Rightarrow> compressor \<Rightarrow> int list \<Rightarrow> nat list \<Rightarrow> layout \<Rightarrow> vectorSet \<Rightarrow> ostream \<Rightarrow> exc + ostream" where
  "ss_header fl co sizes bytes lay vs os =
     (let used = ss_headerSize fl co (length sizes);
          paddingSize = ss_padding used;
          listOffset = used + paddingSize
      in thenE (foldE ss_write [enc_int 4 (int (length sizes)), enc_int 4 (int (length (vs_vectors vs))),
                                enc_int 4 (vs_dim vs), enc_int 4 (int (listOffset div PageSize))] os) (\<lambda>os1.
         thenE (foldE (ss_meta fl sizes bytes lay) [0 ..< length sizes] os1) (\<lambda>os2.
         thenE (if fl_compress fl \<and> fl_dict fl
                then foldE ss_write [enc_int 8 (int (length (co_GetDictBuffer co))), co_GetDictBuffer co] os2 else Inr os2) (\<lambda>os3.
         thenE (if paddingSize > 0 then ss_write (replicate paddingSize 0) os3 else Inr os3) (\<lambda>os4.
           if length (os_data os4) \<noteq> listOffset then Inl (Throw ''List offset mismatch'') else Inr os4)))))"

text \<open>One posting list: the padding before it and its bytes; the state is the stream and \<open>listOffset\<close>.\<close>

definition ss_pad :: "nat \<Rightarrow> ostream \<times> nat \<Rightarrow> exc + ostream \<times> nat" where
  "ss_pad targetOffset acc =
     (let (os, listOffset) = acc in
      if targetOffset < listOffset then Inl (Throw ''List offset mismatch'')
      else if targetOffset > listOffset
      then if targetOffset - listOffset > PageSize then Inl (Throw ''Padding size mismatch with page size'')
           else thenE (ss_write (replicate (targetOffset - listOffset) 0) os) (\<lambda>os'. Inr (os', targetOffset))
      else Inr acc)"

definition ss_list ::
  "ssFlags \<Rightarrow> valueOps \<Rightarrow> zstd \<Rightarrow> compressor \<Rightarrow> (int \<Rightarrow> exc + bytes) \<Rightarrow> nat \<Rightarrow> int list \<Rightarrow> nat list \<Rightarrow> layout \<Rightarrow> vectorSet
     \<Rightarrow> 'f selection \<Rightarrow> nat \<Rightarrow> nat \<Rightarrow> ostream \<times> nat \<Rightarrow> exc + ostream \<times> nat" where
  "ss_list fl vo z co sample perVector sizes bytes lay vs se listBase i acc =
     thenE (readE (so_pageNum lay) i) (\<lambda>pn. thenE (readE (so_pageOffset lay) i) (\<lambda>po.
     thenE (ss_pad (pn * PageSize + po) acc) (\<lambda>(os, listOffset).
       if sizes ! i = 0 then Inr (os, listOffset)
       else let pid = int i + int listBase in
         thenE (if fl_delta fl then thenE (sample pid) (\<lambda>h. Inr (Some h)) else Inr None) (\<lambda>hv.
         thenE (GetPostingListFullData fl vo vs hv se pid (nat (sizes ! i))) (\<lambda>full.
           if nat (sizes ! i) * perVector \<noteq> length full then Inl (Throw ''Posting list full size mismatch'')
           else if fl_compress fl
           then thenE (co_Compress z full (fl_dict fl) co) (\<lambda>compressed.
                if length compressed \<noteq> bytes ! i then Inl (Throw ''Compression size mismatch'')
                else thenE (ss_write compressed os) (\<lambda>os'. Inr (os', listOffset + length compressed)))
           else thenE (ss_write full os) (\<lambda>os'. Inr (os', listOffset + length full)))))))"

definition OutputSSDIndexFile ::
  "(nat \<Rightarrow> bool) \<Rightarrow> nat option \<Rightarrow> ssFlags \<Rightarrow> valueOps \<Rightarrow> zstd \<Rightarrow> compressor \<Rightarrow> (int \<Rightarrow> exc + bytes) \<Rightarrow> nat \<Rightarrow> int list \<Rightarrow> nat list
     \<Rightarrow> layout \<Rightarrow> vectorSet \<Rightarrow> 'f selection \<Rightarrow> nat \<Rightarrow> exc + bytes" where
  "OutputSSDIndexFile io room fl vo z co sample perVector sizes bytes lay vs se listBase =
     thenE (ss_open io room) (\<lambda>os0.
     thenE (ss_header fl co sizes bytes lay vs os0) (\<lambda>os1.
     thenE (foldE (ss_list fl vo z co sample perVector sizes bytes lay vs se listBase) (so_order lay) (os1, 0)) (\<lambda>(os2, listOffset).
     thenE (if ss_padding listOffset > 0 then ss_write (replicate (ss_padding listOffset) 0) os2 else Inr os2) (\<lambda>os3.
       Inr (os_data os3)))))"

end
