(* ===== verification/StaticSearcher.thy ===== *)
theory StaticSearcher
  imports StaticFile "HOL-Library.Signed_Division"
begin

text \<open>
  Reading the index of \<open>ExtraStaticSearcher\<close> (AnnService/inc/Core/SPANN/ExtraStaticSearcher.h): \<open>LoadIndex\<close> with
  \<open>LoadingHeadInfo\<close>, \<open>GetWritePosting\<close>, \<open>CheckValidPosting\<close> and the synchronous \<open>SearchIndex\<close>. A file is its
  bytes; the files named by the suffixes 1, 2, ... up to the first missing one are a list.
\<close>

section \<open>State\<close>

record listInfo =
  li_totalBytes :: nat
  li_eleCount :: int
  li_pageCount :: nat
  li_offset :: nat
  li_pageOffset :: nat

record staticSearcher =
  sr_listInfos :: "listInfo list"
  sr_oneContext :: bool
  sr_indexFiles :: "bytes list"
  sr_compressor :: compressor
  sr_flags :: ssFlags
  sr_vectorInfoSize :: int
  sr_dim :: int
  sr_totalListCount :: int
  sr_listPerFile :: int

text \<open>\<open>m_oneContext\<close> and the compressor are not initialised by the constructor; nothing reads them before \<open>LoadIndex\<close>.\<close>

definition sr_new :: staticSearcher where
  "sr_new = \<lparr>sr_listInfos = [], sr_oneContext = False, sr_indexFiles = [], sr_compressor = co_new 0 102400,
     sr_flags = \<lparr>fl_delta = False, fl_rearrange = False, fl_compress = False, fl_dict = True\<rparr>,
     sr_vectorInfoSize = 0, sr_dim = 0, sr_totalListCount = 0, sr_listPerFile = 0\<rparr>"

section \<open>LoadIndex\<close>

definition rd :: "nat \<Rightarrow> istream \<Rightarrow> exc + bytes \<times> istream" where
  "rd n inp = (case ioRead inp n of Inl _ \<Rightarrow> Inl (Throw ''Failed read file in LoadingHeadInfo'') | Inr r \<Rightarrow> Inr r)"

definition rdInt :: "istream \<Rightarrow> exc + int \<times> istream" where
  "rdInt inp = thenE (rd 4 inp) (\<lambda>(bs, r). Inr (dec_sint bs, r))"

definition rdUint :: "nat \<Rightarrow> istream \<Rightarrow> exc + nat \<times> istream" where
  "rdUint n inp = thenE (rd n inp) (\<lambda>(bs, r). Inr (nat (dec_uint bs), r))"

text \<open>The clipping of a list to the page limit of the search; \<open>ceil\<close> of a quotient of doubles, cast to 16 bits.\<close>

definition li_clip :: "int \<Rightarrow> int \<Rightarrow> listInfo \<Rightarrow> exc + listInfo" where
  "li_clip vis limit li =
     (if vis = 0 then Inl Invalid
      else let ele = min (li_eleCount li) ((min (int (li_pageCount li)) limit * 2 ^ PageSizeEx) sdiv vis)
           in Inr (li\<lparr>li_totalBytes := nat ((li_eleCount li * vis) mod 2 ^ 64), li_eleCount := ele,
                      li_pageCount := nat ((vis * ele + int (li_pageOffset li) + 2 ^ PageSizeEx - 1) div 2 ^ PageSizeEx mod 65536)\<rparr>))"

definition li_read :: "bool \<Rightarrow> int \<Rightarrow> int \<Rightarrow> int \<Rightarrow> istream \<Rightarrow> exc + listInfo \<times> istream" where
  "li_read compress vis limit listPageOffset inp =
     thenE (if compress then rdUint 8 inp else Inr (0, inp)) (\<lambda>(total, inp1).
     thenE (rdInt inp1) (\<lambda>(pageNum, inp2).
     thenE (rdUint 2 inp2) (\<lambda>(pageOffset, inp3).
     thenE (rdInt inp3) (\<lambda>(eleCount, inp4).
     thenE (rdUint 2 inp4) (\<lambda>(pageCount, inp5).
       let li = \<lparr>li_totalBytes = total, li_eleCount = eleCount, li_pageCount = pageCount,
                 li_offset = nat (((listPageOffset + pageNum) * 2 ^ PageSizeEx) mod 2 ^ 64), li_pageOffset = pageOffset\<rparr>
       in thenE (if compress then Inr li else li_clip vis limit li) (\<lambda>li'. Inr (li', inp5)))))))"

definition LoadingHeadInfo :: "zstd \<Rightarrow> nat \<Rightarrow> int \<Rightarrow> bytes \<Rightarrow> staticSearcher \<Rightarrow> exc + int \<times> staticSearcher" where
  "LoadingHeadInfo z valueSize limit file sr =
     (let compress = fl_compress (sr_flags sr) in
      thenE (rdInt file) (\<lambda>(listCount, inp1).
      thenE (rdInt inp1) (\<lambda>(totalDocumentCount, inp2).
      thenE (rdInt inp2) (\<lambda>(dim, inp3).
      thenE (rdInt inp3) (\<lambda>(listPageOffset, inp4).
        let vis = dim * int valueSize + 4 in
        if sr_vectorInfoSize sr \<noteq> 0 \<and> sr_vectorInfoSize sr \<noteq> vis
        then Inl (Throw ''DataDimension and ValueType don't match in LoadingHeadInfo'')
        else if listCount < 0 then Inl (Throw ''vector::_M_default_append'')
        else thenE (foldE (\<lambda>i (lis, inp). thenE (li_read compress vis limit listPageOffset inp) (\<lambda>(li, inp'). Inr (lis @ [li], inp')))
               [0 ..< nat listCount] ([], inp4)) (\<lambda>(lis, inp5).
             thenE (if compress \<and> fl_dict (sr_flags sr)
                    then thenE (rdUint 8 inp5) (\<lambda>(dictBufferSize, inp6). thenE (rd dictBufferSize inp6) (\<lambda>(dict, inp7).
                           case co_SetDictBuffer z dict (co_new 0 102400) of
                             Inl (Throw e) \<Rightarrow> Inl (Throw ''Failed read file in LoadingHeadInfo'') | other \<Rightarrow> other))
                    else Inr (co_new 0 102400)) (\<lambda>co.
               Inr (listCount, sr\<lparr>sr_listInfos := sr_listInfos sr @ lis, sr_compressor := co, sr_vectorInfoSize := vis, sr_dim := dim\<rparr>))))))))"

text \<open>
  The files are opened and their heads read one after the other, an exception ends in \<open>false\<close>; only then are
  the options copied into the flags.
\<close>

fun sr_loadFiles :: "zstd \<Rightarrow> nat \<Rightarrow> int \<Rightarrow> bytes list \<Rightarrow> staticSearcher \<Rightarrow> exc + staticSearcher option" where
  "sr_loadFiles z valueSize limit [] sr = Inr (Some sr)"
| "sr_loadFiles z valueSize limit (file # files) sr =
     (case LoadingHeadInfo z valueSize limit file (sr\<lparr>sr_indexFiles := sr_indexFiles sr @ [file]\<rparr>) of
        Inl (Throw e) \<Rightarrow> Inr None
      | Inl e \<Rightarrow> Inl e
      | Inr (listCount, sr') \<Rightarrow> sr_loadFiles z valueSize limit files (sr'\<lparr>sr_totalListCount := sr_totalListCount sr' + listCount\<rparr>))"

definition sr_LoadIndex :: "zstd \<Rightarrow> nat \<Rightarrow> int \<Rightarrow> ssFlags \<Rightarrow> bytes list \<Rightarrow> staticSearcher \<Rightarrow> exc + staticSearcher option" where
  "sr_LoadIndex z valueSize limit opt files sr =
     (if files = [] then Inr None
      else thenE (sr_loadFiles z valueSize limit files sr) (\<lambda>r. case r of None \<Rightarrow> Inr None
        | Some sr' \<Rightarrow> Inr (Some (sr'\<lparr>sr_oneContext := length (sr_indexFiles sr') = 1, sr_flags := opt,
             sr_listPerFile := (sr_totalListCount sr' + int (length (sr_indexFiles sr')) - 1) div int (length (sr_indexFiles sr'))\<rparr>))))"

section \<open>Reading postings\<close>

definition sr_CheckValidPosting :: "staticSearcher \<Rightarrow> int \<Rightarrow> exc + bool" where
  "sr_CheckValidPosting sr pid = thenE (idxE (sr_listInfos sr) pid) (\<lambda>li. Inr (li_eleCount li \<noteq> 0))"

definition sr_file :: "staticSearcher \<Rightarrow> int \<Rightarrow> exc + bytes" where
  "sr_file sr pid =
     (if \<not> sr_oneContext sr \<and> sr_listPerFile sr = 0 then Inl Invalid
      else idxE (sr_indexFiles sr) (if sr_oneContext sr then 0 else pid sdiv sr_listPerFile sr))"

text \<open>The pages of a list, read into a buffer of their size.\<close>

definition sr_readPages :: "staticSearcher \<Rightarrow> int \<Rightarrow> listInfo \<Rightarrow> exc + bytes" where
  "sr_readPages sr pid li =
     thenE (sr_file sr pid) (\<lambda>file.
       case slice file (int (li_offset li)) (li_pageCount li * PageSize) of
         None \<Rightarrow> Inl (Throw ''File read mismatch'') | Some buffer \<Rightarrow> Inr buffer)"

text \<open>
  \<open>GetWritePosting\<close>; the shift of the bytes to the front is a \<open>memcpy\<close> between overlapping ranges in the code.
\<close>

definition sr_GetWritePosting :: "staticSearcher \<Rightarrow> int \<Rightarrow> bool \<Rightarrow> exc + bytes" where
  "sr_GetWritePosting sr pid write =
     (if write then Inl (Exit 1)
      else thenE (idxE (sr_listInfos sr) pid) (\<lambda>li.
        let realBytes = nat (li_eleCount li * sr_vectorInfoSize sr) in
        thenE (sr_readPages sr pid li) (\<lambda>posting.
          case slice posting (int (li_pageOffset li)) realBytes of None \<Rightarrow> Inl Invalid | Some bs \<Rightarrow> Inr bs)))"

section \<open>SearchIndex\<close>

definition ParsePostingListRearrange :: "int \<Rightarrow> int \<Rightarrow> int \<Rightarrow> int \<times> int" where
  "ParsePostingListRearrange vis i eleCount = ((vis - 4) * eleCount + 4 * i, (vis - 4) * i)"

definition ParsePostingList :: "int \<Rightarrow> int \<Rightarrow> int \<Rightarrow> int \<times> int" where
  "ParsePostingList vis i eleCount = (vis * i, vis * i + 4)"

definition ParseDeltaEncoding :: "valueOps \<Rightarrow> (int \<Rightarrow> exc + bytes) \<Rightarrow> int \<Rightarrow> bytes \<Rightarrow> exc + bytes" where
  "ParseDeltaEncoding vo sample pid vector = thenE (sample pid) (\<lambda>h. Inr (vo_add vo vector h))"

definition ParseEncoding :: "bytes \<Rightarrow> exc + bytes" where
  "ParseEncoding vector = Inr vector"

definition sliceE :: "bytes \<Rightarrow> int \<Rightarrow> nat \<Rightarrow> exc + bytes" where
  "sliceE bs off n = (case slice bs off n of None \<Rightarrow> Inl Invalid | Some x \<Rightarrow> Inr x)"

definition liftO :: "'a outcome \<Rightarrow> exc + 'a" where
  "liftO m = (case m of Ret x \<Rightarrow> Inr x | ExitProcess n \<Rightarrow> Inl (Exit n) | Fault \<Rightarrow> Inl Invalid | Hang \<Rightarrow> Inl NoReturn)"

text \<open>
  The work space of a search: one page buffer per posting, the decompression buffer, the set \<open>m_deduper\<close> stands
  for, and the results.
\<close>

record 'f staticWork =
  sw_buffers :: "bytes list"
  sw_decompress :: bytes
  sw_seen :: "int set"
  sw_results :: "'f queryResult"

text \<open>\<open>ProcessPosting\<close> for entry \<open>i\<close>; delta decoding changes the bytes of the posting in place.\<close>

definition sr_processEntry ::
  "staticSearcher \<Rightarrow> valueOps \<Rightarrow> (int \<Rightarrow> exc + bytes) \<Rightarrow> (bytes \<Rightarrow> bytes \<Rightarrow> 'f :: linorder) \<Rightarrow> int \<Rightarrow> int \<Rightarrow> int
     \<Rightarrow> bytes \<times> int set \<times> 'f queryResult \<Rightarrow> exc + bytes \<times> int set \<times> 'f queryResult" where
  "sr_processEntry sr vo sample distance pid eleCount i acc =
     (let (full, seen, qr) = acc; vis = sr_vectorInfoSize sr;
          (offsetVectorID, offsetVector) = (if fl_rearrange (sr_flags sr) then ParsePostingListRearrange else ParsePostingList) vis i eleCount
      in thenE (sliceE full offsetVectorID 4) (\<lambda>idBytes.
         let vectorID = dec_sint idBytes in
         if vectorID \<in> seen then Inr acc
         else thenE (sliceE full offsetVector (nat (vis - 4))) (\<lambda>stored.
              thenE (if fl_delta (sr_flags sr) then ParseDeltaEncoding vo sample pid stored else ParseEncoding stored) (\<lambda>vector.
              thenE (case blit full offsetVector vector of None \<Rightarrow> Inl Invalid | Some full' \<Rightarrow> Inr full') (\<lambda>full'.
              thenE (liftO (qr_AddPoint qr vectorID (distance (qr_target qr) vector))) (\<lambda>(b, qr').
                Inr (full', insert vectorID seen, qr')))))))"

text \<open>
  \<open>DecompressPosting\<close> into the buffer \<open>dst\<close>: \<open>None\<close> where the code gives the posting up, because zstd reports an
  error or (when \<open>check\<close> is set) the size is not the expected one.
\<close>

definition sr_DecompressPosting :: "bool \<Rightarrow> zstd \<Rightarrow> staticSearcher \<Rightarrow> listInfo \<Rightarrow> bytes \<Rightarrow> bytes \<Rightarrow> exc + bytes option" where
  "sr_DecompressPosting check z sr li src dst =
     (let wanted = nat (li_eleCount li * sr_vectorInfoSize sr) in
      if li_eleCount li = 0 then Inr (Some dst)
      else if length dst < wanted then Inl Invalid
      else thenE (sliceE src 0 (li_totalBytes li)) (\<lambda>packed.
           case co_Decompress z packed wanted (fl_dict (sr_flags sr)) (sr_compressor sr) of
             Inl (Throw e) \<Rightarrow> Inr None
           | Inl e \<Rightarrow> Inl e
           | Inr full \<Rightarrow> if check \<and> length full \<noteq> wanted then Inr None else Inr (Some (full @ drop (length full) dst))))"

text \<open>
  The read of request \<open>pi\<close>: the bytes of the file that are there go to the front of the page buffer, a read past
  the end of the file is short and nobody looks.
\<close>

definition sr_readRequest :: "staticSearcher \<Rightarrow> int \<Rightarrow> listInfo \<Rightarrow> bytes \<Rightarrow> exc + bytes" where
  "sr_readRequest sr pid li buffer =
     thenE (sr_file sr pid) (\<lambda>file.
       let got = take (li_pageCount li * PageSize) (drop (li_offset li) file) in
       if length buffer < li_pageCount li * PageSize then Inl Invalid else Inr (got @ drop (length got) buffer))"

text \<open>What happens when request \<open>pi\<close> is complete: its callback.\<close>

definition sr_callback ::
  "zstd \<Rightarrow> staticSearcher \<Rightarrow> valueOps \<Rightarrow> (int \<Rightarrow> exc + bytes) \<Rightarrow> (bytes \<Rightarrow> bytes \<Rightarrow> 'f :: linorder) \<Rightarrow> int list \<Rightarrow> nat
     \<Rightarrow> 'f staticWork \<Rightarrow> exc + 'f staticWork" where
  "sr_callback z sr vo sample distance pids pi w =
     thenE (idxE pids (int pi)) (\<lambda>pid.
     thenE (idxE (sr_listInfos sr) pid) (\<lambda>li.
     thenE (idxE (sw_buffers w) (int pi)) (\<lambda>old.
     thenE (sr_readRequest sr pid li old) (\<lambda>buffer.
       if fl_compress (sr_flags sr)
       then thenE (sr_DecompressPosting True z sr li (drop (li_pageOffset li) buffer) (sw_decompress w)) (\<lambda>r. case r of
              None \<Rightarrow> Inr (w\<lparr>sw_buffers := (sw_buffers w)[pi := buffer]\<rparr>)
            | Some full \<Rightarrow> thenE (foldE (sr_processEntry sr vo sample distance pid (li_eleCount li)) [0 .. li_eleCount li - 1] (full, sw_seen w, sw_results w))
                (\<lambda>(full', seen', qr'). Inr (w\<lparr>sw_buffers := (sw_buffers w)[pi := buffer], sw_decompress := full', sw_seen := seen', sw_results := qr'\<rparr>)))
       else thenE (foldE (sr_processEntry sr vo sample distance pid (li_eleCount li)) [0 .. li_eleCount li - 1]
                     (drop (li_pageOffset li) buffer, sw_seen w, sw_results w)) (\<lambda>(full', seen', qr').
            Inr (w\<lparr>sw_buffers := (sw_buffers w)[pi := take (li_pageOffset li) buffer @ full'], sw_seen := seen', sw_results := qr'\<rparr>))))))"

text \<open>The vectors of the truth set found in posting \<open>pi\<close>.\<close>

definition sr_found :: "zstd \<Rightarrow> staticSearcher \<Rightarrow> int set \<Rightarrow> int list \<Rightarrow> nat \<Rightarrow> (int \<Rightarrow> int set) \<times> 'f staticWork
     \<Rightarrow> exc + (int \<Rightarrow> int set) \<times> 'f staticWork" where
  "sr_found z sr truth pids pi acc =
     (let (found, w) = acc; vis = sr_vectorInfoSize sr in
      thenE (idxE pids (int pi)) (\<lambda>pid.
      thenE (idxE (sr_listInfos sr) pid) (\<lambda>li.
      thenE (idxE (sw_buffers w) (int pi)) (\<lambda>buffer.
      thenE (if fl_compress (sr_flags sr) then sr_DecompressPosting False z sr li (drop (li_pageOffset li) buffer) (sw_decompress w)
             else Inr (Some (drop (li_pageOffset li) buffer))) (\<lambda>r. case r of
        None \<Rightarrow> Inr acc
      | Some full \<Rightarrow>
          thenE (foldE (\<lambda>i found.
                   thenE (sliceE full (if fl_rearrange (sr_flags sr) then (vis - 4) * li_eleCount li + 4 * i else vis * i) 4) (\<lambda>idBytes.
                     let vectorID = dec_sint idBytes in
                     Inr (if vectorID \<in> truth then found(pid := insert vectorID (found pid)) else found)))
                   [0 .. li_eleCount li - 1] found) (\<lambda>found'.
            Inr (found', if fl_compress (sr_flags sr) then w\<lparr>sw_decompress := full\<rparr> else w)))))))"

text \<open>\<open>m_totalListElementsCount\<close>, \<open>m_diskIOCount\<close> and \<open>m_diskAccessCount\<close>.\<close>

definition sr_stats :: "staticSearcher \<Rightarrow> int list \<Rightarrow> int \<times> nat \<times> nat" where
  "sr_stats sr pids =
     (let lis = map (\<lambda>pid. sr_listInfos sr ! nat pid) pids
      in (sum_list (map li_eleCount lis), length pids, sum_list (map li_pageCount lis)))"

text \<open>
  \<open>SearchIndex\<close> as it is compiled, with \<open>ASYNC_READ\<close> and \<open>BATCH_READ\<close>: \<open>completed\<close> is the order in which the
  requests complete, which the callbacks run in.
\<close>

definition sr_SearchIndex ::
  "zstd \<Rightarrow> staticSearcher \<Rightarrow> valueOps \<Rightarrow> (int \<Rightarrow> exc + bytes) \<Rightarrow> (bytes \<Rightarrow> bytes \<Rightarrow> 'f :: linorder) \<Rightarrow> nat list \<Rightarrow> int set option \<Rightarrow> int list
     \<Rightarrow> 'f staticWork \<Rightarrow> exc + 'f staticWork \<times> (int \<times> nat \<times> nat) \<times> (int \<Rightarrow> int set)" where
  "sr_SearchIndex z sr vo sample distance completed truth pids w =
     thenE (foldE (sr_callback z sr vo sample distance pids) completed w) (\<lambda>w1.
     thenE (case truth of None \<Rightarrow> Inr (\<lambda>_. {}, w1) | Some t \<Rightarrow> foldE (sr_found z sr t pids) [0 ..< length pids] (\<lambda>_. {}, w1)) (\<lambda>(found, w2).
       Inr (w2, sr_stats sr pids, found)))"

end
