(* ===== verification/StaticProps.thy ===== *)
theory StaticProps
  imports StaticSearcher
begin

text \<open>
  The index file of the static searcher without compression: what \<open>OutputSSDIndexFile\<close> writes, and that
  \<open>LoadIndex\<close> and \<open>GetWritePosting\<close> find every posting list in it again.
\<close>

section \<open>Posting bytes\<close>

text \<open>The edges of head \<open>pid\<close> and the bytes a list of edges is stored as; \<open>st v\<close> is the stored form of a vector.\<close>

definition edgesOf :: "'f edge list \<Rightarrow> int \<Rightarrow> 'f edge list" where
  "edgesOf es pid = filter (\<lambda>e. egNode e = pid) es"

definition listBytes :: "ssFlags \<Rightarrow> vectorSet \<Rightarrow> (bytes \<Rightarrow> bytes) \<Rightarrow> 'f edge list \<Rightarrow> bytes" where
  "listBytes fl vs st es =
     (let vector = (\<lambda>e. st (vs_vectors vs ! nat (egTonode e))); vectorID = (\<lambda>e. enc_int 4 (egTonode e))
      in if fl_rearrange fl then concat (map vector es) @ concat (map vectorID es)
         else concat (map (\<lambda>e. vectorID e @ vector e) es))"

definition se_ok :: "vectorSet \<Rightarrow> 'f selection \<Rightarrow> bool" where
  "se_ok vs se \<longleftrightarrow> se_start se = 0 \<and> sorted (map egNode (se_selections se)) \<and>
     (\<forall>e \<in> set (se_selections se). egNode e \<noteq> MaxSize \<longrightarrow> 0 \<le> egTonode e \<and> nat (egTonode e) < length (vs_vectors vs))"

text \<open>In a sorted list the edges of a head stand together, where \<open>lower_bound\<close> points.\<close>

lemma edgesOf_segment:
  "sorted (map egNode es) \<Longrightarrow> j < length (edgesOf es pid) \<Longrightarrow>
   edges_lower_bound es pid + j < length es \<and> es ! (edges_lower_bound es pid + j) = edgesOf es pid ! j"
proof (induction es arbitrary: j)
  case Nil
  then show ?case by (simp add: edgesOf_def)
next
  case (Cons e es)
  show ?case
  proof (cases "egNode e < pid")
    case True
    then have "edgesOf (e # es) pid = edgesOf es pid" "edges_lower_bound (e # es) pid = Suc (edges_lower_bound es pid)"
      by (simp_all add: edgesOf_def edges_lower_bound_def)
    then show ?thesis using Cons by simp
  next
    case False
    then have lb: "edges_lower_bound (e # es) pid = 0" by (simp add: edges_lower_bound_def)
    have "egNode e = pid"
    proof (rule ccontr)
      assume "egNode e \<noteq> pid"
      with False Cons.prems(1) have "\<forall>x \<in> set (e # es). egNode x \<noteq> pid" by force
      then have "edgesOf (e # es) pid = []" by (simp add: edgesOf_def filter_empty_conv)
      then show False using Cons.prems(2) by simp
    qed
    then have ed: "edgesOf (e # es) pid = e # edgesOf es pid" by (simp add: edgesOf_def)
    show ?thesis
    proof (cases j)
      case 0
      then show ?thesis using ed lb by simp
    next
      case (Suc i)
      have "i < length (edgesOf es pid)" using Cons.prems(2) Suc ed by simp
      moreover have "edges_lower_bound es pid = 0"
      proof -
        have "\<forall>x \<in> set es. \<not> egNode x < pid" using Cons.prems(1) \<open>egNode e = pid\<close> by auto
        then show ?thesis unfolding edges_lower_bound_def by (cases es) auto
      qed
      ultimately show ?thesis using Cons.IH Cons.prems(1) ed lb Suc by simp
    qed
  qed
qed

lemma fullDataLoop_ok:
  assumes st: "\<And>v. (if fl_delta fl then (case hv of None \<Rightarrow> Inl Invalid | Some h \<Rightarrow> Inr (vo_sub vo v h)) else Inr v) = Inr (st v)"
  shows "\<forall>j < n. se_at se (k + j) = Inr (es ! j) \<and> egNode (es ! j) = pid \<and> 0 \<le> egTonode (es ! j) \<and> nat (egTonode (es ! j)) < length (vs_vectors vs) \<Longrightarrow>
    n = length es \<Longrightarrow>
    fullDataLoop fl vo vs hv se pid n k (full, vectors, ids)
      = Inr (if fl_rearrange fl then (full, vectors @ concat (map (\<lambda>e. st (vs_vectors vs ! nat (egTonode e))) es), ids @ concat (map (\<lambda>e. enc_int 4 (egTonode e)) es))
             else (full @ concat (map (\<lambda>e. enc_int 4 (egTonode e) @ st (vs_vectors vs ! nat (egTonode e))) es), vectors, ids))"
proof (induction n arbitrary: k es full vectors ids)
  case 0
  then show ?case by simp
next
  case (Suc n)
  then obtain e es' where es: "es = e # es'" by (cases es) auto
  have 0: "se_at se k = Inr e" "egNode e = pid" "0 \<le> egTonode e" "nat (egTonode e) < length (vs_vectors vs)"
    using Suc.prems(1) [rule_format, of 0] by (simp_all add: es)
  have v: "idxE (vs_vectors vs) (egTonode e) = Inr (vs_vectors vs ! nat (egTonode e))" using 0 by (simp add: idxE_def nat_less_iff)
  have r: "\<forall>j < n. se_at se (Suc k + j) = Inr (es' ! j) \<and> egNode (es' ! j) = pid \<and> 0 \<le> egTonode (es' ! j) \<and> nat (egTonode (es' ! j)) < length (vs_vectors vs)"
    using Suc.prems(1) by (force simp: es)
  have l: "n = length es'" using Suc.prems(2) es by simp
  show ?case unfolding fullDataLoop.simps Let_def 0(1) thenE.simps v st
    using Suc.IH [OF r l] 0(2) by (simp add: es)
qed

lemma FullData_ok:
  assumes se: "se_ok vs se" and n: "n \<le> length (edgesOf (se_selections se) pid)" and pid: "pid \<noteq> MaxSize"
    and st: "\<And>v. (if fl_delta fl then (case hv of None \<Rightarrow> Inl Invalid | Some h \<Rightarrow> Inr (vo_sub vo v h)) else Inr v) = Inr (st v)"
  shows "GetPostingListFullData fl vo vs hv se pid n = Inr (listBytes fl vs st (take n (edgesOf (se_selections se) pid)))"
proof -
  let ?all = "se_selections se"
  let ?es = "take n (edgesOf ?all pid)"
  have all: "\<forall>j < n. se_at se (se_lower_bound se pid + j) = Inr (?es ! j) \<and> egNode (?es ! j) = pid \<and> 0 \<le> egTonode (?es ! j) \<and> nat (egTonode (?es ! j)) < length (vs_vectors vs)"
  proof (intro allI impI)
    fix j assume j: "j < n"
    then have j': "j < length (edgesOf ?all pid)" using n by simp
    have seg: "edges_lower_bound ?all pid + j < length ?all" "?all ! (edges_lower_bound ?all pid + j) = edgesOf ?all pid ! j"
      using edgesOf_segment [OF _ j'] se by (auto simp: se_ok_def)
    have e: "?es ! j = edgesOf ?all pid ! j" using j by simp
    have "edgesOf ?all pid ! j \<in> set (edgesOf ?all pid)" using j' by (rule nth_mem)
    then have "egNode (edgesOf ?all pid ! j) = pid" "edgesOf ?all pid ! j \<in> set ?all" by (simp_all add: edgesOf_def)
    moreover have "se_at se (se_lower_bound se pid + j) = Inr (?es ! j)"
      using seg se unfolding e by (simp add: se_at_def se_lower_bound_def idxE_def se_ok_def nat_int_add)
    ultimately show "se_at se (se_lower_bound se pid + j) = Inr (?es ! j) \<and> egNode (?es ! j) = pid \<and> 0 \<le> egTonode (?es ! j) \<and> nat (egTonode (?es ! j)) < length (vs_vectors vs)"
      using se pid unfolding e se_ok_def by auto
  qed
  have l: "n = length ?es" using n by simp
  show ?thesis unfolding GetPostingListFullData_def fullDataLoop_ok [OF st all l] by (simp add: listBytes_def Let_def)
qed

lemma length_concat_const: "\<forall>x \<in> set xs. length (f x) = n \<Longrightarrow> length (concat (map f xs)) = length xs * n"
  by (induction xs) auto

lemma length_listBytes:
  assumes "\<forall>e \<in> set es. length (st (vs_vectors vs ! nat (egTonode e))) = n"
  shows "length (listBytes fl vs st es) = length es * (n + 4)"
proof -
  have "length (concat (map (\<lambda>e. st (vs_vectors vs ! nat (egTonode e))) es)) = length es * n" using assms by (rule length_concat_const)
  moreover have "length (concat (map (\<lambda>e. enc_int 4 (egTonode e)) es)) = length es * 4" by (rule length_concat_const) simp
  moreover have "length (concat (map (\<lambda>e. enc_int 4 (egTonode e) @ st (vs_vectors vs ! nat (egTonode e))) es)) = length es * (n + 4)"
    using assms by (intro length_concat_const) simp
  ultimately show ?thesis by (simp add: listBytes_def Let_def algebra_simps)
qed

section \<open>What OutputSSDIndexFile writes\<close>

lemma ss_write_ok: "os_room os = None \<Longrightarrow> ss_write bs os = Inr (os\<lparr>os_data := os_data os @ bs\<rparr>)"
  by (simp add: ss_write_def ioWrite_unlimited)

lemma ss_writes_ok: "os_room os = None \<Longrightarrow> foldE ss_write bss os = Inr (os\<lparr>os_data := os_data os @ concat bss\<rparr>)"
  by (induction bss arbitrary: os) (simp_all add: ss_write_ok)

definition ss_pages :: "nat list \<Rightarrow> nat \<Rightarrow> nat" where
  "ss_pages bytes i = pagesOf (bytes ! i)"

definition ss_metaBytes :: "int list \<Rightarrow> nat list \<Rightarrow> layout \<Rightarrow> nat \<Rightarrow> bytes" where
  "ss_metaBytes sizes bytes lay i =
     (if sizes ! i > 0
      then enc_int 4 (int (the (so_pageNum lay ! i))) @ enc_int 2 (int (the (so_pageOffset lay ! i))) @ enc_int 4 (sizes ! i) @ enc_int 2 (int (pagesOf (bytes ! i)))
      else enc_int 4 0 @ enc_int 2 0 @ enc_int 4 0 @ enc_int 2 0)"

lemma pagesOf_cases: "pagesOf b = (if b mod PageSize \<noteq> 0 then b div PageSize + 1 else b div PageSize)"
proof -
  define q r where "q = b div PageSize" and "r = b mod PageSize"
  have b: "b = PageSize * q + r" "r < PageSize" by (simp_all add: q_def r_def PageSize_def)
  show ?thesis
  proof (cases r)
    case 0
    then have "b + PageSize - 1 = PageSize * q + (PageSize - 1)" using b by (simp add: PageSize_def)
    then have "(b + PageSize - 1) div PageSize = q" by (simp add: PageSize_def)
    then show ?thesis using 0 by (simp add: pagesOf_div q_def [symmetric] r_def [symmetric])
  next
    case (Suc k)
    then have "b + PageSize - 1 = PageSize * (q + 1) + k" using b by (simp add: PageSize_def)
    moreover have "k < PageSize" using b Suc by simp
    moreover have "PageSize \<noteq> 0" by (simp add: PageSize_def)
    ultimately have "(b + PageSize - 1) div PageSize = q + 1" by (metis div_mult_self4 div_less add_0_right)
    then show ?thesis using Suc by (simp add: pagesOf_div q_def [symmetric] r_def [symmetric])
  qed
qed

lemma ss_meta_ok:
  assumes "os_room os = None" "\<not> fl_compress fl" "sizes ! i > 0 \<Longrightarrow> placed lay i" "pagesOf (bytes ! i) < 65536"
  shows "ss_meta fl sizes bytes lay i os = Inr (os\<lparr>os_data := os_data os @ ss_metaBytes sizes bytes lay i\<rparr>)"
proof (cases "sizes ! i > 0")
  case True
  obtain pn po where p: "so_pageNum lay ! i = Some pn" "so_pageOffset lay ! i = Some po" "i < length (so_pageNum lay)" "i < length (so_pageOffset lay)"
    using assms(3) [OF True] by (auto simp: placed_def)
  have q: "bytes ! i div PageSize \<le> pagesOf (bytes ! i)" by (simp add: pagesOf_cases)
  then have "bytes ! i div PageSize < 65536" using assms(4) by simp
  then have pc: "(let listPageCount = (bytes ! i div PageSize) mod 65536 in
       if bytes ! i mod PageSize \<noteq> 0 then (listPageCount + 1) mod 65536 else listPageCount) = pagesOf (bytes ! i)"
    using assms(4) unfolding pagesOf_cases Let_def by auto
  show ?thesis unfolding ss_meta_def using True p assms(1,2) pc
    by (simp add: readE_def ss_writes_ok ss_metaBytes_def Let_def del: foldE.simps)
next
  case False
  then show ?thesis unfolding ss_meta_def using assms(1,2) by (simp add: ss_writes_ok ss_metaBytes_def del: foldE.simps)
qed

lemma ss_metas_ok:
  assumes "\<not> fl_compress fl" "\<forall>i \<in> set is'. (sizes ! i > 0 \<longrightarrow> placed lay i) \<and> pagesOf (bytes ! i) < 65536"
  shows "os_room os = None \<Longrightarrow>
    foldE (ss_meta fl sizes bytes lay) is' os = Inr (os\<lparr>os_data := os_data os @ concat (map (ss_metaBytes sizes bytes lay) is')\<rparr>)"
  using assms(2)
proof (induction is' arbitrary: os)
  case Nil
  then show ?case by simp
next
  case (Cons i is')
  have "ss_meta fl sizes bytes lay i os = Inr (os\<lparr>os_data := os_data os @ ss_metaBytes sizes bytes lay i\<rparr>)"
    using Cons.prems by (intro ss_meta_ok [OF _ assms(1)]) auto
  then show ?case using Cons by simp
qed

definition ss_headBytes :: "int list \<Rightarrow> nat list \<Rightarrow> layout \<Rightarrow> vectorSet \<Rightarrow> bytes" where
  "ss_headBytes sizes bytes lay vs =
     (let used = 16 + 12 * length sizes; padding = ss_padding used in
      enc_int 4 (int (length sizes)) @ enc_int 4 (int (length (vs_vectors vs))) @ enc_int 4 (vs_dim vs) @ enc_int 4 (int ((used + padding) div PageSize))
      @ concat (map (ss_metaBytes sizes bytes lay) [0 ..< length sizes]) @ replicate padding 0)"

definition ss_headPages :: "nat \<Rightarrow> nat" where
  "ss_headPages n = pagesOf (16 + 12 * n)"

lemma padding_pages: "n + ss_padding n = pagesOf n * PageSize"
proof -
  define q r where "q = n div PageSize" and "r = n mod PageSize"
  have "n = q * PageSize + r" "r < PageSize" by (simp_all add: q_def r_def PageSize_def)
  moreover from this(2) have "(PageSize - r = PageSize) = (r = 0)" by linarith
  ultimately show ?thesis unfolding ss_padding_def pagesOf_cases Let_def q_def [symmetric] r_def [symmetric] by simp
qed

lemma length_metaBytes: "length (ss_metaBytes sizes bytes lay i) = 12"
  by (simp add: ss_metaBytes_def)

lemma length_headBytes: "length (ss_headBytes sizes bytes lay vs) = ss_headPages (length sizes) * PageSize"
proof -
  have "length (concat (map (ss_metaBytes sizes bytes lay) [0 ..< length sizes])) = length [0 ..< length sizes] * 12"
    by (rule length_concat_const) (simp add: length_metaBytes)
  then have "length (ss_headBytes sizes bytes lay vs) = 16 + 12 * length sizes + ss_padding (16 + 12 * length sizes)"
    by (simp add: ss_headBytes_def Let_def)
  then show ?thesis unfolding padding_pages ss_headPages_def .
qed

lemma ss_header_ok:
  assumes "os_room os = None" "os_data os = []" "\<not> fl_compress fl"
    and "\<forall>i < length sizes. (sizes ! i > 0 \<longrightarrow> placed lay i) \<and> pagesOf (bytes ! i) < 65536"
  shows "ss_header fl co sizes bytes lay vs os = Inr (os\<lparr>os_data := ss_headBytes sizes bytes lay vs\<rparr>)"
proof -
  have h: "ss_headerSize fl co (length sizes) = 16 + 12 * length sizes" using assms(3) by (simp add: ss_headerSize_def)
  have ms: "foldE (ss_meta fl sizes bytes lay) [0 ..< length sizes] os' = Inr (os'\<lparr>os_data := os_data os' @ concat (map (ss_metaBytes sizes bytes lay) [0 ..< length sizes])\<rparr>)"
    if "os_room os' = None" for os' using that assms(4) by (intro ss_metas_ok [OF assms(3)]) auto
  have l: "length (ss_headBytes sizes bytes lay vs) = 16 + 12 * length sizes + ss_padding (16 + 12 * length sizes)"
    unfolding length_headBytes padding_pages ss_headPages_def ..
  let ?pre = "enc_int 4 (int (length sizes)) @ enc_int 4 (int (length (vs_vectors vs))) @ enc_int 4 (vs_dim vs) @
     enc_int 4 (int ((16 + 12 * length sizes + ss_padding (16 + 12 * length sizes)) div PageSize))
     @ concat (map (ss_metaBytes sizes bytes lay) [0 ..< length sizes])"
  have hb: "ss_headBytes sizes bytes lay vs = ?pre @ replicate (ss_padding (16 + 12 * length sizes)) 0"
    by (simp add: ss_headBytes_def Let_def)
  have pad: "(if ss_padding (16 + 12 * length sizes) > 0 then ss_write (replicate (ss_padding (16 + 12 * length sizes)) 0) (os\<lparr>os_data := ?pre\<rparr>) else Inr (os\<lparr>os_data := ?pre\<rparr>))
      = Inr (os\<lparr>os_data := ss_headBytes sizes bytes lay vs\<rparr>)"
    unfolding hb using assms(1) by (simp add: ss_write_ok)
  show ?thesis unfolding ss_header_def Let_def h
    using assms(1,2,3) pad l by (simp add: ss_writes_ok ms del: foldE.simps)
qed

text \<open>The content: every list at its place, the whole a number of pages.\<close>

lemma ss_list_ok:
  assumes os: "os_room os = None" and fl: "\<not> fl_compress fl"
    and p: "placed lay i" and pos: "lo \<le> so_at lay i" "so_at lay i < lo + PageSize"
    and sz: "sizes ! i \<noteq> 0" "nat (sizes ! i) * perVector = length full"
    and hv: "(if fl_delta fl then thenE (sample (int i + int listBase)) (\<lambda>h. Inr (Some h)) else Inr None) = Inr hv"
    and full: "GetPostingListFullData fl vo vs hv se (int i + int listBase) (nat (sizes ! i)) = Inr full"
  shows "ss_list fl vo z co sample perVector sizes bytes lay vs se listBase i (os, lo)
    = Inr (os\<lparr>os_data := os_data os @ replicate (so_at lay i - lo) 0 @ full\<rparr>, so_at lay i + length full)"
proof -
  obtain pn po where q: "so_pageNum lay ! i = Some pn" "so_pageOffset lay ! i = Some po" "i < length (so_pageNum lay)" "i < length (so_pageOffset lay)"
    using p by (auto simp: placed_def)
  have at: "pn * PageSize + po = so_at lay i" using q by (simp add: so_at_def)
  have pad: "ss_pad (so_at lay i) (os, lo) = Inr (os\<lparr>os_data := os_data os @ replicate (so_at lay i - lo) 0\<rparr>, so_at lay i)"
    using pos os by (auto simp: ss_pad_def ss_write_ok)
  show ?thesis unfolding ss_list_def readE_def using q(3,4) fl sz
    by (simp add: q(1,2) at pad hv full Let_def ss_write_ok os)
qed

lemma ss_lists_ok:
  assumes fl: "\<not> fl_compress fl" and ok: "\<forall>i \<in> set is'. placed lay i \<and> sizes ! i \<noteq> 0 \<and> nat (sizes ! i) * perVector = length (full i) \<and>
      (if fl_delta fl then thenE (sample (int i + int listBase)) (\<lambda>h. Inr (Some h)) else Inr None) = Inr (hv i) \<and>
      GetPostingListFullData fl vo vs (hv i) se (int i + int listBase) (nat (sizes ! i)) = Inr (full i)"
  shows "os_room os = None \<Longrightarrow> os_data os = base @ c \<Longrightarrow> laidOut (so_at lay) (\<lambda>i. length (full i)) (length c) is' \<Longrightarrow>
    \<exists>c'. foldE (ss_list fl vo z co sample perVector sizes bytes lay vs se listBase) is' (os, length c)
        = Inr (os\<lparr>os_data := base @ c @ c'\<rparr>, length (c @ c')) \<and>
      length (c @ c') = (if is' = [] then length c else so_at lay (last is') + length (full (last is'))) \<and>
      (\<forall>i \<in> set is'. slice (c @ c') (int (so_at lay i)) (length (full i)) = Some (full i))"
  using ok
proof (induction is' arbitrary: os c)
  case Nil
  then show ?case by (intro exI [of _ "[]"]) simp
next
  case (Cons i is')
  have i: "placed lay i" "sizes ! i \<noteq> 0" "nat (sizes ! i) * perVector = length (full i)"
     "(if fl_delta fl then thenE (sample (int i + int listBase)) (\<lambda>h. Inr (Some h)) else Inr None) = Inr (hv i)"
     "GetPostingListFullData fl vo vs (hv i) se (int i + int listBase) (nat (sizes ! i)) = Inr (full i)" using Cons.prems(4) by simp_all
  have pos: "length c \<le> so_at lay i" "so_at lay i < length c + PageSize" "laidOut (so_at lay) (\<lambda>i. length (full i)) (so_at lay i + length (full i)) is'"
    using Cons.prems(3) by simp_all
  let ?c = "c @ replicate (so_at lay i - length c) 0 @ full i"
  let ?os = "os\<lparr>os_data := base @ ?c\<rparr>"
  have step: "ss_list fl vo z co sample perVector sizes bytes lay vs se listBase i (os, length c) = Inr (?os, length ?c)"
    using ss_list_ok [where sample = sample and hv = "hv i" and full = "full i", OF Cons.prems(1) fl i(1) pos(1,2) i(2,3,4,5)] Cons.prems(2) pos(1) by simp
  have l: "length ?c = so_at lay i + length (full i)" using pos(1) by simp
  have "os_room ?os = None" "os_data ?os = base @ ?c" using Cons.prems(1) by simp_all
  from Cons.IH [OF this] pos(3) l Cons.prems(4) obtain c' where c':
    "foldE (ss_list fl vo z co sample perVector sizes bytes lay vs se listBase) is' (?os, length ?c) = Inr (?os\<lparr>os_data := base @ ?c @ c'\<rparr>, length (?c @ c'))"
    "length (?c @ c') = (if is' = [] then length ?c else so_at lay (last is') + length (full (last is')))"
    "\<forall>i \<in> set is'. slice (?c @ c') (int (so_at lay i)) (length (full i)) = Some (full i)"
    by auto
  let ?d = "replicate (so_at lay i - length c) 0 @ full i @ c'"
  have e: "?c @ c' = c @ ?d" by simp
  have si: "slice (c @ ?d) (int (so_at lay i)) (length (full i)) = Some (full i)"
    using pos(1) by (simp add: slice_def)
  show ?case
  proof (intro exI [of _ ?d] conjI)
    show "foldE (ss_list fl vo z co sample perVector sizes bytes lay vs se listBase) (i # is') (os, length c)
        = Inr (os\<lparr>os_data := base @ c @ ?d\<rparr>, length (c @ ?d))"
      unfolding foldE.simps step thenE.simps c'(1) e by simp
    show "length (c @ ?d) = (if i # is' = [] then length c else so_at lay (last (i # is')) + length (full (last (i # is'))))"
      using c'(2) l unfolding e by (cases "is' = []") auto
    show "\<forall>j \<in> set (i # is'). slice (c @ ?d) (int (so_at lay j)) (length (full j)) = Some (full j)"
      using c'(3) si unfolding e by simp
  qed
qed

lemma laidOut_bound:
  "laidOut at len pos is' \<Longrightarrow> i \<in> set is' \<Longrightarrow> at i + len i \<le> pos + sum_list (map (\<lambda>j. len j + PageSize) is')"
proof (induction is' arbitrary: pos)
  case Nil
  then show ?case by simp
next
  case (Cons j is')
  show ?case
  proof (cases "i = j")
    case True
    then show ?thesis using Cons.prems by simp
  next
    case False
    then have "at i + len i \<le> at j + len j + sum_list (map (\<lambda>j. len j + PageSize) is')" using Cons by simp
    then show ?thesis using Cons.prems(1) by simp
  qed
qed

text \<open>The output, for lists whose entries exist and whose vectors have the announced size.\<close>

definition listsOk :: "nat \<Rightarrow> int list \<Rightarrow> nat list \<Rightarrow> bool" where
  "listsOk perVector sizes bytes \<longleftrightarrow>
     length bytes = length sizes \<and> 0 < perVector \<and>
     (\<forall>i < length sizes. 0 \<le> sizes ! i \<and> bytes ! i = nat (sizes ! i) * perVector \<and> pagesOf (bytes ! i) < 65536) \<and>
     sum_list bytes + length bytes * PageSize \<le> 2 ^ 31 * PageSize"

lemma listsOk_pages: "listsOk perVector sizes bytes \<Longrightarrow> pagesFit bytes"
proof -
  assume "listsOk perVector sizes bytes"
  then have b: "sum_list bytes + length bytes * PageSize \<le> 2 ^ 31 * PageSize" unfolding listsOk_def by blast
  have "sum_list (map pagesOf bs) * PageSize + length bs \<le> sum_list bs + length bs * PageSize" for bs
  proof (induction bs)
    case (Cons a bs)
    then show ?case using pagesOf_bounds [of a] by (simp add: algebra_simps)
  qed simp
  from this [of bytes] b have l: "sum_list (map pagesOf bytes) * PageSize + length bytes \<le> 2 ^ 31 * PageSize" by linarith
  have "sum_list (map pagesOf bytes) < 2 ^ 31"
  proof (cases "bytes = []")
    case False
    then have "0 < length bytes" by simp
    then have "sum_list (map pagesOf bytes) * PageSize < 2 ^ 31 * PageSize" using l by linarith
    then show ?thesis by (simp only: mult_less_cancel2)
  qed simp
  moreover have "length bytes * PageSize \<le> 2 ^ 31 * PageSize" using b by linarith
  then have "length bytes \<le> 2 ^ 31" unfolding PageSize_def by (simp only: mult_le_cancel2)
  ultimately show ?thesis by (simp add: pagesFit_def)
qed

lemma Output_ok:
  assumes io: "io (ss_retry io 3 0)" and fl: "\<not> fl_compress fl" and lists: "listsOk perVector sizes bytes"
    and ok: "\<forall>i < length sizes. sizes ! i \<noteq> 0 \<longrightarrow>
      (if fl_delta fl then thenE (sample (int i + int listBase)) (\<lambda>h. Inr (Some h)) else Inr None) = Inr (hv i) \<and>
      GetPostingListFullData fl vo vs (hv i) se (int i + int listBase) (nat (sizes ! i)) = Inr (full i) \<and> length (full i) = bytes ! i"
  obtains lay body where "SelectPostingOffset bytes = Inr lay" "so_inv bytes lay" "so_set lay = []"
    "OutputSSDIndexFile io None fl vo z co sample perVector sizes bytes lay vs se listBase = Inr (ss_headBytes sizes bytes lay vs @ body)"
    "\<forall>i < length sizes. sizes ! i \<noteq> 0 \<longrightarrow> placed lay i \<and> noCrossing bytes lay i \<and> slice body (int (so_at lay i)) (bytes ! i) = Some (full i)
       \<and> (the (so_pageNum lay ! i) + pagesOf (bytes ! i)) * PageSize \<le> length body \<and> the (so_pageNum lay ! i) < 2 ^ 31"
proof -
  note li = lists [unfolded listsOk_def]
  obtain lay where lay: "SelectPostingOffset bytes = Inr lay" "so_inv bytes lay" "so_set lay = []" by (rule layout_ok [OF listsOk_pages [OF lists]])
  note iv = lay(2) [unfolded so_inv_def lay(3)]
  have m: "mset (so_order lay) = mset (filter (\<lambda>i. bytes ! i \<noteq> 0) [0 ..< length bytes])" using iv by simp
  have o: "i \<in> set (so_order lay) \<longleftrightarrow> i < length sizes \<and> sizes ! i \<noteq> 0" for i
    using mset_eq_setD [OF m] li by auto
  have pn: "placed lay i" "noCrossing bytes lay i" if "i < length sizes" "sizes ! i \<noteq> 0" for i
    using iv o [of i] that by blast+
  have hd: "ss_header fl co sizes bytes lay vs \<lparr>os_data = [], os_room = None\<rparr> = Inr \<lparr>os_data = ss_headBytes sizes bytes lay vs, os_room = None\<rparr>"
    using pn li by (subst ss_header_ok [OF _ _ fl]) auto
  have lens: "length (full i) = bytes ! i" if "i \<in> set (so_order lay)" for i using ok o that by blast
  have lo: "laidOut (so_at lay) (\<lambda>i. length (full i)) 0 (so_order lay)"
  proof -
    have "laidOut (so_at lay) (\<lambda>i. length (full i)) p is' = laidOut (so_at lay) (\<lambda>i. bytes ! i) p is'" if "set is' \<subseteq> set (so_order lay)" for p is'
      using that lens by (induction is' arbitrary: p) auto
    then show ?thesis using iv by simp
  qed
  have each: "\<forall>i \<in> set (so_order lay). placed lay i \<and> sizes ! i \<noteq> 0 \<and> nat (sizes ! i) * perVector = length (full i) \<and>
      (if fl_delta fl then thenE (sample (int i + int listBase)) (\<lambda>h. Inr (Some h)) else Inr None) = Inr (hv i) \<and>
      GetPostingListFullData fl vo vs (hv i) se (int i + int listBase) (nat (sizes ! i)) = Inr (full i)"
    using ok o pn lens li by metis
  let ?h = "ss_headBytes sizes bytes lay vs"
  obtain c where c: "foldE (ss_list fl vo z co sample perVector sizes bytes lay vs se listBase) (so_order lay) (\<lparr>os_data = ?h, os_room = None\<rparr>, 0)
        = Inr (\<lparr>os_data = ?h @ c, os_room = None\<rparr>, length c)"
      "\<forall>i \<in> set (so_order lay). slice c (int (so_at lay i)) (length (full i)) = Some (full i)"
    using ss_lists_ok [OF fl each, where os = "\<lparr>os_data = ?h, os_room = None\<rparr>" and base = ?h and c = "[]" and z = z and co = co and bytes = bytes] lo
    by auto
  let ?body = "c @ replicate (ss_padding (length c)) 0"
  have out: "OutputSSDIndexFile io None fl vo z co sample perVector sizes bytes lay vs se listBase = Inr (?h @ ?body)"
    unfolding OutputSSDIndexFile_def ss_open_def using io by (simp add: hd c(1) ss_write_ok)
  have lb: "length ?body = pagesOf (length c) * PageSize" using padding_pages [of "length c"] by simp
  have sl: "slice ?body (int (so_at lay i)) (bytes ! i) = Some (full i)" "so_at lay i + bytes ! i \<le> length c" if "i < length sizes" "sizes ! i \<noteq> 0" for i
  proof -
    have "slice c (int (so_at lay i)) (bytes ! i) = Some (full i)" using c(2) o that lens by metis
    moreover from this have "int (so_at lay i) + int (bytes ! i) \<le> int (length c)" by (auto simp: slice_def split: if_splits)
    ultimately show "slice ?body (int (so_at lay i)) (bytes ! i) = Some (full i)" "so_at lay i + bytes ! i \<le> length c"
      by (simp_all add: slice_append_left)
  qed
  have pg: "the (so_pageNum lay ! i) + pagesOf (bytes ! i) \<le> pagesOf (length c)" if "i < length sizes" "sizes ! i \<noteq> 0" for i
  proof -
    have b0: "bytes ! i \<noteq> 0" using that li by auto
    have "so_at lay i + bytes ! i - 1 < pagesOf (length c) * PageSize"
      using sl(2) [OF that] b0 pagesOf_bounds [of "length c"] by linarith
    then have "(so_at lay i + bytes ! i - 1) div PageSize < pagesOf (length c)" by (simp add: less_mult_imp_div_less)
    then show ?thesis using noCrossing_pages [OF pn(2) [OF that] b0] by linarith
  qed
  have p31: "the (so_pageNum lay ! i) < 2 ^ 31" if "i < length sizes" "sizes ! i \<noteq> 0" for i
  proof -
    have b0: "bytes ! i \<noteq> 0" using that li by auto
    have "i \<in> set (so_order lay)" using o that by simp
    then have "so_at lay i + bytes ! i \<le> sum_list (map (\<lambda>j. bytes ! j + PageSize) (so_order lay))"
      using laidOut_bound [of "so_at lay" "\<lambda>i. bytes ! i" 0 "so_order lay" i] iv by simp
    also have "\<dots> = sum_mset (image_mset (\<lambda>j. bytes ! j + PageSize) (mset (so_order lay)))" by (simp add: sum_mset_sum_list flip: mset_map)
    also have "\<dots> = sum_list (map (\<lambda>j. bytes ! j + PageSize) (filter (\<lambda>i. bytes ! i \<noteq> 0) [0 ..< length bytes]))"
      unfolding m by (simp only: sum_mset_sum_list mset_map [symmetric])
    also have "\<dots> \<le> sum_list (map (\<lambda>j. bytes ! j + PageSize) [0 ..< length bytes])" by (rule sum_list_filter_le)
    also have "\<dots> = sum_list (map (\<lambda>j. bytes ! j) [0 ..< length bytes]) + length bytes * PageSize"
      by (simp add: sum_list_addf sum_list_triv)
    also have "map (\<lambda>j. bytes ! j) [0 ..< length bytes] = bytes" by (rule map_nth)
    finally have "so_at lay i < 2 ^ 31 * PageSize" using li b0 by linarith
    then have "the (so_pageNum lay ! i) * PageSize < 2 ^ 31 * PageSize" unfolding so_at_def by linarith
    then show ?thesis by simp
  qed
  have "\<forall>i < length sizes. sizes ! i \<noteq> 0 \<longrightarrow> placed lay i \<and> noCrossing bytes lay i \<and> slice ?body (int (so_at lay i)) (bytes ! i) = Some (full i)
       \<and> (the (so_pageNum lay ! i) + pagesOf (bytes ! i)) * PageSize \<le> length ?body \<and> the (so_pageNum lay ! i) < 2 ^ 31"
    using pn sl(1) pg p31 unfolding lb by (simp add: mult_le_mono1)
  then show thesis using that lay out by blast
qed

end
