(* ===== verification/StaticRoundTrip.thy ===== *)
theory StaticRoundTrip
  imports StaticProps
begin

text \<open>
  Loading the index file of the static searcher and reading its postings back: the head gives every list its
  place again, clipped to the page limit of the search, and \<open>GetWritePosting\<close> answers the stored bytes.
\<close>

section \<open>Slices\<close>

lemma slice_slice: "slice b off n = Some x \<Longrightarrow> 0 \<le> p \<Longrightarrow> p + int m \<le> int n \<Longrightarrow> slice x p m = slice b (off + p) m"
proof -
  assume s: "slice b off n = Some x" and p: "0 \<le> p" "p + int m \<le> int n"
  have x: "x = take n (drop (nat off) b)" "0 \<le> off" "off + int n \<le> int (length b)" using s by (auto simp: slice_def split: if_splits)
  have l: "length x = n" using x by simp
  have "take m (drop (nat p) x) = take m (drop (nat p) (drop (nat off) b))"
    unfolding x(1) drop_take using p by (simp add: take_take min_def nat_le_iff)
  also have "\<dots> = take m (drop (nat (off + p)) b)" using p x(2) by (simp add: nat_add_distrib add.commute)
  finally show ?thesis using p x l by (simp add: slice_def)
qed

lemma slice_append_right: "slice (xs @ ys) (int (length xs) + off) n = (if 0 \<le> off then slice ys off n else slice (xs @ ys) (int (length xs) + off) n)"
  by (auto simp: slice_def nat_add_distrib)

lemma slice_prefix: "slice b off n = Some x \<Longrightarrow> m \<le> n \<Longrightarrow> slice b off m = Some (take m x)"
  by (auto simp: slice_def split: if_splits)

section \<open>LoadingHeadInfo\<close>

lemma rdInt_enc [simp]: "int32_ok x \<Longrightarrow> rdInt (enc_int 4 x @ r) = Inr (x, r)"
  by (simp add: rdInt_def rd_def dec_enc_int32)

lemma rdUint_enc [simp]: "int x < 256 ^ n \<Longrightarrow> rdUint n (enc_int n (int x) @ r) = Inr (x, r)"
  by (simp add: rdUint_def rd_def dec_uint_enc_id)

text \<open>The entries a search may see of list \<open>i\<close>, and its record in memory.\<close>

definition seenEntries :: "nat \<Rightarrow> nat \<Rightarrow> int list \<Rightarrow> nat list \<Rightarrow> nat \<Rightarrow> nat" where
  "seenEntries perVector limit sizes bytes i = min (nat (sizes ! i)) (min (pagesOf (bytes ! i)) limit * PageSize div perVector)"

definition ss_info :: "nat \<Rightarrow> nat \<Rightarrow> nat \<Rightarrow> int list \<Rightarrow> nat list \<Rightarrow> layout \<Rightarrow> nat \<Rightarrow> listInfo" where
  "ss_info lpo perVector limit sizes bytes lay i =
     (if sizes ! i > 0
      then let ele = seenEntries perVector limit sizes bytes i; po = the (so_pageOffset lay ! i) in
        \<lparr>li_totalBytes = bytes ! i, li_eleCount = int ele, li_pageCount = pagesOf (perVector * ele + po),
         li_offset = (lpo + the (so_pageNum lay ! i)) * PageSize, li_pageOffset = po\<rparr>
      else \<lparr>li_totalBytes = 0, li_eleCount = 0, li_pageCount = 0, li_offset = lpo * PageSize, li_pageOffset = 0\<rparr>)"

lemma sdiv_nonneg: "0 \<le> a \<Longrightarrow> 0 < b \<Longrightarrow> a sdiv b = a div (b :: int)"
  by (cases "a = 0") (simp_all add: signed_divide_int_def)

lemma pages_noCrossing:
  assumes "noCrossing bytes lay i" "bytes ! i \<noteq> 0"
  shows "pagesOf (bytes ! i + the (so_pageOffset lay ! i)) = pagesOf (bytes ! i)"
proof -
  define b o' where "b = bytes ! i" and "o' = the (so_pageOffset lay ! i)"
  define q r where "q = b div PageSize" and "r = b mod PageSize"
  have b: "b = PageSize * q + r" "r < PageSize" by (simp_all add: q_def r_def PageSize_def)
  have h: "o' < PageSize" "o' + r \<le> PageSize" "r = 0 \<longrightarrow> o' = 0"
    using assms(1) by (simp_all add: noCrossing_def o'_def r_def b_def)
  show ?thesis unfolding b_def [symmetric] o'_def [symmetric]
  proof (cases "r = 0")
    case True
    then show "pagesOf (b + o') = pagesOf b" using h by simp
  next
    case False
    then have "pagesOf b = q + 1" by (simp add: pagesOf_cases q_def [symmetric] r_def [symmetric])
    moreover have "pagesOf (b + o') = q + 1"
    proof -
      have "pagesOf (b + o') \<le> q + 1"
      proof -
        have "b + o' \<le> (q + 1) * PageSize" using b h by (simp add: algebra_simps)
        then have "pagesOf (b + o') \<le> pagesOf ((q + 1) * PageSize)" by (rule pagesOf_mono)
        also have "\<dots> = q + 1" unfolding pagesOf_cases by (simp only: mod_mult_self2_is_0 div_mult_self_is_m PageSize_pos if_False simp_thms)
        finally show ?thesis .
      qed
      moreover have "pagesOf b \<le> pagesOf (b + o')" by (rule pagesOf_mono) simp
      ultimately show ?thesis using \<open>pagesOf b = q + 1\<close> by simp
    qed
    ultimately show "pagesOf (b + o') = pagesOf b" by simp
  qed
qed

lemma clip_pages:
  assumes lists: "listsOk perVector sizes bytes" and i: "i < length sizes" "0 < sizes ! i" and nc: "noCrossing bytes lay i"
  shows "pagesOf (perVector * seenEntries perVector limit sizes bytes i + the (so_pageOffset lay ! i)) \<le> pagesOf (bytes ! i)"
    "seenEntries perVector limit sizes bytes i \<le> nat (sizes ! i)"
    "pagesOf (perVector * seenEntries perVector limit sizes bytes i + the (so_pageOffset lay ! i)) \<le> limit + 1"
proof -
  let ?e = "seenEntries perVector limit sizes bytes i" and ?o = "the (so_pageOffset lay ! i)"
  have b: "bytes ! i = nat (sizes ! i) * perVector" "0 < perVector" using lists i(1) by (simp_all add: listsOk_def)
  show e: "?e \<le> nat (sizes ! i)" by (simp add: seenEntries_def)
  have "perVector * ?e \<le> bytes ! i" unfolding b using e by (simp add: mult.commute)
  then have "pagesOf (perVector * ?e + ?o) \<le> pagesOf (bytes ! i + ?o)" by (intro pagesOf_mono) simp
  then show "pagesOf (perVector * ?e + ?o) \<le> pagesOf (bytes ! i)" using pages_noCrossing [OF nc] b i by simp
  have "?e \<le> limit * PageSize div perVector"
  proof -
    have "min (pagesOf (bytes ! i)) limit * PageSize div perVector \<le> limit * PageSize div perVector" by (intro div_le_mono mult_le_mono1) simp
    then show ?thesis unfolding seenEntries_def by simp
  qed
  then have "perVector * ?e \<le> perVector * (limit * PageSize div perVector)" by (rule mult_le_mono2)
  also have "\<dots> \<le> limit * PageSize" by simp
  finally have "perVector * ?e + ?o \<le> limit * PageSize + PageSize" using nc by (simp add: noCrossing_def)
  then have "perVector * ?e + ?o \<le> (limit + 1) * PageSize" by simp
  then have "pagesOf (perVector * ?e + ?o) \<le> pagesOf ((limit + 1) * PageSize)" by (rule pagesOf_mono)
  also have "\<dots> = limit + 1" unfolding pagesOf_cases by (simp only: mod_mult_self2_is_0 div_mult_self_is_m PageSize_pos if_False simp_thms)
  finally show "pagesOf (perVector * ?e + ?o) \<le> limit + 1" .
qed

lemma ceil_pages: "nat ((int n + 2 ^ PageSizeEx - 1) div 2 ^ PageSizeEx mod 65536) = pagesOf n mod 65536"
proof -
  have "int n + 4096 - 1 = int (n + 4095)" by simp
  then have "(int n + 4096 - 1) div 4096 mod 65536 = int ((n + 4095) div 4096 mod 65536)" by (simp only: zdiv_int zmod_int of_nat_numeral)
  then have "nat ((int n + 4096 - 1) div 4096 mod 65536) = (n + 4095) div 4096 mod 65536" by (simp only: nat_int)
  then show ?thesis by (simp add: pagesOf_div PageSize_def PageSizeEx_def add.commute)
qed

lemma listsOkD:
  "listsOk perVector sizes bytes \<Longrightarrow> i < length sizes \<Longrightarrow>
     0 \<le> sizes ! i \<and> bytes ! i = nat (sizes ! i) * perVector \<and> pagesOf (bytes ! i) < 65536 \<and> 0 < perVector \<and> length bytes = length sizes"
  unfolding listsOk_def by blast

lemma listsOk_bytes: "listsOk perVector sizes bytes \<Longrightarrow> i < length sizes \<Longrightarrow> bytes ! i < 2 ^ 28"
proof -
  assume l: "listsOk perVector sizes bytes" and i: "i < length sizes"
  then have "pagesOf (bytes ! i) \<le> 65535" using listsOkD [OF l i] by linarith
  then have "pagesOf (bytes ! i) * PageSize \<le> 65535 * PageSize" by (rule mult_le_mono1)
  then show ?thesis using pagesOf_bounds [of "bytes ! i"] by (simp add: PageSize_def)
qed

lemma listsOk_size: "listsOk perVector sizes bytes \<Longrightarrow> i < length sizes \<Longrightarrow> nat (sizes ! i) < 2 ^ 28"
proof -
  assume l: "listsOk perVector sizes bytes" and i: "i < length sizes"
  then have "nat (sizes ! i) * 1 \<le> nat (sizes ! i) * perVector" by (intro mult_le_mono2) (simp add: listsOk_def Suc_le_eq)
  then show ?thesis using listsOk_bytes [OF l i] listsOkD [OF l i] by linarith
qed

lemma clip_ok:
  assumes lists: "listsOk perVector sizes bytes" and i: "i < length sizes" "0 < sizes ! i" and nc: "noCrossing bytes lay i"
  shows "li_clip (int perVector) (int limit)
      \<lparr>li_totalBytes = t, li_eleCount = sizes ! i, li_pageCount = pagesOf (bytes ! i), li_offset = (lpo + the (so_pageNum lay ! i)) * PageSize,
       li_pageOffset = the (so_pageOffset lay ! i)\<rparr> = Inr (ss_info lpo perVector limit sizes bytes lay i)"
proof -
  let ?e = "seenEntries perVector limit sizes bytes i" and ?o = "the (so_pageOffset lay ! i)"
  have b: "bytes ! i = nat (sizes ! i) * perVector" "0 < perVector" using lists i(1) by (simp_all add: listsOk_def)
  have s: "sizes ! i = int (nat (sizes ! i))" using i by simp
  have "sizes ! i * int perVector = int (nat (sizes ! i) * perVector)" using i by simp
  also have "\<dots> mod 2 ^ 64 = int (bytes ! i)" using listsOk_bytes [OF lists i(1)] unfolding b(1) [symmetric] by simp
  finally have tot: "nat ((sizes ! i * int perVector) mod 2 ^ 64) = bytes ! i" by simp
  have "min (int (pagesOf (bytes ! i))) (int limit) * 2 ^ PageSizeEx = int (min (pagesOf (bytes ! i)) limit * PageSize)"
    by (simp add: PageSize_def PageSizeEx_def)
  then have d: "(min (int (pagesOf (bytes ! i))) (int limit) * 2 ^ PageSizeEx) sdiv int perVector = int (min (pagesOf (bytes ! i)) limit * PageSize div perVector)"
    using b(2) by (simp add: sdiv_nonneg zdiv_int)
  have ele: "min (sizes ! i) ((min (int (pagesOf (bytes ! i))) (int limit) * 2 ^ PageSizeEx) sdiv int perVector) = int ?e"
    unfolding d seenEntries_def by (subst s) (simp only: of_nat_min)
  have pc: "nat ((int perVector * int ?e + int ?o + 2 ^ PageSizeEx - 1) div 2 ^ PageSizeEx mod 65536) = pagesOf (perVector * ?e + ?o)"
  proof -
    have "int perVector * int ?e + int ?o = int (perVector * ?e + ?o)" by simp
    moreover have "pagesOf (perVector * ?e + ?o) < 65536" using clip_pages(1) [OF lists i nc, of limit] listsOkD [OF lists i(1)] by linarith
    ultimately show ?thesis unfolding ceil_pages by (metis ceil_pages mod_less)
  qed
  show ?thesis unfolding li_clip_def Let_def listInfo.simps ele pc tot using b(2) i(2) by (simp add: ss_info_def Let_def)
qed

lemma li_read_ok:
  assumes lists: "listsOk perVector sizes bytes" and i: "i < length sizes"
    and nc: "0 < sizes ! i \<Longrightarrow> noCrossing bytes lay i \<and> the (so_pageNum lay ! i) < 2 ^ 31" and lpo: "lpo < 2 ^ 31"
  shows "li_read False (int perVector) (int limit) (int lpo) (ss_metaBytes sizes bytes lay i @ r) = Inr (ss_info lpo perVector limit sizes bytes lay i, r)"
proof (cases "0 < sizes ! i")
  case True
  let ?o = "the (so_pageOffset lay ! i)" and ?p = "the (so_pageNum lay ! i)"
  have n: "noCrossing bytes lay i" "?p < 2 ^ 31" using nc [OF True] by simp_all
  have pg: "pagesOf (bytes ! i) < 65536" using listsOkD [OF lists i] by blast
  have "?o < 65536" using n(1) by (simp add: noCrossing_def PageSize_def)
  moreover have "int32_ok (int ?p)" using n(2) by (simp add: int32_ok_def)
  moreover have "int32_ok (sizes ! i)" using listsOk_size [OF lists i] True by (simp add: int32_ok_def)
  moreover have "nat ((int lpo + int ?p) * 2 ^ PageSizeEx mod 2 ^ 64) = (lpo + ?p) * PageSize"
  proof -
    have "(lpo + ?p) * 4096 < 2 ^ 64" using n(2) lpo by simp
    moreover have "(int lpo + int ?p) * 2 ^ PageSizeEx = int ((lpo + ?p) * 4096)" by (simp add: PageSizeEx_def)
    ultimately show ?thesis by (simp add: PageSize_def nat_mod_distrib del: of_nat_mult of_nat_add)
  qed
  ultimately show ?thesis using True pg clip_ok [OF lists i True n(1), of limit 0 lpo]
    by (simp add: li_read_def ss_metaBytes_def Let_def)
next
  case False
  have z: "enc_int 2 0 = enc_int 2 (int 0)" by simp
  have v: "0 < perVector" using lists by (simp add: listsOk_def)
  have cl: "li_clip (int perVector) (int limit) \<lparr>li_totalBytes = 0, li_eleCount = 0, li_pageCount = 0, li_offset = lpo * PageSize, li_pageOffset = 0\<rparr>
     = Inr \<lparr>li_totalBytes = 0, li_eleCount = 0, li_pageCount = 0, li_offset = lpo * PageSize, li_pageOffset = 0\<rparr>"
    using v by (simp add: li_clip_def Let_def sdiv_nonneg PageSizeEx_def)
  have "lpo * 4096 < 2 ^ 64" using lpo by simp
  then have "nat (int lpo * 2 ^ PageSizeEx mod 2 ^ 64) = lpo * PageSize" by (simp add: PageSize_def PageSizeEx_def nat_mod_distrib nat_mult_distrib)
  moreover have "int32_ok 0" by (simp add: int32_ok_def)
  ultimately show ?thesis using False cl rdUint_enc [of 0 2, unfolded of_nat_0]
    by (simp add: li_read_def ss_metaBytes_def ss_info_def Let_def)
qed

definition headOk :: "int list \<Rightarrow> layout \<Rightarrow> nat list \<Rightarrow> bool" where
  "headOk sizes lay bytes \<longleftrightarrow> (\<forall>i < length sizes. 0 < sizes ! i \<longrightarrow> noCrossing bytes lay i \<and> the (so_pageNum lay ! i) < 2 ^ 31)"

lemma readLists_ok:
  assumes lists: "listsOk perVector sizes bytes" and hd: "headOk sizes lay bytes" and lpo: "lpo < 2 ^ 31"
  shows "\<forall>i \<in> set is'. i < length sizes \<Longrightarrow>
    foldE (\<lambda>i (lis, inp). thenE (li_read False (int perVector) (int limit) (int lpo) inp) (\<lambda>(li, inp'). Inr (lis @ [li], inp')))
       (is' :: nat list) (lis, concat (map (ss_metaBytes sizes bytes lay) is') @ r)
     = Inr (lis @ map (ss_info lpo perVector limit sizes bytes lay) is', r)"
proof (induction is' arbitrary: lis)
  case Nil
  then show ?case by simp
next
  case (Cons i is')
  have "li_read False (int perVector) (int limit) (int lpo) (ss_metaBytes sizes bytes lay i @ concat (map (ss_metaBytes sizes bytes lay) is') @ r)
     = Inr (ss_info lpo perVector limit sizes bytes lay i, concat (map (ss_metaBytes sizes bytes lay) is') @ r)"
    using Cons.prems hd by (intro li_read_ok [OF lists _ _ lpo]) (auto simp: headOk_def)
  then show ?case using Cons by simp
qed

lemma rdInt_any: "rdInt (enc_int 4 x @ r) = Inr (dec_sint (enc_int 4 x), r)"
  by (simp add: rdInt_def rd_def)

lemma headPages_bound: "n \<le> 2 ^ 31 \<Longrightarrow> ss_headPages n < 2 ^ 31"
proof -
  assume "n \<le> 2 ^ 31"
  then have "ss_headPages n \<le> pagesOf (16 + 12 * 2 ^ 31)" unfolding ss_headPages_def by (intro pagesOf_mono) simp
  then show ?thesis by (simp add: pagesOf_div PageSize_def)
qed

lemma LoadingHeadInfo_ok:
  assumes lists: "listsOk perVector sizes bytes" and hd: "headOk sizes lay bytes" and n: "length sizes < 2 ^ 31"
    and dim: "int32_ok (vs_dim vs)" "int perVector = vs_dim vs * int valueSize + 4"
    and sr: "\<not> fl_compress (sr_flags sr)" "sr_vectorInfoSize sr = 0 \<or> sr_vectorInfoSize sr = int perVector"
  shows "LoadingHeadInfo z valueSize (int limit) (ss_headBytes sizes bytes lay vs @ body) sr
    = Inr (int (length sizes), sr\<lparr>sr_listInfos := sr_listInfos sr @ map (ss_info (ss_headPages (length sizes)) perVector limit sizes bytes lay) [0 ..< length sizes],
        sr_compressor := co_new 0 102400, sr_vectorInfoSize := int perVector, sr_dim := vs_dim vs\<rparr>)"
proof -
  let ?n = "length sizes" and ?lpo = "ss_headPages (length sizes)"
  have lpo: "?lpo < 2 ^ 31" using n by (intro headPages_bound) simp
  have pg: "(16 + 12 * ?n + ss_padding (16 + 12 * ?n)) div PageSize = ?lpo"
    unfolding padding_pages ss_headPages_def using PageSize_pos by simp
  have bytesEq: "ss_headBytes sizes bytes lay vs @ body = enc_int 4 (int ?n) @ enc_int 4 (int (length (vs_vectors vs))) @ enc_int 4 (vs_dim vs) @ enc_int 4 (int ?lpo) @
      concat (map (ss_metaBytes sizes bytes lay) [0 ..< ?n]) @ replicate (ss_padding (16 + 12 * ?n)) 0 @ body"
    unfolding ss_headBytes_def Let_def pg by simp
  have n32: "int32_ok (int ?n)" "int32_ok (int ?lpo)" using n lpo by (simp_all add: int32_ok_def)
  have r: "foldE (\<lambda>i (lis, inp). thenE (li_read False (int perVector) (int limit) (int ?lpo) inp) (\<lambda>(li, inp'). Inr (lis @ [li], inp')))
       [0 ..< ?n] ([], concat (map (ss_metaBytes sizes bytes lay) [0 ..< ?n]) @ rest)
     = Inr (map (ss_info ?lpo perVector limit sizes bytes lay) [0 ..< ?n], rest)" for rest
    using readLists_ok [OF lists hd lpo, of "[0 ..< ?n]" limit "[]" rest] by simp
  have sr': "\<not> (sr_vectorInfoSize sr \<noteq> 0 \<and> sr_vectorInfoSize sr \<noteq> int perVector)" using sr(2) by simp
  show ?thesis unfolding LoadingHeadInfo_def bytesEq using sr(1) sr'
    by (simp add: n32 rdInt_any [of "int (length (vs_vectors vs))"] dim(1) r Let_def flip: dim(2))
qed

section \<open>Reading\<close>

lemma LoadIndex_one:
  assumes "LoadingHeadInfo z valueSize limit file (sr\<lparr>sr_indexFiles := sr_indexFiles sr @ [file]\<rparr>) = Inr (c, sr')"
    "sr_indexFiles sr = []" "sr_indexFiles sr' = [file]"
  shows "\<exists>srr. sr_LoadIndex z valueSize limit opt [file] sr = Inr (Some srr) \<and> sr_oneContext srr \<and> sr_indexFiles srr = [file] \<and>
    sr_listInfos srr = sr_listInfos sr' \<and> sr_vectorInfoSize srr = sr_vectorInfoSize sr' \<and> sr_flags srr = opt \<and> sr_dim srr = sr_dim sr'"
  using assms by (simp add: sr_LoadIndex_def)

lemma GetWritePosting_ok:
  assumes sr: "sr_oneContext sr" "sr_indexFiles sr = [head @ body]" "sr_vectorInfoSize sr = int perVector"
      "pid < length (sr_listInfos sr)" "sr_listInfos sr ! pid = ss_info lpo perVector limit sizes bytes lay i"
    and head: "length head = lpo * PageSize" and lists: "listsOk perVector sizes bytes" and i: "i < length sizes"
    and body: "sizes ! i \<noteq> 0 \<Longrightarrow> noCrossing bytes lay i \<and> slice body (int (so_at lay i)) (bytes ! i) = Some full \<and>
      (the (so_pageNum lay ! i) + pagesOf (bytes ! i)) * PageSize \<le> length body"
    and empty: "sizes ! i = 0 \<Longrightarrow> full = []"
  shows "sr_GetWritePosting sr (int pid) False = Inr (take (seenEntries perVector limit sizes bytes i * perVector) full)"
proof (cases "sizes ! i = 0")
  case True
  have l: "sr_listInfos sr ! pid = \<lparr>li_totalBytes = 0, li_eleCount = 0, li_pageCount = 0, li_offset = length head, li_pageOffset = 0\<rparr>"
    using sr(5) True by (simp add: ss_info_def head)
  then show ?thesis using sr(1-4) l empty [OF True]
    by (simp add: sr_GetWritePosting_def sr_readPages_def sr_file_def idxE_def slice_def del: of_nat_mult)
next
  case False
  then have pos: "0 < sizes ! i" using listsOkD [OF lists i] by linarith
  let ?e = "seenEntries perVector limit sizes bytes i" and ?o = "the (so_pageOffset lay ! i)" and ?p = "the (so_pageNum lay ! i)"
  let ?pc = "pagesOf (perVector * ?e + ?o)"
  have b: "noCrossing bytes lay i" "slice body (int (so_at lay i)) (bytes ! i) = Some full" "(?p + pagesOf (bytes ! i)) * PageSize \<le> length body"
    using body [OF False] by simp_all
  note cp = clip_pages [OF lists i pos b(1), of limit]
  have l: "sr_listInfos sr ! pid = \<lparr>li_totalBytes = bytes ! i, li_eleCount = int ?e, li_pageCount = ?pc, li_offset = (lpo + ?p) * PageSize, li_pageOffset = ?o\<rparr>"
    using sr(5) pos by (simp add: ss_info_def Let_def)
  have "(?p + ?pc) * PageSize \<le> length body" using cp(1) b(3) by (meson add_le_mono1 le_trans mult_le_mono1 nat_add_left_cancel_le)
  then have "(lpo + ?p) * PageSize + ?pc * PageSize \<le> length (head @ body)" using head by (simp add: algebra_simps)
  then have "int ((lpo + ?p) * PageSize) + int (?pc * PageSize) \<le> int (length (head @ body))" by (simp only: of_nat_add [symmetric] of_nat_le_iff)
  then obtain buf where buf: "slice (head @ body) (int ((lpo + ?p) * PageSize)) (?pc * PageSize) = Some buf" "length buf = ?pc * PageSize"
    using slice_Some [OF of_nat_0_le_iff] by blast
  have fits: "?o + ?e * perVector \<le> ?pc * PageSize" using pagesOf_bounds [of "perVector * ?e + ?o"] by (simp add: algebra_simps)
  have "slice buf (int ?o) (?e * perVector) = slice (head @ body) (int ((lpo + ?p) * PageSize) + int ?o) (?e * perVector)"
    using fits by (intro slice_slice [OF buf(1)]) (simp_all only: of_nat_0_le_iff of_nat_add [symmetric] of_nat_le_iff)
  also have "int ((lpo + ?p) * PageSize) + int ?o = int (length head) + int (so_at lay i)"
    unfolding head so_at_def by (simp add: algebra_simps)
  also have "slice (head @ body) \<dots> (?e * perVector) = slice body (int (so_at lay i)) (?e * perVector)" by (subst slice_append_right) simp
  also have "\<dots> = Some (take (?e * perVector) full)"
    using cp(2) listsOkD [OF lists i] by (intro slice_prefix [OF b(2)]) (simp add: mult_le_mono1)
  finally have s: "slice buf (int ?o) (?e * perVector) = Some (take (?e * perVector) full)" .
  have rb: "nat (int ?e * int perVector) = ?e * perVector" by (simp only: of_nat_mult [symmetric] nat_int)
  show ?thesis unfolding sr_GetWritePosting_def sr_readPages_def sr_file_def idxE_def
    using sr(1-4) l rb by (simp add: buf(1) s Let_def del: of_nat_mult of_nat_add)
qed

section \<open>The property\<close>

text \<open>A vector as list \<open>pid\<close> stores it.\<close>

definition storedAs :: "ssFlags \<Rightarrow> valueOps \<Rightarrow> (int \<Rightarrow> bytes) \<Rightarrow> nat \<Rightarrow> bytes \<Rightarrow> bytes" where
  "storedAs fl vo h pid v = (if fl_delta fl then vo_sub vo v (h (int pid)) else v)"

definition wholeList :: "ssFlags \<Rightarrow> valueOps \<Rightarrow> (int \<Rightarrow> bytes) \<Rightarrow> vectorSet \<Rightarrow> 'f selection \<Rightarrow> int list \<Rightarrow> nat \<Rightarrow> bytes" where
  "wholeList fl vo h vs se sizes pid =
     listBytes fl vs (storedAs fl vo h pid) (take (nat (sizes ! pid)) (edgesOf (se_selections se) (int pid)))"

lemma static_round_trip:
  assumes io: "io (ss_retry io 3 0)" and fl: "\<not> fl_compress fl" and lists: "listsOk perVector sizes bytes"
    and n: "length sizes < 2 ^ 31" and dim: "int32_ok (vs_dim vs)" "int perVector = vs_dim vs * int valueSize + 4"
    and se: "se_ok vs se" "\<forall>pid < length sizes. nat (sizes ! pid) \<le> length (edgesOf (se_selections se) (int pid))"
    and heads: "\<forall>pid < length sizes. sample (int pid) = Inr (h (int pid))"
    and vectors: "\<forall>pid < length sizes. \<forall>v \<in> set (vs_vectors vs). length (storedAs fl vo h pid v) + 4 = perVector"
  shows "\<exists>lay file srr. SelectPostingOffset bytes = Inr lay \<and>
     OutputSSDIndexFile io None fl vo z co sample perVector sizes bytes lay vs se 0 = Inr file \<and>
     sr_LoadIndex z valueSize (int limit) fl [file] sr_new = Inr (Some srr) \<and>
     sr_flags srr = fl \<and> sr_vectorInfoSize srr = int perVector \<and>
     (\<forall>pid < length sizes.
        sr_GetWritePosting srr (int pid) False = Inr (take (seenEntries perVector limit sizes bytes pid * perVector) (wholeList fl vo h vs se sizes pid)) \<and>
        (pagesOf (bytes ! pid) \<le> limit \<longrightarrow> sr_GetWritePosting srr (int pid) False = Inr (wholeList fl vo h vs se sizes pid)) \<and>
        li_pageCount (sr_listInfos srr ! pid) \<le> min (limit + 1) (pagesOf (bytes ! pid)))"
proof -
  let ?n = "length sizes" and ?full = "wholeList fl vo h vs se sizes"
  let ?hv = "\<lambda>i. if fl_delta fl then Some (h (int i)) else None"
  have len: "length (?full i) = nat (sizes ! i) * perVector" if "i < ?n" for i
  proof -
    let ?es = "take (nat (sizes ! i)) (edgesOf (se_selections se) (int i))"
    have "\<forall>e \<in> set ?es. length (storedAs fl vo h i (vs_vectors vs ! nat (egTonode e))) = perVector - 4"
    proof
      fix e assume "e \<in> set ?es"
      then have "e \<in> set (se_selections se)" "egNode e = int i" by (auto simp: edgesOf_def dest: in_set_takeD)
      then have "vs_vectors vs ! nat (egTonode e) \<in> set (vs_vectors vs)" using se(1) that n by (auto simp: se_ok_def MaxSize_def)
      then have "length (storedAs fl vo h i (vs_vectors vs ! nat (egTonode e))) + 4 = perVector" using vectors that by blast
      then show "length (storedAs fl vo h i (vs_vectors vs ! nat (egTonode e))) = perVector - 4" by linarith
    qed
    from length_listBytes [OF this] have l: "length (?full i) = length ?es * (perVector - 4 + 4)" unfolding wholeList_def .
    show ?thesis
    proof (cases "?es = []")
      case True
      then show ?thesis using l se(2) that by auto
    next
      case False
      then obtain e where "e \<in> set ?es" by (meson last_in_set)
      then have "e \<in> set (se_selections se)" "egNode e = int i" by (auto simp: edgesOf_def dest: in_set_takeD)
      then have "vs_vectors vs ! nat (egTonode e) \<in> set (vs_vectors vs)" using se(1) that n by (auto simp: se_ok_def MaxSize_def)
      then have "perVector - 4 + 4 = perVector" using vectors that by (metis diff_add_inverse2)
      then show ?thesis using l se(2) that by simp
    qed
  qed
  have each: "\<forall>i < ?n. sizes ! i \<noteq> 0 \<longrightarrow>
      (if fl_delta fl then thenE (sample (int i + int 0)) (\<lambda>h. Inr (Some h)) else Inr None) = Inr (?hv i) \<and>
      GetPostingListFullData fl vo vs (?hv i) se (int i + int 0) (nat (sizes ! i)) = Inr (?full i) \<and> length (?full i) = bytes ! i"
  proof (intro allI impI conjI)
    fix i assume i: "i < ?n"
    show "(if fl_delta fl then thenE (sample (int i + int 0)) (\<lambda>h. Inr (Some h)) else Inr None) = Inr (?hv i)" using heads i by simp
    have st: "(if fl_delta fl then (case ?hv i of None \<Rightarrow> Inl Invalid | Some h \<Rightarrow> Inr (vo_sub vo v h)) else Inr v) = Inr (storedAs fl vo h i v)" for v
      by (simp add: storedAs_def)
    show "GetPostingListFullData fl vo vs (?hv i) se (int i + int 0) (nat (sizes ! i)) = Inr (?full i)"
      using FullData_ok [OF se(1) _ _ st, of "nat (sizes ! i)" "int i"] se(2) i n by (simp add: wholeList_def MaxSize_def)
    show "length (?full i) = bytes ! i" using len [OF i] listsOkD [OF lists i] by simp
  qed
  obtain lay body where out: "SelectPostingOffset bytes = Inr lay"
    "OutputSSDIndexFile io None fl vo z co sample perVector sizes bytes lay vs se 0 = Inr (ss_headBytes sizes bytes lay vs @ body)"
    "\<forall>i < ?n. sizes ! i \<noteq> 0 \<longrightarrow> placed lay i \<and> noCrossing bytes lay i \<and> slice body (int (so_at lay i)) (bytes ! i) = Some (?full i)
       \<and> (the (so_pageNum lay ! i) + pagesOf (bytes ! i)) * PageSize \<le> length body \<and> the (so_pageNum lay ! i) < 2 ^ 31"
    by (rule Output_ok [where io = io and sample = sample and listBase = 0 and hv = ?hv and full = ?full and z = z and co = co, OF io fl lists each])
  let ?file = "ss_headBytes sizes bytes lay vs @ body" and ?lpo = "ss_headPages ?n"
  have hd: "headOk sizes lay bytes" using out(3) by (auto simp: headOk_def)
  let ?sr = "sr_new\<lparr>sr_indexFiles := sr_indexFiles sr_new @ [?file]\<rparr>"
  have "LoadingHeadInfo z valueSize (int limit) ?file ?sr
    = Inr (int ?n, ?sr\<lparr>sr_listInfos := sr_listInfos ?sr @ map (ss_info ?lpo perVector limit sizes bytes lay) [0 ..< ?n],
        sr_compressor := co_new 0 102400, sr_vectorInfoSize := int perVector, sr_dim := vs_dim vs\<rparr>)"
    by (rule LoadingHeadInfo_ok [OF lists hd n dim]) (simp_all add: sr_new_def)
  from LoadIndex_one [OF this] obtain srr where srr: "sr_LoadIndex z valueSize (int limit) fl [?file] sr_new = Inr (Some srr)" "sr_oneContext srr" "sr_indexFiles srr = [?file]"
    "sr_listInfos srr = map (ss_info ?lpo perVector limit sizes bytes lay) [0 ..< ?n]" "sr_vectorInfoSize srr = int perVector" "sr_flags srr = fl"
    by (auto simp: sr_new_def)
  have get: "sr_GetWritePosting srr (int pid) False = Inr (take (seenEntries perVector limit sizes bytes pid * perVector) (?full pid))" if "pid < ?n" for pid
    using srr(4) that out(3) len [OF that]
    by (intro GetWritePosting_ok [OF srr(2,3,5) _ _ length_headBytes lists that]) auto
  have whole: "take (seenEntries perVector limit sizes bytes pid * perVector) (?full pid) = ?full pid" if "pid < ?n" "pagesOf (bytes ! pid) \<le> limit" for pid
  proof -
    have b: "bytes ! pid = nat (sizes ! pid) * perVector" "0 < perVector" using listsOkD [OF lists that(1)] by blast+
    have "nat (sizes ! pid) = bytes ! pid div perVector" using b by simp
    also have "\<dots> \<le> pagesOf (bytes ! pid) * PageSize div perVector" using pagesOf_bounds by (intro div_le_mono) blast
    finally have "seenEntries perVector limit sizes bytes pid = nat (sizes ! pid)" using that(2) by (simp add: seenEntries_def min_def)
    then show ?thesis using len [OF that(1)] by simp
  qed
  have pages: "li_pageCount (sr_listInfos srr ! pid) \<le> min (limit + 1) (pagesOf (bytes ! pid))" if "pid < ?n" for pid
  proof (cases "0 < sizes ! pid")
    case True
    then show ?thesis using clip_pages [OF lists that True, of lay limit] out(3) that srr(4) by (simp add: ss_info_def Let_def)
  next
    case False
    then show ?thesis using that srr(4) by (simp add: ss_info_def)
  qed
  show ?thesis using out(1,2) srr(1,5,6) get whole pages by metis
qed

text \<open>
  C16 The index file of the static searcher keeps every posting. For sorted selections and posting sizes that do
  not exceed what was selected, laying the lists out, writing the file and loading it succeed, and
  \<open>GetWritePosting\<close> answers for every head the bytes of its entries in order of distance, cut at the page limit
  of the search; the pages it reads are at most one more than that limit, and never more than the list has.
\<close>

theorem StaticIndex_round_trip:
  assumes io: "io (ss_retry io 3 0)" and fl: "\<not> fl_compress fl" and lists: "listsOk perVector sizes bytes"
    and n: "length sizes < 2 ^ 31" and dim: "int32_ok (vs_dim vs)" "int perVector = vs_dim vs * int valueSize + 4"
    and se: "se_ok vs se" "\<forall>pid < length sizes. nat (sizes ! pid) \<le> length (edgesOf (se_selections se) (int pid))"
    and heads: "\<forall>pid < length sizes. sample (int pid) = Inr (h (int pid))"
    and vectors: "\<forall>pid < length sizes. \<forall>v \<in> set (vs_vectors vs). length (storedAs fl vo h pid v) + 4 = perVector"
  shows "\<exists>lay file srr. SelectPostingOffset bytes = Inr lay \<and>
     OutputSSDIndexFile io None fl vo z co sample perVector sizes bytes lay vs se 0 = Inr file \<and>
     sr_LoadIndex z valueSize (int limit) fl [file] sr_new = Inr (Some srr) \<and>
     sr_flags srr = fl \<and> sr_vectorInfoSize srr = int perVector \<and>
     (\<forall>pid < length sizes.
        sr_GetWritePosting srr (int pid) False = Inr (take (seenEntries perVector limit sizes bytes pid * perVector) (wholeList fl vo h vs se sizes pid)) \<and>
        (pagesOf (bytes ! pid) \<le> limit \<longrightarrow> sr_GetWritePosting srr (int pid) False = Inr (wholeList fl vo h vs se sizes pid)) \<and>
        li_pageCount (sr_listInfos srr ! pid) \<le> min (limit + 1) (pagesOf (bytes ! pid)))"
  using assms by (rule static_round_trip)

text \<open>Three vectors of one byte; head 0 has the vectors 1 and 2, head 1 has vector 2.\<close>

definition flPlain :: ssFlags where
  "flPlain = \<lparr>fl_delta = False, fl_rearrange = False, fl_compress = False, fl_dict = False\<rparr>"

definition voByte :: valueOps where
  "voByte = \<lparr>vo_size = 1, vo_sub = map2 (-), vo_add = map2 (+)\<rparr>"

definition zNone :: zstd where
  "zNone = \<lparr>z_compress = (\<lambda>_ _. None), z_compressDict = (\<lambda>_ _. None), z_decompress = (\<lambda>_ _. None), z_decompressDict = (\<lambda>_ _ _. None),
     z_train = (\<lambda>_ _ _. None), z_cdictOk = (\<lambda>_ _. False), z_ddictOk = (\<lambda>_. False)\<rparr>"

definition vsThree :: vectorSet where
  "vsThree = \<lparr>vs_vectors = [[7], [8], [9]], vs_dim = 1, vs_dataSize = 1\<rparr>"

definition seThree :: "int selection" where
  "seThree = \<lparr>se_tmpfile = None, se_start = 0, se_end = 3, se_selections = [Edge 0 1 5, Edge 0 2 6, Edge 1 2 4]\<rparr>"

lemma pagesOf_onePage: "0 < n \<Longrightarrow> n \<le> PageSize \<Longrightarrow> pagesOf n = 1"
proof -
  assume n: "0 < n" "n \<le> PageSize"
  then have "pagesOf n \<le> pagesOf PageSize" by (intro pagesOf_mono)
  moreover have "pagesOf PageSize = 1" by (simp add: pagesOf_div PageSize_def)
  moreover have "0 < pagesOf n" using n(1) unfolding pagesOf_less by simp
  ultimately show ?thesis by simp
qed

lemma threeOk:
  "(\<lambda>_. True) (ss_retry (\<lambda>_. True) 3 0)" "\<not> fl_compress flPlain" "listsOk 5 [2, 1] [10, 5]" "length [2, 1 :: int] < 2 ^ 31"
  "int32_ok (vs_dim vsThree)" "int 5 = vs_dim vsThree * int 1 + 4" "se_ok vsThree seThree"
  "\<forall>pid < length [2, 1 :: int]. nat ([2, 1] ! pid) \<le> length (edgesOf (se_selections seThree) (int pid))"
  "\<forall>pid < length [2, 1 :: int]. (\<lambda>_. Inr []) (int pid) = (Inr [] :: exc + bytes)"
  "\<forall>pid < length [2, 1 :: int]. \<forall>v \<in> set (vs_vectors vsThree). length (storedAs flPlain voByte (\<lambda>_. []) pid v) + 4 = 5"
  "pagesOf 10 = 1" "pagesOf 5 = 1"
proof -
  show pg: "pagesOf 10 = 1" "pagesOf 5 = 1" by (simp_all add: pagesOf_onePage PageSize_def)
  show "listsOk 5 [2, 1] [10, 5]" by (simp add: listsOk_def less_Suc_eq pg PageSize_def)
qed (simp_all add: flPlain_def vsThree_def int32_ok_def se_ok_def seThree_def less_Suc_eq edgesOf_def storedAs_def)

lemma threeLists:
  "wholeList flPlain voByte (\<lambda>_. []) vsThree seThree [2, 1] 0 = [1, 0, 0, 0, 8, 2, 0, 0, 0, 9]"
  "wholeList flPlain voByte (\<lambda>_. []) vsThree seThree [2, 1] 1 = [2, 0, 0, 0, 9]"
  by code_simp+

theorem StaticIndex_round_trip_witness:
  "\<exists>file srr. sr_LoadIndex zNone 1 1 flPlain [file] sr_new = Inr (Some srr) \<and>
     sr_GetWritePosting srr 0 False = Inr [1, 0, 0, 0, 8, 2, 0, 0, 0, 9] \<and> sr_GetWritePosting srr 1 False = Inr [2, 0, 0, 0, 9]"
proof -
  from StaticIndex_round_trip [where io = "\<lambda>_. True" and sample = "\<lambda>_. Inr []" and h = "\<lambda>_. []" and vo = voByte and z = zNone and co = "co_new 0 0" and limit = 1,
      OF threeOk(1-10)]
  obtain lay img srr where r: "sr_LoadIndex zNone 1 (int 1) flPlain [img] sr_new = Inr (Some srr)"
    "\<forall>pid < length [2, 1 :: int]. pagesOf ([10, 5] ! pid) \<le> 1 \<longrightarrow> sr_GetWritePosting srr (int pid) False = Inr (wholeList flPlain voByte (\<lambda>_. []) vsThree seThree [2, 1] pid)"
    by blast
  have "sr_GetWritePosting srr 0 False = Inr [1, 0, 0, 0, 8, 2, 0, 0, 0, 9]" using r(2) [rule_format, of 0] by (simp add: threeOk(11,12) threeLists(1))
  moreover have "sr_GetWritePosting srr 1 False = Inr [2, 0, 0, 0, 9]" using r(2) [rule_format, of 1] threeLists(2) by (simp add: threeOk(11,12))
  ultimately show ?thesis using r(1) by auto
qed

end
