(* ===== verification/StaticSearch.thy ===== *)
theory StaticSearch
  imports StaticRoundTrip
begin

text \<open>
  \<open>SearchIndex\<close> of the static searcher on plain postings: whatever order the reads complete in, every vector of
  the scanned postings is ranked once.
\<close>

section \<open>Entries\<close>










section \<open>One entry, one posting\<close>





section \<open>All postings\<close>






section \<open>The property\<close>







end
