(* ===== verification/IndexBuild.thy ===== *)
theory IndexBuild
  imports StaticSearcher
begin

text \<open>
  Building the postings (AnnService/inc/Core/SPANN/ExtraStaticSearcher.h and ExtraDynamicSearcher.h, both
  \<open>BuildIndex\<close>): every vector that is not a head is given its nearest heads, batch by batch, the edges are sorted
  by head and distance, postings above the limit are cut, and the static searcher writes its index files.
  \<open>ApproximateRNG\<close> is the CPU version of AnnService/src/Core/VectorIndex.cpp; its threads, like those of the
  OpenMP loops, work on different vectors and postings and are run one after the other. The search of the head
  index, the distance of two heads and the normalisation of vectors are parameters.
\<close>

section \<open>ApproximateRNG\<close>

record 'f buildEnv =
  bd_replicaCount :: nat
  bd_batches :: nat
  bd_normalize :: "bytes list \<Rightarrow> bytes list"
  bd_search :: "bytes \<Rightarrow> 'f basicResult list"
  bd_headDistance :: "int \<Rightarrow> int \<Rightarrow> 'f"
  bd_rngScale :: "'f \<Rightarrow> 'f"

text \<open>The heads chosen for a vector from the search results, with their distances.\<close>

fun ar_pick :: "('f :: linorder) buildEnv \<Rightarrow> (int \<times> 'f) list \<Rightarrow> 'f basicResult list \<Rightarrow> (int \<times> 'f) list" where
  "ar_pick en chosen [] = chosen"
| "ar_pick en chosen (r # rs) =
     (if length chosen \<ge> bd_replicaCount en \<or> VID r = - 1 then chosen
      else if list_ex (\<lambda>c. bd_rngScale en (bd_headDistance en (VID r) (fst c)) \<le> Dist r) chosen then ar_pick en chosen rs
      else ar_pick en (chosen @ [(VID r, Dist r)]) rs)"

fun ar_write :: "nat \<Rightarrow> (int \<times> 'f) list \<Rightarrow> 'f edge list \<Rightarrow> exc + 'f edge list" where
  "ar_write off [] es = Inr es"
| "ar_write off ((n, d) # ps) es =
     (if off < length es then ar_write (Suc off) ps (es[off := Edge n (egTonode (es ! off)) d]) else Inl Invalid)"

definition ApproximateRNG :: "('f :: linorder) buildEnv \<Rightarrow> bytes list \<Rightarrow> int set \<Rightarrow> 'f edge list \<Rightarrow> exc + 'f edge list" where
  "ApproximateRNG en vectors exceptIDS selections =
     foldE (\<lambda>fullID es. if int fullID \<in> exceptIDS then Inr es
         else ar_write (fullID * bd_replicaCount en) (ar_pick en [] (bd_search en (vectors ! fullID))) es)
       [0 ..< length vectors] selections"

section \<open>Selecting heads\<close>

record 'f building =
  bl_selections :: "'f selection"
  bl_replicaCount :: "int list"
  bl_sizes :: "int list"

text \<open>\<open>x[i] += d\<close> on a vector of counters.\<close>

definition addAt :: "int list \<Rightarrow> int \<Rightarrow> int \<Rightarrow> exc + int list" where
  "addAt xs i d = (if 0 \<le> i \<and> i < int (length xs) then Inr (xs[nat i := xs ! nat i + d]) else Inl Invalid)"

text \<open>The edges of vector \<open>j\<close>, up to the first that was not selected.\<close>

primrec bd_countReplicas :: "nat \<Rightarrow> nat \<Rightarrow> nat \<Rightarrow> 'f building \<Rightarrow> exc + 'f building" where
  "bd_countReplicas 0 off j b = Inr b"
| "bd_countReplicas (Suc n) off j b =
     thenE (se_at (bl_selections b) off) (\<lambda>e.
       if egNode e = MaxSize then Inr b
       else thenE (addAt (bl_sizes b) (egNode e) 1) (\<lambda>sizes.
            thenE (addAt (bl_replicaCount b) (int j) 1) (\<lambda>replicas.
              let se = bl_selections b; i = off - se_start se in
              bd_countReplicas n (Suc off) j
                (b\<lparr>bl_sizes := sizes, bl_replicaCount := replicas,
                   bl_selections := se\<lparr>se_selections := (se_selections se)[i := Edge (egNode e) (int j) (egDistance e)]\<rparr>\<rparr>))))"

definition bd_countVector :: "'f buildEnv \<Rightarrow> int set \<Rightarrow> nat \<Rightarrow> 'f building \<Rightarrow> exc + 'f building" where
  "bd_countVector en heads j b =
     (if \<not> j < length (bl_replicaCount b) then Inl Invalid
      else let b1 = b\<lparr>bl_replicaCount := (bl_replicaCount b)[j := 0]\<rparr>
           in if int j \<in> heads then Inr b1 else bd_countReplicas (bd_replicaCount en) (j * bd_replicaCount en) j b1)"

text \<open>\<open>None\<close>: \<open>BuildIndex\<close> answers \<open>false\<close> because a batch of selections could not be loaded.\<close>

definition orFalse :: "ErrorCode + 'a \<Rightarrow> ('a \<Rightarrow> exc + 'b option) \<Rightarrow> exc + 'b option" where
  "orFalse m f = (case m of Inl _ \<Rightarrow> Inr None | Inr x \<Rightarrow> f x)"

text \<open>A batch that starts behind its end asks for a vector of enormous size.\<close>

definition bd_batch :: "('f :: linorder) buildEnv \<Rightarrow> int set \<Rightarrow> bytes list \<Rightarrow> nat \<Rightarrow> nat \<Rightarrow> 'f building \<Rightarrow> exc + 'f building option" where
  "bd_batch en heads vectors fullCount i b =
     (let batchSize = (fullCount + bd_batches en - 1) div bd_batches en;
          start = i * batchSize; end' = min (start + batchSize) fullCount;
          r = bd_replicaCount en
      in if end' < start then Inl Invalid
         else orFalse (if bd_batches en > 1 then se_LoadBatch (start * r) (end' * r) (bl_selections b) else Inr (bl_selections b)) (\<lambda>se.
           let fullVectors = bd_normalize en (take (end' - start) (drop start vectors));
               emptySet = (if bd_batches en > 1 then (\<lambda>vid. vid - int start) ` {vid \<in> heads. int start \<le> vid \<and> vid < int end'} else heads)
           in thenE (ApproximateRNG en fullVectors emptySet (se_selections se)) (\<lambda>es.
              thenE (foldE (bd_countVector en heads) [start ..< end'] (b\<lparr>bl_selections := se\<lparr>se_selections := es\<rparr>\<rparr>)) (\<lambda>b'.
                if bd_batches en > 1 then thenE (se_SaveBatch (bl_selections b')) (\<lambda>se'. Inr (Some (b'\<lparr>bl_selections := se'\<rparr>)))
                else Inr (Some b')))))"

fun bd_batchLoop :: "('f :: linorder) buildEnv \<Rightarrow> int set \<Rightarrow> bytes list \<Rightarrow> nat \<Rightarrow> nat list \<Rightarrow> 'f building \<Rightarrow> exc + 'f building option" where
  "bd_batchLoop en heads vectors fullCount [] b = Inr (Some b)"
| "bd_batchLoop en heads vectors fullCount (i # is') b =
     thenE (bd_batch en heads vectors fullCount i b) (\<lambda>r. case r of None \<Rightarrow> Inr None
       | Some b' \<Rightarrow> bd_batchLoop en heads vectors fullCount is' b')"

text \<open>Everything up to the sorted selections. The counters of replicas start uninitialised; each batch resets its own.\<close>

definition bd_select :: "('f :: linorder) buildEnv \<Rightarrow> 'f \<Rightarrow> int set \<Rightarrow> bytes list \<Rightarrow> nat \<Rightarrow> nat \<Rightarrow> exc + 'f building option" where
  "bd_select en maxDist heads vectors fullCount samples =
     (let total = fullCount * bd_replicaCount en;
          b0 = \<lparr>bl_selections = se_new maxDist total, bl_replicaCount = replicate fullCount 0, bl_sizes = replicate samples 0\<rparr>
      in if bd_batches en = 0 then Inl Invalid
         else thenE (if bd_batches en > 1 then se_SaveBatch (bl_selections b0) else Inr (bl_selections b0)) (\<lambda>se0.
              thenE (bd_batchLoop en heads vectors fullCount [0 ..< bd_batches en] (b0\<lparr>bl_selections := se0\<rparr>)) (\<lambda>r. case r of None \<Rightarrow> Inr None
                | Some b \<Rightarrow> orFalse (if bd_batches en > 1 then se_LoadBatch 0 total (bl_selections b) else Inr (bl_selections b)) (\<lambda>se.
                    Inr (Some (b\<lparr>bl_selections := se\<lparr>se_selections := SortSelections (se_selections se)\<rparr>\<rparr>))))))"

section \<open>Cutting postings\<close>

definition bd_sizeLimit :: "int \<Rightarrow> int \<Rightarrow> nat \<Rightarrow> int" where
  "bd_sizeLimit unlimited postingPageLimit vectorInfoSize =
     (if postingPageLimit > 0 then postingPageLimit * int PageSize div int vectorInfoSize else unlimited)"

definition bd_cutPosting :: "int \<Rightarrow> nat \<Rightarrow> 'f building \<Rightarrow> exc + 'f building" where
  "bd_cutPosting limit i b =
     (if bl_sizes b ! i \<le> limit then Inr b
      else let es = se_selections (bl_selections b); selectIdx = edges_lower_bound es (int i) in
        thenE (foldE (\<lambda>dropID replicas. thenE (idxE es (int (selectIdx + dropID))) (\<lambda>e. addAt replicas (egTonode e) (- 1)))
                 [nat limit ..< nat (bl_sizes b ! i)] (bl_replicaCount b)) (\<lambda>replicas.
          Inr (b\<lparr>bl_replicaCount := replicas, bl_sizes := (bl_sizes b)[i := limit]\<rparr>)))"

definition bd_cut :: "int \<Rightarrow> 'f building \<Rightarrow> exc + 'f building" where
  "bd_cut limit b = foldE (bd_cutPosting limit) [0 ..< length (bl_sizes b)] b"

text \<open>The file of vectors that have fewer than two replicas left.\<close>

definition bd_emptyReplicas :: "int set \<Rightarrow> 'f building \<Rightarrow> bytes" where
  "bd_emptyReplicas heads b =
     concat (map (\<lambda>i. enc_int 8 (int i)) (filter (\<lambda>i. int i \<notin> heads \<and> bl_replicaCount b ! i < 2) [0 ..< length (bl_replicaCount b)]))"

section \<open>The head ids\<close>

text \<open>\<open>VectorIDTranslate\<close>: 64-bit ids up to the end of the file, an incomplete one at the end is dropped; cast to 32 bits.\<close>

fun bd_readHeads :: "bytes \<Rightarrow> int set" where
  "bd_readHeads bs = (if length bs < 8 then {} else insert (dec_sint (take 4 bs)) (bd_readHeads (drop 8 bs)))"

declare bd_readHeads.simps [simp del]

section \<open>Writing the static index\<close>

text \<open>The samples the dictionary is trained with: full postings until there are more bytes than asked for.\<close>

fun bd_dictSamples ::
  "ssFlags \<Rightarrow> valueOps \<Rightarrow> vectorSet \<Rightarrow> (int \<Rightarrow> exc + bytes) \<Rightarrow> 'f selection \<Rightarrow> nat \<Rightarrow> int list \<Rightarrow> nat list \<Rightarrow> bytes \<times> nat list \<Rightarrow> exc + bytes \<times> nat list" where
  "bd_dictSamples fl vo vs sample se minSize sizes [] acc = Inr acc"
| "bd_dictSamples fl vo vs sample se minSize sizes (j # js) acc =
     (if sizes ! j = 0 then bd_dictSamples fl vo vs sample se minSize sizes js acc
      else thenE (if fl_delta fl then thenE (sample (int j)) (\<lambda>h. Inr (Some h)) else Inr None) (\<lambda>hv.
           thenE (GetPostingListFullData fl vo vs hv se (int j) (nat (sizes ! j))) (\<lambda>full.
             let acc' = (fst acc @ full, snd acc @ [length full]) in
             if length (fst acc') > minSize then Inr acc' else bd_dictSamples fl vo vs sample se minSize sizes js acc')))"

definition bd_train ::
  "zstd \<Rightarrow> ssFlags \<Rightarrow> valueOps \<Rightarrow> vectorSet \<Rightarrow> (int \<Rightarrow> exc + bytes) \<Rightarrow> int \<times> nat \<times> nat \<Rightarrow> 'f selection \<Rightarrow> int list \<Rightarrow> compressor \<Rightarrow> nat \<Rightarrow> exc + compressor" where
  "bd_train z fl vo vs sample dictOpt se sizes co i =
     (let (level, capacity, minSize) = dictOpt in
      if fl_compress fl \<and> i = 0
      then if fl_dict fl
           then thenE (bd_dictSamples fl vo vs sample se minSize sizes [0 ..< length sizes] ([], [])) (\<lambda>(samples, samplesSizes).
                thenE (co_TrainDict z samples samplesSizes (co_new level capacity)) (\<lambda>(n, co'). Inr co'))
           else Inr (co_new level capacity)
      else Inr co)"

text \<open>The bytes of each posting in the file.\<close>

definition bd_listBytes ::
  "zstd \<Rightarrow> ssFlags \<Rightarrow> valueOps \<Rightarrow> vectorSet \<Rightarrow> (int \<Rightarrow> exc + bytes) \<Rightarrow> 'f selection \<Rightarrow> int list \<Rightarrow> nat \<Rightarrow> nat \<Rightarrow> compressor \<Rightarrow> exc + nat list" where
  "bd_listBytes z fl vo vs sample se sizes listBase perVector co =
     (if fl_compress fl
      then foldE (\<lambda>j bytes.
             if sizes ! j = 0 then Inr (bytes @ [0])
             else let pid = int j + int listBase in
               thenE (if fl_delta fl then thenE (sample pid) (\<lambda>h. Inr (Some h)) else Inr None) (\<lambda>hv.
               thenE (GetPostingListFullData fl vo vs hv se pid (nat (sizes ! j))) (\<lambda>full.
               thenE (co_GetCompressedSize z full (fl_dict fl) co) (\<lambda>n. Inr (bytes @ [n])))))
             [0 ..< length sizes] []
      else Inr (map (\<lambda>s. nat s * perVector) sizes))"

text \<open>Index file \<open>i\<close>: the state is the selections, the compressor and the files so far.\<close>

definition bd_writeFile ::
  "(nat \<Rightarrow> nat \<Rightarrow> bool) \<Rightarrow> nat option \<Rightarrow> zstd \<Rightarrow> ssFlags \<Rightarrow> valueOps \<Rightarrow> vectorSet \<Rightarrow> (int \<Rightarrow> exc + bytes) \<Rightarrow> int \<times> nat \<times> nat \<Rightarrow> nat \<Rightarrow> nat
     \<Rightarrow> int list \<Rightarrow> nat list \<Rightarrow> nat \<Rightarrow> 'f selection \<times> compressor \<times> bytes list \<Rightarrow> exc + ('f selection \<times> compressor \<times> bytes list) option" where
  "bd_writeFile io room z fl vo vs sample dictOpt fileNum perVector sizes batchOffset i acc =
     (let (se, co, files) = acc;
          postingFileSize = (length sizes + fileNum - 1) div fileNum;
          off = i * postingFileSize; end' = min (length sizes) ((i + 1) * postingFileSize)
      in if end' < off then Inl Invalid
         else let curSizes = take (end' - off) (drop off sizes) in
           orFalse (if fileNum > 1 then se_LoadBatch (batchOffset ! i) (batchOffset ! (i + 1)) se else Inr se) (\<lambda>se'.
           thenE (bd_train z fl vo vs sample dictOpt se' curSizes co i) (\<lambda>co'.
           thenE (bd_listBytes z fl vo vs sample se' curSizes off perVector co') (\<lambda>bytes.
           thenE (SelectPostingOffset bytes) (\<lambda>lay.
           thenE (OutputSSDIndexFile (io i) room fl vo z co' sample perVector curSizes bytes lay vs se' off) (\<lambda>img.
             Inr (Some (se', co', files @ [img]))))))))"

fun bd_writeFiles ::
  "(nat \<Rightarrow> nat \<Rightarrow> bool) \<Rightarrow> nat option \<Rightarrow> zstd \<Rightarrow> ssFlags \<Rightarrow> valueOps \<Rightarrow> vectorSet \<Rightarrow> (int \<Rightarrow> exc + bytes) \<Rightarrow> int \<times> nat \<times> nat \<Rightarrow> nat \<Rightarrow> nat
     \<Rightarrow> int list \<Rightarrow> nat list \<Rightarrow> nat list \<Rightarrow> 'f selection \<times> compressor \<times> bytes list \<Rightarrow> exc + ('f selection \<times> compressor \<times> bytes list) option" where
  "bd_writeFiles io room z fl vo vs sample dictOpt fileNum perVector sizes batchOffset [] acc = Inr (Some acc)"
| "bd_writeFiles io room z fl vo vs sample dictOpt fileNum perVector sizes batchOffset (i # is') acc =
     thenE (bd_writeFile io room z fl vo vs sample dictOpt fileNum perVector sizes batchOffset i acc) (\<lambda>r. case r of None \<Rightarrow> Inr None
       | Some acc' \<Rightarrow> bd_writeFiles io room z fl vo vs sample dictOpt fileNum perVector sizes batchOffset is' acc')"

text \<open>First edge of every file.\<close>

definition bd_batchOffsets :: "nat \<Rightarrow> nat \<Rightarrow> 'f edge list \<Rightarrow> nat list" where
  "bd_batchOffsets fileNum lists' es =
     (let postingFileSize = (lists' + fileNum - 1) div fileNum
      in 0 # map (\<lambda>i. edges_lower_bound es (int (min lists' ((i + 1) * postingFileSize)))) [0 ..< fileNum])"

text \<open>
  \<open>BuildIndex\<close> of the static searcher, from the content of \<open>VectorIDTranslate\<close> (\<open>None\<close>: no such file) to the index
  files; \<open>None\<close> for the result \<open>false\<close>.
\<close>

definition sr_BuildIndex ::
  "('f :: linorder) buildEnv \<Rightarrow> 'f \<Rightarrow> (nat \<Rightarrow> nat \<Rightarrow> bool) \<Rightarrow> nat option \<Rightarrow> zstd \<Rightarrow> ssFlags \<Rightarrow> valueOps \<Rightarrow> (int \<Rightarrow> exc + bytes) \<Rightarrow> int \<times> nat \<times> nat
     \<Rightarrow> int \<Rightarrow> nat \<Rightarrow> nat \<Rightarrow> bytes option \<Rightarrow> vectorSet \<Rightarrow> int \<Rightarrow> exc + bytes list option" where
  "sr_BuildIndex en maxDist io room z fl vo sample dictOpt pageLimit fileNum samples headFile vs upperBound =
     (let heads = (case headFile of None \<Rightarrow> {} | Some bs \<Rightarrow> bd_readHeads bs);
          perVector = vs_dataSize vs + 4;
          fullCount = (if upperBound > 0 then nat upperBound else length (vs_vectors vs))
      in thenE (bd_select en maxDist heads (vs_vectors vs) fullCount samples) (\<lambda>r. case r of None \<Rightarrow> Inr None
         | Some b \<Rightarrow>
           thenE (bd_cut (bd_sizeLimit MaxSize pageLimit perVector) b) (\<lambda>b'.
             if fileNum = 0 then Inl Invalid
             else let es = se_selections (bl_selections b'); offsets = bd_batchOffsets fileNum (length (bl_sizes b')) es in
               thenE (if fileNum > 1 then se_SaveBatch (bl_selections b') else Inr (bl_selections b')) (\<lambda>se.
               thenE (bd_writeFiles io room z fl vo (vs\<lparr>vs_vectors := bd_normalize en (vs_vectors vs)\<rparr>) sample dictOpt fileNum perVector (bl_sizes b') offsets
                        [0 ..< fileNum] (se, co_new 0 102400, [])) (\<lambda>r. case r of None \<Rightarrow> Inr None | Some (_, _, files) \<Rightarrow> Inr (Some files))))))"

end
