(* ===== verification/HeadIndex.thy ===== *)
theory HeadIndex
  imports LabelProps
begin

text \<open>
  The head index as the posting searcher sees it: the operations of \<open>BKT::Index\<close>
  (AnnService/inc/Core/BKT/Index.h, src/Core/BKT/BKTIndex.cpp) that read, add and delete head vectors, the
  contract the searcher relies on as a locale, and \<open>BKT::Index\<close> as its provider. \<open>RefineNode\<close>, which
  links a new head into the graph, is a parameter here: \<open>refine h node\<close> is the neighbour table after
  \<open>m_pGraph.RefineNode(node)\<close>. The searches and \<open>RefineNode\<close> itself are in HeadSearch and GraphRefine.
\<close>

section \<open>State and operations\<close>

record bktHead =
  bh_ready :: bool
  bh_samples :: dataset
  bh_graph :: dataset
  bh_graphSize :: int
  bh_deleted :: labelset

definition bh_GetNumSamples :: "bktHead \<Rightarrow> int" where
  "bh_GetNumSamples h = ds_R (bh_samples h)"

definition bh_GetNumDeleted :: "bktHead \<Rightarrow> int" where
  "bh_GetNumDeleted h = ls_Count (bh_deleted h)"

definition bh_GetFeatureDim :: "bktHead \<Rightarrow> nat" where
  "bh_GetFeatureDim h = ds_C (bh_samples h)"

definition bh_GetSample :: "bktHead \<Rightarrow> int \<Rightarrow> bytes outcome" where
  "bh_GetSample h idx = deref (ds_read (bh_samples h) idx)"

definition bh_ContainSample :: "bktHead \<Rightarrow> int \<Rightarrow> bool outcome" where
  "bh_ContainSample h idx =
     (if 0 \<le> idx \<and> idx < ls_R (bh_deleted h)
      then andThen (ls_Contains (bh_deleted h) idx) (\<lambda>del. Ret (\<not> del)) else Ret False)"

definition bh_DeleteIndex :: "bktHead \<Rightarrow> int \<Rightarrow> (ErrorCode \<times> bktHead) outcome" where
  "bh_DeleteIndex h pid =
     (if \<not> bh_ready h then Ret (EmptyIndex, h)
      else andThen (ls_Insert (bh_deleted h) pid) (\<lambda>(fresh, d).
             Ret (if fresh then Success else VectorNotFound, h\<lparr>bh_deleted := d\<rparr>)))"

text \<open>\<open>NeighborhoodGraph::AddBatch\<close> and \<open>SetR\<close>.\<close>

definition ng_AddBatch :: "bktHead \<Rightarrow> int \<Rightarrow> (ErrorCode \<times> bktHead) outcome" where
  "ng_AddBatch h num =
     andThen (ds_AddBatch (bh_graph h) num None) (\<lambda>(ret, g).
       if ret \<noteq> Success then Ret (ret, h\<lparr>bh_graph := g\<rparr>)
       else Ret (Success, h\<lparr>bh_graph := g, bh_graphSize := bh_graphSize h + num\<rparr>))"

definition ng_SetR :: "bktHead \<Rightarrow> int \<Rightarrow> bktHead" where
  "ng_SetR h rows = h\<lparr>bh_graph := ds_SetR (bh_graph h) rows, bh_graphSize := rows\<rparr>"

text \<open>The three tables shrink back when one of them cannot grow.\<close>

definition bh_rollback :: "bktHead \<Rightarrow> int \<Rightarrow> bktHead" where
  "bh_rollback h begin' =
     (let h1 = h\<lparr>bh_samples := ds_SetR (bh_samples h) begin'\<rparr>;
          h2 = ng_SetR h1 begin'
      in h2\<lparr>bh_deleted := ls_SetR (bh_deleted h2) begin'\<rparr>)"

text \<open>
  \<open>AddIndexId\<close>: \<open>beginHead\<close> is only stored on success. A null or empty \<open>p_data\<close> is \<open>p_vectorNum = 0\<close> or
  \<open>p_dimension = 0\<close> here.
\<close>

definition bh_AddIndexId ::
  "bktHead \<Rightarrow> bytes \<Rightarrow> int \<Rightarrow> nat \<Rightarrow> (ErrorCode \<times> int option \<times> bktHead) outcome" where
  "bh_AddIndexId h pData num dimension =
     (if num = 0 \<or> dimension = 0 then Ret (EmptyData, None, h)
      else let begin' = bh_GetNumSamples h
      in if begin' = 0 then Ret (EmptyIndex, None, h)
      else if dimension \<noteq> bh_GetFeatureDim h then Ret (DimensionSizeMismatch, None, h)
      else andThen (ds_AddBatch (bh_samples h) num (Some pData)) (\<lambda>(r1, s).
           let h1 = h\<lparr>bh_samples := s\<rparr>
           in if r1 \<noteq> Success then Ret (MemoryOverFlow, None, bh_rollback h1 begin')
           else andThen (ng_AddBatch h1 num) (\<lambda>(r2, h2).
                if r2 \<noteq> Success then Ret (MemoryOverFlow, None, bh_rollback h2 begin')
                else andThen (ls_AddBatch (bh_deleted h2) num) (\<lambda>(r3, d).
                     let h3 = h2\<lparr>bh_deleted := d\<rparr>
                     in if r3 \<noteq> Success then Ret (MemoryOverFlow, None, bh_rollback h3 begin')
                     else Ret (Success, Some begin', h3)))))"

definition bh_AddIndexIdx :: "(bktHead \<Rightarrow> int \<Rightarrow> dataset) \<Rightarrow> bktHead \<Rightarrow> int \<Rightarrow> int \<Rightarrow> (ErrorCode \<times> bktHead) outcome" where
  "bh_AddIndexIdx refine h begin' end' =
     Ret (Success, fold (\<lambda>node h. h\<lparr>bh_graph := refine h node\<rparr>) [begin' .. end' - 1] h)"

section \<open>The contract\<close>

locale head_index =
  fixes contain :: "'h \<Rightarrow> int \<Rightarrow> bool outcome"
    and sample :: "'h \<Rightarrow> int \<Rightarrow> bytes outcome"
    and num :: "'h \<Rightarrow> int"
    and del :: "'h \<Rightarrow> int \<Rightarrow> (ErrorCode \<times> 'h) outcome"
    and addId :: "'h \<Rightarrow> bytes \<Rightarrow> (ErrorCode \<times> int option \<times> 'h) outcome"
    and addIdx :: "'h \<Rightarrow> int \<Rightarrow> int \<Rightarrow> (ErrorCode \<times> 'h) outcome"
    and hinv :: "'h \<Rightarrow> bool"
    and vecs :: "'h \<Rightarrow> bytes list"
    and gone :: "'h \<Rightarrow> int set"
    and room :: "'h \<Rightarrow> int"
    and width :: "'h \<Rightarrow> nat"
  assumes num_law: "hinv h \<Longrightarrow> num h = int (length (vecs h))"
    and gone_law: "hinv h \<Longrightarrow> k \<in> gone h \<Longrightarrow> 0 \<le> k \<and> k < num h"
    and contain_law: "hinv h \<Longrightarrow> contain h k = Ret (0 \<le> k \<and> k < num h \<and> k \<notin> gone h)"
    and sample_law: "hinv h \<Longrightarrow> 0 \<le> k \<Longrightarrow> k < num h \<Longrightarrow> sample h k = Ret (vecs h ! nat k)"
    and del_law: "hinv h \<Longrightarrow> 0 \<le> k \<Longrightarrow> k < num h \<Longrightarrow>
      \<exists>ec h'. del h k = Ret (ec, h') \<and> hinv h' \<and> vecs h' = vecs h \<and> gone h' = insert k (gone h)
        \<and> room h' = room h \<and> width h' = width h"
    and add_law: "hinv h \<Longrightarrow> num h + 1 \<le> room h \<Longrightarrow> 0 < num h \<Longrightarrow> length v = width h \<Longrightarrow>
      \<exists>h'. addId h v = Ret (Success, Some (num h), h') \<and> hinv h' \<and> vecs h' = vecs h @ [v]
        \<and> gone h' = gone h \<and> room h' = room h \<and> width h' = width h"
    and addIdx_law: "hinv h \<Longrightarrow>
      \<exists>ec h'. addIdx h b e = Ret (ec, h') \<and> hinv h' \<and> vecs h' = vecs h \<and> gone h' = gone h
        \<and> room h' = room h \<and> width h' = width h"
begin

lemma contains_iff: "hinv h \<Longrightarrow> contain h k = Ret True \<longleftrightarrow> 0 \<le> k \<and> k < num h \<and> k \<notin> gone h"
  by (simp add: contain_law)

lemma delete_contain:
  assumes "hinv h" "0 \<le> k" "k < num h"
  shows "\<exists>ec h'. del h k = Ret (ec, h') \<and> contain h' k = Ret False
    \<and> (\<forall>j. j \<noteq> k \<longrightarrow> contain h' j = contain h j)"
proof -
  obtain ec h' where h': "del h k = Ret (ec, h')" "hinv h'" "vecs h' = vecs h" "gone h' = insert k (gone h)"
    using del_law [OF assms] by auto
  then have "num h' = num h" using num_law assms(1) by simp
  then show ?thesis using h' assms by (auto simp: contain_law)
qed

lemma add_contain:
  assumes "hinv h" "num h + 1 \<le> room h" "0 < num h" "length v = width h"
  shows "\<exists>h'. addId h v = Ret (Success, Some (num h), h') \<and> contain h' (num h) = Ret True
    \<and> sample h' (num h) = Ret v
    \<and> (\<forall>j. 0 \<le> j \<and> j < num h \<longrightarrow> sample h' j = sample h j \<and> contain h' j = contain h j)"
proof -
  obtain h' where h': "addId h v = Ret (Success, Some (num h), h')" "hinv h'" "vecs h' = vecs h @ [v]"
    "gone h' = gone h" using add_law [OF assms(1-4)] by auto
  have ng: "num h \<notin> gone h" using gone_law [OF assms(1), of "num h"] by auto
  have n: "num h' = num h + 1" "nat (num h) = length (vecs h)"
    using num_law [OF h'(2)] num_law [OF assms(1)] h'(3) by simp_all
  have "sample h' (num h) = Ret v" using sample_law [OF h'(2), of "num h"] n h'(3) assms(3) by simp
  moreover have "sample h' j = sample h j" if "0 \<le> j" "j < num h" for j
  proof -
    have "nat j < length (vecs h)" using that n by simp
    then show ?thesis using sample_law [OF h'(2), of j] sample_law [OF assms(1), of j] that n h'(3)
      by (simp add: nth_append)
  qed
  ultimately show ?thesis using h' n ng assms by (auto simp: contain_law)
qed

end

section \<open>BKT::Index provides it\<close>

lemma ds_inv_addRow:
  assumes inv: "ds_inv c e s" and room: "ds_R s + 1 \<le> ds_maxRows s" and v: "length v = c * e"
  shows "\<exists>s'. ds_AddBatch s 1 (Some v) = Ret (Success, s') \<and> ds_inv c e s' \<and> ds_R s' = ds_R s + 1
    \<and> ds_maxRows s' = ds_maxRows s \<and> ds_list s' = ds_list s @ [v]"
proof -
  have ok: "ds_ok s" and cl: "ds_clean s" and c0: "ds_colStart s = 0" and w: "ds_rowBytes s = c * e"
    using inv by (auto simp: ds_inv_def ds_rowBytes_def)
  obtain s' where s': "ds_AddBatch s 1 (Some v) = Ret (Success, s')" "ds_ok s'" "ds_same s s'"
    "ds_R s' = ds_R s + 1"
    "\<forall>i. 0 \<le> i \<and> i < ds_cap s' \<longrightarrow> ds_read s' i =
       (if ds_R s \<le> i \<and> i < ds_R s + 1 then prow s v (i - ds_R s)
        else if i < ds_cap s then ds_read s i else Some (blankRow s))"
    using ds_AddBatch_Success [OF ok c0 _ room, of "Some v"] v w by auto
  have eqs: "ds_maxRows s' = ds_maxRows s" "ds_colStart s' = ds_colStart s" "blankRow s' = blankRow s"
    "ds_mycols s' = ds_mycols s" "ds_elem s' = ds_elem s"
    using s'(3) by (auto simp: ds_same_def ds_rowBytes_def blankRow_def)
  have R0: "0 \<le> ds_R s" and cap: "ds_R s \<le> ds_cap s" "ds_R s' \<le> ds_cap s'"
    using ds_ok_cap [OF ok] ds_ok_cap [OF s'(2)] by simp_all
  have row: "prow s v 0 = Some v" using v w by (simp add: prow_def slice_def)
  have cl': "ds_clean s'"
    unfolding ds_clean_def eqs(3) using s'(4,5) cl R0 by (auto simp: ds_clean_def)
  have "ds_list s' = ds_list s @ [v]"
  proof (rule nth_equalityI)
    show "length (ds_list s') = length (ds_list s @ [v])" using s'(4) R0 by (simp add: nat_add_distrib)
    fix i assume "i < length (ds_list s')"
    then have i: "int i < ds_R s + 1" using s'(4) by simp
    have "ds_list s' ! i = the (ds_read s' (int i))" using ds_list_nth [of "int i" s'] i s'(4) by simp
    also have "\<dots> = (ds_list s @ [v]) ! i"
    proof (cases "int i < ds_R s")
      case True
      then have "i < nat (ds_R s)" by simp
      then show ?thesis using True s'(5) cap s'(4) ds_list_nth [of "int i" s] by (simp add: nth_append)
    next
      case False
      then have "int i = ds_R s" "i = nat (ds_R s)" using i by simp_all
      then show ?thesis using s'(4,5) cap R0 row by (simp add: nth_append)
    qed
    finally show "ds_list s' ! i = (ds_list s @ [v]) ! i" .
  qed
  then show ?thesis using s' eqs cl' inv by (auto simp: ds_inv_def)
qed

definition bh_gone :: "bktHead \<Rightarrow> int set" where
  "bh_gone h = {k. 0 \<le> k \<and> k < ls_R (bh_deleted h) \<and> marks (bh_deleted h) ! nat k = 1}"

definition bh_room :: "bktHead \<Rightarrow> int" where
  "bh_room h = min (ds_maxRows (bh_samples h)) (min (ds_maxRows (bh_graph h)) (ds_maxRows (ls_data (bh_deleted h))))"

definition bh_inv :: "nat \<Rightarrow> nat \<Rightarrow> nat \<Rightarrow> bktHead \<Rightarrow> bool" where
  "bh_inv dim e deg h \<longleftrightarrow> bh_ready h \<and> 0 < dim \<and> ds_inv dim e (bh_samples h) \<and> ds_inv deg 4 (bh_graph h)
     \<and> ls_inv (bh_deleted h) \<and> ds_R (bh_graph h) = ds_R (bh_samples h)
     \<and> ls_R (bh_deleted h) = ds_R (bh_samples h)"

text \<open>\<open>RefineNode\<close> rewrites cells of the neighbour table and leaves its shape alone.\<close>

definition refine_ok :: "nat \<Rightarrow> (bktHead \<Rightarrow> int \<Rightarrow> dataset) \<Rightarrow> bool" where
  "refine_ok deg refine \<longleftrightarrow> (\<forall>h node. ds_inv deg 4 (bh_graph h) \<longrightarrow>
     ds_inv deg 4 (refine h node) \<and> ds_R (refine h node) = ds_R (bh_graph h)
     \<and> ds_maxRows (refine h node) = ds_maxRows (bh_graph h))"

definition bh_refine :: "nat \<Rightarrow> (bktHead \<Rightarrow> int \<Rightarrow> dataset) \<Rightarrow> bktHead \<Rightarrow> int \<Rightarrow> dataset" where
  "bh_refine deg refine = (if refine_ok deg refine then refine else (\<lambda>h node. bh_graph h))"

lemma bh_refine_ok: "refine_ok deg (bh_refine deg refine)"
  by (auto simp: bh_refine_def refine_ok_def)

lemma bh_AddIndexIdx_inv:
  assumes r: "refine_ok deg refine" and inv: "bh_inv dim e deg h"
  shows "\<exists>h'. bh_AddIndexIdx refine h b en = Ret (Success, h') \<and> bh_inv dim e deg h'
    \<and> bh_samples h' = bh_samples h \<and> bh_deleted h' = bh_deleted h
    \<and> ds_maxRows (bh_graph h') = ds_maxRows (bh_graph h)"
proof -
  let ?P = "\<lambda>h'. bh_inv dim e deg h' \<and> bh_samples h' = bh_samples h \<and> bh_deleted h' = bh_deleted h
      \<and> ds_maxRows (bh_graph h') = ds_maxRows (bh_graph h)"
  have step: "?P (h'\<lparr>bh_graph := refine h' node\<rparr>)" if "?P h'" for h' node
  proof -
    have "ds_inv deg 4 (bh_graph h')" using that by (simp add: bh_inv_def)
    then have "ds_inv deg 4 (refine h' node) \<and> ds_R (refine h' node) = ds_R (bh_graph h')
      \<and> ds_maxRows (refine h' node) = ds_maxRows (bh_graph h')" using r unfolding refine_ok_def by blast
    then show ?thesis using that unfolding bh_inv_def by auto
  qed
  have "?P (fold (\<lambda>node h. h\<lparr>bh_graph := refine h node\<rparr>) ns h')" if "?P h'" for ns h'
    using that
  proof (induction ns arbitrary: h')
    case (Cons n ns)
    show ?case using Cons.IH [OF step [OF Cons.prems, of n]] by simp
  qed simp
  from this [of h "[b .. en - 1]"] inv show ?thesis by (simp add: bh_AddIndexIdx_def)
qed

lemma bh_gone_marks:
  "marks (bh_deleted h') = (marks (bh_deleted h))[nat k := 1] \<Longrightarrow> ls_R (bh_deleted h') = ls_R (bh_deleted h) \<Longrightarrow>
   0 \<le> k \<Longrightarrow> k < ls_R (bh_deleted h) \<Longrightarrow> bh_gone h' = insert k (bh_gone h)"
proof (rule set_eqI)
  fix x
  assume m: "marks (bh_deleted h') = (marks (bh_deleted h))[nat k := 1]"
    "ls_R (bh_deleted h') = ls_R (bh_deleted h)" "0 \<le> k" "k < ls_R (bh_deleted h)"
  have l: "length (marks (bh_deleted h)) = nat (ls_R (bh_deleted h))" by (simp add: marks_def ls_R_def)
  show "x \<in> bh_gone h' \<longleftrightarrow> x \<in> insert k (bh_gone h)"
    using m l by (auto simp: bh_gone_def nth_list_update eq_nat_nat_iff)
qed

lemma bh_gone_append:
  assumes "marks (bh_deleted h') = marks (bh_deleted h) @ [255]" "ls_R (bh_deleted h') = ls_R (bh_deleted h) + 1"
    "0 \<le> ls_R (bh_deleted h)"
  shows "bh_gone h' = bh_gone h"
proof (rule set_eqI)
  fix x
  have l: "length (marks (bh_deleted h)) = nat (ls_R (bh_deleted h))" by (simp add: marks_def ls_R_def)
  consider "0 \<le> x" "x < ls_R (bh_deleted h)" | "x = ls_R (bh_deleted h)" | "x < 0 \<or> ls_R (bh_deleted h) < x"
    by linarith
  then show "x \<in> bh_gone h' \<longleftrightarrow> x \<in> bh_gone h"
  proof cases
    case 1
    then have "nat x < length (marks (bh_deleted h))" using l by simp
    then show ?thesis using 1 assms by (simp add: bh_gone_def nth_append)
  next
    case 2
    then have "marks (bh_deleted h') ! nat x = 255" using assms(1) l by (simp add: nth_append)
    then show ?thesis using 2 assms by (simp add: bh_gone_def)
  qed (use assms in \<open>auto simp: bh_gone_def\<close>)
qed

lemma bh_AddIndexId_inv:
  assumes inv: "bh_inv dim e deg h" and room: "bh_GetNumSamples h + 1 \<le> bh_room h" "0 < bh_GetNumSamples h"
    and v: "length v = dim * e"
  shows "\<exists>h'. bh_AddIndexId h v 1 dim = Ret (Success, Some (bh_GetNumSamples h), h') \<and> bh_inv dim e deg h'
    \<and> ds_list (bh_samples h') = ds_list (bh_samples h) @ [v] \<and> bh_gone h' = bh_gone h \<and> bh_room h' = bh_room h"
proof -
  have i: "ds_inv dim e (bh_samples h)" "ds_inv deg 4 (bh_graph h)" "ls_inv (bh_deleted h)"
    "ds_R (bh_graph h) = ds_R (bh_samples h)" "ls_R (bh_deleted h) = ds_R (bh_samples h)" "0 < dim"
    using inv by (simp_all add: bh_inv_def)
  have fits: "ds_R (bh_samples h) + 1 \<le> ds_maxRows (bh_samples h)" "ds_R (bh_graph h) + 1 \<le> ds_maxRows (bh_graph h)"
    "ls_R (bh_deleted h) + 1 \<le> ds_maxRows (ls_data (bh_deleted h))"
    using room(1) i by (simp_all add: bh_room_def bh_GetNumSamples_def)
  obtain s where s: "ds_AddBatch (bh_samples h) 1 (Some v) = Ret (Success, s)" "ds_inv dim e s"
    "ds_R s = ds_R (bh_samples h) + 1" "ds_maxRows s = ds_maxRows (bh_samples h)"
    "ds_list s = ds_list (bh_samples h) @ [v]" using ds_inv_addRow [OF i(1) fits(1) v] by auto
  obtain g where g: "ds_AddBatch (bh_graph h) 1 None = Ret (Success, g)" "ds_inv deg 4 g"
    "ds_R g = ds_R (bh_graph h) + 1" "ds_maxRows g = ds_maxRows (bh_graph h)"
    using ds_inv_add [OF i(2) _ fits(2)] by auto
  obtain d where d: "ls_AddBatch (bh_deleted h) 1 = Ret (Success, d)" "ls_inv d" "ls_R d = ls_R (bh_deleted h) + 1"
    "ds_maxRows (ls_data d) = ds_maxRows (ls_data (bh_deleted h))" "marks d = marks (bh_deleted h) @ [255]"
    using ls_AddBatch_correct [OF i(3) _ fits(3)] by auto
  let ?h = "h\<lparr>bh_samples := s, bh_graph := g, bh_graphSize := bh_graphSize h + 1, bh_deleted := d\<rparr>"
  have "bh_AddIndexId h v 1 dim = Ret (Success, Some (bh_GetNumSamples h), ?h)"
    using s(1) g(1) d(1) room(2) i(1,6)
    by (simp add: bh_AddIndexId_def Let_def ng_AddBatch_def bh_GetFeatureDim_def ds_C_def ds_inv_def)
  moreover have "bh_gone ?h = bh_gone h"
  proof (rule bh_gone_append)
    show "0 \<le> ls_R (bh_deleted h)" using i(5) room(2) by (simp add: bh_GetNumSamples_def)
  qed (use d in simp_all)
  moreover have "bh_room ?h = bh_room h" using s g d by (simp add: bh_room_def)
  moreover have "bh_inv dim e deg ?h" using inv s g d i by (simp add: bh_inv_def)
  moreover have "ds_list (bh_samples ?h) = ds_list (bh_samples h) @ [v]" using s by simp
  ultimately show ?thesis by (intro exI [of _ ?h]) (intro conjI)
qed

lemma bh_DeleteIndex_inv:
  assumes inv: "bh_inv dim e deg h" and k: "0 \<le> k" "k < bh_GetNumSamples h"
  shows "\<exists>ec h'. bh_DeleteIndex h k = Ret (ec, h') \<and> bh_inv dim e deg h'
    \<and> bh_samples h' = bh_samples h \<and> bh_gone h' = insert k (bh_gone h) \<and> bh_room h' = bh_room h"
proof -
  have kr: "k < ls_R (bh_deleted h)" and li: "ls_inv (bh_deleted h)" and rd: "bh_ready h"
    using inv k(2) by (simp_all add: bh_inv_def bh_GetNumSamples_def)
  obtain d where d: "ls_Insert (bh_deleted h) k = Ret (marks (bh_deleted h) ! nat k \<noteq> 1, d)" "ls_inv d"
    "ls_R d = ls_R (bh_deleted h)" "marks d = (marks (bh_deleted h))[nat k := 1]"
    "ds_maxRows (ls_data d) = ds_maxRows (ls_data (bh_deleted h))"
    using ls_Insert_correct [OF li k(1) kr] by auto
  let ?h = "h\<lparr>bh_deleted := d\<rparr>"
  have "bh_gone ?h = insert k (bh_gone h)" by (rule bh_gone_marks) (use d k kr in simp_all)
  moreover have "bh_inv dim e deg ?h" using inv d by (simp add: bh_inv_def)
  moreover have "bh_room ?h = bh_room h" using d by (simp add: bh_room_def)
  ultimately show ?thesis using d rd
    by (cases "marks (bh_deleted h) ! nat k = 1") (simp_all add: bh_DeleteIndex_def)
qed

interpretation bkt: head_index bh_ContainSample bh_GetSample bh_GetNumSamples bh_DeleteIndex
  "\<lambda>h v. bh_AddIndexId h v 1 dim" "bh_AddIndexIdx (bh_refine deg refine)" "bh_inv dim e deg"
  "\<lambda>h. ds_list (bh_samples h)" bh_gone bh_room "\<lambda>h. dim * e" for dim e deg refine
proof unfold_locales
  fix h k v b en
  assume inv: "bh_inv dim e deg h"
  then have i: "ds_inv dim e (bh_samples h)" "ls_inv (bh_deleted h)" "ls_R (bh_deleted h) = ds_R (bh_samples h)"
    by (simp_all add: bh_inv_def)
  have R0: "0 \<le> ds_R (bh_samples h)" using i(1) ds_ok_cap by (auto simp: ds_inv_def)
  show n: "bh_GetNumSamples h = int (length (ds_list (bh_samples h)))" using R0 by (simp add: bh_GetNumSamples_def)
  show "k \<in> bh_gone h \<Longrightarrow> 0 \<le> k \<and> k < bh_GetNumSamples h"
    using i(3) by (simp add: bh_gone_def bh_GetNumSamples_def)
  show "bh_ContainSample h k = Ret (0 \<le> k \<and> k < bh_GetNumSamples h \<and> k \<notin> bh_gone h)"
    using i by (auto simp: bh_ContainSample_def bh_GetNumSamples_def bh_gone_def ls_Contains_in)
  show "bh_GetSample h k = Ret (ds_list (bh_samples h) ! nat k)" if "0 \<le> k" "k < bh_GetNumSamples h"
    using that dsrows.rd_tbl [OF i(1)] by (simp add: bh_GetSample_def bh_GetNumSamples_def dsrows_tbl_eq)
  show "\<exists>ec h'. bh_DeleteIndex h k = Ret (ec, h') \<and> bh_inv dim e deg h'
      \<and> ds_list (bh_samples h') = ds_list (bh_samples h) \<and> bh_gone h' = insert k (bh_gone h)
      \<and> bh_room h' = bh_room h \<and> dim * e = dim * e" if "0 \<le> k" "k < bh_GetNumSamples h"
    using bh_DeleteIndex_inv [OF inv that] by fastforce
  show "\<exists>h'. bh_AddIndexId h v 1 dim = Ret (Success, Some (bh_GetNumSamples h), h') \<and> bh_inv dim e deg h'
      \<and> ds_list (bh_samples h') = ds_list (bh_samples h) @ [v] \<and> bh_gone h' = bh_gone h
      \<and> bh_room h' = bh_room h \<and> dim * e = dim * e"
    if "bh_GetNumSamples h + 1 \<le> bh_room h" "0 < bh_GetNumSamples h" "length v = dim * e"
    using bh_AddIndexId_inv [OF inv that] by auto
  show "\<exists>ec h'. bh_AddIndexIdx (bh_refine deg refine) h b en = Ret (ec, h') \<and> bh_inv dim e deg h'
      \<and> ds_list (bh_samples h') = ds_list (bh_samples h) \<and> bh_gone h' = bh_gone h
      \<and> bh_room h' = bh_room h \<and> dim * e = dim * e"
    using bh_AddIndexIdx_inv [OF bh_refine_ok inv, of refine b en] by (fastforce simp: bh_gone_def bh_room_def)
qed

end
