(* ===== verification/DynSearcher.thy ===== *)
theory DynSearcher
  imports Postings HeadIndex QueryResults
begin

text \<open>
  \<open>ExtraDynamicSearcher\<close> (AnnService/inc/Core/SPANN/ExtraDynamicSearcher.h): the posting lists of an index
  that is updated in place. A posting hangs off a head vector; \<open>Append\<close> adds entries, \<open>Split\<close> collects
  garbage or splits a posting into two under new heads, \<open>MergePostings\<close> folds a small posting into a
  neighbour, \<open>Reassign\<close> moves a vector whose nearest heads changed, under a new version. Background work
  is a queue of jobs.

  The virtual interfaces are records of functions: \<open>Helper::KeyValueIO\<close> and the head \<open>VectorIndex\<close>, whose
  graph search is a parameter, as are the distance function and the clustering of \<open>Split\<close> (shuffle and
  \<open>KmeansClustering\<close> together). A call is one step of its thread; the posting locks that make it so are not
  state, except \<open>m_mergeLock\<close>, which is only tried. Timing statistics are left out.
\<close>

section \<open>The environment\<close>

record kmeansResult =
  km_numClusters :: int
  km_indices :: "nat list"
  km_counts :: "nat list"
  km_centers :: "bytes list"

record ('s, 'h, 'f) dynEnv =
  en_Get :: "'s \<Rightarrow> int \<Rightarrow> (ErrorCode \<times> bytes) outcome"
  en_MultiGet :: "'s \<Rightarrow> int list \<Rightarrow> (ErrorCode \<times> bytes list) outcome"
  en_Put :: "'s \<Rightarrow> int \<Rightarrow> bytes \<Rightarrow> (ErrorCode \<times> 's) outcome"
  en_Merge :: "'s \<Rightarrow> int \<Rightarrow> bytes \<Rightarrow> (ErrorCode \<times> 's) outcome"
  en_Contain :: "'h \<Rightarrow> int \<Rightarrow> bool outcome"
  en_Sample :: "'h \<Rightarrow> int \<Rightarrow> bytes outcome"
  en_Num :: "'h \<Rightarrow> int"
  en_Del :: "'h \<Rightarrow> int \<Rightarrow> (ErrorCode \<times> 'h) outcome"
  en_AddId :: "'h \<Rightarrow> bytes \<Rightarrow> (ErrorCode \<times> int option \<times> 'h) outcome"
  en_AddIdx :: "'h \<Rightarrow> int \<Rightarrow> int \<Rightarrow> (ErrorCode \<times> 'h) outcome"
  en_Search :: "'h \<Rightarrow> bytes \<Rightarrow> nat \<Rightarrow> 'f basicResult list"
  en_Distance :: "bytes \<Rightarrow> bytes \<Rightarrow> 'f"
  en_Kmeans :: "bytes list \<Rightarrow> nat list \<Rightarrow> kmeansResult"
  en_Epsilon :: 'f
  en_rngScale :: "'f \<Rightarrow> 'f"
  en_replicaCount :: nat
  en_internalResultNum :: nat
  en_reassignK :: nat
  en_inPlace :: bool
  en_disableReassign :: bool
  en_update :: bool
  en_vectorInfoSize :: nat
  en_postingSizeLimit :: int
  en_mergeThreshold :: int

datatype dynJob =
    MergeAsyncJob int bool
  | SplitAsyncJob int bool
  | ReassignAsyncJob bytes int

record indexStats =
  m_headMiss :: nat
  m_appendTaskNum :: nat
  m_splitNum :: nat
  m_theSameHeadNum :: nat
  m_reAssignNum :: nat
  m_garbageNum :: nat
  m_reAssignScanNum :: nat
  m_mergeNum :: nat

record ('s, 'h) dynSearcher =
  dy_db :: 's
  dy_versionMap :: versionLabel
  dy_postingSizes :: postingSizes
  dy_index :: 'h
  dy_splitList :: "int set"
  dy_mergeList :: "int set"
  dy_mergeLock :: bool
  dy_jobs :: "dynJob list"
  dy_stat :: indexStats

text \<open>\<open>v[i]\<close> of a vector.\<close>

definition nthO :: "'a list \<Rightarrow> nat \<Rightarrow> 'a outcome" where
  "nthO xs i = (if i < length xs then Ret (xs ! i) else Fault)"

lemma nthO_in [simp]: "i < length xs \<Longrightarrow> nthO xs i = Ret (xs ! i)"
  by (simp add: nthO_def)

text \<open>\<open>db->Put\<close> and \<open>m_postingSizes.UpdateSize\<close> on the searcher.\<close>

definition dy_Put :: "('s, 'h, 'f) dynEnv \<Rightarrow> int \<Rightarrow> bytes \<Rightarrow> ('s, 'h) dynSearcher \<Rightarrow> ('s, 'h) dynSearcher outcome" where
  "dy_Put en key value st =
     andThen (en_Put en (dy_db st) key value) (\<lambda>(ec, db).
       if ec \<noteq> Success then ExitProcess 0 else Ret (st\<lparr>dy_db := db\<rparr>))"

definition dy_UpdateSize :: "int \<Rightarrow> int \<Rightarrow> ('s, 'h) dynSearcher \<Rightarrow> ('s, 'h) dynSearcher outcome" where
  "dy_UpdateSize headID n st =
     andThen (ps_UpdateSize (dy_postingSizes st) headID n) (\<lambda>ps. Ret (st\<lparr>dy_postingSizes := ps\<rparr>))"

definition dy_DeleteIndex :: "('s, 'h, 'f) dynEnv \<Rightarrow> int \<Rightarrow> ('s, 'h) dynSearcher \<Rightarrow> ('s, 'h) dynSearcher outcome" where
  "dy_DeleteIndex en headID st =
     andThen (en_Del en (dy_index st) headID) (\<lambda>(ec, h). Ret (st\<lparr>dy_index := h\<rparr>))"

section \<open>The job queue\<close>

definition dy_SplitAsync :: "('s, 'h, 'f) dynEnv \<Rightarrow> int \<Rightarrow> ('s, 'h) dynSearcher \<Rightarrow> ('s, 'h) dynSearcher" where
  "dy_SplitAsync en headID st =
     (if headID \<in> dy_splitList st then st
      else st\<lparr>dy_splitList := insert headID (dy_splitList st),
              dy_jobs := dy_jobs st @ [SplitAsyncJob headID (en_disableReassign en)]\<rparr>)"

definition dy_MergeAsync :: "('s, 'h, 'f) dynEnv \<Rightarrow> int \<Rightarrow> ('s, 'h) dynSearcher \<Rightarrow> ('s, 'h) dynSearcher" where
  "dy_MergeAsync en headID st =
     (if \<not> en_update en then st
      else if headID \<in> dy_mergeList st then st
      else st\<lparr>dy_mergeList := insert headID (dy_mergeList st),
              dy_jobs := dy_jobs st @ [MergeAsyncJob headID (en_disableReassign en)]\<rparr>)"

definition dy_ReassignAsync :: "bytes \<Rightarrow> int \<Rightarrow> ('s, 'h) dynSearcher \<Rightarrow> ('s, 'h) dynSearcher" where
  "dy_ReassignAsync vectorInfo headPrev st = st\<lparr>dy_jobs := dy_jobs st @ [ReassignAsyncJob vectorInfo headPrev]\<rparr>"

section \<open>CollectReAssign\<close>

definition dy_CheckIsNeedReassign ::
  "('s, 'h, 'f :: linorder) dynEnv \<Rightarrow> 'h \<Rightarrow> int list \<Rightarrow> bytes \<Rightarrow> int \<Rightarrow> 'f \<Rightarrow> bool \<Rightarrow> bool outcome" where
  "dy_CheckIsNeedReassign en h newHeads data splitHead currentHeadDist isInSplitHead =
     andThen (en_Sample en h splitHead) (\<lambda>sv.
       let splitHeadDist = en_Distance en data sv
       in if isInSplitHead then Ret (\<not> splitHeadDist \<ge> currentHeadDist)
          else andThen (nthO newHeads 0) (\<lambda>h0. andThen (en_Sample en h h0) (\<lambda>v0.
               andThen (nthO newHeads 1) (\<lambda>h1. andThen (en_Sample en h h1) (\<lambda>v1.
                 let d1 = en_Distance en data v0; d2 = en_Distance en data v1
                 in Ret (\<not> (splitHeadDist \<le> d1 \<and> splitHeadDist \<le> d2)
                       \<and> \<not> (currentHeadDist \<le> d1 \<and> currentHeadDist \<le> d2)))))))"

text \<open>One entry of a scanned posting; the set holds the vectors queued already.\<close>

definition dy_collectEntry ::
  "('s, 'h, 'f :: linorder) dynEnv \<Rightarrow> int list \<Rightarrow> int \<Rightarrow> bool \<Rightarrow> int \<Rightarrow> bytes \<Rightarrow> nat
     \<Rightarrow> int set \<times> ('s, 'h) dynSearcher \<Rightarrow> (int set \<times> ('s, 'h) dynSearcher) outcome" where
  "dy_collectEntry en newHeads headID isIn curHead posting j acc =
     (let vis = en_vectorInfoSize en; (queued, st) = acc
      in andThen (pst_VID posting (j * vis)) (\<lambda>vid.
         andThen (pst_version posting (j * vis)) (\<lambda>version.
           if vid \<in> queued then Ret acc
           else andThen (isStale (dy_versionMap st) vid version) (\<lambda>stale.
             if stale then Ret acc
             else let st1 = st\<lparr>dy_stat := (dy_stat st)\<lparr>m_reAssignScanNum := m_reAssignScanNum (dy_stat st) + 1\<rparr>\<rparr>
             in andThen (pst_vector vis posting (j * vis)) (\<lambda>vector.
                andThen (en_Sample en (dy_index st) curHead) (\<lambda>hv.
                andThen (dy_CheckIsNeedReassign en (dy_index st) newHeads vector headID (en_Distance en hv vector) isIn) (\<lambda>need.
                  if need
                  then andThen (pst_entry vis posting j) (\<lambda>info.
                         Ret (insert vid queued, dy_ReassignAsync info curHead st1))
                  else Ret (queued, st1))))))))"

definition dy_collectPosting ::
  "('s, 'h, 'f :: linorder) dynEnv \<Rightarrow> int list \<Rightarrow> int \<Rightarrow> bool \<Rightarrow> int \<Rightarrow> bytes
     \<Rightarrow> int set \<times> ('s, 'h) dynSearcher \<Rightarrow> (int set \<times> ('s, 'h) dynSearcher) outcome" where
  "dy_collectPosting en newHeads headID isIn curHead posting =
     foldO (dy_collectEntry en newHeads headID isIn curHead posting) [0 ..< length posting div en_vectorInfoSize en]"

text \<open>The heads near the split one that are not among the new ones, up to the first empty result.\<close>

fun nearbyOthers :: "int list \<Rightarrow> 'f basicResult list \<Rightarrow> int list" where
  "nearbyOthers newHeads [] = []"
| "nearbyOthers newHeads (r # rs) =
     (if VID r = - 1 then []
      else if VID r \<in> set newHeads then nearbyOthers newHeads rs
      else VID r # nearbyOthers (newHeads @ [VID r]) rs)"

definition dy_CollectReAssign ::
  "('s, 'h, 'f :: linorder) dynEnv \<Rightarrow> int \<Rightarrow> bytes list \<Rightarrow> int list \<Rightarrow> ('s, 'h) dynSearcher
     \<Rightarrow> (ErrorCode \<times> ('s, 'h) dynSearcher) outcome" where
  "dy_CollectReAssign en headID postingLists newHeadsID st =
     andThen (en_Sample en (dy_index st) headID) (\<lambda>headVector.
     andThen (mapO (\<lambda>i. andThen (nthO newHeadsID i) (en_Sample en (dy_index st))) [0, 1]) (\<lambda>_.
     andThen (foldO (\<lambda>i acc. andThen (nthO newHeadsID i) (\<lambda>h.
                dy_collectPosting en newHeadsID headID True h (postingLists ! i) acc))
                [0 ..< length postingLists] ({}, st)) (\<lambda>(queued, st1).
       if en_reassignK en = 0 then Ret (Success, st1)
       else let near = nearbyOthers newHeadsID (en_Search en (dy_index st1) headVector (en_reassignK en))
       in andThen (en_MultiGet en (dy_db st1) near) (\<lambda>(ec, lists).
            if ec \<noteq> Success then ExitProcess 0
            else andThen (foldO (\<lambda>i acc. andThen (nthO near i) (\<lambda>h.
                   dy_collectPosting en newHeadsID headID False h (lists ! i) acc))
                   [0 ..< length lists] (queued, st1)) (\<lambda>(queued2, st2). Ret (Success, st2))))))"

section \<open>Split\<close>

definition dy_endSplit :: "int \<Rightarrow> ('s, 'h) dynSearcher \<Rightarrow> ('s, 'h) dynSearcher" where
  "dy_endSplit headID st = st\<lparr>dy_splitList := dy_splitList st - {headID}\<rparr>"

text \<open>Garbage collection: the live entries move to the front, the rest is cut off.\<close>

definition dy_splitGC ::
  "('s, 'h, 'f) dynEnv \<Rightarrow> int \<Rightarrow> bytes \<Rightarrow> nat list \<Rightarrow> ('s, 'h) dynSearcher \<Rightarrow> (ErrorCode \<times> ('s, 'h) dynSearcher) outcome" where
  "dy_splitGC en headID posting localIndices st =
     andThen (pst_compact (en_vectorInfoSize en) 0 localIndices posting) (\<lambda>p.
     andThen (dy_UpdateSize headID (int (length localIndices)) st) (\<lambda>st1.
     andThen (dy_Put en headID (take (length localIndices * en_vectorInfoSize en) p) st1) (\<lambda>st2.
       Ret (Success, dy_endSplit headID
         (st2\<lparr>dy_stat := (dy_stat st2)\<lparr>m_garbageNum := m_garbageNum (dy_stat st2) + 1\<rparr>\<rparr>)))))"

text \<open>\<open>numClusters <= 1\<close>: only the first entry survives.\<close>

definition dy_splitKeepOne ::
  "('s, 'h, 'f) dynEnv \<Rightarrow> int \<Rightarrow> bytes \<Rightarrow> nat list \<Rightarrow> ('s, 'h) dynSearcher \<Rightarrow> (ErrorCode \<times> ('s, 'h) dynSearcher) outcome" where
  "dy_splitKeepOne en headID posting localIndices st =
     andThen (nthO localIndices 0) (\<lambda>l.
     andThen (pst_entry (en_vectorInfoSize en) posting l) (\<lambda>newposting.
     andThen (dy_UpdateSize headID 1 st) (\<lambda>st1.
     andThen (dy_Put en headID newposting st1) (\<lambda>st2. Ret (Success, dy_endSplit headID st2)))))"

record ('s, 'h) clusterAcc =
  ca_st :: "('s, 'h) dynSearcher"
  ca_first :: nat
  ca_same :: bool
  ca_heads :: "int list"
  ca_lists :: "bytes list"

text \<open>The new posting goes to the old head, or to a head added for the cluster's centre.\<close>

definition dy_clusterHead ::
  "('s, 'h, 'f :: linorder) dynEnv \<Rightarrow> int \<Rightarrow> bool \<Rightarrow> bytes \<Rightarrow> bytes \<Rightarrow> bool \<Rightarrow> ('s, 'h) dynSearcher
     \<Rightarrow> (int \<times> bool \<times> ('s, 'h) dynSearcher) outcome" where
  "dy_clusterHead en headID preReassign center newlist same st =
     andThen (if same then Ret False
              else andThen (en_Sample en (dy_index st) headID) (\<lambda>hv. Ret (en_Distance en center hv < en_Epsilon en))) (\<lambda>near.
       if near
       then andThen (if preReassign then Ret st else dy_Put en headID newlist st) (\<lambda>st1.
              Ret (headID, True,
                st1\<lparr>dy_stat := (dy_stat st1)\<lparr>m_theSameHeadNum := m_theSameHeadNum (dy_stat st1) + 1\<rparr>\<rparr>))
       else andThen (en_AddId en (dy_index st) center) (\<lambda>(ec, begin', h1).
            andThen (deref begin') (\<lambda>b.
            andThen (if preReassign then Ret (st\<lparr>dy_index := h1\<rparr>) else dy_Put en b newlist (st\<lparr>dy_index := h1\<rparr>)) (\<lambda>st1.
            andThen (en_AddIdx en (dy_index st1) b (b + 1)) (\<lambda>(ec2, h2).
            andThen (ps_AddBatch (dy_postingSizes st1) 1) (\<lambda>(ec3, ps).
              if ec3 = MemoryOverFlow then ExitProcess 1
              else Ret (b, same, st1\<lparr>dy_index := h2, dy_postingSizes := ps\<rparr>)))))))"

definition dy_cluster ::
  "('s, 'h, 'f :: linorder) dynEnv \<Rightarrow> int \<Rightarrow> bool \<Rightarrow> bytes \<Rightarrow> kmeansResult \<Rightarrow> nat
     \<Rightarrow> ('s, 'h) clusterAcc \<Rightarrow> ('s, 'h) clusterAcc outcome" where
  "dy_cluster en headID preReassign posting km k a =
     andThen (nthO (km_counts km) k) (\<lambda>cnt.
       if cnt = 0 then Ret a
       else andThen (mapO (\<lambda>j. nthO (km_indices km) (ca_first a + j)) [0 ..< cnt]) (\<lambda>ls.
            andThen (pst_gather (en_vectorInfoSize en) posting ls) (\<lambda>newlist.
            andThen (nthO (km_centers km) k) (\<lambda>center.
            andThen (dy_clusterHead en headID preReassign center newlist (ca_same a) (ca_st a)) (\<lambda>(newHead, same, st1).
            andThen (dy_UpdateSize newHead (int cnt) st1) (\<lambda>st2.
              Ret (a\<lparr>ca_st := st2, ca_first := ca_first a + cnt, ca_same := same,
                     ca_heads := ca_heads a @ [newHead], ca_lists := (ca_lists a)[k := newlist]\<rparr>)))))))"

text \<open>
  With a single non-empty cluster among the two, \<open>newHeadsID\<close> has one element; reading its second one
  in \<open>CollectReAssign\<close> is then a fault.
\<close>

definition dy_splitTwo ::
  "('s, 'h, 'f :: linorder) dynEnv \<Rightarrow> int \<Rightarrow> bool \<Rightarrow> bool \<Rightarrow> bytes \<Rightarrow> kmeansResult \<Rightarrow> ('s, 'h) dynSearcher
     \<Rightarrow> (ErrorCode \<times> ('s, 'h) dynSearcher) outcome" where
  "dy_splitTwo en headID reassign preReassign posting km st =
     andThen (foldO (dy_cluster en headID preReassign posting km) [0, 1]
         \<lparr>ca_st = st, ca_first = 0, ca_same = False, ca_heads = [], ca_lists = [[], []]\<rparr>) (\<lambda>a.
     andThen (if ca_same a then Ret (ca_st a)
              else andThen (dy_DeleteIndex en headID (ca_st a)) (dy_UpdateSize headID 0)) (\<lambda>st1.
       let st2 = dy_endSplit headID st1;
           st3 = st2\<lparr>dy_stat := (dy_stat st2)\<lparr>m_splitNum := m_splitNum (dy_stat st2) + 1\<rparr>\<rparr>
       in if reassign
          then andThen (dy_CollectReAssign en headID (ca_lists a) (ca_heads a) st3) (\<lambda>(ec, st4). Ret (Success, st4))
          else Ret (Success, st3)))"

definition dy_Split ::
  "('s, 'h, 'f :: linorder) dynEnv \<Rightarrow> int \<Rightarrow> bool \<Rightarrow> bool \<Rightarrow> ('s, 'h) dynSearcher
     \<Rightarrow> (ErrorCode \<times> ('s, 'h) dynSearcher) outcome" where
  "dy_Split en headID reassign preReassign st =
     andThen (en_Get en (dy_db st) headID) (\<lambda>(ec, posting).
       if ec \<noteq> Success then ExitProcess 0
       else let vis = en_vectorInfoSize en
       in andThen (pst_live (dy_versionMap st) vis posting) (\<lambda>localIndices.
          if en_inPlace en \<or> \<not> preReassign \<and> int (length localIndices) < en_postingSizeLimit en
          then dy_splitGC en headID posting localIndices st
          else andThen (mapO (\<lambda>j. pst_vector vis posting (j * vis)) [0 ..< length posting div vis]) (\<lambda>smallSample.
               let km = en_Kmeans en smallSample localIndices
               in if km_numClusters km \<le> 1 then dy_splitKeepOne en headID posting (km_indices km) st
                  else dy_splitTwo en headID reassign preReassign posting km st)))"

section \<open>MergePostings\<close>

definition dy_eraseMerge :: "int \<Rightarrow> ('s, 'h) dynSearcher \<Rightarrow> ('s, 'h) dynSearcher" where
  "dy_eraseMerge headID st = st\<lparr>dy_mergeList := dy_mergeList st - {headID}\<rparr>"

text \<open>The scan of the current posting: ids, bytes and number of its live entries.\<close>

definition dy_mergeCurrent ::
  "('s, 'h, 'f) dynEnv \<Rightarrow> versionLabel \<Rightarrow> bytes \<Rightarrow> (int set \<times> bytes \<times> int) outcome" where
  "dy_mergeCurrent en vl posting =
     (let vis = en_vectorInfoSize en
      in andThen (pst_live vl vis posting) (\<lambda>ls.
         andThen (mapO (\<lambda>j. pst_VID posting (j * vis)) ls) (\<lambda>vids.
         andThen (pst_gather vis posting ls) (\<lambda>merged. Ret (set vids, merged, int (length ls))))))"

text \<open>The scan of the neighbour: entries of vectors not seen yet are added; all live ones are counted.\<close>

definition dy_mergeNext ::
  "('s, 'h, 'f) dynEnv \<Rightarrow> versionLabel \<Rightarrow> bytes \<Rightarrow> int set \<Rightarrow> (bytes \<times> int \<times> int) outcome" where
  "dy_mergeNext en vl posting vectorIdSet =
     (let vis = en_vectorInfoSize en
      in andThen (pst_live vl vis posting) (\<lambda>ls.
         andThen (filterO (\<lambda>j. andThen (pst_VID posting (j * vis)) (\<lambda>vid. Ret (vid \<notin> vectorIdSet))) ls) (\<lambda>fresh.
         andThen (pst_gather vis posting fresh) (\<lambda>added. Ret (added, int (length fresh), int (length ls))))))"

text \<open>
  After a merge, the first \<open>n\<close> raw entries of the dissolved posting, \<open>n\<close> the number of its live ones,
  are queued for reassignment when their new head is farther than their old one.
\<close>

definition dy_mergeReassign ::
  "('s, 'h, 'f :: linorder) dynEnv \<Rightarrow> bytes \<Rightarrow> int \<Rightarrow> int \<Rightarrow> nat \<Rightarrow> ('s, 'h) dynSearcher \<Rightarrow> ('s, 'h) dynSearcher outcome" where
  "dy_mergeReassign en posting oldHead newHead n st =
     foldO (\<lambda>j st. andThen (pst_vector (en_vectorInfoSize en) posting (j * en_vectorInfoSize en)) (\<lambda>vector.
        andThen (en_Sample en (dy_index st) oldHead) (\<lambda>ov.
        andThen (en_Sample en (dy_index st) newHead) (\<lambda>nv.
          if en_Distance en nv vector > en_Distance en ov vector
          then andThen (pst_entry (en_vectorInfoSize en) posting j) (\<lambda>info. Ret (dy_ReassignAsync info newHead st))
          else Ret st)))) [0 ..< n] st"

text \<open>The merge with the neighbour \<open>other\<close>: the longer posting keeps its head.\<close>

definition dy_mergeWith ::
  "('s, 'h, 'f :: linorder) dynEnv \<Rightarrow> int \<Rightarrow> int \<Rightarrow> bool \<Rightarrow> bytes \<Rightarrow> int set \<Rightarrow> bytes \<Rightarrow> int \<Rightarrow> ('s, 'h) dynSearcher
     \<Rightarrow> (ErrorCode \<times> ('s, 'h) dynSearcher) outcome" where
  "dy_mergeWith en headID other reassign current vectorIdSet merged currentLength st =
     andThen (en_Get en (dy_db st) other) (\<lambda>(ec, nextPosting).
       if ec \<noteq> Success then ExitProcess 0
       else andThen (dy_mergeNext en (dy_versionMap st) nextPosting vectorIdSet) (\<lambda>(added, fresh, nextLength).
         let (keep, drop') = (if currentLength > nextLength then (headID, other) else (other, headID))
         in andThen (dy_DeleteIndex en drop' st) (\<lambda>st1.
            andThen (dy_Put en keep (merged @ added) st1) (\<lambda>st2.
            andThen (if currentLength > nextLength
                     then andThen (dy_UpdateSize other 0 st2) (dy_UpdateSize headID (currentLength + fresh))
                     else andThen (dy_UpdateSize other (currentLength + fresh) st2) (dy_UpdateSize headID 0)) (\<lambda>st3.
            andThen (if \<not> reassign then Ret st3
                     else if currentLength > nextLength
                     then dy_mergeReassign en nextPosting other headID (nat nextLength) st3
                     else dy_mergeReassign en current headID other (nat currentLength) st3) (\<lambda>st4.
              let st5 = dy_eraseMerge headID st4
              in Ret (Success, st5\<lparr>dy_stat := (dy_stat st5)\<lparr>m_mergeNum := m_mergeNum (dy_stat st5) + 1\<rparr>\<rparr>)))))))"

text \<open>The candidates from the second search result on; without one the posting is written back.\<close>

fun dy_mergeLoop ::
  "('s, 'h, 'f :: linorder) dynEnv \<Rightarrow> int \<Rightarrow> bool \<Rightarrow> bytes \<Rightarrow> int set \<Rightarrow> bytes \<Rightarrow> int \<Rightarrow> 'f basicResult list
     \<Rightarrow> ('s, 'h) dynSearcher \<Rightarrow> (ErrorCode \<times> ('s, 'h) dynSearcher) outcome" where
  "dy_mergeLoop en headID reassign current vectorIdSet merged currentLength [] st =
     andThen (dy_UpdateSize headID currentLength st) (\<lambda>st1.
     andThen (dy_Put en headID merged st1) (\<lambda>st2. Ret (Success, dy_eraseMerge headID st2)))"
| "dy_mergeLoop en headID reassign current vectorIdSet merged currentLength (r # rs) st =
     andThen (ps_GetSize (dy_postingSizes st) (VID r)) (\<lambda>nextLength.
       if currentLength + nextLength < en_postingSizeLimit en \<and> VID r \<notin> dy_mergeList st
       then andThen (en_Contain en (dy_index st) (VID r)) (\<lambda>there.
              if there
              then dy_mergeWith en headID (VID r) reassign current vectorIdSet merged currentLength st
              else dy_mergeLoop en headID reassign current vectorIdSet merged currentLength rs st)
       else dy_mergeLoop en headID reassign current vectorIdSet merged currentLength rs st)"

text \<open>\<open>dy_mergeLock\<close> says whether another thread holds \<open>m_mergeLock\<close>; a call that takes it releases it before it returns.\<close>

definition dy_MergePostings ::
  "('s, 'h, 'f :: linorder) dynEnv \<Rightarrow> int \<Rightarrow> bool \<Rightarrow> ('s, 'h) dynSearcher \<Rightarrow> (ErrorCode \<times> ('s, 'h) dynSearcher) outcome" where
  "dy_MergePostings en headID reassign st =
     (if dy_mergeLock st then Ret (Success, st\<lparr>dy_jobs := dy_jobs st @ [MergeAsyncJob headID reassign]\<rparr>)
      else andThen (en_Contain en (dy_index st) headID) (\<lambda>there.
        if \<not> there then Ret (Success, st)
        else andThen (en_Get en (dy_db st) headID) (\<lambda>(ec, current).
          if ec \<noteq> Success then ExitProcess 0
          else andThen (dy_mergeCurrent en (dy_versionMap st) current) (\<lambda>(ids, merged, currentLength).
            if currentLength > en_mergeThreshold en
            then andThen (dy_UpdateSize headID currentLength st) (\<lambda>st1.
                 andThen (dy_Put en headID merged st1) (\<lambda>st2. Ret (Success, dy_eraseMerge headID st2)))
            else andThen (en_Sample en (dy_index st) headID) (\<lambda>hv.
                 dy_mergeLoop en headID reassign current ids merged currentLength
                   (drop 1 (en_Search en (dy_index st) hv (en_internalResultNum en))) st)))))"

section \<open>Append and Reassign\<close>

text \<open>The RNG check of a candidate head against the heads selected so far: true when one of them rejects it.\<close>

fun rngRejects ::
  "('s, 'h, 'f :: linorder) dynEnv \<Rightarrow> 'h \<Rightarrow> 'f basicResult \<Rightarrow> 'f edge list \<Rightarrow> bool outcome" where
  "rngRejects en h r [] = Ret False"
| "rngRejects en h r (e # es) =
     andThen (en_Sample en h (VID r)) (\<lambda>rv.
     andThen (en_Sample en h (egNode e)) (\<lambda>ev.
       if en_rngScale en (en_Distance en rv ev) \<le> Dist r then Ret True else rngRejects en h r es))"

text \<open>The answer is the flag and the first \<open>replicaCount\<close> selections.\<close>

fun dy_rngLoop ::
  "('s, 'h, 'f :: linorder) dynEnv \<Rightarrow> 'h \<Rightarrow> int \<Rightarrow> int \<Rightarrow> 'f basicResult list \<Rightarrow> 'f edge list
     \<Rightarrow> (bool \<times> 'f edge list) outcome" where
  "dy_rngLoop en h fullID checkHeadID [] sel = Ret (True, sel)"
| "dy_rngLoop en h fullID checkHeadID (r # rs) sel =
     (if \<not> length sel < en_replicaCount en then Ret (True, sel)
      else if VID r = - 1 then Ret (True, sel)
      else andThen (rngRejects en h r sel) (\<lambda>rejected.
        if rejected then dy_rngLoop en h fullID checkHeadID rs sel
        else if VID r = checkHeadID then Ret (False, sel)
        else dy_rngLoop en h fullID checkHeadID rs (sel @ [Edge (VID r) fullID (Dist r)])))"

definition dy_RNGSelection ::
  "('s, 'h, 'f :: linorder) dynEnv \<Rightarrow> 'h \<Rightarrow> bytes \<Rightarrow> int \<Rightarrow> int \<Rightarrow> (bool \<times> 'f edge list) outcome" where
  "dy_RNGSelection en h queryVector fullID checkHeadID =
     dy_rngLoop en h fullID checkHeadID (en_Search en h queryVector (en_internalResultNum en)) []"

text \<open>A missing head: the entries whose version is current are queued for reassignment.\<close>

definition dy_appendMissing ::
  "('s, 'h, 'f) dynEnv \<Rightarrow> int \<Rightarrow> nat \<Rightarrow> bytes \<Rightarrow> ('s, 'h) dynSearcher \<Rightarrow> (ErrorCode \<times> ('s, 'h) dynSearcher) outcome" where
  "dy_appendMissing en headID appendNum posting st =
     (let vis = en_vectorInfoSize en
      in andThen (foldO (\<lambda>i st.
           andThen (pst_VID posting (i * vis)) (\<lambda>vid.
           andThen (pst_version posting (i * vis)) (\<lambda>version.
           andThen (pst_entry vis posting i) (\<lambda>info.
           andThen (vl_GetVersion (dy_versionMap st) vid) (\<lambda>v.
             if v = version
             then Ret (dy_ReassignAsync info headID
                    (st\<lparr>dy_stat := (dy_stat st)\<lparr>m_headMiss := m_headMiss (dy_stat st) + 1\<rparr>\<rparr>))
             else Ret st))))) [0 ..< appendNum] st) (\<lambda>st1. Ret (Undefined, st1)))"

definition dy_Append ::
  "('s, 'h, 'f :: linorder) dynEnv \<Rightarrow> int \<Rightarrow> nat \<Rightarrow> bytes \<Rightarrow> int \<Rightarrow> ('s, 'h) dynSearcher
     \<Rightarrow> (ErrorCode \<times> ('s, 'h) dynSearcher) outcome" where
  "dy_Append en headID appendNum posting reassignThreshold st =
     andThen (en_Contain en (dy_index st) headID) (\<lambda>there.
       if \<not> there then dy_appendMissing en headID appendNum posting st
       else andThen (en_Merge en (dy_db st) headID posting) (\<lambda>(ec, db).
         if ec \<noteq> Success then ExitProcess 1
         else andThen (ps_IncSize (dy_postingSizes st) headID (int appendNum)) (\<lambda>ps.
           let st1 = st\<lparr>dy_db := db, dy_postingSizes := ps\<rparr>
           in andThen (ps_GetSize ps headID) (\<lambda>sz.
              andThen (if sz > en_postingSizeLimit en + reassignThreshold
                       then if reassignThreshold = 0 then Ret (dy_SplitAsync en headID st1)
                            else andThen (dy_Split en headID (\<not> en_disableReassign en) False st1) (\<lambda>(ec2, st2). Ret st2)
                       else Ret st1) (\<lambda>st2.
                Ret (Success,
                  if reassignThreshold = 0
                  then st2\<lparr>dy_stat := (dy_stat st2)\<lparr>m_appendTaskNum := m_appendTaskNum (dy_stat st2) + 1\<rparr>\<rparr>
                  else st2))))))"

text \<open>The appends of a reassigned vector, until its version moves on or a head is missing.\<close>

fun dy_reassignAppends ::
  "('s, 'h, 'f :: linorder) dynEnv \<Rightarrow> int \<Rightarrow> byte \<Rightarrow> bytes \<Rightarrow> 'f edge list \<Rightarrow> ('s, 'h) dynSearcher
     \<Rightarrow> ('s, 'h) dynSearcher outcome" where
  "dy_reassignAppends en vid version info [] st = Ret st"
| "dy_reassignAppends en vid version info (e # es) st =
     andThen (vl_GetVersion (dy_versionMap st) vid) (\<lambda>v.
       if v \<noteq> version then Ret st
       else andThen (dy_Append en (egNode e) 1 info 3 st) (\<lambda>(ec, st1).
            if ec = Undefined then Ret st1 else dy_reassignAppends en vid version info es st1))"

definition dy_Reassign ::
  "('s, 'h, 'f :: linorder) dynEnv \<Rightarrow> bytes \<Rightarrow> int \<Rightarrow> ('s, 'h) dynSearcher \<Rightarrow> ('s, 'h) dynSearcher outcome" where
  "dy_Reassign en vectorInfo headPrev st =
     andThen (pst_VID vectorInfo 0) (\<lambda>vid.
     andThen (pst_version vectorInfo 0) (\<lambda>version.
     andThen (isStale (dy_versionMap st) vid version) (\<lambda>stale.
       if stale then Ret st
       else let st1 = st\<lparr>dy_stat := (dy_stat st)\<lparr>m_reAssignNum := m_reAssignNum (dy_stat st) + 1\<rparr>\<rparr>
       in andThen (pst_vector (en_vectorInfoSize en) vectorInfo 0) (\<lambda>vector.
          andThen (dy_RNGSelection en (dy_index st1) vector vid headPrev) (\<lambda>(isNeedReassign, selections).
          andThen (vl_GetVersion (dy_versionMap st1) vid) (\<lambda>v.
            if \<not> (isNeedReassign \<and> v = version) then Ret st1
            else andThen (vl_IncVersion (dy_versionMap st1) vid version) (\<lambda>(bumped, version', vl).
                 dy_reassignAppends en vid version' (vectorInfo[4 := version']) selections
                   (st1\<lparr>dy_versionMap := vl\<rparr>))))))))"

section \<open>Jobs\<close>

fun dy_exec :: "('s, 'h, 'f :: linorder) dynEnv \<Rightarrow> dynJob \<Rightarrow> ('s, 'h) dynSearcher \<Rightarrow> ('s, 'h) dynSearcher outcome" where
  "dy_exec en (MergeAsyncJob headID disableReassign) st =
     andThen (dy_MergePostings en headID (\<not> disableReassign) st) (\<lambda>(ec, st'). Ret st')"
| "dy_exec en (SplitAsyncJob headID disableReassign) st =
     andThen (dy_Split en headID (\<not> disableReassign) False st) (\<lambda>(ec, st'). Ret st')"
| "dy_exec en (ReassignAsyncJob vectorInfo headPrev) st = dy_Reassign en vectorInfo headPrev st"

text \<open>A worker takes the job at the front of the queue.\<close>

definition dy_work :: "('s, 'h, 'f :: linorder) dynEnv \<Rightarrow> ('s, 'h) dynSearcher \<Rightarrow> ('s, 'h) dynSearcher outcome" where
  "dy_work en st = (case dy_jobs st of [] \<Rightarrow> Ret st | j # js \<Rightarrow> dy_exec en j (st\<lparr>dy_jobs := js\<rparr>))"

section \<open>Insertion and search\<close>

definition dy_addVector ::
  "('s, 'h, 'f :: linorder) dynEnv \<Rightarrow> int \<Rightarrow> bytes \<Rightarrow> ('s, 'h) dynSearcher \<Rightarrow> ('s, 'h) dynSearcher outcome" where
  "dy_addVector en vid vector st =
     andThen (dy_RNGSelection en (dy_index st) vector vid (- 1)) (\<lambda>(_, selections).
     andThen (vl_GetVersion (dy_versionMap st) vid) (\<lambda>version.
     andThen (pst_Serialize (en_vectorInfoSize en) vid version vector) (\<lambda>info.
       foldO (\<lambda>e st. andThen (dy_Append en (egNode e) 1 info 0 st) (\<lambda>(ec, st'). Ret st')) selections st)))"

definition dy_AddIndex ::
  "('s, 'h, 'f :: linorder) dynEnv \<Rightarrow> bytes list \<Rightarrow> int \<Rightarrow> ('s, 'h) dynSearcher \<Rightarrow> (ErrorCode \<times> ('s, 'h) dynSearcher) outcome" where
  "dy_AddIndex en vectors begin' st =
     andThen (foldO (\<lambda>v. dy_addVector en (begin' + int v) (vectors ! v)) [0 ..< length vectors] st)
       (\<lambda>st'. Ret (Success, st'))"

text \<open>
  \<open>SearchIndex\<close> over one posting. \<open>seen\<close> is the set \<open>m_deduper\<close> stands for; \<open>realNum\<close> counts the entries
  that are not deleted.
\<close>

definition dy_searchEntry ::
  "('s, 'h, 'f :: linorder) dynEnv \<Rightarrow> versionLabel \<Rightarrow> bytes \<Rightarrow> bytes \<Rightarrow> nat
     \<Rightarrow> int \<times> int set \<times> 'f queryResult \<Rightarrow> (int \<times> int set \<times> 'f queryResult) outcome" where
  "dy_searchEntry en vl target posting i acc =
     (let vis = en_vectorInfoSize en; (realNum, seen, qr) = acc
      in andThen (pst_VID posting (i * vis)) (\<lambda>vid.
         andThen (vl_Deleted vl vid) (\<lambda>del.
           if del then Ret (realNum - 1, seen, qr)
           else if vid \<in> seen then Ret acc
           else andThen (pst_vector vis posting (i * vis)) (\<lambda>vector.
                andThen (qr_AddPoint qr vid (en_Distance en target vector)) (\<lambda>(b, qr').
                  Ret (realNum, insert vid seen, qr'))))))"

definition dy_searchPosting ::
  "('s, 'h, 'f :: linorder) dynEnv \<Rightarrow> int \<Rightarrow> bytes \<Rightarrow> ('s, 'h) dynSearcher \<times> int set \<times> 'f queryResult
     \<Rightarrow> (('s, 'h) dynSearcher \<times> int set \<times> 'f queryResult) outcome" where
  "dy_searchPosting en curPostingID posting acc =
     (let (st, seen, qr) = acc; vectorNum = length posting div en_vectorInfoSize en
      in andThen (foldO (dy_searchEntry en (dy_versionMap st) (qr_target qr) posting) [0 ..< vectorNum]
                   (int vectorNum, seen, qr)) (\<lambda>(realNum, seen', qr').
           Ret (if realNum \<le> en_mergeThreshold en \<and> \<not> en_inPlace en then dy_MergeAsync en curPostingID st else st,
                seen', qr')))"

text \<open>The answer of \<open>MultiGet\<close> is ignored: what it delivered is searched.\<close>

definition dy_SearchIndex ::
  "('s, 'h, 'f :: linorder) dynEnv \<Rightarrow> int list \<Rightarrow> 'f queryResult \<Rightarrow> ('s, 'h) dynSearcher
     \<Rightarrow> ('f queryResult \<times> ('s, 'h) dynSearcher) outcome" where
  "dy_SearchIndex en postingIDs qr st =
     andThen (en_MultiGet en (dy_db st) postingIDs) (\<lambda>(ec, postingLists).
     andThen (foldO (\<lambda>pi acc. andThen (nthO postingIDs pi) (\<lambda>pid. dy_searchPosting en pid (postingLists ! pi) acc))
        [0 ..< length postingLists] (st, {}, qr)) (\<lambda>(st', seen, qr'). Ret (qr', st')))"

text \<open>\<open>ForceGC\<close>: every head, those added on the way included.\<close>

fun dy_gcLoop :: "('s, 'h, 'f :: linorder) dynEnv \<Rightarrow> nat \<Rightarrow> int \<Rightarrow> ('s, 'h) dynSearcher \<Rightarrow> ('s, 'h) dynSearcher outcome" where
  "dy_gcLoop en 0 i st = Hang"
| "dy_gcLoop en (Suc fuel) i st =
     (if \<not> i < en_Num en (dy_index st) then Ret st
      else andThen (en_Contain en (dy_index st) i) (\<lambda>there.
        if there then andThen (dy_Split en i False False st) (\<lambda>(ec, st'). dy_gcLoop en fuel (i + 1) st')
        else dy_gcLoop en fuel (i + 1) st))"

definition dy_CheckValidPosting :: "int \<Rightarrow> ('s, 'h) dynSearcher \<Rightarrow> bool outcome" where
  "dy_CheckValidPosting postingID st = andThen (ps_GetSize (dy_postingSizes st) postingID) (\<lambda>n. Ret (n > 0))"

definition dy_ReadPosting :: "('s, 'h, 'f) dynEnv \<Rightarrow> int \<Rightarrow> ('s, 'h) dynSearcher \<Rightarrow> bytes outcome" where
  "dy_ReadPosting en pid st = andThen (en_Get en (dy_db st) pid) (\<lambda>(ec, posting). Ret posting)"

definition dy_WritePosting ::
  "('s, 'h, 'f) dynEnv \<Rightarrow> int \<Rightarrow> bytes \<Rightarrow> ('s, 'h) dynSearcher \<Rightarrow> ('s, 'h) dynSearcher outcome" where
  "dy_WritePosting en pid posting st =
     andThen (en_Put en (dy_db st) pid posting) (\<lambda>(ec, db).
       dy_UpdateSize pid (int (length posting div en_vectorInfoSize en)) (st\<lparr>dy_db := db\<rparr>))"

definition dy_InitPostingRecord ::
  "('s, 'h, 'f) dynEnv \<Rightarrow> nat \<Rightarrow> int \<Rightarrow> ('s, 'h) dynSearcher \<Rightarrow> ('s, 'h) dynSearcher outcome" where
  "dy_InitPostingRecord en blockSize capacity st =
     andThen (ps_Initialize (dy_postingSizes st) (en_Num en (dy_index st)) blockSize capacity) (\<lambda>ps.
       Ret (st\<lparr>dy_postingSizes := ps\<rparr>))"

end
