(* ===== verification/DynBuild.thy ===== *)
theory DynBuild
  imports IndexBuild DynSearcher
begin

text \<open>
  The bulk operations of \<open>ExtraDynamicSearcher\<close> (AnnService/inc/Core/SPANN/ExtraDynamicSearcher.h):
  \<open>BuildIndex\<close> with \<open>WriteDownAllPostingToDB\<close>, \<open>LoadIndex\<close>, \<open>RefineIndex\<close> and \<open>CalculatePostingDistribution\<close>, and the
  two queries \<open>IsAssumptionBroken\<close> and \<open>SearchVector\<close>. The selection of heads and the cut are those of IndexBuild.
  The twenty threads of \<open>WriteDownAllPostingToDB\<close> put different keys; the order in which their puts take
  effect is a parameter.
\<close>

section \<open>Writing the postings\<close>

primrec dw_posting :: "nat \<Rightarrow> versionLabel \<Rightarrow> vectorSet \<Rightarrow> 'f selection \<Rightarrow> int \<Rightarrow> nat \<Rightarrow> nat \<Rightarrow> bytes \<Rightarrow> exc + bytes" where
  "dw_posting vis vl vs se index 0 selectIdx acc = Inr acc"
| "dw_posting vis vl vs se index (Suc n) selectIdx acc =
     thenE (se_at se selectIdx) (\<lambda>e.
       if egNode e \<noteq> index then Inl (Exit 1)
       else let fullID = egTonode e in
         thenE (liftO (vl_GetVersion vl fullID)) (\<lambda>version.
         thenE (idxE (vs_vectors vs) fullID) (\<lambda>vector.
         thenE (liftO (pst_Serialize vis fullID version vector)) (\<lambda>info.
           dw_posting vis vl vs se index n (Suc selectIdx) (acc @ info)))))"

text \<open>The answer of \<open>Put\<close> is not looked at.\<close>

definition dw_write ::
  "('s, 'h, 'f) dynEnv \<Rightarrow> nat \<Rightarrow> vectorSet \<Rightarrow> 'f selection \<Rightarrow> int list \<Rightarrow> nat \<Rightarrow> ('s, 'h) dynSearcher \<Rightarrow> exc + ('s, 'h) dynSearcher" where
  "dw_write en vis vs se sizes index st =
     thenE (dw_posting vis (dy_versionMap st) vs se (int index) (nat (sizes ! index)) (se_lower_bound se (int index)) []) (\<lambda>postinglist.
     thenE (liftO (en_Put en (dy_db st) (int index) postinglist)) (\<lambda>(ec, db). Inr (st\<lparr>dy_db := db\<rparr>)))"

definition WriteDownAllPostingToDB ::
  "('s, 'h, 'f) dynEnv \<Rightarrow> nat \<Rightarrow> nat list \<Rightarrow> vectorSet \<Rightarrow> 'f selection \<Rightarrow> int list \<Rightarrow> ('s, 'h) dynSearcher \<Rightarrow> exc + ('s, 'h) dynSearcher" where
  "WriteDownAllPostingToDB en vis order vs se sizes st = foldE (dw_write en vis vs se sizes) order st"

section \<open>BuildIndex\<close>

definition dw_sizes :: "int list \<Rightarrow> postingSizes \<Rightarrow> exc + postingSizes" where
  "dw_sizes sizes ps = foldE (\<lambda>i ps. liftO (ps_UpdateSize ps (int i) (sizes ! i))) [0 ..< length sizes] ps"

text \<open>
  The result holds the searcher and what \<open>Save\<close> makes of the two files, \<open>m_ssdInfoFile\<close> and \<open>m_deleteIDFile\<close>; \<open>None\<close> for
  \<open>false\<close>. \<open>blockSize\<close> and \<open>capacity\<close> are those of the head index; a Save that fails is not looked at either.
\<close>

definition dy_BuildIndex ::
  "('f :: linorder) buildEnv \<Rightarrow> ('s, 'h, 'f) dynEnv \<Rightarrow> 'f \<Rightarrow> int \<Rightarrow> nat list \<Rightarrow> nat \<Rightarrow> int \<Rightarrow> nat option \<Rightarrow> bytes option \<Rightarrow> vectorSet \<Rightarrow> int
     \<Rightarrow> ('s, 'h) dynSearcher \<Rightarrow> exc + (('s, 'h) dynSearcher \<times> (ErrorCode + ostream) \<times> (ErrorCode + ostream)) option" where
  "dy_BuildIndex bd en maxDist pageLimit order blockSize capacity room headFile vs upperBound st =
     (let headIDS = (case headFile of None \<Rightarrow> {} | Some bs \<Rightarrow> bd_readHeads bs);
          vis = vs_dataSize vs + metaDataSize;
          fullCount = (if upperBound > 0 then nat upperBound else length (vs_vectors vs))
      in thenE (bd_select bd maxDist headIDS (vs_vectors vs) fullCount (nat (en_Num en (dy_index st)))) (\<lambda>r. case r of None \<Rightarrow> Inr None
         | Some b \<Rightarrow>
           thenE (bd_cut (bd_sizeLimit (en_postingSizeLimit en) pageLimit vis) b) (\<lambda>b'.
           thenE (liftO (vl_Initialize (dy_versionMap st) (int fullCount) blockSize capacity)) (\<lambda>vl.
           thenE (WriteDownAllPostingToDB en vis order (vs\<lparr>vs_vectors := bd_normalize bd (vs_vectors vs)\<rparr>) (bl_selections b') (bl_sizes b')
                    (st\<lparr>dy_versionMap := vl\<rparr>)) (\<lambda>st1.
           thenE (liftO (ps_Initialize (dy_postingSizes st1) (int (length (bl_sizes b'))) blockSize capacity)) (\<lambda>ps0.
           thenE (dw_sizes (bl_sizes b') ps0) (\<lambda>ps.
           thenE (liftO (ps_Save ps \<lparr>os_data = [], os_room = room\<rparr>)) (\<lambda>ssdInfo.
           thenE (liftO (vl_Save vl \<lparr>os_data = [], os_room = room\<rparr>)) (\<lambda>deleteID.
             Inr (Some (st1\<lparr>dy_postingSizes := ps\<rparr>, ssdInfo, deleteID)))))))))))"

section \<open>LoadIndex\<close>

text \<open>
  Without SPDK the two tables are read back (\<open>None\<close>: the file cannot be opened, which goes unnoticed). A file that
  breaks off is \<open>Inl\<close> here; the code goes on with what it read. The thread pools start empty.
\<close>

definition dw_loaded :: "'a \<Rightarrow> (bytes \<Rightarrow> (ErrorCode + 'a \<times> istream) outcome) \<Rightarrow> bytes option \<Rightarrow> (ErrorCode + 'a) outcome" where
  "dw_loaded old load file' =
     (case file' of None \<Rightarrow> Ret (Inr old)
      | Some inp \<Rightarrow> andThen (load inp) (\<lambda>r. Ret (case r of Inl e \<Rightarrow> Inl e | Inr (x, inp') \<Rightarrow> Inr x)))"

definition dy_LoadIndex ::
  "bool \<Rightarrow> nat \<Rightarrow> int \<Rightarrow> bytes option \<Rightarrow> bytes option \<Rightarrow> ('s, 'h) dynSearcher \<Rightarrow> (ErrorCode + ('s, 'h) dynSearcher) outcome" where
  "dy_LoadIndex useSPDK blockSize capacity deleteIDFile ssdInfoFile st =
     (if useSPDK then Ret (Inr (st\<lparr>dy_jobs := []\<rparr>))
      else andThen (dw_loaded (dy_versionMap st) (\<lambda>inp. vl_Load (dy_versionMap st) inp blockSize capacity) deleteIDFile) (\<lambda>v.
           andThen (dw_loaded (dy_postingSizes st) (\<lambda>inp. ps_Load (dy_postingSizes st) inp blockSize capacity) ssdInfoFile) (\<lambda>p.
             Ret (case v of Inl e \<Rightarrow> Inl e | Inr vl \<Rightarrow> (case p of Inl e \<Rightarrow> Inl e | Inr ps \<Rightarrow>
               Inr (st\<lparr>dy_versionMap := vl, dy_postingSizes := ps, dy_jobs := []\<rparr>))))))"

section \<open>RefineIndex\<close>

text \<open>The histograms of \<open>CalculatePostingDistribution\<close>: by length, by size, and the number of deleted heads.\<close>

definition dw_bucket :: "int \<Rightarrow> int" where
  "dw_bucket size' = (if size' < int PageSize then (if size' < 512 then 0 else if size' < 1024 then 1 else 2) else size' sdiv int PageSize + 2)"

definition CalculatePostingDistribution ::
  "('s, 'h, 'f) dynEnv \<Rightarrow> int \<Rightarrow> ('s, 'h) dynSearcher \<Rightarrow> exc + (int list \<times> int list \<times> int) option" where
  "CalculatePostingDistribution en pageLimit st =
     (if en_inPlace en then Inr None
      else let top = en_postingSizeLimit en sdiv 10 + 1; page = pageLimit + 1 in
        thenE (foldE (\<lambda>i (len, sz, deletedHead).
            thenE (liftO (en_Contain en (dy_index st) (int i))) (\<lambda>there.
            thenE (liftO (ps_GetSize (dy_postingSizes st) (int i))) (\<lambda>n.
            thenE (addAt len (n sdiv 10) 1) (\<lambda>len'.
            thenE (addAt sz (dw_bucket (n * int (en_vectorInfoSize en))) 1) (\<lambda>sz'.
              Inr (len', sz', if there then deletedHead else deletedHead + 1))))))
          [0 ..< nat (en_Num en (dy_index st))] (replicate (nat top) 0, replicate (nat (page + 2)) 0, 0)) (\<lambda>r. Inr (Some r)))"

text \<open>One pass: the postings that reach \<open>limit\<close> are split without reassignment and without being written. The flag stays set when there was none.\<close>

definition dw_refinePass :: "('s, 'h, 'f :: linorder) dynEnv \<Rightarrow> int \<Rightarrow> ('s, 'h) dynSearcher \<Rightarrow> exc + bool \<times> ('s, 'h) dynSearcher" where
  "dw_refinePass en limit st =
     foldE (\<lambda>i (doneReassign, st).
         thenE (liftO (ps_GetSize (dy_postingSizes st) (int i))) (\<lambda>n.
           if n \<ge> limit then thenE (liftO (dy_Split en (int i) False True st)) (\<lambda>(ec, st'). Inr (False, st'))
           else Inr (doneReassign, st)))
       [0 ..< nat (en_Num en (dy_index st))] (True, st)"

text \<open>
  The loop rebuilds the postings after every pass, over a new search of the head index (\<open>bd\<close> depends on it), and stops after
  a pass that split nothing; \<open>rounds\<close> bounds the passes. \<open>order\<close> is given for every pass. The answer of \<open>BuildIndex\<close> is not
  looked at: when it is \<open>false\<close> the loop goes on with the searcher as the pass left it.
\<close>

primrec RefineIndex ::
  "('h \<Rightarrow> ('f :: linorder) buildEnv) \<Rightarrow> ('s, 'h, 'f) dynEnv \<Rightarrow> int \<Rightarrow> 'f \<Rightarrow> int \<Rightarrow> (nat \<Rightarrow> nat list) \<Rightarrow> nat \<Rightarrow> int \<Rightarrow> bytes option \<Rightarrow> vectorSet
     \<Rightarrow> nat \<Rightarrow> ('s, 'h) dynSearcher \<Rightarrow> exc + ('s, 'h) dynSearcher" where
  "RefineIndex bd en limit maxDist pageLimit order blockSize capacity headFile vs 0 st = Inl NoReturn"
| "RefineIndex bd en limit maxDist pageLimit order blockSize capacity headFile vs (Suc rounds) st =
     thenE (dw_refinePass en limit st) (\<lambda>(doneReassign, st1).
     thenE (dy_BuildIndex (bd (dy_index st1)) en maxDist pageLimit (order rounds) blockSize capacity None headFile vs (- 1) st1) (\<lambda>r.
       let st2 = (case r of None \<Rightarrow> st1 | Some (st2, _) \<Rightarrow> st2) in
       thenE (CalculatePostingDistribution en pageLimit st2) (\<lambda>_.
         if doneReassign then Inr st2
         else RefineIndex bd en limit maxDist pageLimit order blockSize capacity headFile vs rounds st2)))"

section \<open>Queries\<close>

text \<open>Whether head \<open>headID\<close> is none of the heads selected for a vector; here the distance of two heads is not scaled.\<close>

fun ia_loop :: "('s, 'h, 'f :: linorder) dynEnv \<Rightarrow> 'h \<Rightarrow> int \<Rightarrow> int list \<Rightarrow> 'f basicResult list \<Rightarrow> bool outcome" where
  "ia_loop en h headID selections [] = Ret True"
| "ia_loop en h headID selections (r # rs) =
     (if length selections \<ge> en_replicaCount en \<or> VID r = - 1 then Ret True
      else andThen (mapO (\<lambda>s. andThen (en_Sample en h (VID r)) (\<lambda>v. andThen (en_Sample en h s) (\<lambda>w.
                      Ret (en_Distance en v w)))) selections) (\<lambda>nnDists.
             if list_ex (\<lambda>d. d < Dist r) nnDists then ia_loop en h headID selections rs
             else if VID r = headID then Ret False
             else ia_loop en h headID (selections @ [VID r]) rs))"

definition IsAssumptionBroken :: "('s, 'h, 'f :: linorder) dynEnv \<Rightarrow> 'h \<Rightarrow> int \<Rightarrow> bytes \<Rightarrow> nat \<Rightarrow> bool outcome" where
  "IsAssumptionBroken en h headID target resultNum = ia_loop en h headID [] (en_Search en h target resultNum)"

text \<open>
  \<open>SearchVector\<close>: the first vector found at a distance below \<open>1e-6\<close> (\<open>tiny\<close>). A \<open>Get\<close> that fails leaves the string as it was, with
  entries that have all been looked at, so it adds nothing. The results that were not found (id -1) are looked up, too.
\<close>

fun sv_entries ::
  "('s, 'h, 'f :: linorder) dynEnv \<Rightarrow> 'f \<Rightarrow> versionLabel \<Rightarrow> bytes \<Rightarrow> bytes \<Rightarrow> nat list \<Rightarrow> int set \<Rightarrow> (int option \<times> int set) outcome" where
  "sv_entries en tiny vl target posting [] checked = Ret (None, checked)"
| "sv_entries en tiny vl target posting (j # js) checked =
     (let vis = en_vectorInfoSize en in
      andThen (pst_VID posting (j * vis)) (\<lambda>vid.
        if vid \<in> checked then sv_entries en tiny vl target posting js checked
        else andThen (vl_Deleted vl vid) (\<lambda>del.
          if del then sv_entries en tiny vl target posting js checked
          else andThen (pst_vector vis posting (j * vis)) (\<lambda>vector.
            if en_Distance en target vector < tiny then Ret (Some vid, insert vid checked)
            else sv_entries en tiny vl target posting js (insert vid checked)))))"

fun sv_postings ::
  "('s, 'h, 'f :: linorder) dynEnv \<Rightarrow> 'f \<Rightarrow> bytes \<Rightarrow> ('s, 'h) dynSearcher \<Rightarrow> 'f basicResult list \<Rightarrow> int set \<Rightarrow> int outcome" where
  "sv_postings en tiny target st [] checked = Ret (- 1)"
| "sv_postings en tiny target st (r # rs) checked =
     andThen (en_Get en (dy_db st) (VID r)) (\<lambda>(ec, posting).
     andThen (sv_entries en tiny (dy_versionMap st) target posting [0 ..< length posting div en_vectorInfoSize en] checked) (\<lambda>(found, checked').
       case found of Some vid \<Rightarrow> Ret vid | None \<Rightarrow> sv_postings en tiny target st rs checked'))"

definition dy_SearchVector :: "('s, 'h, 'f :: linorder) dynEnv \<Rightarrow> 'f \<Rightarrow> bytes \<Rightarrow> nat \<Rightarrow> ('s, 'h) dynSearcher \<Rightarrow> int outcome" where
  "dy_SearchVector en tiny target testNum st = sv_postings en tiny target st (en_Search en (dy_index st) target testNum) {}"

end
