(* ===== verification/DynSplit.thy ===== *)
theory DynSplit
  imports DynSearcher KeyValueStore
begin

text \<open>
  What \<open>Split\<close> does to the postings, proved once for any store with the laws of \<open>kv_room\<close> and any head
  index with the laws of \<open>head_index\<close>, and the two together, instantiated with \<open>SPDKIO\<close> and
  \<open>BKT::Index\<close> as \<open>spdkEnv\<close>.
\<close>

text \<open>The facts about a clustering the split relies on, for the live positions \<open>ls\<close>.\<close>

definition km_ok :: "kmeansResult \<Rightarrow> nat list \<Rightarrow> nat \<Rightarrow> bool" where
  "km_ok km ls w \<longleftrightarrow> mset (km_indices km) = mset ls \<and> length (km_counts km) = 2 \<and> length (km_centers km) = 2
     \<and> sum_list (km_counts km) = length ls \<and> (\<forall>c \<in> set (km_counts km). 0 < c) \<and> (\<forall>z \<in> set (km_centers km). length z = w)"

section \<open>The searcher over its two interfaces\<close>

locale dyn_searcher =
  kv: kv_room "en_Get en" "en_Put en" "en_Merge en" del inv view canPut canMerge "en_MultiGet en" roomy +
  hd: head_index "en_Contain en" "en_Sample en" "en_Num en" "en_Del en" "en_AddId en" "en_AddIdx en"
        hinv vecs gone room width
  for en :: "('s, 'h, 'f :: linorder) dynEnv"
    and del :: "'s \<Rightarrow> int \<Rightarrow> (ErrorCode \<times> 's) outcome"
    and inv view canPut canMerge roomy hinv vecs gone room width
begin

definition st_ok :: "('s, 'h) dynSearcher \<Rightarrow> bool" where
  "st_ok st \<longleftrightarrow> inv (dy_db st) \<and> hinv (dy_index st) \<and> vl_inv (dy_versionMap st) \<and> ps_inv (dy_postingSizes st)
     \<and> ps_GetPostingNum (dy_postingSizes st) = en_Num en (dy_index st)"

definition heads :: "('s, 'h) dynSearcher \<Rightarrow> int set" where
  "heads st = {k. 0 \<le> k \<and> k < en_Num en (dy_index st) \<and> k \<notin> gone (dy_index st)}"

definition postings :: "('s, 'h) dynSearcher \<Rightarrow> int \<Rightarrow> bytes option" where
  "postings st = view (dy_db st)"

abbreviation sizes :: "('s, 'h) dynSearcher \<Rightarrow> int list" where
  "sizes st \<equiv> intsOf (dy_postingSizes st)"

abbreviation vis :: nat where
  "vis \<equiv> en_vectorInfoSize en"

definition known :: "('s, 'h) dynSearcher \<Rightarrow> bytes \<Rightarrow> bool" where
  "known st p \<longleftrightarrow> (\<forall>e \<in> set (entriesOf vis p). knownEntry (dy_versionMap st) e)"

definition live :: "('s, 'h) dynSearcher \<Rightarrow> bytes \<Rightarrow> bytes list" where
  "live st p = liveEntries (dy_versionMap st) vis p"

lemma heads_bound: "k \<in> heads st \<Longrightarrow> 0 \<le> k \<and> k < en_Num en (dy_index st)"
  by (simp add: heads_def)

lemma contain_heads: "st_ok st \<Longrightarrow> en_Contain en (dy_index st) k = Ret (k \<in> heads st)"
  using hd.contain_law [of "dy_index st" k] by (auto simp: st_ok_def heads_def)

lemma length_sizes: "st_ok st \<Longrightarrow> length (sizes st) = nat (en_Num en (dy_index st))"
  by (simp add: st_ok_def ps_GetPostingNum_def)

lemma get_posting: "st_ok st \<Longrightarrow> postings st k = Some p \<Longrightarrow> en_Get en (dy_db st) k = Ret (Success, p)"
  using kv.get_law by (simp add: st_ok_def postings_def)

lemma live_width: "\<forall>e \<in> set (live st p). length e = vis"
  by (auto simp: live_def liveEntries_def entriesOf_width)

lemma live_positions:
  assumes "st_ok st" "5 \<le> vis" "known st p"
  shows "\<exists>ls. pst_live (dy_versionMap st) vis p = Ret ls \<and> ls = filter (\<lambda>j. liveEntry (dy_versionMap st) (entriesOf vis p ! j)) [0 ..< length p div vis]
    \<and> map (\<lambda>l. entriesOf vis p ! l) ls = live st p"
  using pst_live_in [of "dy_versionMap st" vis p] assms map_live_positions [of vis p "dy_versionMap st"]
  by (auto simp: st_ok_def known_def live_def)

text \<open>The three updates a split makes.\<close>

lemma UpdateSize_ok:
  assumes "st_ok st" "0 \<le> k" "k < en_Num en (dy_index st)" "int32_ok n"
  shows "\<exists>ps. dy_UpdateSize k n st = Ret (st\<lparr>dy_postingSizes := ps\<rparr>) \<and> st_ok (st\<lparr>dy_postingSizes := ps\<rparr>)
    \<and> intsOf ps = (sizes st)[nat k := n] \<and> ds_maxRows ps = ds_maxRows (dy_postingSizes st)"
proof -
  obtain ps where "ps_UpdateSize (dy_postingSizes st) k n = Ret ps" "ps_inv ps"
    "ps_GetPostingNum ps = ps_GetPostingNum (dy_postingSizes st)" "intsOf ps = (sizes st)[nat k := n]"
    "ds_maxRows ps = ds_maxRows (dy_postingSizes st)"
    using ps_UpdateSize_in [of "dy_postingSizes st" k n] assms by (auto simp: st_ok_def ps_has_def)
  then show ?thesis using assms(1) by (intro exI [of _ ps]) (simp add: dy_UpdateSize_def st_ok_def)
qed

lemma Put_ok:
  assumes "st_ok st" "roomy (dy_db st) b (length v # ns)" "0 \<le> k" "k < b"
  shows "\<exists>db. dy_Put en k v st = Ret (st\<lparr>dy_db := db\<rparr>) \<and> st_ok (st\<lparr>dy_db := db\<rparr>)
    \<and> view db = (postings st)(k \<mapsto> v) \<and> roomy db b ns"
proof -
  obtain db where "en_Put en (dy_db st) k v = Ret (Success, db)" "inv db" "view db = (postings st)(k \<mapsto> v)" "roomy db b ns"
    using kv.put_roomy [of "dy_db st" b v ns k] assms by (auto simp: st_ok_def postings_def)
  then show ?thesis using assms(1) by (intro exI [of _ db]) (simp add: dy_Put_def st_ok_def)
qed

section \<open>Garbage collection\<close>

lemma Split_GC:
  assumes ok: "st_ok st" and vis: "5 \<le> vis" and h: "0 \<le> headID" "headID < en_Num en (dy_index st)"
    and p: "postings st headID = Some p" "known st p"
    and few: "en_inPlace en \<or> \<not> pre \<and> int (length (live st p)) < en_postingSizeLimit en"
    and room: "roomy (dy_db st) b [length (live st p) * vis]" "headID < b" and sz: "int32_ok (int (length (live st p)))"
  shows "\<exists>st'. dy_Split en headID re pre st = Ret (Success, st') \<and> st_ok st'
    \<and> postings st' = (postings st)(headID \<mapsto> concat (live st p))
    \<and> sizes st' = (sizes st)[nat headID := int (length (live st p))]
    \<and> dy_versionMap st' = dy_versionMap st \<and> dy_index st' = dy_index st \<and> dy_jobs st' = dy_jobs st
    \<and> dy_splitList st' = dy_splitList st - {headID} \<and> dy_mergeList st' = dy_mergeList st
    \<and> m_garbageNum (dy_stat st') = m_garbageNum (dy_stat st) + 1"
proof -
  obtain ls where ls: "pst_live (dy_versionMap st) vis p = Ret ls"
    "ls = filter (\<lambda>j. liveEntry (dy_versionMap st) (entriesOf vis p ! j)) [0 ..< length p div vis]"
    "map (\<lambda>l. entriesOf vis p ! l) ls = live st p"
    using live_positions [OF ok vis p(2)] by auto
  have n: "length ls = length (live st p)" using ls(3) by (metis length_map)
  obtain q where q: "pst_compact vis 0 ls p = Ret q" "take (length ls * vis) q = concat (live st p)"
    using pst_compact_live [OF ls(2)] ls(3) by auto
  have len: "length (concat (live st p)) = length (live st p) * vis"
    by (rule length_concat_width [OF live_width])
  obtain ps where ps: "dy_UpdateSize headID (int (length (live st p))) st = Ret (st\<lparr>dy_postingSizes := ps\<rparr>)"
    "st_ok (st\<lparr>dy_postingSizes := ps\<rparr>)" "intsOf ps = (sizes st)[nat headID := int (length (live st p))]"
    using UpdateSize_ok [OF ok h sz] by auto
  obtain db where db: "dy_Put en headID (concat (live st p)) (st\<lparr>dy_postingSizes := ps\<rparr>)
      = Ret (st\<lparr>dy_postingSizes := ps, dy_db := db\<rparr>)" "st_ok (st\<lparr>dy_postingSizes := ps, dy_db := db\<rparr>)"
      "view db = (postings st)(headID \<mapsto> concat (live st p))"
    using Put_ok [OF ps(2), of b "concat (live st p)" "[]" headID] room h(1) unfolding len
    by (auto simp: postings_def)
  let ?st = "dy_endSplit headID (st\<lparr>dy_postingSizes := ps, dy_db := db,
      dy_stat := (dy_stat st)\<lparr>m_garbageNum := m_garbageNum (dy_stat st) + 1\<rparr>\<rparr>)"
  have "dy_splitGC en headID p ls st = Ret (Success, ?st)"
    using q ps(1) db(1) n by (simp add: dy_splitGC_def)
  then have "dy_Split en headID re pre st = Ret (Success, ?st)"
    using get_posting [OF ok p(1)] ls(1) few n by (auto simp: dy_Split_def Let_def)
  moreover have "st_ok ?st" using db(2) by (simp add: st_ok_def dy_endSplit_def)
  ultimately show ?thesis using db(3) ps(3)
    by (intro exI [of _ ?st]) (simp add: dy_endSplit_def postings_def)
qed

section \<open>A posting of one vector\<close>

lemma Split_keepOne:
  assumes ok: "st_ok st" and vis: "5 \<le> vis" and h: "0 \<le> headID" "headID < en_Num en (dy_index st)"
    and p: "postings st headID = Some p" "known st p"
    and many: "\<not> en_inPlace en" "pre \<or> \<not> int (length (live st p)) < en_postingSizeLimit en"
    and km: "km = en_Kmeans en (map entryVector (entriesOf vis p))
       (filter (\<lambda>j. liveEntry (dy_versionMap st) (entriesOf vis p ! j)) [0 ..< length p div vis])"
    and one: "km_numClusters km \<le> 1" "km_indices km = l # ls" "l < length p div vis"
    and room: "roomy (dy_db st) b [vis]" "headID < b"
  shows "\<exists>st'. dy_Split en headID re pre st = Ret (Success, st') \<and> st_ok st'
    \<and> postings st' = (postings st)(headID \<mapsto> entriesOf vis p ! l)
    \<and> sizes st' = (sizes st)[nat headID := 1]
    \<and> dy_versionMap st' = dy_versionMap st \<and> dy_index st' = dy_index st \<and> dy_jobs st' = dy_jobs st"
proof -
  obtain js where js: "pst_live (dy_versionMap st) vis p = Ret js"
    "js = filter (\<lambda>j. liveEntry (dy_versionMap st) (entriesOf vis p ! j)) [0 ..< length p div vis]"
    "map (\<lambda>l. entriesOf vis p ! l) js = live st p"
    using live_positions [OF ok vis p(2)] by auto
  have n: "length js = length (live st p)" using js(3) by (metis length_map)
  have ev: "mapO (\<lambda>j. pst_vector vis p (j * vis)) [0 ..< length p div vis]
      = Ret (map (\<lambda>j. entryVector (entriesOf vis p ! j)) [0 ..< length p div vis])"
    by (rule mapO_Ret) (simp add: pst_vector_in vis)
  have mv: "map (\<lambda>j. entryVector (entriesOf vis p ! j)) [0 ..< length p div vis] = map entryVector (entriesOf vis p)"
    by (rule nth_equalityI) simp_all
  let ?e = "entriesOf vis p ! l"
  have le: "length ?e = vis" using one(3) entriesOf_width [of ?e vis p] by simp
  obtain ps where ps: "dy_UpdateSize headID 1 st = Ret (st\<lparr>dy_postingSizes := ps\<rparr>)"
    "st_ok (st\<lparr>dy_postingSizes := ps\<rparr>)" "intsOf ps = (sizes st)[nat headID := 1]"
    using UpdateSize_ok [OF ok h, of 1] by (auto simp: int32_ok_def)
  obtain db where db: "dy_Put en headID ?e (st\<lparr>dy_postingSizes := ps\<rparr>)
      = Ret (st\<lparr>dy_postingSizes := ps, dy_db := db\<rparr>)" "st_ok (st\<lparr>dy_postingSizes := ps, dy_db := db\<rparr>)"
      "view db = (postings st)(headID \<mapsto> ?e)"
    using Put_ok [OF ps(2), of b ?e "[]" headID] room h(1) unfolding le by (auto simp: postings_def)
  let ?st = "dy_endSplit headID (st\<lparr>dy_postingSizes := ps, dy_db := db\<rparr>)"
  have "dy_splitKeepOne en headID p (km_indices km) st = Ret (Success, ?st)"
    using one(2) pst_entry_in [OF one(3)] ps(1) db(1) by (simp add: dy_splitKeepOne_def)
  then have "dy_Split en headID re pre st = Ret (Success, ?st)"
    using get_posting [OF ok p(1)] js(1,2) many n ev mv one(1) km
    by (auto simp: dy_Split_def Let_def)
  moreover have "st_ok ?st" using db(2) by (simp add: st_ok_def dy_endSplit_def)
  ultimately show ?thesis using db(3) ps(3)
    by (intro exI [of _ ?st]) (simp add: dy_endSplit_def postings_def)
qed

section \<open>Two clusters\<close>

text \<open>What a cluster's head is: the split head again, or one added at the end of the head index.\<close>

definition headFor :: "('s, 'h) dynSearcher \<Rightarrow> ('s, 'h) dynSearcher \<Rightarrow> int \<Rightarrow> bool \<Rightarrow> int \<Rightarrow> bool \<Rightarrow> bool" where
  "headFor st st' headID same newHead same' \<longleftrightarrow>
     (newHead = headID \<and> \<not> same \<and> same' \<and> dy_index st' = dy_index st \<and> sizes st' = sizes st)
   \<or> (newHead = en_Num en (dy_index st) \<and> same' = same \<and> en_Num en (dy_index st') = newHead + 1
        \<and> gone (dy_index st') = gone (dy_index st) \<and> sizes st' = sizes st @ [- 1])"

definition frame :: "('s, 'h) dynSearcher \<Rightarrow> ('s, 'h) dynSearcher \<Rightarrow> bool" where
  "frame st st' \<longleftrightarrow> dy_versionMap st' = dy_versionMap st \<and> dy_splitList st' = dy_splitList st
     \<and> dy_mergeList st' = dy_mergeList st \<and> dy_jobs st' = dy_jobs st
     \<and> ds_maxRows (dy_postingSizes st') = ds_maxRows (dy_postingSizes st)
     \<and> room (dy_index st') = room (dy_index st) \<and> width (dy_index st') = width (dy_index st)"

lemma frame_trans: "frame a b \<Longrightarrow> frame b c \<Longrightarrow> frame a c"
  by (simp add: frame_def)

lemma clusterHead_ok:
  assumes ok: "st_ok st" and h: "0 \<le> headID" "headID < en_Num en (dy_index st)"
    and grow: "en_Num en (dy_index st) < room (dy_index st)"
      "en_Num en (dy_index st) < ds_maxRows (dy_postingSizes st)"
    and c: "length center = width (dy_index st)"
    and rm: "roomy (dy_db st) b (length list # ns)" "en_Num en (dy_index st) < b"
  shows "\<exists>newHead same' st'. dy_clusterHead en headID False center list same st = Ret (newHead, same', st')
    \<and> st_ok st' \<and> headFor st st' headID same newHead same' \<and> frame st st'
    \<and> postings st' = (postings st)(newHead \<mapsto> list) \<and> roomy (dy_db st') b ns"
proof -
  have hi: "hinv (dy_index st)" and n0: "0 < en_Num en (dy_index st)" using ok h by (simp_all add: st_ok_def)
  obtain hv where hv: "en_Sample en (dy_index st) headID = Ret hv"
    using hd.sample_law [OF hi h] by auto
  let ?near = "\<not> same \<and> en_Distance en center hv < en_Epsilon en"
  have near: "(if same then Ret False
      else andThen (en_Sample en (dy_index st) headID) (\<lambda>hv. Ret (en_Distance en center hv < en_Epsilon en))) = Ret ?near"
    using hv by simp
  show ?thesis
  proof (cases ?near)
    case True
    obtain db where db: "dy_Put en headID list st = Ret (st\<lparr>dy_db := db\<rparr>)" "st_ok (st\<lparr>dy_db := db\<rparr>)"
      "view db = (postings st)(headID \<mapsto> list)" "roomy db b ns"
      using Put_ok [OF ok rm(1) h(1)] h(2) rm(2) by auto
    let ?st = "st\<lparr>dy_db := db, dy_stat := (dy_stat st)\<lparr>m_theSameHeadNum := m_theSameHeadNum (dy_stat st) + 1\<rparr>\<rparr>"
    have "dy_clusterHead en headID False center list same st = Ret (headID, True, ?st)"
      unfolding dy_clusterHead_def near using True db(1) by simp
    moreover have "st_ok ?st" using db(2) by (simp add: st_ok_def)
    ultimately show ?thesis using db True
      by (intro exI [of _ headID] exI [of _ True] exI [of _ ?st]) (simp add: headFor_def frame_def postings_def)
  next
    case False
    let ?n = "en_Num en (dy_index st)"
    obtain h1 where h1: "en_AddId en (dy_index st) center = Ret (Success, Some ?n, h1)" "hinv h1"
      "vecs h1 = vecs (dy_index st) @ [center]" "gone h1 = gone (dy_index st)"
      "room h1 = room (dy_index st)" "width h1 = width (dy_index st)"
      using hd.add_law [OF hi _ n0 c] grow(1) by auto
    obtain db where db: "en_Put en (dy_db st) ?n list = Ret (Success, db)" "inv db"
      "view db = (postings st)(?n \<mapsto> list)" "roomy db b ns"
      using kv.put_roomy [of "dy_db st" b list ns ?n] ok rm n0 by (auto simp: st_ok_def postings_def)
    obtain ec h2 where h2: "en_AddIdx en h1 ?n (?n + 1) = Ret (ec, h2)" "hinv h2" "vecs h2 = vecs h1"
      "gone h2 = gone h1" "room h2 = room h1" "width h2 = width h1"
      using hd.addIdx_law [OF h1(2), of ?n "?n + 1"] by auto
    obtain ps where ps: "ps_AddBatch (dy_postingSizes st) 1 = Ret (Success, ps)" "ps_inv ps"
      "ps_GetPostingNum ps = ?n + 1" "ds_maxRows ps = ds_maxRows (dy_postingSizes st)" "intsOf ps = sizes st @ [- 1]"
      using ps_AddBatch_in [of "dy_postingSizes st" 1] ok grow(2) by (auto simp: st_ok_def)
    have n2: "en_Num en h2 = ?n + 1" using hd.num_law [OF h2(2)] hd.num_law [OF hi] h2(3) h1(3) by simp
    let ?st = "st\<lparr>dy_index := h2, dy_db := db, dy_postingSizes := ps\<rparr>"
    have "dy_clusterHead en headID False center list same st = Ret (?n, same, ?st)"
      unfolding dy_clusterHead_def near andThen.simps(1) if_not_P [OF False]
      using h1(1) db(1) h2(1) ps(1) by (simp add: dy_Put_def)
    moreover have "st_ok ?st" using ok db(2) h2(2) ps n2 by (simp add: st_ok_def)
    ultimately show ?thesis using db h1 h2 ps n2
      by (intro exI [of _ ?n] exI [of _ same] exI [of _ ?st]) (simp add: headFor_def frame_def postings_def)
  qed
qed

lemma headFor_bound:
  "headFor st st' headID same newHead same' \<Longrightarrow> 0 \<le> headID \<Longrightarrow> headID < en_Num en (dy_index st) \<Longrightarrow>
   0 \<le> newHead \<and> newHead < en_Num en (dy_index st') \<and> en_Num en (dy_index st) \<le> en_Num en (dy_index st')
     \<and> en_Num en (dy_index st') \<le> en_Num en (dy_index st) + 1"
  by (auto simp: headFor_def)

lemma cluster_ok:
  assumes ok: "st_ok (ca_st a)" and h: "0 \<le> headID" "headID < en_Num en (dy_index (ca_st a))"
    and grow: "en_Num en (dy_index (ca_st a)) < room (dy_index (ca_st a))"
      "en_Num en (dy_index (ca_st a)) < ds_maxRows (dy_postingSizes (ca_st a))"
    and km: "k < length (km_counts km)" "km_counts km ! k = cnt" "0 < cnt" "k < length (km_centers km)"
      "length (km_centers km ! k) = width (dy_index (ca_st a))" "int32_ok (int cnt)"
    and ids: "map (\<lambda>j. km_indices km ! (ca_first a + j)) [0 ..< cnt] = ls" "ca_first a + cnt \<le> length (km_indices km)"
      "\<forall>l \<in> set ls. l < length p div vis" and vis: "5 \<le> vis"
    and rm: "roomy (dy_db (ca_st a)) b (cnt * vis # ns)" "en_Num en (dy_index (ca_st a)) < b"
  shows "\<exists>newHead same' st1 st'. dy_cluster en headID False p km k a =
      Ret (a\<lparr>ca_st := st', ca_first := ca_first a + cnt, ca_same := same', ca_heads := ca_heads a @ [newHead],
             ca_lists := (ca_lists a)[k := concat (map (\<lambda>l. entriesOf vis p ! l) ls)]\<rparr>)
    \<and> st_ok st' \<and> headFor (ca_st a) st1 headID (ca_same a) newHead same' \<and> dy_index st' = dy_index st1
    \<and> sizes st' = (sizes st1)[nat newHead := int cnt] \<and> frame (ca_st a) st'
    \<and> postings st' = (postings (ca_st a))(newHead \<mapsto> concat (map (\<lambda>l. entriesOf vis p ! l) ls)) \<and> roomy (dy_db st') b ns"
proof -
  let ?es = "map (\<lambda>l. entriesOf vis p ! l) ls"
  have lls: "length ls = cnt" using ids(1) by auto
  have w: "\<forall>e \<in> set ?es. length e = vis" using ids(3) entriesOf_width [of _ vis p] by auto
  have len: "length (concat ?es) = cnt * vis" using length_concat_width [OF w] lls by simp
  have m: "mapO (\<lambda>j. nthO (km_indices km) (ca_first a + j)) [0 ..< cnt] = Ret ls"
    unfolding ids(1) [symmetric] by (rule mapO_Ret) (use ids(2) in simp)
  obtain newHead same' st1 where c: "dy_clusterHead en headID False (km_centers km ! k) (concat ?es) (ca_same a) (ca_st a)
      = Ret (newHead, same', st1)" "st_ok st1" "headFor (ca_st a) st1 headID (ca_same a) newHead same'"
      "frame (ca_st a) st1" "postings st1 = (postings (ca_st a))(newHead \<mapsto> concat ?es)" "roomy (dy_db st1) b ns"
    using clusterHead_ok [OF ok h grow km(5), of b "concat ?es" ns "ca_same a"] rm unfolding len by auto
  have nb: "0 \<le> newHead" "newHead < en_Num en (dy_index st1)" using headFor_bound [OF c(3) h] by simp_all
  obtain ps where ps: "dy_UpdateSize newHead (int cnt) st1 = Ret (st1\<lparr>dy_postingSizes := ps\<rparr>)"
    "st_ok (st1\<lparr>dy_postingSizes := ps\<rparr>)" "intsOf ps = (sizes st1)[nat newHead := int cnt]"
    "ds_maxRows ps = ds_maxRows (dy_postingSizes st1)"
    using UpdateSize_ok [OF c(2) nb km(6)] by auto
  let ?st = "st1\<lparr>dy_postingSizes := ps\<rparr>"
  have "dy_cluster en headID False p km k a =
      Ret (a\<lparr>ca_st := ?st, ca_first := ca_first a + cnt, ca_same := same', ca_heads := ca_heads a @ [newHead],
             ca_lists := (ca_lists a)[k := concat ?es]\<rparr>)"
    unfolding dy_cluster_def nthO_in [OF km(1)] nthO_in [OF km(4)] andThen.simps(1) km(2)
    using km(3) m pst_gather_in [OF ids(3)] c(1) ps(1) by simp
  moreover have "frame (ca_st a) ?st" using c(4) ps(4) by (simp add: frame_def)
  ultimately show ?thesis using ps c
    by (intro exI [of _ newHead] exI [of _ same'] exI [of _ st1] exI [of _ ?st]) (simp add: postings_def)
qed

definition splitDone ::
  "('s, 'h) dynSearcher \<Rightarrow> ('s, 'h) dynSearcher \<Rightarrow> int \<Rightarrow> int \<Rightarrow> int \<Rightarrow> bytes list \<Rightarrow> bytes list \<Rightarrow> bool" where
  "splitDone st st' headID h0 h1 es0 es1 \<longleftrightarrow> h0 \<noteq> h1
     \<and> postings st' = (postings st)(h0 \<mapsto> concat es0, h1 \<mapsto> concat es1)
     \<and> heads st' = heads st - {headID} \<union> {h0, h1}
     \<and> sizes st' ! nat h0 = int (length es0) \<and> sizes st' ! nat h1 = int (length es1)
     \<and> (headID \<notin> {h0, h1} \<longrightarrow> sizes st' ! nat headID = 0)
     \<and> (\<forall>k. 0 \<le> k \<and> k < en_Num en (dy_index st) \<and> k \<notin> {headID, h0, h1} \<longrightarrow> sizes st' ! nat k = sizes st ! nat k)"

lemma DeleteIndex_ok:
  assumes "st_ok st" "0 \<le> k" "k < en_Num en (dy_index st)"
  shows "\<exists>h. dy_DeleteIndex en k st = Ret (st\<lparr>dy_index := h\<rparr>) \<and> st_ok (st\<lparr>dy_index := h\<rparr>)
    \<and> en_Num en h = en_Num en (dy_index st) \<and> gone h = insert k (gone (dy_index st))
    \<and> room h = room (dy_index st) \<and> width h = width (dy_index st) \<and> vecs h = vecs (dy_index st)"
proof -
  have hi: "hinv (dy_index st)" using assms(1) by (simp add: st_ok_def)
  obtain ec h where h: "en_Del en (dy_index st) k = Ret (ec, h)" "hinv h" "vecs h = vecs (dy_index st)"
    "gone h = insert k (gone (dy_index st))" "room h = room (dy_index st)" "width h = width (dy_index st)"
    using hd.del_law [OF hi assms(2,3)] by auto
  have "en_Num en h = en_Num en (dy_index st)" using hd.num_law [OF h(2)] hd.num_law [OF hi] h(3) by simp
  then show ?thesis using h assms(1) by (intro exI [of _ h]) (simp add: dy_DeleteIndex_def st_ok_def)
qed

text \<open>The three ways the two clusters can fall: at most one of them keeps the old head.\<close>

lemma split_finish:
  assumes ok: "st_ok st" and h: "0 \<le> headID" "headID < en_Num en (dy_index st)" "headID \<notin> gone (dy_index st)"
    and u1: "st_ok u1" "headFor st t1 headID False h0 same0" "dy_index u1 = dy_index t1"
      "sizes u1 = (sizes t1)[nat h0 := int (length es0)]" "frame st u1" "postings u1 = (postings st)(h0 \<mapsto> concat es0)"
    and u2: "st_ok u2" "headFor u1 t2 headID same0 h1 same1" "dy_index u2 = dy_index t2"
      "sizes u2 = (sizes t2)[nat h1 := int (length es1)]" "frame u1 u2" "postings u2 = (postings u1)(h1 \<mapsto> concat es1)"
  shows "\<exists>t. (if same1 then Ret u2 else andThen (dy_DeleteIndex en headID u2) (dy_UpdateSize headID 0)) = Ret t
    \<and> st_ok t \<and> splitDone st t headID h0 h1 es0 es1 \<and> frame st t"
proof -
  let ?N = "en_Num en (dy_index st)" and ?S = "sizes st"
  have lS: "length ?S = nat ?N" "nat headID < length ?S" using length_sizes [OF ok] h by simp_all
  have nN: "nat ?N = length ?S" using lS by simp
  have fr: "frame st u2" using frame_trans [OF u1(5) u2(5)] .
  have gN: "k \<notin> gone (dy_index st)" if "?N \<le> k" for k
    using hd.gone_law [of "dy_index st" k] ok that by (auto simp: st_ok_def)
  have ph: "postings u2 = (postings st)(h0 \<mapsto> concat es0, h1 \<mapsto> concat es1)" using u1(6) u2(6) by simp
  have up: "(?S @ [x])[nat ?N := y] = ?S @ [y]" "(?S[i := w] @ [x])[nat ?N := y] = ?S[i := w] @ [y]"
      "(?S @ [x])[nat headID := y] = ?S[nat headID := y] @ [x]" "(?S @ [w, x])[nat (?N + 1) := y] = ?S @ [w, y]" for i w x y
  proof -
    show "(?S @ [x])[nat ?N := y] = ?S @ [y]" unfolding nN by (simp add: list_update_append)
    show "(?S[i := w] @ [x])[nat ?N := y] = ?S[i := w] @ [y]" unfolding nN by (simp add: list_update_append)
    show "(?S @ [x])[nat headID := y] = ?S[nat headID := y] @ [x]" using lS(2) by (simp add: list_update_append)
    have "nat (?N + 1) = Suc (length ?S)" using lS h by (simp add: nat_add_distrib)
    then show "(?S @ [w, x])[nat (?N + 1) := y] = ?S @ [w, y]" by (simp add: list_update_append)
  qed
  let ?a = "int (length es0)" and ?b = "int (length es1)"
  consider (old_new) "h0 = headID" "h1 = ?N" "same1" "en_Num en (dy_index u2) = ?N + 1"
        "gone (dy_index u2) = gone (dy_index st)" "sizes u2 = ?S[nat headID := ?a] @ [?b]"
    | (new_old) "h0 = ?N" "h1 = headID" "same1" "en_Num en (dy_index u2) = ?N + 1"
        "gone (dy_index u2) = gone (dy_index st)" "sizes u2 = ?S[nat headID := ?b] @ [?a]"
    | (new_new) "h0 = ?N" "h1 = ?N + 1" "\<not> same1" "en_Num en (dy_index u2) = ?N + 2"
        "gone (dy_index u2) = gone (dy_index st)" "sizes u2 = ?S @ [?a, ?b]"
  proof -
    have s2: "headID = h0 \<Longrightarrow> same0 \<Longrightarrow> dy_index t1 = dy_index st \<Longrightarrow> sizes t1 = ?S \<Longrightarrow> thesis"
      using old_new u1(3,4) u2(2,3,4) up unfolding headFor_def by auto
    have s3: "h0 = ?N \<Longrightarrow> \<not> same0 \<Longrightarrow> en_Num en (dy_index t1) = ?N + 1 \<Longrightarrow> gone (dy_index t1) = gone (dy_index st) \<Longrightarrow>
        sizes t1 = ?S @ [- 1] \<Longrightarrow> thesis"
      using new_old new_new u1(3,4) u2(2,3,4) up unfolding headFor_def by auto
    show thesis using u1(2) s2 s3 unfolding headFor_def by auto
  qed
  then show ?thesis
  proof cases
    case old_new
    have "splitDone st u2 headID h0 h1 es0 es1"
      unfolding splitDone_def ph old_new(6)
      using old_new h gN lS nN by (auto simp: heads_def nth_append nth_list_update eq_nat_nat_iff)
    then show ?thesis using u2(1) fr old_new by (intro exI [of _ u2]) simp
  next
    case new_old
    have "splitDone st u2 headID h0 h1 es0 es1"
      unfolding splitDone_def ph new_old(6)
      using new_old h gN lS nN by (auto simp: heads_def nth_append nth_list_update eq_nat_nat_iff)
    then show ?thesis using u2(1) fr new_old by (intro exI [of _ u2]) simp
  next
    case new_new
    have hu: "headID < en_Num en (dy_index u2)" using h(2) new_new(4) by simp
    obtain i where i: "dy_DeleteIndex en headID u2 = Ret (u2\<lparr>dy_index := i\<rparr>)" "st_ok (u2\<lparr>dy_index := i\<rparr>)"
      "en_Num en i = ?N + 2" "gone i = insert headID (gone (dy_index st))" "room i = room (dy_index u2)"
      "width i = width (dy_index u2)"
      using DeleteIndex_ok [OF u2(1) h(1) hu] new_new by auto
    obtain ps where ps: "dy_UpdateSize headID 0 (u2\<lparr>dy_index := i\<rparr>) = Ret (u2\<lparr>dy_index := i, dy_postingSizes := ps\<rparr>)"
      "st_ok (u2\<lparr>dy_index := i, dy_postingSizes := ps\<rparr>)" "intsOf ps = (sizes u2)[nat headID := 0]"
      "ds_maxRows ps = ds_maxRows (dy_postingSizes u2)"
      using UpdateSize_ok [OF i(2) h(1), of 0] h(2) i(3) by (auto simp: int32_ok_def)
    let ?t = "u2\<lparr>dy_index := i, dy_postingSizes := ps\<rparr>"
    have sz: "intsOf ps = ?S[nat headID := 0] @ [?a, ?b]"
      unfolding ps(3) new_new(6) using lS(2) by (simp add: list_update_append)
    have n1: "nat (?N + 1) = Suc (length ?S)" using lS h by (simp add: nat_add_distrib)
    have at: "intsOf ps ! nat ?N = ?a" "intsOf ps ! nat (?N + 1) = ?b" "intsOf ps ! nat headID = 0"
      unfolding sz n1 nN using lS(2) by (simp_all add: nth_append)
    have rest: "intsOf ps ! nat k = ?S ! nat k" if "0 \<le> k" "k < ?N" "k \<noteq> headID" for k
      unfolding sz using that lS h by (simp add: nth_append eq_nat_nat_iff nat_less_iff)
    have hds: "heads ?t = heads st - {headID} \<union> {h0, h1}"
    proof (rule set_eqI)
      fix k
      have "k < ?N + 2 \<longleftrightarrow> k < ?N \<or> k = ?N \<or> k = ?N + 1" by linarith
      moreover have "k \<in> heads ?t \<longleftrightarrow> 0 \<le> k \<and> k < ?N + 2 \<and> k \<noteq> headID \<and> k \<notin> gone (dy_index st)"
        unfolding heads_def by (simp add: i(3,4))
      moreover have "?N \<noteq> headID" "?N + 1 \<noteq> headID" "0 \<le> ?N" using h by linarith+
      ultimately show "k \<in> heads ?t \<longleftrightarrow> k \<in> heads st - {headID} \<union> {h0, h1}"
        using gN [of k] unfolding new_new(1,2) by (auto simp: heads_def)
    qed
    have "splitDone st ?t headID h0 h1 es0 es1"
      unfolding splitDone_def
    proof (intro conjI)
      show "postings ?t = (postings st)(h0 \<mapsto> concat es0, h1 \<mapsto> concat es1)" using ph by (simp add: postings_def)
    qed (use new_new(1,2) at rest hds in auto)
    moreover have "frame st ?t" using fr i(5,6) ps(4) by (simp add: frame_def)
    ultimately show ?thesis using i(1) ps(1,2) new_new(3) by (intro exI [of _ ?t]) simp
  qed
qed

lemma splitTwo_ok:
  assumes ok: "st_ok st" and vis: "5 \<le> vis" and h: "headID \<in> heads st"
    and ls: "\<forall>l \<in> set ls. l < length p div vis" and km: "km_ok km ls (width (dy_index st))"
    and small: "int32_ok (int (length ls))"
    and grow: "en_Num en (dy_index st) + 2 \<le> room (dy_index st)"
      "en_Num en (dy_index st) + 2 \<le> ds_maxRows (dy_postingSizes st)"
    and rm: "roomy (dy_db st) b (map (\<lambda>c. c * vis) (km_counts km))" "en_Num en (dy_index st) + 2 \<le> b"
  shows "\<exists>h0 h1 es0 es1 st3. dy_splitTwo en headID re False p km st =
      (if re then andThen (dy_CollectReAssign en headID [concat es0, concat es1] [h0, h1] st3) (\<lambda>(ec, st4). Ret (Success, st4))
       else Ret (Success, st3))
    \<and> st_ok st3 \<and> splitDone st st3 headID h0 h1 es0 es1
    \<and> mset es0 + mset es1 = mset (map (\<lambda>l. entriesOf vis p ! l) ls)
    \<and> dy_versionMap st3 = dy_versionMap st \<and> dy_jobs st3 = dy_jobs st
    \<and> dy_splitList st3 = dy_splitList st - {headID} \<and> dy_mergeList st3 = dy_mergeList st"
proof -
  let ?N = "en_Num en (dy_index st)"
  have hb: "0 \<le> headID" "headID < ?N" and hg: "headID \<notin> gone (dy_index st)" using h by (auto simp: heads_def)
  obtain c0 c1 where cs: "km_counts km = [c0, c1]" "0 < c0" "0 < c1" "c0 + c1 = length ls"
    using km by (auto simp: km_ok_def length_Suc_conv numeral_2_eq_2)
  obtain z0 z1 where zs: "km_centers km = [z0, z1]" "length z0 = width (dy_index st)" "length z1 = width (dy_index st)"
    using km by (auto simp: km_ok_def length_Suc_conv numeral_2_eq_2)
  let ?ids = "km_indices km"
  have mi: "mset ?ids = mset ls" using km by (simp add: km_ok_def)
  have li: "length ?ids = c0 + c1" using mi cs(4) by (metis size_mset)
  have si: "\<forall>l \<in> set ?ids. l < length p div vis" using mi ls by (metis set_mset_mset)
  define l0 where "l0 = take c0 ?ids"
  define l1 where "l1 = drop c0 ?ids"
  have i0: "map (\<lambda>j. ?ids ! (0 + j)) [0 ..< c0] = l0" using li by (auto simp: l0_def intro!: nth_equalityI)
  have i1: "map (\<lambda>j. ?ids ! (c0 + j)) [0 ..< c1] = l1" using li by (auto simp: l1_def intro!: nth_equalityI)
  have s0: "\<forall>l \<in> set l0. l < length p div vis" using si by (auto simp: l0_def dest: in_set_takeD)
  have s1: "\<forall>l \<in> set l1. l < length p div vis" using si by (auto simp: l1_def dest: in_set_dropD)
  define es0 where "es0 = map (\<lambda>l. entriesOf vis p ! l) l0"
  define es1 where "es1 = map (\<lambda>l. entriesOf vis p ! l) l1"
  have nes: "length es0 = c0" "length es1 = c1" using li by (simp_all add: es0_def es1_def l0_def l1_def)
  have "mset es0 + mset es1 = image_mset (\<lambda>l. entriesOf vis p ! l) (mset l0 + mset l1)" by (simp add: es0_def es1_def)
  also have "mset l0 + mset l1 = mset ?ids" by (simp add: l0_def l1_def flip: mset_append)
  finally have mes: "mset es0 + mset es1 = mset (map (\<lambda>l. entriesOf vis p ! l) ls)" using mi by simp
  have i32: "int32_ok (int c0)" "int32_ok (int c1)" using small cs(2-4) by (auto simp: int32_ok_def)
  have rm': "roomy (dy_db st) b [c0 * vis, c1 * vis]" using rm(1) cs(1) by simp
  let ?a0 = "\<lparr>ca_st = st, ca_first = 0, ca_same = False, ca_heads = [], ca_lists = [[], []]\<rparr> :: ('s, 'h) clusterAcc"
  obtain h0 same0 t1 u1 where c0: "dy_cluster en headID False p km 0 ?a0 =
      Ret (?a0\<lparr>ca_st := u1, ca_first := 0 + c0, ca_same := same0, ca_heads := [] @ [h0], ca_lists := [[], []][0 := concat es0]\<rparr>)"
    "st_ok u1" "headFor st t1 headID False h0 same0" "dy_index u1 = dy_index t1"
    "sizes u1 = (sizes t1)[nat h0 := int c0]" "frame st u1" "postings u1 = (postings st)(h0 \<mapsto> concat es0)"
    "roomy (dy_db u1) b [c1 * vis]"
    using cluster_ok [of ?a0 headID 0 km c0 l0 p b "[c1 * vis]"] ok hb grow cs zs i32(1) i0 li s0 vis rm' rm(2)
    unfolding es0_def by auto
  let ?a1 = "\<lparr>ca_st = u1, ca_first = c0, ca_same = same0, ca_heads = [h0], ca_lists = [concat es0, []]\<rparr> :: ('s, 'h) clusterAcc"
  have N1: "?N \<le> en_Num en (dy_index u1)" "en_Num en (dy_index u1) \<le> ?N + 1"
    using headFor_bound [OF c0(3) hb] c0(4) by simp_all
  have fr1: "room (dy_index u1) = room (dy_index st)" "width (dy_index u1) = width (dy_index st)"
    "ds_maxRows (dy_postingSizes u1) = ds_maxRows (dy_postingSizes st)" using c0(6) by (simp_all add: frame_def)
  obtain h1 same1 t2 u2 where c1: "dy_cluster en headID False p km 1 ?a1 =
      Ret (?a1\<lparr>ca_st := u2, ca_first := c0 + c1, ca_same := same1, ca_heads := [h0] @ [h1], ca_lists := [concat es0, []][1 := concat es1]\<rparr>)"
    "st_ok u2" "headFor u1 t2 headID same0 h1 same1" "dy_index u2 = dy_index t2"
    "sizes u2 = (sizes t2)[nat h1 := int c1]" "frame u1 u2" "postings u2 = (postings u1)(h1 \<mapsto> concat es1)"
    using cluster_ok [of ?a1 headID 1 km c1 l1 p b "[]"] c0(2,8) hb N1 fr1 grow cs zs i32(2) i1 li s1 vis rm(2)
    unfolding es1_def by auto
  let ?a2 = "\<lparr>ca_st = u2, ca_first = c0 + c1, ca_same = same1, ca_heads = [h0, h1], ca_lists = [concat es0, concat es1]\<rparr>
      :: ('s, 'h) clusterAcc"
  have fold: "foldO (dy_cluster en headID False p km) [0, 1] ?a0 = Ret ?a2"
    using c0(1) c1(1) by simp
  let ?fin = "\<lambda>t. (dy_endSplit headID t)\<lparr>dy_stat := (dy_stat t)\<lparr>m_splitNum := m_splitNum (dy_stat t) + 1\<rparr>\<rparr>"
  obtain t where t: "(if same1 then Ret u2 else andThen (dy_DeleteIndex en headID u2) (dy_UpdateSize headID 0)) = Ret t"
    "st_ok t" "splitDone st t headID h0 h1 es0 es1" "frame st t"
    using split_finish [OF ok hb hg c0(2-4) _ c0(6,7) c1(2-4) _ c1(6,7)] c0(5) c1(5) nes by auto
  have "dy_splitTwo en headID re False p km st =
      (if re then andThen (dy_CollectReAssign en headID [concat es0, concat es1] [h0, h1] (?fin t)) (\<lambda>(ec, st4). Ret (Success, st4))
       else Ret (Success, ?fin t))"
  proof -
    have e: "(if ca_same ?a2 then Ret (ca_st ?a2) else andThen (dy_DeleteIndex en headID (ca_st ?a2)) (dy_UpdateSize headID 0)) = Ret t"
      unfolding clusterAcc.simps by (rule t(1))
    show ?thesis unfolding dy_splitTwo_def fold andThen.simps(1) e by (simp add: Let_def dy_endSplit_def)
  qed
  moreover have "st_ok (?fin t)" using t(2) by (simp add: st_ok_def dy_endSplit_def)
  moreover have "splitDone st (?fin t) headID h0 h1 es0 es1"
    using t(3) by (simp add: splitDone_def dy_endSplit_def postings_def heads_def)
  ultimately show ?thesis using mes t(4)
    by (intro exI [of _ h0] exI [of _ h1] exI [of _ es0] exI [of _ es1] exI [of _ "?fin t"])
      (simp add: frame_def dy_endSplit_def)
qed

lemma Split_two:
  assumes ok: "st_ok st" and vis: "5 \<le> vis" and h: "headID \<in> heads st"
    and p: "postings st headID = Some p" "known st p"
    and many: "\<not> en_inPlace en" "\<not> int (length (live st p)) < en_postingSizeLimit en"
    and ls: "ls = filter (\<lambda>j. liveEntry (dy_versionMap st) (entriesOf vis p ! j)) [0 ..< length p div vis]"
    and km: "km = en_Kmeans en (map entryVector (entriesOf vis p)) ls" "1 < km_numClusters km"
      "km_ok km ls (width (dy_index st))"
    and small: "int32_ok (int (length (live st p)))"
    and grow: "en_Num en (dy_index st) + 2 \<le> room (dy_index st)"
      "en_Num en (dy_index st) + 2 \<le> ds_maxRows (dy_postingSizes st)"
    and rm: "roomy (dy_db st) b (map (\<lambda>c. c * vis) (km_counts km))" "en_Num en (dy_index st) + 2 \<le> b"
  shows "\<exists>h0 h1 es0 es1 st3. dy_Split en headID re False st =
      (if re then andThen (dy_CollectReAssign en headID [concat es0, concat es1] [h0, h1] st3) (\<lambda>(ec, st4). Ret (Success, st4))
       else Ret (Success, st3))
    \<and> st_ok st3 \<and> splitDone st st3 headID h0 h1 es0 es1
    \<and> mset es0 + mset es1 = mset (live st p)
    \<and> dy_versionMap st3 = dy_versionMap st \<and> dy_jobs st3 = dy_jobs st
    \<and> dy_splitList st3 = dy_splitList st - {headID} \<and> dy_mergeList st3 = dy_mergeList st"
proof -
  have js: "pst_live (dy_versionMap st) vis p = Ret ls" and lv: "map (\<lambda>l. entriesOf vis p ! l) ls = live st p"
    using live_positions [OF ok vis p(2)] ls by auto
  have n: "length ls = length (live st p)" using lv by (metis length_map)
  have "mapO (\<lambda>j. pst_vector vis p (j * vis)) [0 ..< length p div vis]
      = Ret (map (\<lambda>j. entryVector (entriesOf vis p ! j)) [0 ..< length p div vis])"
    by (rule mapO_Ret) (simp add: pst_vector_in vis)
  moreover have "map (\<lambda>j. entryVector (entriesOf vis p ! j)) [0 ..< length p div vis] = map entryVector (entriesOf vis p)"
    by (rule nth_equalityI) simp_all
  ultimately have "dy_Split en headID re False st = dy_splitTwo en headID re False p km st"
    using get_posting [OF ok p(1)] js many n km(1,2) by (simp add: dy_Split_def Let_def)
  moreover have "\<forall>l \<in> set ls. l < length p div vis" unfolding ls by auto
  moreover have "int32_ok (int (length ls))" using small n by simp
  ultimately show ?thesis using splitTwo_ok [OF ok vis h _ km(3) _ grow rm, of p re] lv by auto
qed

end

end
