(* ===== verification/DynReassign.thy ===== *)
theory DynReassign
  imports DynSplit
begin

text \<open>
  Which entries \<open>CollectReAssign\<close> queues after a split: the pure selection, and the proof that the loops of
  the code compute it and touch nothing but the job queue and the statistics.
\<close>

section \<open>The selection\<close>

text \<open>The entries picked from one posting, no vector twice.\<close>

fun picked :: "(bytes \<Rightarrow> bool) \<Rightarrow> int set \<Rightarrow> bytes list \<Rightarrow> bytes list" where
  "picked want queued [] = []"
| "picked want queued (e # es) =
     (if entryVID e \<notin> queued \<and> want e then e # picked want (insert (entryVID e) queued) es
      else picked want queued es)"

text \<open>The jobs for a list of heads with their postings, and the vectors queued at the end.\<close>

fun pickAll :: "(int \<Rightarrow> bytes \<Rightarrow> bool) \<Rightarrow> int set \<Rightarrow> (int \<times> bytes list) list \<Rightarrow> (bytes \<times> int) list" where
  "pickAll want queued [] = []"
| "pickAll want queued ((h, es) # rest) =
     (let s = picked (want h) queued es
      in map (\<lambda>e. (e, h)) s @ pickAll want (queued \<union> entryVID ` set s) rest)"

definition vidsOf :: "(bytes \<times> int) list \<Rightarrow> int set" where
  "vidsOf xs = (\<lambda>(e, h). entryVID e) ` set xs"

definition reassignJobs :: "(bytes \<times> int) list \<Rightarrow> dynJob list" where
  "reassignJobs xs = map (\<lambda>(e, h). ReassignAsyncJob e h) xs"

lemma picked_sub: "e \<in> set (picked want queued es) \<Longrightarrow> e \<in> set es \<and> want e \<and> entryVID e \<notin> queued"
  by (induction es arbitrary: queued) (auto split: if_splits)

lemma picked_distinct: "distinct (map entryVID (picked want queued es))"
  by (induction es arbitrary: queued) (auto dest: picked_sub)

lemma pickAll_sub:
  "(e, h) \<in> set (pickAll want queued ps) \<Longrightarrow> want h e \<and> entryVID e \<notin> queued \<and> (\<exists>es. (h, es) \<in> set ps \<and> e \<in> set es)"
proof (induction want queued ps rule: pickAll.induct)
  case (2 want queued h' es rest)
  then show ?case by (auto simp: Let_def dest: picked_sub)
qed simp

lemma disjoint_image: "\<forall>x \<in> B. f x \<notin> A \<Longrightarrow> A \<inter> f ` B = {}"
  by auto

lemma pickAll_distinct: "distinct (map (\<lambda>(e, h). entryVID e) (pickAll want queued ps))"
proof (induction want queued ps rule: pickAll.induct)
  case (2 want queued h' es rest)
  let ?s = "picked (want h') queued es"
  have "distinct (map (\<lambda>(e, h). entryVID e) (map (\<lambda>e. (e, h')) ?s))"
    using picked_distinct [of "want h'" queued es] by (simp add: comp_def)
  moreover have "\<forall>x \<in> set (pickAll want (queued \<union> entryVID ` set ?s) rest). (\<lambda>(e, h). entryVID e) x \<notin> entryVID ` set ?s"
    by (auto dest!: pickAll_sub)
  then have "entryVID ` set ?s \<inter> (\<lambda>(e, h). entryVID e) ` set (pickAll want (queued \<union> entryVID ` set ?s) rest) = {}"
    by (rule disjoint_image)
  ultimately show ?case using 2 by (simp add: Let_def image_image comp_def)
qed simp

lemma picked_append:
  "picked want queued (es @ fs) = picked want queued es @ picked want (queued \<union> entryVID ` set (picked want queued es)) fs"
  by (induction es arbitrary: queued) (auto simp: insert_commute Un_commute)

text \<open>The first vectors a posting offers are never missed.\<close>

lemma picked_complete:
  "e \<in> set es \<Longrightarrow> want e \<Longrightarrow> entryVID e \<in> queued \<union> entryVID ` set (picked want queued es)"
  by (induction es arbitrary: queued) auto

section \<open>The loops\<close>

context dyn_searcher
begin

definition vec :: "('s, 'h) dynSearcher \<Rightarrow> int \<Rightarrow> bytes" where
  "vec st k = vecs (dy_index st) ! nat k"

definition isHead :: "('s, 'h) dynSearcher \<Rightarrow> int \<Rightarrow> bool" where
  "isHead st k \<longleftrightarrow> 0 \<le> k \<and> k < en_Num en (dy_index st)"

text \<open>The reassignment criterion for an entry of a posting under head \<open>h\<close>.\<close>

definition wants :: "('s, 'h) dynSearcher \<Rightarrow> int list \<Rightarrow> int \<Rightarrow> bool \<Rightarrow> int \<Rightarrow> bytes \<Rightarrow> bool" where
  "wants st newHeads headID isIn h e \<longleftrightarrow> liveEntry (dy_versionMap st) e \<and>
     (let v = entryVector e; toOld = en_Distance en v (vec st headID); toCur = en_Distance en (vec st h) v
      in if isIn then toOld < toCur
         else let d1 = en_Distance en v (vec st (newHeads ! 0)); d2 = en_Distance en v (vec st (newHeads ! 1))
              in \<not> (toOld \<le> d1 \<and> toOld \<le> d2) \<and> \<not> (toCur \<le> d1 \<and> toCur \<le> d2))"

lemma sample_vec: "st_ok st \<Longrightarrow> isHead st k \<Longrightarrow> en_Sample en (dy_index st) k = Ret (vec st k)"
  using hd.sample_law [of "dy_index st" k] by (simp add: st_ok_def isHead_def vec_def)

text \<open>States that differ in the queue and the statistics only.\<close>

definition queuedTo :: "('s, 'h) dynSearcher \<Rightarrow> ('s, 'h) dynSearcher \<Rightarrow> dynJob list \<Rightarrow> bool" where
  "queuedTo st st' js \<longleftrightarrow> (\<exists>s. st' = st\<lparr>dy_jobs := dy_jobs st @ js, dy_stat := s\<rparr>)"

lemma queuedTo_refl: "queuedTo st st []"
  unfolding queuedTo_def by (intro exI [of _ "dy_stat st"]) simp

lemma queuedTo_trans: "queuedTo a b xs \<Longrightarrow> queuedTo b c ys \<Longrightarrow> queuedTo a c (xs @ ys)"
  by (auto simp: queuedTo_def)

lemma queuedTo_same:
  assumes "queuedTo st st' js"
  shows "st_ok st' = st_ok st" "dy_versionMap st' = dy_versionMap st" "dy_index st' = dy_index st"
    "dy_db st' = dy_db st" "dy_postingSizes st' = dy_postingSizes st" "dy_splitList st' = dy_splitList st"
    "dy_mergeList st' = dy_mergeList st" "dy_jobs st' = dy_jobs st @ js" "postings st' = postings st"
    "heads st' = heads st" "known st' p = known st p" "isHead st' k = isHead st k"
    "wants st' nh hid isIn h = wants st nh hid isIn h"
  using assms by (auto simp: queuedTo_def st_ok_def postings_def heads_def known_def isHead_def wants_def vec_def Let_def fun_eq_iff)

lemma CheckIsNeedReassign_ok:
  assumes "st_ok st" "isHead st headID" "isHead st h" "2 \<le> length newHeads" "isHead st (newHeads ! 0)"
    "isHead st (newHeads ! 1)"
  shows "dy_CheckIsNeedReassign en (dy_index st) newHeads (entryVector e) headID (en_Distance en (vec st h) (entryVector e)) isIn
    = Ret (let v = entryVector e; toOld = en_Distance en v (vec st headID); toCur = en_Distance en (vec st h) v
      in if isIn then toOld < toCur
         else let d1 = en_Distance en v (vec st (newHeads ! 0)); d2 = en_Distance en v (vec st (newHeads ! 1))
              in \<not> (toOld \<le> d1 \<and> toOld \<le> d2) \<and> \<not> (toCur \<le> d1 \<and> toCur \<le> d2))"
  using assms by (auto simp: dy_CheckIsNeedReassign_def sample_vec Let_def nthO_def not_le)

lemma collectEntry_ok:
  assumes ok: "st_ok st" and hs: "isHead st headID" "isHead st h" "2 \<le> length newHeads" "isHead st (newHeads ! 0)"
    "isHead st (newHeads ! 1)"
    and j: "j < length p div vis" "5 \<le> vis" and kn: "known st p"
  shows "\<exists>st'. dy_collectEntry en newHeads headID isIn h p j (queued, st)
      = Ret (queued \<union> entryVID ` set (picked (wants st newHeads headID isIn h) queued [entriesOf vis p ! j]), st')
    \<and> queuedTo st st' (map (\<lambda>e. ReassignAsyncJob e h) (picked (wants st newHeads headID isIn h) queued [entriesOf vis p ! j]))"
proof -
  let ?e = "entriesOf vis p ! j"
  have has: "vl_has (dy_versionMap st) (entryVID ?e)"
    using kn j(1) by (auto simp: known_def knownEntry_def)
  have vi: "vl_inv (dy_versionMap st)" using ok by (simp add: st_ok_def)
  note rd = pst_VID_in [OF j] pst_version_in [OF j] pst_vector_in [OF j] pst_entry_in [OF j(1)]
  let ?st1 = "st\<lparr>dy_stat := (dy_stat st)\<lparr>m_reAssignScanNum := m_reAssignScanNum (dy_stat st) + 1\<rparr>\<rparr>"
  have s1: "dy_index ?st1 = dy_index st" by simp
  consider "entryVID ?e \<in> queued" | "entryVID ?e \<notin> queued" "\<not> liveEntry (dy_versionMap st) ?e"
    | "entryVID ?e \<notin> queued" "liveEntry (dy_versionMap st) ?e" by blast
  then show ?thesis
  proof cases
    case 1
    then show ?thesis using rd by (intro exI [of _ st]) (simp add: dy_collectEntry_def Let_def queuedTo_refl)
  next
    case 2
    then show ?thesis using rd isStale_in [OF vi has]
      by (intro exI [of _ st]) (auto simp: dy_collectEntry_def Let_def queuedTo_refl liveEntry_def wants_def)
  next
    case 3
    have st: "isStale (dy_versionMap st) (entryVID ?e) (entryVersion ?e) = Ret False"
      unfolding isStale_in [OF vi has] using 3(2) by (auto simp: liveEntry_def)
    let ?w = "wants st newHeads headID isIn h ?e"
    have c: "dy_CheckIsNeedReassign en (dy_index st) newHeads (entryVector ?e) headID
        (en_Distance en (vec st h) (entryVector ?e)) isIn = Ret ?w"
      using CheckIsNeedReassign_ok [OF ok hs, of ?e isIn] 3(2) unfolding wants_def by simp
    have e: "dy_collectEntry en newHeads headID isIn h p j (queued, st)
        = (if ?w then Ret (insert (entryVID ?e) queued, dy_ReassignAsync ?e h ?st1) else Ret (queued, ?st1))"
      using rd st 3(1) sample_vec [OF ok hs(2)] c by (simp add: dy_collectEntry_def Let_def)
    show ?thesis
    proof (cases ?w)
      case True
      then show ?thesis using e 3(1)
        by (intro exI [of _ "dy_ReassignAsync ?e h ?st1"])
          (cases st, simp add: queuedTo_def dy_ReassignAsync_def)
    next
      case False
      then show ?thesis using e by (intro exI [of _ ?st1]) (auto simp: queuedTo_def intro!: exI [of _ "dy_stat ?st1"])
    qed
  qed
qed

lemma collectLoop_ok:
  assumes hs: "2 \<le> length newHeads" and vis: "5 \<le> vis"
  shows "set js \<subseteq> {..< length p div vis} \<Longrightarrow> st_ok st \<Longrightarrow> isHead st headID \<Longrightarrow> isHead st h \<Longrightarrow>
    isHead st (newHeads ! 0) \<Longrightarrow> isHead st (newHeads ! 1) \<Longrightarrow> known st p \<Longrightarrow>
    \<exists>st'. foldO (dy_collectEntry en newHeads headID isIn h p) js (queued, st)
      = Ret (queued \<union> entryVID ` set (picked (wants st newHeads headID isIn h) queued (map (\<lambda>j. entriesOf vis p ! j) js)), st')
    \<and> queuedTo st st' (map (\<lambda>e. ReassignAsyncJob e h)
          (picked (wants st newHeads headID isIn h) queued (map (\<lambda>j. entriesOf vis p ! j) js)))"
proof (induction js arbitrary: st queued)
  case (Cons j js)
  let ?w = "wants st newHeads headID isIn h" and ?e = "entriesOf vis p ! j"
  have j: "j < length p div vis" using Cons.prems(1) by simp
  from collectEntry_ok [OF Cons.prems(2-4) hs Cons.prems(5,6) j vis Cons.prems(7), of isIn queued]
  obtain st1 where st1: "dy_collectEntry en newHeads headID isIn h p j (queued, st)
      = Ret (queued \<union> entryVID ` set (picked ?w queued [?e]), st1)"
    "queuedTo st st1 (map (\<lambda>e. ReassignAsyncJob e h) (picked ?w queued [?e]))" by blast
  note same = queuedTo_same [OF st1(2)]
  let ?q = "queued \<union> entryVID ` set (picked ?w queued [?e])"
  have js: "set js \<subseteq> {..< length p div vis}" using Cons.prems(1) by simp
  obtain st2 where st2: "foldO (dy_collectEntry en newHeads headID isIn h p) js (?q, st1)
      = Ret (?q \<union> entryVID ` set (picked ?w ?q (map (\<lambda>j. entriesOf vis p ! j) js)), st2)"
    "queuedTo st1 st2 (map (\<lambda>e. ReassignAsyncJob e h) (picked ?w ?q (map (\<lambda>j. entriesOf vis p ! j) js)))"
    using Cons.IH [OF js, of st1 ?q] Cons.prems(2-7) unfolding same by auto
  have app: "picked ?w queued (map (\<lambda>j. entriesOf vis p ! j) (j # js))
      = picked ?w queued [?e] @ picked ?w ?q (map (\<lambda>j. entriesOf vis p ! j) js)"
    using picked_append [of ?w queued "[?e]" "map (\<lambda>j. entriesOf vis p ! j) js"] by simp
  show ?case
    using st1(1) st2(1) queuedTo_trans [OF st1(2) st2(2)] unfolding app
    by (intro exI [of _ st2]) (simp add: Un_assoc image_Un)
next
  case Nil
  then show ?case using queuedTo_refl by (intro exI [of _ st]) simp
qed

lemma map_nth_entries: "map (\<lambda>j. entriesOf vis p ! j) [0 ..< length p div vis] = entriesOf vis p"
  by (rule nth_equalityI) simp_all

lemma collectPosting_ok:
  assumes "2 \<le> length newHeads" "5 \<le> vis" "st_ok st" "isHead st headID" "isHead st h"
    "isHead st (newHeads ! 0)" "isHead st (newHeads ! 1)" "known st p"
  shows "\<exists>st'. dy_collectPosting en newHeads headID isIn h p (queued, st)
      = Ret (queued \<union> entryVID ` set (picked (wants st newHeads headID isIn h) queued (entriesOf vis p)), st')
    \<and> queuedTo st st' (map (\<lambda>e. ReassignAsyncJob e h) (picked (wants st newHeads headID isIn h) queued (entriesOf vis p)))"
  using collectLoop_ok [OF assms(1,2) _ assms(3-8), of "[0 ..< length p div vis]" isIn queued, unfolded map_nth_entries]
  by (simp add: dy_collectPosting_def atLeast0LessThan)

text \<open>One pass over postings with their heads, the loop index running over both lists.\<close>

definition collectPass ::
  "int list \<Rightarrow> int \<Rightarrow> bool \<Rightarrow> int list \<Rightarrow> bytes list \<Rightarrow> nat list \<Rightarrow> int set \<times> ('s, 'h) dynSearcher
     \<Rightarrow> (int set \<times> ('s, 'h) dynSearcher) outcome" where
  "collectPass newHeads headID isIn hs pls is acc =
     foldO (\<lambda>i acc. andThen (nthO hs i) (\<lambda>h. dy_collectPosting en newHeads headID isIn h (pls ! i) acc)) is acc"

lemma collectPass_ok:
  assumes nh: "2 \<le> length newHeads" and vis: "5 \<le> vis" and len: "length hs = length pls"
  shows "set is \<subseteq> {..< length pls} \<Longrightarrow> st_ok st \<Longrightarrow> isHead st headID \<Longrightarrow> \<forall>h \<in> set hs. isHead st h \<Longrightarrow>
    isHead st (newHeads ! 0) \<Longrightarrow> isHead st (newHeads ! 1) \<Longrightarrow> \<forall>p \<in> set pls. known st p \<Longrightarrow>
    \<exists>queued' st'. collectPass newHeads headID isIn hs pls is (queued, st) = Ret (queued', st')
    \<and> queued' = queued \<union> vidsOf (pickAll (wants st newHeads headID isIn) queued (map (\<lambda>i. (hs ! i, entriesOf vis (pls ! i))) is))
    \<and> queuedTo st st' (reassignJobs (pickAll (wants st newHeads headID isIn) queued (map (\<lambda>i. (hs ! i, entriesOf vis (pls ! i))) is)))"
proof (induction "is" arbitrary: st queued)
  case (Cons i "is")
  let ?w = "wants st newHeads headID isIn" and ?es = "entriesOf vis (pls ! i)"
  have i: "i < length pls" and is': "set is \<subseteq> {..< length pls}" using Cons.prems(1) by auto
  have hi: "isHead st (hs ! i)" "known st (pls ! i)" using Cons.prems(4,7) i len by auto
  let ?s = "picked (?w (hs ! i)) queued ?es"
  obtain st1 where st1: "dy_collectPosting en newHeads headID isIn (hs ! i) (pls ! i) (queued, st) = Ret (queued \<union> entryVID ` set ?s, st1)"
    "queuedTo st st1 (map (\<lambda>e. ReassignAsyncJob e (hs ! i)) ?s)"
    using collectPosting_ok [OF nh vis Cons.prems(2,3) hi(1) Cons.prems(5,6) hi(2), of isIn queued] by auto
  note same = queuedTo_same [OF st1(2)]
  let ?q = "queued \<union> entryVID ` set ?s" and ?rest = "map (\<lambda>i. (hs ! i, entriesOf vis (pls ! i))) is"
  have w: "wants st1 newHeads headID isIn = ?w" using same(13) by (intro ext) simp
  obtain q2 st2 where st2: "collectPass newHeads headID isIn hs pls is (?q, st1) = Ret (q2, st2)"
    "q2 = ?q \<union> vidsOf (pickAll ?w ?q ?rest)" "queuedTo st1 st2 (reassignJobs (pickAll ?w ?q ?rest))"
    using Cons.IH [OF is', of st1 ?q] Cons.prems(2-7) unfolding same w by auto
  have all: "pickAll ?w queued (map (\<lambda>i. (hs ! i, entriesOf vis (pls ! i))) (i # is))
      = map (\<lambda>e. (e, hs ! i)) ?s @ pickAll ?w ?q ?rest"
    by (simp add: Let_def)
  have v: "vidsOf (map (\<lambda>e. (e, hs ! i)) ?s @ pickAll ?w ?q ?rest) = entryVID ` set ?s \<union> vidsOf (pickAll ?w ?q ?rest)"
    by (force simp: vidsOf_def)
  have r: "reassignJobs (map (\<lambda>e. (e, hs ! i)) ?s @ pickAll ?w ?q ?rest)
      = map (\<lambda>e. ReassignAsyncJob e (hs ! i)) ?s @ reassignJobs (pickAll ?w ?q ?rest)"
    by (simp add: reassignJobs_def)
  have "collectPass newHeads headID isIn hs pls (i # is) (queued, st) = Ret (q2, st2)"
    using st1(1) st2(1) i len by (simp add: collectPass_def)
  then show ?case
    using st2(2) queuedTo_trans [OF st1(2) st2(3)] unfolding all v r by (intro exI conjI) auto
next
  case Nil
  then show ?case using queuedTo_refl by (simp add: collectPass_def vidsOf_def reassignJobs_def)
qed

lemma collectPass_zip:
  assumes "2 \<le> length newHeads" "5 \<le> vis" "length hs = length pls" "st_ok st" "isHead st headID"
    "\<forall>h \<in> set hs. isHead st h" "isHead st (newHeads ! 0)" "isHead st (newHeads ! 1)" "\<forall>p \<in> set pls. known st p"
    and z: "z = pickAll (wants st newHeads headID isIn) queued (zip hs (map (entriesOf vis) pls))"
  shows "\<exists>st'. collectPass newHeads headID isIn hs pls [0 ..< length pls] (queued, st) = Ret (queued \<union> vidsOf z, st')
    \<and> queuedTo st st' (reassignJobs z)"
proof -
  have m: "map (\<lambda>i. (hs ! i, entriesOf vis (pls ! i))) [0 ..< length pls] = zip hs (map (entriesOf vis) pls)"
    using assms(3) by (intro nth_equalityI) simp_all
  have "set [0 ..< length pls] \<subseteq> {..< length pls}" by auto
  from collectPass_ok [OF assms(1-3) this assms(4-9), of isIn queued]
  show ?thesis unfolding m z by blast
qed

text \<open>All of \<open>CollectReAssign\<close>.\<close>

definition nearHeads :: "('s, 'h) dynSearcher \<Rightarrow> int \<Rightarrow> int list \<Rightarrow> int list" where
  "nearHeads st headID newHeads =
     (if en_reassignK en = 0 then []
      else nearbyOthers newHeads (en_Search en (dy_index st) (vec st headID) (en_reassignK en)))"

lemma CollectReAssign_ok:
  assumes ok: "st_ok st" and vis: "5 \<le> vis" and hid: "isHead st headID" "isHead st h0" "isHead st h1"
    and kn: "known st p0" "known st p1"
    and near: "list_all2 (\<lambda>k v. postings st k = Some v) (nearHeads st headID [h0, h1]) vs"
      "\<forall>k \<in> set (nearHeads st headID [h0, h1]). isHead st k" "\<forall>p \<in> set vs. known st p"
    and z1: "z1 = pickAll (wants st [h0, h1] headID True) {} [(h0, entriesOf vis p0), (h1, entriesOf vis p1)]"
    and z2: "z2 = pickAll (wants st [h0, h1] headID False) (vidsOf z1)
                (zip (nearHeads st headID [h0, h1]) (map (entriesOf vis) vs))"
  shows "\<exists>st'. dy_CollectReAssign en headID [p0, p1] [h0, h1] st = Ret (Success, st')
    \<and> queuedTo st st' (reassignJobs (z1 @ z2))"
proof -
  let ?nh = "[h0, h1]"
  have s2: "mapO (\<lambda>i. andThen (nthO ?nh i) (en_Sample en (dy_index st))) [0, 1] = Ret [vec st h0, vec st h1]"
    using sample_vec [OF ok hid(2)] sample_vec [OF ok hid(3)] by simp
  obtain st1 where st1: "collectPass ?nh headID True ?nh [p0, p1] [0 ..< length [p0, p1]] ({}, st) = Ret ({} \<union> vidsOf z1, st1)"
    "queuedTo st st1 (reassignJobs z1)"
    using collectPass_zip [of ?nh ?nh "[p0, p1]" st headID z1 True "{}"] ok vis hid kn z1 by auto
  note same = queuedTo_same [OF st1(2)]
  have vh: "vec st1 headID = vec st headID" using st1(2) by (auto simp: queuedTo_def vec_def)
  note sv = sample_vec [OF ok hid(1)]
  show ?thesis
  proof (cases "en_reassignK en = 0")
    case True
    then have "z2 = []" using z2 near(1) by (simp add: nearHeads_def)
    then show ?thesis using st1 sv s2 True
      by (intro exI [of _ st1]) (simp add: dy_CollectReAssign_def collectPass_def)
  next
    case False
    let ?near = "nearbyOthers ?nh (en_Search en (dy_index st1) (vec st headID) (en_reassignK en))"
    have nr: "?near = nearHeads st headID ?nh" using False same(3) by (simp add: nearHeads_def)
    have multi: "en_MultiGet en (dy_db st1) ?near = Ret (Success, vs)"
      using kv.multi_law [of "dy_db st" "nearHeads st headID ?nh" vs] near(1) ok nr same(4)
      by (simp add: st_ok_def postings_def)
    have l: "length (nearHeads st headID ?nh) = length vs" using near(1) by (rule list_all2_lengthD)
    have w: "wants st1 ?nh headID False = wants st ?nh headID False" using same(13) by (intro ext) simp
    have "\<exists>st'. collectPass ?nh headID False (nearHeads st headID ?nh) vs [0 ..< length vs] (vidsOf z1, st1)
        = Ret (vidsOf z1 \<union> vidsOf z2, st') \<and> queuedTo st1 st' (reassignJobs z2)"
      by (rule collectPass_zip) (use ok vis hid near l z2 in \<open>auto simp: same w\<close>)
    then obtain st2 where st2: "collectPass ?nh headID False (nearHeads st headID ?nh) vs [0 ..< length vs] (vidsOf z1, st1)
        = Ret (vidsOf z1 \<union> vidsOf z2, st2)" "queuedTo st1 st2 (reassignJobs z2)" by auto
    have "dy_CollectReAssign en headID [p0, p1] ?nh st = Ret (Success, st2)"
      using st1(1) st2(1) sv s2 False multi nr
      by (simp add: dy_CollectReAssign_def collectPass_def Let_def del: foldO.simps)
    moreover have "queuedTo st st2 (reassignJobs (z1 @ z2))"
      using queuedTo_trans [OF st1(2) st2(2)] by (simp add: reassignJobs_def)
    ultimately show ?thesis by blast
  qed
qed

end

end
