(* ===== verification/DynUpdate.thy ===== *)
theory DynUpdate
  imports DynReassign
begin

text \<open>
  \<open>Append\<close>, \<open>RNGSelection\<close>, \<open>Reassign\<close> and \<open>AddIndex\<close> over any store and head index with the laws of
  \<open>dyn_searcher\<close>.
\<close>

section \<open>RNGSelection\<close>

text \<open>
  The selection as a pure function: candidates in order, each accepted unless an accepted one is, scaled,
  at most as far from it as the query is; it stops at an empty candidate, at \<open>replicaCount\<close> of them, or when
  it accepts \<open>checkHeadID\<close>.
\<close>

definition rngFar :: "(int \<Rightarrow> int \<Rightarrow> 'f) \<Rightarrow> ('f \<Rightarrow> 'f) \<Rightarrow> 'f :: linorder basicResult \<Rightarrow> 'f edge list \<Rightarrow> bool" where
  "rngFar dist scale r sel \<longleftrightarrow> (\<forall>e \<in> set sel. Dist r < scale (dist (VID r) (egNode e)))"

fun rngSelect ::
  "(int \<Rightarrow> int \<Rightarrow> 'f) \<Rightarrow> ('f \<Rightarrow> 'f) \<Rightarrow> nat \<Rightarrow> int \<Rightarrow> int \<Rightarrow> ('f :: linorder) basicResult list \<Rightarrow> 'f edge list \<Rightarrow> bool \<times> 'f edge list" where
  "rngSelect dist scale k fullID checkID [] sel = (True, sel)"
| "rngSelect dist scale k fullID checkID (r # rs) sel =
     (if \<not> length sel < k \<or> VID r = - 1 then (True, sel)
      else if \<not> rngFar dist scale r sel then rngSelect dist scale k fullID checkID rs sel
      else if VID r = checkID then (False, sel)
      else rngSelect dist scale k fullID checkID rs (sel @ [Edge (VID r) fullID (Dist r)]))"

text \<open>What the candidates that can be selected are: those before the first empty one.\<close>

definition candidates :: "'f basicResult list \<Rightarrow> 'f basicResult list" where
  "candidates rs = takeWhile (\<lambda>r. VID r \<noteq> - 1) rs"

definition rngPairwise :: "(int \<Rightarrow> int \<Rightarrow> 'f) \<Rightarrow> ('f \<Rightarrow> 'f) \<Rightarrow> ('f :: linorder) edge list \<Rightarrow> bool" where
  "rngPairwise dist scale sel \<longleftrightarrow>
     (\<forall>j < length sel. \<forall>i < j. egDistance (sel ! j) < scale (dist (egNode (sel ! j)) (egNode (sel ! i))))"

lemma rngPairwise_snoc:
  "rngPairwise dist scale sel \<Longrightarrow> rngFar dist scale r sel \<Longrightarrow> rngPairwise dist scale (sel @ [Edge (VID r) f (Dist r)])"
  by (auto simp: rngPairwise_def rngFar_def nth_append less_Suc_eq)

lemma rngSelect_bound: "length sel \<le> k \<Longrightarrow> length (snd (rngSelect dist scale k f c rs sel)) \<le> k"
  by (induction rs arbitrary: sel) auto

lemma rngSelect_pairwise:
  "rngPairwise dist scale sel \<Longrightarrow> rngPairwise dist scale (snd (rngSelect dist scale k f c rs sel))"
  by (induction rs arbitrary: sel) (auto intro: rngPairwise_snoc)

lemma rngSelect_extends: "\<exists>new. snd (rngSelect dist scale k f c rs sel) = sel @ new"
proof (induction rs arbitrary: sel)
  case (Cons r rs)
  have "\<exists>new. snd (rngSelect dist scale k f c rs (sel @ [Edge (VID r) f (Dist r)])) = sel @ new"
    using Cons [of "sel @ [Edge (VID r) f (Dist r)]"] by auto
  then show ?case using Cons [of sel] by auto
qed simp

lemma rngSelect_from:
  "e \<in> set (snd (rngSelect dist scale k f c rs sel)) \<Longrightarrow> e \<in> set sel \<or>
    (egTonode e = f \<and> egNode e \<noteq> c \<and> BasicResult (egNode e) (egDistance e) \<in> set (candidates rs))"
proof (induction rs arbitrary: sel)
  case (Cons r rs)
  let ?E = "Edge (VID r) f (Dist r)"
  let ?P = "\<lambda>rs. egTonode e = f \<and> egNode e \<noteq> c \<and> BasicResult (egNode e) (egDistance e) \<in> set (candidates rs)"
  show ?case
  proof (cases "\<not> length sel < k \<or> VID r = - 1 \<or> (rngFar dist scale r sel \<and> VID r = c)")
    case True
    then show ?thesis using Cons.prems by (auto split: if_splits)
  next
    case False
    then have cand: "candidates (r # rs) = r # candidates rs" by (simp add: candidates_def)
    show ?thesis
    proof (cases "rngFar dist scale r sel")
      case True
      then have "e \<in> set (sel @ [?E]) \<or> ?P rs" using False Cons.IH [of "sel @ [?E]"] Cons.prems by simp
      then show ?thesis using True False cand by auto
    next
      case no: False
      then have "e \<in> set sel \<or> ?P rs" using False Cons.IH [of sel] Cons.prems by simp
      then show ?thesis using cand by auto
    qed
  qed
qed simp

text \<open>Every candidate passed over lost to one that was selected.\<close>

lemma rngSelect_maximal:
  "r \<in> set (candidates rs) \<Longrightarrow> fst (rngSelect dist scale k f c rs sel) \<Longrightarrow>
   length (snd (rngSelect dist scale k f c rs sel)) < k \<Longrightarrow>
   Edge (VID r) f (Dist r) \<in> set (snd (rngSelect dist scale k f c rs sel))
     \<or> \<not> rngFar dist scale r (snd (rngSelect dist scale k f c rs sel))"
proof (induction rs arbitrary: sel)
  case (Cons x rs)
  let ?e = "Edge (VID x) f (Dist x)"
  obtain n1 n2 where ext: "snd (rngSelect dist scale k f c rs sel) = sel @ n1"
      "snd (rngSelect dist scale k f c rs (sel @ [?e])) = (sel @ [?e]) @ n2"
    using rngSelect_extends by metis
  show ?case using Cons.prems Cons.IH [of sel] Cons.IH [of "sel @ [?e]"] ext
    by (auto simp: candidates_def rngFar_def split: if_splits)
qed (simp add: candidates_def)

context dyn_searcher
begin

definition headDist :: "('s, 'h) dynSearcher \<Rightarrow> int \<Rightarrow> int \<Rightarrow> 'f" where
  "headDist st a b = en_Distance en (vec st a) (vec st b)"

definition goodResults :: "('s, 'h) dynSearcher \<Rightarrow> 'f basicResult list \<Rightarrow> bool" where
  "goodResults st rs \<longleftrightarrow> (\<forall>r \<in> set (candidates rs). isHead st (VID r))"

lemma rngRejects_ok:
  "st_ok st \<Longrightarrow> isHead st (VID r) \<Longrightarrow> \<forall>e \<in> set sel. isHead st (egNode e) \<Longrightarrow>
   rngRejects en (dy_index st) r sel = Ret (\<not> rngFar (headDist st) (en_rngScale en) r sel)"
  by (induction sel) (auto simp: sample_vec rngFar_def headDist_def)

lemma rngLoop_ok:
  "st_ok st \<Longrightarrow> goodResults st rs \<Longrightarrow> \<forall>e \<in> set sel. isHead st (egNode e) \<Longrightarrow>
   dy_rngLoop en (dy_index st) fullID checkID rs sel
     = Ret (rngSelect (headDist st) (en_rngScale en) (en_replicaCount en) fullID checkID rs sel)"
proof (induction rs arbitrary: sel)
  case (Cons r rs)
  show ?case
  proof (cases "\<not> length sel < en_replicaCount en \<or> VID r = - 1")
    case False
    then have h: "isHead st (VID r)" "goodResults st rs" using Cons.prems(2) by (auto simp: goodResults_def candidates_def)
    show ?thesis using False Cons.IH [OF Cons.prems(1) h(2)] Cons.prems(3) h(1) rngRejects_ok [OF Cons.prems(1) h(1) Cons.prems(3)]
      by simp
  qed auto
qed simp

lemma RNGSelection_ok:
  assumes "st_ok st" "goodResults st (en_Search en (dy_index st) q (en_internalResultNum en))"
  shows "dy_RNGSelection en (dy_index st) q fullID checkID
    = Ret (rngSelect (headDist st) (en_rngScale en) (en_replicaCount en) fullID checkID
        (en_Search en (dy_index st) q (en_internalResultNum en)) [])"
  using rngLoop_ok [OF assms] by (simp add: dy_RNGSelection_def)

section \<open>Append\<close>

lemma Append_present:
  assumes ok: "st_ok st" and h: "headID \<in> heads st" and p: "postings st headID = Some p"
    and can: "canMerge (dy_db st) headID q" and sz: "int32_ok (sizes st ! nat headID + int n)"
  shows "\<exists>db ps. en_Merge en (dy_db st) headID q = Ret (Success, db) \<and> ps_IncSize (dy_postingSizes st) headID (int n) = Ret ps
    \<and> st_ok (st\<lparr>dy_db := db, dy_postingSizes := ps\<rparr>)
    \<and> view db = (postings st)(headID \<mapsto> p @ q) \<and> intsOf ps = (sizes st)[nat headID := sizes st ! nat headID + int n]
    \<and> ps_GetSize ps headID = Ret (sizes st ! nat headID + int n)"
proof -
  have hb: "0 \<le> headID" "headID < en_Num en (dy_index st)" using heads_bound [OF h] by simp_all
  obtain db where db: "en_Merge en (dy_db st) headID q = Ret (Success, db)" "inv db" "view db = (postings st)(headID \<mapsto> p @ q)"
    using kv.merge_law [of "dy_db st" headID p q] ok p can by (auto simp: st_ok_def postings_def)
  obtain ps where ps: "ps_IncSize (dy_postingSizes st) headID (int n) = Ret ps" "ps_inv ps"
    "ps_GetPostingNum ps = ps_GetPostingNum (dy_postingSizes st)"
    "intsOf ps = (sizes st)[nat headID := sizes st ! nat headID + int n]"
    using ps_IncSize_in [of "dy_postingSizes st" headID "int n"] ok hb sz by (auto simp: st_ok_def ps_has_def)
  have "ps_has ps headID" using ps(3) ok hb by (simp add: st_ok_def ps_has_def)
  then have "ps_GetSize ps headID = Ret (intsOf ps ! nat headID)" by (rule ps_GetSize_in [OF ps(2)])
  moreover have "nat headID < length (sizes st)" using length_sizes [OF ok] hb by simp
  ultimately show ?thesis using db ps ok by (intro exI [of _ db] exI [of _ ps]) (simp add: st_ok_def)
qed

definition appended :: "('s, 'h) dynSearcher \<Rightarrow> ('s, 'h) dynSearcher \<Rightarrow> int \<Rightarrow> nat \<Rightarrow> bytes \<Rightarrow> bytes \<Rightarrow> bool" where
  "appended st st' headID n p q \<longleftrightarrow> st_ok st' \<and> en_Merge en (dy_db st) headID q = Ret (Success, dy_db st') \<and> postings st' = (postings st)(headID \<mapsto> p @ q)
     \<and> sizes st' = (sizes st)[nat headID := sizes st ! nat headID + int n]
     \<and> dy_index st' = dy_index st \<and> dy_versionMap st' = dy_versionMap st \<and> dy_mergeList st' = dy_mergeList st"

lemma Append_async:
  assumes ok: "st_ok st" and h: "headID \<in> heads st" and p: "postings st headID = Some p"
    and can: "canMerge (dy_db st) headID q" and sz: "int32_ok (sizes st ! nat headID + int n)"
  shows "\<exists>st'. dy_Append en headID n q 0 st = Ret (Success, st') \<and> appended st st' headID n p q
    \<and> (if en_postingSizeLimit en < sizes st ! nat headID + int n \<and> headID \<notin> dy_splitList st
       then dy_jobs st' = dy_jobs st @ [SplitAsyncJob headID (en_disableReassign en)] \<and> dy_splitList st' = insert headID (dy_splitList st)
       else dy_jobs st' = dy_jobs st \<and> dy_splitList st' = dy_splitList st)"
proof -
  obtain db ps where d: "en_Merge en (dy_db st) headID q = Ret (Success, db)" "ps_IncSize (dy_postingSizes st) headID (int n) = Ret ps"
    "st_ok (st\<lparr>dy_db := db, dy_postingSizes := ps\<rparr>)" "view db = (postings st)(headID \<mapsto> p @ q)"
    "intsOf ps = (sizes st)[nat headID := sizes st ! nat headID + int n]"
    "ps_GetSize ps headID = Ret (sizes st ! nat headID + int n)"
    using Append_present [OF assms] by auto
  let ?t = "st\<lparr>dy_db := db, dy_postingSizes := ps\<rparr>"
  let ?u = "if en_postingSizeLimit en < sizes st ! nat headID + int n then dy_SplitAsync en headID ?t else ?t"
  let ?st = "?u\<lparr>dy_stat := (dy_stat ?u)\<lparr>m_appendTaskNum := m_appendTaskNum (dy_stat ?u) + 1\<rparr>\<rparr>"
  have "dy_Append en headID n q 0 st = Ret (Success, ?st)"
    using contain_heads [OF ok, of headID] h d(1,2,6) by (simp add: dy_Append_def Let_def)
  then show ?thesis using d
    by (intro exI [of _ ?st]) (auto simp: appended_def st_ok_def postings_def dy_SplitAsync_def)
qed

lemma Append_sync_small:
  assumes ok: "st_ok st" and h: "headID \<in> heads st" and p: "postings st headID = Some p"
    and can: "canMerge (dy_db st) headID q" and sz: "int32_ok (sizes st ! nat headID + int n)"
    and t: "th \<noteq> 0" "sizes st ! nat headID + int n \<le> en_postingSizeLimit en + th"
  shows "\<exists>st'. dy_Append en headID n q th st = Ret (Success, st') \<and> appended st st' headID n p q
    \<and> dy_jobs st' = dy_jobs st \<and> dy_splitList st' = dy_splitList st"
proof -
  obtain db ps where d: "en_Merge en (dy_db st) headID q = Ret (Success, db)" "ps_IncSize (dy_postingSizes st) headID (int n) = Ret ps"
    "st_ok (st\<lparr>dy_db := db, dy_postingSizes := ps\<rparr>)" "view db = (postings st)(headID \<mapsto> p @ q)"
    "intsOf ps = (sizes st)[nat headID := sizes st ! nat headID + int n]"
    "ps_GetSize ps headID = Ret (sizes st ! nat headID + int n)"
    using Append_present [OF ok h p can sz] by auto
  have "dy_Append en headID n q th st = Ret (Success, st\<lparr>dy_db := db, dy_postingSizes := ps\<rparr>)"
    using contain_heads [OF ok, of headID] h d(1,2,6) t by (simp add: dy_Append_def Let_def)
  then show ?thesis using d by (intro exI [of _ "st\<lparr>dy_db := db, dy_postingSizes := ps\<rparr>"]) (simp add: appended_def postings_def)
qed

text \<open>A head that is gone: entries whose version is the current one are queued, in order.\<close>

definition currentEntry :: "('s, 'h) dynSearcher \<Rightarrow> bytes \<Rightarrow> bool" where
  "currentEntry st e \<longleftrightarrow> versions (dy_versionMap st) ! nat (entryVID e) = entryVersion e"

lemma appendMissing_loop:
  assumes vis: "5 \<le> vis"
  shows "set js \<subseteq> {..< length q div vis} \<Longrightarrow> st_ok st \<Longrightarrow> known st q \<Longrightarrow>
    \<exists>st'. foldO (\<lambda>i st.
           andThen (pst_VID q (i * vis)) (\<lambda>vid.
           andThen (pst_version q (i * vis)) (\<lambda>version.
           andThen (pst_entry vis q i) (\<lambda>info.
           andThen (vl_GetVersion (dy_versionMap st) vid) (\<lambda>v.
             if v = version
             then Ret (dy_ReassignAsync info headID
                    (st\<lparr>dy_stat := (dy_stat st)\<lparr>m_headMiss := m_headMiss (dy_stat st) + 1\<rparr>\<rparr>))
             else Ret st))))) js st = Ret st'
    \<and> queuedTo st st' (map (\<lambda>e. ReassignAsyncJob e headID) (filter (currentEntry st) (map (\<lambda>j. entriesOf vis q ! j) js)))"
proof (induction js arbitrary: st)
  case (Cons j js)
  let ?e = "entriesOf vis q ! j"
  have j: "j < length q div vis" and js: "set js \<subseteq> {..< length q div vis}" using Cons.prems(1) by auto
  note rd = pst_VID_in [OF j vis] pst_version_in [OF j vis] pst_entry_in [OF j]
  have has: "vl_has (dy_versionMap st) (entryVID ?e)" using Cons.prems(3) j by (auto simp: known_def knownEntry_def)
  have v: "vl_GetVersion (dy_versionMap st) (entryVID ?e) = Ret (versions (dy_versionMap st) ! nat (entryVID ?e))"
    using Cons.prems(2) has by (simp add: st_ok_def vl_GetVersion_in)
  let ?st1 = "dy_ReassignAsync ?e headID (st\<lparr>dy_stat := (dy_stat st)\<lparr>m_headMiss := m_headMiss (dy_stat st) + 1\<rparr>\<rparr>)"
  have q1: "queuedTo st ?st1 [ReassignAsyncJob ?e headID]"
    unfolding queuedTo_def dy_ReassignAsync_def
    by (intro exI [of _ "(dy_stat st)\<lparr>m_headMiss := m_headMiss (dy_stat st) + 1\<rparr>"]) (cases st, simp)
  show ?case
  proof (cases "currentEntry st ?e")
    case True
    note same = queuedTo_same [OF q1]
    have c: "currentEntry ?st1 = currentEntry st" using same(2) by (simp add: currentEntry_def fun_eq_iff)
    have "st_ok ?st1" "known ?st1 q" using Cons.prems(2,3) same(1,11) by simp_all
    from Cons.IH [OF js this] show ?thesis
      using rd v True queuedTo_trans [OF q1] unfolding c by (auto simp: currentEntry_def)
  next
    case False
    then show ?thesis using Cons.IH [OF js Cons.prems(2,3)] rd v by (auto simp: currentEntry_def)
  qed
next
  case Nil
  then show ?case using queuedTo_refl by (intro exI [of _ st]) simp
qed

lemma Append_missing:
  assumes ok: "st_ok st" and vis: "5 \<le> vis" and h: "headID \<notin> heads st" and q: "length q = n * vis" "known st q"
  shows "\<exists>st'. dy_Append en headID n q th st = Ret (Undefined, st')
    \<and> queuedTo st st' (map (\<lambda>e. ReassignAsyncJob e headID) (filter (currentEntry st) (entriesOf vis q)))"
proof -
  have n: "length q div vis = n" using q(1) vis by simp
  have "set [0 ..< n] \<subseteq> {..< length q div vis}" using n by auto
  from appendMissing_loop [OF vis this ok q(2), of headID]
  have "\<exists>st'. dy_appendMissing en headID n q st = Ret (Undefined, st')
    \<and> queuedTo st st' (map (\<lambda>e. ReassignAsyncJob e headID) (filter (currentEntry st) (entriesOf vis q)))"
    unfolding dy_appendMissing_def Let_def using map_nth_entries [of q] n by auto
  then show ?thesis using contain_heads [OF ok, of headID] h by (simp add: dy_Append_def)
qed

section \<open>Appending to every selected head\<close>

text \<open>The postings and sizes after one entry was appended to each of some heads.\<close>

definition spread :: "('s, 'h) dynSearcher \<Rightarrow> ('s, 'h) dynSearcher \<Rightarrow> int set \<Rightarrow> bytes \<Rightarrow> bool" where
  "spread st st' hs q \<longleftrightarrow> st_ok st' \<and> dy_index st' = dy_index st \<and> dy_versionMap st' = dy_versionMap st
     \<and> (\<forall>k. postings st' k = (if k \<in> hs then map_option (\<lambda>p. p @ q) (postings st k) else postings st k))
     \<and> (\<forall>k \<in> heads st. sizes st' ! nat k = (if k \<in> hs then sizes st ! nat k + 1 else sizes st ! nat k))"

lemma spread_refl: "st_ok st \<Longrightarrow> spread st st {} q"
  by (simp add: spread_def)

lemma appended_heads: "appended st st' k n p q \<Longrightarrow> heads st' = heads st"
  by (simp add: appended_def heads_def)

lemma spread_step:
  assumes ok: "st_ok st" and a: "appended st st1 h 1 p q" "postings st h = Some p" "h \<in> heads st"
    and s: "spread st1 st2 hs q" "h \<notin> hs"
  shows "spread st st2 (insert h hs) q"
proof -
  have hb: "0 \<le> h" "h < en_Num en (dy_index st)" using heads_bound [OF a(3)] by simp_all
  have nl: "nat h < length (sizes st)" using length_sizes [OF ok] hb by simp
  have ne: "nat k \<noteq> nat h" if "k \<in> heads st" "k \<noteq> h" for k using heads_bound [OF that(1)] hb that(2) by auto
  show ?thesis
    unfolding spread_def
  proof (intro conjI allI ballI)
    show "st_ok st2" "dy_index st2 = dy_index st" "dy_versionMap st2 = dy_versionMap st"
      using s(1) a(1) by (simp_all add: spread_def appended_def)
  next
    fix k show "postings st2 k = (if k \<in> insert h hs then map_option (\<lambda>p. p @ q) (postings st k) else postings st k)"
      using s a(1,2) by (auto simp: spread_def appended_def)
  next
    fix k assume k: "k \<in> heads st"
    then have "k \<in> heads st1" using appended_heads [OF a(1)] by simp
    then have s2: "sizes st2 ! nat k = (if k \<in> hs then sizes st1 ! nat k + 1 else sizes st1 ! nat k)"
      using s(1) by (simp add: spread_def)
    have s1: "sizes st1 = (sizes st)[nat h := sizes st ! nat h + 1]" using a(1) by (simp add: appended_def)
    show "sizes st2 ! nat k = (if k \<in> insert h hs then sizes st ! nat k + 1 else sizes st ! nat k)"
    proof (cases "k = h")
      case True
      then show ?thesis using s2 s1 nl s(2) by simp
    next
      case False
      then show ?thesis using s2 s1 ne [OF k False] by simp
    qed
  qed
qed

abbreviation canAppend :: "bytes \<Rightarrow> int list \<Rightarrow> ('s, 'h) dynSearcher \<Rightarrow> bool" where
  "canAppend q hs st \<equiv> kvCanRun (kvCan view canPut canMerge) (kvDo (en_Put en) (en_Merge en) del)
     (map (\<lambda>h. KvMerge h q) hs) (dy_db st)"

lemma canAppend_Cons:
  assumes "st_ok st" "canAppend q (h # hs) st"
  shows "\<exists>p. postings st h = Some p \<and> canMerge (dy_db st) h q"
    "appended st st' h n p q \<Longrightarrow> canAppend q hs st'"
  using assms by (auto simp: postings_def appended_def)

lemma appendAll_ok:
  "st_ok st \<Longrightarrow> set (map egNode es) \<subseteq> heads st \<Longrightarrow> distinct (map egNode es) \<Longrightarrow> canAppend q (map egNode es) st \<Longrightarrow>
   \<forall>h \<in> set (map egNode es). int32_ok (sizes st ! nat h + 1) \<Longrightarrow>
   \<exists>st'. foldO (\<lambda>e st. andThen (dy_Append en (egNode e) 1 q 0 st) (\<lambda>(ec, st'). Ret st')) es st = Ret st'
     \<and> spread st st' (egNode ` set es) q"
proof (induction es arbitrary: st)
  case (Cons e es)
  have c: "canAppend q (egNode e # map egNode es) st" using Cons.prems(4) by simp
  obtain p where p: "postings st (egNode e) = Some p" "canMerge (dy_db st) (egNode e) q"
    using canAppend_Cons(1) [OF Cons.prems(1) c] by auto
  have h: "egNode e \<in> heads st" using Cons.prems(2) by simp
  obtain st1 where st1: "dy_Append en (egNode e) 1 q 0 st = Ret (Success, st1)" "appended st st1 (egNode e) 1 p q"
    using Append_async [OF Cons.prems(1) h p, of 1] Cons.prems(5) by auto
  have same: "st_ok st1" "heads st1 = heads st" "canAppend q (map egNode es) st1"
    using st1(2) appended_heads [OF st1(2)] canAppend_Cons(2) [OF Cons.prems(1) c st1(2)] by (simp_all add: appended_def)
  have "\<forall>h \<in> set (map egNode es). int32_ok (sizes st1 ! nat h + 1)"
  proof
    fix k assume k: "k \<in> set (map egNode es)"
    then have "k \<noteq> egNode e" using Cons.prems(3) by (metis distinct.simps(2) list.simps(9))
    moreover have "k \<in> heads st" using Cons.prems(2) k by (metis list.set_intros(2) list.simps(9) subsetD)
    ultimately have "nat k \<noteq> nat (egNode e)" using heads_bound h by (metis eq_nat_nat_iff)
    then show "int32_ok (sizes st1 ! nat k + 1)" using st1(2) Cons.prems(5) k by (auto simp: appended_def)
  qed
  then obtain st2 where st2: "foldO (\<lambda>e st. andThen (dy_Append en (egNode e) 1 q 0 st) (\<lambda>(ec, st'). Ret st')) es st1 = Ret st2"
    "spread st1 st2 (egNode ` set es) q"
    using Cons.IH [OF same(1) _ _ same(3)] Cons.prems(2,3) same(2) by auto
  have "spread st st2 (insert (egNode e) (egNode ` set es)) q"
    using spread_step [OF Cons.prems(1) st1(2) p(1) h st2(2)] Cons.prems(3) by auto
  then show ?case using st1(1) st2(1) by simp
qed (auto intro: spread_refl)

lemma reassignAppends_ok:
  "st_ok st \<Longrightarrow> set (map egNode es) \<subseteq> heads st \<Longrightarrow> distinct (map egNode es) \<Longrightarrow> canAppend q (map egNode es) st \<Longrightarrow>
   \<forall>h \<in> set (map egNode es). int32_ok (sizes st ! nat h + 1) \<and> sizes st ! nat h + 1 \<le> en_postingSizeLimit en + 3 \<Longrightarrow>
   vl_GetVersion (dy_versionMap st) vid = Ret version \<Longrightarrow>
   \<exists>st'. dy_reassignAppends en vid version q es st = Ret st' \<and> spread st st' (egNode ` set es) q
     \<and> dy_jobs st' = dy_jobs st"
proof (induction es arbitrary: st)
  case (Cons e es)
  have c: "canAppend q (egNode e # map egNode es) st" using Cons.prems(4) by simp
  obtain p where p: "postings st (egNode e) = Some p" "canMerge (dy_db st) (egNode e) q"
    using canAppend_Cons(1) [OF Cons.prems(1) c] by auto
  have h: "egNode e \<in> heads st" using Cons.prems(2) by simp
  obtain st1 where st1: "dy_Append en (egNode e) 1 q 3 st = Ret (Success, st1)" "appended st st1 (egNode e) 1 p q"
    "dy_jobs st1 = dy_jobs st"
    using Append_sync_small [OF Cons.prems(1) h p, of 1 3] Cons.prems(5) by auto
  have same: "st_ok st1" "heads st1 = heads st" "canAppend q (map egNode es) st1"
    using st1(2) appended_heads [OF st1(2)] canAppend_Cons(2) [OF Cons.prems(1) c st1(2)] by (simp_all add: appended_def)
  have "\<forall>h \<in> set (map egNode es). int32_ok (sizes st1 ! nat h + 1) \<and> sizes st1 ! nat h + 1 \<le> en_postingSizeLimit en + 3"
  proof
    fix k assume k: "k \<in> set (map egNode es)"
    then have "k \<noteq> egNode e" using Cons.prems(3) by (metis distinct.simps(2) list.simps(9))
    moreover have "k \<in> heads st" using Cons.prems(2) k by (metis list.set_intros(2) list.simps(9) subsetD)
    ultimately have "nat k \<noteq> nat (egNode e)" using heads_bound h by (metis eq_nat_nat_iff)
    then show "int32_ok (sizes st1 ! nat k + 1) \<and> sizes st1 ! nat k + 1 \<le> en_postingSizeLimit en + 3"
      using st1(2) Cons.prems(5) k by (auto simp: appended_def)
  qed
  moreover have "vl_GetVersion (dy_versionMap st1) vid = Ret version" using st1(2) Cons.prems(6) by (simp add: appended_def)
  ultimately obtain st2 where st2: "dy_reassignAppends en vid version q es st1 = Ret st2"
    "spread st1 st2 (egNode ` set es) q" "dy_jobs st2 = dy_jobs st1"
    using Cons.IH [OF same(1) _ _ same(3)] Cons.prems(2,3) same(2) by auto
  have "spread st st2 (insert (egNode e) (egNode ` set es)) q"
    using spread_step [OF Cons.prems(1) st1(2) p(1) h st2(2)] Cons.prems(3) by auto
  then show ?case using st1(1,3) st2(1,3) Cons.prems(6) by simp
qed (auto intro: spread_refl)

section \<open>AddIndex and Reassign\<close>

definition selects :: "('s, 'h) dynSearcher \<Rightarrow> bytes \<Rightarrow> int \<Rightarrow> int \<Rightarrow> bool \<times> 'f edge list" where
  "selects st q fullID checkID = rngSelect (headDist st) (en_rngScale en) (en_replicaCount en) fullID checkID
     (en_Search en (dy_index st) q (en_internalResultNum en)) []"

definition searchOk :: "('s, 'h) dynSearcher \<Rightarrow> bytes \<Rightarrow> bool" where
  "searchOk st q \<longleftrightarrow> goodResults st (en_Search en (dy_index st) q (en_internalResultNum en))"

lemma Serialize_ok:
  "length v = vis - 5 \<Longrightarrow> pst_Serialize vis vid version v = Ret (enc_int 4 vid @ version # v)"
  by (simp add: pst_Serialize_def slice_def metaDataSize_def)

lemma addVector_ok:
  assumes ok: "st_ok st" and s: "searchOk st v" and vid: "vl_has (dy_versionMap st) vid" and v: "length v = vis - 5"
    and hs: "hs = map egNode (snd (selects st v vid (- 1)))" "set hs \<subseteq> heads st" "distinct hs"
    and q: "q = enc_int 4 vid @ (versions (dy_versionMap st) ! nat vid) # v"
    and room: "canAppend q hs st" "\<forall>h \<in> set hs. int32_ok (sizes st ! nat h + 1)"
  shows "\<exists>st'. dy_addVector en vid v st = Ret st' \<and> spread st st' (set hs) q"
proof -
  let ?sel = "snd (selects st v vid (- 1))"
  obtain b where sel: "dy_RNGSelection en (dy_index st) v vid (- 1) = Ret (b, ?sel)"
    using RNGSelection_ok [OF ok, of v vid "- 1"] s by (metis prod.collapse searchOk_def selects_def)
  have vv: "vl_GetVersion (dy_versionMap st) vid = Ret (versions (dy_versionMap st) ! nat vid)"
    using ok vid by (simp add: st_ok_def vl_GetVersion_in)
  obtain st' where "foldO (\<lambda>e st. andThen (dy_Append en (egNode e) 1 q 0 st) (\<lambda>(ec, st'). Ret st')) ?sel st = Ret st'"
    "spread st st' (egNode ` set ?sel) q"
    using appendAll_ok [OF ok, of ?sel q] hs room by auto
  then show ?thesis using sel vv Serialize_ok [OF v] q hs(1) by (simp add: dy_addVector_def)
qed

lemma Reassign_stale:
  assumes ok: "st_ok st" and vis: "5 \<le> vis" "length info = vis" and has: "vl_has (dy_versionMap st) (entryVID info)"
    and stale: "\<not> liveEntry (dy_versionMap st) info"
  shows "dy_Reassign en info headPrev st = Ret st"
proof -
  have e: "entriesOf vis info ! 0 = info" "0 < length info div vis" using vis by (simp_all add: entriesOf_nth)
  note rd = pst_VID_in [OF e(2) vis(1)] pst_version_in [OF e(2) vis(1)]
  show ?thesis using rd e(1) isStale_in [of "dy_versionMap st" "entryVID info" "entryVersion info"] ok has stale
    by (auto simp: dy_Reassign_def st_ok_def liveEntry_def)
qed

lemma Reassign_live:
  assumes ok: "st_ok st" and vis: "5 \<le> vis" "length info = vis" and has: "vl_has (dy_versionMap st) (entryVID info)"
    and live: "liveEntry (dy_versionMap st) info" and s: "searchOk st (entryVector info)"
    and sel: "selects st (entryVector info) (entryVID info) headPrev = (need, es)"
    and hs: "set (map egNode es) \<subseteq> heads st" "distinct (map egNode es)"
    and q: "q = info[4 := nextVersion (entryVersion info)]"
    and room: "canAppend q (map egNode es) st"
      "\<forall>h \<in> set (map egNode es). int32_ok (sizes st ! nat h + 1) \<and> sizes st ! nat h + 1 \<le> en_postingSizeLimit en + 3"
  shows "\<exists>st'. dy_Reassign en info headPrev st = Ret st' \<and> dy_jobs st' = dy_jobs st
    \<and> (if need
       then \<exists>vl. versions vl = (versions (dy_versionMap st))[nat (entryVID info) := nextVersion (entryVersion info)]
              \<and> spread (st\<lparr>dy_versionMap := vl\<rparr>) st' (egNode ` set es) q
       else \<exists>n. st' = st\<lparr>dy_stat := n\<rparr>)"
proof -
  let ?vid = "entryVID info" and ?ver = "entryVersion info"
  have e: "entriesOf vis info ! 0 = info" "0 < length info div vis" using vis by (simp_all add: entriesOf_nth)
  note rd = pst_VID_in [OF e(2) vis(1)] pst_version_in [OF e(2) vis(1)] pst_vector_in [OF e(2) vis(1)]
  have vi: "vl_inv (dy_versionMap st)" using ok by (simp add: st_ok_def)
  have st: "isStale (dy_versionMap st) ?vid ?ver = Ret False"
    unfolding isStale_in [OF vi has] using live by (auto simp: liveEntry_def)
  have vv: "vl_GetVersion (dy_versionMap st) ?vid = Ret ?ver"
    using vl_GetVersion_in [OF vi has] live by (simp add: liveEntry_def)
  let ?st1 = "st\<lparr>dy_stat := (dy_stat st)\<lparr>m_reAssignNum := m_reAssignNum (dy_stat st) + 1\<rparr>\<rparr>"
  have rng: "dy_RNGSelection en (dy_index st) (entryVector info) ?vid headPrev = Ret (need, es)"
    using RNGSelection_ok [OF ok, of "entryVector info" ?vid headPrev] s sel by (simp add: searchOk_def selects_def)
  show ?thesis
  proof (cases need)
    case False
    then have "dy_Reassign en info headPrev st = Ret ?st1"
      using rd e(1) st rng vv by (simp add: dy_Reassign_def)
    then show ?thesis using False by auto
  next
    case True
    obtain vl where vl: "vl_IncVersion (dy_versionMap st) ?vid ?ver = Ret (True, nextVersion ?ver, vl)" "vl_inv vl"
      "versions vl = (versions (dy_versionMap st))[nat ?vid := nextVersion ?ver]" "vl_GetVectorNum vl = vl_GetVectorNum (dy_versionMap st)"
      using IncVersion_live [OF vi has, of ?ver] live by (auto simp: liveEntry_def)
    let ?st2 = "?st1\<lparr>dy_versionMap := vl\<rparr>"
    have ok2: "st_ok ?st2" using ok vl(2) by (simp add: st_ok_def)
    have has2: "vl_has vl ?vid" using has vl(4) by (simp add: vl_has_def)
    have len: "nat ?vid < length (versions vl)" using has2 by (simp add: vl_has_def versions_def vl_GetVectorNum_def nat_less_iff)
    have v2: "vl_GetVersion vl ?vid = Ret (nextVersion ?ver)"
      using vl_GetVersion_in [OF vl(2) has2] vl(3) len by simp
    obtain st' where st': "dy_reassignAppends en ?vid (nextVersion ?ver) q es ?st2 = Ret st'" "spread ?st2 st' (egNode ` set es) q"
      "dy_jobs st' = dy_jobs ?st2"
      using reassignAppends_ok [OF ok2, of es q ?vid "nextVersion ?ver"] hs room v2 by (auto simp: heads_def)
    have "dy_Reassign en info headPrev st = Ret st'"
      using rd e(1) st rng vv True vl(1) st'(1) q by (simp add: dy_Reassign_def)
    moreover have "spread (st\<lparr>dy_versionMap := vl\<rparr>) st' (egNode ` set es) q"
      using st'(2) by (simp add: spread_def postings_def heads_def)
    ultimately show ?thesis using True st'(3) vl(3) by auto
  qed
qed

end

end
