(* ===== verification/DynMerge.thy ===== *)
theory DynMerge
  imports DynUpdate
begin

text \<open>
  \<open>MergePostings\<close> over any store and head index with the laws of \<open>dyn_searcher\<close>: the scans, the search for a
  partner, the merge itself and the write-back without one.
\<close>

context dyn_searcher
begin

section \<open>The scans\<close>

definition freshEntries :: "bytes list \<Rightarrow> bytes list \<Rightarrow> bytes list" where
  "freshEntries es fs = filter (\<lambda>e. entryVID e \<notin> entryVID ` set es) fs"

lemma mergeCurrent_ok:
  assumes "st_ok st" "5 \<le> vis" "known st p"
  shows "dy_mergeCurrent en (dy_versionMap st) p
    = Ret (entryVID ` set (live st p), concat (live st p), int (length (live st p)))"
proof -
  obtain ls where ls: "pst_live (dy_versionMap st) vis p = Ret ls"
    "ls = filter (\<lambda>j. liveEntry (dy_versionMap st) (entriesOf vis p ! j)) [0 ..< length p div vis]"
    "map (\<lambda>l. entriesOf vis p ! l) ls = live st p"
    using live_positions [OF assms] by auto
  have b: "\<forall>l \<in> set ls. l < length p div vis" unfolding ls(2) by auto
  have "mapO (\<lambda>j. pst_VID p (j * vis)) ls = Ret (map (\<lambda>j. entryVID (entriesOf vis p ! j)) ls)"
    by (rule mapO_Ret) (use b in \<open>auto intro: pst_VID_in assms(2)\<close>)
  moreover have "map (\<lambda>j. entryVID (entriesOf vis p ! j)) ls = map entryVID (live st p)"
    unfolding ls(3) [symmetric] by simp
  moreover have "length ls = length (live st p)" using ls(3) by (metis length_map)
  ultimately show ?thesis using ls(1,3) pst_gather_in [OF b] by (simp add: dy_mergeCurrent_def Let_def)
qed

lemma mergeNext_ok:
  assumes "st_ok st" "5 \<le> vis" "known st p"
  shows "dy_mergeNext en (dy_versionMap st) p (entryVID ` set es)
    = Ret (concat (freshEntries es (live st p)), int (length (freshEntries es (live st p))), int (length (live st p)))"
proof -
  let ?P = "\<lambda>e. entryVID e \<notin> entryVID ` set es"
  obtain ls where ls: "pst_live (dy_versionMap st) vis p = Ret ls"
    "ls = filter (\<lambda>j. liveEntry (dy_versionMap st) (entriesOf vis p ! j)) [0 ..< length p div vis]"
    "map (\<lambda>l. entriesOf vis p ! l) ls = live st p"
    using live_positions [OF assms] by auto
  have b: "\<forall>l \<in> set ls. l < length p div vis" unfolding ls(2) by auto
  have f: "filterO (\<lambda>j. andThen (pst_VID p (j * vis)) (\<lambda>vid. Ret (vid \<notin> entryVID ` set es))) ls
      = Ret (filter (\<lambda>j. ?P (entriesOf vis p ! j)) ls)"
    by (rule filterO_Ret) (use b pst_VID_in assms(2) in simp)
  have m: "map (\<lambda>l. entriesOf vis p ! l) (filter (\<lambda>j. ?P (entriesOf vis p ! j)) ls) = freshEntries es (live st p)"
    unfolding freshEntries_def ls(3) [symmetric] by (simp add: filter_map comp_def)
  have "\<forall>l \<in> set (filter (\<lambda>j. ?P (entriesOf vis p ! j)) ls). l < length p div vis" using b by simp
  from pst_gather_in [OF this] have g: "pst_gather vis p (filter (\<lambda>j. ?P (entriesOf vis p ! j)) ls)
      = Ret (concat (freshEntries es (live st p)))" unfolding m .
  have "length (filter (\<lambda>j. ?P (entriesOf vis p ! j)) ls) = length (freshEntries es (live st p))" using m by (metis length_map)
  moreover have "length ls = length (live st p)" using ls(3) by (metis length_map)
  ultimately show ?thesis using ls(1) f g by (simp add: dy_mergeNext_def Let_def)
qed

section \<open>The reassignment after a merge\<close>

text \<open>The dissolved head \<open>old\<close>: its first \<open>n\<close> stored entries, live or not, that are farther from the new head.\<close>

definition mergeJobs :: "('s, 'h) dynSearcher \<Rightarrow> bytes \<Rightarrow> int \<Rightarrow> int \<Rightarrow> nat \<Rightarrow> dynJob list" where
  "mergeJobs st p old new n = map (\<lambda>e. ReassignAsyncJob e new)
     (filter (\<lambda>e. en_Distance en (vec st old) (entryVector e) < en_Distance en (vec st new) (entryVector e))
       (take n (entriesOf vis p)))"

lemma mergeReassign_loop:
  assumes "5 \<le> vis" "isHead st old" "isHead st new"
  shows "\<forall>j \<in> set js. j < length p div vis \<Longrightarrow> st_ok st1 \<Longrightarrow> dy_index st1 = dy_index st \<Longrightarrow>
    foldO (\<lambda>j st. andThen (pst_vector vis p (j * vis)) (\<lambda>vector.
        andThen (en_Sample en (dy_index st) old) (\<lambda>ov.
        andThen (en_Sample en (dy_index st) new) (\<lambda>nv.
          if en_Distance en nv vector > en_Distance en ov vector
          then andThen (pst_entry vis p j) (\<lambda>info. Ret (dy_ReassignAsync info new st))
          else Ret st)))) js st1
    = Ret (st1\<lparr>dy_jobs := dy_jobs st1 @ map (\<lambda>e. ReassignAsyncJob e new)
        (filter (\<lambda>e. en_Distance en (vec st old) (entryVector e) < en_Distance en (vec st new) (entryVector e))
          (map (\<lambda>j. entriesOf vis p ! j) js))\<rparr>)"
proof (induction js arbitrary: st1)
  case Nil
  then show ?case by simp
next
  case (Cons j js)
  let ?e = "entriesOf vis p ! j"
  have j: "j < length p div vis" using Cons.prems(1) by simp
  note rd = pst_vector_in [OF j assms(1)] pst_entry_in [OF j]
  have h: "isHead st1 old" "isHead st1 new" using assms(2,3) Cons.prems(3) by (simp_all add: isHead_def)
  have v: "vec st1 k = vec st k" for k using Cons.prems(3) by (simp add: vec_def)
  note sv = sample_vec [OF Cons.prems(2) h(1)] sample_vec [OF Cons.prems(2) h(2)]
  have js: "\<forall>j \<in> set js. j < length p div vis" using Cons.prems(1) by simp
  have st2: "st_ok (dy_ReassignAsync ?e new st1)" "dy_index (dy_ReassignAsync ?e new st1) = dy_index st"
    using Cons.prems(2,3) by (simp_all add: dy_ReassignAsync_def st_ok_def)
  show ?case
  proof (cases "en_Distance en (vec st old) (entryVector ?e) < en_Distance en (vec st new) (entryVector ?e)")
    case True
    then show ?thesis using rd sv v Cons.IH [OF js st2] by (simp add: dy_ReassignAsync_def)
  next
    case False
    then show ?thesis using rd sv v Cons.IH [OF js Cons.prems(2,3)] by simp
  qed
qed

lemma mergeReassign_ok:
  assumes "5 \<le> vis" "isHead st old" "isHead st new" "st_ok st1" "dy_index st1 = dy_index st" "n \<le> length p div vis"
  shows "dy_mergeReassign en p old new n st1 = Ret (st1\<lparr>dy_jobs := dy_jobs st1 @ mergeJobs st p old new n\<rparr>)"
proof -
  have "\<forall>j \<in> set [0 ..< n]. j < length p div vis" using assms(6) by auto
  moreover have "map (\<lambda>j. entriesOf vis p ! j) [0 ..< n] = take n (entriesOf vis p)"
    by (rule nth_equalityI) (use assms(6) in auto)
  ultimately show ?thesis
    using mergeReassign_loop [OF assms(1-3), of "[0 ..< n]" p st1] assms(4,5) by (simp add: dy_mergeReassign_def mergeJobs_def)
qed

section \<open>The merge\<close>

definition merged ::
  "('s, 'h) dynSearcher \<Rightarrow> ('s, 'h) dynSearcher \<Rightarrow> int \<Rightarrow> int \<Rightarrow> int \<Rightarrow> bytes list \<Rightarrow> dynJob list \<Rightarrow> bool" where
  "merged st st' headID keep gone' es js \<longleftrightarrow> st_ok st' \<and> postings st' = (postings st)(keep \<mapsto> concat es)
     \<and> sizes st' = (sizes st)[nat gone' := 0, nat keep := int (length es)] \<and> heads st' = heads st - {gone'}
     \<and> dy_versionMap st' = dy_versionMap st \<and> dy_jobs st' = dy_jobs st @ js
     \<and> dy_mergeList st' = dy_mergeList st - {headID} \<and> dy_splitList st' = dy_splitList st"

text \<open>The two size updates in either order.\<close>

lemma mergeSizes_ok:
  assumes "st_ok st" "isHead st a" "isHead st b" "int32_ok x" "int32_ok y"
  shows "\<exists>ps. andThen (dy_UpdateSize a x st) (dy_UpdateSize b y) = Ret (st\<lparr>dy_postingSizes := ps\<rparr>)
    \<and> st_ok (st\<lparr>dy_postingSizes := ps\<rparr>) \<and> intsOf ps = (sizes st)[nat a := x, nat b := y]"
proof -
  obtain p1 where p1: "dy_UpdateSize a x st = Ret (st\<lparr>dy_postingSizes := p1\<rparr>)" "st_ok (st\<lparr>dy_postingSizes := p1\<rparr>)"
    "intsOf p1 = (sizes st)[nat a := x]"
    using UpdateSize_ok [OF assms(1), of a x] assms(2,4) by (auto simp: isHead_def)
  obtain p2 where p2: "dy_UpdateSize b y (st\<lparr>dy_postingSizes := p1\<rparr>) = Ret (st\<lparr>dy_postingSizes := p2\<rparr>)"
    "st_ok (st\<lparr>dy_postingSizes := p2\<rparr>)" "intsOf p2 = (intsOf p1)[nat b := y]"
    using UpdateSize_ok [OF p1(2), of b y] assms(3,5) by (auto simp: isHead_def)
  then show ?thesis using p1 by auto
qed

lemma mergeWith_ok:
  assumes ok: "st_ok st" and vis: "5 \<le> vis" and h: "headID \<in> heads st" "other \<in> heads st" "other \<noteq> headID"
    and p: "postings st headID = Some p" "known st p" "postings st other = Some p2" "known st p2"
    and es: "es = live st p @ freshEntries (live st p) (live st p2)"
    and c: "c \<longleftrightarrow> length (live st p2) < length (live st p)"
    and kd: "keep = (if c then headID else other)" "gone' = (if c then other else headID)"
    and pd: "pd = (if c then p2 else p)" "n = (if c then length (live st p2) else length (live st p))"
    and room: "roomy (dy_db st) b [length es * vis]" "en_Num en (dy_index st) \<le> b"
    and sz: "int32_ok (int (length es))"
  shows "\<exists>st'. dy_mergeWith en headID other re p (entryVID ` set (live st p)) (concat (live st p)) (int (length (live st p))) st
      = Ret (Success, st')
    \<and> merged st st' headID keep gone' es (if re then mergeJobs st pd gone' keep n else [])"
proof -
  let ?L = "live st p" and ?L2 = "live st p2"
  let ?F = "freshEntries ?L ?L2"
  have hh: "isHead st headID" "isHead st other" using heads_bound [OF h(1)] heads_bound [OF h(2)] by (simp_all add: isHead_def)
  have kg: "isHead st keep" "isHead st gone'" "keep \<noteq> gone'" using hh h(3) kd by simp_all
  have w: "\<forall>e \<in> set es. length e = vis" using live_width by (auto simp: es freshEntries_def)
  have len: "length (concat es) = length es * vis" by (rule length_concat_width [OF w])
  obtain ix where ix: "dy_DeleteIndex en gone' st = Ret (st\<lparr>dy_index := ix\<rparr>)" "st_ok (st\<lparr>dy_index := ix\<rparr>)"
    "en_Num en ix = en_Num en (dy_index st)" "gone ix = insert gone' (gone (dy_index st))" "vecs ix = vecs (dy_index st)"
    using DeleteIndex_ok [OF ok, of gone'] kg(2) by (auto simp: isHead_def)
  let ?s1 = "st\<lparr>dy_index := ix\<rparr>"
  obtain db where db: "dy_Put en keep (concat es) ?s1 = Ret (?s1\<lparr>dy_db := db\<rparr>)" "st_ok (?s1\<lparr>dy_db := db\<rparr>)"
    "view db = (postings st)(keep \<mapsto> concat es)"
    using Put_ok [OF ix(2), of b "concat es" "[]" keep] room kg(1) unfolding len by (auto simp: isHead_def postings_def)
  let ?s2 = "?s1\<lparr>dy_db := db\<rparr>"
  have h2: "isHead ?s2 headID" "isHead ?s2 other" "isHead ?s2 keep" "isHead ?s2 gone'"
    using hh kg ix(3) by (simp_all add: isHead_def)
  have i0: "int32_ok 0" by (simp add: int32_ok_def)
  let ?T = "int (length es)"
  obtain ps where ps: "(if c then andThen (dy_UpdateSize other 0 ?s2) (dy_UpdateSize headID ?T)
      else andThen (dy_UpdateSize other ?T ?s2) (dy_UpdateSize headID 0)) = Ret (?s2\<lparr>dy_postingSizes := ps\<rparr>)"
    "st_ok (?s2\<lparr>dy_postingSizes := ps\<rparr>)" "intsOf ps = (sizes st)[nat gone' := 0, nat keep := ?T]"
  proof (cases c)
    case True
    then show thesis using mergeSizes_ok [OF db(2) h2(2,1) i0 sz] kd that by auto
  next
    case False
    have "nat other \<noteq> nat headID" using hh h(3) by (auto simp: isHead_def)
    from list_update_swap [OF this, of "sizes st" ?T 0]
    show thesis using mergeSizes_ok [OF db(2) h2(2,1) sz i0] kd that False by auto
  qed
  let ?s3 = "?s2\<lparr>dy_postingSizes := ps\<rparr>"
  have hs3: "isHead ?s3 keep" "isHead ?s3 gone'" using h2 by (simp_all add: isHead_def)
  have v: "vec ?s3 k = vec st k" for k using ix(5) by (simp add: vec_def)
  have nl: "n \<le> length pd div vis"
    using pd length_filter_le [of "liveEntry (dy_versionMap st)" "entriesOf vis pd"] by (auto simp: live_def liveEntries_def)
  have mj: "dy_mergeReassign en pd gone' keep n ?s3 = Ret (?s3\<lparr>dy_jobs := dy_jobs st @ mergeJobs st pd gone' keep n\<rparr>)"
    using mergeReassign_ok [OF vis hs3(2,1) ps(2) refl nl] by (simp add: mergeJobs_def v)
  let ?J = "if re then mergeJobs st pd gone' keep n else []"
  let ?s4 = "?s3\<lparr>dy_jobs := dy_jobs st @ ?J\<rparr>"
  let ?s5 = "dy_eraseMerge headID ?s4"
  let ?s6 = "?s5\<lparr>dy_stat := (dy_stat ?s5)\<lparr>m_mergeNum := m_mergeNum (dy_stat ?s5) + 1\<rparr>\<rparr>"
  have tot: "int (length ?L) + int (length ?F) = ?T" and ce: "concat ?L @ concat ?F = concat es" by (simp_all add: es)
  have cc: "int (length ?L2) < int (length ?L) \<longleftrightarrow> c" using c by simp
  have kp: "(if c then (headID, other) else (other, headID)) = (keep, gone')" using kd by simp
  have re: "(if \<not> re then Ret ?s3 else if c then dy_mergeReassign en p2 other headID (nat (int (length ?L2))) ?s3
      else dy_mergeReassign en p headID other (nat (int (length ?L))) ?s3) = Ret ?s4"
    using mj kd pd by (cases re; cases c) simp_all
  have run: "dy_mergeWith en headID other re p (entryVID ` set ?L) (concat ?L) (int (length ?L)) st = Ret (Success, ?s6)"
    unfolding dy_mergeWith_def get_posting [OF ok p(3)] andThen.simps prod.case mergeNext_ok [OF ok vis p(4), of ?L]
      cc kp Let_def ce tot ix(1) db(1) ps(1) re
    by simp
  have "merged st ?s6 headID keep gone' es ?J"
    using ps(2,3) db(3) ix(3,4) by (auto simp: merged_def st_ok_def postings_def heads_def dy_eraseMerge_def)
  with run show ?thesis by blast
qed

section \<open>The partner\<close>

definition mergeable :: "('s, 'h) dynSearcher \<Rightarrow> int \<Rightarrow> 'f basicResult \<Rightarrow> bool" where
  "mergeable st n r \<longleftrightarrow> n + sizes st ! nat (VID r) < en_postingSizeLimit en \<and> VID r \<notin> dy_mergeList st \<and> VID r \<in> heads st"

definition partner :: "('s, 'h) dynSearcher \<Rightarrow> int \<Rightarrow> int \<Rightarrow> 'f basicResult option" where
  "partner st headID n =
     find (mergeable st n) (drop 1 (en_Search en (dy_index st) (vec st headID) (en_internalResultNum en)))"

definition searchHeads :: "('s, 'h) dynSearcher \<Rightarrow> int \<Rightarrow> bool" where
  "searchHeads st headID \<longleftrightarrow>
     (\<forall>r \<in> set (drop 1 (en_Search en (dy_index st) (vec st headID) (en_internalResultNum en))). isHead st (VID r))"

lemma mergeLoop_find:
  "st_ok st \<Longrightarrow> \<forall>r \<in> set rs. isHead st (VID r) \<Longrightarrow>
   dy_mergeLoop en headID re p ids m n rs st = (case find (mergeable st n) rs of
     Some r \<Rightarrow> dy_mergeWith en headID (VID r) re p ids m n st
   | None \<Rightarrow> andThen (dy_UpdateSize headID n st) (\<lambda>st1.
       andThen (dy_Put en headID m st1) (\<lambda>st2. Ret (Success, dy_eraseMerge headID st2))))"
proof (induction rs)
  case (Cons r rs)
  have "ps_has (dy_postingSizes st) (VID r)" using Cons.prems by (simp add: ps_has_def st_ok_def isHead_def)
  then have "ps_GetSize (dy_postingSizes st) (VID r) = Ret (sizes st ! nat (VID r))"
    using Cons.prems(1) by (intro ps_GetSize_in) (auto simp: st_ok_def)
  then show ?case using Cons contain_heads [OF Cons.prems(1), of "VID r"] by (auto simp: mergeable_def)
qed simp

lemma MergePostings_start:
  assumes ok: "st_ok st" and vis: "5 \<le> vis" and lock: "\<not> dy_mergeLock st" and h: "headID \<in> heads st"
    and p: "postings st headID = Some p" "known st p"
    and few: "int (length (live st p)) \<le> en_mergeThreshold en" and sh: "searchHeads st headID"
  shows "dy_MergePostings en headID re st = (case partner st headID (int (length (live st p))) of
     Some r \<Rightarrow> dy_mergeWith en headID (VID r) re p (entryVID ` set (live st p)) (concat (live st p)) (int (length (live st p))) st
   | None \<Rightarrow> andThen (dy_UpdateSize headID (int (length (live st p))) st) (\<lambda>st1.
       andThen (dy_Put en headID (concat (live st p)) st1) (\<lambda>st2. Ret (Success, dy_eraseMerge headID st2))))"
proof -
  have "isHead st headID" using heads_bound [OF h] by (simp add: isHead_def)
  then show ?thesis
    using lock contain_heads [OF ok, of headID] h get_posting [OF ok p(1)] mergeCurrent_ok [OF ok vis p(2)] few
      sample_vec [OF ok] mergeLoop_find [OF ok sh [unfolded searchHeads_def]]
    by (simp add: dy_MergePostings_def partner_def)
qed

lemma MergePostings_partner:
  assumes ok: "st_ok st" and vis: "5 \<le> vis" and lock: "\<not> dy_mergeLock st" and h: "headID \<in> heads st"
    and p: "postings st headID = Some p" "known st p"
    and few: "int (length (live st p)) \<le> en_mergeThreshold en" and sh: "searchHeads st headID"
    and r: "partner st headID (int (length (live st p))) = Some r" "VID r = other" "other \<noteq> headID"
    and p2: "postings st other = Some p2" "known st p2"
    and es: "es = live st p @ freshEntries (live st p) (live st p2)"
    and c: "c \<longleftrightarrow> length (live st p2) < length (live st p)"
    and kd: "keep = (if c then headID else other)" "gone' = (if c then other else headID)"
    and pd: "pd = (if c then p2 else p)" "n = (if c then length (live st p2) else length (live st p))"
    and room: "roomy (dy_db st) b [length es * vis]" "en_Num en (dy_index st) \<le> b"
    and sz: "int32_ok (int (length es))"
  shows "\<exists>st'. dy_MergePostings en headID re st = Ret (Success, st')
    \<and> merged st st' headID keep gone' es (if re then mergeJobs st pd gone' keep n else [])"
proof -
  have "other \<in> heads st" using r by (auto simp: partner_def mergeable_def find_Some_iff)
  from mergeWith_ok [OF ok vis h this r(3) p p2 es c kd pd room sz, of re]
  show ?thesis using MergePostings_start [OF ok vis lock h p few sh, of re] r by simp
qed

lemma MergePostings_compacts:
  assumes ok: "st_ok st" and vis: "5 \<le> vis" and lock: "\<not> dy_mergeLock st" and h: "headID \<in> heads st"
    and p: "postings st headID = Some p" "known st p"
    and why: "en_mergeThreshold en < int (length (live st p)) \<or>
      searchHeads st headID \<and> partner st headID (int (length (live st p))) = None"
    and room: "roomy (dy_db st) b [length (live st p) * vis]" "headID < b" and sz: "int32_ok (int (length (live st p)))"
  shows "\<exists>st'. dy_MergePostings en headID re st = Ret (Success, st') \<and> st_ok st'
    \<and> postings st' = (postings st)(headID \<mapsto> concat (live st p)) \<and> sizes st' = (sizes st)[nat headID := int (length (live st p))]
    \<and> dy_index st' = dy_index st \<and> dy_versionMap st' = dy_versionMap st \<and> dy_jobs st' = dy_jobs st
    \<and> dy_mergeList st' = dy_mergeList st - {headID}"
proof -
  have hb: "0 \<le> headID" "headID < en_Num en (dy_index st)" using heads_bound [OF h] by simp_all
  have len: "length (concat (live st p)) = length (live st p) * vis" by (rule length_concat_width [OF live_width])
  obtain ps where ps: "dy_UpdateSize headID (int (length (live st p))) st = Ret (st\<lparr>dy_postingSizes := ps\<rparr>)"
    "st_ok (st\<lparr>dy_postingSizes := ps\<rparr>)" "intsOf ps = (sizes st)[nat headID := int (length (live st p))]"
    using UpdateSize_ok [OF ok hb sz] by auto
  obtain db where db: "dy_Put en headID (concat (live st p)) (st\<lparr>dy_postingSizes := ps\<rparr>)
      = Ret (st\<lparr>dy_postingSizes := ps, dy_db := db\<rparr>)" "st_ok (st\<lparr>dy_postingSizes := ps, dy_db := db\<rparr>)"
      "view db = (postings st)(headID \<mapsto> concat (live st p))"
    using Put_ok [OF ps(2), of b "concat (live st p)" "[]" headID] room hb(1) unfolding len by (auto simp: postings_def)
  let ?st = "dy_eraseMerge headID (st\<lparr>dy_postingSizes := ps, dy_db := db\<rparr>)"
  have "dy_MergePostings en headID re st = Ret (Success, ?st)"
  proof (cases "en_mergeThreshold en < int (length (live st p))")
    case True
    then show ?thesis using lock contain_heads [OF ok, of headID] h get_posting [OF ok p(1)] mergeCurrent_ok [OF ok vis p(2)] ps(1) db(1)
      by (simp add: dy_MergePostings_def)
  next
    case False
    then show ?thesis using MergePostings_start [OF ok vis lock h p, of re] why ps(1) db(1) by simp
  qed
  moreover have "st_ok ?st" using db(2) by (simp add: st_ok_def dy_eraseMerge_def)
  ultimately show ?thesis using db(3) ps(3) by (intro exI [of _ ?st]) (simp add: dy_eraseMerge_def postings_def)
qed

end

end
