(* ===== verification/DynSearch.thy ===== *)
theory DynSearch
  imports DynMerge
begin

text \<open>
  \<open>SearchIndex\<close> over any store with the laws of \<open>dyn_searcher\<close>: which points are offered to the result set and
  which merges are scheduled.
\<close>

section \<open>Offering points\<close>

lemma AddPoint_target: "qr_AddPoint qr v d = Ret (b, qr') \<Longrightarrow> qr_target qr' = qr_target qr"
  by (auto simp: qr_AddPoint_def split: list.splits if_splits)

lemma AddPoints_target: "qr_AddPoints qr ps = Ret qr' \<Longrightarrow> qr_target qr' = qr_target qr"
proof (induction ps arbitrary: qr)
  case (Cons x ps)
  then obtain b qr1 where "qr_AddPoint qr (fst x) (snd x) = Ret (b, qr1)" "qr_AddPoints qr1 ps = Ret qr'"
    by (cases x) (auto simp: andThen_Ret_iff)
  then show ?case using Cons.IH AddPoint_target by metis
qed simp

text \<open>An entry of a vector that is not marked deleted; its version plays no part.\<close>

definition present :: "versionLabel \<Rightarrow> bytes \<Rightarrow> bool" where
  "present vl e \<longleftrightarrow> versions vl ! nat (entryVID e) \<noteq> 0xfe"

context dyn_searcher
begin

definition points :: "bytes \<Rightarrow> bytes list \<Rightarrow> (int \<times> 'f) list" where
  "points target es = map (\<lambda>e. (entryVID e, en_Distance en target (entryVector e))) es"

lemma searchEntries_ok:
  assumes vis: "5 \<le> vis" and vl: "vl_inv vl"
  shows "\<forall>j \<in> set js. j < length p div vis \<and> knownEntry vl (entriesOf vis p ! j) \<Longrightarrow> es = map (\<lambda>j. entriesOf vis p ! j) js \<Longrightarrow>
    qr_AddPoints qr (points target (picked (present vl) seen es)) = Ret qr' \<Longrightarrow>
    foldO (dy_searchEntry en vl target p) js (n, seen, qr)
      = Ret (n - int (length (filter (\<lambda>e. \<not> present vl e) es)),
             seen \<union> entryVID ` set (picked (present vl) seen es), qr')"
proof (induction js arbitrary: es n seen qr)
  case (Cons j js)
  let ?e = "entriesOf vis p ! j"
  obtain fs where fs: "fs = map (\<lambda>j. entriesOf vis p ! j) js" by simp
  have es: "es = ?e # fs" using Cons.prems(2) fs by simp
  have j: "j < length p div vis" "knownEntry vl ?e" and js: "\<forall>j \<in> set js. j < length p div vis \<and> knownEntry vl (entriesOf vis p ! j)"
    using Cons.prems(1) by auto
  note rd = pst_VID_in [OF j(1) vis] pst_vector_in [OF j(1) vis]
  have del: "vl_Deleted vl (entryVID ?e) = Ret (\<not> present vl ?e)"
    using vl_Deleted_in [OF vl] j(2) by (simp add: knownEntry_def present_def)
  note IH = Cons.IH [OF js fs]
  show ?case
  proof (cases "present vl ?e \<and> entryVID ?e \<notin> seen")
    case False
    then have pk: "picked (present vl) seen es = picked (present vl) seen fs" using es by auto
    from IH [of qr seen] Cons.prems(3) show ?thesis
      using False rd del unfolding pk by (cases "present vl ?e") (auto simp: dy_searchEntry_def es)
  next
    case True
    then have pk: "picked (present vl) seen es = ?e # picked (present vl) (insert (entryVID ?e) seen) fs" using es by simp
    then obtain b qr1 where q1: "qr_AddPoint qr (entryVID ?e) (en_Distance en target (entryVector ?e)) = Ret (b, qr1)"
      "qr_AddPoints qr1 (points target (picked (present vl) (insert (entryVID ?e) seen) fs)) = Ret qr'"
      using Cons.prems(3) by (auto simp: points_def andThen_Ret_iff)
    from IH [OF q1(2), of n] show ?thesis
      using True rd del q1(1) unfolding pk by (simp add: dy_searchEntry_def es)
  qed
qed (simp add: points_def)

text \<open>The postings too small to stay: their heads are handed to \<open>MergeAsync\<close>.\<close>

definition thin :: "('s, 'h) dynSearcher \<Rightarrow> bytes \<Rightarrow> bool" where
  "thin st p \<longleftrightarrow> \<not> en_inPlace en \<and>
     int (length (filter (present (dy_versionMap st)) (entriesOf vis p))) \<le> en_mergeThreshold en"

definition mergeThin :: "(int \<times> bytes) list \<Rightarrow> ('s, 'h) dynSearcher \<Rightarrow> ('s, 'h) dynSearcher" where
  "mergeThin kps st = fold (\<lambda>(k, p) st. if thin st p then dy_MergeAsync en k st else st) kps st"

lemma MergeAsync_same:
  "dy_versionMap (dy_MergeAsync en k st) = dy_versionMap st" "st_ok (dy_MergeAsync en k st) = st_ok st"
  "dy_db (dy_MergeAsync en k st) = dy_db st"
  by (simp_all add: dy_MergeAsync_def st_ok_def)

lemma length_filter_parts: "length (filter P xs) + length (filter (\<lambda>x. \<not> P x) xs) = length xs"
  by (induction xs) auto

lemma searchPosting_ok:
  assumes ok: "st_ok st" and vis: "5 \<le> vis" and kn: "known st p"
    and add: "qr_AddPoints qr (points (qr_target qr) (picked (present (dy_versionMap st)) seen (entriesOf vis p))) = Ret qr'"
  shows "dy_searchPosting en k p (st, seen, qr)
    = Ret (mergeThin [(k, p)] st, seen \<union> entryVID ` set (picked (present (dy_versionMap st)) seen (entriesOf vis p)), qr')"
proof -
  let ?es = "entriesOf vis p" and ?P = "present (dy_versionMap st)"
  have js: "\<forall>j \<in> set [0 ..< length p div vis]. j < length p div vis \<and> knownEntry (dy_versionMap st) (entriesOf vis p ! j)"
    using kn by (auto simp: known_def)
  have es: "?es = map (\<lambda>j. entriesOf vis p ! j) [0 ..< length p div vis]" by (rule nth_equalityI) simp_all
  have vl: "vl_inv (dy_versionMap st)" using ok by (simp add: st_ok_def)
  have n: "int (length p div vis) - int (length (filter (\<lambda>e. \<not> ?P e) ?es)) = int (length (filter ?P ?es))"
    using length_filter_parts [of ?P ?es] by simp
  show ?thesis
    using searchEntries_ok [OF vis vl js es add, of "int (length p div vis)"] n
    by (simp add: dy_searchPosting_def Let_def mergeThin_def thin_def)
qed

lemma searchLoop_ok:
  "\<forall>i \<in> set is'. i < length ks \<and> i < length vs \<Longrightarrow> st_ok st \<Longrightarrow> 5 \<le> vis \<Longrightarrow> \<forall>i \<in> set is'. known st (vs ! i) \<Longrightarrow>
   P = present (dy_versionMap st) \<Longrightarrow>
   qr_AddPoints qr (points (qr_target qr) (picked P seen (concat (map (\<lambda>i. entriesOf vis (vs ! i)) is')))) = Ret qr' \<Longrightarrow>
   \<exists>seen'. foldO (\<lambda>i acc. andThen (nthO ks i) (\<lambda>pid. dy_searchPosting en pid (vs ! i) acc)) is' (st, seen, qr)
     = Ret (mergeThin (map (\<lambda>i. (ks ! i, vs ! i)) is') st, seen', qr')"
proof (induction is' arbitrary: st seen qr)
  case (Cons i is')
  let ?es = "entriesOf vis (vs ! i)" and ?rest = "concat (map (\<lambda>i. entriesOf vis (vs ! i)) is')"
  let ?seen = "seen \<union> entryVID ` set (picked P seen ?es)"
  have "points (qr_target qr) (picked P seen (concat (map (\<lambda>i. entriesOf vis (vs ! i)) (i # is'))))
    = points (qr_target qr) (picked P seen ?es) @ points (qr_target qr) (picked P ?seen ?rest)"
    by (simp add: picked_append points_def)
  then obtain qr1 where q1: "qr_AddPoints qr (points (qr_target qr) (picked P seen ?es)) = Ret qr1"
    "qr_AddPoints qr1 (points (qr_target qr) (picked P ?seen ?rest)) = Ret qr'"
    using Cons.prems(6) by (auto simp: AddPoints_append andThen_Ret_iff)
  have q2: "qr_AddPoints qr1 (points (qr_target qr1) (picked P ?seen ?rest)) = Ret qr'"
    using q1 AddPoints_target [OF q1(1)] by simp
  let ?st = "mergeThin [(ks ! i, vs ! i)] st"
  have same: "st_ok ?st" "dy_versionMap ?st = dy_versionMap st" using Cons.prems(2) by (simp_all add: mergeThin_def MergeAsync_same)
  have kn: "\<forall>i \<in> set is'. known ?st (vs ! i)" using Cons.prems(4) same(2) by (simp add: known_def)
  have bd: "\<forall>i \<in> set is'. i < length ks \<and> i < length vs" using Cons.prems(1) by simp
  have sp: "dy_searchPosting en (ks ! i) (vs ! i) (st, seen, qr) = Ret (?st, ?seen, qr1)"
    using searchPosting_ok [OF Cons.prems(2,3), of "vs ! i" qr seen qr1 "ks ! i"] Cons.prems(4,5) q1(1) by simp
  have ki: "nthO ks i = Ret (ks ! i)" using Cons.prems(1) by simp
  obtain seen' where "foldO (\<lambda>i acc. andThen (nthO ks i) (\<lambda>pid. dy_searchPosting en pid (vs ! i) acc)) is' (?st, ?seen, qr1)
     = Ret (mergeThin (map (\<lambda>i. (ks ! i, vs ! i)) is') ?st, seen', qr')"
    using Cons.IH [OF bd same(1) Cons.prems(3) kn _ q2] Cons.prems(5) same(2) by auto
  moreover have "mergeThin (map (\<lambda>i. (ks ! i, vs ! i)) (i # is')) st = mergeThin (map (\<lambda>i. (ks ! i, vs ! i)) is') ?st"
    by (simp add: mergeThin_def)
  ultimately show ?case using sp ki by simp
qed (simp add: mergeThin_def points_def)

lemma SearchIndex_ok:
  assumes ok: "st_ok st" and vis: "5 \<le> vis" and ps: "list_all2 (\<lambda>k v. postings st k = Some v) ks vs"
    and kn: "\<forall>v \<in> set vs. known st v"
    and add: "qr_AddPoints qr (points (qr_target qr) (picked (present (dy_versionMap st)) {} (concat (map (entriesOf vis) vs)))) = Ret qr'"
  shows "dy_SearchIndex en ks qr st = Ret (qr', mergeThin (zip ks vs) st)"
proof -
  have l: "length ks = length vs" using ps by (rule list_all2_lengthD)
  have m: "en_MultiGet en (dy_db st) ks = Ret (Success, vs)"
    using kv.multi_law [of "dy_db st" ks vs] ok ps by (simp add: st_ok_def postings_def)
  have c: "map (\<lambda>i. entriesOf vis (vs ! i)) [0 ..< length vs] = map (entriesOf vis) vs" by (rule nth_equalityI) simp_all
  have z: "map (\<lambda>i. (ks ! i, vs ! i)) [0 ..< length vs] = zip ks vs" by (rule nth_equalityI) (simp_all add: l)
  have "\<exists>seen'. foldO (\<lambda>i acc. andThen (nthO ks i) (\<lambda>pid. dy_searchPosting en pid (vs ! i) acc)) [0 ..< length vs] (st, {}, qr)
     = Ret (mergeThin (map (\<lambda>i. (ks ! i, vs ! i)) [0 ..< length vs]) st, seen', qr')"
    by (rule searchLoop_ok [OF _ ok vis _ refl]) (use l kn add c in auto)
  then show ?thesis using m by (auto simp: dy_SearchIndex_def z)
qed

text \<open>A merge is scheduled once for every thin posting whose merge is not scheduled already.\<close>

lemma MergeAsync_eq:
  "dy_MergeAsync en k st = (if en_update en \<and> k \<notin> dy_mergeList st
     then st\<lparr>dy_mergeList := insert k (dy_mergeList st), dy_jobs := dy_jobs st @ [MergeAsyncJob k (en_disableReassign en)]\<rparr> else st)"
  by (simp add: dy_MergeAsync_def)

lemma mergeThin_ok:
  "\<exists>new. mergeThin kps st = st\<lparr>dy_mergeList := dy_mergeList st \<union> set new,
        dy_jobs := dy_jobs st @ map (\<lambda>k. MergeAsyncJob k (en_disableReassign en)) new\<rparr>
     \<and> distinct new \<and> set new = (if en_update en then {k. \<exists>p. (k, p) \<in> set kps \<and> thin st p} - dy_mergeList st else {})"
proof (induction kps arbitrary: st)
  case Nil
  then show ?case by (intro exI [of _ "[]"]) (simp add: mergeThin_def)
next
  case (Cons kp kps)
  obtain k p where kp: "kp = (k, p)" by (cases kp)
  let ?st = "if thin st p then dy_MergeAsync en k st else st"
  have t: "thin ?st = thin st" by (rule ext) (simp add: thin_def MergeAsync_same)
  have step: "mergeThin (kp # kps) st = mergeThin kps ?st" by (simp add: mergeThin_def kp)
  obtain new where new: "mergeThin kps ?st = ?st\<lparr>dy_mergeList := dy_mergeList ?st \<union> set new,
        dy_jobs := dy_jobs ?st @ map (\<lambda>k. MergeAsyncJob k (en_disableReassign en)) new\<rparr>" "distinct new"
      "set new = (if en_update en then {k. \<exists>p. (k, p) \<in> set kps \<and> thin st p} - dy_mergeList ?st else {})"
    using Cons.IH [of ?st] unfolding t by blast
  show ?case
  proof (cases "thin st p \<and> en_update en \<and> k \<notin> dy_mergeList st")
    case True
    then have e: "?st = st\<lparr>dy_mergeList := insert k (dy_mergeList st), dy_jobs := dy_jobs st @ [MergeAsyncJob k (en_disableReassign en)]\<rparr>"
      by (simp add: MergeAsync_eq)
    show ?thesis
    proof (intro exI [of _ "k # new"] conjI)
      show "mergeThin (kp # kps) st = st\<lparr>dy_mergeList := dy_mergeList st \<union> set (k # new),
          dy_jobs := dy_jobs st @ map (\<lambda>k. MergeAsyncJob k (en_disableReassign en)) (k # new)\<rparr>"
        using new(1) unfolding step e by simp
      show "distinct (k # new)" using new(2,3) True unfolding e by simp
      show "set (k # new) = (if en_update en then {h. \<exists>p. (h, p) \<in> set (kp # kps) \<and> thin st p} - dy_mergeList st else {})"
        using new(3) True unfolding e kp by auto
    qed
  next
    case False
    then have e: "?st = st" by (auto simp: MergeAsync_eq)
    show ?thesis unfolding step new(1) using new(2,3) False unfolding e kp
      by (intro exI [of _ new]) auto
  qed
qed

end

end
