(* ===== verification/DynClaims.thy ===== *)
theory DynClaims
  imports DynSearch
begin

text \<open>
  The posting searcher on its real providers: \<open>SPDKIO\<close> for the postings and \<open>BKT::Index\<close> for the heads.
  The interpretation discharges the laws of both interfaces; the properties of \<open>Split\<close> follow, each with a
  state that meets its hypotheses.
\<close>

section \<open>The composed searcher\<close>

text \<open>
  \<open>en\<close> gives the options, the graph search, the distance and the clustering; \<open>dim\<close> is \<open>m_dim\<close>, \<open>deg\<close> the
  neighbours per node, \<open>refine\<close> what \<open>RefineNode\<close> makes of the neighbour table.
\<close>

type_synonym 'f sfEnv = "(spdkio, bktHead, 'f) dynEnv"
type_synonym sfState = "(spdkio, bktHead) dynSearcher"

definition spdkEnv :: "nat \<Rightarrow> nat \<Rightarrow> (bktHead \<Rightarrow> int \<Rightarrow> dataset) \<Rightarrow> 'f sfEnv \<Rightarrow> 'f sfEnv" where
  "spdkEnv dim deg refine en =
     en\<lparr>en_Get := sp_Get, en_MultiGet := sp_MultiGetInTime, en_Put := sp_Put, en_Merge := sp_Merge,
        en_Contain := bh_ContainSample, en_Sample := bh_GetSample, en_Num := bh_GetNumSamples,
        en_Del := bh_DeleteIndex, en_AddId := (\<lambda>h v. bh_AddIndexId h v 1 dim),
        en_AddIdx := bh_AddIndexIdx (bh_refine deg refine)\<rparr>"

lemma spdkEnv_simps [simp]:
  "en_Get (spdkEnv dim deg refine en) = sp_Get" "en_MultiGet (spdkEnv dim deg refine en) = sp_MultiGetInTime"
  "en_Put (spdkEnv dim deg refine en) = sp_Put" "en_Merge (spdkEnv dim deg refine en) = sp_Merge"
  "en_Contain (spdkEnv dim deg refine en) = bh_ContainSample" "en_Sample (spdkEnv dim deg refine en) = bh_GetSample"
  "en_Num (spdkEnv dim deg refine en) = bh_GetNumSamples" "en_Del (spdkEnv dim deg refine en) = bh_DeleteIndex"
  "en_AddId (spdkEnv dim deg refine en) = (\<lambda>h v. bh_AddIndexId h v 1 dim)"
  "en_AddIdx (spdkEnv dim deg refine en) = bh_AddIndexIdx (bh_refine deg refine)"
  "en_vectorInfoSize (spdkEnv dim deg refine en) = en_vectorInfoSize en" "en_Search (spdkEnv dim deg refine en) = en_Search en"
  "en_Distance (spdkEnv dim deg refine en) = en_Distance en" "en_Kmeans (spdkEnv dim deg refine en) = en_Kmeans en"
  "en_Epsilon (spdkEnv dim deg refine en) = en_Epsilon en" "en_rngScale (spdkEnv dim deg refine en) = en_rngScale en"
  "en_replicaCount (spdkEnv dim deg refine en) = en_replicaCount en"
  "en_internalResultNum (spdkEnv dim deg refine en) = en_internalResultNum en"
  "en_reassignK (spdkEnv dim deg refine en) = en_reassignK en" "en_inPlace (spdkEnv dim deg refine en) = en_inPlace en"
  "en_disableReassign (spdkEnv dim deg refine en) = en_disableReassign en" "en_update (spdkEnv dim deg refine en) = en_update en"
  "en_postingSizeLimit (spdkEnv dim deg refine en) = en_postingSizeLimit en"
  "en_mergeThreshold (spdkEnv dim deg refine en) = en_mergeThreshold en"
  by (simp_all add: spdkEnv_def)

interpretation spfresh: dyn_searcher "spdkEnv dim deg refine en" sp_Delete sp_inv sp_view sp_canPut sp_canMerge
  sp_roomy "bh_inv dim e deg" "\<lambda>h. ds_list (bh_samples h)" bh_gone bh_room "\<lambda>h. dim * e"
  for dim e deg refine and en :: "('f :: linorder) sfEnv"
proof -
  show "dyn_searcher (spdkEnv dim deg refine en) sp_Delete sp_inv sp_view sp_canPut sp_canMerge
    sp_roomy (bh_inv dim e deg) (\<lambda>h. ds_list (bh_samples h)) bh_gone bh_room (\<lambda>h. dim * e)"
    unfolding dyn_searcher_def spdkEnv_simps
    using sproom.kv_room_axioms bkt.head_index_axioms by blast
qed

text \<open>The reading of a state the properties use.\<close>

definition sf_ok :: "nat \<Rightarrow> nat \<Rightarrow> nat \<Rightarrow> sfState \<Rightarrow> bool" where
  "sf_ok dim e deg st \<longleftrightarrow> sp_inv (dy_db st) \<and> bh_inv dim e deg (dy_index st) \<and> vl_inv (dy_versionMap st)
     \<and> ps_inv (dy_postingSizes st) \<and> ps_GetPostingNum (dy_postingSizes st) = bh_GetNumSamples (dy_index st)"

definition sf_heads :: "sfState \<Rightarrow> int set" where
  "sf_heads st = {k. 0 \<le> k \<and> k < bh_GetNumSamples (dy_index st) \<and> k \<notin> bh_gone (dy_index st)}"

definition sf_postings :: "sfState \<Rightarrow> int \<Rightarrow> bytes option" where
  "sf_postings st = sp_view (dy_db st)"

definition sf_sizes :: "sfState \<Rightarrow> int list" where
  "sf_sizes st = intsOf (dy_postingSizes st)"

definition sf_known :: "'f sfEnv \<Rightarrow> sfState \<Rightarrow> bytes \<Rightarrow> bool" where
  "sf_known en st p \<longleftrightarrow> (\<forall>e \<in> set (entriesOf (en_vectorInfoSize en) p). knownEntry (dy_versionMap st) e)"

definition sf_live :: "'f sfEnv \<Rightarrow> sfState \<Rightarrow> bytes \<Rightarrow> bytes list" where
  "sf_live en st p = liveEntries (dy_versionMap st) (en_vectorInfoSize en) p"

definition sf_vec :: "sfState \<Rightarrow> int \<Rightarrow> bytes" where
  "sf_vec st k = ds_list (bh_samples (dy_index st)) ! nat k"


lemma sf_eqs:
  "dyn_searcher.st_ok (spdkEnv dim deg refine en) sp_inv (bh_inv dim e deg) st = sf_ok dim e deg st"
  "dyn_searcher.heads (spdkEnv dim deg refine en) bh_gone st = sf_heads st"
  "spfresh.postings st = sf_postings st"
  "dyn_searcher.known (spdkEnv dim deg refine en) st p = sf_known en st p"
  "dyn_searcher.live (spdkEnv dim deg refine en) st p = sf_live en st p"
  "spfresh.vec st k = sf_vec st k"
  "dyn_searcher.isHead (spdkEnv dim deg refine en) st k \<longleftrightarrow> 0 \<le> k \<and> k < bh_GetNumSamples (dy_index st)"
  "intsOf (dy_postingSizes st) = sf_sizes st"
  by (simp_all add: spfresh.st_ok_def sf_ok_def spfresh.heads_def sf_heads_def spfresh.postings_def sf_postings_def
      spfresh.known_def sf_known_def spfresh.live_def sf_live_def spfresh.vec_def sf_vec_def spfresh.isHead_def sf_sizes_def)

lemma sf_head_bound: "k \<in> sf_heads st \<Longrightarrow> 0 \<le> k \<and> k < bh_GetNumSamples (dy_index st)"
  by (simp add: sf_heads_def)

section \<open>A small searcher\<close>

text \<open>
  One head with a posting of three entries of six bytes; the third entry is stale. The room of the sample
  store is that of \<open>spSample\<close>.
\<close>

definition sfPosting :: bytes where
  "sfPosting = [0, 0, 0, 0, 255, 10, 1, 0, 0, 0, 255, 20, 2, 0, 0, 0, 3, 30]"

definition bhSample :: bktHead where
  "bhSample = (case ds_Initialize (ds_new 1) 1 1 4 100 None True 0 (- 1) of Ret s \<Rightarrow>
     (case ds_Initialize (ds_new 4) 1 1 4 100 None True 0 (- 1) of Ret g \<Rightarrow>
       (case ls_Initialize ls_new 1 4 100 of Ret d \<Rightarrow>
          \<lparr>bh_ready = True, bh_samples = s, bh_graph = g, bh_graphSize = 1, bh_deleted = d\<rparr>
        | _ \<Rightarrow> undefined) | _ \<Rightarrow> undefined) | _ \<Rightarrow> undefined)"

definition sfSample :: sfState where
  "sfSample = \<lparr>dy_db = (case sp_Put spSample 0 sfPosting of Ret (ec, db) \<Rightarrow> db | _ \<Rightarrow> spSample),
     dy_versionMap = vlSample,
     dy_postingSizes = (case ps_Initialize ps_new 1 4 100 of Ret ps \<Rightarrow> ps | _ \<Rightarrow> ps_new),
     dy_index = bhSample, dy_splitList = {0}, dy_mergeList = {}, dy_mergeLock = False, dy_jobs = [],
     dy_stat = \<lparr>m_headMiss = 0, m_appendTaskNum = 0, m_splitNum = 0, m_theSameHeadNum = 0, m_reAssignNum = 0,
       m_garbageNum = 0, m_reAssignScanNum = 0, m_mergeNum = 0\<rparr>\<rparr>"

text \<open>
  Options for the sample: vectors of one byte, the absolute difference as distance, a search that answers
  all heads, and the clustering \<open>km\<close>.
\<close>

definition sfEnvSample :: "int \<Rightarrow> kmeansResult \<Rightarrow> int sfEnv" where
  "sfEnvSample limit km =
     \<lparr>en_Get = sp_Get, en_MultiGet = sp_MultiGetInTime, en_Put = sp_Put, en_Merge = sp_Merge,
      en_Contain = bh_ContainSample, en_Sample = bh_GetSample, en_Num = bh_GetNumSamples, en_Del = bh_DeleteIndex,
      en_AddId = (\<lambda>h v. bh_AddIndexId h v 1 1), en_AddIdx = bh_AddIndexIdx (\<lambda>h node. bh_graph h),
      en_Search = (\<lambda>h q n. take n (map (\<lambda>k. BasicResult k \<bar>uint (hd q) - uint (hd (ds_list (bh_samples h) ! nat k))\<bar>)
                                     [0 .. bh_GetNumSamples h - 1])),
      en_Distance = (\<lambda>x y. \<bar>uint (hd x) - uint (hd y)\<bar>), en_Kmeans = (\<lambda>vs ls. km), en_Epsilon = 1,
      en_rngScale = id, en_replicaCount = 2, en_internalResultNum = 4, en_reassignK = 0, en_inPlace = False,
      en_disableReassign = False, en_update = True, en_vectorInfoSize = 6, en_postingSizeLimit = limit,
      en_mergeThreshold = 1\<rparr>"

text \<open>A clustering for the instances that make none.\<close>

definition noKm :: kmeansResult where
  "noKm = \<lparr>km_numClusters = 1, km_indices = [], km_counts = [], km_centers = []\<rparr>"

lemma bhSample:
  "bh_inv 1 1 1 bhSample" "bh_GetNumSamples bhSample = 1" "bh_gone bhSample = {}" "bh_room bhSample = 100"
  "ds_list (bh_samples bhSample) = [[255]]"
proof -
  obtain s where s: "ds_Initialize (ds_new 1) 1 1 4 100 None True 0 (- 1) = Ret s" "ds_inv 1 1 s" "ds_R s = 1"
    "ds_maxRows s = 100" "ds_list s = [[255]]"
    using ds_Initialize_blank [of 1 "ds_new 1" 1 4 100 True] by (auto simp: ds_new_def)
  obtain g where g: "ds_Initialize (ds_new 4) 1 1 4 100 None True 0 (- 1) = Ret g" "ds_inv 1 4 g" "ds_R g = 1"
    "ds_maxRows g = 100"
    using ds_Initialize_blank [of 1 "ds_new 4" 1 4 100 True] by (auto simp: ds_new_def)
  have l: "ls_Initialize ls_new 1 4 100 = Ret (ls_new\<lparr>ls_data := s\<rparr>)"
    using s(1) by (simp add: ls_Initialize_def ls_new_def)
  have b: "bhSample = \<lparr>bh_ready = True, bh_samples = s, bh_graph = g, bh_graphSize = 1, bh_deleted = ls_new\<lparr>ls_data := s\<rparr>\<rparr>"
    unfolding bhSample_def s(1) g(1) outcome.case l by simp
  have m: "marks (bh_deleted bhSample) = [255]" using s(5) by (simp add: b marks_def bytesOf_def)
  show "bh_inv 1 1 1 bhSample" using s g m by (simp add: b bh_inv_def ls_inv_def ls_new_def ls_R_def)
  show "bh_GetNumSamples bhSample = 1" using s by (simp add: b bh_GetNumSamples_def)
  show "bh_room bhSample = 100" using s g by (simp add: b bh_room_def ls_new_def)
  show "ds_list (bh_samples bhSample) = [[255]]" using s by (simp add: b)
  have "ls_R (bh_deleted bhSample) = 1" using s by (simp add: b ls_R_def)
  then show "bh_gone bhSample = {}" using m by (auto simp: bh_gone_def)
qed

lemma spSample_put:
  assumes "v \<noteq> []" "length v \<le> 4096" "0 \<le> k" "k < 100"
  shows "\<exists>db. sp_Put spSample k v = Ret (Success, db) \<and> sp_inv db \<and> sp_view db = [k \<mapsto> v]
    \<and> sp_freePages db = 9 \<and> sp_blockLimit db = 4 \<and> sp_next db \<le> 5 \<and> ds_maxRows (sp_mapping db) = 100"
proof -
  have c: "sp_canPut spSample k v" using assms by (intro spSample_canPut) auto
  have "sp_pagesOf spSample k = 0" by (simp add: sp_pagesOf_def spSample_view)
  moreover have "sp_freePages spSample = 10"
    by (simp add: sp_freePages_def bc_RemainBlocks_def spSample_def spCtlSample_def)
  moreover have "sp_view spSample = Map.empty" by (rule ext) (rule spSample_view)
  moreover have "sp_blockLimit spSample = 4" "sp_next spSample = 4" "ds_maxRows (sp_mapping spSample) = 100"
    by (simp_all add: spSample_def spMapSample)
  ultimately show ?thesis
    using Put_view [OF spSample_inv, of k v] c pagesOf_1 [of "length v"] assms by (auto simp: sp_canPut_def)
qed

lemma sfSample_entries:
  "entriesOf 6 sfPosting = [[0, 0, 0, 0, 255, 10], [1, 0, 0, 0, 255, 20], [2, 0, 0, 0, 3, 30]]"
proof -
  let ?es = "[[0, 0, 0, 0, 255, 10], [1, 0, 0, 0, 255, 20], [2, 0, 0, 0, 3, 30]] :: bytes list"
  have "sfPosting = concat ?es" by (simp add: sfPosting_def)
  moreover have "\<forall>e \<in> set ?es. length e = 6" by simp
  ultimately show ?thesis using entriesOf_concat [of ?es 6] by simp
qed

lemma sfSample:
  "sf_ok 1 1 1 sfSample" "sf_heads sfSample = {0}" "sf_postings sfSample = [0 \<mapsto> sfPosting]"
  "sf_known (sfEnvSample limit km) sfSample sfPosting"
  "sf_live (sfEnvSample limit km) sfSample sfPosting = [[0, 0, 0, 0, 255, 10], [1, 0, 0, 0, 255, 20]]"
  "bh_GetNumSamples (dy_index sfSample) = 1" "dy_index sfSample = bhSample"
  "ds_maxRows (dy_postingSizes sfSample) = 100" "length (sf_sizes sfSample) = 1"
  "b \<le> 100 \<Longrightarrow> ns = [] \<or> (\<exists>n. ns = [n] \<and> n \<le> 4096) \<or> (\<exists>n m. ns = [n, m] \<and> n \<le> 4096 \<and> m \<le> 4096) \<Longrightarrow>
     sp_roomy (dy_db sfSample) b ns"
proof -
  obtain db where db: "sp_Put spSample 0 sfPosting = Ret (Success, db)" "sp_inv db" "sp_view db = [0 \<mapsto> sfPosting]"
    "sp_freePages db = 9" "sp_blockLimit db = 4" "sp_next db \<le> 5" "ds_maxRows (sp_mapping db) = 100"
    using spSample_put [of sfPosting 0] by (auto simp: sfPosting_def)
  obtain ps where ps: "ps_Initialize ps_new 1 4 100 = Ret ps" "ds_inv 1 4 ps" "ds_R ps = 1" "ds_maxRows ps = 100"
    using ds_Initialize_blank [of 1 "ds_new 4" 1 4 100 True] by (auto simp: ds_new_def ps_new_def ps_Initialize_def)
  have f: "dy_db sfSample = db" "dy_postingSizes sfSample = ps" "dy_versionMap sfSample = vlSample"
    by (simp_all add: sfSample_def db(1) ps(1))
  show i: "dy_index sfSample = bhSample" by (simp add: sfSample_def)
  then show n: "bh_GetNumSamples (dy_index sfSample) = 1" by (simp add: bhSample)
  show "sf_ok 1 1 1 sfSample" using f i db ps n
    by (simp add: sf_ok_def bhSample(1) [simplified] bhSample(2) vlSample ps_inv_def ps_GetPostingNum_def)
  show "sf_heads sfSample = {0}" using i n by (auto simp: sf_heads_def bhSample)
  show "sf_postings sfSample = [0 \<mapsto> sfPosting]" using f db by (simp add: sf_postings_def)
  have v: "entryVID [a, 0, 0, 0, b, c] = uint a" if "uint a < 128" for a b c :: byte
    using that by (simp add: entryVID_def dec_sint_def Let_def numeral_eq_Suc)
  have k: "vl_has vlSample 0" "vl_has vlSample 1" "vl_has vlSample 2" by (simp_all add: vl_has_def vlSample)
  show "sf_known (sfEnvSample limit km) sfSample sfPosting"
    using v k by (simp add: sf_known_def sfEnvSample_def sfSample_entries f knownEntry_def)
  show "sf_live (sfEnvSample limit km) sfSample sfPosting = [[0, 0, 0, 0, 255, 10], [1, 0, 0, 0, 255, 20]]"
    using v by (simp add: sf_live_def liveEntries_def sfEnvSample_def sfSample_entries f liveEntry_def vlSample entryVersion_def)
  show "ds_maxRows (dy_postingSizes sfSample) = 100" "length (sf_sizes sfSample) = 1"
    using f ps by (simp_all add: sf_sizes_def)
  have p1: "pagesOf n \<le> 1" if "n \<le> 4096" for n using pagesOf_1 [of n] that by (cases "n = 0") auto
  show "sp_roomy (dy_db sfSample) b ns"
    if "b \<le> 100" "ns = [] \<or> (\<exists>n. ns = [n] \<and> n \<le> 4096) \<or> (\<exists>n m. ns = [n, m] \<and> n \<le> 4096 \<and> m \<le> 4096)"
  proof -
    have "b \<le> ds_maxRows (sp_mapping db)" using that(1) db by simp
    moreover have "int (length ns) \<le> 2" "\<forall>n \<in> set ns. n \<le> 4096" using that(2) by auto
    moreover have "sum_list (map pagesOf ns) \<le> 2" using that(2) by (auto dest!: p1)
    moreover have "int (pagesOf n) < 4" if "n \<le> 4096" for n using p1 [OF that] by simp
    ultimately show ?thesis using f db by (auto simp: sp_roomy_def noArray_def)
  qed
qed

section \<open>Two heads\<close>

text \<open>
  The sample with a second head, whose vector is 12; its posting holds the third vector under the current
  version.
\<close>

definition bhTwo :: bktHead where
  "bhTwo = (case bh_AddIndexId bhSample [12] 1 1 of Ret (ec, b, h) \<Rightarrow> h | _ \<Rightarrow> bhSample)"

definition sfPosting1 :: bytes where
  "sfPosting1 = [2, 0, 0, 0, 255, 14]"

definition spTwo :: spdkio where
  "spTwo = (case sp_Put spSample 0 sfPosting of Ret (ec, db) \<Rightarrow>
     (case sp_Put db 1 sfPosting1 of Ret (ec', db') \<Rightarrow> db' | _ \<Rightarrow> spSample) | _ \<Rightarrow> spSample)"

definition psTwo :: postingSizes where
  "psTwo = (case ps_Initialize ps_new 2 4 100 of Ret ps \<Rightarrow>
     (case ps_UpdateSize ps 0 3 of Ret ps1 \<Rightarrow> (case ps_UpdateSize ps1 1 1 of Ret ps2 \<Rightarrow> ps2 | _ \<Rightarrow> ps_new)
      | _ \<Rightarrow> ps_new) | _ \<Rightarrow> ps_new)"

definition sfTwo :: sfState where
  "sfTwo = sfSample\<lparr>dy_db := spTwo, dy_postingSizes := psTwo, dy_index := bhTwo, dy_splitList := {}\<rparr>"

lemma bhTwo:
  "bh_inv 1 1 1 bhTwo" "bh_GetNumSamples bhTwo = 2" "bh_gone bhTwo = {}" "bh_room bhTwo = 100"
  "ds_list (bh_samples bhTwo) = [[255], [12]]"
proof -
  obtain h' where h': "bh_AddIndexId bhSample [12] 1 1 = Ret (Success, Some 1, h')" "bh_inv 1 1 1 h'"
    "ds_list (bh_samples h') = [[255]] @ [[12]]" "bh_gone h' = {}" "bh_room h' = 100"
    using bh_AddIndexId_inv [OF bhSample(1), of "[12]"] bhSample(2-5) by auto
  then have b: "bhTwo = h'" by (simp add: bhTwo_def)
  show "bh_inv 1 1 1 bhTwo" "bh_gone bhTwo = {}" "bh_room bhTwo = 100" "ds_list (bh_samples bhTwo) = [[255], [12]]"
    using h' b by simp_all
  show "bh_GetNumSamples bhTwo = 2" unfolding b bkt.num_law [OF h'(2)] h'(3) by simp
qed

lemma pair_list: "length xs = 2 \<Longrightarrow> \<exists>a b. xs = [a, b]"
  by (auto simp: length_Suc_conv numeral_2_eq_2)

lemma psTwo: "ps_inv psTwo" "ps_GetPostingNum psTwo = 2" "intsOf psTwo = [3, 1]" "ds_maxRows psTwo = 100"
proof -
  obtain ps where ps: "ps_Initialize ps_new 2 4 100 = Ret ps" "ps_inv ps" "ps_GetPostingNum ps = 2" "ds_maxRows ps = 100"
    using ds_Initialize_blank [of 2 "ds_new 4" 1 4 100 True]
    by (auto simp: ds_new_def ps_new_def ps_Initialize_def ps_inv_def ps_GetPostingNum_def)
  have "length (intsOf ps) = 2" using ps(3) by (simp add: ps_GetPostingNum_def)
  from pair_list [OF this] obtain a b where ab: "intsOf ps = [a, b]" by auto
  have h: "ps_has ps 0" "int32_ok 3" "int32_ok 1" using ps by (simp_all add: ps_has_def int32_ok_def)
  obtain p1 where p1: "ps_UpdateSize ps 0 3 = Ret p1" "ps_inv p1" "ps_GetPostingNum p1 = 2" "ds_maxRows p1 = 100"
    "intsOf p1 = [3, b]" using ps_UpdateSize_in [OF ps(2) h(1,2)] ps ab by auto
  have h1: "ps_has p1 1" using p1 by (simp add: ps_has_def)
  obtain p2 where "ps_UpdateSize p1 1 1 = Ret p2" "ps_inv p2" "ps_GetPostingNum p2 = 2" "ds_maxRows p2 = 100"
    "intsOf p2 = [3, 1]" using ps_UpdateSize_in [OF p1(2) h1 h(3)] p1 by auto
  then show "ps_inv psTwo" "ps_GetPostingNum psTwo = 2" "intsOf psTwo = [3, 1]" "ds_maxRows psTwo = 100"
    using ps(1) p1(1) by (simp_all add: psTwo_def)
qed

lemma spTwo:
  "sp_inv spTwo" "sp_view spTwo = [0 \<mapsto> sfPosting, 1 \<mapsto> sfPosting1]" "sp_freePages spTwo = 8"
  "sp_blockLimit spTwo = 4" "sp_next spTwo \<le> 6" "ds_maxRows (sp_mapping spTwo) = 100"
proof -
  obtain db where db: "sp_Put spSample 0 sfPosting = Ret (Success, db)" "sp_inv db" "sp_view db = [0 \<mapsto> sfPosting]"
    "sp_freePages db = 9" "sp_blockLimit db = 4" "sp_next db \<le> 5" "ds_maxRows (sp_mapping db) = 100"
    using spSample_put [of sfPosting 0] by (auto simp: sfPosting_def)
  have "sp_pagesOf db 1 = 0" using db(3) by (simp add: sp_pagesOf_def)
  moreover have "pagesOf (length sfPosting1) = 1" by (rule pagesOf_1) (simp_all add: sfPosting1_def)
  ultimately obtain d2 where "sp_Put db 1 sfPosting1 = Ret (Success, d2)" "sp_inv d2"
    "sp_view d2 = [0 \<mapsto> sfPosting, 1 \<mapsto> sfPosting1]" "sp_freePages d2 = 8" "sp_blockLimit d2 = 4" "sp_next d2 \<le> 6"
    "ds_maxRows (sp_mapping d2) = 100"
    using Put_view [OF db(2), of 1 sfPosting1] db by (auto simp: noArray_def)
  then show "sp_inv spTwo" "sp_view spTwo = [0 \<mapsto> sfPosting, 1 \<mapsto> sfPosting1]" "sp_freePages spTwo = 8"
    "sp_blockLimit spTwo = 4" "sp_next spTwo \<le> 6" "ds_maxRows (sp_mapping spTwo) = 100"
    using db(1) by (simp_all add: spTwo_def)
qed

lemma spTwo_room:
  "sp_view spTwo k = Some v \<Longrightarrow> 0 < length v + length q \<Longrightarrow> length v + length q \<le> 4096 \<Longrightarrow> sp_canMerge spTwo k q"
  "b \<le> 100 \<Longrightarrow> n \<le> 4096 \<Longrightarrow> sp_roomy spTwo b [n]"
  using pagesOf_1 [of "length v + length q"] pagesOf_1 [of n] spTwo
  by (auto simp: sp_canMerge_def sp_roomy_def noArray_def) (cases "n = 0"; simp)+

lemma sfTwo:
  "sf_ok 1 1 1 sfTwo" "sf_heads sfTwo = {0, 1}" "sf_postings sfTwo = [0 \<mapsto> sfPosting, 1 \<mapsto> sfPosting1]"
  "dy_index sfTwo = bhTwo" "dy_versionMap sfTwo = vlSample" "sf_sizes sfTwo = [3, 1]" "dy_db sfTwo = spTwo"
  "sf_vec sfTwo 0 = [255]" "sf_vec sfTwo 1 = [12]" "dy_jobs sfTwo = []" "dy_splitList sfTwo = {}" "dy_mergeList sfTwo = {}"
  "dy_mergeLock sfTwo = False" "bh_GetNumSamples (dy_index sfTwo) = 2"
proof -
  show f: "dy_index sfTwo = bhTwo" "dy_versionMap sfTwo = vlSample" "dy_db sfTwo = spTwo"
    "dy_jobs sfTwo = []" "dy_splitList sfTwo = {}" "dy_mergeList sfTwo = {}" "dy_mergeLock sfTwo = False"
    by (simp_all add: sfTwo_def sfSample_def)
  have p: "dy_postingSizes sfTwo = psTwo" by (simp add: sfTwo_def)
  show n: "bh_GetNumSamples (dy_index sfTwo) = 2" using f bhTwo(2) by simp
  show "sf_ok 1 1 1 sfTwo" unfolding sf_ok_def f p using psTwo spTwo bhTwo vlSample by simp
  have "0 \<le> k \<and> k < 2 \<longleftrightarrow> k = 0 \<or> k = 1" for k :: int by auto
  then show "sf_heads sfTwo = {0, 1}" using f bhTwo by (auto simp: sf_heads_def)
  show "sf_postings sfTwo = [0 \<mapsto> sfPosting, 1 \<mapsto> sfPosting1]" using f spTwo by (simp add: sf_postings_def)
  show "sf_sizes sfTwo = [3, 1]" using p psTwo by (simp add: sf_sizes_def)
  show "sf_vec sfTwo 0 = [255]" "sf_vec sfTwo 1 = [12]" using f bhTwo by (simp_all add: sf_vec_def)
qed

section \<open>Split\<close>

text \<open>
  C5 \<open>Split\<close> on a posting whose live entries are below the limit collects its garbage: the posting keeps
  exactly its live entries, in their order and without re-reading what the compaction in place has
  overwritten, its recorded size is their number, and every other posting, the head index, the versions and
  the job queue stay as they were.
\<close>

theorem Split_collects_garbage:
  assumes "sf_ok dim e deg st" "5 \<le> en_vectorInfoSize en" "headID \<in> sf_heads st"
    and "sf_postings st headID = Some p" "sf_known en st p"
    and "en_inPlace en \<or> int (length (sf_live en st p)) < en_postingSizeLimit en"
    and "sp_roomy (dy_db st) (bh_GetNumSamples (dy_index st)) [length (sf_live en st p) * en_vectorInfoSize en]"
    and "int32_ok (int (length (sf_live en st p)))"
  shows "\<exists>st'. dy_Split (spdkEnv dim deg refine en) headID reassign False st = Ret (Success, st') \<and> sf_ok dim e deg st'
    \<and> sf_postings st' = (sf_postings st)(headID \<mapsto> concat (sf_live en st p))
    \<and> entriesOf (en_vectorInfoSize en) (concat (sf_live en st p)) = sf_live en st p
    \<and> sf_sizes st' = (sf_sizes st)[nat headID := int (length (sf_live en st p))]
    \<and> dy_index st' = dy_index st \<and> dy_versionMap st' = dy_versionMap st \<and> dy_jobs st' = dy_jobs st
    \<and> dy_splitList st' = dy_splitList st - {headID}"
proof -
  have "entriesOf (en_vectorInfoSize en) (concat (sf_live en st p)) = sf_live en st p"
    using assms(2) by (intro entriesOf_concat) (auto simp: sf_live_def liveEntries_def entriesOf_width)
  then show ?thesis
    using spfresh.Split_GC [of dim deg refine en e st headID p False "bh_GetNumSamples (dy_index st)" reassign,
        unfolded sf_eqs spdkEnv_simps] assms sf_head_bound [OF assms(3)] by auto
qed

theorem Split_collects_garbage_witness:
  "\<exists>st'. dy_Split (spdkEnv 1 1 (\<lambda>h n. bh_graph h) (sfEnvSample 3 noKm)) 0 True False sfSample = Ret (Success, st')
    \<and> sf_postings st' = [0 \<mapsto> [0, 0, 0, 0, 255, 10, 1, 0, 0, 0, 255, 20]] \<and> sf_sizes st' = [2]"
proof -
  have v: "en_vectorInfoSize (sfEnvSample 3 noKm) = 6" "en_postingSizeLimit (sfEnvSample 3 noKm) = 3"
    by (simp_all add: sfEnvSample_def)
  have r: "sp_roomy (dy_db sfSample) 1 [12]" by (rule sfSample) simp_all
  obtain x where "sf_sizes sfSample = [x]" using sfSample(9) by (auto simp: length_Suc_conv)
  then show ?thesis
    using Split_collects_garbage [of 1 1 1 sfSample "sfEnvSample 3 noKm" 0 sfPosting "\<lambda>h n. bh_graph h" True] sfSample v r
    by (auto simp: int32_ok_def)
qed

text \<open>
  When the clustering of an oversized posting finds a single cluster, \<open>Split\<close> keeps one entry of the
  posting and drops all others, live ones of other vectors included.
\<close>

theorem Split_single_cluster_keeps_one:
  assumes "sf_ok dim e deg st" "5 \<le> en_vectorInfoSize en" "headID \<in> sf_heads st"
    and "sf_postings st headID = Some p" "sf_known en st p"
    and "\<not> en_inPlace en" "en_postingSizeLimit en \<le> int (length (sf_live en st p))"
    and "km = en_Kmeans en (map entryVector (entriesOf (en_vectorInfoSize en) p))
       (filter (\<lambda>j. liveEntry (dy_versionMap st) (entriesOf (en_vectorInfoSize en) p ! j)) [0 ..< length p div en_vectorInfoSize en])"
    and "km_numClusters km \<le> 1" "km_indices km = l # ls" "l < length p div en_vectorInfoSize en"
    and "sp_roomy (dy_db st) (bh_GetNumSamples (dy_index st)) [en_vectorInfoSize en]"
  shows "\<exists>st'. dy_Split (spdkEnv dim deg refine en) headID reassign False st = Ret (Success, st') \<and> sf_ok dim e deg st'
    \<and> sf_postings st' = (sf_postings st)(headID \<mapsto> entriesOf (en_vectorInfoSize en) p ! l)
    \<and> sf_sizes st' = (sf_sizes st)[nat headID := 1] \<and> dy_index st' = dy_index st \<and> dy_jobs st' = dy_jobs st"
  using spfresh.Split_keepOne [of dim deg refine en e st headID p False km l ls "bh_GetNumSamples (dy_index st)" reassign,
      unfolded sf_eqs spdkEnv_simps] assms sf_head_bound [OF assms(3)] by auto

theorem Split_single_cluster_keeps_one_witness:
  "\<exists>st'. dy_Split (spdkEnv 1 1 (\<lambda>h n. bh_graph h) (sfEnvSample 2 \<lparr>km_numClusters = 1, km_indices = [1, 0], km_counts = [2, 0],
      km_centers = [[10], [10]]\<rparr>)) 0 False False sfSample = Ret (Success, st')
    \<and> sf_postings st' = [0 \<mapsto> [1, 0, 0, 0, 255, 20]] \<and> sf_sizes st' = [1]"
proof -
  let ?km = "\<lparr>km_numClusters = 1, km_indices = [1, 0], km_counts = [2, 0], km_centers = [[10], [10]]\<rparr> :: kmeansResult"
  let ?en = "sfEnvSample 2 ?km"
  have v: "en_vectorInfoSize ?en = 6" "en_postingSizeLimit ?en = 2" "\<not> en_inPlace ?en" "\<And>a b. en_Kmeans ?en a b = ?km"
    by (simp_all add: sfEnvSample_def)
  have r: "sp_roomy (dy_db sfSample) 1 [6]" by (rule sfSample) simp_all
  have n: "length sfPosting = 18" by (simp add: sfPosting_def)
  obtain x where "sf_sizes sfSample = [x]" using sfSample(9) by (auto simp: length_Suc_conv)
  then show ?thesis
    using Split_single_cluster_keeps_one [of 1 1 1 sfSample ?en 0 sfPosting ?km 1 "[0]" "\<lambda>h n. bh_graph h" False]
      sfSample v r n by (auto simp: sfSample_entries)
qed

text \<open>
  When the clustering splits an oversized posting in two, the live entries are divided between two
  postings, none lost and none doubled; at most one of them keeps the old head, the other heads are new ones
  holding their cluster's centre; the recorded sizes are the numbers of entries, and a head that is replaced
  leaves the head index. The old posting of a replaced head is still stored. With reassignment the scan of
  \<open>CollectReAssign\<close> follows on that state.
\<close>

theorem Split_two_clusters:
  assumes "sf_ok dim e deg st" "5 \<le> en_vectorInfoSize en" "headID \<in> sf_heads st"
    and "sf_postings st headID = Some p" "sf_known en st p"
    and "\<not> en_inPlace en" "en_postingSizeLimit en \<le> int (length (sf_live en st p))"
    and "ls = filter (\<lambda>j. liveEntry (dy_versionMap st) (entriesOf (en_vectorInfoSize en) p ! j)) [0 ..< length p div en_vectorInfoSize en]"
    and "km = en_Kmeans en (map entryVector (entriesOf (en_vectorInfoSize en) p)) ls"
    and "1 < km_numClusters km" "km_ok km ls (dim * e)" "int32_ok (int (length (sf_live en st p)))"
    and "bh_GetNumSamples (dy_index st) + 2 \<le> bh_room (dy_index st)"
    and "bh_GetNumSamples (dy_index st) + 2 \<le> ds_maxRows (dy_postingSizes st)"
    and "sp_roomy (dy_db st) (bh_GetNumSamples (dy_index st) + 2) (map (\<lambda>c. c * en_vectorInfoSize en) (km_counts km))"
  shows "\<exists>h0 h1 es0 es1 st'. dy_Split (spdkEnv dim deg refine en) headID reassign False st =
      (if reassign
       then andThen (dy_CollectReAssign (spdkEnv dim deg refine en) headID [concat es0, concat es1] [h0, h1] st')
              (\<lambda>(ec, st4). Ret (Success, st4))
       else Ret (Success, st'))
    \<and> sf_ok dim e deg st' \<and> h0 \<noteq> h1
    \<and> sf_postings st' = (sf_postings st)(h0 \<mapsto> concat es0, h1 \<mapsto> concat es1)
    \<and> mset es0 + mset es1 = mset (sf_live en st p)
    \<and> sf_sizes st' ! nat h0 = int (length es0) \<and> sf_sizes st' ! nat h1 = int (length es1)
    \<and> sf_heads st' = sf_heads st - {headID} \<union> {h0, h1}
    \<and> (headID \<notin> {h0, h1} \<longrightarrow> sf_sizes st' ! nat headID = 0 \<and> sf_postings st' headID = Some p)
    \<and> dy_versionMap st' = dy_versionMap st \<and> dy_jobs st' = dy_jobs st \<and> dy_splitList st' = dy_splitList st - {headID}"
proof -
  obtain h0 h1 es0 es1 st' where r: "dy_Split (spdkEnv dim deg refine en) headID reassign False st =
      (if reassign
       then andThen (dy_CollectReAssign (spdkEnv dim deg refine en) headID [concat es0, concat es1] [h0, h1] st')
              (\<lambda>(ec, st4). Ret (Success, st4))
       else Ret (Success, st'))" "sf_ok dim e deg st'"
      "dyn_searcher.splitDone (spdkEnv dim deg refine en) sp_view bh_gone st st' headID h0 h1 es0 es1"
      "mset es0 + mset es1 = mset (sf_live en st p)" "dy_versionMap st' = dy_versionMap st" "dy_jobs st' = dy_jobs st"
      "dy_splitList st' = dy_splitList st - {headID}"
    using spfresh.Split_two [of dim deg refine en e st headID p ls km "bh_GetNumSamples (dy_index st) + 2" reassign,
        unfolded sf_eqs spdkEnv_simps] assms by auto
  note d = r(3) [unfolded spfresh.splitDone_def sf_eqs]
  have "sf_ok dim e deg st' \<and> h0 \<noteq> h1
    \<and> sf_postings st' = (sf_postings st)(h0 \<mapsto> concat es0, h1 \<mapsto> concat es1)
    \<and> mset es0 + mset es1 = mset (sf_live en st p)
    \<and> sf_sizes st' ! nat h0 = int (length es0) \<and> sf_sizes st' ! nat h1 = int (length es1)
    \<and> sf_heads st' = sf_heads st - {headID} \<union> {h0, h1}
    \<and> (headID \<notin> {h0, h1} \<longrightarrow> sf_sizes st' ! nat headID = 0 \<and> sf_postings st' headID = Some p)
    \<and> dy_versionMap st' = dy_versionMap st \<and> dy_jobs st' = dy_jobs st \<and> dy_splitList st' = dy_splitList st - {headID}"
    using d r(2,4-7) assms(4) by simp
  from conjI [OF r(1) this] show ?thesis by (intro exI)
qed

theorem Split_two_clusters_witness:
  "\<exists>h0 h1 es0 es1 st'. dy_Split (spdkEnv 1 1 (\<lambda>h n. bh_graph h) (sfEnvSample 2 \<lparr>km_numClusters = 2, km_indices = [1, 0],
      km_counts = [1, 1], km_centers = [[20], [10]]\<rparr>)) 0 False False sfSample = Ret (Success, st')
    \<and> sf_postings st' = [0 \<mapsto> sfPosting, h0 \<mapsto> concat es0, h1 \<mapsto> concat es1]
    \<and> mset es0 + mset es1 = {#[0, 0, 0, 0, 255, 10], [1, 0, 0, 0, 255, 20]#}"
proof -
  let ?km = "\<lparr>km_numClusters = 2, km_indices = [1, 0], km_counts = [1, 1], km_centers = [[20], [10]]\<rparr> :: kmeansResult"
  let ?en = "sfEnvSample 2 ?km"
  have v: "en_vectorInfoSize ?en = 6" "en_postingSizeLimit ?en = 2" "\<not> en_inPlace ?en" "\<And>a b. en_Kmeans ?en a b = ?km"
    by (simp_all add: sfEnvSample_def)
  let ?ls = "filter (\<lambda>j. liveEntry (dy_versionMap sfSample) (entriesOf 6 sfPosting ! j)) [0 ..< length sfPosting div 6]"
  have lv: "liveEntry (dy_versionMap sfSample) [0, 0, 0, 0, 255, 10]" "liveEntry (dy_versionMap sfSample) [1, 0, 0, 0, 255, 20]"
    "\<not> liveEntry (dy_versionMap sfSample) [2, 0, 0, 0, 3, 30]"
    using sfSample(5) [of 2 ?km] v(1) by (auto simp: sf_live_def liveEntries_def sfSample_entries split: if_splits)
  have "[0 ..< length sfPosting div 6] = [0, 1, 2]" by (simp add: sfPosting_def upt_rec)
  then have "?ls = [0, 1]" using lv by (simp add: sfSample_entries)
  then have km: "km_ok ?km ?ls (1 * 1)" by (simp add: km_ok_def)
  have r: "sp_roomy (dy_db sfSample) 3 [6, 6]" by (rule sfSample) simp_all
  have prem: "5 \<le> en_vectorInfoSize ?en" "0 \<in> sf_heads sfSample" "sf_postings sfSample 0 = Some sfPosting"
    "en_postingSizeLimit ?en \<le> int (length (sf_live ?en sfSample sfPosting))"
    "?ls = filter (\<lambda>j. liveEntry (dy_versionMap sfSample) (entriesOf (en_vectorInfoSize ?en) sfPosting ! j))
        [0 ..< length sfPosting div en_vectorInfoSize ?en]"
    "?km = en_Kmeans ?en (map entryVector (entriesOf (en_vectorInfoSize ?en) sfPosting)) ?ls"
    "1 < km_numClusters ?km" "int32_ok (int (length (sf_live ?en sfSample sfPosting)))"
    "bh_GetNumSamples (dy_index sfSample) + 2 \<le> bh_room (dy_index sfSample)"
    "bh_GetNumSamples (dy_index sfSample) + 2 \<le> ds_maxRows (dy_postingSizes sfSample)"
    "sp_roomy (dy_db sfSample) (bh_GetNumSamples (dy_index sfSample) + 2)
       (map (\<lambda>c. c * en_vectorInfoSize ?en) (km_counts ?km))"
    using sfSample(2,3,6,7,8) sfSample(5) [of 2 ?km] v r bhSample(4) by (simp_all add: int32_ok_def)
  note T = Split_two_clusters [where refine = "\<lambda>h n. bh_graph h" and reassign = False and deg = 1,
      OF sfSample(1) prem(1-3) sfSample(4) v(3) prem(4-7) km prem(8-11)]
  obtain h0 h1 es0 es1 st' where "dy_Split (spdkEnv 1 1 (\<lambda>h n. bh_graph h) ?en) 0 False False sfSample = Ret (Success, st')"
    "sf_postings st' = (sf_postings sfSample)(h0 \<mapsto> concat es0, h1 \<mapsto> concat es1)"
    "mset es0 + mset es1 = mset (sf_live ?en sfSample sfPosting)"
    using T unfolding if_False by blast
  then show ?thesis unfolding sfSample(3) sfSample(5) by (intro exI conjI) simp_all
qed

end
