(* ===== verification/BuildProps.thy ===== *)
theory BuildProps
  imports IndexBuild StaticProps
begin

text \<open>
  What the selection stage of \<open>BuildIndex\<close> computes, however many batches it works in, and what the cut leaves of
  every posting.
\<close>

section \<open>Rows of selections\<close>

text \<open>The heads chosen for vector \<open>j\<close>; a head itself chooses none. Its row holds them, filled up with empty edges.\<close>

definition chosen :: "('f :: linorder) buildEnv \<Rightarrow> int set \<Rightarrow> bytes list \<Rightarrow> nat \<Rightarrow> (int \<times> 'f) list" where
  "chosen en heads vectors j = (if int j \<in> heads then [] else ar_pick en [] (bd_search en (vectors ! j)))"

definition rowOf :: "nat \<Rightarrow> 'f \<Rightarrow> int \<Rightarrow> (int \<times> 'f) list \<Rightarrow> 'f edge list" where
  "rowOf r md tonode ps = map (\<lambda>(n, d). Edge n tonode d) ps @ replicate (r - length ps) (edge_default md)"

lemma length_rowOf: "length ps \<le> r \<Longrightarrow> length (rowOf r md t ps) = r"
  by (simp add: rowOf_def)

lemma pick_length: "length c \<le> bd_replicaCount en \<Longrightarrow> length (ar_pick en c rs) \<le> bd_replicaCount en"
  by (induction en c rs rule: ar_pick.induct) auto

lemma chosen_length: "length (chosen en heads vectors j) \<le> bd_replicaCount en"
  by (simp add: chosen_def pick_length)

lemma pick_heads: "n \<in> fst ` set (ar_pick en c rs) \<Longrightarrow> n \<in> fst ` set c \<or> n \<in> VID ` set rs \<and> n \<noteq> - 1"
  by (induction en c rs rule: ar_pick.induct) (auto split: if_splits)

lemma ar_write_ok: "ar_write (length pre) ps (pre @ replicate (length ps) (edge_default md) @ post) = Inr (pre @ map (\<lambda>(n, d). Edge n MaxSize d) ps @ post)"
proof (induction ps arbitrary: pre)
  case Nil
  then show ?case by simp
next
  case (Cons p ps)
  obtain n d where p: "p = (n, d)" by (cases p)
  have "ar_write (Suc (length pre)) ps ((pre @ replicate (length (p # ps)) (edge_default md) @ post)[length pre := Edge n MaxSize d])
      = ar_write (length (pre @ [Edge n MaxSize d])) ps ((pre @ [Edge n MaxSize d]) @ replicate (length ps) (edge_default md) @ post)"
    by (simp add: list_update_append)
  also have "\<dots> = Inr ((pre @ [Edge n MaxSize d]) @ map (\<lambda>(n, d). Edge n MaxSize d) ps @ post)" by (rule Cons.IH)
  finally show ?case by (simp add: p nth_append edge_default_def)
qed

lemma row_write:
  "length ps \<le> r \<Longrightarrow> ar_write (length pre) ps (pre @ replicate r (edge_default md) @ post) = Inr (pre @ rowOf r md MaxSize ps @ post)"
proof -
  assume l: "length ps \<le> r"
  then have "replicate r (edge_default md) = replicate (length ps) (edge_default md) @ replicate (r - length ps) (edge_default md)"
    by (simp flip: replicate_add)
  then show ?thesis using ar_write_ok [of pre ps md "replicate (r - length ps) (edge_default md) @ post"] by (simp add: rowOf_def)
qed

definition rows :: "nat \<Rightarrow> 'f \<Rightarrow> (nat \<Rightarrow> int) \<Rightarrow> (nat \<Rightarrow> (int \<times> 'f) list) \<Rightarrow> nat list \<Rightarrow> 'f edge list" where
  "rows r md to ch js = concat (map (\<lambda>j. rowOf r md (to j) (ch j)) js)"

lemma length_rows: "(\<And>j. length (ch j) \<le> r) \<Longrightarrow> length (rows r md to ch js) = length js * r"
  by (induction js) (simp_all add: rows_def length_rowOf)

lemma rows_append: "rows r md to ch (xs @ ys) = rows r md to ch xs @ rows r md to ch ys"
  by (simp add: rows_def)

text \<open>\<open>ApproximateRNG\<close> fills one row per vector of the batch that starts at vector \<open>s\<close>.\<close>

lemma RNG_rows:
  assumes except: "\<forall>i < length vs. (int i \<in> ex) = (int (s + i) \<in> heads)" and vs: "\<forall>i < length vs. vs ! i = vectors ! (s + i)"
  shows "ApproximateRNG en vs ex (replicate (length vs * bd_replicaCount en) (edge_default md))
     = Inr (rows (bd_replicaCount en) md (\<lambda>_. MaxSize) (chosen en heads vectors) [s ..< s + length vs])"
proof -
  let ?r = "bd_replicaCount en" and ?n = "length vs"
  let ?f = "\<lambda>fullID es. if int fullID \<in> ex then Inr es else ar_write (fullID * ?r) (ar_pick en [] (bd_search en (vs ! fullID))) es"
  have "foldE ?f [0 ..< k] (replicate (?n * ?r) (edge_default md))
     = Inr (rows ?r md (\<lambda>_. MaxSize) (chosen en heads vectors) [s ..< s + k] @ replicate ((?n - k) * ?r) (edge_default md))" if "k \<le> ?n" for k
    using that
  proof (induction k)
    case 0
    then show ?case by (simp add: rows_def)
  next
    case (Suc k)
    let ?done = "rows ?r md (\<lambda>_. MaxSize) (chosen en heads vectors) [s ..< s + k]"
    have k: "k < ?n" using Suc.prems by simp
    have "(?n - k) * ?r = ?r + (?n - Suc k) * ?r" using k by (metis Suc_diff_Suc mult_Suc)
    then have rest: "replicate ((?n - k) * ?r) (edge_default md) = replicate ?r (edge_default md) @ replicate ((?n - Suc k) * ?r) (edge_default md)"
      by (simp add: replicate_add)
    have l: "length ?done = k * ?r" by (subst length_rows) (simp_all add: chosen_length)
    have step: "?f k (?done @ replicate ?r (edge_default md) @ replicate ((?n - Suc k) * ?r) (edge_default md))
        = Inr (?done @ rowOf ?r md MaxSize (chosen en heads vectors (s + k)) @ replicate ((?n - Suc k) * ?r) (edge_default md))"
    proof (cases "int k \<in> ex")
      case True
      then have "int (s + k) \<in> heads" using except k by blast
      then show ?thesis using True by (simp add: chosen_def rowOf_def)
    next
      case False
      then have "int (s + k) \<notin> heads" using except k by blast
      then have c: "chosen en heads vectors (s + k) = ar_pick en [] (bd_search en (vs ! k))" using vs k by (simp add: chosen_def)
      show ?thesis using row_write [OF chosen_length [of en heads vectors "s + k"], where pre = ?done and md = md and post = "replicate ((?n - Suc k) * ?r) (edge_default md)"] False
        unfolding c l by simp
    qed
    have IH: "foldE ?f [0 ..< k] (replicate (?n * ?r) (edge_default md)) = Inr (?done @ replicate ((?n - k) * ?r) (edge_default md))"
      using Suc by simp
    have "foldE ?f [0 ..< Suc k] (replicate (?n * ?r) (edge_default md)) = ?f k (?done @ replicate ((?n - k) * ?r) (edge_default md))"
      unfolding upt_Suc_append [OF le0] foldE_append IH thenE.simps foldE.simps
      by (cases "?f k (?done @ replicate ((?n - k) * ?r) (edge_default md))") simp_all
    then show ?case unfolding rest step by (simp add: rows_append) (simp add: rows_def)
  qed
  from this [of ?n] show ?thesis by (simp add: ApproximateRNG_def)
qed

section \<open>Counting\<close>

text \<open>How often head \<open>i\<close> was chosen by the vectors \<open>js\<close>.\<close>

definition chosenBy :: "(nat \<Rightarrow> (int \<times> 'f) list) \<Rightarrow> nat list \<Rightarrow> int \<Rightarrow> int" where
  "chosenBy ch js i = int (length (filter (\<lambda>p. fst p = i) (concat (map ch js))))"

definition headsOk :: "nat \<Rightarrow> nat \<Rightarrow> (nat \<Rightarrow> (int \<times> 'f) list) \<Rightarrow> bool" where
  "headsOk n samples ch \<longleftrightarrow> (\<forall>j < n. \<forall>p \<in> set (ch j). 0 \<le> fst p \<and> fst p < int samples \<and> fst p \<noteq> MaxSize)"

lemma chosenBy_Nil [simp]: "chosenBy (\<lambda>_. []) js i = 0"
  by (simp add: chosenBy_def)

lemma addAt_ok: "0 \<le> i \<Longrightarrow> i < int (length xs) \<Longrightarrow> addAt xs i d = Inr (xs[nat i := xs ! nat i + d])"
  by (simp add: addAt_def)

text \<open>One vector: its row, at \<open>off\<close>, gets the vector's id, the counters of its heads go up.\<close>

lemma countReplicas_ok:
  assumes st: "off = se_start (bl_selections b) + length pre" and
    se: "se_selections (bl_selections b) = pre @ map (\<lambda>(n, d). Edge n MaxSize d) ps @ replicate m (edge_default md) @ post"
    and m: "n = length ps + m" and ps: "\<forall>p \<in> set ps. 0 \<le> fst p \<and> fst p < int (length (bl_sizes b)) \<and> fst p \<noteq> MaxSize"
    and j: "j < length (bl_replicaCount b)"
  shows "bd_countReplicas n off j b = Inr (b\<lparr>
      bl_selections := (bl_selections b)\<lparr>se_selections := pre @ map (\<lambda>(n, d). Edge n (int j) d) ps @ replicate m (edge_default md) @ post\<rparr>,
      bl_sizes := map (\<lambda>i. bl_sizes b ! i + chosenBy (\<lambda>_. ps) [0] (int i)) [0 ..< length (bl_sizes b)],
      bl_replicaCount := (bl_replicaCount b)[j := bl_replicaCount b ! j + int (length ps)]\<rparr>)"
  using assms
proof (induction ps arbitrary: n off b pre)
  case Nil
  show ?case
  proof (cases m)
    case 0
    then show ?thesis using Nil by (cases b) (simp add: list_update_same_conv map_nth)
  next
    case (Suc k)
    have "se_at (bl_selections b) off = Inr (edge_default md)"
      using Nil(1,2) Suc by (simp add: se_at_def idxE_def nth_append)
    then show ?thesis using Nil Suc by (cases b) (simp add: edge_default_def map_nth)
  qed
next
  case (Cons p ps)
  obtain h d where p: "p = (h, d)" by (cases p)
  let ?se = "bl_selections b"
  have n: "n = Suc (length ps + m)" using Cons.prems(3) by simp
  have at: "se_at ?se off = Inr (Edge h MaxSize d)" using Cons.prems(1,2) p by (simp add: se_at_def idxE_def nth_append)
  have h: "0 \<le> h" "h < int (length (bl_sizes b))" "h \<noteq> MaxSize" using Cons.prems(4) p by auto
  have i: "off - se_start ?se = length pre" using Cons.prems(1) by simp
  let ?sizes = "(bl_sizes b)[nat h := bl_sizes b ! nat h + 1]" and ?reps = "(bl_replicaCount b)[j := bl_replicaCount b ! j + 1]"
  let ?b = "b\<lparr>bl_sizes := ?sizes, bl_replicaCount := ?reps,
     bl_selections := ?se\<lparr>se_selections := (se_selections ?se)[length pre := Edge h (int j) d]\<rparr>\<rparr>"
  have step: "bd_countReplicas n off j b = bd_countReplicas (length ps + m) (Suc off) j ?b"
    unfolding n using at h Cons.prems(5) i by (simp add: addAt_ok Let_def)
  have se': "se_selections (bl_selections ?b) = (pre @ [Edge h (int j) d]) @ map (\<lambda>(n, d). Edge n MaxSize d) ps @ replicate m (edge_default md) @ post"
    using Cons.prems(2) p by (simp add: list_update_append)
  have IH: "bd_countReplicas (length ps + m) (Suc off) j ?b = Inr (?b\<lparr>
      bl_selections := (bl_selections ?b)\<lparr>se_selections := (pre @ [Edge h (int j) d]) @ map (\<lambda>(n, d). Edge n (int j) d) ps @ replicate m (edge_default md) @ post\<rparr>,
      bl_sizes := map (\<lambda>i. bl_sizes ?b ! i + chosenBy (\<lambda>_. ps) [0] (int i)) [0 ..< length (bl_sizes ?b)],
      bl_replicaCount := (bl_replicaCount ?b)[j := bl_replicaCount ?b ! j + int (length ps)]\<rparr>)"
    by (rule Cons.IH) (use Cons.prems se' in \<open>simp_all\<close>)
  have sz: "map (\<lambda>i. bl_sizes ?b ! i + chosenBy (\<lambda>_. ps) [0] (int i)) [0 ..< length (bl_sizes ?b)]
      = map (\<lambda>i. bl_sizes b ! i + chosenBy (\<lambda>_. p # ps) [0] (int i)) [0 ..< length (bl_sizes b)]"
    using h by (auto simp: chosenBy_def p nth_list_update)
  show ?case unfolding step IH sz using Cons.prems(5) p by (simp add: add.assoc)
qed

definition counted :: "('f :: linorder) buildEnv \<Rightarrow> 'f \<Rightarrow> (nat \<Rightarrow> (int \<times> 'f) list) \<Rightarrow> nat list \<Rightarrow> 'f edge list \<Rightarrow> 'f edge list \<Rightarrow> 'f building \<Rightarrow> 'f building" where
  "counted en md ch js pre post b = b\<lparr>
      bl_selections := (bl_selections b)\<lparr>se_selections := pre @ rows (bd_replicaCount en) md int ch js @ post\<rparr>,
      bl_sizes := map (\<lambda>i. bl_sizes b ! i + chosenBy ch js (int i)) [0 ..< length (bl_sizes b)],
      bl_replicaCount := fold (\<lambda>j reps. reps[j := int (length (ch j))]) js (bl_replicaCount b)\<rparr>"

lemma countVector_ok:
  assumes ch: "ch = chosen en heads vectors" and heads: "headsOk (length (bl_replicaCount b)) (length (bl_sizes b)) ch"
    and st: "j * bd_replicaCount en = se_start (bl_selections b) + length pre"
    and se: "se_selections (bl_selections b) = pre @ rowOf (bd_replicaCount en) md MaxSize (ch j) @ post"
    and j: "j < length (bl_replicaCount b)"
  shows "bd_countVector en heads j b = Inr (counted en md ch [j] pre post b)"
proof (cases "int j \<in> heads")
  case True
  then have c: "ch j = []" by (simp add: ch chosen_def)
  have "bl_sizes b = map (\<lambda>i. bl_sizes b ! i + chosenBy ch [j] (int i)) [0 ..< length (bl_sizes b)]" by (simp add: chosenBy_def c map_nth)
  moreover have "se_selections (bl_selections b) = pre @ rows (bd_replicaCount en) md int ch [j] @ post" using se by (simp add: rows_def c rowOf_def)
  ultimately show ?thesis using True j c by (cases b) (cases "bl_selections b", simp add: bd_countVector_def counted_def)
next
  case False
  let ?r = "bd_replicaCount en" and ?b = "b\<lparr>bl_replicaCount := (bl_replicaCount b)[j := 0]\<rparr>"
  have l: "length (ch j) \<le> ?r" by (simp add: ch chosen_length)
  have se': "se_selections (bl_selections ?b) = pre @ map (\<lambda>(n, d). Edge n MaxSize d) (ch j) @ replicate (?r - length (ch j)) (edge_default md) @ post"
    using se by (simp add: rowOf_def)
  have "bd_countReplicas ?r (j * ?r) j ?b = Inr (?b\<lparr>
      bl_selections := (bl_selections ?b)\<lparr>se_selections := pre @ map (\<lambda>(n, d). Edge n (int j) d) (ch j) @ replicate (?r - length (ch j)) (edge_default md) @ post\<rparr>,
      bl_sizes := map (\<lambda>i. bl_sizes ?b ! i + chosenBy (\<lambda>_. ch j) [0] (int i)) [0 ..< length (bl_sizes ?b)],
      bl_replicaCount := (bl_replicaCount ?b)[j := bl_replicaCount ?b ! j + int (length (ch j))]\<rparr>)"
    by (rule countReplicas_ok) (use st se' l heads j in \<open>auto simp: headsOk_def\<close>)
  then show ?thesis using False j by (simp add: bd_countVector_def counted_def rows_def rowOf_def chosenBy_def)
qed

lemma chosenBy_append: "chosenBy ch (xs @ ys) i = chosenBy ch xs i + chosenBy ch ys i"
  by (simp add: chosenBy_def)

lemma countVectors_ok:
  assumes ch: "ch = chosen en heads vectors"
  shows "headsOk (length (bl_replicaCount b)) (length (bl_sizes b)) ch \<Longrightarrow> s * bd_replicaCount en = se_start (bl_selections b) + length pre \<Longrightarrow>
    se_selections (bl_selections b) = pre @ rows (bd_replicaCount en) md (\<lambda>_. MaxSize) ch [s ..< s + k] @ post \<Longrightarrow>
    s + k \<le> length (bl_replicaCount b) \<Longrightarrow>
    foldE (bd_countVector en heads) [s ..< s + k] b = Inr (counted en md ch [s ..< s + k] pre post b)"
proof (induction k arbitrary: s b pre)
  case 0
  then show ?case by (cases b) (cases "bl_selections b", simp add: counted_def rows_def chosenBy_def map_nth)
next
  case (Suc k)
  let ?r = "bd_replicaCount en" and ?row = "rowOf (bd_replicaCount en) md MaxSize (ch s)"
  let ?post = "rows (bd_replicaCount en) md (\<lambda>_. MaxSize) ch [Suc s ..< Suc s + k] @ post"
  have up: "[s ..< s + Suc k] = s # [Suc s ..< Suc s + k]" by (simp add: upt_conv_Cons)
  have se: "se_selections (bl_selections b) = pre @ ?row @ ?post" using Suc.prems(3) unfolding up by (simp add: rows_def)
  have one: "bd_countVector en heads s b = Inr (counted en md ch [s] pre ?post b)"
    using Suc.prems(4) by (intro countVector_ok [OF ch Suc.prems(1,2) se]) simp
  let ?b = "counted en md ch [s] pre ?post b"
  let ?pre = "pre @ rows ?r md int ch [s]"
  have lr: "length (rows ?r md int ch [s]) = ?r" by (simp add: rows_def length_rowOf chosen_length ch)
  have IH: "foldE (bd_countVector en heads) [Suc s ..< Suc s + k] ?b = Inr (counted en md ch [Suc s ..< Suc s + k] ?pre post ?b)"
    by (rule Suc.IH) (use Suc.prems lr in \<open>simp_all add: counted_def\<close>)
  have "counted en md ch [Suc s ..< Suc s + k] ?pre post ?b = counted en md ch (s # [Suc s ..< Suc s + k]) pre post b"
    using rows_append [of ?r md int ch "[s]" "[Suc s ..< Suc s + k]"] chosenBy_append [of ch "[s]" "[Suc s ..< Suc s + k]"]
    by (simp add: counted_def add.assoc)
  then show ?case unfolding up foldE.simps one thenE.simps IH by simp
qed

section \<open>Batches\<close>

text \<open>The selections and counters when the vectors before \<open>k\<close> are done; with several batches they are in the file.\<close>

definition doneRows :: "('f :: linorder) buildEnv \<Rightarrow> 'f \<Rightarrow> (nat \<Rightarrow> (int \<times> 'f) list) \<Rightarrow> nat \<Rightarrow> nat \<Rightarrow> 'f edge list" where
  "doneRows en md ch n k = rows (bd_replicaCount en) md int ch [0 ..< k] @ replicate ((n - k) * bd_replicaCount en) (edge_default md)"

definition buildAt :: "('f :: linorder) buildEnv \<Rightarrow> 'f \<Rightarrow> (nat \<Rightarrow> (int \<times> 'f) list) \<Rightarrow> nat \<Rightarrow> nat \<Rightarrow> nat \<Rightarrow> 'f building \<Rightarrow> bool" where
  "buildAt en md ch n samples k b \<longleftrightarrow>
     bl_sizes b = map (\<lambda>i. chosenBy ch [0 ..< k] (int i)) [0 ..< samples] \<and>
     bl_replicaCount b = map (\<lambda>j. if j < k then int (length (ch j)) else 0) [0 ..< n] \<and>
     (if bd_batches en > 1 then se_tmpfile (bl_selections b) = Some (doneRows en md ch n k)
      else se_selections (bl_selections b) = doneRows en md ch n k \<and> se_start (bl_selections b) = 0)"

lemma rows_const: "rows r md (\<lambda>_. MaxSize) (\<lambda>_. []) js = replicate (length js * r) (edge_default md)"
  by (induction js) (simp_all add: rows_def rowOf_def replicate_add)

lemma fold_set_counts:
  "s + k \<le> n \<Longrightarrow> fold (\<lambda>j reps. reps[j := f j]) [s ..< s + k] (map (\<lambda>j. if j < s then f j else 0) [0 ..< n])
     = map (\<lambda>j. if j < s + k then f j else (0 :: int)) [0 ..< n]"
proof (induction k)
  case 0
  then show ?case by simp
next
  case (Suc k)
  have "(map (\<lambda>j. if j < s + k then f j else 0) [0 ..< n])[s + k := f (s + k)] = map (\<lambda>j. if j < s + Suc k then f j else (0 :: int)) [0 ..< n]"
    using Suc.prems by (intro nth_equalityI) (auto simp: nth_list_update)
  then show ?case using Suc by simp
qed

lemma batch_ok:
  assumes norm: "bd_normalize en = map f" and ch: "ch = chosen en heads (map f vectors)" and heads: "headsOk n samples ch"
    and n: "length vectors = n" and bs: "bs = (n + bd_batches en - 1) div bd_batches en" "0 < bd_batches en"
    and at: "buildAt en md ch n samples (min (i * bs) n) b" and start: "i * bs \<le> n"
    and one: "bd_batches en = 1 \<Longrightarrow> i = 0"
  shows "\<exists>b'. bd_batch en heads vectors n i b = Inr (Some b') \<and> buildAt en md ch n samples (min (Suc i * bs) n) b'"
proof -
  let ?r = "bd_replicaCount en" and ?start = "i * bs"
  define e where "e = min (?start + bs) n"
  have se: "?start \<le> e" "e \<le> n" using start by (simp_all add: e_def)
  have en': "min (Suc i * bs) n = e" by (simp add: e_def add.commute)
  define k where "k = e - ?start"
  have k: "e = ?start + k" using se by (simp add: k_def)
  let ?file = "doneRows en md ch n ?start"
  let ?pre = "rows ?r md int ch [0 ..< ?start]" and ?post = "replicate ((n - e) * ?r) (edge_default md)"
  have lpre: "length ?pre = ?start * ?r" by (subst length_rows) (simp_all add: ch chosen_length)
  have "n - ?start = k + (n - e)" using se k by simp
  then have mid: "?file = ?pre @ replicate (k * ?r) (edge_default md) @ ?post"
    by (simp add: doneRows_def add_mult_distrib replicate_add)
  let ?ws = "map f (take k (drop ?start vectors))"
  have lw: "length ?ws = k" using n k se by simp
  have ws: "\<forall>j < length ?ws. ?ws ! j = map f vectors ! (?start + j)" using n k se by simp
  let ?raw = "rows ?r md (\<lambda>_. MaxSize) ch [?start ..< ?start + k]" and ?done = "rows ?r md int ch [?start ..< ?start + k]"
  have rng: "ApproximateRNG en ?ws ex (replicate (k * ?r) (edge_default md)) = Inr ?raw"
    if "\<forall>j < k. (int j \<in> ex) = (int (?start + j) \<in> heads)" for ex
  proof -
    have "\<forall>j < length ?ws. (int j \<in> ex) = (int (?start + j) \<in> heads)" unfolding lw by (rule that)
    from RNG_rows [OF this ws, of en md] show ?thesis unfolding lw ch [symmetric] .
  qed
  have sz: "bl_sizes b = map (\<lambda>i. chosenBy ch [0 ..< ?start] (int i)) [0 ..< samples]"
    and rp: "bl_replicaCount b = map (\<lambda>j. if j < ?start then int (length (ch j)) else 0) [0 ..< n]"
    using at start by (simp_all add: buildAt_def min_absorb1)
  have join: "[0 ..< ?start] @ [?start ..< ?start + k] = [0 ..< e]" unfolding k using upt_add_eq_append [of 0 ?start k] by simp
  have sums: "chosenBy ch [0 ..< ?start] x + chosenBy ch [?start ..< ?start + k] x = chosenBy ch [0 ..< e] x" for x
    unfolding join [symmetric] by (rule chosenBy_append [symmetric])
  have done_e: "?pre @ ?done @ ?post = doneRows en md ch n e"
    unfolding doneRows_def join [symmetric] rows_append by simp
  have cnt: "\<exists>b'. foldE (bd_countVector en heads) [?start ..< e] (b\<lparr>bl_selections := sel\<lparr>se_selections := p @ ?raw @ q\<rparr>\<rparr>) = Inr b' \<and>
      bl_sizes b' = map (\<lambda>i. chosenBy ch [0 ..< e] (int i)) [0 ..< samples] \<and>
      bl_replicaCount b' = map (\<lambda>j. if j < e then int (length (ch j)) else 0) [0 ..< n] \<and>
      bl_selections b' = sel\<lparr>se_selections := p @ ?done @ q\<rparr>"
    if "?start * ?r = se_start sel + length p" for sel p q
  proof -
    let ?b = "b\<lparr>bl_selections := sel\<lparr>se_selections := p @ ?raw @ q\<rparr>\<rparr>"
    have "foldE (bd_countVector en heads) [?start ..< ?start + k] ?b = Inr (counted en md ch [?start ..< ?start + k] p q ?b)"
      by (rule countVectors_ok [OF ch]) (use heads sz rp that se k in \<open>simp_all\<close>)
    moreover have "fold (\<lambda>j reps. reps[j := int (length (ch j))]) [?start ..< ?start + k] (bl_replicaCount b)
        = map (\<lambda>j. if j < e then int (length (ch j)) else 0) [0 ..< n]"
      unfolding rp k using fold_set_counts [of ?start k n "\<lambda>j. int (length (ch j))"] se k by simp
    ultimately show ?thesis unfolding k [symmetric] by (simp add: counted_def sz sums [folded k] cong: map_cong)
  qed
  have tk: "take (e - ?start) (drop ?start vectors) = take k (drop ?start vectors)" by (simp add: k_def)
  have bs': "(n + bd_batches en - 1) div bd_batches en = bs" by (simp add: bs)
  show ?thesis
  proof (cases "bd_batches en > 1")
    case True
    have tmp: "se_tmpfile (bl_selections b) = Some ?file" using at start True by (simp add: buildAt_def min_absorb1)
    have cut: "take (e * ?r - ?start * ?r) (drop (?start * ?r) ?file) = replicate (k * ?r) (edge_default md)"
    proof -
      have "e * ?r - ?start * ?r = k * ?r" by (simp add: k diff_mult_distrib [symmetric])
      then show ?thesis unfolding mid by (simp add: lpre)
    qed
    let ?sel = "(bl_selections b)\<lparr>se_start := ?start * ?r, se_end := e * ?r, se_selections := replicate (k * ?r) (edge_default md)\<rparr>"
    have kr: "e * ?r - ?start * ?r = k * ?r" by (simp add: k add_mult_distrib)
    have load: "se_LoadBatch (?start * ?r) (e * ?r) (bl_selections b) = Inr ?sel"
      unfolding se_LoadBatch_def tmp option.case cut by (simp add: kr)
    let ?ex = "(\<lambda>vid. vid - int ?start) ` {vid \<in> heads. int ?start \<le> vid \<and> vid < int e}"
    have "\<forall>j < k. (int j \<in> ?ex) = (int (?start + j) \<in> heads)"
    proof (intro allI impI iffI)
      fix j assume "j < k" "int (?start + j) \<in> heads"
      then show "int j \<in> ?ex" using k by (intro image_eqI [of _ _ "int (?start + j)"]) auto
    next
      fix j assume "int j \<in> ?ex"
      then show "int (?start + j) \<in> heads" by (auto simp: algebra_simps)
    qed
    note rng' = rng [OF this]
    obtain b' where b': "foldE (bd_countVector en heads) [?start ..< e] (b\<lparr>bl_selections := ?sel\<lparr>se_selections := ?raw\<rparr>\<rparr>) = Inr b'"
      "bl_sizes b' = map (\<lambda>i. chosenBy ch [0 ..< e] (int i)) [0 ..< samples]"
      "bl_replicaCount b' = map (\<lambda>j. if j < e then int (length (ch j)) else 0) [0 ..< n]"
      "bl_selections b' = ?sel\<lparr>se_selections := ?done\<rparr>"
      using cnt [of ?sel "[]" "[]"] by auto
    have ld: "length ?done = k * ?r" by (subst length_rows) (simp_all add: ch chosen_length)
    have drp: "drop (?start * ?r + k * ?r) ?file = ?post" unfolding mid by (simp add: lpre)
    have tkp: "take (?start * ?r) ?file = ?pre" unfolding mid by (simp add: lpre)
    have lf: "?start * ?r \<le> length ?file" unfolding mid by (simp add: lpre)
    have save: "se_SaveBatch (bl_selections b') = Inr ((bl_selections b')\<lparr>se_tmpfile := Some (doneRows en md ch n e), se_start := 0, se_end := 0, se_selections := []\<rparr>)"
      unfolding b'(4) se_SaveBatch_def Let_def using lf drp tkp ld by (simp add: tmp kr done_e [symmetric] linorder_not_less)
    have "bd_batch en heads vectors n i b = Inr (Some (b'\<lparr>bl_selections := (bl_selections b')\<lparr>se_tmpfile := Some (doneRows en md ch n e), se_start := 0, se_end := 0, se_selections := []\<rparr>\<rparr>))"
      unfolding bd_batch_def Let_def bs' e_def [symmetric] using se True
      by (simp add: orFalse_def load norm tk rng' b'(1) [simplified] save del: map_map of_nat_mult)
    then show ?thesis unfolding en' using b'(2,3) True by (auto simp: buildAt_def)
  next
    case False
    then have b1: "bd_batches en = 1" using bs(2) by simp
    then have i0: "i = 0" by (rule one)
    have en1: "e = n" using bs b1 by (simp add: e_def i0)
    have kn: "k = n" using en1 k i0 by simp
    have sel: "se_selections (bl_selections b) = replicate (k * ?r) (edge_default md)" "se_start (bl_selections b) = 0"
      using at False by (simp_all add: buildAt_def i0 doneRows_def rows_def kn)
    have rng': "ApproximateRNG en ?ws heads (replicate (k * ?r) (edge_default md)) = Inr ?raw" by (rule rng) (simp add: i0)
    obtain b' where b': "foldE (bd_countVector en heads) [?start ..< e] (b\<lparr>bl_selections := (bl_selections b)\<lparr>se_selections := ?raw\<rparr>\<rparr>) = Inr b'"
      "bl_sizes b' = map (\<lambda>i. chosenBy ch [0 ..< e] (int i)) [0 ..< samples]"
      "bl_replicaCount b' = map (\<lambda>j. if j < e then int (length (ch j)) else 0) [0 ..< n]"
      "bl_selections b' = (bl_selections b)\<lparr>se_selections := ?done\<rparr>"
      using cnt [of "bl_selections b" "[]" "[]"] sel(2) i0 by auto
    have "bd_batch en heads vectors n i b = Inr (Some b')"
      unfolding bd_batch_def Let_def bs' e_def [symmetric] using se False
      by (simp add: orFalse_def norm tk sel(1) rng' b'(1) del: map_map)
    moreover have "?done = doneRows en md ch n e" using done_e en1 i0 by (simp add: rows_def)
    ultimately show ?thesis unfolding en' using b'(2,3,4) False sel(2) by (simp add: buildAt_def)
  qed
qed

lemma batchLoop_ok:
  assumes norm: "bd_normalize en = map f" and ch: "ch = chosen en heads (map f vectors)" and heads: "headsOk n samples ch"
    and n: "length vectors = n" and bs: "bs = (n + bd_batches en - 1) div bd_batches en" "0 < bd_batches en"
    and start: "\<forall>i < bd_batches en. i * bs \<le> n"
  shows "i + k = bd_batches en \<Longrightarrow> buildAt en md ch n samples (min (i * bs) n) b \<Longrightarrow>
    \<exists>b'. bd_batchLoop en heads vectors n [i ..< i + k] b = Inr (Some b') \<and> buildAt en md ch n samples (min ((i + k) * bs) n) b'"
proof (induction k arbitrary: i b)
  case 0
  then show ?case by simp
next
  case (Suc k)
  have "i * bs \<le> n" "bd_batches en = 1 \<Longrightarrow> i = 0" using start Suc.prems(1) by auto
  then obtain b1 where b1: "bd_batch en heads vectors n i b = Inr (Some b1)" "buildAt en md ch n samples (min (Suc i * bs) n) b1"
    using batch_ok [OF norm ch heads n bs Suc.prems(2)] by blast
  have up: "[i ..< i + Suc k] = i # [Suc i ..< Suc i + k]" by (simp add: upt_conv_Cons)
  have "Suc i + k = bd_batches en" using Suc.prems(1) by simp
  from Suc.IH [OF this b1(2)] show ?case unfolding up using b1(1) by simp
qed

definition selectedRows :: "('f :: linorder) buildEnv \<Rightarrow> 'f \<Rightarrow> int set \<Rightarrow> bytes list \<Rightarrow> 'f edge list" where
  "selectedRows en md heads vectors = rows (bd_replicaCount en) md int (chosen en heads vectors) [0 ..< length vectors]"

lemma select_ok:
  assumes norm: "bd_normalize en = map f" and heads: "headsOk (length vectors) samples (chosen en heads (map f vectors))"
    and bs: "0 < bd_batches en" "\<forall>i < bd_batches en. i * ((length vectors + bd_batches en - 1) div bd_batches en) \<le> length vectors"
  shows "\<exists>b. bd_select en md heads vectors (length vectors) samples = Inr (Some b) \<and>
    bl_sizes b = map (\<lambda>i. chosenBy (chosen en heads (map f vectors)) [0 ..< length vectors] (int i)) [0 ..< samples] \<and>
    bl_replicaCount b = map (\<lambda>j. int (length (chosen en heads (map f vectors) j))) [0 ..< length vectors] \<and>
    se_start (bl_selections b) = 0 \<and> se_selections (bl_selections b) = SortSelections (selectedRows en md heads (map f vectors))"
proof -
  let ?n = "length vectors" and ?ch = "chosen en heads (map f vectors)" and ?r = "bd_replicaCount en"
  define bs' where "bs' = (?n + bd_batches en - 1) div bd_batches en"
  let ?b0 = "\<lparr>bl_selections = se_new md (?n * ?r), bl_replicaCount = replicate ?n 0, bl_sizes = replicate samples 0\<rparr>"
  have full: "doneRows en md ch ?n 0 = replicate (?n * ?r) (edge_default md)" for ch by (simp add: doneRows_def rows_def)
  have zeros: "replicate samples 0 = map (\<lambda>i. chosenBy ?ch [0 ..< 0] (int i)) [0 ..< samples]"
    "replicate ?n 0 = map (\<lambda>j. if j < 0 then int (length (?ch j)) else 0) [0 ..< ?n]"
    by (simp_all add: chosenBy_def map_replicate_const)
  obtain se0 where se0: "(if bd_batches en > 1 then se_SaveBatch (bl_selections ?b0) else Inr (bl_selections ?b0)) = Inr se0"
    "buildAt en md ?ch ?n samples (min (0 * bs') ?n) (?b0\<lparr>bl_selections := se0\<rparr>)"
  proof (cases "bd_batches en > 1")
    case True
    have "se_SaveBatch (se_new md (?n * ?r)) = Inr \<lparr>se_tmpfile = Some (replicate (?n * ?r) (edge_default md)), se_start = 0, se_end = 0, se_selections = []\<rparr>"
      by (simp add: se_SaveBatch_def se_new_def)
    then show thesis using True zeros that by (simp add: buildAt_def full)
  next
    case False
    then show thesis using zeros that by (simp add: buildAt_def full se_new_def)
  qed
  have st: "\<forall>i < bd_batches en. i * bs' \<le> ?n" using bs(2) by (simp add: bs'_def)
  obtain b where b: "bd_batchLoop en heads vectors ?n [0 ..< bd_batches en] (?b0\<lparr>bl_selections := se0\<rparr>) = Inr (Some b)"
    "buildAt en md ?ch ?n samples (min (bd_batches en * bs') ?n) b"
    using batchLoop_ok [OF norm refl heads refl bs'_def bs(1) st, of 0 "bd_batches en"] se0(2) by auto
  have "?n \<le> bd_batches en * bs'"
  proof -
    define m where "m = bd_batches en"
    have "m * ((?n + m - 1) div m) + (?n + m - 1) mod m = ?n + m - 1" by simp
    moreover have "(?n + m - 1) mod m < m" using bs(1) by (simp add: m_def)
    ultimately show ?thesis using bs(1) unfolding bs'_def m_def by linarith
  qed
  then have at: "buildAt en md ?ch ?n samples ?n b" using b(2) by (simp add: min_absorb2)
  have done_n: "doneRows en md ?ch ?n ?n = selectedRows en md heads (map f vectors)" by (simp add: doneRows_def selectedRows_def)
  have sz: "bl_sizes b = map (\<lambda>i. chosenBy ?ch [0 ..< ?n] (int i)) [0 ..< samples]" "bl_replicaCount b = map (\<lambda>j. int (length (?ch j))) [0 ..< ?n]"
    using at by (simp_all add: buildAt_def)
  have lr: "length (selectedRows en md heads (map f vectors)) = ?n * ?r"
    unfolding selectedRows_def by (subst length_rows) (simp_all add: chosen_length)
  have "\<exists>se. (if bd_batches en > 1 then se_LoadBatch 0 (?n * ?r) (bl_selections b) else Inr (bl_selections b)) = Inr se
      \<and> se_selections se = selectedRows en md heads (map f vectors) \<and> se_start se = 0"
    using at lr by (cases "bd_batches en > 1") (simp_all add: buildAt_def se_LoadBatch_def done_n)
  then obtain se where se: "(if bd_batches en > 1 then se_LoadBatch 0 (?n * ?r) (bl_selections b) else Inr (bl_selections b)) = Inr se"
    "se_selections se = selectedRows en md heads (map f vectors)" "se_start se = 0" by blast
  have "bd_select en md heads vectors ?n samples = Inr (Some (b\<lparr>bl_selections := se\<lparr>se_selections := SortSelections (se_selections se)\<rparr>\<rparr>))"
    unfolding bd_select_def Let_def using bs(1) se0(1) b(1) se(1) by (simp add: orFalse_def)
  then show ?thesis using sz se(2,3) by simp
qed

section \<open>The cut\<close>

definition edgesTo :: "'f edge list \<Rightarrow> nat \<Rightarrow> nat" where
  "edgesTo es j = length (filter (\<lambda>e. egTonode e = int j) es)"

lemma edgesTo_append: "edgesTo (xs @ ys) j = edgesTo xs j + edgesTo ys j"
  by (simp add: edgesTo_def)

lemma edges_partition:
  "mset (concat (map (\<lambda>i. edgesOf es (int i)) [0 ..< m])) = filter_mset (\<lambda>e. 0 \<le> egNode e \<and> egNode e < int m) (mset es)"
proof (induction m)
  case 0
  then show ?case by simp
next
  case (Suc m)
  have "filter_mset (\<lambda>e. 0 \<le> egNode e \<and> egNode e < int (Suc m)) (mset es)
      = filter_mset (\<lambda>e. 0 \<le> egNode e \<and> egNode e < int m) (mset es) + filter_mset (\<lambda>e. egNode e = int m) (mset es)"
    by (induction es) auto
  then show ?case using Suc by (simp add: edgesOf_def)
qed

lemma dropLoop_ok:
  assumes srt: "sorted (map egNode es)" and to: "\<forall>e \<in> set (edgesOf es i). 0 \<le> egTonode e \<and> egTonode e < int n"
  shows "a + k = length (edgesOf es i) \<Longrightarrow> length reps = n \<Longrightarrow>
    foldE (\<lambda>dropID replicas. thenE (idxE es (int (edges_lower_bound es i + dropID))) (\<lambda>e. addAt replicas (egTonode e) (- 1)))
      [a ..< a + k] reps = Inr (map (\<lambda>j. reps ! j - int (edgesTo (drop a (edgesOf es i)) j)) [0 ..< n])"
proof (induction k arbitrary: a reps)
  case 0
  then have "drop a (edgesOf es i) = []" by simp
  then show ?case using 0 by (simp add: edgesTo_def) (metis map_nth)
next
  case (Suc k)
  let ?e = "edgesOf es i ! a"
  have a: "a < length (edgesOf es i)" using Suc.prems(1) by simp
  have idx: "idxE es (int (edges_lower_bound es i + a)) = Inr ?e"
    using edgesOf_segment [OF srt a] by (simp add: idxE_def nat_int_add)
  have te: "0 \<le> egTonode ?e" "egTonode ?e < int n" using to a by simp_all
  have up: "[a ..< a + Suc k] = a # [Suc a ..< Suc a + k]" by (simp add: upt_conv_Cons)
  let ?reps = "reps[nat (egTonode ?e) := reps ! nat (egTonode ?e) + - 1]"
  have IH: "foldE (\<lambda>dropID replicas. thenE (idxE es (int (edges_lower_bound es i + dropID))) (\<lambda>e. addAt replicas (egTonode e) (- 1)))
      [Suc a ..< Suc a + k] ?reps = Inr (map (\<lambda>j. ?reps ! j - int (edgesTo (drop (Suc a) (edgesOf es i)) j)) [0 ..< n])"
    by (rule Suc.IH) (use Suc.prems in simp_all)
  have "edgesTo (drop a (edgesOf es i)) j = (if egTonode ?e = int j then 1 else 0) + edgesTo (drop (Suc a) (edgesOf es i)) j" for j
  proof -
    have "drop a (edgesOf es i) = ?e # drop (Suc a) (edgesOf es i)" using Cons_nth_drop_Suc [OF a] by simp
    then have "edgesTo (drop a (edgesOf es i)) j = edgesTo (?e # drop (Suc a) (edgesOf es i)) j" by (rule arg_cong)
    then show ?thesis by (simp add: edgesTo_def)
  qed
  then have "map (\<lambda>j. ?reps ! j - int (edgesTo (drop (Suc a) (edgesOf es i)) j)) [0 ..< n]
      = map (\<lambda>j. reps ! j - int (edgesTo (drop a (edgesOf es i)) j)) [0 ..< n]"
    using te Suc.prems(2) by (auto simp: nth_list_update)
  then show ?case unfolding up foldE.simps idx thenE.simps using te Suc.prems(2) IH by (simp add: addAt_ok)
qed

text \<open>The edges of the first \<open>m\<close> postings that the cut keeps.\<close>

definition keptEdges :: "nat \<Rightarrow> 'f edge list \<Rightarrow> nat \<Rightarrow> 'f edge list" where
  "keptEdges limit es m = concat (map (\<lambda>i. take limit (edgesOf es (int i))) [0 ..< m])"

definition droppedEdges :: "nat \<Rightarrow> 'f edge list \<Rightarrow> nat \<Rightarrow> 'f edge list" where
  "droppedEdges limit es m = concat (map (\<lambda>i. drop limit (edgesOf es (int i))) [0 ..< m])"

lemma kept_dropped: "edgesTo (concat (map (\<lambda>i. edgesOf es (int i)) [0 ..< m])) j = edgesTo (keptEdges limit es m) j + edgesTo (droppedEdges limit es m) j"
proof (induction m)
  case 0
  then show ?case by (simp add: keptEdges_def droppedEdges_def edgesTo_def)
next
  case (Suc m)
  have "edgesTo (edgesOf es (int m)) j = edgesTo (take limit (edgesOf es (int m))) j + edgesTo (drop limit (edgesOf es (int m))) j"
    by (simp flip: edgesTo_append)
  then show ?case using Suc by (simp add: keptEdges_def droppedEdges_def edgesTo_append)
qed

lemma cutPosting_ok:
  assumes srt: "sorted (map egNode (se_selections (bl_selections b)))"
    and to: "\<forall>e \<in> set (edgesOf (se_selections (bl_selections b)) (int i)). 0 \<le> egTonode e \<and> egTonode e < int n"
    and sz: "bl_sizes b ! i = int (length (edgesOf (se_selections (bl_selections b)) (int i)))" and n: "length (bl_replicaCount b) = n"
  shows "bd_cutPosting (int limit) i b = Inr (b\<lparr>
     bl_replicaCount := map (\<lambda>j. bl_replicaCount b ! j - int (edgesTo (drop limit (edgesOf (se_selections (bl_selections b)) (int i))) j)) [0 ..< n],
     bl_sizes := (bl_sizes b)[i := min (int limit) (bl_sizes b ! i)]\<rparr>)"
proof -
  let ?es = "edgesOf (se_selections (bl_selections b)) (int i)"
  show ?thesis
  proof (cases "length ?es \<le> limit")
    case True
    then have "drop limit ?es = []" by simp
    moreover have "map (\<lambda>j. bl_replicaCount b ! j) [0 ..< n] = bl_replicaCount b" using n map_nth by metis
    moreover have "(bl_sizes b)[i := int (length ?es)] = bl_sizes b" using sz list_update_id by metis
    ultimately show ?thesis using True sz by (cases b) (simp add: bd_cutPosting_def edgesTo_def min_def)
  next
    case False
    then have k: "limit + (length ?es - limit) = length ?es" by simp
    from dropLoop_ok [OF srt to k n] False sz show ?thesis by (simp add: bd_cutPosting_def Let_def min_def)
  qed
qed

lemma cut_ok:
  assumes srt: "sorted (map egNode (se_selections (bl_selections b)))"
    and to: "\<forall>i < length (bl_sizes b). \<forall>e \<in> set (edgesOf (se_selections (bl_selections b)) (int i)). 0 \<le> egTonode e \<and> egTonode e < int (length (bl_replicaCount b))"
    and sz: "\<forall>i < length (bl_sizes b). bl_sizes b ! i = int (length (edgesOf (se_selections (bl_selections b)) (int i)))"
  shows "bd_cut (int limit) b = Inr (b\<lparr>
     bl_replicaCount := map (\<lambda>j. bl_replicaCount b ! j - int (edgesTo (droppedEdges limit (se_selections (bl_selections b)) (length (bl_sizes b))) j)) [0 ..< length (bl_replicaCount b)],
     bl_sizes := map (min (int limit)) (bl_sizes b)\<rparr>)"
proof -
  let ?es = "se_selections (bl_selections b)" and ?n = "length (bl_replicaCount b)"
  define st where "st k = b\<lparr>bl_replicaCount := map (\<lambda>j. bl_replicaCount b ! j - int (edgesTo (droppedEdges limit ?es k) j)) [0 ..< ?n],
     bl_sizes := map (\<lambda>i. if i < k then min (int limit) (bl_sizes b ! i) else bl_sizes b ! i) [0 ..< length (bl_sizes b)]\<rparr>" for k
  have "foldE (bd_cutPosting (int limit)) [0 ..< k] b = Inr (st k)" if "k \<le> length (bl_sizes b)" for k
    using that
  proof (induction k)
    case 0
    then show ?case by (cases b) (simp add: st_def droppedEdges_def edgesTo_def map_nth)
  next
    case (Suc k)
    have k: "k < length (bl_sizes b)" using Suc.prems by simp
    have "bd_cutPosting (int limit) k (st k) = Inr ((st k)\<lparr>
       bl_replicaCount := map (\<lambda>j. bl_replicaCount (st k) ! j - int (edgesTo (drop limit (edgesOf (se_selections (bl_selections (st k))) (int k))) j)) [0 ..< ?n],
       bl_sizes := (bl_sizes (st k))[k := min (int limit) (bl_sizes (st k) ! k)]\<rparr>)"
      by (rule cutPosting_ok) (use srt to sz k in \<open>simp_all add: st_def\<close>)
    moreover have "map (\<lambda>j. bl_replicaCount (st k) ! j - int (edgesTo (drop limit (edgesOf (se_selections (bl_selections (st k))) (int k))) j)) [0 ..< ?n]
        = bl_replicaCount (st (Suc k))"
      by (auto simp: st_def droppedEdges_def edgesTo_append)
    moreover have "(bl_sizes (st k))[k := min (int limit) (bl_sizes (st k) ! k)] = bl_sizes (st (Suc k))"
      using k by (intro nth_equalityI) (auto simp: st_def nth_list_update)
    ultimately have step: "bd_cutPosting (int limit) k (st k) = Inr (st (Suc k))" by (simp add: st_def)
    have "foldE (bd_cutPosting (int limit)) [0 ..< k] b = Inr (st k)" using Suc by simp
    then show ?case using step by (simp add: foldE_append)
  qed
  from this [of "length (bl_sizes b)"] have "bd_cut (int limit) b = Inr (st (length (bl_sizes b)))" by (simp add: bd_cut_def)
  moreover have "bl_sizes (st (length (bl_sizes b))) = map (min (int limit)) (bl_sizes b)"
    by (intro nth_equalityI) (auto simp: st_def)
  ultimately show ?thesis by (simp add: st_def)
qed

section \<open>The property\<close>

text \<open>The edges of the vectors that chose head \<open>i\<close>.\<close>

definition choosers :: "(nat \<Rightarrow> (int \<times> 'f) list) \<Rightarrow> nat \<Rightarrow> int \<Rightarrow> 'f edge list" where
  "choosers ch n i = concat (map (\<lambda>j. map (\<lambda>(h, d). Edge h (int j) d) (filter (\<lambda>p. fst p = i) (ch j))) [0 ..< n])"

lemma rows_edgesOf: "i \<noteq> MaxSize \<Longrightarrow> edgesOf (rows r md int ch [0 ..< n]) i = choosers ch n i"
proof (induction n)
  case 0
  then show ?case by (simp add: edgesOf_def rows_def choosers_def)
next
  case (Suc n)
  have "edgesOf (rowOf r md (int n) (ch n)) i = map (\<lambda>(h, d). Edge h (int n) d) (filter (\<lambda>p. fst p = i) (ch n))"
    using Suc.prems by (auto simp: edgesOf_def rowOf_def edge_default_def filter_map comp_def case_prod_beta)
  then show ?case using Suc by (simp add: rows_append) (simp add: rows_def choosers_def edgesOf_def)
qed

lemma length_choosers: "int (length (choosers ch n i)) = chosenBy ch [0 ..< n] i"
  by (induction n) (simp_all add: choosers_def chosenBy_def)

lemma edgesOf_SortSelections: "mset (edgesOf (SortSelections es) i) = mset (edgesOf es i)"
  by (simp add: edgesOf_def SortSelections_mset)

lemma sorted_nodes: "sorted_wrt (\<lambda>a b. \<not> edge_less b a) es \<Longrightarrow> sorted (map egNode es)"
  by (induction es) (auto simp: edge_less_def split: if_splits)

lemma sorted_distances: "sorted_wrt (\<lambda>a b. \<not> edge_less b a) es \<Longrightarrow> sorted (map egDistance (edgesOf es i))"
proof (induction es)
  case (Cons e es)
  have "egDistance e \<le> egDistance x" if "x \<in> set es" "egNode x = egNode e" for x
    using Cons.prems that by (fastforce simp: edge_less_def split: if_splits)
  then show ?case using Cons by (auto simp: edgesOf_def)
qed (simp add: edgesOf_def)

lemma edgesTo_rows:
  assumes "headsOk n samples ch" "j < n" "int samples \<le> MaxSize"
  shows "edgesTo (filter (\<lambda>e. 0 \<le> egNode e \<and> egNode e < int samples) (rows r md int ch [0 ..< n])) j = length (ch j)"
proof -
  have row: "filter (\<lambda>e. 0 \<le> egNode e \<and> egNode e < int samples) (rowOf r md (int k) (ch k)) = map (\<lambda>(h, d). Edge h (int k) d) (ch k)" if "k < n" for k
  proof -
    have "filter (\<lambda>e. 0 \<le> egNode e \<and> egNode e < int samples) (map (\<lambda>(h, d). Edge h (int k) d) (ch k)) = map (\<lambda>(h, d). Edge h (int k) d) (ch k)"
      using assms(1) that unfolding filter_id_conv by (force simp: headsOk_def)
    moreover have "filter (\<lambda>e. 0 \<le> egNode e \<and> egNode e < int samples) (replicate m (edge_default md)) = []" for m
      using assms(3) by (simp add: edge_default_def)
    ultimately show ?thesis by (simp add: rowOf_def)
  qed
  have "edgesTo (filter (\<lambda>e. 0 \<le> egNode e \<and> egNode e < int samples) (rows r md int ch [0 ..< m])) j = (if j < m then length (ch j) else 0)" if "m \<le> n" for m
    using that
  proof (induction m)
    case 0
    then show ?case by (simp add: rows_def edgesTo_def)
  next
    case (Suc m)
    have "edgesTo (map (\<lambda>(h, d). Edge h (int m) d) (ch m)) j = (if j = m then length (ch m) else 0)"
      by (auto simp: edgesTo_def filter_map comp_def case_prod_beta)
    then show ?case using Suc by (simp add: rows_append edgesTo_append) (auto simp: rows_def row less_Suc_eq)
  qed
  then show ?thesis using assms(2) by simp
qed

lemma edgesTo_mset: "mset xs = mset ys \<Longrightarrow> edgesTo xs j = edgesTo ys j"
  unfolding edgesTo_def by (metis mset_filter size_mset)

text \<open>The whole selection stage, with the facts the writing of the postings needs.\<close>

lemma selection_cut_ok:
  assumes norm: "bd_normalize en = map f" and heads: "headsOk (length vectors) samples (chosen en heads (map f vectors))" and samples: "int samples \<le> MaxSize"
    and bs: "0 < bd_batches en" "\<forall>i < bd_batches en. i * ((length vectors + bd_batches en - 1) div bd_batches en) \<le> length vectors"
  shows "\<exists>b b' es. bd_select en md heads vectors (length vectors) samples = Inr (Some b) \<and> bd_cut (int limit) b = Inr b' \<and>
    se_start (bl_selections b') = 0 \<and> sorted (map egNode es) \<and>
    (\<forall>i < samples. \<forall>e \<in> set (edgesOf es (int i)). 0 \<le> egTonode e \<and> egTonode e < int (length vectors)) \<and>
    se_selections (bl_selections b') = es \<and> length (bl_sizes b') = samples \<and>
    (\<forall>i < samples. mset (edgesOf es (int i)) = mset (choosers (chosen en heads (map f vectors)) (length vectors) (int i)) \<and>
       sorted (map egDistance (edgesOf es (int i))) \<and>
       bl_sizes b' ! i = int (length (take limit (edgesOf es (int i))))) \<and>
    (\<forall>j < length vectors. bl_replicaCount b' ! j = int (edgesTo (keptEdges limit es samples) j))"
proof -
  let ?n = "length vectors" and ?ch = "chosen en heads (map f vectors)"
  let ?rows = "selectedRows en md heads (map f vectors)"
  define es where "es = SortSelections ?rows"
  obtain b where b: "bd_select en md heads vectors ?n samples = Inr (Some b)"
    "bl_sizes b = map (\<lambda>i. chosenBy ?ch [0 ..< ?n] (int i)) [0 ..< samples]" "bl_replicaCount b = map (\<lambda>j. int (length (?ch j))) [0 ..< ?n]"
    "se_selections (bl_selections b) = es" "se_start (bl_selections b) = 0"
    using select_ok [OF norm heads bs, of md] unfolding es_def by blast
  have srt: "sorted_wrt (\<lambda>a b. \<not> edge_less b a) es" unfolding es_def by (rule SortSelections_sorted)
  have rows: "?rows = rows (bd_replicaCount en) md int ?ch [0 ..< ?n]" by (simp add: selectedRows_def)
  have ed: "mset (edgesOf es (int i)) = mset (choosers ?ch ?n (int i))" if "i < samples" for i
    using samples that unfolding es_def edgesOf_SortSelections rows by (simp add: rows_edgesOf)
  have to: "0 \<le> egTonode e \<and> egTonode e < int ?n" if "e \<in> set (edgesOf es (int i))" "i < samples" for e i
  proof -
    have "e \<in> set (choosers ?ch ?n (int i))" using that ed mset_eq_setD by blast
    then show ?thesis by (auto simp: choosers_def)
  qed
  have sz: "bl_sizes b ! i = int (length (edgesOf es (int i)))" if "i < samples" for i
    using that b(2) mset_eq_length [OF ed [OF that]] length_choosers [of ?ch ?n "int i"] by simp
  have cut: "bd_cut (int limit) b = Inr (b\<lparr>
     bl_replicaCount := map (\<lambda>j. bl_replicaCount b ! j - int (edgesTo (droppedEdges limit es samples) j)) [0 ..< ?n],
     bl_sizes := map (min (int limit)) (bl_sizes b)\<rparr>)"
    using cut_ok [of b limit] sorted_nodes [OF srt] to sz b(2,3,4) by simp
  have rc: "bl_replicaCount b ! j - int (edgesTo (droppedEdges limit es samples) j) = int (edgesTo (keptEdges limit es samples) j)" if "j < ?n" for j
  proof -
    have "mset (concat (map (\<lambda>i. edgesOf es (int i)) [0 ..< samples])) = mset (filter (\<lambda>e. 0 \<le> egNode e \<and> egNode e < int samples) ?rows)"
      unfolding edges_partition by (simp add: es_def SortSelections_mset)
    then have "edgesTo (concat (map (\<lambda>i. edgesOf es (int i)) [0 ..< samples])) j = length (?ch j)"
      using edgesTo_rows [OF heads that samples, of "bd_replicaCount en" md] by (metis edgesTo_mset rows)
    then show ?thesis using kept_dropped [of es samples j limit] that b(3) by simp
  qed
  let ?b' = "b\<lparr>bl_replicaCount := map (\<lambda>j. bl_replicaCount b ! j - int (edgesTo (droppedEdges limit es samples) j)) [0 ..< ?n],
     bl_sizes := map (min (int limit)) (bl_sizes b)\<rparr>"
  have len: "length (bl_sizes b) = samples" using b(2) by simp
  have s2: "bl_sizes ?b' ! i = int (length (take limit (edgesOf es (int i))))" if "i < samples" for i
    using sz [OF that] that len by (simp add: min_def)
  have r2: "bl_replicaCount ?b' ! j = int (edgesTo (keptEdges limit es samples) j)" if "j < ?n" for j
    using rc [OF that] that by simp
  show ?thesis
    by (intro exI [of _ b] exI [of _ ?b'] exI [of _ es] conjI allI impI)
      (use b(1,4) cut len ed to s2 r2 sorted_nodes [OF srt] sorted_distances [OF srt] in \<open>simp_all only:\<close>, simp_all add: b(4,5) len)
qed

text \<open>
  C10 The selection stage of \<open>BuildIndex\<close>, for any number of batches: it succeeds; the edges of a head, sorted by
  distance, are exactly those of the vectors that chose it; after the cut a posting keeps the nearest of them up
  to the limit; and the replica count of a vector is the number of postings that keep it.
\<close>

theorem BuildIndex_selection:
  assumes norm: "bd_normalize en = map f" and heads: "headsOk (length vectors) samples (chosen en heads (map f vectors))" and samples: "int samples \<le> MaxSize"
    and bs: "0 < bd_batches en" "\<forall>i < bd_batches en. i * ((length vectors + bd_batches en - 1) div bd_batches en) \<le> length vectors"
  shows "\<exists>b b' es. bd_select en md heads vectors (length vectors) samples = Inr (Some b) \<and> bd_cut (int limit) b = Inr b' \<and>
    se_selections (bl_selections b') = es \<and> length (bl_sizes b') = samples \<and>
    (\<forall>i < samples. mset (edgesOf es (int i)) = mset (choosers (chosen en heads (map f vectors)) (length vectors) (int i)) \<and>
       sorted (map egDistance (edgesOf es (int i))) \<and>
       bl_sizes b' ! i = int (length (take limit (edgesOf es (int i))))) \<and>
    (\<forall>j < length vectors. bl_replicaCount b' ! j = int (edgesTo (keptEdges limit es samples) j))"
  using selection_cut_ok [OF norm heads samples bs, of md limit] by blast

text \<open>Four vectors in two batches; the first two are heads, vector \<open>[2]\<close> chooses both of them and vector \<open>[3]\<close> the first.\<close>

definition buildFour :: "int buildEnv" where
  "buildFour = \<lparr>bd_replicaCount = 2, bd_batches = 2, bd_normalize = map id,
     bd_search = (\<lambda>v. if v = [2] then [BasicResult 0 1, BasicResult 1 4] else [BasicResult 0 2]),
     bd_headDistance = (\<lambda>_ _. 10), bd_rngScale = id\<rparr>"

definition vectorsFour :: "bytes list" where
  "vectorsFour = [[0], [1], [2], [3]]"

lemma buildFour_chosen:
  "chosen buildFour {0, 1} (map id vectorsFour) 0 = []" "chosen buildFour {0, 1} (map id vectorsFour) 1 = []"
  "chosen buildFour {0, 1} (map id vectorsFour) 2 = [(0, 1), (1, 4)]" "chosen buildFour {0, 1} (map id vectorsFour) 3 = [(0, 2)]"
  by (simp_all add: chosen_def buildFour_def vectorsFour_def)

theorem BuildIndex_selection_witness:
  "\<exists>b b' es. bd_select buildFour 100 {0, 1} vectorsFour 4 2 = Inr (Some b) \<and> bd_cut 1 b = Inr b' \<and>
    se_selections (bl_selections b') = es \<and> length (bl_sizes b') = 2 \<and>
    (\<forall>i < 2. mset (edgesOf es (int i)) = mset (choosers (chosen buildFour {0, 1} (map id vectorsFour)) 4 (int i)) \<and>
       sorted (map egDistance (edgesOf es (int i))) \<and>
       bl_sizes b' ! i = int (length (take 1 (edgesOf es (int i))))) \<and>
    (\<forall>j < 4. bl_replicaCount b' ! j = int (edgesTo (keptEdges 1 es 2) j))"
proof -
  have len: "length vectorsFour = 4" by (simp add: vectorsFour_def)
  have "j = 0 \<or> j = 1 \<or> j = 2 \<or> j = 3" if "j < 4" for j :: nat using that by auto
  then have heads: "headsOk (length vectorsFour) 2 (chosen buildFour {0, 1} (map id vectorsFour))"
    unfolding headsOk_def len using buildFour_chosen by (fastforce simp: MaxSize_def)
  have norm: "bd_normalize buildFour = map id" by (simp add: buildFour_def)
  have "\<forall>i < bd_batches buildFour. i * ((length vectorsFour + bd_batches buildFour - 1) div bd_batches buildFour) \<le> length vectorsFour"
    by (auto simp: len buildFour_def)
  moreover have "0 < bd_batches buildFour" by (simp add: buildFour_def)
  moreover have "int 2 \<le> MaxSize" by (simp add: MaxSize_def)
  ultimately show ?thesis using BuildIndex_selection [OF norm heads, of 100 1] unfolding len by simp
qed

end
