(* ===== verification/DynBuildProps.thy ===== *)
theory DynBuildProps
  imports DynBuild DynClaims BuildProps
begin

text \<open>
  What \<open>BuildIndex\<close> leaves behind: a searcher in its invariant whose postings hold the nearest vectors of each head,
  all of them live; and what happens when it runs again on a table of posting sizes that has grown.
\<close>

section \<open>One posting\<close>

definition builtEntry :: "versionLabel \<Rightarrow> bytes list \<Rightarrow> 'f edge \<Rightarrow> bytes" where
  "builtEntry vl vectors e = enc_int 4 (egTonode e) @ versions vl ! nat (egTonode e) # vectors ! nat (egTonode e)"

lemma dw_posting_ok:
  assumes vl: "vl_inv vl" and vis: "vis = w + metaDataSize" and width: "\<forall>v \<in> set (vs_vectors vs). length v = w"
  shows "\<forall>j < length es. se_at se (k + j) = Inr (es ! j) \<and> egNode (es ! j) = index \<and> vl_has vl (egTonode (es ! j)) \<and>
      egTonode (es ! j) < int (length (vs_vectors vs)) \<Longrightarrow>
    dw_posting vis vl vs se index (length es) k acc = Inr (acc @ concat (map (builtEntry vl (vs_vectors vs)) es))"
proof (induction es arbitrary: k acc)
  case Nil
  then show ?case by simp
next
  case (Cons e es)
  have 0: "se_at se k = Inr e" "egNode e = index" "vl_has vl (egTonode e)" "egTonode e < int (length (vs_vectors vs))"
    using Cons.prems [rule_format, of 0] by simp_all
  have n: "0 \<le> egTonode e" "nat (egTonode e) < length (vs_vectors vs)" using 0(3,4) by (auto simp: vl_has_def)
  have v: "idxE (vs_vectors vs) (egTonode e) = Inr (vs_vectors vs ! nat (egTonode e))" using 0(4) n by (simp add: idxE_def)
  have "length (vs_vectors vs ! nat (egTonode e)) = w" using width n(2) by simp
  then have s: "pst_Serialize vis (egTonode e) b (vs_vectors vs ! nat (egTonode e)) = Ret (enc_int 4 (egTonode e) @ b # vs_vectors vs ! nat (egTonode e))" for b
    using vis by (simp add: pst_Serialize_def slice_def)
  have r: "\<forall>j < length es. se_at se (Suc k + j) = Inr (es ! j) \<and> egNode (es ! j) = index \<and> vl_has vl (egTonode (es ! j)) \<and>
      egTonode (es ! j) < int (length (vs_vectors vs))"
    using Cons.prems by force
  show ?case using Cons.IH [OF r] 0 v s by (simp add: liftO_def vl_GetVersion_in [OF vl 0(3)] builtEntry_def Let_def)
qed

lemma posting_ok:
  assumes vl: "vl_inv vl" and vis: "vis = w + metaDataSize" and width: "\<forall>v \<in> set (vs_vectors vs). length v = w"
    and se: "se_start se = 0" "sorted (map egNode (se_selections se))" and n: "n = length (take limit (edgesOf (se_selections se) i))"
    and to: "\<forall>e \<in> set (edgesOf (se_selections se) i). vl_has vl (egTonode e) \<and> egTonode e < int (length (vs_vectors vs))"
  shows "dw_posting vis vl vs se i n (se_lower_bound se i) [] = Inr (concat (map (builtEntry vl (vs_vectors vs)) (take limit (edgesOf (se_selections se) i))))"
proof -
  let ?es = "edgesOf (se_selections se) i"
  have "\<forall>j < length (take limit ?es). se_at se (se_lower_bound se i + j) = Inr (take limit ?es ! j) \<and> egNode (take limit ?es ! j) = i \<and>
      vl_has vl (egTonode (take limit ?es ! j)) \<and> egTonode (take limit ?es ! j) < int (length (vs_vectors vs))"
  proof (intro allI impI)
    fix j assume j: "j < length (take limit ?es)"
    then have j': "j < length ?es" "take limit ?es ! j = ?es ! j" by simp_all
    have m: "?es ! j \<in> set ?es" using j'(1) by (rule nth_mem)
    then have "egNode (?es ! j) = i" by (simp add: edgesOf_def)
    moreover have "se_at se (se_lower_bound se i + j) = Inr (?es ! j)"
      using edgesOf_segment [OF se(2) j'(1)] se(1) by (simp add: se_at_def se_lower_bound_def idxE_def nat_int_add)
    ultimately show "se_at se (se_lower_bound se i + j) = Inr (take limit ?es ! j) \<and> egNode (take limit ?es ! j) = i \<and>
      vl_has vl (egTonode (take limit ?es ! j)) \<and> egTonode (take limit ?es ! j) < int (length (vs_vectors vs))"
      using to m j'(2) by simp
  qed
  from dw_posting_ok [OF vl vis width this, of "[]"] show ?thesis using n by simp
qed

section \<open>The sizes\<close>

lemma dw_sizes_ok:
  assumes "ps_inv ps" "ps_GetPostingNum ps = int (length sizes)" "\<forall>n \<in> set sizes. int32_ok n"
  shows "\<exists>ps'. dw_sizes sizes ps = Inr ps' \<and> ps_inv ps' \<and> ps_GetPostingNum ps' = int (length sizes) \<and> intsOf ps' = sizes"
proof -
  have "\<exists>ps'. foldE (\<lambda>i ps. liftO (ps_UpdateSize ps (int i) (sizes ! i))) [0 ..< k] ps = Inr ps' \<and> ps_inv ps' \<and>
      ps_GetPostingNum ps' = int (length sizes) \<and> take k (intsOf ps') = take k sizes" if "k \<le> length sizes" for k
    using that
  proof (induction k)
    case 0
    then show ?case using assms by simp
  next
    case (Suc k)
    then obtain ps1 where p1: "foldE (\<lambda>i ps. liftO (ps_UpdateSize ps (int i) (sizes ! i))) [0 ..< k] ps = Inr ps1" "ps_inv ps1"
      "ps_GetPostingNum ps1 = int (length sizes)" "take k (intsOf ps1) = take k sizes" by auto
    have h: "ps_has ps1 (int k)" "int32_ok (sizes ! k)" using p1(3) Suc.prems assms(3) by (simp_all add: ps_has_def)
    obtain ps2 where p2: "ps_UpdateSize ps1 (int k) (sizes ! k) = Ret ps2" "ps_inv ps2" "ps_GetPostingNum ps2 = int (length sizes)"
      "intsOf ps2 = (intsOf ps1)[k := sizes ! k]"
      using ps_UpdateSize_in [OF p1(2) h] p1(3) by auto
    have l: "k < length (intsOf ps1)" using p1(3) Suc.prems by (simp add: ps_GetPostingNum_def)
    have "take (Suc k) (intsOf ps2) = take (Suc k) sizes"
      using l p1(4) Suc.prems p2(4) by (simp add: take_Suc_conv_app_nth)
    then show ?case using p1(1) p2(1,2,3) by (simp add: foldE_append liftO_def)
  qed
  from this [of "length sizes"] obtain ps' where "dw_sizes sizes ps = Inr ps'" "ps_inv ps'" "ps_GetPostingNum ps' = int (length sizes)"
    "take (length sizes) (intsOf ps') = sizes" by (auto simp: dw_sizes_def)
  then show ?thesis by (intro exI [of _ ps']) (simp add: ps_GetPostingNum_def)
qed

section \<open>All postings, over any store\<close>

definition headIDsOf :: "bytes option \<Rightarrow> int set" where
  "headIDsOf headFile = (case headFile of None \<Rightarrow> {} | Some bs \<Rightarrow> bd_readHeads bs)"


context dyn_searcher
begin

lemma write_all_ok:
  assumes "inv (dy_db st)" "distinct order" "\<forall>i \<in> set order. int i < b" "roomy (dy_db st) b (map (\<lambda>i. length (p i)) order)"
    "\<forall>i \<in> set order. dw_posting vs' (dy_versionMap st) vs se (int i) (nat (sz ! i)) (se_lower_bound se (int i)) [] = Inr (p i)"
  shows "\<exists>db. WriteDownAllPostingToDB en vs' order vs se sz st = Inr (st\<lparr>dy_db := db\<rparr>) \<and> inv db \<and>
    view db = (\<lambda>k. if k \<in> int ` set order then Some (p (nat k)) else view (dy_db st) k)"
  using assms
proof (induction order arbitrary: st)
  case Nil
  then show ?case by (cases st) (simp add: WriteDownAllPostingToDB_def)
next
  case (Cons i order)
  have "roomy (dy_db st) b (length (p i) # map (\<lambda>i. length (p i)) order)" "int i < b" using Cons.prems by simp_all
  then obtain db1 where db1: "en_Put en (dy_db st) (int i) (p i) = Ret (Success, db1)" "inv db1"
    "view db1 = (view (dy_db st))(int i \<mapsto> p i)" "roomy db1 b (map (\<lambda>i. length (p i)) order)"
    using kv.put_roomy [OF Cons.prems(1), of b "p i" "map (\<lambda>i. length (p i)) order" "int i"] by auto
  let ?st = "st\<lparr>dy_db := db1\<rparr>"
  obtain db where db: "WriteDownAllPostingToDB en vs' order vs se sz ?st = Inr (?st\<lparr>dy_db := db\<rparr>)" "inv db"
    "view db = (\<lambda>k. if k \<in> int ` set order then Some (p (nat k)) else view (dy_db ?st) k)"
    using Cons.IH [of ?st] Cons.prems db1 by auto
  have "dw_write en vs' vs se sz i st = Inr ?st" using db1(1) Cons.prems(5) by (simp add: dw_write_def liftO_def)
  then have "WriteDownAllPostingToDB en vs' (i # order) vs se sz st = Inr (st\<lparr>dy_db := db\<rparr>)"
    using db(1) by (simp add: WriteDownAllPostingToDB_def)
  then show ?case using db(2,3) db1(3) by (intro exI [of _ db]) (auto simp: fun_eq_iff)
qed

lemma BuildIndex_ok:
  assumes norm: "bd_normalize bd = map f" and width: "\<forall>v \<in> set (vs_vectors vs). length (f v) = vs_dataSize vs" and n: "length (vs_vectors vs) < 2 ^ 31"
    and heads: "headsOk (length (vs_vectors vs)) samples ch" and ch: "ch = chosen bd (headIDsOf headFile) (map f (vs_vectors vs))" and samples: "int samples \<le> MaxSize"
    and bs: "0 < bd_batches bd" "\<forall>i < bd_batches bd. i * ((length (vs_vectors vs) + bd_batches bd - 1) div bd_batches bd) \<le> length (vs_vectors vs)"
    and limit: "bd_sizeLimit (en_postingSizeLimit en) pageLimit vis = int limit" "limit < 2 ^ 31" and vis: "vis = vs_dataSize vs + metaDataSize"
    and st: "inv (dy_db st)" "hinv (dy_index st)" "dy_versionMap st = vl_new" "dy_postingSizes st = ps_new" "en_Num en (dy_index st) = int samples"
    and order: "distinct order" "set order = {0 ..< samples}"
    and room: "roomy (dy_db st) (int samples) (map (\<lambda>i. min limit (length (choosers ch (length (vs_vectors vs)) (int i))) * vis) order)"
  shows "\<exists>st' ssdInfo deleteID. dy_BuildIndex bd en md pageLimit order blockSize capacity None headFile vs 0 st = Inr (Some (st', Inr ssdInfo, Inr deleteID)) \<and>
    st_ok st' \<and> dy_index st' = dy_index st \<and> versions (dy_versionMap st') = replicate (length (vs_vectors vs)) 255 \<and> vl_deleted (dy_versionMap st') = 0 \<and>
    (\<forall>i < samples. \<exists>p near. postings st' (int i) = Some p \<and> known st' p \<and> live st' p = entriesOf vis p \<and> sizes st' ! i = int (length (entriesOf vis p)) \<and>
       entriesOf vis p = map (\<lambda>e. enc_int 4 (egTonode e) @ 255 # f (vs_vectors vs ! nat (egTonode e))) (take limit near) \<and>
       mset near = mset (choosers ch (length (vs_vectors vs)) (int i)) \<and> sorted (map egDistance near))"
proof -
  let ?n = "length (vs_vectors vs)" and ?vs = "vs\<lparr>vs_vectors := map f (vs_vectors vs)\<rparr>"
  obtain b b' es where sel: "bd_select bd md (headIDsOf headFile) (vs_vectors vs) ?n samples = Inr (Some b)" "bd_cut (int limit) b = Inr b'"
    "se_start (bl_selections b') = 0" "sorted (map egNode es)"
    "\<forall>i < samples. \<forall>e \<in> set (edgesOf es (int i)). 0 \<le> egTonode e \<and> egTonode e < int ?n"
    "se_selections (bl_selections b') = es" "length (bl_sizes b') = samples"
    "\<forall>i < samples. mset (edgesOf es (int i)) = mset (choosers ch ?n (int i)) \<and> sorted (map egDistance (edgesOf es (int i))) \<and>
       bl_sizes b' ! i = int (length (take limit (edgesOf es (int i))))"
    using selection_cut_ok [OF norm heads [unfolded ch] samples bs, of md limit] unfolding ch by blast
  obtain vl where vl: "vl_Initialize (dy_versionMap st) (int ?n) blockSize capacity = Ret vl" "vl_inv vl" "vl_GetVectorNum vl = int ?n"
    "versions vl = replicate ?n 255"
    using vl_Initialize_correct [of "int ?n" vl_new blockSize capacity] st(3) by (auto simp: vl_new_def ds_new_def)
  let ?near = "\<lambda>i. take limit (edgesOf es (int i))"
  let ?p = "\<lambda>i. concat (map (builtEntry vl (map f (vs_vectors vs))) (?near i))"
  have has: "\<forall>e \<in> set (edgesOf es (int i)). vl_has vl (egTonode e) \<and> egTonode e < int ?n" if "i < samples" for i
    using sel(5) that vl(3) by (auto simp: vl_has_def)
  have wd: "\<forall>v \<in> set (map f (vs_vectors vs)). length v = vs_dataSize vs" using width by simp
  have post: "dw_posting vis vl ?vs (bl_selections b') (int i) (nat (bl_sizes b' ! i)) (se_lower_bound (bl_selections b') (int i)) [] = Inr (?p i)"
    if "i < samples" for i
    using posting_ok [OF vl(2) vis, of ?vs "bl_selections b'" "nat (bl_sizes b' ! i)" limit "int i"] wd sel(3,4,6,8) has [OF that] that by simp
  have ent: "\<forall>x \<in> set (map (builtEntry vl (map f (vs_vectors vs))) (?near i)). length x = vis" if "i < samples" for i
  proof -
    have "length (map f (vs_vectors vs) ! nat (egTonode e)) = vs_dataSize vs" if "e \<in> set (edgesOf es (int i))" for e
      using has [OF \<open>i < samples\<close>] that width by (auto simp: vl_has_def nat_less_iff)
    then show ?thesis using vis by (auto simp: builtEntry_def metaDataSize_def dest: in_set_takeD)
  qed
  have cnt: "length (edgesOf es (int i)) = length (choosers ch ?n (int i))" if "i < samples" for i
    using sel(8) that mset_eq_length by blast
  have len: "length (?p i) = min limit (length (choosers ch ?n (int i))) * vis" if "i < samples" for i
    using length_concat_width [OF ent [OF that]] cnt [OF that] by (simp add: min.commute del: length_concat)
  have "map (\<lambda>i. length (?p i)) order = map (\<lambda>i. min limit (length (choosers ch ?n (int i))) * vis) order"
    using order(2) len by auto
  then have rm: "roomy (dy_db st) (int samples) (map (\<lambda>i. length (?p i)) order)" using room by presburger
  let ?st1 = "st\<lparr>dy_versionMap := vl\<rparr>"
  have pre: "inv (dy_db ?st1)" "\<forall>i \<in> set order. int i < int samples" "roomy (dy_db ?st1) (int samples) (map (\<lambda>i. length (?p i)) order)"
    "\<forall>i \<in> set order. dw_posting vis (dy_versionMap ?st1) ?vs (bl_selections b') (int i) (nat (bl_sizes b' ! i)) (se_lower_bound (bl_selections b') (int i)) [] = Inr (?p i)"
    using st(1) rm post order(2) by simp_all
  obtain db where db: "WriteDownAllPostingToDB en vis order ?vs (bl_selections b') (bl_sizes b') ?st1 = Inr (?st1\<lparr>dy_db := db\<rparr>)"
    "inv db" "view db = (\<lambda>k. if k \<in> int ` set order then Some (?p (nat k)) else view (dy_db ?st1) k)"
    using write_all_ok [OF pre(1) order(1) pre(2,3,4)] by blast
  obtain ps0 where ps0: "ps_Initialize ps_new (int samples) blockSize capacity = Ret ps0" "ps_inv ps0" "ps_GetPostingNum ps0 = int samples"
    using ds_Initialize_blank [of "int samples" "ds_new 4" 1 blockSize capacity True]
    by (auto simp: ps_Initialize_def ps_new_def ds_new_def ps_inv_def ps_GetPostingNum_def)
  have "x < 2 ^ 31 \<and> 0 \<le> x" if x: "x \<in> set (bl_sizes b')" for x
  proof -
    obtain i where "i < samples" "x = bl_sizes b' ! i" using x sel(7) by (auto simp: in_set_conv_nth)
    then show ?thesis using sel(8) limit(2) by simp
  qed
  then have small: "\<forall>x \<in> set (bl_sizes b'). int32_ok x" by (force simp: int32_ok_def)
  obtain ps where ps: "dw_sizes (bl_sizes b') ps0 = Inr ps" "ps_inv ps" "ps_GetPostingNum ps = int samples" "intsOf ps = bl_sizes b'"
    using dw_sizes_ok [OF ps0(2) _ small] ps0(3) sel(7) by auto
  have s1: "ps_Save ps \<lparr>os_data = [], os_room = None\<rparr> = Ret (Inr \<lparr>os_data = ds_image ps, os_room = None\<rparr>)"
    using ps(2) ds_Save_image [of ps "\<lparr>os_data = [], os_room = None\<rparr>"] by (simp add: ps_Save_def ps_inv_def ds_inv_def)
  have s2: "vl_Save vl \<lparr>os_data = [], os_room = None\<rparr> = Ret (Inr \<lparr>os_data = enc_int 4 (vl_deleted vl) @ ds_image (vl_data vl), os_room = None\<rparr>)"
    using vl(2) ds_Save_image [of "vl_data vl" "\<lparr>os_data = enc_int 4 (vl_deleted vl), os_room = None\<rparr>"]
    by (simp add: vl_Save_def vl_inv_def ds_inv_def ioWrite_unlimited)
  let ?st' = "?st1\<lparr>dy_db := db, dy_postingSizes := ps\<rparr>"
  have run: "dy_BuildIndex bd en md pageLimit order blockSize capacity None headFile vs 0 st
    = Inr (Some (?st', Inr \<lparr>os_data = ds_image ps, os_room = None\<rparr>, Inr \<lparr>os_data = enc_int 4 (vl_deleted vl) @ ds_image (vl_data vl), os_room = None\<rparr>))"
    using sel(1,2,7) db(1) ps0(1) ps(1) s1 s2 vl(1) limit(1) vis norm st(4,5)
    by (simp add: dy_BuildIndex_def Let_def liftO_def headIDsOf_def)
  have ok: "st_ok ?st'" using st db(2) vl(2) ps(2,3) by (simp add: st_ok_def)
  have vl0: "vl_deleted vl = 0" using vl(2,4) by (simp add: vl_inv_def count_list_replicate)
  have posting: "\<exists>p near. postings ?st' (int i) = Some p \<and> known ?st' p \<and> live ?st' p = entriesOf vis p \<and> sizes ?st' ! i = int (length (entriesOf vis p)) \<and>
       entriesOf vis p = map (\<lambda>e. enc_int 4 (egTonode e) @ 255 # f (vs_vectors vs ! nat (egTonode e))) (take limit near) \<and>
       mset near = mset (choosers ch ?n (int i)) \<and> sorted (map egDistance near)" if i: "i < samples" for i
  proof -
    let ?es = "edgesOf es (int i)"
    have vp: "0 < vis" using vis by (simp add: metaDataSize_def)
    have e1: "entriesOf vis (?p i) = map (builtEntry vl (map f (vs_vectors vs))) (?near i)" by (rule entriesOf_concat [OF ent [OF i] vp])
    have b1: "builtEntry vl (map f (vs_vectors vs)) e = enc_int 4 (egTonode e) @ 255 # f (vs_vectors vs ! nat (egTonode e))"
      and k1: "entryVID (builtEntry vl (map f (vs_vectors vs)) e) = egTonode e" "entryVersion (builtEntry vl (map f (vs_vectors vs)) e) = 255"
      and h1: "vl_has vl (egTonode e)" "versions vl ! nat (egTonode e) = 255" if "e \<in> set ?es" for e
    proof -
      have h: "0 \<le> egTonode e" "nat (egTonode e) < ?n" "vl_has vl (egTonode e)" using has [OF i] that by (auto simp: vl_has_def nat_less_iff)
      show v: "versions vl ! nat (egTonode e) = 255" using h(2) vl(4) by simp
      show "vl_has vl (egTonode e)" by (rule h(3))
      show "builtEntry vl (map f (vs_vectors vs)) e = enc_int 4 (egTonode e) @ 255 # f (vs_vectors vs ! nat (egTonode e))"
        using h(2) v by (simp add: builtEntry_def)
      have "int32_ok (egTonode e)" using h(1,2) n by (simp add: int32_ok_def nat_less_iff)
      then show "entryVID (builtEntry vl (map f (vs_vectors vs)) e) = egTonode e" by (simp add: entryVID_def builtEntry_def dec_enc_int32)
      show "entryVersion (builtEntry vl (map f (vs_vectors vs)) e) = 255" using v by (simp add: entryVersion_def builtEntry_def nth_append)
    qed
    have e2: "entriesOf vis (?p i) = map (\<lambda>e. enc_int 4 (egTonode e) @ 255 # f (vs_vectors vs ! nat (egTonode e))) (?near i)"
      unfolding e1 using b1 by (auto dest: in_set_takeD)
    have "liveEntry vl x \<and> knownEntry vl x" if "x \<in> set (entriesOf vis (?p i))" for x
      using that k1 h1 unfolding e1 by (auto simp: liveEntry_def knownEntry_def dest!: in_set_takeD)
    then have lk: "live ?st' (?p i) = entriesOf vis (?p i)" "known ?st' (?p i)"
      by (simp_all add: live_def liveEntries_def known_def)
    have "postings ?st' (int i) = Some (?p i)" using db(3) order(2) i by (simp add: postings_def)
    moreover have "sizes ?st' ! i = int (length (entriesOf vis (?p i)))" using ps(4) sel(8) i unfolding e2 by simp
    ultimately show ?thesis using lk e2 sel(8) i by blast
  qed
  show ?thesis using run ok vl(4) vl0 posting by (intro exI conjI) (assumption | simp)+
qed

end

section \<open>The property\<close>

text \<open>
  C9 \<open>BuildIndex\<close> on a fresh searcher over \<open>SPDKIO\<close> and \<open>BKT::Index\<close>, whatever the number of batches and the order of the
  puts: it succeeds and leaves the searcher in its invariant with every vector at version 255 and none deleted; the posting
  of every head holds the nearest of the vectors that chose it, up to the limit, each with its id, version and vector, all
  of them known and live; and the recorded size of a posting is its number of entries.
\<close>

theorem BuildIndex_establishes:
  assumes norm: "bd_normalize bd = map f" and width: "\<forall>v \<in> set (vs_vectors vs). length (f v) = vs_dataSize vs" and n: "length (vs_vectors vs) < 2 ^ 31"
    and heads: "headsOk (length (vs_vectors vs)) samples ch" and ch: "ch = chosen bd (headIDsOf headFile) (map f (vs_vectors vs))" and samples: "int samples \<le> MaxSize"
    and bs: "0 < bd_batches bd" "\<forall>i < bd_batches bd. i * ((length (vs_vectors vs) + bd_batches bd - 1) div bd_batches bd) \<le> length (vs_vectors vs)"
    and limit: "bd_sizeLimit (en_postingSizeLimit en) pageLimit (en_vectorInfoSize en) = int limit" "limit < 2 ^ 31"
    and vis: "en_vectorInfoSize en = vs_dataSize vs + metaDataSize"
    and st: "sp_inv (dy_db st)" "bh_inv dim e deg (dy_index st)" "dy_versionMap st = vl_new" "dy_postingSizes st = ps_new" "bh_GetNumSamples (dy_index st) = int samples"
    and order: "distinct order" "set order = {0 ..< samples}"
    and room: "sp_roomy (dy_db st) (int samples) (map (\<lambda>i. min limit (length (choosers ch (length (vs_vectors vs)) (int i))) * en_vectorInfoSize en) order)"
  shows "\<exists>st' ssdInfo deleteID. dy_BuildIndex bd (spdkEnv dim deg refine en) md pageLimit order blockSize capacity None headFile vs 0 st
       = Inr (Some (st', Inr ssdInfo, Inr deleteID)) \<and>
    sf_ok dim e deg st' \<and> dy_index st' = dy_index st \<and> versions (dy_versionMap st') = replicate (length (vs_vectors vs)) 255 \<and> vl_deleted (dy_versionMap st') = 0 \<and>
    (\<forall>i < samples. \<exists>p near. sf_postings st' (int i) = Some p \<and> sf_known en st' p \<and> sf_live en st' p = entriesOf (en_vectorInfoSize en) p \<and>
       sf_sizes st' ! i = int (length (entriesOf (en_vectorInfoSize en) p)) \<and>
       entriesOf (en_vectorInfoSize en) p = map (\<lambda>e. enc_int 4 (egTonode e) @ 255 # f (vs_vectors vs ! nat (egTonode e))) (take limit near) \<and>
       mset near = mset (choosers ch (length (vs_vectors vs)) (int i)) \<and> sorted (map egDistance near))"
  using spfresh.BuildIndex_ok [where en = en and dim = dim and deg = deg and refine = refine and e = e, unfolded spdkEnv_simps sf_eqs,
      OF norm width n heads ch samples bs limit vis st order room]
  by simp

text \<open>The four vectors of before for the two heads of \<open>bhTwo\<close>, into the empty sample store, one vector per posting.\<close>

definition vsFour :: vectorSet where
  "vsFour = \<lparr>vs_vectors = vectorsFour, vs_dim = 1, vs_dataSize = 1\<rparr>"

definition headsTwo :: bytes where
  "headsTwo = [0, 0, 0, 0, 0, 0, 0, 0, 1, 0, 0, 0, 0, 0, 0, 0]"

definition sfFresh :: sfState where
  "sfFresh = sfSample\<lparr>dy_db := spSample, dy_versionMap := vl_new, dy_postingSizes := ps_new, dy_index := bhTwo, dy_splitList := {}\<rparr>"

lemma headsTwo: "headIDsOf (Some headsTwo) = {0, 1}"
  by (simp add: headIDsOf_def headsTwo_def bd_readHeads.simps dec_sint_def Let_def numeral_eq_Suc insert_commute)

lemma spSample_room2: "b \<le> 100 \<Longrightarrow> n \<le> 4096 \<Longrightarrow> m \<le> 4096 \<Longrightarrow> sp_roomy spSample b [n, m]"
proof -
  assume a: "b \<le> 100" "n \<le> 4096" "m \<le> 4096"
  have p: "pagesOf k \<le> 1" if "k \<le> 4096" for k using pagesOf_1 [of k] that by (cases "k = 0") auto
  have "sp_freePages spSample = 10" "sp_blockLimit spSample = 4" "sp_next spSample = 4" "ds_maxRows (sp_mapping spSample) = 100"
    by (simp_all add: sp_freePages_def bc_RemainBlocks_def spSample_def spCtlSample_def spMapSample)
  then show ?thesis using a p [OF a(2)] p [OF a(3)] by (simp add: sp_roomy_def noArray_def)
qed

lemma fourFacts:
  "bd_normalize buildFour = map id" "\<forall>v \<in> set (vs_vectors vsFour). length (id v) = vs_dataSize vsFour" "length (vs_vectors vsFour) < 2 ^ 31"
  "headsOk (length (vs_vectors vsFour)) 2 (chosen buildFour {0, 1} (map id vectorsFour))"
  "chosen buildFour {0, 1} (map id vectorsFour) = chosen buildFour (headIDsOf (Some headsTwo)) (map id (vs_vectors vsFour))"
  "int 2 \<le> MaxSize" "0 < bd_batches buildFour"
  "\<forall>i < bd_batches buildFour. i * ((length (vs_vectors vsFour) + bd_batches buildFour - 1) div bd_batches buildFour) \<le> length (vs_vectors vsFour)"
  "bd_sizeLimit (en_postingSizeLimit (sfEnvSample 1 noKm)) 0 (en_vectorInfoSize (sfEnvSample 1 noKm)) = int 1" "(1 :: nat) < 2 ^ 31"
  "en_vectorInfoSize (sfEnvSample 1 noKm) = vs_dataSize vsFour + metaDataSize"
  "sp_inv (dy_db sfFresh)" "bh_inv 1 1 1 (dy_index sfFresh)" "dy_versionMap sfFresh = vl_new" "dy_postingSizes sfFresh = ps_new"
  "bh_GetNumSamples (dy_index sfFresh) = int 2" "distinct [1, 0 :: nat]" "set [1, 0] = {0 ..< 2 :: nat}"
  "sp_roomy (dy_db sfFresh) (int 2) (map (\<lambda>i. min 1 (length (choosers (chosen buildFour {0, 1} (map id vectorsFour)) (length (vs_vectors vsFour)) (int i)))
     * en_vectorInfoSize (sfEnvSample 1 noKm)) [1, 0])"
proof -
  let ?ch = "chosen buildFour {0, 1} (map id vectorsFour)"
  have len: "length (vs_vectors vsFour) = 4" "vs_vectors vsFour = vectorsFour" "vs_dataSize vsFour = 1"
    by (simp_all add: vsFour_def vectorsFour_def)
  have norm: "bd_normalize buildFour = map id" by (simp add: buildFour_def)
  have width: "\<forall>v \<in> set (vs_vectors vsFour). length (id v) = vs_dataSize vsFour" by (simp add: vsFour_def vectorsFour_def)
  have n: "length (vs_vectors vsFour) < 2 ^ 31" by (simp add: vsFour_def vectorsFour_def)
  have "j = 0 \<or> j = 1 \<or> j = 2 \<or> j = 3" if "j < 4" for j :: nat using that by auto
  then have heads: "headsOk (length (vs_vectors vsFour)) 2 ?ch"
    unfolding headsOk_def len(1) using buildFour_chosen by (fastforce simp: MaxSize_def)
  have ch: "?ch = chosen buildFour (headIDsOf (Some headsTwo)) (map id (vs_vectors vsFour))" by (simp add: headsTwo len)
  have samples: "int 2 \<le> MaxSize" by (simp add: MaxSize_def)
  have b0: "0 < bd_batches buildFour" by (simp add: buildFour_def)
  have b1: "\<forall>i < bd_batches buildFour. i * ((length (vs_vectors vsFour) + bd_batches buildFour - 1) div bd_batches buildFour) \<le> length (vs_vectors vsFour)"
    unfolding len(1) by (auto simp: buildFour_def)
  have limit: "bd_sizeLimit (en_postingSizeLimit (sfEnvSample 1 noKm)) 0 (en_vectorInfoSize (sfEnvSample 1 noKm)) = int 1" "(1 :: nat) < 2 ^ 31"
    by (simp_all add: bd_sizeLimit_def sfEnvSample_def)
  have vis: "en_vectorInfoSize (sfEnvSample 1 noKm) = vs_dataSize vsFour + metaDataSize" by (simp add: len sfEnvSample_def metaDataSize_def)
  have st: "sp_inv (dy_db sfFresh)" "bh_inv 1 1 1 (dy_index sfFresh)" "dy_versionMap sfFresh = vl_new" "dy_postingSizes sfFresh = ps_new"
    "bh_GetNumSamples (dy_index sfFresh) = int 2"
    using bhTwo(1,2) by (simp_all add: sfFresh_def spSample_inv)
  have order: "distinct [1, 0 :: nat]" "set [1, 0] = {0 ..< 2 :: nat}" by auto
  have room: "sp_roomy (dy_db sfFresh) (int 2) (map (\<lambda>i. min 1 (length (choosers ?ch (length (vs_vectors vsFour)) (int i))) * en_vectorInfoSize (sfEnvSample 1 noKm)) [1, 0])"
    using spSample_room2 [of 2] by (simp add: sfFresh_def sfEnvSample_def)
  show "bd_normalize buildFour = map id" by (rule norm)
  show "\<forall>v \<in> set (vs_vectors vsFour). length (id v) = vs_dataSize vsFour" by (rule width)
  show "length (vs_vectors vsFour) < 2 ^ 31" by (rule n)
  show "headsOk (length (vs_vectors vsFour)) 2 ?ch" by (rule heads)
  show "?ch = chosen buildFour (headIDsOf (Some headsTwo)) (map id (vs_vectors vsFour))" by (rule ch)
  show "int 2 \<le> MaxSize" by (rule samples)
  show "0 < bd_batches buildFour" by (rule b0)
  show "\<forall>i < bd_batches buildFour. i * ((length (vs_vectors vsFour) + bd_batches buildFour - 1) div bd_batches buildFour) \<le> length (vs_vectors vsFour)" by (rule b1)
  show "bd_sizeLimit (en_postingSizeLimit (sfEnvSample 1 noKm)) 0 (en_vectorInfoSize (sfEnvSample 1 noKm)) = int 1" "(1 :: nat) < 2 ^ 31" by (rule limit)+
  show "en_vectorInfoSize (sfEnvSample 1 noKm) = vs_dataSize vsFour + metaDataSize" by (rule vis)
  show "sp_inv (dy_db sfFresh)" "bh_inv 1 1 1 (dy_index sfFresh)" "dy_versionMap sfFresh = vl_new" "dy_postingSizes sfFresh = ps_new" "bh_GetNumSamples (dy_index sfFresh) = int 2" by (rule st)+
  show "distinct [1, 0 :: nat]" "set [1, 0] = {0 ..< 2 :: nat}" by (rule order)+
  show "sp_roomy (dy_db sfFresh) (int 2) (map (\<lambda>i. min 1 (length (choosers ?ch (length (vs_vectors vsFour)) (int i))) * en_vectorInfoSize (sfEnvSample 1 noKm)) [1, 0])" by (rule room)
qed

theorem BuildIndex_establishes_witness:
  "\<exists>st' ssdInfo deleteID. dy_BuildIndex buildFour (spdkEnv 1 1 (\<lambda>h node. bh_graph h) (sfEnvSample 1 noKm)) 100 0 [1, 0] 4 100 None (Some headsTwo) vsFour 0 sfFresh
       = Inr (Some (st', Inr ssdInfo, Inr deleteID)) \<and>
    sf_ok 1 1 1 st' \<and> dy_index st' = bhTwo \<and> versions (dy_versionMap st') = replicate 4 255 \<and> vl_deleted (dy_versionMap st') = 0 \<and>
    (\<forall>i < 2. \<exists>p near. sf_postings st' (int i) = Some p \<and> sf_known (sfEnvSample 1 noKm) st' p \<and> sf_live (sfEnvSample 1 noKm) st' p = entriesOf 6 p \<and>
       sf_sizes st' ! i = int (length (entriesOf 6 p)) \<and>
       entriesOf 6 p = map (\<lambda>e. enc_int 4 (egTonode e) @ 255 # vectorsFour ! nat (egTonode e)) (take 1 near) \<and>
       mset near = mset (choosers (chosen buildFour {0, 1} (map id vectorsFour)) 4 (int i)) \<and> sorted (map egDistance near))"
proof -
  have len: "length (vs_vectors vsFour) = 4" "vs_vectors vsFour = vectorsFour"
    by (simp_all add: vsFour_def vectorsFour_def)
  have v6: "en_vectorInfoSize (sfEnvSample 1 noKm) = 6" by (simp add: sfEnvSample_def)
  show ?thesis
    using BuildIndex_establishes [where refine = "\<lambda>h node. bh_graph h", OF fourFacts, of 100 4 100]
    unfolding v6 len(1) by (simp add: sfFresh_def len)
qed

section \<open>Building again\<close>









end
