(* ===== verification/DynUpdateClaims.thy ===== *)
theory DynUpdateClaims
  imports DynClaims
begin

text \<open>
  The properties of the reassignment scan, of the head selection, of \<open>Append\<close>, \<open>AddIndex\<close> and \<open>Reassign\<close> on
  the searcher over \<open>SPDKIO\<close> and \<open>BKT::Index\<close>, each with a state that meets its hypotheses.
\<close>

section \<open>The readings\<close>

definition sf_isHead :: "sfState \<Rightarrow> int \<Rightarrow> bool" where
  "sf_isHead st k \<longleftrightarrow> 0 \<le> k \<and> k < bh_GetNumSamples (dy_index st)"

definition sf_wants :: "('f :: linorder) sfEnv \<Rightarrow> sfState \<Rightarrow> int list \<Rightarrow> int \<Rightarrow> bool \<Rightarrow> int \<Rightarrow> bytes \<Rightarrow> bool" where
  "sf_wants en st newHeads headID isIn h e \<longleftrightarrow> liveEntry (dy_versionMap st) e \<and>
     (let v = entryVector e; toOld = en_Distance en v (sf_vec st headID); toCur = en_Distance en (sf_vec st h) v
      in if isIn then toOld < toCur
         else let d1 = en_Distance en v (sf_vec st (newHeads ! 0)); d2 = en_Distance en v (sf_vec st (newHeads ! 1))
              in \<not> (toOld \<le> d1 \<and> toOld \<le> d2) \<and> \<not> (toCur \<le> d1 \<and> toCur \<le> d2))"

definition sf_near :: "('f :: linorder) sfEnv \<Rightarrow> sfState \<Rightarrow> int \<Rightarrow> int list \<Rightarrow> int list" where
  "sf_near en st headID newHeads =
     (if en_reassignK en = 0 then []
      else nearbyOthers newHeads (en_Search en (dy_index st) (sf_vec st headID) (en_reassignK en)))"

definition sf_headDist :: "'f sfEnv \<Rightarrow> sfState \<Rightarrow> int \<Rightarrow> int \<Rightarrow> 'f" where
  "sf_headDist en st a b = en_Distance en (sf_vec st a) (sf_vec st b)"

definition sf_found :: "'f sfEnv \<Rightarrow> sfState \<Rightarrow> bytes \<Rightarrow> 'f basicResult list" where
  "sf_found en st q = en_Search en (dy_index st) q (en_internalResultNum en)"

definition sf_searchOk :: "'f sfEnv \<Rightarrow> sfState \<Rightarrow> bytes \<Rightarrow> bool" where
  "sf_searchOk en st q \<longleftrightarrow> (\<forall>r \<in> set (candidates (sf_found en st q)). sf_isHead st (VID r))"

definition sf_select :: "('f :: linorder) sfEnv \<Rightarrow> sfState \<Rightarrow> bytes \<Rightarrow> int \<Rightarrow> int \<Rightarrow> bool \<times> 'f edge list" where
  "sf_select en st q fullID checkID =
     rngSelect (sf_headDist en st) (en_rngScale en) (en_replicaCount en) fullID checkID (sf_found en st q) []"

definition sf_canAppend :: "bytes \<Rightarrow> int list \<Rightarrow> sfState \<Rightarrow> bool" where
  "sf_canAppend q hs st \<longleftrightarrow> kvCanRun (kvCan sp_view sp_canPut sp_canMerge) (kvDo sp_Put sp_Merge sp_Delete)
     (map (\<lambda>h. KvMerge h q) hs) (dy_db st)"

lemma sf_isHead_eq: "dyn_searcher.isHead (spdkEnv dim deg refine en) st = sf_isHead st"
  by (rule ext) (simp add: spfresh.isHead_def sf_isHead_def)

lemma sf_wants_eq:
  "dyn_searcher.wants (spdkEnv dim deg refine en) (\<lambda>h. ds_list (bh_samples h)) st = sf_wants en st"
  by (intro ext) (simp add: spfresh.wants_def sf_wants_def sf_eqs)

lemma sf_near_eq:
  "dyn_searcher.nearHeads (spdkEnv dim deg refine en) (\<lambda>h. ds_list (bh_samples h)) st = sf_near en st"
  by (intro ext) (simp add: spfresh.nearHeads_def sf_near_def sf_eqs)

lemma sf_headDist_eq:
  "dyn_searcher.headDist (spdkEnv dim deg refine en) (\<lambda>h. ds_list (bh_samples h)) st = sf_headDist en st"
  by (intro ext) (simp add: spfresh.headDist_def sf_headDist_def sf_eqs)

lemma sf_searchOk_eq:
  "dyn_searcher.searchOk (spdkEnv dim deg refine en) st q = sf_searchOk en st q"
  by (simp add: spfresh.searchOk_def spfresh.goodResults_def sf_searchOk_def sf_found_def sf_isHead_eq)

lemma sf_select_eq:
  "dyn_searcher.selects (spdkEnv dim deg refine en) (\<lambda>h. ds_list (bh_samples h)) st = sf_select en st"
  by (intro ext) (simp add: spfresh.selects_def sf_select_def sf_headDist_eq sf_found_def)

lemmas sf_more_eqs = sf_eqs sf_isHead_eq sf_wants_eq sf_near_eq sf_headDist_eq sf_searchOk_eq sf_select_eq

section \<open>CollectReAssign\<close>

text \<open>The entries a scan of some postings meets, each with the head of its posting.\<close>

definition scanOf :: "nat \<Rightarrow> bool \<Rightarrow> int list \<Rightarrow> bytes list \<Rightarrow> (bool \<times> int \<times> bytes) set" where
  "scanOf vis isIn hs ps = {(isIn, h, e) |h e. \<exists>p. (h, p) \<in> set (zip hs ps) \<and> e \<in> set (entriesOf vis p)}"

lemma pickAll_complete:
  "(h, es) \<in> set ps \<Longrightarrow> e \<in> set es \<Longrightarrow> want h e \<Longrightarrow> entryVID e \<in> queued \<union> vidsOf (pickAll want queued ps)"
proof (induction want queued ps rule: pickAll.induct)
  case (2 want queued h' es' rest)
  let ?s = "picked (want h') queued es'"
  have u: "vidsOf (pickAll want queued ((h', es') # rest)) = entryVID ` set ?s \<union> vidsOf (pickAll want (queued \<union> entryVID ` set ?s) rest)"
    by (auto simp: vidsOf_def Let_def image_Un image_image)
  show ?case
  proof (cases "(h, es) = (h', es')")
    case True
    then show ?thesis using picked_complete [of e es' "want h'" queued] "2.prems" u by auto
  next
    case False
    then have "(h, es) \<in> set rest" using "2.prems" by auto
    from "2.IH" [OF refl this "2.prems"(2,3)] show ?thesis unfolding u by blast
  qed
qed simp

lemma scan_pickAll:
  assumes "z = pickAll want queued (zip hs (map (entriesOf vis) ps))"
  shows "(e, h) \<in> set z \<Longrightarrow> (isIn, h, e) \<in> scanOf vis isIn hs ps \<and> want h e \<and> entryVID e \<notin> queued"
    and "(isIn, h, e) \<in> scanOf vis isIn hs ps \<Longrightarrow> want h e \<Longrightarrow> entryVID e \<in> queued \<union> vidsOf z"
proof -
  have zs: "set (zip hs (map (entriesOf vis) ps)) = (\<lambda>(h, p). (h, entriesOf vis p)) ` set (zip hs ps)"
    by (simp add: zip_map2)
  show "(isIn, h, e) \<in> scanOf vis isIn hs ps \<and> want h e \<and> entryVID e \<notin> queued" if "(e, h) \<in> set z"
    using pickAll_sub [of e h want queued "zip hs (map (entriesOf vis) ps)"] that assms zs by (auto simp: scanOf_def)
  show "entryVID e \<in> queued \<union> vidsOf z" if scan: "(isIn, h, e) \<in> scanOf vis isIn hs ps" "want h e"
  proof -
    obtain p where p: "(h, p) \<in> set (zip hs ps)" "e \<in> set (entriesOf vis p)" using scan(1) by (auto simp: scanOf_def)
    then have "(h, entriesOf vis p) \<in> set (zip hs (map (entriesOf vis) ps))" using zs by auto
    from pickAll_complete [of h _ _ e want queued, OF this p(2) scan(2)] show ?thesis using assms by simp
  qed
qed

text \<open>
  C3 After a split, \<open>CollectReAssign\<close> queues a job for a vector at most once; every job is for an entry of a
  scanned posting that is live and meets the criterion of \<open>CheckIsNeedReassign\<close> for that posting's head, and
  names that head as the previous one; every vector with such an entry gets a job. The scan covers the two new
  postings and, when \<open>m_reassignK\<close> is positive, the postings of the nearby other heads. Nothing but the queue
  and the statistics changes.
\<close>

theorem CollectReAssign_queues:
  assumes "sf_ok dim e deg st" "5 \<le> en_vectorInfoSize en" "sf_isHead st headID" "sf_isHead st h0" "sf_isHead st h1"
    and "sf_known en st p0" "sf_known en st p1"
    and "list_all2 (\<lambda>k v. sf_postings st k = Some v) (sf_near en st headID [h0, h1]) vs"
    and "\<forall>k \<in> set (sf_near en st headID [h0, h1]). sf_isHead st k" "\<forall>p \<in> set vs. sf_known en st p"
    and "scan = scanOf (en_vectorInfoSize en) True [h0, h1] [p0, p1]
           \<union> scanOf (en_vectorInfoSize en) False (sf_near en st headID [h0, h1]) vs"
  shows "\<exists>stat z. dy_CollectReAssign (spdkEnv dim deg refine en) headID [p0, p1] [h0, h1] st
      = Ret (Success, st\<lparr>dy_jobs := dy_jobs st @ map (\<lambda>(x, h). ReassignAsyncJob x h) z, dy_stat := stat\<rparr>)
    \<and> distinct (map (\<lambda>(x, h). entryVID x) z)
    \<and> (\<forall>(x, h) \<in> set z. \<exists>isIn. (isIn, h, x) \<in> scan \<and> sf_wants en st [h0, h1] headID isIn h x)
    \<and> (\<forall>(isIn, h, x) \<in> scan. sf_wants en st [h0, h1] headID isIn h x \<longrightarrow> (\<exists>(x', h') \<in> set z. entryVID x' = entryVID x))"
proof -
  let ?vis = "en_vectorInfoSize en" and ?near = "sf_near en st headID [h0, h1]"
  let ?w = "sf_wants en st [h0, h1] headID"
  obtain z1 where z1: "z1 = pickAll (?w True) {} (zip [h0, h1] (map (entriesOf ?vis) [p0, p1]))" by simp
  obtain z2 where z2: "z2 = pickAll (?w False) (vidsOf z1) (zip ?near (map (entriesOf ?vis) vs))" by simp
  note s1 = scan_pickAll [OF z1] and s2 = scan_pickAll [OF z2]
  obtain st' where st': "dy_CollectReAssign (spdkEnv dim deg refine en) headID [p0, p1] [h0, h1] st = Ret (Success, st')"
    "spfresh.queuedTo st st' (reassignJobs (z1 @ z2))"
    using spfresh.CollectReAssign_ok [of dim deg refine en e st headID h0 h1 p0 p1 vs z1 z2, unfolded sf_more_eqs spdkEnv_simps]
      assms(1-10) z1 z2 by auto
  obtain s where s: "st' = st\<lparr>dy_jobs := dy_jobs st @ reassignJobs (z1 @ z2), dy_stat := s\<rparr>"
    using st'(2) by (auto simp: spfresh.queuedTo_def)
  have v: "(\<exists>(x', h') \<in> set (z1 @ z2). entryVID x' = i) \<longleftrightarrow> i \<in> vidsOf z1 \<union> vidsOf z2" for i
    by (force simp: vidsOf_def)
  have dj: "set (map (\<lambda>(x, h). entryVID x) z1) \<inter> set (map (\<lambda>(x, h). entryVID x) z2) = {}"
  proof -
    have "\<forall>y \<in> set z2. case y of (x, h) \<Rightarrow> entryVID x \<notin> vidsOf z1" using s2(1) [of _ _ True] by auto
    moreover have "set (map (\<lambda>(x, h). entryVID x) z1) = vidsOf z1" by (simp add: vidsOf_def)
    ultimately show ?thesis by auto
  qed
  have d: "distinct (map (\<lambda>(x, h). entryVID x) (z1 @ z2))"
    using dj pickAll_distinct [of "?w True" "{}" "zip [h0, h1] (map (entriesOf ?vis) [p0, p1])"]
      pickAll_distinct [of "?w False" "vidsOf z1" "zip ?near (map (entriesOf ?vis) vs)"] by (simp add: z1 z2)
  have sound: "\<forall>(x, h) \<in> set (z1 @ z2). \<exists>isIn. (isIn, h, x) \<in> scan \<and> ?w isIn h x"
    using s1(1) s2(1) assms(11) by fastforce
  have complete: "\<forall>(isIn, h, x) \<in> scan. ?w isIn h x \<longrightarrow> (\<exists>(x', h') \<in> set (z1 @ z2). entryVID x' = entryVID x)"
  proof (clarify)
    fix isIn h x assume x: "(isIn, h, x) \<in> scan" "?w isIn h x"
    then have "entryVID x \<in> vidsOf z1 \<union> vidsOf z2"
      using s1(2) [of isIn h x] s2(2) [of isIn h x] assms(11) by (cases isIn) (auto simp: scanOf_def)
    then show "\<exists>(x', h') \<in> set (z1 @ z2). entryVID x' = entryVID x" by (simp only: v)
  qed
  show ?thesis
    using st'(1) s d sound complete by (intro exI [of _ s] exI [of _ "z1 @ z2"]) (simp add: reassignJobs_def)
qed


lemma sample_entry:
  "uint a < 128 \<Longrightarrow> entryVID [a, 0, 0, 0, b, c] = uint a" "entryVersion [a, 0, 0, 0, b, c] = b"
  "entryVector [a, 0, 0, 0, b, c] = [c]"
  by (simp_all add: entryVID_def entryVersion_def entryVector_def dec_sint_def Let_def numeral_eq_Suc metaDataSize_def)

lemma sfTwo_entries:
  "entriesOf 6 sfPosting1 = [sfPosting1]" "knownEntry vlSample [0, 0, 0, 0, b, c]" "knownEntry vlSample [1, 0, 0, 0, b, c]"
  "knownEntry vlSample [2, 0, 0, 0, b, c]" "liveEntry vlSample [0, 0, 0, 0, 255, c]" "liveEntry vlSample [1, 0, 0, 0, 255, c]"
  "liveEntry vlSample [2, 0, 0, 0, 255, c]" "\<not> liveEntry vlSample [2, 0, 0, 0, 3, c]"
proof -
  show "entriesOf 6 sfPosting1 = [sfPosting1]" using entriesOf_concat [of "[sfPosting1]" 6] by (simp add: sfPosting1_def)
  have "vl_has vlSample 0" "vl_has vlSample 1" "vl_has vlSample 2" by (simp_all add: vl_has_def vlSample)
  then show "knownEntry vlSample [0, 0, 0, 0, b, c]" "knownEntry vlSample [1, 0, 0, 0, b, c]" "knownEntry vlSample [2, 0, 0, 0, b, c]"
    by (simp_all add: knownEntry_def sample_entry)
  show "liveEntry vlSample [0, 0, 0, 0, 255, c]" "liveEntry vlSample [1, 0, 0, 0, 255, c]"
    "liveEntry vlSample [2, 0, 0, 0, 255, c]" "\<not> liveEntry vlSample [2, 0, 0, 0, 3, c]"
    by (simp_all add: liveEntry_def sample_entry vlSample)
qed

lemma sfTwo_known:
  "sf_known (sfEnvSample limit km) sfTwo sfPosting" "sf_known (sfEnvSample limit km) sfTwo sfPosting1"
proof -
  have v: "en_vectorInfoSize (sfEnvSample limit km) = 6" by (simp add: sfEnvSample_def)
  show "sf_known (sfEnvSample limit km) sfTwo sfPosting"
    unfolding sf_known_def v sfSample_entries sfTwo(5) by (simp add: sfTwo_entries)
  show "sf_known (sfEnvSample limit km) sfTwo sfPosting1"
    unfolding sf_known_def v sfTwo_entries(1) sfTwo(5) by (simp add: sfTwo_entries sfPosting1_def)
qed

theorem CollectReAssign_queues_witness:
  "\<exists>stat z. dy_CollectReAssign (spdkEnv 1 1 (\<lambda>h n. bh_graph h) (sfEnvSample 4 noKm)) 1 [sfPosting, sfPosting1] [0, 1] sfTwo
      = Ret (Success, sfTwo\<lparr>dy_jobs := map (\<lambda>(x, h). ReassignAsyncJob x h) z, dy_stat := stat\<rparr>)
    \<and> (\<exists>(x, h) \<in> set z. entryVID x = 0) \<and> (\<exists>(x, h) \<in> set z. entryVID x = 1) \<and> distinct (map (\<lambda>(x, h). entryVID x) z)"
proof -
  let ?en = "sfEnvSample 4 noKm"
  have v: "en_vectorInfoSize ?en = 6" "en_reassignK ?en = 0" by (simp_all add: sfEnvSample_def)
  have near: "sf_near ?en sfTwo 1 [0, 1] = []" using v by (simp add: sf_near_def)
  let ?scan = "scanOf 6 True [0, 1] [sfPosting, sfPosting1]"
  have prem: "5 \<le> en_vectorInfoSize ?en" "sf_isHead sfTwo 1" "sf_isHead sfTwo 0" "sf_isHead sfTwo 1"
    "list_all2 (\<lambda>k v. sf_postings sfTwo k = Some v) (sf_near ?en sfTwo 1 [0, 1]) []"
    "\<forall>k \<in> set (sf_near ?en sfTwo 1 [0, 1]). sf_isHead sfTwo k" "\<forall>p \<in> set []. sf_known ?en sfTwo p"
    "?scan = scanOf (en_vectorInfoSize ?en) True [0, 1] [sfPosting, sfPosting1]
      \<union> scanOf (en_vectorInfoSize ?en) False (sf_near ?en sfTwo 1 [0, 1]) []"
    using v near sfTwo(14) by (simp_all add: sf_isHead_def scanOf_def)
  from CollectReAssign_queues [OF sfTwo(1) prem(1-4) sfTwo_known prem(5-8), where refine = "\<lambda>h n. bh_graph h"]
  obtain stat z where z: "dy_CollectReAssign (spdkEnv 1 1 (\<lambda>h n. bh_graph h) ?en) 1 [sfPosting, sfPosting1] [0, 1] sfTwo
      = Ret (Success, sfTwo\<lparr>dy_jobs := dy_jobs sfTwo @ map (\<lambda>(x, h). ReassignAsyncJob x h) z, dy_stat := stat\<rparr>)"
    "distinct (map (\<lambda>(x, h). entryVID x) z)"
    "\<forall>(isIn, h, x) \<in> ?scan. sf_wants ?en sfTwo [0, 1] 1 isIn h x \<longrightarrow> (\<exists>(x', h') \<in> set z. entryVID x' = entryVID x)"
    by blast
  have s: "(True, 0, [0, 0, 0, 0, 255, 10]) \<in> ?scan" "(True, 0, [1, 0, 0, 0, 255, 20]) \<in> ?scan"
    by (simp_all add: scanOf_def sfSample_entries)
  have w: "sf_wants ?en sfTwo [0, 1] 1 True 0 [0, 0, 0, 0, 255, 10]" "sf_wants ?en sfTwo [0, 1] 1 True 0 [1, 0, 0, 0, 255, 20]"
    by (simp_all add: sf_wants_def sample_entry sfTwo(5,8,9) sfTwo_entries sfEnvSample_def)
  from z(3) s w have "\<exists>(x', h') \<in> set z. entryVID x' = entryVID [0, 0, 0, 0, 255, 10]"
    "\<exists>(x', h') \<in> set z. entryVID x' = entryVID [1, 0, 0, 0, 255, 20]" by blast+
  then show ?thesis using z(1,2) by (intro exI [of _ stat] exI [of _ z]) (simp add: sample_entry sfTwo(10))
qed

section \<open>RNGSelection\<close>

text \<open>
  C22 \<open>RNGSelection\<close> selects at most \<open>m_replicaCount\<close> heads, all among the search results before the first
  empty one and none of them \<open>checkHeadID\<close>; each is closer to the vector than to any head selected before it,
  by the factor \<open>m_rngFactor\<close>; and when the answer is \<open>true\<close> with room left, every result passed over lost to a
  selected head.
\<close>

theorem RNGSelection_rule:
  assumes "sf_ok dim e deg st" "sf_searchOk en st q"
  shows "\<exists>ok sel. dy_RNGSelection (spdkEnv dim deg refine en) (dy_index st) q fullID checkID = Ret (ok, sel)
    \<and> length sel \<le> en_replicaCount en
    \<and> (\<forall>x \<in> set sel. egTonode x = fullID \<and> egNode x \<noteq> checkID
          \<and> BasicResult (egNode x) (egDistance x) \<in> set (candidates (sf_found en st q)))
    \<and> (\<forall>j < length sel. \<forall>i < j. egDistance (sel ! j) < en_rngScale en (sf_headDist en st (egNode (sel ! j)) (egNode (sel ! i))))
    \<and> (ok \<and> length sel < en_replicaCount en \<longrightarrow> (\<forall>r \<in> set (candidates (sf_found en st q)).
          Edge (VID r) fullID (Dist r) \<in> set sel \<or> (\<exists>x \<in> set sel. en_rngScale en (sf_headDist en st (VID r) (egNode x)) \<le> Dist r)))"
proof -
  obtain ok sel where s: "sf_select en st q fullID checkID = (ok, sel)" by (cases "sf_select en st q fullID checkID")
  note sd = s [unfolded sf_select_def]
  have r: "dy_RNGSelection (spdkEnv dim deg refine en) (dy_index st) q fullID checkID = Ret (ok, sel)"
    using spfresh.RNGSelection_ok [of dim deg refine en e st q fullID checkID] assms s
    by (simp add: sf_more_eqs sf_searchOk_def spfresh.goodResults_def sf_found_def sf_select_def)
  have "length sel \<le> en_replicaCount en" using rngSelect_bound [of "[]"] sd by (metis bot_nat_0.extremum list.size(3) snd_conv)
  moreover have "egTonode x = fullID \<and> egNode x \<noteq> checkID \<and> BasicResult (egNode x) (egDistance x) \<in> set (candidates (sf_found en st q))"
    if "x \<in> set sel" for x using rngSelect_from [of x _ _ _ fullID checkID _ "[]"] sd that by (metis empty_iff empty_set snd_conv)
  moreover have "rngPairwise (sf_headDist en st) (en_rngScale en) sel"
    using rngSelect_pairwise [of "sf_headDist en st" "en_rngScale en" "[]"] sd by (metis length_0_conv less_nat_zero_code rngPairwise_def snd_conv)
  moreover have "Edge (VID r) fullID (Dist r) \<in> set sel \<or> \<not> rngFar (sf_headDist en st) (en_rngScale en) r sel"
    if "ok" "length sel < en_replicaCount en" "r \<in> set (candidates (sf_found en st q))" for r
    using rngSelect_maximal [OF that(3), of "sf_headDist en st" "en_rngScale en" "en_replicaCount en" fullID checkID "[]"] sd that by simp
  ultimately show ?thesis using r
    by (intro exI [of _ ok] exI [of _ sel]) (auto simp: rngPairwise_def rngFar_def not_less)
qed

lemma sfTwo_search:
  "sf_found (sfEnvSample limit km) sfTwo [x] = [BasicResult 0 \<bar>uint x - 255\<bar>, BasicResult 1 \<bar>uint x - 12\<bar>]"
  "sf_searchOk (sfEnvSample limit km) sfTwo [x]"
proof -
  have u: "[0 .. (1 :: int)] = [0, 1]" by (simp add: upto_rec1)
  show f: "sf_found (sfEnvSample limit km) sfTwo [x] = [BasicResult 0 \<bar>uint x - 255\<bar>, BasicResult 1 \<bar>uint x - 12\<bar>]"
    by (simp add: sf_found_def sfEnvSample_def sfTwo(4) bhTwo u)
  show "sf_searchOk (sfEnvSample limit km) sfTwo [x]"
    unfolding sf_searchOk_def f by (simp add: candidates_def sf_isHead_def sfTwo(14))
qed

theorem RNGSelection_rule_witness:
  "\<exists>ok sel. dy_RNGSelection (spdkEnv 1 1 (\<lambda>h n. bh_graph h) (sfEnvSample 4 noKm)) (dy_index sfTwo) [13] 7 (- 1) = Ret (ok, sel)
    \<and> length sel \<le> 2"
proof -
  have "en_replicaCount (sfEnvSample 4 noKm) = 2" by (simp add: sfEnvSample_def)
  then show ?thesis
    using RNGSelection_rule [OF sfTwo(1) sfTwo_search(2) [of 4 noKm 13], of "\<lambda>h n. bh_graph h" 7 "- 1"] by auto
qed

section \<open>Append, AddIndex and Reassign\<close>

text \<open>
  \<open>Append\<close> to a head that is gone stores nothing: it answers \<open>Undefined\<close>, and exactly the entries that still
  carry their vector's current version are queued for reassignment, in order, with the missing head as the
  previous one.
\<close>

theorem Append_missing_head:
  assumes "sf_ok dim e deg st" "5 \<le> en_vectorInfoSize en" "headID \<notin> sf_heads st"
    and "length q = n * en_vectorInfoSize en" "sf_known en st q"
  shows "\<exists>stat. dy_Append (spdkEnv dim deg refine en) headID n q th st = Ret (Undefined, st\<lparr>dy_jobs := dy_jobs st
      @ map (\<lambda>x. ReassignAsyncJob x headID)
          (filter (\<lambda>x. versions (dy_versionMap st) ! nat (entryVID x) = entryVersion x) (entriesOf (en_vectorInfoSize en) q)),
      dy_stat := stat\<rparr>)"
proof -
  have "spfresh.currentEntry st = (\<lambda>x. versions (dy_versionMap st) ! nat (entryVID x) = entryVersion x)"
    by (rule ext) (simp add: spfresh.currentEntry_def)
  then show ?thesis
    using spfresh.Append_missing [of dim deg refine en e st headID q n th, unfolded sf_more_eqs spdkEnv_simps] assms
    by (auto simp: spfresh.queuedTo_def)
qed

theorem Append_missing_head_witness:
  "\<exists>stat. dy_Append (spdkEnv 1 1 (\<lambda>h n. bh_graph h) (sfEnvSample 4 noKm)) 5 3 sfPosting 0 sfTwo
     = Ret (Undefined, sfTwo\<lparr>dy_jobs := [ReassignAsyncJob [0, 0, 0, 0, 255, 10] 5, ReassignAsyncJob [1, 0, 0, 0, 255, 20] 5],
         dy_stat := stat\<rparr>)"
proof -
  have v: "en_vectorInfoSize (sfEnvSample 4 noKm) = 6" by (simp add: sfEnvSample_def)
  have prem: "5 \<le> en_vectorInfoSize (sfEnvSample 4 noKm)" "5 \<notin> sf_heads sfTwo" "length sfPosting = 3 * en_vectorInfoSize (sfEnvSample 4 noKm)"
    using v sfTwo(2) by (simp_all add: sfPosting_def)
  have f: "filter (\<lambda>x. versions (dy_versionMap sfTwo) ! nat (entryVID x) = entryVersion x) (entriesOf 6 sfPosting)
     = [[0, 0, 0, 0, 255, 10], [1, 0, 0, 0, 255, 20]]"
    unfolding sfSample_entries sfTwo(5) by (simp add: sample_entry vlSample)
  show ?thesis
    using Append_missing_head [OF sfTwo(1) prem(1-3) sfTwo_known(1), of "\<lambda>h n. bh_graph h" 0] unfolding v f sfTwo(10)
    by simp
qed

lemma entry_of_Serialize:
  assumes "int32_ok vid"
  shows "entryVID (enc_int 4 vid @ b # v) = vid" "entryVersion (enc_int 4 vid @ b # v) = b" "entryVector (enc_int 4 vid @ b # v) = v"
  using dec_enc_int32 [OF assms] by (simp_all add: entryVID_def entryVersion_def entryVector_def metaDataSize_def nth_append)

lemma entry_update:
  assumes "4 < length x"
  shows "entryVID (x[4 := b]) = entryVID x" "entryVersion (x[4 := b]) = b" "entryVector (x[4 := b]) = entryVector x"
  using assms by (simp_all add: entryVID_def entryVersion_def entryVector_def metaDataSize_def)

lemma nextVersion_neq: "nextVersion v \<noteq> v"
proof
  assume "nextVersion v = v"
  then have "(unat v + 1) mod 128 = unat v" using nextVersion_mod [of v] by simp
  moreover from this have "unat v < 128" by (metis mod_less_divisor zero_less_numeral)
  then have "unat v + 1 < 128 \<or> unat v = 127" by linarith
  ultimately show False by auto
qed

text \<open>
  C7 \<open>AddIndex\<close> of one vector appends its entry, with its current version, to the posting of every head that
  \<open>RNGSelection\<close> selects and to no other, and counts it in their sizes; the head index and the versions do not
  change. Unless the vector is marked deleted the entry is live.
\<close>

theorem AddIndex_spreads:
  assumes "sf_ok dim e deg st" "sf_searchOk en st v" "vl_has (dy_versionMap st) vid" "int32_ok vid"
    and "length v = en_vectorInfoSize en - 5"
    and "hs = map egNode (snd (sf_select en st v vid (- 1)))" "set hs \<subseteq> sf_heads st" "distinct hs"
    and "q = enc_int 4 vid @ versions (dy_versionMap st) ! nat vid # v"
    and "sf_canAppend q hs st" "\<forall>h \<in> set hs. int32_ok (sf_sizes st ! nat h + 1)"
  shows "\<exists>st'. dy_AddIndex (spdkEnv dim deg refine en) [v] vid st = Ret (Success, st') \<and> sf_ok dim e deg st'
    \<and> (\<forall>k. sf_postings st' k = (if k \<in> set hs then map_option (\<lambda>p. p @ q) (sf_postings st k) else sf_postings st k))
    \<and> (\<forall>k \<in> sf_heads st. sf_sizes st' ! nat k = (if k \<in> set hs then sf_sizes st ! nat k + 1 else sf_sizes st ! nat k))
    \<and> dy_index st' = dy_index st \<and> dy_versionMap st' = dy_versionMap st
    \<and> (versions (dy_versionMap st) ! nat vid \<noteq> 0xfe \<longrightarrow> liveEntry (dy_versionMap st') q)"
proof -
  obtain st' where st': "dy_addVector (spdkEnv dim deg refine en) vid v st = Ret st'"
    "dyn_searcher.spread (spdkEnv dim deg refine en) sp_inv sp_view (bh_inv dim e deg) bh_gone st st' (set hs) q"
    using spfresh.addVector_ok [of dim deg refine en e st v vid hs q, unfolded sf_more_eqs spdkEnv_simps]
      assms by (auto simp: sf_canAppend_def)
  note d = st'(2) [unfolded spfresh.spread_def sf_more_eqs]
  have "versions (dy_versionMap st) ! nat vid \<noteq> 0xfe \<longrightarrow> liveEntry (dy_versionMap st) q"
    unfolding assms(9) liveEntry_def using entry_of_Serialize [OF assms(4)] by simp
  moreover have "dy_AddIndex (spdkEnv dim deg refine en) [v] vid st = Ret (Success, st')"
    using st'(1) by (simp add: dy_AddIndex_def)
  ultimately show ?thesis using d by (intro exI [of _ st']) simp
qed

text \<open>Two merges of one entry into the sample store.\<close>

lemma sfTwo_canAppend: "length q = 6 \<Longrightarrow> sf_canAppend q [0, 1] sfTwo"
proof -
  assume q: "length q = 6"
  have l: "length sfPosting = 18" "length sfPosting1 = 6" by (simp_all add: sfPosting_def sfPosting1_def)
  have pg: "pagesOf (18 + 6) = 1" "pagesOf (6 + 6) = 1" "pagesOf 18 = 1" using pagesOf_1 by simp_all
  obtain db where db: "sp_Merge spTwo 0 q = Ret (Success, db)" "sp_inv db"
    "sp_view db = [0 \<mapsto> sfPosting @ q, 1 \<mapsto> sfPosting1]" "sp_freePages db = 8" "sp_blockLimit db = 4"
    using Merge_view [OF spTwo(1), of 0 sfPosting q] spTwo l pg q by (auto simp: fun_upd_twist)
  have "sp_canMerge spTwo 0 q" by (rule spTwo_room(1) [of 0 sfPosting]) (use spTwo(2) l q in simp_all)
  moreover have "sp_canMerge db 1 q" using db l pg q by (simp add: sp_canMerge_def)
  ultimately show ?thesis using db spTwo(2) by (simp add: sf_canAppend_def sfTwo(7) split: outcome.split)
qed

lemma sfTwo_select:
  "sf_select (sfEnvSample limit km) sfTwo [13] 2 (- 1) = (True, [Edge 0 2 242, Edge 1 2 1])"
  "sf_select (sfEnvSample limit km) sfTwo [10] 0 5 = (True, [Edge 0 0 245, Edge 1 0 2])"
proof -
  have "en_replicaCount (sfEnvSample limit km) = 2" "en_rngScale (sfEnvSample limit km) = id"
    "en_Distance (sfEnvSample limit km) [12] [255] = 243" by (simp_all add: sfEnvSample_def)
  then show "sf_select (sfEnvSample limit km) sfTwo [13] 2 (- 1) = (True, [Edge 0 2 242, Edge 1 2 1])"
    "sf_select (sfEnvSample limit km) sfTwo [10] 0 5 = (True, [Edge 0 0 245, Edge 1 0 2])"
    unfolding sf_select_def sfTwo_search by (simp_all add: rngFar_def sf_headDist_def sfTwo(8,9))
qed

theorem AddIndex_spreads_witness:
  "\<exists>st'. dy_AddIndex (spdkEnv 1 1 (\<lambda>h n. bh_graph h) (sfEnvSample 4 noKm)) [[13]] 2 sfTwo = Ret (Success, st')
    \<and> sf_postings st' 0 = Some (sfPosting @ [2, 0, 0, 0, 255, 13]) \<and> sf_postings st' 1 = Some (sfPosting1 @ [2, 0, 0, 0, 255, 13])
    \<and> sf_sizes st' ! 0 = 4"
proof -
  let ?en = "sfEnvSample 4 noKm" and ?q = "[2, 0, 0, 0, 255, 13] :: bytes"
  have hs: "[0, 1] = map egNode (snd (sf_select ?en sfTwo [13] 2 (- 1)))" unfolding sfTwo_select by simp
  have "enc_int 4 2 = [2, 0, 0, 0 :: byte]" by code_simp
  then have q: "?q = enc_int 4 2 @ versions (dy_versionMap sfTwo) ! nat 2 # [13]" by (simp add: sfTwo(5) vlSample)
  have prem: "vl_has (dy_versionMap sfTwo) 2" "int32_ok 2" "length [13 :: byte] = en_vectorInfoSize ?en - 5"
    "set [0, 1] \<subseteq> sf_heads sfTwo" "distinct [0, 1 :: int]" "\<forall>h \<in> set [0, 1]. int32_ok (sf_sizes sfTwo ! nat h + 1)"
    by (simp_all add: sfTwo vl_has_def vlSample int32_ok_def sfEnvSample_def)
  have c: "sf_canAppend ?q [0, 1] sfTwo" by (rule sfTwo_canAppend) simp
  have "0 \<in> sf_heads sfTwo" using sfTwo(2) by simp
  with AddIndex_spreads [OF sfTwo(1) sfTwo_search(2) prem(1-3) hs prem(4,5) q c prem(6), of "\<lambda>h n. bh_graph h"]
  show ?thesis using sfTwo(3,6) by auto
qed

text \<open>
  C8 \<open>Reassign\<close> of a live entry: when the head it came from is selected again, no posting and no version
  changes; otherwise the vector's version is bumped, so that the old copies of the entry are stale wherever
  they are stored, and a copy under the new version is appended to the posting of every selected head and to
  no other.
\<close>

theorem Reassign_moves:
  assumes "sf_ok dim e deg st" "5 \<le> en_vectorInfoSize en" "length info = en_vectorInfoSize en"
    and "vl_has (dy_versionMap st) (entryVID info)" "liveEntry (dy_versionMap st) info"
    and "sf_searchOk en st (entryVector info)"
    and "sf_select en st (entryVector info) (entryVID info) headPrev = (need, sel)"
    and "set (map egNode sel) \<subseteq> sf_heads st" "distinct (map egNode sel)"
    and "q = info[4 := nextVersion (entryVersion info)]" "sf_canAppend q (map egNode sel) st"
    and "\<forall>h \<in> set (map egNode sel). int32_ok (sf_sizes st ! nat h + 1) \<and> sf_sizes st ! nat h + 1 \<le> en_postingSizeLimit en + 3"
  shows "\<exists>st'. dy_Reassign (spdkEnv dim deg refine en) info headPrev st = Ret st' \<and> dy_jobs st' = dy_jobs st
    \<and> (if need
       then sf_ok dim e deg st'
         \<and> versions (dy_versionMap st') = (versions (dy_versionMap st))[nat (entryVID info) := nextVersion (entryVersion info)]
         \<and> (\<forall>k. sf_postings st' k = (if k \<in> egNode ` set sel then map_option (\<lambda>p. p @ q) (sf_postings st k) else sf_postings st k))
         \<and> \<not> liveEntry (dy_versionMap st') info \<and> liveEntry (dy_versionMap st') q
         \<and> entryVector q = entryVector info
       else sf_postings st' = sf_postings st \<and> dy_versionMap st' = dy_versionMap st)"
proof -
  obtain st' where st': "dy_Reassign (spdkEnv dim deg refine en) info headPrev st = Ret st'" "dy_jobs st' = dy_jobs st"
    "if need
     then \<exists>vl. versions vl = (versions (dy_versionMap st))[nat (entryVID info) := nextVersion (entryVersion info)]
       \<and> dyn_searcher.spread (spdkEnv dim deg refine en) sp_inv sp_view (bh_inv dim e deg) bh_gone
           (st\<lparr>dy_versionMap := vl\<rparr>) st' (egNode ` set sel) q
     else \<exists>n. st' = st\<lparr>dy_stat := n\<rparr>"
    using spfresh.Reassign_live [of dim deg refine en e st info headPrev need sel q, unfolded sf_more_eqs spdkEnv_simps] assms
    by (auto simp: sf_canAppend_def)
  have x: "4 < length info" using assms(2,3) by simp
  have len: "nat (entryVID info) < length (versions (dy_versionMap st))"
    using assms(4) by (simp add: vl_has_def versions_def vl_GetVectorNum_def nat_less_iff)
  have "if need
    then sf_ok dim e deg st'
      \<and> versions (dy_versionMap st') = (versions (dy_versionMap st))[nat (entryVID info) := nextVersion (entryVersion info)]
      \<and> (\<forall>k. sf_postings st' k = (if k \<in> egNode ` set sel then map_option (\<lambda>p. p @ q) (sf_postings st k) else sf_postings st k))
    else sf_postings st' = sf_postings st \<and> dy_versionMap st' = dy_versionMap st"
    using st'(3) by (auto simp: spfresh.spread_def sf_more_eqs sf_postings_def)
  then show ?thesis using st'(1,2) entry_update [OF x] len nextVersion_neq [of "entryVersion info"] nextVersion_not_deleted
    by (intro exI [of _ st']) (auto simp: liveEntry_def assms(10))
qed

theorem Reassign_moves_witness:
  "\<exists>st'. dy_Reassign (spdkEnv 1 1 (\<lambda>h n. bh_graph h) (sfEnvSample 4 noKm)) [0, 0, 0, 0, 255, 10] 5 sfTwo = Ret st'
    \<and> sf_postings st' 0 = Some (sfPosting @ [0, 0, 0, 0, 0, 10]) \<and> sf_postings st' 1 = Some (sfPosting1 @ [0, 0, 0, 0, 0, 10])
    \<and> \<not> liveEntry (dy_versionMap st') [0, 0, 0, 0, 255, 10]"
proof -
  let ?en = "sfEnvSample 4 noKm" and ?i = "[0, 0, 0, 0, 255, 10] :: bytes" and ?q = "[0, 0, 0, 0, 0, 10] :: bytes"
  have n: "nextVersion 255 = 0" by code_simp
  have v: "en_vectorInfoSize ?en = 6" "en_postingSizeLimit ?en = 4" by (simp_all add: sfEnvSample_def)
  have prem: "5 \<le> en_vectorInfoSize ?en" "length ?i = en_vectorInfoSize ?en" "vl_has (dy_versionMap sfTwo) (entryVID ?i)"
    "liveEntry (dy_versionMap sfTwo) ?i" "sf_searchOk ?en sfTwo (entryVector ?i)"
    "sf_select ?en sfTwo (entryVector ?i) (entryVID ?i) 5 = (True, [Edge 0 0 245, Edge 1 0 2])"
    "set (map egNode [Edge 0 0 (245 :: int), Edge 1 0 2]) \<subseteq> sf_heads sfTwo" "distinct (map egNode [Edge 0 0 (245 :: int), Edge 1 0 2])"
    "?q = ?i[4 := nextVersion (entryVersion ?i)]"
    "\<forall>h \<in> set (map egNode [Edge 0 0 (245 :: int), Edge 1 0 2]).
       int32_ok (sf_sizes sfTwo ! nat h + 1) \<and> sf_sizes sfTwo ! nat h + 1 \<le> en_postingSizeLimit ?en + 3"
    using sfTwo sfTwo_entries sfTwo_search sfTwo_select n v
    by (simp_all add: vl_has_def vlSample int32_ok_def sample_entry)
  have c: "sf_canAppend ?q (map egNode [Edge 0 0 (245 :: int), Edge 1 0 2]) sfTwo" using sfTwo_canAppend [of ?q] by simp
  from Reassign_moves [OF sfTwo(1) prem(1-9) c prem(10), of "\<lambda>h n. bh_graph h"]
  show ?thesis using sfTwo(3) by auto
qed

end
