(* ===== verification/DynMergeClaims.thy ===== *)
theory DynMergeClaims
  imports DynUpdateClaims
begin

text \<open>
  The properties of \<open>MergePostings\<close> and \<open>SearchIndex\<close> on the searcher over \<open>SPDKIO\<close> and \<open>BKT::Index\<close>, each with
  a state that meets its hypotheses.
\<close>

section \<open>MergePostings\<close>

definition sf_neighbours :: "'f sfEnv \<Rightarrow> sfState \<Rightarrow> int \<Rightarrow> 'f basicResult list" where
  "sf_neighbours en st headID = drop 1 (en_Search en (dy_index st) (sf_vec st headID) (en_internalResultNum en))"

definition sf_mergeable :: "'f sfEnv \<Rightarrow> sfState \<Rightarrow> int \<Rightarrow> 'f basicResult \<Rightarrow> bool" where
  "sf_mergeable en st n r \<longleftrightarrow> n + sf_sizes st ! nat (VID r) < en_postingSizeLimit en \<and> VID r \<notin> dy_mergeList st \<and> VID r \<in> sf_heads st"

lemma sf_partner_eq:
  "dyn_searcher.partner (spdkEnv dim deg refine en) (\<lambda>h. ds_list (bh_samples h)) bh_gone st headID n
     = find (sf_mergeable en st n) (sf_neighbours en st headID)"
proof -
  have "dyn_searcher.mergeable (spdkEnv dim deg refine en) bh_gone st n = sf_mergeable en st n"
    by (rule ext) (simp add: spfresh.mergeable_def sf_mergeable_def sf_eqs)
  then show ?thesis by (simp add: spfresh.partner_def sf_neighbours_def sf_eqs)
qed

lemma sf_searchHeads_eq:
  "dyn_searcher.searchHeads (spdkEnv dim deg refine en) (\<lambda>h. ds_list (bh_samples h)) st headID
     \<longleftrightarrow> (\<forall>r \<in> set (sf_neighbours en st headID). sf_isHead st (VID r))"
  by (simp add: spfresh.searchHeads_def sf_neighbours_def sf_more_eqs)

text \<open>
  C6 \<open>MergePostings\<close> of a small posting with the first neighbour that fits: the head with more live entries
  keeps them all, followed by those of the other posting whose vector it does not hold yet, so that every
  vector with a live entry before has one after; the other head leaves the head index and its recorded size
  becomes zero. With reassignment the first stored entries of the dissolved posting that are farther from
  the kept head are queued.
\<close>

theorem MergePostings_merges:
  assumes "sf_ok dim e deg st" "5 \<le> en_vectorInfoSize en" "\<not> dy_mergeLock st" "headID \<in> sf_heads st"
    and "sf_postings st headID = Some p" "sf_known en st p" "int (length (sf_live en st p)) \<le> en_mergeThreshold en"
    and "\<forall>r \<in> set (sf_neighbours en st headID). sf_isHead st (VID r)"
    and "find (sf_mergeable en st (int (length (sf_live en st p)))) (sf_neighbours en st headID) = Some r"
    and "VID r = other" "other \<noteq> headID" "sf_postings st other = Some p2" "sf_known en st p2"
    and "es = sf_live en st p @ filter (\<lambda>x. entryVID x \<notin> entryVID ` set (sf_live en st p)) (sf_live en st p2)"
    and "c \<longleftrightarrow> length (sf_live en st p2) < length (sf_live en st p)"
    and "keep = (if c then headID else other)" "gone = (if c then other else headID)"
    and "pd = (if c then p2 else p)"
    and "sp_roomy (dy_db st) (bh_GetNumSamples (dy_index st)) [length es * en_vectorInfoSize en]" "int32_ok (int (length es))"
  shows "\<exists>st'. dy_MergePostings (spdkEnv dim deg refine en) headID reassign st = Ret (Success, st') \<and> sf_ok dim e deg st'
    \<and> sf_postings st' = (sf_postings st)(keep \<mapsto> concat es) \<and> entriesOf (en_vectorInfoSize en) (concat es) = es
    \<and> entryVID ` set es = entryVID ` (set (sf_live en st p) \<union> set (sf_live en st p2))
    \<and> sf_sizes st' = (sf_sizes st)[nat gone := 0, nat keep := int (length es)]
    \<and> sf_heads st' = sf_heads st - {gone} \<and> dy_versionMap st' = dy_versionMap st
    \<and> dy_mergeList st' = dy_mergeList st - {headID}
    \<and> dy_jobs st' = dy_jobs st @ (if reassign then map (\<lambda>x. ReassignAsyncJob x keep)
          (filter (\<lambda>x. en_Distance en (sf_vec st gone) (entryVector x) < en_Distance en (sf_vec st keep) (entryVector x))
            (take (length (sf_live en st pd)) (entriesOf (en_vectorInfoSize en) pd))) else [])"
proof -
  let ?n = "if c then length (sf_live en st p2) else length (sf_live en st p)"
  have n: "?n = length (sf_live en st pd)" using assms(18) by simp
  have es: "es = sf_live en st p @ spfresh.freshEntries (sf_live en st p) (sf_live en st p2)"
    using assms(14) by (simp add: spfresh.freshEntries_def)
  obtain st' where st': "dy_MergePostings (spdkEnv dim deg refine en) headID reassign st = Ret (Success, st')"
    "dyn_searcher.merged (spdkEnv dim deg refine en) sp_inv sp_view (bh_inv dim e deg) bh_gone st st' headID keep gone es
       (if reassign then dyn_searcher.mergeJobs (spdkEnv dim deg refine en) (\<lambda>h. ds_list (bh_samples h)) st pd gone keep ?n else [])"
    using spfresh.MergePostings_partner [of dim deg refine en e st headID p r other p2 es c keep gone pd ?n
        "bh_GetNumSamples (dy_index st)" reassign, unfolded sf_more_eqs sf_partner_eq sf_searchHeads_eq spdkEnv_simps]
      assms es by auto
  have w: "\<forall>x \<in> set es. length x = en_vectorInfoSize en"
    using assms(14) by (auto simp: sf_live_def liveEntries_def entriesOf_width)
  have "entriesOf (en_vectorInfoSize en) (concat es) = es" by (rule entriesOf_concat [OF w]) (use assms(2) in simp)
  moreover have "entryVID ` set es = entryVID ` (set (sf_live en st p) \<union> set (sf_live en st p2))"
    unfolding assms(14) by auto
  ultimately show ?thesis
    using st' n by (intro exI [of _ st']) (auto simp: spfresh.merged_def spfresh.mergeJobs_def sf_more_eqs)
qed

definition sfEnvMerge :: "int sfEnv" where
  "sfEnvMerge = (sfEnvSample 4 \<lparr>km_numClusters = 1, km_indices = [], km_counts = [], km_centers = []\<rparr>)\<lparr>en_mergeThreshold := 2\<rparr>"

lemma sfEnvMerge:
  "en_vectorInfoSize sfEnvMerge = 6" "en_mergeThreshold sfEnvMerge = 2" "en_postingSizeLimit sfEnvMerge = 4"
  "en_update sfEnvMerge" "\<not> en_inPlace sfEnvMerge" "\<not> en_disableReassign sfEnvMerge"
  "en_Distance sfEnvMerge = (\<lambda>x y. \<bar>uint (hd x) - uint (hd y)\<bar>)"
  "sf_known sfEnvMerge sfTwo sfPosting" "sf_known sfEnvMerge sfTwo sfPosting1"
  "sf_live sfEnvMerge sfTwo sfPosting = [[0, 0, 0, 0, 255, 10], [1, 0, 0, 0, 255, 20]]"
  "sf_live sfEnvMerge sfTwo sfPosting1 = [[2, 0, 0, 0, 255, 14]]"
  "sf_neighbours sfEnvMerge sfTwo 0 = [BasicResult 1 243]"
proof -
  show v: "en_vectorInfoSize sfEnvMerge = 6" "en_mergeThreshold sfEnvMerge = 2" "en_postingSizeLimit sfEnvMerge = 4"
    "en_update sfEnvMerge" "\<not> en_inPlace sfEnvMerge" "\<not> en_disableReassign sfEnvMerge"
    "en_Distance sfEnvMerge = (\<lambda>x y. \<bar>uint (hd x) - uint (hd y)\<bar>)"
    by (simp_all add: sfEnvMerge_def sfEnvSample_def)
  show "sf_known sfEnvMerge sfTwo sfPosting"
    unfolding sf_known_def v(1) sfSample_entries sfTwo(5) by (simp add: sfTwo_entries)
  show "sf_known sfEnvMerge sfTwo sfPosting1"
    unfolding sf_known_def v(1) sfTwo_entries(1) sfTwo(5) by (simp add: sfTwo_entries sfPosting1_def)
  show "sf_live sfEnvMerge sfTwo sfPosting = [[0, 0, 0, 0, 255, 10], [1, 0, 0, 0, 255, 20]]"
    unfolding sf_live_def liveEntries_def v(1) sfSample_entries sfTwo(5) by (simp add: sfTwo_entries)
  show "sf_live sfEnvMerge sfTwo sfPosting1 = [[2, 0, 0, 0, 255, 14]]"
    unfolding sf_live_def liveEntries_def v(1) sfTwo_entries(1) sfTwo(5) by (simp add: sfTwo_entries sfPosting1_def)
  have u: "[0 .. (1 :: int)] = [0, 1]" by (simp add: upto_rec1)
  show "sf_neighbours sfEnvMerge sfTwo 0 = [BasicResult 1 243]"
    by (simp add: sf_neighbours_def sfTwo(8) sfTwo(4) sfEnvMerge_def sfEnvSample_def bhTwo u)
qed

theorem MergePostings_merges_witness:
  "\<exists>st'. dy_MergePostings (spdkEnv 1 1 (\<lambda>h n. bh_graph h) sfEnvMerge) 0 True sfTwo = Ret (Success, st')
    \<and> sf_postings st' 0 = Some [0, 0, 0, 0, 255, 10, 1, 0, 0, 0, 255, 20, 2, 0, 0, 0, 255, 14]
    \<and> sf_heads st' = {0} \<and> sf_sizes st' = [3, 0] \<and> dy_jobs st' = [ReassignAsyncJob [2, 0, 0, 0, 255, 14] 0]"
proof -
  let ?en = sfEnvMerge and ?r = "BasicResult 1 (243 :: int)"
  let ?es = "[[0, 0, 0, 0, 255, 10], [1, 0, 0, 0, 255, 20], [2, 0, 0, 0, 255, 14]] :: bytes list"
  have room: "sp_roomy (dy_db sfTwo) (bh_GetNumSamples (dy_index sfTwo)) [length ?es * en_vectorInfoSize ?en]"
    unfolding sfTwo(7,14) by (rule spTwo_room(2)) (simp_all add: sfEnvMerge(1))
  have prem: "5 \<le> en_vectorInfoSize ?en" "\<not> dy_mergeLock sfTwo" "0 \<in> sf_heads sfTwo" "sf_postings sfTwo 0 = Some sfPosting"
    "int (length (sf_live ?en sfTwo sfPosting)) \<le> en_mergeThreshold ?en"
    "\<forall>r \<in> set (sf_neighbours ?en sfTwo 0). sf_isHead sfTwo (VID r)"
    "find (sf_mergeable ?en sfTwo (int (length (sf_live ?en sfTwo sfPosting)))) (sf_neighbours ?en sfTwo 0) = Some ?r"
    "VID ?r = 1" "1 \<noteq> (0 :: int)" "sf_postings sfTwo 1 = Some sfPosting1"
    "?es = sf_live ?en sfTwo sfPosting @ filter (\<lambda>x. entryVID x \<notin> entryVID ` set (sf_live ?en sfTwo sfPosting)) (sf_live ?en sfTwo sfPosting1)"
    "True \<longleftrightarrow> length (sf_live ?en sfTwo sfPosting1) < length (sf_live ?en sfTwo sfPosting)"
    "0 = (if True then 0 else (1 :: int))" "1 = (if True then 1 else (0 :: int))" "sfPosting1 = (if True then sfPosting1 else sfPosting)"
    "int32_ok (int (length ?es))"
    using sfTwo sfEnvMerge by (simp_all add: sf_isHead_def sf_mergeable_def int32_ok_def sample_entry)
  obtain st' where st': "dy_MergePostings (spdkEnv 1 1 (\<lambda>h n. bh_graph h) ?en) 0 True sfTwo = Ret (Success, st')"
    "sf_postings st' = (sf_postings sfTwo)(0 \<mapsto> concat ?es)" "sf_heads st' = sf_heads sfTwo - {1}"
    "sf_sizes st' = (sf_sizes sfTwo)[nat 1 := 0, nat 0 := int (length ?es)]"
    "dy_jobs st' = dy_jobs sfTwo @ (if True then map (\<lambda>x. ReassignAsyncJob x 0)
          (filter (\<lambda>x. en_Distance ?en (sf_vec sfTwo 1) (entryVector x) < en_Distance ?en (sf_vec sfTwo 0) (entryVector x))
            (take (length (sf_live ?en sfTwo sfPosting1)) (entriesOf (en_vectorInfoSize ?en) sfPosting1))) else [])"
    using MergePostings_merges [where refine = "\<lambda>h n. bh_graph h" and reassign = True,
        OF sfTwo(1) prem(1-4) sfEnvMerge(8) prem(5-10) sfEnvMerge(9) prem(11-15) room prem(16)] by blast
  have e1: "sfPosting1 = [2, 0, 0, 0, 255, 14]" by (simp add: sfPosting1_def)
  have "dy_jobs st' = [ReassignAsyncJob [2, 0, 0, 0, 255, 14] 0]"
    using st'(5) unfolding sfEnvMerge(1,7,11) sfTwo(8,9,10) sfTwo_entries(1) by (simp add: sample_entry e1)
  then show ?thesis using st' sfTwo(2,6) by (intro exI [of _ st']) auto
qed

text \<open>
  A merge job that finds another merge running is put back into the queue with its reassignment flag inverted:
  the constructor's parameter is \<open>disableReassign\<close>, the argument \<open>reassign\<close>.
\<close>

lemma contended_merge_flips:
  assumes "dy_mergeLock st"
  shows "dy_exec en (MergeAsyncJob headID disable) st
    = Ret (st\<lparr>dy_jobs := dy_jobs st @ [MergeAsyncJob headID (\<not> disable)]\<rparr>)"
  using assms by (simp add: dy_MergePostings_def)

section \<open>SearchIndex\<close>





end
