(* ===== verification/SocketFormats.thy ===== *)
theory SocketFormats
  imports Prelude
begin

text \<open>
  The wire formats of the search service: AnnService/inc/Socket/SimpleSerialization.h, the packets of Packet.h and
  Packet.cpp, and the query and result messages of RemoteSearchQuery.h and RemoteSearchQuery.cpp. A write pointer is
  what has been written and the number of bytes left in the buffer behind it, a read pointer the bytes from it on; both
  fault beyond the buffer. Enumerations with a fixed underlying type hold any byte; a float is its bit pattern.
\<close>

section \<open>SimpleSerialization\<close>

type_synonym writePtr = "bytes \<times> nat"

text \<open>Of a fundamental value with the given bytes; reads answer the bytes and the pointer behind them.\<close>

definition SimpleWriteBuffer :: "bytes \<Rightarrow> writePtr \<Rightarrow> writePtr outcome" where
  "SimpleWriteBuffer val p = (if length val \<le> snd p then Ret (fst p @ val, snd p - length val) else Fault)"

definition SimpleReadBuffer :: "nat \<Rightarrow> bytes \<Rightarrow> (bytes \<times> bytes) outcome" where
  "SimpleReadBuffer n p = (if n \<le> length p then Ret (take n p, drop n p) else Fault)"

text \<open>\<open>std::string\<close> and \<open>ByteArray\<close>: the length cast to 32 bits, then all the bytes.\<close>

definition writeBytes :: "bytes \<Rightarrow> writePtr \<Rightarrow> writePtr outcome" where
  "writeBytes val p = andThen (SimpleWriteBuffer (enc_int 4 (int (length val))) p) (SimpleWriteBuffer val)"

definition readBytes :: "bytes \<Rightarrow> (bytes \<times> bytes) outcome" where
  "readBytes p =
     andThen (SimpleReadBuffer 4 p) (\<lambda>(len, p1).
       if dec_uint len > 0 then SimpleReadBuffer (nat (dec_uint len)) p1 else Ret ([], p1))"

definition estimateBytes :: "bytes \<Rightarrow> nat" where
  "estimateBytes val = 4 + length val"

text \<open>\<open>bool\<close> takes one byte.\<close>

definition writeBool :: "bool \<Rightarrow> writePtr \<Rightarrow> writePtr outcome" where
  "writeBool b = SimpleWriteBuffer [if b then 1 else 0]"

definition readBool :: "bytes \<Rightarrow> (bool \<times> bytes) outcome" where
  "readBool p = andThen (SimpleReadBuffer 1 p) (\<lambda>(b, p1). Ret (hd b \<noteq> 0, p1))"

definition SimpleWriteSharedPtrBuffer :: "('a \<Rightarrow> writePtr \<Rightarrow> writePtr outcome) \<Rightarrow> 'a option \<Rightarrow> writePtr \<Rightarrow> writePtr outcome" where
  "SimpleWriteSharedPtrBuffer write val p =
     (case val of None \<Rightarrow> writeBool False p | Some x \<Rightarrow> andThen (writeBool True p) (write x))"

definition SimpleReadSharedPtrBuffer :: "(bytes \<Rightarrow> ('a \<times> bytes) outcome) \<Rightarrow> bytes \<Rightarrow> ('a option \<times> bytes) outcome" where
  "SimpleReadSharedPtrBuffer read p =
     andThen (readBool p) (\<lambda>(isNotNull, p1).
       if isNotNull then andThen (read p1) (\<lambda>(x, p2). Ret (Some x, p2)) else Ret (None, p1))"

definition EstimateSharedPtrBufferSize :: "('a \<Rightarrow> nat) \<Rightarrow> 'a option \<Rightarrow> nat" where
  "EstimateSharedPtrBufferSize estimate val = 1 + (case val of None \<Rightarrow> 0 | Some x \<Rightarrow> estimate x)"

section \<open>Packets\<close>

type_synonym packetType = byte

abbreviation ResponseMask :: packetType where
  "ResponseMask \<equiv> 0x80"

record packetHeader =
  m_packetType :: packetType
  m_processStatus :: byte
  m_bodyLength :: "32 word"
  m_connectionID :: "32 word"
  m_resourceID :: "32 word"

definition ph_new :: packetHeader where
  "ph_new = \<lparr>m_packetType = 0, m_processStatus = 0, m_bodyLength = 0, m_connectionID = 0, m_resourceID = 0\<rparr>"

definition c_bufferSize :: nat where
  "c_bufferSize = 16"

definition writeUint32 :: "32 word \<Rightarrow> writePtr \<Rightarrow> writePtr outcome" where
  "writeUint32 w = SimpleWriteBuffer (enc_int 4 (uint w))"

definition readUint32 :: "bytes \<Rightarrow> (32 word \<times> bytes) outcome" where
  "readUint32 p = andThen (SimpleReadBuffer 4 p) (\<lambda>(b, p1). Ret (word_of_int (dec_uint b), p1))"

definition readByte :: "bytes \<Rightarrow> (byte \<times> bytes) outcome" where
  "readByte p = andThen (SimpleReadBuffer 1 p) (\<lambda>(b, p1). Ret (hd b, p1))"

text \<open>\<open>WriteBuffer\<close> answers \<open>p_buffer - buff\<close>, minus the number of bytes it wrote, as a \<open>size_t\<close>.\<close>

definition ph_WriteBuffer :: "packetHeader \<Rightarrow> writePtr \<Rightarrow> (64 word \<times> writePtr) outcome" where
  "ph_WriteBuffer h p =
     andThen (SimpleWriteBuffer [m_packetType h] p) (\<lambda>p1.
     andThen (SimpleWriteBuffer [m_processStatus h] p1) (\<lambda>p2.
     andThen (writeUint32 (m_bodyLength h) p2) (\<lambda>p3.
     andThen (writeUint32 (m_connectionID h) p3) (\<lambda>p4.
     andThen (writeUint32 (m_resourceID h) p4) (\<lambda>p5.
       Ret (of_nat (length (fst p)) - of_nat (length (fst p5)), p5))))))"

definition ph_ReadBuffer :: "bytes \<Rightarrow> packetHeader outcome" where
  "ph_ReadBuffer p =
     andThen (readByte p) (\<lambda>(t, p1).
     andThen (readByte p1) (\<lambda>(s, p2).
     andThen (readUint32 p2) (\<lambda>(l, p3).
     andThen (readUint32 p3) (\<lambda>(c, p4).
     andThen (readUint32 p4) (\<lambda>(r, p5).
       Ret \<lparr>m_packetType = t, m_processStatus = s, m_bodyLength = l, m_connectionID = c, m_resourceID = r\<rparr>)))))"

text \<open>The capacity is not initialised by the constructor.\<close>

record packet =
  m_header :: packetHeader
  m_buffer :: "bytes option"
  m_bufferCapacity :: "32 word"

definition pk_Body :: "packet \<Rightarrow> nat option" where
  "pk_Body pk = (if m_buffer pk \<noteq> None \<and> c_bufferSize < unat (m_bufferCapacity pk) then Some c_bufferSize else None)"

definition pk_BufferLength :: "packet \<Rightarrow> 32 word" where
  "pk_BufferLength pk = of_nat c_bufferSize + m_bodyLength (m_header pk)"

definition pk_AllocateBuffer :: "(nat \<Rightarrow> bytes) \<Rightarrow> 32 word \<Rightarrow> packet \<Rightarrow> packet" where
  "pk_AllocateBuffer fresh bodyCapacity pk =
     (let cap = of_nat c_bufferSize + bodyCapacity
      in pk\<lparr>m_bufferCapacity := cap, m_buffer := Some (fresh (unat cap))\<rparr>)"

unbundle bit_operations_syntax

definition IsRequestPacket :: "packetType \<Rightarrow> bool" where
  "IsRequestPacket t = (if t = 0 \<or> t = ResponseMask then False else t AND ResponseMask = 0)"

definition IsResponsePacket :: "packetType \<Rightarrow> bool" where
  "IsResponsePacket t = (if t = 0 \<or> t = ResponseMask then False else t AND ResponseMask \<noteq> 0)"

definition GetCrosspondingResponseType :: "packetType \<Rightarrow> packetType" where
  "GetCrosspondingResponseType t = (if t = 0 \<or> t = ResponseMask then 0 else t OR ResponseMask)"

section \<open>Messages\<close>

text \<open>Both start with the versions 1 and 0, of 16 bits each; only the major one is checked. \<open>Read\<close> answers a null pointer (\<open>None\<close>) then.\<close>

definition writeVersions :: "writePtr \<Rightarrow> writePtr outcome" where
  "writeVersions p = andThen (SimpleWriteBuffer (enc_int 2 1) p) (SimpleWriteBuffer (enc_int 2 0))"

definition readVersions :: "bytes \<Rightarrow> (int \<times> bytes) outcome" where
  "readVersions p = andThen (SimpleReadBuffer 2 p) (\<lambda>(major, p1). andThen (SimpleReadBuffer 2 p1) (\<lambda>(mirror, p2). Ret (dec_uint major, p2)))"

record remoteQuery =
  rq_type :: byte
  rq_queryString :: bytes

definition rq_new :: remoteQuery where
  "rq_new = \<lparr>rq_type = 0, rq_queryString = []\<rparr>"

definition rq_EstimateBufferSize :: "remoteQuery \<Rightarrow> nat" where
  "rq_EstimateBufferSize q = 2 + 2 + 1 + estimateBytes (rq_queryString q)"

definition rq_Write :: "remoteQuery \<Rightarrow> writePtr \<Rightarrow> writePtr outcome" where
  "rq_Write q p =
     andThen (writeVersions p) (\<lambda>p1. andThen (SimpleWriteBuffer [rq_type q] p1) (writeBytes (rq_queryString q)))"

definition rq_Read :: "bytes \<Rightarrow> (remoteQuery \<times> bytes) option outcome" where
  "rq_Read p =
     andThen (readVersions p) (\<lambda>(major, p1).
       if major \<noteq> 1 then Ret None
       else andThen (readByte p1) (\<lambda>(t, p2). andThen (readBytes p2) (\<lambda>(s, p3).
              Ret (Some (\<lparr>rq_type = t, rq_queryString = s\<rparr>, p3)))))"

text \<open>A result of an index: its results with their distances, and the meta data of each when there is any.\<close>

record wireResult =
  wr_VID :: int
  wr_Dist :: "32 word"
  wr_Meta :: bytes

record indexSearchResult =
  ir_indexName :: bytes
  ir_withMeta :: bool
  ir_results :: "wireResult list"

record remoteSearchResult =
  rs_status :: byte
  rs_allIndexResults :: "indexSearchResult list"

definition rs_new :: remoteSearchResult where
  "rs_new = \<lparr>rs_status = 1, rs_allIndexResults = []\<rparr>"

definition ir_estimate :: "indexSearchResult \<Rightarrow> nat" where
  "ir_estimate r =
     estimateBytes (ir_indexName r) + 4 + 1 + sum_list (map (\<lambda>res. 4 + 4) (ir_results r)) +
     (if ir_withMeta r then sum_list (map (\<lambda>res. estimateBytes (wr_Meta res)) (ir_results r)) else 0)"

definition rs_EstimateBufferSize :: "remoteSearchResult \<Rightarrow> nat" where
  "rs_EstimateBufferSize r = 2 + 2 + 1 + 4 + sum_list (map ir_estimate (rs_allIndexResults r))"

fun writeAll :: "('a \<Rightarrow> writePtr \<Rightarrow> writePtr outcome) \<Rightarrow> 'a list \<Rightarrow> writePtr \<Rightarrow> writePtr outcome" where
  "writeAll write [] p = Ret p"
| "writeAll write (x # xs) p = andThen (write x p) (writeAll write xs)"

primrec readAll :: "(bytes \<Rightarrow> ('a \<times> bytes) outcome) \<Rightarrow> nat \<Rightarrow> bytes \<Rightarrow> ('a list \<times> bytes) outcome" where
  "readAll read 0 p = Ret ([], p)"
| "readAll read (Suc n) p = andThen (read p) (\<lambda>(x, p1). andThen (readAll read n p1) (\<lambda>(xs, p2). Ret (x # xs, p2)))"

definition wr_write :: "int \<times> 32 word \<Rightarrow> writePtr \<Rightarrow> writePtr outcome" where
  "wr_write res p = andThen (SimpleWriteBuffer (enc_int 4 (fst res)) p) (writeUint32 (snd res))"

definition wr_read :: "bytes \<Rightarrow> ((int \<times> 32 word) \<times> bytes) outcome" where
  "wr_read p = andThen (SimpleReadBuffer 4 p) (\<lambda>(v, p1). andThen (readUint32 p1) (\<lambda>(d, p2). Ret ((dec_sint v, d), p2)))"

definition ir_write :: "indexSearchResult \<Rightarrow> writePtr \<Rightarrow> writePtr outcome" where
  "ir_write r p =
     andThen (writeBytes (ir_indexName r) p) (\<lambda>p1.
     andThen (writeUint32 (of_nat (length (ir_results r))) p1) (\<lambda>p2.
     andThen (writeBool (ir_withMeta r) p2) (\<lambda>p3.
     andThen (writeAll wr_write (map (\<lambda>res. (wr_VID res, wr_Dist res)) (ir_results r)) p3) (\<lambda>p4.
       if ir_withMeta r then writeAll writeBytes (map wr_Meta (ir_results r)) p4 else Ret p4))))"

text \<open>Without meta data the results have none, as \<open>Init\<close> made them.\<close>

definition ir_read :: "bytes \<Rightarrow> (indexSearchResult \<times> bytes) outcome" where
  "ir_read p =
     andThen (readBytes p) (\<lambda>(name, p1).
     andThen (readUint32 p1) (\<lambda>(resNum, p2).
     andThen (readBool p2) (\<lambda>(withMeta, p3).
     andThen (readAll wr_read (unat resNum) p3) (\<lambda>(results, p4).
     andThen (if withMeta then readAll readBytes (unat resNum) p4 else Ret (replicate (unat resNum) [], p4)) (\<lambda>(metas, p5).
       Ret (\<lparr>ir_indexName = name, ir_withMeta = withMeta,
             ir_results = map2 (\<lambda>(v, d) meta. \<lparr>wr_VID = v, wr_Dist = d, wr_Meta = meta\<rparr>) results metas\<rparr>, p5))))))"

definition rs_Write :: "remoteSearchResult \<Rightarrow> writePtr \<Rightarrow> writePtr outcome" where
  "rs_Write r p =
     andThen (writeVersions p) (\<lambda>p1.
     andThen (SimpleWriteBuffer [rs_status r] p1) (\<lambda>p2.
     andThen (writeUint32 (of_nat (length (rs_allIndexResults r))) p2) (\<lambda>p3.
       writeAll ir_write (rs_allIndexResults r) p3)))"

definition rs_Read :: "bytes \<Rightarrow> (remoteSearchResult \<times> bytes) option outcome" where
  "rs_Read p =
     andThen (readVersions p) (\<lambda>(major, p1).
       if major \<noteq> 1 then Ret None
       else andThen (readByte p1) (\<lambda>(s, p2).
            andThen (readUint32 p2) (\<lambda>(len, p3).
            andThen (readAll ir_read (unat len) p3) (\<lambda>(rs, p4).
              Ret (Some (\<lparr>rs_status = s, rs_allIndexResults = rs\<rparr>, p4))))))"

end
