(* ===== verification/SocketProps.thy ===== *)
theory SocketProps
  imports SocketFormats
begin

text \<open>
  Round trips of the wire formats. The locale \<open>codec\<close> is the contract of a serialised type: what is written depends
  only on the value, has the estimated size, and is read back. Strings, booleans, results and messages provide it.
\<close>

section \<open>The contract\<close>

lemma write_join [simp]: "andThen (SimpleWriteBuffer a p) (SimpleWriteBuffer b) = SimpleWriteBuffer (a @ b) p"
  by (auto simp: SimpleWriteBuffer_def)

lemma write_join_then [simp]:
  "andThen (SimpleWriteBuffer a p) (\<lambda>q. SimpleWriteBuffer b q) = SimpleWriteBuffer (a @ b) p"
  "andThen (SimpleWriteBuffer a p) (\<lambda>q. andThen (SimpleWriteBuffer b q) f) = andThen (SimpleWriteBuffer (a @ b) p) f"
  by (auto simp: SimpleWriteBuffer_def)

lemma then_Ret [simp]: "andThen m Ret = m"
  by (cases m) simp_all

lemma write_nothing [simp]: "SimpleWriteBuffer [] p = Ret p"
  by (simp add: SimpleWriteBuffer_def)

lemma read_join [simp]: "length a = n \<Longrightarrow> SimpleReadBuffer n (a @ rest) = Ret (a, rest)"
  by (simp add: SimpleReadBuffer_def)

lemma readByte_Cons [simp]: "readByte (b # rest) = Ret (b, rest)"
  by (simp add: readByte_def SimpleReadBuffer_def)

locale codec =
  fixes wr :: "'a \<Rightarrow> writePtr \<Rightarrow> writePtr outcome"
    and rd :: "bytes \<Rightarrow> ('a \<times> bytes) outcome"
    and estimate :: "'a \<Rightarrow> nat"
    and img :: "'a \<Rightarrow> bytes"
    and ok :: "'a \<Rightarrow> bool"
  assumes size_law: "ok x \<Longrightarrow> length (img x) = estimate x"
    and write_law: "wr x = SimpleWriteBuffer (img x)"
    and read_law: "ok x \<Longrightarrow> rd (img x @ rest) = Ret (x, rest)"
begin

lemma fills: "ok x \<Longrightarrow> wr x (out, estimate x) = Ret (out @ img x, 0)"
  by (simp add: write_law SimpleWriteBuffer_def size_law)

lemma overruns: "ok x \<Longrightarrow> room < estimate x \<Longrightarrow> wr x (out, room) = Fault"
  by (simp add: write_law SimpleWriteBuffer_def size_law)

lemma all_write: "writeAll wr xs p = SimpleWriteBuffer (concat (map img xs)) p"
proof (induction xs arbitrary: p)
  case (Cons x xs)
  then have "writeAll wr xs = SimpleWriteBuffer (concat (map img xs))" by (intro ext)
  moreover have "wr x p = SimpleWriteBuffer (img x) p" by (simp add: write_law)
  ultimately show ?case by (simp del: write_join_then)
qed simp

lemma all_read: "\<forall>x \<in> set xs. ok x \<Longrightarrow> readAll rd (length xs) (concat (map img xs) @ rest) = Ret (xs, rest)"
  by (induction xs) (simp_all add: read_law)

lemma all_size: "\<forall>x \<in> set xs. ok x \<Longrightarrow> length (concat (map img xs)) = sum_list (map estimate xs)"
  by (induction xs) (simp_all add: size_law)

lemma shared_codec:
  "codec (SimpleWriteSharedPtrBuffer wr) (SimpleReadSharedPtrBuffer rd) (EstimateSharedPtrBufferSize estimate)
     (case_option [0] (\<lambda>x. 1 # img x)) (\<lambda>v. \<forall>x. v = Some x \<longrightarrow> ok x)"
proof
  fix v :: "'a option" and rest
  show "SimpleWriteSharedPtrBuffer wr v = SimpleWriteBuffer (case v of None \<Rightarrow> [0] | Some x \<Rightarrow> 1 # img x)"
    by (rule ext, cases v) (simp_all add: SimpleWriteSharedPtrBuffer_def writeBool_def write_law)
  assume ok: "\<forall>x. v = Some x \<longrightarrow> ok x"
  then show "length (case v of None \<Rightarrow> [0] | Some x \<Rightarrow> 1 # img x) = EstimateSharedPtrBufferSize estimate v"
    by (cases v) (simp_all add: EstimateSharedPtrBufferSize_def size_law)
  show "SimpleReadSharedPtrBuffer rd ((case v of None \<Rightarrow> [0] | Some x \<Rightarrow> 1 # img x) @ rest) = Ret (v, rest)"
    using ok by (cases v) (simp_all add: SimpleReadSharedPtrBuffer_def readBool_def SimpleReadBuffer_def read_law)
qed

end

section \<open>Providers\<close>

definition bytesImage :: "bytes \<Rightarrow> bytes" where
  "bytesImage val = enc_int 4 (int (length val)) @ val"

interpretation byteStrings: codec writeBytes readBytes estimateBytes bytesImage "\<lambda>val. length val < 2 ^ 32"
proof
  fix val rest
  show "writeBytes val = SimpleWriteBuffer (bytesImage val)" by (rule ext) (simp add: writeBytes_def bytesImage_def)
  assume l: "length val < 2 ^ 32"
  show "length (bytesImage val) = estimateBytes val" by (simp add: bytesImage_def estimateBytes_def length_enc_int)
  have "dec_uint (enc_int 4 (int (length val))) = int (length val)" using l by (subst dec_uint_enc_int) simp
  then show "readBytes (bytesImage val @ rest) = Ret (val, rest)"
    by (simp add: readBytes_def bytesImage_def length_enc_int)
qed

interpretation sharedStrings: codec "SimpleWriteSharedPtrBuffer writeBytes" "SimpleReadSharedPtrBuffer readBytes"
  "EstimateSharedPtrBufferSize estimateBytes" "case_option [0] (\<lambda>x. 1 # bytesImage x)" "\<lambda>v. \<forall>x. v = Some x \<longrightarrow> length x < 2 ^ 32"
  by (rule byteStrings.shared_codec)

interpretation bools: codec writeBool readBool "\<lambda>_. 1" "\<lambda>b. [if b then 1 else 0]" "\<lambda>_. True"
  by unfold_locales (simp_all add: writeBool_def readBool_def SimpleReadBuffer_def)

interpretation uint32s: codec writeUint32 readUint32 "\<lambda>_. 4" "\<lambda>w. enc_int 4 (uint w)" "\<lambda>_. True"
proof
  fix w :: "32 word" and rest
  have "uint w < 2 ^ 32" using uint_lt2p [of w] by simp
  then have "dec_uint (enc_int 4 (uint w)) = uint w" by (subst dec_uint_enc_int) simp
  then show "readUint32 (enc_int 4 (uint w) @ rest) = Ret (w, rest)" by (simp add: readUint32_def length_enc_int)
qed (simp_all add: writeUint32_def length_enc_int)

interpretation wireResults: codec wr_write wr_read "\<lambda>_. 4 + 4" "\<lambda>r. enc_int 4 (fst r) @ enc_int 4 (uint (snd r))" "\<lambda>r. int32_ok (fst r)"
proof
  fix r :: "int \<times> 32 word" and rest
  show "wr_write r = SimpleWriteBuffer (enc_int 4 (fst r) @ enc_int 4 (uint (snd r)))" by (rule ext) (simp add: wr_write_def writeUint32_def)
  assume "int32_ok (fst r)"
  then show "wr_read ((enc_int 4 (fst r) @ enc_int 4 (uint (snd r))) @ rest) = Ret (r, rest)"
    by (cases r) (simp add: wr_read_def length_enc_int uint32s.read_law dec_enc_int32)
qed (simp add: length_enc_int)

text \<open>A result of an index that can be written: ids of 32 bits, lengths that fit, and no meta data unless announced.\<close>

definition ir_ok :: "indexSearchResult \<Rightarrow> bool" where
  "ir_ok r \<longleftrightarrow> length (ir_indexName r) < 2 ^ 32 \<and> length (ir_results r) < 2 ^ 31 \<and>
     (\<forall>res \<in> set (ir_results r). int32_ok (wr_VID res) \<and> length (wr_Meta res) < 2 ^ 32 \<and> (\<not> ir_withMeta r \<longrightarrow> wr_Meta res = []))"

definition irImage :: "indexSearchResult \<Rightarrow> bytes" where
  "irImage r = bytesImage (ir_indexName r) @ enc_int 4 (uint (of_nat (length (ir_results r)) :: 32 word)) @ [if ir_withMeta r then 1 else 0] @
     concat (map (\<lambda>r. enc_int 4 (fst r) @ enc_int 4 (uint (snd r))) (map (\<lambda>res. (wr_VID res, wr_Dist res)) (ir_results r))) @
     (if ir_withMeta r then concat (map bytesImage (map wr_Meta (ir_results r))) else [])"

lemma unat_small: "n < 2 ^ 31 \<Longrightarrow> unat (of_nat n :: 32 word) = n"
  by (simp add: unat_of_nat)

lemma rebuild:
  "map2 (\<lambda>(v, d) meta. \<lparr>wr_VID = v, wr_Dist = d, wr_Meta = meta\<rparr>) (map (\<lambda>res. (wr_VID res, wr_Dist res)) rs) (map wr_Meta rs) = rs"
  by (induction rs) simp_all

interpretation indexResults: codec ir_write ir_read ir_estimate irImage ir_ok
proof
  fix r rest
  show "ir_write r = SimpleWriteBuffer (irImage r)"
    by (rule ext) (simp add: ir_write_def irImage_def byteStrings.write_law uint32s.write_law bools.write_law wireResults.all_write byteStrings.all_write)
  assume ok: "ir_ok r"
  have n: "length (ir_indexName r) < 2 ^ 32" "length (ir_results r) < 2 ^ 31" using ok by (simp_all add: ir_ok_def)
  have v: "\<forall>x \<in> set (map (\<lambda>res. (wr_VID res, wr_Dist res)) (ir_results r)). int32_ok (fst x)"
    and m: "\<forall>x \<in> set (map wr_Meta (ir_results r)). length x < 2 ^ 32" using ok by (auto simp: ir_ok_def)
  show "length (irImage r) = ir_estimate r"
    using byteStrings.size_law [OF n(1)] wireResults.all_size [OF v] byteStrings.all_size [OF m]
    by (simp add: irImage_def ir_estimate_def length_enc_int comp_def del: length_concat)
  have w: "readAll wr_read (length (ir_results r)) (concat (map (\<lambda>r. enc_int 4 (fst r) @ enc_int 4 (uint (snd r))) (map (\<lambda>res. (wr_VID res, wr_Dist res)) (ir_results r))) @ q)
      = Ret (map (\<lambda>res. (wr_VID res, wr_Dist res)) (ir_results r), q)" for q
    using wireResults.all_read [OF v, of q] by simp
  have b: "readAll readBytes (length (ir_results r)) (concat (map bytesImage (map wr_Meta (ir_results r))) @ q) = Ret (map wr_Meta (ir_results r), q)" for q
    using byteStrings.all_read [OF m, of q] by simp
  have e: "map wr_Meta (ir_results r) = replicate (length (ir_results r)) []" if "\<not> ir_withMeta r"
    using ok that by (auto simp: ir_ok_def intro!: nth_equalityI)
  show "ir_read (irImage r @ rest) = Ret (r, rest)"
  proof (cases "ir_withMeta r")
    case True
    then show ?thesis using rebuild [of "ir_results r"]
      by (simp add: ir_read_def irImage_def byteStrings.read_law [OF n(1)] uint32s.read_law bools.read_law [of True, simplified] unat_small [OF n(2)] w b del: map_map)
  next
    case False
    then show ?thesis using rebuild [of "ir_results r"] unfolding e [OF False]
      by (simp add: ir_read_def irImage_def byteStrings.read_law [OF n(1)] uint32s.read_law bools.read_law [of False, simplified] unat_small [OF n(2)] w del: map_map)
  qed
qed

section \<open>Messages\<close>

lemma versions_ok [simp]:
  "writeVersions p = SimpleWriteBuffer ([1, 0] @ [0, 0]) p" "readVersions (1 # 0 # 0 # 0 # rest) = Ret (1, rest)"
  by (simp_all add: writeVersions_def readVersions_def SimpleReadBuffer_def numeral_2_eq_2)

interpretation queries: codec rq_Write "\<lambda>p. andThen (rq_Read p) deref" rq_EstimateBufferSize
  "\<lambda>q. [1, 0, 0, 0, rq_type q] @ bytesImage (rq_queryString q)" "\<lambda>q. length (rq_queryString q) < 2 ^ 32"
proof
  fix q :: remoteQuery and rest
  show "rq_Write q = SimpleWriteBuffer ([1, 0, 0, 0, rq_type q] @ bytesImage (rq_queryString q))"
    by (rule ext) (simp add: rq_Write_def byteStrings.write_law)
  assume n: "length (rq_queryString q) < 2 ^ 32"
  show "length ([1, 0, 0, 0, rq_type q] @ bytesImage (rq_queryString q)) = rq_EstimateBufferSize q"
    using byteStrings.size_law [OF n] by (simp add: rq_EstimateBufferSize_def)
  show "andThen (rq_Read (([1, 0, 0, 0, rq_type q] @ bytesImage (rq_queryString q)) @ rest)) deref = Ret (q, rest)"
    by (simp add: rq_Read_def readByte_def SimpleReadBuffer_def byteStrings.read_law [OF n])
qed

definition rs_ok :: "remoteSearchResult \<Rightarrow> bool" where
  "rs_ok r \<longleftrightarrow> length (rs_allIndexResults r) < 2 ^ 31 \<and> (\<forall>ir \<in> set (rs_allIndexResults r). ir_ok ir)"

interpretation searchResults: codec rs_Write "\<lambda>p. andThen (rs_Read p) deref" rs_EstimateBufferSize
  "\<lambda>r. [1, 0, 0, 0, rs_status r] @ enc_int 4 (uint (of_nat (length (rs_allIndexResults r)) :: 32 word)) @ concat (map irImage (rs_allIndexResults r))" rs_ok
proof
  fix r rest
  show "rs_Write r = SimpleWriteBuffer ([1, 0, 0, 0, rs_status r] @ enc_int 4 (uint (of_nat (length (rs_allIndexResults r)) :: 32 word)) @ concat (map irImage (rs_allIndexResults r)))"
    by (rule ext) (simp add: rs_Write_def uint32s.write_law indexResults.all_write)
  assume ok: "rs_ok r"
  have n: "length (rs_allIndexResults r) < 2 ^ 31" and all: "\<forall>ir \<in> set (rs_allIndexResults r). ir_ok ir" using ok by (simp_all add: rs_ok_def)
  show "length ([1, 0, 0, 0, rs_status r] @ enc_int 4 (uint (of_nat (length (rs_allIndexResults r)) :: 32 word)) @ concat (map irImage (rs_allIndexResults r))) = rs_EstimateBufferSize r"
    using indexResults.all_size [OF all] by (simp add: rs_EstimateBufferSize_def length_enc_int del: length_concat)
  show "andThen (rs_Read (([1, 0, 0, 0, rs_status r] @ enc_int 4 (uint (of_nat (length (rs_allIndexResults r)) :: 32 word)) @ concat (map irImage (rs_allIndexResults r))) @ rest)) deref = Ret (r, rest)"
    by (simp add: rs_Read_def readByte_def SimpleReadBuffer_def uint32s.read_law unat_small [OF n] indexResults.all_read [OF all])
qed

text \<open>
  C40 A message with the results of a search survives the wire: written into a buffer of the estimated size it fills exactly
  that buffer, and reading it there gives the message back with the pointer behind it; into any smaller buffer the write
  runs over.
\<close>

theorem RemoteSearchResult_round_trip:
  assumes "rs_ok r"
  shows "\<exists>buf. rs_Write r ([], rs_EstimateBufferSize r) = Ret (buf, 0) \<and> length buf = rs_EstimateBufferSize r \<and>
    (\<forall>rest. rs_Read (buf @ rest) = Ret (Some (r, rest))) \<and> (\<forall>room < rs_EstimateBufferSize r. rs_Write r ([], room) = Fault)"
proof -
  have "rs_Read (p @ rest) = Ret (Some (r, rest))" if "andThen (rs_Read (p @ rest)) deref = Ret (r, rest)" for p rest
    using that by (auto simp: andThen_Ret_iff deref_Ret_iff)
  then show ?thesis
    using searchResults.fills [OF assms, of "[]"] searchResults.read_law [OF assms] searchResults.size_law [OF assms] searchResults.overruns [OF assms, of _ "[]"]
    by (intro exI conjI allI impI) (assumption | simp only: append_Nil)+
qed

text \<open>One index with two results and their meta data, and one without meta data.\<close>

definition wireSample :: remoteSearchResult where
  "wireSample = \<lparr>rs_status = 0, rs_allIndexResults =
     [\<lparr>ir_indexName = [97], ir_withMeta = True, ir_results = [\<lparr>wr_VID = 7, wr_Dist = 1, wr_Meta = [5, 6]\<rparr>, \<lparr>wr_VID = - 1, wr_Dist = 9, wr_Meta = []\<rparr>]\<rparr>,
      \<lparr>ir_indexName = [], ir_withMeta = False, ir_results = [\<lparr>wr_VID = 3, wr_Dist = 2, wr_Meta = []\<rparr>]\<rparr>]\<rparr>"

theorem RemoteSearchResult_round_trip_witness:
  "\<exists>buf. rs_Write wireSample ([], 62) = Ret (buf, 0) \<and> length buf = 62 \<and> (\<forall>rest. rs_Read (buf @ rest) = Ret (Some (wireSample, rest))) \<and>
    (\<forall>room < 62. rs_Write wireSample ([], room) = Fault)"
proof -
  have "rs_ok wireSample" by (simp add: rs_ok_def ir_ok_def wireSample_def int32_ok_def)
  moreover have "rs_EstimateBufferSize wireSample = 62"
    by (simp add: rs_EstimateBufferSize_def ir_estimate_def estimateBytes_def wireSample_def)
  ultimately show ?thesis using RemoteSearchResult_round_trip [of wireSample] by simp
qed

section \<open>Packets\<close>

lemma PacketHeader_round_trip:
  "ph_WriteBuffer h (out, 14 + room) = Ret (- 14, out @ [m_packetType h, m_processStatus h] @ enc_int 4 (uint (m_bodyLength h)) @
      enc_int 4 (uint (m_connectionID h)) @ enc_int 4 (uint (m_resourceID h)), room)"
  "ph_ReadBuffer (([m_packetType h, m_processStatus h] @ enc_int 4 (uint (m_bodyLength h)) @ enc_int 4 (uint (m_connectionID h)) @
      enc_int 4 (uint (m_resourceID h))) @ rest) = Ret h"
  by (simp_all add: ph_WriteBuffer_def uint32s.write_law) (simp_all add: SimpleWriteBuffer_def length_enc_int ph_ReadBuffer_def uint32s.read_law)

text \<open>A request type and its response differ in the mask bit only, so responses find their requests.\<close>

lemma mask_absorb: "(t OR m) AND m = (m :: byte)"
  by (rule bit_word_eqI) (auto simp: bit_or_iff bit_and_iff)

lemma mask_remove: "t AND m = 0 \<Longrightarrow> (t OR m) AND NOT m = (t :: byte)"
proof (rule bit_word_eqI)
  fix n assume z: "t AND m = 0" and n: "n < LENGTH(8)"
  have "\<not> (bit t n \<and> bit m n)" using arg_cong [OF z, of "\<lambda>w. bit w n"] by (simp add: bit_and_iff)
  then show "bit ((t OR m) AND NOT m) n = bit t n" using n by (auto simp: bit_or_iff bit_and_iff bit_not_iff)
qed

lemma response_types:
  assumes "IsRequestPacket t"
  shows "IsResponsePacket (GetCrosspondingResponseType t)" "GetCrosspondingResponseType t AND NOT ResponseMask = t"
proof -
  have t: "t \<noteq> 0" "t \<noteq> ResponseMask" "t AND ResponseMask = 0" using assms by (auto simp: IsRequestPacket_def split: if_splits)
  show inv:  "GetCrosspondingResponseType t AND NOT ResponseMask = t"
    using t mask_remove [OF t(3)] by (simp add: GetCrosspondingResponseType_def)
  have "GetCrosspondingResponseType t AND ResponseMask = ResponseMask"
    using t mask_absorb [of t ResponseMask] by (simp add: GetCrosspondingResponseType_def)
  then show "IsResponsePacket (GetCrosspondingResponseType t)" using inv t by (auto simp: IsResponsePacket_def)
qed

end
