(* ===== verification/KMeans.thy ===== *)
theory KMeans
  imports Prelude "HOL-Library.Signed_Division"
begin

text \<open>
  Balanced k-means (AnnService/inc/Core/Common/BKTree.h): \<open>KmeansArgs\<close> with its arrays, \<open>KmeansAssign\<close> over the
  slices of its threads, \<open>InitCenters\<close>, \<open>RefineCenters\<close> and \<open>TryClustering\<close>, and \<open>KmeansClustering\<close>, which ends by
  moving every cluster's members to a stretch of their own (\<open>Shuffle\<close>).

  The arithmetic is a parameter: the distance functions, \<open>float\<close> with its operations over a linear order, and the sums
  from which a new centre is made (division by the count, normalisation and conversion to the stored type are
  \<open>kmMean\<close>). So are the generators behind \<open>Utils::rand\<close> and \<open>std::shuffle\<close>, whose state is threaded. Memory that
  \<open>new\<close> leaves uninitialised holds any values. The slices of \<open>KmeansAssign\<close> do not overlap and are taken in order.
  No caller of the index build asks to abort, so \<open>IAbortOperation\<close> is null.
\<close>

section \<open>The arrays\<close>

record ('r, 'v, 'a, 'f) kmEnv =
  kmDist :: "'v \<Rightarrow> 'v \<Rightarrow> 'f"
  kmL2 :: "'v \<Rightarrow> 'v \<Rightarrow> 'f"
  kmAdd :: "'f \<Rightarrow> 'f \<Rightarrow> 'f"
  kmSub :: "'f \<Rightarrow> 'f \<Rightarrow> 'f"
  kmMul :: "'f \<Rightarrow> 'f \<Rightarrow> 'f"
  kmDiv :: "'f \<Rightarrow> 'f \<Rightarrow> 'f"
  kmSqrt :: "'f \<Rightarrow> 'f"
  kmOfInt :: "int \<Rightarrow> 'f"
  kmMaxDist :: 'f
  kmMinDist :: 'f
  kmMoved :: 'f
  kmStill :: 'f
  kmBaseSquare :: 'f
  kmSumZero :: 'a
  kmSumAdd :: "'a \<Rightarrow> 'v \<Rightarrow> 'a"
  kmSumMerge :: "'a \<Rightarrow> 'a \<Rightarrow> 'a"
  kmMean :: "'a \<Rightarrow> int \<Rightarrow> 'v"
  kmRand :: "'r \<Rightarrow> int \<Rightarrow> int \<Rightarrow> int \<times> 'r"
  kmShuffle :: "'r \<Rightarrow> int list \<Rightarrow> int list \<times> 'r"

text \<open>
  \<open>kmMaxDist\<close> and \<open>kmMinDist\<close> are \<open>MaxDist\<close> and \<open>-MaxDist\<close>, \<open>kmMoved\<close> the \<open>1e-6\<close> of \<open>RefineCenters\<close>, \<open>kmStill\<close> the
  \<open>1e-3\<close> of \<open>TryClustering\<close>, \<open>kmBaseSquare\<close> the square of \<open>GetBase\<close>. \<open>weightedCounts\<close> is not used outside the GPU code.
\<close>

record ('v, 'a, 'f) kmArgs =
  kaK :: nat
  kaDK :: nat
  kaT :: nat
  kaCenters :: "'v list"
  kaNewTCenters :: "'v list"
  kaCounts :: "int list"
  kaNewCenters :: "'a list"
  kaNewCounts :: "int list"
  kaLabel :: "int list"
  kaClusterIdx :: "int list"
  kaClusterDist :: "'f list"
  kaNewWeighted :: "'f list"

definition ka_new ::
  "(nat \<Rightarrow> 'v list) \<Rightarrow> (nat \<Rightarrow> 'a list) \<Rightarrow> (nat \<Rightarrow> int list) \<Rightarrow> (nat \<Rightarrow> 'f list) \<Rightarrow> nat \<Rightarrow> nat \<Rightarrow> nat \<Rightarrow> ('v, 'a, 'f) kmArgs" where
  "ka_new junkV junkA junkI junkF k datasize threads =
     \<lparr>kaK = k, kaDK = k, kaT = threads, kaCenters = junkV k, kaNewTCenters = junkV k, kaCounts = junkI k,
      kaNewCenters = junkA (threads * k), kaNewCounts = junkI (threads * k), kaLabel = junkI datasize,
      kaClusterIdx = junkI (threads * k), kaClusterDist = junkF (threads * k), kaNewWeighted = junkF (threads * k)\<rparr>"

definition ka_ClearCounts :: "('r, 'v, 'a, 'f) kmEnv \<Rightarrow> ('v, 'a, 'f) kmArgs \<Rightarrow> ('v, 'a, 'f) kmArgs" where
  "ka_ClearCounts e a = a\<lparr>kaNewCounts := replicate (kaT a * kaK a) 0, kaNewWeighted := replicate (kaT a * kaK a) (kmOfInt e 0)\<rparr>"

definition ka_ClearCenters :: "('r, 'v, 'a, 'f) kmEnv \<Rightarrow> ('v, 'a, 'f) kmArgs \<Rightarrow> ('v, 'a, 'f) kmArgs" where
  "ka_ClearCenters e a = a\<lparr>kaNewCenters := replicate (kaT a * kaK a) (kmSumZero e)\<rparr>"

definition ka_ClearDists :: "'f \<Rightarrow> ('v, 'a, 'f) kmArgs \<Rightarrow> ('v, 'a, 'f) kmArgs" where
  "ka_ClearDists dist a = a\<lparr>kaClusterIdx := replicate (kaT a * kaK a) (- 1), kaClusterDist := replicate (kaT a * kaK a) dist\<rparr>"

section \<open>Moving the members of a cluster together\<close>

text \<open>\<open>x[i] = f(x[i])\<close>.\<close>

definition vecUpd :: "('b \<Rightarrow> 'b) \<Rightarrow> 'b list \<Rightarrow> int \<Rightarrow> 'b list outcome" where
  "vecUpd f xs i = andThen (vecAt xs i) (\<lambda>x. vecSet xs i (f x))"

lemma vecUpd_nat [outcome_simps]: "k < length xs \<Longrightarrow> vecUpd f xs (int k) = Ret (xs[k := f (xs ! k)])"
  by (simp add: vecUpd_def outcome_simps)

text \<open>The start of each cluster's stretch: \<open>pos[0] = first\<close>, \<open>pos[k] = pos[k - 1] + newCounts[k - 1]\<close>.\<close>

fun sh_pos :: "int \<Rightarrow> int list \<Rightarrow> int list" where
  "sh_pos p [] = []"
| "sh_pos p (c # cs) = p # sh_pos (p + c) cs"

text \<open>
  \<open>while (newCounts[k] > 0)\<close>: the entry at \<open>i\<close> goes to the last free place of its own cluster. The state is the array of
  indices and the arguments; the loop gets fuel.
\<close>

definition sh_step :: "int list \<Rightarrow> int \<Rightarrow> int list \<times> ('v, 'a, 'f) kmArgs \<Rightarrow> (int list \<times> ('v, 'a, 'f) kmArgs) outcome" where
  "sh_step pos i = (\<lambda>(indices, a).
     andThen (vecAt (kaLabel a) i) (\<lambda>l.
     andThen (vecAt pos l) (\<lambda>p.
     andThen (vecAt (kaNewCounts a) l) (\<lambda>c.
     let swapid = p + c - 1
     in andThen (vecSet (kaNewCounts a) l (c - 1)) (\<lambda>counts.
        andThen (vecSwap indices i swapid) (\<lambda>indices'.
        andThen (vecSwap (kaLabel a) i swapid) (\<lambda>label.
        Ret (indices', a\<lparr>kaNewCounts := counts, kaLabel := label\<rparr>))))))))"

fun sh_place :: "nat \<Rightarrow> int list \<Rightarrow> int \<Rightarrow> int \<Rightarrow> int list \<times> ('v, 'a, 'f) kmArgs \<Rightarrow> (int list \<times> ('v, 'a, 'f) kmArgs) outcome" where
  "sh_place 0 pos k i s = Hang"
| "sh_place (Suc n) pos k i s =
     andThen (vecAt (kaNewCounts (snd s)) k) (\<lambda>c.
       if 0 < c then andThen (sh_step pos i s) (sh_place n pos k i) else Ret s)"

text \<open>\<open>while (indices[i] != clusterIdx[k]) i++\<close>.\<close>

fun sh_find :: "nat \<Rightarrow> int list \<Rightarrow> int \<Rightarrow> int \<Rightarrow> int outcome" where
  "sh_find 0 indices c i = Hang"
| "sh_find (Suc n) indices c i = andThen (vecAt indices i) (\<lambda>x. if x \<noteq> c then sh_find n indices c (i + 1) else Ret i)"

definition sh_cluster :: "nat \<Rightarrow> int list \<Rightarrow> nat \<Rightarrow> int list \<times> ('v, 'a, 'f) kmArgs \<Rightarrow> (int list \<times> ('v, 'a, 'f) kmArgs) outcome" where
  "sh_cluster fuel pos k s =
     andThen (vecAt (kaCounts (snd s)) (int k)) (\<lambda>count.
       if count = 0 then Ret s
       else andThen (vecAt pos (int k)) (\<lambda>p.
            andThen (sh_place fuel pos (int k) p s) (\<lambda>(indices, a).
            andThen (vecAt (kaClusterIdx a) (int k)) (\<lambda>center.
            andThen (sh_find fuel indices center p) (\<lambda>i.
            andThen (vecSwap indices i (p + count - 1)) (\<lambda>indices'. Ret (indices', a)))))))"

definition ka_Shuffle :: "nat \<Rightarrow> int list \<Rightarrow> int \<Rightarrow> int \<Rightarrow> ('v, 'a, 'f) kmArgs \<Rightarrow> (int list \<times> ('v, 'a, 'f) kmArgs) outcome" where
  "ka_Shuffle fuel indices first stop a =
     (let pos = sh_pos first (take (kaK a) (kaNewCounts a))
      in loopOver (sh_cluster fuel pos) [0 ..< kaK a] (indices, a))"

section \<open>Assigning the points\<close>

text \<open>The nearest centre of a vector, with the penalty \<open>lambda\<close> for each member of the last round; cluster 0 if none is in range.\<close>

definition km_pick ::
  "('r, 'v, 'a, 'f :: linorder) kmEnv \<Rightarrow> ('v, 'a, 'f) kmArgs \<Rightarrow> 'f \<Rightarrow> 'v \<Rightarrow> nat \<Rightarrow> int \<times> 'f \<Rightarrow> (int \<times> 'f) outcome" where
  "km_pick e a lambda v k = (\<lambda>(clusterid, smallest).
     andThen (vecAt (kaCenters a) (int k)) (\<lambda>center.
     andThen (vecAt (kaCounts a) (int k)) (\<lambda>count.
     let dist = kmAdd e (kmDist e v center) (kmMul e lambda (kmOfInt e count))
     in Ret (if kmMinDist e < dist \<and> dist < smallest then (int k, dist) else (clusterid, smallest)))))"

definition km_nearest ::
  "('r, 'v, 'a, 'f :: linorder) kmEnv \<Rightarrow> ('v, 'a, 'f) kmArgs \<Rightarrow> 'f \<Rightarrow> 'v \<Rightarrow> (int \<times> 'f) outcome" where
  "km_nearest e a lambda v = loopOver (km_pick e a lambda v) [0 ..< kaDK a] (0, kmMaxDist e)"

text \<open>One point of one thread: its label, the counters of its cluster, and the sum and farthest member or the nearest member.\<close>

definition km_point ::
  "('r, 'v, 'a, 'f :: linorder) kmEnv \<Rightarrow> (int \<Rightarrow> 'v outcome) \<Rightarrow> int list \<Rightarrow> bool \<Rightarrow> 'f \<Rightarrow> nat \<Rightarrow> int
     \<Rightarrow> ('v, 'a, 'f) kmArgs \<times> 'f \<Rightarrow> (('v, 'a, 'f) kmArgs \<times> 'f) outcome" where
  "km_point e data indices updateCenters lambda tid i = (\<lambda>(a, idist).
     andThen (vecAt indices i) (\<lambda>x.
     andThen (data x) (\<lambda>v.
     andThen (km_nearest e a lambda v) (\<lambda>(clusterid, smallest).
     let slot = int (tid * kaK a) + clusterid
     in andThen (vecSet (kaLabel a) i clusterid) (\<lambda>label.
        andThen (vecUpd (\<lambda>c. c + 1) (kaNewCounts a) slot) (\<lambda>counts.
        andThen (vecUpd (\<lambda>w. kmAdd e w smallest) (kaNewWeighted a) slot) (\<lambda>weighted.
        andThen (if updateCenters then vecUpd (\<lambda>z. kmSumAdd e z v) (kaNewCenters a) slot else Ret (kaNewCenters a)) (\<lambda>centers.
        andThen (vecAt (kaClusterDist a) slot) (\<lambda>d.
        let hit = (if updateCenters then d < smallest else smallest \<le> d)
        in andThen (if hit then vecSet (kaClusterDist a) slot smallest else Ret (kaClusterDist a)) (\<lambda>dists.
           andThen (if hit then vecSet (kaClusterIdx a) slot x else Ret (kaClusterIdx a)) (\<lambda>idxs.
           Ret (a\<lparr>kaLabel := label, kaNewCounts := counts, kaNewWeighted := weighted, kaNewCenters := centers,
                  kaClusterDist := dists, kaClusterIdx := idxs\<rparr>, kmAdd e idist smallest))))))))))))"

definition km_thread ::
  "('r, 'v, 'a, 'f :: linorder) kmEnv \<Rightarrow> (int \<Rightarrow> 'v outcome) \<Rightarrow> int list \<Rightarrow> int \<Rightarrow> int \<Rightarrow> int \<Rightarrow> bool \<Rightarrow> 'f \<Rightarrow> nat
     \<Rightarrow> ('v, 'a, 'f) kmArgs \<times> 'f \<Rightarrow> (('v, 'a, 'f) kmArgs \<times> 'f) outcome" where
  "km_thread e data indices first stop subsize updateCenters lambda tid = (\<lambda>(a, currDist).
     let istart = first + int tid * subsize;
         iend = min (first + (int tid + 1) * subsize) stop
     in andThen (loopOver (km_point e data indices updateCenters lambda tid) [istart .. iend - 1] (a, kmOfInt e 0)) (\<lambda>(a', idist).
        Ret (a', kmAdd e currDist idist)))"

text \<open>\<open>newCounts[k] += newCounts[i * K + k]\<close>, and the same for the weights, the sums and the chosen members.\<close>

definition km_mergeCounts :: "('r, 'v, 'a, 'f :: linorder) kmEnv \<Rightarrow> nat \<Rightarrow> nat \<Rightarrow> ('v, 'a, 'f) kmArgs \<Rightarrow> ('v, 'a, 'f) kmArgs outcome" where
  "km_mergeCounts e i k a =
     (let slot = int (i * kaK a + k)
      in andThen (vecAt (kaNewCounts a) slot) (\<lambda>c.
         andThen (vecUpd (\<lambda>x. x + c) (kaNewCounts a) (int k)) (\<lambda>counts.
         andThen (vecAt (kaNewWeighted a) slot) (\<lambda>w.
         andThen (vecUpd (\<lambda>x. kmAdd e x w) (kaNewWeighted a) (int k)) (\<lambda>weighted.
         Ret (a\<lparr>kaNewCounts := counts, kaNewWeighted := weighted\<rparr>))))))"

definition km_mergeSums :: "('r, 'v, 'a, 'f :: linorder) kmEnv \<Rightarrow> nat \<Rightarrow> nat \<Rightarrow> ('v, 'a, 'f) kmArgs \<Rightarrow> ('v, 'a, 'f) kmArgs outcome" where
  "km_mergeSums e i k a =
     andThen (vecAt (kaNewCenters a) (int (i * kaK a + k))) (\<lambda>z.
     andThen (vecUpd (\<lambda>x. kmSumMerge e x z) (kaNewCenters a) (int k)) (\<lambda>centers. Ret (a\<lparr>kaNewCenters := centers\<rparr>)))"

definition km_mergeMember :: "bool \<Rightarrow> nat \<Rightarrow> nat \<Rightarrow> ('v, 'a, 'f :: linorder) kmArgs \<Rightarrow> ('v, 'a, 'f) kmArgs outcome" where
  "km_mergeMember updateCenters i k a =
     (let slot = int (i * kaK a + k)
      in andThen (vecAt (kaClusterIdx a) slot) (\<lambda>x.
         andThen (vecAt (kaClusterDist a) slot) (\<lambda>d.
         andThen (vecAt (kaClusterDist a) (int k)) (\<lambda>d0.
         if x \<noteq> - 1 \<and> (if updateCenters then d0 < d else d \<le> d0)
         then andThen (vecSet (kaClusterDist a) (int k) d) (\<lambda>dists.
              andThen (vecSet (kaClusterIdx a) (int k) x) (\<lambda>idxs. Ret (a\<lparr>kaClusterDist := dists, kaClusterIdx := idxs\<rparr>)))
         else Ret a))))"

definition km_overThreads :: "(nat \<Rightarrow> nat \<Rightarrow> ('v, 'a, 'f) kmArgs \<Rightarrow> ('v, 'a, 'f) kmArgs outcome) \<Rightarrow> ('v, 'a, 'f) kmArgs \<Rightarrow> ('v, 'a, 'f) kmArgs outcome" where
  "km_overThreads body a = loopOver (\<lambda>i. loopOver (body i) [0 ..< kaDK a]) [1 ..< kaT a] a"

definition KmeansAssign ::
  "('r, 'v, 'a, 'f :: linorder) kmEnv \<Rightarrow> (int \<Rightarrow> 'v outcome) \<Rightarrow> int list \<Rightarrow> int \<Rightarrow> int \<Rightarrow> ('v, 'a, 'f) kmArgs \<Rightarrow> bool \<Rightarrow> 'f
     \<Rightarrow> (('v, 'a, 'f) kmArgs \<times> 'f) outcome" where
  "KmeansAssign e data indices first stop a updateCenters lambda =
     (let subsize = (stop - first - 1) sdiv int (kaT a) + 1
      in andThen (loopOver (km_thread e data indices first stop subsize updateCenters lambda) [0 ..< kaT a] (a, kmOfInt e 0)) (\<lambda>(a1, currDist).
         andThen (km_overThreads (km_mergeCounts e) a1) (\<lambda>a2.
         andThen (if updateCenters then km_overThreads (km_mergeSums e) a2 else Ret a2) (\<lambda>a3.
         andThen (km_overThreads (km_mergeMember updateCenters) a3) (\<lambda>a4. Ret (a4, currDist))))))"

section \<open>The rounds of the clustering\<close>

text \<open>The biggest cluster with members in the last round, as both refinements look for it.\<close>

definition km_biggest :: "(nat \<Rightarrow> bool outcome) \<Rightarrow> ('v, 'a, 'f) kmArgs \<Rightarrow> nat \<Rightarrow> int \<times> int \<Rightarrow> (int \<times> int) outcome" where
  "km_biggest also_ok a k = (\<lambda>(maxcluster, maxCount).
     andThen (vecAt (kaCounts a) (int k)) (\<lambda>c.
     if \<not> maxCount < c then Ret (maxcluster, maxCount)
     else andThen (vecAt (kaNewCounts a) (int k)) (\<lambda>n.
          if \<not> 0 < n then Ret (maxcluster, maxCount)
          else andThen (also_ok k) (\<lambda>ok. Ret (if ok then (int k, c) else (maxcluster, maxCount))))))"

definition RefineLambda :: "('r, 'v, 'a, 'f :: linorder) kmEnv \<Rightarrow> ('v, 'a, 'f) kmArgs \<Rightarrow> int \<Rightarrow> 'f outcome" where
  "RefineLambda e a sz =
     andThen (loopOver (km_biggest (\<lambda>_. Ret True) a) [0 ..< kaDK a] (- 1, 0)) (\<lambda>(maxcluster, _).
     andThen (vecAt (kaNewWeighted a) maxcluster) (\<lambda>w.
     andThen (vecAt (kaNewCounts a) maxcluster) (\<lambda>n.
     andThen (vecAt (kaClusterDist a) maxcluster) (\<lambda>d.
     let lambda = kmDiv e (kmSub e d (kmDiv e w (kmOfInt e n))) (kmOfInt e sz)
     in Ret (if lambda < kmOfInt e 0 then kmOfInt e 0 else lambda)))))"

text \<open>\<open>centers[k] = data[indices[rand(last, first)]]\<close>.\<close>

definition ic_pickCenter ::
  "('r, 'v, 'a, 'f :: linorder) kmEnv \<Rightarrow> (int \<Rightarrow> 'v outcome) \<Rightarrow> int list \<Rightarrow> int \<Rightarrow> int \<Rightarrow> nat \<Rightarrow> 'r \<times> ('v, 'a, 'f) kmArgs
     \<Rightarrow> ('r \<times> ('v, 'a, 'f) kmArgs) outcome" where
  "ic_pickCenter e data indices first stop k = (\<lambda>(r, a).
     let (randid, r') = kmRand e r stop first
     in andThen (vecAt indices randid) (\<lambda>x.
        andThen (data x) (\<lambda>v.
        andThen (vecSet (kaCenters a) (int k) v) (\<lambda>centers. Ret (r', a\<lparr>kaCenters := centers\<rparr>)))))"

definition ic_try ::
  "('r, 'v, 'a, 'f :: linorder) kmEnv \<Rightarrow> (int \<Rightarrow> 'v outcome) \<Rightarrow> int list \<Rightarrow> int \<Rightarrow> int \<Rightarrow> int \<Rightarrow> nat
     \<Rightarrow> 'r \<times> ('v, 'a, 'f) kmArgs \<times> 'f \<times> 'f \<Rightarrow> ('r \<times> ('v, 'a, 'f) kmArgs \<times> 'f \<times> 'f) outcome" where
  "ic_try e data indices first stop batchEnd numKmeans = (\<lambda>(r, a, lambda, minClusterDist).
     andThen (loopOver (ic_pickCenter e data indices first stop) [0 ..< kaDK a] (r, a)) (\<lambda>(r1, a1).
     andThen (KmeansAssign e data indices first batchEnd (ka_ClearDists (kmMinDist e) (ka_ClearCounts e a1)) True (kmOfInt e 0)) (\<lambda>(a2, currDist).
     if currDist < minClusterDist
     then let a3 = a2\<lparr>kaNewTCenters := kaCenters a2, kaCounts := take (kaK a2) (kaNewCounts a2)\<rparr>
          in andThen (RefineLambda e a3 (batchEnd - first)) (\<lambda>lambda'. Ret (r1, a3, lambda', currDist))
     else Ret (r1, a2, lambda, minClusterDist))))"

definition InitCenters ::
  "('r, 'v, 'a, 'f :: linorder) kmEnv \<Rightarrow> (int \<Rightarrow> 'v outcome) \<Rightarrow> int list \<Rightarrow> int \<Rightarrow> int \<Rightarrow> ('v, 'a, 'f) kmArgs \<Rightarrow> int \<Rightarrow> nat \<Rightarrow> 'r
     \<Rightarrow> ('r \<times> ('v, 'a, 'f) kmArgs \<times> 'f) outcome" where
  "InitCenters e data indices first stop a samples tryIters r =
     andThen (loopOver (ic_try e data indices first stop (min (first + samples) stop)) [0 ..< tryIters] (r, a, kmOfInt e 0, kmMaxDist e))
       (\<lambda>(r1, a1, lambda, _). Ret (r1, a1, lambda))"

text \<open>
  The new centre of a cluster is the mean of its members; an empty cluster gets the farthest member of the biggest
  cluster that has moved, or stays. The sums are divided in place; they are cleared before they are read again, so the
  model leaves them.
\<close>

definition rc_newCenter ::
  "('r, 'v, 'a, 'f :: linorder) kmEnv \<Rightarrow> (int \<Rightarrow> 'v outcome) \<Rightarrow> ('v, 'a, 'f) kmArgs \<Rightarrow> int \<Rightarrow> nat \<Rightarrow> 'v outcome" where
  "rc_newCenter e data a maxcluster k =
     andThen (vecAt (kaCounts a) (int k)) (\<lambda>c.
     if c = 0
     then if maxcluster \<noteq> - 1 then andThen (vecAt (kaClusterIdx a) maxcluster) data else vecAt (kaCenters a) (int k)
     else andThen (vecAt (kaNewCenters a) (int k)) (\<lambda>z. Ret (kmMean e z c)))"

definition rc_step ::
  "('r, 'v, 'a, 'f :: linorder) kmEnv \<Rightarrow> (int \<Rightarrow> 'v outcome) \<Rightarrow> int \<Rightarrow> nat \<Rightarrow> ('v, 'a, 'f) kmArgs \<times> 'f
     \<Rightarrow> (('v, 'a, 'f) kmArgs \<times> 'f) outcome" where
  "rc_step e data maxcluster k = (\<lambda>(a, diff).
     andThen (rc_newCenter e data a maxcluster k) (\<lambda>t.
     andThen (vecSet (kaNewTCenters a) (int k) t) (\<lambda>ts.
     andThen (vecAt (kaCenters a) (int k)) (\<lambda>c. Ret (a\<lparr>kaNewTCenters := ts\<rparr>, kmAdd e diff (kmL2 e t c))))))"

definition RefineCenters ::
  "('r, 'v, 'a, 'f :: linorder) kmEnv \<Rightarrow> (int \<Rightarrow> 'v outcome) \<Rightarrow> ('v, 'a, 'f) kmArgs \<Rightarrow> (('v, 'a, 'f) kmArgs \<times> 'f) outcome" where
  "RefineCenters e data a =
     andThen (loopOver (km_biggest (\<lambda>k. andThen (vecAt (kaClusterIdx a) (int k)) (\<lambda>x.
                 andThen (data x) (\<lambda>v. andThen (vecAt (kaCenters a) (int k)) (\<lambda>c. Ret (kmMoved e < kmL2 e v c))))) a)
                [0 ..< kaDK a] (- 1, 0)) (\<lambda>(maxcluster, _).
     loopOver (rc_step e data maxcluster) [0 ..< kaDK a] (a, kmOfInt e 0))"

text \<open>
  The rounds of \<open>TryClustering\<close>, at most 100: shuffle, assign the first \<open>samples\<close> points, refine; stop when the centres no
  longer move or five rounds did not improve.
\<close>

definition shuffleRange :: "('r, 'v, 'a, 'f) kmEnv \<Rightarrow> 'r \<Rightarrow> int list \<Rightarrow> int \<Rightarrow> int \<Rightarrow> int list \<times> 'r" where
  "shuffleRange e r indices first stop =
     (let (middle, r') = kmShuffle e r (take (nat (stop - first)) (drop (nat first) indices))
      in (take (nat first) indices @ middle @ drop (nat stop) indices, r'))"

fun tc_rounds ::
  "nat \<Rightarrow> ('r, 'v, 'a, 'f :: linorder) kmEnv \<Rightarrow> (int \<Rightarrow> 'v outcome) \<Rightarrow> int \<Rightarrow> int \<Rightarrow> int \<Rightarrow> 'f \<Rightarrow> 'f \<Rightarrow> nat
     \<Rightarrow> 'r \<times> int list \<times> ('v, 'a, 'f) kmArgs \<Rightarrow> ('r \<times> int list \<times> ('v, 'a, 'f) kmArgs) outcome" where
  "tc_rounds 0 e data first stop batchEnd lambda minClusterDist noImprovement s = Ret s"
| "tc_rounds (Suc n) e data first stop batchEnd lambda minClusterDist noImprovement s =
     (case s of (r, indices, a) \<Rightarrow>
      let a0 = a\<lparr>kaCenters := kaNewTCenters a\<rparr>;
          (indices', r') = shuffleRange e r indices first stop;
          a1 = ka_ClearDists (kmMinDist e) (ka_ClearCounts e (ka_ClearCenters e a0))
      in andThen (KmeansAssign e data indices' first batchEnd a1 True lambda) (\<lambda>(a2, currDist).
         let a3 = a2\<lparr>kaCounts := take (kaK a2) (kaNewCounts a2)\<rparr>;
             better = currDist < minClusterDist;
             noImprovement' = (if better then 0 else noImprovement + 1)
         in andThen (RefineCenters e data a3) (\<lambda>(a4, currDiff).
            if currDiff < kmStill e \<or> 5 \<le> noImprovement' then Ret (r', indices', a4)
            else tc_rounds n e data first stop batchEnd lambda (if better then currDist else minClusterDist) noImprovement'
                   (r', indices', a4))))"

text \<open>\<open>centers[k] = data[clusterIdx[k]]\<close> unless the centres are virtual.\<close>

definition tc_realCenter ::
  "(int \<Rightarrow> 'v outcome) \<Rightarrow> nat \<Rightarrow> ('v, 'a, 'f) kmArgs \<Rightarrow> ('v, 'a, 'f) kmArgs outcome" where
  "tc_realCenter data k a =
     andThen (vecAt (kaClusterIdx a) (int k)) (\<lambda>x.
     if x = - 1 then Ret a
     else andThen (data x) (\<lambda>v. andThen (vecSet (kaCenters a) (int k) v) (\<lambda>centers. Ret (a\<lparr>kaCenters := centers\<rparr>))))"

definition tc_final ::
  "('r, 'v, 'a, 'f :: linorder) kmEnv \<Rightarrow> (int \<Rightarrow> 'v outcome) \<Rightarrow> int list \<Rightarrow> int \<Rightarrow> int \<Rightarrow> ('v, 'a, 'f) kmArgs
     \<Rightarrow> (('v, 'a, 'f) kmArgs \<times> 'f) outcome" where
  "tc_final e data indices first stop a =
     KmeansAssign e data indices first stop (ka_ClearDists (kmMaxDist e) (ka_ClearCounts e a)) False (kmOfInt e 0)"

text \<open>The relative standard deviation of the cluster sizes.\<close>

definition tc_countStd :: "('r, 'v, 'a, 'f :: linorder) kmEnv \<Rightarrow> int \<Rightarrow> ('v, 'a, 'f) kmArgs \<Rightarrow> 'f" where
  "tc_countStd e points a =
     (let avg = kmDiv e (kmOfInt e points) (kmOfInt e (int (kaDK a)));
          sq = foldl (\<lambda>z c. let d = kmSub e (kmOfInt e c) avg in kmAdd e z (kmMul e d d)) (kmOfInt e 0) (take (kaDK a) (kaCounts a))
      in kmDiv e (kmSqrt e (kmDiv e sq (kmOfInt e (int (kaDK a))))) avg)"

definition TryClustering ::
  "('r, 'v, 'a, 'f :: linorder) kmEnv \<Rightarrow> (int \<Rightarrow> 'v outcome) \<Rightarrow> int list \<Rightarrow> int \<Rightarrow> int \<Rightarrow> ('v, 'a, 'f) kmArgs \<Rightarrow> int \<Rightarrow> 'f \<Rightarrow> bool \<Rightarrow> 'r
     \<Rightarrow> ('r \<times> int list \<times> ('v, 'a, 'f) kmArgs \<times> 'f) outcome" where
  "TryClustering e data indices first stop a samples lambdaFactor virtualCenter r =
     andThen (InitCenters e data indices first stop a samples 3 r) (\<lambda>(r1, a1, adjustedLambda).
     let batchEnd = min (first + samples) stop;
         originalLambda = kmDiv e (kmDiv e (kmBaseSquare e) lambdaFactor) (kmOfInt e (batchEnd - first))
     in andThen (tc_rounds 100 e data first stop batchEnd (min adjustedLambda originalLambda) (kmMaxDist e) 0 (r1, indices, a1)) (\<lambda>(r2, indices', a2).
        andThen (if virtualCenter then Ret a2
                 else andThen (tc_final e data indices' first stop a2) (\<lambda>(a3, _). loopOver (tc_realCenter data) [0 ..< kaDK a3] a3)) (\<lambda>a4.
        andThen (tc_final e data indices' first stop a4) (\<lambda>(a5, _).
        let a6 = a5\<lparr>kaCounts := take (kaK a5) (kaNewCounts a5)\<rparr>
        in Ret (r2, indices', a6, tc_countStd e (stop - first) a6)))))"

text \<open>
  \<open>DynamicFactorSelect\<close> tries the factors \<open>0.001f\<close>, ten times as much and so on up to 1000 (\<open>factors\<close>), starting from the
  best factor 100 and the greatest deviation.
\<close>

definition dfs_try ::
  "('r, 'v, 'a, 'f :: linorder) kmEnv \<Rightarrow> (int \<Rightarrow> 'v outcome) \<Rightarrow> int \<Rightarrow> int \<Rightarrow> int \<Rightarrow> 'f
     \<Rightarrow> 'r \<times> int list \<times> ('v, 'a, 'f) kmArgs \<times> 'f \<times> 'f \<Rightarrow> ('r \<times> int list \<times> ('v, 'a, 'f) kmArgs \<times> 'f \<times> 'f) outcome" where
  "dfs_try e data first stop samples factor = (\<lambda>(r, indices, a, best, bestStd).
     andThen (TryClustering e data indices first stop a samples factor False r) (\<lambda>(r', indices', a', std).
     Ret (if std < bestStd then (r', indices', a', factor, std) else (r', indices', a', best, bestStd))))"

definition DynamicFactorSelect ::
  "('r, 'v, 'a, 'f :: linorder) kmEnv \<Rightarrow> 'f list \<Rightarrow> 'f \<Rightarrow> 'f \<Rightarrow> (int \<Rightarrow> 'v outcome) \<Rightarrow> int list \<Rightarrow> int \<Rightarrow> int \<Rightarrow> ('v, 'a, 'f) kmArgs \<Rightarrow> int \<Rightarrow> 'r
     \<Rightarrow> ('r \<times> int list \<times> ('v, 'a, 'f) kmArgs \<times> 'f) outcome" where
  "DynamicFactorSelect e factors hundred maxFloat data indices first stop a samples r =
     andThen (loopOver (dfs_try e data first stop samples) factors (r, indices, a, hundred, maxFloat))
       (\<lambda>(r', indices', a', best, _). Ret (r', indices', a', best))"

definition KmeansClustering ::
  "nat \<Rightarrow> ('r, 'v, 'a, 'f :: linorder) kmEnv \<Rightarrow> (int \<Rightarrow> 'v outcome) \<Rightarrow> int list \<Rightarrow> int \<Rightarrow> int \<Rightarrow> ('v, 'a, 'f) kmArgs \<Rightarrow> int \<Rightarrow> 'f \<Rightarrow> bool \<Rightarrow> 'r
     \<Rightarrow> (int \<times> 'r \<times> int list \<times> ('v, 'a, 'f) kmArgs) outcome" where
  "KmeansClustering fuel e data indices first stop a samples lambdaFactor virtualCenter r =
     andThen (TryClustering e data indices first stop a samples lambdaFactor virtualCenter r) (\<lambda>(r1, indices1, a1, _).
     let numClusters = int (length (filter (\<lambda>c. 0 < c) (take (kaK a1) (kaCounts a1))))
     in if numClusters \<le> 1 then Ret (numClusters, r1, indices1, a1)
        else andThen (ka_Shuffle fuel indices1 first stop a1) (\<lambda>(indices2, a2). Ret (numClusters, r1, indices2, a2)))"

end
