(* ===== verification/KShuffle.thy ===== *)
theory KShuffle
  imports KMeans
begin

text \<open>
  \<open>Shuffle\<close> of \<open>KmeansArgs\<close>: when the counters are the histogram of the labels, it ends, only moves entries inside its
  range, gives every cluster the stretch of its members and puts the chosen member last.
\<close>

section \<open>Stretches\<close>

definition startOf :: "nat \<Rightarrow> nat list \<Rightarrow> nat \<Rightarrow> nat" where
  "startOf f cnts l = f + sum_list (take l cnts)"

lemma startOf_Suc: "l < length cnts \<Longrightarrow> startOf f cnts (Suc l) = startOf f cnts l + cnts ! l"
  by (simp add: startOf_def take_Suc_conv_app_nth)

lemma startOf_0 [simp]: "startOf f cnts 0 = f"
  by (simp add: startOf_def)

lemma startOf_mono: "l \<le> m \<Longrightarrow> m \<le> length cnts \<Longrightarrow> startOf f cnts l \<le> startOf f cnts m"
proof (induction m)
  case 0
  then show ?case by simp
next
  case (Suc m)
  then show ?case by (cases "l = Suc m") (auto simp: startOf_Suc)
qed

lemma startOf_all: "startOf f cnts (length cnts) = f + sum_list cnts"
  by (simp add: startOf_def)

lemma startOf_end: "l < length cnts \<Longrightarrow> startOf f cnts l + cnts ! l \<le> f + sum_list cnts"
  using startOf_mono [of "Suc l" "length cnts" cnts f] startOf_Suc [of l cnts f] startOf_all [of f cnts] by simp

lemma startOf_ge: "f \<le> startOf f cnts l"
  by (simp add: startOf_def)

lemma sh_pos_nth: "length (sh_pos p cs) = length cs" "k < length cs \<Longrightarrow> sh_pos p cs ! k = p + sum_list (take k cs)"
proof (induction cs arbitrary: p k)
  case Nil
  {case 1 then show ?case by simp next case 2 then show ?case by simp}
next
  case (Cons c cs)
  {
    case 1
    then show ?case using Cons.IH(1) by simp
  next
    case 2
    then show ?case using Cons.IH(2) by (cases k) auto
  }
qed

lemma sum_list_map_int: "sum_list (map int cs) = int (sum_list cs)"
  by (induction cs) auto

lemma sh_pos_startOf: "k < length cnts \<Longrightarrow> sh_pos (int f) (map int cnts) ! k = int (startOf f cnts k)"
  by (simp add: sh_pos_nth take_map sum_list_map_int startOf_def)

definition stretch :: "nat \<Rightarrow> nat list \<Rightarrow> nat \<Rightarrow> nat set" where
  "stretch f cnts l = {startOf f cnts l ..< startOf f cnts l + cnts ! l}"

definition freeOf :: "nat \<Rightarrow> nat list \<Rightarrow> nat list \<Rightarrow> nat set" where
  "freeOf f cnts c = (\<Union>l < length cnts. {startOf f cnts l ..< startOf f cnts l + c ! l})"

lemma stretch_disjoint:
  assumes "l < length cnts" "m < length cnts" "p \<in> stretch f cnts l" "p \<in> stretch f cnts m"
  shows "l = m"
proof (rule ccontr)
  assume "l \<noteq> m"
  then consider "Suc l \<le> m" | "Suc m \<le> l" by linarith
  then show False
  proof cases
    case 1
    then show ?thesis using startOf_mono [of "Suc l" m cnts f] assms by (auto simp: stretch_def startOf_Suc)
  next
    case 2
    then show ?thesis using startOf_mono [of "Suc m" l cnts f] assms by (auto simp: stretch_def startOf_Suc)
  qed
qed

lemma stretch_cover:
  assumes "f \<le> p" "p < f + sum_list cnts"
  shows "\<exists>l < length cnts. p \<in> stretch f cnts l"
  using assms
proof (induction cnts arbitrary: f)
  case Nil
  then show ?case by simp
next
  case (Cons c cnts)
  show ?case
  proof (cases "p < f + c")
    case True
    then show ?thesis using Cons.prems by (intro exI [of _ 0]) (simp add: stretch_def)
  next
    case False
    then obtain l where "l < length cnts" "p \<in> stretch (f + c) cnts l" using Cons.IH [of "f + c"] Cons.prems by auto
    then show ?thesis by (intro exI [of _ "Suc l"]) (simp add: stretch_def startOf_def add.assoc)
  qed
qed

section \<open>The invariant\<close>

text \<open>
  \<open>c\<close> is what is left of the histogram \<open>cnts\<close>; \<open>L\<close> is the cluster of an id. The places behind the free part of a stretch
  hold members of its cluster, and the free places hold as many members of each cluster as its counter says.
\<close>

definition sh_inv :: "nat \<Rightarrow> nat list \<Rightarrow> (int \<Rightarrow> nat) \<Rightarrow> int list \<Rightarrow> nat list \<Rightarrow> int list \<times> ('v, 'a, 'f) kmArgs \<Rightarrow> bool" where
  "sh_inv f cnts L ix0 c s \<longleftrightarrow> (let ix = fst s; a = snd s; n = sum_list cnts in
     length ix = length ix0 \<and> f + n \<le> length ix \<and> f + n \<le> length (kaLabel a)
     \<and> mset ix = mset ix0 \<and> (\<forall>p < length ix. p \<notin> {f ..< f + n} \<longrightarrow> ix ! p = ix0 ! p)
     \<and> length c = length cnts \<and> (\<forall>l < length cnts. c ! l \<le> cnts ! l)
     \<and> length cnts \<le> length (kaNewCounts a) \<and> (\<forall>l < length cnts. kaNewCounts a ! l = int (c ! l))
     \<and> (\<forall>p \<in> {f ..< f + n}. kaLabel a ! p = int (L (ix ! p)) \<and> L (ix ! p) < length cnts)
     \<and> (\<forall>l < length cnts. \<forall>p \<in> stretch f cnts l. p \<notin> freeOf f cnts c \<longrightarrow> L (ix ! p) = l)
     \<and> (\<forall>l < length cnts. card {p \<in> freeOf f cnts c. L (ix ! p) = l} = c ! l))"

lemma freeOf_sub: 
  assumes "length c = length cnts" "\<forall>l < length cnts. c ! l \<le> cnts ! l"
  shows "freeOf f cnts c \<subseteq> {f ..< f + sum_list cnts}"
proof
  fix p assume "p \<in> freeOf f cnts c"
  then obtain l where "l < length cnts" "startOf f cnts l \<le> p" "p < startOf f cnts l + c ! l" by (auto simp: freeOf_def)
  then show "p \<in> {f ..< f + sum_list cnts}"
    using assms startOf_ge [of f cnts l] startOf_end [of l cnts f] by (fastforce intro: order_less_le_trans)
qed

lemma free_in_stretch:
  assumes "\<forall>l < length cnts. c ! l \<le> cnts ! l" "l < length cnts" "p \<in> stretch f cnts l"
  shows "p \<in> freeOf f cnts c \<longleftrightarrow> p < startOf f cnts l + c ! l"
proof
  assume "p \<in> freeOf f cnts c"
  then obtain m where m: "m < length cnts" "startOf f cnts m \<le> p" "p < startOf f cnts m + c ! m" by (auto simp: freeOf_def)
  then have "p \<in> stretch f cnts m" using assms(1) by (fastforce simp: stretch_def)
  then have "m = l" using stretch_disjoint assms(2,3) m(1) by blast
  then show "p < startOf f cnts l + c ! l" using m by simp
next
  assume "p < startOf f cnts l + c ! l"
  then show "p \<in> freeOf f cnts c" using assms(2,3) by (auto simp: freeOf_def stretch_def)
qed

lemma finite_free: "finite (freeOf f cnts c)"
  by (simp add: freeOf_def)

lemma freeOf_less:
  assumes "length c = length cnts" "\<forall>l < length cnts. c ! l \<le> cnts ! l" "l < length cnts" "0 < c ! l"
  shows "freeOf f cnts (c[l := c ! l - 1]) = freeOf f cnts c - {startOf f cnts l + c ! l - 1}" (is "?A = ?B")
    and "startOf f cnts l + c ! l - 1 \<in> freeOf f cnts c"
proof -
  let ?s = "startOf f cnts l + c ! l - 1"
  have le': "\<forall>m < length cnts. c[l := c ! l - 1] ! m \<le> cnts ! m"
    using assms by (auto simp: nth_list_update intro: order_trans [OF diff_le_self])
  have s: "?s \<in> stretch f cnts l" using assms by (fastforce simp: stretch_def)
  show "?s \<in> freeOf f cnts c" using free_in_stretch [OF assms(2,3) s] assms(4) by auto
  show "?A = ?B"
  proof (rule set_eqI)
    fix p
    show "p \<in> ?A \<longleftrightarrow> p \<in> ?B"
    proof (cases "\<exists>m < length cnts. p \<in> stretch f cnts m")
      case True
      then obtain m where m: "m < length cnts" "p \<in> stretch f cnts m" by blast
      have "m = l" if "p = ?s" using that m s stretch_disjoint assms(3) by blast
      then show ?thesis using free_in_stretch [OF assms(2) m] free_in_stretch [OF le' m] assms(1,3,4) m
        by (cases "m = l") (auto simp: nth_list_update)
    next
      case False
      have "p \<notin> freeOf f cnts c" "p \<notin> ?A"
        using False assms(2) le' by (fastforce simp: freeOf_def stretch_def)+
      then show ?thesis by blast
    qed
  qed
qed

section \<open>One exchange\<close>

lemma card_exchange:
  fixes g :: "'b \<Rightarrow> 'c"
  assumes "finite F" "i < length xs" "t < length xs" "i \<in> F" "t \<in> F"
  shows "card {p \<in> F - {t}. h (xs[i := xs ! t, t := xs ! i] ! p) = m} = card ({p \<in> F. h (xs ! p) = m} - {i})"
proof -
  let ?swap = "\<lambda>p. if p = i then t else if p = t then i else p"
  have e: "xs[i := xs ! t, t := xs ! i] ! p = xs ! ?swap p" if "p \<in> F" for p
    using assms that by (cases "p = i"; cases "p = t") auto
  have "{p \<in> F - {t}. h (xs[i := xs ! t, t := xs ! i] ! p) = m} = {p \<in> F - {t}. h (xs ! ?swap p) = m}"
  proof (rule Collect_cong)
    fix p
    show "(p \<in> F - {t} \<and> h (xs[i := xs ! t, t := xs ! i] ! p) = m) = (p \<in> F - {t} \<and> h (xs ! ?swap p) = m)"
    proof (cases "p \<in> F")
      case True
      show ?thesis unfolding e [OF True] ..
    qed simp
  qed
  also have "\<dots> = ?swap ` ({p \<in> F. h (xs ! p) = m} - {i})" (is "?A = ?swap ` ?B")
  proof
    show "?A \<subseteq> ?swap ` ?B"
    proof
      fix p assume p: "p \<in> ?A"
      then have "?swap p \<in> ?B" "p = ?swap (?swap p)" using assms by (auto split: if_splits)
      then show "p \<in> ?swap ` ?B" by blast
    qed
    show "?swap ` ?B \<subseteq> ?A" using assms by (auto split: if_splits)
  qed
  also have "card \<dots> = card ?B" by (rule card_image) (auto simp: inj_on_def split: if_splits)
  finally show ?thesis .
qed

definition sh_kept :: "('v, 'a, 'f) kmArgs \<Rightarrow> ('v, 'a, 'f) kmArgs \<Rightarrow> bool" where
  "sh_kept a a' \<longleftrightarrow> a'\<lparr>kaNewCounts := kaNewCounts a, kaLabel := kaLabel a\<rparr> = a
     \<and> length (kaNewCounts a') = length (kaNewCounts a) \<and> length (kaLabel a') = length (kaLabel a)"

lemma sh_kept_refl: "sh_kept a a"
  by (cases a) (simp add: sh_kept_def)

lemma sh_kept_trans: "sh_kept a b \<Longrightarrow> sh_kept b d \<Longrightarrow> sh_kept a d"
  by (cases a; cases b; cases d) (simp add: sh_kept_def)

lemma sh_keptD:
  assumes "sh_kept a a'"
  shows "kaK a' = kaK a" "kaDK a' = kaDK a" "kaT a' = kaT a" "kaCenters a' = kaCenters a" "kaCounts a' = kaCounts a"
    "kaNewTCenters a' = kaNewTCenters a" "kaClusterIdx a' = kaClusterIdx a" "kaNewCenters a' = kaNewCenters a"
    "kaClusterDist a' = kaClusterDist a" "kaNewWeighted a' = kaNewWeighted a"
    "length (kaNewCounts a') = length (kaNewCounts a)" "length (kaLabel a') = length (kaLabel a)"
  using assms by (cases a; cases a'; simp add: sh_kept_def)+

lemma sh_step_ok:
  assumes I: "sh_inv f cnts L ix0 c (ix, a)" and k: "k < length cnts" "0 < c ! k"
    and pos: "pos = sh_pos (int f) (map int cnts)"
  shows "\<exists>c' ix' a'. sh_step pos (int (startOf f cnts k)) (ix, a) = Ret (ix', a') \<and> sh_inv f cnts L ix0 c' (ix', a')
    \<and> sum_list c' < sum_list c \<and> (\<forall>m < length cnts. c' ! m \<le> c ! m) \<and> sh_kept a a'
    \<and> (\<forall>p < length ix. p \<notin> freeOf f cnts c \<longrightarrow> ix' ! p = ix ! p)"
proof -
  let ?n = "sum_list cnts"
  let ?i = "startOf f cnts k"
  let ?l = "L (ix ! ?i)"
  let ?s = "startOf f cnts ?l + c ! ?l - 1"
  note J = I [unfolded sh_inv_def Let_def fst_conv snd_conv]
  have lens: "length ix = length ix0" "f + ?n \<le> length ix" "f + ?n \<le> length (kaLabel a)" "length c = length cnts"
    "length cnts \<le> length (kaNewCounts a)" and le: "\<forall>m < length cnts. c ! m \<le> cnts ! m"
    and nc: "\<And>m. m < length cnts \<Longrightarrow> kaNewCounts a ! m = int (c ! m)"
    and lab: "\<And>p. f \<le> p \<Longrightarrow> p < f + ?n \<Longrightarrow> kaLabel a ! p = int (L (ix ! p)) \<and> L (ix ! p) < length cnts"
    and done_ok: "\<And>m p. m < length cnts \<Longrightarrow> p \<in> stretch f cnts m \<Longrightarrow> p \<notin> freeOf f cnts c \<Longrightarrow> L (ix ! p) = m"
    and cards: "\<And>m. m < length cnts \<Longrightarrow> card {p \<in> freeOf f cnts c. L (ix ! p) = m} = c ! m"
    and ms: "mset ix = mset ix0" and out: "\<And>p. p < length ix \<Longrightarrow> p \<notin> {f ..< f + ?n} \<Longrightarrow> ix ! p = ix0 ! p"
    using J by auto
  have iF: "?i \<in> freeOf f cnts c" using k by (auto simp: freeOf_def)
  have seg: "freeOf f cnts c \<subseteq> {f ..< f + ?n}" using freeOf_sub [OF lens(4) le] .
  have i: "f \<le> ?i" "?i < f + ?n" using iF seg by auto
  have l: "?l < length cnts" using lab [OF i] by simp
  have "?i \<in> {p \<in> freeOf f cnts c. L (ix ! p) = ?l}" using iF by simp
  then have "0 < card {p \<in> freeOf f cnts c. L (ix ! p) = ?l}" using finite_free [of f cnts c] by (auto simp: card_gt_0_iff)
  then have cl: "0 < c ! ?l" using cards [OF l] by simp
  note less = freeOf_less [where f = f, OF lens(4) le l cl]
  have "?s \<in> {f ..< f + ?n}" using less(2) seg by blast
  then have s: "f \<le> ?s" "?s < f + ?n" by simp_all
  let ?ix = "ix[?i := ix ! ?s, ?s := ix ! ?i]"
  let ?lb = "(kaLabel a)[?i := kaLabel a ! ?s, ?s := kaLabel a ! ?i]"
  let ?nc = "(kaNewCounts a)[?l := kaNewCounts a ! ?l - 1]"
  let ?c = "c[?l := c ! ?l - 1]"
  let ?a = "a\<lparr>kaNewCounts := ?nc, kaLabel := ?lb\<rparr>"
  have at_pos: "vecAt pos (int ?l) = Ret (int (startOf f cnts ?l))" "vecAt (kaLabel a) (int ?i) = Ret (int ?l)"
    "vecAt (kaNewCounts a) (int ?l) = Ret (int (c ! ?l))"
    using l lab [OF i] lens i nc [OF l] by (simp_all add: vecAt_def pos sh_pos_nth(1) sh_pos_startOf)
  have sint: "int (startOf f cnts ?l) + int (c ! ?l) - 1 = int ?s" using cl by simp
  have st: "sh_step pos (int ?i) (ix, a) = Ret (?ix, ?a)"
    unfolding sh_step_def using at_pos l lens i s nc [OF l]
    by (simp add: sint Let_def vecSet_def vecSwap_ok)
  have swapAt: "?ix ! p = (if p = ?s then ix ! ?i else if p = ?i then ix ! ?s else ix ! p)"
    "?lb ! p = (if p = ?s then kaLabel a ! ?i else if p = ?i then kaLabel a ! ?s else kaLabel a ! p)" for p
    using i s lens by (auto simp: nth_list_update)
  have lab': "?lb ! p = int (L (?ix ! p)) \<and> L (?ix ! p) < length cnts" if "f \<le> p" "p < f + ?n" for p
    using lab [OF that] lab [OF i] lab [OF s] unfolding swapAt by auto
  have done': "L (?ix ! p) = m" if m: "m < length cnts" "p \<in> stretch f cnts m" "p \<notin> freeOf f cnts ?c" for m p
  proof (cases "p = ?s")
    case True
    have "?s \<in> stretch f cnts ?l" using le l cl by (fastforce simp: stretch_def)
    then have "m = ?l" using stretch_disjoint [OF m(1) l m(2)] True by simp
    then show ?thesis using True unfolding swapAt by simp
  next
    case False
    then have "p \<notin> freeOf f cnts c" using m(3) less(1) by auto
    moreover then have "p \<noteq> ?i" using iF by blast
    ultimately show ?thesis using done_ok [OF m(1,2)] False unfolding swapAt by simp
  qed
  have cards': "card {p \<in> freeOf f cnts ?c. L (?ix ! p) = m} = ?c ! m" if m: "m < length cnts" for m
  proof -
    have "card {p \<in> freeOf f cnts ?c. L (?ix ! p) = m} = card ({p \<in> freeOf f cnts c. L (ix ! p) = m} - {?i})"
      unfolding less(1) by (rule card_exchange) (use finite_free less(2) iF i s lens in auto)
    also have "\<dots> = (if m = ?l then c ! m - 1 else c ! m)"
      using iF cards [OF m] finite_free [of f cnts c] by (auto simp: card_Diff_singleton_if)
    finally show ?thesis using m lens by (auto simp: nth_list_update)
  qed
  have "sh_inv f cnts L ix0 ?c (?ix, ?a)"
    unfolding sh_inv_def Let_def fst_conv snd_conv
  proof (intro conjI)
    show "mset ?ix = mset ix0" using i s lens ms by (simp add: mset_swap)
    show "\<forall>p < length ?ix. p \<notin> {f ..< f + ?n} \<longrightarrow> ?ix ! p = ix0 ! p"
    proof (intro allI impI)
      fix p assume p: "p < length ?ix" "p \<notin> {f ..< f + ?n}"
      then have "p \<noteq> ?s" "p \<noteq> ?i" using i s by auto
      then show "?ix ! p = ix0 ! p" using out [of p] p unfolding swapAt by simp
    qed
    show "\<forall>m < length cnts. ?c ! m \<le> cnts ! m"
    proof (intro allI impI)
      fix m assume "m < length cnts"
      then have "c ! m \<le> cnts ! m" using le by simp
      then show "?c ! m \<le> cnts ! m" using l lens by (cases "m = ?l") auto
    qed
    show "\<forall>m < length cnts. kaNewCounts ?a ! m = int (?c ! m)"
      using nc lens l cl by (auto simp: nth_list_update)
    show "\<forall>p \<in> {f ..< f + ?n}. kaLabel ?a ! p = int (L (?ix ! p)) \<and> L (?ix ! p) < length cnts" using lab' by simp
    show "\<forall>m < length cnts. \<forall>p \<in> stretch f cnts m. p \<notin> freeOf f cnts ?c \<longrightarrow> L (?ix ! p) = m" using done' by auto
    show "\<forall>m < length cnts. card {p \<in> freeOf f cnts ?c. L (?ix ! p) = m} = ?c ! m" using cards' by blast
  qed (use lens in simp_all)
  moreover have "sum_list ?c < sum_list c"
  proof -
    have "sum_list ?c + c ! ?l = sum_list c + (c ! ?l - 1)" using sum_list_update [of ?l c "c ! ?l - 1"] l lens
      elem_le_sum_list [of ?l c] by simp
    then show ?thesis using cl by simp
  qed
  moreover have "?c ! m \<le> c ! m" if "m < length cnts" for m using l lens by (cases "m = ?l") auto
  moreover have "sh_kept a ?a" by (cases a) (simp add: sh_kept_def)
  moreover have "\<forall>p < length ix. p \<notin> freeOf f cnts c \<longrightarrow> ?ix ! p = ix ! p"
    using less(2) iF unfolding swapAt by auto
  ultimately show ?thesis using st by blast
qed

section \<open>One cluster\<close>

lemma freeOf_nth_0: "c ! k = 0 \<Longrightarrow> \<forall>l < length cnts. c ! l \<le> cnts ! l \<Longrightarrow> k < length cnts \<Longrightarrow> p \<in> stretch f cnts k \<Longrightarrow> p \<notin> freeOf f cnts c"
  by (subst free_in_stretch) (auto simp: stretch_def)

lemma freeOf_mono: "\<forall>m < length cnts. c' ! m \<le> c ! m \<Longrightarrow> freeOf f cnts c' \<subseteq> freeOf f cnts c"
  by (fastforce simp: freeOf_def)

lemma sh_place_ok:
  assumes "sh_inv f cnts L ix0 c (ix, a)" "k < length cnts" "pos = sh_pos (int f) (map int cnts)" "sum_list c < fuel"
  shows "\<exists>c' ix' a'. sh_place fuel pos (int k) (int (startOf f cnts k)) (ix, a) = Ret (ix', a')
    \<and> sh_inv f cnts L ix0 c' (ix', a') \<and> c' ! k = 0 \<and> (\<forall>m < length cnts. c' ! m \<le> c ! m) \<and> sum_list c' \<le> sum_list c
    \<and> sh_kept a a' \<and> (\<forall>p < length ix. p \<notin> freeOf f cnts c \<longrightarrow> ix' ! p = ix ! p)"
  using assms
proof (induction fuel arbitrary: c ix a)
  case 0
  then show ?case by simp
next
  case (Suc n)
  have "length cnts \<le> length (kaNewCounts a)" "kaNewCounts a ! k = int (c ! k)"
    using Suc.prems(1,2) by (auto simp: sh_inv_def Let_def)
  then have at: "vecAt (kaNewCounts a) (int k) = Ret (int (c ! k))" using Suc.prems(2) by (simp add: vecAt_def)
  show ?case
  proof (cases "c ! k = 0")
    case True
    then show ?thesis using at Suc.prems(1) by (intro exI [of _ c]) (simp add: sh_kept_refl)
  next
    case False
    obtain c1 ix1 a1 where s: "sh_step pos (int (startOf f cnts k)) (ix, a) = Ret (ix1, a1)"
      "sh_inv f cnts L ix0 c1 (ix1, a1)" "sum_list c1 < sum_list c" "\<forall>m < length cnts. c1 ! m \<le> c ! m" "sh_kept a a1"
      "\<forall>p < length ix. p \<notin> freeOf f cnts c \<longrightarrow> ix1 ! p = ix ! p"
      using sh_step_ok [OF Suc.prems(1,2) _ Suc.prems(3)] False by blast
    have len: "length ix1 = length ix" using s(2) Suc.prems(1) by (simp add: sh_inv_def Let_def)
    obtain c2 ix2 a2 where p: "sh_place n pos (int k) (int (startOf f cnts k)) (ix1, a1) = Ret (ix2, a2)"
      "sh_inv f cnts L ix0 c2 (ix2, a2)" "c2 ! k = 0" "\<forall>m < length cnts. c2 ! m \<le> c1 ! m" "sum_list c2 \<le> sum_list c1"
      "sh_kept a1 a2" "\<forall>p < length ix1. p \<notin> freeOf f cnts c1 \<longrightarrow> ix2 ! p = ix1 ! p"
      using Suc.IH [OF s(2) Suc.prems(2,3)] s(3) Suc.prems(4) by auto
    have "\<forall>m < length cnts. c2 ! m \<le> c ! m" using s(4) p(4) by (auto intro: order_trans)
    moreover have "\<forall>p < length ix. p \<notin> freeOf f cnts c \<longrightarrow> ix2 ! p = ix ! p"
      using s(6) p(7) freeOf_mono [OF s(4), of f] len by (auto dest: subsetD)
    ultimately show ?thesis using at False s p sh_kept_trans [OF s(5) p(6)]
      by (intro exI [of _ c2] exI [of _ ix2] exI [of _ a2]) simp
  qed
qed

lemma sh_find_ok:
  assumes "q < length ix" "ix ! q = x" "i \<le> q" "q - i < fuel"
  shows "\<exists>j. sh_find fuel ix x (int i) = Ret (int j) \<and> i \<le> j \<and> j \<le> q \<and> ix ! j = x"
  using assms
proof (induction fuel arbitrary: i)
  case 0
  then show ?case by simp
next
  case (Suc n)
  have at: "vecAt ix (int i) = Ret (ix ! i)" using Suc.prems(1,3) by (simp add: vecAt_def)
  show ?case
  proof (cases "ix ! i = x")
    case True
    then show ?thesis using at Suc.prems by auto
  next
    case False
    then have "i < q" using Suc.prems by (cases "i = q") auto
    moreover have "q - Suc i < n" using \<open>i < q\<close> Suc.prems(4) by simp
    ultimately obtain j where "sh_find n ix x (int (Suc i)) = Ret (int j)" "Suc i \<le> j" "j \<le> q" "ix ! j = x"
      using Suc.IH [of "Suc i", OF Suc.prems(1,2)] by auto
    then show ?thesis using at False by (intro exI [of _ j]) (simp add: algebra_simps)
  qed
qed

text \<open>A swap inside a finished stretch keeps the invariant.\<close>

lemma sh_inv_swap:
  assumes I: "sh_inv f cnts L ix0 c (ix, a)" and k: "k < length cnts" "c ! k = 0"
    and p: "i \<in> stretch f cnts k" "j \<in> stretch f cnts k"
  shows "sh_inv f cnts L ix0 c (ix[i := ix ! j, j := ix ! i], a)"
proof -
  let ?n = "sum_list cnts"
  let ?ix = "ix[i := ix ! j, j := ix ! i]"
  note J = I [unfolded sh_inv_def Let_def fst_conv snd_conv]
  have le: "\<forall>l < length cnts. c ! l \<le> cnts ! l" and len: "f + ?n \<le> length ix" using J by auto
  have nf: "i \<notin> freeOf f cnts c" "j \<notin> freeOf f cnts c" using freeOf_nth_0 [OF k(2) le k(1)] p by auto
  have r: "f \<le> i" "i < f + ?n" "f \<le> j" "j < f + ?n"
    using p startOf_end [OF k(1), of f] startOf_ge [of f cnts k] by (auto simp: stretch_def)
  have L: "L (ix ! i) = k" "L (ix ! j) = k" using J k(1) p nf by auto
  have lab: "kaLabel a ! i = int k" "kaLabel a ! j = int k" using J r L by auto
  have same: "L (?ix ! q) = L (ix ! q)" for q
    using r len L by (cases "q = j"; cases "q = i") auto
  have other: "q \<notin> {i, j} \<Longrightarrow> ?ix ! q = ix ! q" for q by simp
  show ?thesis unfolding sh_inv_def Let_def fst_conv snd_conv same
  proof (intro conjI)
    show "mset ?ix = mset ix0" using J r len by (simp add: mset_swap)
    show "\<forall>q < length ?ix. q \<notin> {f ..< f + ?n} \<longrightarrow> ?ix ! q = ix0 ! q" using J r by auto
  qed (use J in simp_all)
qed

lemma stretch_of_member:
  assumes I: "sh_inv f cnts L ix0 c (ix, a)" and k: "k < length cnts" "c ! k = 0"
    and q: "f \<le> q" "q < f + sum_list cnts" "L (ix ! q) = k"
  shows "q \<in> stretch f cnts k"
proof -
  note J = I [unfolded sh_inv_def Let_def fst_conv snd_conv]
  have "card {p \<in> freeOf f cnts c. L (ix ! p) = k} = 0" using J k by simp
  then have nf: "q \<notin> freeOf f cnts c" using q(3) finite_free [of f cnts c] by auto
  obtain l where l: "l < length cnts" "q \<in> stretch f cnts l" using stretch_cover [OF q(1,2)] by blast
  then have "L (ix ! q) = l" using J nf by blast
  then show ?thesis using l q(3) by simp
qed

section \<open>All clusters\<close>

text \<open>The chosen member of every cluster with members is in the range, with that cluster.\<close>

definition sh_chosen :: "nat \<Rightarrow> nat list \<Rightarrow> (int \<Rightarrow> nat) \<Rightarrow> int list \<Rightarrow> int list \<Rightarrow> bool" where
  "sh_chosen f cnts L ix0 chosen \<longleftrightarrow> length cnts \<le> length chosen \<and> (\<forall>k < length cnts. 0 < cnts ! k \<longrightarrow>
     L (chosen ! k) = k \<and> (\<exists>q. f \<le> q \<and> q < f + sum_list cnts \<and> ix0 ! q = chosen ! k))"

lemma seg_mset:
  fixes ix ix0 :: "int list"
  assumes "mset ix = mset ix0" "\<forall>p < length ix. p \<notin> {f ..< f + n} \<longrightarrow> ix ! p = ix0 ! p" "f + n \<le> length ix"
  shows "take f ix = take f ix0" "drop (f + n) ix = drop (f + n) ix0" "mset (take n (drop f ix)) = mset (take n (drop f ix0))"
proof -
  have len: "length ix = length ix0" using assms(1) by (metis size_mset)
  show t: "take f ix = take f ix0" using assms(2,3) len by (intro nth_equalityI) auto
  show d: "drop (f + n) ix = drop (f + n) ix0" using assms(2,3) len by (intro nth_equalityI) auto
  have split: "xs = take f xs @ take n (drop f xs) @ drop (f + n) xs" for xs :: "int list"
    by (metis append_take_drop_id drop_drop add.commute)
  show "mset (take n (drop f ix)) = mset (take n (drop f ix0))"
    using assms(1) t d split [of ix] split [of ix0] by (metis add_left_cancel add_right_cancel mset_append)
qed

lemma member_stays:
  fixes ix ix0 :: "int list"
  assumes "mset ix = mset ix0" "\<forall>p < length ix. p \<notin> {f ..< f + n} \<longrightarrow> ix ! p = ix0 ! p" "f + n \<le> length ix"
    and q: "f \<le> q" "q < f + n" 
  shows "\<exists>p. f \<le> p \<and> p < f + n \<and> ix ! p = ix0 ! q"
proof -
  have len: "length ix = length ix0" using assms(1) by (metis size_mset)
  have s: "set (take n (drop f ix)) = set (take n (drop f ix0))" using seg_mset(3) [OF assms(1-3)] by (metis set_mset_mset)
  have "take n (drop f ix0) ! (q - f) = ix0 ! q" using q assms(3) len by simp
  moreover have "q - f < length (take n (drop f ix0))" using q assms(3) len by simp
  ultimately have "ix0 ! q \<in> set (take n (drop f ix))" unfolding s by (metis nth_mem)
  then obtain j where "j < n" "f + j < length ix" "ix ! (f + j) = ix0 ! q" using assms(3) by (auto simp: in_set_conv_nth)
  then show ?thesis by (intro exI [of _ "f + j"]) simp
qed

definition sh_last :: "nat \<Rightarrow> nat list \<Rightarrow> int list \<Rightarrow> int list \<Rightarrow> nat \<Rightarrow> bool" where
  "sh_last f cnts chosen ix k \<longleftrightarrow> 0 < cnts ! k \<longrightarrow> ix ! (startOf f cnts k + cnts ! k - 1) = chosen ! k"

lemma sh_cluster_ok:
  assumes I: "sh_inv f cnts L ix0 c (ix, a)" and k: "k < length cnts" and pos: "pos = sh_pos (int f) (map int cnts)"
    and ch: "sh_chosen f cnts L ix0 (kaClusterIdx a)" and cn: "kaCounts a = map int cnts"
    and fuel: "sum_list c < fuel" "sum_list cnts < fuel"
    and done0: "\<forall>m < k. c ! m = 0 \<and> sh_last f cnts (kaClusterIdx a) ix m"
  shows "\<exists>c' ix' a'. sh_cluster fuel pos k (ix, a) = Ret (ix', a') \<and> sh_inv f cnts L ix0 c' (ix', a') \<and> sh_kept a a'
    \<and> sum_list c' \<le> sum_list c \<and> (\<forall>m < Suc k. c' ! m = 0 \<and> sh_last f cnts (kaClusterIdx a) ix' m)"
proof (cases "cnts ! k = 0")
  case True
  have "c ! k \<le> cnts ! k" using I k by (auto simp: sh_inv_def Let_def)
  then have "c ! m = 0 \<and> sh_last f cnts (kaClusterIdx a) ix m" if "m < Suc k" for m
    using that done0 True by (cases "m = k") (auto simp: sh_last_def)
  moreover have "sh_cluster fuel pos k (ix, a) = Ret (ix, a)" using k True by (simp add: sh_cluster_def cn vecAt_def)
  ultimately show ?thesis using I by (intro exI [of _ c]) (simp add: sh_kept_refl)
next
  case False
  let ?n = "sum_list cnts"
  let ?p = "startOf f cnts k"
  let ?e = "?p + cnts ! k - 1"
  let ?x = "kaClusterIdx a ! k"
  obtain c1 ix1 a1 where p: "sh_place fuel pos (int k) (int ?p) (ix, a) = Ret (ix1, a1)"
    "sh_inv f cnts L ix0 c1 (ix1, a1)" "c1 ! k = 0" "\<forall>m < length cnts. c1 ! m \<le> c ! m" "sum_list c1 \<le> sum_list c"
    "sh_kept a a1" "\<forall>p < length ix. p \<notin> freeOf f cnts c \<longrightarrow> ix1 ! p = ix ! p"
    using sh_place_ok [OF I k pos fuel(1)] by blast
  note J = p(2) [unfolded sh_inv_def Let_def fst_conv snd_conv]
  have le: "\<forall>l < length cnts. c ! l \<le> cnts ! l" and len0: "length ix = length ix0"
    using I by (auto simp: sh_inv_def Let_def)
  have len: "f + ?n \<le> length ix1" "length ix1 = length ix0" using J by auto
  obtain q0 where "f \<le> q0" "q0 < f + ?n" "ix0 ! q0 = ?x" and Lx: "L ?x = k"
    using ch k False by (auto simp: sh_chosen_def)
  then obtain q where q: "f \<le> q" "q < f + ?n" "ix1 ! q = ?x"
    using member_stays [of ix1 ix0 f ?n q0] J by auto
  then have qs: "q \<in> stretch f cnts k" using stretch_of_member [OF p(2) k p(3)] Lx by simp
  have qr: "?p \<le> q" "q < ?p + cnts ! k" using qs by (auto simp: stretch_def)
  have end_ok: "?p + cnts ! k \<le> f + ?n" by (rule startOf_end [OF k])
  have qb: "q < length ix1" using q(2) len by simp
  have "cnts ! k \<le> ?n" using end_ok startOf_ge [of f cnts k] by simp
  then have qf: "q - ?p < fuel" using qr fuel(2) by simp
  obtain j where j: "sh_find fuel ix1 ?x (int ?p) = Ret (int j)" "?p \<le> j" "j \<le> q" "ix1 ! j = ?x"
    using sh_find_ok [OF qb q(3) qr(1) qf] by blast
  have js: "j \<in> stretch f cnts k" "?e \<in> stretch f cnts k" unfolding stretch_def atLeastLessThan_iff using j(2,3) qr False by linarith+
  let ?ix = "ix1[j := ix1 ! ?e, ?e := ix1 ! j]"
  have ei: "int ?p + int (cnts ! k) - 1 = int ?e" using False by simp
  have jl: "j < length ix1" "?e < length ix1" using j(2,3) qr end_ok len(1) False by linarith+
  have at: "vecAt (kaCounts a) (int k) = Ret (int (cnts ! k))" "vecAt pos (int k) = Ret (int ?p)"
    using k by (simp_all add: cn pos vecAt_def sh_pos_nth(1) sh_pos_startOf)
  have ax: "vecAt (kaClusterIdx a1) (int k) = Ret ?x" using ch k by (simp add: sh_keptD(7) [OF p(6)] vecAt_def sh_chosen_def)
  have sw: "vecSwap ix1 (int j) (int ?e) = Ret ?ix" using jl by (simp add: vecSwap_ok)
  have "int (cnts ! k) \<noteq> 0" using False by simp
  then have run: "sh_cluster fuel pos k (ix, a) = Ret (?ix, a1)"
    by (simp only: sh_cluster_def snd_conv at andThen.simps if_False p(1) prod.case ax j(1) ei sw)
  have inv: "sh_inv f cnts L ix0 c1 (?ix, a1)" by (rule sh_inv_swap [OF p(2) k p(3) js])
  have fin: "c1 ! m = 0 \<and> sh_last f cnts (kaClusterIdx a) ?ix m" if m: "m < Suc k" for m
  proof (cases "m = k")
    case True
    then show ?thesis using p(3) j(4) jl by (simp add: sh_last_def)
  next
    case False
    then have mk: "m < k" "m < length cnts" using m k by auto
    then have c0: "c ! m = 0" and l0: "sh_last f cnts (kaClusterIdx a) ix m" using done0 by auto
    have "ix ! z = ?ix ! z" if z: "z \<in> stretch f cnts m" for z
    proof -
      have "z \<notin> freeOf f cnts c" by (rule freeOf_nth_0 [OF c0 le mk(2) z])
      moreover have "z < length ix" using z startOf_end [OF mk(2), of f] len len0 by (auto simp: stretch_def)
      moreover have "z \<noteq> j" "z \<noteq> ?e" using js stretch_disjoint [OF mk(2) k z] mk(1) by auto
      ultimately show ?thesis using p(7) by simp
    qed
    then have "sh_last f cnts (kaClusterIdx a) ?ix m" using l0 by (auto simp: sh_last_def stretch_def)
    moreover have "c1 ! m = 0" using p(4) mk(2) c0 by (metis le_zero_eq)
    ultimately show ?thesis by blast
  qed
  show ?thesis using run inv fin p(5,6) by blast
qed

text \<open>What \<open>Shuffle\<close> makes of the range: the same ids, every cluster in its stretch, its chosen member last.\<close>

definition shuffled :: "nat \<Rightarrow> nat list \<Rightarrow> (int \<Rightarrow> nat) \<Rightarrow> int list \<Rightarrow> int list \<Rightarrow> int list \<Rightarrow> bool" where
  "shuffled f cnts L chosen ix ix' \<longleftrightarrow> mset ix' = mset ix
     \<and> (\<forall>p < length ix. p \<notin> {f ..< f + sum_list cnts} \<longrightarrow> ix' ! p = ix ! p)
     \<and> (\<forall>k < length cnts. (\<forall>p \<in> stretch f cnts k. L (ix' ! p) = k) \<and> sh_last f cnts chosen ix' k)"

lemma Shuffle_ok:
  assumes K: "length cnts = kaK a" "kaCounts a = map int cnts" "take (kaK a) (kaNewCounts a) = map int cnts"
    and len: "f + sum_list cnts \<le> length ix" "f + sum_list cnts \<le> length (kaLabel a)"
    and lab: "\<And>p. f \<le> p \<Longrightarrow> p < f + sum_list cnts \<Longrightarrow> kaLabel a ! p = int (L (ix ! p)) \<and> L (ix ! p) < length cnts"
    and hist: "\<And>l. l < length cnts \<Longrightarrow> card {p \<in> {f ..< f + sum_list cnts}. L (ix ! p) = l} = cnts ! l"
    and ch: "sh_chosen f cnts L ix (kaClusterIdx a)" and fuel: "sum_list cnts < fuel"
  shows "\<exists>ix' a'. ka_Shuffle fuel ix (int f) stop a = Ret (ix', a') \<and> sh_kept a a'
    \<and> shuffled f cnts L (kaClusterIdx a) ix ix'"
proof -
  let ?n = "sum_list cnts"
  let ?pos = "sh_pos (int f) (map int cnts)"
  have free: "freeOf f cnts cnts = {f ..< f + ?n}"
  proof
    show "freeOf f cnts cnts \<subseteq> {f ..< f + ?n}" by (rule freeOf_sub) simp_all
    show "{f ..< f + ?n} \<subseteq> freeOf f cnts cnts"
    proof
      fix p assume "p \<in> {f ..< f + ?n}"
      then obtain l where "l < length cnts" "p \<in> stretch f cnts l" using stretch_cover [of f p cnts] by auto
      then show "p \<in> freeOf f cnts cnts" by (auto simp: freeOf_def stretch_def)
    qed
  qed
  have lnc: "length cnts \<le> length (kaNewCounts a)" using K by (metis length_map length_take min.cobounded1)
  have nc: "kaNewCounts a ! l = int (cnts ! l)" if "l < length cnts" for l
    using K that by (metis length_map nth_map nth_take)
  have inside: "p \<in> {f ..< f + ?n}" if "l < length cnts" "p \<in> stretch f cnts l" for l p
    using that startOf_end [of l cnts f] startOf_ge [of f cnts l] by (auto simp: stretch_def)
  have I0: "sh_inv f cnts L ix cnts (ix, a)"
    unfolding sh_inv_def Let_def fst_conv snd_conv free using len lab hist lnc nc inside by auto
  have "\<exists>s'. loopOver (sh_cluster fuel ?pos) [0 ..< kaK a] (ix, a) = Ret s' \<and>
    (\<exists>c' ix' a'. s' = (ix', a') \<and> sh_inv f cnts L ix c' (ix', a') \<and> sh_kept a a' \<and> sum_list c' \<le> ?n
      \<and> (\<forall>m < length [0 ..< kaK a]. c' ! m = 0 \<and> sh_last f cnts (kaClusterIdx a) ix' m))"
  proof (rule loopOver_inv [where I = "\<lambda>done s'. \<exists>c' ix' a'. s' = (ix', a') \<and> sh_inv f cnts L ix c' (ix', a')
      \<and> sh_kept a a' \<and> sum_list c' \<le> ?n \<and> (\<forall>m < length done. c' ! m = 0 \<and> sh_last f cnts (kaClusterIdx a) ix' m)"])
    show "\<exists>c' ix' a'. (ix, a) = (ix', a') \<and> sh_inv f cnts L ix c' (ix', a') \<and> sh_kept a a' \<and> sum_list c' \<le> ?n
      \<and> (\<forall>m < length []. c' ! m = 0 \<and> sh_last f cnts (kaClusterIdx a) ix' m)"
      using I0 sh_kept_refl by auto
  next
    fix prev k rest s
    assume split: "[0 ..< kaK a] = prev @ k # rest" and "\<exists>c' ix' a'. s = (ix', a') \<and> sh_inv f cnts L ix c' (ix', a')
      \<and> sh_kept a a' \<and> sum_list c' \<le> ?n \<and> (\<forall>m < length prev. c' ! m = 0 \<and> sh_last f cnts (kaClusterIdx a) ix' m)"
    then obtain c1 ix1 a1 where s: "s = (ix1, a1)" "sh_inv f cnts L ix c1 (ix1, a1)" "sh_kept a a1" "sum_list c1 \<le> ?n"
      "\<forall>m < length prev. c1 ! m = 0 \<and> sh_last f cnts (kaClusterIdx a) ix1 m" by blast
    have "length prev < kaK a" using arg_cong [OF split, of length] by simp
    then have k: "k = length prev" "k < length cnts" using arg_cong [OF split, of "\<lambda>xs. xs ! length prev"] K(1) by simp_all
    note frame = sh_keptD [OF s(3)]
    obtain c2 ix2 a2 where "sh_cluster fuel ?pos k (ix1, a1) = Ret (ix2, a2)" "sh_inv f cnts L ix c2 (ix2, a2)" "sh_kept a1 a2"
      "sum_list c2 \<le> sum_list c1" "\<forall>m < Suc k. c2 ! m = 0 \<and> sh_last f cnts (kaClusterIdx a1) ix2 m"
      using sh_cluster_ok [OF s(2) k(2) refl, of fuel] ch K(2) fuel s(4,5) k(1) frame by auto
    then show "\<exists>s'. sh_cluster fuel ?pos k s = Ret s' \<and> (\<exists>c' ix' a'. s' = (ix', a') \<and> sh_inv f cnts L ix c' (ix', a')
      \<and> sh_kept a a' \<and> sum_list c' \<le> ?n \<and> (\<forall>m < length (prev @ [k]). c' ! m = 0 \<and> sh_last f cnts (kaClusterIdx a) ix' m))"
      using s(1,4) sh_kept_trans [OF s(3)] k(1) frame(7) by (auto intro: order_trans)
  qed
  then obtain c' ix' a' where r: "loopOver (sh_cluster fuel ?pos) [0 ..< kaK a] (ix, a) = Ret (ix', a')"
    "sh_inv f cnts L ix c' (ix', a')" "sh_kept a a'" "\<forall>m < length cnts. c' ! m = 0 \<and> sh_last f cnts (kaClusterIdx a) ix' m"
    using K(1) by auto
  have le: "\<forall>l < length cnts. c' ! l \<le> cnts ! l" using r(2) by (auto simp: sh_inv_def Let_def)
  have "L (ix' ! p) = k" if "k < length cnts" "p \<in> stretch f cnts k" for k p
    using r(2) that freeOf_nth_0 [OF _ le that(1,2)] r(4) by (auto simp: sh_inv_def Let_def)
  then have "shuffled f cnts L (kaClusterIdx a) ix ix'"
    using r(2,4) by (auto simp: shuffled_def sh_inv_def Let_def)
  then show ?thesis using r(1,3) K(3) by (auto simp: ka_Shuffle_def Let_def)
qed

end
