(* ===== verification/KAssign.thy ===== *)
theory KAssign
  imports KMeans
begin

text \<open>
  What \<open>KmeansAssign\<close> computes, for any number of threads: the label of every point of its range is its nearest centre,
  the counters are the histogram of the labels, and every cluster with members has one of them chosen, the farthest while
  the centres are being refined and the nearest otherwise.
\<close>

section \<open>The arrays and their slots\<close>

definition ka_shape :: "nat \<Rightarrow> ('v, 'a, 'f) kmArgs \<Rightarrow> bool" where
  "ka_shape N a \<longleftrightarrow> 0 < kaT a \<and> 0 < kaDK a \<and> kaDK a \<le> kaK a \<and> length (kaCenters a) = kaK a
     \<and> length (kaNewTCenters a) = kaK a \<and> length (kaCounts a) = kaK a \<and> length (kaNewCenters a) = kaT a * kaK a
     \<and> length (kaNewCounts a) = kaT a * kaK a \<and> length (kaLabel a) = N \<and> length (kaClusterIdx a) = kaT a * kaK a
     \<and> length (kaClusterDist a) = kaT a * kaK a \<and> length (kaNewWeighted a) = kaT a * kaK a"

text \<open>The fields an assignment reads and does not change.\<close>

definition ka_same :: "('v, 'a, 'f) kmArgs \<Rightarrow> ('v, 'a, 'f) kmArgs \<Rightarrow> bool" where
  "ka_same a a' \<longleftrightarrow> kaK a' = kaK a \<and> kaDK a' = kaDK a \<and> kaT a' = kaT a \<and> kaCenters a' = kaCenters a
     \<and> kaNewTCenters a' = kaNewTCenters a \<and> kaCounts a' = kaCounts a"

lemma ka_same_refl: "ka_same a a"
  by (simp add: ka_same_def)

lemma ka_same_trans: "ka_same a b \<Longrightarrow> ka_same b d \<Longrightarrow> ka_same a d"
  by (simp add: ka_same_def)

lemma slot_bound: "t < T \<Longrightarrow> k < K \<Longrightarrow> t * K + k < T * (K :: nat)"
proof -
  assume "t < T" "k < K"
  then have "t * K + k < Suc t * K" by simp
  also have "\<dots> \<le> T * K" using \<open>t < T\<close> by (intro mult_right_mono) auto
  finally show ?thesis .
qed

lemma slot_inj: "k < K \<Longrightarrow> k' < K \<Longrightarrow> t * K + k = t' * K + k' \<longleftrightarrow> t = t' \<and> k = (k' :: nat)"
proof
  assume b: "k < K" "k' < K" and e: "t * K + k = t' * K + k'"
  from b have "(t * K + k) div K = t" "(t' * K + k') div K = t'" "(t * K + k) mod K = k" "(t' * K + k') mod K = k'" by simp_all
  then show "t = t' \<and> k = k'" using e by metis
qed auto

text \<open>The members of each slot, and what the arrays say of them.\<close>

definition counts_ok :: "('v, 'a, 'f) kmArgs \<Rightarrow> (nat \<Rightarrow> nat \<Rightarrow> int list) \<Rightarrow> bool" where
  "counts_ok a M \<longleftrightarrow> (\<forall>t < kaT a. \<forall>k < kaK a. kaNewCounts a ! (t * kaK a + k) = int (length (M t k)))"

definition better :: "bool \<Rightarrow> 'f :: linorder \<Rightarrow> 'f \<Rightarrow> bool" where
  "better updateCenters x y \<longleftrightarrow> (if updateCenters then y \<le> x else x \<le> y)"

definition chosen_ok :: "bool \<Rightarrow> 'f :: linorder \<Rightarrow> (int \<Rightarrow> 'f) \<Rightarrow> int list \<Rightarrow> int \<Rightarrow> 'f \<Rightarrow> bool" where
  "chosen_ok updateCenters d0 S xs idx dist \<longleftrightarrow>
     (if xs = [] then idx = - 1 \<and> dist = d0
      else idx \<in> set xs \<and> dist = S idx \<and> (\<forall>x \<in> set xs. better updateCenters dist (S x)))"

definition members_ok :: "bool \<Rightarrow> 'f :: linorder \<Rightarrow> (int \<Rightarrow> 'f) \<Rightarrow> ('v, 'a, 'f) kmArgs \<Rightarrow> (nat \<Rightarrow> nat \<Rightarrow> int list) \<Rightarrow> bool" where
  "members_ok u d0 S a M \<longleftrightarrow> (\<forall>t < kaT a. \<forall>k < kaK a.
     chosen_ok u d0 S (M t k) (kaClusterIdx a ! (t * kaK a + k)) (kaClusterDist a ! (t * kaK a + k)))"

definition addM :: "(nat \<Rightarrow> nat \<Rightarrow> int list) \<Rightarrow> nat \<Rightarrow> nat \<Rightarrow> int list \<Rightarrow> nat \<Rightarrow> nat \<Rightarrow> int list" where
  "addM M t k xs = M(t := (M t)(k := M t k @ xs))"

lemma addM_apply: "addM M t k xs t' k' = (if t' = t \<and> k' = k then M t k @ xs else M t' k')"
  by (simp add: addM_def)

lemma better_trans: "better u x y \<Longrightarrow> better u y z \<Longrightarrow> better u x z"
  by (auto simp: better_def split: if_splits)

lemma better_refl: "better u x x"
  by (simp add: better_def)

lemma better_total: "better u x y \<or> better u y x"
  by (auto simp: better_def)

text \<open>\<open>hit\<close> is the test of the code: strictly farther while refining, at most as far otherwise.\<close>

definition hits :: "bool \<Rightarrow> 'f :: linorder \<Rightarrow> 'f \<Rightarrow> bool" where
  "hits u d x \<longleftrightarrow> (if u then d < x else x \<le> d)"

lemma hits_better: "hits u d x \<Longrightarrow> better u x d" "\<not> hits u d x \<Longrightarrow> better u d x"
  by (auto simp: hits_def better_def split: if_splits)

lemma chosen_add:
  assumes "chosen_ok u d0 S xs idx d" "hits u d0 (S x)"
  shows "chosen_ok u d0 S (xs @ [x]) (if hits u d (S x) then x else idx) (if hits u d (S x) then S x else d)"
  using assms hits_better [of u d "S x"] better_refl [of u "S x"] better_trans [of u "S x" d]
  by (auto simp: chosen_ok_def split: if_splits)

lemma chosen_merge:
  assumes "chosen_ok u d0 S xs idx d" "chosen_ok u d0 S ys idx' d'" "\<forall>y \<in> set ys. hits u d0 (S y) \<and> y \<noteq> - 1"
  shows "chosen_ok u d0 S (xs @ ys) (if idx' \<noteq> - 1 \<and> hits u d d' then idx' else idx) (if idx' \<noteq> - 1 \<and> hits u d d' then d' else d)"
proof (cases "ys = []")
  case True
  then show ?thesis using assms by (simp add: chosen_ok_def)
next
  case False
  then have y: "idx' \<in> set ys" "d' = S idx'" "\<forall>x \<in> set ys. better u d' (S x)" using assms(2) by (auto simp: chosen_ok_def)
  then have h: "idx' \<noteq> - 1" "hits u d0 d'" using assms(3) by auto
  show ?thesis
  proof (cases "hits u d d'")
    case True
    have "better u d' (S x)" if "x \<in> set xs" for x
      using assms(1) that hits_better(1) [OF True] by (auto simp: chosen_ok_def split: if_splits intro: better_trans)
    then show ?thesis using True h y False by (auto simp: chosen_ok_def)
  next
    case nh: False
    then have "xs \<noteq> []" using assms(1) h by (auto simp: chosen_ok_def)
    moreover have "better u d (S x)" if "x \<in> set ys" for x using y(3) that hits_better(2) [OF nh] better_trans by blast
    ultimately show ?thesis using nh assms(1) by (auto simp: chosen_ok_def)
  qed
qed

section \<open>One point\<close>

definition penalised :: "('r, 'v, 'a, 'f :: linorder) kmEnv \<Rightarrow> ('v, 'a, 'f) kmArgs \<Rightarrow> 'f \<Rightarrow> 'v \<Rightarrow> nat \<Rightarrow> 'f" where
  "penalised e a lambda v k = kmAdd e (kmDist e v (kaCenters a ! k)) (kmMul e lambda (kmOfInt e (kaCounts a ! k)))"

lemma km_nearest_ok:
  assumes sh: "ka_shape N a" and mm: "kmMinDist e < kmMaxDist e"
  shows "\<exists>k d. km_nearest e a lambda v = Ret (int k, d) \<and> k < kaDK a \<and> kmMinDist e < d \<and> d \<le> kmMaxDist e
    \<and> (\<forall>j < kaDK a. kmMinDist e < penalised e a lambda v j \<longrightarrow> d \<le> penalised e a lambda v j)
    \<and> (d = kmMaxDist e \<or> d = penalised e a lambda v k)"
proof -
  let ?P = "penalised e a lambda v"
  let ?I = "\<lambda>prev s. \<exists>k d. s = (int k, d) \<and> k < kaDK a \<and> kmMinDist e < d \<and> d \<le> kmMaxDist e
    \<and> (\<forall>j \<in> set prev. kmMinDist e < ?P j \<longrightarrow> d \<le> ?P j) \<and> (d = kmMaxDist e \<or> d = ?P k)"
  have "\<exists>s'. loopOver (km_pick e a lambda v) [0 ..< kaDK a] (0, kmMaxDist e) = Ret s' \<and> ?I [0 ..< kaDK a] s'"
  proof (rule loopOver_inv [where I = ?I])
    show "?I [] (0, kmMaxDist e)" using sh mm by (intro exI [of _ 0] exI [of _ "kmMaxDist e"]) (simp add: ka_shape_def)
  next
    fix prev k rest s
    assume "[0 ..< kaDK a] = prev @ k # rest" "?I prev s"
    then have "k \<in> set [0 ..< kaDK a]" by simp
    then have k: "k < kaDK a" "k < kaK a" using sh by (auto simp: ka_shape_def)
    have at: "vecAt (kaCenters a) (int k) = Ret (kaCenters a ! k)" "vecAt (kaCounts a) (int k) = Ret (kaCounts a ! k)"
      using k sh by (simp_all add: vecAt_def ka_shape_def)
    obtain c d where s: "s = (int c, d)" "c < kaDK a" "kmMinDist e < d" "d \<le> kmMaxDist e"
      "\<forall>j \<in> set prev. kmMinDist e < ?P j \<longrightarrow> d \<le> ?P j" "d = kmMaxDist e \<or> d = ?P c" using \<open>?I prev s\<close> by blast
    have "km_pick e a lambda v k s = Ret (if kmMinDist e < ?P k \<and> ?P k < d then (int k, ?P k) else (int c, d))"
      by (simp add: km_pick_def at s(1) Let_def penalised_def)
    moreover have "?I (prev @ [k]) (if kmMinDist e < ?P k \<and> ?P k < d then (int k, ?P k) else (int c, d))"
    proof (cases "kmMinDist e < ?P k \<and> ?P k < d")
      case True
      then show ?thesis using s k by (intro exI [of _ k] exI [of _ "?P k"]) fastforce
    next
      case False
      then show ?thesis using s by (intro exI [of _ c] exI [of _ d]) auto
    qed
    ultimately show "\<exists>s'. km_pick e a lambda v k s = Ret s' \<and> ?I (prev @ [k]) s'" by blast
  qed
  then show ?thesis unfolding km_nearest_def by auto
qed

definition pickOf :: "('r, 'v, 'a, 'f :: linorder) kmEnv \<Rightarrow> ('v, 'a, 'f) kmArgs \<Rightarrow> 'f \<Rightarrow> 'v \<Rightarrow> nat" where
  "pickOf e a lambda v = (case km_nearest e a lambda v of Ret p \<Rightarrow> nat (fst p) | _ \<Rightarrow> 0)"

definition pickDist :: "('r, 'v, 'a, 'f :: linorder) kmEnv \<Rightarrow> ('v, 'a, 'f) kmArgs \<Rightarrow> 'f \<Rightarrow> 'v \<Rightarrow> 'f" where
  "pickDist e a lambda v = (case km_nearest e a lambda v of Ret p \<Rightarrow> snd p | _ \<Rightarrow> kmMaxDist e)"

lemma pick_ok:
  assumes "ka_shape N a" "kmMinDist e < kmMaxDist e"
  shows "km_nearest e a lambda v = Ret (int (pickOf e a lambda v), pickDist e a lambda v)" "pickOf e a lambda v < kaDK a"
    "kmMinDist e < pickDist e a lambda v" "pickDist e a lambda v \<le> kmMaxDist e"
    "j < kaDK a \<Longrightarrow> kmMinDist e < penalised e a lambda v j \<Longrightarrow> pickDist e a lambda v \<le> penalised e a lambda v j"
  using km_nearest_ok [OF assms, of lambda v] by (auto simp: pickOf_def pickDist_def)

lemma pick_same:
  assumes "ka_same a a'"
  shows "km_nearest e a' lambda v = km_nearest e a lambda v" "pickOf e a' lambda v = pickOf e a lambda v"
    "pickDist e a' lambda v = pickDist e a lambda v"
proof -
  have "km_pick e a' lambda v = km_pick e a lambda v" using assms by (intro ext) (simp add: km_pick_def ka_same_def)
  then show *: "km_nearest e a' lambda v = km_nearest e a lambda v" using assms by (simp add: km_nearest_def ka_same_def)
  show "pickOf e a' lambda v = pickOf e a lambda v" "pickDist e a' lambda v = pickDist e a lambda v"
    by (simp_all add: pickOf_def pickDist_def *)
qed

text \<open>The state of the arrays while the slices are read; \<open>done_pos\<close> are the positions that have a label.\<close>

definition assigning ::
  "bool \<Rightarrow> 'f :: linorder \<Rightarrow> (int \<Rightarrow> nat) \<Rightarrow> (int \<Rightarrow> 'f) \<Rightarrow> nat \<Rightarrow> int list \<Rightarrow> ('v, 'a, 'f) kmArgs \<Rightarrow> ('v, 'a, 'f) kmArgs
     \<Rightarrow> (nat \<Rightarrow> nat \<Rightarrow> int list) \<Rightarrow> int set \<Rightarrow> bool" where
  "assigning u d0 L S N ix a0 a M ps \<longleftrightarrow> ka_shape N a \<and> ka_same a0 a \<and> counts_ok a M \<and> members_ok u d0 S a M
     \<and> (\<forall>i \<in> ps. kaLabel a ! nat i = int (L (ix ! nat i)))"

lemma km_point_ok:
  assumes A: "assigning u d0 L S N ix a0 a M ps" and t: "t < kaT a0" and i: "0 \<le> i" "i < int (length ix)" "i < int N"
    and x: "x = ix ! nat i" and v: "data x = Ret v"
    and near: "km_nearest e a0 lambda v = Ret (int (L x), S x)" "L x < kaDK a0" "hits u d0 (S x)"
  shows "\<exists>a' d'. km_point e data ix u lambda t i (a, d) = Ret (a', d')
    \<and> assigning u d0 L S N ix a0 a' (addM M t (L x) [x]) (insert i ps)"
proof -
  note D = A [unfolded assigning_def]
  have sh: "ka_shape N a" and sm: "ka_same a0 a" and cn: "counts_ok a M" and mb: "members_ok u d0 S a M" using D by auto
  have K: "kaK a = kaK a0" "kaT a = kaT a0" "kaDK a = kaDK a0" using sm by (simp_all add: ka_same_def)
  have L: "L x < kaK a" using near(2) sh K by (simp add: ka_shape_def)
  let ?j = "t * kaK a + L x"
  have j: "?j < kaT a * kaK a" using slot_bound t L K by simp
  have js: "int (t * kaK a) + int (L x) = int ?j" by simp
  have lens: "length (kaNewCounts a) = kaT a * kaK a" "length (kaNewWeighted a) = kaT a * kaK a"
    "length (kaNewCenters a) = kaT a * kaK a" "length (kaClusterDist a) = kaT a * kaK a"
    "length (kaClusterIdx a) = kaT a * kaK a" "length (kaLabel a) = N" using sh by (simp_all add: ka_shape_def)
  let ?h = "hits u (kaClusterDist a ! ?j) (S x)"
  let ?a = "a\<lparr>kaLabel := (kaLabel a)[nat i := int (L x)], kaNewCounts := (kaNewCounts a)[?j := kaNewCounts a ! ?j + 1],
    kaNewWeighted := (kaNewWeighted a)[?j := kmAdd e (kaNewWeighted a ! ?j) (S x)],
    kaNewCenters := (if u then (kaNewCenters a)[?j := kmSumAdd e (kaNewCenters a ! ?j) v] else kaNewCenters a),
    kaClusterDist := (if ?h then (kaClusterDist a)[?j := S x] else kaClusterDist a),
    kaClusterIdx := (if ?h then (kaClusterIdx a)[?j := x] else kaClusterIdx a)\<rparr>"
  have near': "km_nearest e a lambda v = Ret (int (L x), S x)" using near(1) by (simp add: pick_same(1) [OF sm])
  have at: "vecAt ix i = Ret x" using i x by (simp add: vecAt_def)
  have st: "vecSet (kaLabel a) i (int (L x)) = Ret ((kaLabel a)[nat i := int (L x)])" using i lens by (simp add: vecSet_def)
  have run: "km_point e data ix u lambda t i (a, d) = Ret (?a, kmAdd e d (S x))"
  proof (cases "hits u (kaClusterDist a ! ?j) (S x)")
    case True
    then show ?thesis unfolding km_point_def prod.case at andThen.simps v near' Let_def js
      using st j lens by (cases u) (simp_all add: vecUpd_nat vecAt_nat vecSet_nat hits_def del: of_nat_add of_nat_mult)
  next
    case False
    then show ?thesis unfolding km_point_def prod.case at andThen.simps v near' Let_def js
      using st j lens by (cases u) (simp_all add: vecUpd_nat vecAt_nat vecSet_nat hits_def del: of_nat_add of_nat_mult)
  qed
  have new: "ka_shape N ?a" "ka_same a0 ?a" using sh sm by (auto simp: ka_shape_def ka_same_def)
  have other: "t' * kaK a + k = ?j \<longleftrightarrow> t' = t \<and> k = L x" if "k < kaK a" for t' k
    using slot_inj [OF that L] by blast
  have "counts_ok ?a (addM M t (L x) [x])"
    unfolding counts_ok_def
  proof (intro allI impI)
    fix t' k assume "t' < kaT ?a" "k < kaK ?a"
    then have b: "t' < kaT a" "k < kaK a" by simp_all
    then show "kaNewCounts ?a ! (t' * kaK ?a + k) = int (length (addM M t (L x) [x] t' k))"
      using cn other [OF b(2), of t'] j lens by (auto simp: counts_ok_def addM_apply nth_list_update)
  qed
  moreover have "members_ok u d0 S ?a (addM M t (L x) [x])"
    unfolding members_ok_def
  proof (intro allI impI)
    fix t' k assume "t' < kaT ?a" "k < kaK ?a"
    then have b: "t' < kaT a" "k < kaK a" by simp_all
    have old: "chosen_ok u d0 S (M t' k) (kaClusterIdx a ! (t' * kaK a + k)) (kaClusterDist a ! (t' * kaK a + k))"
      using mb b by (simp add: members_ok_def)
    show "chosen_ok u d0 S (addM M t (L x) [x] t' k) (kaClusterIdx ?a ! (t' * kaK ?a + k)) (kaClusterDist ?a ! (t' * kaK ?a + k))"
    proof (cases "t' = t \<and> k = L x")
      case True
      then show ?thesis using chosen_add [OF old near(3)] j lens by (auto simp: addM_apply)
    next
      case False
      then have ne: "?j \<noteq> t' * kaK a + k" using other [OF b(2), of t'] by auto
      have "kaClusterIdx ?a ! (t' * kaK ?a + k) = kaClusterIdx a ! (t' * kaK a + k)"
        "kaClusterDist ?a ! (t' * kaK ?a + k) = kaClusterDist a ! (t' * kaK a + k)"
        by (cases ?h; simp add: nth_list_update_neq [OF ne])+
      then show ?thesis using old by (simp only: addM_apply if_not_P [OF False])
    qed
  qed
  moreover have "\<forall>q \<in> insert i ps. kaLabel ?a ! nat q = int (L (ix ! nat q))"
  proof
    fix q assume "q \<in> insert i ps"
    then show "kaLabel ?a ! nat q = int (L (ix ! nat q))"
      using D i lens(6) x by (cases "nat q = nat i") auto
  qed
  ultimately show ?thesis using run new unfolding assigning_def by blast
qed

section \<open>The slices\<close>

definition membersIn :: "(int \<Rightarrow> nat) \<Rightarrow> int list \<Rightarrow> int list \<Rightarrow> nat \<Rightarrow> int list" where
  "membersIn L ix is k = filter (\<lambda>x. L x = k) (map (\<lambda>i. ix ! nat i) is)"

lemma membersIn_append: "membersIn L ix (xs @ ys) k = membersIn L ix xs k @ membersIn L ix ys k"
  by (simp add: membersIn_def)

lemma membersIn_concat: "membersIn L ix (concat xss) k = concat (map (\<lambda>xs. membersIn L ix xs k) xss)"
  by (induction xss) (simp_all add: membersIn_append, simp add: membersIn_def)

text \<open>What the code relies on at the positions \<open>is\<close>: they are in the arrays, the data has them, and their nearest centre is known.\<close>

definition points_ok ::
  "('r, 'v, 'a, 'f :: linorder) kmEnv \<Rightarrow> (int \<Rightarrow> 'v outcome) \<Rightarrow> int list \<Rightarrow> nat \<Rightarrow> ('v, 'a, 'f) kmArgs \<Rightarrow> bool \<Rightarrow> 'f \<Rightarrow> 'f
     \<Rightarrow> (int \<Rightarrow> nat) \<Rightarrow> (int \<Rightarrow> 'f) \<Rightarrow> int set \<Rightarrow> bool" where
  "points_ok e data ix N a0 u lambda d0 L S is \<longleftrightarrow> (\<forall>i \<in> is. 0 \<le> i \<and> i < int (length ix) \<and> i < int N
     \<and> ix ! nat i \<noteq> - 1 \<and> (\<exists>v. data (ix ! nat i) = Ret v \<and> km_nearest e a0 lambda v = Ret (int (L (ix ! nat i)), S (ix ! nat i)))
     \<and> L (ix ! nat i) < kaDK a0 \<and> hits u d0 (S (ix ! nat i)))"

lemma km_points_ok:
  fixes e :: "('r, 'v, 'a, 'f :: linorder) kmEnv"
  assumes A: "assigning u d0 L S N ix a0 a M ps" and t: "t < kaT a0"
    and P: "points_ok e data ix N a0 u lambda d0 L S (set is)"
  shows "\<exists>a' d'. loopOver (km_point e data ix u lambda t) is (a, d) = Ret (a', d')
    \<and> assigning u d0 L S N ix a0 a' (\<lambda>t' k. if t' = t then M t k @ membersIn L ix is k else M t' k) (set is \<union> ps)"
proof -
  let ?M = "\<lambda>is t' k. if t' = t then M t k @ membersIn L ix is k else M t' k"
  have "\<exists>s'. loopOver (km_point e data ix u lambda t) is (a, d) = Ret s' \<and> assigning u d0 L S N ix a0 (fst s') (?M is) (set is \<union> ps)"
  proof (rule loopOver_inv [where I = "\<lambda>is s. assigning u d0 L S N ix a0 (fst s) (?M is) (set is \<union> ps)"])
    have "?M [] = M" by (intro ext) (simp add: membersIn_def)
    then show "assigning u d0 L S N ix a0 (fst (a, d)) (?M []) (set [] \<union> ps)" using A by simp
  next
    fix prev i rest and s :: "('v, 'a, 'f) kmArgs \<times> 'f"
    assume split: "is = prev @ i # rest" and "assigning u d0 L S N ix a0 (fst s) (?M prev) (set prev \<union> ps)"
    then have I: "assigning u d0 L S N ix a0 (fst s) (?M prev) (set prev \<union> ps)" by simp
    let ?x = "ix ! nat i"
    obtain v where i: "0 \<le> i" "i < int (length ix)" "i < int N" "data ?x = Ret v" "km_nearest e a0 lambda v = Ret (int (L ?x), S ?x)"
      "L ?x < kaDK a0" "hits u d0 (S ?x)" using P split by (auto simp: points_ok_def)
    have "?M (prev @ [i]) = addM (?M prev) t (L ?x) [?x]"
      by (intro ext) (simp add: addM_apply membersIn_append, simp add: membersIn_def)
    then show "\<exists>s'. km_point e data ix u lambda t i s = Ret s'
        \<and> assigning u d0 L S N ix a0 (fst s') (?M (prev @ [i])) (set (prev @ [i]) \<union> ps)"
      using km_point_ok [where L = L and S = S and data = data and x = ?x, OF I t i(1-3) refl [of ?x] i(4-7), of "snd s"] by auto
  qed
  then show ?thesis by force
qed

definition sliceOf :: "int \<Rightarrow> int \<Rightarrow> int \<Rightarrow> nat \<Rightarrow> int list" where
  "sliceOf first stop subsize t = [first + int t * subsize .. min (first + (int t + 1) * subsize) stop - 1]"

lemma upto_join: "a \<le> b \<Longrightarrow> b \<le> c \<Longrightarrow> [a .. b - 1] @ [b .. c - 1] = [a .. c - (1 :: int)]"
proof (cases "b < c")
  case True
  assume "a \<le> b"
  then show ?thesis using True upto_split2 [of a "b - 1" "c - 1"] by (cases "a = b") simp_all
next
  case False
  assume "b \<le> c"
  then show ?thesis using False by simp
qed

lemma slices_concat:
  assumes "first \<le> stop" "0 < subsize"
  shows "concat (map (sliceOf first stop subsize) [0 ..< n]) = [first .. min (first + int n * subsize) stop - 1]"
proof (induction n)
  case 0
  then show ?case by simp
next
  case (Suc n)
  let ?b = "min (first + int n * subsize) stop"
  let ?c = "min (first + (int n + 1) * subsize) stop"
  have "sliceOf first stop subsize n = [?b .. ?c - 1]"
  proof (cases "first + int n * subsize \<le> stop")
    case True
    then show ?thesis by (simp add: sliceOf_def)
  next
    case False
    then have "stop \<le> first + (int n + 1) * subsize" using assms(2) by (simp add: distrib_right)
    then show ?thesis using False by (simp add: sliceOf_def)
  qed
  moreover have "?b \<le> ?c" using assms(2) by (simp add: distrib_right min_def)
  moreover have "first \<le> ?b" using assms by simp
  ultimately show ?case using Suc.IH upto_join [of first ?b ?c] by (simp add: add.commute)
qed

lemma slices_all:
  assumes "first < stop" "0 < T" "subsize = (stop - first - 1) sdiv int T + 1"
  shows "concat (map (sliceOf first stop subsize) [0 ..< T]) = [first .. stop - 1]" "0 < subsize"
proof -
  have s: "subsize = (stop - first - 1) div int T + 1" using assms by (simp add: signed_divide_int_def sgn_if)
  then show p: "0 < subsize" using assms by (simp add: pos_imp_zdiv_nonneg_iff add_strict_increasing2)
  have "(stop - first - 1) mod int T < int T" using assms(2) by simp
  then have "stop - first - 1 < int T * ((stop - first - 1) div int T) + int T"
    using mult_div_mod_eq [of "int T" "stop - first - 1"] by linarith
  then have "stop \<le> first + int T * subsize" unfolding s by (simp add: distrib_left)
  then show "concat (map (sliceOf first stop subsize) [0 ..< T]) = [first .. stop - 1]"
    using slices_concat [of first stop subsize T] assms(1) p by simp
qed

lemma km_threads_ok:
  fixes e :: "('r, 'v, 'a, 'f :: linorder) kmEnv"
  assumes A: "assigning u d0 L S N ix a0 a (\<lambda>t k. []) {}" and P: "points_ok e data ix N a0 u lambda d0 L S {first ..< stop}"
    and r: "first < stop" and sub: "subsize = (stop - first - 1) sdiv int (kaT a0) + 1"
  shows "\<exists>a' d'. loopOver (km_thread e data ix first stop subsize u lambda) [0 ..< kaT a0] (a, d) = Ret (a', d')
    \<and> assigning u d0 L S N ix a0 a' (\<lambda>t k. if t < kaT a0 then membersIn L ix (sliceOf first stop subsize t) k else []) {first ..< stop}"
proof -
  have T: "0 < kaT a0" using A by (auto simp: assigning_def ka_shape_def ka_same_def)
  note sl = slices_all [OF r T sub]
  let ?sl = "sliceOf first stop subsize"
  let ?M = "\<lambda>n t k. if t < n then membersIn L ix (?sl t) k else []"
  let ?P = "\<lambda>n. set (concat (map ?sl [0 ..< n]))"
  have "\<exists>s'. loopOver (km_thread e data ix first stop subsize u lambda) [0 ..< kaT a0] (a, d) = Ret s'
    \<and> assigning u d0 L S N ix a0 (fst s') (?M (length [0 ..< kaT a0])) (?P (length [0 ..< kaT a0]))"
  proof (rule loopOver_inv [where I = "\<lambda>prev s. assigning u d0 L S N ix a0 (fst s) (?M (length prev)) (?P (length prev))"])
    show "assigning u d0 L S N ix a0 (fst (a, d)) (?M (length [])) (?P (length []))" using A by simp
  next
    fix prev t rest and s :: "('v, 'a, 'f) kmArgs \<times> 'f"
    assume split: "[0 ..< kaT a0] = prev @ t # rest" and "assigning u d0 L S N ix a0 (fst s) (?M (length prev)) (?P (length prev))"
    then have I: "assigning u d0 L S N ix a0 (fst s) (?M (length prev)) (?P (length prev))" by simp
    have "length prev < kaT a0" using arg_cong [OF split, of length] by simp
    then have t: "t = length prev" "t < kaT a0" using arg_cong [OF split, of "\<lambda>xs. xs ! length prev"] by simp_all
    have "set (?sl t) \<subseteq> set (concat (map ?sl [0 ..< kaT a0]))" using t(2) by auto
    then have "points_ok e data ix N a0 u lambda d0 L S (set (?sl t))"
      using P unfolding sl(1) points_ok_def by fastforce
    from km_points_ok [OF I t(2) this, of "kmOfInt e 0"] obtain a' d' where
      "loopOver (km_point e data ix u lambda t) (?sl t) (fst s, kmOfInt e 0) = Ret (a', d')"
      "assigning u d0 L S N ix a0 a' (\<lambda>t' k. if t' = t then ?M (length prev) t k @ membersIn L ix (?sl t) k
         else ?M (length prev) t' k) (set (?sl t) \<union> ?P (length prev))" by blast
    moreover have "(\<lambda>t' k. if t' = t then ?M (length prev) t k @ membersIn L ix (?sl t) k else ?M (length prev) t' k)
        = ?M (length (prev @ [t]))" using t(1) by (intro ext) auto
    moreover have "set (?sl t) \<union> ?P (length prev) = ?P (length (prev @ [t]))" using t(1) by auto
    ultimately show "\<exists>s'. km_thread e data ix first stop subsize u lambda t s = Ret s'
        \<and> assigning u d0 L S N ix a0 (fst s') (?M (length (prev @ [t]))) (?P (length (prev @ [t])))"
      by (auto simp: km_thread_def split_beta Let_def sliceOf_def)
  qed
  moreover have "?P (kaT a0) = {first ..< stop}" unfolding sl(1) by auto
  ultimately show ?thesis by (auto simp: prod_eq_iff)
qed

section \<open>Merging the threads\<close>

text \<open>The first row of slots has gathered the rows below \<open>n\<close>.\<close>

definition gathered :: "nat \<Rightarrow> (nat \<Rightarrow> nat \<Rightarrow> int list) \<Rightarrow> nat \<Rightarrow> nat \<Rightarrow> nat \<Rightarrow> int list" where
  "gathered DK M n t k = (if t = 0 \<and> k < DK then concat (map (\<lambda>s. M s k) [0 ..< n]) else M t k)"

lemma overThreads_ok:
  fixes a0 a :: "('v, 'a, 'f) kmArgs"
  assumes P: "P a M" and T: "0 < kaT a"
    and step: "\<And>a' M' i k. P a' M' \<Longrightarrow> 0 < i \<Longrightarrow> i < kaT a \<Longrightarrow> k < kaDK a \<Longrightarrow> M' i k = M i k \<Longrightarrow>
      \<exists>a''. body i k a' = Ret a'' \<and> P a'' (addM M' 0 k (M i k))"
  shows "\<exists>a'. km_overThreads body a = Ret a' \<and> P a' (gathered (kaDK a) M (kaT a))"
proof -
  let ?DK = "kaDK a"
  let ?R = "\<lambda>i j t k. if t = 0 \<and> k < j then gathered ?DK M (Suc i) t k else gathered ?DK M i t k"
  have "\<exists>s'. loopOver (\<lambda>i. loopOver (body i) [0 ..< ?DK]) [1 ..< kaT a] a = Ret s'
    \<and> P s' (gathered ?DK M (Suc (length [1 ..< kaT a])))"
  proof (rule loopOver_inv [where I = "\<lambda>prev s. P s (gathered ?DK M (Suc (length prev)))"])
    have "gathered ?DK M (Suc (length [])) = M" by (intro ext) (simp add: gathered_def)
    then show "P a (gathered ?DK M (Suc (length [])))" using P by simp
  next
    fix prev i rest and s :: "('v, 'a, 'f) kmArgs"
    assume split: "[1 ..< kaT a] = prev @ i # rest" and I: "P s (gathered ?DK M (Suc (length prev)))"
    have "length prev < kaT a - 1" using arg_cong [OF split, of length] by simp
    then have i: "i = Suc (length prev)" "i < kaT a" using arg_cong [OF split, of "\<lambda>xs. xs ! length prev"] by simp_all
    have "\<exists>s'. loopOver (body i) [0 ..< ?DK] s = Ret s' \<and> P s' (?R i (length [0 ..< ?DK]))"
    proof (rule loopOver_inv [where I = "\<lambda>prev s. P s (?R i (length prev))"])
      have "?R i (length []) = gathered ?DK M i" by (intro ext) simp
      then show "P s (?R i (length []))" using I i(1) by simp
    next
      fix prev' k rest' and s' :: "('v, 'a, 'f) kmArgs"
      assume split': "[0 ..< ?DK] = prev' @ k # rest'" and I': "P s' (?R i (length prev'))"
      have "length prev' < ?DK" using arg_cong [OF split', of length] by simp
      then have k: "k = length prev'" "k < ?DK" using arg_cong [OF split', of "\<lambda>xs. xs ! length prev'"] by simp_all
      have "?R i (length (prev' @ [k])) = addM (?R i (length prev')) 0 k (M i k)"
        using k by (intro ext) (auto simp: addM_apply gathered_def less_Suc_eq)
      moreover have "?R i (length prev') i k = M i k" using i(1) by (simp add: gathered_def)
      ultimately show "\<exists>s''. body i k s' = Ret s'' \<and> P s'' (?R i (length (prev' @ [k])))"
        using step [OF I' _ i(2) k(2)] i(1) by simp
    qed
    moreover have "?R i (length [0 ..< ?DK]) = gathered ?DK M (Suc (length (prev @ [i])))"
      using i(1) by (intro ext) (simp add: gathered_def)
    ultimately show "\<exists>s'. loopOver (body i) [0 ..< ?DK] s = Ret s' \<and> P s' (gathered ?DK M (Suc (length (prev @ [i]))))" by metis
  qed
  then show ?thesis using T by (simp add: km_overThreads_def)
qed

text \<open>What every merging step keeps.\<close>

definition ka_kept :: "nat \<Rightarrow> ('v, 'a, 'f) kmArgs \<Rightarrow> ('v, 'a, 'f) kmArgs \<Rightarrow> bool" where
  "ka_kept N a a' \<longleftrightarrow> ka_shape N a' \<and> ka_same a a' \<and> kaLabel a' = kaLabel a"

lemma slot_0: "t * K + k = k' \<longleftrightarrow> t = 0 \<and> k = k'" if "k < K" "k' < K" for k k' K t :: nat
  using slot_inj [OF that, of t 0] by simp

lemma mergeCounts_ok:
  assumes k: "ka_kept N a0 a" "kaClusterIdx a = kaClusterIdx a0" "kaClusterDist a = kaClusterDist a0" "counts_ok a M"
    and i: "0 < i" "i < kaT a" "k < kaDK a"
  shows "\<exists>a'. km_mergeCounts e i k a = Ret a' \<and> ka_kept N a0 a' \<and> kaClusterIdx a' = kaClusterIdx a0
    \<and> kaClusterDist a' = kaClusterDist a0 \<and> counts_ok a' (addM M 0 k (M i k))"
proof -
  have sh: "ka_shape N a" using k(1) by (simp add: ka_kept_def)
  have K: "k < kaK a" using i sh by (auto simp: ka_shape_def)
  let ?j = "i * kaK a + k"
  have j: "?j < kaT a * kaK a" "k < kaT a * kaK a" using slot_bound [OF i(2) K] slot_bound [of 0 "kaT a" k "kaK a"] i K by auto
  have lens: "length (kaNewCounts a) = kaT a * kaK a" "length (kaNewWeighted a) = kaT a * kaK a" using sh by (simp_all add: ka_shape_def)
  let ?a = "a\<lparr>kaNewCounts := (kaNewCounts a)[k := kaNewCounts a ! k + kaNewCounts a ! ?j],
    kaNewWeighted := (kaNewWeighted a)[k := kmAdd e (kaNewWeighted a ! k) (kaNewWeighted a ! ?j)]\<rparr>"
  have "km_mergeCounts e i k a = Ret ?a"
    unfolding km_mergeCounts_def Let_def using j lens by (simp add: vecUpd_nat vecAt_nat del: of_nat_add of_nat_mult)
  moreover have "ka_kept N a0 ?a" using k(1) by (auto simp: ka_kept_def ka_shape_def ka_same_def)
  moreover have "counts_ok ?a (addM M 0 k (M i k))"
    unfolding counts_ok_def
  proof (intro allI impI)
    fix t' k' assume "t' < kaT ?a" "k' < kaK ?a"
    then have b: "t' < kaT a" "k' < kaK a" by simp_all
    have old: "kaNewCounts a ! (t' * kaK a + k') = int (length (M t' k'))" "kaNewCounts a ! ?j = int (length (M i k))"
      using k(4) b i K by (simp_all add: counts_ok_def)
    show "kaNewCounts ?a ! (t' * kaK ?a + k') = int (length (addM M 0 k (M i k) t' k'))"
    proof (cases "t' = 0 \<and> k' = k")
      case True
      then show ?thesis using old j lens by (simp add: addM_apply)
    next
      case False
      then have "k \<noteq> t' * kaK a + k'" using slot_0 [OF b(2) K, of t'] by auto
      then have "kaNewCounts ?a ! (t' * kaK ?a + k') = kaNewCounts a ! (t' * kaK a + k')" by simp
      then show ?thesis using old(1) by (simp only: addM_apply if_not_P [OF False])
    qed
  qed
  ultimately show ?thesis using k(2,3) by simp
qed

lemma mergeSums_ok:
  assumes "ka_kept N a0 a" and i: "0 < i" "i < kaT a" "k < kaDK a"
  shows "\<exists>a'. km_mergeSums e i k a = Ret a' \<and> ka_kept N a0 a' \<and> kaClusterIdx a' = kaClusterIdx a
    \<and> kaClusterDist a' = kaClusterDist a \<and> kaNewCounts a' = kaNewCounts a"
proof -
  have sh: "ka_shape N a" using assms(1) by (simp add: ka_kept_def)
  have K: "k < kaK a" using i sh by (auto simp: ka_shape_def)
  have j: "i * kaK a + k < kaT a * kaK a" "k < kaT a * kaK a" using slot_bound [OF i(2) K] slot_bound [of 0 "kaT a" k "kaK a"] i K by auto
  have "length (kaNewCenters a) = kaT a * kaK a" using sh by (simp add: ka_shape_def)
  then show ?thesis unfolding km_mergeSums_def using j assms(1)
    by (auto simp add: vecUpd_nat vecAt_nat ka_kept_def ka_shape_def ka_same_def simp del: of_nat_add of_nat_mult)
qed

lemma if_nth_update: "k < length xs \<Longrightarrow> (if h then xs[k := y] else xs) ! k = (if h then y else xs ! k)"
  by simp

lemma mergeMember_ok:
  assumes k: "ka_kept N a0 a" "kaNewCounts a = kaNewCounts a0" "members_ok u d0 S a M"
    and i: "0 < i" "i < kaT a" "k < kaDK a" and el: "\<forall>y \<in> set (M i k). hits u d0 (S y) \<and> y \<noteq> - 1"
  shows "\<exists>a'. km_mergeMember u i k a = Ret a' \<and> ka_kept N a0 a' \<and> kaNewCounts a' = kaNewCounts a0
    \<and> members_ok u d0 S a' (addM M 0 k (M i k))"
proof -
  have sh: "ka_shape N a" using k(1) by (simp add: ka_kept_def)
  have K: "k < kaK a" using i sh by (auto simp: ka_shape_def)
  let ?j = "i * kaK a + k"
  have j: "?j < kaT a * kaK a" "k < kaT a * kaK a" using slot_bound [OF i(2) K] slot_bound [of 0 "kaT a" k "kaK a"] i K by auto
  have lens: "length (kaClusterIdx a) = kaT a * kaK a" "length (kaClusterDist a) = kaT a * kaK a" using sh by (simp_all add: ka_shape_def)
  let ?h = "kaClusterIdx a ! ?j \<noteq> - 1 \<and> hits u (kaClusterDist a ! k) (kaClusterDist a ! ?j)"
  let ?a = "if ?h then a\<lparr>kaClusterDist := (kaClusterDist a)[k := kaClusterDist a ! ?j],
    kaClusterIdx := (kaClusterIdx a)[k := kaClusterIdx a ! ?j]\<rparr> else a"
  have "km_mergeMember u i k a = Ret ?a"
    unfolding km_mergeMember_def Let_def using j lens by (simp add: vecSet_nat vecAt_nat hits_def del: of_nat_add of_nat_mult)
  moreover have "ka_kept N a0 ?a" using k(1) by (auto simp: ka_kept_def ka_shape_def ka_same_def)
  moreover have "members_ok u d0 S ?a (addM M 0 k (M i k))"
    unfolding members_ok_def
  proof (intro allI impI)
    fix t' k' assume "t' < kaT ?a" "k' < kaK ?a"
    then have b: "t' < kaT a" "k' < kaK a" by (simp_all split: if_splits)
    have old: "chosen_ok u d0 S (M t' k') (kaClusterIdx a ! (t' * kaK a + k')) (kaClusterDist a ! (t' * kaK a + k'))"
      and oi: "chosen_ok u d0 S (M i k) (kaClusterIdx a ! ?j) (kaClusterDist a ! ?j)"
      using k(3) b i K by (simp_all add: members_ok_def)
    have e: "kaClusterIdx ?a = (if ?h then (kaClusterIdx a)[k := kaClusterIdx a ! ?j] else kaClusterIdx a)"
      "kaClusterDist ?a = (if ?h then (kaClusterDist a)[k := kaClusterDist a ! ?j] else kaClusterDist a)" "kaK ?a = kaK a"
      by simp_all
    show "chosen_ok u d0 S (addM M 0 k (M i k) t' k') (kaClusterIdx ?a ! (t' * kaK ?a + k')) (kaClusterDist ?a ! (t' * kaK ?a + k'))"
    proof (cases "t' = 0 \<and> k' = k")
      case True
      then have "chosen_ok u d0 S (M 0 k) (kaClusterIdx a ! k) (kaClusterDist a ! k)" using old by simp
      note m = chosen_merge [OF this oi el]
      have "kaClusterIdx ?a ! (t' * kaK ?a + k') = (if ?h then kaClusterIdx a ! ?j else kaClusterIdx a ! k)"
        "kaClusterDist ?a ! (t' * kaK ?a + k') = (if ?h then kaClusterDist a ! ?j else kaClusterDist a ! k)"
        unfolding e using True if_nth_update [of k "kaClusterIdx a" ?h] if_nth_update [of k "kaClusterDist a" ?h] j lens by simp_all
      then show ?thesis using m by (simp only: addM_apply if_P [OF True])
    next
      case False
      then have ne: "k \<noteq> t' * kaK a + k'" using slot_0 [OF b(2) K, of t'] by auto
      have "kaClusterIdx ?a ! (t' * kaK ?a + k') = kaClusterIdx a ! (t' * kaK a + k')"
        "kaClusterDist ?a ! (t' * kaK ?a + k') = kaClusterDist a ! (t' * kaK a + k')"
        by (cases ?h; simp add: nth_list_update_neq [OF ne])+
      then show ?thesis using old by (simp only: addM_apply if_not_P [OF False])
    qed
  qed
  ultimately show ?thesis using k(2) by auto
qed

section \<open>The whole assignment\<close>

definition assigned ::
  "bool \<Rightarrow> 'f :: linorder \<Rightarrow> (int \<Rightarrow> nat) \<Rightarrow> (int \<Rightarrow> 'f) \<Rightarrow> nat \<Rightarrow> int list \<Rightarrow> int \<Rightarrow> int \<Rightarrow> ('v, 'a, 'f) kmArgs
     \<Rightarrow> ('v, 'a, 'f) kmArgs \<Rightarrow> bool" where
  "assigned u d0 L S N ix first stop a0 a \<longleftrightarrow> ka_shape N a \<and> ka_same a0 a
     \<and> (\<forall>i \<in> {first ..< stop}. kaLabel a ! nat i = int (L (ix ! nat i)))
     \<and> (\<forall>k < kaDK a0. kaNewCounts a ! k = int (length (membersIn L ix [first .. stop - 1] k))
          \<and> chosen_ok u d0 S (membersIn L ix [first .. stop - 1] k) (kaClusterIdx a ! k) (kaClusterDist a ! k))
     \<and> (\<forall>k. kaDK a0 \<le> k \<longrightarrow> k < kaK a0 \<longrightarrow> kaNewCounts a ! k = 0)"

lemma cleared_assigning:
  assumes "ka_shape N a"
  shows "assigning u d0 L S N ix (ka_ClearDists d0 (ka_ClearCounts e a)) (ka_ClearDists d0 (ka_ClearCounts e a)) (\<lambda>t k. []) {}"
proof -
  have "t * kaK a + k < kaT a * kaK a" if "t < kaT a" "k < kaK a" for t k using slot_bound that by blast
  then show ?thesis using assms
    by (auto simp: assigning_def ka_shape_def ka_same_def ka_ClearDists_def ka_ClearCounts_def counts_ok_def members_ok_def chosen_ok_def)
qed

lemma points_members:
  assumes "points_ok e data ix N a0 u lambda d0 L S {first ..< stop}" "set is \<subseteq> {first ..< stop}"
  shows "\<forall>y \<in> set (membersIn L ix is k). hits u d0 (S y) \<and> y \<noteq> - 1" "kaDK a0 \<le> k \<Longrightarrow> membersIn L ix is k = []"
  using assms unfolding points_ok_def membersIn_def by (auto simp: filter_empty_conv) fastforce

lemma KmeansAssign_ok:
  assumes A: "assigning u d0 L S N ix a a (\<lambda>t k. []) {}" and P: "points_ok e data ix N a u lambda d0 L S {first ..< stop}"
    and r: "first < stop"
  shows "\<exists>a' d. KmeansAssign e data ix first stop a u lambda = Ret (a', d) \<and> assigned u d0 L S N ix first stop a a'"
proof -
  let ?sub = "(stop - first - 1) sdiv int (kaT a) + 1"
  let ?sl = "sliceOf first stop ?sub"
  let ?M = "\<lambda>t k. if t < kaT a then membersIn L ix (?sl t) k else []"
  let ?G = "gathered (kaDK a) ?M (kaT a)"
  have T: "0 < kaT a" and DK: "kaDK a \<le> kaK a" using A by (auto simp: assigning_def ka_shape_def)
  note sl = slices_all [OF r T refl]
  have sub: "set (?sl t) \<subseteq> {first ..< stop}" if "t < kaT a" for t
  proof -
    have "set (?sl t) \<subseteq> set (concat (map ?sl [0 ..< kaT a]))" using that by auto
    then show ?thesis unfolding sl(1) by auto
  qed
  obtain a1 d1 where th: "loopOver (km_thread e data ix first stop ?sub u lambda) [0 ..< kaT a] (a, kmOfInt e 0) = Ret (a1, d1)"
    and A1: "assigning u d0 L S N ix a a1 ?M {first ..< stop}"
    using km_threads_ok [OF A P r refl] by blast
  have kept1: "ka_kept N a1 a1" "ka_same a a1" and c1: "counts_ok a1 ?M" and m1: "members_ok u d0 S a1 ?M"
    and l1: "\<forall>i \<in> {first ..< stop}. kaLabel a1 ! nat i = int (L (ix ! nat i))"
    using A1 by (auto simp: assigning_def ka_kept_def ka_same_refl)
  have eq: "kaT a1 = kaT a" "kaDK a1 = kaDK a" "kaK a1 = kaK a" using kept1(2) by (simp_all add: ka_same_def)
  have "\<exists>a2. km_overThreads (km_mergeCounts e) a1 = Ret a2 \<and> ka_kept N a1 a2 \<and> kaClusterIdx a2 = kaClusterIdx a1
      \<and> kaClusterDist a2 = kaClusterDist a1 \<and> counts_ok a2 (gathered (kaDK a1) ?M (kaT a1))"
  proof (rule overThreads_ok [where P = "\<lambda>a2 M. ka_kept N a1 a2 \<and> kaClusterIdx a2 = kaClusterIdx a1
      \<and> kaClusterDist a2 = kaClusterDist a1 \<and> counts_ok a2 M"])
    fix a' M' i k
    assume "ka_kept N a1 a' \<and> kaClusterIdx a' = kaClusterIdx a1 \<and> kaClusterDist a' = kaClusterDist a1 \<and> counts_ok a' M'"
      "0 < i" "i < kaT a1" "k < kaDK a1" "M' i k = ?M i k"
    then show "\<exists>a''. km_mergeCounts e i k a' = Ret a'' \<and> ka_kept N a1 a'' \<and> kaClusterIdx a'' = kaClusterIdx a1
        \<and> kaClusterDist a'' = kaClusterDist a1 \<and> counts_ok a'' (addM M' 0 k (?M i k))"
      using mergeCounts_ok [of N a1 a' M' i k e] by (simp add: ka_kept_def ka_same_def)
  qed (use kept1(1) c1 T eq in auto)
  then obtain a2 where r2: "km_overThreads (km_mergeCounts e) a1 = Ret a2" "ka_kept N a1 a2" "kaClusterIdx a2 = kaClusterIdx a1"
      "kaClusterDist a2 = kaClusterDist a1" "counts_ok a2 ?G" using eq by auto
  have eq2: "kaT a2 = kaT a" "kaDK a2 = kaDK a" "kaK a2 = kaK a" using r2(2) eq by (simp_all add: ka_kept_def ka_same_def)
  have "\<exists>a3. km_overThreads (km_mergeSums e) a2 = Ret a3 \<and> ka_kept N a2 a3 \<and> kaClusterIdx a3 = kaClusterIdx a2
      \<and> kaClusterDist a3 = kaClusterDist a2 \<and> kaNewCounts a3 = kaNewCounts a2"
  proof (rule overThreads_ok [where P = "\<lambda>a3 M. ka_kept N a2 a3 \<and> kaClusterIdx a3 = kaClusterIdx a2
      \<and> kaClusterDist a3 = kaClusterDist a2 \<and> kaNewCounts a3 = kaNewCounts a2" and M = ?M])
    fix a' M' i k
    assume "ka_kept N a2 a' \<and> kaClusterIdx a' = kaClusterIdx a2 \<and> kaClusterDist a' = kaClusterDist a2
      \<and> kaNewCounts a' = kaNewCounts a2" "0 < i" "i < kaT a2" "k < kaDK a2"
    then show "\<exists>a''. km_mergeSums e i k a' = Ret a'' \<and> ka_kept N a2 a'' \<and> kaClusterIdx a'' = kaClusterIdx a2
        \<and> kaClusterDist a'' = kaClusterDist a2 \<and> kaNewCounts a'' = kaNewCounts a2"
      using mergeSums_ok [of N a2 a' i k e] by (simp add: ka_kept_def ka_same_def)
  qed (use r2(2) T eq2 in \<open>simp_all add: ka_kept_def ka_same_refl\<close>)
  then obtain a3 where r3: "(if u then km_overThreads (km_mergeSums e) a2 else Ret a2) = Ret a3" "ka_kept N a2 a3"
      "kaClusterIdx a3 = kaClusterIdx a1" "kaClusterDist a3 = kaClusterDist a1" "kaNewCounts a3 = kaNewCounts a2"
    using r2 by (cases u) (auto simp: ka_kept_def ka_same_refl)
  have eq3: "kaT a3 = kaT a" "kaDK a3 = kaDK a" "kaK a3 = kaK a" using r3(2) eq2 by (simp_all add: ka_kept_def ka_same_def)
  have m3: "members_ok u d0 S a3 ?M" using m1 r3 eq eq3 by (simp add: members_ok_def)
  have "\<exists>a4. km_overThreads (km_mergeMember u) a3 = Ret a4 \<and> ka_kept N a3 a4 \<and> kaNewCounts a4 = kaNewCounts a3
      \<and> members_ok u d0 S a4 (gathered (kaDK a3) ?M (kaT a3))"
  proof (rule overThreads_ok [where P = "\<lambda>a4 M. ka_kept N a3 a4 \<and> kaNewCounts a4 = kaNewCounts a3 \<and> members_ok u d0 S a4 M"])
    show "ka_kept N a3 a3 \<and> kaNewCounts a3 = kaNewCounts a3 \<and> members_ok u d0 S a3 ?M"
      using r3(2) m3 by (auto simp: ka_kept_def ka_same_refl)
    show "0 < kaT a3" using T eq3 by simp
  next
    fix a' M' i k
    assume h: "ka_kept N a3 a' \<and> kaNewCounts a' = kaNewCounts a3 \<and> members_ok u d0 S a' M'" "0 < i" "i < kaT a3" "k < kaDK a3"
      "M' i k = ?M i k"
    have "\<forall>y \<in> set (M' i k). hits u d0 (S y) \<and> y \<noteq> - 1"
      unfolding h(5) using points_members(1) [OF P sub] h(3) eq3 by simp
    then show "\<exists>a''. km_mergeMember u i k a' = Ret a'' \<and> ka_kept N a3 a'' \<and> kaNewCounts a'' = kaNewCounts a3
        \<and> members_ok u d0 S a'' (addM M' 0 k (?M i k))"
      using mergeMember_ok [of N a3 a' u d0 S M' i k] h by (simp add: ka_kept_def ka_same_def)
  qed
  then obtain a4 where r4: "km_overThreads (km_mergeMember u) a3 = Ret a4" "ka_kept N a3 a4" "kaNewCounts a4 = kaNewCounts a2"
      "members_ok u d0 S a4 ?G" using eq3 r3(5) by auto
  have eq4: "kaT a4 = kaT a" "kaDK a4 = kaDK a" "kaK a4 = kaK a" using r4(2) eq3 by (simp_all add: ka_kept_def ka_same_def)
  have G: "?G 0 k = (if k < kaDK a then membersIn L ix [first .. stop - 1] k else [])" for k
  proof (cases "k < kaDK a")
    case True
    have "map (\<lambda>s. ?M s k) [0 ..< kaT a] = map (\<lambda>s. membersIn L ix (?sl s) k) [0 ..< kaT a]" by simp
    then have "?G 0 k = concat (map (\<lambda>s. membersIn L ix (?sl s) k) [0 ..< kaT a])"
      using True unfolding gathered_def by (simp only: simp_thms if_True)
    also have "\<dots> = membersIn L ix (concat (map ?sl [0 ..< kaT a])) k" by (simp add: membersIn_concat comp_def)
    finally show ?thesis using True unfolding sl(1) by simp
  next
    case False
    then show ?thesis using points_members(2) [OF P sub [OF T]] by (simp add: gathered_def)
  qed
  have c4: "kaNewCounts a4 ! k = int (length (?G 0 k))"
    and m4: "chosen_ok u d0 S (?G 0 k) (kaClusterIdx a4 ! k) (kaClusterDist a4 ! k)" if "k < kaK a" for k
    using r2(5) r4(3,4) that T eq2 eq4 unfolding counts_ok_def members_ok_def by fastforce+
  have "ka_shape N a4" "ka_same a a4" "kaLabel a4 = kaLabel a1"
    using kept1(2) r2(2) r3(2) r4(2) by (auto simp: ka_kept_def ka_same_def)
  moreover have "chosen_ok u d0 S (membersIn L ix [first .. stop - 1] k) (kaClusterIdx a4 ! k) (kaClusterDist a4 ! k)"
    if "k < kaDK a" for k using m4 [of k] that DK unfolding G by simp
  ultimately have "assigned u d0 L S N ix first stop a a4"
    using l1 c4 DK unfolding assigned_def G by auto
  then show ?thesis using th r2(1) r3(1) r4(1) by (simp add: KmeansAssign_def Let_def)
qed

end
