(* ===== verification/KClusters.thy ===== *)
theory KClusters
  imports KShuffle KAssign
begin

text \<open>
  What \<open>TryClustering\<close> and \<open>KmeansClustering\<close> leave behind, whatever the generators answer and however the centres move:
  they return, the ids of the range are rearranged among themselves, every id is with its nearest centre, and each
  cluster has its own stretch with the member nearest to the centre at its end.
\<close>

section \<open>What the code relies on\<close>

definition kmEnv_ok :: "('r, 'v, 'a, 'f :: linorder) kmEnv \<Rightarrow> bool" where
  "kmEnv_ok e \<longleftrightarrow> kmMinDist e < kmMaxDist e
     \<and> (\<forall>x c. kmAdd e x (kmMul e (kmOfInt e 0) (kmOfInt e c)) = x)
     \<and> (\<forall>r high low. low < high \<longrightarrow> low \<le> fst (kmRand e r high low) \<and> fst (kmRand e r high low) < high)
     \<and> (\<forall>r xs. mset (fst (kmShuffle e r xs)) = mset xs)"

definition idsIn :: "int list \<Rightarrow> nat \<Rightarrow> nat \<Rightarrow> int list" where
  "idsIn ix f g = take (g - f) (drop f ix)"

definition data_ok :: "(int \<Rightarrow> 'v outcome) \<Rightarrow> int set \<Rightarrow> bool" where
  "data_ok data X \<longleftrightarrow> (\<forall>x \<in> X. x \<noteq> - 1 \<and> (\<exists>v. data x = Ret v))"

definition valOf :: "(int \<Rightarrow> 'v outcome) \<Rightarrow> int \<Rightarrow> 'v" where
  "valOf data x = (case data x of Ret v \<Rightarrow> v | _ \<Rightarrow> undefined)"

lemma data_val: "data_ok data X \<Longrightarrow> x \<in> X \<Longrightarrow> data x = Ret (valOf data x)"
  by (auto simp: data_ok_def valOf_def)

lemma data_sub: "data_ok data X \<Longrightarrow> Y \<subseteq> X \<Longrightarrow> data_ok data Y"
  by (auto simp: data_ok_def)

lemma idsIn_nth: "g \<le> length ix \<Longrightarrow> f \<le> p \<Longrightarrow> p < g \<Longrightarrow> ix ! p \<in> set (idsIn ix f g)"
  unfolding idsIn_def in_set_conv_nth by (intro exI [of _ "p - f"]) simp

lemma idsIn_map:
  assumes "g \<le> length ix" "f \<le> g"
  shows "map (\<lambda>i. ix ! nat i) [int f .. int g - 1] = idsIn ix f g"
  using assms by (intro nth_equalityI) (auto simp: idsIn_def nat_add_distrib)

text \<open>The ids of a range are rearranged among themselves.\<close>

definition segPerm :: "nat \<Rightarrow> nat \<Rightarrow> int list \<Rightarrow> int list \<Rightarrow> bool" where
  "segPerm f g ix ix' \<longleftrightarrow> length ix' = length ix \<and> take f ix' = take f ix \<and> drop g ix' = drop g ix
     \<and> mset (idsIn ix' f g) = mset (idsIn ix f g)"

lemma segPerm_refl: "segPerm f g ix ix"
  by (simp add: segPerm_def)

lemma segPerm_trans: "segPerm f g a b \<Longrightarrow> segPerm f g b c \<Longrightarrow> segPerm f g a c"
  by (simp add: segPerm_def)

lemma segPerm_set: "segPerm f g a b \<Longrightarrow> set (idsIn b f g) = set (idsIn a f g)"
  unfolding segPerm_def by (metis set_mset_mset)

lemma seg_decompose: "f \<le> g \<Longrightarrow> xs = take f xs @ idsIn xs f g @ drop g xs"
  unfolding idsIn_def by (metis append_take_drop_id drop_drop le_add_diff_inverse2)

lemma segPerm_mset: 
  assumes "segPerm f g ix ix'" "f \<le> g"
  shows "mset ix' = mset ix"
proof -
  have "mset ix' = mset (take f ix') + mset (idsIn ix' f g) + mset (drop g ix')"
    by (subst (1) seg_decompose [OF assms(2), of ix']) simp
  also have "\<dots> = mset (take f ix) + mset (idsIn ix f g) + mset (drop g ix)" using assms(1) by (simp add: segPerm_def)
  also have "\<dots> = mset ix" by (subst (4) seg_decompose [OF assms(2), of ix]) simp
  finally show ?thesis .
qed

lemma shuffleRange_ok:
  assumes "kmEnv_ok e" "f \<le> g" "g \<le> length ix"
  shows "\<exists>ix' r'. shuffleRange e r ix (int f) (int g) = (ix', r') \<and> segPerm f g ix ix'"
proof -
  obtain mid r' where m: "kmShuffle e r (take (g - f) (drop f ix)) = (mid, r')" by (cases "kmShuffle e r (take (g - f) (drop f ix))")
  then have ms: "mset mid = mset (take (g - f) (drop f ix))" using assms(1) unfolding kmEnv_ok_def by (metis fst_conv)
  then have len: "length mid = g - f" using assms(2,3) by (auto dest: mset_eq_length)
  have "nat (int g - int f) = g - f" by simp
  then have "shuffleRange e r ix (int f) (int g) = (take f ix @ mid @ drop g ix, r')"
    using m by (simp add: shuffleRange_def)
  moreover have "segPerm f g ix (take f ix @ mid @ drop g ix)"
    using assms(2,3) len ms by (simp add: segPerm_def idsIn_def)
  ultimately show ?thesis by blast
qed

section \<open>One assignment\<close>

text \<open>A distance as the assignment counts it: out of range is the greatest.\<close>

definition clipDist :: "('r, 'v, 'a, 'f :: linorder) kmEnv \<Rightarrow> 'f \<Rightarrow> 'f" where
  "clipDist e d = (if kmMinDist e < d \<and> d < kmMaxDist e then d else kmMaxDist e)"

definition nearestOf :: "('r, 'v, 'a, 'f :: linorder) kmEnv \<Rightarrow> ('v, 'a, 'f) kmArgs \<Rightarrow> 'v \<Rightarrow> nat \<Rightarrow> bool" where
  "nearestOf e a v k \<longleftrightarrow> k < kaDK a
     \<and> (\<forall>j < kaDK a. clipDist e (kmDist e v (kaCenters a ! k)) \<le> clipDist e (kmDist e v (kaCenters a ! j)))"

lemma pick_nearest:
  assumes sh: "ka_shape N a" and e: "kmEnv_ok e"
  shows "nearestOf e a v (pickOf e a (kmOfInt e 0) v)"
    "pickDist e a (kmOfInt e 0) v = clipDist e (kmDist e v (kaCenters a ! pickOf e a (kmOfInt e 0) v))"
proof -
  have mm: "kmMinDist e < kmMaxDist e" and z: "penalised e a (kmOfInt e 0) v j = kmDist e v (kaCenters a ! j)" for j
    using e by (simp_all add: kmEnv_ok_def penalised_def)
  obtain k d where k: "km_nearest e a (kmOfInt e 0) v = Ret (int k, d)" "k < kaDK a" "kmMinDist e < d" "d \<le> kmMaxDist e"
    "\<forall>j < kaDK a. kmMinDist e < kmDist e v (kaCenters a ! j) \<longrightarrow> d \<le> kmDist e v (kaCenters a ! j)"
    "d = kmMaxDist e \<or> d = kmDist e v (kaCenters a ! k)"
    using km_nearest_ok [OF sh mm, of "kmOfInt e 0" v] unfolding z by blast
  have p: "pickOf e a (kmOfInt e 0) v = k" "pickDist e a (kmOfInt e 0) v = d" using k(1) by (simp_all add: pickOf_def pickDist_def)
  have d: "d = clipDist e (kmDist e v (kaCenters a ! k))" using k(2-6) by (fastforce simp: clipDist_def)
  then show "pickDist e a (kmOfInt e 0) v = clipDist e (kmDist e v (kaCenters a ! pickOf e a (kmOfInt e 0) v))" using p by simp
  have "d \<le> clipDist e (kmDist e v (kaCenters a ! j))" if "j < kaDK a" for j using k(4,5) that by (simp add: clipDist_def)
  then show "nearestOf e a v (pickOf e a (kmOfInt e 0) v)" using k(2) d p by (simp add: nearestOf_def)
qed

abbreviation labelOf :: "('r, 'v, 'a, 'f :: linorder) kmEnv \<Rightarrow> (int \<Rightarrow> 'v outcome) \<Rightarrow> ('v, 'a, 'f) kmArgs \<Rightarrow> 'f \<Rightarrow> int \<Rightarrow> nat" where
  "labelOf e data a lambda x \<equiv> pickOf e a lambda (valOf data x)"

abbreviation scoreOf :: "('r, 'v, 'a, 'f :: linorder) kmEnv \<Rightarrow> (int \<Rightarrow> 'v outcome) \<Rightarrow> ('v, 'a, 'f) kmArgs \<Rightarrow> 'f \<Rightarrow> int \<Rightarrow> 'f" where
  "scoreOf e data a lambda x \<equiv> pickDist e a lambda (valOf data x)"

lemma assign_run:
  assumes sh: "ka_shape N a" and e: "kmEnv_ok e" and r: "f < g" "g \<le> length ix" "g \<le> N"
    and d: "data_ok data (set (idsIn ix f g))" and d0: "d0 = (if u then kmMinDist e else kmMaxDist e)"
  shows "\<exists>a' c. KmeansAssign e data ix (int f) (int g) (ka_ClearDists d0 (ka_ClearCounts e a)) u lambda = Ret (a', c)
    \<and> assigned u d0 (labelOf e data a lambda) (scoreOf e data a lambda) N ix (int f) (int g) a a'"
proof -
  let ?a = "ka_ClearDists d0 (ka_ClearCounts e a)"
  let ?L = "labelOf e data a lambda"
  let ?S = "scoreOf e data a lambda"
  have sm: "ka_same a ?a" by (simp add: ka_same_def ka_ClearDists_def ka_ClearCounts_def)
  have mm: "kmMinDist e < kmMaxDist e" using e by (simp add: kmEnv_ok_def)
  note pk = pick_ok [OF sh mm, where lambda = lambda]
  have nr: "km_nearest e ?a lambda v = Ret (int (pickOf e a lambda v), pickDist e a lambda v)" for v
    unfolding pick_same(1) [OF sm] by (rule pk(1))
  have "points_ok e data ix N ?a u lambda d0 ?L ?S {int f ..< int g}"
    unfolding points_ok_def
  proof
    fix i assume "i \<in> {int f ..< int g}"
    then have i: "0 \<le> i" "f \<le> nat i" "nat i < g" by auto
    then have x: "ix ! nat i \<in> set (idsIn ix f g)" using idsIn_nth r by blast
    have "hits u d0 (?S (ix ! nat i))" using pk(3,4) by (simp add: hits_def d0)
    then show "0 \<le> i \<and> i < int (length ix) \<and> i < int N \<and> ix ! nat i \<noteq> - 1
      \<and> (\<exists>v. data (ix ! nat i) = Ret v \<and> km_nearest e ?a lambda v = Ret (int (?L (ix ! nat i)), ?S (ix ! nat i)))
      \<and> ?L (ix ! nat i) < kaDK ?a \<and> hits u d0 (?S (ix ! nat i))"
      using i r x d pk(2) nr data_val [OF d x] sm by (auto simp: data_ok_def ka_same_def)
  qed
  from KmeansAssign_ok [OF cleared_assigning [OF sh] this] r(1) obtain a' c where
    "KmeansAssign e data ix (int f) (int g) ?a u lambda = Ret (a', c)" "assigned u d0 ?L ?S N ix (int f) (int g) ?a a'" by force
  then show ?thesis using sm by (auto simp: assigned_def ka_same_def)
qed

text \<open>What the rounds need of an assignment: some cluster has members, and one with members has chosen one of the range.\<close>

definition usable :: "int set \<Rightarrow> ('v, 'a, 'f) kmArgs \<Rightarrow> bool" where
  "usable X a \<longleftrightarrow> (\<exists>k < kaDK a. 0 < kaNewCounts a ! k) \<and> (\<forall>k < kaDK a. 0 < kaNewCounts a ! k \<longrightarrow> kaClusterIdx a ! k \<in> X)"

lemma membersIn_ids: "g \<le> length ix \<Longrightarrow> f \<le> g \<Longrightarrow> membersIn L ix [int f .. int g - 1] k = filter (\<lambda>x. L x = k) (idsIn ix f g)"
  by (simp add: membersIn_def idsIn_map)

lemma assigned_usable:
  assumes A: "assigned u d0 L S N ix (int f) (int g) a a'" and r: "f < g" "g \<le> length ix" and L: "\<And>x. L x < kaDK a"
  shows "usable (set (idsIn ix f g)) a'"
proof -
  have M: "membersIn L ix [int f .. int g - 1] k = filter (\<lambda>x. L x = k) (idsIn ix f g)" for k
    using membersIn_ids r by simp
  have DK: "kaDK a' = kaDK a" using A by (simp add: assigned_def ka_same_def)
  have c: "kaNewCounts a' ! k = int (length (filter (\<lambda>x. L x = k) (idsIn ix f g)))"
    "chosen_ok u d0 S (filter (\<lambda>x. L x = k) (idsIn ix f g)) (kaClusterIdx a' ! k) (kaClusterDist a' ! k)" if "k < kaDK a" for k
    using A that by (simp_all add: assigned_def M)
  have x: "ix ! f \<in> set (idsIn ix f g)" using idsIn_nth r by blast
  have "filter (\<lambda>x. L x = L (ix ! f)) (idsIn ix f g) \<noteq> []" using x by (auto simp: filter_empty_conv)
  then have "0 < kaNewCounts a' ! L (ix ! f)" using c(1) [OF L] by simp
  moreover have "kaClusterIdx a' ! k \<in> set (idsIn ix f g)" if "k < kaDK a" "0 < kaNewCounts a' ! k" for k
  proof -
    have "filter (\<lambda>x. L x = k) (idsIn ix f g) \<noteq> []" using c(1) [OF that(1)] that(2) by auto
    then have "kaClusterIdx a' ! k \<in> set (filter (\<lambda>x. L x = k) (idsIn ix f g))"
      using c(2) [OF that(1)] unfolding chosen_ok_def by simp
    then show ?thesis by simp
  qed
  ultimately show ?thesis using L DK unfolding usable_def by auto
qed

section \<open>The rounds\<close>

text \<open>
  The arguments between the steps: the arrays have their lengths, the parameters are those of the start, and every centre
  has the property \<open>Q\<close> (such as its number of bytes), which the data has and a mean has.
\<close>

definition argsOf :: "('v \<Rightarrow> bool) \<Rightarrow> nat \<Rightarrow> ('v, 'a, 'f) kmArgs \<Rightarrow> ('v, 'a, 'f) kmArgs \<Rightarrow> bool" where
  "argsOf Q N a0 a \<longleftrightarrow> ka_shape N a \<and> kaK a = kaK a0 \<and> kaDK a = kaDK a0 \<and> kaT a = kaT a0
     \<and> (\<forall>v \<in> set (kaCenters a) \<union> set (kaNewTCenters a). Q v)"

definition source_ok ::
  "('v \<Rightarrow> bool) \<Rightarrow> ('r, 'v, 'a, 'f :: linorder) kmEnv \<Rightarrow> (int \<Rightarrow> 'v outcome) \<Rightarrow> int set \<Rightarrow> bool" where
  "source_ok Q e data X \<longleftrightarrow> kmEnv_ok e \<and> data_ok data X \<and> (\<forall>x \<in> X. Q (valOf data x)) \<and> (\<forall>z c. Q (kmMean e z c))"

lemma argsOf_same: "argsOf Q N a0 a \<Longrightarrow> ka_shape N a' \<Longrightarrow> ka_same a a' \<Longrightarrow> argsOf Q N a0 a'"
  by (simp add: argsOf_def ka_same_def)

lemma argsOf_counted:
  "argsOf Q N a0 a \<Longrightarrow> argsOf Q N a0 (a\<lparr>kaCounts := take (kaK a) (kaNewCounts a)\<rparr>)"
  by (auto simp: argsOf_def ka_shape_def)

lemma shape_nth: "ka_shape N a \<Longrightarrow> k < kaDK a \<Longrightarrow> k < kaK a \<and> k < kaT a * kaK a"
  using slot_bound [of 0 "kaT a" k "kaK a"] by (auto simp: ka_shape_def)

lemma biggest_ok:
  assumes sh: "ka_shape N a" and also_ok: "\<And>k. k < kaDK a \<Longrightarrow> 0 < kaNewCounts a ! k \<Longrightarrow> \<exists>b. test k = Ret b"
  shows "\<exists>m c. loopOver (km_biggest test a) [0 ..< kaDK a] (- 1, 0) = Ret (m, c)
    \<and> (m = - 1 \<or> (\<exists>k < kaDK a. m = int k \<and> 0 < kaNewCounts a ! k))
    \<and> ((\<exists>k < kaDK a. 0 < kaCounts a ! k \<and> 0 < kaNewCounts a ! k \<and> test k = Ret True) \<longrightarrow> m \<noteq> - 1)"
proof -
  let ?I = "\<lambda>prev (m, c). (m = - 1 \<and> c = 0 \<or> (\<exists>k < kaDK a. m = int k \<and> 0 < kaNewCounts a ! k))
    \<and> ((\<exists>k \<in> set prev. 0 < kaCounts a ! k \<and> 0 < kaNewCounts a ! k \<and> test k = Ret True) \<longrightarrow> m \<noteq> - 1)"
  have "\<exists>s'. loopOver (km_biggest test a) [0 ..< kaDK a] (- 1, 0) = Ret s' \<and> ?I [0 ..< kaDK a] s'"
  proof (rule loopOver_inv [where I = ?I])
    show "?I [] (- 1, 0)" by simp
  next
    fix prev k rest and s :: "int \<times> int"
    assume split: "[0 ..< kaDK a] = prev @ k # rest" and I: "?I prev s"
    obtain m c where s: "s = (m, c)" by (cases s)
    have "k \<in> set [0 ..< kaDK a]" unfolding split by simp
    then have k: "k < kaDK a" by simp
    have at: "vecAt (kaCounts a) (int k) = Ret (kaCounts a ! k)" "vecAt (kaNewCounts a) (int k) = Ret (kaNewCounts a ! k)"
      using shape_nth [OF sh k] sh by (simp_all add: vecAt_nat ka_shape_def)
    show "\<exists>s'. km_biggest test a k s = Ret s' \<and> ?I (prev @ [k]) s'"
    proof (cases "c < kaCounts a ! k \<and> 0 < kaNewCounts a ! k")
      case True
      then obtain b where b: "test k = Ret b" using also_ok [OF k] by blast
      then have "km_biggest test a k s = Ret (if b then (int k, kaCounts a ! k) else (m, c))"
        using True by (simp add: km_biggest_def s at)
      then show ?thesis using I s True b k by (cases b) auto
    next
      case False
      then have "km_biggest test a k s = Ret (m, c)" by (auto simp: km_biggest_def s at)
      then show ?thesis using I s False by auto
    qed
  qed
  then show ?thesis by auto
qed

lemma RefineLambda_ok:
  assumes sh: "ka_shape N a" and u: "usable X a" and eq: "\<And>k. k < kaDK a \<Longrightarrow> kaCounts a ! k = kaNewCounts a ! k"
  shows "\<exists>l. RefineLambda e a sz = Ret l"
proof -
  obtain m c where m: "loopOver (km_biggest (\<lambda>_. Ret True) a) [0 ..< kaDK a] (- 1, 0) = Ret (m, c)"
    "m = - 1 \<or> (\<exists>k < kaDK a. m = int k)" "m \<noteq> - 1"
  proof -
    obtain k where "k < kaDK a" "0 < kaCounts a ! k" "0 < kaNewCounts a ! k" using u eq by (auto simp: usable_def)
    moreover have "\<exists>b. Ret True = Ret b" by blast
    ultimately show ?thesis using biggest_ok [OF sh, of "\<lambda>_. Ret True"] that by blast
  qed
  then obtain k where k: "k < kaDK a" "m = int k" by blast
  have "k < kaT a * kaK a" using shape_nth [OF sh k(1)] by simp
  then have "vecAt (kaNewWeighted a) m = Ret (kaNewWeighted a ! k)" "vecAt (kaNewCounts a) m = Ret (kaNewCounts a ! k)"
    "vecAt (kaClusterDist a) m = Ret (kaClusterDist a ! k)"
    using sh k(2) by (simp_all add: vecAt_nat ka_shape_def)
  then show ?thesis using m(1) by (simp add: RefineLambda_def Let_def)
qed

lemma pickCenter_ok:
  assumes src: "source_ok Q e data (set (idsIn ix f g))" and r: "f < g" "g \<le> length ix"
    and A: "argsOf Q N a0 a" and k: "k < kaDK a0"
  shows "\<exists>r' a'. ic_pickCenter e data ix (int f) (int g) k (rs, a) = Ret (r', a') \<and> argsOf Q N a0 a'"
proof -
  obtain randid r' where rn: "kmRand e rs (int g) (int f) = (randid, r')" by (cases "kmRand e rs (int g) (int f)")
  have "int f \<le> fst (kmRand e rs (int g) (int f)) \<and> fst (kmRand e rs (int g) (int f)) < int g"
    using src r(1) unfolding source_ok_def kmEnv_ok_def by simp
  then have "randid = int (nat randid)" "f \<le> nat randid" "nat randid < g" using rn by auto
  then obtain p where p: "randid = int p" "f \<le> p" "p < g" by blast
  have x: "ix ! p \<in> set (idsIn ix f g)" by (rule idsIn_nth) (use r p in simp_all)
  then have v: "data (ix ! p) = Ret (valOf data (ix ! p))" "Q (valOf data (ix ! p))"
    using src by (auto simp: source_ok_def intro: data_val)
  have sh: "ka_shape N a" and kK: "k < kaK a" using A k by (auto simp: argsOf_def ka_shape_def)
  have "ic_pickCenter e data ix (int f) (int g) k (rs, a) = Ret (r', a\<lparr>kaCenters := (kaCenters a)[k := valOf data (ix ! p)]\<rparr>)"
    using rn p r v(1) sh kK by (simp add: ic_pickCenter_def vecAt_nat vecSet_nat ka_shape_def)
  moreover have "argsOf Q N a0 (a\<lparr>kaCenters := (kaCenters a)[k := valOf data (ix ! p)]\<rparr>)"
    using A v(2) by (auto simp: argsOf_def ka_shape_def dest!: set_update_subset_insert [THEN subsetD])
  ultimately show ?thesis by blast
qed

lemma pickCenters_ok:
  fixes e :: "('r, 'v, 'a, 'f :: linorder) kmEnv"
  assumes src: "source_ok Q e data (set (idsIn ix f g))" and r: "f < g" "g \<le> length ix" and A: "argsOf Q N a0 a"
  shows "\<exists>r' a'. loopOver (ic_pickCenter e data ix (int f) (int g)) [0 ..< kaDK a] (rs, a) = Ret (r', a') \<and> argsOf Q N a0 a'"
proof -
  have "\<exists>s'. loopOver (ic_pickCenter e data ix (int f) (int g)) [0 ..< kaDK a] (rs, a) = Ret s' \<and> argsOf Q N a0 (snd s')"
  proof (rule loopOver_inv [where I = "\<lambda>_ s. argsOf Q N a0 (snd s)"])
    show "argsOf Q N a0 (snd (rs, a))" using A by simp
  next
    fix prev k rest and s :: "'r \<times> ('v, 'a, 'f) kmArgs"
    assume split: "[0 ..< kaDK a] = prev @ k # rest" and I: "argsOf Q N a0 (snd s)"
    have "k \<in> set [0 ..< kaDK a]" unfolding split by simp
    then have "k < kaDK a0" using A by (simp add: argsOf_def)
    then show "\<exists>s'. ic_pickCenter e data ix (int f) (int g) k s = Ret s' \<and> argsOf Q N a0 (snd s')"
      using pickCenter_ok [OF src r I, of k "fst s"] by force
  qed
  then show ?thesis by force
qed

lemma idsIn_prefix: "h \<le> g \<Longrightarrow> set (idsIn ix f h) \<subseteq> set (idsIn ix f g)"
  unfolding idsIn_def by (rule set_take_subset_set_take) simp

text \<open>An assignment on the sample \<open>[first, batchEnd)\<close>, with the counts taken over afterwards.\<close>

lemma refining_run:
  assumes src: "source_ok Q e data (set (idsIn ix f g))" and r: "f < h" "h \<le> g" "g \<le> length ix" "g \<le> N" and A: "argsOf Q N a0 a"
  shows "\<exists>a' c. KmeansAssign e data ix (int f) (int h) (ka_ClearDists (kmMinDist e) (ka_ClearCounts e a)) True lambda = Ret (a', c)
    \<and> argsOf Q N a0 a' \<and> usable (set (idsIn ix f g)) a'"
proof -
  have sh: "ka_shape N a" and e: "kmEnv_ok e" and mm: "kmMinDist e < kmMaxDist e"
    using A src by (auto simp: argsOf_def source_ok_def kmEnv_ok_def)
  have d: "data_ok data (set (idsIn ix f h))" using src idsIn_prefix [OF r(2)] by (auto simp: source_ok_def intro: data_sub)
  obtain a' c where k: "KmeansAssign e data ix (int f) (int h) (ka_ClearDists (kmMinDist e) (ka_ClearCounts e a)) True lambda = Ret (a', c)"
    and as: "assigned True (kmMinDist e) (labelOf e data a lambda) (scoreOf e data a lambda) N ix (int f) (int h) a a'"
    using assign_run [where u = True and lambda = lambda, OF sh e r(1) _ _ d] r by auto
  have hl: "h \<le> length ix" using r by simp
  have "usable (set (idsIn ix f h)) a'" using assigned_usable [OF as r(1) hl] pick_ok(2) [OF sh mm] by blast
  then have "usable (set (idsIn ix f g)) a'" using idsIn_prefix [OF r(2)] by (auto simp: usable_def)
  moreover have "argsOf Q N a0 a'" using argsOf_same [OF A] as by (simp add: assigned_def)
  ultimately show ?thesis using k by blast
qed

lemma counted_usable:
  assumes "usable X a" "ka_shape N a"
  shows "usable X (a\<lparr>kaCounts := take (kaK a) (kaNewCounts a)\<rparr>)"
    "k < kaDK a \<Longrightarrow> kaCounts (a\<lparr>kaCounts := take (kaK a) (kaNewCounts a)\<rparr>) ! k = kaNewCounts a ! k"
  using assms shape_nth [OF assms(2)] by (auto simp: usable_def)

lemma min_sample: "f < g \<Longrightarrow> 0 < (samples :: int) \<Longrightarrow> \<exists>h. min (int f + samples) (int g) = int h \<and> f < h \<and> h \<le> g"
  by (intro exI [of _ "nat (min (int f + samples) (int g))"]) (auto simp: min_def)

lemma ic_try_ok:
  assumes src: "source_ok Q e data (set (idsIn ix f g))" and r: "f < h" "h \<le> g" "g \<le> length ix" "g \<le> N" and A: "argsOf Q N a0 a"
  shows "\<exists>r' a' l m. ic_try e data ix (int f) (int g) (int h) n (rs, a, lambda, mn) = Ret (r', a', l, m) \<and> argsOf Q N a0 a'"
proof -
  have fg: "f < g" using r by simp
  obtain r1 a1 where p: "loopOver (ic_pickCenter e data ix (int f) (int g)) [0 ..< kaDK a] (rs, a) = Ret (r1, a1)" "argsOf Q N a0 a1"
    using pickCenters_ok [OF src fg r(3) A] by blast
  obtain a2 c where k: "KmeansAssign e data ix (int f) (int h) (ka_ClearDists (kmMinDist e) (ka_ClearCounts e a1)) True (kmOfInt e 0) = Ret (a2, c)"
    "argsOf Q N a0 a2" "usable (set (idsIn ix f g)) a2" using refining_run [OF src r p(2)] by blast
  let ?a3 = "a2\<lparr>kaNewTCenters := kaCenters a2, kaCounts := take (kaK a2) (kaNewCounts a2)\<rparr>"
  have sh: "ka_shape N a2" using k(2) by (simp add: argsOf_def)
  have A3: "argsOf Q N a0 ?a3" using k(2) by (auto simp: argsOf_def ka_shape_def)
  then have "ka_shape N ?a3" unfolding argsOf_def by blast
  moreover have "usable (set (idsIn ix f g)) ?a3" using k(3) by (simp add: usable_def)
  moreover have "kaCounts ?a3 ! j = kaNewCounts ?a3 ! j" if "j < kaDK ?a3" for j using shape_nth [OF sh] that by simp
  ultimately obtain l where "RefineLambda e ?a3 (int h - int f) = Ret l" using RefineLambda_ok by blast
  then show ?thesis using p(1) k A3 by (auto simp: ic_try_def Let_def)
qed

lemma InitCenters_ok:
  fixes e :: "('r, 'v, 'a, 'f :: linorder) kmEnv"
  assumes src: "source_ok Q e data (set (idsIn ix f g))" and r: "f < g" "g \<le> length ix" "g \<le> N" and A: "argsOf Q N a0 a"
    and s: "0 < samples"
  shows "\<exists>r' a' l. InitCenters e data ix (int f) (int g) a samples n rs = Ret (r', a', l) \<and> argsOf Q N a0 a'"
proof -
  obtain h where h: "min (int f + samples) (int g) = int h" "f < h" "h \<le> g" using min_sample [OF r(1) s] by blast
  have "\<exists>s'. loopOver (ic_try e data ix (int f) (int g) (int h)) [0 ..< n] (rs, a, kmOfInt e 0, kmMaxDist e) = Ret s'
    \<and> argsOf Q N a0 (fst (snd s'))"
  proof (rule loopOver_inv [where I = "\<lambda>_ s. argsOf Q N a0 (fst (snd s))"])
    show "argsOf Q N a0 (fst (snd (rs, a, kmOfInt e 0, kmMaxDist e)))" using A by simp
  next
    fix prev k rest and s :: "'r \<times> ('v, 'a, 'f) kmArgs \<times> 'f \<times> 'f"
    assume "argsOf Q N a0 (fst (snd s))"
    then show "\<exists>s'. ic_try e data ix (int f) (int g) (int h) k s = Ret s' \<and> argsOf Q N a0 (fst (snd s'))"
      using ic_try_ok [OF src h(2,3) r(2,3), of a0 "fst (snd s)" k "fst s" "fst (snd (snd s))" "snd (snd (snd s))"] by force
  qed
  then show ?thesis unfolding InitCenters_def h(1) by force
qed

lemma RefineCenters_ok:
  fixes e :: "('r, 'v, 'a, 'f :: linorder) kmEnv"
  assumes src: "source_ok Q e data X" and A: "argsOf Q N a0 a" and u: "usable X a"
  shows "\<exists>a' d. RefineCenters e data a = Ret (a', d) \<and> argsOf Q N a0 a'"
proof -
  have sh: "ka_shape N a" and Qc: "\<And>v. v \<in> set (kaCenters a) \<Longrightarrow> Q v" and Qm: "\<And>z c. Q (kmMean e z c)"
    using A src by (auto simp: argsOf_def source_ok_def)
  have idx: "vecAt (kaClusterIdx a) (int k) = Ret (kaClusterIdx a ! k)"
    "data (kaClusterIdx a ! k) = Ret (valOf data (kaClusterIdx a ! k))" "Q (valOf data (kaClusterIdx a ! k))"
    if "k < kaDK a" "0 < kaNewCounts a ! k" for k
    using that shape_nth [OF sh that(1)] sh src u by (auto simp: usable_def source_ok_def ka_shape_def vecAt_nat intro: data_val)
  have cen: "vecAt (kaCenters a) (int k) = Ret (kaCenters a ! k)" "kaCenters a ! k \<in> set (kaCenters a)" if "k < kaDK a" for k
    using shape_nth [OF sh that] sh by (simp_all add: vecAt_nat ka_shape_def)
  let ?test = "\<lambda>k. andThen (vecAt (kaClusterIdx a) (int k)) (\<lambda>x. andThen (data x) (\<lambda>v.
      andThen (vecAt (kaCenters a) (int k)) (\<lambda>c. Ret (kmMoved e < kmL2 e v c))))"
  have "\<exists>b. ?test k = Ret b" if "k < kaDK a" "0 < kaNewCounts a ! k" for k using idx [OF that] cen [OF that(1)] by simp
  from biggest_ok [where test = ?test, OF sh this] obtain m c where m: "loopOver (km_biggest ?test a) [0 ..< kaDK a] (- 1, 0) = Ret (m, c)"
    "m = - 1 \<or> (\<exists>k < kaDK a. m = int k \<and> 0 < kaNewCounts a ! k)" by blast
  let ?I = "\<lambda>s :: ('v, 'a, 'f) kmArgs \<times> 'f. \<exists>ts. fst s = a\<lparr>kaNewTCenters := ts\<rparr> \<and> argsOf Q N a0 (fst s)"
  have "\<exists>s'. loopOver (rc_step e data m) [0 ..< kaDK a] (a, kmOfInt e 0) = Ret s' \<and> ?I s'"
  proof (rule loopOver_inv [where I = "\<lambda>_. ?I"])
    show "?I (a, kmOfInt e 0)" using A by (intro exI [of _ "kaNewTCenters a"]) simp
  next
    fix prev k rest and s :: "('v, 'a, 'f) kmArgs \<times> 'f"
    assume split: "[0 ..< kaDK a] = prev @ k # rest" and "?I s"
    then obtain ts where s: "fst s = a\<lparr>kaNewTCenters := ts\<rparr>" "argsOf Q N a0 (fst s)" by blast
    have "k \<in> set [0 ..< kaDK a]" unfolding split by simp
    then have k: "k < kaDK a" by simp
    have b: "k < kaK a" "k < kaT a * kaK a" using shape_nth [OF sh k] by simp_all
    have "\<exists>v. rc_newCenter e data (a\<lparr>kaNewTCenters := ts\<rparr>) m k = Ret v \<and> Q v"
    proof (cases "kaCounts a ! k = 0")
      case True
      have at: "vecAt (kaCounts a) (int k) = Ret 0" using True b sh by (simp add: vecAt_nat ka_shape_def)
      show ?thesis using m(2) idx cen [OF k] Qc at by (auto simp: rc_newCenter_def)
    next
      case False
      then show ?thesis using b sh Qm by (simp add: rc_newCenter_def vecAt_nat ka_shape_def)
    qed
    then obtain v where v: "rc_newCenter e data (a\<lparr>kaNewTCenters := ts\<rparr>) m k = Ret v" "Q v" by blast
    have "length ts = kaK a" using s by (simp add: argsOf_def ka_shape_def)
    then have st: "vecSet ts (int k) v = Ret (ts[k := v])" using b by (simp add: vecSet_nat)
    have "rc_step e data m k s = Ret (a\<lparr>kaNewTCenters := ts[k := v]\<rparr>, kmAdd e (snd s) (kmL2 e v (kaCenters a ! k)))"
      using v(1) st cen [OF k] s(1) by (simp add: rc_step_def split_beta)
    moreover have "argsOf Q N a0 (a\<lparr>kaNewTCenters := ts[k := v]\<rparr>)"
      using s v(2) by (auto simp: argsOf_def ka_shape_def dest!: set_update_subset_insert [THEN subsetD])
    ultimately show "\<exists>s'. rc_step e data m k s = Ret s' \<and> ?I s'" by auto
  qed
  then show ?thesis unfolding RefineCenters_def using m(1) by force
qed

lemma tc_rounds_ok:
  assumes "source_ok Q e data (set (idsIn ix f g))" "f < h" "h \<le> g" "g \<le> length ix" "g \<le> N" "argsOf Q N a0 a"
  shows "\<exists>r' ix' a'. tc_rounds n e data (int f) (int g) (int h) lambda mn ni (rs, ix, a) = Ret (r', ix', a')
    \<and> segPerm f g ix ix' \<and> argsOf Q N a0 a'"
  using assms
proof (induction n arbitrary: mn ni rs ix a)
  case 0
  then show ?case by (simp add: segPerm_refl)
next
  case (Suc n)
  note r = Suc.prems(2-5)
  have e: "kmEnv_ok e" using Suc.prems(1) by (simp add: source_ok_def)
  obtain ix1 r1 where s: "shuffleRange e rs ix (int f) (int g) = (ix1, r1)" "segPerm f g ix ix1"
    using shuffleRange_ok [OF e _ r(3), of f rs] r by auto
  have src: "source_ok Q e data (set (idsIn ix1 f g))" using Suc.prems(1) segPerm_set [OF s(2)] by simp
  have len: "g \<le> length ix1" using s(2) r by (simp add: segPerm_def)
  let ?a1 = "ka_ClearCenters e (a\<lparr>kaCenters := kaNewTCenters a\<rparr>)"
  have A1: "argsOf Q N a0 ?a1" using Suc.prems(6) by (auto simp: argsOf_def ka_shape_def ka_ClearCenters_def)
  obtain a2 c where k: "KmeansAssign e data ix1 (int f) (int h) (ka_ClearDists (kmMinDist e) (ka_ClearCounts e ?a1)) True lambda = Ret (a2, c)"
    "argsOf Q N a0 a2" "usable (set (idsIn ix1 f g)) a2"
    using refining_run [OF src r(1,2) len r(4) A1] by blast
  let ?a3 = "a2\<lparr>kaCounts := take (kaK a2) (kaNewCounts a2)\<rparr>"
  have "usable (set (idsIn ix1 f g)) ?a3" using k(3) by (simp add: usable_def)
  then obtain a4 d where c: "RefineCenters e data ?a3 = Ret (a4, d)" "argsOf Q N a0 a4"
    using RefineCenters_ok [OF src argsOf_counted [OF k(2)]] by blast
  let ?ni = "if c < mn then 0 else ni + 1"
  let ?mn = "if c < mn then c else mn"
  show ?case
  proof (cases "d < kmStill e \<or> 5 \<le> ?ni")
    case True
    then have "tc_rounds (Suc n) e data (int f) (int g) (int h) lambda mn ni (rs, ix, a) = Ret (r1, ix1, a4)"
      using s(1) k(1) c(1) by (simp only: tc_rounds.simps prod.case Let_def andThen.simps if_True)
    then show ?thesis using s(2) c(2) by blast
  next
    case False
    then have "tc_rounds (Suc n) e data (int f) (int g) (int h) lambda mn ni (rs, ix, a)
        = tc_rounds n e data (int f) (int g) (int h) lambda ?mn ?ni (r1, ix1, a4)"
      using s(1) k(1) c(1) by (simp only: tc_rounds.simps prod.case Let_def andThen.simps if_False)
    moreover obtain r' ix' a' where "tc_rounds n e data (int f) (int g) (int h) lambda ?mn ?ni (r1, ix1, a4) = Ret (r', ix', a')"
      "segPerm f g ix1 ix'" "argsOf Q N a0 a'" using Suc.IH [OF src r(1,2) len r(4) c(2)] by blast
    ultimately show ?thesis using segPerm_trans [OF s(2)] by auto
  qed
qed

section \<open>The clustering\<close>

lemma realCenters_ok:
  fixes a :: "('v, 'a, 'f :: linorder) kmArgs"
  assumes A: "argsOf Q N a0 a" and src: "source_ok Q (e :: ('r, 'v, 'a, 'f) kmEnv) data X"
    and idx: "\<And>k. k < kaDK a \<Longrightarrow> kaClusterIdx a ! k = - 1 \<or> kaClusterIdx a ! k \<in> X"
  shows "\<exists>a'. loopOver (tc_realCenter data) [0 ..< kaDK a] a = Ret a' \<and> argsOf Q N a0 a'"
proof -
  let ?I = "\<lambda>s. \<exists>cs. s = a\<lparr>kaCenters := cs\<rparr> \<and> argsOf Q N a0 s"
  have "\<exists>s'. loopOver (tc_realCenter data) [0 ..< kaDK a] a = Ret s' \<and> ?I s'"
  proof (rule loopOver_inv [where I = "\<lambda>_. ?I"])
    show "?I a" using A by (intro exI [of _ "kaCenters a"]) simp
  next
    fix prev k rest and s :: "('v, 'a, 'f) kmArgs"
    assume split: "[0 ..< kaDK a] = prev @ k # rest" and "?I s"
    then obtain cs where s: "s = a\<lparr>kaCenters := cs\<rparr>" "argsOf Q N a0 s" by blast
    have "k \<in> set [0 ..< kaDK a]" unfolding split by simp
    then have k: "k < kaDK a" by simp
    have sh: "ka_shape N a" using A by (simp add: argsOf_def)
    have at: "vecAt (kaClusterIdx s) (int k) = Ret (kaClusterIdx a ! k)"
      using shape_nth [OF sh k] sh s(1) by (simp add: vecAt_nat ka_shape_def)
    show "\<exists>s'. tc_realCenter data k s = Ret s' \<and> ?I s'"
    proof (cases "kaClusterIdx a ! k = - 1")
      case True
      then show ?thesis using at s by (auto simp: tc_realCenter_def)
    next
      case False
      then have x: "data (kaClusterIdx a ! k) = Ret (valOf data (kaClusterIdx a ! k))" "Q (valOf data (kaClusterIdx a ! k))"
        using idx [OF k] src by (auto simp: source_ok_def intro: data_val)
      have "length cs = kaK a" using s A by (simp add: argsOf_def ka_shape_def)
      then have "tc_realCenter data k s = Ret (a\<lparr>kaCenters := cs[k := valOf data (kaClusterIdx a ! k)]\<rparr>)"
        using at False x(1) s(1) shape_nth [OF sh k] by (simp add: tc_realCenter_def vecSet_nat)
      moreover have "argsOf Q N a0 (a\<lparr>kaCenters := cs[k := valOf data (kaClusterIdx a ! k)]\<rparr>)"
        using s x(2) by (auto simp: argsOf_def ka_shape_def dest!: set_update_subset_insert [THEN subsetD])
      ultimately show ?thesis by auto
    qed
  qed
  then show ?thesis by blast
qed

text \<open>The outcome of the last assignment: labels, histogram and chosen members for the centres as they are.\<close>

definition labelled ::
  "('r, 'v, 'a, 'f :: linorder) kmEnv \<Rightarrow> (int \<Rightarrow> 'v outcome) \<Rightarrow> nat \<Rightarrow> nat \<Rightarrow> int list \<Rightarrow> ('v, 'a, 'f) kmArgs \<Rightarrow> nat list
     \<Rightarrow> (int \<Rightarrow> nat) \<Rightarrow> bool" where
  "labelled e data f g ix a cnts L \<longleftrightarrow> length cnts = kaK a \<and> kaCounts a = map int cnts
     \<and> take (kaK a) (kaNewCounts a) = map int cnts \<and> sum_list cnts = g - f
     \<and> (\<forall>x \<in> set (idsIn ix f g). nearestOf e a (valOf data x) (L x))
     \<and> (\<forall>p. f \<le> p \<longrightarrow> p < g \<longrightarrow> kaLabel a ! p = int (L (ix ! p)))
     \<and> (\<forall>l < kaK a. cnts ! l = length (filter (\<lambda>x. L x = l) (idsIn ix f g)))
     \<and> (\<forall>k < kaK a. 0 < cnts ! k \<longrightarrow> L (kaClusterIdx a ! k) = k \<and> kaClusterIdx a ! k \<in> set (idsIn ix f g)
          \<and> (\<forall>x \<in> set (idsIn ix f g). L x = k \<longrightarrow> clipDist e (kmDist e (valOf data (kaClusterIdx a ! k)) (kaCenters a ! k))
               \<le> clipDist e (kmDist e (valOf data x) (kaCenters a ! k))))"

lemma sum_filters: "\<forall>x \<in> set xs. L x < K \<Longrightarrow> sum_list (map (\<lambda>k. length (filter (\<lambda>x. L x = k) xs)) [0 ..< K]) = length xs"
proof (induction xs)
  case Nil
  then show ?case by (induction K) auto
next
  case (Cons x xs)
  have "(\<lambda>k. length (filter (\<lambda>y. L y = k) (x # xs))) = (\<lambda>k. (if k = L x then 1 else 0) + length (filter (\<lambda>y. L y = k) xs))"
    by (intro ext) simp
  moreover have "sum_list (map (\<lambda>k. if k = L x then 1 else 0) [0 ..< K]) = (1 :: nat)"
    using Cons.prems by (simp add: sum_list_distinct_conv_sum_set)
  ultimately show ?case using Cons by (simp add: sum_list_addf)
qed

lemma tc_final_ok:
  assumes src: "source_ok Q e data (set (idsIn ix f g))" and r: "f < g" "g \<le> length ix" "g \<le> N" and A: "argsOf Q N a0 a"
  shows "\<exists>a' c cnts L. tc_final e data ix (int f) (int g) a = Ret (a', c) \<and> argsOf Q N a0 (a'\<lparr>kaCounts := take (kaK a') (kaNewCounts a')\<rparr>)
    \<and> argsOf Q N a0 a' \<and> labelled e data f g ix (a'\<lparr>kaCounts := take (kaK a') (kaNewCounts a')\<rparr>) cnts L
    \<and> (\<forall>k < kaDK a'. kaClusterIdx a' ! k = - 1 \<or> kaClusterIdx a' ! k \<in> set (idsIn ix f g))"
proof -
  let ?L = "labelOf e data a (kmOfInt e 0)"
  let ?S = "scoreOf e data a (kmOfInt e 0)"
  let ?xs = "idsIn ix f g"
  have sh: "ka_shape N a" and e: "kmEnv_ok e" and d: "data_ok data (set ?xs)" using A src by (auto simp: argsOf_def source_ok_def)
  obtain a' c where k: "tc_final e data ix (int f) (int g) a = Ret (a', c)"
    and as: "assigned False (kmMaxDist e) ?L ?S N ix (int f) (int g) a a'"
    using assign_run [where u = False and lambda = "kmOfInt e 0", OF sh e r d] unfolding tc_final_def by auto
  have sh': "ka_shape N a'" and sm: "ka_same a a'" using as by (simp_all add: assigned_def)
  have A': "argsOf Q N a0 a'" by (rule argsOf_same [OF A sh' sm])
  let ?a = "a'\<lparr>kaCounts := take (kaK a') (kaNewCounts a')\<rparr>"
  have dims: "kaK a' = kaK a" "kaDK a' = kaDK a" "kaCenters a' = kaCenters a" using sm by (simp_all add: ka_same_def)
  have M: "membersIn ?L ix [int f .. int g - 1] k = filter (\<lambda>x. ?L x = k) ?xs" for k using membersIn_ids r by simp
  have mm: "kmMinDist e < kmMaxDist e" using e by (simp add: kmEnv_ok_def)
  have L: "?L x < kaDK a" for x using pick_ok(2) [OF sh mm] by blast
  have near: "nearestOf e a (valOf data x) (?L x)" "?S x = clipDist e (kmDist e (valOf data x) (kaCenters a ! ?L x))" for x
    using pick_nearest [OF sh e] by blast+
  have DK: "kaDK a \<le> kaK a" using sh by (simp add: ka_shape_def)
  let ?cnts = "map (\<lambda>k. length (filter (\<lambda>x. ?L x = k) ?xs)) [0 ..< kaK a]"
  have nc: "kaNewCounts a' ! k = int (length (filter (\<lambda>x. ?L x = k) ?xs))" if "k < kaK a" for k
  proof (cases "k < kaDK a")
    case True
    then show ?thesis using as by (simp add: assigned_def M)
  next
    case False
    then have "filter (\<lambda>x. ?L x = k) ?xs = []" using L by (auto simp: filter_empty_conv)
    then show ?thesis using as False that by (simp add: assigned_def)
  qed
  have ncs: "take (kaK a) (kaNewCounts a') = map int ?cnts"
  proof (rule nth_equalityI)
    have "kaK a \<le> length (kaNewCounts a')" using sh' dims by (auto simp: ka_shape_def)
    then show "length (take (kaK a) (kaNewCounts a')) = length (map int ?cnts)" by simp
  qed (use nc in simp)
  have ch: "chosen_ok False (kmMaxDist e) ?S (filter (\<lambda>x. ?L x = k) ?xs) (kaClusterIdx a' ! k) (kaClusterDist a' ! k)" if "k < kaDK a" for k
    using as that by (simp add: assigned_def M)
  have "labelled e data f g ix ?a ?cnts ?L"
    unfolding labelled_def
  proof (intro conjI)
    have "\<forall>x \<in> set ?xs. ?L x < kaK a" using L DK by (meson order_less_le_trans)
    then show "sum_list ?cnts = g - f" using sum_filters [of ?xs ?L "kaK a"] r by (simp add: idsIn_def)
    show "\<forall>x \<in> set ?xs. nearestOf e ?a (valOf data x) (?L x)" using near(1) dims by (simp add: nearestOf_def)
    show "\<forall>p. f \<le> p \<longrightarrow> p < g \<longrightarrow> kaLabel ?a ! p = int (?L (ix ! p))"
    proof (intro allI impI)
      fix p assume "f \<le> p" "p < g"
      then have "int p \<in> {int f ..< int g}" by simp
      then have "kaLabel a' ! nat (int p) = int (?L (ix ! nat (int p)))" using as unfolding assigned_def by blast
      then show "kaLabel ?a ! p = int (?L (ix ! p))" by simp
    qed
    show "\<forall>k < kaK ?a. 0 < ?cnts ! k \<longrightarrow> ?L (kaClusterIdx ?a ! k) = k \<and> kaClusterIdx ?a ! k \<in> set ?xs
      \<and> (\<forall>x \<in> set ?xs. ?L x = k \<longrightarrow> clipDist e (kmDist e (valOf data (kaClusterIdx ?a ! k)) (kaCenters ?a ! k))
               \<le> clipDist e (kmDist e (valOf data x) (kaCenters ?a ! k)))"
    proof (intro allI impI)
      fix k assume kb: "k < kaK ?a" "0 < ?cnts ! k"
      then have ne: "filter (\<lambda>x. ?L x = k) ?xs \<noteq> []" using dims by simp
      then obtain z where "?L z = k" by (auto simp: filter_empty_conv)
      then have "k < kaDK a" using L by blast
      from ch [OF this] ne have z: "kaClusterIdx a' ! k \<in> set ?xs" "?L (kaClusterIdx a' ! k) = k"
        "\<And>x. x \<in> set ?xs \<Longrightarrow> ?L x = k \<Longrightarrow> ?S (kaClusterIdx a' ! k) \<le> ?S x"
        unfolding chosen_ok_def by (auto simp: better_def)
      have z': "clipDist e (kmDist e (valOf data (kaClusterIdx a' ! k)) (kaCenters a ! k))
               \<le> clipDist e (kmDist e (valOf data x) (kaCenters a ! k))" if "x \<in> set ?xs" "?L x = k" for x
        using z(3) [OF that] unfolding near(2) z(2) that(2) .
      show "?L (kaClusterIdx ?a ! k) = k \<and> kaClusterIdx ?a ! k \<in> set ?xs
        \<and> (\<forall>x \<in> set ?xs. ?L x = k \<longrightarrow> clipDist e (kmDist e (valOf data (kaClusterIdx ?a ! k)) (kaCenters ?a ! k))
               \<le> clipDist e (kmDist e (valOf data x) (kaCenters ?a ! k)))"
        using z(1,2) z' dims by simp
    qed
  qed (use ncs dims in simp_all)
  moreover have "kaClusterIdx a' ! k = - 1 \<or> kaClusterIdx a' ! k \<in> set ?xs" if "k < kaDK a'" for k
    using ch [of k] that dims unfolding chosen_ok_def by (auto split: if_splits)
  ultimately show ?thesis using k A' argsOf_counted [OF A'] by blast
qed

lemma TryClustering_ok:
  assumes src: "source_ok Q e data (set (idsIn ix f g))" and r: "f < g" "g \<le> length ix" "g \<le> N" and A: "argsOf Q N a0 a"
    and s: "0 < samples"
  shows "\<exists>r' ix' a' std cnts L. TryClustering e data ix (int f) (int g) a samples lf vc rs = Ret (r', ix', a', std)
    \<and> segPerm f g ix ix' \<and> argsOf Q N a0 a' \<and> labelled e data f g ix' a' cnts L"
proof -
  obtain h where h: "min (int f + samples) (int g) = int h" "f < h" "h \<le> g" using min_sample [OF r(1) s] by blast
  obtain r1 a1 l where i: "InitCenters e data ix (int f) (int g) a samples 3 rs = Ret (r1, a1, l)" "argsOf Q N a0 a1"
    using InitCenters_ok [OF src r A s] by blast
  let ?orig = "kmDiv e (kmDiv e (kmBaseSquare e) lf) (kmOfInt e (int h - int f))"
  obtain r2 ix2 a2 where t: "tc_rounds 100 e data (int f) (int g) (int h) (min l ?orig) (kmMaxDist e) 0 (r1, ix, a1) = Ret (r2, ix2, a2)"
    "segPerm f g ix ix2" "argsOf Q N a0 a2"
    using tc_rounds_ok [OF src h(2,3) r(2,3) i(2)] by blast
  have src2: "source_ok Q e data (set (idsIn ix2 f g))" using src segPerm_set [OF t(2)] by simp
  have len: "g \<le> length ix2" using t(2) r by (simp add: segPerm_def)
  have "\<exists>a4. (if vc then Ret a2 else andThen (tc_final e data ix2 (int f) (int g) a2)
      (\<lambda>(a3, _). loopOver (tc_realCenter data) [0 ..< kaDK a3] a3)) = Ret a4 \<and> argsOf Q N a0 a4"
  proof (cases vc)
    case True
    then show ?thesis using t(3) by simp
  next
    case False
    obtain a3 c where f: "tc_final e data ix2 (int f) (int g) a2 = Ret (a3, c)" "argsOf Q N a0 a3"
      "\<forall>k < kaDK a3. kaClusterIdx a3 ! k = - 1 \<or> kaClusterIdx a3 ! k \<in> set (idsIn ix2 f g)"
      using tc_final_ok [OF src2 r(1) len r(3) t(3)] by blast
    then show ?thesis using False realCenters_ok [OF f(2) src2] by auto
  qed
  then obtain a4 where v: "(if vc then Ret a2 else andThen (tc_final e data ix2 (int f) (int g) a2)
      (\<lambda>(a3, _). loopOver (tc_realCenter data) [0 ..< kaDK a3] a3)) = Ret a4" "argsOf Q N a0 a4" by blast
  obtain a5 c cnts L where f: "tc_final e data ix2 (int f) (int g) a4 = Ret (a5, c)"
    "argsOf Q N a0 (a5\<lparr>kaCounts := take (kaK a5) (kaNewCounts a5)\<rparr>)"
    "labelled e data f g ix2 (a5\<lparr>kaCounts := take (kaK a5) (kaNewCounts a5)\<rparr>) cnts L"
    using tc_final_ok [OF src2 r(1) len r(3) v(2)] by blast
  have "TryClustering e data ix (int f) (int g) a samples lf vc rs = Ret (r2, ix2, a5\<lparr>kaCounts := take (kaK a5) (kaNewCounts a5)\<rparr>,
      tc_countStd e (int g - int f) (a5\<lparr>kaCounts := take (kaK a5) (kaNewCounts a5)\<rparr>))"
    unfolding TryClustering_def i(1) andThen.simps prod.case Let_def h(1) t(1) v(1) f(1) ..
  then show ?thesis using t(2) f(2,3) by blast
qed

text \<open>
  The clusters of a range: the counts are the lengths of consecutive stretches; every member of a stretch has the centre of
  its cluster as nearest centre, and the last member is the nearest of them to it.
\<close>

definition clustersOf ::
  "('r, 'v, 'a, 'f :: linorder) kmEnv \<Rightarrow> (int \<Rightarrow> 'v outcome) \<Rightarrow> nat \<Rightarrow> nat \<Rightarrow> int list \<Rightarrow> ('v, 'a, 'f) kmArgs \<Rightarrow> nat list \<Rightarrow> bool" where
  "clustersOf e data f g ix a cnts \<longleftrightarrow> length cnts = kaK a \<and> kaCounts a = map int cnts \<and> sum_list cnts = g - f
     \<and> (\<forall>k < kaK a. \<forall>p \<in> stretch f cnts k. nearestOf e a (valOf data (ix ! p)) k
          \<and> clipDist e (kmDist e (valOf data (ix ! (startOf f cnts k + cnts ! k - 1))) (kaCenters a ! k))
            \<le> clipDist e (kmDist e (valOf data (ix ! p)) (kaCenters a ! k)))"

lemma card_shift: "g \<le> length ix \<Longrightarrow> f \<le> g \<Longrightarrow> card {p \<in> {f ..< g}. P (ix ! p)} = length (filter P (idsIn ix f g))"
proof -
  assume r: "g \<le> length ix" "f \<le> g"
  have "{p \<in> {f ..< g}. P (ix ! p)} = (\<lambda>j. f + j) ` {j. j < length (idsIn ix f g) \<and> P (idsIn ix f g ! j)}" (is "?A = ?B")
  proof
    show "?A \<subseteq> ?B"
    proof
      fix p assume "p \<in> ?A"
      then show "p \<in> ?B" using r by (intro image_eqI [of _ _ "p - f"]) (auto simp: idsIn_def)
    qed
    show "?B \<subseteq> ?A" using r by (auto simp: idsIn_def)
  qed
  then show ?thesis by (simp add: length_filter_conv_card card_image)
qed

lemma KmeansClustering_ok:
  assumes src: "source_ok Q e data (set (idsIn ix f g))" and r: "f < g" "g \<le> length ix" "g \<le> N" and A: "argsOf Q N a0 a"
    and s: "0 < samples" and fuel: "g - f < fuel"
  shows "\<exists>n r' ix' a'. KmeansClustering fuel e data ix (int f) (int g) a samples lf vc rs = Ret (n, r', ix', a')
    \<and> segPerm f g ix ix' \<and> argsOf Q N a0 a' \<and> n = int (length (filter (\<lambda>c. 0 < c) (kaCounts a')))
    \<and> (1 < n \<longrightarrow> (\<exists>cnts. clustersOf e data f g ix' a' cnts))"
proof -
  obtain r1 ix1 a1 std cnts L where t: "TryClustering e data ix (int f) (int g) a samples lf vc rs = Ret (r1, ix1, a1, std)"
    "segPerm f g ix ix1" "argsOf Q N a0 a1" and lb: "labelled e data f g ix1 a1 cnts L"
    using TryClustering_ok [OF src r A s] by blast
  let ?n = "int (length (filter (\<lambda>c. 0 < c) (kaCounts a1)))"
  have sh: "ka_shape N a1" using t(3) by (simp add: argsOf_def)
  then have tk: "take (kaK a1) (kaCounts a1) = kaCounts a1" by (simp add: ka_shape_def)
  show ?thesis
  proof (cases "?n \<le> 1")
    case True
    then have "KmeansClustering fuel e data ix (int f) (int g) a samples lf vc rs = Ret (?n, r1, ix1, a1)"
      by (simp add: KmeansClustering_def t(1) tk)
    then show ?thesis using t(2,3) True by auto
  next
    case False
    have K: "length cnts = kaK a1" "kaCounts a1 = map int cnts" "take (kaK a1) (kaNewCounts a1) = map int cnts" "sum_list cnts = g - f"
      using lb by (simp_all add: labelled_def)
    have fg: "f + sum_list cnts = g" using K(4) r(1) by simp
    have len: "g \<le> length ix1" using t(2) r by (simp add: segPerm_def)
    have Lb: "L x < kaK a1" if "x \<in> set (idsIn ix1 f g)" for x
      using lb that sh unfolding labelled_def nearestOf_def ka_shape_def by (meson order_less_le_trans)
    have ch: "sh_chosen f cnts L ix1 (kaClusterIdx a1)"
      unfolding sh_chosen_def
    proof (intro conjI allI impI)
      have "kaK a1 * 1 \<le> kaT a1 * kaK a1" using sh by (auto simp: ka_shape_def)
      then show "length cnts \<le> length (kaClusterIdx a1)" using K(1) sh by (simp add: ka_shape_def)
    next
      fix k assume "k < length cnts" "0 < cnts ! k"
      then have z: "L (kaClusterIdx a1 ! k) = k" "kaClusterIdx a1 ! k \<in> set (idsIn ix1 f g)"
        using lb K(1) by (auto simp: labelled_def)
      then show "L (kaClusterIdx a1 ! k) = k" by simp
      obtain j where j: "j < length (idsIn ix1 f g)" "idsIn ix1 f g ! j = kaClusterIdx a1 ! k" using z(2) by (auto simp: in_set_conv_nth)
      then show "\<exists>q. f \<le> q \<and> q < f + sum_list cnts \<and> ix1 ! q = kaClusterIdx a1 ! k"
        using len r by (intro exI [of _ "f + j"]) (auto simp: idsIn_def fg)
    qed
    have lab: "kaLabel a1 ! p = int (L (ix1 ! p)) \<and> L (ix1 ! p) < length cnts" if "f \<le> p" "p < f + sum_list cnts" for p
      using lb that Lb idsIn_nth [OF len] fg K(1) by (auto simp: labelled_def)
    have hist: "card {p \<in> {f ..< f + sum_list cnts}. L (ix1 ! p) = l} = cnts ! l" if "l < length cnts" for l
      using lb that K(1) card_shift [OF len, of f "\<lambda>x. L x = l"] r fg by (simp add: labelled_def)
    have g1: "f + sum_list cnts \<le> length ix1" "f + sum_list cnts \<le> length (kaLabel a1)"
      using fg len r sh by (simp_all add: ka_shape_def)
    obtain ix2 a2 where S: "ka_Shuffle fuel ix1 (int f) (int g) a1 = Ret (ix2, a2)" "sh_kept a1 a2"
      "shuffled f cnts L (kaClusterIdx a1) ix1 ix2"
      using Shuffle_ok [OF K(1-3) g1 lab hist ch] fuel K(4) by metis
    note kp = sh_keptD [OF S(2)]
    have run: "KmeansClustering fuel e data ix (int f) (int g) a samples lf vc rs = Ret (?n, r1, ix2, a2)"
      using False S(1) by (simp add: KmeansClustering_def t(1) tk)
    have ms: "mset ix2 = mset ix1" "\<forall>p < length ix2. p \<notin> {f ..< f + (g - f)} \<longrightarrow> ix2 ! p = ix1 ! p"
      using S(3) K(4) mset_eq_length [of ix2 ix1] by (auto simp: shuffled_def)
    have sp: "segPerm f g ix1 ix2"
      using seg_mset [OF ms] mset_eq_length [OF ms(1)] len r by (simp add: segPerm_def idsIn_def)
    have A2: "argsOf Q N a0 a2" using t(3) kp by (simp add: argsOf_def ka_shape_def)
    have cl: "clustersOf e data f g ix2 a2 cnts"
      unfolding clustersOf_def
    proof (intro conjI allI ballI impI)
      fix k p assume k: "k < kaK a2" and p: "p \<in> stretch f cnts k"
      have kc: "k < length cnts" using k K(1) kp by simp
      have pos: "0 < cnts ! k" using p by (auto simp: stretch_def)
      have pr: "f \<le> p" "p < g" using p startOf_end [OF kc, of f] startOf_ge [of f cnts k] fg by (auto simp: stretch_def)
      have "ix2 ! p \<in> set (idsIn ix2 f g)" using idsIn_nth pr sp len by (simp add: segPerm_def)
      then have x: "ix2 ! p \<in> set (idsIn ix1 f g)" using segPerm_set [OF sp] by simp
      have Lk: "L (ix2 ! p) = k" and last: "ix2 ! (startOf f cnts k + cnts ! k - 1) = kaClusterIdx a1 ! k"
        using S(3) kc p pos by (auto simp: shuffled_def sh_last_def)
      have "nearestOf e a1 (valOf data (ix2 ! p)) k" using lb x Lk by (auto simp: labelled_def)
      then show "nearestOf e a2 (valOf data (ix2 ! p)) k" using kp by (simp add: nearestOf_def)
      have "clipDist e (kmDist e (valOf data (kaClusterIdx a1 ! k)) (kaCenters a1 ! k))
          \<le> clipDist e (kmDist e (valOf data (ix2 ! p)) (kaCenters a1 ! k))"
        using lb x Lk pos kc K(1) by (auto simp: labelled_def)
      then show "clipDist e (kmDist e (valOf data (ix2 ! (startOf f cnts k + cnts ! k - 1))) (kaCenters a2 ! k))
          \<le> clipDist e (kmDist e (valOf data (ix2 ! p)) (kaCenters a2 ! k))" unfolding last kp(4) .
    qed (use K kp in simp_all)
    show ?thesis using run segPerm_trans [OF t(2) sp] A2 cl kp(5) by auto
  qed
qed

end
