(* ===== verification/TreeBuild.thy ===== *)
theory TreeBuild
  imports KClusters CommonDefs
begin

text \<open>
  \<open>BKTree\<close> (AnnService/inc/Core/Common/BKTree.h): balanced k-means trees over the vectors of a dataset, all in one array of
  nodes. A node has a centre and the range of its children in the array; the children of a node whose points could not be
  divided are all its points, and its \<open>childStart\<close> is negated. \<open>BuildTrees\<close> works off a stack of ranges of the index
  array. Locks are not state; no caller of the build asks to abort.
\<close>

section \<open>Nodes and trees\<close>

record bktNode =
  centerid :: int
  childStart :: int
  childEnd :: int

definition newNode :: "int \<Rightarrow> bktNode" where
  "newNode cid = \<lparr>centerid = cid, childStart = - 1, childEnd = - 1\<rparr>"

record 'f bkTree =
  tr_start :: "int list"
  tr_nodes :: "bktNode list"
  tr_sampleMap :: "int \<rightharpoonup> int"
  tr_number :: nat
  tr_kmeansK :: nat
  tr_leafSize :: int
  tr_samples :: int
  tr_bfs :: bool
  tr_balance :: 'f

definition tr_size :: "'f bkTree \<Rightarrow> int" where
  "tr_size t = int (length (tr_nodes t))"

definition tr_sizePerTree :: "'f bkTree \<Rightarrow> int outcome" where
  "tr_sizePerTree t = andThen (vecAt (tr_start t) (int (length (tr_start t)) - 1)) (\<lambda>s. Ret (int (length (tr_nodes t)) - s))"

text \<open>The copy constructor takes the parameters, but for \<open>m_bfs\<close>, which it leaves as the memory is (\<open>junkBfs\<close>).\<close>

definition tr_copy :: "bool \<Rightarrow> 'f bkTree \<Rightarrow> 'f bkTree" where
  "tr_copy junkBfs t = t\<lparr>tr_start := [], tr_nodes := [], tr_sampleMap := Map.empty, tr_bfs := junkBfs\<rparr>"

section \<open>Building\<close>

text \<open>The state of the loop: the stack of \<open>BKTStackItem\<close> (without its flag for debug output), the tree, the index array, the arguments of the clustering and the generator.\<close>

type_synonym stackItem = "int \<times> int \<times> int"

record ('r, 'v, 'a, 'f) buildSt =
  bs_stack :: "stackItem list"
  bs_tree :: "'f bkTree"
  bs_local :: "int list"
  bs_args :: "('v, 'a, 'f) kmArgs"
  bs_rand :: 'r

definition tr_push :: "int \<Rightarrow> 'f bkTree \<Rightarrow> 'f bkTree" where
  "tr_push cid t = t\<lparr>tr_nodes := tr_nodes t @ [newNode cid]\<rparr>"

definition tr_update :: "int \<Rightarrow> (bktNode \<Rightarrow> bktNode) \<Rightarrow> 'f bkTree \<Rightarrow> 'f bkTree outcome" where
  "tr_update i g t = andThen (vecUpd g (tr_nodes t) i) (\<lambda>ns. Ret (t\<lparr>tr_nodes := ns\<rparr>))"

text \<open>\<open>reverseIndices == nullptr ? localindices[j] : reverseIndices->at(localindices[j])\<close>.\<close>

definition bt_cid :: "int list option \<Rightarrow> int list \<Rightarrow> int \<Rightarrow> int outcome" where
  "bt_cid rix lix j = andThen (vecAt lix j) (\<lambda>x. case rix of None \<Rightarrow> Ret x | Some rs \<Rightarrow> vecAt rs x)"

definition bt_leaves :: "int list option \<Rightarrow> int list \<Rightarrow> int \<Rightarrow> int \<Rightarrow> 'f bkTree \<Rightarrow> 'f bkTree outcome" where
  "bt_leaves rix lix first stop t = loopOver (\<lambda>j t. andThen (bt_cid rix lix j) (\<lambda>cid. Ret (tr_push cid t))) [first .. stop - 1] t"

text \<open>A range that could not be divided: its ids and the node's own in order, the least becomes the centre, the others its children.\<close>

definition sortRange :: "int \<Rightarrow> int \<Rightarrow> int list \<Rightarrow> int list" where
  "sortRange first stop xs = take (nat first) xs @ sort (take (nat (stop - first)) (drop (nat first) xs)) @ drop (nat stop) xs"

definition bt_single :: "int list option \<Rightarrow> stackItem \<Rightarrow> int list \<Rightarrow> 'f bkTree \<Rightarrow> (int list \<times> 'f bkTree) outcome" where
  "bt_single rix item lix t = (case item of (idx, first, stop) \<Rightarrow>
     let e = min (stop + 1) (int (length lix));
         lix' = sortRange first e lix
     in andThen (bt_cid rix lix' first) (\<lambda>center.
        andThen (tr_update idx (\<lambda>n. n\<lparr>centerid := center, childStart := - childStart n\<rparr>) t) (\<lambda>t1.
        andThen (loopOver (\<lambda>j t. andThen (bt_cid rix lix' j) (\<lambda>cid.
                   Ret ((tr_push cid t)\<lparr>tr_sampleMap := (tr_sampleMap t)(cid \<mapsto> center)\<rparr>))) [first + 1 .. e - 1] t1) (\<lambda>t2.
        Ret (lix', t2\<lparr>tr_sampleMap := (tr_sampleMap t2)(- 1 - center \<mapsto> idx)\<rparr>)))))"

text \<open>One child per cluster with members; a cluster with more than its centre goes on the stack.\<close>

definition bt_child ::
  "int list option \<Rightarrow> int list \<Rightarrow> int list \<Rightarrow> nat \<Rightarrow> int \<times> stackItem list \<times> 'f bkTree \<Rightarrow> (int \<times> stackItem list \<times> 'f bkTree) outcome" where
  "bt_child rix lix counts k = (\<lambda>(first, ss, t).
     andThen (vecAt counts (int k)) (\<lambda>c.
     if c = 0 then Ret (first, ss, t)
     else andThen (bt_cid rix lix (first + c - 1)) (\<lambda>cid.
          let t' = tr_push cid t
          in Ret (first + c, if 1 < c then (tr_size t' - 1, first, first + c - 1) # ss else ss, t'))))"

definition bt_dynamicK :: "bool \<Rightarrow> int \<Rightarrow> nat \<Rightarrow> int \<Rightarrow> ('v, 'a, 'f) kmArgs \<Rightarrow> ('v, 'a, 'f) kmArgs" where
  "bt_dynamicK dynamicK leafSize kmeansK n a =
     (if dynamicK then a\<lparr>kaDK := nat (max (min (n sdiv leafSize + 1) (int kmeansK)) 2)\<rparr> else a)"

definition bt_item ::
  "nat \<Rightarrow> ('r, 'v, 'a, 'f :: linorder) kmEnv \<Rightarrow> (int \<Rightarrow> 'v outcome) \<Rightarrow> int list option \<Rightarrow> bool \<Rightarrow> stackItem
     \<Rightarrow> ('r, 'v, 'a, 'f) buildSt \<Rightarrow> ('r, 'v, 'a, 'f) buildSt outcome" where
  "bt_item fuel e data rix dynamicK item s = (case item of (idx, first, stop) \<Rightarrow>
     andThen (tr_update idx (\<lambda>n. n\<lparr>childStart := tr_size (bs_tree s)\<rparr>) (bs_tree s)) (\<lambda>t.
     andThen
       (if stop - first \<le> tr_leafSize t
        then andThen (bt_leaves rix (bs_local s) first stop t) (\<lambda>t'. Ret (s\<lparr>bs_tree := t'\<rparr>))
        else andThen (KmeansClustering fuel e data (bs_local s) first stop
                        (bt_dynamicK dynamicK (tr_leafSize t) (tr_kmeansK t) (stop - first) (bs_args s))
                        (tr_samples t) (tr_balance t) False (bs_rand s)) (\<lambda>(numClusters, r, lix, a).
             if numClusters \<le> 1
             then andThen (bt_single rix item lix t) (\<lambda>(lix', t').
                  Ret (s\<lparr>bs_tree := t', bs_local := lix', bs_args := a, bs_rand := r\<rparr>))
             else andThen (loopOver (bt_child rix lix (kaCounts a)) [0 ..< tr_kmeansK t] (first, bs_stack s, t)) (\<lambda>(_, ss, t').
                  Ret (s\<lparr>bs_stack := ss, bs_tree := t', bs_local := lix, bs_args := a, bs_rand := r\<rparr>)))) (\<lambda>s'.
     andThen (tr_update idx (\<lambda>n. n\<lparr>childEnd := tr_size (bs_tree s')\<rparr>) (bs_tree s')) (\<lambda>t'. Ret (s'\<lparr>bs_tree := t'\<rparr>)))))"

fun bt_loop ::
  "nat \<Rightarrow> nat \<Rightarrow> ('r, 'v, 'a, 'f :: linorder) kmEnv \<Rightarrow> (int \<Rightarrow> 'v outcome) \<Rightarrow> int list option \<Rightarrow> bool
     \<Rightarrow> ('r, 'v, 'a, 'f) buildSt \<Rightarrow> ('r, 'v, 'a, 'f) buildSt outcome" where
  "bt_loop 0 fuel e data rix dynamicK s = Hang"
| "bt_loop (Suc n) fuel e data rix dynamicK s =
     (case bs_stack s of
        [] \<Rightarrow> Ret s
      | item # ss \<Rightarrow> andThen (bt_item fuel e data rix dynamicK item (s\<lparr>bs_stack := ss\<rparr>)) (bt_loop n fuel e data rix dynamicK))"

text \<open>The counter of the trees is a \<open>char\<close>: behind 127 comes -128, and more than 127 trees are never done.\<close>

definition charOf :: "nat \<Rightarrow> int" where
  "charOf i = (int i + 128) mod 256 - 128"

definition charLoop :: "nat \<Rightarrow> nat list" where
  "charLoop n = [0 ..< if n \<le> 127 then n else 129]"

definition bt_oneTree ::
  "nat \<Rightarrow> ('r, 'v, 'a, 'f :: linorder) kmEnv \<Rightarrow> (int \<Rightarrow> 'v outcome) \<Rightarrow> int list option \<Rightarrow> bool \<Rightarrow> nat
     \<Rightarrow> ('r, 'v, 'a, 'f) buildSt \<Rightarrow> ('r, 'v, 'a, 'f) buildSt outcome" where
  "bt_oneTree fuel e data rix dynamicK i s =
     (let (lix, r) = kmShuffle e (bs_rand s) (bs_local s);
          t = bs_tree s;
          t1 = tr_push (int (length lix)) (t\<lparr>tr_start := tr_start t @ [tr_size t]\<rparr>)
      in andThen (vecAt (tr_start t1) (charOf i)) (\<lambda>root.
         andThen (bt_loop fuel fuel e data rix dynamicK
                    (s\<lparr>bs_stack := [(root, 0, int (length lix))], bs_tree := t1, bs_local := lix, bs_rand := r\<rparr>)) (\<lambda>s'.
         Ret (s'\<lparr>bs_tree := tr_push (- 1) (bs_tree s')\<rparr>))))"

text \<open>\<open>factors\<close>, \<open>hundred\<close> and \<open>maxFloat\<close> are the constants of \<open>DynamicFactorSelect\<close>, \<open>junk\<close> the fresh memory of the arguments.\<close>

definition BuildTrees ::
  "nat \<Rightarrow> ('r, 'v, 'a, 'f :: linorder) kmEnv \<Rightarrow> 'f list \<Rightarrow> 'f \<Rightarrow> 'f \<Rightarrow> (nat \<Rightarrow> nat \<Rightarrow> nat \<Rightarrow> ('v, 'a, 'f) kmArgs)
     \<Rightarrow> (int \<Rightarrow> 'v outcome) \<Rightarrow> nat \<Rightarrow> nat \<Rightarrow> int list option \<Rightarrow> int list option \<Rightarrow> bool \<Rightarrow> 'f bkTree \<Rightarrow> 'r
     \<Rightarrow> ('f bkTree \<times> 'r) outcome" where
  "BuildTrees fuel e factors hundred maxFloat newArgs data R threads indices rix dynamicK t r =
     (let lix = (case indices of None \<Rightarrow> map int [0 ..< R] | Some xs \<Rightarrow> xs);
          n = length lix;
          a = newArgs (tr_kmeansK t) n threads
      in andThen (if tr_balance t < kmOfInt e 0
                  then DynamicFactorSelect e factors hundred maxFloat data lix 0 (int n) a (tr_samples t) r
                  else Ret (r, lix, a, tr_balance t)) (\<lambda>(r1, lix1, a1, balance).
         andThen (loopOver (bt_oneTree fuel e data rix dynamicK) (charLoop (tr_number t))
                    \<lparr>bs_stack = [], bs_tree = t\<lparr>tr_balance := balance, tr_sampleMap := Map.empty\<rparr>, bs_local = lix1, bs_args = a1, bs_rand = r1\<rparr>)
           (\<lambda>s. Ret (bs_tree s, bs_rand s))))"

definition tr_Rebuild ::
  "nat \<Rightarrow> ('r, 'v, 'a, 'f :: linorder) kmEnv \<Rightarrow> 'f list \<Rightarrow> 'f \<Rightarrow> 'f \<Rightarrow> (nat \<Rightarrow> nat \<Rightarrow> nat \<Rightarrow> ('v, 'a, 'f) kmArgs)
     \<Rightarrow> (int \<Rightarrow> 'v outcome) \<Rightarrow> nat \<Rightarrow> bool \<Rightarrow> 'f bkTree \<Rightarrow> 'r \<Rightarrow> ('f bkTree \<times> 'r) outcome" where
  "tr_Rebuild fuel e factors hundred maxFloat newArgs data R junkBfs t r =
     andThen (BuildTrees fuel e factors hundred maxFloat newArgs data R 1 None None False (tr_copy junkBfs t) r) (\<lambda>(new, r').
       Ret (t\<lparr>tr_nodes := tr_nodes new, tr_start := tr_start new, tr_sampleMap := tr_sampleMap new\<rparr>, r'))"

end
