(* ===== verification/TreeProps.thy ===== *)
theory TreeProps
  imports TreeBuild
begin

text \<open>
  What \<open>BuildTrees\<close> builds: every id is the centre of exactly one node of every tree, the children of the inner nodes
  are consecutive stretches of the array that cover it, and a node comes before its children.
\<close>

section \<open>What one range leaves\<close>

definition cidOf :: "int list option \<Rightarrow> int \<Rightarrow> int" where
  "cidOf rix x = (case rix of None \<Rightarrow> x | Some rs \<Rightarrow> rs ! nat x)"

definition rix_ok :: "int list option \<Rightarrow> int set \<Rightarrow> bool" where
  "rix_ok rix X \<longleftrightarrow> (case rix of None \<Rightarrow> True | Some rs \<Rightarrow> \<forall>x \<in> X. 0 \<le> x \<and> x < int (length rs))"

lemma bt_cid_ok: "rix_ok rix (set lix) \<Longrightarrow> j < length lix \<Longrightarrow> bt_cid rix lix (int j) = Ret (cidOf rix (lix ! j))"
  by (auto simp: bt_cid_def vecAt_nat rix_ok_def cidOf_def vecAt_def split: option.splits)

definition addNodes :: "int list \<Rightarrow> 'f bkTree \<Rightarrow> 'f bkTree" where
  "addNodes cids t = t\<lparr>tr_nodes := tr_nodes t @ map newNode cids\<rparr>"

lemma addNodes_simps: "addNodes [] t = t" "tr_push cid (addNodes cids t) = addNodes (cids @ [cid]) t" "tr_push cid t = addNodes [cid] t"
  "addNodes ys (addNodes xs t) = addNodes (xs @ ys) t" "tr_nodes (addNodes cids t) = tr_nodes t @ map newNode cids"
  by (simp_all add: addNodes_def tr_push_def)

lemma upto_ints: "[int a .. int b - 1] = map int [a ..< b]"
proof (cases "a \<le> b")
  case True
  then show ?thesis by (intro nth_equalityI) auto
next
  case False
  then show ?thesis by simp
qed

definition cidsAt :: "int list option \<Rightarrow> int list \<Rightarrow> nat list \<Rightarrow> int list" where
  "cidsAt rix lix js = map (\<lambda>j. cidOf rix (lix ! j)) js"

lemma bt_leaves_ok:
  assumes "rix_ok rix (set lix)" "b \<le> length lix"
  shows "bt_leaves rix lix (int a) (int b) t = Ret (addNodes (cidsAt rix lix [a ..< b]) t)"
proof -
  have "\<forall>j \<in> set js. j < length lix \<Longrightarrow> loopOver (\<lambda>j t. andThen (bt_cid rix lix j) (\<lambda>cid. Ret (tr_push cid t))) (map int js) t
      = Ret (addNodes (cidsAt rix lix js) t)" for js
  proof (induction js arbitrary: t)
    case Nil
    then show ?case by (simp add: addNodes_simps cidsAt_def)
  next
    case (Cons j js)
    then show ?case using assms(1) by (simp add: bt_cid_ok addNodes_simps cidsAt_def)
  qed
  then show ?thesis using assms(2) by (simp add: bt_leaves_def upto_ints)
qed

lemma vecUpd_node: "i < length (tr_nodes t) \<Longrightarrow>
  tr_update (int i) g t = Ret (t\<lparr>tr_nodes := (tr_nodes t)[i := g (tr_nodes t ! i)]\<rparr>)"
  by (simp add: tr_update_def vecUpd_nat)

text \<open>The children that a split makes: positions of their centres, and the ranges still to be divided, last one first.\<close>

fun kidPos :: "nat \<Rightarrow> nat list \<Rightarrow> nat list" where
  "kidPos f [] = []"
| "kidPos f (c # cs) = (if c = 0 then kidPos f cs else (f + c - 1) # kidPos (f + c) cs)"

fun kidItems :: "nat \<Rightarrow> nat \<Rightarrow> nat list \<Rightarrow> (nat \<times> nat \<times> nat) list" where
  "kidItems m f [] = []"
| "kidItems m f (c # cs) = (if c = 0 then kidItems m f cs
     else kidItems (Suc m) (f + c) cs @ (if 1 < c then [(m, f, f + c - 1)] else []))"

definition toItem :: "nat \<times> nat \<times> nat \<Rightarrow> stackItem" where
  "toItem = (\<lambda>(i, f, l). (int i, int f, int l))"

definition bodyOf :: "nat \<times> nat \<times> nat \<Rightarrow> nat list" where
  "bodyOf = (\<lambda>(i, f, l). [f ..< l])"

definition spanOf :: "nat \<times> nat \<times> nat \<Rightarrow> nat list" where
  "spanOf = (\<lambda>(i, f, l). [f ..< Suc l])"

definition sizeOf :: "nat \<times> nat \<times> nat \<Rightarrow> nat" where
  "sizeOf = (\<lambda>(i, f, l). l - f)"

lemma upt_join: "a \<le> b \<Longrightarrow> b \<le> c \<Longrightarrow> [a ..< b] @ [b ..< c] = [a ..< (c :: nat)]"
  using upt_add_eq_append [of a b "c - b"] by simp

lemma kid_cover: "mset (kidPos f cs) + mset (concat (map bodyOf (kidItems m f cs))) = mset [f ..< f + sum_list cs]"
proof (induction cs arbitrary: m f)
  case Nil
  then show ?case by simp
next
  case (Cons c cs)
  show ?case
  proof (cases "c = 0")
    case True
    then show ?thesis using Cons.IH by simp
  next
    case False
    then obtain d where c: "c = Suc d" by (cases c) auto
    have u: "[f ..< f + (c + sum_list cs)] = [f ..< f + d] @ [f + d] @ [f + c ..< f + c + sum_list cs]"
    proof -
      have "[f ..< f + c] = [f ..< f + d] @ [f + d]" by (simp add: c)
      then show ?thesis using upt_join [of f "f + c" "f + c + sum_list cs"] by (simp only: add.assoc append.assoc [symmetric])
    qed
    have b: "mset (concat (map bodyOf (if 1 < c then [(m, f, f + c - 1)] else []))) = mset [f ..< f + d]"
      by (cases d) (simp_all add: c bodyOf_def)
    have "kidPos f (c # cs) = (f + d) # kidPos (f + c) cs" by (simp add: c)
    then show ?thesis using Cons.IH [of "f + c" "Suc m"] False b unfolding kidItems.simps sum_list.Cons u
      by (simp only: if_not_P map_append concat_append mset_append mset.simps) (simp add: ac_simps)
  qed
qed

lemma kid_size: "sum_list (map sizeOf (kidItems m f cs)) + length (kidPos f cs) = sum_list cs"
proof (induction cs arbitrary: m f)
  case (Cons c cs)
  then show ?case using Cons [of "Suc m" "f + c"] Cons [of m f] by (auto simp: sizeOf_def)
qed simp

lemma kid_some: "0 < sum_list cs \<Longrightarrow> kidPos f cs \<noteq> []"
  by (induction cs arbitrary: f) auto

lemma kid_items:
  "it \<in> set (kidItems m f cs) \<Longrightarrow> (case it of (i, a, b) \<Rightarrow> m \<le> i \<and> i < m + length (kidPos f cs) \<and> f \<le> a \<and> a < b
     \<and> b < f + sum_list cs \<and> kidPos f cs ! (i - m) = b)"
proof (induction cs arbitrary: m f)
  case Nil
  then show ?case by simp
next
  case (Cons c cs)
  show ?case
  proof (cases "c = 0")
    case True
    then show ?thesis using Cons by simp
  next
    case False
    then consider "it \<in> set (kidItems (Suc m) (f + c) cs)" | "1 < c" "it = (m, f, f + c - 1)"
      using Cons.prems by (auto split: if_splits)
    then show ?thesis
    proof cases
      case 1
      then show ?thesis using Cons.IH [OF 1] False by (auto simp: nth_Cons' split: prod.splits)
    next
      case 2
      then have "f < f + c - 1" "f + c - 1 < f + sum_list (c # cs)" by simp_all
      then show ?thesis using 2 False by simp
    qed
  qed
qed

lemma kid_distinct: "distinct (concat (map spanOf (kidItems m f cs))) \<and> distinct (map fst (kidItems m f cs))"
proof (induction cs arbitrary: m f)
  case Nil
  then show ?case by simp
next
  case (Cons c cs)
  show ?case
  proof (cases "1 < c")
    case False
    then show ?thesis using Cons.IH by simp
  next
    case True
    let ?its = "kidItems (Suc m) (f + c) cs"
    have e: "kidItems m f (c # cs) = ?its @ [(m, f, f + c - 1)]" using True by simp
    have "m \<notin> set (map fst ?its)" using kid_items [of _ "Suc m" "f + c" cs] by force
    moreover have "set (spanOf (m, f, f + c - 1)) \<inter> set (concat (map spanOf ?its)) = {}"
    proof -
      have "f + c \<le> x" if x: "x \<in> set (concat (map spanOf ?its))" for x
      proof -
        obtain i a b where it: "(i, a, b) \<in> set ?its" "x \<in> set (spanOf (i, a, b))" using x by auto
        then have "f + c \<le> a" using kid_items [OF it(1)] by simp
        then show ?thesis using it(2) by (auto simp: spanOf_def)
      qed
      then show ?thesis using True by (fastforce simp: spanOf_def)
    qed
    moreover have "distinct (spanOf (m, f, f + c - 1))" by (simp add: spanOf_def)
    ultimately show ?thesis using Cons.IH [of "Suc m" "f + c"] unfolding e
      by (simp only: map_append concat_append distinct_append list.map concat.simps append_Nil2 fst_conv list.set) auto
  qed
qed

lemma bt_children_ok:
  assumes "rix_ok rix (set lix)" "f + sum_list cs \<le> length lix" "drop k counts = map int cs"
  shows "loopOver (bt_child rix lix counts) [k ..< k + length cs] (int f, ss, t)
    = Ret (int (f + sum_list cs), map toItem (kidItems (length (tr_nodes t)) f cs) @ ss, addNodes (cidsAt rix lix (kidPos f cs)) t)"
  using assms(2,3)
proof (induction cs arbitrary: k f ss t)
  case Nil
  then show ?case by (simp add: addNodes_simps cidsAt_def)
next
  case (Cons c cs)
  have k: "k < length counts" "counts ! k = int c" "drop (Suc k) counts = map int cs"
  proof -
    show "k < length counts" using Cons.prems(2) by (metis drop_all list.map_disc_iff list.distinct(1) not_le)
    then have "drop k counts = counts ! k # drop (Suc k) counts" by (simp add: Cons_nth_drop_Suc)
    then show "counts ! k = int c" "drop (Suc k) counts = map int cs" using Cons.prems(2) by simp_all
  qed
  have u: "[k ..< k + length (c # cs)] = k # [Suc k ..< Suc k + length cs]" by (simp add: upt_rec)
  show ?case
  proof (cases "c = 0")
    case True
    then have "bt_child rix lix counts k (int f, ss, t) = Ret (int f, ss, t)" using k by (simp add: bt_child_def vecAt_nat)
    then show ?thesis unfolding u using Cons.IH [of f "Suc k" ss t] k(3) Cons.prems(1) True by simp
  next
    case False
    let ?cid = "cidOf rix (lix ! (f + c - 1))"
    have i: "int f + int c - 1 = int (f + c - 1)" using False by simp
    have cid: "bt_cid rix lix (int (f + c - 1)) = Ret ?cid" using False Cons.prems(1) by (intro bt_cid_ok [OF assms(1)]) simp
    let ?item = "if 1 < c then [(length (tr_nodes t), f, f + c - 1)] else []"
    have b: "bt_child rix lix counts k (int f, ss, t) = Ret (int (f + c), map toItem ?item @ ss, addNodes [?cid] t)"
      unfolding bt_child_def prod.case vecAt_nat [OF k(1)] andThen.simps k(2) i cid Let_def addNodes_simps(3)
      using False by (simp add: addNodes_simps(5) tr_size_def toItem_def)
    have n: "length (tr_nodes (addNodes [?cid] t)) = Suc (length (tr_nodes t))" by (simp add: addNodes_simps)
    have "f + c + sum_list cs \<le> length lix" using Cons.prems(1) by simp
    from Cons.IH [OF this k(3), of "map toItem ?item @ ss" "addNodes [?cid] t"] show ?thesis
      unfolding u loopOver.simps b andThen.simps n addNodes_simps(4) using False by (simp add: cidsAt_def add.assoc)
  qed
qed

text \<open>What working off a range does to the tree and the index array.\<close>

definition grown ::
  "int list option \<Rightarrow> int list \<Rightarrow> bktNode list \<Rightarrow> nat \<Rightarrow> nat \<Rightarrow> nat \<Rightarrow> int list \<Rightarrow> bktNode list \<Rightarrow> (nat \<times> nat \<times> nat) list \<Rightarrow> bool" where
  "grown rix lix ns i f l lix' ns' items \<longleftrightarrow> (\<exists>cid cs kids.
     ns' = ns[i := \<lparr>centerid = cid, childStart = cs, childEnd = int (length ns + length kids)\<rparr>] @ map newNode kids
     \<and> (cs = int (length ns) \<and> cid = centerid (ns ! i) \<and> segPerm f l lix lix'
          \<and> mset kids + mset (cidsAt rix lix' (concat (map bodyOf items))) = mset (cidsAt rix lix [f ..< l])
          \<and> distinct (concat (map spanOf items)) \<and> distinct (map fst items) \<and> sum_list (map sizeOf items) < l - f
          \<and> (\<forall>(j, a, b) \<in> set items. length ns \<le> j \<and> j < length ns + length kids \<and> f \<le> a \<and> a < b \<and> b < l
               \<and> kids ! (j - length ns) = cidOf rix (lix' ! b))
        \<or> items = [] \<and> cs = - int (length ns) \<and> segPerm f (min (Suc l) (length lix)) lix lix'
          \<and> add_mset cid (mset kids) = mset (cidsAt rix lix [f ..< min (Suc l) (length lix)])))"

definition sameTree :: "'f bkTree \<Rightarrow> 'f bkTree \<Rightarrow> bool" where
  "sameTree t t' \<longleftrightarrow> tr_start t' = tr_start t \<and> tr_number t' = tr_number t \<and> tr_kmeansK t' = tr_kmeansK t
     \<and> tr_leafSize t' = tr_leafSize t \<and> tr_samples t' = tr_samples t \<and> tr_bfs t' = tr_bfs t \<and> tr_balance t' = tr_balance t"

lemma sameTree_trans: "sameTree a b \<Longrightarrow> sameTree b c \<Longrightarrow> sameTree a c"
  by (simp add: sameTree_def)

lemma cidsAt_idsIn: "g \<le> length ix \<Longrightarrow> f \<le> g \<Longrightarrow> cidsAt rix ix [f ..< g] = map (cidOf rix) (idsIn ix f g)"
  by (intro nth_equalityI) (auto simp: cidsAt_def idsIn_def)

lemma segPerm_cids:
  assumes "segPerm f g ix ix'" "g \<le> length ix" "f \<le> g"
  shows "mset (cidsAt rix ix' [f ..< g]) = mset (cidsAt rix ix [f ..< g])"
proof -
  have "g \<le> length ix'" using assms by (simp add: segPerm_def)
  then show ?thesis using assms by (simp add: cidsAt_idsIn segPerm_def)
qed

lemma segPerm_outside:
  assumes "segPerm f g ix ix'" "p < f \<or> g \<le> p" "p < length ix"
  shows "ix' ! p = ix ! p"
proof -
  have *: "length ix' = length ix" "take f ix' = take f ix" "drop g ix' = drop g ix" using assms(1) by (simp_all add: segPerm_def)
  show ?thesis
  proof (cases "p < f")
    case True
    then have "take f ix' ! p = take f ix ! p" using * by simp
    then show ?thesis using True by simp
  next
    case False
    then have "g \<le> p" using assms(2) by simp
    then have "ix' ! p = drop g ix' ! (p - g)" "ix ! p = drop g ix ! (p - g)" using assms(3) *(1) by simp_all
    then show ?thesis using *(3) by simp
  qed
qed

lemma segPerm_weaken: "segPerm f g ix ix' \<Longrightarrow> g \<le> h \<Longrightarrow> f \<le> g \<Longrightarrow> h \<le> length ix \<Longrightarrow> segPerm f h ix ix'"
proof -
  assume a: "segPerm f g ix ix'" "g \<le> h" "f \<le> g" "h \<le> length ix"
  have d: "drop h xs = drop (h - g) (drop g xs)" for xs :: "int list" using a(2) by simp
  have s: "idsIn xs f h = idsIn xs f g @ take (h - g) (drop g xs)" for xs :: "int list"
  proof -
    have "h - f = (g - f) + (h - g)" using a(2,3) by simp
    then have "take (h - f) (drop f xs) = take (g - f) (drop f xs) @ take (h - g) (drop (g - f) (drop f xs))"
      by (simp only: take_add)
    then show ?thesis using a(3) by (simp add: idsIn_def)
  qed
  show ?thesis using a(1) unfolding segPerm_def s by (simp add: d)
qed

lemma sortRange_ok:
  assumes "f \<le> g" "g \<le> length xs"
  shows "segPerm f g xs (sortRange (int f) (int g) xs)"
proof -
  have "nat (int g - int f) = g - f" by simp
  then show ?thesis using assms by (simp add: segPerm_def sortRange_def idsIn_def)
qed

section \<open>Working off a range\<close>

lemma tr_update_params:
  "sameTree t (t\<lparr>tr_nodes := ns\<rparr>)" "sameTree t (addNodes cids t)" "sameTree t (t\<lparr>tr_nodes := ns, tr_sampleMap := m\<rparr>)"
  by (simp_all add: sameTree_def addNodes_def)

lemma bt_single_ok:
  assumes rx: "rix_ok rix (set lix)" and r: "f < l" "l \<le> length lix" and i: "i < length (tr_nodes t)"
    and cs: "childStart (tr_nodes t ! i) = c"
  shows "\<exists>lix' m. bt_single rix (int i, int f, int l) lix t = Ret (lix',
      (addNodes (cidsAt rix lix' [Suc f ..< min (Suc l) (length lix)])
         (t\<lparr>tr_nodes := (tr_nodes t)[i := (tr_nodes t ! i)\<lparr>centerid := cidOf rix (lix' ! f), childStart := - c\<rparr>]\<rparr>))\<lparr>tr_sampleMap := m\<rparr>)
    \<and> segPerm f (min (Suc l) (length lix)) lix lix'"
proof -
  let ?g = "min (Suc l) (length lix)"
  let ?lix = "sortRange (int f) (int ?g) lix"
  have g: "min (int l + 1) (int (length lix)) = int ?g" by simp
  have fg: "f < ?g" "?g \<le> length lix" using r by simp_all
  have sp: "segPerm f ?g lix ?lix" using sortRange_ok [of f ?g lix] fg by simp
  have len: "length ?lix = length lix" and ms: "mset ?lix = mset lix" using sp segPerm_mset [OF sp] fg by (simp_all add: segPerm_def)
  have rx': "rix_ok rix (set ?lix)" using rx ms by (metis set_mset_mset)
  let ?c = "cidOf rix (?lix ! f)"
  have c: "bt_cid rix ?lix (int f) = Ret ?c" by (rule bt_cid_ok [OF rx']) (use fg len in simp)
  let ?t1 = "t\<lparr>tr_nodes := (tr_nodes t)[i := (tr_nodes t ! i)\<lparr>centerid := ?c, childStart := - c\<rparr>]\<rparr>"
  let ?body = "\<lambda>j t. andThen (bt_cid rix ?lix j) (\<lambda>cid. Ret ((tr_push cid t)\<lparr>tr_sampleMap := (tr_sampleMap t)(cid \<mapsto> ?c)\<rparr>))"
  have lp: "\<forall>j \<in> set js. j < length lix \<Longrightarrow> \<exists>m. loopOver ?body (map int js) t = Ret ((addNodes (cidsAt rix ?lix js) t)\<lparr>tr_sampleMap := m\<rparr>)"
    for js and t :: "'a bkTree"
  proof (induction js arbitrary: t)
    case Nil
    then show ?case by (intro exI [of _ "tr_sampleMap t"]) (simp add: addNodes_def cidsAt_def)
  next
    case (Cons j js)
    have b: "?body (int j) t = Ret ((tr_push (cidOf rix (?lix ! j)) t)\<lparr>tr_sampleMap := (tr_sampleMap t)(cidOf rix (?lix ! j) \<mapsto> ?c)\<rparr>)"
      using Cons.prems bt_cid_ok [OF rx', of j] len by simp
    let ?t = "(tr_push (cidOf rix (?lix ! j)) t)\<lparr>tr_sampleMap := (tr_sampleMap t)(cidOf rix (?lix ! j) \<mapsto> ?c)\<rparr>"
    have "\<forall>j \<in> set js. j < length lix" using Cons.prems by simp
    from Cons.IH [OF this, of ?t] obtain m where
      m: "loopOver ?body (map int js) ?t = Ret ((addNodes (cidsAt rix ?lix js) ?t)\<lparr>tr_sampleMap := m\<rparr>)" by blast
    have "(addNodes (cidsAt rix ?lix js) ?t)\<lparr>tr_sampleMap := m\<rparr> = (addNodes (cidsAt rix ?lix (j # js)) t)\<lparr>tr_sampleMap := m\<rparr>"
      by (simp add: addNodes_def tr_push_def cidsAt_def)
    then show ?case using m unfolding list.map loopOver.simps b andThen.simps by metis
  qed
  have "[int f + 1 .. int ?g - 1] = map int [Suc f ..< ?g]" using upto_ints [of "Suc f" ?g] by (simp add: add.commute)
  then obtain m where m: "loopOver ?body [int f + 1 .. int ?g - 1] ?t1 = Ret ((addNodes (cidsAt rix ?lix [Suc f ..< ?g]) ?t1)\<lparr>tr_sampleMap := m\<rparr>)"
    using lp [of "[Suc f ..< ?g]" ?t1] fg by auto
  have u: "tr_update (int i) (\<lambda>n. n\<lparr>centerid := ?c, childStart := - childStart n\<rparr>) t = Ret ?t1"
    using vecUpd_node [OF i] cs by simp
  have "bt_single rix (int i, int f, int l) lix t = Ret (?lix, ((addNodes (cidsAt rix ?lix [Suc f ..< ?g]) ?t1)\<lparr>tr_sampleMap := m\<rparr>)
      \<lparr>tr_sampleMap := m(- 1 - ?c \<mapsto> int i)\<rparr>)"
    unfolding bt_single_def prod.case Let_def g c andThen.simps u m by simp
  then show ?thesis using sp by (intro exI [of _ ?lix] exI [of _ "m(- 1 - ?c \<mapsto> int i)"]) simp
qed

definition args_ok :: "nat \<Rightarrow> nat \<Rightarrow> ('v, 'a, 'f) kmArgs \<Rightarrow> bool" where
  "args_ok N K a \<longleftrightarrow> ka_shape N a \<and> kaK a = K"

lemma dynamicK_ok: "args_ok N K a \<Longrightarrow> dynamicK \<longrightarrow> 2 \<le> K \<Longrightarrow> args_ok N K (bt_dynamicK dynamicK leaf K n a)"
  by (auto simp: args_ok_def ka_shape_def bt_dynamicK_def)

text \<open>What \<open>BuildTrees\<close> relies on: the data of every id, the generators, and parameters in their ranges.\<close>

definition build_ok ::
  "('r, 'v, 'a, 'f :: linorder) kmEnv \<Rightarrow> (int \<Rightarrow> 'v outcome) \<Rightarrow> int list option \<Rightarrow> bool \<Rightarrow> int list \<Rightarrow> 'f bkTree \<Rightarrow> bool" where
  "build_ok e data rix dynamicK lix t \<longleftrightarrow> source_ok (\<lambda>_. True) e data (set lix) \<and> rix_ok rix (set lix) \<and> 0 < tr_samples t
     \<and> (dynamicK \<longrightarrow> 2 \<le> tr_kmeansK t)"

lemma bt_item_ok:
  fixes s :: "('r, 'v, 'a, 'f :: linorder) buildSt"
  defines "t \<equiv> bs_tree s" and "lix \<equiv> bs_local s"
  assumes ok: "build_ok e data rix dynamicK lix t" and a: "args_ok (length lix) (tr_kmeansK t) (bs_args s)"
    and r: "f < l" "l \<le> length lix" and i: "i < length (tr_nodes t)" and fuel: "l - f < fuel"
  shows "\<exists>s' items. bt_item fuel e data rix dynamicK (int i, int f, int l) s = Ret s'
    \<and> sameTree t (bs_tree s') \<and> args_ok (length lix) (tr_kmeansK t) (bs_args s') \<and> bs_stack s' = map toItem items @ bs_stack s
    \<and> grown rix lix (tr_nodes t) i f l (bs_local s') (tr_nodes (bs_tree s')) items"
proof -
  let ?n = "length (tr_nodes t)"
  let ?t0 = "t\<lparr>tr_nodes := (tr_nodes t)[i := (tr_nodes t ! i)\<lparr>childStart := int ?n\<rparr>]\<rparr>"
  have u0: "tr_update (int i) (\<lambda>n. n\<lparr>childStart := tr_size t\<rparr>) t = Ret ?t0" using vecUpd_node [OF i] by (simp add: tr_size_def)
  have n0: "length (tr_nodes ?t0) = ?n" "tr_nodes ?t0 ! i = (tr_nodes t ! i)\<lparr>childStart := int ?n\<rparr>" using i by simp_all
  have src: "source_ok (\<lambda>_. True) e data (set lix)" and rx: "rix_ok rix (set lix)" and sm: "0 < tr_samples t"
    and dk: "dynamicK \<longrightarrow> 2 \<le> tr_kmeansK t" using ok by (simp_all add: build_ok_def)
  \<comment> \<open>once the children are there, the end of the range is written\<close>
  have fin: "tr_update (int i) (\<lambda>n. n\<lparr>childEnd := tr_size t1\<rparr>) t1 = Ret (t1\<lparr>tr_nodes :=
      (tr_nodes t)[i := \<lparr>centerid = cid, childStart = cs, childEnd = int (?n + length kids)\<rparr>] @ map newNode kids\<rparr>)"
    if n1: "tr_nodes t1 = (tr_nodes t)[i := x] @ map newNode kids" "centerid x = cid" "childStart x = cs"
    for t1 :: "'f bkTree" and kids cid cs and x :: bktNode
    using vecUpd_node [of i t1] i n1 by (cases x) (simp add: tr_size_def list_update_append nth_append)
  show ?thesis
  proof (cases "int l - int f \<le> tr_leafSize t")
    case True
    let ?kids = "cidsAt rix lix [f ..< l]"
    let ?t1 = "addNodes ?kids ?t0"
    have lv: "bt_leaves rix lix (int f) (int l) ?t0 = Ret ?t1" by (rule bt_leaves_ok [OF rx r(2)])
    let ?t2 = "?t1\<lparr>tr_nodes := (tr_nodes t)[i := \<lparr>centerid = centerid (tr_nodes t ! i), childStart = int ?n,
        childEnd = int (?n + length ?kids)\<rparr>] @ map newNode ?kids\<rparr>"
    have "tr_update (int i) (\<lambda>n. n\<lparr>childEnd := tr_size ?t1\<rparr>) ?t1 = Ret ?t2"
      by (rule fin [where x = "(tr_nodes t ! i)\<lparr>childStart := int ?n\<rparr>"]) (simp_all add: addNodes_def)
    then have "bt_item fuel e data rix dynamicK (int i, int f, int l) s = Ret (s\<lparr>bs_tree := ?t2\<rparr>)"
      using True lv u0 by (simp add: bt_item_def t_def [symmetric] lix_def [symmetric])
    moreover have "sameTree t ?t2" by (simp add: sameTree_def addNodes_def)
    moreover have "grown rix lix (tr_nodes t) i f l lix (tr_nodes ?t2) []"
      unfolding grown_def
      by (intro exI [of _ "centerid (tr_nodes t ! i)"] exI [of _ "int ?n"] exI [of _ ?kids])
        (use r in \<open>simp add: segPerm_refl cidsAt_def\<close>)
    ultimately show ?thesis using a
      by (intro exI [of _ "s\<lparr>bs_tree := ?t2\<rparr>"] exI [of _ "[]"]) (simp add: t_def lix_def)
  next
    case False
    let ?a = "bt_dynamicK dynamicK (tr_leafSize t) (tr_kmeansK t) (int l - int f) (bs_args s)"
    have a': "args_ok (length lix) (tr_kmeansK t) ?a" by (rule dynamicK_ok [OF a dk])
    have "source_ok (\<lambda>_. True) e data (set (idsIn lix f l))"
      using src set_take_subset [of "l - f" "drop f lix"] set_drop_subset [of f lix] by (auto simp: source_ok_def idsIn_def intro: data_sub)
    moreover have "argsOf (\<lambda>_. True) (length lix) ?a ?a" using a' by (simp add: argsOf_def args_ok_def)
    ultimately obtain m r' lix1 a1 where km: "KmeansClustering fuel e data lix (int f) (int l) ?a (tr_samples t) (tr_balance t) False (bs_rand s)
        = Ret (m, r', lix1, a1)" "segPerm f l lix lix1" "argsOf (\<lambda>_. True) (length lix) ?a a1"
        "1 < m \<longrightarrow> (\<exists>cnts. clustersOf e data f l lix1 a1 cnts)"
      using KmeansClustering_ok [of "\<lambda>_. True" e data lix f l "length lix" ?a ?a "tr_samples t" fuel "tr_balance t" False "bs_rand s"]
        r sm fuel by blast
    have A1: "args_ok (length lix) (tr_kmeansK t) a1" using km(3) a' by (simp add: argsOf_def args_ok_def)
    have len1: "length lix1 = length lix" and ms1: "mset lix1 = mset lix" using km(2) segPerm_mset [OF km(2)] r by (simp_all add: segPerm_def)
    have rx1: "rix_ok rix (set lix1)" using rx ms1 by (metis set_mset_mset)
    show ?thesis
    proof (cases "m \<le> 1")
      case True
      have cs: "childStart (tr_nodes ?t0 ! i) = int ?n" using n0 by simp
      obtain lix2 mp where sg: "bt_single rix (int i, int f, int l) lix1 ?t0 = Ret (lix2,
          (addNodes (cidsAt rix lix2 [Suc f ..< min (Suc l) (length lix1)])
             (?t0\<lparr>tr_nodes := (tr_nodes ?t0)[i := (tr_nodes ?t0 ! i)\<lparr>centerid := cidOf rix (lix2 ! f), childStart := - int ?n\<rparr>]\<rparr>))\<lparr>tr_sampleMap := mp\<rparr>)"
        "segPerm f (min (Suc l) (length lix1)) lix1 lix2"
        using bt_single_ok [OF rx1 r(1) _ _ cs] r(2) len1 n0(1) i by auto
      let ?g = "min (Suc l) (length lix)"
      let ?kids = "cidsAt rix lix2 [Suc f ..< ?g]"
      let ?t1 = "(addNodes ?kids (?t0\<lparr>tr_nodes := (tr_nodes ?t0)[i := (tr_nodes ?t0 ! i)\<lparr>centerid := cidOf rix (lix2 ! f), childStart := - int ?n\<rparr>]\<rparr>))
          \<lparr>tr_sampleMap := mp\<rparr>"
      let ?t2 = "?t1\<lparr>tr_nodes := (tr_nodes t)[i := \<lparr>centerid = cidOf rix (lix2 ! f), childStart = - int ?n,
          childEnd = int (?n + length ?kids)\<rparr>] @ map newNode ?kids\<rparr>"
      have u: "tr_update (int i) (\<lambda>n. n\<lparr>childEnd := tr_size ?t1\<rparr>) ?t1 = Ret ?t2"
        by (rule fin [where x = "(tr_nodes ?t0 ! i)\<lparr>centerid := cidOf rix (lix2 ! f), childStart := - int ?n\<rparr>"])
          (use i in \<open>simp_all add: addNodes_def\<close>)
      let ?s' = "s\<lparr>bs_tree := ?t2, bs_local := lix2, bs_args := a1, bs_rand := r'\<rparr>"
      have run: "bt_item fuel e data rix dynamicK (int i, int f, int l) s = Ret ?s'"
        using \<open>\<not> int l - int f \<le> tr_leafSize t\<close> True u0 km(1) sg(1) u len1
        by (simp add: bt_item_def t_def [symmetric] lix_def [symmetric])
      have g: "f < ?g" "l \<le> ?g" "?g \<le> length lix" using r by simp_all
      have sp: "segPerm f ?g lix lix2"
        using segPerm_trans [OF segPerm_weaken [OF km(2) g(2)]] sg(2) r g len1 by simp
      have "add_mset (cidOf rix (lix2 ! f)) (mset ?kids) = mset (cidsAt rix lix2 [f ..< ?g])"
        using g(1) by (simp add: cidsAt_def upt_conv_Cons)
      also have "\<dots> = mset (cidsAt rix lix [f ..< ?g])" by (rule segPerm_cids [OF sp]) (use g in simp_all)
      finally have ms: "add_mset (cidOf rix (lix2 ! f)) (mset ?kids) = mset (cidsAt rix lix [f ..< ?g])" .
      have gr: "grown rix lix (tr_nodes t) i f l lix2 (tr_nodes ?t2) []"
        unfolding grown_def
        by (intro exI [of _ "cidOf rix (lix2 ! f)"] exI [of _ "- int ?n"] exI [of _ ?kids]) (use sp ms in simp)
      have st: "sameTree t ?t2" by (simp add: sameTree_def addNodes_def)
      show ?thesis using run gr st A1
        by (intro exI [of _ ?s'] exI [of _ "[]"]) simp
    next
      case F2: False
      then obtain cnts where cl: "clustersOf e data f l lix1 a1 cnts" using km(4) by auto
      have K: "length cnts = tr_kmeansK t" "kaCounts a1 = map int cnts" "sum_list cnts = l - f"
        using cl A1 by (simp_all add: clustersOf_def args_ok_def)
      have fl: "f + sum_list cnts = l" using K(3) r by simp
      let ?items = "kidItems ?n f cnts"
      let ?kids = "cidsAt rix lix1 (kidPos f cnts)"
      let ?t1 = "addNodes ?kids ?t0"
      have "loopOver (bt_child rix lix1 (kaCounts a1)) [0 ..< 0 + length cnts] (int f, bs_stack s, ?t0)
          = Ret (int (f + sum_list cnts), map toItem (kidItems (length (tr_nodes ?t0)) f cnts) @ bs_stack s, ?t1)"
        by (rule bt_children_ok [OF rx1]) (use fl r len1 K(2) in simp_all)
      then have lp: "loopOver (bt_child rix lix1 (kaCounts a1)) [0 ..< tr_kmeansK t] (int f, bs_stack s, ?t0)
          = Ret (int l, map toItem ?items @ bs_stack s, ?t1)" using K(1) fl n0(1) by simp
      let ?t2 = "?t1\<lparr>tr_nodes := (tr_nodes t)[i := \<lparr>centerid = centerid (tr_nodes t ! i), childStart = int ?n,
          childEnd = int (?n + length ?kids)\<rparr>] @ map newNode ?kids\<rparr>"
      have u: "tr_update (int i) (\<lambda>n. n\<lparr>childEnd := tr_size ?t1\<rparr>) ?t1 = Ret ?t2"
        by (rule fin [where x = "(tr_nodes t ! i)\<lparr>childStart := int ?n\<rparr>"]) (simp_all add: addNodes_def)
      let ?s' = "s\<lparr>bs_stack := map toItem ?items @ bs_stack s, bs_tree := ?t2, bs_local := lix1, bs_args := a1, bs_rand := r'\<rparr>"
      have run: "bt_item fuel e data rix dynamicK (int i, int f, int l) s = Ret ?s'"
        using \<open>\<not> int l - int f \<le> tr_leafSize t\<close> F2 u0 km(1) lp u
        by (simp add: bt_item_def t_def [symmetric] lix_def [symmetric])
      have "mset ?kids + mset (cidsAt rix lix1 (concat (map bodyOf ?items)))
          = image_mset (\<lambda>j. cidOf rix (lix1 ! j)) (mset (kidPos f cnts) + mset (concat (map bodyOf ?items)))"
        by (simp add: cidsAt_def)
      also have "\<dots> = mset (cidsAt rix lix1 [f ..< l])" unfolding kid_cover by (simp add: cidsAt_def fl)
      also have "\<dots> = mset (cidsAt rix lix [f ..< l])" by (rule segPerm_cids [OF km(2)]) (use r in simp_all)
      finally have ms: "mset ?kids + mset (cidsAt rix lix1 (concat (map bodyOf ?items))) = mset (cidsAt rix lix [f ..< l])" .
      have "kidPos f cnts \<noteq> []" by (rule kid_some) (use K(3) r in simp)
      then have "0 < length (kidPos f cnts)" by simp
      then have sz: "sum_list (map sizeOf ?items) < l - f" using kid_size [of ?n f cnts] K(3) by linarith
      have its: "\<forall>(j, x, y) \<in> set ?items. ?n \<le> j \<and> j < ?n + length ?kids \<and> f \<le> x \<and> x < y \<and> y < l
          \<and> ?kids ! (j - ?n) = cidOf rix (lix1 ! y)"
      proof
        fix it assume "it \<in> set ?items"
        from kid_items [OF this] show "case it of (j, x, y) \<Rightarrow> ?n \<le> j \<and> j < ?n + length ?kids \<and> f \<le> x \<and> x < y \<and> y < l
            \<and> ?kids ! (j - ?n) = cidOf rix (lix1 ! y)"
          by (auto simp: fl cidsAt_def split: prod.splits)
      qed
      have gr: "grown rix lix (tr_nodes t) i f l lix1 (tr_nodes ?t2) ?items"
        unfolding grown_def
        by (intro exI [of _ "centerid (tr_nodes t ! i)"] exI [of _ "int ?n"] exI [of _ ?kids] conjI disjI1)
          (use km(2) ms kid_distinct [of ?n f cnts] sz its in simp_all)
      have st: "sameTree t ?t2" by (simp add: sameTree_def addNodes_def)
      show ?thesis using run gr st A1
        by (intro exI [of _ ?s'] exI [of _ ?items]) simp
    qed
  qed
qed

section \<open>The tree under construction\<close>

text \<open>
  \<open>order\<close> lists the nodes that have been worked off. Their ranges of children, one after the other, are the nodes from
  the root's successor on, so every node but the root has exactly one parent, which comes before it; the other nodes are leaves.
\<close>

definition kidsList :: "bktNode list \<Rightarrow> nat \<Rightarrow> nat list" where
  "kidsList ns i = [nat \<bar>childStart (ns ! i)\<bar> ..< nat (childEnd (ns ! i))]"

definition tree_shape :: "nat \<Rightarrow> bktNode list \<Rightarrow> nat list \<Rightarrow> bool" where
  "tree_shape base ns order \<longleftrightarrow> distinct order \<and> concat (map (kidsList ns) order) = [Suc base ..< length ns]
     \<and> (\<forall>i \<in> set order. base \<le> i \<and> i < length ns \<and> int i < \<bar>childStart (ns ! i)\<bar> \<and> \<bar>childStart (ns ! i)\<bar> \<le> childEnd (ns ! i)
          \<and> childEnd (ns ! i) \<le> int (length ns))
     \<and> (\<forall>i. base \<le> i \<longrightarrow> i < length ns \<longrightarrow> i \<notin> set order \<longrightarrow> childStart (ns ! i) = - 1 \<and> childEnd (ns ! i) = - 1)"

definition pending :: "int list option \<Rightarrow> nat \<Rightarrow> int list \<Rightarrow> bktNode list \<Rightarrow> (nat \<times> nat \<times> nat) list \<Rightarrow> bool" where
  "pending rix base lix ns items \<longleftrightarrow> distinct (concat (map spanOf items)) \<and> distinct (map fst items)
     \<and> (\<forall>(j, a, b) \<in> set items. base \<le> j \<and> j < length ns \<and> a < b \<and> b \<le> length lix
          \<and> (b < length lix \<longrightarrow> centerid (ns ! j) = cidOf rix (lix ! b))
          \<and> (b = length lix \<longrightarrow> j = base \<and> centerid (ns ! j) = int (length lix)) \<and> (j = base \<longrightarrow> b = length lix))"

definition centres :: "int list option \<Rightarrow> nat \<Rightarrow> int list \<Rightarrow> bktNode list \<Rightarrow> (nat \<times> nat \<times> nat) list \<Rightarrow> int multiset" where
  "centres rix base lix ns items = mset (map centerid (drop base ns)) + mset (cidsAt rix lix (concat (map bodyOf items)))"

text \<open>All centres, with the root's unless its points could not be divided.\<close>

definition divided :: "nat \<Rightarrow> int list \<Rightarrow> bktNode list \<Rightarrow> (nat \<times> nat \<times> nat) list \<Rightarrow> bool" where
  "divided base lix ns items \<longleftrightarrow> centerid (ns ! base) = int (length lix) \<and> (base \<in> fst ` set items \<or> 0 \<le> childStart (ns ! base))"

definition building ::
  "int list option \<Rightarrow> nat \<Rightarrow> int list \<Rightarrow> bktNode list \<Rightarrow> (nat \<times> nat \<times> nat) list \<Rightarrow> nat list \<Rightarrow> int multiset \<Rightarrow> bool" where
  "building rix base lix ns items order M \<longleftrightarrow> pending rix base lix ns items \<and> tree_shape base ns order
     \<and> set order \<inter> fst ` set items = {}
     \<and> (centres rix base lix ns items = add_mset (int (length lix)) M \<and> divided base lix ns items
        \<or> centres rix base lix ns items = M \<and> base \<notin> fst ` set items \<and> childStart (ns ! base) < 0)"

lemma tree_shape_step:
  assumes sh: "tree_shape base ns order" and i: "base \<le> i" "i < length ns" "i \<notin> set order"
    and ns': "ns' = ns[i := nd] @ map newNode kids" and nd: "\<bar>childStart nd\<bar> = int (length ns)" "childEnd nd = int (length ns + length kids)"
  shows "tree_shape base ns' (order @ [i])"
proof -
  have at: "ns' ! j = (if j = i then nd else if j < length ns then ns ! j else newNode (kids ! (j - length ns)))" if "j < length ns'" for j
    using that i unfolding ns' by (auto simp: nth_append)
  have len: "length ns' = length ns + length kids" unfolding ns' by simp
  have old: "j < length ns \<and> j \<noteq> i \<and> ns' ! j = ns ! j" if "j \<in> set order" for j
    using that sh i at [of j] len by (auto simp: tree_shape_def)
  have m: "map (kidsList ns') order = map (kidsList ns) order" using old by (auto simp: kidsList_def)
  have c0: "concat (map (kidsList ns) order) = [Suc base ..< length ns]" using sh by (simp add: tree_shape_def)
  have "kidsList ns' i = [length ns ..< length ns + length kids]" using at [of i] i len nd by (simp add: kidsList_def flip: of_nat_add)
  then have "concat (map (kidsList ns') (order @ [i])) = [Suc base ..< length ns] @ [length ns ..< length ns + length kids]"
    unfolding map_append concat_append m c0 by simp
  then have c: "concat (map (kidsList ns') (order @ [i])) = [Suc base ..< length ns']"
    using upt_join [of "Suc base" "length ns"] i len by simp
  have r: "base \<le> j \<and> j < length ns' \<and> int j < \<bar>childStart (ns' ! j)\<bar> \<and> \<bar>childStart (ns' ! j)\<bar> \<le> childEnd (ns' ! j)
      \<and> childEnd (ns' ! j) \<le> int (length ns')" if "j \<in> set (order @ [i])" for j
  proof (cases "j = i")
    case True
    then show ?thesis using i at [of i] nd len by simp
  next
    case False
    then have j: "j \<in> set order" using that by simp
    then have "base \<le> j \<and> j < length ns \<and> int j < \<bar>childStart (ns ! j)\<bar> \<and> \<bar>childStart (ns ! j)\<bar> \<le> childEnd (ns ! j)
        \<and> childEnd (ns ! j) \<le> int (length ns)" using sh by (auto simp: tree_shape_def)
    then show ?thesis using old [OF j] len by simp
  qed
  have n: "childStart (ns' ! j) = - 1 \<and> childEnd (ns' ! j) = - 1" if "base \<le> j" "j < length ns'" "j \<notin> set (order @ [i])" for j
    using that sh at [of j] by (auto simp: tree_shape_def newNode_def)
  show ?thesis using sh i c r n unfolding tree_shape_def by auto
qed

lemma centres_step:
  assumes "base \<le> i" "i < length ns" "ns' = ns[i := nd] @ map newNode kids"
  shows "add_mset (centerid (ns ! i)) (mset (map centerid (drop base ns')))
    = add_mset (centerid nd) (mset (map centerid (drop base ns)) + mset kids)"
proof -
  have d: "drop base ns' = (drop base ns)[i - base := nd] @ map newNode kids" using assms by (simp add: drop_update_swap)
  have k: "map centerid (map newNode kids) = kids" by (simp add: comp_def newNode_def)
  have "mset (map centerid ((drop base ns)[i - base := nd])) = mset ((map centerid (drop base ns))[i - base := centerid nd])"
    by (simp add: map_update)
  also have "\<dots> = add_mset (centerid nd) (mset (map centerid (drop base ns)) - {#centerid (ns ! i)#})"
    using assms by (subst mset_update) simp_all
  finally have "mset (map centerid (drop base ns')) = add_mset (centerid nd) (mset (map centerid (drop base ns)) - {#centerid (ns ! i)#}) + mset kids"
    unfolding d map_append mset_append k by simp
  moreover have "centerid (ns ! i) \<in># mset (map centerid (drop base ns))"
  proof -
    have "drop base ns ! (i - base) = ns ! i" "i - base < length (drop base ns)" using assms by simp_all
    then have "ns ! i \<in> set (drop base ns)" by (metis nth_mem)
    then show ?thesis by simp
  qed
  ultimately show ?thesis by (simp add: insert_DiffM)
qed

lemma cidsAt_cong: "(\<And>j. j \<in> set js \<Longrightarrow> lix' ! j = lix ! j) \<Longrightarrow> cidsAt rix lix' js = cidsAt rix lix js"
  by (simp add: cidsAt_def)

lemma building_step:
  assumes B: "building rix base lix ns ((i, f, l) # rest) order M" and G: "grown rix lix ns i f l lix' ns' items"
  shows "building rix base lix' ns' (items @ rest) (order @ [i]) M"
proof -
  note P = B [unfolded building_def pending_def]
  have h: "base \<le> i" "i < length ns" "f < l" "l \<le> length lix" "l < length lix \<Longrightarrow> centerid (ns ! i) = cidOf rix (lix ! l)"
    "l = length lix \<Longrightarrow> i = base \<and> centerid (ns ! i) = int (length lix)" "i = base \<Longrightarrow> l = length lix" using P by auto
  have ds: "distinct (concat (map spanOf rest))" "set (spanOf (i, f, l)) \<inter> set (concat (map spanOf rest)) = {}"
    "distinct (map fst rest)" "i \<notin> fst ` set rest" and io: "i \<notin> set order" and sh: "tree_shape base ns order" using P by auto
  have rest: "base \<le> j \<and> j < length ns \<and> a < b \<and> b \<le> length lix \<and> (b < length lix \<longrightarrow> centerid (ns ! j) = cidOf rix (lix ! b))
      \<and> (b = length lix \<longrightarrow> j = base \<and> centerid (ns ! j) = int (length lix)) \<and> (j = base \<longrightarrow> b = length lix)" if "(j, a, b) \<in> set rest" for j a b
    using P that by auto
  obtain cid cs kids where G': "ns' = ns[i := \<lparr>centerid = cid, childStart = cs, childEnd = int (length ns + length kids)\<rparr>] @ map newNode kids"
    and alt: "cs = int (length ns) \<and> cid = centerid (ns ! i) \<and> segPerm f l lix lix'
          \<and> mset kids + mset (cidsAt rix lix' (concat (map bodyOf items))) = mset (cidsAt rix lix [f ..< l])
          \<and> distinct (concat (map spanOf items)) \<and> distinct (map fst items) \<and> sum_list (map sizeOf items) < l - f
          \<and> (\<forall>(j, a, b) \<in> set items. length ns \<le> j \<and> j < length ns + length kids \<and> f \<le> a \<and> a < b \<and> b < l
               \<and> kids ! (j - length ns) = cidOf rix (lix' ! b))
        \<or> items = [] \<and> cs = - int (length ns) \<and> segPerm f (min (Suc l) (length lix)) lix lix'
          \<and> add_mset cid (mset kids) = mset (cidsAt rix lix [f ..< min (Suc l) (length lix)])"
    using G unfolding grown_def by blast
  let ?nd = "\<lparr>centerid = cid, childStart = cs, childEnd = int (length ns + length kids)\<rparr>"
  have sh': "tree_shape base ns' (order @ [i])" by (rule tree_shape_step [OF sh h(1,2) io G']) (use alt in auto)
  have len: "length lix' = length lix" using alt by (auto simp: segPerm_def)
  have out: "lix' ! p = lix ! p" if "p \<notin> set (spanOf (i, f, l))" "p < length lix" for p
  proof -
    have p: "p < f \<or> Suc l \<le> p" using that(1) h(3) by (auto simp: spanOf_def)
    from alt show ?thesis
    proof (elim disjE)
      assume "cs = int (length ns) \<and> cid = centerid (ns ! i) \<and> segPerm f l lix lix'
          \<and> mset kids + mset (cidsAt rix lix' (concat (map bodyOf items))) = mset (cidsAt rix lix [f ..< l])
          \<and> distinct (concat (map spanOf items)) \<and> distinct (map fst items) \<and> sum_list (map sizeOf items) < l - f
          \<and> (\<forall>(j, a, b) \<in> set items. length ns \<le> j \<and> j < length ns + length kids \<and> f \<le> a \<and> a < b \<and> b < l
               \<and> kids ! (j - length ns) = cidOf rix (lix' ! b))"
      then show ?thesis using segPerm_outside [of f l lix lix' p] p that(2) by auto
    next
      assume "items = [] \<and> cs = - int (length ns) \<and> segPerm f (min (Suc l) (length lix)) lix lix'
          \<and> add_mset cid (mset kids) = mset (cidsAt rix lix [f ..< min (Suc l) (length lix)])"
      then show ?thesis using segPerm_outside [of f "min (Suc l) (length lix)" lix lix' p] p that(2) by auto
    qed
  qed
  have nodes: "ns' ! j = ns ! j" if "j < length ns" "j \<noteq> i" for j using that unfolding G' by (simp add: nth_append)
  have new: "length ns \<le> j \<and> j < length ns' \<and> f \<le> a \<and> a < b \<and> b < l \<and> centerid (ns' ! j) = cidOf rix (lix' ! b)"
    if "(j, a, b) \<in> set items" for j a b
    using alt that unfolding G' by (auto simp: nth_append newNode_def)
  have restspan: "x \<notin> set (spanOf (i, f, l))" if "(j, a, b) \<in> set rest" "x \<in> set (spanOf (j, a, b))" for x j a b
    using ds(2) that by auto
  have "pending rix base lix' ns' (items @ rest)"
    unfolding pending_def
  proof (intro conjI)
    have "f \<le> x \<and> x < l" if x: "x \<in> set (concat (map spanOf items))" for x
    proof -
      obtain j a b where it: "(j, a, b) \<in> set items" "x \<in> set (spanOf (j, a, b))" using x by auto
      then show ?thesis using new [OF it(1)] by (auto simp: spanOf_def)
    qed
    moreover have "set (spanOf (i, f, l)) = {f ..< Suc l}" by (auto simp: spanOf_def)
    ultimately have "set (concat (map spanOf items)) \<subseteq> set (spanOf (i, f, l))" by fastforce
    then have "set (concat (map spanOf items)) \<inter> set (concat (map spanOf rest)) = {}" using ds(2) by blast
    moreover have "distinct (concat (map spanOf items))" using alt by auto
    ultimately show "distinct (concat (map spanOf (items @ rest)))" using ds(1) by (simp only: map_append concat_append distinct_append)
    have "fst ` set items \<inter> fst ` set rest = {}" using new rest by fastforce
    moreover have "distinct (map fst items)" using alt by auto
    ultimately show "distinct (map fst (items @ rest))" using ds(3) by simp
    show "\<forall>(j, a, b) \<in> set (items @ rest). base \<le> j \<and> j < length ns' \<and> a < b \<and> b \<le> length lix'
      \<and> (b < length lix' \<longrightarrow> centerid (ns' ! j) = cidOf rix (lix' ! b))
      \<and> (b = length lix' \<longrightarrow> j = base \<and> centerid (ns' ! j) = int (length lix')) \<and> (j = base \<longrightarrow> b = length lix')"
    proof (clarify)
      fix j a b assume "(j, a, b) \<in> set (items @ rest)"
      then consider "(j, a, b) \<in> set items" | "(j, a, b) \<in> set rest" by auto
      then show "base \<le> j \<and> j < length ns' \<and> a < b \<and> b \<le> length lix'
        \<and> (b < length lix' \<longrightarrow> centerid (ns' ! j) = cidOf rix (lix' ! b))
        \<and> (b = length lix' \<longrightarrow> j = base \<and> centerid (ns' ! j) = int (length lix')) \<and> (j = base \<longrightarrow> b = length lix')"
      proof cases
        case 1
        then show ?thesis using new [OF 1] h len by simp
      next
        case 2
        have "b \<in> set (spanOf (j, a, b))" using rest [OF 2] by (simp add: spanOf_def)
        then have "b < length lix \<Longrightarrow> lix' ! b = lix ! b" using out restspan [OF 2] by blast
        moreover have "j \<noteq> i" using ds(4) 2 by force
        moreover have "length ns \<le> length ns'" unfolding G' by simp
        ultimately show ?thesis using rest [OF 2] nodes [of j] len by auto
      qed
    qed
  qed
  moreover have "set (order @ [i]) \<inter> fst ` set (items @ rest) = {}"
  proof -
    have "x < length ns" if "x \<in> set order" for x using sh that by (auto simp: tree_shape_def)
    then have "set (order @ [i]) \<inter> fst ` set items = {}" using new h(2) by fastforce
    moreover have "set (order @ [i]) \<inter> fst ` set rest = {}" using P ds(4) by auto
    ultimately show ?thesis by auto
  qed
  moreover have "centres rix base lix' ns' (items @ rest) = add_mset (int (length lix')) M \<and> divided base lix' ns' (items @ rest)
      \<or> centres rix base lix' ns' (items @ rest) = M \<and> base \<notin> fst ` set (items @ rest) \<and> childStart (ns' ! base) < 0"
  proof -
    have rb: "cidsAt rix lix' (concat (map bodyOf rest)) = cidsAt rix lix (concat (map bodyOf rest))"
    proof (rule cidsAt_cong)
      fix x assume "x \<in> set (concat (map bodyOf rest))"
      then obtain j a b where it: "(j, a, b) \<in> set rest" "x \<in> set (bodyOf (j, a, b))" by auto
      then have "x \<in> set (spanOf (j, a, b))" "x < length lix" using rest [OF it(1)] by (auto simp: spanOf_def bodyOf_def)
      then show "lix' ! x = lix ! x" using out restspan [OF it(1)] by blast
    qed
    have ap: "cidsAt rix xs (ys @ zs) = cidsAt rix xs ys @ cidsAt rix xs zs" for xs ys zs by (simp add: cidsAt_def)
    note st = centres_step [OF h(1,2) G']
    have old: "centres rix base lix ns ((i, f, l) # rest)
        = mset (map centerid (drop base ns)) + mset (cidsAt rix lix [f ..< l]) + mset (cidsAt rix lix (concat (map bodyOf rest)))"
      by (simp add: centres_def bodyOf_def ap)
    have nw: "centres rix base lix' ns' (items @ rest)
        = mset (map centerid (drop base ns')) + mset (cidsAt rix lix' (concat (map bodyOf items))) + mset (cidsAt rix lix (concat (map bodyOf rest)))"
      by (simp add: centres_def ap rb)
    have n0: "0 < length ns" using h(2) by linarith
    have root: "ns' ! base = ns ! base" if "i \<noteq> base" using that h(1,2) nodes [of base] by simp
    have at: "ns' ! base = ?nd" if "i = base" using that h(2) unfolding G' by (simp add: nth_append)
    have keep: "divided base lix' ns' (items @ rest)" if "divided base lix ns ((i, f, l) # rest)" "i \<noteq> base"
      using that root len by (auto simp: divided_def)
    have bi: "base \<notin> fst ` set (items @ rest)" if "i = base \<or> base \<notin> fst ` set ((i, f, l) # rest)"
    proof
      assume "base \<in> fst ` set (items @ rest)"
      then consider a b where "(base, a, b) \<in> set items" | "base \<in> fst ` set rest" by auto
      then show False
      proof cases
        case 1
        then show ?thesis using new [OF 1] h(1,2) by simp
      next
        case 2
        then show ?thesis using that ds(4) by auto
      qed
    qed
    from alt consider (split) "cid = centerid (ns ! i)" "cs = int (length ns)" "mset kids + mset (cidsAt rix lix' (concat (map bodyOf items))) = mset (cidsAt rix lix [f ..< l])"
      | (one) "items = []" "cs = - int (length ns)" "add_mset cid (mset kids) = mset (cidsAt rix lix [f ..< min (Suc l) (length lix)])" by blast
    then show ?thesis
    proof cases
      case split
      have "mset (map centerid (drop base ns')) = mset (map centerid (drop base ns)) + mset kids" using st split(1) by simp
      then have "centres rix base lix' ns' (items @ rest) = centres rix base lix ns ((i, f, l) # rest)"
        unfolding old nw split(3) [symmetric] by (simp add: ac_simps)
      moreover have "divided base lix' ns' (items @ rest)" if "divided base lix ns ((i, f, l) # rest)"
        using keep [OF that] that at len split(1,2) by (cases "i = base") (auto simp: divided_def)
      moreover have "childStart (ns' ! base) < 0" if "base \<notin> fst ` set ((i, f, l) # rest)" "childStart (ns ! base) < 0"
        using that root by auto
      ultimately show ?thesis using P len bi by auto
    next
      case one
      have e: "add_mset (centerid (ns ! i)) (centres rix base lix' ns' (items @ rest))
          = mset (map centerid (drop base ns)) + mset (cidsAt rix lix [f ..< min (Suc l) (length lix)]) + mset (cidsAt rix lix (concat (map bodyOf rest)))"
        using st unfolding nw one(3) [symmetric] by (simp add: one(1), simp add: cidsAt_def)
      show ?thesis
      proof (cases "l = length lix")
        case True
        have c: "centerid (ns ! i) = int (length lix)" using h(6) [OF True] by blast
        have "min (Suc l) (length lix) = l" using True by simp
        then have "add_mset (int (length lix)) (centres rix base lix' ns' (items @ rest)) = centres rix base lix ns ((i, f, l) # rest)"
          using e unfolding c old by simp
        moreover have "base \<in> fst ` set ((i, f, l) # rest)" using h(6) True by simp
        moreover have "childStart (ns' ! base) < 0" using at h(2,6) True one(2) n0 by auto
        ultimately show ?thesis using P h(6) True bi by auto
      next
        case False
        then have "l < length lix" "min (Suc l) (length lix) = Suc l" using h(4) by auto
        then have "mset (cidsAt rix lix [f ..< min (Suc l) (length lix)]) = add_mset (centerid (ns ! i)) (mset (cidsAt rix lix [f ..< l]))"
          using h(3,5) by (simp add: cidsAt_def)
        then have "centres rix base lix' ns' (items @ rest) = centres rix base lix ns ((i, f, l) # rest)"
          using e unfolding old by simp
        moreover have "i \<noteq> base" using h(7) False by blast
        ultimately show ?thesis using P len bi keep root by auto
      qed
    qed
  qed
  ultimately show ?thesis using sh' by (simp add: building_def)
qed

section \<open>The stack\<close>

lemma grown_facts:
  assumes G: "grown rix lix ns i f l lix' ns' items" and r: "f < l" "l \<le> length lix" "base \<le> i" "i < length ns"
  shows "mset lix' = mset lix" "length lix' = length lix" "sum_list (map sizeOf items) < l - f" "take base ns' = take base ns"
proof -
  obtain h where sp: "segPerm f h lix lix'" "f \<le> h" and sz: "sum_list (map sizeOf items) < l - f"
    using G r unfolding grown_def by (auto intro: that)
  show "mset lix' = mset lix" by (rule segPerm_mset [OF sp])
  then show "length lix' = length lix" by (rule mset_eq_length)
  show "sum_list (map sizeOf items) < l - f" by (rule sz)
  show "take base ns' = take base ns" using G r(3,4) unfolding grown_def by (auto simp: take_update_cancel)
qed

lemma build_ok_cong:
  assumes "build_ok e data rix dk lix t" "sameTree t t'" "mset lix' = mset lix"
  shows "build_ok e data rix dk lix' t'"
proof -
  have "set lix' = set lix" using assms(3) by (metis set_mset_mset)
  then show ?thesis using assms(1,2) by (simp add: build_ok_def sameTree_def)
qed

lemma bt_loop_ok:
  assumes "build_ok e data rix dk (bs_local s) (bs_tree s)" "args_ok (length (bs_local s)) (tr_kmeansK (bs_tree s)) (bs_args s)"
    and "building rix base (bs_local s) (tr_nodes (bs_tree s)) items order M" "bs_stack s = map toItem items"
    and "sum_list (map sizeOf items) < n" "length (bs_local s) < fuel"
  shows "\<exists>s' order'. bt_loop n fuel e data rix dk s = Ret s' \<and> building rix base (bs_local s') (tr_nodes (bs_tree s')) [] order' M
    \<and> bs_stack s' = [] \<and> sameTree (bs_tree s) (bs_tree s') \<and> args_ok (length (bs_local s')) (tr_kmeansK (bs_tree s')) (bs_args s')
    \<and> mset (bs_local s') = mset (bs_local s) \<and> take base (tr_nodes (bs_tree s')) = take base (tr_nodes (bs_tree s))"
  using assms
proof (induction n arbitrary: s items order)
  case 0
  then show ?case by simp
next
  case (Suc n)
  show ?case
  proof (cases items)
    case Nil
    then show ?thesis using Suc.prems by (intro exI [of _ s] exI [of _ order]) (simp add: sameTree_def)
  next
    case (Cons it rest)
    obtain i f l where it: "it = (i, f, l)" by (cases it)
    let ?s0 = "s\<lparr>bs_stack := map toItem rest\<rparr>"
    have r: "base \<le> i" "i < length (tr_nodes (bs_tree s))" "f < l" "l \<le> length (bs_local s)"
      using Suc.prems(3) Cons it by (auto simp: building_def pending_def)
    have B: "building rix base (bs_local s) (tr_nodes (bs_tree s)) ((i, f, l) # rest) order M" using Suc.prems(3) Cons it by simp
    have fu: "l - f < fuel" using r Suc.prems(6) by simp
    obtain s1 items1 where b: "bt_item fuel e data rix dk (int i, int f, int l) ?s0 = Ret s1"
      "sameTree (bs_tree s) (bs_tree s1)" "args_ok (length (bs_local s)) (tr_kmeansK (bs_tree s)) (bs_args s1)"
      "bs_stack s1 = map toItem items1 @ map toItem rest"
      "grown rix (bs_local s) (tr_nodes (bs_tree s)) i f l (bs_local s1) (tr_nodes (bs_tree s1)) items1"
      using bt_item_ok [of e data rix dk ?s0 f l i fuel] Suc.prems(1,2) r fu by auto
    note g = grown_facts [OF b(5) r(3,4,1,2)]
    have B1: "building rix base (bs_local s1) (tr_nodes (bs_tree s1)) (items1 @ rest) (order @ [i]) M"
      by (rule building_step [OF B b(5)])
    have "sum_list (map sizeOf (items1 @ rest)) < n" using Suc.prems(5) g(3) Cons it by (simp add: sizeOf_def)
    moreover have "build_ok e data rix dk (bs_local s1) (bs_tree s1)" by (rule build_ok_cong [OF Suc.prems(1) b(2) g(1)])
    moreover have "args_ok (length (bs_local s1)) (tr_kmeansK (bs_tree s1)) (bs_args s1)"
      using b(2,3) g(2) by (simp add: sameTree_def)
    ultimately obtain s2 order2 where l: "bt_loop n fuel e data rix dk s1 = Ret s2"
      "building rix base (bs_local s2) (tr_nodes (bs_tree s2)) [] order2 M" "bs_stack s2 = []" "sameTree (bs_tree s1) (bs_tree s2)"
      "args_ok (length (bs_local s2)) (tr_kmeansK (bs_tree s2)) (bs_args s2)" "mset (bs_local s2) = mset (bs_local s1)"
      "take base (tr_nodes (bs_tree s2)) = take base (tr_nodes (bs_tree s1))"
      using Suc.IH [of s1 "items1 @ rest" "order @ [i]"] B1 b(4) Suc.prems(6) g(2) by auto
    have "bs_stack s = toItem (i, f, l) # map toItem rest" using Suc.prems(4) Cons it by simp
    then have "bt_loop (Suc n) fuel e data rix dk s = Ret s2" using b(1) l(1) by (simp add: toItem_def)
    then show ?thesis using l g sameTree_trans [OF b(2) l(4)] by auto
  qed
qed

section \<open>All trees\<close>

text \<open>
  The tree in the nodes \<open>base .. stop - 1\<close>, with the node behind it that ends it: its shape, and its centres. They are the ids,
  each as often as in \<open>lix\<close>, and the root's number of ids unless the points could not be divided at the root.
\<close>

definition tree_ok :: "int list option \<Rightarrow> int list \<Rightarrow> nat \<Rightarrow> nat \<Rightarrow> bktNode list \<Rightarrow> bool" where
  "tree_ok rix lix base stop ns \<longleftrightarrow> base < stop \<and> stop < length ns \<and> ns ! stop = newNode (- 1)
     \<and> (\<exists>order. tree_shape base (take stop ns) order)
     \<and> (mset (map centerid (drop base (take stop ns))) = add_mset (int (length lix)) (mset (map (cidOf rix) lix))
          \<and> centerid (ns ! base) = int (length lix) \<and> 0 \<le> childStart (ns ! base)
        \<or> mset (map centerid (drop base (take stop ns))) = mset (map (cidOf rix) lix) \<and> childStart (ns ! base) < 0)"

lemma tree_ok_append: "tree_ok rix lix base stop ns \<Longrightarrow> tree_ok rix lix base stop (ns @ extra)"
  by (auto simp: tree_ok_def nth_append)

lemma tree_ok_cong: "tree_ok rix lix base stop ns \<Longrightarrow> mset lix' = mset lix \<Longrightarrow> tree_ok rix lix' base stop ns"
  by (auto simp: tree_ok_def dest: mset_eq_length)

lemma cidsAt_all: "cidsAt rix lix [0 ..< length lix] = map (cidOf rix) lix"
  by (intro nth_equalityI) (simp_all add: cidsAt_def)

lemma charOf_small: "i \<le> 127 \<Longrightarrow> charOf i = int i"
  by (simp add: charOf_def)

lemma bt_oneTree_ok:
  assumes ok: "build_ok e data rix dk (bs_local s) (bs_tree s)" and a: "args_ok (length (bs_local s)) (tr_kmeansK (bs_tree s)) (bs_args s)"
    and i: "i = length (tr_start (bs_tree s))" "i \<le> 127" and n: "0 < length (bs_local s)" "length (bs_local s) < fuel"
  shows "\<exists>s'. bt_oneTree fuel e data rix dk i s = Ret s' \<and> build_ok e data rix dk (bs_local s') (bs_tree s')
    \<and> args_ok (length (bs_local s')) (tr_kmeansK (bs_tree s')) (bs_args s') \<and> mset (bs_local s') = mset (bs_local s)
    \<and> tr_start (bs_tree s') = tr_start (bs_tree s) @ [int (length (tr_nodes (bs_tree s)))]
    \<and> sameTree (bs_tree s) ((bs_tree s')\<lparr>tr_start := tr_start (bs_tree s)\<rparr>)
    \<and> (\<exists>extra. tr_nodes (bs_tree s') = tr_nodes (bs_tree s) @ extra)
    \<and> tree_ok rix (bs_local s') (length (tr_nodes (bs_tree s))) (length (tr_nodes (bs_tree s')) - 1) (tr_nodes (bs_tree s'))"
proof -
  let ?t = "bs_tree s"
  let ?ns = "tr_nodes ?t"
  let ?base = "length ?ns"
  obtain lix r where sh: "kmShuffle e (bs_rand s) (bs_local s) = (lix, r)" by (cases "kmShuffle e (bs_rand s) (bs_local s)")
  have "kmEnv_ok e" using ok by (simp add: build_ok_def source_ok_def)
  then have ms: "mset lix = mset (bs_local s)" using sh unfolding kmEnv_ok_def by (metis fst_conv)
  then have len: "length lix = length (bs_local s)" by (rule mset_eq_length)
  let ?n = "length lix"
  let ?t1 = "tr_push (int ?n) (?t\<lparr>tr_start := tr_start ?t @ [tr_size ?t]\<rparr>)"
  let ?s1 = "s\<lparr>bs_stack := [(int ?base, 0, int ?n)], bs_tree := ?t1, bs_local := lix, bs_rand := r\<rparr>"
  have ns1: "tr_nodes ?t1 = ?ns @ [newNode (int ?n)]" by (simp add: tr_push_def)
  have root: "vecAt (tr_start ?t1) (charOf i) = Ret (int ?base)"
    using i by (simp add: charOf_small vecAt_def tr_push_def tr_size_def)
  let ?items = "[(?base, 0, ?n)]"
  have B: "building rix ?base lix (tr_nodes ?t1) ?items [] (mset (map (cidOf rix) lix))"
    unfolding building_def
  proof (intro conjI)
    show "pending rix ?base lix (tr_nodes ?t1) ?items"
      using n(1) unfolding ns1 pending_def len [symmetric] by (simp add: spanOf_def newNode_def)
    show "tree_shape ?base (tr_nodes ?t1) []" by (auto simp: tree_shape_def ns1 newNode_def nth_append)
    have "centres rix ?base lix (tr_nodes ?t1) ?items = add_mset (int ?n) (mset (map (cidOf rix) lix))"
      by (simp add: centres_def bodyOf_def ns1 cidsAt_all, simp add: newNode_def)
    moreover have "divided ?base lix (tr_nodes ?t1) ?items" by (simp add: divided_def ns1 newNode_def)
    ultimately show "centres rix ?base lix (tr_nodes ?t1) ?items = add_mset (int ?n) (mset (map (cidOf rix) lix)) \<and> divided ?base lix (tr_nodes ?t1) ?items
      \<or> centres rix ?base lix (tr_nodes ?t1) ?items = mset (map (cidOf rix) lix) \<and> ?base \<notin> fst ` set ?items
        \<and> childStart (tr_nodes ?t1 ! ?base) < 0" by blast
  qed simp
  have s1: "build_ok e data rix dk (bs_local ?s1) (bs_tree ?s1)"
    using build_ok_cong [OF ok _ ms, of "?t\<lparr>tr_sampleMap := tr_sampleMap ?t\<rparr>"] by (simp add: build_ok_def tr_push_def sameTree_def)
  have a1: "args_ok (length (bs_local ?s1)) (tr_kmeansK (bs_tree ?s1)) (bs_args ?s1)" using a len by (simp add: tr_push_def)
  obtain s2 order where l: "bt_loop fuel fuel e data rix dk ?s1 = Ret s2"
    "building rix ?base (bs_local s2) (tr_nodes (bs_tree s2)) [] order (mset (map (cidOf rix) lix))"
    "sameTree ?t1 (bs_tree s2)" "args_ok (length (bs_local s2)) (tr_kmeansK (bs_tree s2)) (bs_args s2)"
    "mset (bs_local s2) = mset lix" "take ?base (tr_nodes (bs_tree s2)) = take ?base (tr_nodes ?t1)"
    using bt_loop_ok [OF s1 a1, of ?base ?items "[]" "mset (map (cidOf rix) lix)" fuel fuel] B n(2) len
    by (auto simp: toItem_def sizeOf_def)
  let ?ns2 = "tr_nodes (bs_tree s2)"
  let ?t3 = "tr_push (- 1) (bs_tree s2)"
  let ?s3 = "s2\<lparr>bs_tree := ?t3\<rparr>"
  have run: "bt_oneTree fuel e data rix dk i s = Ret ?s3"
    unfolding bt_oneTree_def Let_def sh prod.case root andThen.simps l(1) ..
  have t3: "tr_nodes ?t3 = ?ns2 @ [newNode (- 1)]" "sameTree (bs_tree s2) ?t3" by (simp_all add: tr_push_def sameTree_def)
  have len2: "length (bs_local s2) = ?n" using l(5) by (rule mset_eq_length)
  have c: "centres rix ?base (bs_local s2) ?ns2 [] = mset (map centerid (drop ?base ?ns2))" by (simp add: centres_def cidsAt_def)
  have mm: "mset (map (cidOf rix) (bs_local s2)) = mset (map (cidOf rix) lix)" using l(5) by simp
  have ne: "?base < length ?ns2"
  proof (rule ccontr)
    assume "\<not> ?base < length ?ns2"
    then have "mset (map centerid (drop ?base ?ns2)) = {#}" by simp
    moreover have "mset (map (cidOf rix) lix) \<noteq> {#}" using n(1) len by auto
    ultimately show False using l(2) unfolding building_def c by auto
  qed
  have "tree_ok rix (bs_local s2) ?base (length (tr_nodes ?t3) - 1) (tr_nodes ?t3)"
    using l(2) ne len2 unfolding building_def c mm [symmetric] by (auto simp: tree_ok_def t3 divided_def nth_append)
  moreover have "\<exists>extra. tr_nodes ?t3 = ?ns @ extra"
  proof -
    have "take ?base ?ns2 = ?ns" using l(6) ns1 by simp
    then have "?ns2 = ?ns @ drop ?base ?ns2" by (metis append_take_drop_id)
    then show ?thesis unfolding t3 by (metis append.assoc)
  qed
  moreover have "build_ok e data rix dk (bs_local ?s3) (bs_tree ?s3)"
    using build_ok_cong [OF s1 sameTree_trans [OF _ t3(2)], of "bs_local s2"] l(3,5) by simp
  moreover have "tr_start ?t3 = tr_start ?t @ [int ?base]" "sameTree ?t (?t3\<lparr>tr_start := tr_start ?t\<rparr>)"
    using l(3) by (simp_all add: sameTree_def tr_push_def tr_size_def)
  ultimately show ?thesis using run l(4,5) ms len2 t3(2) by (auto simp: sameTree_def)
qed

lemma DynamicFactorSelect_ok:
  fixes e :: "('r, 'v, 'a, 'f :: linorder) kmEnv"
  assumes src: "source_ok (\<lambda>_. True) e data (set lix)" and n: "0 < length lix" and a: "args_ok (length lix) K a" and s: "0 < samples"
  shows "\<exists>r' lix' a' b. DynamicFactorSelect e factors hundred mx data lix 0 (int (length lix)) a samples r = Ret (r', lix', a', b)
    \<and> mset lix' = mset lix \<and> args_ok (length lix) K a'"
proof -
  let ?I = "\<lambda>s :: 'r \<times> int list \<times> ('v, 'a, 'f) kmArgs \<times> 'f \<times> 'f.
    mset (fst (snd s)) = mset lix \<and> args_ok (length lix) K (fst (snd (snd s)))"
  have "\<exists>s'. loopOver (dfs_try e data 0 (int (length lix)) samples) factors (r, lix, a, hundred, mx) = Ret s' \<and> ?I s'"
  proof (rule loopOver_inv [where I = "\<lambda>_. ?I"])
    show "?I (r, lix, a, hundred, mx)" using a by simp
  next
    fix prev rest factor and s :: "'r \<times> int list \<times> ('v, 'a, 'f) kmArgs \<times> 'f \<times> 'f"
    assume "?I s"
    then obtain r1 ix1 a1 b1 m1 where st: "s = (r1, ix1, a1, b1, m1)" "mset ix1 = mset lix" "args_ok (length lix) K a1" by (cases s) auto
    have len: "length ix1 = length lix" using st(2) by (rule mset_eq_length)
    have "set ix1 = set lix" using st(2) by (metis set_mset_mset)
    then have "source_ok (\<lambda>_. True) e data (set (idsIn ix1 0 (length lix)))" using src len by (simp add: idsIn_def)
    moreover have "argsOf (\<lambda>_. True) (length lix) a1 a1" using st(3) by (simp add: argsOf_def args_ok_def)
    ultimately obtain r' ix' a' std where t: "TryClustering e data ix1 0 (int (length lix)) a1 samples factor False r1 = Ret (r', ix', a', std)"
      "segPerm 0 (length lix) ix1 ix'" "argsOf (\<lambda>_. True) (length lix) a1 a'"
      using TryClustering_ok [of "\<lambda>_. True" e data ix1 0 "length lix" "length lix" a1 a1 samples factor False r1] n len s by auto
    have "mset ix' = mset lix" using segPerm_mset [OF t(2)] st(2) by simp
    moreover have "args_ok (length lix) K a'" using t(3) st(3) by (simp add: argsOf_def args_ok_def)
    ultimately show "\<exists>s'. dfs_try e data 0 (int (length lix)) samples factor s = Ret s' \<and> ?I s'"
      using t(1) by (simp add: dfs_try_def st(1))
  qed
  then show ?thesis by (force simp: DynamicFactorSelect_def)
qed

text \<open>Trees side by side: \<open>bounds\<close> has the start of every tree and the number of nodes.\<close>

definition forest :: "int list option \<Rightarrow> int list \<Rightarrow> int list \<Rightarrow> bktNode list \<Rightarrow> bool" where
  "forest rix lix starts ns \<longleftrightarrow> (\<exists>bounds. length bounds = Suc (length starts) \<and> starts = map int (butlast bounds)
     \<and> bounds ! 0 = 0 \<and> bounds ! length starts = length ns
     \<and> (\<forall>j < length starts. bounds ! j < bounds ! Suc j \<and> tree_ok rix lix (bounds ! j) (bounds ! Suc j - 1) ns))"

lemma forest_step:
  assumes F: "forest rix lix starts ns" and ns': "ns' = ns @ extra" and t: "tree_ok rix lix' (length ns) (length ns' - 1) ns'"
    and ms: "mset lix' = mset lix"
  shows "forest rix lix' (starts @ [int (length ns)]) ns'"
proof -
  obtain bounds where b: "length bounds = Suc (length starts)" "starts = map int (butlast bounds)" "bounds ! 0 = 0"
    "bounds ! length starts = length ns"
    "\<forall>j < length starts. bounds ! j < bounds ! Suc j \<and> tree_ok rix lix (bounds ! j) (bounds ! Suc j - 1) ns"
    using F unfolding forest_def by blast
  have lt: "length ns < length ns'" using t by (simp add: tree_ok_def)
  have ne: "bounds \<noteq> []" using b(1) by auto
  have "last bounds = length ns" using b(1,4) ne by (simp add: last_conv_nth)
  then have bd: "bounds = butlast bounds @ [length ns]" using ne by (metis append_butlast_last_id)
  show ?thesis unfolding forest_def
  proof (intro exI [of _ "bounds @ [length ns']"] conjI allI impI)
    show "starts @ [int (length ns)] = map int (butlast (bounds @ [length ns']))"
      using b(2) bd by (metis butlast_snoc list.simps(8,9) map_append)
    fix j assume j: "j < length (starts @ [int (length ns)])"
    show "(bounds @ [length ns']) ! j < (bounds @ [length ns']) ! Suc j"
      and "tree_ok rix lix' ((bounds @ [length ns']) ! j) ((bounds @ [length ns']) ! Suc j - 1) ns'"
    proof -
      have "(bounds @ [length ns']) ! j < (bounds @ [length ns']) ! Suc j
        \<and> tree_ok rix lix' ((bounds @ [length ns']) ! j) ((bounds @ [length ns']) ! Suc j - 1) ns'"
      proof (cases "j = length starts")
        case True
        then show ?thesis using b(1,4) lt t by (simp add: nth_append)
      next
        case False
        then have "j < length starts" using j by simp
        then show ?thesis using b(1,5) tree_ok_append tree_ok_cong [OF _ ms] unfolding ns' by (simp add: nth_append)
      qed
      then show "(bounds @ [length ns']) ! j < (bounds @ [length ns']) ! Suc j"
        and "tree_ok rix lix' ((bounds @ [length ns']) ! j) ((bounds @ [length ns']) ! Suc j - 1) ns'" by blast+
    qed
  qed (use b ne in \<open>simp_all add: nth_append\<close>)
qed

lemma BuildTrees_ok:
  fixes e :: "('r, 'v, 'a, 'f :: linorder) kmEnv"
  assumes ok: "build_ok e data rix dk lix t" and fresh: "tr_start t = []" "tr_nodes t = []" and n: "0 < length lix"
    and lix: "lix = (case indices of None \<Rightarrow> map int [0 ..< R] | Some xs \<Rightarrow> xs)"
    and args: "args_ok (length lix) (tr_kmeansK t) (newArgs (tr_kmeansK t) (length lix) threads)"
    and few: "tr_number t \<le> 127" and fuel: "length lix < fuel"
  shows "\<exists>t' r'. BuildTrees fuel e factors hundred mx newArgs data R threads indices rix dk t r = Ret (t', r')
    \<and> length (tr_start t') = tr_number t \<and> forest rix lix (tr_start t') (tr_nodes t') \<and> tr_number t' = tr_number t"
proof -
  let ?a = "newArgs (tr_kmeansK t) (length lix) threads"
  have src: "source_ok (\<lambda>_. True) e data (set lix)" "0 < tr_samples t" using ok by (simp_all add: build_ok_def)
  obtain r1 lix1 a1 b where bal: "(if tr_balance t < kmOfInt e 0
      then DynamicFactorSelect e factors hundred mx data lix 0 (int (length lix)) ?a (tr_samples t) r
      else Ret (r, lix, ?a, tr_balance t)) = Ret (r1, lix1, a1, b)" "mset lix1 = mset lix" "args_ok (length lix) (tr_kmeansK t) a1"
  proof (cases "tr_balance t < kmOfInt e 0")
    case True
    obtain r1 lix1 a1 b where "DynamicFactorSelect e factors hundred mx data lix 0 (int (length lix)) ?a (tr_samples t) r
        = Ret (r1, lix1, a1, b)" "mset lix1 = mset lix" "args_ok (length lix) (tr_kmeansK t) a1"
      using DynamicFactorSelect_ok [OF src(1) n args src(2), of factors hundred mx r] by blast
    then show ?thesis using that True by simp
  next
    case False
    then show ?thesis using that args by simp
  qed
  let ?t0 = "t\<lparr>tr_balance := b, tr_sampleMap := Map.empty\<rparr>"
  let ?s0 = "\<lparr>bs_stack = [], bs_tree = ?t0, bs_local = lix1, bs_args = a1, bs_rand = r1\<rparr>"
  let ?I = "\<lambda>prev s :: ('r, 'v, 'a, 'f) buildSt. build_ok e data rix dk (bs_local s) (bs_tree s)
    \<and> args_ok (length (bs_local s)) (tr_kmeansK (bs_tree s)) (bs_args s) \<and> mset (bs_local s) = mset lix
    \<and> tr_number (bs_tree s) = tr_number t \<and> length (tr_start (bs_tree s)) = length prev \<and> forest rix (bs_local s) (tr_start (bs_tree s)) (tr_nodes (bs_tree s))"
  have "\<exists>s'. loopOver (bt_oneTree fuel e data rix dk) [0 ..< tr_number t] ?s0 = Ret s' \<and> ?I [0 ..< tr_number t] s'"
  proof (rule loopOver_inv [where I = ?I])
    have "set lix1 = set lix" using bal(2) by (metis set_mset_mset)
    then have "build_ok e data rix dk lix1 ?t0" using ok by (simp add: build_ok_def)
    moreover have "forest rix lix1 [] []" unfolding forest_def by (intro exI [of _ "[0]"]) simp
    ultimately show "?I [] ?s0" using bal(2,3) fresh mset_eq_length [OF bal(2)] by simp
  next
    fix prev i rest and s :: "('r, 'v, 'a, 'f) buildSt"
    assume split: "[0 ..< tr_number t] = prev @ i # rest" and I: "?I prev s"
    have "length prev < tr_number t" using arg_cong [OF split, of length] by simp
    then have i: "i = length prev" "i < tr_number t" using arg_cong [OF split, of "\<lambda>xs. xs ! length prev"] by simp_all
    have len: "length (bs_local s) = length lix" using I by (auto dest: mset_eq_length)
    obtain s' extra where o1: "bt_oneTree fuel e data rix dk i s = Ret s'" "build_ok e data rix dk (bs_local s') (bs_tree s')"
      "args_ok (length (bs_local s')) (tr_kmeansK (bs_tree s')) (bs_args s')" "mset (bs_local s') = mset (bs_local s)"
      "tr_start (bs_tree s') = tr_start (bs_tree s) @ [int (length (tr_nodes (bs_tree s)))]"
      "tr_nodes (bs_tree s') = tr_nodes (bs_tree s) @ extra"
      "tree_ok rix (bs_local s') (length (tr_nodes (bs_tree s))) (length (tr_nodes (bs_tree s')) - 1) (tr_nodes (bs_tree s'))"
      "sameTree (bs_tree s) ((bs_tree s')\<lparr>tr_start := tr_start (bs_tree s)\<rparr>)"
      using bt_oneTree_ok [of e data rix dk s i fuel] I i few len n fuel by auto
    have "forest rix (bs_local s') (tr_start (bs_tree s')) (tr_nodes (bs_tree s'))"
      unfolding o1(5) by (rule forest_step [OF _ o1(6,7,4)]) (use I in blast)
    then show "\<exists>s'. bt_oneTree fuel e data rix dk i s = Ret s' \<and> ?I (prev @ [i]) s'"
      using o1 I by (intro exI [of _ s']) (simp add: sameTree_def)
  qed
  then obtain s' where s': "loopOver (bt_oneTree fuel e data rix dk) [0 ..< tr_number t] ?s0 = Ret s'" "mset (bs_local s') = mset lix"
    "length (tr_start (bs_tree s')) = tr_number t" "forest rix (bs_local s') (tr_start (bs_tree s')) (tr_nodes (bs_tree s'))"
    "tr_number (bs_tree s') = tr_number t" by auto
  have "forest rix lix (tr_start (bs_tree s')) (tr_nodes (bs_tree s'))"
    using s'(2,4) tree_ok_cong [OF _ s'(2) [symmetric]] unfolding forest_def by blast
  moreover have "BuildTrees fuel e factors hundred mx newArgs data R threads indices rix dk t r = Ret (bs_tree s', bs_rand s')"
    unfolding BuildTrees_def Let_def lix [symmetric] bal(1) andThen.simps prod.case using s'(1) few by (simp add: charLoop_def)
  ultimately show ?thesis using s'(3,5) by blast
qed

end
