(* ===== verification/TreeStore.thy ===== *)
theory TreeStore
  imports TreeProps Postings
begin

text \<open>
  The file of a \<open>BKTree\<close> (AnnService/inc/Core/Common/BKTree.h): \<open>SaveTrees\<close>, \<open>LoadTrees\<close> from a stream and from memory, and
  that the trees come back. The number of trees and of nodes, the starts and the nodes are written as the integers they are.
\<close>

section \<open>Writing and reading\<close>

definition nodeBytes :: "bktNode \<Rightarrow> bytes" where
  "nodeBytes n = enc_int 4 (centerid n) @ enc_int 4 (childStart n) @ enc_int 4 (childEnd n)"

definition nodeOf :: "bytes \<Rightarrow> bktNode" where
  "nodeOf b = \<lparr>centerid = dec_sint (take 4 b), childStart = dec_sint (take 4 (drop 4 b)), childEnd = dec_sint (take 4 (drop 8 b))\<rparr>"

definition tr_BufferSize :: "'f bkTree \<Rightarrow> int" where
  "tr_BufferSize t = 4 + 4 * int (tr_number t) + 4 + 12 * int (length (tr_nodes t))"

text \<open>\<open>m_iTreeNumber\<close> starts are written, whatever the size of the vector.\<close>

definition tr_SaveTrees :: "'f bkTree \<Rightarrow> ostream \<Rightarrow> (ErrorCode + ostream) outcome" where
  "tr_SaveTrees t os =
     (if tr_number t \<le> length (tr_start t)
      then Ret (ioWriteAll os [enc_int 4 (int (tr_number t)), concat (map (enc_int 4) (take (tr_number t) (tr_start t))),
             enc_int 4 (tr_size t), concat (map nodeBytes (tr_nodes t))])
      else Fault)"

text \<open>A tree without the node that ends it gets one.\<close>

definition tr_close :: "bktNode list \<Rightarrow> bktNode list" where
  "tr_close ns = (if ns \<noteq> [] \<and> centerid (List.last ns) \<noteq> - 1 then ns @ [newNode (- 1)] else ns)"

text \<open>\<open>resize\<close> with a negative number throws.\<close>

definition tr_LoadTrees :: "'f bkTree \<Rightarrow> istream \<Rightarrow> (ErrorCode + 'f bkTree \<times> istream) outcome" where
  "tr_LoadTrees t inp =
     (case ioRead inp 4 of Inl e \<Rightarrow> Ret (Inl e)
      | Inr (n, inp1) \<Rightarrow> if dec_sint n < 0 then Fault else
     (case ioRead inp1 (4 * nat (dec_sint n)) of Inl e \<Rightarrow> Ret (Inl e)
      | Inr (starts, inp2) \<Rightarrow>
     (case ioRead inp2 4 of Inl e \<Rightarrow> Ret (Inl e)
      | Inr (m, inp3) \<Rightarrow> if dec_sint m < 0 then Fault else
     (case ioRead inp3 (12 * nat (dec_sint m)) of Inl e \<Rightarrow> Ret (Inl e)
      | Inr (ns, inp4) \<Rightarrow> Ret (Inr (t\<lparr>tr_number := nat (dec_sint n), tr_start := map dec_sint (entriesOf 4 starts),
            tr_nodes := tr_close (map nodeOf (entriesOf 12 ns))\<rparr>, inp4))))))"

definition tr_LoadTreesMem :: "'f bkTree \<Rightarrow> bytes \<Rightarrow> 'f bkTree outcome" where
  "tr_LoadTreesMem t img =
     andThen (deref (slice img 0 4)) (\<lambda>n. if dec_sint n < 0 then Fault else
     andThen (deref (slice img 4 (4 * nat (dec_sint n)))) (\<lambda>starts.
     andThen (deref (slice img (4 + 4 * dec_sint n) 4)) (\<lambda>m. if dec_sint m < 0 then Fault else
     andThen (deref (slice img (8 + 4 * dec_sint n) (12 * nat (dec_sint m)))) (\<lambda>ns.
     Ret (t\<lparr>tr_number := nat (dec_sint n), tr_start := map dec_sint (entriesOf 4 starts),
            tr_nodes := tr_close (map nodeOf (entriesOf 12 ns))\<rparr>)))))"

section \<open>Reading back\<close>

definition node_ok :: "bktNode \<Rightarrow> bool" where
  "node_ok n \<longleftrightarrow> int32_ok (centerid n) \<and> int32_ok (childStart n) \<and> int32_ok (childEnd n)"

lemma nodeOf_nodeBytes: "node_ok n \<Longrightarrow> nodeOf (nodeBytes n) = n"
  by (simp add: nodeOf_def nodeBytes_def node_ok_def dec_enc_int32)

lemma length_nodeBytes [simp]: "length (nodeBytes n) = 12"
  by (simp add: nodeBytes_def)

text \<open>The file of trees that are complete: as many starts as trees, and every number a \<open>SizeType\<close>.\<close>

definition file_ok :: "'f bkTree \<Rightarrow> bool" where
  "file_ok t \<longleftrightarrow> length (tr_start t) = tr_number t \<and> int32_ok (int (tr_number t)) \<and> int32_ok (tr_size t)
     \<and> (\<forall>s \<in> set (tr_start t). int32_ok s) \<and> (\<forall>n \<in> set (tr_nodes t). node_ok n) \<and> tr_close (tr_nodes t) = tr_nodes t"

definition treeImage :: "'f bkTree \<Rightarrow> bytes" where
  "treeImage t = enc_int 4 (int (tr_number t)) @ concat (map (enc_int 4) (tr_start t)) @ enc_int 4 (tr_size t)
     @ concat (map nodeBytes (tr_nodes t))"

lemma length_concat_fixed: "\<forall>b \<in> set bs. length b = w \<Longrightarrow> length (concat bs) = w * length bs"
  by (induction bs) auto

lemma trees_image:
  assumes "file_ok t"
  shows "entriesOf 4 (concat (map (enc_int 4) (tr_start t))) = map (enc_int 4) (tr_start t)"
    "map dec_sint (map (enc_int 4) (tr_start t)) = tr_start t"
    "map nodeOf (entriesOf 12 (concat (map nodeBytes (tr_nodes t)))) = tr_nodes t"
    "length (concat (map (enc_int 4) (tr_start t))) = 4 * tr_number t"
    "length (concat (map nodeBytes (tr_nodes t))) = 12 * length (tr_nodes t)"
proof -
  show "entriesOf 4 (concat (map (enc_int 4) (tr_start t))) = map (enc_int 4) (tr_start t)"
    by (rule entriesOf_concat) simp_all
  have "dec_sint (enc_int 4 s) = s" if "s \<in> set (tr_start t)" for s
    using assms that by (auto simp: file_ok_def intro: dec_enc_int32)
  then show "map dec_sint (map (enc_int 4) (tr_start t)) = tr_start t" by (simp add: map_idI)
  have "entriesOf 12 (concat (map nodeBytes (tr_nodes t))) = map nodeBytes (tr_nodes t)" by (rule entriesOf_concat) simp_all
  moreover have "nodeOf (nodeBytes n) = n" if "n \<in> set (tr_nodes t)" for n
    using assms that by (simp add: file_ok_def nodeOf_nodeBytes)
  ultimately show "map nodeOf (entriesOf 12 (concat (map nodeBytes (tr_nodes t)))) = tr_nodes t" by (simp add: map_idI)
  show "length (concat (map (enc_int 4) (tr_start t))) = 4 * tr_number t"
    using length_concat_fixed [of "map (enc_int 4) (tr_start t)" 4] assms by (simp add: file_ok_def)
  show "length (concat (map nodeBytes (tr_nodes t))) = 12 * length (tr_nodes t)"
    using length_concat_fixed [of "map nodeBytes (tr_nodes t)" 12] by simp
qed

lemma SaveTrees_image: "file_ok t \<Longrightarrow> os_room os = None \<Longrightarrow>
  tr_SaveTrees t os = Ret (Inr (os\<lparr>os_data := os_data os @ treeImage t\<rparr>))"
  by (simp add: tr_SaveTrees_def file_ok_def ioWrite_unlimited treeImage_def)

lemma LoadTrees_image:
  assumes "file_ok t"
  shows "tr_LoadTrees t0 (treeImage t @ rest) =
    Ret (Inr (t0\<lparr>tr_number := tr_number t, tr_start := tr_start t, tr_nodes := tr_nodes t\<rparr>, rest))"
proof -
  have d: "dec_sint (enc_int 4 (int (tr_number t))) = int (tr_number t)" "dec_sint (enc_int 4 (tr_size t)) = tr_size t"
    using assms by (simp_all add: file_ok_def dec_enc_int32)
  have n: "nat (tr_size t) = length (tr_nodes t)" "\<not> tr_size t < 0" by (simp_all add: tr_size_def)
  note im = trees_image [OF assms]
  show ?thesis unfolding tr_LoadTrees_def treeImage_def
    using assms by (simp add: d n im(4,5) im(1-3) [unfolded list.map_comp] file_ok_def del: of_nat_less_0_iff)
qed

lemma slice_middle: "off = int (length xs) \<Longrightarrow> n = length ys \<Longrightarrow> slice (xs @ ys @ zs) off n = Some ys"
  by (simp add: slice_def)

lemma LoadTreesMem_image:
  assumes "file_ok t"
  shows "tr_LoadTreesMem t0 (treeImage t) = Ret (t0\<lparr>tr_number := tr_number t, tr_start := tr_start t, tr_nodes := tr_nodes t\<rparr>)"
proof -
  have d: "dec_sint (enc_int 4 (int (tr_number t))) = int (tr_number t)" "dec_sint (enc_int 4 (tr_size t)) = tr_size t"
    using assms by (simp_all add: file_ok_def dec_enc_int32)
  have n: "nat (tr_size t) = length (tr_nodes t)" "\<not> tr_size t < 0" by (simp_all add: tr_size_def)
  note im = trees_image [OF assms]
  let ?a = "enc_int 4 (int (tr_number t))"
  let ?b = "concat (map (enc_int 4) (tr_start t))"
  let ?c = "enc_int 4 (tr_size t)"
  let ?d = "concat (map nodeBytes (tr_nodes t))"
  have s: "slice (treeImage t) 0 4 = Some ?a" "slice (treeImage t) 4 (4 * tr_number t) = Some ?b"
    "slice (treeImage t) (4 + 4 * int (tr_number t)) 4 = Some ?c"
    "slice (treeImage t) (8 + 4 * int (tr_number t)) (12 * length (tr_nodes t)) = Some ?d"
    using slice_middle [of 0 "[]" 4 ?a "?b @ ?c @ ?d"] slice_middle [of 4 ?a "4 * tr_number t" ?b "?c @ ?d"]
      slice_middle [of "4 + 4 * int (tr_number t)" "?a @ ?b" 4 ?c ?d]
      slice_middle [of "8 + 4 * int (tr_number t)" "?a @ ?b @ ?c" "12 * length (tr_nodes t)" ?d "[]"] im(4,5)
    by (simp_all add: treeImage_def)
  show ?thesis unfolding tr_LoadTreesMem_def
    using assms by (simp add: s d n im(1-3) [unfolded list.map_comp] file_ok_def)
qed

end
