(* ===== verification/TreeClaims.thy ===== *)
theory TreeClaims
  imports TreeStore
begin

text \<open>
  The properties of the balanced k-means and of the trees (AnnService/inc/Core/Common/BKTree.h), with an instance
  over the integers on which the definitions are evaluated.
\<close>

section \<open>An instance\<close>

text \<open>Vectors and distances are integers; the shuffle reverses and the generator counts up.\<close>

definition toyEnv :: "(nat, int, int, int) kmEnv" where
  "toyEnv = \<lparr>kmDist = (\<lambda>x y. \<bar>x - y\<bar>), kmL2 = (\<lambda>x y. (x - y) * (x - y)), kmAdd = (+), kmSub = (-), kmMul = (*), kmDiv = (div),
     kmSqrt = id, kmOfInt = id, kmMaxDist = 1000000, kmMinDist = - 1000000, kmMoved = 0, kmStill = 1, kmBaseSquare = 1,
     kmSumZero = 0, kmSumAdd = (+), kmSumMerge = (+), kmMean = (div),
     kmRand = (\<lambda>r high low. (low + int r mod (high - low), Suc r)), kmShuffle = (\<lambda>r xs. (rev xs, Suc r))\<rparr>"

definition toyArgs :: "nat \<Rightarrow> nat \<Rightarrow> nat \<Rightarrow> (int, int, int) kmArgs" where
  "toyArgs = ka_new (\<lambda>n. replicate n 7) (\<lambda>n. replicate n 7) (\<lambda>n. replicate n 7) (\<lambda>n. replicate n 7)"

definition toyData :: "int \<Rightarrow> int outcome" where
  "toyData x = vecAt [10, 60, 12, 61] x"

definition toyTree :: "int bkTree" where
  "toyTree = \<lparr>tr_start = [], tr_nodes = [], tr_sampleMap = Map.empty, tr_number = 2, tr_kmeansK = 2, tr_leafSize = 1,
     tr_samples = 1000, tr_bfs = False, tr_balance = 100\<rparr>"

definition toySaved :: "int bkTree" where
  "toySaved = toyTree\<lparr>tr_number := 1, tr_start := [0], tr_nodes := [\<lparr>centerid = 2, childStart = 1, childEnd = 2\<rparr>, newNode 0, newNode (- 1)]\<rparr>"

lemma toyEnv_ok: "kmEnv_ok toyEnv"
  by (simp add: kmEnv_ok_def toyEnv_def mod_range)

lemma toyData_ok: "X \<subseteq> {0, 1, 2, 3} \<Longrightarrow> source_ok (\<lambda>_. True) toyEnv toyData X"
  using toyEnv_ok by (auto simp: source_ok_def data_ok_def toyData_def vecAt_def)

lemma toyArgs_ok: "0 < k \<Longrightarrow> 0 < threads \<Longrightarrow> ka_shape n (toyArgs k n threads) \<and> kaK (toyArgs k n threads) = k"
  by (simp add: toyArgs_def ka_new_def ka_shape_def)

section \<open>The clustering\<close>

text \<open>
  C13 \<open>KmeansClustering\<close> returns, whatever the vectors, the generators and the number of threads. It permutes the ids of
  its range and nothing else, and answers the number of clusters with members. When there is more than one, the range
  is divided into consecutive stretches, one for each cluster and as long as its count; every id is in the stretch
  of a centre nearest to its vector, and the last id of a stretch is a nearest member of its centre.
\<close>

theorem KmeansClustering_clusters:
  assumes "source_ok (\<lambda>_. True) e data (set (idsIn ix f g))" "f < g" "g \<le> length ix" "g \<le> N" "ka_shape N a"
    and "0 < samples" "g - f < fuel"
  shows "\<exists>n r' ix' a'. KmeansClustering fuel e data ix (int f) (int g) a samples lambdaFactor virtualCenter r = Ret (n, r', ix', a')
    \<and> segPerm f g ix ix' \<and> n = int (length (filter (\<lambda>c. 0 < c) (kaCounts a')))
    \<and> (1 < n \<longrightarrow> (\<exists>cnts. clustersOf e data f g ix' a' cnts))"
proof -
  have "argsOf (\<lambda>_. True) N a a" using assms(5) by (simp add: argsOf_def)
  from KmeansClustering_ok [OF assms(1-4) this assms(6,7), of lambdaFactor virtualCenter r] show ?thesis by blast
qed

theorem KmeansClustering_clusters_witness:
  "\<exists>r' ix' a' cnts. KmeansClustering 5 toyEnv toyData [0, 1, 2, 3] 0 4 (toyArgs 2 4 1) 1000 100 False 0 = Ret (2, r', ix', a')
    \<and> mset ix' = {#0, 1, 2, 3#} \<and> clustersOf toyEnv toyData 0 4 ix' a' cnts"
proof -
  have two: "case KmeansClustering 5 toyEnv toyData [0, 1, 2, 3] 0 4 (toyArgs 2 4 1) 1000 100 False 0 of Ret (n, _) \<Rightarrow> n = 2 | _ \<Rightarrow> False"
    by code_simp
  have ids: "idsIn [0, 1, 2, 3] 0 4 = [0, 1, 2, 3]" "\<And>xs. length xs = 4 \<Longrightarrow> idsIn xs 0 4 = xs" by (simp_all add: idsIn_def)
  have "source_ok (\<lambda>_. True) toyEnv toyData (set (idsIn [0, 1, 2, 3] 0 4))" unfolding ids by (rule toyData_ok) simp
  from KmeansClustering_clusters [OF this, of 4 "toyArgs 2 4 1" 1000 5 100 False 0, unfolded of_nat_0 of_nat_numeral] toyArgs_ok [of 2 1 4]
  have "\<exists>n r' ix' a'. KmeansClustering 5 toyEnv toyData [0, 1, 2, 3] 0 4 (toyArgs 2 4 1) 1000 100 False 0 = Ret (n, r', ix', a')
    \<and> segPerm 0 4 [0, 1, 2, 3] ix' \<and> n = int (length (filter (\<lambda>c. 0 < c) (kaCounts a')))
    \<and> (1 < n \<longrightarrow> (\<exists>cnts. clustersOf toyEnv toyData 0 4 ix' a' cnts))" by simp
  then obtain n r' ix' a' where k: "KmeansClustering 5 toyEnv toyData [0, 1, 2, 3] 0 4 (toyArgs 2 4 1) 1000 100 False 0 = Ret (n, r', ix', a')"
    "segPerm 0 4 [0, 1, 2, 3] ix'" "1 < n \<longrightarrow> (\<exists>cnts. clustersOf toyEnv toyData 0 4 ix' a' cnts)" by blast
  have "n = 2" using two unfolding k(1) by simp
  moreover have "length ix' = 4" using k(2) by (simp add: segPerm_def)
  then have "mset ix' = {#0, 1, 2, 3#}" using k(2) by (simp add: segPerm_def ids)
  ultimately show ?thesis using k(1,3) by auto
qed

section \<open>The trees\<close>

text \<open>
  C14 \<open>BuildTrees\<close> on a new \<open>BKTree\<close> returns with the chosen number of trees, one behind the other in the array of nodes and
  each ended by a node without a centre. Every tree has each id as the centre of exactly one of its nodes, but for the root,
  which may have the number of ids instead; the ranges of children cover the nodes behind the root once, children come
  behind their parent, and a node without children has none.
\<close>

theorem BuildTrees_partition:
  fixes e :: "('r, 'v, 'a, 'f :: linorder) kmEnv"
  assumes "build_ok e data reverseIndices dynamicK ids t" "tr_start t = []" "tr_nodes t = []" "0 < length ids"
    and "ids = (case indices of None \<Rightarrow> map int [0 ..< R] | Some xs \<Rightarrow> xs)"
    and "args_ok (length ids) (tr_kmeansK t) (newArgs (tr_kmeansK t) (length ids) threads)"
    and "tr_number t \<le> 127" "length ids < fuel"
  shows "\<exists>t' r'. BuildTrees fuel e factors hundred maxFloat newArgs data R threads indices reverseIndices dynamicK t r = Ret (t', r')
    \<and> length (tr_start t') = tr_number t \<and> forest reverseIndices ids (tr_start t') (tr_nodes t')"
  using BuildTrees_ok [where indices = indices and R = R and newArgs = newArgs and threads = threads, OF assms] by blast

theorem BuildTrees_partition_witness:
  "\<exists>t' r'. BuildTrees 5 toyEnv [1, 10] 100 1000 toyArgs toyData 4 1 None None False toyTree 0 = Ret (t', r')
    \<and> length (tr_start t') = 2 \<and> forest None [0, 1, 2, 3] (tr_start t') (tr_nodes t')"
proof -
  have t: "tr_kmeansK toyTree = 2" "tr_number toyTree = 2" "tr_start toyTree = []" "tr_nodes toyTree = []" "tr_samples toyTree = 1000"
    by (simp_all add: toyTree_def)
  have ids: "[0, 1, 2, 3] = map int [0 ..< 4]" by (simp add: upt_rec)
  have b: "build_ok toyEnv toyData None False [0, 1, 2, 3] toyTree"
    using toyData_ok [of "set [0, 1, 2, 3]"] by (simp add: build_ok_def t rix_ok_def)
  have len: "length [0, 1, 2, 3 :: int] = 4" by simp
  have a: "args_ok (length [0, 1, 2, 3 :: int]) (tr_kmeansK toyTree) (toyArgs (tr_kmeansK toyTree) (length [0, 1, 2, 3 :: int]) 1)"
    using toyArgs_ok [of 2 1 4] unfolding args_ok_def t len by simp
  show ?thesis
    using BuildTrees_partition [where indices = None and R = 4 and newArgs = toyArgs and threads = 1, OF b t(3,4) _ _ a, of 5 "[1, 10]" 100 1000 0] ids t(2) by simp
qed

text \<open>
  C28 Complete trees written by \<open>SaveTrees\<close> are read back unchanged, from a stream, whatever follows in it, and from memory.
\<close>

theorem Trees_Save_Load:
  assumes "file_ok t" "os_room os = None"
  shows "\<exists>image. tr_SaveTrees t os = Ret (Inr (os\<lparr>os_data := os_data os @ image\<rparr>))
    \<and> int (length image) = tr_BufferSize t
    \<and> tr_LoadTrees t0 (image @ rest) = Ret (Inr (t0\<lparr>tr_number := tr_number t, tr_start := tr_start t, tr_nodes := tr_nodes t\<rparr>, rest))
    \<and> tr_LoadTreesMem t0 image = Ret (t0\<lparr>tr_number := tr_number t, tr_start := tr_start t, tr_nodes := tr_nodes t\<rparr>)"
proof (intro exI conjI)
  show "int (length (treeImage t)) = tr_BufferSize t"
    using trees_image(4,5) [OF assms(1)] by (simp add: treeImage_def tr_BufferSize_def)
qed (rule SaveTrees_image LoadTrees_image LoadTreesMem_image assms)+

theorem Trees_Save_Load_witness:
  "\<exists>image. tr_SaveTrees toySaved \<lparr>os_data = [], os_room = None\<rparr> = Ret (Inr \<lparr>os_data = image, os_room = None\<rparr>)
    \<and> length image = 48 \<and> tr_LoadTreesMem toyTree image = Ret toySaved"
proof -
  have t: "file_ok toySaved" "tr_BufferSize toySaved = 48"
    by (simp_all add: toySaved_def toyTree_def file_ok_def tr_size_def node_ok_def newNode_def tr_close_def int32_ok_def tr_BufferSize_def)
  have "toyTree\<lparr>tr_number := tr_number toySaved, tr_start := tr_start toySaved, tr_nodes := tr_nodes toySaved\<rparr> = toySaved"
    by (simp add: toySaved_def)
  then show ?thesis
    using Trees_Save_Load [OF t(1), of "\<lparr>os_data = [], os_room = None\<rparr>" toyTree "[]"] t(2) by auto
qed

end
