(* ===== verification/SplitKmeans.thy ===== *)
theory SplitKmeans
  imports DynSplit KClusters
begin

text \<open>
  The clustering \<open>Split\<close> calls (AnnService/inc/Core/SPANN/ExtraDynamicSearcher.h): the live positions are shuffled and
  \<open>KmeansClustering\<close> divides them in two, with one thread and the vectors of the posting as its data. It meets the
  contract \<open>km_ok\<close> under which the lemmas on \<open>Split\<close> hold.
\<close>

text \<open>
  \<open>junk\<close> is the fresh memory of \<open>KmeansArgs\<close>, \<open>seed\<close> the state of the generators, \<open>hundred\<close> the factor \<open>100.0F\<close>; the call
  always returns (\<open>split_Kmeans_returns\<close>).
\<close>

definition split_call ::
  "('r, bytes, 'a, 'f :: linorder) kmEnv \<Rightarrow> (nat \<Rightarrow> nat \<Rightarrow> nat \<Rightarrow> (bytes, 'a, 'f) kmArgs) \<Rightarrow> 'f \<Rightarrow> bool \<Rightarrow> 'r \<Rightarrow> bytes list \<Rightarrow> nat list
     \<Rightarrow> (int \<times> 'r \<times> int list \<times> (bytes, 'a, 'f) kmArgs) outcome" where
  "split_call e newArgs hundred virtualHead seed smallSample localIndices =
     (let n = length localIndices;
          (lix, r) = kmShuffle e seed (map int localIndices)
      in KmeansClustering (Suc n) e (vecAt smallSample) lix 0 (int n) (newArgs 2 n 1) 1000 hundred virtualHead r)"

definition split_Kmeans ::
  "('r, bytes, 'a, 'f :: linorder) kmEnv \<Rightarrow> (nat \<Rightarrow> nat \<Rightarrow> nat \<Rightarrow> (bytes, 'a, 'f) kmArgs) \<Rightarrow> 'f \<Rightarrow> bool \<Rightarrow> 'r \<Rightarrow> bytes list \<Rightarrow> nat list
     \<Rightarrow> kmeansResult" where
  "split_Kmeans e newArgs hundred virtualHead seed smallSample localIndices =
     (case split_call e newArgs hundred virtualHead seed smallSample localIndices of
        Ret (n, _, lix, a) \<Rightarrow>
          \<lparr>km_numClusters = n, km_indices = map nat lix, km_counts = map nat (kaCounts a), km_centers = kaCenters a\<rparr>
      | _ \<Rightarrow> \<lparr>km_numClusters = 0, km_indices = [], km_counts = [], km_centers = []\<rparr>)"

text \<open>What the call relies on: the generators, means of \<open>w\<close> bytes, and arguments with the lengths their constructor gives them.\<close>

definition split_ok :: "nat \<Rightarrow> ('r, bytes, 'a, 'f :: linorder) kmEnv \<Rightarrow> (nat \<Rightarrow> nat \<Rightarrow> nat \<Rightarrow> (bytes, 'a, 'f) kmArgs) \<Rightarrow> bool" where
  "split_ok w e newArgs \<longleftrightarrow> kmEnv_ok e \<and> (\<forall>z c. length (kmMean e z c) = w)
     \<and> (\<forall>n. ka_shape n (newArgs 2 n 1) \<and> kaK (newArgs 2 n 1) = 2
          \<and> (\<forall>v \<in> set (kaCenters (newArgs 2 n 1)) \<union> set (kaNewTCenters (newArgs 2 n 1)). length v = w))"

lemma split_call_ok:
  assumes ok: "split_ok w e newArgs" and ls: "ls \<noteq> []" "\<forall>l \<in> set ls. l < length vs" "\<forall>v \<in> set vs. length v = w"
  shows "\<exists>n r lix a. split_call e newArgs hundred vh seed vs ls = Ret (n, r, lix, a) \<and> mset lix = mset (map int ls)
    \<and> kaK a = 2 \<and> length (kaCounts a) = 2 \<and> length (kaCenters a) = 2 \<and> (\<forall>v \<in> set (kaCenters a). length v = w)
    \<and> n = int (length (filter (\<lambda>c. 0 < c) (kaCounts a))) \<and> (1 < n \<longrightarrow> (\<exists>cnts. clustersOf e (vecAt vs) 0 (length ls) lix a cnts))"
proof -
  let ?n = "length ls"
  let ?a = "newArgs 2 ?n 1"
  obtain lix r where sh: "kmShuffle e seed (map int ls) = (lix, r)" by (cases "kmShuffle e seed (map int ls)")
  have e: "kmEnv_ok e" using ok by (simp add: split_ok_def)
  then have ms: "mset lix = mset (map int ls)" using sh unfolding kmEnv_ok_def by (metis fst_conv)
  then have len: "length lix = ?n" by (metis length_map mset_eq_length)
  have "set lix = int ` set ls" using ms by (metis set_map set_mset_mset)
  then have ids: "\<forall>x \<in> set (idsIn lix 0 ?n). \<exists>l \<in> set ls. x = int l" using len by (auto simp: idsIn_def)
  have dt: "vecAt vs x = Ret (vs ! nat x) \<and> x \<noteq> - 1 \<and> length (vs ! nat x) = w" if "x \<in> set (idsIn lix 0 ?n)" for x
    using ids that ls(2,3) by (auto simp: vecAt_nat)
  have src: "source_ok (\<lambda>v. length v = w) e (vecAt vs) (set (idsIn lix 0 ?n))"
    unfolding source_ok_def
  proof (intro conjI ballI)
    show "data_ok (vecAt vs) (set (idsIn lix 0 ?n))" using dt by (auto simp: data_ok_def)
    show "\<forall>z c. length (kmMean e z c) = w" using ok by (simp add: split_ok_def)
    fix x assume "x \<in> set (idsIn lix 0 ?n)"
    then show "length (valOf (vecAt vs) x) = w" using dt by (simp add: valOf_def)
  qed (rule e)
  have A: "argsOf (\<lambda>v. length v = w) ?n ?a ?a" using ok by (simp add: argsOf_def split_ok_def)
  have K: "kaK ?a = 2" using ok by (simp add: split_ok_def)
  have r: "0 < ?n" "?n \<le> length lix" "?n \<le> ?n" "0 < (1000 :: int)" "?n - 0 < Suc ?n" using ls(1) len by simp_all
  obtain n r' lix' a' where km: "KmeansClustering (Suc ?n) e (vecAt vs) lix (int 0) (int ?n) ?a 1000 hundred vh r = Ret (n, r', lix', a')"
    "segPerm 0 ?n lix lix'" "argsOf (\<lambda>v. length v = w) ?n ?a a'" "n = int (length (filter (\<lambda>c. 0 < c) (kaCounts a')))"
    "1 < n \<longrightarrow> (\<exists>cnts. clustersOf e (vecAt vs) 0 ?n lix' a' cnts)"
    using KmeansClustering_ok [OF src r(1-3) A r(4,5), of hundred vh r] by blast
  have "mset lix' = mset lix" using segPerm_mset [OF km(2)] by simp
  then show ?thesis using km ms K sh by (simp add: split_call_def argsOf_def ka_shape_def)
qed

lemma split_Kmeans_returns:
  assumes "split_ok w e newArgs" "ls \<noteq> []" "\<forall>l \<in> set ls. l < length vs" "\<forall>v \<in> set vs. length v = w"
  shows "\<exists>r. split_call e newArgs hundred vh seed vs ls = Ret r"
  using split_call_ok [OF assms] by blast

lemma split_Kmeans_km_ok:
  assumes ok: "split_ok w e newArgs" and ls: "ls \<noteq> []" "\<forall>l \<in> set ls. l < length vs" "\<forall>v \<in> set vs. length v = w"
  shows "mset (km_indices (split_Kmeans e newArgs hundred vh seed vs ls)) = mset ls"
    "1 < km_numClusters (split_Kmeans e newArgs hundred vh seed vs ls) \<Longrightarrow> km_ok (split_Kmeans e newArgs hundred vh seed vs ls) ls w"
proof -
  obtain n r lix a where s: "split_call e newArgs hundred vh seed vs ls = Ret (n, r, lix, a)" "mset lix = mset (map int ls)"
    "kaK a = 2" "length (kaCounts a) = 2" "length (kaCenters a) = 2" "\<forall>v \<in> set (kaCenters a). length v = w"
    "n = int (length (filter (\<lambda>c. 0 < c) (kaCounts a)))" "1 < n \<longrightarrow> (\<exists>cnts. clustersOf e (vecAt vs) 0 (length ls) lix a cnts)"
    using split_call_ok [OF ok ls, of hundred vh seed] by blast
  have e: "split_Kmeans e newArgs hundred vh seed vs ls
      = \<lparr>km_numClusters = n, km_indices = map nat lix, km_counts = map nat (kaCounts a), km_centers = kaCenters a\<rparr>"
    by (simp add: split_Kmeans_def s(1))
  have "mset (map nat lix) = image_mset nat (mset (map int ls))" using s(2) by simp
  also have "\<dots> = mset ls" by (simp add: image_mset.compositionality comp_def)
  finally have ix: "mset (map nat lix) = mset ls" .
  then show "mset (km_indices (split_Kmeans e newArgs hundred vh seed vs ls)) = mset ls" unfolding e by simp
  assume "1 < km_numClusters (split_Kmeans e newArgs hundred vh seed vs ls)"
  then have n: "1 < n" unfolding e by simp
  then obtain cnts where cl: "length cnts = 2" "kaCounts a = map int cnts" "sum_list cnts = length ls"
    using s(3,8) by (auto simp: clustersOf_def)
  obtain x y where xy: "cnts = [x, y]" using cl(1) by (auto simp: length_Suc_conv numeral_2_eq_2)
  have "0 < x \<and> 0 < y" using n unfolding s(7) cl(2) xy by (auto split: if_splits)
  then show "km_ok (split_Kmeans e newArgs hundred vh seed vs ls) ls w"
    unfolding e km_ok_def using ix s(5,6) cl xy by (simp add: comp_def)
qed

end
