(* ===== verification/SplitClaims.thy ===== *)
theory SplitClaims
  imports DynClaims SplitKmeans
begin

text \<open>
  \<open>Split\<close> with the clustering of the program in the place of the parameter \<open>en_Kmeans\<close>: the contract the lemmas of
  \<open>Split\<close> assume of it is discharged, so that what is left are laws of the arithmetic and of the generators.
\<close>

section \<open>The instance\<close>

text \<open>Vectors of one byte, distances in the integers.\<close>

definition byteEnv :: "(nat, bytes, int, int) kmEnv" where
  "byteEnv = \<lparr>kmDist = (\<lambda>x y. \<bar>uint (hd x) - uint (hd y)\<bar>), kmL2 = (\<lambda>x y. (uint (hd x) - uint (hd y)) * (uint (hd x) - uint (hd y))),
     kmAdd = (+), kmSub = (-), kmMul = (*), kmDiv = (div), kmSqrt = id, kmOfInt = id, kmMaxDist = 1000000, kmMinDist = - 1000000,
     kmMoved = 0, kmStill = 1, kmBaseSquare = 1, kmSumZero = 0, kmSumAdd = (\<lambda>z v. z + uint (hd v)), kmSumMerge = (+),
     kmMean = (\<lambda>z c. [word_of_int (z div c)]),
     kmRand = (\<lambda>r high low. (low + int r mod (high - low), Suc r)), kmShuffle = (\<lambda>r xs. (rev xs, Suc r))\<rparr>"

definition byteArgs :: "nat \<Rightarrow> nat \<Rightarrow> nat \<Rightarrow> (bytes, int, int) kmArgs" where
  "byteArgs = ka_new (\<lambda>n. replicate n [7]) (\<lambda>n. replicate n 7) (\<lambda>n. replicate n 7) (\<lambda>n. replicate n 7)"

lemma byte_split_ok: "split_ok 1 byteEnv byteArgs"
  by (auto simp: split_ok_def kmEnv_ok_def byteEnv_def byteArgs_def ka_new_def ka_shape_def mod_range)

definition splitEnv :: "int sfEnv" where
  "splitEnv = (sfEnvSample 2 noKm)\<lparr>en_Kmeans := split_Kmeans byteEnv byteArgs 100 False 0\<rparr>"

section \<open>Both outcomes\<close>

text \<open>What \<open>Split\<close> leaves when the live entries are divided in \<open>es0\<close> and \<open>es1\<close> under the heads \<open>h0\<close> and \<open>h1\<close>.\<close>

definition sf_divided :: "'f sfEnv \<Rightarrow> sfState \<Rightarrow> int \<Rightarrow> bytes \<Rightarrow> int \<Rightarrow> int \<Rightarrow> bytes list \<Rightarrow> bytes list \<Rightarrow> sfState \<Rightarrow> bool" where
  "sf_divided en st headID p h0 h1 es0 es1 st' \<longleftrightarrow> h0 \<noteq> h1
     \<and> sf_postings st' = (sf_postings st)(h0 \<mapsto> concat es0, h1 \<mapsto> concat es1)
     \<and> mset es0 + mset es1 = mset (sf_live en st p)
     \<and> sf_sizes st' ! nat h0 = int (length es0) \<and> sf_sizes st' ! nat h1 = int (length es1)
     \<and> sf_heads st' = sf_heads st - {headID} \<union> {h0, h1}
     \<and> (headID \<notin> {h0, h1} \<longrightarrow> sf_sizes st' ! nat headID = 0 \<and> sf_postings st' headID = Some p)
     \<and> dy_versionMap st' = dy_versionMap st \<and> dy_jobs st' = dy_jobs st \<and> dy_splitList st' = dy_splitList st - {headID}"

lemma live_at:
  fixes en :: "('f :: linorder) sfEnv"
  assumes "sf_ok dim e deg st" "5 \<le> en_vectorInfoSize en" "sf_known en st p"
  defines "ls \<equiv> filter (\<lambda>j. liveEntry (dy_versionMap st) (entriesOf (en_vectorInfoSize en) p ! j)) [0 ..< length p div en_vectorInfoSize en]"
  shows "map (\<lambda>l. entriesOf (en_vectorInfoSize en) p ! l) ls = sf_live en st p" "length ls = length (sf_live en st p)"
    "\<forall>l \<in> set ls. l < length p div en_vectorInfoSize en \<and> entriesOf (en_vectorInfoSize en) p ! l \<in> set (sf_live en st p)"
proof -
  show m: "map (\<lambda>l. entriesOf (en_vectorInfoSize en) p ! l) ls = sf_live en st p"
    using spfresh.live_positions [of dim deg "\<lambda>h n. bh_graph h" en e st p, unfolded sf_eqs spdkEnv_simps] assms by blast
  then show "length ls = length (sf_live en st p)" by (metis length_map)
  show "\<forall>l \<in> set ls. l < length p div en_vectorInfoSize en \<and> entriesOf (en_vectorInfoSize en) p ! l \<in> set (sf_live en st p)"
    unfolding m [symmetric] by (auto simp: ls_def)
qed

lemma km_ok_pair: "km_ok km ls w \<Longrightarrow> \<exists>a b. km_counts km = [a, b] \<and> a + b = length ls"
  by (auto simp: km_ok_def length_Suc_conv numeral_2_eq_2)

text \<open>
  C4 \<open>Split\<close> of an oversized posting, with the balanced k-means of the program as its clustering, always returns. Either
  the clustering finds two clusters: the live entries are divided between two postings, none lost and none doubled, at most
  one of them keeps the old head, the recorded sizes are the numbers of entries, a head that is replaced leaves the head index
  (its posting is still stored), and with reassignment the scan of \<open>CollectReAssign\<close> follows on that state. Or it
  finds one: then a single live entry is kept and all others are dropped.
\<close>

theorem Split_divides:
  fixes ke :: "('r, bytes, 'a, 'g :: linorder) kmEnv"
  assumes "sf_ok dim e deg st" "en_vectorInfoSize en = 5 + dim * e" "headID \<in> sf_heads st"
    and "sf_postings st headID = Some p" "sf_known en st p"
    and "\<not> en_inPlace en" "0 < en_postingSizeLimit en" "en_postingSizeLimit en \<le> int (length (sf_live en st p))"
    and "en_Kmeans en = split_Kmeans ke newArgs hundred virtualHead seed" "split_ok (dim * e) ke newArgs"
    and "int32_ok (int (length (sf_live en st p)))" "bh_GetNumSamples (dy_index st) + 2 \<le> bh_room (dy_index st)"
    and "bh_GetNumSamples (dy_index st) + 2 \<le> ds_maxRows (dy_postingSizes st)"
    and "\<And>a b. a + b = length (sf_live en st p) \<Longrightarrow> sp_roomy (dy_db st) (bh_GetNumSamples (dy_index st) + 2)
           [a * en_vectorInfoSize en, b * en_vectorInfoSize en]"
    and "sp_roomy (dy_db st) (bh_GetNumSamples (dy_index st)) [en_vectorInfoSize en]"
  shows "(\<exists>h0 h1 es0 es1 st'. sf_divided en st headID p h0 h1 es0 es1 st' \<and> sf_ok dim e deg st'
           \<and> dy_Split (spdkEnv dim deg refine en) headID reassign False st =
               (if reassign
                then andThen (dy_CollectReAssign (spdkEnv dim deg refine en) headID [concat es0, concat es1] [h0, h1] st')
                       (\<lambda>(ec, st4). Ret (Success, st4))
                else Ret (Success, st')))
       \<or> (\<exists>x st'. x \<in> set (sf_live en st p) \<and> sf_ok dim e deg st'
           \<and> dy_Split (spdkEnv dim deg refine en) headID reassign False st = Ret (Success, st')
           \<and> sf_postings st' = (sf_postings st)(headID \<mapsto> x) \<and> sf_sizes st' = (sf_sizes st)[nat headID := 1]
           \<and> dy_index st' = dy_index st \<and> dy_jobs st' = dy_jobs st)"
proof -
  let ?vis = "en_vectorInfoSize en"
  let ?ls = "filter (\<lambda>j. liveEntry (dy_versionMap st) (entriesOf ?vis p ! j)) [0 ..< length p div ?vis]"
  let ?vs = "map entryVector (entriesOf ?vis p)"
  let ?km = "en_Kmeans en ?vs ?ls"
  have vis: "5 \<le> ?vis" using assms(2) by simp
  note L = live_at [OF assms(1) vis assms(5)]
  have w: "?ls \<noteq> []" "\<forall>l \<in> set ?ls. l < length ?vs" "\<forall>v \<in> set ?vs. length v = dim * e"
    using L(2,3) assms(2,7,8) by (auto simp: entryVector_def metaDataSize_def dest: entriesOf_width)
  have ms: "mset (km_indices ?km) = mset ?ls" and ok: "1 < km_numClusters ?km \<Longrightarrow> km_ok ?km ?ls (dim * e)"
    unfolding assms(9) using split_Kmeans_km_ok [OF assms(10) w] by blast+
  show ?thesis
  proof (cases "1 < km_numClusters ?km")
    case True
    obtain a b where "km_counts ?km = [a, b]" "a + b = length (sf_live en st p)"
      using km_ok_pair [OF ok [OF True]] L(2) by auto
    then have "sp_roomy (dy_db st) (bh_GetNumSamples (dy_index st) + 2) (map (\<lambda>c. c * ?vis) (km_counts ?km))"
      using assms(14) by simp
    from Split_two_clusters [OF assms(1) vis assms(3-6,8) refl refl True ok [OF True] assms(11-13) this, of refine reassign]
    obtain h0 h1 es0 es1 st' where "dy_Split (spdkEnv dim deg refine en) headID reassign False st =
          (if reassign
           then andThen (dy_CollectReAssign (spdkEnv dim deg refine en) headID [concat es0, concat es1] [h0, h1] st')
                  (\<lambda>(ec, st4). Ret (Success, st4))
           else Ret (Success, st'))" "sf_ok dim e deg st'" "sf_divided en st headID p h0 h1 es0 es1 st'"
      by (elim exE conjE) (rule that, assumption, assumption, unfold sf_divided_def, intro conjI; assumption)
    then show ?thesis by (intro disjI1 exI conjI)
  next
    case False
    obtain l r where l: "km_indices ?km = l # r" using ms w(1) by (metis mset.simps(1) mset_zero_iff neq_Nil_conv)
    then have "l \<in> set ?ls" using ms by (metis list.set_intros(1) set_mset_mset)
    with L(3) have lv: "l < length p div ?vis" "entriesOf ?vis p ! l \<in> set (sf_live en st p)" by blast+
    have "km_numClusters ?km \<le> 1" using False by simp
    from Split_single_cluster_keeps_one [OF assms(1) vis assms(3-6,8) refl this l lv(1) assms(15), of refine reassign]
    obtain st' where "dy_Split (spdkEnv dim deg refine en) headID reassign False st = Ret (Success, st')" "sf_ok dim e deg st'"
      "sf_postings st' = (sf_postings st)(headID \<mapsto> entriesOf ?vis p ! l)" "sf_sizes st' = (sf_sizes st)[nat headID := 1]"
      "dy_index st' = dy_index st" "dy_jobs st' = dy_jobs st" by (elim exE conjE)
    then show ?thesis using lv(2) by (intro disjI2 exI conjI)
  qed
qed

theorem Split_divides_witness:
  "\<exists>st'. dy_Split (spdkEnv 1 1 (\<lambda>h n. bh_graph h) splitEnv) 0 False False sfSample = Ret (Success, st') \<and> sf_ok 1 1 1 st'
    \<and> ((\<exists>h0 h1 es0 es1. h0 \<noteq> h1 \<and> sf_postings st' = [0 \<mapsto> sfPosting, h0 \<mapsto> concat es0, h1 \<mapsto> concat es1]
          \<and> mset es0 + mset es1 = {#[0, 0, 0, 0, 255, 10], [1, 0, 0, 0, 255, 20]#})
       \<or> (\<exists>x \<in> {[0, 0, 0, 0, 255, 10], [1, 0, 0, 0, 255, 20]}. sf_postings st' = [0 \<mapsto> x]))
    \<and> km_numClusters (split_Kmeans byteEnv byteArgs 100 False 0 [[10], [20], [30]] [0, 1]) = 2"
proof -
  have v: "en_vectorInfoSize splitEnv = 5 + 1 * 1" "\<not> en_inPlace splitEnv" "en_postingSizeLimit splitEnv = 2"
    "en_Kmeans splitEnv = split_Kmeans byteEnv byteArgs 100 False 0"
    by (simp_all add: splitEnv_def sfEnvSample_def)
  have k: "sf_known splitEnv sfSample sfPosting" "sf_live splitEnv sfSample sfPosting = [[0, 0, 0, 0, 255, 10], [1, 0, 0, 0, 255, 20]]"
    using sfSample(4,5) [of 2 noKm] v(1) by (simp_all add: sf_known_def sf_live_def sfEnvSample_def)
  have r: "sp_roomy (dy_db sfSample) (bh_GetNumSamples (dy_index sfSample) + 2) [a * en_vectorInfoSize splitEnv, b * en_vectorInfoSize splitEnv]"
    if "a + b = length (sf_live splitEnv sfSample sfPosting)" for a b
    using that by (intro sfSample(10)) (auto simp: sfSample(6) k v(1))
  have r1: "sp_roomy (dy_db sfSample) (bh_GetNumSamples (dy_index sfSample)) [en_vectorInfoSize splitEnv]"
    by (rule sfSample(10)) (simp_all add: sfSample(6) v(1))
  have c: "0 \<in> sf_heads sfSample" "sf_postings sfSample 0 = Some sfPosting" "0 < en_postingSizeLimit splitEnv"
    "en_postingSizeLimit splitEnv \<le> int (length (sf_live splitEnv sfSample sfPosting))"
    "int32_ok (int (length (sf_live splitEnv sfSample sfPosting)))"
    "bh_GetNumSamples (dy_index sfSample) + 2 \<le> bh_room (dy_index sfSample)"
    "bh_GetNumSamples (dy_index sfSample) + 2 \<le> ds_maxRows (dy_postingSizes sfSample)" "split_ok (1 * 1) byteEnv byteArgs"
    using sfSample(2,3,6-8) v(3) k(2) bhSample(4) byte_split_ok by (simp_all add: int32_ok_def)
  have n: "km_numClusters (split_Kmeans byteEnv byteArgs 100 False 0 [[10], [20], [30]] [0, 1]) = 2" by code_simp
  from Split_divides [where deg = 1 and refine = "\<lambda>h n. bh_graph h" and reassign = False,
      OF sfSample(1) v(1) c(1,2) k(1) v(2) c(3,4) v(4) c(8,5,6,7) r r1]
  show ?thesis unfolding if_False
  proof
    assume "\<exists>h0 h1 es0 es1 st'. sf_divided splitEnv sfSample 0 sfPosting h0 h1 es0 es1 st' \<and> sf_ok 1 1 1 st'
      \<and> dy_Split (spdkEnv 1 1 (\<lambda>h n. bh_graph h) splitEnv) 0 False False sfSample = Ret (Success, st')"
    then obtain h0 h1 es0 es1 st' where
      "dy_Split (spdkEnv 1 1 (\<lambda>h n. bh_graph h) splitEnv) 0 False False sfSample = Ret (Success, st')" "sf_ok 1 1 1 st'"
      "sf_divided splitEnv sfSample 0 sfPosting h0 h1 es0 es1 st'" by blast
    with n show ?thesis unfolding sf_divided_def k(2) sfSample(3)
      by (intro exI [of _ st'] conjI disjI1 exI [of _ h0] exI [of _ h1] exI [of _ es0] exI [of _ es1]) simp_all
  next
    assume "\<exists>x st'. x \<in> set (sf_live splitEnv sfSample sfPosting) \<and> sf_ok 1 1 1 st'
      \<and> dy_Split (spdkEnv 1 1 (\<lambda>h n. bh_graph h) splitEnv) 0 False False sfSample = Ret (Success, st')
      \<and> sf_postings st' = (sf_postings sfSample)(0 \<mapsto> x) \<and> sf_sizes st' = (sf_sizes sfSample)[nat 0 := 1]
      \<and> dy_index st' = dy_index sfSample \<and> dy_jobs st' = dy_jobs sfSample"
    then obtain x st' where
      "dy_Split (spdkEnv 1 1 (\<lambda>h n. bh_graph h) splitEnv) 0 False False sfSample = Ret (Success, st')" "sf_ok 1 1 1 st'"
      "x \<in> set (sf_live splitEnv sfSample sfPosting)" "sf_postings st' = (sf_postings sfSample)(0 \<mapsto> x)" by blast
    with n show ?thesis unfolding k(2) sfSample(3)
      by (intro exI [of _ st'] conjI disjI2 bexI [of _ x]) simp_all
  qed
qed

end
