(* ===== verification/HeadSearch.thy ===== *)
theory HeadSearch
  imports SearchQueues DedupHash TreeBuild HeadIndex
begin

text \<open>
  The search of the head index: \<open>WorkSpace\<close> (AnnService/inc/Core/Common/WorkSpace.h), the searches of the trees
  (inc/Core/Common/BKTree.h: \<open>InitSearchTrees\<close>, \<open>SearchTrees\<close>) and \<open>Search\<close>, \<open>SearchIndex\<close>, \<open>RefineSearchIndex\<close> and
  \<open>SearchTree\<close> of \<open>BKT::Index\<close> (src/Core/BKT/BKTIndex.cpp). The trees hand out nodes of the graph near the query; the graph search
  takes the nearest node of its queue, offers it to the results, and puts the neighbours not seen before on the queue.
  Prefetches and locks are not state. Loops that empty a queue get fuel; \<open>depth\<close> is the fuel of the set of seen nodes.
\<close>

section \<open>WorkSpace\<close>

text \<open>\<open>m_iContinuousLimit\<close> is never set or read. The queues of the breadth-first start have no slots before \<open>Resize\<close>.\<close>

record 'f workSpace =
  ws_check :: optHash
  ws_NG :: "'f nodeHeap"
  ws_SPT :: "'f nodeHeap"
  ws_curr :: "'f nodeHeap"
  ws_next :: "'f nodeHeap"
  ws_results :: "'f distQueue"
  ws_noBetter :: int
  ws_treeLeaves :: int
  ws_leaves :: int
  ws_maxCheck :: nat

text \<open>\<open>fresh\<close> and \<open>fill\<close> are what \<open>new\<close> leaves in the arrays; a \<open>NodeDistPair\<close> is made with node -1 and \<open>MaxDist\<close>.\<close>

definition noPair :: "'f \<Rightarrow> 'f nodeDistPair" where
  "noPair maxDist = NodeDistPair (- 1) maxDist"

definition ws_Initialize ::
  "(nat \<Rightarrow> cell list) \<Rightarrow> 'f \<Rightarrow> 'f \<Rightarrow> nat \<Rightarrow> nat \<Rightarrow> 'f workSpace \<Rightarrow> 'f workSpace outcome" where
  "ws_Initialize fresh maxDist fill maxCheck hashExp ws =
     andThen (oh_Init fresh maxCheck hashExp (ws_check ws)) (\<lambda>h.
     andThen (dq_Resize maxDist fill (maxCheck div 16)) (\<lambda>q.
     Ret (ws\<lparr>ws_check := h, ws_SPT := hp_Resize (maxCheck * 10) (noPair maxDist), ws_NG := hp_Resize (maxCheck * 30) (noPair maxDist),
             ws_results := q, ws_noBetter := 0, ws_treeLeaves := 0, ws_leaves := 0, ws_maxCheck := maxCheck\<rparr>)))"

definition ws_Reset :: "'f \<Rightarrow> 'f \<Rightarrow> nat \<Rightarrow> nat \<Rightarrow> 'f workSpace \<Rightarrow> 'f workSpace outcome" where
  "ws_Reset maxDist fill maxCheck resultNum ws =
     andThen (oh_clear (ws_check ws)) (\<lambda>h.
     andThen (dq_clear maxDist fill (max (maxCheck div 16) resultNum) (ws_results ws)) (\<lambda>q.
     Ret (ws\<lparr>ws_check := h, ws_SPT := hp_clear (ws_SPT ws), ws_NG := hp_clear (ws_NG ws), ws_results := q,
             ws_noBetter := 0, ws_treeLeaves := 0, ws_leaves := 0, ws_maxCheck := maxCheck\<rparr>)))"

definition ws_new :: "'f \<Rightarrow> 'f workSpace" where
  "ws_new maxDist =
     (let h = \<lparr>hp_zero = noPair maxDist, hp_slots = [], hp_count = 0, hp_lastlevel = 0\<rparr>
      in \<lparr>ws_check = oh_new, ws_NG = h, ws_SPT = h, ws_curr = h, ws_next = h,
          ws_results = \<lparr>dq_size = 0, dq_data = [], dq_length = 0, dq_count = 0\<rparr>,
          ws_noBetter = 0, ws_treeLeaves = 0, ws_leaves = 0, ws_maxCheck = 0\<rparr>)"

definition ws_CheckAndSet :: "nat \<Rightarrow> int \<Rightarrow> 'f workSpace \<Rightarrow> (bool \<times> 'f workSpace) outcome" where
  "ws_CheckAndSet depth idx ws =
     andThen (oh_CheckAndSet depth (word_of_int idx) (ws_check ws)) (\<lambda>(seen, h). Ret (seen, ws\<lparr>ws_check := h\<rparr>))"

section \<open>Searching the trees\<close>

text \<open>
  \<open>dist k\<close> is the distance of sample \<open>k\<close> to the query. \<open>ws_offer\<close> puts a sample on the queue of the graph search unless
  it was seen; \<open>ts_push\<close> puts a node of the trees on theirs.
\<close>

definition ws_offer :: "nat \<Rightarrow> int \<Rightarrow> 'f :: linorder \<Rightarrow> 'f workSpace \<Rightarrow> (bool \<times> 'f workSpace) outcome" where
  "ws_offer depth cid d ws =
     andThen (ws_CheckAndSet depth cid ws) (\<lambda>(seen, ws1).
       Ret (seen, if seen then ws1 else ws1\<lparr>ws_NG := hp_insert (ws_NG ws1) (NodeDistPair cid d)\<rparr>))"

definition ts_push :: "'f :: linorder nodeDistPair \<Rightarrow> 'f workSpace \<Rightarrow> 'f workSpace" where
  "ts_push x ws = ws\<lparr>ws_SPT := hp_insert (ws_SPT ws) x\<rparr>"

definition ts_pushChild :: "bktNode list \<Rightarrow> (int \<Rightarrow> 'f :: linorder outcome) \<Rightarrow> int \<Rightarrow> 'f workSpace \<Rightarrow> 'f workSpace outcome" where
  "ts_pushChild nodes dist begin' ws =
     andThen (vecAt nodes begin') (\<lambda>n. andThen (dist (centerid n)) (\<lambda>d. Ret (ts_push (NodeDistPair begin' d) ws)))"

text \<open>\<open>SearchTrees\<close>: until the queue is empty or \<open>limits\<close> leaves were checked.\<close>

fun SearchTrees ::
  "nat \<Rightarrow> nat \<Rightarrow> bktNode list \<Rightarrow> (int \<Rightarrow> 'f :: linorder outcome) \<Rightarrow> int \<Rightarrow> 'f workSpace \<Rightarrow> 'f workSpace outcome" where
  "SearchTrees 0 depth nodes dist limits ws = Hang"
| "SearchTrees (Suc n) depth nodes dist limits ws =
     (case hp_pop (ws_SPT ws) of
        None \<Rightarrow> Ret ws
      | Some (bcell, q) \<Rightarrow>
          andThen (vecAt nodes (ndNode bcell)) (\<lambda>tnode.
          andThen (ws_offer depth (centerid tnode) (ndDist bcell) (ws\<lparr>ws_SPT := q\<rparr>)) (\<lambda>(seen, ws1).
          if childStart tnode < 0
          then let ws2 = (if seen then ws1 else ws1\<lparr>ws_leaves := ws_leaves ws1 + 1\<rparr>)
               in if limits \<le> ws_leaves ws2 then Ret ws2 else SearchTrees n depth nodes dist limits ws2
          else andThen (loopOver (ts_pushChild nodes dist) [childStart tnode .. childEnd tnode - 1] ws1)
                 (SearchTrees n depth nodes dist limits))))"

text \<open>
  The breadth-first start: children near enough to the best so far go on a queue of at most 100, the others on the
  queue of the trees; then one level down, and what is left joins the queue of the trees. \<open>scale\<close> multiplies by \<open>1.1f\<close>,
  \<open>big\<close> is \<open>1e9\<close>.
\<close>

definition hp_setTop :: "'f \<Rightarrow> 'f nodeHeap \<Rightarrow> 'f nodeHeap" where
  "hp_setTop d h =
     (if hp_count h = 0 then h\<lparr>hp_zero := NodeDistPair (ndNode (hp_zero h)) d\<rparr>
      else h\<lparr>hp_slots := (hp_slots h)[0 := NodeDistPair (ndNode (hp_slots h ! 0)) d]\<rparr>)"

definition bfs_child ::
  "('f \<Rightarrow> 'f) \<Rightarrow> bktNode list \<Rightarrow> (int \<Rightarrow> 'f :: linorder outcome) \<Rightarrow> int \<Rightarrow> 'f nodeHeap \<times> 'f workSpace
     \<Rightarrow> ('f nodeHeap \<times> 'f workSpace) outcome" where
  "bfs_child scale nodes dist begin' = (\<lambda>(h, ws).
     andThen (vecAt nodes begin') (\<lambda>n. andThen (dist (centerid n)) (\<lambda>d.
     Ret (if d \<le> scale (ndDist (hp_Top h)) \<and> hp_count h < 100 then (hp_insert h (NodeDistPair begin' d), ws)
          else (h, ts_push (NodeDistPair begin' d) ws)))))"

text \<open>The loop takes as many nodes as the queue has: nothing is added to it meanwhile.\<close>

fun bfs_level ::
  "nat \<Rightarrow> nat \<Rightarrow> ('f \<Rightarrow> 'f) \<Rightarrow> bktNode list \<Rightarrow> (int \<Rightarrow> 'f :: linorder outcome) \<Rightarrow> 'f nodeHeap \<times> 'f nodeHeap \<times> 'f workSpace
     \<Rightarrow> ('f nodeHeap \<times> 'f nodeHeap \<times> 'f workSpace) outcome" where
  "bfs_level 0 depth scale nodes dist s = Ret s"
| "bfs_level (Suc n) depth scale nodes dist s =
     (let (cur, nxt, ws) = s in
      case hp_pop cur of
        None \<Rightarrow> Ret s
      | Some (tmp, cur') \<Rightarrow>
          andThen (vecAt nodes (ndNode tmp)) (\<lambda>tnode.
          andThen (if childStart tnode < 0 then Ret (nxt, ts_push tmp ws)
                   else andThen (ws_offer depth (centerid tnode) (ndDist tmp) ws) (\<lambda>(seen, ws1).
                        loopOver (bfs_child scale nodes dist) [childStart tnode .. childEnd tnode - 1] (nxt, ws1))) (\<lambda>(nxt', ws2).
          bfs_level n depth scale nodes dist (cur', nxt', ws2))))"

fun bfs_drain :: "nat \<Rightarrow> 'f :: linorder nodeHeap \<times> 'f workSpace \<Rightarrow> 'f nodeHeap \<times> 'f workSpace" where
  "bfs_drain 0 s = s"
| "bfs_drain (Suc n) s =
     (let (h, ws) = s in case hp_pop h of None \<Rightarrow> s | Some (x, h') \<Rightarrow> bfs_drain n (h', ts_push x ws))"

definition ts_bfs ::
  "nat \<Rightarrow> 'f \<Rightarrow> ('f \<Rightarrow> 'f) \<Rightarrow> 'f \<Rightarrow> bktNode list \<Rightarrow> (int \<Rightarrow> 'f :: linorder outcome) \<Rightarrow> bktNode \<Rightarrow> 'f workSpace \<Rightarrow> 'f workSpace outcome" where
  "ts_bfs depth maxDist scale big nodes dist node ws =
     (let cur = hp_setTop big (hp_Resize 100 (noPair maxDist));
          nxt = hp_Resize 100 (noPair maxDist)
      in andThen (loopOver (bfs_child scale nodes dist) [childStart node .. childEnd node - 1] (cur, ws)) (\<lambda>(cur1, ws1).
         andThen (bfs_level (hp_count cur1) depth scale nodes dist (cur1, hp_setTop big nxt, ws1)) (\<lambda>(cur2, next2, ws2).
         let (next3, ws3) = bfs_drain (hp_count next2) (next2, ws2)
         in Ret (ws3\<lparr>ws_curr := cur2, ws_next := next3\<rparr>))))"

definition ts_init ::
  "nat \<Rightarrow> 'f \<Rightarrow> ('f \<Rightarrow> 'f) \<Rightarrow> 'f \<Rightarrow> 'f bkTree \<Rightarrow> (int \<Rightarrow> 'f :: linorder outcome) \<Rightarrow> nat \<Rightarrow> 'f workSpace \<Rightarrow> 'f workSpace outcome" where
  "ts_init depth maxDist scale big t dist i ws =
     andThen (vecAt (tr_start t) (charOf i)) (\<lambda>root.
     andThen (vecAt (tr_nodes t) root) (\<lambda>node.
     if childStart node < 0
     then andThen (dist (centerid node)) (\<lambda>d. Ret (ts_push (NodeDistPair root d) ws))
     else if tr_bfs t then ts_bfs depth maxDist scale big (tr_nodes t) dist node ws
     else loopOver (ts_pushChild (tr_nodes t) dist) [childStart node .. childEnd node - 1] ws))"

definition InitSearchTrees ::
  "nat \<Rightarrow> 'f \<Rightarrow> ('f \<Rightarrow> 'f) \<Rightarrow> 'f \<Rightarrow> 'f bkTree \<Rightarrow> (int \<Rightarrow> 'f :: linorder outcome) \<Rightarrow> 'f workSpace \<Rightarrow> 'f workSpace outcome" where
  "InitSearchTrees depth maxDist scale big t dist ws =
     loopOver (ts_init depth maxDist scale big t dist) (charLoop (tr_number t)) ws"

section \<open>Searching the graph\<close>

text \<open>
  The index with what its searches use besides the heads: the trees, the number of neighbours per node, the
  parameters, and the distance (\<open>bi_distance\<close> with its constants is a parameter of the model).
\<close>

record 'f bktIndex =
  bi_head :: bktHead
  bi_tree :: "'f bkTree"
  bi_neighbors :: nat
  bi_maxCheck :: nat
  bi_maxCheckForRefineGraph :: nat
  bi_hashExp :: nat
  bi_initialPivots :: int
  bi_otherPivots :: int
  bi_distance :: "bytes \<Rightarrow> bytes \<Rightarrow> 'f"
  bi_scale :: "'f \<Rightarrow> 'f"
  bi_big :: 'f
  bi_rng :: "'f \<Rightarrow> 'f"
  bi_addCEF :: nat
  bi_maxDist :: 'f

definition bi_dist :: "'f bktIndex \<Rightarrow> bytes \<Rightarrow> int \<Rightarrow> 'f outcome" where
  "bi_dist x target k = andThen (bh_GetSample (bi_head x) k) (\<lambda>v. Ret (bi_distance x target v))"

text \<open>The row of a node in the neighbour table.\<close>

definition bi_row :: "'f bktIndex \<Rightarrow> int \<Rightarrow> int list outcome" where
  "bi_row x node = andThen (deref (ds_read (bh_graph (bi_head x)) node)) (\<lambda>row. Ret (map dec_sint (entriesOf 4 row)))"

text \<open>
  The choices of \<open>StaticDispatch\<close>: whether deleted samples are skipped, whether the samples that a node of the trees
  stands for stop being offered once one is refused, and the filter on the metadata.
\<close>

record searchMode =
  sm_skipDeleted :: bool
  sm_checkDup :: bool
  sm_filter :: "(int \<Rightarrow> bool) option"

definition sm_accepts :: "searchMode \<Rightarrow> 'f bktIndex \<Rightarrow> int \<Rightarrow> bool outcome" where
  "sm_accepts m x k =
     andThen (if sm_skipDeleted m then andThen (ls_Contains (bh_deleted (bi_head x)) k) (\<lambda>del. Ret (\<not> del)) else Ret True) (\<lambda>live.
       Ret (live \<and> (case sm_filter m of None \<Rightarrow> True | Some f \<Rightarrow> f k)))"

text \<open>
  The samples of a node of the trees that could not be divided: the node itself and then its children, all at the
  distance of the node.
\<close>

fun sr_duplicates ::
  "searchMode \<Rightarrow> 'f bktIndex \<Rightarrow> 'f :: linorder \<Rightarrow> int list \<Rightarrow> int \<Rightarrow> 'f queryResult \<Rightarrow> 'f queryResult outcome" where
  "sr_duplicates m x d [] tmpNode qr = Ret qr"
| "sr_duplicates m x d (i # is') tmpNode qr =
     andThen (sm_accepts m x tmpNode) (\<lambda>ok.
     andThen (if ok then andThen (qr_AddPoint qr tmpNode d) (\<lambda>(added, qr'). Ret (sm_checkDup m \<and> \<not> added, qr')) else Ret (False, qr)) (\<lambda>(stop, qr').
     if stop then Ret qr'
     else andThen (vecAt (tr_nodes (bi_tree x)) i) (\<lambda>n. sr_duplicates m x d is' (centerid n) qr')))"

text \<open>A node popped from the queue: its offer to the results, or the end of the search.\<close>

definition sr_take ::
  "searchMode \<Rightarrow> 'f bktIndex \<Rightarrow> 'f :: linorder nodeDistPair \<Rightarrow> int list \<Rightarrow> 'f queryResult \<Rightarrow> 'f workSpace \<Rightarrow> (bool \<times> 'f queryResult) outcome" where
  "sr_take m x gnode row qr ws =
     andThen (qr_worstDist qr) (\<lambda>worst.
     if ndDist gnode \<le> worst
     then andThen (vecAt row (int (bi_neighbors x) - 1)) (\<lambda>checkNode.
          if checkNode < - 1
          then andThen (vecAt (tr_nodes (bi_tree x)) (- 2 - checkNode)) (\<lambda>tnode.
               let s = - childStart tnode
               in andThen (sr_duplicates m x (ndDist gnode) [s .. max s (childEnd tnode)] (ndNode gnode) qr) (\<lambda>qr'. Ret (False, qr')))
          else andThen (sm_accepts m x (ndNode gnode)) (\<lambda>ok.
               if ok then andThen (qr_AddPoint qr (ndNode gnode) (ndDist gnode)) (\<lambda>(_, qr'). Ret (False, qr')) else Ret (False, qr)))
     else andThen (if sm_skipDeleted m then andThen (ls_Contains (bh_deleted (bi_head x)) (ndNode gnode)) (\<lambda>del. Ret (\<not> del)) else Ret True) (\<lambda>live.
          Ret (live \<and> (ndDist gnode > dq_worst (ws_results ws) \<or> ws_leaves ws > int (ws_maxCheck ws)), qr)))"

text \<open>The neighbours, up to the first negative one.\<close>

fun sr_neighbours :: "nat \<Rightarrow> (int \<Rightarrow> 'f :: linorder outcome) \<Rightarrow> int list \<Rightarrow> 'f workSpace \<Rightarrow> 'f workSpace outcome" where
  "sr_neighbours depth dist [] ws = Ret ws"
| "sr_neighbours depth dist (nn # row) ws =
     (if nn < 0 then Ret ws
      else andThen (ws_CheckAndSet depth nn ws) (\<lambda>(seen, ws1).
           if seen then sr_neighbours depth dist row ws1
           else andThen (dist nn) (\<lambda>d.
                andThen (dq_insert (ws_results ws1) d) (\<lambda>(better, q).
                let ws2 = ws1\<lparr>ws_leaves := ws_leaves ws1 + 1, ws_results := q\<rparr>
                in sr_neighbours depth dist row
                     (if better then ws2\<lparr>ws_NG := hp_insert (ws_NG ws2) (NodeDistPair nn d)\<rparr> else ws2)))))"

fun sr_loop ::
  "nat \<Rightarrow> nat \<Rightarrow> nat \<Rightarrow> searchMode \<Rightarrow> 'f bktIndex \<Rightarrow> (int \<Rightarrow> 'f :: linorder outcome) \<Rightarrow> 'f queryResult \<Rightarrow> 'f workSpace
     \<Rightarrow> ('f queryResult \<times> 'f workSpace) outcome" where
  "sr_loop 0 fuel depth m x dist qr ws = Hang"
| "sr_loop (Suc n) fuel depth m x dist qr ws =
     (case hp_pop (ws_NG ws) of
        None \<Rightarrow> Ret (qr, ws)
      | Some (gnode, q) \<Rightarrow>
          let ws1 = ws\<lparr>ws_NG := q\<rparr>
          in andThen (bi_row x (ndNode gnode)) (\<lambda>row.
             andThen (sr_take m x gnode row qr ws1) (\<lambda>(done', qr').
             if done' then Ret (qr', ws1)
             else andThen (sr_neighbours depth dist (take (bi_neighbors x) row) ws1) (\<lambda>ws2.
                  andThen (if ndDist (hp_Top (ws_NG ws2)) > ndDist (hp_Top (ws_SPT ws2))
                           then SearchTrees fuel depth (tr_nodes (bi_tree x)) dist (bi_otherPivots x + ws_leaves ws2) ws2
                           else Ret ws2) (\<lambda>ws3.
                  sr_loop n fuel depth m x dist qr' ws3)))))"

definition bi_Search ::
  "nat \<Rightarrow> nat \<Rightarrow> searchMode \<Rightarrow> 'f :: linorder bktIndex \<Rightarrow> 'f queryResult \<Rightarrow> 'f workSpace \<Rightarrow> ('f queryResult \<times> 'f workSpace) outcome" where
  "bi_Search fuel depth m x qr ws =
     (let dist = bi_dist x (qr_target qr)
      in andThen (InitSearchTrees depth (bi_maxDist x) (bi_scale x) (bi_big x) (bi_tree x) dist ws) (\<lambda>ws1.
         andThen (SearchTrees fuel depth (tr_nodes (bi_tree x)) dist (bi_initialPivots x) ws1) (\<lambda>ws2.
         andThen (sr_loop fuel fuel depth m x dist qr ws2) (\<lambda>(qr', ws3). Ret (qr_SortResult qr', ws3)))))"

section \<open>The entries of the index\<close>

text \<open>\<open>SearchIndex\<close> chooses the mode: deleted samples are skipped when there are any and the caller does not want them.\<close>

definition bi_SearchWith ::
  "nat \<Rightarrow> nat \<Rightarrow> bool \<Rightarrow> bool \<Rightarrow> (int \<Rightarrow> bool) option \<Rightarrow> 'f :: linorder bktIndex \<Rightarrow> 'f queryResult \<Rightarrow> 'f workSpace
     \<Rightarrow> ('f queryResult \<times> 'f workSpace) outcome" where
  "bi_SearchWith fuel depth searchDeleted searchDuplicated filterFunc x =
     bi_Search fuel depth \<lparr>sm_skipDeleted = (bh_GetNumDeleted (bi_head x) \<noteq> 0 \<and> \<not> searchDeleted), sm_checkDup = searchDuplicated, sm_filter = filterFunc\<rparr> x"

text \<open>The thread's workspace, made on its first search.\<close>

definition bi_workspace ::
  "(nat \<Rightarrow> cell list) \<Rightarrow> 'f \<Rightarrow> nat \<Rightarrow> nat \<Rightarrow> 'f bktIndex \<Rightarrow> 'f workSpace option \<Rightarrow> 'f workSpace outcome" where
  "bi_workspace fresh fill maxCheck resultNum x w =
     andThen (case w of
                None \<Rightarrow> ws_Initialize fresh (bi_maxDist x) fill (max (bi_maxCheck x) (bi_maxCheckForRefineGraph x)) (bi_hashExp x) (ws_new (bi_maxDist x))
              | Some ws \<Rightarrow> Ret ws)
       (ws_Reset (bi_maxDist x) fill maxCheck resultNum)"

definition bi_SearchIndex ::
  "nat \<Rightarrow> nat \<Rightarrow> (nat \<Rightarrow> cell list) \<Rightarrow> 'f \<Rightarrow> bool \<Rightarrow> 'f :: linorder bktIndex \<Rightarrow> 'f queryResult \<Rightarrow> 'f workSpace option
     \<Rightarrow> (ErrorCode \<times> 'f queryResult \<times> 'f workSpace option) outcome" where
  "bi_SearchIndex fuel depth fresh fill searchDeleted x qr w =
     (if \<not> bh_ready (bi_head x) then Ret (EmptyIndex, qr, w)
      else andThen (bi_workspace fresh fill (bi_maxCheck x) (qr_GetResultNum qr) x w) (\<lambda>ws.
           andThen (bi_SearchWith fuel depth searchDeleted True None x qr ws) (\<lambda>(qr', ws'). Ret (Success, qr', Some ws'))))"

definition bi_RefineSearchIndex ::
  "nat \<Rightarrow> nat \<Rightarrow> (nat \<Rightarrow> cell list) \<Rightarrow> 'f \<Rightarrow> bool \<Rightarrow> 'f :: linorder bktIndex \<Rightarrow> 'f queryResult \<Rightarrow> 'f workSpace option
     \<Rightarrow> (ErrorCode \<times> 'f queryResult \<times> 'f workSpace option) outcome" where
  "bi_RefineSearchIndex fuel depth fresh fill searchDeleted x qr w =
     andThen (bi_workspace fresh fill (bi_maxCheckForRefineGraph x) (qr_GetResultNum qr) x w) (\<lambda>ws.
     andThen (bi_SearchWith fuel depth searchDeleted False None x qr ws) (\<lambda>(qr', ws'). Ret (Success, qr', Some ws')))"

text \<open>\<open>SearchTree\<close> only searches the trees and answers the nearest nodes on the queue; an empty queue answers its slot 0.\<close>

fun st_fill :: "nat \<Rightarrow> 'f :: linorder nodeHeap \<Rightarrow> 'f basicResult list \<times> 'f nodeHeap" where
  "st_fill 0 h = ([], h)"
| "st_fill (Suc n) h =
     (let (cell, h') = hp_popRef h; (rs, h'') = st_fill n h' in (BasicResult (ndNode cell) (ndDist cell) # rs, h''))"

definition bi_SearchTree ::
  "nat \<Rightarrow> nat \<Rightarrow> (nat \<Rightarrow> cell list) \<Rightarrow> 'f \<Rightarrow> 'f :: linorder bktIndex \<Rightarrow> 'f queryResult \<Rightarrow> 'f workSpace option
     \<Rightarrow> (ErrorCode \<times> 'f queryResult \<times> 'f workSpace option) outcome" where
  "bi_SearchTree fuel depth fresh fill x qr w =
     (let dist = bi_dist x (qr_target qr)
      in andThen (bi_workspace fresh fill (bi_maxCheckForRefineGraph x) (qr_GetResultNum qr) x w) (\<lambda>ws.
         andThen (InitSearchTrees depth (bi_maxDist x) (bi_scale x) (bi_big x) (bi_tree x) dist ws) (\<lambda>ws1.
         andThen (SearchTrees fuel depth (tr_nodes (bi_tree x)) dist (bi_initialPivots x) ws1) (\<lambda>ws2.
         let (rs, h) = st_fill (length (qr_results qr)) (ws_NG ws2)
         in Ret (Success, qr\<lparr>qr_results := rs\<rparr>, Some (ws2\<lparr>ws_NG := h\<rparr>))))))"

end
