(* ===== verification/TreeSearch.thy ===== *)
theory TreeSearch
  imports HeadSearch
begin

text \<open>
  The searches of the trees (inc/Core/Common/BKTree.h) keep the workspace in order: what they put on the queue of the graph
  search are samples not seen before, at their distance from the query, and they return. The work left for them is the
  number of nodes below those on their queue.
\<close>

section \<open>The queues\<close>

lemma hp_insert_sub:
  assumes "hp_inv h"
  shows "hp_inv (hp_insert h v)" "hp_nodes (hp_insert h v) \<subseteq># hp_nodes h + {#v#}"
proof -
  have le: "hp_count h \<le> length (hp_slots h)" using assms by (simp add: hp_inv_def heapOf_def)
  consider "hp_count h < length (hp_slots h)" | "hp_slots h = []" "hp_count h = 0" | "hp_count h = length (hp_slots h)" "hp_slots h \<noteq> []"
    using le by (cases "hp_slots h = []") (auto simp: order_le_less)
  then have "hp_inv (hp_insert h v) \<and> hp_nodes (hp_insert h v) \<subseteq># hp_nodes h + {#v#}"
  proof cases
    case 1
    then show ?thesis using hp_insert_room [OF assms, of v] by simp
  next
    case 2
    then have "hp_insert h v = h \<or> hp_insert h v = h\<lparr>hp_zero := v\<rparr>" by (simp add: hp_insert_def Let_def)
    then show ?thesis using assms by (auto simp: hp_inv_def hp_nodes_def)
  next
    case 3
    have "w \<in># M \<Longrightarrow> M - {#w#} + {#v#} \<subseteq># M + {#v#}" for w and M :: "'a nodeDistPair multiset" by simp
    then show ?thesis using hp_insert_full [OF assms 3, of v] by (metis mset_subset_eq_add_left)
  qed
  then show "hp_inv (hp_insert h v)" "hp_nodes (hp_insert h v) \<subseteq># hp_nodes h + {#v#}" by simp_all
qed

lemma hp_pop_cases:
  assumes "hp_inv h"
  obtains "hp_pop h = None" "hp_nodes h = {#}" "hp_count h = 0"
  | v h' where "hp_pop h = Some (v, h')" "hp_inv h'" "hp_nodes h = add_mset v (hp_nodes h')" "hp_count h = Suc (hp_count h')"
proof (cases "hp_count h = 0")
  case True
  then show ?thesis using that(1) by (simp add: hp_pop_def hp_nodes_def)
next
  case False
  then show ?thesis using hp_pop_some [OF assms False] that(2) by auto
qed

lemma hp_clear_inv: "hp_inv h \<Longrightarrow> hp_inv (hp_clear h) \<and> hp_nodes (hp_clear h) = {#}"
  by (simp add: hp_inv_def hp_clear_def heapOf_def hp_nodes_def)

section \<open>The set of seen samples\<close>

text \<open>
  The cell of a sample; a table without repetitions; and that a table of \<open>ps\<close> has a place for each of \<open>R\<close> samples, whichever
  came before.
\<close>

definition cellOf :: "int \<Rightarrow> cell" where
  "cellOf k = word_of_int k + 1"

definition oh_sparse :: "optHash \<Rightarrow> bool" where
  "oh_sparse h \<longleftrightarrow> distinct (filter (\<lambda>c. c \<noteq> 0) (oh_table h))"

definition oh_fits :: "int \<Rightarrow> nat \<Rightarrow> bool" where
  "oh_fits R ps \<longleftrightarrow> (\<forall>h. oh_inv h \<longrightarrow> oh_sparse h \<longrightarrow> oh_poolSize h = ps \<longrightarrow> oh_abs h \<subseteq> cellOf ` {0 ..< R} \<longrightarrow>
     (\<forall>k \<in> {0 ..< R}. oh_room (oh_table h) ps (cellOf k)))"

lemma cellOf_inj: "R \<le> 2 ^ 31 \<Longrightarrow> inj_on cellOf {0 ..< R}"
  by (auto simp: inj_on_def cellOf_def word_of_int_eq_iff take_bit_int_eq_self)

lemma cellOf_ne: "0 \<le> k \<Longrightarrow> k < 2 ^ 31 \<Longrightarrow> cellOf k \<noteq> 0"
proof
  assume k: "0 \<le> k" "k < 2 ^ 31" and "cellOf k = 0"
  then have "(word_of_int (k + 1) :: cell) = word_of_int 0" by (simp add: cellOf_def)
  then have "take_bit 32 (k + 1) = (0 :: int)" by (simp only: word_of_int_eq_iff) simp
  moreover have "take_bit 32 (k + 1) = k + 1" using k by (intro take_bit_int_eq_self) auto
  ultimately show False using k by simp
qed

lemma sparse_put:
  assumes "distinct (filter (\<lambda>c. c \<noteq> 0) t)" "c < length t" "t ! c = 0" "x \<notin> set t"
  shows "distinct (filter (\<lambda>c. c \<noteq> (0 :: cell)) (t[c := x]))"
proof -
  have t: "t = take c t @ 0 # drop (Suc c) t" using assms(2,3) by (metis id_take_nth_drop)
  have "x \<notin> set (take c t)" "x \<notin> set (drop (Suc c) t)" using assms(4) by (auto dest: in_set_takeD in_set_dropD)
  then show ?thesis using assms(1) unfolding upd_conv_take_nth_drop [OF assms(2)] by (subst (asm) t) auto
qed

lemma CheckAndSet_sparse:
  assumes inv: "oh_inv h" "oh_sparse h" and x: "idx + 1 \<noteq> 0" and room: "oh_room (oh_table h) (oh_poolSize h) (idx + 1)"
    and run: "oh_CheckAndSet (Suc n) idx h = Ret (seen, h')"
  shows "oh_sparse h'"
proof -
  let ?t = "oh_table h" and ?ps = "oh_poolSize h"
  have ok: "tbl_ok ?t ?ps" and len: "\<not> length ?t < 2 * (?ps + 1)" using inv by (simp_all add: oh_inv_def tbl_ok_def)
  have put: "distinct (filter (\<lambda>c. c \<noteq> 0) t')" if b: "oh_block ?t base ?ps (idx + 1) = Placed t'" "base = 0 \<or> base = ?ps + 1 \<and> oh_block ?t 0 ?ps (idx + 1) = Full" for base t'
  proof -
    have m: "mask_ok ?ps" "base + ?ps < length ?t" using ok b(2) by (auto simp: tbl_ok_def)
    obtain c where c: "c \<le> base + ?ps" "?t ! c = 0" "t' = ?t[c := idx + 1]"
      using probe_placed [OF b(1) [unfolded oh_block_def] hash_bound(1) [OF m(1)] m x] by blast
    have "idx + 1 \<notin> set ?t" using block_placed(1) [OF ok x b] x by (simp add: tbl_set_def)
    then show ?thesis using sparse_put [of ?t c "idx + 1"] inv(2) c m(2) by (simp add: oh_sparse_def)
  qed
  show ?thesis
  proof (cases "oh_block ?t 0 ?ps (idx + 1)")
    case (Placed t')
    then show ?thesis using run len put [OF Placed] by (auto simp: oh_CheckAndSet_def oh_check.simps Let_def oh_put_def oh_sparse_def)
  next
    case Hit
    then show ?thesis using run len inv(2) by (auto simp: oh_CheckAndSet_def oh_check.simps Let_def oh_sparse_def)
  next
    case Full
    show ?thesis
    proof (cases "oh_block ?t (?ps + 1) ?ps (idx + 1)")
      case (Placed t')
      then show ?thesis using run len Full put [OF Placed] by (auto simp: oh_CheckAndSet_def oh_check.simps Let_def oh_put_def oh_sparse_def)
    next
      case Hit
      then show ?thesis using run len Full inv(2) by (auto simp: oh_CheckAndSet_def oh_check.simps Let_def oh_sparse_def)
    qed (use Full room in \<open>simp add: oh_room_def\<close>)
  qed
qed

section \<open>The space of a search\<close>

text \<open>
  \<open>R\<close> samples, \<open>D\<close> their distances, \<open>S\<close> the nodes of the trees the search can come to: each has a sample as its centre,
  and the children of an inner node come behind it.
\<close>

definition search_space ::
  "int \<Rightarrow> nat \<Rightarrow> (int \<Rightarrow> 'f :: linorder) \<Rightarrow> (int \<Rightarrow> 'f outcome) \<Rightarrow> 'f \<Rightarrow> bktNode list \<Rightarrow> nat set \<Rightarrow> bool" where
  "search_space R ps D dist maxDist ns S \<longleftrightarrow> R \<le> 2 ^ 31 \<and> oh_fits R ps \<and> (\<forall>k \<in> {0 ..< R}. dist k = Ret (D k) \<and> D k \<le> maxDist)
     \<and> (\<forall>i \<in> S. i < length ns \<and> centerid (ns ! i) \<in> {0 ..< R}
          \<and> (0 \<le> childStart (ns ! i) \<longrightarrow> (\<forall>j. childStart (ns ! i) \<le> j \<longrightarrow> j < childEnd (ns ! i) \<longrightarrow> i < nat j \<and> nat j \<in> S)))"

text \<open>The number of nodes below a node, itself included, when the same node is counted on every way to it.\<close>

fun below :: "nat \<Rightarrow> bktNode list \<Rightarrow> nat \<Rightarrow> nat" where
  "below 0 ns i = 1"
| "below (Suc n) ns i =
     Suc (if 0 \<le> childStart (ns ! i) then \<Sum>j \<leftarrow> [childStart (ns ! i) .. childEnd (ns ! i) - 1]. below n ns (nat j) else 0)"

definition nodeWork :: "bktNode list \<Rightarrow> nat \<Rightarrow> nat" where
  "nodeWork ns i = below (length ns) ns i"

lemma below_stable:
  assumes sp: "search_space R ps D dist maxDist ns S" and "i \<in> S" "length ns - i \<le> m" "length ns - i \<le> n"
  shows "below m ns i = below n ns i"
  using assms(2-)
proof (induction "length ns - i" arbitrary: i m n rule: less_induct)
  case less
  have i: "i < length ns" using sp less.prems(1) by (simp add: search_space_def)
  obtain m' n' where mn: "m = Suc m'" "n = Suc n'" using i less.prems(2,3) by (cases m; cases n) auto
  have b: "below m' ns (nat j) = below n' ns (nat j)"
    if "0 \<le> childStart (ns ! i)" "j \<in> set [childStart (ns ! i) .. childEnd (ns ! i) - 1]" for j
  proof -
    have j: "i < nat j" "nat j \<in> S" using sp less.prems(1) that by (auto simp: search_space_def)
    then have "nat j < length ns" using sp by (simp add: search_space_def)
    then show ?thesis using less.hyps [of "nat j" m' n'] j i less.prems(2,3) mn by simp
  qed
  have "(\<Sum>j \<leftarrow> [childStart (ns ! i) .. childEnd (ns ! i) - 1]. below m' ns (nat j))
      = (\<Sum>j \<leftarrow> [childStart (ns ! i) .. childEnd (ns ! i) - 1]. below n' ns (nat j))" if "0 \<le> childStart (ns ! i)"
    using b [OF that] by (intro arg_cong [where f = sum_list] map_cong refl)
  then show ?case unfolding mn by simp
qed

lemma nodeWork_step:
  assumes sp: "search_space R ps D dist maxDist ns S" and i: "i \<in> S" and c: "0 \<le> childStart (ns ! i)"
  shows "nodeWork ns i = Suc (\<Sum>j \<leftarrow> [childStart (ns ! i) .. childEnd (ns ! i) - 1]. nodeWork ns (nat j))"
proof -
  have il: "i < length ns" using sp i by (simp add: search_space_def)
  then obtain n where n: "length ns = Suc n" by (cases "length ns") auto
  have "below n ns (nat j) = below (Suc n) ns (nat j)" if "j \<in> set [childStart (ns ! i) .. childEnd (ns ! i) - 1]" for j
  proof -
    have j: "i < nat j" "nat j \<in> S" using sp i c that by (auto simp: search_space_def)
    show ?thesis by (rule below_stable [OF sp j(2)]) (use j n in auto)
  qed
  then have "(\<Sum>j \<leftarrow> [childStart (ns ! i) .. childEnd (ns ! i) - 1]. below n ns (nat j))
      = (\<Sum>j \<leftarrow> [childStart (ns ! i) .. childEnd (ns ! i) - 1]. nodeWork ns (nat j))"
    by (intro arg_cong [where f = sum_list] map_cong refl) (simp only: nodeWork_def n)
  then show ?thesis using c unfolding nodeWork_def [of ns i] n below.simps by simp
qed

lemma nodeWork_pos: "0 < nodeWork ns i"
  unfolding nodeWork_def by (cases "length ns") simp_all

section \<open>The workspace during a search\<close>

definition nodes_ok :: "(int \<Rightarrow> 'f) \<Rightarrow> bktNode list \<Rightarrow> nat set \<Rightarrow> 'f nodeDistPair multiset \<Rightarrow> bool" where
  "nodes_ok D ns S M \<longleftrightarrow> (\<forall>x \<in># M. 0 \<le> ndNode x \<and> nat (ndNode x) \<in> S \<and> ndDist x = D (centerid (ns ! nat (ndNode x))))"

definition workOf :: "bktNode list \<Rightarrow> 'f nodeDistPair multiset \<Rightarrow> nat" where
  "workOf ns M = (\<Sum>x \<in># M. nodeWork ns (nat (ndNode x)))"

text \<open>\<open>V\<close> are the samples seen, \<open>P\<close> those taken from the queue of the graph search already; no sample is twice on it.\<close>

definition ws_ok ::
  "int \<Rightarrow> nat \<Rightarrow> (int \<Rightarrow> 'f :: linorder) \<Rightarrow> bktNode list \<Rightarrow> nat set \<Rightarrow> int set \<Rightarrow> int set \<Rightarrow> 'f workSpace \<Rightarrow> bool" where
  "ws_ok R ps D ns S P V ws \<longleftrightarrow> P \<subseteq> V \<and> V \<subseteq> {0 ..< R} \<and> oh_inv (ws_check ws) \<and> oh_sparse (ws_check ws)
     \<and> oh_poolSize (ws_check ws) = ps \<and> oh_abs (ws_check ws) = cellOf ` V \<and> hp_inv (ws_NG ws) \<and> hp_inv (ws_SPT ws)
     \<and> (\<forall>x \<in># hp_nodes (ws_NG ws). ndNode x \<in> V - P \<and> ndDist x = D (ndNode x))
     \<and> (\<forall>k. Multiset.count (image_mset ndNode (hp_nodes (ws_NG ws))) k \<le> 1)
     \<and> nodes_ok D ns S (hp_nodes (ws_SPT ws))"

lemma CheckAndSet_ok:
  assumes sp: "search_space R ps D dist maxDist ns S" and ws: "ws_ok R ps D ns S P V ws" and k: "k \<in> {0 ..< R}"
  shows "\<exists>h. ws_CheckAndSet (Suc depth) k ws = Ret (k \<in> V, ws\<lparr>ws_check := h\<rparr>) \<and> ws_ok R ps D ns S P (insert k V) (ws\<lparr>ws_check := h\<rparr>)"
proof -
  have R: "R \<le> 2 ^ 31" and fits: "oh_fits R ps" using sp by (simp_all add: search_space_def)
  have w: "oh_inv (ws_check ws)" "oh_poolSize (ws_check ws) = ps" "oh_abs (ws_check ws) = cellOf ` V" "V \<subseteq> {0 ..< R}" "oh_sparse (ws_check ws)"
    using ws by (simp_all add: ws_ok_def)
  have "oh_abs (ws_check ws) \<subseteq> cellOf ` {0 ..< R}" using w(3,4) by blast
  then have room: "oh_room (oh_table (ws_check ws)) (oh_poolSize (ws_check ws)) (word_of_int k + 1)"
    using fits w(1,2,5) k unfolding oh_fits_def cellOf_def [symmetric] by blast
  have ne: "word_of_int k + 1 \<noteq> (0 :: cell)" using cellOf_ne [of k] k R by (simp add: cellOf_def)
  have mem: "word_of_int k + 1 \<in> oh_abs (ws_check ws) \<longleftrightarrow> k \<in> V"
    unfolding w(3) cellOf_def [symmetric] using inj_on_image_mem_iff [OF cellOf_inj [OF R] k w(4)] .
  obtain h where h: "oh_CheckAndSet (Suc depth) (word_of_int k) (ws_check ws) = Ret (k \<in> V, h)" "oh_inv h"
    "oh_abs h = insert (cellOf k) (cellOf ` V)" "oh_poolSize h = ps"
    using CheckAndSet_room [OF w(1) ne room, of depth] mem w(2,3) by (auto simp: cellOf_def)
  have "ws_ok R ps D ns S P (insert k V) (ws\<lparr>ws_check := h\<rparr>)"
    using ws h(2-) CheckAndSet_sparse [OF w(1,5) ne room h(1)] k by (auto simp: ws_ok_def)
  then show ?thesis using h(1) by (intro exI [of _ h]) (simp add: ws_CheckAndSet_def)
qed

text \<open>A sample that was not seen may join the queue of the graph search.\<close>

lemma insert_NG:
  assumes ws: "ws_ok R ps D ns S P V ws" and k: "k \<notin> V" and ok: "ws_ok R ps D ns S P (insert k V) ws'" "ws_NG ws' = ws_NG ws"
    and d: "d = D k"
  shows "ws_ok R ps D ns S P (insert k V) (ws'\<lparr>ws_NG := hp_insert (ws_NG ws') (NodeDistPair k d)\<rparr>)"
proof -
  let ?N = "hp_nodes (ws_NG ws)"
  let ?M = "hp_nodes (hp_insert (ws_NG ws') (NodeDistPair k d))"
  have N: "hp_inv (ws_NG ws)" "\<forall>x \<in># ?N. ndNode x \<in> V - P \<and> ndDist x = D (ndNode x)"
    "\<forall>j. Multiset.count (image_mset ndNode ?N) j \<le> 1" "P \<subseteq> V"
    using ws by (simp_all add: ws_ok_def)
  note ins = hp_insert_sub [OF N(1), of "NodeDistPair k d"]
  have "x \<in># ?N \<or> x = NodeDistPair k d" if "x \<in># ?M" for x
    using mset_subset_eqD [OF ins(2), of x] that ok(2) by auto
  then have el: "\<forall>x \<in># ?M. ndNode x \<in> insert k V - P \<and> ndDist x = D (ndNode x)" using N(2,4) k d by fastforce
  have k0: "Multiset.count (image_mset ndNode ?N) k = 0" using N(2) k by (auto simp: count_eq_zero_iff)
  have "image_mset ndNode ?M \<subseteq># image_mset ndNode (?N + {#NodeDistPair k d#})" using ins(2) ok(2) image_mset_subseteq_mono by metis
  then have c: "Multiset.count (image_mset ndNode ?M) j \<le> Multiset.count (image_mset ndNode ?N) j + (if j = k then 1 else 0)" for j
    using mset_subset_eq_count [of "image_mset ndNode ?M" "image_mset ndNode (?N + {#NodeDistPair k d#})" j] by (auto split: if_splits)
  have "Multiset.count (image_mset ndNode ?M) j \<le> 1" for j using N(3) k0 c [of j] by (cases "j = k") (simp_all add: order_trans)
  then show ?thesis using ok(1) el ins(1) ok(2) by (simp add: ws_ok_def)
qed

lemma offer_ok:
  assumes sp: "search_space R ps D dist maxDist ns S" and ws: "ws_ok R ps D ns S P V ws" and k: "k \<in> {0 ..< R}" and d: "d = D k"
  shows "\<exists>seen ws'. ws_offer (Suc depth) k d ws = Ret (seen, ws') \<and> ws_ok R ps D ns S P (insert k V) ws'
    \<and> ws_SPT ws' = ws_SPT ws \<and> ws_results ws' = ws_results ws"
proof -
  obtain h where h: "ws_CheckAndSet (Suc depth) k ws = Ret (k \<in> V, ws\<lparr>ws_check := h\<rparr>)" "ws_ok R ps D ns S P (insert k V) (ws\<lparr>ws_check := h\<rparr>)"
    using CheckAndSet_ok [OF sp ws k, of depth] by blast
  show ?thesis
  proof (cases "k \<in> V")
    case True
    then show ?thesis using h by (auto simp: ws_offer_def)
  next
    case False
    from insert_NG [OF ws False h(2) _ d]
    have "ws_ok R ps D ns S P (insert k V) (ws\<lparr>ws_check := h, ws_NG := hp_insert (ws_NG ws) (NodeDistPair k d)\<rparr>)" by simp
    moreover have "ws_offer (Suc depth) k d ws = Ret (False, ws\<lparr>ws_check := h, ws_NG := hp_insert (ws_NG ws) (NodeDistPair k d)\<rparr>)"
      using h(1) False by (simp add: ws_offer_def)
    ultimately show ?thesis
      by (intro exI [of _ False] exI [of _ "ws\<lparr>ws_check := h, ws_NG := hp_insert (ws_NG ws) (NodeDistPair k d)\<rparr>"]) simp
  qed
qed

section \<open>The queue of the trees\<close>

lemma workOf_mono: "M \<subseteq># N \<Longrightarrow> workOf ns M \<le> workOf ns N"
  by (auto simp: workOf_def mset_subset_eq_exists_conv)

lemma workOf_add: "workOf ns (add_mset x M) = nodeWork ns (nat (ndNode x)) + workOf ns M"
  by (simp add: workOf_def)

lemma workOf_empty [simp]: "workOf ns {#} = 0"
  by (simp add: workOf_def)

lemma nodes_ok_sub: "nodes_ok D ns S N \<Longrightarrow> M \<subseteq># N \<Longrightarrow> nodes_ok D ns S M"
  by (auto simp: nodes_ok_def dest: mset_subset_eqD)

lemma queue_insert:
  assumes "hp_inv h" "nodes_ok D ns S (hp_nodes h)" "0 \<le> ndNode x" "nat (ndNode x) \<in> S" "ndDist x = D (centerid (ns ! nat (ndNode x)))"
  shows "hp_inv (hp_insert h x)" "nodes_ok D ns S (hp_nodes (hp_insert h x))"
    "workOf ns (hp_nodes (hp_insert h x)) \<le> nodeWork ns (nat (ndNode x)) + workOf ns (hp_nodes h)"
proof -
  have sub: "hp_nodes (hp_insert h x) \<subseteq># add_mset x (hp_nodes h)" using hp_insert_sub(2) [OF assms(1), of x] by simp
  show "hp_inv (hp_insert h x)" using hp_insert_sub(1) [OF assms(1)] .
  have "nodes_ok D ns S (add_mset x (hp_nodes h))" using assms by (simp add: nodes_ok_def)
  then show "nodes_ok D ns S (hp_nodes (hp_insert h x))" using sub by (rule nodes_ok_sub)
  show "workOf ns (hp_nodes (hp_insert h x)) \<le> nodeWork ns (nat (ndNode x)) + workOf ns (hp_nodes h)"
    using workOf_mono [OF sub] by (simp add: workOf_add)
qed

abbreviation spWork :: "bktNode list \<Rightarrow> 'f workSpace \<Rightarrow> nat" where
  "spWork ns ws \<equiv> workOf ns (hp_nodes (ws_SPT ws))"

lemma push_ok:
  assumes "ws_ok R ps D ns S P V ws" "0 \<le> ndNode x" "nat (ndNode x) \<in> S" "ndDist x = D (centerid (ns ! nat (ndNode x)))"
  shows "ws_ok R ps D ns S P V (ts_push x ws)" "spWork ns (ts_push x ws) \<le> nodeWork ns (nat (ndNode x)) + spWork ns ws"
    "ws_results (ts_push x ws) = ws_results ws"
  using queue_insert [of "ws_SPT ws" D ns S x] assms by (simp_all add: ws_ok_def ts_push_def)

lemma pushChildren_ok:
  assumes sp: "search_space R ps D dist maxDist ns S"
  shows "ws_ok R ps D ns S P V ws \<Longrightarrow> \<forall>j \<in> set js. 0 \<le> j \<and> nat j \<in> S \<Longrightarrow>
    \<exists>ws'. loopOver (ts_pushChild ns dist) js ws = Ret ws' \<and> ws_ok R ps D ns S P V ws'
      \<and> spWork ns ws' \<le> (\<Sum>j \<leftarrow> js. nodeWork ns (nat j)) + spWork ns ws \<and> ws_results ws' = ws_results ws"
proof (induction js arbitrary: ws)
  case (Cons j js)
  have j: "0 \<le> j" "nat j \<in> S" using Cons.prems(2) by simp_all
  then have n: "nat j < length ns" "dist (centerid (ns ! nat j)) = Ret (D (centerid (ns ! nat j)))" using sp by (simp_all add: search_space_def)
  let ?x = "NodeDistPair j (D (centerid (ns ! nat j)))"
  have b: "ts_pushChild ns dist j ws = Ret (ts_push ?x ws)" using j(1) n by (simp add: ts_pushChild_def outcome_simps)
  have x: "0 \<le> ndNode ?x" "nat (ndNode ?x) \<in> S" "ndDist ?x = D (centerid (ns ! nat (ndNode ?x)))" using j by simp_all
  note p = push_ok [OF Cons.prems(1) x]
  obtain ws' where "loopOver (ts_pushChild ns dist) js (ts_push ?x ws) = Ret ws'" "ws_ok R ps D ns S P V ws'"
    "spWork ns ws' \<le> (\<Sum>j \<leftarrow> js. nodeWork ns (nat j)) + spWork ns (ts_push ?x ws)" "ws_results ws' = ws_results (ts_push ?x ws)"
    using Cons.IH [OF p(1)] Cons.prems(2) by auto
  then show ?case using b p(2,3) by (intro exI [of _ ws']) simp
qed simp

lemma children_ok:
  assumes "search_space R ps D dist maxDist ns S" "i \<in> S" "0 \<le> childStart (ns ! i)"
  shows "\<forall>j \<in> set [childStart (ns ! i) .. childEnd (ns ! i) - 1]. 0 \<le> j \<and> nat j \<in> S"
  using assms by (auto simp: search_space_def)

text \<open>\<open>SearchTrees\<close> returns when it has fuel for the work on its queue.\<close>

lemma SearchTrees_ok:
  assumes sp: "search_space R ps D dist maxDist ns S"
  shows "ws_ok R ps D ns S P V ws \<Longrightarrow> spWork ns ws < fuel \<Longrightarrow>
    \<exists>ws' V'. SearchTrees fuel (Suc depth) ns dist limits ws = Ret ws' \<and> ws_ok R ps D ns S P V' ws' \<and> V \<subseteq> V'
      \<and> spWork ns ws' \<le> spWork ns ws \<and> ws_results ws' = ws_results ws"
proof (induction fuel arbitrary: V ws)
  case (Suc n)
  have inv: "hp_inv (ws_SPT ws)" using Suc.prems(1) by (simp add: ws_ok_def)
  show ?case
  proof (cases rule: hp_pop_cases [OF inv])
    case 1
    then show ?thesis using Suc.prems(1) by auto
  next
    case (2 c q)
    let ?i = "nat (ndNode c)"
    let ?w = "ws\<lparr>ws_SPT := q\<rparr>"
    have c: "0 \<le> ndNode c" "?i \<in> S" "ndDist c = D (centerid (ns ! ?i))" "nodes_ok D ns S (hp_nodes q)"
      using Suc.prems(1) 2(3) by (simp_all add: ws_ok_def nodes_ok_def)
    have i: "?i < length ns" "centerid (ns ! ?i) \<in> {0 ..< R}" using sp c(2) by (simp_all add: search_space_def)
    have w: "ws_ok R ps D ns S P V ?w" using Suc.prems(1) 2(2) c(4) by (simp add: ws_ok_def)
    have wk: "spWork ns ws = nodeWork ns ?i + spWork ns ?w" using 2(3) by (simp add: workOf_add)
    obtain seen w1 where o: "ws_offer (Suc depth) (centerid (ns ! ?i)) (ndDist c) ?w = Ret (seen, w1)"
      "ws_ok R ps D ns S P (insert (centerid (ns ! ?i)) V) w1" "ws_SPT w1 = q" "ws_results w1 = ws_results ws"
      using offer_ok [OF sp w i(2) c(3), of depth] by auto
    have v: "vecAt ns (ndNode c) = Ret (ns ! ?i)" using c(1) i(1) by (simp add: outcome_simps)
    show ?thesis
    proof (cases "childStart (ns ! ?i) < 0")
      case True
      let ?w2 = "if seen then w1 else w1\<lparr>ws_leaves := ws_leaves w1 + 1\<rparr>"
      have w2: "ws_ok R ps D ns S P (insert (centerid (ns ! ?i)) V) ?w2" "ws_SPT ?w2 = q" "ws_results ?w2 = ws_results ws"
        using o by (simp_all add: ws_ok_def)
      have r: "SearchTrees (Suc n) (Suc depth) ns dist limits ws = (if limits \<le> ws_leaves ?w2 then Ret ?w2 else SearchTrees n (Suc depth) ns dist limits ?w2)"
        using 2(1) v o(1) True by (simp add: Let_def)
      have "spWork ns ?w2 < n" using w2(2) wk Suc.prems(2) nodeWork_pos [of ns ?i] by simp
      from Suc.IH [OF w2(1) this] obtain ws' V' where s: "SearchTrees n (Suc depth) ns dist limits ?w2 = Ret ws'" "ws_ok R ps D ns S P V' ws'"
        "insert (centerid (ns ! ?i)) V \<subseteq> V'" "spWork ns ws' \<le> spWork ns ?w2" "ws_results ws' = ws_results ?w2" by blast
      show ?thesis
      proof (cases "limits \<le> ws_leaves ?w2")
        case True
        then show ?thesis using r w2 wk
          by (intro exI [of _ ?w2] exI [of _ "insert (centerid (ns ! ?i)) V"]) auto
      next
        case False
        then show ?thesis using r s w2 wk by (intro exI [of _ ws'] exI [of _ V']) auto
      qed
    next
      case False
      let ?js = "[childStart (ns ! ?i) .. childEnd (ns ! ?i) - 1]"
      have cs: "0 \<le> childStart (ns ! ?i)" using False by simp
      obtain w2 where p: "loopOver (ts_pushChild ns dist) ?js w1 = Ret w2" "ws_ok R ps D ns S P (insert (centerid (ns ! ?i)) V) w2"
        "spWork ns w2 \<le> (\<Sum>j \<leftarrow> ?js. nodeWork ns (nat j)) + spWork ns w1" "ws_results w2 = ws_results w1"
        using pushChildren_ok [OF sp o(2) children_ok [OF sp c(2) cs]] by auto
      have k: "spWork ns w2 < spWork ns ws" using p(3) o(3) wk nodeWork_step [OF sp c(2) cs] by simp
      then have "spWork ns w2 < n" using Suc.prems(2) by simp
      from Suc.IH [OF p(2) this] obtain ws' V' where s: "SearchTrees n (Suc depth) ns dist limits w2 = Ret ws'" "ws_ok R ps D ns S P V' ws'"
        "insert (centerid (ns ! ?i)) V \<subseteq> V'" "spWork ns ws' \<le> spWork ns w2" "ws_results ws' = ws_results w2" by blast
      have "SearchTrees (Suc n) (Suc depth) ns dist limits ws = Ret ws'" using 2(1) v o(1) p(1) s(1) False by simp
      then show ?thesis using s p(4) o(4) k by (intro exI [of _ ws'] exI [of _ V']) auto
    qed
  qed
qed simp

section \<open>The breadth-first start\<close>

lemma bfs_children_ok:
  assumes sp: "search_space R ps D dist maxDist ns S"
  shows "ws_ok R ps D ns S P V ws \<Longrightarrow> hp_inv h \<Longrightarrow> nodes_ok D ns S (hp_nodes h) \<Longrightarrow> \<forall>j \<in> set js. 0 \<le> j \<and> nat j \<in> S \<Longrightarrow>
    \<exists>h' ws'. loopOver (bfs_child scale ns dist) js (h, ws) = Ret (h', ws') \<and> ws_ok R ps D ns S P V ws' \<and> hp_inv h'
      \<and> nodes_ok D ns S (hp_nodes h') \<and> workOf ns (hp_nodes h') + spWork ns ws' \<le> (\<Sum>j \<leftarrow> js. nodeWork ns (nat j)) + workOf ns (hp_nodes h) + spWork ns ws
      \<and> ws_results ws' = ws_results ws"
proof (induction js arbitrary: h ws)
  case (Cons j js)
  have j: "0 \<le> j" "nat j \<in> S" using Cons.prems(4) by simp_all
  then have n: "nat j < length ns" "dist (centerid (ns ! nat j)) = Ret (D (centerid (ns ! nat j)))" using sp by (simp_all add: search_space_def)
  let ?x = "NodeDistPair j (D (centerid (ns ! nat j)))"
  have x: "0 \<le> ndNode ?x" "nat (ndNode ?x) \<in> S" "ndDist ?x = D (centerid (ns ! nat (ndNode ?x)))" using j by simp_all
  note p = push_ok [OF Cons.prems(1) x] and q = queue_insert [OF Cons.prems(2,3) x]
  obtain h1 w1 where b: "bfs_child scale ns dist j (h, ws) = Ret (h1, w1)" "ws_ok R ps D ns S P V w1" "hp_inv h1" "nodes_ok D ns S (hp_nodes h1)"
    "workOf ns (hp_nodes h1) + spWork ns w1 \<le> nodeWork ns (nat j) + workOf ns (hp_nodes h) + spWork ns ws" "ws_results w1 = ws_results ws"
  proof (cases "D (centerid (ns ! nat j)) \<le> scale (ndDist (hp_Top h)) \<and> hp_count h < 100")
    case True
    then have "bfs_child scale ns dist j (h, ws) = Ret (hp_insert h ?x, ws)" using j(1) n by (simp add: bfs_child_def outcome_simps)
    then show ?thesis by (rule that) (use Cons.prems q in simp_all)
  next
    case False
    then have "bfs_child scale ns dist j (h, ws) = Ret (h, ts_push ?x ws)" using j(1) n by (auto simp: bfs_child_def outcome_simps)
    then show ?thesis by (rule that) (use Cons.prems p in simp_all)
  qed
  have js: "\<forall>j \<in> set js. 0 \<le> j \<and> nat j \<in> S" using Cons.prems(4) by simp
  from Cons.IH [OF b(2-4) js] obtain h' ws' where "loopOver (bfs_child scale ns dist) js (h1, w1) = Ret (h', ws')" "ws_ok R ps D ns S P V ws'" "hp_inv h'"
    "nodes_ok D ns S (hp_nodes h')" "workOf ns (hp_nodes h') + spWork ns ws' \<le> (\<Sum>j \<leftarrow> js. nodeWork ns (nat j)) + workOf ns (hp_nodes h1) + spWork ns w1"
    "ws_results ws' = ws_results w1" by blast
  then show ?case using b(1,5,6) by (intro exI [of _ h'] exI [of _ ws']) simp
qed simp

lemma bfs_level_ok:
  assumes sp: "search_space R ps D dist maxDist ns S"
  shows "ws_ok R ps D ns S P V ws \<Longrightarrow> hp_inv cur \<Longrightarrow> nodes_ok D ns S (hp_nodes cur) \<Longrightarrow> hp_inv nxt \<Longrightarrow> nodes_ok D ns S (hp_nodes nxt) \<Longrightarrow>
    \<exists>cur' nxt' ws' V'. bfs_level n (Suc depth) scale ns dist (cur, nxt, ws) = Ret (cur', nxt', ws') \<and> ws_ok R ps D ns S P V' ws' \<and> V \<subseteq> V'
      \<and> hp_inv nxt' \<and> nodes_ok D ns S (hp_nodes nxt')
      \<and> workOf ns (hp_nodes nxt') + spWork ns ws' \<le> workOf ns (hp_nodes cur) + workOf ns (hp_nodes nxt) + spWork ns ws
      \<and> ws_results ws' = ws_results ws"
proof (induction n arbitrary: cur nxt ws V)
  case 0
  then show ?case by (intro exI [of _ cur] exI [of _ nxt] exI [of _ ws] exI [of _ V]) simp
next
  case (Suc n)
  show ?case
  proof (cases rule: hp_pop_cases [OF Suc.prems(2)])
    case 1
    then show ?thesis using Suc.prems by (intro exI [of _ cur] exI [of _ nxt] exI [of _ ws] exI [of _ V]) simp
  next
    case (2 c cur1)
    let ?i = "nat (ndNode c)"
    have c: "0 \<le> ndNode c" "?i \<in> S" "ndDist c = D (centerid (ns ! ?i))" "nodes_ok D ns S (hp_nodes cur1)"
      using Suc.prems(3) 2(3) by (simp_all add: nodes_ok_def)
    have i: "?i < length ns" "centerid (ns ! ?i) \<in> {0 ..< R}" using sp c(2) by (simp_all add: search_space_def)
    have wk: "workOf ns (hp_nodes cur) = nodeWork ns ?i + workOf ns (hp_nodes cur1)" using 2(3) by (simp add: workOf_add)
    have v: "vecAt ns (ndNode c) = Ret (ns ! ?i)" using c(1) i(1) by (simp add: outcome_simps)
    obtain n1 w1 V1 where b: "(if childStart (ns ! ?i) < 0 then Ret (nxt, ts_push c ws)
        else andThen (ws_offer (Suc depth) (centerid (ns ! ?i)) (ndDist c) ws) (\<lambda>(seen, ws1).
             loopOver (bfs_child scale ns dist) [childStart (ns ! ?i) .. childEnd (ns ! ?i) - 1] (nxt, ws1))) = Ret (n1, w1)"
      "ws_ok R ps D ns S P V1 w1" "V \<subseteq> V1" "hp_inv n1" "nodes_ok D ns S (hp_nodes n1)"
      "workOf ns (hp_nodes n1) + spWork ns w1 \<le> nodeWork ns ?i + workOf ns (hp_nodes nxt) + spWork ns ws" "ws_results w1 = ws_results ws"
    proof (cases "childStart (ns ! ?i) < 0")
      case True
      show ?thesis
      proof (rule that)
        show "(if childStart (ns ! ?i) < 0 then Ret (nxt, ts_push c ws)
          else andThen (ws_offer (Suc depth) (centerid (ns ! ?i)) (ndDist c) ws) (\<lambda>(seen, ws1).
               loopOver (bfs_child scale ns dist) [childStart (ns ! ?i) .. childEnd (ns ! ?i) - 1] (nxt, ws1))) = Ret (nxt, ts_push c ws)"
          using True by simp
        show "ws_ok R ps D ns S P V (ts_push c ws)" using push_ok(1) [OF Suc.prems(1) c(1-3)] .
        show "workOf ns (hp_nodes nxt) + spWork ns (ts_push c ws) \<le> nodeWork ns ?i + workOf ns (hp_nodes nxt) + spWork ns ws"
          using push_ok(2) [OF Suc.prems(1) c(1-3)] by simp
        show "ws_results (ts_push c ws) = ws_results ws" using push_ok(3) [OF Suc.prems(1) c(1-3)] .
      qed (use Suc.prems in simp_all)
    next
      case False
      then have cs: "0 \<le> childStart (ns ! ?i)" by simp
      obtain seen w0 where o: "ws_offer (Suc depth) (centerid (ns ! ?i)) (ndDist c) ws = Ret (seen, w0)"
        "ws_ok R ps D ns S P (insert (centerid (ns ! ?i)) V) w0" "ws_SPT w0 = ws_SPT ws" "ws_results w0 = ws_results ws"
        using offer_ok [OF sp Suc.prems(1) i(2) c(3), of depth] by auto
      from bfs_children_ok [OF sp o(2) Suc.prems(4,5) children_ok [OF sp c(2) cs], of scale] obtain h' ws' where
        l: "loopOver (bfs_child scale ns dist) [childStart (ns ! ?i) .. childEnd (ns ! ?i) - 1] (nxt, w0) = Ret (h', ws')"
        "ws_ok R ps D ns S P (insert (centerid (ns ! ?i)) V) ws'" "hp_inv h'" "nodes_ok D ns S (hp_nodes h')"
        "workOf ns (hp_nodes h') + spWork ns ws' \<le> (\<Sum>j \<leftarrow> [childStart (ns ! ?i) .. childEnd (ns ! ?i) - 1]. nodeWork ns (nat j)) + workOf ns (hp_nodes nxt) + spWork ns w0"
        "ws_results ws' = ws_results w0" by blast
      show ?thesis
      proof (rule that)
        show "(if childStart (ns ! ?i) < 0 then Ret (nxt, ts_push c ws)
          else andThen (ws_offer (Suc depth) (centerid (ns ! ?i)) (ndDist c) ws) (\<lambda>(seen, ws1).
               loopOver (bfs_child scale ns dist) [childStart (ns ! ?i) .. childEnd (ns ! ?i) - 1] (nxt, ws1))) = Ret (h', ws')"
          using False o(1) l(1) by simp
        show "workOf ns (hp_nodes h') + spWork ns ws' \<le> nodeWork ns ?i + workOf ns (hp_nodes nxt) + spWork ns ws"
          using l(5) o(3) nodeWork_step [OF sp c(2) cs] by simp
      qed (use l o in auto)
    qed
    from Suc.IH [OF b(2) 2(2) c(4) b(4,5)] obtain cur' nxt' ws' V' where
      r: "bfs_level n (Suc depth) scale ns dist (cur1, n1, w1) = Ret (cur', nxt', ws')" "ws_ok R ps D ns S P V' ws'" "V1 \<subseteq> V'"
      "hp_inv nxt'" "nodes_ok D ns S (hp_nodes nxt')"
      "workOf ns (hp_nodes nxt') + spWork ns ws' \<le> workOf ns (hp_nodes cur1) + workOf ns (hp_nodes n1) + spWork ns w1"
      "ws_results ws' = ws_results w1" by blast
    have "bfs_level (Suc n) (Suc depth) scale ns dist (cur, nxt, ws) = Ret (cur', nxt', ws')" using 2(1) v b(1) r(1) by simp
    then show ?thesis using r(2-) b(3,6,7) wk
      by (intro exI [of _ cur'] exI [of _ nxt'] exI [of _ ws'] exI [of _ V']) auto
  qed
qed

lemma bfs_drain_ok:
  "ws_ok R ps D ns S P V ws \<Longrightarrow> hp_inv h \<Longrightarrow> nodes_ok D ns S (hp_nodes h) \<Longrightarrow>
    \<exists>h' ws'. bfs_drain n (h, ws) = (h', ws') \<and> ws_ok R ps D ns S P V ws' \<and> spWork ns ws' \<le> workOf ns (hp_nodes h) + spWork ns ws
      \<and> ws_results ws' = ws_results ws"
proof (induction n arbitrary: h ws)
  case (Suc n)
  show ?case
  proof (cases rule: hp_pop_cases [OF Suc.prems(2)])
    case 1
    then show ?thesis using Suc.prems by simp
  next
    case (2 x h1)
    have x: "0 \<le> ndNode x" "nat (ndNode x) \<in> S" "ndDist x = D (centerid (ns ! nat (ndNode x)))" "nodes_ok D ns S (hp_nodes h1)"
      using Suc.prems(3) 2(3) by (simp_all add: nodes_ok_def)
    note p = push_ok [OF Suc.prems(1) x(1-3)]
    from Suc.IH [OF p(1) 2(2) x(4)] show ?thesis using 2(1,3) p(2,3) by (auto simp: workOf_add)
  qed
qed simp

text \<open>What \<open>InitSearchTrees\<close> finds: one start for each tree, and at most 127 trees.\<close>

definition trees_ok :: "nat set \<Rightarrow> 'f bkTree \<Rightarrow> bool" where
  "trees_ok S t \<longleftrightarrow> tr_number t \<le> 127 \<and> length (tr_start t) = tr_number t
     \<and> (\<forall>s \<in> set (tr_start t). 0 \<le> s \<and> nat s < length (tr_nodes t)
          \<and> (if childStart (tr_nodes t ! nat s) < 0 then nat s \<in> S
             else \<forall>j. childStart (tr_nodes t ! nat s) \<le> j \<longrightarrow> j < childEnd (tr_nodes t ! nat s) \<longrightarrow> nat j \<in> S))"

definition rootWork :: "bktNode list \<Rightarrow> int \<Rightarrow> nat" where
  "rootWork ns s = (if childStart (ns ! nat s) < 0 then nodeWork ns (nat s)
     else \<Sum>j \<leftarrow> [childStart (ns ! nat s) .. childEnd (ns ! nat s) - 1]. nodeWork ns (nat j))"

definition treeWork :: "'f bkTree \<Rightarrow> nat" where
  "treeWork t = (\<Sum>s \<leftarrow> tr_start t. rootWork (tr_nodes t) s)"

lemma bfs_ok:
  assumes sp: "search_space R ps D dist maxDist ns S" and ws: "ws_ok R ps D ns S P V ws"
    and js: "\<forall>j \<in> set [childStart node .. childEnd node - 1]. 0 \<le> j \<and> nat j \<in> S"
  shows "\<exists>ws' V'. ts_bfs (Suc depth) maxD scale big ns dist node ws = Ret ws' \<and> ws_ok R ps D ns S P V' ws' \<and> V \<subseteq> V'
    \<and> spWork ns ws' \<le> (\<Sum>j \<leftarrow> [childStart node .. childEnd node - 1]. nodeWork ns (nat j)) + spWork ns ws \<and> ws_results ws' = ws_results ws"
proof -
  let ?h = "hp_setTop big (hp_Resize 100 (noPair maxD))"
  have h: "hp_inv ?h" "hp_nodes ?h = {#}"
    using hp_inv_Resize [of 100 "noPair maxD"] by (auto simp: hp_setTop_def hp_inv_def hp_nodes_def hp_Resize_def)
  have h0: "nodes_ok D ns S (hp_nodes ?h)" using h(2) by (simp add: nodes_ok_def)
  obtain c1 w1 where a: "loopOver (bfs_child scale ns dist) [childStart node .. childEnd node - 1] (?h, ws) = Ret (c1, w1)"
    "ws_ok R ps D ns S P V w1" "hp_inv c1" "nodes_ok D ns S (hp_nodes c1)"
    "workOf ns (hp_nodes c1) + spWork ns w1 \<le> (\<Sum>j \<leftarrow> [childStart node .. childEnd node - 1]. nodeWork ns (nat j)) + workOf ns (hp_nodes ?h) + spWork ns ws"
    "ws_results w1 = ws_results ws"
    using bfs_children_ok [OF sp ws h(1) h0 js, of scale] by blast
  obtain c2 n2 w2 V' where b: "bfs_level (hp_count c1) (Suc depth) scale ns dist (c1, ?h, w1) = Ret (c2, n2, w2)" "ws_ok R ps D ns S P V' w2" "V \<subseteq> V'"
    "hp_inv n2" "nodes_ok D ns S (hp_nodes n2)"
    "workOf ns (hp_nodes n2) + spWork ns w2 \<le> workOf ns (hp_nodes c1) + workOf ns (hp_nodes ?h) + spWork ns w1" "ws_results w2 = ws_results w1"
    using bfs_level_ok [OF sp a(2-4) h(1) h0, of "hp_count c1" depth scale] by blast
  obtain n3 w3 where d: "bfs_drain (hp_count n2) (n2, w2) = (n3, w3)" "ws_ok R ps D ns S P V' w3"
    "spWork ns w3 \<le> workOf ns (hp_nodes n2) + spWork ns w2" "ws_results w3 = ws_results w2"
    using bfs_drain_ok [OF b(2,4,5), of "hp_count n2"] by blast
  let ?w = "w3\<lparr>ws_curr := c2, ws_next := n3\<rparr>"
  have "ts_bfs (Suc depth) maxD scale big ns dist node ws = Ret ?w" using a(1) b(1) d(1) by (simp add: ts_bfs_def Let_def)
  moreover have "ws_ok R ps D ns S P V' ?w" using d(2) by (simp add: ws_ok_def)
  ultimately show ?thesis using a(5,6) b(3,6,7) d(3,4) h(2)
    by (intro exI [of _ ?w] exI [of _ V']) simp
qed

lemma InitSearchTrees_ok:
  assumes sp: "search_space R ps D dist maxDist (tr_nodes t) S" and t: "trees_ok S t" and ws: "ws_ok R ps D (tr_nodes t) S P V ws"
  shows "\<exists>ws' V'. InitSearchTrees (Suc depth) maxD scale big t dist ws = Ret ws' \<and> ws_ok R ps D (tr_nodes t) S P V' ws' \<and> V \<subseteq> V'
    \<and> spWork (tr_nodes t) ws' \<le> treeWork t + spWork (tr_nodes t) ws \<and> ws_results ws' = ws_results ws"
proof -
  let ?ns = "tr_nodes t"
  have step: "\<exists>w' V'. ts_init (Suc depth) maxD scale big t dist i w = Ret w' \<and> ws_ok R ps D ?ns S P V' w' \<and> V1 \<subseteq> V'
      \<and> spWork ?ns w' \<le> rootWork ?ns (tr_start t ! i) + spWork ?ns w \<and> ws_results w' = ws_results w"
    if i: "i < tr_number t" and w: "ws_ok R ps D ?ns S P V1 w" for i w V1
  proof -
    let ?s = "tr_start t ! i"
    let ?n = "?ns ! nat ?s"
    have "?s \<in> set (tr_start t)" using i t by (simp add: trees_ok_def)
    then have s: "0 \<le> ?s" "nat ?s < length ?ns" "if childStart ?n < 0 then nat ?s \<in> S
        else \<forall>j. childStart ?n \<le> j \<longrightarrow> j < childEnd ?n \<longrightarrow> nat j \<in> S"
      using t by (auto simp: trees_ok_def)
    have ch: "charOf i = int i" using i t by (simp add: trees_ok_def charOf_def)
    have "?s < int (length ?ns)" using s(1,2) by linarith
    then have v: "vecAt (tr_start t) (charOf i) = Ret ?s" "vecAt ?ns ?s = Ret ?n" using i t s(1) by (simp_all add: trees_ok_def ch outcome_simps)
    show ?thesis
    proof (cases "childStart ?n < 0")
      case True
      let ?x = "NodeDistPair ?s (D (centerid ?n))"
      have S: "nat ?s \<in> S" using s(3) True by simp
      then have "dist (centerid ?n) = Ret (D (centerid ?n))" using sp by (simp add: search_space_def)
      then have "ts_init (Suc depth) maxD scale big t dist i w = Ret (ts_push ?x w)" using v True by (simp add: ts_init_def)
      moreover have x: "0 \<le> ndNode ?x" "nat (ndNode ?x) \<in> S" "ndDist ?x = D (centerid (?ns ! nat (ndNode ?x)))" using s(1) S by simp_all
      ultimately show ?thesis using push_ok [OF w x] True
        by (intro exI [of _ "ts_push ?x w"] exI [of _ V1]) (simp add: rootWork_def)
    next
      case False
      then have js: "\<forall>j \<in> set [childStart ?n .. childEnd ?n - 1]. 0 \<le> j \<and> nat j \<in> S" using s(3) by auto
      show ?thesis
      proof (cases "tr_bfs t")
        case True
        then show ?thesis using bfs_ok [OF sp w js, of depth maxD scale big] v False by (simp add: ts_init_def rootWork_def)
      next
        case bfs: False
        obtain w' where "loopOver (ts_pushChild ?ns dist) [childStart ?n .. childEnd ?n - 1] w = Ret w'" "ws_ok R ps D ?ns S P V1 w'"
          "spWork ?ns w' \<le> (\<Sum>j \<leftarrow> [childStart ?n .. childEnd ?n - 1]. nodeWork ?ns (nat j)) + spWork ?ns w" "ws_results w' = ws_results w"
          using pushChildren_ok [OF sp w js] by blast
        then show ?thesis using v False bfs by (intro exI [of _ w'] exI [of _ V1]) (simp add: ts_init_def rootWork_def)
      qed
    qed
  qed
  have all: "\<exists>w' V'. loopOver (ts_init (Suc depth) maxD scale big t dist) [0 ..< n] ws = Ret w' \<and> ws_ok R ps D ?ns S P V' w' \<and> V \<subseteq> V'
      \<and> spWork ?ns w' \<le> (\<Sum>s \<leftarrow> take n (tr_start t). rootWork ?ns s) + spWork ?ns ws \<and> ws_results w' = ws_results ws"
    if "n \<le> tr_number t" for n
    using that
  proof (induction n)
    case 0
    then show ?case using ws by (intro exI [of _ ws] exI [of _ V]) simp
  next
    case (Suc n)
    obtain w1 V1 where a: "loopOver (ts_init (Suc depth) maxD scale big t dist) [0 ..< n] ws = Ret w1" "ws_ok R ps D ?ns S P V1 w1" "V \<subseteq> V1"
      "spWork ?ns w1 \<le> (\<Sum>s \<leftarrow> take n (tr_start t). rootWork ?ns s) + spWork ?ns ws" "ws_results w1 = ws_results ws"
      using Suc by auto
    obtain w2 V2 where b: "ts_init (Suc depth) maxD scale big t dist n w1 = Ret w2" "ws_ok R ps D ?ns S P V2 w2" "V1 \<subseteq> V2"
      "spWork ?ns w2 \<le> rootWork ?ns (tr_start t ! n) + spWork ?ns w1" "ws_results w2 = ws_results w1"
      using step [OF _ a(2), of n] Suc.prems by auto
    have "take (Suc n) (tr_start t) = take n (tr_start t) @ [tr_start t ! n]"
      using Suc.prems t by (simp add: trees_ok_def take_Suc_conv_app_nth)
    then show ?case using a b by (intro exI [of _ w2] exI [of _ V2]) (auto simp: loopOver_append)
  qed
  have "length (tr_start t) = tr_number t" "tr_number t \<le> 127" using t by (simp_all add: trees_ok_def)
  then show ?thesis using all [of "tr_number t"] by (simp add: InitSearchTrees_def charLoop_def treeWork_def)
qed

end
