(* ===== verification/GraphSearch.thy ===== *)
theory GraphSearch
  imports TreeSearch
begin

text \<open>
  The graph search of \<open>BKT::Index\<close> (src/Core/BKT/BKTIndex.cpp) returns, and what it answers: the best of the samples it took
  from its queue that the mode accepts, each at its distance from the query.
\<close>

section \<open>The index\<close>

definition bi_D :: "'f bktIndex \<Rightarrow> bytes \<Rightarrow> int \<Rightarrow> 'f" where
  "bi_D x target k = bi_distance x target (ds_list (bh_samples (bi_head x)) ! nat k)"

definition accOf :: "searchMode \<Rightarrow> 'f bktIndex \<Rightarrow> int \<Rightarrow> bool" where
  "accOf m x k \<longleftrightarrow> (sm_skipDeleted m \<longrightarrow> k \<notin> bh_gone (bi_head x)) \<and> (case sm_filter m of None \<Rightarrow> True | Some f \<Rightarrow> f k)"

definition rowOf :: "'f bktIndex \<Rightarrow> int \<Rightarrow> int list" where
  "rowOf x k = (case bi_row x k of Ret r \<Rightarrow> r | _ \<Rightarrow> [])"

text \<open>The last entry of a row below -1 names a node of the trees, which lists the samples that are taken for copies of this one.\<close>

definition lastOf :: "'f bktIndex \<Rightarrow> int \<Rightarrow> int" where
  "lastOf x k = rowOf x k ! (bi_neighbors x - 1)"

definition copies :: "'f bktIndex \<Rightarrow> int \<Rightarrow> int list" where
  "copies x k = (if lastOf x k < - 1
     then let t = tr_nodes (bi_tree x) ! nat (- 2 - lastOf x k)
          in map (\<lambda>j. centerid (tr_nodes (bi_tree x) ! nat j)) [- childStart t .. childEnd t - 1]
     else [])"

definition row_ok :: "int \<Rightarrow> 'f bktIndex \<Rightarrow> int \<Rightarrow> bool" where
  "row_ok R x k \<longleftrightarrow> bi_row x k = Ret (rowOf x k) \<and> length (rowOf x k) = bi_neighbors x \<and> (\<forall>n \<in> set (rowOf x k). n < R)
     \<and> (lastOf x k < - 1 \<longrightarrow> - 2 - lastOf x k < int (length (tr_nodes (bi_tree x)))
          \<and> (let t = tr_nodes (bi_tree x) ! nat (- 2 - lastOf x k)
             in 0 \<le> - childStart t \<and> - childStart t \<le> childEnd t \<and> childEnd t < int (length (tr_nodes (bi_tree x)))
                \<and> (\<forall>j. - childStart t \<le> j \<longrightarrow> j < childEnd t \<longrightarrow> centerid (tr_nodes (bi_tree x) ! nat j) \<in> {0 ..< R})))"

text \<open>The parts of a well-formed index that its searches use.\<close>

definition index_ok :: "nat \<Rightarrow> nat \<Rightarrow> nat set \<Rightarrow> 'f :: linorder bktIndex \<Rightarrow> bool" where
  "index_ok dim e S x \<longleftrightarrow> bh_inv dim e (bi_neighbors x) (bi_head x) \<and> bh_GetNumSamples (bi_head x) \<le> 2 ^ 31 \<and> 0 < bi_neighbors x
     \<and> (\<forall>u v. bi_distance x u v \<le> bi_maxDist x) \<and> trees_ok S (bi_tree x)
     \<and> (\<forall>k \<in> {0 ..< bh_GetNumSamples (bi_head x)}. row_ok (bh_GetNumSamples (bi_head x)) x k)
     \<and> (\<forall>i \<in> S. i < length (tr_nodes (bi_tree x)) \<and> centerid (tr_nodes (bi_tree x) ! i) \<in> {0 ..< bh_GetNumSamples (bi_head x)}
          \<and> (0 \<le> childStart (tr_nodes (bi_tree x) ! i) \<longrightarrow>
               (\<forall>j. childStart (tr_nodes (bi_tree x) ! i) \<le> j \<longrightarrow> j < childEnd (tr_nodes (bi_tree x) ! i) \<longrightarrow> i < nat j \<and> nat j \<in> S)))"

abbreviation samplesOf :: "'f bktIndex \<Rightarrow> int" where
  "samplesOf x \<equiv> bh_GetNumSamples (bi_head x)"

lemma bi_dist_ok:
  assumes "bh_inv dim e (bi_neighbors x) (bi_head x)" "k \<in> {0 ..< samplesOf x}"
  shows "bi_dist x target k = Ret (bi_D x target k)"
  using bkt.sample_law [OF assms(1), of k] assms(2) by (simp add: bi_dist_def bi_D_def)

lemma index_space:
  assumes "index_ok dim e S x" "oh_fits (samplesOf x) ps"
  shows "search_space (samplesOf x) ps (bi_D x target) (bi_dist x target) (bi_maxDist x) (tr_nodes (bi_tree x)) S"
  using assms bi_dist_ok [of dim e x _ target] by (auto simp: search_space_def index_ok_def bi_D_def)

lemma contains_gone:
  assumes "bh_inv dim e deg h" "k \<in> {0 ..< bh_GetNumSamples h}"
  shows "ls_Contains (bh_deleted h) k = Ret (k \<in> bh_gone h)"
  using assms by (auto simp: bh_inv_def bh_GetNumSamples_def bh_gone_def ls_Contains_in)

lemma accepts_ok:
  assumes "index_ok dim e S x" "k \<in> {0 ..< samplesOf x}"
  shows "sm_accepts m x k = Ret (accOf m x k)"
proof -
  have "bh_inv dim e (bi_neighbors x) (bi_head x)" using assms(1) by (simp add: index_ok_def)
  from contains_gone [OF this assms(2)] show ?thesis by (cases "sm_skipDeleted m") (auto simp: sm_accepts_def accOf_def)
qed

section \<open>Offers\<close>

abbreviation toResults :: "(int \<times> 'f) list \<Rightarrow> 'f basicResult list" where
  "toResults os \<equiv> map (\<lambda>(v, d). BasicResult v d) os"

definition sameQuery :: "'f queryResult \<Rightarrow> 'f queryResult \<Rightarrow> bool" where
  "sameQuery qr qr' \<longleftrightarrow> length (qr_results qr') = length (qr_results qr) \<and> qr_target qr' = qr_target qr"

lemma refused:
  assumes "qr_inv qr pts" "qr_worstDist qr = Ret w" "\<not> d \<le> w"
  shows "qr_inv qr (BasicResult v d # pts)"
proof -
  have "qr_AddPoint qr v d = Ret (False, qr)"
    using assms(2,3) by (auto simp: qr_worstDist_def qr_AddPoint_def split: list.splits)
  then show ?thesis using AddPoint_inv [OF assms(1), of v d] by auto
qed

lemma worst_ret: "qr_inv qr pts \<Longrightarrow> \<exists>w. qr_worstDist qr = Ret w"
  by (cases "qr_results qr") (auto simp: qr_inv_def qr_worstDist_def)

lemma duplicates_ok:
  assumes x: "index_ok dim e S x"
  shows "qr_inv qr pts \<Longrightarrow> k \<in> {0 ..< samplesOf x} \<Longrightarrow> \<forall>j \<in> set js. 0 \<le> j \<and> j < int (length (tr_nodes (bi_tree x))) \<Longrightarrow>
    \<forall>j \<in> set (butlast js). centerid (tr_nodes (bi_tree x) ! nat j) \<in> {0 ..< samplesOf x} \<Longrightarrow>
    \<exists>qr' os. sr_duplicates m x d js k qr = Ret qr' \<and> qr_inv qr' (toResults os @ pts) \<and> sameQuery qr qr'
      \<and> (\<forall>(v, d') \<in> set os. d' = d \<and> accOf m x v \<and> v \<in> insert k (set (map (\<lambda>j. centerid (tr_nodes (bi_tree x) ! nat j)) (butlast js))))
      \<and> (js \<noteq> [] \<longrightarrow> accOf m x k \<longrightarrow> (k, d) \<in> set os)"
proof (induction js arbitrary: k qr pts)
  case Nil
  then show ?case by (intro exI [of _ qr] exI [of _ "[]"]) (simp add: sameQuery_def)
next
  case (Cons j js)
  let ?ns = "tr_nodes (bi_tree x)"
  have a: "sm_accepts m x k = Ret (accOf m x k)" by (rule accepts_ok [OF x Cons.prems(2)])
  have v: "vecAt ?ns j = Ret (?ns ! nat j)" using Cons.prems(3) by (simp add: outcome_simps)
  obtain stop q1 os1 where s: "(if accOf m x k then andThen (qr_AddPoint qr k d) (\<lambda>(added, qr'). Ret (sm_checkDup m \<and> \<not> added, qr')) else Ret (False, qr)) = Ret (stop, q1)"
    "qr_inv q1 (toResults os1 @ pts)" "sameQuery qr q1" "os1 = (if accOf m x k then [(k, d)] else [])"
  proof (cases "accOf m x k")
    case True
    obtain b q where "qr_AddPoint qr k d = Ret (b, q)" "qr_inv q (BasicResult k d # pts)" "sameQuery qr q"
      using AddPoint_inv [OF Cons.prems(1), of k d] by (auto simp: sameQuery_def)
    then show ?thesis using that [of "sm_checkDup m \<and> \<not> b" q "[(k, d)]"] True by simp
  next
    case False
    then show ?thesis using that [of False qr "[]"] Cons.prems(1) by (simp add: sameQuery_def)
  qed
  have r: "sr_duplicates m x d (j # js) k qr = (if stop then Ret q1 else sr_duplicates m x d js (centerid (?ns ! nat j)) q1)"
    using a s(1) v by simp
  show ?case
  proof (cases "stop \<or> js = []")
    case True
    then have "sr_duplicates m x d (j # js) k qr = Ret q1" using r by auto
    then show ?thesis using s(2-4) by (intro exI [of _ q1] exI [of _ os1]) auto
  next
    case False
    then have c: "centerid (?ns ! nat j) \<in> {0 ..< samplesOf x}" "\<forall>j \<in> set js. 0 \<le> j \<and> j < int (length ?ns)"
      "\<forall>j \<in> set (butlast js). centerid (?ns ! nat j) \<in> {0 ..< samplesOf x}"
      using Cons.prems(3,4) by simp_all
    from Cons.IH [OF s(2) c] obtain q2 os2 where t: "sr_duplicates m x d js (centerid (?ns ! nat j)) q1 = Ret q2"
      "qr_inv q2 (toResults os2 @ toResults os1 @ pts)" "sameQuery q1 q2"
      "\<forall>(v, d') \<in> set os2. d' = d \<and> accOf m x v \<and> v \<in> insert (centerid (?ns ! nat j)) (set (map (\<lambda>j. centerid (?ns ! nat j)) (butlast js)))"
      by blast
    have "sr_duplicates m x d (j # js) k qr = Ret q2" using r t(1) False by simp
    moreover have "sameQuery qr q2" using s(3) t(3) by (simp add: sameQuery_def)
    moreover have "qr_inv q2 (toResults (os2 @ os1) @ pts)" using t(2) by simp
    moreover have "\<forall>(v, d') \<in> set (os2 @ os1). d' = d \<and> accOf m x v \<and> v \<in> insert k (set (map (\<lambda>j. centerid (?ns ! nat j)) (butlast (j # js))))"
      using t(4) s(4) False by (auto split: if_splits)
    moreover have "accOf m x k \<longrightarrow> (k, d) \<in> set (os2 @ os1)" using s(4) by simp
    ultimately show ?thesis by blast
  qed
qed

text \<open>What is offered for the samples taken: each accepted one, and otherwise only their copies.\<close>

definition offers_ok :: "searchMode \<Rightarrow> 'f bktIndex \<Rightarrow> (int \<Rightarrow> 'f) \<Rightarrow> int list \<Rightarrow> (int \<times> 'f) list \<Rightarrow> bool" where
  "offers_ok m x D taken os \<longleftrightarrow> (\<forall>k \<in> set taken. accOf m x k \<longrightarrow> (k, D k) \<in> set os)
     \<and> (\<forall>(v, d) \<in> set os. accOf m x v \<and> (\<exists>k \<in> set taken. d = D k \<and> v \<in> set (k # copies x k)))
     \<and> ((\<forall>k \<in> set taken. \<not> lastOf x k < - 1) \<longrightarrow> os = map (\<lambda>k. (k, D k)) (filter (accOf m x) taken))"

lemma offers_more:
  assumes o: "offers_ok m x D taken os" and n: "accOf m x k \<longrightarrow> (k, D k) \<in> set new"
    "\<forall>(v, d) \<in> set new. d = D k \<and> accOf m x v \<and> v \<in> set (k # copies x k)"
    "\<not> lastOf x k < - 1 \<Longrightarrow> new = (if accOf m x k then [(k, D k)] else [])"
  shows "offers_ok m x D (k # taken) (new @ os)"
proof -
  have "\<exists>k' \<in> set (k # taken). d = D k' \<and> v \<in> set (k' # copies x k')" if "(v, d) \<in> set (new @ os)" for v d
    using that n(2) o by (fastforce simp: offers_ok_def)
  then show ?thesis using o n unfolding offers_ok_def by (auto split: if_splits)
qed

lemma take_ok:
  assumes x: "index_ok dim e S x" and qr: "qr_inv qr (toResults os @ pad)" and k: "k \<in> {0 ..< samplesOf x}" and o: "offers_ok m x D taken os"
  shows "\<exists>stop qr' os'. sr_take m x (NodeDistPair k (D k)) (rowOf x k) qr ws = Ret (stop, qr')
    \<and> qr_inv qr' (toResults os' @ pad) \<and> sameQuery qr qr' \<and> offers_ok m x D (k # taken) os'"
proof -
  let ?d = "D k" and ?ns = "tr_nodes (bi_tree x)"
  have bh: "bh_inv dim e (bi_neighbors x) (bi_head x)" and nb: "0 < bi_neighbors x" and row: "row_ok (samplesOf x) x k"
    using x k by (simp_all add: index_ok_def)
  obtain w where w: "qr_worstDist qr = Ret w" using worst_ret [OF qr] by blast
  have last: "vecAt (rowOf x k) (int (bi_neighbors x) - 1) = Ret (lastOf x k)"
    using row nb by (simp add: row_ok_def lastOf_def vecAt_def nat_diff_distrib)
  have a: "sm_accepts m x k = Ret (accOf m x k)" by (rule accepts_ok [OF x k])
  let ?new = "if accOf m x k then [(k, ?d)] else []"
  have new: "offers_ok m x D (k # taken) (?new @ os)" by (rule offers_more [OF o]) auto
  show ?thesis
  proof (cases "?d \<le> w")
    case False
    have "qr_inv qr (toResults (?new @ os) @ pad)" using refused [OF qr w False, of k] qr by simp
    moreover obtain stop where "sr_take m x (NodeDistPair k ?d) (rowOf x k) qr ws = Ret (stop, qr)"
      using w False contains_gone [OF bh k] by (cases "sm_skipDeleted m") (auto simp: sr_take_def)
    moreover have "sameQuery qr qr" by (simp add: sameQuery_def)
    ultimately show ?thesis using new by blast
  next
    case near: True
    show ?thesis
    proof (cases "lastOf x k < - 1")
      case False
      show ?thesis
      proof (cases "accOf m x k")
        case True
        obtain b q where q: "qr_AddPoint qr k ?d = Ret (b, q)" "qr_inv q (BasicResult k ?d # toResults os @ pad)" "sameQuery qr q"
          using AddPoint_inv [OF qr, of k ?d] by (auto simp: sameQuery_def)
        have "sr_take m x (NodeDistPair k ?d) (rowOf x k) qr ws = Ret (False, q)"
          using w near last False a True q(1) by (simp add: sr_take_def)
        moreover have "qr_inv q (toResults (?new @ os) @ pad)" using q(2) True by simp
        ultimately show ?thesis using new q(3) by blast
      next
        case acc: False
        have "sr_take m x (NodeDistPair k ?d) (rowOf x k) qr ws = Ret (False, qr)"
          using w near last False a acc by (simp add: sr_take_def)
        moreover have "qr_inv qr (toResults (?new @ os) @ pad)" using qr acc by simp
        moreover have "sameQuery qr qr" by (simp add: sameQuery_def)
        ultimately show ?thesis using new by blast
      qed
    next
      case True
      let ?t = "?ns ! nat (- 2 - lastOf x k)"
      let ?js = "[- childStart ?t .. max (- childStart ?t) (childEnd ?t)]"
      have t: "- 2 - lastOf x k < int (length ?ns)" "0 \<le> - childStart ?t" "- childStart ?t \<le> childEnd ?t" "childEnd ?t < int (length ?ns)"
        "\<forall>j. - childStart ?t \<le> j \<longrightarrow> j < childEnd ?t \<longrightarrow> centerid (?ns ! nat j) \<in> {0 ..< samplesOf x}"
        using row True by (simp_all add: row_ok_def Let_def)
      have js: "?js = [- childStart ?t .. childEnd ?t - 1] @ [childEnd ?t]" using t(3) by (simp add: upto_rec2 max_def)
      have c: "set (map (\<lambda>j. centerid (?ns ! nat j)) (butlast ?js)) = set (copies x k)"
        unfolding js using True by (simp add: copies_def Let_def)
      have p: "\<forall>j \<in> set ?js. 0 \<le> j \<and> j < int (length ?ns)" "\<forall>j \<in> set (butlast ?js). centerid (?ns ! nat j) \<in> {0 ..< samplesOf x}"
        using t unfolding js by auto
      from duplicates_ok [OF x qr k p, of m ?d] obtain q new' where q: "sr_duplicates m x ?d ?js k qr = Ret q"
        "qr_inv q (toResults new' @ toResults os @ pad)" "sameQuery qr q"
        "\<forall>(v, d') \<in> set new'. d' = ?d \<and> accOf m x v \<and> v \<in> insert k (set (map (\<lambda>j. centerid (?ns ! nat j)) (butlast ?js)))"
        "?js \<noteq> [] \<longrightarrow> accOf m x k \<longrightarrow> (k, ?d) \<in> set new'" by blast
      have v: "vecAt ?ns (- 2 - lastOf x k) = Ret ?t" using t(1) True by (simp add: outcome_simps)
      have "sr_take m x (NodeDistPair k ?d) (rowOf x k) qr ws = Ret (False, q)"
        using w near last True v q(1) by (simp add: sr_take_def Let_def)
      moreover have "offers_ok m x D (k # taken) (new' @ os)"
      proof (rule offers_more [OF o])
        show "accOf m x k \<longrightarrow> (k, ?d) \<in> set new'" using q(5) js by simp
        show "\<forall>(v, d) \<in> set new'. d = ?d \<and> accOf m x v \<and> v \<in> set (k # copies x k)" using q(4) unfolding c by auto
      qed (use True in simp)
      moreover have "qr_inv q (toResults (new' @ os) @ pad)" using q(2) by simp
      ultimately show ?thesis using q(3) by blast
    qed
  qed
qed

section \<open>The loop\<close>

text \<open>The queue of distances, with its memory.\<close>

definition queue_ok :: "'f :: linorder \<Rightarrow> 'f distQueue \<Rightarrow> bool" where
  "queue_ok m q \<longleftrightarrow> (\<exists>ds. dq_inv m q ds) \<and> 0 < dq_size q \<and> dq_size q \<le> length (dq_data q)"

lemma length_siftUp [simp]: "length (siftUp less' v i xs) = length xs"
proof (induction less' v i xs rule: siftUp.induct)
  case (1 less' v i xs)
  show ?case by (subst siftUp.simps) (use 1 in \<open>auto simp: Let_def\<close>)
qed

lemma length_siftLoop: "length (fst (siftLoop less' m p n xs)) = length xs"
proof (induction less' m p n xs rule: siftLoop.induct)
  case (1 less' m p n xs)
  show ?case by (subst siftLoop.simps) (use 1 in \<open>auto simp: Let_def\<close>)
qed

lemma length_siftDown [simp]: "length (siftDown less' n xs) = length xs"
  using length_siftLoop [of less' "n - 1" 0 1 xs] by (auto simp: siftDown_def Let_def split: prod.splits)

lemma queue_ok_insert:
  assumes "queue_ok m q" "d \<le> m"
  shows "\<exists>b q'. dq_insert q d = Ret (b, q') \<and> queue_ok m q'"
proof -
  obtain ds where ds: "dq_inv m q ds" using assms(1) by (auto simp: queue_ok_def)
  obtain b q' where q: "dq_insert q d = Ret (b, q')" "dq_inv m q' (d # ds)" using dq_insert_inv [OF ds assms(2)] by blast
  have "dq_size q' = dq_size q" "length (dq_data q') = length (dq_data q)"
    using q(1) by (auto simp: dq_insert_def split: if_splits)
  then show ?thesis using q assms(1) by (auto simp: queue_ok_def)
qed

lemma neighbours_ok:
  assumes sp: "search_space R ps D dist maxDist ns S"
  shows "ws_ok R ps D ns S P V ws \<Longrightarrow> queue_ok maxDist (ws_results ws) \<Longrightarrow> \<forall>n \<in> set row. n < R \<Longrightarrow>
    \<exists>ws' V'. sr_neighbours (Suc depth) dist row ws = Ret ws' \<and> ws_ok R ps D ns S P V' ws' \<and> V \<subseteq> V'
      \<and> ws_SPT ws' = ws_SPT ws \<and> queue_ok maxDist (ws_results ws')"
proof (induction row arbitrary: V ws)
  case Nil
  then show ?case by auto
next
  case (Cons n row)
  show ?case
  proof (cases "n < 0")
    case True
    then show ?thesis using Cons.prems by auto
  next
    case False
    then have n: "n \<in> {0 ..< R}" using Cons.prems(3) by simp
    have D: "dist n = Ret (D n)" "D n \<le> maxDist" using sp n by (simp_all add: search_space_def)
    obtain h where h: "ws_CheckAndSet (Suc depth) n ws = Ret (n \<in> V, ws\<lparr>ws_check := h\<rparr>)" "ws_ok R ps D ns S P (insert n V) (ws\<lparr>ws_check := h\<rparr>)"
      using CheckAndSet_ok [OF sp Cons.prems(1) n, of depth] by blast
    obtain b q where q: "dq_insert (ws_results ws) (D n) = Ret (b, q)" "queue_ok maxDist q"
      using queue_ok_insert [OF Cons.prems(2) D(2)] by blast
    let ?w = "ws\<lparr>ws_check := h\<rparr>"
    let ?w2 = "?w\<lparr>ws_leaves := ws_leaves ws + 1, ws_results := q\<rparr>"
    let ?w3 = "if b then ?w2\<lparr>ws_NG := hp_insert (ws_NG ?w2) (NodeDistPair n (D n))\<rparr> else ?w2"
    obtain w' where w': "sr_neighbours (Suc depth) dist (n # row) ws = sr_neighbours (Suc depth) dist row w'"
      "ws_ok R ps D ns S P (insert n V) w'" "ws_SPT w' = ws_SPT ws" "queue_ok maxDist (ws_results w')"
    proof (cases "n \<in> V")
      case True
      show ?thesis
        by (rule that [of ?w]) (use True False h Cons.prems(2) in simp_all)
    next
      case new: False
      have o: "ws_ok R ps D ns S P (insert n V) ?w2" using h(2) by (simp add: ws_ok_def)
      have "ws_ok R ps D ns S P (insert n V) (?w2\<lparr>ws_NG := hp_insert (ws_NG ?w2) (NodeDistPair n (D n))\<rparr>)"
        by (rule insert_NG [OF Cons.prems(1) new o]) simp_all
      then have "ws_ok R ps D ns S P (insert n V) ?w3" using o by simp
      moreover have "sr_neighbours (Suc depth) dist (n # row) ws = sr_neighbours (Suc depth) dist row ?w3"
        using False h(1) new D(1) q(1) by (simp add: Let_def)
      ultimately show ?thesis using that [of ?w3] q(2) by simp
    qed
    have "\<forall>n \<in> set row. n < R" using Cons.prems(3) by simp
    from Cons.IH [OF w'(2,4) this] show ?thesis using w'(1,3) by auto
  qed
qed

lemma taken_bound: "distinct taken \<Longrightarrow> set taken \<subseteq> {0 ..< R} \<Longrightarrow> length taken \<le> nat (R :: int)"
  using card_mono [of "{0 ..< R}" "set taken"] by (simp add: distinct_card)

lemma graph_loop_ok:
  fixes ws :: "'f :: linorder workSpace" and target :: bytes and x :: "'f bktIndex"
  assumes x: "index_ok dim e S x" and fits: "oh_fits (samplesOf x) ps"
  defines "D \<equiv> bi_D x target" and "dist \<equiv> bi_dist x target" and "ns \<equiv> tr_nodes (bi_tree x)" and "R \<equiv> samplesOf x"
  shows "ws_ok R ps D ns S (set taken) V ws \<Longrightarrow> queue_ok (bi_maxDist x) (ws_results ws) \<Longrightarrow> qr_inv qr (toResults os @ pad) \<Longrightarrow>
    offers_ok m x D taken os \<Longrightarrow> distinct taken \<Longrightarrow> spWork ns ws < fuel \<Longrightarrow> nat R < n + length taken \<Longrightarrow>
    \<exists>qr' ws' taken' os' V'. sr_loop n fuel (Suc depth) m x dist qr ws = Ret (qr', ws') \<and> qr_inv qr' (toResults os' @ pad) \<and> sameQuery qr qr'
      \<and> offers_ok m x D taken' os' \<and> distinct taken' \<and> set taken' \<subseteq> {0 ..< R} \<and> ws_ok R ps D ns S (set taken') V' ws'
      \<and> queue_ok (bi_maxDist x) (ws_results ws')"
proof (induction n arbitrary: taken V ws qr os)
  case 0
  have "set taken \<subseteq> {0 ..< R}" using "0.prems"(1) by (auto simp: ws_ok_def)
  then show ?case using taken_bound [OF "0.prems"(5)] "0.prems"(7) by (metis add_0 not_le)
next
  case (Suc n)
  have sp: "search_space R ps D dist (bi_maxDist x) ns S" using index_space [OF x fits] by (simp add: D_def dist_def ns_def R_def)
  have inv: "hp_inv (ws_NG ws)" and sub: "set taken \<subseteq> {0 ..< R}" using Suc.prems(1) by (auto simp: ws_ok_def)
  show ?case
  proof (cases rule: hp_pop_cases [OF inv])
    case 1
    then have "sr_loop (Suc n) fuel (Suc depth) m x dist qr ws = Ret (qr, ws)" by simp
    moreover have "sameQuery qr qr" by (simp add: sameQuery_def)
    ultimately show ?thesis using Suc.prems sub by blast
  next
    case (2 g q)
    let ?w = "ws\<lparr>ws_NG := q\<rparr>"
    define k where "k = ndNode g"
    have k: "k \<in> V" "k \<notin> set taken" "k \<in> {0 ..< R}" "g = NodeDistPair k (D k)"
      using Suc.prems(1) 2(3) by (cases g; force simp: ws_ok_def k_def)+
    have NGs: "\<forall>y \<in># hp_nodes q. ndNode y \<in> V - set taken \<and> ndDist y = D (ndNode y)"
      and cnt: "\<forall>j. Multiset.count (image_mset ndNode (add_mset g (hp_nodes q))) j \<le> 1"
      using Suc.prems(1) 2(3) by (simp_all add: ws_ok_def)
    have "Multiset.count (image_mset ndNode (hp_nodes q)) k = 0" using cnt [rule_format, of k] by (simp add: k_def)
    then have kq: "\<forall>y \<in># hp_nodes q. ndNode y \<noteq> k" by (auto simp: count_eq_zero_iff)
    have cq: "Multiset.count (image_mset ndNode (hp_nodes q)) j \<le> 1" for j using cnt [rule_format, of j] by (auto split: if_splits)
    have w: "ws_ok R ps D ns S (set (k # taken)) V ?w"
      using Suc.prems(1) 2(2) NGs kq k cq by (auto simp: ws_ok_def)
    have row: "row_ok R x k" using x k(3) by (simp add: index_ok_def R_def)
    then have rr: "bi_row x k = Ret (rowOf x k)" "\<forall>n \<in> set (rowOf x k). n < R" "take (bi_neighbors x) (rowOf x k) = rowOf x k"
      by (simp_all add: row_ok_def)
    obtain stop q1 os1 where t: "sr_take m x g (rowOf x k) qr ?w = Ret (stop, q1)" "qr_inv q1 (toResults os1 @ pad)" "sameQuery qr q1"
      "offers_ok m x D (k # taken) os1"
      using take_ok [OF x Suc.prems(3) k(3) [unfolded R_def] Suc.prems(4), of ?w] unfolding k(4) by blast
    have d: "distinct (k # taken)" "set (k # taken) \<subseteq> {0 ..< R}" using Suc.prems(5) k sub by auto
    show ?thesis
    proof (cases stop)
      case True
      then have "sr_loop (Suc n) fuel (Suc depth) m x dist qr ws = Ret (q1, ?w)" using 2(1) rr t(1) by (simp add: k_def Let_def)
      moreover have "queue_ok (bi_maxDist x) (ws_results ?w)" using Suc.prems(2) by simp
      ultimately show ?thesis using t(2-4) d w by blast
    next
      case False
      have "queue_ok (bi_maxDist x) (ws_results ?w)" using Suc.prems(2) by simp
      from neighbours_ok [OF sp w this rr(2), of depth] obtain w2 V2 where
        nb: "sr_neighbours (Suc depth) dist (rowOf x k) ?w = Ret w2" "ws_ok R ps D ns S (set (k # taken)) V2 w2"
        "ws_SPT w2 = ws_SPT ?w" "queue_ok (bi_maxDist x) (ws_results w2)" by blast
      have f2: "spWork ns w2 < fuel" using nb(3) Suc.prems(6) by simp
      obtain w3 V3 where s: "(if ndDist (hp_Top (ws_NG w2)) > ndDist (hp_Top (ws_SPT w2))
          then SearchTrees fuel (Suc depth) ns dist (bi_otherPivots x + ws_leaves w2) w2 else Ret w2) = Ret w3"
        "ws_ok R ps D ns S (set (k # taken)) V3 w3" "spWork ns w3 \<le> spWork ns w2" "ws_results w3 = ws_results w2"
        using SearchTrees_ok [OF sp nb(2) f2, of depth "bi_otherPivots x + ws_leaves w2"] nb(2)
        by (cases "ndDist (hp_Top (ws_NG w2)) > ndDist (hp_Top (ws_SPT w2))") auto
      have r: "sr_loop (Suc n) fuel (Suc depth) m x dist qr ws = sr_loop n fuel (Suc depth) m x dist q1 w3"
        using 2(1) rr t(1) False nb(1) s(1) [unfolded ns_def] by (auto simp: k_def Let_def split: if_splits)
      have "queue_ok (bi_maxDist x) (ws_results w3)" "spWork ns w3 < fuel" "nat R < n + length (k # taken)"
        using nb(4) s(3,4) f2 Suc.prems(7) by simp_all
      from Suc.IH [OF s(2) this(1) t(2,4) d(1) this(2,3)] obtain qr' ws' taken' os' V' where
        l: "sr_loop n fuel (Suc depth) m x dist q1 w3 = Ret (qr', ws')" "qr_inv qr' (toResults os' @ pad)" "sameQuery q1 qr'"
        "offers_ok m x D taken' os'" "distinct taken'" "set taken' \<subseteq> {0 ..< R}" "ws_ok R ps D ns S (set taken') V' ws'"
        "queue_ok (bi_maxDist x) (ws_results ws')" by blast
      have "sameQuery qr qr'" using t(3) l(3) by (simp add: sameQuery_def)
      then show ?thesis using r l by metis
    qed
  qed
qed

section \<open>The search\<close>

definition workspace_ok :: "int \<Rightarrow> 'f :: linorder workSpace \<Rightarrow> bool" where
  "workspace_ok R ws \<longleftrightarrow> oh_inv (ws_check ws) \<and> oh_sparse (ws_check ws) \<and> oh_fits R (oh_poolSize (ws_check ws))
     \<and> hp_inv (ws_NG ws) \<and> hp_inv (ws_SPT ws) \<and> 0 < dq_size (ws_results ws) \<and> dq_size (ws_results ws) \<le> length (dq_data (ws_results ws))"

lemma clear_sparse: "oh_inv h \<Longrightarrow> oh_clear h = Ret h' \<Longrightarrow> oh_abs h' = {} \<Longrightarrow> oh_sparse h'"
proof -
  assume "oh_abs h' = {}"
  then have "\<forall>c \<in> set (oh_table h'). c = 0" by (auto simp: oh_abs_def tbl_set_def)
  then have "filter (\<lambda>c. c \<noteq> 0) (oh_table h') = []" by (simp add: filter_empty_conv)
  then show "oh_sparse h'" by (simp add: oh_sparse_def)
qed

lemma Reset_ok:
  assumes ws: "workspace_ok R ws" and k: "0 < k"
  shows "\<exists>ws'. ws_Reset m fill mc k ws = Ret ws' \<and> ws_ok R (oh_poolSize (ws_check ws)) D ns S {} {} ws' \<and> queue_ok m (ws_results ws')
    \<and> spWork ns ws' = 0"
proof -
  have w: "oh_inv (ws_check ws)" "hp_inv (ws_NG ws)" "hp_inv (ws_SPT ws)" "0 < dq_size (ws_results ws)"
    "dq_size (ws_results ws) \<le> length (dq_data (ws_results ws))" using ws by (simp_all add: workspace_ok_def)
  obtain h where h: "oh_clear (ws_check ws) = Ret h" "oh_inv h" "oh_abs h = {}" "oh_poolSize h = oh_poolSize (ws_check ws)"
    using clear_ok [OF w(1)] by blast
  have sp: "oh_sparse h" by (rule clear_sparse [OF w(1) h(1,3)])
  let ?c = "max (mc div 16) k" and ?q = "ws_results ws"
  let ?q1 = "if ?c > dq_size ?q then ?q\<lparr>dq_size := ?c, dq_data := replicate ?c fill\<rparr> else ?q"
  let ?q2 = "\<lparr>dq_size = dq_size ?q1, dq_data = (dq_data ?q1)[0 := m], dq_length = 1, dq_count = ?c\<rparr>"
  have c: "0 < ?c" "?c \<le> length (dq_data ?q1)" "dq_size ?q1 \<le> length (dq_data ?q1)" "0 < dq_size ?q1" using k w(4,5) by auto
  have e: "?q1\<lparr>dq_data := (dq_data ?q1)[0 := m], dq_length := 1, dq_count := ?c\<rparr> = ?q2" by (cases ?q1) simp
  have "dq_data ?q1 \<noteq> []" using c(1,2) by (metis le_zero_eq length_0_conv not_gr_zero)
  then have q: "dq_clear m fill ?c ?q = Ret ?q2" unfolding dq_clear_def Let_def e by simp
  have qo: "queue_ok m ?q2" using dq_inv_start [OF c(1,2), of m "dq_size ?q1"] c(3,4) by (auto simp: queue_ok_def)
  let ?w = "ws\<lparr>ws_check := h, ws_SPT := hp_clear (ws_SPT ws), ws_NG := hp_clear (ws_NG ws), ws_results := ?q2,
             ws_noBetter := 0, ws_treeLeaves := 0, ws_leaves := 0, ws_maxCheck := mc\<rparr>"
  have "ws_Reset m fill mc k ws = Ret ?w" by (simp only: ws_Reset_def h(1) q andThen.simps)
  moreover have "ws_ok R (oh_poolSize (ws_check ws)) D ns S {} {} ?w"
    using h sp hp_clear_inv [OF w(2)] hp_clear_inv [OF w(3)] by (simp add: ws_ok_def nodes_ok_def)
  moreover have "spWork ns ?w = 0" using hp_clear_inv [OF w(3)] by simp
  ultimately show ?thesis using qo by (intro exI [of _ ?w]) simp
qed

text \<open>What a search answers: the best of the samples it took, copies included.\<close>

definition found :: "searchMode \<Rightarrow> 'f :: linorder bktIndex \<Rightarrow> 'f queryResult \<Rightarrow> 'f queryResult \<Rightarrow> bool" where
  "found m x qr qr' \<longleftrightarrow> qr_target qr' = qr_target qr \<and> (\<exists>taken os. distinct taken \<and> set taken \<subseteq> {0 ..< samplesOf x}
     \<and> offers_ok m x (bi_D x (qr_target qr)) taken os
     \<and> qr_results qr' = take (length (qr_results qr)) (sort (toResults os @ replicate (length (qr_results qr)) (BasicResult (- 1) (bi_maxDist x)))))"

lemma sorted_results:
  assumes "qr_inv qr (toResults os @ pad)"
  shows "qr_results (qr_SortResult qr) = take (length (qr_results qr)) (sort (toResults os @ pad))"
proof -
  have "mset (qr_results qr) = mset (take (length (qr_results qr)) (sort (toResults os @ pad)))"
    using assms by (simp add: qr_inv_def smallest_def)
  then have "sort (qr_results qr) = take (length (qr_results qr)) (sort (toResults os @ pad))"
    by (intro properties_for_sort) (simp_all add: sorted_wrt_take)
  then show ?thesis using SortResult_sort [of qr] assms by (simp add: qr_inv_def)
qed

lemma Search_ok:
  fixes ws :: "'f :: linorder workSpace"
  assumes x: "index_ok dim e S x" and fits: "oh_fits (samplesOf x) ps"
    and ws: "ws_ok (samplesOf x) ps (bi_D x t) (tr_nodes (bi_tree x)) S {} {} ws" "queue_ok (bi_maxDist x) (ws_results ws)"
      "spWork (tr_nodes (bi_tree x)) ws = 0"
    and k: "0 < k" and fuel: "treeWork (bi_tree x) < fuel" "nat (samplesOf x) < fuel"
  shows "\<exists>qr' ws'. bi_Search fuel (Suc depth) m x (qr_Init t k (bi_maxDist x)) ws = Ret (qr', ws')
    \<and> found m x (qr_Init t k (bi_maxDist x)) qr' \<and> workspace_ok (samplesOf x) ws'"
proof -
  let ?R = "samplesOf x" and ?D = "bi_D x t" and ?ns = "tr_nodes (bi_tree x)" and ?q = "qr_Init t k (bi_maxDist x)"
  note sp = index_space [OF x fits, of t]
  have tr: "trees_ok S (bi_tree x)" using x by (simp add: index_ok_def)
  obtain w1 V1 where a: "InitSearchTrees (Suc depth) (bi_maxDist x) (bi_scale x) (bi_big x) (bi_tree x) (bi_dist x t) ws = Ret w1"
    "ws_ok ?R ps ?D ?ns S {} V1 w1" "spWork ?ns w1 \<le> treeWork (bi_tree x) + spWork ?ns ws" "ws_results w1 = ws_results ws"
    using InitSearchTrees_ok [OF sp tr ws(1), of depth "bi_maxDist x" "bi_scale x" "bi_big x"] by blast
  have f1: "spWork ?ns w1 < fuel" using a(3) ws(3) fuel(1) by simp
  obtain w2 V2 where b: "SearchTrees fuel (Suc depth) ?ns (bi_dist x t) (bi_initialPivots x) w1 = Ret w2"
    "ws_ok ?R ps ?D ?ns S {} V2 w2" "spWork ?ns w2 \<le> spWork ?ns w1" "ws_results w2 = ws_results w1"
    using SearchTrees_ok [OF sp a(2) f1, of depth "bi_initialPivots x"] by blast
  let ?pad = "replicate k (BasicResult (- 1) (bi_maxDist x))"
  have c: "ws_ok ?R ps ?D ?ns S (set []) V2 w2" "queue_ok (bi_maxDist x) (ws_results w2)" "qr_inv ?q (toResults [] @ ?pad)"
    "offers_ok m x ?D [] []" "distinct ([] :: int list)" "spWork ?ns w2 < fuel" "nat ?R < fuel + length ([] :: int list)"
    using a(4) b f1 ws(2) fuel(2) qr_inv_Init [OF k, of t "bi_maxDist x"] by (simp_all add: offers_ok_def)
  from graph_loop_ok [OF x fits c, of depth] obtain q' w' taken os V' where
    l: "sr_loop fuel fuel (Suc depth) m x (bi_dist x t) ?q w2 = Ret (q', w')" "qr_inv q' (toResults os @ ?pad)" "sameQuery ?q q'"
    "offers_ok m x ?D taken os" "distinct taken" "set taken \<subseteq> {0 ..< ?R}" "ws_ok ?R ps ?D ?ns S (set taken) V' w'"
    "queue_ok (bi_maxDist x) (ws_results w')" by blast
  have "bi_Search fuel (Suc depth) m x ?q ws = Ret (qr_SortResult q', w')"
    using a(1) b(1) l(1) by (simp add: bi_Search_def qr_Init_def Let_def)
  moreover have "found m x ?q (qr_SortResult q')"
    unfolding found_def using sorted_results [OF l(2)] l(3-6)
    by (auto simp: sameQuery_def qr_Init_def qr_SortResult_def)
  moreover have "workspace_ok ?R w'" using l(7,8) fits by (auto simp: workspace_ok_def ws_ok_def queue_ok_def)
  ultimately show ?thesis by blast
qed

text \<open>The thread's workspace: a good one, or none yet and parameters from which a good one is made.\<close>

definition thread_ok :: "(nat \<Rightarrow> cell list) \<Rightarrow> 'f :: linorder bktIndex \<Rightarrow> 'f workSpace option \<Rightarrow> bool" where
  "thread_ok fresh x w \<longleftrightarrow> (case w of
     Some ws \<Rightarrow> workspace_ok (samplesOf x) ws
   | None \<Rightarrow> (let mc = max (bi_maxCheck x) (bi_maxCheckForRefineGraph x); n = 2 ^ (oh_bits mc + bi_hashExp x)
              in 16 \<le> mc \<and> length (fresh (n * 2)) = n * 2 \<and> oh_fits (samplesOf x) (n - 1)))"

lemma workspace_made:
  assumes t: "thread_ok fresh x w" and k: "0 < k"
  shows "\<exists>ws ps. bi_workspace fresh fill mc k x w = Ret ws \<and> oh_fits (samplesOf x) ps
    \<and> ws_ok (samplesOf x) ps D ns S {} {} ws \<and> queue_ok (bi_maxDist x) (ws_results ws) \<and> spWork ns ws = 0"
proof -
  obtain ws where ws: "(case w of None \<Rightarrow> ws_Initialize fresh (bi_maxDist x) fill (max (bi_maxCheck x) (bi_maxCheckForRefineGraph x)) (bi_hashExp x) (ws_new (bi_maxDist x))
      | Some ws \<Rightarrow> Ret ws) = Ret ws" "workspace_ok (samplesOf x) ws"
  proof (cases w)
    case (Some ws)
    then show ?thesis using that t by (simp add: thread_ok_def)
  next
    case None
    let ?mc = "max (bi_maxCheck x) (bi_maxCheckForRefineGraph x)"
    let ?n = "2 ^ (oh_bits ?mc + bi_hashExp x) :: nat"
    let ?dflt = "noPair (bi_maxDist x)"
    have n: "16 \<le> ?mc" "length (fresh (?n * 2)) = ?n * 2" "oh_fits (samplesOf x) (?n - 1)"
      using t None by (simp_all add: thread_ok_def Let_def)
    obtain h where h: "oh_Init fresh ?mc (bi_hashExp x) oh_new = Ret h" "oh_inv h" "oh_abs h = {}" "oh_poolSize h + 1 = ?n"
      using Init_ok [of fresh ?mc "bi_hashExp x" oh_new, OF n(2)] by blast
    have "\<forall>c \<in> set (oh_table h). c = 0" using h(3) by (auto simp: oh_abs_def tbl_set_def)
    then have sp: "oh_sparse h" by (simp add: oh_sparse_def filter_empty_conv [THEN iffD2])
    have ps: "oh_poolSize h = ?n - 1" using h(4) by linarith
    have c: "0 < ?mc div 16" using n(1) by simp
    then have q: "dq_Resize (bi_maxDist x) fill (?mc div 16)
        = Ret \<lparr>dq_size = ?mc div 16, dq_data = (replicate (?mc div 16) fill)[0 := bi_maxDist x], dq_length = 1, dq_count = ?mc div 16\<rparr>"
      by (simp add: dq_Resize_def)
    have "ws_check (ws_new (bi_maxDist x)) = oh_new" by (simp add: ws_new_def Let_def)
    then show ?thesis using that None h(1,2) q c sp n(3) ps hp_inv_Resize(1) [of "?mc * 30" ?dflt] hp_inv_Resize(1) [of "?mc * 10" ?dflt]
      by (simp add: ws_Initialize_def workspace_ok_def)
  qed
  from Reset_ok [OF ws(2) k, of "bi_maxDist x" fill mc D ns S] obtain ws' where
    "ws_Reset (bi_maxDist x) fill mc k ws = Ret ws'" "ws_ok (samplesOf x) (oh_poolSize (ws_check ws)) D ns S {} {} ws'"
    "queue_ok (bi_maxDist x) (ws_results ws')" "spWork ns ws' = 0" by blast
  moreover have "oh_fits (samplesOf x) (oh_poolSize (ws_check ws))" using ws(2) by (simp add: workspace_ok_def)
  ultimately show ?thesis using ws(1) by (auto simp: bi_workspace_def)
qed

abbreviation modeOf :: "'f bktIndex \<Rightarrow> bool \<Rightarrow> bool \<Rightarrow> searchMode" where
  "modeOf x searchDeleted dup \<equiv>
     \<lparr>sm_skipDeleted = (bh_GetNumDeleted (bi_head x) \<noteq> 0 \<and> \<not> searchDeleted), sm_checkDup = dup, sm_filter = None\<rparr>"

lemma SearchWith_made:
  assumes x: "index_ok dim e S x" and w: "thread_ok fresh x w" and k: "0 < k"
    and fuel: "treeWork (bi_tree x) < fuel" "nat (samplesOf x) < fuel"
  shows "\<exists>qr' ws'. andThen (bi_workspace fresh fill mc k x w) (\<lambda>ws.
      andThen (bi_SearchWith fuel (Suc depth) searchDeleted dup None x (qr_Init t k (bi_maxDist x)) ws) (\<lambda>(qr', ws'). Ret (Success, qr', Some ws')))
      = Ret (Success, qr', Some ws')
    \<and> found (modeOf x searchDeleted dup) x (qr_Init t k (bi_maxDist x)) qr' \<and> thread_ok fresh x (Some ws')"
proof -
  obtain ws ps where ws: "bi_workspace fresh fill mc k x w = Ret ws" "oh_fits (samplesOf x) ps"
    "ws_ok (samplesOf x) ps (bi_D x t) (tr_nodes (bi_tree x)) S {} {} ws" "queue_ok (bi_maxDist x) (ws_results ws)"
    "spWork (tr_nodes (bi_tree x)) ws = 0"
    using workspace_made [OF w k] by blast
  from Search_ok [OF x ws(2-5) k fuel, of depth "modeOf x searchDeleted dup"] ws(1) show ?thesis
    by (auto simp: bi_SearchWith_def thread_ok_def)
qed

end
