(* ===== verification/GraphRefine.thy ===== *)
theory GraphRefine
  imports GraphSearch
begin

text \<open>
  Linking a head into the neighbour graph: \<open>RebuildNeighbors\<close> and \<open>InsertNeighbors\<close> of \<open>RelativeNeighborhoodGraph\<close>
  (AnnService/inc/Core/Common/RelativeNeighborhoodGraph.h), \<open>RefineNode\<close> of \<open>NeighborhoodGraph\<close>
  (inc/Core/Common/NeighborhoodGraph.h) and \<open>AddIndexIdx\<close> of \<open>BKT::Index\<close> (src/Core/BKT/BKTIndex.cpp), which searches with
  \<open>RefineSearchIndex\<close>. A row of the graph is a list of ids; prefetches and the locks of the rows are not state.
\<close>

section \<open>Rows\<close>

definition bi_ComputeDistance :: "'f bktIndex \<Rightarrow> int \<Rightarrow> int \<Rightarrow> 'f outcome" where
  "bi_ComputeDistance x a b =
     andThen (bh_GetSample (bi_head x) a) (\<lambda>u. andThen (bh_GetSample (bi_head x) b) (\<lambda>v. Ret (bi_distance x u v)))"

definition bi_setRow :: "'f bktIndex \<Rightarrow> int \<Rightarrow> int list \<Rightarrow> 'f bktIndex outcome" where
  "bi_setRow x node row =
     andThen (deref (ds_write (bh_graph (bi_head x)) node (concat (map (enc_int 4) row)))) (\<lambda>g.
       Ret (x\<lparr>bi_head := (bi_head x)\<lparr>bh_graph := g\<rparr>\<rparr>))"

section \<open>RebuildNeighbors\<close>

text \<open>A result is good unless a neighbour selected before is nearer to it, by the factor, than the node.\<close>

fun rb_good :: "'f :: linorder bktIndex \<Rightarrow> int list \<Rightarrow> 'f basicResult \<Rightarrow> bool outcome" where
  "rb_good x [] item = Ret True"
| "rb_good x (s # sel) item =
     andThen (bi_ComputeDistance x s (VID item)) (\<lambda>d. if bi_rng x d < Dist item then Ret False else rb_good x sel item)"

fun rb_select :: "'f :: linorder bktIndex \<Rightarrow> int \<Rightarrow> 'f basicResult list \<Rightarrow> int list \<Rightarrow> int list outcome" where
  "rb_select x node [] sel = Ret sel"
| "rb_select x node (item # rs) sel =
     (if \<not> length sel < bi_neighbors x then Ret sel
      else if VID item < 0 then Ret sel
      else if VID item = node then rb_select x node rs sel
      else andThen (rb_good x sel item) (\<lambda>good. rb_select x node rs (if good then sel @ [VID item] else sel)))"

definition RebuildNeighbors :: "'f :: linorder bktIndex \<Rightarrow> int \<Rightarrow> int list \<Rightarrow> 'f basicResult list \<Rightarrow> int list outcome" where
  "RebuildNeighbors x node row results =
     andThen (rb_select x node results []) (\<lambda>sel.
       Ret (sel @ replicate (bi_neighbors x - length sel) (- 1) @ drop (bi_neighbors x) row))"

section \<open>InsertNeighbors\<close>

text \<open>The neighbour that lost its place goes to the next one, unless it is nearer to the inserted node than to its own.\<close>

fun in_shift :: "'f :: linorder bktIndex \<Rightarrow> int \<Rightarrow> int \<Rightarrow> nat list \<Rightarrow> int \<Rightarrow> int list \<Rightarrow> int list outcome" where
  "in_shift x node insertNode [] tmpNode row = Ret row"
| "in_shift x node insertNode (k # ks) tmpNode row =
     andThen (bi_ComputeDistance x tmpNode node) (\<lambda>a.
     andThen (bi_ComputeDistance x tmpNode insertNode) (\<lambda>b.
     if a \<le> b
     then andThen (vecAt row (int k)) (\<lambda>t.
          let row' = row[k := tmpNode] in if t < 0 then Ret row' else in_shift x node insertNode ks t row')
     else Ret row))"

fun in_walk :: "'f :: linorder bktIndex \<Rightarrow> int \<Rightarrow> int \<Rightarrow> 'f \<Rightarrow> nat list \<Rightarrow> int list \<Rightarrow> int list outcome" where
  "in_walk x node insertNode insertDist [] row = Ret row"
| "in_walk x node insertNode insertDist (k # ks) row =
     andThen (vecAt row (int k)) (\<lambda>tmpNode.
     if tmpNode < 0 then Ret (row[k := insertNode])
     else andThen (bi_ComputeDistance x tmpNode node) (\<lambda>tmpDist.
          if tmpDist > insertDist \<or> (insertDist = tmpDist \<and> insertNode < tmpNode)
          then in_shift x node insertNode ks tmpNode (row[k := insertNode])
          else andThen (bi_ComputeDistance x tmpNode insertNode) (\<lambda>d.
               if d < insertDist then Ret row else in_walk x node insertNode insertDist ks row)))"

text \<open>The last entry is left alone when it names a node of the trees.\<close>

definition InsertNeighbors :: "'f :: linorder bktIndex \<Rightarrow> int \<Rightarrow> int \<Rightarrow> 'f \<Rightarrow> 'f bktIndex outcome" where
  "InsertNeighbors x node insertNode insertDist =
     andThen (bi_row x node) (\<lambda>row.
     andThen (bh_GetSample (bi_head x) node) (\<lambda>_.
     andThen (bh_GetSample (bi_head x) insertNode) (\<lambda>_.
     andThen (vecAt row (int (bi_neighbors x) - 1)) (\<lambda>l.
     let checkNeighborhoodSize = (if l < - 1 then bi_neighbors x - 1 else bi_neighbors x)
     in andThen (in_walk x node insertNode insertDist [0 ..< checkNeighborhoodSize] row) (bi_setRow x node)))))"

section \<open>RefineNode and AddIndexIdx\<close>

fun rf_update :: "int \<Rightarrow> 'f :: linorder basicResult list \<Rightarrow> 'f bktIndex \<Rightarrow> 'f bktIndex outcome" where
  "rf_update node [] x = Ret x"
| "rf_update node (item # rs) x =
     (if VID item < 0 then Ret x
      else if VID item = node then rf_update node rs x
      else andThen (InsertNeighbors x (VID item) node (Dist item)) (rf_update node rs))"

definition RefineNode ::
  "nat \<Rightarrow> nat \<Rightarrow> (nat \<Rightarrow> cell list) \<Rightarrow> 'f \<Rightarrow> int \<Rightarrow> bool \<Rightarrow> bool \<Rightarrow> nat \<Rightarrow> 'f :: linorder bktIndex \<times> 'f workSpace option
     \<Rightarrow> ('f bktIndex \<times> 'f workSpace option) outcome" where
  "RefineNode fuel depth fresh fill node updateNeighbors searchDeleted CEF = (\<lambda>(x, w).
     andThen (bh_GetSample (bi_head x) node) (\<lambda>v.
     andThen (bi_RefineSearchIndex fuel depth fresh fill searchDeleted x (qr_Init v (CEF + 1) (bi_maxDist x)) w) (\<lambda>(_, query, w').
     andThen (bi_row x node) (\<lambda>row.
     andThen (RebuildNeighbors x node row (qr_results query)) (\<lambda>row'.
     andThen (bi_setRow x node row') (\<lambda>x1.
     andThen (if updateNeighbors then rf_update node (qr_results query) x1 else Ret x1) (\<lambda>x2. Ret (x2, w'))))))))"

definition bi_AddIndexIdx ::
  "nat \<Rightarrow> nat \<Rightarrow> (nat \<Rightarrow> cell list) \<Rightarrow> 'f \<Rightarrow> 'f :: linorder bktIndex \<Rightarrow> 'f workSpace option \<Rightarrow> int \<Rightarrow> int
     \<Rightarrow> (ErrorCode \<times> 'f bktIndex \<times> 'f workSpace option) outcome" where
  "bi_AddIndexIdx fuel depth fresh fill x w begin' end' =
     andThen (loopOver (\<lambda>node s. RefineNode fuel depth fresh fill node True True (bi_addCEF (fst s)) s) [begin' .. end' - 1] (x, w)) (\<lambda>(x', w').
       Ret (Success, x', w'))"

end
