(* ===== verification/GraphLinks.thy ===== *)
theory GraphLinks
  imports GraphRefine
begin

text \<open>
  Linking a head keeps the index well formed: \<open>RebuildNeighbors\<close> gives the row of the head by the rule of relative
  neighbours, \<open>InsertNeighbors\<close> exchanges one entry of another row for it, and \<open>AddIndexIdx\<close> is one of the calls the
  contract of the head index allows.
\<close>

section \<open>Rows\<close>

definition bi_D2 :: "'f bktIndex \<Rightarrow> int \<Rightarrow> int \<Rightarrow> 'f" where
  "bi_D2 x a b = bi_distance x (ds_list (bh_samples (bi_head x)) ! nat a) (ds_list (bh_samples (bi_head x)) ! nat b)"

lemma GetSample_in:
  assumes "bh_inv dim e (bi_neighbors x) (bi_head x)" "k \<in> {0 ..< samplesOf x}"
  shows "bh_GetSample (bi_head x) k = Ret (ds_list (bh_samples (bi_head x)) ! nat k)"
  using bkt.sample_law [OF assms(1), of k] assms(2) by simp

lemma ComputeDistance_ok:
  assumes "bh_inv dim e (bi_neighbors x) (bi_head x)" "a \<in> {0 ..< samplesOf x}" "b \<in> {0 ..< samplesOf x}"
  shows "bi_ComputeDistance x a b = Ret (bi_D2 x a b)"
  using GetSample_in [OF assms(1,2)] GetSample_in [OF assms(1,3)] by (simp add: bi_ComputeDistance_def bi_D2_def)

lemma dec_sint_int32: "length bs = 4 \<Longrightarrow> int32_ok (dec_sint bs)"
  using dec_uint_range [of bs] by (auto simp: dec_sint_def int32_ok_def Let_def)

text \<open>Only the graph differs.\<close>

definition relinked :: "'f bktIndex \<Rightarrow> 'f bktIndex \<Rightarrow> bool" where
  "relinked x x' \<longleftrightarrow> (\<exists>g. x' = x\<lparr>bi_head := (bi_head x)\<lparr>bh_graph := g\<rparr>\<rparr> \<and> ds_inv (bi_neighbors x) 4 g
     \<and> ds_R g = ds_R (bh_graph (bi_head x)) \<and> ds_maxRows g = ds_maxRows (bh_graph (bi_head x)))"

lemma relinked_refl: "bh_inv dim e (bi_neighbors x) (bi_head x) \<Longrightarrow> relinked x x"
  unfolding relinked_def by (rule exI [of _ "bh_graph (bi_head x)"]) (simp add: bh_inv_def)

lemma relinked_trans: "relinked x y \<Longrightarrow> relinked y z \<Longrightarrow> relinked x z"
  by (auto simp: relinked_def)

lemma relinked_same:
  assumes "relinked x x'"
  shows "bi_neighbors x' = bi_neighbors x" "samplesOf x' = samplesOf x" "bi_D2 x' = bi_D2 x" "bi_tree x' = bi_tree x"
    "bi_rng x' = bi_rng x" "bi_maxDist x' = bi_maxDist x" "bi_addCEF x' = bi_addCEF x" "bh_samples (bi_head x') = bh_samples (bi_head x)"
    "bh_deleted (bi_head x') = bh_deleted (bi_head x)" "thread_ok fresh x' w = thread_ok fresh x w"
    "bh_inv dim e (bi_neighbors x) (bi_head x) \<Longrightarrow> bh_inv dim e (bi_neighbors x) (bi_head x')"
  using assms by (auto simp: relinked_def bh_GetNumSamples_def bi_D2_def fun_eq_iff thread_ok_def bh_inv_def split: option.splits)

lemma relinked_index:
  assumes x: "index_ok dim e S x" and r: "relinked x x'" and rows: "\<forall>k \<in> {0 ..< samplesOf x}. row_ok (samplesOf x) x' k"
  shows "index_ok dim e S x'"
proof -
  have "bi_distance x' = bi_distance x" using r by (auto simp: relinked_def)
  then show ?thesis using x relinked_same [OF r] rows by (simp add: index_ok_def)
qed

lemma setRow_ok:
  assumes h: "bh_inv dim e (bi_neighbors x) (bi_head x)" and k: "k \<in> {0 ..< samplesOf x}"
    and row: "length row = bi_neighbors x" "\<forall>n \<in> set row. int32_ok n"
  shows "\<exists>x'. bi_setRow x k row = Ret x' \<and> relinked x x' \<and> (\<forall>j. bi_row x' j = (if j = k then Ret row else bi_row x j))"
proof -
  let ?g = "bh_graph (bi_head x)" and ?r = "concat (map (enc_int 4) row)"
  have g: "ds_inv (bi_neighbors x) 4 ?g" "0 \<le> k" "k < ds_R ?g" using h k by (simp_all add: bh_inv_def bh_GetNumSamples_def)
  have es: "\<forall>e \<in> set (map (enc_int 4) row). length e = 4" by simp
  have len: "length ?r = ds_rowBytes ?g"
    using length_concat_width [OF es] row(1) ds_inv_rowBytes [OF g(1)] by (simp del: length_concat)
  obtain g' where g': "ds_write ?g k ?r = Some g'" "ds_inv (bi_neighbors x) 4 g'" "ds_R g' = ds_R ?g" "ds_maxRows g' = ds_maxRows ?g"
    "\<forall>j. ds_read g' j = (if j = k then Some ?r else ds_read ?g j)"
    using ds_inv_write [OF g(1-3) len] by auto
  let ?x = "x\<lparr>bi_head := (bi_head x)\<lparr>bh_graph := g'\<rparr>\<rparr>"
  have "map dec_sint (entriesOf 4 ?r) = row"
    using row(2) by (simp add: entriesOf_concat [OF es] dec_enc_int32 map_idI)
  then have "\<forall>j. bi_row ?x j = (if j = k then Ret row else bi_row x j)" using g'(5) by (simp add: bi_row_def)
  moreover have "relinked x ?x" unfolding relinked_def using g'(2-4) by blast
  ultimately show ?thesis using g'(1) by (intro exI [of _ ?x]) (simp add: bi_setRow_def)
qed

lemma row_int32: "bi_row x k = Ret row \<Longrightarrow> n \<in> set row \<Longrightarrow> int32_ok n"
  by (auto simp: bi_row_def andThen_Ret_iff dec_sint_int32 entriesOf_width)

lemma row_length:
  assumes "bh_inv dim e (bi_neighbors x) (bi_head x)" "k \<in> {0 ..< samplesOf x}"
  shows "\<exists>row. bi_row x k = Ret row \<and> length row = bi_neighbors x"
proof -
  have g: "ds_inv (bi_neighbors x) 4 (bh_graph (bi_head x))" "k < ds_R (bh_graph (bi_head x))" "0 \<le> k"
    using assms by (simp_all add: bh_inv_def bh_GetNumSamples_def)
  then obtain r where "ds_read (bh_graph (bi_head x)) k = Some r" "length r = bi_neighbors x * 4"
    using dsrows.rd_in [OF g(1,3)] by auto
  then show ?thesis by (simp add: bi_row_def)
qed

section \<open>RebuildNeighbors\<close>

lemma good_ok:
  assumes h: "bh_inv dim e (bi_neighbors x) (bi_head x)" and i: "VID item \<in> {0 ..< samplesOf x}"
  shows "set sel \<subseteq> {0 ..< samplesOf x} \<Longrightarrow> rb_good x sel item = Ret (\<forall>s \<in> set sel. \<not> bi_rng x (bi_D2 x s (VID item)) < Dist item)"
proof (induction sel)
  case (Cons s sel)
  then show ?case using ComputeDistance_ok [OF h _ i, of s] by simp
qed simp

text \<open>
  The rule of relative neighbours: results are taken in their order up to the first placeholder, the node itself is not; none is
  taken that an earlier one is too near to, and while there is room one is left out for no other reason.
\<close>

definition linksOf :: "'f :: linorder bktIndex \<Rightarrow> int \<Rightarrow> 'f basicResult list \<Rightarrow> int list \<Rightarrow> bool" where
  "linksOf x node results sel \<longleftrightarrow> (\<exists>items. items \<in> set (subseqs results) \<and> sel = map VID items \<and> length sel \<le> bi_neighbors x
     \<and> (\<forall>r \<in> set items. 0 \<le> VID r \<and> VID r \<noteq> node)
     \<and> sorted_wrt (\<lambda>a b. \<not> bi_rng x (bi_D2 x (VID a) (VID b)) < Dist b) items
     \<and> (length sel < bi_neighbors x \<longrightarrow> (\<forall>r \<in> set (takeWhile (\<lambda>r. 0 \<le> VID r) results).
          VID r = node \<or> r \<in> set items \<or> (\<exists>s \<in> set sel. bi_rng x (bi_D2 x s (VID r)) < Dist r))))"

lemma Nil_subseqs: "[] \<in> set (subseqs xs)"
  by (induction xs) (simp_all add: Let_def)

lemma rb_select_ok:
  assumes h: "bh_inv dim e (bi_neighbors x) (bi_head x)"
  shows "\<forall>r \<in> set rs. VID r < samplesOf x \<Longrightarrow> set (map VID done') \<subseteq> {0 ..< samplesOf x} \<Longrightarrow> length done' \<le> bi_neighbors x \<Longrightarrow>
    sorted_wrt (\<lambda>a b. \<not> bi_rng x (bi_D2 x (VID a) (VID b)) < Dist b) done' \<Longrightarrow>
    \<exists>items. rb_select x node rs (map VID done') = Ret (map VID (done' @ items)) \<and> items \<in> set (subseqs rs) \<and> length (done' @ items) \<le> bi_neighbors x
      \<and> (\<forall>r \<in> set items. 0 \<le> VID r \<and> VID r \<noteq> node)
      \<and> sorted_wrt (\<lambda>a b. \<not> bi_rng x (bi_D2 x (VID a) (VID b)) < Dist b) (done' @ items)
      \<and> (length (done' @ items) < bi_neighbors x \<longrightarrow> (\<forall>r \<in> set (takeWhile (\<lambda>r. 0 \<le> VID r) rs).
           VID r = node \<or> r \<in> set (done' @ items) \<or> (\<exists>s \<in> set (map VID (done' @ items)). bi_rng x (bi_D2 x s (VID r)) < Dist r)))"
proof (induction rs arbitrary: done')
  case Nil
  then show ?case by (intro exI [of _ "[]"]) simp
next
  case (Cons r rs)
  have tl: "\<forall>r \<in> set rs. VID r < samplesOf x" using Cons.prems(1) by simp
  consider "\<not> length done' < bi_neighbors x \<or> VID r < 0" | "length done' < bi_neighbors x" "0 \<le> VID r" "VID r = node"
    | "length done' < bi_neighbors x" "0 \<le> VID r" "VID r \<noteq> node" by linarith
  then show ?case
  proof cases
    case 1
    then show ?thesis using Cons.prems Nil_subseqs [of "r # rs"] by (intro exI [of _ "[]"]) auto
  next
    case 2
    from Cons.IH [OF tl Cons.prems(2-4)] obtain items where "rb_select x node rs (map VID done') = Ret (map VID (done' @ items))"
      "items \<in> set (subseqs rs)" "length (done' @ items) \<le> bi_neighbors x" "\<forall>r \<in> set items. 0 \<le> VID r \<and> VID r \<noteq> node"
      "sorted_wrt (\<lambda>a b. \<not> bi_rng x (bi_D2 x (VID a) (VID b)) < Dist b) (done' @ items)"
      "length (done' @ items) < bi_neighbors x \<longrightarrow> (\<forall>r \<in> set (takeWhile (\<lambda>r. 0 \<le> VID r) rs).
         VID r = node \<or> r \<in> set (done' @ items) \<or> (\<exists>s \<in> set (map VID (done' @ items)). bi_rng x (bi_D2 x s (VID r)) < Dist r))" by blast
    then show ?thesis using 2 by (intro exI [of _ items]) (auto simp: Let_def)
  next
    case 3
    let ?good = "\<forall>s \<in> set (map VID done'). \<not> bi_rng x (bi_D2 x s (VID r)) < Dist r"
    have r: "VID r \<in> {0 ..< samplesOf x}" using 3(2) Cons.prems(1) by simp
    have g: "rb_good x (map VID done') r = Ret ?good" by (rule good_ok [OF h r Cons.prems(2)])
    show ?thesis
    proof (cases ?good)
      case True
      have p: "set (map VID (done' @ [r])) \<subseteq> {0 ..< samplesOf x}" "length (done' @ [r]) \<le> bi_neighbors x"
        "sorted_wrt (\<lambda>a b. \<not> bi_rng x (bi_D2 x (VID a) (VID b)) < Dist b) (done' @ [r])"
        using Cons.prems(2,4) r 3(1) True by (auto simp: sorted_wrt_append)
      from Cons.IH [OF tl p] obtain items where i: "rb_select x node rs (map VID (done' @ [r])) = Ret (map VID ((done' @ [r]) @ items))"
        "items \<in> set (subseqs rs)" "length ((done' @ [r]) @ items) \<le> bi_neighbors x" "\<forall>r \<in> set items. 0 \<le> VID r \<and> VID r \<noteq> node"
        "sorted_wrt (\<lambda>a b. \<not> bi_rng x (bi_D2 x (VID a) (VID b)) < Dist b) ((done' @ [r]) @ items)"
        "length ((done' @ [r]) @ items) < bi_neighbors x \<longrightarrow> (\<forall>q \<in> set (takeWhile (\<lambda>r. 0 \<le> VID r) rs).
           VID q = node \<or> q \<in> set ((done' @ [r]) @ items) \<or> (\<exists>s \<in> set (map VID ((done' @ [r]) @ items)). bi_rng x (bi_D2 x s (VID q)) < Dist q))" by blast
      have "rb_select x node (r # rs) (map VID done') = Ret (map VID (done' @ r # items))" using 3 g True i(1) by simp
      moreover have "length (done' @ r # items) < bi_neighbors x \<longrightarrow> (\<forall>q \<in> set (takeWhile (\<lambda>r. 0 \<le> VID r) (r # rs)).
           VID q = node \<or> q \<in> set (done' @ r # items) \<or> (\<exists>s \<in> set (map VID (done' @ r # items)). bi_rng x (bi_D2 x s (VID q)) < Dist q))"
        using i(6) by (auto split: if_splits)
      ultimately show ?thesis using i(2-5) 3 by (intro exI [of _ "r # items"]) (simp add: Let_def)
    next
      case False
      from Cons.IH [OF tl Cons.prems(2-4)] obtain items where i: "rb_select x node rs (map VID done') = Ret (map VID (done' @ items))"
        "items \<in> set (subseqs rs)" "length (done' @ items) \<le> bi_neighbors x" "\<forall>r \<in> set items. 0 \<le> VID r \<and> VID r \<noteq> node"
        "sorted_wrt (\<lambda>a b. \<not> bi_rng x (bi_D2 x (VID a) (VID b)) < Dist b) (done' @ items)"
        "length (done' @ items) < bi_neighbors x \<longrightarrow> (\<forall>r \<in> set (takeWhile (\<lambda>r. 0 \<le> VID r) rs).
           VID r = node \<or> r \<in> set (done' @ items) \<or> (\<exists>s \<in> set (map VID (done' @ items)). bi_rng x (bi_D2 x s (VID r)) < Dist r))" by blast
      have "rb_select x node (r # rs) (map VID done') = Ret (map VID (done' @ items))" using 3 i(1) unfolding rb_select.simps g by (simp add: False del: set_map)
      moreover have "\<exists>s \<in> set (map VID (done' @ items)). bi_rng x (bi_D2 x s (VID r)) < Dist r" using False by auto
      ultimately show ?thesis using i(2-6) 3 by (intro exI [of _ items]) (auto simp: Let_def split: if_splits)
    qed
  qed
qed

lemma RebuildNeighbors_ok:
  assumes h: "bh_inv dim e (bi_neighbors x) (bi_head x)" and rs: "\<forall>r \<in> set results. VID r < samplesOf x"
    and row: "length row = bi_neighbors x"
  shows "\<exists>sel. RebuildNeighbors x node row results = Ret (sel @ replicate (bi_neighbors x - length sel) (- 1))
    \<and> linksOf x node results sel \<and> set sel \<subseteq> {0 ..< samplesOf x}"
proof -
  obtain items where i: "rb_select x node results [] = Ret (map VID items)" "items \<in> set (subseqs results)" "length items \<le> bi_neighbors x"
    "\<forall>r \<in> set items. 0 \<le> VID r \<and> VID r \<noteq> node" "sorted_wrt (\<lambda>a b. \<not> bi_rng x (bi_D2 x (VID a) (VID b)) < Dist b) items"
    "length items < bi_neighbors x \<longrightarrow> (\<forall>r \<in> set (takeWhile (\<lambda>r. 0 \<le> VID r) results).
       VID r = node \<or> r \<in> set items \<or> (\<exists>s \<in> set (map VID items). bi_rng x (bi_D2 x s (VID r)) < Dist r))"
    using rb_select_ok [OF h rs, of "[]" node] by auto
  have "set items \<subseteq> set results" using i(2) subseqs_powset [of results] by blast
  then have "set (map VID items) \<subseteq> {0 ..< samplesOf x}" using i(4) rs by auto
  moreover have "linksOf x node results (map VID items)"
    unfolding linksOf_def using i(2-6) by (intro exI [of _ items]) simp
  ultimately show ?thesis using i(1) row by (intro exI [of _ "map VID items"]) (simp add: RebuildNeighbors_def)
qed

section \<open>InsertNeighbors\<close>

text \<open>One entry of the row makes room for the new one, or the row stays; an entry that names a node of the trees stays at its end.\<close>

definition exchanged :: "int \<Rightarrow> int list \<Rightarrow> int list \<Rightarrow> bool" where
  "exchanged n row row' \<longleftrightarrow> length row' = length row \<and> (\<exists>d. add_mset d (mset row') = add_mset n (mset row))
     \<and> (\<forall>i < length row. row' ! i = row ! i \<or> 0 \<le> row' ! i) \<and> (last row < - 1 \<longrightarrow> last row' = last row)"

lemma mset_put: "k < length xs \<Longrightarrow> add_mset (xs ! k) (mset (xs[k := v])) = add_mset v (mset xs)"
  by (simp add: mset_update)

lemma put_positive:
  "\<forall>i < length (row[k := v]). row' ! i = row[k := v] ! i \<or> 0 \<le> row' ! i \<Longrightarrow> (0 :: int) \<le> v \<Longrightarrow>
   \<forall>i < length row. row' ! i = row ! i \<or> 0 \<le> row' ! i"
  by (metis length_list_update nth_list_update_eq nth_list_update_neq)

lemma shift_ok:
  assumes h: "bh_inv dim e (bi_neighbors x) (bi_head x)" and n: "node \<in> {0 ..< samplesOf x}" "ins \<in> {0 ..< samplesOf x}"
  shows "\<forall>k \<in> set ks. k < length row \<and> k < c \<Longrightarrow> \<forall>r \<in> set row. r < samplesOf x \<Longrightarrow> tmp \<in> {0 ..< samplesOf x} \<Longrightarrow>
    \<exists>row' d. in_shift x node ins ks tmp row = Ret row' \<and> length row' = length row \<and> add_mset d (mset row') = add_mset tmp (mset row)
      \<and> (\<forall>i. c \<le> i \<longrightarrow> row' ! i = row ! i) \<and> (\<forall>i < length row. row' ! i = row ! i \<or> 0 \<le> row' ! i)"
proof (induction ks arbitrary: tmp row)
  case Nil
  then show ?case by (intro exI [of _ row] exI [of _ tmp]) simp
next
  case (Cons k ks)
  have cd: "bi_ComputeDistance x tmp node = Ret (bi_D2 x tmp node)" "bi_ComputeDistance x tmp ins = Ret (bi_D2 x tmp ins)"
    using ComputeDistance_ok [OF h Cons.prems(3)] n by simp_all
  have k: "k < length row" "k < c" using Cons.prems(1) by simp_all
  have v: "vecAt row (int k) = Ret (row ! k)" using k by (simp add: outcome_simps)
  let ?row = "row[k := tmp]"
  have m: "add_mset (row ! k) (mset ?row) = add_mset tmp (mset row)" by (rule mset_put [OF k(1)])
  show ?case
  proof (cases "bi_D2 x tmp node \<le> bi_D2 x tmp ins")
    case False
    then show ?thesis using cd by (intro exI [of _ row] exI [of _ tmp]) simp
  next
    case True
    show ?thesis
    proof (cases "row ! k < 0")
      case neg: True
      then show ?thesis using cd True v m k Cons.prems(3)
        by (intro exI [of _ ?row] exI [of _ "row ! k"]) (simp add: Let_def nth_list_update)
    next
      case False
      have "row ! k \<in> {0 ..< samplesOf x}" using False Cons.prems(2) k(1) by simp
      moreover have "\<forall>r \<in> set ?row. r < samplesOf x" using Cons.prems(2,3) set_update_subset_insert [of row k tmp] by auto
      moreover have "\<forall>k \<in> set ks. k < length ?row \<and> k < c" using Cons.prems(1) by simp
      ultimately obtain row' d where r: "in_shift x node ins ks (row ! k) ?row = Ret row'" "length row' = length ?row"
        "add_mset d (mset row') = add_mset (row ! k) (mset ?row)" "\<forall>i. c \<le> i \<longrightarrow> row' ! i = ?row ! i"
        "\<forall>i < length ?row. row' ! i = ?row ! i \<or> 0 \<le> row' ! i"
        using Cons.IH by blast
      have "in_shift x node ins (k # ks) tmp row = Ret row'" using cd True v False r(1) by (simp add: Let_def)
      then show ?thesis using r(2-4) put_positive [OF r(5)] m k(2) Cons.prems(3)
        by (intro exI [of _ row'] exI [of _ d]) (simp del: in_shift.simps)
    qed
  qed
qed

lemma walk_ok:
  assumes h: "bh_inv dim e (bi_neighbors x) (bi_head x)" and n: "node \<in> {0 ..< samplesOf x}" "ins \<in> {0 ..< samplesOf x}"
    and row: "\<forall>r \<in> set row. r < samplesOf x"
  shows "\<forall>k \<in> set ks. k < length row \<and> k < c \<Longrightarrow>
    \<exists>row'. in_walk x node ins dist ks row = Ret row' \<and> length row' = length row
      \<and> (\<exists>d. add_mset d (mset row') = add_mset ins (mset row)) \<and> (\<forall>i. c \<le> i \<longrightarrow> row' ! i = row ! i)
      \<and> (\<forall>i < length row. row' ! i = row ! i \<or> 0 \<le> row' ! i)"
proof (induction ks)
  case (Cons k ks)
  have k: "k < length row" "k < c" "\<forall>k \<in> set ks. k < length row \<and> k < c" using Cons.prems by simp_all
  have v: "vecAt row (int k) = Ret (row ! k)" using k by (simp add: outcome_simps)
  let ?row = "row[k := ins]"
  have m: "add_mset (row ! k) (mset ?row) = add_mset ins (mset row)" by (rule mset_put [OF k(1)])
  show ?case
  proof (cases "row ! k < 0")
    case True
    then show ?thesis using v m k n(2) by (intro exI [of _ ?row]) (auto simp: nth_list_update)
  next
    case False
    then have t: "row ! k \<in> {0 ..< samplesOf x}" using row k(1) by simp
    have cd: "bi_ComputeDistance x (row ! k) node = Ret (bi_D2 x (row ! k) node)" "bi_ComputeDistance x (row ! k) ins = Ret (bi_D2 x (row ! k) ins)"
      using ComputeDistance_ok [OF h t] n by simp_all
    show ?thesis
    proof (cases "bi_D2 x (row ! k) node > dist \<or> (dist = bi_D2 x (row ! k) node \<and> ins < row ! k)")
      case True
      have "\<forall>r \<in> set ?row. r < samplesOf x" using row n(2) set_update_subset_insert [of row k ins] by auto
      moreover have "\<forall>k \<in> set ks. k < length ?row \<and> k < c" using k(3) by simp
      ultimately obtain row' d where r: "in_shift x node ins ks (row ! k) ?row = Ret row'" "length row' = length ?row"
        "add_mset d (mset row') = add_mset (row ! k) (mset ?row)" "\<forall>i. c \<le> i \<longrightarrow> row' ! i = ?row ! i"
        "\<forall>i < length ?row. row' ! i = ?row ! i \<or> 0 \<le> row' ! i"
        using shift_ok [OF h n, of ks ?row c "row ! k"] t by blast
      have "in_walk x node ins dist (k # ks) row = Ret row'" using v False cd True r(1) by simp
      then show ?thesis using r(2-4) put_positive [OF r(5)] m k(2) n(2)
        by (intro exI [of _ row']) (auto simp del: in_walk.simps intro: exI [of _ d])
    next
      case keep: False
      show ?thesis
      proof (cases "bi_D2 x (row ! k) ins < dist")
        case True
        then have "in_walk x node ins dist (k # ks) row = Ret row" using v False cd keep by auto
        then show ?thesis by (intro exI [of _ row]) auto
      next
        case go: False
        then have "in_walk x node ins dist (k # ks) row = in_walk x node ins dist ks row" using v False cd keep by auto
        then show ?thesis using Cons.IH [OF k(3)] by simp
      qed
    qed
  qed
qed simp

lemma InsertNeighbors_ok:
  assumes x: "index_ok dim e S x" and n: "node \<in> {0 ..< samplesOf x}" "ins \<in> {0 ..< samplesOf x}"
  shows "\<exists>x' row. InsertNeighbors x node ins dist = Ret x' \<and> relinked x x' \<and> exchanged ins (rowOf x node) row
    \<and> (\<forall>j. bi_row x' j = (if j = node then Ret row else bi_row x j))"
proof -
  have h: "bh_inv dim e (bi_neighbors x) (bi_head x)" and nb: "0 < bi_neighbors x" and R: "samplesOf x \<le> 2 ^ 31"
    and ro: "row_ok (samplesOf x) x node" using x n by (simp_all add: index_ok_def)
  let ?row = "rowOf x node"
  have r: "bi_row x node = Ret ?row" "length ?row = bi_neighbors x" "\<forall>r \<in> set ?row. r < samplesOf x" using ro by (simp_all add: row_ok_def)
  have ne: "?row \<noteq> []" using r(2) nb by auto
  let ?l = "last ?row"
  let ?c = "if ?l < - 1 then bi_neighbors x - 1 else bi_neighbors x"
  have last: "vecAt ?row (int (bi_neighbors x) - 1) = Ret ?l"
    using r(2) nb ne by (simp add: outcome_simps last_conv_nth nat_diff_distrib)
  have "\<forall>k \<in> set [0 ..< ?c]. k < length ?row \<and> k < ?c" using r(2) by auto
  from walk_ok [OF h n r(3) this, of dist] obtain row' where w: "in_walk x node ins dist [0 ..< ?c] ?row = Ret row'" "length row' = length ?row"
    "\<exists>d. add_mset d (mset row') = add_mset ins (mset ?row)" "\<forall>i. ?c \<le> i \<longrightarrow> row' ! i = ?row ! i"
    "\<forall>i < length ?row. row' ! i = ?row ! i \<or> 0 \<le> row' ! i" by blast
  have ex: "exchanged ins ?row row'" unfolding exchanged_def
  proof (intro conjI impI)
    show "length row' = length ?row" by (rule w(2))
    show "\<exists>d. add_mset d (mset row') = add_mset ins (mset ?row)" by (rule w(3))
    show "\<forall>i < length ?row. row' ! i = ?row ! i \<or> 0 \<le> row' ! i" by (rule w(5))
    assume "?l < - 1"
    then have "row' ! (bi_neighbors x - 1) = ?row ! (bi_neighbors x - 1)" using w(4) by simp
    moreover have "row' \<noteq> []" using w(2) ne by auto
    ultimately show "last row' = ?l" using w(2) r(2) ne by (simp add: last_conv_nth)
  qed
  have "\<forall>r \<in> set row'. int32_ok r"
  proof
    fix r assume "r \<in> set row'"
    then have "r \<in># add_mset ins (mset ?row)" using w(3) by (metis insertCI set_mset_add_mset_insert set_mset_mset)
    then consider "r = ins" | "r \<in> set ?row" by auto
    then show "int32_ok r"
    proof cases
      case 1
      then show ?thesis using n(2) R by (simp add: int32_ok_def)
    qed (use row_int32 [OF r(1)] in blast)
  qed
  from setRow_ok [OF h n(1) _ this] obtain x' where "bi_setRow x node row' = Ret x'" "relinked x x'"
    "\<forall>j. bi_row x' j = (if j = node then Ret row' else bi_row x j)" using w(2) r(2) by auto
  then show ?thesis using ex w(1) r(1) last GetSample_in [OF h n(1)] GetSample_in [OF h n(2)]
    by (intro exI [of _ x'] exI [of _ row']) (simp add: InsertNeighbors_def Let_def)
qed

lemma exchanged_row_ok:
  fixes x :: "'f :: linorder bktIndex"
  assumes x: "row_ok R x k" and R: "n < R" "0 \<le> n" and e: "exchanged n (rowOf x k) row" and x': "relinked x x'" "bi_row x' k = Ret row"
    and nb: "0 < bi_neighbors x"
  shows "row_ok R x' k"
proof -
  have row: "rowOf x' k = row" using x'(2) by (simp add: rowOf_def)
  have len: "length row = bi_neighbors x" "length (rowOf x k) = bi_neighbors x" using e x by (simp_all add: exchanged_def row_ok_def)
  then have ne: "row \<noteq> []" "rowOf x k \<noteq> []" using nb by auto
  have l: "lastOf x k = last (rowOf x k)" "lastOf x' k = last row"
    using len ne relinked_same(1) [OF x'(1)] by (simp_all add: lastOf_def row last_conv_nth)
  have el: "r \<in> insert n (set (rowOf x k))" if "r \<in> set row" for r
  proof -
    have "r \<in># add_mset n (mset (rowOf x k))" using e that unfolding exchanged_def by (metis insertCI set_mset_add_mset_insert set_mset_mset)
    then show ?thesis by simp
  qed
  have "row ! (length row - 1) = rowOf x k ! (length row - 1) \<or> 0 \<le> row ! (length row - 1)"
    using e len nb unfolding exchanged_def by simp
  then have "lastOf x' k < - 1 \<Longrightarrow> lastOf x k = lastOf x' k" using l len ne by (auto simp: last_conv_nth)
  then show ?thesis using x el R len row relinked_same(1,4) [OF x'(1)] x'(2) by (auto simp: row_ok_def Let_def)
qed

lemma row_ok_same:
  fixes x :: "'f :: linorder bktIndex"
  assumes "relinked x x'" "bi_row x' k = bi_row x k"
  shows "row_ok R x' k = row_ok R x k" "rowOf x' k = rowOf x k" "lastOf x' k = lastOf x k"
  using relinked_same(1,4) [OF assms(1)] assms(2) by (simp_all add: row_ok_def rowOf_def lastOf_def)

text \<open>Rows that may have got the node, and kept the names of nodes of the trees.\<close>

definition mayLink :: "int \<Rightarrow> 'f bktIndex \<Rightarrow> 'f bktIndex \<Rightarrow> int \<Rightarrow> bool" where
  "mayLink n x x' k \<longleftrightarrow> set (rowOf x' k) \<subseteq> insert n (set (rowOf x k)) \<and> (lastOf x k < - 1 \<longrightarrow> lastOf x' k = lastOf x k)"

lemma mayLink_trans: "mayLink n x y k \<Longrightarrow> mayLink n y z k \<Longrightarrow> mayLink n x z k"
  by (auto simp: mayLink_def)

lemma Insert_index:
  assumes x: "index_ok dim e S x" and n: "node \<in> {0 ..< samplesOf x}" "ins \<in> {0 ..< samplesOf x}"
  shows "\<exists>x'. InsertNeighbors x node ins dist = Ret x' \<and> relinked x x' \<and> index_ok dim e S x'
    \<and> (\<forall>k \<in> {0 ..< samplesOf x}. mayLink ins x x' k) \<and> (\<forall>j. j \<noteq> node \<longrightarrow> bi_row x' j = bi_row x j)"
proof -
  obtain x' row where x': "InsertNeighbors x node ins dist = Ret x'" "relinked x x'" "exchanged ins (rowOf x node) row"
    "\<forall>j. bi_row x' j = (if j = node then Ret row else bi_row x j)"
    using InsertNeighbors_ok [OF x n] by blast
  have rows: "\<forall>k \<in> {0 ..< samplesOf x}. row_ok (samplesOf x) x k" and nb: "0 < bi_neighbors x" using x by (simp_all add: index_ok_def)
  have other: "bi_row x' j = bi_row x j" if "j \<noteq> node" for j using x'(4) that by simp
  have "row_ok (samplesOf x) x' k" if k: "k \<in> {0 ..< samplesOf x}" for k
  proof (cases "k = node")
    case True
    then show ?thesis using exchanged_row_ok [of "samplesOf x" x node ins row x'] rows n x' nb by simp
  next
    case False
    then show ?thesis using row_ok_same(1) [OF x'(2) other] rows k by blast
  qed
  then have "index_ok dim e S x'" using relinked_index [OF x x'(2)] by blast
  moreover have "mayLink ins x x' k" if k: "k \<in> {0 ..< samplesOf x}" for k
  proof (cases "k = node")
    case True
    have row: "rowOf x' node = row" using x'(4) by (simp add: rowOf_def)
    have len: "length row = bi_neighbors x" "length (rowOf x node) = bi_neighbors x" using x'(3) rows n by (simp_all add: exchanged_def row_ok_def)
    then have "row \<noteq> []" "rowOf x node \<noteq> []" using nb by auto
    then have l: "lastOf x node = last (rowOf x node)" "lastOf x' node = last row"
      using len relinked_same(1) [OF x'(2)] by (simp_all add: lastOf_def row last_conv_nth)
    have "r \<in> insert ins (set (rowOf x node))" if "r \<in> set row" for r
    proof -
      have "r \<in># add_mset ins (mset (rowOf x node))" using x'(3) that unfolding exchanged_def by (metis insertCI set_mset_add_mset_insert set_mset_mset)
      then show ?thesis by simp
    qed
    then show ?thesis using True l row x'(3) by (auto simp: mayLink_def exchanged_def)
  next
    case False
    then show ?thesis using row_ok_same(2,3) [OF x'(2) other] by (auto simp: mayLink_def)
  qed
  ultimately show ?thesis using x'(1,2) other by blast
qed

section \<open>RefineNode and AddIndexIdx\<close>

lemma update_ok:
  assumes n: "node \<in> {0 ..< samplesOf x}"
  shows "index_ok dim e S y \<Longrightarrow> relinked x y \<Longrightarrow> \<forall>r \<in> set rs. VID r < samplesOf x \<Longrightarrow>
    \<exists>x'. rf_update node rs y = Ret x' \<and> index_ok dim e S x' \<and> relinked y x' \<and> (\<forall>k \<in> {0 ..< samplesOf x}. mayLink node y x' k)
      \<and> bi_row x' node = bi_row y node"
proof (induction rs arbitrary: y)
  case Nil
  then have "relinked y y" using relinked_refl relinked_same(1) by (auto simp: index_ok_def)
  then show ?case using Nil by (auto simp: mayLink_def)
next
  case (Cons r rs)
  have s: "samplesOf y = samplesOf x" using relinked_same(2) [OF Cons.prems(2)] .
  consider "VID r < 0" | "VID r = node" "0 \<le> VID r" | "0 \<le> VID r" "VID r \<noteq> node" by linarith
  then show ?case
  proof cases
    case 1
    have "relinked y y" using Cons.prems(1) relinked_refl by (auto simp: index_ok_def)
    then show ?thesis using 1 Cons.prems by (auto simp: mayLink_def)
  next
    case 2
    then show ?thesis using Cons by simp
  next
    case 3
    have "VID r \<in> {0 ..< samplesOf y}" "node \<in> {0 ..< samplesOf y}" using 3 Cons.prems(3) s n by simp_all
    from Insert_index [OF Cons.prems(1) this] obtain y1 where y1: "InsertNeighbors y (VID r) node (Dist r) = Ret y1" "relinked y y1"
      "index_ok dim e S y1" "\<forall>k \<in> {0 ..< samplesOf y}. mayLink node y y1 k" "\<forall>j. j \<noteq> VID r \<longrightarrow> bi_row y1 j = bi_row y j" by blast
    have "\<forall>r \<in> set rs. VID r < samplesOf x" using Cons.prems(3) by simp
    from Cons.IH [OF y1(3) relinked_trans [OF Cons.prems(2) y1(2)] this] obtain x' where x': "rf_update node rs y1 = Ret x'" "index_ok dim e S x'"
      "relinked y1 x'" "\<forall>k \<in> {0 ..< samplesOf x}. mayLink node y1 x' k" "bi_row x' node = bi_row y1 node" by blast
    have "rf_update node (r # rs) y = Ret x'" using 3 y1(1) x'(1) by simp
    then show ?thesis using x' y1 3 s relinked_trans [OF y1(2) x'(3)] mayLink_trans by (metis (no_types, lifting))
  qed
qed

lemma found_range:
  fixes x :: "'f :: linorder bktIndex"
  assumes x: "index_ok dim e S x" and f: "found m x (qr_Init t k (bi_maxDist x)) qr"
  shows "\<forall>r \<in> set (qr_results qr). VID r < samplesOf x"
proof
  fix r assume r: "r \<in> set (qr_results qr)"
  let ?n = "length (qr_results (qr_Init t k (bi_maxDist x)))"
  obtain taken os where t: "set taken \<subseteq> {0 ..< samplesOf x}" "offers_ok m x (bi_D x (qr_target (qr_Init t k (bi_maxDist x)))) taken os"
    "qr_results qr = take ?n (sort (toResults os @ replicate ?n (BasicResult (- 1) (bi_maxDist x))))"
    using f by (auto simp: found_def)
  have R: "0 \<le> samplesOf x" using x bkt.num_law [of dim e "bi_neighbors x" "bi_head x"] by (auto simp: index_ok_def)
  have "r \<in> set (toResults os) \<union> {BasicResult (- 1) (bi_maxDist x)}"
    using r unfolding t(3) by (auto dest!: in_set_takeD split: if_splits)
  then consider "r = BasicResult (- 1) (bi_maxDist x)" | v d where "(v, d) \<in> set os" "r = BasicResult v d" by auto
  then show "VID r < samplesOf x"
  proof cases
    case 1
    then show ?thesis using R by simp
  next
    case (2 v d)
    then obtain k where k: "k \<in> set taken" "v \<in> set (k # copies x k)" using t(2) by (fastforce simp: offers_ok_def)
    then have ro: "row_ok (samplesOf x) x k" "k \<in> {0 ..< samplesOf x}" using x t(1) by (auto simp: index_ok_def)
    have "v < samplesOf x" if "v \<in> set (copies x k)"
      using that ro(1) by (force simp: copies_def row_ok_def Let_def split: if_splits)
    then show ?thesis using k(2) ro(2) 2(2) by auto
  qed
qed

text \<open>
  \<open>RefineNode\<close> returns; the row of the node is made by the rule of relative neighbours from what the search of its vector
  found, and the other rows may get the node.
\<close>

lemma RefineNode_ok:
  fixes x :: "'f :: linorder bktIndex"
  assumes x: "index_ok dim e S x" and w: "thread_ok fresh x w" and n: "node \<in> {0 ..< samplesOf x}"
    and fuel: "treeWork (bi_tree x) < fuel" "nat (samplesOf x) < fuel"
  shows "\<exists>x' w' qr sel. RefineNode fuel (Suc depth) fresh fill node upd searchDeleted CEF (x, w) = Ret (x', Some w')
    \<and> index_ok dim e S x' \<and> thread_ok fresh x' (Some w') \<and> relinked x x'
    \<and> found (modeOf x searchDeleted False) x (qr_Init (ds_list (bh_samples (bi_head x)) ! nat node) (CEF + 1) (bi_maxDist x)) qr
    \<and> linksOf x node (qr_results qr) sel \<and> rowOf x' node = sel @ replicate (bi_neighbors x - length sel) (- 1)
    \<and> (\<forall>k \<in> {0 ..< samplesOf x} - {node}. mayLink node x x' k)"
proof -
  let ?v = "ds_list (bh_samples (bi_head x)) ! nat node"
  let ?q = "qr_Init ?v (CEF + 1) (bi_maxDist x)"
  have h: "bh_inv dim e (bi_neighbors x) (bi_head x)" and nb: "0 < bi_neighbors x" and R: "samplesOf x \<le> 2 ^ 31"
    and rows: "\<forall>k \<in> {0 ..< samplesOf x}. row_ok (samplesOf x) x k" using x by (simp_all add: index_ok_def)
  have c: "0 < CEF + 1" and num: "qr_GetResultNum ?q = CEF + 1" by (simp_all add: qr_GetResultNum_def qr_Init_def)
  obtain qr w' where s: "bi_RefineSearchIndex fuel (Suc depth) fresh fill searchDeleted x ?q w = Ret (Success, qr, Some w')"
    "found (modeOf x searchDeleted False) x ?q qr" "thread_ok fresh x (Some w')"
    using SearchWith_made [OF x w c fuel, of fill "bi_maxCheckForRefineGraph x" depth searchDeleted False ?v] num
    by (auto simp: bi_RefineSearchIndex_def)
  have vids: "\<forall>r \<in> set (qr_results qr). VID r < samplesOf x" by (rule found_range [OF x s(2)])
  obtain row where row: "bi_row x node = Ret row" "length row = bi_neighbors x" using row_length [OF h n] by blast
  obtain sel where sel: "RebuildNeighbors x node row (qr_results qr) = Ret (sel @ replicate (bi_neighbors x - length sel) (- 1))"
    "linksOf x node (qr_results qr) sel" "set sel \<subseteq> {0 ..< samplesOf x}"
    using RebuildNeighbors_ok [OF h vids row(2)] by blast
  let ?row = "sel @ replicate (bi_neighbors x - length sel) (- 1)"
  have len: "length ?row = bi_neighbors x" using sel(2) by (auto simp: linksOf_def)
  have el: "- 1 \<le> r \<and> r < samplesOf x" if "r \<in> set ?row" for r using that sel(3) n by auto
  have "\<forall>r \<in> set ?row. int32_ok r"
  proof
    fix r assume "r \<in> set ?row"
    from el [OF this] show "int32_ok r" using R by (simp add: int32_ok_def)
  qed
  from setRow_ok [OF h n len this] obtain x1 where x1: "bi_setRow x node ?row = Ret x1" "relinked x x1"
    "\<forall>j. bi_row x1 j = (if j = node then Ret ?row else bi_row x j)" by blast
  have other: "bi_row x1 j = bi_row x j" if "j \<noteq> node" for j using x1(3) that by simp
  have "row_ok (samplesOf x) x1 k" if k: "k \<in> {0 ..< samplesOf x}" for k
  proof (cases "k = node")
    case True
    have r: "rowOf x1 node = ?row" "bi_row x1 node = Ret ?row" using x1(3) by (simp_all add: rowOf_def)
    have "lastOf x1 node = ?row ! (bi_neighbors x - 1)" by (simp add: lastOf_def r(1) relinked_same(1) [OF x1(2)])
    then have "lastOf x1 node \<in> set ?row" using nth_mem [of "bi_neighbors x - 1" ?row] len nb by simp
    then have "\<not> lastOf x1 node < - 1" using el by fastforce
    then show ?thesis unfolding row_ok_def True r using len el relinked_same(1) [OF x1(2)] r(2) by simp
  next
    case False
    then show ?thesis using row_ok_same(1) [OF x1(2) other] rows k by blast
  qed
  then have i1: "index_ok dim e S x1" using relinked_index [OF x x1(2)] by blast
  obtain x2 where x2: "(if upd then rf_update node (qr_results qr) x1 else Ret x1) = Ret x2" "index_ok dim e S x2" "relinked x1 x2"
    "\<forall>k \<in> {0 ..< samplesOf x}. mayLink node x1 x2 k" "bi_row x2 node = bi_row x1 node"
  proof (cases upd)
    case True
    from update_ok [OF n i1 x1(2) vids] True show ?thesis using that by auto
  next
    case False
    have "relinked x1 x1" using i1 relinked_refl by (auto simp: index_ok_def)
    then show ?thesis using that [of x1] False i1 by (auto simp: mayLink_def)
  qed
  have r2: "relinked x x2" by (rule relinked_trans [OF x1(2) x2(3)])
  have "RefineNode fuel (Suc depth) fresh fill node upd searchDeleted CEF (x, w) = Ret (x2, Some w')"
    using GetSample_in [OF h n] s(1) row(1) sel(1) x1(1) x2(1) by (simp add: RefineNode_def del: Suc_eq_plus1 add_Suc_right)
  moreover have "thread_ok fresh x2 (Some w')" using s(3) relinked_same(10) [OF r2] by blast
  moreover have "rowOf x2 node = ?row" using x2(5) x1(3) by (simp add: rowOf_def)
  moreover have "mayLink node x x2 k" if "k \<in> {0 ..< samplesOf x} - {node}" for k
  proof -
    have eq: "rowOf x1 k = rowOf x k" "lastOf x1 k = lastOf x k" using row_ok_same(2,3) [OF x1(2) other] that by blast+
    have "mayLink node x1 x2 k" using x2(4) that by blast
    then show ?thesis unfolding mayLink_def eq .
  qed
  ultimately show ?thesis using x2(2) r2 s(2) sel(2) by blast
qed

text \<open>Any way of relinking is a choice the contract of the head index leaves to the model's \<open>bh_AddIndexIdx\<close>.\<close>

lemma AddIndexIdx_ok:
  fixes x :: "'f :: linorder bktIndex"
  assumes fuel: "treeWork (bi_tree x) < fuel" "nat (samplesOf x) < fuel"
  shows "distinct ns \<Longrightarrow> set ns \<subseteq> {0 ..< samplesOf x} \<Longrightarrow> index_ok dim e S y \<Longrightarrow> thread_ok fresh y w \<Longrightarrow> relinked x y \<Longrightarrow>
    \<exists>x' w' refine. loopOver (\<lambda>node s. RefineNode fuel (Suc depth) fresh fill node True True (bi_addCEF (fst s)) s) ns (y, w) = Ret (x', w')
      \<and> index_ok dim e S x' \<and> thread_ok fresh x' w' \<and> relinked y x'
      \<and> refine_ok (bi_neighbors x) refine \<and> (\<forall>h node. node \<notin> set ns \<longrightarrow> refine h node = bh_graph h)
      \<and> fold (\<lambda>node h. h\<lparr>bh_graph := refine h node\<rparr>) ns (bi_head y) = bi_head x'"
proof (induction ns arbitrary: y w)
  case Nil
  have "relinked y y" using Nil.prems(3) relinked_refl by (auto simp: index_ok_def)
  moreover have "refine_ok (bi_neighbors x) (\<lambda>h node. bh_graph h)" by (simp add: refine_ok_def)
  ultimately show ?case using Nil by (intro exI [of _ y] exI [of _ w] exI [of _ "\<lambda>h node. bh_graph h"]) simp
next
  case (Cons n ns)
  note r = relinked_same [OF Cons.prems(5)]
  have n: "n \<in> {0 ..< samplesOf y}" "n \<notin> set ns" using Cons.prems(1,2) r(2) by simp_all
  have f: "treeWork (bi_tree y) < fuel" "nat (samplesOf y) < fuel" using fuel r(2,4) by simp_all
  obtain y1 w1 where y1: "RefineNode fuel (Suc depth) fresh fill n True True (bi_addCEF y) (y, w) = Ret (y1, Some w1)"
    "index_ok dim e S y1" "thread_ok fresh y1 (Some w1)" "relinked y y1"
    using RefineNode_ok [OF Cons.prems(3,4) n(1) f, of depth fill True True "bi_addCEF y"] by blast
  have "distinct ns" "set ns \<subseteq> {0 ..< samplesOf x}" using Cons.prems(1,2) by simp_all
  from Cons.IH [OF this y1(2,3) relinked_trans [OF Cons.prems(5) y1(4)]] obtain x' w' refine where
    x': "loopOver (\<lambda>node s. RefineNode fuel (Suc depth) fresh fill node True True (bi_addCEF (fst s)) s) ns (y1, Some w1) = Ret (x', w')"
    "index_ok dim e S x'" "thread_ok fresh x' w'" "relinked y1 x'" "refine_ok (bi_neighbors x) refine"
    "\<forall>h node. node \<notin> set ns \<longrightarrow> refine h node = bh_graph h"
    "fold (\<lambda>node h. h\<lparr>bh_graph := refine h node\<rparr>) ns (bi_head y1) = bi_head x'" by blast
  let ?refine = "\<lambda>h node. if node = n then (if h = bi_head y then bh_graph (bi_head y1) else bh_graph h) else refine h node"
  obtain g where g: "y1 = y\<lparr>bi_head := (bi_head y)\<lparr>bh_graph := g\<rparr>\<rparr>" "ds_inv (bi_neighbors y) 4 g"
    "ds_R g = ds_R (bh_graph (bi_head y))" "ds_maxRows g = ds_maxRows (bh_graph (bi_head y))"
    using y1(4) by (auto simp: relinked_def)
  have "refine_ok (bi_neighbors x) ?refine" using x'(5) g r(1) by (simp add: refine_ok_def)
  moreover have "\<forall>h node. node \<notin> set (n # ns) \<longrightarrow> ?refine h node = bh_graph h" using x'(6) by simp
  moreover have "fold (\<lambda>node h. h\<lparr>bh_graph := ?refine h node\<rparr>) (n # ns) (bi_head y) = bi_head x'"
  proof -
    have "fold (\<lambda>node h. h\<lparr>bh_graph := ?refine h node\<rparr>) ns h = fold (\<lambda>node h. h\<lparr>bh_graph := refine h node\<rparr>) ns h" for h
      by (rule fold_cong) (use n(2) in auto)
    moreover have "(bi_head y)\<lparr>bh_graph := ?refine (bi_head y) n\<rparr> = bi_head y1" using g(1) by simp
    ultimately show ?thesis using x'(7) by (simp only: fold_simps)
  qed
  moreover have "loopOver (\<lambda>node s. RefineNode fuel (Suc depth) fresh fill node True True (bi_addCEF (fst s)) s) (n # ns) (y, w) = Ret (x', w')"
    using y1(1) x'(1) by simp
  ultimately show ?case using x'(2,3) relinked_trans [OF y1(4) x'(4)] by blast
qed

section \<open>A new head\<close>

text \<open>\<open>AddIndexId\<close> gives the new head an empty row, on which the searches of the index still work.\<close>

lemma AddIndexId_graph:
  assumes inv: "bh_inv dim e deg h" and room: "bh_GetNumSamples h + 1 \<le> bh_room h" and a: "bh_AddIndexId h v 1 dim = Ret (Success, b, h')"
  shows "\<forall>j. 0 \<le> j \<and> j < bh_GetNumSamples h + 1 \<longrightarrow>
    ds_read (bh_graph h') j = (if j < bh_GetNumSamples h then ds_read (bh_graph h) j else Some (replicate (deg * 4) 255))"
proof -
  have i: "ds_inv deg 4 (bh_graph h)" "ds_R (bh_graph h) = bh_GetNumSamples h" using inv by (simp_all add: bh_inv_def bh_GetNumSamples_def)
  have g: "ds_AddBatch (bh_graph h) 1 None = Ret (Success, bh_graph h')"
    using a by (auto simp: bh_AddIndexId_def ng_AddBatch_def Let_def andThen_Ret_iff split: if_splits prod.splits)
  have "ds_R (bh_graph h) + 1 \<le> ds_maxRows (bh_graph h)" using room i(2) by (simp add: bh_room_def)
  then show ?thesis using dsrows.add_in [OF i(1), of 1] g i(2) by auto
qed

lemma blank_row: "map dec_sint (entriesOf 4 (replicate (n * 4) 255)) = replicate n (- 1)"
proof (rule nth_equalityI)
  fix i assume "i < length (map dec_sint (entriesOf 4 (replicate (n * 4) 255)))"
  then have i: "i < n" by simp
  then have "entriesOf 4 (replicate (n * 4) 255) ! i = replicate (min 4 (n * 4 - i * 4)) 255" by (simp add: entriesOf_nth min_def)
  also have "min 4 (n * 4 - i * 4) = 4" using i by simp
  finally show "map dec_sint (entriesOf 4 (replicate (n * 4) 255)) ! i = replicate n (- 1) ! i" using i by (simp add: dec_sint_blank)
qed simp

lemma row_ok_more: "row_ok R x k \<Longrightarrow> R \<le> R' \<Longrightarrow> row_ok R' x k"
  by (fastforce simp: row_ok_def Let_def)

lemma AddIndexId_index:
  fixes x :: "'f :: linorder bktIndex"
  assumes x: "index_ok dim e S x" and room: "samplesOf x + 1 \<le> bh_room (bi_head x)" "samplesOf x + 1 \<le> 2 ^ 31" "0 < samplesOf x"
    and v: "length v = dim * e"
  shows "\<exists>h. bh_AddIndexId (bi_head x) v 1 dim = Ret (Success, Some (samplesOf x), h) \<and> index_ok dim e S (x\<lparr>bi_head := h\<rparr>)
    \<and> bh_GetNumSamples h = samplesOf x + 1 \<and> ds_list (bh_samples h) = ds_list (bh_samples (bi_head x)) @ [v] \<and> bh_gone h = bh_gone (bi_head x)
    \<and> (\<forall>k \<in> {0 ..< samplesOf x}. rowOf (x\<lparr>bi_head := h\<rparr>) k = rowOf x k)"
proof -
  let ?R = "samplesOf x"
  have inv: "bh_inv dim e (bi_neighbors x) (bi_head x)" using x by (simp add: index_ok_def)
  obtain h where h: "bh_AddIndexId (bi_head x) v 1 dim = Ret (Success, Some ?R, h)" "bh_inv dim e (bi_neighbors x) h"
    "ds_list (bh_samples h) = ds_list (bh_samples (bi_head x)) @ [v]" "bh_gone h = bh_gone (bi_head x)"
    using bh_AddIndexId_inv [OF inv room(1,3) v] by blast
  let ?x = "x\<lparr>bi_head := h\<rparr>"
  have num: "bh_GetNumSamples h = ?R + 1" using bkt.num_law [OF h(2)] bkt.num_law [OF inv] h(3) by simp
  have rows: "bi_row ?x k = (if k < ?R then bi_row x k else Ret (replicate (bi_neighbors x) (- 1)))" if "k \<in> {0 ..< ?R + 1}" for k
    using AddIndexId_graph [OF inv room(1) h(1)] that blank_row by (auto simp: bi_row_def)
  have old: "row_ok ?R x k" if "k \<in> {0 ..< ?R}" for k using x that by (simp add: index_ok_def)
  have row: "row_ok (?R + 1) ?x k" if k: "k \<in> {0 ..< ?R + 1}" for k
  proof (cases "k < ?R")
    case True
    have "row_ok (?R + 1) x k" using row_ok_more [OF old] True k by simp
    moreover have "row_ok (?R + 1) ?x k = row_ok (?R + 1) x k" using rows [OF k] True by (simp add: row_ok_def rowOf_def lastOf_def)
    ultimately show ?thesis by simp
  next
    case False
    then have r: "bi_row ?x k = Ret (replicate (bi_neighbors x) (- 1))" using rows [OF k] by simp
    then have "rowOf ?x k = replicate (bi_neighbors x) (- 1)" by (simp add: rowOf_def)
    then show ?thesis using r x room(3) by (simp add: row_ok_def lastOf_def index_ok_def)
  qed
  have "centerid (tr_nodes (bi_tree x) ! i) \<le> ?R" if "i \<in> S" for i using x that by (force simp: index_ok_def)
  then have "index_ok dim e S ?x" using x h(2) num room(2) row unfolding index_ok_def by simp
  moreover have "\<forall>k \<in> {0 ..< ?R}. rowOf ?x k = rowOf x k" using rows by (simp add: rowOf_def)
  ultimately show ?thesis using h num by blast
qed

end
