(* ===== verification/TreeReady.thy ===== *)
theory TreeReady
  imports TreeProps GraphSearch
begin

text \<open>
  Trees made by \<open>BuildTrees\<close> (AnnService/inc/Core/Common/BKTree.h) are trees that the searches of the head index work on.
\<close>

section \<open>One tree\<close>

text \<open>A set of nodes a search can come to: their centres are samples, and the children of an inner node come behind it.\<close>

definition reach_ok :: "int \<Rightarrow> bktNode list \<Rightarrow> nat set \<Rightarrow> bool" where
  "reach_ok R ns S \<longleftrightarrow> (\<forall>i \<in> S. i < length ns \<and> centerid (ns ! i) \<in> {0 ..< R}
     \<and> (0 \<le> childStart (ns ! i) \<longrightarrow> (\<forall>j. childStart (ns ! i) \<le> j \<longrightarrow> j < childEnd (ns ! i) \<longrightarrow> i < nat j \<and> nat j \<in> S)))"

definition start_ok :: "bktNode list \<Rightarrow> nat set \<Rightarrow> nat \<Rightarrow> bool" where
  "start_ok ns S b \<longleftrightarrow> b < length ns \<and> (if childStart (ns ! b) < 0 then b \<in> S
     else \<forall>j. childStart (ns ! b) \<le> j \<longrightarrow> j < childEnd (ns ! b) \<longrightarrow> nat j \<in> S)"

lemma reach_Union: "\<forall>S \<in> A. reach_ok R ns S \<Longrightarrow> reach_ok R ns (\<Union> A)"
  by (fastforce simp: reach_ok_def)

lemma start_more: "start_ok ns S b \<Longrightarrow> S \<subseteq> S' \<Longrightarrow> start_ok ns S' b"
  by (auto simp: start_ok_def split: if_splits)

lemma tree_ready:
  assumes t: "tree_ok rix lix b stop ns" and R: "\<forall>k \<in> set lix. cidOf rix k \<in> {0 ..< R}"
  shows "\<exists>S. reach_ok R ns S \<and> start_ok ns S b"
proof -
  let ?ms = "map centerid (drop b (take stop ns))"
  obtain order where bs: "b < stop" "stop < length ns" and sh: "tree_shape b (take stop ns) order"
    and alt: "mset ?ms = add_mset (int (length lix)) (mset (map (cidOf rix) lix)) \<and> centerid (ns ! b) = int (length lix) \<and> 0 \<le> childStart (ns ! b)
      \<or> mset ?ms = mset (map (cidOf rix) lix) \<and> childStart (ns ! b) < 0"
    using t by (auto simp: tree_ok_def)
  have d: "drop b (take stop ns) = ns ! b # drop (Suc b) (take stop ns)" using bs by (simp add: Cons_nth_drop_Suc [symmetric])
  have kids: "i < nat j \<and> nat j < stop" if "b \<le> i" "i < stop" "0 \<le> childStart (ns ! i)" "childStart (ns ! i) \<le> j" "j < childEnd (ns ! i)" for i j
  proof -
    have "i \<in> set order" using sh that(1-3) bs(2) by (force simp: tree_shape_def)
    then have "int i < \<bar>childStart (take stop ns ! i)\<bar>" "childEnd (take stop ns ! i) \<le> int (length (take stop ns))"
      using sh unfolding tree_shape_def by blast+
    then have "int i < childStart (ns ! i)" "childEnd (ns ! i) \<le> int stop" using that(2,3) bs(2) by simp_all
    then show ?thesis using that(4,5) by auto
  qed
  have centre: "centerid (ns ! i) \<in> {0 ..< R}" if "set (map centerid (drop a (take stop ns))) \<subseteq> set (map (cidOf rix) lix)" "a \<le> i" "i < stop" for a i
  proof -
    have "ns ! i \<in> set (drop a (take stop ns))" using that(2,3) bs(2) by (auto simp: in_set_conv_nth intro!: exI [of _ "i - a"])
    then show ?thesis using that(1) R by auto
  qed
  from alt show ?thesis
  proof (elim disjE conjE)
    assume a: "mset ?ms = add_mset (int (length lix)) (mset (map (cidOf rix) lix))" "centerid (ns ! b) = int (length lix)" "0 \<le> childStart (ns ! b)"
    then have "mset (map centerid (drop (Suc b) (take stop ns))) = mset (map (cidOf rix) lix)" unfolding d by simp
    then have c: "set (map centerid (drop (Suc b) (take stop ns))) \<subseteq> set (map (cidOf rix) lix)" by (metis order_refl set_mset_mset)
    have "reach_ok R ns {Suc b ..< stop}" unfolding reach_ok_def
    proof (intro ballI conjI impI allI)
      fix i assume i: "i \<in> {Suc b ..< stop}"
      show "i < length ns" "centerid (ns ! i) \<in> {0 ..< R}" using i bs centre [OF c, of i] by simp_all
      fix j assume "0 \<le> childStart (ns ! i)" "childStart (ns ! i) \<le> j" "j < childEnd (ns ! i)"
      then show "i < nat j" "nat j \<in> {Suc b ..< stop}" using kids [of i j] i by auto
    qed
    moreover have "start_ok ns {Suc b ..< stop} b" unfolding start_ok_def using a(3) bs kids [of b] by fastforce
    ultimately show ?thesis by blast
  next
    assume a: "mset ?ms = mset (map (cidOf rix) lix)" "childStart (ns ! b) < 0"
    then have c: "set ?ms \<subseteq> set (map (cidOf rix) lix)" by (metis order_refl set_mset_mset)
    have "reach_ok R ns {b ..< stop}" unfolding reach_ok_def
    proof (intro ballI conjI impI allI)
      fix i assume i: "i \<in> {b ..< stop}"
      show "i < length ns" "centerid (ns ! i) \<in> {0 ..< R}" using i bs centre [OF c, of i] by simp_all
      fix j assume "0 \<le> childStart (ns ! i)" "childStart (ns ! i) \<le> j" "j < childEnd (ns ! i)"
      then show "i < nat j" "nat j \<in> {b ..< stop}" using kids [of i j] i by auto
    qed
    moreover have "start_ok ns {b ..< stop} b" unfolding start_ok_def using a(2) bs by simp
    ultimately show ?thesis by blast
  qed
qed

section \<open>The forest\<close>

lemma forest_ready:
  assumes f: "forest rix lix (tr_start t) (tr_nodes t)" and R: "\<forall>k \<in> set lix. cidOf rix k \<in> {0 ..< R}"
    and n: "length (tr_start t) = tr_number t" "tr_number t \<le> 127"
  shows "\<exists>S. trees_ok S t \<and> reach_ok R (tr_nodes t) S"
proof -
  let ?ns = "tr_nodes t" and ?n = "length (tr_start t)"
  obtain bounds where b: "length bounds = Suc ?n" "tr_start t = map int (butlast bounds)"
    "\<forall>j < ?n. tree_ok rix lix (bounds ! j) (bounds ! Suc j - 1) ?ns"
    using f unfolding forest_def by blast
  have "\<forall>j < ?n. \<exists>S. reach_ok R ?ns S \<and> start_ok ?ns S (bounds ! j)" using b(3) tree_ready [OF _ R] by blast
  then obtain S where S: "\<forall>j < ?n. reach_ok R ?ns (S j) \<and> start_ok ?ns (S j) (bounds ! j)" by metis
  let ?S = "\<Union> (S ` {..< ?n})"
  have "\<forall>A \<in> S ` {..< ?n}. reach_ok R ?ns A" using S by (metis imageE lessThan_iff)
  then have "reach_ok R ?ns ?S" by (rule reach_Union)
  moreover have "trees_ok ?S t"
    unfolding trees_ok_def
  proof (intro conjI ballI)
    fix s assume "s \<in> set (tr_start t)"
    then obtain j where j: "j < ?n" "s = tr_start t ! j" by (auto simp: in_set_conv_nth)
    have "j < length (butlast bounds)" using b(1) j(1) by simp
    then have s: "s = int (bounds ! j)" using j(2) unfolding b(2) by (simp add: nth_butlast)
    have "S j \<subseteq> ?S" using j(1) by blast
    then have "start_ok ?ns ?S (bounds ! j)" using S j(1) start_more by blast
    then show "0 \<le> s" "nat s < length ?ns" "if childStart (?ns ! nat s) < 0 then nat s \<in> ?S
        else \<forall>j. childStart (?ns ! nat s) \<le> j \<longrightarrow> j < childEnd (?ns ! nat s) \<longrightarrow> nat j \<in> ?S"
      unfolding s start_ok_def nat_int by (simp only: of_nat_0_le_iff | blast)+
  qed (use n in simp_all)
  ultimately show ?thesis by blast
qed

text \<open>A head index over such trees is well formed when its rows name samples only.\<close>

lemma built_index:
  fixes x :: "'f :: linorder bktIndex"
  assumes f: "forest rix lix (tr_start t) (tr_nodes t)" and ids: "\<forall>k \<in> set lix. cidOf rix k \<in> {0 ..< samplesOf x}"
    and n: "length (tr_start t) = tr_number t" "tr_number t \<le> 127"
    and h: "bh_inv dim e (bi_neighbors x) (bi_head x)" "samplesOf x \<le> 2 ^ 31" "0 < bi_neighbors x" "\<forall>u v. bi_distance x u v \<le> bi_maxDist x"
    and rows: "\<forall>k \<in> {0 ..< samplesOf x}. \<exists>row. bi_row x k = Ret row \<and> length row = bi_neighbors x \<and> set row \<subseteq> {- 1 ..< samplesOf x}"
  shows "\<exists>S. index_ok dim e S (x\<lparr>bi_tree := t\<rparr>)"
proof -
  let ?x = "x\<lparr>bi_tree := t\<rparr>"
  obtain S where S: "trees_ok S t" "reach_ok (samplesOf x) (tr_nodes t) S" using forest_ready [OF f ids n] by blast
  have "row_ok (samplesOf x) ?x k" if k: "k \<in> {0 ..< samplesOf x}" for k
  proof -
    obtain row where r: "bi_row x k = Ret row" "length row = bi_neighbors x" "set row \<subseteq> {- 1 ..< samplesOf x}" using bspec [OF rows k] by blast
    then have "row ! (bi_neighbors x - 1) \<in> set row" using h(3) by simp
    then have "row ! (bi_neighbors x - 1) \<in> {- 1 ..< samplesOf x}" using r(3) by blast
    then have "\<not> row ! (bi_neighbors x - 1) < - 1" by simp
    moreover have "bi_row ?x k = Ret row" using r(1) by (simp add: bi_row_def)
    moreover have "\<forall>n \<in> set row. n < samplesOf x" using r(3) by (metis atLeastLessThan_iff subsetD)
    ultimately show ?thesis using r(2) by (simp add: row_ok_def rowOf_def lastOf_def)
  qed
  then have "index_ok dim e S ?x" using S h by (simp add: index_ok_def reach_ok_def)
  then show ?thesis by blast
qed

end
