(* ===== verification/HeadClaims.thy ===== *)
theory HeadClaims
  imports GraphLinks TreeReady TreeClaims DynClaims
begin

text \<open>
  The properties of the search of the head index (src/Core/BKT/BKTIndex.cpp) and of linking a new head, with indexes of one
  and two heads on which they run.
\<close>

unbundle bit_operations_syntax

section \<open>Tables for two samples\<close>





section \<open>The searches of the index\<close>


text \<open>The two heads 255 and 12 below one root, without neighbours, and the distance of bytes.\<close>

definition headTwo :: "int bktIndex" where
  "headTwo = \<lparr>bi_head = bhTwo, bi_tree = \<lparr>tr_start = [0],
       tr_nodes = [\<lparr>centerid = 2, childStart = 1, childEnd = 3\<rparr>, newNode 0, newNode 1, newNode (- 1)], tr_sampleMap = Map.empty,
       tr_number = 1, tr_kmeansK = 2, tr_leafSize = 1, tr_samples = 1000, tr_bfs = True, tr_balance = 100\<rparr>,
     bi_neighbors = 1, bi_maxCheck = 16, bi_maxCheckForRefineGraph = 16, bi_hashExp = 2, bi_initialPivots = 50, bi_otherPivots = 4,
     bi_distance = (\<lambda>a b. \<bar>uint (hd a) - uint (hd b)\<bar>), bi_scale = (\<lambda>d. d * 11 div 10), bi_big = 1000, bi_rng = id, bi_addCEF = 3, bi_maxDist = 1000\<rparr>"

lemma headTwo_ok: "index_ok 1 1 {1, 2} headTwo"
proof -
  have rows: "bi_row headTwo 0 = Ret [- 1]" "bi_row headTwo 1 = Ret [- 1]" by code_simp+
  have "k = 0 \<or> k = 1" if "0 \<le> k" "k < 2" for k :: int using that by auto
  moreover have "row_ok 2 headTwo k" if "k = 0 \<or> k = 1" for k
    using that rows by (auto simp: row_ok_def rowOf_def lastOf_def headTwo_def)
  ultimately have row: "\<forall>k \<in> {0 ..< 2}. row_ok 2 headTwo k" by simp
  have j: "j = 1 \<or> j = 2" if "1 \<le> j" "j < 3" for j :: int using that by auto
  have "\<bar>uint (hd a) - uint (hd b)\<bar> \<le> 1000" for a b :: bytes
  proof -
    have "uint (hd a) < 256" "uint (hd b) < 256" "0 \<le> uint (hd a)" "0 \<le> uint (hd b)"
      using uint_bounded [of "hd a"] uint_bounded [of "hd b"] by simp_all
    then show ?thesis by linarith
  qed
  moreover have "trees_ok {1, 2} (bi_tree headTwo)"
    using j by (force simp: trees_ok_def headTwo_def newNode_def numeral_eq_Suc)
  moreover have "samplesOf headTwo = 2" by (simp add: headTwo_def bhTwo)
  ultimately show ?thesis using row bhTwo(1) unfolding index_ok_def
    by (simp add: headTwo_def newNode_def numeral_eq_Suc)
qed



section \<open>Adding a head\<close>





section \<open>New trees\<close>

text \<open>
  C15 The trees that \<open>BuildTrees\<close> makes for the heads of an index, from an empty \<open>BKTree\<close> and over all of them, make it well
  formed, as long as the rows of its graph name heads only: every way down from a start meets heads, and ends. So the
  searches above return on it.
\<close>

theorem BuildTrees_searchable:
  fixes e :: "('r, 'v, 'a, 'f :: linorder) kmEnv"
  assumes "build_ok e data None dynamicK (map int [0 ..< R]) t" "tr_start t = []" "tr_nodes t = []" "0 < R"
    and "args_ok R (tr_kmeansK t) (newArgs (tr_kmeansK t) R threads)" "tr_number t \<le> 127" "R < fuel"
    and "bh_inv dim es (bi_neighbors x) (bi_head x)" "samplesOf x = int R" "R \<le> 2 ^ 31" "0 < bi_neighbors x"
    and "\<forall>u v. bi_distance x u v \<le> bi_maxDist x"
    and "\<forall>k \<in> {0 ..< int R}. \<exists>row. bi_row x k = Ret row \<and> length row = bi_neighbors x \<and> set row \<subseteq> {- 1 ..< int R}"
  shows "\<exists>t' r' S. BuildTrees fuel e factors hundred maxFloat newArgs data R threads None None dynamicK t r = Ret (t', r')
    \<and> index_ok dim es S (x\<lparr>bi_tree := t'\<rparr>)"
proof -
  let ?ids = "map int [0 ..< R]"
  have len: "length ?ids = R" by simp
  obtain t' r' where b: "BuildTrees fuel e factors hundred maxFloat newArgs data R threads None None dynamicK t r = Ret (t', r')"
    "length (tr_start t') = tr_number t" "forest None ?ids (tr_start t') (tr_nodes t')" "tr_number t' = tr_number t"
    using BuildTrees_ok [where indices = None and R = R and newArgs = newArgs and threads = threads and fuel = fuel, OF assms(1-3) _ _ _ assms(6)]
      assms(4,5,7) len by fastforce
  have "\<forall>k \<in> set ?ids. cidOf None k \<in> {0 ..< samplesOf x}" using assms(9) by (auto simp: cidOf_def)
  from built_index [OF b(3) this] b(2,4) assms(6,8-13) show ?thesis using b(1) by auto
qed

text \<open>Two trees for the two heads of the index above.\<close>

theorem BuildTrees_searchable_witness:
  "\<exists>t' r' S. BuildTrees 5 toyEnv [1, 10] 100 1000 toyArgs toyData 2 1 None None False toyTree 0 = Ret (t', r')
    \<and> index_ok 1 1 S (headTwo\<lparr>bi_tree := t'\<rparr>)"
proof -
  have t: "tr_kmeansK toyTree = 2" "tr_number toyTree = 2" "tr_start toyTree = []" "tr_nodes toyTree = []" "tr_samples toyTree = 1000"
    by (simp_all add: toyTree_def)
  have "set (map int [0 ..< 2]) \<subseteq> {0, 1, 2, 3}" by auto
  then have b: "build_ok toyEnv toyData None False (map int [0 ..< 2]) toyTree"
    using toyData_ok by (simp add: build_ok_def t rix_ok_def)
  have a: "args_ok 2 (tr_kmeansK toyTree) (toyArgs (tr_kmeansK toyTree) 2 1)"
    using toyArgs_ok [of 2 1 2] unfolding args_ok_def t by simp
  have h: "bh_inv 1 1 (bi_neighbors headTwo) (bi_head headTwo)" "samplesOf headTwo = int 2" "0 < bi_neighbors headTwo"
    "\<forall>u v. bi_distance headTwo u v \<le> bi_maxDist headTwo"
    using headTwo_ok bhTwo by (simp_all add: headTwo_def index_ok_def)
  have "bi_row headTwo 0 = Ret [- 1]" "bi_row headTwo 1 = Ret [- 1]" by code_simp+
  moreover have "k = 0 \<or> k = 1" if "0 \<le> k" "k < 2" for k :: int using that by auto
  ultimately have rows: "\<forall>k \<in> {0 ..< int 2}. \<exists>row. bi_row headTwo k = Ret row \<and> length row = bi_neighbors headTwo \<and> set row \<subseteq> {- 1 ..< int 2}"
    by (force simp: headTwo_def)
  show ?thesis
    by (rule BuildTrees_searchable [where newArgs = toyArgs and threads = 1, OF b t(3,4) _ a _ _ h(1,2) _ h(3,4) rows]) (simp_all add: t(2))
qed

end
