(* ===== verification/Spec2Isabelle.thy ===== *)
theory Spec2Isabelle
  imports AtomicLoops BlockPersist SearchQueues DedupHash ThreadPools StaticSearch DynBuildProps DynMergeClaims SocketProps TreeClaims SplitClaims HeadClaims
begin

text \<open>
  A verification development for SPFresh, a vector index on disk with updates in place. Sources are named from src/, and
  \<open>inc\<close> stands for AnnService/inc, \<open>src\<close> for AnnService/src.

  \<^bold>\<open>The program.\<close> An index has a set of head vectors in memory and one posting list per head on disk: the vectors
  near that head, each with its id and a version byte. The heads are a \<open>BKT::Index\<close>: a \<open>Dataset\<close> of vectors with a
  \<open>Labelset\<close> of deletion marks, a graph of neighbours, and the trees of a balanced k-means that give its searches a start. The posting lists are either frozen in an index file (\<open>ExtraStaticSearcher\<close>) or kept
  in a key-value store and updated in place (\<open>ExtraDynamicSearcher\<close> over \<open>KeyValueIO\<close>, whose block store on SSD pages is
  \<open>SPDKIO\<close>). An insertion appends to the postings of the nearest heads; a posting that grows too long is collected
  and split in two by clustering, a posting that shrinks is merged into a neighbour, and vectors left with a head that
  is no longer the nearest are reassigned under a new version. \<open>VersionLabel\<close> has the current version of each vector or the mark
  that it is deleted, so that old copies on disk are skipped and collected later; \<open>PostingSizeRecord\<close> has the
  length of each posting. A query searches the heads, reads the postings of the heads found, drops stale copies and
  duplicates (\<open>OptHashPosVector\<close>) and keeps the nearest in a \<open>QueryResultSet\<close>. Splits, merges and reassignments are jobs
  of a \<open>ThreadPool\<close>. The search service sends queries and results in the formats of \<open>inc/Socket\<close>.

  \<^bold>\<open>Theories and the code they model.\<close>

  \<^item> Prelude: bytes, little-endian integers, list and map lemmas and the collections of hints the others use.
  \<^item> CommonDefs: error codes (inc/Core/DefinitionList.h), constants (inc/Core/Common.h), byte streams and the macro
    \<open>IOBINARY\<close> (inc/Helper/DiskIO.h).
  \<^item> DatasetStore, DatasetProps: \<open>COMMON::Dataset\<close> (inc/Core/Common/Dataset.h), the rows in blocks as raw bytes; the
    invariant \<open>ds_ok\<close>, the abstraction to a list of rows, and every operation as a list operation.
  \<^item> Labels, LabelProps, AtomicLoops: \<open>VersionLabel\<close>, \<open>Labelset\<close>, \<open>PostingSizeRecord\<close> (inc/Core/Common), first as sequential
    operations, then their compare-and-swap loops as a step relation for any number of threads.
  \<^item> BlockStore, BlockProps, BlockRefine, KeyValueStore, BlockClaims, BlockPersist: \<open>SPDKIO\<close> and its \<open>BlockController\<close>
    (inc and src/Core/SPANN/ExtraSPDKController). The store is an explicit heap of address arrays, a mapping of pointers
    and a device of pages. The abstract specification is a map from keys to byte strings; BlockRefine is the
    refinement, KeyValueStore the locale \<open>kv_store\<close> of \<open>KeyValueIO\<close> with its interpretation on \<open>SPDKIO\<close>, BlockPersist the mapping
    file and the restart.
  \<^item> BinaryHeap, QueryResults, SearchQueues: the array heaps shared by \<open>QueryResultSet\<close>, \<open>Heap\<close> and \<open>DistPriorityQueue\<close>
    (inc/Core/Common/QueryResultSet.h, Heap.h, WorkSpace.h, inc/Core/SearchQuery.h), one sift loop with one order.
  \<^item> DedupHash: \<open>OptHashPosVector\<close> (WorkSpace.h). ThreadPools: inc/Helper/ThreadPool.h as a step relation.
  \<^item> Postings: the bytes of a posting, as every component reads and writes them. HeadIndex: the operations of \<open>BKT::Index\<close>
    (src/Core/BKT/BKTIndex.cpp) the posting searcher calls, and the locale \<open>head_index\<close>.
  \<^item> KMeans, KShuffle, KAssign, KClusters: the balanced k-means of inc/Core/Common/BKTree.h on the arrays of \<open>KmeansArgs\<close>, for any
    number of threads; \<open>KmeansClustering\<close> permutes its range and divides it into stretches around the centres.
  \<^item> TreeBuild, TreeProps, TreeStore, TreeClaims: the \<open>BKTree\<close> of the same file. \<open>BuildTrees\<close> with its stack, the shape and the
    centres of the trees it makes, and the tree file. SplitKmeans, SplitClaims: the clustering \<open>Split\<close> calls is this one, and meets
    what the searcher asks of it.
  \<^item> HeadSearch, TreeSearch, GraphSearch, TreeReady, HeadClaims: the \<open>WorkSpace\<close> of a thread (WorkSpace.h), the searches of
    the trees (BKTree.h) and of the graph (\<open>Search\<close>, \<open>SearchIndex\<close>, \<open>RefineSearchIndex\<close> and \<open>SearchTree\<close> of BKTIndex.cpp), what they
    answer, and that new trees are trees they work on. GraphRefine, GraphLinks: \<open>RebuildNeighbors\<close>, \<open>InsertNeighbors\<close>
    (RelativeNeighborhoodGraph.h), \<open>RefineNode\<close> (NeighborhoodGraph.h) and \<open>AddIndexIdx\<close>, which link a new head.
  \<^item> DynSearcher, with DynSplit, DynReassign, DynUpdate, DynMerge, DynSearch: \<open>ExtraDynamicSearcher\<close>
    (inc/Core/SPANN/ExtraDynamicSearcher.h), one definition per method; the four lemma theories prove each method in the
    locale \<open>dyn_searcher\<close> for any store and any head index with the laws of their contracts. DynClaims,
    DynUpdateClaims and DynMergeClaims interpret it on \<open>SPDKIO\<close> and \<open>BKT::Index\<close> and state the properties there.
  \<^item> IndexBuild, BuildProps, DynBuild, DynBuildProps: \<open>BuildIndex\<close> of both searchers, \<open>ApproximateRNG\<close> and
    \<open>SortSelections\<close> (src/Core/VectorIndex.cpp), and the bulk operations of the dynamic searcher.
  \<^item> StaticLayout, Compressors, StaticFile, StaticSearcher, StaticProps, StaticRoundTrip, StaticSearch:
    \<open>ExtraStaticSearcher\<close> and \<open>Compressor\<close> (inc/Core/SPANN): the placing of postings on pages, the files written, what
    loading reads back, and \<open>SearchIndex\<close>.
  \<^item> SocketFormats, SocketProps: SimpleSerialization.h, Packet and RemoteSearchQuery (inc and src/Socket).

  \<^bold>\<open>How the code is rendered.\<close> A class is a record and a method a function from it to its answer and the new record. \<open>SizeType\<close>
  and \<open>DimensionType\<close> are integers of type \<open>int\<close> with the bound \<open>MaxSize\<close> where the code tests it; version bytes, hash
  arithmetic and everything that is written to a file are words or bytes of their width. A method that can fault (an access
  out of range, a null or freed pointer) or throw answers an \<open>outcome\<close>; error codes are the datatype \<open>ErrorCode\<close>. Distances
  are any linear order, since the code only compares them; where it computes with them the function is a parameter. The
  order in which threads, completions or hash tables deliver is an argument and the properties hold for all of them.

  \<^bold>\<open>Parameters.\<close> What the model takes as an argument is code outside the modelled part: the distance function and the
  floating-point arithmetic of the clustering, zstd, random numbers, what new memory holds. The lemmas of the posting searcher
  also take the clustering of a split (\<open>kmeansResult\<close>), the answer of the head search and the choice of \<open>RefineNode\<close> as arguments,
  so that they hold for every such choice; SplitClaims, GraphSearch and GraphLinks show what the program's own code for
  them does, and that \<open>AddIndexIdx\<close> is one of the choices. The laws a property needs are its premises or the assumptions of a locale, and each has a witness.

  \<^bold>\<open>What the lemmas show.\<close> Each component has an invariant kept by every operation (\<open>ds_ok\<close>, \<open>sp_ok\<close>, the heap order, the set
  held by the hash, \<open>pool\<close> reachability), and its operations are given by an equation over the abstraction: lists of rows, maps
  from keys to bytes, multisets of results, sets of ids, centres of clusters and trees. A head index is well formed (\<open>index_ok\<close>)
  when its tables agree, its rows name heads and every way down its trees meets heads and ends: its searches return and
  answer the best of what they took, and adding a head keeps it so. The store refines a map, alone and through sequences of
  operations. The searcher's lemmas give each method's effect on the postings seen as a map from head to entries. The
  properties with their numbers are the theorems behind the blocks that begin with their ids.

  \<^bold>\<open>Bounds and fuel.\<close> \<open>OptHashPosVector\<close>: the probe loop of a block stops after \<open>oh_maxLoop\<close> steps as in the code; doubling
  repeats until an insertion fits, and the overflow of the table's size is the property where it does not return.
  \<open>dy_gcLoop\<close> and \<open>RefineIndex\<close> repeat until the queues are empty and take fuel; the properties say which fuel is enough
  or what holds of any number of rounds. The searches of the trees end because the nodes below those on the queue become fewer
  (\<open>treeWork\<close>), the search of the graph because it takes no head twice; the clustering's rounds are bounded by the code, its
  inner loops by the length of the range, and \<open>BuildTrees\<close> by the sum of the ranges on its stack. The set of seen heads
  needs room for them (\<open>oh_fits\<close>), since a table that must double may not return. \<open>SelectPostingOffset\<close> ends by the measure of the lists not yet placed. The
  compare-and-swap loops are steps, with progress stated as obstruction freedom.

  \<^bold>\<open>Not modelled.\<close> Timing, statistics and log output everywhere; the RocksDB controller (a library the sources call); asynchronous
  file handles (system calls); SIMD and GPU distance kernels and product quantisation (floating-point arithmetic); the first
  construction of the neighbour graph, KDT trees and the selection of heads (drivers on many threads); the network
  connections and the service executables (pure I/O); parameter and INI parsing of the drivers. The manifest lists every
  such part with its reason. Atomicity of the shared tables is modelled in AtomicLoops and ThreadPools; elsewhere methods run one
  at a time, as the locks of the code are taken around their bodies.
\<close>


end
